(* ===== verification/Prelude.thy ===== *)
theory Prelude
  imports Main "HOL-Library.Word"
begin

text \<open>
  Shared vocabulary of the development: the machine types of the 64-bit Linux build, the error
  numbers of \<^verbatim>\<open>errors.h\<close>, the outcome type of code that may leave a function through
  \<^verbatim>\<open>exception()\<close> (a \<^verbatim>\<open>longjmp\<close> to the innermost trap), and the generic lemmas on
  outcomes, lists and bytes that the component theories use.

  An outcome \<open>Inl e\<close> is a non-local exit, \<open>Inr x\<close> a normal return. Besides the
  exceptions that the code raises itself there are two other exits: a failed \<^verbatim>\<open>assert\<close>,
  and an operation to which the C standard gives no meaning (a shift by the width of the type or
  more, signed overflow, an access outside of an array). The model stops there instead of giving
  such an operation a made-up result. A loop that need not end is given
  fuel; \<open>Out_Of_Fuel\<close> is the value of a run that is not over when it is used up.
\<close>

unbundle bit_operations_syntax

section \<open>Machine types\<close>

type_synonym byte = "8 word"
type_synonym u16 = "16 word"
type_synonym u32 = "32 word"
type_synonym u64 = "64 word"

text \<open>A C string is its list of non-zero bytes; \<^verbatim>\<open>NULL\<close> is \<open>None\<close>.\<close>

type_synonym cstring = "byte list"

section \<open>Errors and outcomes\<close>

datatype err =
    ERR_OTHER | ERR_JSON_SYNTAX | ERR_PROTOCOL | ERR_BUFFER_OVERFLOW | ERR_CHANNEL_CLOSED
  | ERR_COMMAND_CANCELLED | ERR_UNKNOWN_PEER | ERR_BASE64 | ERR_EOF | ERR_ALREADY_STOPPED
  | ERR_ALREADY_EXITED | ERR_ALREADY_RUNNING | ERR_ALREADY_ATTACHED | ERR_IS_RUNNING
  | ERR_INV_DATA_SIZE | ERR_INV_CONTEXT | ERR_INV_ADDRESS | ERR_INV_EXPRESSION
  | ERR_INV_FORMAT | ERR_INV_NUMBER | ERR_INV_DWARF | ERR_SYM_NOT_FOUND | ERR_UNSUPPORTED
  | ERR_INV_DATA_TYPE | ERR_INV_COMMAND | ERR_INV_TRANSPORT | ERR_CACHE_MISS | ERR_NOT_ACTIVE
  | ERR_INV_CONT_OBJ
  | SYS_ERRNO int

datatype exn =
    Exception err string
  | Assertion_Failed
  | Undefined_Behaviour
  | Out_Of_Fuel

type_synonym 'a outcome = "exn + 'a"

definition exception :: "err \<Rightarrow> 'a outcome" where
  "exception e = Inl (Exception e '''')"

definition str_exception :: "err \<Rightarrow> string \<Rightarrow> 'a outcome" where
  "str_exception e msg = Inl (Exception e msg)"

definition rbind :: "'a outcome \<Rightarrow> ('a \<Rightarrow> 'b outcome) \<Rightarrow> 'b outcome" where
  "rbind m f = (case m of Inl e \<Rightarrow> Inl e | Inr x \<Rightarrow> f x)"

definition assert_that :: "bool \<Rightarrow> 'a outcome \<Rightarrow> 'a outcome" where
  "assert_that P m = (if P then m else Inl Assertion_Failed)"

definition is_exception :: "exn \<Rightarrow> bool" where
  "is_exception e = (case e of Exception _ _ \<Rightarrow> True | _ \<Rightarrow> False)"

named_theorems outcome_simps

lemma rbind_Inl [simp]: "rbind (Inl e) f = Inl e"
  by (simp add: rbind_def)

lemma rbind_Inr [simp]: "rbind (Inr x) f = f x"
  by (simp add: rbind_def)

lemma rbind_cong [fundef_cong]:
  "m = m' \<Longrightarrow> (\<And>x. m' = Inr x \<Longrightarrow> f x = g x) \<Longrightarrow> rbind m f = rbind m' g"
  by (cases m') (auto simp: rbind_def)

lemma rbind_eq_Inr_iff:
  "rbind m f = Inr y \<longleftrightarrow> (\<exists>x. m = Inr x \<and> f x = Inr y)"
  by (cases m) auto

lemma rbind_eq_Inl_iff:
  "rbind m f = Inl e \<longleftrightarrow> m = Inl e \<or> (\<exists>x. m = Inr x \<and> f x = Inl e)"
  by (cases m) auto

lemma rbind_assoc: "rbind (rbind m f) g = rbind m (\<lambda>x. rbind (f x) g)"
  by (cases m) auto

lemma rbind_return [simp]: "rbind m Inr = m"
  by (cases m) auto

lemma rbind_split_Inr:
  assumes "rbind m f = Inr y"
  obtains x where "m = Inr x" "f x = Inr y"
  using assms by (auto simp: rbind_eq_Inr_iff)

lemma assert_that_simps [simp]:
  "assert_that True m = m"
  "assert_that False m = Inl Assertion_Failed"
  by (simp_all add: assert_that_def)

lemma assert_that_eq_Inr_iff: "assert_that P m = Inr y \<longleftrightarrow> P \<and> m = Inr y"
  by (simp add: assert_that_def)

lemma assert_that_cong [fundef_cong]:
  "P = Q \<Longrightarrow> (Q \<Longrightarrow> m = m') \<Longrightarrow> assert_that P m = assert_that Q m'"
  by (simp add: assert_that_def)

lemma exception_neq_Inr [simp]: "exception e \<noteq> Inr x" "Inr x \<noteq> exception e"
  by (simp_all add: exception_def)

lemma str_exception_neq_Inr [simp]: "str_exception e s \<noteq> Inr x" "Inr x \<noteq> str_exception e s"
  by (simp_all add: str_exception_def)

lemma rbind_exception [simp]: "rbind (exception e) f = exception e"
  by (simp add: exception_def)

lemma rbind_str_exception [simp]: "rbind (str_exception e s) f = str_exception e s"
  by (simp add: str_exception_def)

lemmas [outcome_simps] = rbind_eq_Inr_iff rbind_eq_Inl_iff assert_that_eq_Inr_iff

section \<open>Bytes and characters\<close>

text \<open>
  The symbol that a byte is on a stream (\<^verbatim>\<open>unsigned char\<close> converted to \<^verbatim>\<open>int\<close>),
  and the cast of an \<^verbatim>\<open>int\<close> to \<^verbatim>\<open>char\<close>, which keeps its low eight bits.
\<close>

abbreviation byte_of :: "int \<Rightarrow> byte" where
  "byte_of c \<equiv> word_of_int c"

definition syms :: "byte list \<Rightarrow> int list" where
  "syms bs = map uint bs"

definition cstr :: "string \<Rightarrow> cstring" where
  "cstr s = map of_char s"

definition chr :: "char \<Rightarrow> int" where
  "chr c = of_char c"

definition is_byte :: "int \<Rightarrow> bool" where
  "is_byte c \<longleftrightarrow> 0 \<le> c \<and> c < 256"

lemma syms_simps [simp]:
  "syms [] = []"
  "syms (b # bs) = uint b # syms bs"
  "syms (xs @ ys) = syms xs @ syms ys"
  "length (syms xs) = length xs"
  by (simp_all add: syms_def)

lemma syms_eq_Nil_iff [simp]: "syms xs = [] \<longleftrightarrow> xs = []"
  by (simp add: syms_def)

lemma uint_byte_bounds [simp]: "0 \<le> uint (b :: byte)" "uint (b :: byte) < 256"
  using uint_range_size [of b] by (auto simp: word_size)

lemma is_byte_uint [simp]: "is_byte (uint (b :: byte))"
  by (simp add: is_byte_def)

lemma uint_byte_of [simp]: "is_byte c \<Longrightarrow> uint (byte_of c) = c"
  by (simp add: is_byte_def uint_word_of_int)

lemma byte_of_uint [simp]: "byte_of (uint (b :: byte)) = b"
  by simp

lemma syms_is_byte: "c \<in> set (syms bs) \<Longrightarrow> is_byte c"
  by (auto simp: syms_def)

lemma syms_map_byte_of: "(\<forall>c \<in> set cs. is_byte c) \<Longrightarrow> syms (map byte_of cs) = cs"
  by (induction cs) auto

lemma inj_syms: "syms xs = syms ys \<Longrightarrow> xs = ys"
proof -
  assume "syms xs = syms ys"
  then have "map byte_of (map uint xs) = map byte_of (map uint ys)"
    by (simp add: syms_def)
  then show "xs = ys"
    by (simp add: o_def)
qed

section \<open>Lists\<close>

lemma append_eq_take_drop: "length xs = n \<Longrightarrow> take n (xs @ ys) = xs \<and> drop n (xs @ ys) = ys"
  by auto

lemma list_all_upt_D: "list_all P [0..<n] \<Longrightarrow> k < n \<Longrightarrow> P k"
  by (simp add: list_all_iff)

text \<open>A property of all bytes follows from a check of its 256 instances.\<close>

lemma all_bytesI: "list_all P (map int [0..<256]) \<Longrightarrow> is_byte c \<Longrightarrow> P c"
proof -
  assume a: "list_all P (map int [0..<256])" and c: "is_byte c"
  then have "nat c < 256" by (simp add: is_byte_def nat_less_iff)
  with a have "P (int (nat c))"
    unfolding list_all_iff by (metis atLeast_upt imageI lessThan_iff list.set_map)
  with c show "P c" by (simp add: is_byte_def)
qed

section \<open>Bit operations on integers\<close>

lemma or_eq_add_int:
  fixes a b :: int
  assumes "2 ^ n dvd a" "0 \<le> b" "b < 2 ^ n"
  shows "a OR b = a + b"
proof -
  from assms(1) obtain k where a: "a = push_bit n k" by (auto simp: push_bit_eq_mult elim!: dvdE)
  from assms(2,3) have b: "b = take_bit n b" by (simp add: take_bit_int_eq_self)
  have "a + b = a OR b"
    by (rule disjunctive_add_eq_or, subst a, subst b) (auto intro!: bit_eqI simp: bit_simps)
  then show ?thesis by simp
qed

lemma and_mask_int: "(x :: int) AND 0x3f = x mod 64" "x AND 0x7f = x mod 128"
  using take_bit_eq_mask [of 6 x] take_bit_eq_mod [of 6 x]
    take_bit_eq_mask [of 7 x] take_bit_eq_mod [of 7 x] by (simp_all add: mask_eq_exp_minus_1)

end
