(* ===== verification/Actions.thy ===== *)
theory Actions
  imports Prelude
begin

text \<open>
  Code that works on shared state and may leave through \<^verbatim>\<open>exception()\<close>: an action takes the
  state and returns an outcome and the new state. Unlike a plain outcome it keeps what was done
  before an exception, which a trap (\<^verbatim>\<open>set_trap\<close>) further up sees.

  The collection \<open>act_simps\<close> runs actions, \<open>maintains_intros\<close> proves that an action keeps an
  invariant on every exit.
\<close>

type_synonym ('s, 'a) act = "'s \<Rightarrow> 'a outcome \<times> 's"

named_theorems act_simps
named_theorems maintains_intros

definition ret :: "'a \<Rightarrow> ('s, 'a) act" where
  "ret x = (\<lambda>s. (Inr x, s))"

definition fault :: "exn \<Rightarrow> ('s, 'a) act" where
  "fault e = (\<lambda>s. (Inl e, s))"

definition raise :: "err \<Rightarrow> ('s, 'a) act" where
  "raise e = (\<lambda>s. (exception e, s))"

definition bnd :: "('s, 'a) act \<Rightarrow> ('a \<Rightarrow> ('s, 'b) act) \<Rightarrow> ('s, 'b) act" where
  "bnd m f = (\<lambda>s. case m s of (Inl e, s') \<Rightarrow> (Inl e, s') | (Inr x, s') \<Rightarrow> f x s')"

definition seq :: "('s, unit) act \<Rightarrow> ('s, 'b) act \<Rightarrow> ('s, 'b) act" where
  "seq m n = bnd m (\<lambda>_. n)"

text \<open>\<^verbatim>\<open>assert\<close> on the state.\<close>

definition check :: "('s \<Rightarrow> bool) \<Rightarrow> ('s, unit) act" where
  "check P = (\<lambda>s. (if P s then Inr () else Inl Assertion_Failed, s))"

definition modify :: "('s \<Rightarrow> 's) \<Rightarrow> ('s, unit) act" where
  "modify f = (\<lambda>s. (Inr (), f s))"

definition look :: "('s \<Rightarrow> 'a) \<Rightarrow> ('s, 'a) act" where
  "look f = (\<lambda>s. (Inr (f s), s))"

text \<open>\<^verbatim>\<open>set_trap\<close> and \<^verbatim>\<open>clear_trap\<close>: exceptions go to the handler; a failed assertion and
  undefined behaviour do not.\<close>

definition trap :: "('s, 'a) act \<Rightarrow> (err \<Rightarrow> ('s, 'a) act) \<Rightarrow> ('s, 'a) act" where
  "trap m h = (\<lambda>s. case m s of (Inl (Exception e msg), s') \<Rightarrow> h e s' | r \<Rightarrow> r)"

lemma run_ret [act_simps]: "ret x s = (Inr x, s)"
  by (simp add: ret_def)

lemma run_fault [act_simps]: "fault e s = (Inl e, s)"
  by (simp add: fault_def)

lemma run_raise [act_simps]: "raise e s = (exception e, s)"
  by (simp add: raise_def)

lemma run_look [act_simps]: "look f s = (Inr (f s), s)"
  by (simp add: look_def)

lemma run_modify [act_simps]: "modify f s = (Inr (), f s)"
  by (simp add: modify_def)

lemma run_check [act_simps]:
  "P s \<Longrightarrow> check P s = (Inr (), s)"
  "\<not> P s \<Longrightarrow> check P s = (Inl Assertion_Failed, s)"
  by (simp_all add: check_def)

lemma run_bnd [act_simps]:
  "m s = (Inr x, s') \<Longrightarrow> bnd m f s = f x s'"
  "m s = (Inl e, s') \<Longrightarrow> bnd m f s = (Inl e, s')"
  by (simp_all add: bnd_def)

lemma run_seq [act_simps]:
  "m s = (Inr (), s') \<Longrightarrow> seq m n s = n s'"
  "m s = (Inl e, s') \<Longrightarrow> seq m n s = (Inl e, s')"
  by (simp_all add: seq_def act_simps)

lemma run_trap [act_simps]:
  "m s = (Inr x, s') \<Longrightarrow> trap m h s = (Inr x, s')"
  "m s = (Inl (Exception e msg), s') \<Longrightarrow> trap m h s = h e s'"
  "m s = (exception e, s') \<Longrightarrow> trap m h s = h e s'"
  by (simp_all add: trap_def exception_def)

lemma trap_cong: "m s = m' s' \<Longrightarrow> trap m h s = trap m' h s'"
  by (simp add: trap_def)

lemma bnd_cases:
  assumes "bnd m f s = r"
  obtains (val) x s' where "m s = (Inr x, s')" "f x s' = r"
    | (exn) e s' where "m s = (Inl e, s')" "r = (Inl e, s')"
  using assms by (auto simp: bnd_def split: prod.splits sum.splits)

lemma bnd_assoc: "bnd (bnd m f) g = bnd m (\<lambda>x. bnd (f x) g)"
  by (rule ext) (simp add: bnd_def split: prod.split sum.split)

lemma bnd_ret [simp]: "bnd m ret = m"
  by (rule ext) (simp add: bnd_def ret_def split: prod.split sum.split)

lemma seq_assoc: "seq (seq m n) k = seq m (seq n k)"
  by (simp add: seq_def bnd_assoc)

lemma seq_bnd: "seq (bnd m f) n = bnd m (\<lambda>x. seq (f x) n)"
  by (simp add: seq_def bnd_assoc)

lemma bnd_seq: "bnd (seq m n) f = seq m (bnd n f)"
  by (simp add: seq_def bnd_assoc)

lemma trap_rethrow_Inr [act_simps]: "m s = (Inr x, s') \<Longrightarrow> trap m raise s = (Inr x, s')"
  by (rule run_trap)

section \<open>Invariants of actions\<close>

text \<open>An action maintains an invariant when the state satisfies it afterwards, also after an
  exception. The other exits end the program.\<close>

definition goes_on :: "'a outcome \<Rightarrow> bool" where
  "goes_on r \<longleftrightarrow> (case r of Inl e \<Rightarrow> is_exception e | Inr _ \<Rightarrow> True)"

lemma goes_on_simps [simp]:
  "goes_on (Inr x)" "goes_on (exception e)" "goes_on (Inl (Exception e msg))"
  "\<not> goes_on (Inl Assertion_Failed)" "\<not> goes_on (Inl Undefined_Behaviour)" "\<not> goes_on (Inl Out_Of_Fuel)"
  by (simp_all add: goes_on_def is_exception_def exception_def)

lemma goes_on_Inl: "goes_on (Inl e) = is_exception e"
  by (simp add: goes_on_def)

definition maintains :: "('s \<Rightarrow> bool) \<Rightarrow> ('s, 'a) act \<Rightarrow> bool" where
  "maintains I m \<longleftrightarrow> (\<forall>s. I s \<longrightarrow> goes_on (fst (m s)) \<longrightarrow> I (snd (m s)))"

lemma maintainsI: "(\<And>s r s'. I s \<Longrightarrow> m s = (r, s') \<Longrightarrow> goes_on r \<Longrightarrow> I s') \<Longrightarrow> maintains I m"
  unfolding maintains_def by (metis prod.collapse)

lemma maintains_always: "(\<And>s. I s \<Longrightarrow> I (snd (m s))) \<Longrightarrow> maintains I m"
  by (simp add: maintains_def)

lemma maintainsD: "maintains I m \<Longrightarrow> I s \<Longrightarrow> m s = (r, s') \<Longrightarrow> goes_on r \<Longrightarrow> I s'"
  unfolding maintains_def by (metis fst_conv snd_conv)

lemma maintains_basic [maintains_intros]:
  "maintains I (ret x)" "maintains I (fault e)" "maintains I (raise r)" "maintains I (look f)" "maintains I (check P)"
  by (simp_all add: maintains_def ret_def fault_def raise_def look_def check_def)

lemma maintains_modify [maintains_intros]: "(\<And>s. I s \<Longrightarrow> I (f s)) \<Longrightarrow> maintains I (modify f)"
  by (simp add: maintains_def modify_def)

lemma maintains_bnd [maintains_intros]:
  assumes "maintains I m" "\<And>x. maintains I (f x)"
  shows "maintains I (bnd m f)"
proof (rule maintainsI)
  fix s r s'
  assume i: "I s" and b: "bnd m f s = (r, s')" and g: "goes_on r"
  from b show "I s'"
  proof (cases rule: bnd_cases)
    case (val x s1)
    then show ?thesis using maintainsD [OF assms(1) i val(1)] maintainsD [OF assms(2) _ val(2) g] by simp
  next
    case (exn e s1)
    then show ?thesis using maintainsD [OF assms(1) i exn(1)] g by (auto simp: goes_on_Inl)
  qed
qed

lemma maintains_seq [maintains_intros]: "maintains I m \<Longrightarrow> maintains I n \<Longrightarrow> maintains I (seq m n)"
  unfolding seq_def by (intro maintains_intros)

lemma maintains_trap [maintains_intros]:
  assumes "maintains I m" "\<And>e. maintains I (h e)"
  shows "maintains I (trap m h)"
proof (rule maintainsI)
  fix s r s'
  assume i: "I s" and t: "trap m h s = (r, s')" and g: "goes_on r"
  obtain q s1 where m: "m s = (q, s1)" by fastforce
  show "I s'"
  proof (cases "\<exists>e msg. q = Inl (Exception e msg)")
    case True
    then obtain e msg where "q = Inl (Exception e msg)" by blast
    with m t maintainsD [OF assms(1) i m] maintainsD [OF assms(2)] g show ?thesis
      by (auto simp: trap_def)
  next
    case False
    with m t have "q = r" "s1 = s'" by (auto simp: trap_def split: sum.splits exn.splits)
    with maintainsD [OF assms(1) i m] g show ?thesis by simp
  qed
qed

lemma maintains_if [maintains_intros]: "(P \<Longrightarrow> maintains I m) \<Longrightarrow> (\<not> P \<Longrightarrow> maintains I n) \<Longrightarrow> maintains I (if P then m else n)"
  by simp

lemma maintains_option [maintains_intros]:
  "(x = None \<Longrightarrow> maintains I m) \<Longrightarrow> (\<And>y. x = Some y \<Longrightarrow> maintains I (f y)) \<Longrightarrow>
   maintains I (case x of None \<Rightarrow> m | Some y \<Rightarrow> f y)"
  by (cases x) auto

end
