(* ===== verification/Streams.thy ===== *)
theory Streams
  imports Prelude
begin

text \<open>
  The stream interface of \<^verbatim>\<open>framework/streams.h\<close> and the streams of
  \<^verbatim>\<open>framework/streams.c\<close>.

  A stream carries \<^emph>\<open>symbols\<close>: the bytes 0 to 255 and the markers \<^verbatim>\<open>MARKER_EOM\<close>
  (-1) and \<^verbatim>\<open>MARKER_EOS\<close> (-2). The readers of the agent see an input stream through
  \<^verbatim>\<open>read_stream\<close> and \<^verbatim>\<open>peek_stream\<close> only, so its abstract value is the list of
  symbols still to be read; past its end every read gives \<^verbatim>\<open>MARKER_EOS\<close>. The locale
  \<open>input_stream\<close> states that contract; the byte array stream and the forwarding stream are
  instances of it. An output stream is, for its writers, the list of the symbols written so far;
  the locale \<open>output_stream\<close> states that contract and the growing byte array stream is an
  instance of it.
\<close>

abbreviation (input) MARKER_EOM :: int where "MARKER_EOM \<equiv> -1"
abbreviation (input) MARKER_EOS :: int where "MARKER_EOS \<equiv> -2"
abbreviation (input) ESC :: int where "ESC \<equiv> 3"

section \<open>The abstract streams\<close>

type_synonym istream = "int list"

fun read_stream :: "istream \<Rightarrow> int \<times> istream" where
  "read_stream [] = (MARKER_EOS, [])"
| "read_stream (c # cs) = (c, cs)"

fun peek_stream :: "istream \<Rightarrow> int" where
  "peek_stream [] = MARKER_EOS"
| "peek_stream (c # cs) = c"

record OutputStream =
  supports_zero_copy :: bool
  written :: "int list"

definition write_stream :: "OutputStream \<Rightarrow> int \<Rightarrow> OutputStream" where
  "write_stream out b = out\<lparr>written := written out @ [b]\<rparr>"

definition write_block_stream :: "OutputStream \<Rightarrow> byte list \<Rightarrow> OutputStream" where
  "write_block_stream out bytes = out\<lparr>written := written out @ syms bytes\<rparr>"

definition write_string :: "OutputStream \<Rightarrow> cstring \<Rightarrow> OutputStream" where
  "write_string out str = write_block_stream out str"

definition write_stringz :: "OutputStream \<Rightarrow> cstring \<Rightarrow> OutputStream" where
  "write_stringz out str = write_block_stream out (str @ [0])"

text \<open>Reading a number of symbols through any pair of stream operations.\<close>

fun read_many :: "('s \<Rightarrow> int \<times> 's) \<Rightarrow> nat \<Rightarrow> 's \<Rightarrow> int list \<times> 's" where
  "read_many rd 0 s = ([], s)"
| "read_many rd (Suc n) s =
     (let (c, s') = rd s; (cs, s'') = read_many rd n s' in (c # cs, s''))"

fun write_many :: "('s \<Rightarrow> int \<Rightarrow> 's outcome) \<Rightarrow> int list \<Rightarrow> 's \<Rightarrow> 's outcome" where
  "write_many wr [] s = Inr s"
| "write_many wr (c # cs) s = rbind (wr s c) (write_many wr cs)"

section \<open>The byte array input stream\<close>

record ByteArrayInputStream =
  inp_buf :: "byte list"
  inp_cur :: nat
  inp_end :: nat

definition create_byte_array_input_stream :: "byte list \<Rightarrow> nat \<Rightarrow> ByteArrayInputStream" where
  "create_byte_array_input_stream data sz =
     \<lparr>inp_buf = data, inp_cur = 0, inp_end = sz\<rparr>"

definition read_byte_array_input_stream ::
    "ByteArrayInputStream \<Rightarrow> int \<times> ByteArrayInputStream" where
  "read_byte_array_input_stream s =
     (if inp_cur s \<ge> inp_end s then (MARKER_EOS, s)
      else (uint (inp_buf s ! inp_cur s), s\<lparr>inp_cur := inp_cur s + 1\<rparr>))"

definition peek_byte_array_input_stream :: "ByteArrayInputStream \<Rightarrow> int" where
  "peek_byte_array_input_stream s =
     (if inp_cur s \<ge> inp_end s then MARKER_EOS else uint (inp_buf s ! inp_cur s))"

text \<open>The inlined fast paths of the macros, which fall back on the virtual operations.\<close>

definition ba_read_stream :: "ByteArrayInputStream \<Rightarrow> int \<times> ByteArrayInputStream" where
  "ba_read_stream s =
     (if inp_cur s < inp_end s
      then (uint (inp_buf s ! inp_cur s), s\<lparr>inp_cur := inp_cur s + 1\<rparr>)
      else read_byte_array_input_stream s)"

definition ba_peek_stream :: "ByteArrayInputStream \<Rightarrow> int" where
  "ba_peek_stream s =
     (if inp_cur s < inp_end s then uint (inp_buf s ! inp_cur s)
      else peek_byte_array_input_stream s)"

definition ba_view :: "ByteArrayInputStream \<Rightarrow> istream" where
  "ba_view s = syms (drop (inp_cur s) (take (inp_end s) (inp_buf s)))"

definition ba_inv :: "ByteArrayInputStream \<Rightarrow> bool" where
  "ba_inv s \<longleftrightarrow> inp_end s \<le> length (inp_buf s)"

section \<open>The forwarding input stream\<close>

record ForwardingInputStream =
  fwd_inp :: istream
  fwd_out :: OutputStream

definition create_forwarding_input_stream ::
    "istream \<Rightarrow> OutputStream \<Rightarrow> ForwardingInputStream" where
  "create_forwarding_input_stream inp out = \<lparr>fwd_inp = inp, fwd_out = out\<rparr>"

definition read_forwarding_input_stream ::
    "ForwardingInputStream \<Rightarrow> int \<times> ForwardingInputStream" where
  "read_forwarding_input_stream s =
     (let (ch, inp) = read_stream (fwd_inp s);
          out = (if ch \<noteq> MARKER_EOS then write_stream (fwd_out s) ch else fwd_out s)
      in (ch, s\<lparr>fwd_inp := inp, fwd_out := out\<rparr>))"

definition peek_forwarding_input_stream :: "ForwardingInputStream \<Rightarrow> int" where
  "peek_forwarding_input_stream s = peek_stream (fwd_inp s)"

section \<open>The byte array output stream\<close>

text \<open>
  The stream starts in the array \<^verbatim>\<open>buf[256]\<close> and moves to a heap block \<^verbatim>\<open>mem\<close>
  that doubles in size. The bytes of a fresh heap block have no specified value; the model fills
  them with zero, and only bytes that were written are ever read.
\<close>

abbreviation BO_SIZE :: nat where "BO_SIZE \<equiv> 256"

record ByteArrayOutputStream =
  bo_buf :: "byte list"
  bo_mem :: "byte list option"
  bo_pos :: nat
  bo_max :: nat

definition create_byte_array_output_stream :: ByteArrayOutputStream where
  "create_byte_array_output_stream =
     \<lparr>bo_buf = replicate BO_SIZE 0, bo_mem = None, bo_pos = 0, bo_max = 0\<rparr>"

definition loc_alloc :: "nat \<Rightarrow> byte list" where
  "loc_alloc n = replicate n 0"

definition loc_realloc :: "byte list \<Rightarrow> nat \<Rightarrow> byte list" where
  "loc_realloc m n = take n m @ replicate (n - length m) 0"

definition memcpy :: "byte list \<Rightarrow> byte list \<Rightarrow> nat \<Rightarrow> byte list" where
  "memcpy dst src n = take n src @ drop n dst"

definition write_byte_array_output_stream ::
    "ByteArrayOutputStream \<Rightarrow> int \<Rightarrow> ByteArrayOutputStream outcome" where
  "write_byte_array_output_stream s byte =
     (if bo_pos s < BO_SIZE
      then Inr (s\<lparr>bo_buf := (bo_buf s)[bo_pos s := byte_of byte], bo_pos := bo_pos s + 1\<rparr>)
      else
        let (mem, max) =
              (case bo_mem s of
                 None \<Rightarrow> (memcpy (loc_alloc (bo_pos s * 2)) (bo_buf s) (bo_pos s), bo_pos s * 2)
               | Some m \<Rightarrow>
                   if bo_pos s \<ge> bo_max s
                   then (loc_realloc m (bo_max s * 2), bo_max s * 2)
                   else (m, bo_max s))
        in if bo_pos s < length mem
           then Inr (s\<lparr>bo_mem := Some (mem[bo_pos s := byte_of byte]), bo_max := max,
                       bo_pos := bo_pos s + 1\<rparr>)
           else Inl Undefined_Behaviour)"

definition write_block_byte_array_output_stream ::
    "ByteArrayOutputStream \<Rightarrow> byte list \<Rightarrow> ByteArrayOutputStream outcome" where
  "write_block_byte_array_output_stream s bytes =
     write_many write_byte_array_output_stream (syms bytes) s"

definition get_byte_array_output_stream_data ::
    "ByteArrayOutputStream \<Rightarrow> (byte list \<times> nat) \<times> ByteArrayOutputStream" where
  "get_byte_array_output_stream_data s =
     (let mem = (case bo_mem s of
                   None \<Rightarrow> memcpy (loc_alloc (bo_pos s)) (bo_buf s) (bo_pos s)
                 | Some m \<Rightarrow> m)
      in ((mem, bo_pos s), s\<lparr>bo_mem := None, bo_max := 0, bo_pos := 0\<rparr>))"

definition bo_view :: "ByteArrayOutputStream \<Rightarrow> int list" where
  "bo_view s = syms (take (bo_pos s) (case bo_mem s of None \<Rightarrow> bo_buf s | Some m \<Rightarrow> m))"

definition bo_inv :: "ByteArrayOutputStream \<Rightarrow> bool" where
  "bo_inv s \<longleftrightarrow> length (bo_buf s) = BO_SIZE \<and>
     (case bo_mem s of
        None \<Rightarrow> bo_pos s \<le> BO_SIZE
      | Some m \<Rightarrow> BO_SIZE < bo_pos s \<and> bo_pos s \<le> bo_max s \<and> length m = bo_max s)"

section \<open>Facts about the abstract streams\<close>

lemma read_stream_length: "read_stream inp = (c, inp') \<Longrightarrow> length inp' \<le> length inp"
  by (cases inp) auto

lemma read_stream_decreases:
  "read_stream inp = (c, inp') \<Longrightarrow> c \<noteq> MARKER_EOS \<Longrightarrow> length inp' < length inp"
  by (cases inp) auto

lemma peek_read: "fst (read_stream inp) = peek_stream inp"
  by (cases inp) auto

lemma written_simps [simp]:
  "written (write_stream out b) = written out @ [b]"
  "written (write_block_stream out bs) = written out @ syms bs"
  "written (write_string out bs) = written out @ syms bs"
  "written (write_stringz out bs) = written out @ syms bs @ [0]"
  "supports_zero_copy (write_stream out b) = supports_zero_copy out"
  "supports_zero_copy (write_block_stream out bs) = supports_zero_copy out"
  "supports_zero_copy (write_string out bs) = supports_zero_copy out"
  "supports_zero_copy (write_stringz out bs) = supports_zero_copy out"
  by (simp_all add: write_stream_def write_block_stream_def write_string_def write_stringz_def)

lemma OutputStream_eqI:
  fixes a b :: OutputStream
  shows "written a = written b \<Longrightarrow> supports_zero_copy a = supports_zero_copy b \<Longrightarrow> a = b"
  by simp

section \<open>The contract of an input stream\<close>

locale input_stream =
  fixes sread :: "'s \<Rightarrow> int \<times> 's"
    and speek :: "'s \<Rightarrow> int"
    and view :: "'s \<Rightarrow> istream"
    and inv :: "'s \<Rightarrow> bool"
  assumes sread_sym: "inv s \<Longrightarrow> fst (sread s) = fst (read_stream (view s))"
    and sread_view: "inv s \<Longrightarrow> view (snd (sread s)) = snd (read_stream (view s))"
    and sread_inv: "inv s \<Longrightarrow> inv (snd (sread s))"
    and speek_sym: "inv s \<Longrightarrow> speek s = peek_stream (view s)"
begin

lemma peek_then_read: "inv s \<Longrightarrow> fst (sread s) = speek s"
  by (simp add: sread_sym speek_sym peek_read)

lemma read_many_refines:
  assumes "inv s"
  shows "fst (read_many sread n s) = fst (read_many read_stream n (view s)) \<and>
    view (snd (read_many sread n s)) = snd (read_many read_stream n (view s)) \<and>
    inv (snd (read_many sread n s))"
  using assms
proof (induction n arbitrary: s)
  case 0
  then show ?case by simp
next
  case (Suc n)
  obtain c s' where r: "sread s = (c, s')" by (cases "sread s")
  obtain c0 v' where r0: "read_stream (view s) = (c0, v')" by (cases "read_stream (view s)")
  from Suc.prems r r0 have "c = c0" "view s' = v'" "inv s'"
    using sread_sym [of s] sread_view [of s] sread_inv [of s] by auto
  with Suc.IH [of s'] r r0 show ?case
    by (simp add: split_def Let_def)
qed

end

text \<open>The abstract stream delivers its symbols in order and then end-of-stream for ever.\<close>

lemma read_many_list:
  "read_many read_stream n inp =
     (take n inp @ replicate (n - length inp) MARKER_EOS, drop n inp)"
proof (induction n arbitrary: inp)
  case 0
  then show ?case by simp
next
  case (Suc n)
  then show ?case by (cases inp) auto
qed

lemmas ba_defs = ba_read_stream_def read_byte_array_input_stream_def ba_peek_stream_def
  peek_byte_array_input_stream_def ba_view_def ba_inv_def

interpretation ba: input_stream ba_read_stream ba_peek_stream ba_view ba_inv
proof unfold_locales
  fix s assume inv: "ba_inv s"
  show "fst (ba_read_stream s) = fst (read_stream (ba_view s))"
    using inv by (auto simp: ba_defs Cons_nth_drop_Suc [symmetric])
  show "ba_view (snd (ba_read_stream s)) = snd (read_stream (ba_view s))"
    using inv by (auto simp: ba_defs Cons_nth_drop_Suc [symmetric])
  show "ba_inv (snd (ba_read_stream s))"
    using inv by (auto simp: ba_defs)
  show "ba_peek_stream s = peek_stream (ba_view s)"
    using inv by (auto simp: ba_defs Cons_nth_drop_Suc [symmetric])
qed

interpretation fwd: input_stream read_forwarding_input_stream peek_forwarding_input_stream
    fwd_inp "\<lambda>s. True"
  by unfold_locales
    (simp_all add: read_forwarding_input_stream_def peek_forwarding_input_stream_def split_def Let_def)

lemma fwd_out_read_many:
  "written (fwd_out (snd (read_many read_forwarding_input_stream n s))) =
     written (fwd_out s) @ filter (\<lambda>c. c \<noteq> MARKER_EOS) (take n (fwd_inp s))"
proof (induction n arbitrary: s)
  case 0
  then show ?case by simp
next
  case (Suc n)
  then show ?case
    by (cases "fwd_inp s") (simp_all add: read_forwarding_input_stream_def split_def Let_def)
qed

section \<open>The contract of an output stream\<close>

locale output_stream =
  fixes swrite :: "'s \<Rightarrow> int \<Rightarrow> 's outcome"
    and oview :: "'s \<Rightarrow> int list"
    and oinv :: "'s \<Rightarrow> bool"
    and accepts :: "int \<Rightarrow> bool"
  assumes swrite_total: "oinv s \<Longrightarrow> accepts c \<Longrightarrow>
      \<exists>s'. swrite s c = Inr s' \<and> oview s' = oview s @ [c] \<and> oinv s'"
begin

lemma write_many_appends:
  "oinv s \<Longrightarrow> \<forall>c \<in> set cs. accepts c \<Longrightarrow>
    \<exists>s'. write_many swrite cs s = Inr s' \<and> oview s' = oview s @ cs \<and> oinv s'"
proof (induction cs arbitrary: s)
  case Nil
  then show ?case by simp
next
  case (Cons c cs)
  from Cons.prems obtain s1 where s1: "swrite s c = Inr s1" "oview s1 = oview s @ [c]" "oinv s1"
    using swrite_total [of s c] by auto
  from Cons.IH [OF s1(3)] Cons.prems(2) s1 show ?case by auto
qed

end

lemma take_Suc_list_update: "n < length xs \<Longrightarrow> take (Suc n) (xs[n := x]) = take n xs @ [x]"
  by (simp add: take_Suc_conv_app_nth)

lemma write_byte_array_small:
  "bo_inv s \<Longrightarrow> is_byte c \<Longrightarrow> bo_pos s < BO_SIZE \<Longrightarrow>
    \<exists>s'. write_byte_array_output_stream s c = Inr s' \<and> bo_view s' = bo_view s @ [c] \<and> bo_inv s'"
  by (auto simp: bo_inv_def write_byte_array_output_stream_def bo_view_def take_Suc_list_update
        split: option.splits)

lemma write_byte_array_first_block:
  "bo_inv s \<Longrightarrow> is_byte c \<Longrightarrow> \<not> bo_pos s < BO_SIZE \<Longrightarrow> bo_mem s = None \<Longrightarrow>
    \<exists>s'. write_byte_array_output_stream s c = Inr s' \<and> bo_view s' = bo_view s @ [c] \<and> bo_inv s'"
  using take_Suc_list_update [of BO_SIZE "bo_buf s @ replicate BO_SIZE 0" "byte_of c"]
  by (auto simp: bo_inv_def write_byte_array_output_stream_def bo_view_def
        memcpy_def loc_alloc_def)

lemma write_byte_array_heap_block:
  "bo_inv s \<Longrightarrow> is_byte c \<Longrightarrow> bo_mem s = Some m \<Longrightarrow>
    \<exists>s'. write_byte_array_output_stream s c = Inr s' \<and> bo_view s' = bo_view s @ [c] \<and> bo_inv s'"
  by (auto simp: bo_inv_def write_byte_array_output_stream_def bo_view_def take_Suc_list_update
        loc_realloc_def)

interpretation bao: output_stream write_byte_array_output_stream bo_view bo_inv is_byte
proof unfold_locales
  fix s c
  assume "bo_inv s" "is_byte c"
  then show "\<exists>s'. write_byte_array_output_stream s c = Inr s' \<and>
      bo_view s' = bo_view s @ [c] \<and> bo_inv s'"
    by (cases "bo_mem s"; cases "bo_pos s < BO_SIZE")
      (blast intro: write_byte_array_small write_byte_array_first_block
        write_byte_array_heap_block)+
qed

lemma bo_inv_create: "bo_inv create_byte_array_output_stream"
  by (simp add: bo_inv_def create_byte_array_output_stream_def)

lemma bo_view_create: "bo_view create_byte_array_output_stream = []"
  by (simp add: bo_view_def create_byte_array_output_stream_def)

lemma get_data_view:
  "bo_inv s \<Longrightarrow> get_byte_array_output_stream_data s = ((mem, sz), s') \<Longrightarrow>
     syms (take sz mem) = bo_view s \<and> sz \<le> length mem \<and> bo_inv s' \<and> bo_view s' = []"
  by (auto simp: get_byte_array_output_stream_data_def bo_view_def bo_inv_def memcpy_def
        loc_alloc_def split: option.splits)

section \<open>Properties\<close>

text \<open>A byte array output stream never writes outside of its buffers and hands back exactly
  the bytes that were written, whatever their number: the data that
  \<open>get_byte_array_output_stream_data\<close> returns after any block was written to a fresh stream
  starts with that block and has its size, and the stream is empty again afterwards.\<close>

theorem byte_array_output_stream_roundtrip:
  "\<exists>s' mem s''.
     write_block_byte_array_output_stream create_byte_array_output_stream bytes = Inr s' \<and>
     get_byte_array_output_stream_data s' = ((mem, length bytes), s'') \<and>
     take (length bytes) mem = bytes \<and> bo_inv s'' \<and> bo_view s'' = []"
proof -
  obtain s' where s': "write_block_byte_array_output_stream create_byte_array_output_stream bytes
      = Inr s'" "bo_view s' = syms bytes" "bo_inv s'"
    using bao.write_many_appends [OF bo_inv_create, of "syms bytes"] syms_is_byte
    by (auto simp: write_block_byte_array_output_stream_def bo_view_create)
  obtain mem sz s'' where g: "get_byte_array_output_stream_data s' = ((mem, sz), s'')"
    by (metis surj_pair)
  from get_data_view [OF s'(3) g] s'(2) have v: "syms (take sz mem) = syms bytes"
    and r: "sz \<le> length mem" "bo_inv s''" "bo_view s'' = []" by auto
  from inj_syms [OF v] r(1) have "take sz mem = bytes" "sz = length bytes" by auto
  with s'(1) g r show ?thesis by auto
qed

text \<open>A forwarding input stream is transparent: reading any number of symbols through it
  gives what reading the underlying stream gives, and the symbols read, without the end-of-stream
  marker, are appended to the output stream in the same order.\<close>

theorem forwarding_stream_transparent:
  "fst (read_many read_forwarding_input_stream n (create_forwarding_input_stream inp out)) =
     take n inp @ replicate (n - length inp) MARKER_EOS \<and>
   written (fwd_out (snd (read_many read_forwarding_input_stream n
     (create_forwarding_input_stream inp out)))) =
     written out @ filter (\<lambda>c. c \<noteq> MARKER_EOS) (take n inp)"
  using fwd.read_many_refines [of n "create_forwarding_input_stream inp out"]
  by (simp add: read_many_list fwd_out_read_many create_forwarding_input_stream_def)

end
