(* ===== verification/Base64.thy ===== *)
theory Base64
  imports Streams
begin

text \<open>
  \<^verbatim>\<open>framework/base64.c\<close>: the BASE64 writer and reader that carry binary data inside of
  JSON strings. The writer collects its output in the array \<^verbatim>\<open>obf[OBF_SIZE + 8]\<close> and
  flushes it when \<^verbatim>\<open>OBF_SIZE\<close> characters are there; storing outside of the array is
  undefined. The reference encoder is \<open>base64_spec\<close>.
\<close>

section \<open>Tables\<close>

definition int2char :: "int list" where
  "int2char =
     [65, 66, 67, 68, 69, 70, 71, 72,
      73, 74, 75, 76, 77, 78, 79, 80,
      81, 82, 83, 84, 85, 86, 87, 88,
      89, 90, 97, 98, 99, 100, 101, 102,
      103, 104, 105, 106, 107, 108, 109, 110,
      111, 112, 113, 114, 115, 116, 117, 118,
      119, 120, 121, 122, 48, 49, 50, 51,
      52, 53, 54, 55, 56, 57, 43, 47]"

definition char2int :: "int list" where
  "char2int =
     [-1,  -1,  -1,  -1,  -1,  -1,  -1,  -1,
      -1,  -1,  -1,  -1,  -1,  -1,  -1,  -1,
      -1,  -1,  -1,  -1,  -1,  -1,  -1,  -1,
      -1,  -1,  -1,  -1,  -1,  -1,  -1,  -1,
      -1,  -1,  -1,  -1,  -1,  -1,  -1,  -1,
      -1,  -1,  -1,  62,  -1,  -1,  -1,  63,
      52,  53,  54,  55,  56,  57,  58,  59,
      60,  61,  -1,  -1,  -1,  -1,  -1,  -1,
      -1,   0,   1,   2,   3,   4,   5,   6,
       7,   8,   9,  10,  11,  12,  13,  14,
      15,  16,  17,  18,  19,  20,  21,  22,
      23,  24,  25,  -1,  -1,  -1,  -1,  -1,
      -1,  26,  27,  28,  29,  30,  31,  32,
      33,  34,  35,  36,  37,  38,  39,  40,
      41,  42,  43,  44,  45,  46,  47,  48,
      49, 50, 51]"

abbreviation OBF_SIZE :: nat where "OBF_SIZE \<equiv> 0x100"

section \<open>The writer\<close>

text \<open>One store \<^verbatim>\<open>obf[obf_len++] = c\<close>; the array holds \<^verbatim>\<open>OBF_SIZE + 8\<close> characters.\<close>

definition obf_add :: "int list \<Rightarrow> int \<Rightarrow> int list outcome" where
  "obf_add obf c = (if length obf < OBF_SIZE + 8 then Inr (obf @ [c]) else Inl Undefined_Behaviour)"

fun obf_add_all :: "int list \<Rightarrow> int list \<Rightarrow> int list outcome" where
  "obf_add_all obf [] = Inr obf"
| "obf_add_all obf (c # cs) = rbind (obf_add obf c) (\<lambda>obf. obf_add_all obf cs)"

text \<open>The access \<^verbatim>\<open>int2char[n]\<close>.\<close>

definition int2char_at :: "int \<Rightarrow> int" where
  "int2char_at n = int2char ! nat n"

text \<open>The flush of a full buffer at the end of each turn of the loop.\<close>

definition obf_flush :: "OutputStream \<Rightarrow> int list \<Rightarrow> OutputStream \<times> int list" where
  "obf_flush out obf =
     (if length obf \<ge> OBF_SIZE then (write_block_stream out (map byte_of obf), [])
      else (out, obf))"

text \<open>The loop, by the bytes that are left: one, two, or three and more.\<close>

fun write_base64_loop :: "OutputStream \<Rightarrow> int list \<Rightarrow> byte list \<Rightarrow> (OutputStream \<times> int list) outcome"
where
  "write_base64_loop out obf [] = Inr (out, obf)"
| "write_base64_loop out obf [b0] =
     (let byte0 = uint b0 in
      rbind (obf_add_all obf
          [int2char_at (drop_bit 2 byte0),
           int2char_at (push_bit 4 byte0 AND 0x3f), chr CHR ''='', chr CHR ''=''])
        (\<lambda>obf. Inr (obf_flush out obf)))"
| "write_base64_loop out obf [b0, b1] =
     (let byte0 = uint b0; byte1 = uint b1 in
      rbind (obf_add_all obf
          [int2char_at (drop_bit 2 byte0),
           int2char_at ((push_bit 4 byte0 AND 0x3f) OR drop_bit 4 byte1),
           int2char_at (push_bit 2 byte1 AND 0x3f), chr CHR ''=''])
        (\<lambda>obf. Inr (obf_flush out obf)))"
| "write_base64_loop out obf (b0 # b1 # b2 # bs) =
     (let byte0 = uint b0; byte1 = uint b1; byte2 = uint b2 in
      rbind (obf_add_all obf
          [int2char_at (drop_bit 2 byte0),
           int2char_at ((push_bit 4 byte0 AND 0x3f) OR drop_bit 4 byte1),
           int2char_at ((push_bit 2 byte1 AND 0x3f) OR drop_bit 6 byte2),
           int2char_at (byte2 AND 0x3f)])
        (\<lambda>obf. let (out, obf) = obf_flush out obf in write_base64_loop out obf bs))"

definition write_base64 :: "OutputStream \<Rightarrow> byte list \<Rightarrow> (OutputStream \<times> nat) outcome" where
  "write_base64 out buf =
     rbind (write_base64_loop out [] buf)
       (\<lambda>(out, obf).
          Inr ((if obf \<noteq> [] then write_block_stream out (map byte_of obf) else out),
               (length buf + 2) div 3 * 4))"

section \<open>The reader\<close>

abbreviation ch_max :: int where "ch_max \<equiv> 123"

definition char2int_at :: "int \<Rightarrow> int" where
  "char2int_at ch = (if ch < 0 \<or> ch \<ge> ch_max then -1 else char2int ! nat ch)"

text \<open>One store \<^verbatim>\<open>buf[pos++] = b\<close> into a buffer of \<open>buf_size\<close> bytes: \<open>acc\<close> holds the bytes
  \<^verbatim>\<open>buf[0..pos]\<close> stored so far, and a store behind the end is undefined.\<close>

definition buf_put :: "nat \<Rightarrow> byte list \<Rightarrow> byte \<Rightarrow> byte list outcome" where
  "buf_put buf_size acc b = (if length acc < buf_size then Inr (acc @ [b]) else Inl Undefined_Behaviour)"

text \<open>The loop of \<^verbatim>\<open>read_base64\<close>. Every turn stores three bytes, so the loop ends.\<close>

function read_base64_loop :: "istream \<Rightarrow> byte list \<Rightarrow> nat \<Rightarrow> (byte list \<times> istream) outcome" where
  "read_base64_loop inp acc buf_size =
     (if \<not> length acc + 3 \<le> buf_size then Inr (acc, inp)
      else
        let ch0 = peek_stream inp; n0 = char2int_at ch0 in
        if n0 < 0 then Inr (acc, inp)
        else
          let (_, inp) = read_stream inp;
              (ch1, inp) = read_stream inp;
              (ch2, inp) = read_stream inp;
              (ch3, inp) = read_stream inp;
              n1 = char2int_at ch1
          in if n1 < 0 then exception ERR_BASE64
          else rbind (buf_put buf_size acc (byte_of (push_bit 2 n0 OR drop_bit 4 n1))) (\<lambda>acc.
            if ch2 = chr CHR ''='' then Inr (acc, inp)
            else let n2 = char2int_at ch2 in
            if n2 < 0 then exception ERR_BASE64
            else rbind (buf_put buf_size acc (byte_of (push_bit 4 n1 OR drop_bit 2 n2))) (\<lambda>acc.
              if ch3 = chr CHR ''='' then Inr (acc, inp)
              else let n3 = char2int_at ch3 in
              if n3 < 0 then exception ERR_BASE64
              else rbind (buf_put buf_size acc (byte_of (push_bit 6 n2 OR n3))) (\<lambda>acc.
                read_base64_loop inp acc buf_size))))"
  by pat_completeness auto
termination
  by (relation "measure (\<lambda>(inp, acc, buf_size). buf_size - length acc)") (auto simp: buf_put_def split: if_splits)

declare read_base64_loop.simps [simp del]

definition read_base64 :: "istream \<Rightarrow> nat \<Rightarrow> (byte list \<times> istream) outcome" where
  "read_base64 inp buf_size = assert_that (buf_size \<ge> 3) (read_base64_loop inp [] buf_size)"

section \<open>The reference encoding\<close>

text \<open>Groups of three bytes are 24-bit numbers, written as four digits in base 64; a last group
  of one or two bytes is filled with zero bits and padded with \<open>=\<close>.\<close>

definition digit64 :: "int \<Rightarrow> nat \<Rightarrow> int" where
  "digit64 n k = int2char ! nat (n div 64 ^ k mod 64)"

fun base64_spec :: "byte list \<Rightarrow> int list" where
  "base64_spec [] = []"
| "base64_spec [b0] =
     (let n = uint b0 * 16 in [digit64 n 1, digit64 n 0, 61, 61])"
| "base64_spec [b0, b1] =
     (let n = (uint b0 * 256 + uint b1) * 4 in [digit64 n 2, digit64 n 1, digit64 n 0, 61])"
| "base64_spec (b0 # b1 # b2 # bs) =
     (let n = (uint b0 * 256 + uint b1) * 256 + uint b2 in
      [digit64 n 3, digit64 n 2, digit64 n 1, digit64 n 0]) @ base64_spec bs"

section \<open>The sextets of a group\<close>

lemma int2char_list: "list_all (\<lambda>n. char2int_at (int2char ! n) = int n \<and> is_byte (int2char ! n)) [0..<64]"
  by code_simp

lemma digits_base64:
  fixes d0 d1 d2 d3 :: int
  assumes "0 \<le> d0" "d0 < 64" "0 \<le> d1" "d1 < 64" "0 \<le> d2" "d2 < 64" "0 \<le> d3" "d3 < 64"
  defines "n \<equiv> ((d3 * 64 + d2) * 64 + d1) * 64 + d0"
  shows "n div 64 ^ 3 mod 64 = d3" "n div 64 ^ 2 mod 64 = d2"
    "n div 64 ^ 1 mod 64 = d1" "n div 64 ^ 0 mod 64 = d0"
proof -
  have dm: "(a * 64 + d) div 64 = a" "(a * 64 + d) mod 64 = d" if "0 \<le> d" "d < 64" for a d :: int
    using that by simp_all
  have s1: "n div 64 = (d3 * 64 + d2) * 64 + d1" "n mod 64 = d0"
    unfolding n_def using assms(1,2) by (rule dm)+
  have s2: "n div 64 div 64 = d3 * 64 + d2" "n div 64 mod 64 = d1"
    unfolding s1(1) using assms(3,4) by (rule dm)+
  have s3: "n div 64 div 64 div 64 = d3" "n div 64 div 64 mod 64 = d2"
    unfolding s2(1) using assms(5,6) by (rule dm)+
  have p: "n div 64 ^ 2 = n div 64 div 64" "n div 64 ^ 3 = n div 64 div 64 div 64"
    using zdiv_zmult2_eq [of 64 n 64] zdiv_zmult2_eq [of 64 n "64 * 64"]
      zdiv_zmult2_eq [of 64 "n div 64" 64] by simp_all
  show "n div 64 ^ 3 mod 64 = d3"
    unfolding p s3 using assms(7,8) by (rule mod_pos_pos_trivial)
  show "n div 64 ^ 2 mod 64 = d2" unfolding p by (rule s3)
  show "n div 64 ^ 1 mod 64 = d1" unfolding power_one_right by (rule s2)
  show "n div 64 ^ 0 mod 64 = d0" unfolding power_0 div_by_1 by (rule s1)
qed

lemma sextet_eqs:
  fixes x y :: int
  assumes "0 \<le> x" "x < 256" "0 \<le> y" "y < 256"
  shows "drop_bit 2 x = x div 4"
    and "push_bit 4 x AND 0x3f = x mod 4 * 16"
    and "x mod 4 * 16 OR drop_bit 4 y = x mod 4 * 16 + y div 16"
    and "push_bit 2 x AND 0x3f = x mod 16 * 4"
    and "x mod 16 * 4 OR drop_bit 6 y = x mod 16 * 4 + y div 64"
proof -
  show "push_bit 4 x AND 0x3f = x mod 4 * 16"
    using mult_mod_left [of x 4 16] by (simp add: and_mask_int push_bit_eq_mult)
  show "push_bit 2 x AND 0x3f = x mod 16 * 4"
    using mult_mod_left [of x 16 4] by (simp add: and_mask_int push_bit_eq_mult)
  show "drop_bit 2 x = x div 4" by (simp add: drop_bit_eq_div)
  show "x mod 4 * 16 OR drop_bit 4 y = x mod 4 * 16 + y div 16"
    using assms by (subst or_eq_add_int [of 4]) (auto simp: drop_bit_eq_div)
  show "x mod 16 * 4 OR drop_bit 6 y = x mod 16 * 4 + y div 64"
    using assms by (subst or_eq_add_int [of 2]) (auto simp: drop_bit_eq_div)
qed

lemma sextet_decomp:
  fixes x y z :: int
  shows "(x * 256 + y) * 256 + z =
    ((x div 4 * 64 + (x mod 4 * 16 + y div 16)) * 64 + (y mod 16 * 4 + z div 64)) * 64 + z mod 64"
proof -
  define x1 x0 y1 y0 z1 z0 where d: "x1 = x div 4" "x0 = x mod 4" "y1 = y div 16" "y0 = y mod 16"
    "z1 = z div 64" "z0 = z mod 64"
  have "x = x1 * 4 + x0" "y = y1 * 16 + y0" "z = z1 * 64 + z0"
    unfolding d by simp_all
  then show ?thesis unfolding d [symmetric] by simp
qed

lemma sextet_bounds:
  fixes x y :: int
  assumes "0 \<le> x" "x < 256" "0 \<le> y" "y < 256"
  shows "x div 4 < 64" "0 \<le> x div 4" "0 \<le> x mod 4 * 16" "x mod 4 * 16 < 64"
    "0 \<le> x mod 4 * 16 + y div 16" "x mod 4 * 16 + y div 16 < 64"
    "0 \<le> x mod 16 * 4" "x mod 16 * 4 < 64"
    "0 \<le> x mod 16 * 4 + y div 64" "x mod 16 * 4 + y div 64 < 64" "0 \<le> x mod 64" "x mod 64 < 64"
  using assms by auto

lemma digit64_group3:
  fixes x y z :: int
  assumes "0 \<le> x" "x < 256" "0 \<le> y" "y < 256" "0 \<le> z" "z < 256"
  defines "n \<equiv> (x * 256 + y) * 256 + z"
  shows "digit64 n 3 = int2char_at (drop_bit 2 x)"
    and "digit64 n 2 = int2char_at ((push_bit 4 x AND 0x3f) OR drop_bit 4 y)"
    and "digit64 n 1 = int2char_at ((push_bit 2 y AND 0x3f) OR drop_bit 6 z)"
    and "digit64 n 0 = int2char_at (z AND 0x3f)"
proof -
  note xy = sextet_bounds [OF assms(1-4)] and yz = sextet_bounds [OF assms(3-6)]
    and zz = sextet_bounds [OF assms(5,6) assms(5,6)]
  note d = digits_base64 [OF zz(11,12) yz(9,10) xy(5,6) xy(2,1)]
  show "digit64 n 3 = int2char_at (drop_bit 2 x)"
    "digit64 n 2 = int2char_at ((push_bit 4 x AND 0x3f) OR drop_bit 4 y)"
    "digit64 n 1 = int2char_at ((push_bit 2 y AND 0x3f) OR drop_bit 6 z)"
    "digit64 n 0 = int2char_at (z AND 0x3f)"
    unfolding n_def digit64_def int2char_at_def sextet_decomp [of x y z] d
    using assms by (simp_all only: sextet_eqs) (simp only: and_mask_int)
qed

lemma digit64_group2:
  fixes x y :: int
  assumes "0 \<le> x" "x < 256" "0 \<le> y" "y < 256"
  defines "n \<equiv> (x * 256 + y) * 4"
  shows "digit64 n 2 = int2char_at (drop_bit 2 x)"
    and "digit64 n 1 = int2char_at ((push_bit 4 x AND 0x3f) OR drop_bit 4 y)"
    and "digit64 n 0 = int2char_at (push_bit 2 y AND 0x3f)"
proof -
  note xy = sextet_bounds [OF assms(1-4)] and yy = sextet_bounds [OF assms(3,4) assms(3,4)]
  have n: "n = ((0 * 64 + x div 4) * 64 + (x mod 4 * 16 + y div 16)) * 64 + y mod 16 * 4"
    using sextet_decomp [of x y 0] by (simp add: n_def)
  note d = digits_base64 [OF yy(7,8) xy(5,6) xy(2,1), of 0]
  show "digit64 n 2 = int2char_at (drop_bit 2 x)"
    "digit64 n 1 = int2char_at ((push_bit 4 x AND 0x3f) OR drop_bit 4 y)"
    "digit64 n 0 = int2char_at (push_bit 2 y AND 0x3f)"
    unfolding digit64_def int2char_at_def n using assms d(2-4) by (simp_all only: sextet_eqs)
qed

lemma digit64_group1:
  fixes x :: int
  assumes "0 \<le> x" "x < 256"
  defines "n \<equiv> x * 16"
  shows "digit64 n 1 = int2char_at (drop_bit 2 x)"
    and "digit64 n 0 = int2char_at (push_bit 4 x AND 0x3f)"
proof -
  note xx = sextet_bounds [OF assms(1,2) assms(1,2)]
  have n: "n = ((0 * 64 + 0) * 64 + x div 4) * 64 + x mod 4 * 16"
    using sextet_decomp [of x 0 0] by (simp add: n_def)
  note d = digits_base64 [OF xx(3,4) xx(2,1), of 0 0]
  show "digit64 n 1 = int2char_at (drop_bit 2 x)"
    "digit64 n 0 = int2char_at (push_bit 4 x AND 0x3f)"
    unfolding digit64_def int2char_at_def n using assms d(3,4) by (simp_all only: sextet_eqs)
qed

lemma chr_pad [simp]: "chr CHR ''='' = 61"
  by (simp add: chr_def)

text \<open>The encoding by sextets, as the code computes it.\<close>

lemma base64_spec_sextets:
  "base64_spec [b0] =
     [int2char_at (drop_bit 2 (uint b0)), int2char_at (push_bit 4 (uint b0) AND 0x3f), 61, 61]"
  "base64_spec [b0, b1] =
     [int2char_at (drop_bit 2 (uint b0)),
      int2char_at ((push_bit 4 (uint b0) AND 0x3f) OR drop_bit 4 (uint b1)),
      int2char_at (push_bit 2 (uint b1) AND 0x3f), 61]"
  "base64_spec (b0 # b1 # b2 # bs) =
     [int2char_at (drop_bit 2 (uint b0)),
      int2char_at ((push_bit 4 (uint b0) AND 0x3f) OR drop_bit 4 (uint b1)),
      int2char_at ((push_bit 2 (uint b1) AND 0x3f) OR drop_bit 6 (uint b2)),
      int2char_at (uint b2 AND 0x3f)] @ base64_spec bs"
  by (simp_all only: base64_spec.simps Let_def digit64_group1 digit64_group2 digit64_group3
        uint_byte_bounds)

declare base64_spec.simps(2-4) [simp del]

section \<open>Writer\<close>

lemma int2char_at_is_byte: "0 \<le> n \<Longrightarrow> n < 64 \<Longrightarrow> is_byte (int2char_at n)"
  using int2char_list by (auto simp: list_all_iff int2char_at_def nat_less_iff)

lemma sextet_range:
  fixes b b' :: byte
  shows "0 \<le> drop_bit 2 (uint b)" "drop_bit 2 (uint b) < 64"
    "0 \<le> push_bit 4 (uint b) AND 0x3f" "push_bit 4 (uint b) AND 0x3f < 64"
    "0 \<le> push_bit 2 (uint b) AND 0x3f" "push_bit 2 (uint b) AND 0x3f < 64"
    "0 \<le> (push_bit 4 (uint b) AND 0x3f) OR drop_bit 4 (uint b')"
    "(push_bit 4 (uint b) AND 0x3f) OR drop_bit 4 (uint b') < 64"
    "0 \<le> (push_bit 2 (uint b) AND 0x3f) OR drop_bit 6 (uint b')"
    "(push_bit 2 (uint b) AND 0x3f) OR drop_bit 6 (uint b') < 64"
    "0 \<le> uint b AND 0x3f" "uint b AND 0x3f < 64"
proof -
  note u = uint_byte_bounds [of b] uint_byte_bounds [of b']
  show "0 \<le> drop_bit 2 (uint b)" "0 \<le> push_bit 4 (uint b) AND 0x3f"
    "0 \<le> push_bit 2 (uint b) AND 0x3f" "0 \<le> uint b AND 0x3f"
    "0 \<le> (push_bit 4 (uint b) AND 0x3f) OR drop_bit 4 (uint b')"
    "0 \<le> (push_bit 2 (uint b) AND 0x3f) OR drop_bit 6 (uint b')"
    by simp_all
  show "drop_bit 2 (uint b) < 64" "push_bit 4 (uint b) AND 0x3f < 64"
    "push_bit 2 (uint b) AND 0x3f < 64"
    "(push_bit 4 (uint b) AND 0x3f) OR drop_bit 4 (uint b') < 64"
    "(push_bit 2 (uint b) AND 0x3f) OR drop_bit 6 (uint b') < 64"
    unfolding sextet_eqs [OF u] by (rule sextet_bounds [OF u])+
  show "uint b AND 0x3f < 64" by (simp add: and_mask_int)
qed

lemma base64_spec_is_byte: "c \<in> set (base64_spec bs) \<Longrightarrow> is_byte c"
proof (induction bs rule: base64_spec.induct)
  case (4 b0 b1 b2 bs)
  then show ?case by (auto simp: base64_spec_sextets int2char_at_is_byte sextet_range)
qed (auto simp: base64_spec_sextets int2char_at_is_byte sextet_range is_byte_def [of 61])

lemma length_base64_spec: "length (base64_spec bs) = (length bs + 2) div 3 * 4"
proof (induction bs rule: base64_spec.induct)
  case (4 b0 b1 b2 bs)
  have "(length bs + 3 + 2) div 3 = (length bs + 2) div 3 + 1" by presburger
  with 4 show ?case by (simp add: base64_spec_sextets)
qed (simp_all add: base64_spec_sextets)

text \<open>What one turn of the loop does to the pending characters.\<close>

lemma obf_flush_written:
  assumes "obf_flush out obf = (out1, obf1)" "\<forall>c \<in> set obf. is_byte c"
  shows "written out1 @ obf1 = written out @ obf" "length obf1 < OBF_SIZE"
    "\<forall>c \<in> set obf1. is_byte c" "supports_zero_copy out1 = supports_zero_copy out"
  using assms by (auto simp: obf_flush_def syms_map_byte_of split: if_splits)

lemma write_base64_loop_group:
  assumes "length obf < OBF_SIZE"
  shows "write_base64_loop out obf [b0] = Inr (obf_flush out (obf @ base64_spec [b0]))"
    and "write_base64_loop out obf [b0, b1] = Inr (obf_flush out (obf @ base64_spec [b0, b1]))"
    and "write_base64_loop out obf (b0 # b1 # b2 # bs) =
      (let (out, obf) = obf_flush out (obf @ base64_spec [b0, b1, b2]) in
       write_base64_loop out obf bs)"
  using assms by (simp_all add: base64_spec_sextets obf_add_def Let_def)

declare write_base64_loop.simps(2-4) [simp del]

lemma write_base64_loop_spec:
  "length obf < OBF_SIZE \<Longrightarrow> \<forall>c \<in> set obf. is_byte c \<Longrightarrow>
    \<exists>out' obf'. write_base64_loop out obf bs = Inr (out', obf') \<and>
      written out' @ obf' = written out @ obf @ base64_spec bs \<and>
      (\<forall>c \<in> set obf'. is_byte c) \<and> supports_zero_copy out' = supports_zero_copy out"
proof (induction bs arbitrary: out obf rule: base64_spec.induct)
  case 1
  then show ?case by simp
next
  case (2 b0)
  obtain out1 obf1 where fl: "obf_flush out (obf @ base64_spec [b0]) = (out1, obf1)" by fastforce
  from 2 have "\<forall>c \<in> set (obf @ base64_spec [b0]). is_byte c" by (auto intro: base64_spec_is_byte)
  from obf_flush_written [OF fl this] 2 fl show ?case
    by (simp add: write_base64_loop_group)
next
  case (3 b0 b1)
  obtain out1 obf1 where fl: "obf_flush out (obf @ base64_spec [b0, b1]) = (out1, obf1)" by fastforce
  from 3 have "\<forall>c \<in> set (obf @ base64_spec [b0, b1]). is_byte c" by (auto intro: base64_spec_is_byte)
  from obf_flush_written [OF fl this] 3 fl show ?case
    by (simp add: write_base64_loop_group)
next
  case (4 b0 b1 b2 bs)
  let ?g = "base64_spec [b0, b1, b2]"
  obtain out1 obf1 where fl: "obf_flush out (obf @ ?g) = (out1, obf1)" by fastforce
  from 4 have "\<forall>c \<in> set (obf @ ?g). is_byte c" by (auto intro: base64_spec_is_byte)
  note f = obf_flush_written [OF fl this]
  have spec: "base64_spec (b0 # b1 # b2 # bs) = ?g @ base64_spec bs"
    by (simp add: base64_spec_sextets)
  from "4.IH" [OF f(2,3), of out1] f(1,4) show ?case
    using 4 by (auto simp: write_base64_loop_group fl spec)
qed

lemma write_base64_spec:
  "\<exists>out'. write_base64 out buf = Inr (out', (length buf + 2) div 3 * 4) \<and>
     written out' = written out @ base64_spec buf \<and>
     supports_zero_copy out' = supports_zero_copy out"
proof -
  obtain out' obf' where w: "write_base64_loop out [] buf = Inr (out', obf')"
    "written out' @ obf' = written out @ base64_spec buf" "\<forall>c \<in> set obf'. is_byte c"
    "supports_zero_copy out' = supports_zero_copy out"
    using write_base64_loop_spec [of "[]" out buf] by auto
  then show ?thesis by (auto simp: write_base64_def syms_map_byte_of)
qed

section \<open>Reader\<close>

lemma char2int_int2char: "0 \<le> n \<Longrightarrow> n < 64 \<Longrightarrow> char2int_at (int2char_at n) = n"
  using int2char_list by (auto simp: list_all_iff int2char_at_def nat_less_iff)

lemma char2int_not_pad: "char2int_at n \<ge> 0 \<Longrightarrow> n \<noteq> 61"
  by (auto simp: char2int_at_def char2int_def)

lemma int2char_not_pad [simp]: "0 \<le> n \<Longrightarrow> n < 64 \<Longrightarrow> int2char_at n \<noteq> 61"
  using char2int_not_pad char2int_int2char by fastforce

lemma char2int_pad [simp]: "char2int_at 61 = -1"
  by (simp add: char2int_at_def char2int_def)

text \<open>The sextets as numbers, and the bytes that the reader puts together from them.\<close>

lemma base64_spec_numbers:
  "base64_spec [b0] =
     [int2char_at (uint b0 div 4), int2char_at (uint b0 mod 4 * 16), 61, 61]"
  "base64_spec [b0, b1] =
     [int2char_at (uint b0 div 4), int2char_at (uint b0 mod 4 * 16 + uint b1 div 16),
      int2char_at (uint b1 mod 16 * 4), 61]"
  "base64_spec [b0, b1, b2] =
     [int2char_at (uint b0 div 4), int2char_at (uint b0 mod 4 * 16 + uint b1 div 16),
      int2char_at (uint b1 mod 16 * 4 + uint b2 div 64), int2char_at (uint b2 mod 64)]"
proof -
  have u: "0 \<le> uint b" "uint b < 256" for b :: byte by simp_all
  show "base64_spec [b0] =
     [int2char_at (uint b0 div 4), int2char_at (uint b0 mod 4 * 16), 61, 61]"
    by (simp only: base64_spec_sextets sextet_eqs [OF u [of b0] u [of b0]])
  show "base64_spec [b0, b1] =
     [int2char_at (uint b0 div 4), int2char_at (uint b0 mod 4 * 16 + uint b1 div 16),
      int2char_at (uint b1 mod 16 * 4), 61]"
    by (simp only: base64_spec_sextets sextet_eqs [OF u u])
  show "base64_spec [b0, b1, b2] =
     [int2char_at (uint b0 div 4), int2char_at (uint b0 mod 4 * 16 + uint b1 div 16),
      int2char_at (uint b1 mod 16 * 4 + uint b2 div 64), int2char_at (uint b2 mod 64)]"
    by (simp only: base64_spec_sextets sextet_eqs [OF u u] base64_spec.simps append.simps
          and_mask_int [symmetric])
qed

lemma unsextet:
  fixes x y z :: int
  assumes "0 \<le> x" "x < 256" "0 \<le> y" "y < 256" "0 \<le> z" "z < 256"
  shows "push_bit 2 (x div 4) OR drop_bit 4 (x mod 4 * 16) = x"
    and "push_bit 2 (x div 4) OR drop_bit 4 (x mod 4 * 16 + y div 16) = x"
    and "push_bit 4 (x mod 4 * 16 + y div 16) OR drop_bit 2 (y mod 16 * 4) = x mod 4 * 256 + y"
    and "push_bit 4 (x mod 4 * 16 + y div 16) OR drop_bit 2 (y mod 16 * 4 + z div 64) =
      x mod 4 * 256 + y"
    and "push_bit 6 (y mod 16 * 4 + z div 64) OR z mod 64 = y mod 16 * 256 + z"
proof -
  have c: "(x mod 4 * 16 + y div 16) div 16 = x mod 4" "(y mod 16 * 4 + z div 64) div 4 = y mod 16"
    using assms by simp_all
  show "push_bit 2 (x div 4) OR drop_bit 4 (x mod 4 * 16) = x"
    by (subst or_eq_add_int [of 2]) (auto simp: drop_bit_eq_div push_bit_eq_mult)
  show "push_bit 2 (x div 4) OR drop_bit 4 (x mod 4 * 16 + y div 16) = x"
    by (subst or_eq_add_int [of 2]) (auto simp: drop_bit_eq_div push_bit_eq_mult c)
  show "push_bit 4 (x mod 4 * 16 + y div 16) OR drop_bit 2 (y mod 16 * 4) = x mod 4 * 256 + y"
    by (subst or_eq_add_int [of 4]) (auto simp: drop_bit_eq_div push_bit_eq_mult algebra_simps)
  show "push_bit 4 (x mod 4 * 16 + y div 16) OR drop_bit 2 (y mod 16 * 4 + z div 64) =
      x mod 4 * 256 + y"
    unfolding drop_bit_eq_div push_bit_eq_mult using c
    by (subst or_eq_add_int [of 4]) auto
  show "push_bit 6 (y mod 16 * 4 + z div 64) OR z mod 64 = y mod 16 * 256 + z"
    by (subst or_eq_add_int [of 6]) (auto simp: push_bit_eq_mult algebra_simps)
qed

lemma byte_of_add_256: "byte_of (k * 256 + uint b) = (b :: byte)"
  unfolding word_uint_eq_iff uint_word_of_int by simp

lemmas unsextet_bytes =
  unsextet [OF uint_byte_bounds uint_byte_bounds uint_byte_bounds] byte_of_add_256 byte_of_uint

text \<open>What the reader does with a complete group, and with a padded last group.\<close>

lemma read_base64_loop_sextets:
  assumes "length acc + 3 \<le> buf_size" "0 \<le> n0" "n0 < 64" "0 \<le> n1" "n1 < 64"
  shows "read_base64_loop (int2char_at n0 # int2char_at n1 # 61 # 61 # inp) acc buf_size =
      Inr (acc @ [byte_of (push_bit 2 n0 OR drop_bit 4 n1)], inp)"
    and "0 \<le> n2 \<Longrightarrow> n2 < 64 \<Longrightarrow>
      read_base64_loop (int2char_at n0 # int2char_at n1 # int2char_at n2 # 61 # inp) acc buf_size =
      Inr (acc @ [byte_of (push_bit 2 n0 OR drop_bit 4 n1),
        byte_of (push_bit 4 n1 OR drop_bit 2 n2)], inp)"
    and "0 \<le> n2 \<Longrightarrow> n2 < 64 \<Longrightarrow> 0 \<le> n3 \<Longrightarrow> n3 < 64 \<Longrightarrow>
      read_base64_loop (int2char_at n0 # int2char_at n1 # int2char_at n2 # int2char_at n3 # inp)
        acc buf_size =
      read_base64_loop inp (acc @ [byte_of (push_bit 2 n0 OR drop_bit 4 n1),
        byte_of (push_bit 4 n1 OR drop_bit 2 n2), byte_of (push_bit 6 n2 OR n3)]) buf_size"
  using assms
  by (subst read_base64_loop.simps; simp add: char2int_int2char Let_def buf_put_def)+

lemma read_base64_loop_groups:
  assumes "length acc + 3 \<le> buf_size"
  shows "read_base64_loop (base64_spec [b0] @ inp) acc buf_size = Inr (acc @ [b0], inp)"
    and "read_base64_loop (base64_spec [b0, b1] @ inp) acc buf_size = Inr (acc @ [b0, b1], inp)"
    and "read_base64_loop (base64_spec [b0, b1, b2] @ inp) acc buf_size =
      read_base64_loop inp (acc @ [b0, b1, b2]) buf_size"
proof -
  note bnd = sextet_bounds [OF uint_byte_bounds uint_byte_bounds]
  show "read_base64_loop (base64_spec [b0] @ inp) acc buf_size = Inr (acc @ [b0], inp)"
    unfolding base64_spec_numbers append.simps using assms
    by (simp only: read_base64_loop_sextets bnd unsextet_bytes)
  show "read_base64_loop (base64_spec [b0, b1] @ inp) acc buf_size = Inr (acc @ [b0, b1], inp)"
    unfolding base64_spec_numbers append.simps using assms
    by (simp only: read_base64_loop_sextets bnd unsextet_bytes)
  show "read_base64_loop (base64_spec [b0, b1, b2] @ inp) acc buf_size =
      read_base64_loop inp (acc @ [b0, b1, b2]) buf_size"
    unfolding base64_spec_numbers append.simps using assms
    by (simp only: read_base64_loop_sextets bnd unsextet_bytes)
qed

lemma read_base64_loop_stop:
  "char2int_at (peek_stream inp) < 0 \<Longrightarrow> read_base64_loop inp acc buf_size = Inr (acc, inp)"
  by (subst read_base64_loop.simps) (simp add: Let_def)

lemma read_base64_loop_spec:
  "char2int_at (peek_stream rest) < 0 \<Longrightarrow>
   length acc + 3 * ((length bs + 2) div 3) \<le> buf_size \<Longrightarrow>
   read_base64_loop (base64_spec bs @ rest) acc buf_size = Inr (acc @ bs, rest)"
proof (induction bs arbitrary: acc rule: base64_spec.induct)
  case 1
  then show ?case by (simp add: read_base64_loop_stop)
next
  case (2 b0)
  then show ?case by (simp add: read_base64_loop_groups)
next
  case (3 b0 b1)
  then show ?case by (simp add: read_base64_loop_groups)
next
  case (4 b0 b1 b2 bs)
  have d: "(length (b0 # b1 # b2 # bs) + 2) div 3 = (length bs + 2) div 3 + 1" by simp
  have "base64_spec (b0 # b1 # b2 # bs) @ rest = base64_spec [b0, b1, b2] @ base64_spec bs @ rest"
    by (simp add: base64_spec_sextets)
  then have "read_base64_loop (base64_spec (b0 # b1 # b2 # bs) @ rest) acc buf_size =
      read_base64_loop (base64_spec bs @ rest) (acc @ [b0, b1, b2]) buf_size"
    using "4.prems"(2) d by (simp add: read_base64_loop_groups)
  also have "\<dots> = Inr ((acc @ [b0, b1, b2]) @ bs, rest)"
    using "4.prems" d by (intro "4.IH") auto
  finally show ?case by simp
qed

lemma read_base64_loop_safe:
  "length acc \<le> buf_size \<Longrightarrow>
   read_base64_loop inp acc buf_size = exception ERR_BASE64 \<or>
   (\<exists>res inp'. read_base64_loop inp acc buf_size = Inr (acc @ res, inp') \<and> length (acc @ res) \<le> buf_size)"
proof (induction "buf_size - length acc" arbitrary: inp acc rule: less_induct)
  case less
  show ?case
  proof (cases "length acc + 3 \<le> buf_size \<and> char2int_at (peek_stream inp) \<ge> 0")
    case True
    have put: "buf_put buf_size (acc @ bs) b = Inr (acc @ bs @ [b])" if "length bs < 3" for bs b
      using True that by (simp add: buf_put_def)
    have IH: "read_base64_loop inp' (acc @ [x, y, z]) buf_size = exception ERR_BASE64 \<or>
        (\<exists>res inp''. read_base64_loop inp' (acc @ [x, y, z]) buf_size = Inr (acc @ res, inp'') \<and> length (acc @ res) \<le> buf_size)"
      for inp' x y z
      using less.hyps [of "acc @ [x, y, z]" inp'] True by fastforce
    show ?thesis
      using True IH put [of "[]"] put [of "[_]"] put [of "[_, _]"]
      by (subst (1 2) read_base64_loop.simps) (auto simp: Let_def split: prod.splits)
  next
    case False
    then show ?thesis using less.prems by (subst (1 2) read_base64_loop.simps) (auto simp: Let_def)
  qed
qed

section \<open>Properties\<close>

text \<open>C27: The BASE64 writer never stores outside of its output array, whatever the length of the
  data; it appends to the stream exactly the reference encoding of the data, and the size that it
  returns is the number of characters of that encoding.\<close>

theorem write_base64_correct:
  "\<exists>out'. write_base64 out buf = Inr (out', length (base64_spec buf)) \<and>
     written out' = written out @ base64_spec buf \<and>
     supports_zero_copy out' = supports_zero_copy out"
  using write_base64_spec [of out buf] by (simp add: length_base64_spec)

text \<open>C28: BASE64 round trip: what the writer appends to a stream for some data, followed by
  anything that does not start with a character of the BASE64 alphabet, is read back by the reader
  as the same data, and nothing after the encoding is consumed.\<close>

theorem base64_roundtrip:
  assumes "3 \<le> buf_size" "3 * ((length data + 2) div 3) \<le> buf_size"
    and "char2int_at (peek_stream rest) < 0"
  shows "\<exists>out' n enc. write_base64 out data = Inr (out', n) \<and> written out' = written out @ enc \<and>
     read_base64 (enc @ rest) buf_size = Inr (data, rest)"
  using assms write_base64_spec [of out data] read_base64_loop_spec [of rest "[]" data buf_size]
  by (auto simp: read_base64_def)

theorem base64_roundtrip_witness:
  "\<exists>out' n enc. write_base64 \<lparr>supports_zero_copy = False, written = []\<rparr> [1, 2, 255, 7] =
     Inr (out', n) \<and> written out' = [] @ enc \<and>
     read_base64 (enc @ [34, 0]) 8 = Inr ([1, 2, 255, 7], [34, 0])"
  using base64_roundtrip [of 8 "[1, 2, 255, 7]" "[34, 0]" "\<lparr>supports_zero_copy = False, written = []\<rparr>"]
  by (simp add: char2int_at_def char2int_def)

text \<open>C29: The BASE64 reader never stores outside of its buffer: on every input, valid or not, and for every
  buffer of three or more bytes, it returns with at most as many bytes as the buffer holds, or it raises
  \<^verbatim>\<open>ERR_BASE64\<close>; no store behind the end of the buffer takes place.\<close>

theorem read_base64_within_buffer:
  assumes "3 \<le> buf_size"
  shows "read_base64 inp buf_size = exception ERR_BASE64 \<or>
     (\<exists>res inp'. read_base64 inp buf_size = Inr (res, inp') \<and> length res \<le> buf_size)"
  using assms read_base64_loop_safe [of "[]" buf_size inp] by (auto simp: read_base64_def)

theorem read_base64_within_buffer_witness:
  "(\<exists>res inp'. read_base64 [65, 81, 73, 68, 65, 81, 73, 68] 4 = Inr (res, inp') \<and> length res \<le> 4) \<and>
   read_base64 [65, 81, 73, 68, 65, 81, 73, 68] 4 = Inr ([1, 2, 3], [65, 81, 73, 68])"
proof -
  have "read_base64 [65, 81, 73, 68, 65, 81, 73, 68] 4 = Inr ([1, 2, 3], [65, 81, 73, 68])"
    by (simp add: read_base64_def read_base64_loop.simps char2int_at_def char2int_def buf_put_def)
  with read_base64_within_buffer [of 4 "[65, 81, 73, 68, 65, 81, 73, 68]"] show ?thesis by auto
qed

end
