(* ===== verification/Json.thy ===== *)
theory Json
  imports Base64
begin

text \<open>
  \<^verbatim>\<open>framework/json.c\<close>, first part: whitespace, numbers, booleans and strings, in the order
  of the source. Numbers are 64-bit: \<^verbatim>\<open>unsigned long\<close> and \<^verbatim>\<open>uint64_t\<close> wrap around,
  while the overflow of a \<^verbatim>\<open>long\<close> or \<^verbatim>\<open>int64_t\<close> in the readers is undefined. A
  pointer to a string is an optional byte list.
\<close>

section \<open>Characters\<close>

definition isspace :: "int \<Rightarrow> bool" where
  "isspace ch \<longleftrightarrow> ch = 32 \<or> (9 \<le> ch \<and> ch \<le> 13)"

function ignore_whitespace :: "int \<Rightarrow> istream \<Rightarrow> int \<times> istream" where
  "ignore_whitespace ch inp =
     (if ch > 0 \<and> isspace ch
      then (let (ch, inp) = read_stream inp in ignore_whitespace ch inp)
      else (ch, inp))"
  by pat_completeness auto
termination
proof (relation "measure (\<lambda>(ch, inp). length inp + (if ch > 0 then 1 else 0))", goal_cases)
  case (2 ch inp x ch' inp')
  then show ?case by (cases inp) auto
qed simp

function read_whitespace :: "istream \<Rightarrow> istream" where
  "read_whitespace inp =
     (if peek_stream inp > 0 \<and> isspace (peek_stream inp)
      then read_whitespace (snd (read_stream inp))
      else inp)"
  by pat_completeness auto
termination
proof (relation "measure length", goal_cases)
  case (2 inp)
  then show ?case by (cases inp) auto
qed simp

declare ignore_whitespace.simps [simp del] read_whitespace.simps [simp del]

text \<open>The characters that a JSON string literal cannot hold as they are.\<close>

definition char_escaping :: "nat list" where
  "char_escaping = [
       1, 1, 1, 1, 1, 1, 1, 1, 1, 1, 1, 1, 1, 1, 1, 1,
       1, 1, 1, 1, 1, 1, 1, 1, 1, 1, 1, 1, 1, 1, 1, 1,
       0, 0, 1, 0, 0, 0, 0, 0, 0, 0, 0, 0, 0, 0, 0, 0,
       0, 0, 0, 0, 0, 0, 0, 0, 0, 0, 0, 0, 0, 0, 0, 0,
       0, 0, 0, 0, 0, 0, 0, 0, 0, 0, 0, 0, 0, 0, 0, 0,
       0, 0, 0, 0, 0, 0, 0, 0, 0, 0, 0, 0, 1, 0, 0, 0,
       0, 0, 0, 0, 0, 0, 0, 0, 0, 0, 0, 0, 0, 0, 0, 0,
       0, 0, 0, 0, 0, 0, 0, 0, 0, 0, 0, 0, 0, 0, 0, 1,
       0, 0, 0, 0, 0, 0, 0, 0, 0, 0, 0, 0, 0, 0, 0, 0,
       0, 0, 0, 0, 0, 0, 0, 0, 0, 0, 0, 0, 0, 0, 0, 0,
       0, 0, 0, 0, 0, 0, 0, 0, 0, 0, 0, 0, 0, 0, 0, 0,
       0, 0, 0, 0, 0, 0, 0, 0, 0, 0, 0, 0, 0, 0, 0, 0,
       0, 0, 0, 0, 0, 0, 0, 0, 0, 0, 0, 0, 0, 0, 0, 0,
       0, 0, 0, 0, 0, 0, 0, 0, 0, 0, 0, 0, 0, 0, 0, 0,
       0, 0, 0, 0, 0, 0, 0, 0, 0, 0, 0, 0, 0, 0, 0, 0,
       0, 0, 0, 0, 0, 0, 0, 0, 0, 0, 0, 0, 0, 0, 0, 0]"

definition escaped :: "byte \<Rightarrow> bool" where
  "escaped ch \<longleftrightarrow> char_escaping ! unat ch \<noteq> 0"

section \<open>Writers\<close>

function json_write_ulong :: "OutputStream \<Rightarrow> u64 \<Rightarrow> OutputStream" where
  "json_write_ulong out n =
     (let (out, n) = (if n \<ge> 10 then (json_write_ulong out (n div 10), n mod 10) else (out, n))
      in write_stream out (uint n + chr CHR ''0''))"
  by pat_completeness auto
termination
  by (relation "measure (\<lambda>(out, n). unat n)") (auto simp: unat_div word_le_nat_alt)

definition json_write_long :: "OutputStream \<Rightarrow> u64 \<Rightarrow> OutputStream" where
  "json_write_long out n =
     (if sint n < 0
      then json_write_ulong (write_stream out (chr CHR ''-'')) (NOT n + 1)
      else json_write_ulong out n)"

function json_write_uint64 :: "OutputStream \<Rightarrow> u64 \<Rightarrow> OutputStream" where
  "json_write_uint64 out n =
     (let (out, n) = (if n \<ge> 10 then (json_write_uint64 out (n div 10), n mod 10) else (out, n))
      in write_stream out (uint n + chr CHR ''0''))"
  by pat_completeness auto
termination
  by (relation "measure (\<lambda>(out, n). unat n)") (auto simp: unat_div word_le_nat_alt)

definition json_write_int64 :: "OutputStream \<Rightarrow> u64 \<Rightarrow> OutputStream" where
  "json_write_int64 out n =
     (if sint n < 0
      then json_write_uint64 (write_stream out (chr CHR ''-'')) (NOT n + 1)
      else json_write_uint64 out n)"

declare json_write_ulong.simps [simp del] json_write_uint64.simps [simp del]

definition json_write_boolean :: "OutputStream \<Rightarrow> bool \<Rightarrow> OutputStream" where
  "json_write_boolean out b =
     (if b then write_string out (cstr ''true'') else write_string out (cstr ''false''))"

definition hex_digit :: "int \<Rightarrow> int" where
  "hex_digit n =
     (let n = n AND 0xf
      in if n < 10 then chr CHR ''0'' + n else chr CHR ''A'' + (n - 10))"

definition write_escape_seq :: "OutputStream \<Rightarrow> byte \<Rightarrow> OutputStream" where
  "write_escape_seq out ch =
     (let n = uint ch; bs = chr CHR 0x5C in
      if n = chr CHR 0x22 \<or> n = bs then write_stream (write_stream out bs) n
      else if n = 8 then write_stream (write_stream out bs) (chr CHR ''b'')
      else if n = 12 then write_stream (write_stream out bs) (chr CHR ''f'')
      else if n = 10 then write_stream (write_stream out bs) (chr CHR ''n'')
      else if n = 13 then write_stream (write_stream out bs) (chr CHR ''r'')
      else if n = 9 then write_stream (write_stream out bs) (chr CHR ''t'')
      else
        write_stream (write_stream (write_stream (write_stream (write_stream (write_stream
          out bs) (chr CHR ''u'')) (chr CHR ''0'')) (chr CHR ''0''))
          (hex_digit (drop_bit 4 n))) (hex_digit n))"

definition json_write_char :: "OutputStream \<Rightarrow> byte \<Rightarrow> OutputStream" where
  "json_write_char out ch =
     (if escaped ch then write_escape_seq out ch else write_stream out (uint ch))"

text \<open>The loops write a maximal run of plain characters as one block, then one escape sequence.
  The first one stops at a zero byte or at the end of the string.\<close>

lemma dropWhile_Cons_length: "dropWhile P xs = y # ys \<Longrightarrow> length ys < length xs"
  using length_dropWhile_le [of P xs] by simp

function json_write_string_loop :: "OutputStream \<Rightarrow> cstring \<Rightarrow> OutputStream" where
  "json_write_string_loop out str =
     (let run = takeWhile (\<lambda>c. \<not> escaped c) str;
          out = (if run \<noteq> [] then write_block_stream out run else out)
      in case dropWhile (\<lambda>c. \<not> escaped c) str of
           [] \<Rightarrow> out
         | c # str \<Rightarrow> if c = 0 then out else json_write_string_loop (write_escape_seq out c) str)"
  by pat_completeness auto
termination
  by (relation "measure (\<lambda>(out, str). length str)") (auto dest: dropWhile_Cons_length)

definition json_write_string :: "OutputStream \<Rightarrow> cstring option \<Rightarrow> OutputStream" where
  "json_write_string out str =
     (case str of
        None \<Rightarrow> write_string out (cstr ''null'')
      | Some str \<Rightarrow>
          write_stream (json_write_string_loop (write_stream out (chr CHR 0x22)) str) (chr CHR 0x22))"

function json_write_string_len_loop :: "OutputStream \<Rightarrow> byte list \<Rightarrow> OutputStream" where
  "json_write_string_len_loop out str =
     (let run = takeWhile (\<lambda>c. \<not> escaped c) str;
          out = (if run \<noteq> [] then write_block_stream out run else out)
      in case dropWhile (\<lambda>c. \<not> escaped c) str of
           [] \<Rightarrow> out
         | c # str \<Rightarrow> json_write_string_len_loop (write_escape_seq out c) str)"
  by pat_completeness auto
termination
  by (relation "measure (\<lambda>(out, str). length str)") (auto dest: dropWhile_Cons_length)

definition json_write_string_len :: "OutputStream \<Rightarrow> byte list option \<Rightarrow> OutputStream" where
  "json_write_string_len out str =
     (case str of
        None \<Rightarrow> write_string out (cstr ''null'')
      | Some str \<Rightarrow>
          write_stream (json_write_string_len_loop (write_stream out (chr CHR 0x22)) str)
            (chr CHR 0x22))"

declare json_write_string_loop.simps [simp del] json_write_string_len_loop.simps [simp del]

section \<open>Syntax checks\<close>

abbreviation (input) MARKER_EOA :: int where "MARKER_EOA \<equiv> 0"

text \<open>The conversion \<^verbatim>\<open>%3o\<close>: octal, at least three characters wide.\<close>

definition fmt_3o :: "int \<Rightarrow> string" where
  "fmt_3o n =
     (let d = (\<lambda>k. char_of (48 + k :: int));
          d2 = n div 64; d1 = n div 8 mod 8; d0 = n mod 8
      in if d2 > 0 then [d d2, d d1, d d0]
         else if d1 > 0 then [CHR '' '', d d1, d d0]
         else [CHR '' '', CHR '' '', d d0])"

definition char2str :: "int \<Rightarrow> string" where
  "char2str ch =
     (if ch = MARKER_EOS then ''<eos>''
      else if ch = MARKER_EOM then ''<eom>''
      else if ch = MARKER_EOA then ''<eoa>''
      else if ch \<ge> 32 \<and> ch < 127 then [CHR 0x27, char_of ch, CHR 0x27]
      else [CHR 0x27, CHR 0x5C] @ fmt_3o ch @ [CHR 0x27])"

definition check_char :: "int \<Rightarrow> int \<Rightarrow> unit outcome" where
  "check_char ch ex =
     (if ex = ch then Inr ()
      else str_exception ERR_JSON_SYNTAX
             (''Expected '' @ char2str ex @ '', got '' @ char2str ch))"

definition json_test_char :: "istream \<Rightarrow> int \<Rightarrow> istream outcome" where
  "json_test_char inp x =
     (let (ch, inp) = read_stream inp;
          (ch, inp) = (if x \<noteq> MARKER_EOM then ignore_whitespace ch inp else (ch, inp))
      in rbind (check_char ch x) (\<lambda>_. Inr inp))"

fun json_test_chars :: "istream \<Rightarrow> string \<Rightarrow> istream outcome" where
  "json_test_chars inp [] = Inr inp"
| "json_test_chars inp (c # cs) =
     rbind (json_test_char inp (chr c)) (\<lambda>inp. json_test_chars inp cs)"

definition json_peek :: "istream \<Rightarrow> int \<times> istream" where
  "json_peek inp = (let inp = read_whitespace inp in (peek_stream inp, inp))"

text \<open>The start of most readers: read a symbol and skip whitespace.\<close>

definition read_token :: "istream \<Rightarrow> int \<times> istream" where
  "read_token inp = (let (ch, inp) = read_stream inp in ignore_whitespace ch inp)"

section \<open>Readers of strings\<close>

definition read_hex_digit :: "istream \<Rightarrow> (int \<times> istream) outcome" where
  "read_hex_digit inp =
     (let (ch, inp) = read_stream inp in
      if ch \<ge> chr CHR ''0'' \<and> ch \<le> chr CHR ''9'' then Inr (ch - chr CHR ''0'', inp)
      else if ch \<ge> chr CHR ''A'' \<and> ch \<le> chr CHR ''F'' then Inr (ch - chr CHR ''A'' + 10, inp)
      else if ch \<ge> chr CHR ''a'' \<and> ch \<le> chr CHR ''f'' then Inr (ch - chr CHR ''a'' + 10, inp)
      else exception ERR_JSON_SYNTAX)"

definition read_hex_char :: "istream \<Rightarrow> (int \<times> istream) outcome" where
  "read_hex_char inp =
     rbind (read_hex_digit inp) (\<lambda>(d3, inp).
     rbind (read_hex_digit inp) (\<lambda>(d2, inp).
     rbind (read_hex_digit inp) (\<lambda>(d1, inp).
     rbind (read_hex_digit inp) (\<lambda>(d0, inp).
       Inr (push_bit 12 d3 OR push_bit 8 d2 OR push_bit 4 d1 OR d0, inp)))))"

text \<open>The UTF-8 sequence of the character that an escape sequence stands for.\<close>

definition utf8_of :: "int \<Rightarrow> byte list" where
  "utf8_of ch =
     (if ch < 0x80 then [byte_of ch]
      else if ch < 0x800 then [byte_of (drop_bit 6 ch OR 0xc0), byte_of ((ch AND 0x3f) OR 0x80)]
      else [byte_of (drop_bit 12 ch OR 0xe0), byte_of ((drop_bit 6 ch AND 0x3f) OR 0x80),
            byte_of ((ch AND 0x3f) OR 0x80)])"

definition read_esc_char :: "istream \<Rightarrow> (byte list \<times> istream) outcome" where
  "read_esc_char inp =
     (let (ch, inp) = read_stream inp in
      rbind
        (if ch = chr CHR 0x22 then Inr (ch, inp)
         else if ch = chr CHR 0x5C then Inr (ch, inp)
         else if ch = chr CHR ''/'' then Inr (ch, inp)
         else if ch = chr CHR ''b'' then Inr (8, inp)
         else if ch = chr CHR ''f'' then Inr (12, inp)
         else if ch = chr CHR ''n'' then Inr (10, inp)
         else if ch = chr CHR ''r'' then Inr (13, inp)
         else if ch = chr CHR ''t'' then Inr (9, inp)
         else if ch = chr CHR ''u'' then read_hex_char inp
         else exception ERR_JSON_SYNTAX)
        (\<lambda>(ch, inp). Inr (utf8_of ch, inp)))"

lemma read_hex_digit_length: "read_hex_digit inp = Inr (d, inp') \<Longrightarrow> length inp' \<le> length inp"
  by (cases inp) (auto simp: read_hex_digit_def split: if_splits)

lemma read_esc_char_length: "read_esc_char inp = Inr (u, inp') \<Longrightarrow> length inp' \<le> length inp"
proof -
  assume "read_esc_char inp = Inr (u, inp')"
  moreover have "length inp2 \<le> length inp1" if "read_hex_char inp1 = Inr (n, inp2)" for n inp1 inp2
    using that by (auto simp: read_hex_char_def outcome_simps dest!: read_hex_digit_length)
  ultimately show ?thesis
    by (cases inp) (fastforce simp: read_esc_char_def outcome_simps split: if_splits)+
qed

text \<open>The loop of \<^verbatim>\<open>json_read_string\<close>: \<open>str\<close> holds the characters stored so far,
  \<open>i\<close> counts all characters, also the ones that no longer fit.\<close>

definition str_add :: "nat \<Rightarrow> byte list \<times> nat \<Rightarrow> byte \<Rightarrow> byte list \<times> nat" where
  "str_add sz si b = (let (str, i) = si in (if i < sz - 1 then str @ [b] else str, i + 1))"

function json_read_string_loop ::
    "nat \<Rightarrow> istream \<Rightarrow> byte list \<times> nat \<Rightarrow> ((byte list \<times> nat) \<times> istream) outcome" where
  "json_read_string_loop sz inp si =
     (let (ch, inp1) = read_stream inp in
      if ch < 0 then exception ERR_JSON_SYNTAX
      else if ch = chr CHR 0x22 then Inr (si, inp1)
      else if ch = chr CHR 0x5C then
        rbind (read_esc_char inp1)
          (\<lambda>(u, inp2). json_read_string_loop sz inp2 (foldl (str_add sz) si u))
      else json_read_string_loop sz inp1 (str_add sz si (byte_of ch)))"
  by pat_completeness auto
termination
  by (relation "measure (\<lambda>(sz, inp, si). length inp)")
    (auto dest!: read_esc_char_length read_stream_decreases [OF sym] simp: less_le_trans)

definition json_read_string ::
    "istream \<Rightarrow> nat \<Rightarrow> (int \<times> byte list \<times> istream) outcome" where
  "json_read_string inp sz =
     (let (ch, inp) = read_token inp in
      if sz = 0 then Inl Undefined_Behaviour
      else if ch = chr CHR ''n'' then
        rbind (json_test_chars inp ''ull'') (\<lambda>inp. Inr (-1, [], inp))
      else if ch \<noteq> chr CHR 0x22 then exception ERR_PROTOCOL
      else
        rbind (json_read_string_loop sz inp ([], 0))
          (\<lambda>((str, i), inp). Inr (int i, str, inp)))"

text \<open>The loop of \<^verbatim>\<open>json_read_alloc_string\<close>, which adds to the growing buffer.\<close>

function read_string_chars :: "istream \<Rightarrow> byte list \<Rightarrow> (byte list \<times> istream) outcome" where
  "read_string_chars inp buf =
     (let (ch, inp1) = read_stream inp in
      if ch < 0 then exception ERR_JSON_SYNTAX
      else if ch = chr CHR 0x22 then Inr (buf, inp1)
      else if ch = chr CHR 0x5C then
        rbind (read_esc_char inp1) (\<lambda>(u, inp2). read_string_chars inp2 (buf @ u))
      else read_string_chars inp1 (buf @ [byte_of ch]))"
  by pat_completeness auto
termination
  by (relation "measure (\<lambda>(inp, buf). length inp)")
    (auto dest!: read_esc_char_length read_stream_decreases [OF sym] simp: less_le_trans)

declare json_read_string_loop.simps [simp del] read_string_chars.simps [simp del]

definition json_read_alloc_string :: "istream \<Rightarrow> (cstring option \<times> istream) outcome" where
  "json_read_alloc_string inp =
     (let (ch, inp) = read_token inp in
      if ch = chr CHR ''n'' then rbind (json_test_chars inp ''ull'') (\<lambda>inp. Inr (None, inp))
      else if ch \<noteq> chr CHR 0x22 then exception ERR_PROTOCOL
      else rbind (read_string_chars inp []) (\<lambda>(buf, inp). Inr (Some buf, inp)))"

section \<open>Readers of booleans and numbers\<close>

definition json_read_boolean :: "istream \<Rightarrow> (bool \<times> istream) outcome" where
  "json_read_boolean inp =
     (let (ch, inp) = read_token inp in
      if ch = chr CHR ''t'' then rbind (json_test_chars inp ''rue'') (\<lambda>inp. Inr (True, inp))
      else if ch = chr CHR ''f'' then rbind (json_test_chars inp ''alse'') (\<lambda>inp. Inr (False, inp))
      else exception ERR_JSON_SYNTAX)"

definition is_digit :: "int \<Rightarrow> bool" where
  "is_digit ch \<longleftrightarrow> \<not> (ch < chr CHR ''0'' \<or> ch > chr CHR ''9'')"

text \<open>The digit loops of the signed readers (overflow is undefined) and of the unsigned ones.\<close>

function read_digits_signed :: "int \<Rightarrow> istream \<Rightarrow> (int \<times> istream) outcome" where
  "read_digits_signed res inp =
     (let ch = peek_stream inp in
      if \<not> is_digit ch then Inr (res, inp)
      else
        let inp1 = snd (read_stream inp); res1 = res * 10 + (ch - chr CHR ''0'') in
        if res1 < 2 ^ 63 then read_digits_signed res1 inp1 else Inl Undefined_Behaviour)"
  by pat_completeness auto
termination
proof (relation "measure (\<lambda>(res, inp). length inp)", goal_cases)
  case (2 res inp)
  then show ?case by (cases inp) (auto simp: is_digit_def chr_def)
qed simp

function read_digits_unsigned :: "u64 \<Rightarrow> istream \<Rightarrow> u64 \<times> istream" where
  "read_digits_unsigned res inp =
     (let ch = peek_stream inp in
      if \<not> is_digit ch then (res, inp)
      else
        let inp1 = snd (read_stream inp) in
        read_digits_unsigned (res * 10 + word_of_int (ch - chr CHR ''0'')) inp1)"
  by pat_completeness auto
termination
proof (relation "measure (\<lambda>(res, inp). length inp)", goal_cases)
  case (2 res inp)
  then show ?case by (cases inp) (auto simp: is_digit_def chr_def)
qed simp

declare read_digits_signed.simps [simp del] read_digits_unsigned.simps [simp del]

text \<open>An optional minus sign and the first digit.\<close>

definition read_sign_digit :: "istream \<Rightarrow> (bool \<times> int \<times> istream) outcome" where
  "read_sign_digit inp =
     (let (ch, inp) = read_token inp;
          (neg, ch, inp) =
            (if ch = chr CHR ''-'' then (let (ch, inp) = read_stream inp in (True, ch, inp))
             else (False, ch, inp))
      in if \<not> is_digit ch then exception ERR_JSON_SYNTAX
         else Inr (neg, ch - chr CHR ''0'', inp))"

definition json_read_long :: "istream \<Rightarrow> (int \<times> istream) outcome" where
  "json_read_long inp =
     rbind (read_sign_digit inp) (\<lambda>(neg, d, inp).
     rbind (read_digits_signed d inp) (\<lambda>(res, inp).
       Inr (if neg then - res else res, inp)))"

definition json_read_ulong :: "istream \<Rightarrow> (u64 \<times> istream) outcome" where
  "json_read_ulong inp =
     rbind (read_sign_digit inp) (\<lambda>(neg, d, inp).
       let (res, inp) = read_digits_unsigned (word_of_int d) inp
       in Inr (if neg then NOT res + 1 else res, inp))"

definition json_read_int64 :: "istream \<Rightarrow> (int \<times> istream) outcome" where
  "json_read_int64 inp =
     rbind (read_sign_digit inp) (\<lambda>(neg, d, inp).
     rbind (read_digits_signed d inp) (\<lambda>(res, inp).
       Inr (if neg then - res else res, inp)))"

definition json_read_uint64 :: "istream \<Rightarrow> (u64 \<times> istream) outcome" where
  "json_read_uint64 inp =
     rbind (read_sign_digit inp) (\<lambda>(neg, d, inp).
       let (res, inp) = read_digits_unsigned (word_of_int d) inp
       in Inr (if neg then NOT res + 1 else res, inp))"

section \<open>Whitespace\<close>

declare chr_def [simp]

lemma ignore_whitespace_stop [simp]: "\<not> isspace ch \<Longrightarrow> ignore_whitespace ch inp = (ch, inp)"
  by (subst ignore_whitespace.simps) simp

lemma ignore_whitespace_skip:
  "isspace ch \<Longrightarrow> ignore_whitespace ch (c # inp) = ignore_whitespace c inp"
  by (subst ignore_whitespace.simps) (auto simp: isspace_def)

lemma read_whitespace_stop [simp]: "\<not> isspace (peek_stream inp) \<Longrightarrow> read_whitespace inp = inp"
  by (subst read_whitespace.simps) simp

lemma read_token_stop [simp]: "\<not> isspace c \<Longrightarrow> read_token (c # inp) = (c, inp)"
  by (simp add: read_token_def)

lemma read_whitespace_length: "length (read_whitespace inp) \<le> length inp"
proof (induction inp rule: read_whitespace.induct)
  case (1 inp)
  then show ?case
    by (subst read_whitespace.simps) (cases inp; auto)
qed

lemma read_whitespace_idem: "\<not> (peek_stream (read_whitespace inp) > 0 \<and> isspace (peek_stream (read_whitespace inp)))"
proof (induction inp rule: read_whitespace.induct)
  case (1 inp)
  then show ?case
    by (cases "peek_stream inp > 0 \<and> isspace (peek_stream inp)"; subst read_whitespace.simps;
        subst (2) read_whitespace.simps) auto
qed

lemma ignore_whitespace_length:
  "ignore_whitespace ch inp = (ch', inp') \<Longrightarrow> length inp' \<le> length inp"
proof (induction ch inp rule: ignore_whitespace.induct)
  case (1 ch inp)
  show ?case
  proof (cases "ch > 0 \<and> isspace ch")
    case True
    obtain c i where r: "read_stream inp = (c, i)" by fastforce
    with True "1.prems" have "ignore_whitespace c i = (ch', inp')"
      by (subst (asm) ignore_whitespace.simps) simp
    with "1.IH" True r have "length inp' \<le> length i" by auto
    with read_stream_length [OF r] show ?thesis by simp
  next
    case False
    with "1.prems" show ?thesis by (subst (asm) ignore_whitespace.simps) auto
  qed
qed

lemma read_token_length: "read_token inp = (ch, inp') \<Longrightarrow> length inp' \<le> length inp"
  by (cases inp) (auto simp: read_token_def dest: ignore_whitespace_length)

lemma json_test_char_hit [simp]:
  "\<not> isspace x \<Longrightarrow> json_test_char (x # inp) x = Inr inp"
  by (simp add: json_test_char_def check_char_def)

lemma json_test_char_length: "json_test_char inp x = Inr inp' \<Longrightarrow> length inp' \<le> length inp"
  by (cases inp)
    (auto simp: json_test_char_def outcome_simps split: prod.splits if_splits
       dest: ignore_whitespace_length)

section \<open>Numbers\<close>

text \<open>The decimal digits of a number, most significant first.\<close>

fun dec_digits :: "nat \<Rightarrow> nat list" where
  "dec_digits n = (if n \<ge> 10 then dec_digits (n div 10) @ [n mod 10] else [n])"

declare dec_digits.simps [simp del]

definition dec :: "nat \<Rightarrow> int list" where
  "dec n = map (\<lambda>d. int d + 48) (dec_digits n)"

definition undigits :: "nat \<Rightarrow> nat list \<Rightarrow> nat" where
  "undigits r ds = foldl (\<lambda>a d. a * 10 + d) r ds"

lemma undigits_simps [simp]:
  "undigits r [] = r"
  "undigits r (d # ds) = undigits (r * 10 + d) ds"
  "undigits r (ds @ es) = undigits (undigits r ds) es"
  by (simp_all add: undigits_def)

lemma undigits_dec_digits: "undigits 0 (dec_digits n) = n"
proof (induction n rule: dec_digits.induct)
  case (1 n)
  then show ?case by (subst dec_digits.simps) auto
qed

lemma dec_digits_less: "d \<in> set (dec_digits n) \<Longrightarrow> d < 10"
proof (induction n rule: dec_digits.induct)
  case (1 n)
  then show ?case by (subst (asm) (2) dec_digits.simps) (auto split: if_splits)
qed

lemma dec_digits_nonempty: "dec_digits n \<noteq> []"
  by (subst dec_digits.simps) simp

lemma undigits_ge: "r \<le> undigits r ds"
proof (induction ds arbitrary: r)
  case (Cons d ds)
  have "r \<le> r * 10 + d" by simp
  also have "\<dots> \<le> undigits (r * 10 + d) ds" by (rule Cons.IH)
  finally show ?case by simp
qed simp

lemma json_write_ulong_dec:
  "json_write_ulong out n = out\<lparr>written := written out @ dec (unat n)\<rparr>"
proof (induction out n rule: json_write_ulong.induct)
  case (1 out n)
  show ?case
  proof (cases "n \<ge> 10")
    case True
    then have "\<not> unat n < 10" by (simp add: word_le_nat_alt)
    moreover have "uint (n mod 10) = int (unat n mod 10)"
      by (simp add: uint_mod zmod_int)
    ultimately show ?thesis using "1"(1) True
      by (subst json_write_ulong.simps)
        (simp add: dec_def dec_digits.simps [of "unat n"] write_stream_def unat_div)
  next
    case False
    then have "unat n < 10" by (simp add: word_le_nat_alt)
    then show ?thesis using False
      by (subst json_write_ulong.simps)
        (simp add: dec_def dec_digits.simps [of "unat n"] write_stream_def)
  qed
qed

lemma json_write_uint64_eq: "json_write_uint64 out n = json_write_ulong out n"
proof (induction out n rule: json_write_uint64.induct)
  case (1 out n)
  then show ?case
    by (subst json_write_uint64.simps, subst json_write_ulong.simps) (simp add: Let_def)
qed

lemma is_digit_iff: "is_digit ch \<longleftrightarrow> 48 \<le> ch \<and> ch \<le> 57"
  by (auto simp: is_digit_def)

lemma read_digits_unsigned_map:
  assumes "\<not> is_digit (peek_stream rest)" "\<forall>d \<in> set ds. d < 10"
  shows "read_digits_unsigned (of_nat r) (map (\<lambda>d. int d + 48) ds @ rest) =
    (of_nat (undigits r ds), rest)"
  using assms(2)
proof (induction ds arbitrary: r)
  case Nil
  then show ?case using assms(1) by (subst read_digits_unsigned.simps) simp
next
  case (Cons d ds)
  have "of_nat r * 10 + word_of_int (int d + 48 - 48) = (of_nat (r * 10 + d) :: u64)"
    by simp
  with Cons.IH [of "r * 10 + d"] Cons.prems show ?case
    by (subst read_digits_unsigned.simps) (simp add: is_digit_iff Let_def)
qed

lemma read_digits_signed_map:
  assumes "\<not> is_digit (peek_stream rest)" "\<forall>d \<in> set ds. d < 10" "undigits r ds < 2 ^ 63"
  shows "read_digits_signed (int r) (map (\<lambda>d. int d + 48) ds @ rest) =
    Inr (int (undigits r ds), rest)"
  using assms(2,3)
proof (induction ds arbitrary: r)
  case Nil
  then show ?case using assms(1) by (subst read_digits_signed.simps) simp
next
  case (Cons d ds)
  have "r * 10 + d < 2 ^ 63"
    using Cons.prems(2) undigits_ge [of "r * 10 + d" ds] by simp
  then have "int (r * 10 + d) < int (2 ^ 63)" by (simp only: of_nat_less_iff)
  with Cons.IH [of "r * 10 + d"] Cons.prems show ?case
    by (subst read_digits_signed.simps) (simp add: is_digit_iff Let_def)
qed

lemma isspace_digit: "is_digit c \<Longrightarrow> \<not> isspace c"
  by (auto simp: is_digit_iff isspace_def)

lemma read_sign_digit_pos:
  "d < 10 \<Longrightarrow> read_sign_digit ((int d + 48) # inp) = Inr (False, int d, inp)"
  by (simp add: read_sign_digit_def isspace_digit is_digit_iff)

lemma read_sign_digit_neg:
  "d < 10 \<Longrightarrow> read_sign_digit (45 # (int d + 48) # inp) = Inr (True, int d, inp)"
  by (simp add: read_sign_digit_def isspace_def is_digit_iff)

lemma dec_Cons:
  obtains d ds where "dec n = (int d + 48) # map (\<lambda>d. int d + 48) ds" "d < 10"
    "\<forall>d \<in> set ds. d < 10" "undigits d ds = n"
proof -
  from dec_digits_nonempty obtain d ds where "dec_digits n = d # ds" by (cases "dec_digits n") auto
  with that [of d ds] dec_digits_less [of _ n] undigits_dec_digits [of n] show thesis
    by (simp add: dec_def)
qed

lemma json_read_ulong_dec:
  assumes "\<not> is_digit (peek_stream rest)"
  shows "json_read_ulong (dec n @ rest) = Inr (of_nat n, rest)"
    and "json_read_ulong (45 # dec n @ rest) = Inr (- of_nat n, rest)"
proof -
  obtain d ds where d: "dec n = (int d + 48) # map (\<lambda>d. int d + 48) ds" "d < 10"
    "\<forall>d \<in> set ds. d < 10" "undigits d ds = n" by (rule dec_Cons)
  note r = read_digits_unsigned_map [OF assms d(3), of d]
  show "json_read_ulong (dec n @ rest) = Inr (of_nat n, rest)"
    using r d by (simp add: json_read_ulong_def read_sign_digit_pos)
  show "json_read_ulong (45 # dec n @ rest) = Inr (- of_nat n, rest)"
    using r d by (simp add: json_read_ulong_def read_sign_digit_neg minus_eq_not_plus_1)
qed

lemma json_read_long_dec:
  assumes "\<not> is_digit (peek_stream rest)" "n < 2 ^ 63"
  shows "json_read_long (dec n @ rest) = Inr (int n, rest)"
    and "json_read_long (45 # dec n @ rest) = Inr (- int n, rest)"
proof -
  obtain d ds where d: "dec n = (int d + 48) # map (\<lambda>d. int d + 48) ds" "d < 10"
    "\<forall>d \<in> set ds. d < 10" "undigits d ds = n" by (rule dec_Cons)
  note r = read_digits_signed_map [OF assms(1) d(3), of d]
  show "json_read_long (dec n @ rest) = Inr (int n, rest)"
    using r d assms(2) by (simp add: json_read_long_def read_sign_digit_pos)
  show "json_read_long (45 # dec n @ rest) = Inr (- int n, rest)"
    using r d assms(2) by (simp add: json_read_long_def read_sign_digit_neg)
qed

lemma json_read_uint64_eq: "json_read_uint64 = json_read_ulong"
  by (simp add: fun_eq_iff json_read_uint64_def json_read_ulong_def)

lemma json_read_int64_eq: "json_read_int64 = json_read_long"
  by (simp add: fun_eq_iff json_read_int64_def json_read_long_def)

lemma sint_u64_bounds: "sint (n :: u64) < 2 ^ 63" "- (2 ^ 63) \<le> sint (n :: u64)"
  using sint_range_size [of n] by (auto simp: word_size)

lemma uint_u64_sint: "uint (n :: u64) = sint n mod 2 ^ 64"
  by (simp add: uint_sint take_bit_eq_mod)

lemma unat_uminus_neg: "sint n < 0 \<Longrightarrow> unat (- n) = nat (- sint (n :: u64))"
proof -
  assume neg: "sint n < 0"
  have "uint (- n) = (- uint n) mod 2 ^ 64" by (simp add: uint_word_ariths)
  also have "\<dots> = (- sint n) mod 2 ^ 64" by (simp only: uint_u64_sint mod_minus_eq)
  also have "\<dots> = - sint n"
    using neg sint_u64_bounds [of n] by (intro mod_pos_pos_trivial) auto
  finally show ?thesis by (simp add: unat_eq_nat_uint)
qed

lemma unat_sint_nonneg: "\<not> sint n < 0 \<Longrightarrow> unat n = nat (sint (n :: u64))"
  using sint_u64_bounds [of n] by (simp add: unat_eq_nat_uint uint_u64_sint)

lemma json_write_long_dec:
  "json_write_long out n = out\<lparr>written := written out @
     (if sint n < 0 then 45 # dec (nat (- sint n)) else dec (nat (sint n)))\<rparr>"
  by (simp add: json_write_long_def json_write_ulong_dec write_stream_def
        minus_eq_not_plus_1 [symmetric] unat_uminus_neg unat_sint_nonneg)

lemma json_write_int64_eq: "json_write_int64 = json_write_long"
  by (simp add: fun_eq_iff json_write_int64_def json_write_long_def json_write_uint64_eq)

section \<open>Strings\<close>

definition esc_seq :: "byte \<Rightarrow> int list" where
  "esc_seq ch = written (write_escape_seq \<lparr>supports_zero_copy = False, written = []\<rparr> ch)"

definition str_syms :: "byte list \<Rightarrow> int list" where
  "str_syms str = concat (map (\<lambda>c. if escaped c then esc_seq c else [uint c]) str)"

lemma write_escape_seq_eq:
  "write_escape_seq out ch = out\<lparr>written := written out @ esc_seq ch\<rparr>"
  by (simp add: write_escape_seq_def esc_seq_def write_stream_def Let_def)

lemma str_syms_simps [simp]:
  "str_syms [] = []"
  "str_syms (c # cs) = (if escaped c then esc_seq c else [uint c]) @ str_syms cs"
  "str_syms (cs @ ds) = str_syms cs @ str_syms ds"
  by (simp_all add: str_syms_def)

lemma str_syms_plain: "\<forall>c \<in> set run. \<not> escaped c \<Longrightarrow> str_syms run = syms run"
  by (induction run) auto

lemma run_written:
  "(if run \<noteq> [] then write_block_stream out run else out) = out\<lparr>written := written out @ syms run\<rparr>"
  by (simp add: write_block_stream_def)

lemma json_write_string_len_loop_eq:
  "json_write_string_len_loop out str = out\<lparr>written := written out @ str_syms str\<rparr>"
proof (induction out str rule: json_write_string_len_loop.induct)
  case (1 out str)
  let ?P = "\<lambda>c. \<not> escaped c"
  have split: "str_syms str = syms (takeWhile ?P str) @ str_syms (dropWhile ?P str)"
    by (metis takeWhile_dropWhile_id str_syms_simps(3) str_syms_plain set_takeWhileD)
  show ?case
  proof (cases "dropWhile ?P str")
    case Nil
    then show ?thesis
      by (subst json_write_string_len_loop.simps)
        (simp add: run_written split Let_def del: if_split dropWhile_eq_Nil_conv)
  next
    case (Cons c cs)
    then have "escaped c" using hd_dropWhile [of ?P str] by simp
    with "1.IH" [OF refl refl Cons] Cons split show ?thesis
      by (subst json_write_string_len_loop.simps)
        (simp add: run_written write_escape_seq_eq Let_def del: if_split)
  qed
qed

lemma json_write_string_loop_eq:
  "0 \<notin> set str \<Longrightarrow> json_write_string_loop out str = json_write_string_len_loop out str"
proof (induction out str rule: json_write_string_loop.induct)
  case (1 out str)
  show ?case
  proof (cases "dropWhile (\<lambda>c. \<not> escaped c) str")
    case Nil
    then show ?thesis
      by (subst json_write_string_loop.simps, subst json_write_string_len_loop.simps)
        (simp add: Let_def del: dropWhile_eq_Nil_conv)
  next
    case (Cons c cs)
    then have "set (c # cs) \<subseteq> set str" by (metis set_dropWhileD subsetI)
    with "1.prems" have "c \<noteq> 0" "0 \<notin> set cs" by auto
    with "1.IH" [OF refl refl Cons] show ?thesis
      by (subst json_write_string_loop.simps, subst json_write_string_len_loop.simps)
        (simp add: Cons Let_def)
  qed
qed

lemma json_write_string_syms:
  "0 \<notin> set str \<Longrightarrow> json_write_string out (Some str) =
     out\<lparr>written := written out @ 34 # str_syms str @ [34]\<rparr>"
  by (simp add: json_write_string_def json_write_string_loop_eq json_write_string_len_loop_eq
        write_stream_def)

lemma json_write_string_len_syms:
  "json_write_string_len out (Some str) = out\<lparr>written := written out @ 34 # str_syms str @ [34]\<rparr>"
  by (simp add: json_write_string_len_def json_write_string_len_loop_eq write_stream_def)

text \<open>The reader undoes one character, escaped or not; this is checked for each of the 256 bytes.\<close>

definition read_back_ok :: "int \<Rightarrow> bool" where
  "read_back_ok n =
     (let b = byte_of n in
      if escaped b then
        (case esc_seq b of
           c # cs \<Rightarrow> c = 92 \<and>
             (case cs of
                [d] \<Rightarrow> (d, n) \<in> {(34, 34), (92, 92), (98, 8), (102, 12), (110, 10), (114, 13), (116, 9)}
              | [d, h3, h2, h1, h0] \<Rightarrow> d = 117 \<and> h3 = 48 \<and> h2 = 48 \<and>
                  read_hex_digit [h1] = Inr (n div 16, []) \<and> read_hex_digit [h0] = Inr (n mod 16, []) \<and>
                  n < 128
              | _ \<Rightarrow> False)
         | [] \<Rightarrow> False)
      else n \<noteq> 34 \<and> n \<noteq> 92)"

lemma read_back_all: "list_all read_back_ok (map int [0..<256])"
  by code_simp

lemma read_back: "read_back_ok (uint (b :: byte))"
  by (rule all_bytesI [OF read_back_all]) simp

lemma read_hex_digit_append:
  "read_hex_digit [h] = Inr (d, []) \<Longrightarrow> read_hex_digit (h # inp) = Inr (d, inp)"
  by (auto simp: read_hex_digit_def split: if_splits)

lemma read_hex_char_two:
  assumes "read_hex_digit [h1] = Inr (n div 16, [])" "read_hex_digit [h0] = Inr (n mod 16, [])"
    and "0 \<le> n"
  shows "read_hex_char (48 # 48 # h1 # h0 # inp) = Inr (n, inp)"
proof -
  have z: "read_hex_digit (48 # i) = Inr (0, i)" for i by (simp add: read_hex_digit_def)
  have "push_bit 4 (n div 16) OR n mod 16 = n"
    by (subst or_eq_add_int [of 4]) (auto simp: push_bit_eq_mult)
  then show ?thesis
    by (simp add: read_hex_char_def z read_hex_digit_append [OF assms(1)]
          read_hex_digit_append [OF assms(2)])
qed

lemma read_esc_char_back:
  assumes "escaped b"
  obtains cs where "esc_seq b = 92 # cs" "\<And>inp. read_esc_char (cs @ inp) = Inr ([b], inp)"
proof -
  let ?n = "uint b"
  have ok: "read_back_ok ?n" by (rule read_back)
  obtain cs where e: "esc_seq b = 92 # cs"
    using ok assms by (auto simp: read_back_ok_def Let_def split: list.splits)
  show thesis
  proof (rule that [OF e])
    fix inp
    show "read_esc_char (cs @ inp) = Inr ([b], inp)"
    proof (cases "length cs = 1")
      case True
      then obtain d where d: "cs = [d]" by (auto simp: length_Suc_conv)
      with ok assms e have
        "(d, ?n) \<in> {(34, 34), (92, 92), (98, 8), (102, 12), (110, 10), (114, 13), (116, 9)}"
        by (simp add: read_back_ok_def Let_def)
      then show ?thesis
        by (auto simp: d read_esc_char_def utf8_of_def word_uint_eq_iff)
    next
      case False
      with ok assms e obtain h1 h0 where cs: "cs = [117, 48, 48, h1, h0]" and n: "?n < 128"
        and h: "read_hex_digit [h1] = Inr (?n div 16, [])" "read_hex_digit [h0] = Inr (?n mod 16, [])"
        by (auto simp: read_back_ok_def Let_def split: list.splits)
      from read_hex_char_two [OF h] n show ?thesis
        by (simp add: cs read_esc_char_def utf8_of_def)
    qed
  qed
qed

lemma read_string_chars_step:
  "read_string_chars ((if escaped c then esc_seq c else [uint c]) @ inp) buf =
     read_string_chars inp (buf @ [c])"
proof (cases "escaped c")
  case True
  from read_esc_char_back [OF True] obtain cs where cs: "esc_seq c = 92 # cs"
    "\<And>inp. read_esc_char (cs @ inp) = Inr ([c], inp)" by blast
  with True show ?thesis by (subst read_string_chars.simps) simp
next
  case False
  with read_back [of c] have "uint c \<noteq> 34" "uint c \<noteq> 92" by (auto simp: read_back_ok_def Let_def)
  moreover have "\<not> uint c < 0" by simp
  ultimately show ?thesis using False by (subst read_string_chars.simps) simp
qed

lemma read_string_chars_str_syms:
  "read_string_chars (str_syms str @ 34 # rest) buf = Inr (buf @ str, rest)"
proof (induction str arbitrary: buf)
  case Nil
  then show ?case by (subst read_string_chars.simps) simp
next
  case (Cons c str)
  then show ?case using read_string_chars_step [of c "str_syms str @ 34 # rest" buf] by simp
qed

lemma json_read_alloc_string_str_syms:
  "json_read_alloc_string (34 # str_syms str @ 34 # rest) = Inr (Some str, rest)"
  by (simp add: json_read_alloc_string_def isspace_def read_string_chars_str_syms)

text \<open>The bounded reader stores a prefix of what the unbounded reader returns.\<close>

lemma foldl_str_add:
  "foldl (str_add sz) (take (sz - 1) acc, length acc) u =
     (take (sz - 1) (acc @ u), length (acc @ u))"
proof (induction u arbitrary: acc)
  case Nil
  then show ?case by simp
next
  case (Cons b u)
  have "str_add sz (take (sz - 1) acc, length acc) b =
      (take (sz - 1) (acc @ [b]), length (acc @ [b]))"
    by (simp add: str_add_def)
  with Cons [of "acc @ [b]"] show ?case by simp
qed

lemma json_read_string_loop_eq:
  "json_read_string_loop sz inp (take (sz - 1) acc, length acc) =
     rbind (read_string_chars inp acc)
       (\<lambda>(s, inp'). Inr ((take (sz - 1) s, length s), inp'))"
proof (induction inp acc rule: read_string_chars.induct)
  case (1 inp buf)
  obtain ch inp1 where r: "read_stream inp = (ch, inp1)" by fastforce
  have step: "str_add sz (take (sz - 1) buf, length buf) b =
      (take (sz - 1) (buf @ [b]), length (buf @ [b]))" for b
    by (simp add: str_add_def)
  have esc: "json_read_string_loop sz inp2 (foldl (str_add sz) (take (sz - 1) buf, length buf) u) =
      rbind (read_string_chars inp2 (buf @ u)) (\<lambda>(s, inp'). Inr ((take (sz - 1) s, length s), inp'))"
    if "\<not> ch < 0" "ch \<noteq> 34" "ch = 92" "read_esc_char inp1 = Inr (u, inp2)" for u inp2
    unfolding foldl_str_add using "1.IH"(1) [OF r [symmetric] refl] that by simp
  have plain: "json_read_string_loop sz inp1 (str_add sz (take (sz - 1) buf, length buf) (byte_of ch)) =
      rbind (read_string_chars inp1 (buf @ [byte_of ch]))
        (\<lambda>(s, inp'). Inr ((take (sz - 1) s, length s), inp'))"
    if "\<not> ch < 0" "ch \<noteq> 34" "ch \<noteq> 92"
    unfolding step using "1.IH"(2) [OF r [symmetric] refl] that by simp
  show ?case
  proof (cases "read_esc_char inp1")
    case (Inl e)
    then show ?thesis using plain
      by (subst json_read_string_loop.simps, subst read_string_chars.simps) (simp add: r)
  next
    case (Inr p)
    obtain u inp2 where "p = (u, inp2)" by fastforce
    with Inr esc plain show ?thesis
      by (subst json_read_string_loop.simps, subst read_string_chars.simps) (simp add: r)
  qed
qed

lemma json_read_string_eq:
  "0 < sz \<Longrightarrow> json_read_string inp sz =
     rbind (json_read_alloc_string inp)
       (\<lambda>(str, inp'). Inr (case str of None \<Rightarrow> (-1, [], inp')
                          | Some s \<Rightarrow> (int (length s), take (sz - 1) s, inp')))"
  using json_read_string_loop_eq [of sz _ "[]"]
  by (auto simp: json_read_string_def json_read_alloc_string_def Let_def rbind_assoc split_def
        split: prod.splits)

definition plain_sym :: "int \<Rightarrow> bool" where
  "plain_sym c \<longleftrightarrow> 32 \<le> c \<and> c < 256 \<and> c \<noteq> 127"

lemma str_sym_plain_all:
  "list_all (\<lambda>n. list_all plain_sym (if escaped (byte_of n) then esc_seq (byte_of n) else [n]))
     (map int [0..<256])"
  by code_simp

lemma str_syms_plain_sym: "c \<in> set (str_syms str) \<Longrightarrow> plain_sym c"
proof (induction str)
  case (Cons b str)
  have "list_all plain_sym (if escaped b then esc_seq b else [uint b])"
    using all_bytesI [OF str_sym_plain_all is_byte_uint, of b] by (simp split: if_splits)
  with Cons show ?case by (auto simp: list_all_iff)
qed simp

section \<open>Properties\<close>

text \<open>Round trip of unsigned numbers: every 64-bit value is written in decimal and, followed
  by anything that does not start with a digit, is read back as the same value; what follows is
  not consumed.\<close>

theorem json_uint64_roundtrip:
  assumes "\<not> is_digit (peek_stream rest)"
  shows "\<exists>txt. written (json_write_uint64 out n) = written out @ txt \<and>
     json_read_uint64 (txt @ rest) = Inr (n, rest)"
  using json_read_ulong_dec(1) [OF assms, of "unat n"]
  by (simp add: json_write_uint64_eq json_read_uint64_eq json_write_ulong_dec)

theorem json_uint64_roundtrip_witness:
  "\<exists>txt. written (json_write_uint64 \<lparr>supports_zero_copy = False, written = []\<rparr> 18446744073709551615)
     = [] @ txt \<and> json_read_uint64 (txt @ [44]) = Inr (18446744073709551615, [44])"
  using json_uint64_roundtrip [of "[44]" "\<lparr>supports_zero_copy = False, written = []\<rparr>" 18446744073709551615]
  by (simp add: is_digit_iff)

text \<open>C26: Round trip of signed numbers: every 64-bit value but the smallest one is read back as it
  was written.\<close>

theorem json_int64_roundtrip:
  assumes "\<not> is_digit (peek_stream rest)" "- (2 ^ 63) < sint n"
  shows "\<exists>txt. written (json_write_int64 out n) = written out @ txt \<and>
     json_read_int64 (txt @ rest) = Inr (sint n, rest)"
proof (cases "sint n < 0")
  case True
  then have "nat (- sint n) < 2 ^ 63" using assms(2) by (simp add: nat_less_iff)
  from json_read_long_dec(2) [OF assms(1) this] True show ?thesis
    by (simp add: json_write_int64_eq json_read_int64_eq json_write_long_dec)
next
  case False
  then have "nat (sint n) < 2 ^ 63" using sint_u64_bounds(1) [of n] by (simp add: nat_less_iff)
  from json_read_long_dec(1) [OF assms(1) this] False show ?thesis
    by (simp add: json_write_int64_eq json_read_int64_eq json_write_long_dec)
qed

theorem json_int64_roundtrip_witness:
  "\<exists>txt. written (json_write_int64 \<lparr>supports_zero_copy = False, written = []\<rparr> (- 15)) = [] @ txt \<and>
     json_read_int64 (txt @ [0]) = Inr (sint (- 15 :: u64), [0])"
  using json_int64_roundtrip [of "[0]" "- 15" "\<lparr>supports_zero_copy = False, written = []\<rparr>"]
  by (simp add: is_digit_iff)

text \<open>The smallest 64-bit value is the exception: its decimal text overflows the signed
  accumulator of the reader before the sign is applied.\<close>

theorem json_int64_min_overflows:
  "json_read_int64 (written (json_write_int64 \<lparr>supports_zero_copy = z, written = []\<rparr>
     0x8000000000000000) @ [0]) = Inl Undefined_Behaviour"
  by (simp add: json_write_int64_eq json_read_int64_eq json_write_long_dec dec_def dec_digits.simps
        json_read_long_def read_sign_digit_def isspace_def is_digit_iff read_digits_signed.simps Let_def)

text \<open>C8: Round trip of strings: any bytes at all, control characters, quotes and bytes from 128
  included, that \<open>json_write_string_len\<close> writes are read back unchanged by
  \<open>json_read_alloc_string\<close>, which stops right behind the closing quote.\<close>

theorem json_string_roundtrip:
  "\<exists>txt. written (json_write_string_len out (Some str)) = written out @ txt \<and>
     json_read_alloc_string (txt @ rest) = Inr (Some str, rest)"
  using json_read_alloc_string_str_syms [of str rest]
  by (simp add: json_write_string_len_syms)

text \<open>\<open>json_write_string\<close> agrees with \<open>json_write_string_len\<close> on strings without a
  zero byte, and both write printable ASCII and bytes from 128 only: no control character, no
  delete character and no marker ever reaches the stream from inside of a string.\<close>

theorem json_write_string_symbols:
  assumes "0 \<notin> set str"
  shows "json_write_string out (Some str) = json_write_string_len out (Some str) \<and>
     (\<exists>txt. written (json_write_string out (Some str)) = written out @ txt \<and>
       list_all (\<lambda>c. 32 \<le> c \<and> c < 256 \<and> c \<noteq> 127) txt)"
  using assms str_syms_plain_sym
  by (auto simp: json_write_string_syms json_write_string_len_syms list_all_iff plain_sym_def)

theorem json_write_string_symbols_witness:
  "json_write_string \<lparr>supports_zero_copy = False, written = []\<rparr> (Some [34, 10, 200]) =
     json_write_string_len \<lparr>supports_zero_copy = False, written = []\<rparr> (Some [34, 10, 200]) \<and>
   (\<exists>txt. written (json_write_string \<lparr>supports_zero_copy = False, written = []\<rparr>
       (Some [34, 10, 200])) = [] @ txt \<and>
     list_all (\<lambda>c. 32 \<le> c \<and> c < 256 \<and> c \<noteq> 127) txt)"
  using json_write_string_symbols [of "[34, 10, 200]" "\<lparr>supports_zero_copy = False, written = []\<rparr>"]
  by fastforce

text \<open>The bounded reader never stores more than fits: with a buffer of any positive size,
  \<open>json_read_string\<close> consumes the same input and fails in the same way as the unbounded
  reader, stores the longest prefix of the string that leaves room for the terminating zero, and
  returns the full length.\<close>

theorem json_read_string_truncates:
  assumes "0 < sz"
  shows "json_read_string inp sz =
     (case json_read_alloc_string inp of
        Inl e \<Rightarrow> Inl e
      | Inr (None, inp') \<Rightarrow> Inr (-1, [], inp')
      | Inr (Some str, inp') \<Rightarrow> Inr (int (length str), take (sz - 1) str, inp'))"
  using json_read_string_eq [OF assms, of inp]
  by (auto simp: rbind_def split: sum.splits option.splits)

theorem json_read_string_truncates_witness:
  "json_read_string [34, 97, 98, 99, 34, 0] 3 =
     (case json_read_alloc_string [34, 97, 98, 99, 34, 0] of
        Inl e \<Rightarrow> Inl e
      | Inr (None, inp') \<Rightarrow> Inr (-1, [], inp')
      | Inr (Some str, inp') \<Rightarrow> Inr (int (length str), take (3 - 1) str, inp'))"
  by (rule json_read_string_truncates) simp

end
