(* ===== verification/JsonData.thy ===== *)
theory JsonData
  imports Json
begin

text \<open>
  \<^verbatim>\<open>framework/json.c\<close>, second part: structures, arrays, string arrays, binary data, and
  the reader that copies or skips any JSON value.

  The callbacks of \<^verbatim>\<open>json_read_struct\<close> and \<^verbatim>\<open>json_read_array\<close> are arguments that
  take and return the stream and the value that they build up. A loop over the input that calls
  them is given one unit of fuel per input symbol and one more: every round consumes a symbol, so
  that this is enough for callbacks that do not put symbols back. The static buffer of the file
  is the list of the bytes added to it. \<^verbatim>\<open>json_splice_binary\<close>, which copies a file to the
  stream, is not modelled.
\<close>

section \<open>Structures and arrays\<close>

type_synonym 'a struct_callback = "istream \<Rightarrow> cstring \<Rightarrow> 'a \<Rightarrow> ('a \<times> istream) outcome"
type_synonym 'a array_callback = "istream \<Rightarrow> 'a \<Rightarrow> ('a \<times> istream) outcome"

text \<open>The result is \<open>None\<close> where the C functions return 0 for \<^verbatim>\<open>null\<close>.\<close>

fun struct_loop :: "nat \<Rightarrow> 'a struct_callback \<Rightarrow> istream \<Rightarrow> 'a \<Rightarrow> ('a \<times> istream) outcome" where
  "struct_loop 0 cb inp arg = Inl Out_Of_Fuel"
| "struct_loop (Suc fuel) cb inp arg =
     rbind (json_read_string inp 256) (\<lambda>(_, nm, inp).
     rbind (json_test_char (read_whitespace inp) (chr CHR '':'')) (\<lambda>inp.
     rbind (cb inp nm arg) (\<lambda>(arg, inp).
       let (ch, inp) = read_token inp in
       if ch = chr CHR '','' then struct_loop fuel cb inp arg
       else rbind (check_char ch (chr CHR ''}'')) (\<lambda>_. Inr (arg, inp)))))"

definition json_read_struct ::
    "'a struct_callback \<Rightarrow> istream \<Rightarrow> 'a \<Rightarrow> ('a option \<times> istream) outcome" where
  "json_read_struct cb inp arg =
     (let (ch, inp) = read_token inp in
      if ch = chr CHR ''n'' then rbind (json_test_chars inp ''ull'') (\<lambda>inp. Inr (None, inp))
      else if ch \<noteq> chr CHR ''{'' then exception ERR_PROTOCOL
      else
        let (pk, inp) = json_peek inp in
        if pk = chr CHR ''}'' then Inr (Some arg, snd (read_stream inp))
        else rbind (struct_loop (length inp + 1) cb inp arg) (\<lambda>(arg, inp). Inr (Some arg, inp)))"

fun array_loop :: "nat \<Rightarrow> 'a array_callback \<Rightarrow> istream \<Rightarrow> 'a \<Rightarrow> ('a \<times> istream) outcome" where
  "array_loop 0 cb inp arg = Inl Out_Of_Fuel"
| "array_loop (Suc fuel) cb inp arg =
     rbind (cb inp arg) (\<lambda>(arg, inp).
       let (ch, inp) = read_token inp in
       if ch = chr CHR '','' then array_loop fuel cb inp arg
       else rbind (check_char ch (chr CHR '']'')) (\<lambda>_. Inr (arg, inp)))"

definition json_read_array ::
    "'a array_callback \<Rightarrow> istream \<Rightarrow> 'a \<Rightarrow> ('a option \<times> istream) outcome" where
  "json_read_array cb inp arg =
     (let (ch, inp) = read_token inp in
      if ch = chr CHR ''n'' then rbind (json_test_chars inp ''ull'') (\<lambda>inp. Inr (None, inp))
      else if ch \<noteq> chr CHR ''['' then exception ERR_PROTOCOL
      else
        let (pk, inp) = json_peek inp in
        if pk = chr CHR '']'' then Inr (Some arg, snd (read_stream inp))
        else rbind (array_loop (length inp + 1) cb inp arg) (\<lambda>(arg, inp). Inr (Some arg, inp)))"

section \<open>Arrays of strings\<close>

text \<open>One element: its bytes are added to the buffer, then a zero byte; its length is recorded.
  A \<^verbatim>\<open>null\<close> element has no bytes.\<close>

definition string_elem :: "istream \<Rightarrow> (byte list \<times> istream) outcome" where
  "string_elem inp =
     (let (ch, inp) = read_token inp in
      if ch = chr CHR ''n'' then rbind (json_test_chars inp ''ull'') (\<lambda>inp. Inr ([], inp))
      else if ch \<noteq> chr CHR 0x22 then exception ERR_PROTOCOL
      else read_string_chars inp [])"

fun string_array_loop ::
    "nat \<Rightarrow> istream \<Rightarrow> byte list \<Rightarrow> nat list \<Rightarrow> (byte list \<times> nat list \<times> istream) outcome" where
  "string_array_loop 0 inp buf lens = Inl Out_Of_Fuel"
| "string_array_loop (Suc fuel) inp buf lens =
     rbind (string_elem inp) (\<lambda>(s, inp).
       let buf = buf @ s @ [0]; lens = lens @ [length s]; (ch, inp) = read_token inp in
       if ch = chr CHR '','' then string_array_loop fuel inp buf lens
       else rbind (check_char ch (chr CHR '']'')) (\<lambda>_. Inr (buf, lens, inp)))"

text \<open>The offsets of the strings in the one block that holds all of them.\<close>

fun string_offsets :: "nat \<Rightarrow> nat list \<Rightarrow> nat list" where
  "string_offsets j [] = []"
| "string_offsets j (n # ns) = j # string_offsets (j + n + 1) ns"

text \<open>The result for an array: the block and the pointers into it.\<close>

definition json_read_alloc_string_array ::
    "istream \<Rightarrow> ((byte list \<times> nat list) option \<times> istream) outcome" where
  "json_read_alloc_string_array inp =
     (let (ch, inp) = read_token inp in
      if ch = chr CHR ''n'' then rbind (json_test_chars inp ''ull'') (\<lambda>inp. Inr (None, inp))
      else if ch \<noteq> chr CHR ''['' then exception ERR_PROTOCOL
      else
        let (pk, inp) = json_peek inp in
        rbind (if pk = chr CHR '']'' then Inr ([], [], snd (read_stream inp))
               else string_array_loop (length inp + 1) inp [] []) (\<lambda>(buf, lens, inp).
        Inr (Some (buf @ [0], string_offsets 0 lens), inp)))"

text \<open>The C string at an offset of a block.\<close>

definition cstring_at :: "byte list \<Rightarrow> nat \<Rightarrow> cstring" where
  "cstring_at buf j = takeWhile (\<lambda>b. b \<noteq> 0) (drop j buf)"

section \<open>Binary data\<close>

datatype encoding = ENCODING_BINARY | ENCODING_BASE64

record JsonReadBinaryState =
  rd_encoding :: encoding
  rd_size_start :: u64
  rd_size_done :: u64
  rd_buf :: "byte list"

text \<open>\<open>rd_buf\<close> holds the \<^verbatim>\<open>rem\<close> bytes in use of the field \<^verbatim>\<open>buf\<close>.\<close>

definition json_read_binary_start :: "istream \<Rightarrow> (JsonReadBinaryState \<times> istream) outcome" where
  "json_read_binary_start inp =
     (let (ch, inp) = read_token inp;
          st = (\<lambda>enc n. \<lparr>rd_encoding = enc, rd_size_start = n, rd_size_done = 0, rd_buf = []\<rparr>) in
      if ch = chr CHR ''('' then
        rbind (json_read_ulong inp) (\<lambda>(n, inp).
        rbind (json_test_char inp (chr CHR '')'')) (\<lambda>inp. Inr (st ENCODING_BINARY n, inp)))
      else if ch = chr CHR 0x22 then Inr (st ENCODING_BASE64 0, inp)
      else if ch = chr CHR ''n'' then
        rbind (json_test_chars inp ''ull'') (\<lambda>inp. Inr (st ENCODING_BINARY 0, inp))
      else exception ERR_JSON_SYNTAX)"

text \<open>
  The loop for BASE64 data: \<open>rem\<close> are the bytes decoded ahead, \<open>len\<close> is the room left in
  the caller's buffer, \<open>acc\<close> what has been stored there. The last component tells whether the
  loop was left by the early \<^verbatim>\<open>return\<close>.
\<close>

definition next_base64 :: "istream \<Rightarrow> nat \<Rightarrow> (byte list \<times> istream) outcome" where
  "next_base64 inp len = (if len \<ge> 3 then read_base64 inp len else read_base64 inp 3)"

function read_base64_data :: "byte list \<Rightarrow> nat \<Rightarrow> byte list \<Rightarrow> istream \<Rightarrow>
    (byte list \<times> byte list \<times> istream \<times> bool) outcome" where
  "read_base64_data rem len acc inp =
     (if len = 0 then Inr (acc, rem, inp, False)
      else assert_that (length rem \<le> 3) (
        if rem \<noteq> [] \<and> len < length rem
        then Inr (acc @ take len rem, drop len rem, inp, True)
        else
          let acc1 = acc @ rem; len1 = len - length rem in
          rbind (next_base64 inp len1) (\<lambda>(bs, inp1).
            if bs = [] then Inr (acc1, [], inp1, False)
            else if len1 \<ge> 3 then read_base64_data [] (len1 - length bs) (acc1 @ bs) inp1
            else read_base64_data bs len1 acc1 inp1)))"
  by pat_completeness auto
termination
proof (relation "measure (\<lambda>(rem, len, acc, inp). 2 * len + (if rem = [] then 1 else 0))", goal_cases)
  case (2 rem len acc inp acc1 len1 p bs inp1)
  then have "length bs > 0" "len1 \<le> len" "len > 0" by auto
  then have "2 * (len1 - length bs) + 1 < 2 * len" by arith
  then show ?case by simp
next
  case (3 rem len acc inp acc1 len1 p bs inp1)
  then have "len > 0" "len1 = len - length rem" "bs \<noteq> []" by auto
  then show ?case by (cases rem) auto
qed simp

declare read_base64_data.simps [simp del]

definition json_read_binary_data :: "JsonReadBinaryState \<Rightarrow> nat \<Rightarrow> istream \<Rightarrow>
    (byte list \<times> JsonReadBinaryState \<times> istream) outcome" where
  "json_read_binary_data st len inp =
     (case rd_encoding st of
        ENCODING_BINARY \<Rightarrow>
          let len1 = min len (unat (rd_size_start st - rd_size_done st));
              (cs, inp1) = read_many read_stream len1 inp
          in Inr (map byte_of cs,
                  st\<lparr>rd_size_done := rd_size_done st + word_of_nat len1\<rparr>, inp1)
      | ENCODING_BASE64 \<Rightarrow>
          rbind (read_base64_data (rd_buf st) len [] inp) (\<lambda>(bs, rem, inp1, early).
            Inr (bs,
                 st\<lparr>rd_buf := rem,
                    rd_size_done := (if early then rd_size_done st
                                     else rd_size_done st + word_of_nat (length bs))\<rparr>, inp1)))"

definition json_read_binary_end :: "JsonReadBinaryState \<Rightarrow> istream \<Rightarrow> istream outcome" where
  "json_read_binary_end st inp =
     (if rd_buf st \<noteq> [] then exception ERR_JSON_SYNTAX
      else case rd_encoding st of
        ENCODING_BINARY \<Rightarrow> assert_that (rd_size_start st = rd_size_done st) (Inr inp)
      | ENCODING_BASE64 \<Rightarrow> json_test_char inp (chr CHR 0x22))"

text \<open>The size of the static buffer after \<^verbatim>\<open>realloc_buf\<close>.\<close>

definition realloc_buf :: "nat \<Rightarrow> nat" where
  "realloc_buf n = (if n = 0 then 0x1000 else n * 2)"

fun read_binary_loop :: "nat \<Rightarrow> JsonReadBinaryState \<Rightarrow> nat \<Rightarrow> byte list \<Rightarrow> istream \<Rightarrow>
    (byte list \<times> JsonReadBinaryState \<times> istream) outcome" where
  "read_binary_loop 0 st buf_size buf inp = Inl Out_Of_Fuel"
| "read_binary_loop (Suc fuel) st buf_size buf inp =
     (let sz = (if length buf \<ge> buf_size then realloc_buf buf_size else buf_size) in
      rbind (json_read_binary_data st (sz - length buf) inp) (\<lambda>(bs, st1, inp1).
        if bs = [] then Inr (buf, st1, inp1)
        else read_binary_loop fuel st1 sz (buf @ bs) inp1))"

text \<open>\<open>buf_size\<close> is the size that the static buffer has from earlier calls. Every round of the
  loop gets a byte, and there are no more bytes than the announced size, or than input symbols
  and the three bytes that are decoded ahead.\<close>

definition json_read_alloc_binary ::
    "nat \<Rightarrow> istream \<Rightarrow> (byte list option \<times> istream) outcome" where
  "json_read_alloc_binary buf_size inp =
     (let (pk, inp) = json_peek inp in
      if pk = chr CHR ''n'' then
        rbind (json_test_chars (snd (read_stream inp)) ''ull'') (\<lambda>inp. Inr (None, inp))
      else
        rbind (json_read_binary_start inp) (\<lambda>(st, inp1).
        rbind (read_binary_loop (unat (rd_size_start st) + length inp1 + 4) st buf_size [] inp1)
          (\<lambda>(buf, st2, inp2).
        assert_that (rd_size_start st2 = 0 \<or> length buf = unat (rd_size_start st2)) (
        rbind (json_read_binary_end st2 inp2) (\<lambda>inp3. Inr (Some buf, inp3))))))"

subsection \<open>Writing\<close>

record JsonWriteBinaryState =
  wr_out :: OutputStream
  wr_encoding :: encoding
  wr_size_start :: nat
  wr_size_done :: nat
  wr_buf :: "byte list"

definition json_write_binary_start :: "OutputStream \<Rightarrow> nat \<Rightarrow> JsonWriteBinaryState" where
  "json_write_binary_start out sz =
     (let enc = (if supports_zero_copy out \<and> sz > 0 then ENCODING_BINARY else ENCODING_BASE64);
          out1 = (case enc of
                    ENCODING_BINARY \<Rightarrow>
                      write_stream (json_write_ulong (write_stream out (chr CHR ''(''))
                        (word_of_nat sz)) (chr CHR '')'')
                  | ENCODING_BASE64 \<Rightarrow> write_stream out (chr CHR 0x22))
      in \<lparr>wr_out = out1, wr_encoding = enc, wr_size_start = sz, wr_size_done = 0, wr_buf = []\<rparr>)"

text \<open>The BASE64 part of \<^verbatim>\<open>json_write_binary_data\<close>: complete a pending group, then write
  the whole groups of the rest and keep what is left. The result has the new \<^verbatim>\<open>rem\<close> bytes and
  the value of \<^verbatim>\<open>len\<close> that is added to \<^verbatim>\<open>size_done\<close>.\<close>

definition write_base64_data :: "OutputStream \<Rightarrow> byte list \<Rightarrow> byte list \<Rightarrow>
    (OutputStream \<times> byte list \<times> nat) outcome" where
  "write_base64_data out rem data =
     rbind (if rem \<noteq> [] then
              let rem1 = rem @ take (3 - length rem) data; data1 = drop (3 - length rem) data in
              assert_that (length rem1 \<le> 3) (
              if length rem1 \<ge> 3 then rbind (write_base64 out rem1) (\<lambda>(out1, _). Inr (out1, [], data1))
              else Inr (out, rem1, data1))
            else Inr (out, rem, data)) (\<lambda>(out1, rem1, data1).
     if data1 \<noteq> [] then
       assert_that (rem1 = []) (
       let k = length data1 mod 3; n = length data1 - k in
       rbind (write_base64 out1 (take n data1)) (\<lambda>(out2, _). Inr (out2, drop n data1, n)))
     else Inr (out1, rem1, 0))"

definition json_write_binary_data ::
    "JsonWriteBinaryState \<Rightarrow> byte list \<Rightarrow> JsonWriteBinaryState outcome" where
  "json_write_binary_data st data =
     (if data = [] then Inr st
      else case wr_encoding st of
        ENCODING_BINARY \<Rightarrow>
          Inr (st\<lparr>wr_out := write_block_stream (wr_out st) data,
                  wr_size_done := wr_size_done st + length data\<rparr>)
      | ENCODING_BASE64 \<Rightarrow>
          rbind (write_base64_data (wr_out st) (wr_buf st) data) (\<lambda>(out, rem, n).
          Inr (st\<lparr>wr_out := out, wr_buf := rem, wr_size_done := wr_size_done st + n\<rparr>)))"

definition json_write_binary_end :: "JsonWriteBinaryState \<Rightarrow> OutputStream outcome" where
  "json_write_binary_end st =
     (case wr_encoding st of
        ENCODING_BINARY \<Rightarrow> assert_that (wr_size_start st = wr_size_done st) (Inr (wr_out st))
      | ENCODING_BASE64 \<Rightarrow>
          rbind (if wr_buf st \<noteq> [] then write_base64 (wr_out st) (wr_buf st) else Inr (wr_out st, 0))
            (\<lambda>(out, _). Inr (write_stream out (chr CHR 0x22))))"

definition json_write_binary :: "OutputStream \<Rightarrow> byte list option \<Rightarrow> OutputStream outcome" where
  "json_write_binary out data =
     (case data of
        None \<Rightarrow> Inr (write_string out (cstr ''null''))
      | Some bs \<Rightarrow>
          rbind (json_write_binary_data (json_write_binary_start out (length bs)) bs)
            json_write_binary_end)"

section \<open>Copying and skipping values\<close>

definition skip_char :: "istream \<Rightarrow> byte list \<Rightarrow> (int \<times> byte list \<times> istream) outcome" where
  "skip_char inp buf =
     (let (ch, inp) = read_stream inp in
      if ch < 0 then exception ERR_JSON_SYNTAX else Inr (ch, buf @ [byte_of ch], inp))"

fun skip_chars :: "string \<Rightarrow> istream \<Rightarrow> byte list \<Rightarrow> (byte list \<times> istream) outcome" where
  "skip_chars [] inp buf = Inr (buf, inp)"
| "skip_chars (c # cs) inp buf =
     rbind (skip_char inp buf) (\<lambda>(ch, buf, inp).
     rbind (check_char ch (chr c)) (\<lambda>_. skip_chars cs inp buf))"

function skip_string :: "istream \<Rightarrow> byte list \<Rightarrow> (byte list \<times> istream) outcome" where
  "skip_string inp buf =
     (let (ch, inp1) = read_stream inp in
      if ch < 0 then exception ERR_JSON_SYNTAX
      else
        let buf1 = buf @ [byte_of ch] in
        if ch = chr CHR 0x22 then Inr (buf1, inp1)
        else if ch = chr CHR 0x5C then
          rbind (skip_char inp1 buf1) (\<lambda>(_, buf2, inp2). skip_string inp2 buf2)
        else skip_string inp1 buf1)"
  by pat_completeness auto
termination
proof (relation "measure (\<lambda>(inp, buf). length inp)", goal_cases)
  case (2 inp buf p ch inp1 buf1 q c r buf2 inp2)
  then show ?case by (cases inp; cases inp1) (auto simp: skip_char_def split: if_splits)
next
  case (3 inp buf p ch inp1 buf1)
  then show ?case by (cases inp) auto
qed simp

definition number_char :: "int \<Rightarrow> bool" where
  "number_char ch \<longleftrightarrow> \<not> ((ch < chr CHR ''0'' \<or> ch > chr CHR ''9'') \<and> ch \<noteq> chr CHR ''.'' \<and>
     ch \<noteq> chr CHR ''e'' \<and> ch \<noteq> chr CHR ''E'' \<and> ch \<noteq> chr CHR ''-'' \<and> ch \<noteq> chr CHR ''+'')"

function skip_number :: "istream \<Rightarrow> byte list \<Rightarrow> (byte list \<times> istream) outcome" where
  "skip_number inp buf =
     (if \<not> number_char (peek_stream inp) then Inr (buf, inp)
      else rbind (skip_char inp buf) (\<lambda>(_, buf1, inp1). skip_number inp1 buf1))"
  by pat_completeness auto
termination
proof (relation "measure (\<lambda>(inp, buf). length inp)", goal_cases)
  case (2 inp buf p c r buf1 inp1)
  then show ?case by (cases inp) (auto simp: skip_char_def number_char_def split: if_splits)
qed simp

declare skip_string.simps [simp del] skip_number.simps [simp del]

text \<open>The loop over the bytes of a binary value counts down from the size.\<close>

function skip_bytes :: "u64 \<Rightarrow> istream \<Rightarrow> byte list \<Rightarrow> (byte list \<times> istream) outcome" where
  "skip_bytes sz inp buf =
     (if sz = 0 then Inr (buf, inp)
      else
        let (ch, inp1) = read_stream inp in
        if ch < 0 then exception ERR_JSON_SYNTAX
        else skip_bytes (sz - 1) inp1 (buf @ [byte_of ch]))"
  by pat_completeness auto
termination
proof (relation "measure (\<lambda>(sz, inp, buf). length inp)", goal_cases)
  case (2 sz inp buf p ch inp1)
  then show ?case by (cases inp) auto
qed simp

declare skip_bytes.simps [simp del]

fun skip_object :: "nat \<Rightarrow> istream \<Rightarrow> byte list \<Rightarrow> (byte list \<times> istream) outcome"
  and skip_array :: "nat \<Rightarrow> istream \<Rightarrow> byte list \<Rightarrow> (byte list \<times> istream) outcome"
  and skip_struct :: "nat \<Rightarrow> istream \<Rightarrow> byte list \<Rightarrow> (byte list \<times> istream) outcome" where
  "skip_object 0 inp buf = Inl Out_Of_Fuel"
| "skip_object (Suc fuel) inp buf =
     rbind (skip_char (read_whitespace inp) buf) (\<lambda>(ch, buf, inp).
       if ch = chr CHR ''n'' then skip_chars ''ull'' inp buf
       else if ch = chr CHR ''f'' then skip_chars ''alse'' inp buf
       else if ch = chr CHR ''t'' then skip_chars ''rue'' inp buf
       else if ch = chr CHR 0x22 then skip_string inp buf
       else if ch = chr CHR ''-'' \<or> is_digit ch then skip_number inp buf
       else if ch = chr CHR ''['' then
         let (pk, inp) = json_peek inp in
         if pk = chr CHR '']'' then rbind (skip_char inp buf) (\<lambda>(_, buf, inp). Inr (buf, inp))
         else skip_array fuel inp buf
       else if ch = chr CHR ''{'' then
         let (pk, inp) = json_peek inp in
         if pk = chr CHR ''}'' then rbind (skip_char inp buf) (\<lambda>(_, buf, inp). Inr (buf, inp))
         else skip_struct fuel inp buf
       else if ch = chr CHR ''('' then
         rbind (json_read_ulong inp) (\<lambda>(sz, inp).
         rbind (skip_char inp buf) (\<lambda>(ch, buf, inp).
         rbind (check_char ch (chr CHR '')'')) (\<lambda>_. skip_bytes sz inp buf)))
       else exception ERR_JSON_SYNTAX)"
| "skip_array 0 inp buf = Inl Out_Of_Fuel"
| "skip_array (Suc fuel) inp buf =
     rbind (skip_object fuel inp buf) (\<lambda>(buf, inp).
     rbind (skip_char (read_whitespace inp) buf) (\<lambda>(ch, buf, inp).
       if ch = chr CHR '','' then skip_array fuel inp buf
       else rbind (check_char ch (chr CHR '']'')) (\<lambda>_. Inr (buf, inp))))"
| "skip_struct 0 inp buf = Inl Out_Of_Fuel"
| "skip_struct (Suc fuel) inp buf =
     rbind (skip_object fuel inp buf) (\<lambda>(buf, inp).
     rbind (skip_char (read_whitespace inp) buf) (\<lambda>(ch, buf, inp).
     rbind (check_char ch (chr CHR '':'')) (\<lambda>_.
     rbind (skip_object fuel inp buf) (\<lambda>(buf, inp).
     rbind (skip_char (read_whitespace inp) buf) (\<lambda>(ch, buf, inp).
       if ch = chr CHR '','' then skip_struct fuel inp buf
       else rbind (check_char ch (chr CHR ''}'')) (\<lambda>_. Inr (buf, inp)))))))"

definition skip_fuel :: "istream \<Rightarrow> nat" where
  "skip_fuel inp = 2 * length inp + 2"

text \<open>The string that is returned ends before the terminating zero byte.\<close>

definition json_read_object :: "istream \<Rightarrow> (byte list \<times> istream) outcome" where
  "json_read_object inp = skip_object (skip_fuel inp) inp []"

definition json_skip_object :: "istream \<Rightarrow> istream outcome" where
  "json_skip_object inp = rbind (skip_object (skip_fuel inp) inp []) (\<lambda>(_, inp). Inr inp)"


section \<open>Termination of the skipping reader\<close>

text \<open>\<open>shrinks n m\<close>: if \<open>m\<close> returns, then with at most \<open>n\<close> symbols left; if it does
  not return, it has raised an exception (so it has not run out of fuel).\<close>

definition shrinks :: "nat \<Rightarrow> (byte list \<times> istream) outcome \<Rightarrow> bool" where
  "shrinks n m \<longleftrightarrow> (\<forall>e. m = Inl e \<longrightarrow> is_exception e) \<and>
     (\<forall>buf inp. m = Inr (buf, inp) \<longrightarrow> length inp \<le> n)"

lemma shrinks_mono: "shrinks n m \<Longrightarrow> n \<le> k \<Longrightarrow> shrinks k m"
  unfolding shrinks_def by (metis le_trans)

lemma shrinks_simps [simp]:
  "shrinks n (Inr (buf, inp)) \<longleftrightarrow> length inp \<le> n"
  "shrinks n (exception e)" "shrinks n (str_exception e msg)"
  by (auto simp: shrinks_def exception_def str_exception_def is_exception_def)

lemma shrinks_check_char [simp]:
  "shrinks n (rbind (check_char ch ex) (\<lambda>_. m)) \<longleftrightarrow> ch \<noteq> ex \<or> shrinks n m"
  by (auto simp: check_char_def)

lemma shrinks_skip_char:
  assumes "\<And>ch b inp'. 0 \<le> ch \<Longrightarrow> length inp = Suc (length inp') \<Longrightarrow> shrinks n (f (ch, b, inp'))"
  shows "shrinks n (rbind (skip_char inp buf) f)"
  using assms by (cases inp) (auto simp: skip_char_def)

lemma shrinks_rbind:
  assumes "shrinks k m" "\<And>b inp. length inp \<le> k \<Longrightarrow> shrinks n (f (b, inp))"
  shows "shrinks n (rbind m f)"
proof (cases m)
  case (Inl e)
  with assms(1) show ?thesis by (simp add: shrinks_def)
next
  case (Inr p)
  then obtain b inp where "m = Inr (b, inp)" by (cases p) auto
  with assms show ?thesis by (simp add: shrinks_def)
qed

lemma shrinks_skip_chars: "shrinks (length inp) (skip_chars cs inp buf)"
proof (induction cs arbitrary: inp buf)
  case (Cons c cs)
  show ?case
    unfolding skip_chars.simps
    by (rule shrinks_skip_char) (auto intro!: shrinks_mono [OF Cons])
qed simp

lemma shrinks_skip_string: "shrinks (length inp) (skip_string inp buf)"
proof (induction "length inp" arbitrary: inp buf rule: less_induct)
  case less
  have IH: "length inp' < length inp \<Longrightarrow> shrinks (length inp) (skip_string inp' b)" for inp' b
    using less shrinks_mono by (metis less_imp_le)
  show ?case
  proof (cases inp)
    case Nil
    then show ?thesis by (subst skip_string.simps) simp
  next
    case (Cons c cs)
    have "shrinks (length inp) (rbind (skip_char cs b) (\<lambda>(_, buf2, inp2). skip_string inp2 buf2))" for b
      using Cons IH by (intro shrinks_skip_char) auto
    with IH show ?thesis
      by (subst skip_string.simps) (simp add: Cons Let_def)
  qed
qed

lemma shrinks_skip_number: "shrinks (length inp) (skip_number inp buf)"
proof (induction "length inp" arbitrary: inp buf rule: less_induct)
  case less
  have "length inp' < length inp \<Longrightarrow> shrinks (length inp) (skip_number inp' b)" for inp' b
    using less shrinks_mono by (metis less_imp_le)
  then have "shrinks (length inp) (rbind (skip_char inp buf) (\<lambda>(_, buf1, inp1). skip_number inp1 buf1))"
    by (intro shrinks_skip_char) auto
  then show ?case
    by (subst skip_number.simps) simp
qed

lemma shrinks_skip_bytes: "shrinks (length inp) (skip_bytes sz inp buf)"
proof (induction inp arbitrary: sz buf)
  case Nil
  then show ?case by (subst skip_bytes.simps) simp
next
  case (Cons c cs)
  then have "shrinks (length (c # cs)) (skip_bytes (sz - 1) cs b)" for b
    using shrinks_mono by (metis length_Cons lessI less_imp_le)
  then show ?case by (subst skip_bytes.simps) (simp add: Let_def)
qed

lemma read_digits_unsigned_length:
  "read_digits_unsigned r inp = (n, inp') \<Longrightarrow> length inp' \<le> length inp"
proof (induction inp arbitrary: r)
  case Nil
  then show ?case
    by (subst (asm) read_digits_unsigned.simps) (auto simp: Let_def is_digit_def split: if_splits)
next
  case (Cons c cs)
  then show ?case
    by (subst (asm) (2) read_digits_unsigned.simps) (fastforce simp: Let_def split: if_splits)
qed

lemma read_sign_digit_length: "read_sign_digit inp = Inr (neg, d, inp') \<Longrightarrow> length inp' \<le> length inp"
proof -
  assume a: "read_sign_digit inp = Inr (neg, d, inp')"
  obtain ch inp1 where t: "read_token inp = (ch, inp1)" by fastforce
  obtain c2 inp2 where r: "read_stream inp1 = (c2, inp2)" by fastforce
  from a t r have "inp' = inp1 \<or> inp' = inp2"
    by (auto simp: read_sign_digit_def split: if_splits)
  with read_token_length [OF t] read_stream_length [OF r] show ?thesis by auto
qed

lemma shrinks_json_read_ulong:
  assumes "\<And>sz inp'. length inp' \<le> length inp \<Longrightarrow> shrinks n (f (sz, inp'))"
  shows "shrinks n (rbind (json_read_ulong inp) f)"
proof (cases "read_sign_digit inp")
  case (Inl e)
  then have "rbind (json_read_ulong inp) f = exception ERR_JSON_SYNTAX"
    by (auto simp: json_read_ulong_def read_sign_digit_def Let_def exception_def
        split: prod.splits if_splits)
  then show ?thesis by simp
next
  case (Inr p)
  then obtain neg d inp1 where p: "read_sign_digit inp = Inr (neg, d, inp1)" by (cases p) auto
  obtain v inp2 where v: "read_digits_unsigned (word_of_int d) inp1 = (v, inp2)" by fastforce
  have "length inp2 \<le> length inp"
    using read_sign_digit_length [OF p] read_digits_unsigned_length [OF v] by simp
  with assms show ?thesis by (simp add: json_read_ulong_def p v)
qed

lemma json_peek_length: "json_peek inp = (pk, inp') \<Longrightarrow> length inp' \<le> length inp"
  using read_whitespace_length by (auto simp: json_peek_def Let_def)

lemma shrinks_skip:
  "fuel > 2 * length inp \<Longrightarrow> shrinks (length inp - 1) (skip_object fuel inp buf)"
  "fuel > 2 * length inp + 1 \<Longrightarrow> shrinks (length inp - 1) (skip_array fuel inp buf)"
  "fuel > 2 * length inp + 1 \<Longrightarrow> shrinks (length inp - 1) (skip_struct fuel inp buf)"
proof (induction fuel arbitrary: inp buf)
  case (Suc fuel)
  have obj: "shrinks n (skip_object fuel i b)" if "length i \<le> Suc n" "fuel > 2 * length i" for i b n
    using that(1) by (intro shrinks_mono [OF Suc.IH(1) [OF that(2)]]) simp
  have arr: "shrinks n (skip_array fuel i b)" if "length i \<le> Suc n" "fuel > 2 * length i + 1" for i b n
    using that(1) by (intro shrinks_mono [OF Suc.IH(2) [OF that(2)]]) simp
  have str: "shrinks n (skip_struct fuel i b)" if "length i \<le> Suc n" "fuel > 2 * length i + 1" for i b n
    using that(1) by (intro shrinks_mono [OF Suc.IH(3) [OF that(2)]]) simp
  note leaf = shrinks_mono [OF shrinks_skip_chars] shrinks_mono [OF shrinks_skip_string]
    shrinks_mono [OF shrinks_skip_number] shrinks_mono [OF shrinks_skip_bytes]
  {
    case 1
    note ws = read_whitespace_length [of inp]
    show ?case
      unfolding skip_object.simps
    proof (rule shrinks_skip_char, goal_cases)
      case (1 ch b i)
      obtain pk j where j: "json_peek i = (pk, j)" by fastforce
      have len: "length i \<le> length inp - 1" "length j \<le> length inp - 1"
        using 1 ws json_peek_length [OF j] by auto
      have c1: "shrinks (length inp - 1) (rbind (skip_char j b) (\<lambda>(_, buf, inp). Inr (buf, inp)))"
        using len by (intro shrinks_skip_char) auto
      have c2: "shrinks (length inp - 1) (rbind (json_read_ulong i) (\<lambda>(sz, inp).
         rbind (skip_char inp b) (\<lambda>(ch, buf, inp).
         rbind (check_char ch (chr CHR '')'')) (\<lambda>_. skip_bytes sz inp buf))))"
        unfolding split_conv using len
        by (intro shrinks_json_read_ulong, unfold split_conv)
          (auto intro!: shrinks_skip_char leaf)
      have c3: "shrinks (length inp - 1) (skip_array fuel j b)" "shrinks (length inp - 1) (skip_struct fuel j b)"
        using \<open>Suc fuel > 2 * length inp\<close> len 1 ws by (auto intro!: arr str)
      show ?case
        using len c1 c2 c3 by (simp add: j leaf del: skip_chars.simps)
    qed
  next
    case 2
    show ?case
      unfolding skip_array.simps
    proof (rule shrinks_rbind [of "length inp - 1"], goal_cases)
      case 1
      then show ?case using 2 by (intro obj) simp_all
    next
      case (2 b i)
      with \<open>Suc fuel > 2 * length inp + 1\<close> read_whitespace_length [of i] show ?case
        unfolding split_conv by (intro shrinks_skip_char) (auto intro!: arr)
    qed
  next
    case 3
    show ?case
      unfolding skip_struct.simps
    proof (rule shrinks_rbind [of "length inp - 1"], goal_cases)
      case 1
      then show ?case using 3 by (intro obj) simp_all
    next
      case (2 b i)
      note ws = read_whitespace_length [of i]
      show ?case
        unfolding split_conv
      proof (rule shrinks_skip_char, unfold split_conv shrinks_check_char, rule disjI2,
          rule shrinks_rbind [of "length i - 2"], goal_cases)
        case (1 ch b i')
        then show ?case using 2 ws \<open>Suc fuel > 2 * length inp + 1\<close> by (intro obj) auto
      next
        case (2 ch b i' b2 i2)
        with \<open>length i \<le> length inp - 1\<close> \<open>Suc fuel > 2 * length inp + 1\<close>
          read_whitespace_length [of i2] ws show ?case
          unfolding split_conv by (intro shrinks_skip_char) (auto intro!: str)
      qed
    qed
  }
qed simp_all

section \<open>Values and their text\<close>

text \<open>The values that the services marshal, with the text that the writers of \<^verbatim>\<open>json.c\<close>
  and the punctuation of the services produce for them.\<close>

datatype jval =
    JNull
  | JBool bool
  | JInt u64
  | JStr "byte list"
  | JArr "jval list"
  | JObj "(byte list \<times> jval) list"

fun commas :: "int list list \<Rightarrow> int list" where
  "commas [] = []"
| "commas [t] = t"
| "commas (t # u # ts) = t @ 44 # commas (u # ts)"

definition text_of :: "(OutputStream \<Rightarrow> OutputStream) \<Rightarrow> int list" where
  "text_of w = written (w \<lparr>supports_zero_copy = False, written = []\<rparr>)"

fun jtext :: "jval \<Rightarrow> int list" where
  "jtext JNull = text_of (\<lambda>out. json_write_string out None)"
| "jtext (JBool b) = text_of (\<lambda>out. json_write_boolean out b)"
| "jtext (JInt n) = text_of (\<lambda>out. json_write_int64 out n)"
| "jtext (JStr s) = text_of (\<lambda>out. json_write_string_len out (Some s))"
| "jtext (JArr vs) = 91 # commas (map jtext vs) @ [93]"
| "jtext (JObj ms) = 123 # commas (map (\<lambda>(k, v). jtext (JStr k) @ 58 # jtext v) ms) @ [125]"

lemma number_char_iff:
  "number_char c \<longleftrightarrow> is_digit c \<or> c \<in> {46, 101, 69, 45, 43}"
  by (auto simp: number_char_def is_digit_iff)

lemma skip_char_Cons [simp]: "0 \<le> c \<Longrightarrow> skip_char (c # inp) buf = Inr (c, buf @ [byte_of c], inp)"
  by (simp add: skip_char_def)

lemma check_char_same [simp]: "check_char c c = Inr ()"
  by (simp add: check_char_def)

lemma skip_number_run:
  "list_all number_char cs \<Longrightarrow> \<not> number_char (peek_stream rest) \<Longrightarrow>
   skip_number (cs @ rest) buf = Inr (buf @ map byte_of cs, rest)"
proof (induction cs arbitrary: buf)
  case Nil
  then show ?case by (subst skip_number.simps) simp
next
  case (Cons c cs)
  then have "0 \<le> c" by (auto simp: number_char_iff is_digit_iff)
  with Cons show ?case by (subst skip_number.simps) simp
qed

text \<open>The shape of an escape sequence, checked for all bytes.\<close>

definition skip_ok :: "int \<Rightarrow> bool" where
  "skip_ok n =
     (let b = byte_of n in
      if escaped b then
        (case esc_seq b of
           c # d # cs \<Rightarrow> c = 92 \<and> 0 \<le> d \<and> list_all (\<lambda>c. 0 \<le> c \<and> c \<noteq> 34 \<and> c \<noteq> 92) cs
         | _ \<Rightarrow> False)
      else n \<noteq> 34 \<and> n \<noteq> 92)"

lemma skip_ok_all: "list_all skip_ok (map int [0..<256])"
  by code_simp

lemma skip_string_plain:
  "list_all (\<lambda>c. 0 \<le> c \<and> c \<noteq> 34 \<and> c \<noteq> 92) cs \<Longrightarrow>
   skip_string (cs @ inp) buf = skip_string inp (buf @ map byte_of cs)"
proof (induction cs arbitrary: buf)
  case (Cons c cs)
  then show ?case by (subst skip_string.simps) simp
qed simp

lemma skip_string_step:
  "skip_string ((if escaped c then esc_seq c else [uint c]) @ inp) buf =
     skip_string inp (buf @ map byte_of (if escaped c then esc_seq c else [uint c]))"
proof (cases "escaped c")
  case True
  with all_bytesI [OF skip_ok_all is_byte_uint, of c] obtain d cs
    where e: "esc_seq c = 92 # d # cs" "0 \<le> d" "list_all (\<lambda>c. 0 \<le> c \<and> c \<noteq> 34 \<and> c \<noteq> 92) cs"
    by (auto simp: skip_ok_def Let_def split: list.splits)
  have "skip_string (esc_seq c @ inp) buf = skip_string (cs @ inp) (buf @ [92] @ [byte_of d])"
    using e by (subst skip_string.simps) simp
  with True e show ?thesis by (simp add: skip_string_plain)
next
  case False
  with all_bytesI [OF skip_ok_all is_byte_uint, of c] have "uint c \<noteq> 34" "uint c \<noteq> 92"
    by (auto simp: skip_ok_def Let_def)
  with False skip_string_plain [of "[uint c]" inp buf] show ?thesis by simp
qed

lemma skip_string_str_syms:
  "skip_string (str_syms str @ 34 # rest) buf = Inr (buf @ map byte_of (str_syms str @ [34]), rest)"
proof (induction str arbitrary: buf)
  case Nil
  then show ?case by (subst skip_string.simps) simp
next
  case (Cons c str)
  then show ?case using skip_string_step [of c "str_syms str @ 34 # rest" buf] by simp
qed

lemma list_all_dec: "list_all is_digit (dec n)"
  using dec_digits_less [of _ n] by (fastforce simp: dec_def list_all_iff is_digit_iff)

lemma jtext_JInt: "jtext (JInt n) =
    (if sint n < 0 then 45 # dec (nat (- sint n)) else dec (nat (sint n)))"
  by (simp add: text_of_def json_write_int64_eq json_write_long_dec)

lemma jtext_const [simp]:
  "jtext JNull = [110, 117, 108, 108]"
  "jtext (JBool b) = (if b then [116, 114, 117, 101] else [102, 97, 108, 115, 101])"
  by (simp_all add: text_of_def json_write_string_def json_write_boolean_def write_string_def
        write_block_stream_def cstr_def)

lemma jtext_JStr [simp]: "jtext (JStr s) = 34 # str_syms s @ [34]"
  by (simp add: text_of_def json_write_string_len_syms)

declare jtext.simps(1-4) [simp del]

lemma dec_head: "\<exists>c cs. dec n = c # cs \<and> is_digit c \<and> list_all number_char cs"
proof -
  obtain c cs where "dec n = c # cs" by (metis dec_Cons)
  with list_all_dec [of n] show ?thesis by (auto simp: number_char_iff list_all_iff)
qed

lemma jtext_JInt_shape:
  obtains c cs where "jtext (JInt n) = c # cs" "c = 45 \<or> is_digit c" "list_all number_char cs"
proof (cases "sint n < 0")
  case True
  with that [of 45 "dec (nat (- sint n))"] list_all_dec [of "nat (- sint n)"] show thesis
    by (simp add: jtext_JInt list_all_iff number_char_iff)
next
  case False
  with that dec_head [of "nat (sint n)"] show thesis by (auto simp: jtext_JInt)
qed

lemma jtext_head:
  obtains c cs where "jtext v = c # cs" "0 \<le> c" "\<not> isspace c" "c \<noteq> 93" "c \<noteq> 125"
proof (cases v)
  case (JInt n)
  obtain c cs where c: "jtext (JInt n) = c # cs" "c = 45 \<or> is_digit c" by (rule jtext_JInt_shape)
  from c(2) have "0 \<le> c" "\<not> isspace c" "c \<noteq> 93" "c \<noteq> 125" by (auto simp: is_digit_iff isspace_def)
  with that [of c cs] c(1) JInt show thesis by simp
next
  case (JBool b)
  with that show thesis by (cases b) (auto simp: isspace_def)
qed (use that in \<open>auto simp: isspace_def\<close>)

definition skips :: "jval \<Rightarrow> bool" where
  "skips v \<longleftrightarrow> (\<forall>fuel rest buf. 2 * length (jtext v @ rest) < fuel \<longrightarrow> \<not> number_char (peek_stream rest) \<longrightarrow>
     skip_object fuel (jtext v @ rest) buf = Inr (buf @ map byte_of (jtext v), rest))"

lemma skipsD:
  "skips v \<Longrightarrow> 2 * length (jtext v @ rest) < fuel \<Longrightarrow> \<not> number_char (peek_stream rest) \<Longrightarrow>
     skip_object fuel (jtext v @ rest) buf = Inr (buf @ map byte_of (jtext v), rest)"
  by (simp add: skips_def)

lemma skip_array_commas:
  "list_all skips vs \<Longrightarrow> vs \<noteq> [] \<Longrightarrow> 2 * length (commas (map jtext vs) @ 93 # rest) + 1 < fuel \<Longrightarrow>
   skip_array fuel (commas (map jtext vs) @ 93 # rest) buf =
     Inr (buf @ map byte_of (commas (map jtext vs) @ [93]), rest)"
proof (induction vs arbitrary: fuel buf rule: induct_list012)
  case (2 v)
  then obtain f where f: "fuel = Suc f" by (cases fuel) auto
  with 2 skipsD [of v "93 # rest" f buf] show ?case
    by (simp add: number_char_iff is_digit_iff isspace_def)
next
  case (3 v w vs)
  then obtain f where f: "fuel = Suc f" by (cases fuel) auto
  let ?more = "commas (map jtext (w # vs)) @ 93 # rest"
  have "skip_object f (jtext v @ 44 # ?more) buf = Inr (buf @ map byte_of (jtext v), 44 # ?more)"
    using 3 f by (intro skipsD) (auto simp: number_char_iff is_digit_iff)
  moreover have "skip_array f ?more b = Inr (b @ map byte_of (commas (map jtext (w # vs)) @ [93]), rest)" for b
    using 3 f by (intro "3.IH") auto
  ultimately show ?case
    by (simp add: f isspace_def)
qed simp

lemma skip_struct_commas:
  fixes ms :: "(byte list \<times> jval) list"
  defines "member \<equiv> \<lambda>(k, v). jtext (JStr k) @ 58 # jtext v"
  assumes "list_all (\<lambda>(k, v). skips (JStr k) \<and> skips v) ms" "ms \<noteq> []"
    "2 * length (commas (map member ms) @ 125 # rest) + 1 < fuel"
  shows "skip_struct fuel (commas (map member ms) @ 125 # rest) buf =
     Inr (buf @ map byte_of (commas (map member ms) @ [125]), rest)"
  using assms(2-)
proof (induction ms arbitrary: fuel buf rule: induct_list012)
  case (2 m)
  then obtain f where f: "fuel = Suc f" by (cases fuel) auto
  obtain k v where m: "m = (k, v)" by (cases m)
  have "skip_object f (jtext (JStr k) @ 58 # jtext v @ 125 # rest) buf =
      Inr (buf @ map byte_of (jtext (JStr k)), 58 # jtext v @ 125 # rest)"
    using 2 f m by (intro skipsD) (auto simp: number_char_iff is_digit_iff member_def)
  moreover have "skip_object f (jtext v @ 125 # rest) b = Inr (b @ map byte_of (jtext v), 125 # rest)" for b
    using 2 f m by (intro skipsD) (auto simp: number_char_iff is_digit_iff member_def)
  ultimately show ?case
    by (simp add: f m member_def isspace_def)
next
  case (3 m m2 ms)
  then obtain f where f: "fuel = Suc f" by (cases fuel) auto
  obtain k v where m: "m = (k, v)" by (cases m)
  let ?more = "commas (map member (m2 # ms)) @ 125 # rest"
  have "skip_object f (jtext (JStr k) @ 58 # jtext v @ 44 # ?more) buf =
      Inr (buf @ map byte_of (jtext (JStr k)), 58 # jtext v @ 44 # ?more)"
    using 3 f m by (intro skipsD) (auto simp: number_char_iff is_digit_iff member_def)
  moreover have "skip_object f (jtext v @ 44 # ?more) b = Inr (b @ map byte_of (jtext v), 44 # ?more)" for b
    using 3 f m by (intro skipsD) (auto simp: number_char_iff is_digit_iff member_def)
  moreover have "skip_struct f ?more b = Inr (b @ map byte_of (commas (map member (m2 # ms)) @ [125]), rest)" for b
    using 3 f m by (intro "3.IH") (auto simp: member_def)
  ultimately show ?case
    by (simp add: f m member_def isspace_def)
qed simp

lemma commas_head:
  assumes "xs \<noteq> []" "\<exists>c cs. hd xs = c # cs"
  shows "\<exists>cs. commas xs @ rest = hd (hd xs) # cs"
  using assms by (cases xs rule: commas.cases) auto

lemma skips_JStr: "skips (JStr s)"
proof -
  have "skip_object (Suc f) ((34 # str_syms s @ [34]) @ rest) buf =
    Inr (buf @ map byte_of (34 # str_syms s @ [34]), rest)" for f rest buf
    by (simp add: isspace_def skip_string_str_syms)
  then show ?thesis
    unfolding skips_def jtext_JStr by (metis less_nat_zero_code not0_implies_Suc)
qed

lemma skips_JInt: "skips (JInt n)"
proof -
  obtain c cs where c: "jtext (JInt n) = c # cs" "c = 45 \<or> is_digit c" "list_all number_char cs"
    by (rule jtext_JInt_shape)
  then have "0 \<le> c" "\<not> isspace c" "c \<noteq> 110" "c \<noteq> 102" "c \<noteq> 116" "c \<noteq> 34"
    by (auto simp: is_digit_iff isspace_def)
  with c skip_number_run [OF c(3)] have "skip_object (Suc f) (jtext (JInt n) @ rest) buf =
      Inr (buf @ map byte_of (jtext (JInt n)), rest)" if "\<not> number_char (peek_stream rest)" for f rest buf
    using that by auto
  then show ?thesis
    unfolding skips_def by (metis less_nat_zero_code not0_implies_Suc)
qed

lemma skips_const: "skips JNull" "skips (JBool b)"
proof -
  have "skip_object (Suc f) (jtext v @ rest) buf = Inr (buf @ map byte_of (jtext v), rest)"
    if "v \<in> {JNull, JBool b}" for v f rest buf
    using that by (auto simp: isspace_def is_digit_iff)
  then show "skips JNull" "skips (JBool b)"
    unfolding skips_def by (metis insert_iff less_nat_zero_code not0_implies_Suc)+
qed

lemma skips_JArr:
  assumes "list_all skips vs"
  shows "skips (JArr vs)"
  unfolding skips_def
proof (intro allI impI)
  fix fuel rest buf
  assume fuel: "2 * length (jtext (JArr vs) @ rest) < fuel"
  then obtain f where f: "fuel = Suc f" by (cases fuel) auto
  show "skip_object fuel (jtext (JArr vs) @ rest) buf = Inr (buf @ map byte_of (jtext (JArr vs)), rest)"
  proof (cases vs)
    case Nil
    then show ?thesis by (simp add: f isspace_def is_digit_iff json_peek_def)
  next
    case (Cons v ws)
    obtain c cs where "jtext v = c # cs" "\<not> isspace c" "c \<noteq> 93" by (rule jtext_head)
    with Cons commas_head [of "map jtext vs" "93 # rest"] obtain ds
      where ds: "commas (map jtext vs) @ 93 # rest = c # ds" "\<not> isspace c" "c \<noteq> 93" by auto
    with skip_array_commas [OF assms, of rest f "buf @ [91]"] Cons fuel f show ?thesis
      by (simp add: isspace_def is_digit_iff json_peek_def)
  qed
qed

lemma skips_JObj:
  assumes "list_all (\<lambda>(k, v). skips v) ms"
  shows "skips (JObj ms)"
  unfolding skips_def
proof (intro allI impI)
  fix fuel rest buf
  assume fuel: "2 * length (jtext (JObj ms) @ rest) < fuel"
  then obtain f where f: "fuel = Suc f" by (cases fuel) auto
  show "skip_object fuel (jtext (JObj ms) @ rest) buf = Inr (buf @ map byte_of (jtext (JObj ms)), rest)"
  proof (cases ms)
    case Nil
    then show ?thesis by (simp add: f isspace_def is_digit_iff json_peek_def)
  next
    case (Cons m ms')
    let ?t = "commas (map (\<lambda>(k, v). jtext (JStr k) @ 58 # jtext v) ms)"
    obtain ds where ds: "?t @ 125 # rest = 34 # ds"
      using Cons commas_head [of "map (\<lambda>(k, v). jtext (JStr k) @ 58 # jtext v) ms" "125 # rest"]
      by (cases m) auto
    from assms have "list_all (\<lambda>(k, v). skips (JStr k) \<and> skips v) ms"
      by (auto simp: list_all_iff skips_JStr)
    from skip_struct_commas [OF this, of rest f "buf @ [123]"] Cons fuel f
    have "skip_struct f (?t @ 125 # rest) (buf @ [123]) = Inr (buf @ 123 # map byte_of ?t @ [125], rest)"
      by simp
    with ds show ?thesis
      by (simp add: f isspace_def is_digit_iff json_peek_def)
  qed
qed

lemma skips_jval: "skips v"
proof (induction v)
  case (JObj ms)
  have "list_all (\<lambda>(k, v). skips v) ms"
    using JObj by (fastforce simp: list_all_iff snds.simps)
  then show ?case by (rule skips_JObj)
qed (auto simp: skips_const skips_JInt skips_JStr list_all_iff intro!: skips_JArr)

section \<open>Interfaces of the callbacks\<close>

text \<open>
  What \<^verbatim>\<open>json_read_array\<close> needs of its callback: on the text of an element, followed by a
  comma or by the closing bracket, it consumes exactly that text. Then the whole array is read,
  element by element, from left to right.
\<close>

locale array_elements =
  fixes cb :: "'a array_callback" and elem :: "'x \<Rightarrow> int list" and upd :: "'x \<Rightarrow> 'a \<Rightarrow> 'a"
    and ok :: "'x \<Rightarrow> 'a \<Rightarrow> bool"
  assumes cb_elem: "ok x arg \<Longrightarrow> c \<in> {44, 93} \<Longrightarrow> cb (elem x @ c # rest) arg = Inr (upd x arg, c # rest)"
    and elem_head: "\<exists>c cs. elem x = c # cs \<and> \<not> isspace c \<and> c \<noteq> 93"
begin

fun all_ok :: "'x list \<Rightarrow> 'a \<Rightarrow> bool" where
  "all_ok [] arg = True"
| "all_ok (x # xs) arg = (ok x arg \<and> all_ok xs (upd x arg))"

lemma array_loop_elems:
  "xs \<noteq> [] \<Longrightarrow> all_ok xs arg \<Longrightarrow> length xs \<le> fuel \<Longrightarrow>
   array_loop fuel cb (commas (map elem xs) @ 93 # rest) arg = Inr (fold upd xs arg, rest)"
proof (induction xs arbitrary: fuel arg rule: induct_list012)
  case (2 x)
  then show ?case by (cases fuel) (simp_all add: cb_elem isspace_def)
next
  case (3 x y xs)
  then obtain f where f: "fuel = Suc f" by (cases fuel) auto
  with 3 show ?case by (simp add: cb_elem isspace_def)
qed simp

lemma length_commas: "length xs \<le> length (commas (map elem xs) @ 93 # rest)"
proof (induction xs rule: induct_list012)
  case (3 x y xs)
  then show ?case by simp
qed simp_all

lemma read_array_elems:
  assumes "all_ok xs arg"
  shows "json_read_array cb (91 # commas (map elem xs) @ 93 # rest) arg =
     Inr (Some (fold upd xs arg), rest)"
proof (cases xs)
  case Nil
  then show ?thesis by (simp add: json_read_array_def isspace_def json_peek_def)
next
  case (Cons x ys)
  from elem_head [of x] Cons commas_head [of "map elem xs" "93 # rest"] obtain c ds
    where ds: "commas (map elem xs) @ 93 # rest = c # ds" "\<not> isspace c" "c \<noteq> 93" by auto
  have len: "length xs \<le> length (c # ds) + 1"
    using length_commas [of xs rest] unfolding ds(1) by simp
  have "array_loop (length (c # ds) + 1) cb (c # ds) arg = Inr (fold upd xs arg, rest)"
    using array_loop_elems [OF _ assms len, of rest] Cons unfolding ds(1) by blast
  with ds show ?thesis
    by (simp add: json_read_array_def isspace_def json_peek_def del: array_loop.simps)
qed

lemma read_array_null:
  "json_read_array cb (110 # 117 # 108 # 108 # rest) arg = Inr (None, rest)"
  by (simp add: json_read_array_def isspace_def)

end

text \<open>
  The same for \<^verbatim>\<open>json_read_struct\<close>. The names of the members have to fit into its buffer
  \<^verbatim>\<open>name[256]\<close>.
\<close>

locale struct_members =
  fixes cb :: "'a struct_callback" and val :: "'x \<Rightarrow> int list" and upd :: "cstring \<times> 'x \<Rightarrow> 'a \<Rightarrow> 'a"
    and ok :: "cstring \<times> 'x \<Rightarrow> 'a \<Rightarrow> bool"
  assumes cb_member: "ok (nm, x) arg \<Longrightarrow> c \<in> {44, 125} \<Longrightarrow>
      cb (val x @ c # rest) nm arg = Inr (upd (nm, x) arg, c # rest)"
begin

fun members_ok :: "(cstring \<times> 'x) list \<Rightarrow> 'a \<Rightarrow> bool" where
  "members_ok [] arg = True"
| "members_ok (m # ms) arg = (ok m arg \<and> length (fst m) < 256 \<and> members_ok ms (upd m arg))"

definition member :: "cstring \<times> 'x \<Rightarrow> int list" where
  "member m = (34 # str_syms (fst m) @ [34]) @ 58 # val (snd m)"

lemma read_name:
  "length nm < 256 \<Longrightarrow> json_read_string (34 # str_syms nm @ 34 # rest) 256 = Inr (int (length nm), nm, rest)"
  by (simp add: json_read_string_eq json_read_alloc_string_str_syms)

lemma struct_loop_members:
  "ms \<noteq> [] \<Longrightarrow> members_ok ms arg \<Longrightarrow> length ms \<le> fuel \<Longrightarrow>
   struct_loop fuel cb (commas (map member ms) @ 125 # rest) arg = Inr (fold upd ms arg, rest)"
proof (induction ms arbitrary: fuel arg rule: induct_list012)
  case (2 m)
  obtain nm x where "m = (nm, x)" by (cases m)
  with 2 show ?case
    by (cases fuel) (simp_all add: member_def read_name cb_member isspace_def)
next
  case (3 m m2 ms)
  then obtain f where f: "fuel = Suc f" by (cases fuel) auto
  obtain nm x where "m = (nm, x)" by (cases m)
  with 3 f show ?case by (simp add: member_def read_name cb_member isspace_def)
qed simp

lemma length_commas_member: "length ms \<le> length (commas (map member ms) @ 125 # rest)"
proof (induction ms rule: induct_list012)
  case (3 x y xs)
  then show ?case by simp
qed simp_all

lemma read_struct_members:
  assumes "members_ok ms arg"
  shows "json_read_struct cb (123 # commas (map member ms) @ 125 # rest) arg =
     Inr (Some (fold upd ms arg), rest)"
proof (cases ms)
  case Nil
  then show ?thesis by (simp add: json_read_struct_def isspace_def json_peek_def)
next
  case (Cons m ms')
  obtain ds where ds: "commas (map member ms) @ 125 # rest = 34 # ds"
    using Cons commas_head [of "map member ms" "125 # rest"] by (auto simp: member_def)
  have len: "length ms \<le> length (34 # ds) + 1"
    using length_commas_member [of ms rest] unfolding ds by simp
  have "struct_loop (length (34 # ds) + 1) cb (34 # ds) arg = Inr (fold upd ms arg, rest)"
    using struct_loop_members [OF _ assms len, of rest] Cons unfolding ds by blast
  with ds show ?thesis
    by (simp add: json_read_struct_def isspace_def json_peek_def del: struct_loop.simps)
qed

end

section \<open>Arrays of strings\<close>

lemma string_elem_str: "string_elem (34 # str_syms s @ 34 # rest) = Inr (s, rest)"
  by (simp add: string_elem_def isspace_def read_string_chars_str_syms)

lemma string_array_loop_elems:
  "strs \<noteq> [] \<Longrightarrow> length strs \<le> fuel \<Longrightarrow>
   string_array_loop fuel (commas (map (\<lambda>s. jtext (JStr s)) strs) @ 93 # rest) buf lens =
     Inr (buf @ concat (map (\<lambda>s. s @ [0]) strs), lens @ map length strs, rest)"
proof (induction strs arbitrary: fuel buf lens rule: induct_list012)
  case (2 s)
  then show ?case by (cases fuel) (simp_all add: string_elem_str isspace_def)
next
  case (3 s s2 strs)
  then obtain f where f: "fuel = Suc f" by (cases fuel) auto
  with 3 show ?case by (simp add: string_elem_str isspace_def)
qed simp

lemma string_offsets_cstrings:
  assumes "list_all (\<lambda>s. 0 \<notin> set s) strs"
  shows "map (cstring_at (pre @ concat (map (\<lambda>s. s @ [0]) strs) @ post))
    (string_offsets (length pre) (map length strs)) = strs"
  using assms
proof (induction strs arbitrary: pre)
  case (Cons s strs)
  have "cstring_at (pre @ s @ 0 # xs) (length pre) = s" for xs
    unfolding cstring_at_def using Cons.prems by (simp, subst takeWhile_append2) auto
  moreover from Cons.IH [of "pre @ s @ [0]"] Cons.prems
  have "map (cstring_at (pre @ s @ 0 # concat (map (\<lambda>s. s @ [0]) strs) @ post))
    (string_offsets (length pre + length s + 1) (map length strs)) = strs" by simp
  ultimately show ?case by simp
qed simp

lemma read_alloc_string_array_text:
  "json_read_alloc_string_array (jtext (JArr (map JStr strs)) @ rest) =
     Inr (Some (concat (map (\<lambda>s. s @ [0]) strs) @ [0], string_offsets 0 (map length strs)), rest)"
proof (cases strs)
  case Nil
  then show ?thesis by (simp add: json_read_alloc_string_array_def isspace_def json_peek_def)
next
  case (Cons s strs')
  let ?t = "commas (map (\<lambda>s. jtext (JStr s)) strs) @ 93 # rest"
  obtain ds where ds: "?t = 34 # ds"
    using Cons commas_head [of "map (\<lambda>s. jtext (JStr s)) strs" "93 # rest"] by auto
  have "length xs \<le> length (commas (map (\<lambda>s. jtext (JStr s)) xs) @ 93 # rest)" for xs
    by (induction xs rule: induct_list012) auto
  from this [of strs] have len: "length strs \<le> length (34 # ds) + 1" unfolding ds by simp
  have "string_array_loop (length (34 # ds) + 1) (34 # ds) [] [] =
      Inr (concat (map (\<lambda>s. s @ [0]) strs), map length strs, rest)"
    using string_array_loop_elems [OF _ len, of rest "[]" "[]"] Cons unfolding ds by simp
  moreover have "jtext (JArr (map JStr strs)) @ rest = 91 # 34 # ds"
    using ds by (simp add: comp_def)
  ultimately show ?thesis
    by (simp add: json_read_alloc_string_array_def isspace_def json_peek_def del: string_array_loop.simps)
qed

section \<open>Binary data\<close>

lemma base64_spec_append:
  "length xs mod 3 = 0 \<Longrightarrow> base64_spec (xs @ ys) = base64_spec xs @ base64_spec ys"
  by (induction xs rule: base64_spec.induct) (auto simp: base64_spec.simps)

lemma read_base64_loop_full:
  "\<not> length acc + 3 \<le> buf_size \<Longrightarrow> read_base64_loop inp acc buf_size = Inr (acc, inp)"
  by (subst read_base64_loop.simps) simp

lemma read_base64_loop_part:
  assumes "char2int_at (peek_stream rest) < 0" "length acc \<le> buf_size"
  defines "k \<equiv> 3 * ((buf_size - length acc) div 3)"
  shows "read_base64_loop (base64_spec bs @ rest) acc buf_size =
    Inr (acc @ take k bs, base64_spec (drop k bs) @ rest)"
  using assms(2) unfolding k_def
proof (induction bs arbitrary: acc rule: base64_spec.induct)
  case 1
  then show ?case by (simp add: read_base64_loop_stop assms(1))
next
  case (2 b0)
  then show ?case
    by (cases "length acc + 3 \<le> buf_size") (simp_all add: read_base64_loop_groups read_base64_loop_full)
next
  case (3 b0 b1)
  have "Suc (Suc 0) \<le> 3 * ((buf_size - length acc) div 3)" if "length acc + 3 \<le> buf_size"
    using that by (simp add: le_div_geq)
  with 3 show ?case
    by (cases "length acc + 3 \<le> buf_size") (simp_all add: read_base64_loop_groups read_base64_loop_full)
next
  case (4 b0 b1 b2 bs)
  show ?case
  proof (cases "length acc + 3 \<le> buf_size")
    case True
    have e: "base64_spec (b0 # b1 # b2 # bs) @ rest = base64_spec [b0, b1, b2] @ base64_spec bs @ rest"
      by (simp add: base64_spec_sextets)
    have k: "3 * ((buf_size - length acc) div 3) = Suc (Suc (Suc (3 * ((buf_size - Suc (Suc (Suc (length acc)))) div 3))))"
      using True by (simp add: le_div_geq)
    have "read_base64_loop (base64_spec bs @ rest) (acc @ [b0, b1, b2]) buf_size =
       Inr (acc @ take (3 * ((buf_size - length acc) div 3)) (b0 # b1 # b2 # bs),
         base64_spec (drop (3 * ((buf_size - length acc) div 3)) (b0 # b1 # b2 # bs)) @ rest)"
      using "4.IH" [of "acc @ [b0, b1, b2]"] True unfolding k by simp
    with True show ?thesis unfolding e by (simp only: read_base64_loop_groups)
  next
    case False
    with "4.prems" show ?thesis by (simp add: read_base64_loop_full)
  qed
qed

lemma read_base64_part:
  assumes "char2int_at (peek_stream rest) < 0" "3 \<le> len"
  shows "read_base64 (base64_spec bs @ rest) len =
    Inr (take (3 * (len div 3)) bs, base64_spec (drop (3 * (len div 3)) bs) @ rest)"
  using assms read_base64_loop_part [of rest "[]" len bs] by (simp add: read_base64_def)

lemma read_base64_data_spec:
  assumes "char2int_at (peek_stream rest) < 0"
  shows "length rem \<le> 3 \<Longrightarrow> inp = base64_spec bs @ rest \<Longrightarrow>
    \<exists>rem' bs' early. read_base64_data rem len acc inp =
      Inr (acc @ take len (rem @ bs), rem', base64_spec bs' @ rest, early) \<and>
      rem' @ bs' = drop len (rem @ bs) \<and> length rem' \<le> 3"
proof (induction rem len acc inp arbitrary: bs rule: read_base64_data.induct)
  case (1 rem len acc inp)
  show ?case
  proof (cases "len = 0 \<or> rem \<noteq> [] \<and> len < length rem")
    case True
    with "1.prems" show ?thesis by (subst read_base64_data.simps) (auto intro!: exI [of _ bs])
  next
    case False
    then have c: "len \<noteq> 0" "\<not> (rem \<noteq> [] \<and> len < length rem)" by auto
    define len1 where "len1 = len - length rem"
    define n where "n = (if len1 \<ge> 3 then 3 * (len1 div 3) else 3)"
    have n: "n \<ge> 3" "len1 \<ge> 3 \<Longrightarrow> n \<le> len1" by (auto simp: n_def)
    have nb: "next_base64 inp len1 = Inr (take n bs, base64_spec (drop n bs) @ rest)"
      using "1.prems" assms by (auto simp: next_base64_def n_def read_base64_part)
    have step: "read_base64_data rem len acc inp =
       (if take n bs = [] then Inr (acc @ rem, [], base64_spec (drop n bs) @ rest, False)
        else if len1 \<ge> 3 then read_base64_data [] (len1 - length (take n bs)) ((acc @ rem) @ take n bs)
          (base64_spec (drop n bs) @ rest)
        else read_base64_data (take n bs) len1 (acc @ rem) (base64_spec (drop n bs) @ rest))"
      using "1.prems"(1) nb unfolding len1_def
      by (subst read_base64_data.simps, unfold if_not_P [OF c(1)] if_not_P [OF c(2)])
        (simp add: Let_def del: take_eq_Nil)
    have tl: "take len (rem @ bs) = rem @ take len1 bs" "drop len (rem @ bs) = drop len1 bs"
      using False by (auto simp: len1_def)
    show ?thesis
    proof (cases "take n bs = []")
      case True
      with n have "bs = []" by auto
      with step tl show ?thesis by (auto intro!: exI [of _ "[]"])
    next
      case ne: False
      note IH = "1.IH" [OF _ _ _ refl refl]
      show ?thesis
      proof (cases "len1 \<ge> 3")
        case True
        have a: "take (len1 - length (take n bs)) (drop n bs) = drop n (take len1 bs)"
          and b: "drop (len1 - length (take n bs)) (drop n bs) = drop len1 bs"
          using n(2) [OF True] by (auto simp: drop_take min_def)
        have "take n bs @ take (len1 - length (take n bs)) (drop n bs) = take len1 bs"
          using n(2) [OF True] unfolding a by (metis append_take_drop_id min.absorb_iff1 take_take)
        with IH(1) [of "(take n bs, base64_spec (drop n bs) @ rest)" "take n bs"
            "base64_spec (drop n bs) @ rest" "drop n bs"] ne True False nb step tl b "1.prems"
        show ?thesis by (auto simp: len1_def [symmetric])
      next
        case lt: False
        have "length (take n bs) \<le> 3" using lt by (simp add: n_def)
        with IH(2) [of "(take n bs, base64_spec (drop n bs) @ rest)" "take n bs"
            "base64_spec (drop n bs) @ rest" "drop n bs"] ne lt False nb step tl "1.prems"
        show ?thesis by (auto simp: len1_def [symmetric])
      qed
    qed
  qed
qed

text \<open>\<open>binary_rest st inp data rest\<close>: the bytes \<open>data\<close> are still to be delivered from the
  reader state and the input, and \<open>rest\<close> follows them.\<close>

definition binary_rest :: "JsonReadBinaryState \<Rightarrow> istream \<Rightarrow> byte list \<Rightarrow> istream \<Rightarrow> bool" where
  "binary_rest st inp data rest \<longleftrightarrow>
     (case rd_encoding st of
        ENCODING_BINARY \<Rightarrow> rd_buf st = [] \<and> inp = syms data @ rest \<and>
          unat (rd_size_start st - rd_size_done st) = length data
      | ENCODING_BASE64 \<Rightarrow> length (rd_buf st) \<le> 3 \<and> rd_size_start st = 0 \<and>
          char2int_at (peek_stream rest) < 0 \<and>
          (\<exists>bs. rd_buf st @ bs = data \<and> inp = base64_spec bs @ rest))"

lemma map_byte_of_syms [simp]: "map byte_of (syms bs) = bs"
  by (simp add: syms_def comp_def)

lemma unat_u64_of_nat: "n < 2 ^ 64 \<Longrightarrow> unat (word_of_nat n :: u64) = n"
  by (simp add: unat_of_nat)

lemma read_many_syms: "n \<le> length data \<Longrightarrow>
    read_many read_stream n (syms data @ rest) = (syms (take n data), syms (drop n data) @ rest)"
proof (induction n arbitrary: data)
  case (Suc n)
  then obtain b bs where "data = b # bs" by (cases data) auto
  with Suc show ?case by simp
qed simp

lemma read_binary_data_rest:
  assumes "binary_rest st inp data rest" "length data < 2 ^ 64"
  shows "\<exists>st' inp'. json_read_binary_data st len inp = Inr (take len data, st', inp') \<and>
     binary_rest st' inp' (drop len data) rest \<and>
     rd_encoding st' = rd_encoding st \<and> rd_size_start st' = rd_size_start st"
proof (cases "rd_encoding st")
  case ENCODING_BINARY
  let ?n = "min len (length data)"
  have l: "unat (rd_size_start st - rd_size_done st) = length data"
    using assms(1) ENCODING_BINARY by (simp add: binary_rest_def)
  have n: "unat (word_of_nat ?n :: u64) = ?n"
    using assms(2) by (intro unat_u64_of_nat) simp
  have "unat (rd_size_start st - (rd_size_done st + word_of_nat ?n)) =
      unat ((rd_size_start st - rd_size_done st) - word_of_nat ?n)"
    by (simp add: algebra_simps)
  also have "\<dots> = length data - ?n"
    using l n by (subst unat_sub) (auto simp: word_le_nat_alt)
  finally have "unat (rd_size_start st - (rd_size_done st + word_of_nat ?n)) = length (drop len data)"
    by simp
  with assms(1) ENCODING_BINARY l show ?thesis
    by (auto simp: json_read_binary_data_def binary_rest_def read_many_syms Let_def min_def)
next
  case ENCODING_BASE64
  with assms(1) obtain bs where bs: "rd_buf st @ bs = data" "inp = base64_spec bs @ rest"
    "length (rd_buf st) \<le> 3" "rd_size_start st = 0" "char2int_at (peek_stream rest) < 0"
    by (auto simp: binary_rest_def)
  from read_base64_data_spec [OF bs(5,3,2), of len "[]"] bs ENCODING_BASE64 show ?thesis
    by (fastforce simp: json_read_binary_data_def binary_rest_def)
qed

lemma read_binary_loop_rest:
  "binary_rest st inp data rest \<Longrightarrow> length data < 2 ^ 64 \<Longrightarrow> length buf \<le> buf_size \<Longrightarrow>
   length data < fuel \<Longrightarrow>
   \<exists>st' inp'. read_binary_loop fuel st buf_size buf inp = Inr (buf @ data, st', inp') \<and>
     binary_rest st' inp' [] rest \<and>
     rd_encoding st' = rd_encoding st \<and> rd_size_start st' = rd_size_start st"
proof (induction fuel arbitrary: st inp data buf buf_size)
  case (Suc fuel)
  define sz where "sz = (if length buf \<ge> buf_size then realloc_buf buf_size else buf_size)"
  have sz: "sz - length buf > 0" using Suc.prems(3) by (auto simp: sz_def realloc_buf_def)
  define n where "n = sz - length buf"
  from read_binary_data_rest [OF Suc.prems(1,2), of n] obtain st1 inp1 where
    st1: "json_read_binary_data st n inp = Inr (take n data, st1, inp1)"
    "binary_rest st1 inp1 (drop n data) rest" "rd_encoding st1 = rd_encoding st"
    "rd_size_start st1 = rd_size_start st" by blast
  show ?case
  proof (cases data)
    case Nil
    with st1 show ?thesis by (simp add: sz_def [symmetric] n_def [symmetric] Let_def)
  next
    case (Cons b bs)
    have "length (drop n data) < fuel" "length (buf @ take n data) \<le> sz" "length (drop n data) < 2 ^ 64"
      using Cons sz Suc.prems(2,4) by (auto simp: n_def)
    with Suc.IH [OF st1(2), of "buf @ take n data" sz] obtain st2 inp2 where
      "read_binary_loop fuel st1 sz (buf @ take n data) inp1 = Inr ((buf @ take n data) @ drop n data, st2, inp2)"
      "binary_rest st2 inp2 [] rest" "rd_encoding st2 = rd_encoding st1" "rd_size_start st2 = rd_size_start st1"
      by blast
    moreover have "take n data \<noteq> []" using Cons sz by (simp add: n_def)
    ultimately show ?thesis using st1
      by (simp add: sz_def [symmetric] n_def [symmetric] Let_def del: take_eq_Nil)
  qed
qed simp

lemma read_alloc_binary_rest:
  assumes st: "json_read_binary_start inp = Inr (st, inp1)" "fst (json_peek inp) \<noteq> 110"
      "snd (json_peek inp) = inp"
    and r: "binary_rest st inp1 data rest" "length data < 2 ^ 64" "length data < unat (rd_size_start st) + length inp1 + 4"
    and s: "rd_size_start st = 0 \<or> length data = unat (rd_size_start st)"
    and e: "\<And>st' inp'. binary_rest st' inp' [] rest \<Longrightarrow> rd_encoding st' = rd_encoding st \<Longrightarrow>
      json_read_binary_end st' inp' = Inr rest'"
  shows "json_read_alloc_binary buf_size inp = Inr (Some data, rest')"
proof -
  obtain pk where "json_peek inp = (pk, inp)" "pk \<noteq> 110" using st by (metis prod.collapse)
  moreover obtain st' inp' where
    "read_binary_loop (unat (rd_size_start st) + length inp1 + 4) st buf_size [] inp1 = Inr (data, st', inp')"
    "binary_rest st' inp' [] rest" "rd_encoding st' = rd_encoding st" "rd_size_start st' = rd_size_start st"
    using read_binary_loop_rest [OF r(1,2) _ r(3), of "[]" buf_size] by auto
  ultimately show ?thesis using st(1) s e
    by (simp add: json_read_alloc_binary_def del: read_binary_loop.simps)
qed

lemma read_alloc_binary_text:
  assumes "length data < 2 ^ 64"
  shows "json_read_alloc_binary buf_size (34 # base64_spec data @ 34 # rest) = Inr (Some data, rest)"
    and "json_read_alloc_binary buf_size (40 # dec (length data) @ 41 # syms data @ rest) =
      Inr (Some data, rest)"
proof -
  let ?st = "\<lambda>enc n. \<lparr>rd_encoding = enc, rd_size_start = n, rd_size_done = 0, rd_buf = []\<rparr>"
  have nb: "char2int_at 34 < 0" by (simp add: char2int_at_def char2int_def)
  have "length data \<le> length (base64_spec data)" by (simp add: length_base64_spec)
  then show "json_read_alloc_binary buf_size (34 # base64_spec data @ 34 # rest) = Inr (Some data, rest)"
    using assms nb
    by (intro read_alloc_binary_rest [where st = "?st ENCODING_BASE64 0" and rest = "34 # rest"])
      (auto simp: json_read_binary_start_def json_peek_def isspace_def binary_rest_def
        json_read_binary_end_def)
  have n: "unat (word_of_nat (length data) :: u64) = length data"
    using assms by (intro unat_u64_of_nat) simp
  have u: "json_read_ulong (dec (length data) @ 41 # syms data @ rest) =
      Inr (word_of_nat (length data), 41 # syms data @ rest)"
    by (intro json_read_ulong_dec) (simp add: is_digit_iff)
  show "json_read_alloc_binary buf_size (40 # dec (length data) @ 41 # syms data @ rest) =
      Inr (Some data, rest)"
    using assms n u
    by (intro read_alloc_binary_rest
        [where st = "?st ENCODING_BINARY (word_of_nat (length data))" and rest = "rest"])
      (auto simp: json_read_binary_start_def json_peek_def isspace_def binary_rest_def
        json_read_binary_end_def unat_eq_0)
qed

subsection \<open>The writer, chunk by chunk\<close>

fun write_chunks :: "JsonWriteBinaryState \<Rightarrow> byte list list \<Rightarrow> JsonWriteBinaryState outcome" where
  "write_chunks st [] = Inr st"
| "write_chunks st (c # cs) = rbind (json_write_binary_data st c) (\<lambda>st. write_chunks st cs)"

lemma write_base64_written:
  "\<exists>out'. write_base64 out buf = Inr (out', (length buf + 2) div 3 * 4) \<and>
     written out' = written out @ base64_spec buf"
  using write_base64_spec [of out buf] by (auto simp: length_base64_spec)

lemma write_base64_data_spec:
  assumes "length rem < 3"
  shows "\<exists>out' rem' n w. write_base64_data out rem data = Inr (out', rem', n) \<and>
     rem @ data = w @ rem' \<and> length w mod 3 = 0 \<and> length rem' < 3 \<and>
     written out' = written out @ base64_spec w"
proof -
  have tail: "\<exists>out' rem' n w. (if data1 \<noteq> [] then assert_that (rem1 = []) (
       let k = length data1 mod 3; n = length data1 - k in
       rbind (write_base64 out1 (take n data1)) (\<lambda>(out2, _). Inr (out2, drop n data1, n)))
     else Inr (out1, rem1, 0)) = Inr (out', rem', n) \<and>
     rem1 @ data1 = w @ rem' \<and> length w mod 3 = 0 \<and> length rem' < 3 \<and>
     written out' = written out1 @ base64_spec w" if "data1 = [] \<or> rem1 = []" "length rem1 < 3" for out1 rem1 data1
  proof (cases data1)
    case Nil
    with that show ?thesis by (auto intro!: exI [of _ "[]"])
  next
    case (Cons b bs)
    then have ne: "data1 \<noteq> []" by simp
    define n where "n = length data1 - length data1 mod 3"
    have n: "n mod 3 = 0" "n \<le> length data1" "length data1 - n < 3"
      by (auto simp: n_def minus_mod_eq_mult_div)
    from write_base64_written [of out1 "take n data1"] obtain out2 m where
      "write_base64 out1 (take n data1) = Inr (out2, m)" "written out2 = written out1 @ base64_spec (take n data1)"
      by blast
    moreover from this that ne have "(if data1 \<noteq> [] then assert_that (rem1 = []) (
         let k = length data1 mod 3; n = length data1 - k in
         rbind (write_base64 out1 (take n data1)) (\<lambda>(out2, _). Inr (out2, drop n data1, n)))
       else Inr (out1, rem1, 0)) = Inr (out2, drop n data1, n)"
      by (simp add: n_def [symmetric] Let_def)
    ultimately show ?thesis
      using that ne n by (auto intro!: exI [of _ "take n data1"])
  qed
  show ?thesis
  proof (cases "rem = []")
    case True
    then show ?thesis using tail [of data "[]" out] by (simp add: write_base64_data_def)
  next
    case False
    define rem1 where "rem1 = rem @ take (3 - length rem) data"
    define data1 where "data1 = drop (3 - length rem) data"
    have rd: "rem @ data = rem1 @ data1" "length rem1 \<le> 3" "length rem1 < 3 \<Longrightarrow> data1 = []"
      using assms by (auto simp: rem1_def data1_def)
    show ?thesis
    proof (cases "length rem1 < 3")
      case True
      then show ?thesis using tail [of data1 rem1 out] rd False
        by (simp add: write_base64_data_def rem1_def [symmetric] data1_def [symmetric])
    next
      case ge: False
      from write_base64_written [of out rem1] obtain out1 m where w1:
        "write_base64 out rem1 = Inr (out1, m)" "written out1 = written out @ base64_spec rem1" by blast
      from tail [of data1 "[]" out1] obtain out' rem' n w where t:
        "(if data1 \<noteq> [] then assert_that ([] = ([] :: byte list)) (
           let k = length data1 mod 3; n = length data1 - k in
           rbind (write_base64 out1 (take n data1)) (\<lambda>(out2, _). Inr (out2, drop n data1, n)))
         else Inr (out1, [], 0)) = Inr (out', rem', n)"
        "data1 = w @ rem'" "length w mod 3 = 0" "length rem' < 3" "written out' = written out1 @ base64_spec w"
        by auto
      have "length (rem1 @ w) mod 3 = 0" "length rem1 mod 3 = 0" using ge rd(2) t(3) by auto
      moreover have "write_base64_data out rem data = Inr (out', rem', n)"
        using t(1) w1(1) ge rd(2) False
        by (simp add: write_base64_data_def rem1_def [symmetric] data1_def [symmetric])
      ultimately show ?thesis using t w1(2) rd(1)
        by (auto simp: base64_spec_append intro!: exI [of _ "rem1 @ w"])
    qed
  qed
qed

lemma write_chunks_base64:
  "wr_encoding st = ENCODING_BASE64 \<Longrightarrow> length (wr_buf st) < 3 \<Longrightarrow>
   \<exists>st' w. write_chunks st chunks = Inr st' \<and> wr_encoding st' = ENCODING_BASE64 \<and>
     length (wr_buf st') < 3 \<and> wr_buf st @ concat chunks = w @ wr_buf st' \<and> length w mod 3 = 0 \<and>
     written (wr_out st') = written (wr_out st) @ base64_spec w"
proof (induction chunks arbitrary: st)
  case Nil
  then show ?case by (auto intro!: exI [of _ "[]"])
next
  case (Cons c cs)
  show ?case
  proof (cases "c = []")
    case True
    with Cons show ?thesis by (simp add: json_write_binary_data_def)
  next
    case False
    obtain out' rem' n w where w: "write_base64_data (wr_out st) (wr_buf st) c = Inr (out', rem', n)"
      "wr_buf st @ c = w @ rem'" "length w mod 3 = 0" "length rem' < 3"
      "written out' = written (wr_out st) @ base64_spec w"
      using write_base64_data_spec [OF Cons.prems(2), of "wr_out st" c] by metis
    let ?st1 = "st\<lparr>wr_out := out', wr_buf := rem', wr_size_done := wr_size_done st + n\<rparr>"
    from Cons.IH [of ?st1] Cons.prems(1) w(4) obtain st' v where v:
      "write_chunks ?st1 cs = Inr st'" "wr_encoding st' = ENCODING_BASE64" "length (wr_buf st') < 3"
      "rem' @ concat cs = v @ wr_buf st'" "length v mod 3 = 0"
      "written (wr_out st') = written out' @ base64_spec v" by auto
    have "wr_buf st @ c @ concat cs = (w @ v) @ wr_buf st'"
      using w(2) v(4) by (metis append.assoc)
    moreover have "length (w @ v) mod 3 = 0" using w(3) v(5) by auto
    ultimately show ?thesis using w v False Cons.prems(1)
      by (intro exI [of _ st'] exI [of _ "w @ v"])
        (simp add: json_write_binary_data_def base64_spec_append del: length_append)
  qed
qed

lemma write_chunks_binary:
  "wr_encoding st = ENCODING_BINARY \<Longrightarrow>
   \<exists>st'. write_chunks st chunks = Inr st' \<and> wr_encoding st' = ENCODING_BINARY \<and>
     wr_size_start st' = wr_size_start st \<and>
     wr_size_done st' = wr_size_done st + length (concat chunks) \<and>
     written (wr_out st') = written (wr_out st) @ syms (concat chunks)"
proof (induction chunks arbitrary: st)
  case (Cons c cs)
  let ?st1 = "if c = [] then st else st\<lparr>wr_out := write_block_stream (wr_out st) c,
                  wr_size_done := wr_size_done st + length c\<rparr>"
  have "json_write_binary_data st c = Inr ?st1"
    using Cons.prems by (simp add: json_write_binary_data_def)
  with Cons.IH [of ?st1] Cons.prems show ?case
    by (auto simp: write_block_stream_def split: if_splits)
qed simp

lemma write_binary_chunks_text:
  assumes "length (concat chunks) < 2 ^ 64"
  shows "\<exists>out'. rbind (write_chunks (json_write_binary_start out (length (concat chunks))) chunks)
       json_write_binary_end = Inr out' \<and>
     written out' = written out @
       (if supports_zero_copy out \<and> concat chunks \<noteq> []
        then 40 # dec (length (concat chunks)) @ 41 # syms (concat chunks)
        else 34 # base64_spec (concat chunks) @ [34])"
proof (cases "supports_zero_copy out \<and> concat chunks \<noteq> []")
  case True
  let ?n = "length (concat chunks)"
  have n: "unat (word_of_nat ?n :: u64) = ?n"
    using assms by (intro unat_u64_of_nat)
  have p: "0 < ?n" using True by (metis length_greater_0_conv)
  let ?st = "json_write_binary_start out ?n"
  have st: "wr_encoding ?st = ENCODING_BINARY" "wr_size_start ?st = ?n" "wr_size_done ?st = 0"
    "written (wr_out ?st) = written out @ 40 # dec ?n @ [41]"
    using True p n
    by (simp_all add: json_write_binary_start_def json_write_ulong_dec write_stream_def del: length_concat)
  from write_chunks_binary [OF st(1), of chunks] st True show ?thesis
    by (auto simp: json_write_binary_end_def simp del: length_concat concat_eq_Nil_conv)
next
  case False
  let ?st = "json_write_binary_start out (length (concat chunks))"
  have "\<not> (supports_zero_copy out \<and> length (concat chunks) > 0)" using False by (metis length_greater_0_conv)
  then have st: "wr_encoding ?st = ENCODING_BASE64" "wr_buf ?st = []"
    "written (wr_out ?st) = written out @ [34]"
    by (simp_all add: json_write_binary_start_def write_stream_def del: length_concat)
  from write_chunks_base64 [OF st(1), of chunks] st obtain st' w where w:
    "write_chunks ?st chunks = Inr st'" "wr_encoding st' = ENCODING_BASE64"
    "concat chunks = w @ wr_buf st'" "length w mod 3 = 0"
    "written (wr_out st') = written out @ 34 # base64_spec w" by auto
  obtain out' m where o: "(if wr_buf st' \<noteq> [] then write_base64 (wr_out st') (wr_buf st') else Inr (wr_out st', 0)) =
      Inr (out', m)" "written out' = written (wr_out st') @ base64_spec (wr_buf st')"
    using write_base64_written [of "wr_out st'" "wr_buf st'"] by (cases "wr_buf st' = []") auto
  have "rbind (write_chunks ?st chunks) json_write_binary_end = Inr (write_stream out' 34)"
    using w(1,2) o(1) by (simp add: json_write_binary_end_def)
  moreover have "written (write_stream out' 34) = written out @ 34 # base64_spec (concat chunks) @ [34]"
    using w(3,4,5) o(2) by (simp add: write_stream_def base64_spec_append)
  ultimately show ?thesis using False by auto
qed

section \<open>Properties\<close>

text \<open>C23: The reader that copies a value: given the text of any value made of null, booleans, 64-bit
  integers, strings, arrays and objects, nested to any depth (fractions and binary values are not among them; see
  \<open>json_read_object_loses_size\<close> for the latter), and then anything that cannot continue a number, \<open>json_read_object\<close> returns exactly that
  text and leaves what follows; and \<open>json_skip_object\<close> stops at the same place.\<close>

theorem json_read_object_copies:
  assumes "\<not> number_char (peek_stream rest)"
  shows "json_read_object (jtext v @ rest) = Inr (map byte_of (jtext v), rest) \<and>
     json_skip_object (jtext v @ rest) = Inr rest"
  using skipsD [OF skips_jval _ assms, of v "skip_fuel (jtext v @ rest)" "[]"]
  by (simp add: json_read_object_def json_skip_object_def skip_fuel_def)

theorem json_read_object_copies_witness:
  "json_read_object (jtext (JObj [([97], JArr [JNull, JStr [34]])]) @ [0]) =
     Inr (map byte_of (jtext (JObj [([97], JArr [JNull, JStr [34]])])), [0]) \<and>
   json_skip_object (jtext (JObj [([97], JArr [JNull, JStr [34]])]) @ [0]) = Inr [0]"
  by (rule json_read_object_copies) (simp add: number_char_iff is_digit_iff)

text \<open>The reader always comes to an end, on any input whatsoever: either it raises an error
  or it returns with fewer symbols left than before.\<close>

theorem json_read_object_terminates:
  "(\<exists>e msg. json_read_object inp = Inl (Exception e msg)) \<or>
   (\<exists>buf inp'. json_read_object inp = Inr (buf, inp') \<and> length inp' < length inp)"
proof -
  have s: "shrinks (length inp - 1) (json_read_object inp)"
    unfolding json_read_object_def by (rule shrinks_skip) (simp add: skip_fuel_def)
  show ?thesis
  proof (cases "json_read_object inp")
    case (Inl e)
    with s show ?thesis by (auto simp: shrinks_def is_exception_def split: exn.splits)
  next
    case (Inr p)
    then obtain buf inp' where p: "json_read_object inp = Inr (buf, inp')" by (cases p) auto
    then have "inp \<noteq> []" by (auto simp: json_read_object_def skip_fuel_def skip_char_def isspace_def)
    with s p show ?thesis by (cases inp) (auto simp: shrinks_def)
  qed
qed

text \<open>A binary value is the exception: the size that it starts with is read with
  \<open>json_read_ulong\<close>, which bypasses the buffer, so that the copy has lost it.\<close>

theorem json_read_object_loses_size:
  "json_read_object [40, 51, 41, 97, 98, 99, 0] = Inr (cstr ''()abc'', [0])"
proof -
  have "skip_object (Suc f) [40, 51, 41, 97, 98, 99, 0] [] = Inr (cstr ''()abc'', [0])" for f
    by (simp add: isspace_def is_digit_iff json_read_ulong_def read_sign_digit_def
        read_digits_unsigned.simps skip_bytes.simps Let_def cstr_def)
  from this [of 15] show ?thesis by (simp add: json_read_object_def skip_fuel_def del: skip_object.simps)
qed

text \<open>Round trip of string arrays: strings without zero bytes, written as an array, are read
  back as a block of zero-terminated strings and one offset per string, at which exactly that
  string is found.\<close>

theorem json_string_array_roundtrip:
  assumes "list_all (\<lambda>s. 0 \<notin> set s) strs"
  shows "\<exists>blk offs. json_read_alloc_string_array (jtext (JArr (map JStr strs)) @ rest) =
       Inr (Some (blk, offs), rest) \<and> map (cstring_at blk) offs = strs"
  using string_offsets_cstrings [OF assms, of "[]" "[0]"]
  by (simp add: read_alloc_string_array_text del: jtext.simps)

theorem json_string_array_roundtrip_witness:
  "\<exists>blk offs. json_read_alloc_string_array (jtext (JArr (map JStr [[97, 98], [], [200]])) @ [0]) =
     Inr (Some (blk, offs), [0]) \<and> map (cstring_at blk) offs = [[97, 98], [], [200]]"
  by (rule json_string_array_roundtrip) simp

text \<open>Round trip of binary data: bytes that are handed to the writer in any chunks, in either
  encoding, are read back as they were, whatever the size that the buffer of the reader has; the
  assertions on the sizes hold.\<close>

theorem json_binary_roundtrip:
  assumes "concat chunks = data" "length data < 2 ^ 64"
  shows "\<exists>out' txt.
     rbind (write_chunks (json_write_binary_start out (length data)) chunks) json_write_binary_end = Inr out' \<and>
     written out' = written out @ txt \<and>
     json_read_alloc_binary buf_size (txt @ rest) = Inr (Some data, rest)"
  using write_binary_chunks_text [of chunks out] read_alloc_binary_text [of data buf_size rest] assms
  by (auto split: if_splits)

theorem json_binary_roundtrip_witness:
  "\<exists>out' txt.
     rbind (write_chunks (json_write_binary_start \<lparr>supports_zero_copy = True, written = []\<rparr>
       (length [1 :: byte, 2, 3, 4])) [[1, 2], [], [3, 4]]) json_write_binary_end = Inr out' \<and>
     written out' = [] @ txt \<and>
     json_read_alloc_binary 2 (txt @ [0]) = Inr (Some [1, 2, 3, 4], [0])"
  using json_binary_roundtrip [of "[[1, 2], [], [3, 4]]" "[1, 2, 3, 4]"
    "\<lparr>supports_zero_copy = True, written = []\<rparr>" 2 "[0]"] by fastforce

end
