(* ===== verification/Errors.thy ===== *)
theory Errors
  imports JsonData
begin

text \<open>
  \<^verbatim>\<open>framework/errors.c\<close>: error numbers with messages and reports.

  An error number is a C \<^verbatim>\<open>int\<close>. The numbers from \<open>ERR_MESSAGE_MIN\<close> to
  \<open>ERR_MESSAGE_MAX\<close> are indices into a ring of messages, which may share error reports with
  each other and with the callers of \<^verbatim>\<open>get_error_report\<close>; reports are counted references.
  A report is an address in the store \<open>reports\<close>; an address is never used twice, and the use
  of one that has been freed is undefined. What the C library contributes, the texts of
  \<^verbatim>\<open>strerror\<close> and \<^verbatim>\<open>gai_strerror\<close> and the floating-point conversion of a number
  that a message is formatted with, is the argument \<open>env\<close>; so is the time. The thread is the
  dispatch thread.
\<close>

section \<open>Error numbers\<close>

abbreviation STD_ERR_BASE :: int where "STD_ERR_BASE \<equiv> 0x20000"
abbreviation ERR_MESSAGE_MIN :: int where "ERR_MESSAGE_MIN \<equiv> 0x20064"
abbreviation ERR_MESSAGE_MAX :: int where "ERR_MESSAGE_MAX \<equiv> 0x200C7"
abbreviation MESSAGE_CNT :: nat where "MESSAGE_CNT \<equiv> 100"

definition err_table :: "(err \<times> string) list" where
  "err_table =
    [(ERR_OTHER, ''Unspecified failure''), (ERR_JSON_SYNTAX, ''JSON syntax error''),
     (ERR_PROTOCOL, ''Protocol format error''), (ERR_BUFFER_OVERFLOW, ''Buffer overflow''),
     (ERR_CHANNEL_CLOSED, ''Channel closed''), (ERR_COMMAND_CANCELLED, ''Command canceled''),
     (ERR_UNKNOWN_PEER, ''Unknown peer''), (ERR_BASE64, ''Invalid BASE64 string''),
     (ERR_EOF, ''End of file''), (ERR_ALREADY_STOPPED, ''Already stopped''),
     (ERR_ALREADY_EXITED, ''Already exited''), (ERR_ALREADY_RUNNING, ''Already running''),
     (ERR_ALREADY_ATTACHED, ''Already attached''), (ERR_IS_RUNNING, ''Execution context is running''),
     (ERR_INV_DATA_SIZE, ''Invalid data size''), (ERR_INV_CONTEXT, ''Invalid context''),
     (ERR_INV_ADDRESS, ''Invalid address''), (ERR_INV_EXPRESSION, ''Invalid expression''),
     (ERR_INV_FORMAT, ''Format is not supported''), (ERR_INV_NUMBER, ''Invalid number''),
     (ERR_INV_DWARF, ''Error reading DWARF data''), (ERR_SYM_NOT_FOUND, ''Symbol not found''),
     (ERR_UNSUPPORTED, ''Unsupported command''), (ERR_INV_DATA_TYPE, ''Invalid data type''),
     (ERR_INV_COMMAND, ''Command is not recognized''), (ERR_INV_TRANSPORT, ''Invalid transport name''),
     (ERR_CACHE_MISS, ''Invalid data cache state''), (ERR_NOT_ACTIVE, ''Context is not active''),
     (ERR_INV_CONT_OBJ, ''Invalid address of containing object'')]"

text \<open>The codes follow each other from \<open>STD_ERR_BASE + 1\<close> in the order of the table.\<close>

fun position :: "'a \<Rightarrow> 'a list \<Rightarrow> nat" where
  "position x [] = 0"
| "position x (y # ys) = (if x = y then 0 else Suc (position x ys))"

definition err_no :: "err \<Rightarrow> int" where
  "err_no e =
     (case e of SYS_ERRNO n \<Rightarrow> n | _ \<Rightarrow> STD_ERR_BASE + 1 + int (position e (map fst err_table)))"

definition is_message :: "int \<Rightarrow> bool" where
  "is_message no \<longleftrightarrow> no \<ge> ERR_MESSAGE_MIN \<and> no \<le> ERR_MESSAGE_MAX"

section \<open>State\<close>

record ErrorReport =
  er_code :: int
  er_format :: "cstring option"
  er_params :: "cstring list"
  er_param_max :: nat
  er_time_stamp :: u64
  er_props :: "(cstring \<times> cstring) list"

record ReportBuffer =
  rb_pub :: ErrorReport
  rb_posix_code :: int
  rb_refs :: int
  rb_gets :: int

datatype msg_source = SRC_NONE | SRC_GAI | SRC_MESSAGE | SRC_REPORT

record ErrorMessage =
  em_source :: msg_source
  em_error :: int
  em_text :: "cstring option"
  em_report :: "nat option"

record ErrorState =
  es_msgs :: "ErrorMessage list"
  es_msgs_pos :: nat
  es_reports :: "nat \<Rightarrow> ReportBuffer option"
  es_next :: nat
  es_errno :: int

record ErrorEnv =
  env_strerror :: "int \<Rightarrow> cstring option"
  env_gai_strerror :: "int \<Rightarrow> cstring"
  env_number_text :: "cstring \<Rightarrow> cstring \<Rightarrow> cstring option"
  env_time :: "(nat \<times> nat) option"
  env_msg_max :: nat

definition no_message :: ErrorMessage where
  "no_message = \<lparr>em_source = SRC_NONE, em_error = 0, em_text = None, em_report = None\<rparr>"

definition no_report :: ErrorReport where
  "no_report = \<lparr>er_code = 0, er_format = None, er_params = [], er_param_max = 0, er_time_stamp = 0, er_props = []\<rparr>"

definition ini_errors :: ErrorState where
  "ini_errors = \<lparr>es_msgs = replicate MESSAGE_CNT no_message, es_msgs_pos = 0, es_reports = (\<lambda>_. None),
     es_next = 0, es_errno = 0\<rparr>"

text \<open>Access to a report through a pointer.\<close>

definition get_rep :: "ErrorState \<Rightarrow> nat \<Rightarrow> ReportBuffer outcome" where
  "get_rep s r = (case es_reports s r of None \<Rightarrow> Inl Undefined_Behaviour | Some rep \<Rightarrow> Inr rep)"

definition put_rep :: "ErrorState \<Rightarrow> nat \<Rightarrow> ReportBuffer \<Rightarrow> ErrorState" where
  "put_rep s r rep = s\<lparr>es_reports := (es_reports s)(r := Some rep)\<rparr>"

definition new_rep :: "ErrorState \<Rightarrow> ReportBuffer \<Rightarrow> nat \<times> ErrorState" where
  "new_rep s rep = (es_next s, (put_rep s (es_next s) rep)\<lparr>es_next := es_next s + 1\<rparr>)"

definition msg_of :: "ErrorState \<Rightarrow> int \<Rightarrow> ErrorMessage" where
  "msg_of s no = es_msgs s ! nat (no - ERR_MESSAGE_MIN)"

section \<open>Reference counts and the ring of messages\<close>

definition release_report :: "ErrorState \<Rightarrow> nat option \<Rightarrow> ErrorState outcome" where
  "release_report s r =
     (case r of
        None \<Rightarrow> Inr s
      | Some r \<Rightarrow>
          rbind (get_rep s r) (\<lambda>rep.
          assert_that (rb_refs rep > rb_gets rep) (
            let rep = rep\<lparr>rb_refs := rb_refs rep - 1\<rparr> in
            if rb_refs rep = 0 then Inr (s\<lparr>es_reports := (es_reports s)(r := None)\<rparr>)
            else Inr (put_rep s r rep))))"

definition alloc_msg :: "ErrorState \<Rightarrow> msg_source \<Rightarrow> (nat \<times> ErrorState) outcome" where
  "alloc_msg s src =
     (let i = es_msgs_pos s;
          s1 = s\<lparr>es_errno := ERR_MESSAGE_MIN + int i,
                 es_msgs_pos := (if i + 1 \<ge> MESSAGE_CNT then 0 else i + 1)\<rparr> in
      rbind (release_report s1 (em_report (es_msgs s ! i))) (\<lambda>s2.
        Inr (i, s2\<lparr>es_msgs := (es_msgs s2)[i := \<lparr>em_source = src, em_error = 0, em_text = None, em_report = None\<rparr>]\<rparr>)))"

section \<open>Message texts\<close>

text \<open>The message buffer: the bytes in use and the size allocated.\<close>

type_synonym msg_buf = "byte list \<times> nat"

definition realloc_msg_buf :: "msg_buf \<Rightarrow> msg_buf" where
  "realloc_msg_buf = (\<lambda>(b, msg_max).
     if msg_max \<le> length b + 128 \<or> msg_max > length b + 2048 then (b, length b + 256) else (b, msg_max))"

definition msg_put :: "msg_buf \<Rightarrow> byte \<Rightarrow> msg_buf outcome" where
  "msg_put = (\<lambda>(b, msg_max) c.
     if length b < msg_max then Inr (b @ [c], msg_max) else Inl Undefined_Behaviour)"

fun msg_puts :: "msg_buf \<Rightarrow> byte list \<Rightarrow> msg_buf outcome" where
  "msg_puts mb [] = Inr mb"
| "msg_puts mb (c # cs) = rbind (msg_put (realloc_msg_buf mb) c) (\<lambda>mb. msg_puts mb cs)"

definition append_format_parameter ::
    "ErrorEnv \<Rightarrow> cstring \<Rightarrow> cstring \<Rightarrow> cstring \<Rightarrow> msg_buf \<Rightarrow> msg_buf outcome" where
  "append_format_parameter env ty style param mb =
     (let quoted = (param \<noteq> [] \<and> hd param = of_char CHR 0x22) in
      if quoted \<or> ty = cstr ''number'' then
        (if quoted then
           (case json_read_alloc_string (syms param) of
              Inr (Some x, _) \<Rightarrow> msg_puts mb (takeWhile (\<lambda>c. c \<noteq> 0) x)
            | Inr (None, _) \<Rightarrow> Inr mb
            | Inl (Exception _ _) \<Rightarrow> msg_puts mb param
            | Inl e \<Rightarrow> Inl e)
         else
           (case env_number_text env style param of
              Some str \<Rightarrow> msg_puts mb str
            | None \<Rightarrow> msg_puts mb param))
      else msg_puts mb param)"

definition byte_in :: "char \<Rightarrow> char \<Rightarrow> byte \<Rightarrow> bool" where
  "byte_in lo hi c \<longleftrightarrow> of_char lo \<le> c \<and> c \<le> of_char hi"

definition is_ch :: "char \<Rightarrow> byte \<Rightarrow> bool" where
  "is_ch x c \<longleftrightarrow> c = of_char x"

fun fmt_index :: "int \<Rightarrow> cstring \<Rightarrow> (int \<times> cstring) outcome" where
  "fmt_index i [] = Inr (i, [])"
| "fmt_index i (c # cs) =
     (if byte_in CHR ''0'' CHR ''9'' c then
        let i = i * 10 + (uint c - chr CHR ''0'') in
        if i < 2 ^ 31 then fmt_index i cs else Inl Undefined_Behaviour
      else Inr (i, c # cs))"

fun fmt_word :: "byte list \<Rightarrow> cstring \<Rightarrow> byte list \<times> cstring" where
  "fmt_word w [] = (w, [])"
| "fmt_word w (c # cs) =
     (if byte_in CHR ''a'' CHR ''z'' c then fmt_word (if length w < 15 then w @ [c] else w) cs
      else (w, c # cs))"

text \<open>The argument of an opening brace: index, type and style.\<close>

definition fmt_arg :: "cstring \<Rightarrow> (int \<times> cstring \<times> cstring \<times> cstring) outcome" where
  "fmt_arg fmt =
     rbind (fmt_index 0 fmt) (\<lambda>(index, fmt).
       let comma = (\<lambda>f. f \<noteq> [] \<and> is_ch CHR '','' (hd f));
           (ty, style, fmt) =
             (if comma fmt then
                (let (ty, fmt) = fmt_word [] (tl fmt);
                     (style, fmt) = (if comma fmt then fmt_word [] (tl fmt) else ([], fmt))
                 in (ty, style, fmt))
              else ([], [], fmt))
       in Inr (index, ty, style, fmt))"

definition fmt_close :: "cstring \<Rightarrow> cstring" where
  "fmt_close fmt = drop 1 (dropWhile (\<lambda>c. \<not> is_ch CHR ''}'' c) fmt)"

lemma fmt_index_length: "fmt_index i fmt = Inr (j, fmt') \<Longrightarrow> length fmt' \<le> length fmt"
  by (induction i fmt rule: fmt_index.induct) (auto simp: Let_def split: if_splits)

lemma fmt_word_length: "fmt_word w fmt = (v, fmt') \<Longrightarrow> length fmt' \<le> length fmt"
  by (induction w fmt rule: fmt_word.induct) (auto split: if_splits)

lemma fmt_arg_length: "fmt_arg fmt = Inr (j, ty, style, fmt') \<Longrightarrow> length fmt' \<le> length fmt"
  by (auto simp: fmt_arg_def outcome_simps Let_def split: if_splits prod.splits
      dest!: fmt_index_length fmt_word_length)

lemma fmt_close_length: "length (fmt_close fmt) \<le> length fmt"
  using length_dropWhile_le [of "\<lambda>c. \<not> is_ch CHR ''}'' c" fmt] by (simp add: fmt_close_def)

function format_loop :: "ErrorEnv \<Rightarrow> cstring list \<Rightarrow> bool \<Rightarrow> cstring \<Rightarrow> msg_buf \<Rightarrow> msg_buf outcome" where
  "format_loop env ps in_quotes [] mb = Inr mb"
| "format_loop env ps in_quotes (ch # fmt) mb =
     (let mb = realloc_msg_buf mb; q = is_ch CHR 0x27 in
      if in_quotes \<and> q ch then format_loop env ps False fmt mb
      else if in_quotes then rbind (msg_put mb ch) (\<lambda>mb. format_loop env ps True fmt mb)
      else if q ch \<and> fmt \<noteq> [] \<and> q (hd fmt)
      then rbind (msg_put mb ch) (\<lambda>mb. format_loop env ps False (tl fmt) mb)
      else if q ch then format_loop env ps True fmt mb
      else if is_ch CHR ''{'' ch then
        rbind (fmt_arg fmt) (\<lambda>(index, ty, style, fmt).
        rbind (if index < int (length ps) then append_format_parameter env ty style (ps ! nat index) mb
               else Inr mb)
          (\<lambda>mb. format_loop env ps False (fmt_close fmt) mb))
      else rbind (msg_put mb ch) (\<lambda>mb. format_loop env ps False fmt mb))"
  by pat_completeness auto
termination
proof (relation "measure (\<lambda>(env, ps, q, fmt, mb). length fmt)", goal_cases)
  case (6 env ps in_quotes ch fmt mb mb' q p index r ty r' style fmt' mb'')
  then have "length fmt' \<le> length fmt" by (auto dest!: fmt_arg_length)
  with fmt_close_length [of fmt'] show ?case by simp
qed auto

definition format_error_report_message ::
    "ErrorEnv \<Rightarrow> nat \<Rightarrow> cstring \<Rightarrow> cstring list \<Rightarrow> cstring outcome" where
  "format_error_report_message env msg_max fmt ps =
     rbind (format_loop env ps False fmt ([], msg_max)) (\<lambda>mb.
     rbind (msg_put (realloc_msg_buf mb) 0) (\<lambda>(b, _).
       Inr (takeWhile (\<lambda>c. c \<noteq> 0) b)))"

text \<open>The conversion \<^verbatim>\<open>%08x\<close> of an \<^verbatim>\<open>int\<close>.\<close>

definition fmt_08x :: "int \<Rightarrow> cstring" where
  "fmt_08x n =
     (let u = n mod 2 ^ 32;
          d = (\<lambda>k. let v = u div 16 ^ k mod 16 in
                   byte_of (if v < 10 then chr CHR ''0'' + v else chr CHR ''a'' + (v - 10)))
      in map d [7, 6, 5, 4, 3, 2, 1, 0])"

definition posix_strerror :: "ErrorEnv \<Rightarrow> int \<Rightarrow> cstring" where
  "posix_strerror env err =
     (case env_strerror env err of
        None \<Rightarrow> cstr ''Error 0x'' @ fmt_08x err
      | Some msg \<Rightarrow> if msg = [] then cstr ''Error 0x'' @ fmt_08x err else msg)"

text \<open>The result \<open>None\<close> is the null pointer. The recursion follows a chain of messages; a chain
  that does not come back to itself is no longer than the ring.\<close>

fun errno_to_str :: "nat \<Rightarrow> ErrorEnv \<Rightarrow> ErrorState \<Rightarrow> int \<Rightarrow> cstring option outcome" where
  "errno_to_str 0 env s err = Inl Out_Of_Fuel"
| "errno_to_str (Suc fuel) env s err =
     (case find (\<lambda>(e, _). err_no e = err) err_table of
        Some (_, str) \<Rightarrow> Inr (Some (cstr str))
      | None \<Rightarrow>
          if err = 0 then Inr (Some (cstr ''Success''))
          else if is_message err then
            let m = msg_of s err in
            rbind (case em_report m of
                     None \<Rightarrow> Inr None
                   | Some r \<Rightarrow> rbind (get_rep s r) (\<lambda>rep.
                       Inr (map_option (\<lambda>fmt. (fmt, er_params (rb_pub rep))) (er_format (rb_pub rep))))) (\<lambda>rep.
            case rep of
              Some (fmt, ps) \<Rightarrow>
                rbind (format_error_report_message env (env_msg_max env) fmt ps) (\<lambda>str. Inr (Some str))
            | None \<Rightarrow>
                (case em_source m of
                   SRC_GAI \<Rightarrow> Inr (Some (env_gai_strerror env (em_error m)))
                 | SRC_MESSAGE \<Rightarrow> Inr (em_text m)
                 | SRC_REPORT \<Rightarrow> errno_to_str fuel env s (em_error m)
                 | SRC_NONE \<Rightarrow> Inr (Some (posix_strerror env err))))
          else Inr (Some (posix_strerror env err)))"

fun get_error_code :: "nat \<Rightarrow> ErrorState \<Rightarrow> int \<Rightarrow> int outcome" where
  "get_error_code 0 s no = Inl Out_Of_Fuel"
| "get_error_code (Suc fuel) s no =
     (if is_message no then
        let m = msg_of s no in
        if em_source m = SRC_REPORT \<or> em_source m = SRC_MESSAGE then
          rbind (case em_report m of
                   None \<Rightarrow> Inr 0
                 | Some r \<Rightarrow> rbind (get_rep s r) (\<lambda>rep. Inr (rb_posix_code rep))) (\<lambda>pc.
          if pc \<noteq> 0 then Inr pc else get_error_code fuel s (em_error m))
        else Inr (err_no ERR_OTHER)
      else Inr no)"

abbreviation chain_fuel :: nat where "chain_fuel \<equiv> 101"

section \<open>Setting errors\<close>

definition upd_msg :: "ErrorState \<Rightarrow> nat \<Rightarrow> (ErrorMessage \<Rightarrow> ErrorMessage) \<Rightarrow> ErrorState" where
  "upd_msg s i f = s\<lparr>es_msgs := (es_msgs s)[i := f (es_msgs s ! i)]\<rparr>"

definition set_errno :: "ErrorEnv \<Rightarrow> ErrorState \<Rightarrow> int \<Rightarrow> cstring option \<Rightarrow> (int \<times> ErrorState) outcome" where
  "set_errno env s no msg =
     (let s = s\<lparr>es_errno := no\<rparr> in
      case msg of
        None \<Rightarrow> Inr (no, s)
      | Some msg \<Rightarrow>
          if no = 0 then Inr (no, s)
          else
            rbind (alloc_msg s SRC_MESSAGE) (\<lambda>(i, s).
            let err = es_errno s in
            rbind (get_error_code chain_fuel s no) (\<lambda>c.
            let s = upd_msg s i (em_error_update (\<lambda>_. c)) in
            rbind (if no = err_no ERR_OTHER then Inr (Some msg)
                   else rbind (errno_to_str chain_fuel env s no) (\<lambda>text1.
                     case text1 of
                       None \<Rightarrow> Inl Undefined_Behaviour
                     | Some text1 \<Rightarrow> Inr (Some (msg @ cstr ''. '' @ text1)))) (\<lambda>txt.
            Inr (err, (upd_msg s i (em_text_update (\<lambda>_. txt)))\<lparr>es_errno := err\<rparr>)))))"

text \<open>
  The loop that formats into a growing buffer. \<open>res\<close> is what the format expands to, or
  \<open>None\<close> when \<^verbatim>\<open>vsnprintf\<close> reports an error. The length starts at 100 and doubles on
  errors until it is over \<^verbatim>\<open>0x1000\<close>.
\<close>

fun fmt_loop :: "nat \<Rightarrow> cstring option \<Rightarrow> nat \<Rightarrow> (int \<times> cstring) outcome" where
  "fmt_loop 0 res len = Inl Out_Of_Fuel"
| "fmt_loop (Suc fuel) res len =
     (case res of
        None \<Rightarrow> if len > 0x1000 then Inr (-1, []) else fmt_loop fuel res (len * 2)
      | Some t \<Rightarrow> if length t < len then Inr (int (length t), t) else fmt_loop fuel res (length t + 1))"

definition set_fmt_errno :: "ErrorEnv \<Rightarrow> ErrorState \<Rightarrow> int \<Rightarrow> cstring option \<Rightarrow> (int \<times> ErrorState) outcome" where
  "set_fmt_errno env s no res =
     rbind (fmt_loop 7 res 100) (\<lambda>(n, buf).
     rbind (if n \<le> 0 then Inr (no, s) else set_errno env s no (Some buf)) (\<lambda>(err, s).
       Inr (err, s\<lparr>es_errno := err\<rparr>)))"

definition set_gai_errno :: "ErrorState \<Rightarrow> int \<Rightarrow> (int \<times> ErrorState) outcome" where
  "set_gai_errno s no =
     (let s = s\<lparr>es_errno := no\<rparr> in
      if no \<noteq> 0 then
        rbind (alloc_msg s SRC_GAI) (\<lambda>(i, s).
          let s = upd_msg s i (em_error_update (\<lambda>_. no)) in Inr (es_errno s, s))
      else Inr (no, s))"

definition set_error_report_errno :: "ErrorState \<Rightarrow> nat option \<Rightarrow> (int \<times> ErrorState) outcome" where
  "set_error_report_errno s r =
     (let s = s\<lparr>es_errno := 0\<rparr> in
      case r of
        None \<Rightarrow> Inr (0, s)
      | Some r \<Rightarrow>
          rbind (alloc_msg s SRC_REPORT) (\<lambda>(i, s).
          rbind (get_rep s r) (\<lambda>rep.
            if er_code (rb_pub rep) + STD_ERR_BASE \<ge> 2 ^ 31 then Inl Undefined_Behaviour
            else
              let s = upd_msg s i (\<lambda>m. m\<lparr>em_error := er_code (rb_pub rep) + STD_ERR_BASE,
                                        em_report := Some r\<rparr>);
                  s = put_rep s r (rep\<lparr>rb_refs := rb_refs rep + 1\<rparr>)
              in Inr (es_errno s, s))))"

section \<open>Reports\<close>

definition add_report_prop :: "ErrorReport \<Rightarrow> string \<Rightarrow> int list \<Rightarrow> ErrorReport" where
  "add_report_prop rep nm txt = rep\<lparr>er_props := (cstr nm, map byte_of txt) # er_props rep\<rparr>"

definition add_report_prop_int :: "ErrorReport \<Rightarrow> string \<Rightarrow> u64 \<Rightarrow> ErrorReport" where
  "add_report_prop_int rep nm n = add_report_prop rep nm (text_of (\<lambda>out. json_write_ulong out n))"

definition add_report_prop_str :: "ErrorReport \<Rightarrow> string \<Rightarrow> string \<Rightarrow> ErrorReport" where
  "add_report_prop_str rep nm str =
     add_report_prop rep nm (text_of (\<lambda>out. json_write_string out (Some (cstr str))))"

text \<open>The report that is made for an error that has none yet.\<close>

definition make_report :: "ErrorEnv \<Rightarrow> ErrorMessage option \<Rightarrow> int \<Rightarrow> cstring \<Rightarrow> ReportBuffer outcome" where
  "make_report env m err str =
     (let t = (case env_time env of
                 None \<Rightarrow> 0
               | Some (sec, nsec) \<Rightarrow> word_of_nat sec * 1000 + word_of_nat (nsec div 1000000));
          rep = no_report\<lparr>er_time_stamp := t, er_format := Some str\<rparr>;
          e = (case m of
                 None \<Rightarrow> err
               | Some m \<Rightarrow> if em_source m = SRC_MESSAGE then em_error m else err_no ERR_OTHER);
          posix = (e < STD_ERR_BASE \<or> e > ERR_MESSAGE_MAX);
          rep = (if posix
                 then add_report_prop_str (add_report_prop_int rep ''AltCode'' (word_of_int e))
                        ''AltOrg'' ''Linux''
                 else rep);
          pc = (if posix then e else 0);
          e = (if posix then err_no ERR_OTHER else e)
      in assert_that (e \<ge> STD_ERR_BASE \<and> e < ERR_MESSAGE_MIN) (
           Inr \<lparr>rb_pub = rep\<lparr>er_code := e - STD_ERR_BASE\<rparr>, rb_posix_code = pc,
                rb_refs = (if m = None then 1 else 2), rb_gets = 1\<rparr>))"

definition get_error_report :: "ErrorEnv \<Rightarrow> ErrorState \<Rightarrow> int \<Rightarrow> (nat option \<times> ErrorState) outcome" where
  "get_error_report env s err =
     (let m = (if is_message err then Some (msg_of s err) else None) in
      case (case m of None \<Rightarrow> None | Some m \<Rightarrow> em_report m) of
        Some r \<Rightarrow>
          rbind (get_rep s r) (\<lambda>rep.
            Inr (Some r, put_rep s r (rep\<lparr>rb_refs := rb_refs rep + 1, rb_gets := rb_gets rep + 1\<rparr>)))
      | None \<Rightarrow>
          if err = 0 then Inr (None, s)
          else
            rbind (errno_to_str chain_fuel env s err) (\<lambda>str.
            case str of
              None \<Rightarrow> Inl Undefined_Behaviour
            | Some str \<Rightarrow>
                rbind (make_report env m err str) (\<lambda>rb.
                let (r, s) = new_rep s rb in
                Inr (Some r, if m = None then s
                             else upd_msg s (nat (err - ERR_MESSAGE_MIN)) (em_report_update (\<lambda>_. Some r))))))"

definition create_error_report :: "ErrorState \<Rightarrow> nat \<times> ErrorState" where
  "create_error_report s =
     new_rep s \<lparr>rb_pub = no_report, rb_posix_code = 0, rb_refs = 1, rb_gets = 1\<rparr>"

definition release_error_report :: "ErrorState \<Rightarrow> nat option \<Rightarrow> ErrorState outcome" where
  "release_error_report s r =
     (case r of
        None \<Rightarrow> Inr s
      | Some r \<Rightarrow>
          rbind (get_rep s r) (\<lambda>rep.
          assert_that (rb_gets rep > 0) (
            release_report (put_rep s r (rep\<lparr>rb_gets := rb_gets rep - 1\<rparr>)) (Some r))))"

text \<open>The loop that compares properties, on the lists that its two pointers run through.\<close>

fun same_props :: "(cstring \<times> cstring) list \<Rightarrow> (cstring \<times> cstring) list \<Rightarrow> bool" where
  "same_props [] [] = True"
| "same_props (x # xs) (y # ys) = (fst x = fst y \<and> snd x = snd y \<and> same_props xs ys)"
| "same_props xs ys = False"

definition same_report :: "ErrorReport \<Rightarrow> ErrorReport \<Rightarrow> bool" where
  "same_report x y \<longleftrightarrow> er_code x = er_code y \<and> er_format x = er_format y \<and>
     length (er_params x) = length (er_params y) \<and> list_all2 (=) (er_params x) (er_params y) \<and>
     same_props (er_props x) (er_props x)"

definition compare_error_reports :: "ErrorState \<Rightarrow> nat option \<Rightarrow> nat option \<Rightarrow> bool outcome" where
  "compare_error_reports s x y =
     (if x = y then Inr True
      else case (x, y) of
        (Some x, Some y) \<Rightarrow>
          rbind (get_rep s x) (\<lambda>rx. rbind (get_rep s y) (\<lambda>ry. Inr (same_report (rb_pub rx) (rb_pub ry))))
      | _ \<Rightarrow> Inr False)"

section \<open>The invariant of the reference counts\<close>

fun slots :: "ErrorMessage list \<Rightarrow> nat \<Rightarrow> int" where
  "slots [] r = 0"
| "slots (m # ms) r = (if em_report m = Some r then 1 else 0) + slots ms r"

lemma slots_update:
  "i < length ms \<Longrightarrow> slots (ms[i := m]) r =
     slots ms r - (if em_report (ms ! i) = Some r then 1 else 0) + (if em_report m = Some r then 1 else 0)"
  by (induction ms arbitrary: i) (auto split: nat.splits)

lemma slots_nonneg: "0 \<le> slots ms r"
  by (induction ms) auto

lemma slots_pos: "i < length ms \<Longrightarrow> em_report (ms ! i) = Some r \<Longrightarrow> 0 < slots ms r"
proof (induction ms arbitrary: i)
  case (Cons m ms)
  show ?case
  proof (cases i)
    case 0
    with Cons.prems slots_nonneg [of ms r] show ?thesis by simp
  next
    case (Suc j)
    with Cons show ?thesis by (auto simp: add_pos_pos)
  qed
qed simp

lemma slots_replicate_none: "slots (replicate n no_message) r = 0"
  by (induction n) (auto simp: no_message_def)

definition rep_ok :: "int \<Rightarrow> ReportBuffer option \<Rightarrow> bool" where
  "rep_ok n rep = (case rep of
      None \<Rightarrow> n = 0
    | Some rep \<Rightarrow> 0 \<le> rb_gets rep \<and> rb_refs rep = rb_gets rep + n \<and> 0 < rb_refs rep \<and>
        \<not> is_message (rb_posix_code rep))"

definition err_inv :: "ErrorState \<Rightarrow> bool" where
  "err_inv s \<longleftrightarrow> length (es_msgs s) = MESSAGE_CNT \<and> es_msgs_pos s < MESSAGE_CNT \<and>
     (\<forall>r \<ge> es_next s. es_reports s r = None) \<and>
     (\<forall>r. rep_ok (slots (es_msgs s) r) (es_reports s r)) \<and>
     (\<forall>m \<in> set (es_msgs s). em_source m = SRC_MESSAGE \<longrightarrow> \<not> is_message (em_error m))"

lemma err_invD:
  assumes "err_inv s"
  shows "length (es_msgs s) = MESSAGE_CNT" "es_msgs_pos s < MESSAGE_CNT"
    "r \<ge> es_next s \<Longrightarrow> es_reports s r = None" "rep_ok (slots (es_msgs s) r) (es_reports s r)"
    "m \<in> set (es_msgs s) \<Longrightarrow> em_source m = SRC_MESSAGE \<Longrightarrow> \<not> is_message (em_error m)"
  using assms by (auto simp: err_inv_def)

lemma err_inv_slot:
  assumes "err_inv s" "i < MESSAGE_CNT" "em_report (es_msgs s ! i) = Some r"
  obtains rep where "es_reports s r = Some rep"
proof -
  have "0 < slots (es_msgs s) r" using assms err_invD(1) slots_pos by metis
  with err_invD(4) [OF assms(1), of r] that show thesis
    by (auto simp: rep_ok_def split: option.splits)
qed

lemma err_inv_ini: "err_inv ini_errors"
proof -
  have "em_source no_message = SRC_NONE" by (simp add: no_message_def)
  then show ?thesis by (auto simp: err_inv_def ini_errors_def slots_replicate_none rep_ok_def)
qed

text \<open>Changing one slot of the ring and one report.\<close>

lemma err_inv_change:
  assumes inv: "err_inv s" and i: "i < MESSAGE_CNT"
    and m: "em_source m = SRC_MESSAGE \<longrightarrow> \<not> is_message (em_error m)"
    and s': "es_msgs s' = (es_msgs s)[i := m]" "es_msgs_pos s' < MESSAGE_CNT" "es_next s \<le> es_next s'"
    and r: "\<And>r. r \<ge> es_next s' \<Longrightarrow> es_reports s' r = None"
      "\<And>r. rep_ok (slots (es_msgs s') r) (es_reports s' r)"
  shows "err_inv s'"
  using assms err_invD(1,5) [OF inv] set_update_subset_insert [of "es_msgs s" i m]
  by (auto simp: err_inv_def)

lemma rep_ok_less: "rep_ok n rep \<Longrightarrow> rep = Some x \<Longrightarrow> 0 < n \<Longrightarrow> rb_gets x < rb_refs x"
  by (auto simp: rep_ok_def)

definition kept :: "ErrorState \<Rightarrow> ErrorState \<Rightarrow> nat \<Rightarrow> bool" where
  "kept s s' r \<longleftrightarrow> (\<forall>rep. es_reports s r = Some rep \<longrightarrow> (\<exists>rep'. es_reports s' r = Some rep' \<and>
     rb_pub rep' = rb_pub rep \<and> rb_posix_code rep' = rb_posix_code rep \<and> rb_gets rep' = rb_gets rep))"

lemma alloc_msg_inv:
  assumes inv: "err_inv s"
  obtains s' where "alloc_msg s src = Inr (es_msgs_pos s, s')" "err_inv s'"
    "es_errno s' = ERR_MESSAGE_MIN + int (es_msgs_pos s)"
    "es_msgs s' = (es_msgs s)[es_msgs_pos s := \<lparr>em_source = src, em_error = 0, em_text = None, em_report = None\<rparr>]"
    "es_next s' = es_next s"
    "\<And>r rep. es_reports s r = Some rep \<Longrightarrow> rb_gets rep > 0 \<Longrightarrow> kept s s' r"
    "\<And>r j. j < MESSAGE_CNT \<Longrightarrow> j \<noteq> es_msgs_pos s \<Longrightarrow> em_report (es_msgs s ! j) = Some r \<Longrightarrow> kept s s' r"
proof -
  define i where "i = es_msgs_pos s"
  define m where "m = \<lparr>em_source = src, em_error = 0, em_text = None, em_report = None\<rparr>"
  define p where "p = (if i + 1 \<ge> MESSAGE_CNT then 0 else i + 1)"
  define s1 where "s1 = s\<lparr>es_errno := ERR_MESSAGE_MIN + int i, es_msgs_pos := p\<rparr>"
  have i: "i < length (es_msgs s)" "i < MESSAGE_CNT" "p < MESSAGE_CNT"
    using err_invD(1,2) [OF inv] by (auto simp: i_def p_def)
  have m: "em_source m = SRC_MESSAGE \<longrightarrow> \<not> is_message (em_error m)" "em_report m = None"
    by (auto simp: m_def is_message_def)
  have al: "alloc_msg s src = rbind (release_report s1 (em_report (es_msgs s ! i)))
      (\<lambda>s2. Inr (i, s2\<lparr>es_msgs := (es_msgs s2)[i := m]\<rparr>))"
    by (simp add: alloc_msg_def i_def s1_def m_def p_def Let_def)
  define sl where "sl = (\<lambda>r. slots ((es_msgs s)[i := m]) r)"
  have sl: "sl r = slots (es_msgs s) r - (if em_report (es_msgs s ! i) = Some r then 1 else 0)" for r
    using slots_update [OF i(1)] m(2) by (simp add: sl_def)
  show thesis
  proof (cases "em_report (es_msgs s ! i)")
    case None
    let ?s' = "s1\<lparr>es_msgs := (es_msgs s)[i := m]\<rparr>"
    have "err_inv ?s'"
      using inv sl None m i by (intro err_inv_change [OF inv i(2), of m])
        (auto simp: s1_def err_invD sl_def [symmetric])
    moreover have "kept s ?s' r" for r by (simp add: kept_def s1_def)
    ultimately show thesis
      using that [of ?s'] al None by (simp add: release_report_def s1_def i_def m_def)
  next
    case (Some r)
    obtain rep where rep: "es_reports s r = Some rep" using err_inv_slot [OF inv i(2) Some] by blast
    have pos: "0 < slots (es_msgs s) r" using slots_pos i(1) Some by blast
    note ok = err_invD(4) [OF inv, of r]
    have lt: "rb_gets rep < rb_refs rep" using rep_ok_less [OF ok rep pos] .
    define rep' where "rep' = (if rb_refs rep = 1 then None else Some (rep\<lparr>rb_refs := rb_refs rep - 1\<rparr>))"
    let ?s' = "s1\<lparr>es_reports := (es_reports s)(r := rep'), es_msgs := (es_msgs s)[i := m]\<rparr>"
    have "alloc_msg s src = Inr (i, ?s')"
      using al Some rep lt
      by (simp add: release_report_def get_rep_def put_rep_def s1_def rep'_def Let_def)
    moreover have r': "rep_ok (sl r) rep'"
      using ok rep pos Some sl [of r] by (auto simp: rep_ok_def rep'_def)
    then have ok': "rep_ok (sl q) (((es_reports s)(r := rep')) q)" for q
      using err_invD(4) [OF inv, of q] sl [of q] Some by auto
    have "err_inv ?s'"
      using err_invD(3) [OF inv] rep ok' m i
      by (intro err_inv_change [OF inv i(2), of m]) (auto simp: s1_def sl_def [symmetric])
    moreover have "kept s ?s' q" if "es_reports s q = Some x" "rb_gets x > 0" for q x
      using that rep ok pos by (auto simp: kept_def rep'_def rep_ok_def)
    moreover have "kept s ?s' q" if "j < MESSAGE_CNT" "j \<noteq> i" "em_report (es_msgs s ! j) = Some q" for q j
    proof (cases "q = r")
      case True
      have "0 < sl r"
        unfolding sl_def using that True i err_invD(1) [OF inv] by (intro slots_pos [of j]) auto
      then show ?thesis using True r' rep by (auto simp: kept_def rep'_def rep_ok_def)
    qed (simp add: kept_def)
    ultimately show thesis
      using that [of ?s'] by (simp add: s1_def i_def m_def)
  qed
qed

lemma err_inv_upd_msg:
  assumes inv: "err_inv s" and i: "i < MESSAGE_CNT"
    and f: "em_source (f (es_msgs s ! i)) = SRC_MESSAGE \<longrightarrow> \<not> is_message (em_error (f (es_msgs s ! i)))"
    and rep: "em_report (f (es_msgs s ! i)) = em_report (es_msgs s ! i)"
  shows "err_inv (upd_msg s i f)"
proof -
  have "i < length (es_msgs s)" using i err_invD(1) [OF inv] by simp
  from slots_update [OF this] rep have "slots ((es_msgs s)[i := f (es_msgs s ! i)]) r = slots (es_msgs s) r" for r
    by simp
  then show ?thesis
    using err_invD [OF inv] f i
    by (intro err_inv_change [OF inv i f]) (auto simp: upd_msg_def)
qed

lemma err_inv_errno [simp]: "err_inv (s\<lparr>es_errno := e\<rparr>) = err_inv s"
  by (simp add: err_inv_def)

text \<open>A report changes, and with it at most the number of slots that point to it.\<close>

lemma err_inv_put_rep:
  assumes inv: "err_inv s" and r: "r < es_next s" and ok: "rep_ok (slots (es_msgs s) r) (Some rep)"
  shows "err_inv (put_rep s r rep)"
  using err_invD [OF inv] r ok by (auto simp: err_inv_def put_rep_def)

lemma err_inv_held: "err_inv s \<Longrightarrow> es_reports s r = Some rep \<Longrightarrow> r < es_next s"
  by (metis err_invD(3) not_le option.distinct(1))

lemma err_inv_attach:
  assumes inv: "err_inv s" and i: "i < MESSAGE_CNT" "em_report (es_msgs s ! i) = None"
    and m: "em_source m = SRC_MESSAGE \<longrightarrow> \<not> is_message (em_error m)" "em_report m = Some r"
    and r: "rep_ok (slots (es_msgs s) r + 1) (Some rep)" "r < n" "es_next s \<le> n"
  shows "err_inv (s\<lparr>es_msgs := (es_msgs s)[i := m], es_reports := (es_reports s)(r := Some rep), es_next := n\<rparr>)"
proof -
  have "i < length (es_msgs s)" using i err_invD(1) [OF inv] by simp
  from slots_update [OF this, of m] m(2) i(2) have
    sl: "slots ((es_msgs s)[i := m]) q = slots (es_msgs s) q + (if q = r then 1 else 0)" for q by simp
  show ?thesis
    using err_invD [OF inv] r sl by (intro err_inv_change [OF inv i(1) m(1)]) auto
qed

lemma new_rep_inv:
  assumes inv: "err_inv s" and rep: "rb_gets rep = 1" "rb_refs rep = 1" "\<not> is_message (rb_posix_code rep)"
    and new: "new_rep s rep = (r, s')"
  shows "err_inv s'" "es_reports s' r = Some rep"
proof -
  have "slots (es_msgs s) (es_next s) = 0"
    using err_invD(3) [OF inv, of "es_next s"] err_invD(4) [OF inv, of "es_next s"] by (simp add: rep_ok_def)
  with rep have "rep_ok (slots (es_msgs s) (es_next s)) (Some rep)" by (simp add: rep_ok_def)
  then show "err_inv s'" "es_reports s' r = Some rep"
    using new err_invD [OF inv] by (auto simp: err_inv_def new_rep_def put_rep_def)
qed

lemma get_error_code_not_message:
  "err_inv s \<Longrightarrow> get_error_code fuel s no = Inr c \<Longrightarrow> \<not> is_message c"
proof (induction fuel s no rule: get_error_code.induct)
  case (2 fuel s no)
  show ?case
  proof (cases "is_message no \<and> (em_source (msg_of s no) = SRC_REPORT \<or> em_source (msg_of s no) = SRC_MESSAGE)")
    case False
    with "2.prems" show ?thesis
      by (auto simp: Let_def err_no_def err_table_def is_message_def split: if_splits)
  next
    case True
    let ?pc = "case em_report (msg_of s no) of None \<Rightarrow> Inr 0
        | Some r \<Rightarrow> rbind (get_rep s r) (\<lambda>rep. Inr (rb_posix_code rep))"
    from True "2.prems" obtain pc where pc: "?pc = Inr pc"
      "pc \<noteq> 0 \<and> c = pc \<or> pc = 0 \<and> get_error_code fuel s (em_error (msg_of s no)) = Inr c"
      by (auto simp: Let_def outcome_simps split: if_splits)
    have "\<not> is_message pc" if "pc \<noteq> 0"
    proof -
      from pc(1) that obtain r rep where "es_reports s r = Some rep" "rb_posix_code rep = pc"
        by (auto simp: outcome_simps get_rep_def split: option.splits)
      with err_invD(4) [OF "2.prems"(1), of r] show ?thesis by (simp add: rep_ok_def)
    qed
    with pc(2) "2.IH" [OF _ refl _ pc(1)] "2.prems"(1) True show ?thesis by auto
  qed
qed simp

lemma set_errno_inv: "err_inv s \<Longrightarrow> set_errno env s no msg = Inr (e, s') \<Longrightarrow> err_inv s'"
proof -
  assume inv: "err_inv s" and se: "set_errno env s no msg = Inr (e, s')"
  show ?thesis
  proof (cases "msg = None \<or> no = 0")
    case True
    with inv se show ?thesis by (cases msg) (auto simp: set_errno_def Let_def)
  next
    case False
    then obtain t0 where msg: "msg = Some t0" "no \<noteq> 0" by auto
    have "err_inv (s\<lparr>es_errno := no\<rparr>)" using inv by simp
    then obtain s1 where s1: "alloc_msg (s\<lparr>es_errno := no\<rparr>) SRC_MESSAGE = Inr (es_msgs_pos s, s1)" "err_inv s1"
      by (rule alloc_msg_inv [where src = SRC_MESSAGE]) simp
    let ?i = "es_msgs_pos s"
    from se s1 msg obtain c t where c: "get_error_code chain_fuel s1 no = Inr c"
      and s': "s' = (upd_msg (upd_msg s1 ?i (em_error_update (\<lambda>_. c))) ?i (em_text_update (\<lambda>_. t)))\<lparr>es_errno := e\<rparr>"
      by (auto simp: set_errno_def Let_def outcome_simps split: if_splits option.splits)
    have nm: "\<not> is_message c" by (rule get_error_code_not_message [OF s1(2) c])
    have i: "?i < MESSAGE_CNT" "?i < length (es_msgs s1)" using err_invD(2) [OF inv] err_invD(1) [OF s1(2)] by auto
    have "err_inv (upd_msg s1 ?i (em_error_update (\<lambda>_. c)))"
      using nm by (intro err_inv_upd_msg [OF s1(2) i(1)]) auto
    from err_inv_upd_msg [OF this i(1), of "em_text_update (\<lambda>_. t)"] nm i show ?thesis
      by (simp add: s' upd_msg_def)
  qed
qed

lemma set_gai_errno_inv: "err_inv s \<Longrightarrow> set_gai_errno s no = Inr (e, s') \<Longrightarrow> err_inv s'"
proof -
  assume inv: "err_inv s" and se: "set_gai_errno s no = Inr (e, s')"
  have "err_inv (s\<lparr>es_errno := no\<rparr>)" using inv by simp
  then obtain s1 where s1: "alloc_msg (s\<lparr>es_errno := no\<rparr>) SRC_GAI = Inr (es_msgs_pos s, s1)" "err_inv s1"
    "es_msgs s1 = (es_msgs s)[es_msgs_pos s := \<lparr>em_source = SRC_GAI, em_error = 0, em_text = None, em_report = None\<rparr>]"
    by (rule alloc_msg_inv [where src = SRC_GAI]) simp
  have "err_inv (upd_msg s1 (es_msgs_pos s) (em_error_update (\<lambda>_. no)))"
    using s1(3) err_invD(1,2) [OF inv] by (intro err_inv_upd_msg [OF s1(2)]) auto
  with se s1(1) inv show ?thesis
    by (auto simp: set_gai_errno_def Let_def split: if_splits)
qed

lemma set_error_report_errno_inv:
  assumes inv: "err_inv s" and held: "es_reports s r = Some rep" "rb_gets rep > 0"
    and code: "er_code (rb_pub rep) + STD_ERR_BASE < 2 ^ 31"
  obtains s' where "set_error_report_errno s (Some r) = Inr (ERR_MESSAGE_MIN + int (es_msgs_pos s), s')"
    "err_inv s'" "em_report (es_msgs s' ! es_msgs_pos s) = Some r"
    "\<exists>rep'. es_reports s' r = Some rep' \<and> rb_pub rep' = rb_pub rep \<and> rb_gets rep' = rb_gets rep"
proof -
  let ?s0 = "s\<lparr>es_errno := 0\<rparr>" and ?i = "es_msgs_pos s"
  have "err_inv ?s0" using inv by simp
  then obtain s1 where s1: "alloc_msg ?s0 SRC_REPORT = Inr (?i, s1)" "err_inv s1"
    "es_errno s1 = ERR_MESSAGE_MIN + int ?i"
    "es_msgs s1 = (es_msgs s)[?i := \<lparr>em_source = SRC_REPORT, em_error = 0, em_text = None, em_report = None\<rparr>]"
    "kept ?s0 s1 r"
    by (rule alloc_msg_inv [where src = SRC_REPORT]) (use held in auto)
  from s1(5) held obtain rep1 where rep1: "es_reports s1 r = Some rep1" "rb_pub rep1 = rb_pub rep"
    "rb_gets rep1 = rb_gets rep" by (auto simp: kept_def)
  define m where "m = \<lparr>em_source = SRC_REPORT, em_error = er_code (rb_pub rep) + STD_ERR_BASE,
    em_text = None, em_report = Some r\<rparr>"
  define s' where "s' = s1\<lparr>es_msgs := (es_msgs s1)[?i := m],
    es_reports := (es_reports s1)(r := Some (rep1\<lparr>rb_refs := rb_refs rep1 + 1\<rparr>)), es_next := es_next s1\<rparr>"
  have i: "?i < MESSAGE_CNT" "em_report (es_msgs s1 ! ?i) = None"
    using err_invD(1,2) [OF inv] s1(4) by auto
  have "rep_ok (slots (es_msgs s1) r + 1) (Some (rep1\<lparr>rb_refs := rb_refs rep1 + 1\<rparr>))"
    using err_invD(4) [OF s1(2), of r] rep1 by (simp add: rep_ok_def)
  then have "err_inv s'"
    unfolding s'_def using err_inv_held [OF s1(2) rep1(1)] by (intro err_inv_attach [OF s1(2) i]) (auto simp: m_def)
  moreover have "set_error_report_errno s (Some r) = Inr (ERR_MESSAGE_MIN + int ?i, s')"
    using s1 rep1 code err_invD(1,2) [OF inv]
    by (simp add: set_error_report_errno_def get_rep_def put_rep_def upd_msg_def s'_def m_def)
  moreover have "em_report (es_msgs s' ! ?i) = Some r"
    using err_invD(1,2) [OF inv] s1(4) by (simp add: s'_def m_def)
  moreover have "\<exists>rep'. es_reports s' r = Some rep' \<and> rb_pub rep' = rb_pub rep \<and> rb_gets rep' = rb_gets rep"
    using rep1 by (simp add: s'_def)
  ultimately show thesis using that by blast
qed

lemma release_error_report_inv:
  assumes inv: "err_inv s" and held: "es_reports s r = Some rep" "rb_gets rep > 0"
  obtains s' where "release_error_report s (Some r) = Inr s'" "err_inv s'" "es_msgs s' = es_msgs s"
    "\<And>q rep'. es_reports s' q = Some rep' \<Longrightarrow> \<exists>rep. es_reports s q = Some rep \<and> rb_pub rep' = rb_pub rep"
proof -
  let ?rep1 = "rep\<lparr>rb_gets := rb_gets rep - 1\<rparr>"
  note ok = err_invD(4) [OF inv, of r]
  define rep' where "rep' = (if rb_refs rep = 1 then None else Some (?rep1\<lparr>rb_refs := rb_refs rep - 1\<rparr>))"
  have lt: "rb_gets rep - 1 < rb_refs rep"
    using ok held slots_nonneg [of "es_msgs s" r] by (simp add: rep_ok_def)
  have "release_error_report s (Some r) = Inr (s\<lparr>es_reports := (es_reports s)(r := rep')\<rparr>)"
    using held lt
    by (simp add: release_error_report_def release_report_def get_rep_def put_rep_def rep'_def Let_def)
  moreover have "rep_ok (slots (es_msgs s) r) rep'"
    using ok held slots_nonneg [of "es_msgs s" r] by (auto simp: rep_ok_def rep'_def)
  then have "err_inv (s\<lparr>es_reports := (es_reports s)(r := rep')\<rparr>)"
    using err_invD [OF inv] err_inv_held [OF inv held(1)] by (auto simp: err_inv_def)
  moreover have "\<exists>x. es_reports s q = Some x \<and> rb_pub y = rb_pub x"
    if "((es_reports s)(r := rep')) q = Some y" for q y
    using that held by (auto simp: rep'_def split: if_splits)
  ultimately show thesis
    using that [of "s\<lparr>es_reports := (es_reports s)(r := rep')\<rparr>"] by simp
qed

lemma get_error_report_null: "get_error_report env s 0 = Inr (None, s)"
  by (simp add: get_error_report_def is_message_def)

lemma make_report_counts:
  assumes "make_report env m err str = Inr rb"
  shows "rb_gets rb = 1" "rb_refs rb = (if m = None then 1 else 2)" "\<not> is_message (rb_posix_code rb)"
    "er_format (rb_pub rb) = Some str"
  using assms
  by (auto simp: make_report_def Let_def assert_that_eq_Inr_iff is_message_def add_report_prop_str_def
      add_report_prop_int_def add_report_prop_def split: if_splits)

lemma get_error_report_inv:
  assumes inv: "err_inv s" and get: "get_error_report env s err = Inr (r, s')"
  shows "err_inv s'"
proof -
  define m where "m = (if is_message err then Some (msg_of s err) else None)"
  let ?i = "nat (err - ERR_MESSAGE_MIN)"
  show ?thesis
  proof (cases "case m of None \<Rightarrow> None | Some m \<Rightarrow> em_report m")
    case (Some q)
    with get obtain rep where rep: "es_reports s q = Some rep"
      "s' = put_rep s q (rep\<lparr>rb_refs := rb_refs rep + 1, rb_gets := rb_gets rep + 1\<rparr>)"
      by (auto simp: get_error_report_def m_def get_rep_def outcome_simps Let_def split: option.splits)
    show ?thesis
      unfolding rep(2) using err_inv_held [OF inv rep(1)] err_invD(4) [OF inv, of q] rep(1)
      by (intro err_inv_put_rep [OF inv]) (auto simp: rep_ok_def)
  next
    case None
    show ?thesis
    proof (cases "err = 0")
      case True
      with get None inv show ?thesis by (simp add: get_error_report_def m_def is_message_def)
    next
      case False
      with get None obtain str rb where rb: "make_report env m err str = Inr rb"
        "s' = (if m = None then snd (new_rep s rb)
               else upd_msg (snd (new_rep s rb)) ?i (em_report_update (\<lambda>_. Some (es_next s))))"
        by (auto simp: get_error_report_def m_def [symmetric] outcome_simps new_rep_def Let_def
            split: option.splits)
      note cnt = make_report_counts [OF rb(1)]
      have z: "slots (es_msgs s) (es_next s) = 0"
        using err_invD(3) [OF inv, of "es_next s"] err_invD(4) [OF inv, of "es_next s"] by (simp add: rep_ok_def)
      show ?thesis
      proof (cases "m = None")
        case True
        obtain q s2 where n: "new_rep s rb = (q, s2)" by fastforce
        with new_rep_inv(1) [OF inv _ _ _ n] cnt rb(2) True show ?thesis by simp
      next
        case False
        then have msg: "is_message err" "m = Some (es_msgs s ! ?i)" by (auto simp: m_def msg_of_def split: if_splits)
        then have i: "?i < MESSAGE_CNT" "em_report (es_msgs s ! ?i) = None"
          using None by (auto simp: is_message_def)
        have "es_msgs s ! ?i \<in> set (es_msgs s)" using i(1) err_invD(1) [OF inv] by simp
        note src = err_invD(5) [OF inv this]
        have "s' = s\<lparr>es_msgs := (es_msgs s)[?i := (es_msgs s ! ?i)\<lparr>em_report := Some (es_next s)\<rparr>],
            es_reports := (es_reports s)(es_next s := Some rb), es_next := es_next s + 1\<rparr>"
          using rb(2) False by (simp add: upd_msg_def new_rep_def put_rep_def)
        then show ?thesis
          using src cnt z False
          by (simp only:) (intro err_inv_attach [OF inv i], auto simp: rep_ok_def)
      qed
    qed
  qed
qed


lemma get_error_report_held:
  assumes inv: "err_inv s" and get: "get_error_report env s err = Inr (Some r, s')"
  obtains rep where "es_reports s' r = Some rep" "rb_gets rep > 0"
proof -
  define m where "m = (if is_message err then Some (msg_of s err) else None)"
  show thesis
  proof (cases "case m of None \<Rightarrow> None | Some m \<Rightarrow> em_report m")
    case (Some q)
    with get obtain rep where rep: "es_reports s q = Some rep" "q = r"
      "s' = put_rep s q (rep\<lparr>rb_refs := rb_refs rep + 1, rb_gets := rb_gets rep + 1\<rparr>)"
      by (auto simp: get_error_report_def m_def get_rep_def outcome_simps Let_def split: option.splits)
    with err_invD(4) [OF inv, of q] that show thesis by (simp add: rep_ok_def put_rep_def)
  next
    case None
    with get have "err \<noteq> 0" by (auto simp: get_error_report_null)
    with get None obtain str rb where rb: "make_report env m err str = Inr rb"
      "es_reports s' r = Some rb"
      by (auto simp: get_error_report_def m_def [symmetric] outcome_simps new_rep_def put_rep_def upd_msg_def Let_def
          split: option.splits if_splits)
    with make_report_counts(1) [OF rb(1)] that show thesis by simp
  qed
qed

section \<open>Runs of the error service\<close>

text \<open>
  A client may set errors, ask for reports, create reports, and, while it holds a report, change
  its public part, set it as the current error and release it.
\<close>

inductive err_step :: "ErrorEnv \<Rightarrow> ErrorState \<Rightarrow> ErrorState \<Rightarrow> bool" for env where
  set_errno: "set_errno env s no msg = Inr (e, s') \<Longrightarrow> err_step env s s'"
| set_gai: "set_gai_errno s no = Inr (e, s') \<Longrightarrow> err_step env s s'"
| set_report: "es_reports s r = Some rep \<Longrightarrow> rb_gets rep > 0 \<Longrightarrow>
    set_error_report_errno s (Some r) = Inr (e, s') \<Longrightarrow> err_step env s s'"
| get: "get_error_report env s no = Inr (r, s') \<Longrightarrow> err_step env s s'"
| create: "create_error_report s = (r, s') \<Longrightarrow> err_step env s s'"
| edit: "es_reports s r = Some rep \<Longrightarrow> rb_gets rep > 0 \<Longrightarrow>
    s' = put_rep s r (rep\<lparr>rb_pub := p\<rparr>) \<Longrightarrow> err_step env s s'"
| release: "es_reports s r = Some rep \<Longrightarrow> rb_gets rep > 0 \<Longrightarrow>
    release_error_report s (Some r) = Inr s' \<Longrightarrow> err_step env s s'"

inductive err_reach :: "ErrorEnv \<Rightarrow> ErrorState \<Rightarrow> bool" for env where
  ini: "err_reach env ini_errors"
| step: "err_reach env s \<Longrightarrow> err_step env s s' \<Longrightarrow> err_reach env s'"

lemma err_step_inv: "err_step env s s' \<Longrightarrow> err_inv s \<Longrightarrow> err_inv s'"
proof (induction rule: err_step.induct)
  case (set_report s r rep e s')
  then have "er_code (rb_pub rep) + STD_ERR_BASE < 2 ^ 31"
  proof -
    have "err_inv (s\<lparr>es_errno := 0\<rparr>)" using set_report by simp
    then obtain s1 where "alloc_msg (s\<lparr>es_errno := 0\<rparr>) SRC_REPORT = Inr (es_msgs_pos s, s1)"
      "kept (s\<lparr>es_errno := 0\<rparr>) s1 r"
      by (rule alloc_msg_inv [where src = SRC_REPORT]) (use set_report in auto)
    with set_report show ?thesis
      by (auto simp: set_error_report_errno_def kept_def get_rep_def split: if_splits)
  qed
  with set_report show ?case by (metis Inr_inject prod.inject set_error_report_errno_inv)
next
  case (create s r s')
  then show ?case
    unfolding create_error_report_def by (intro new_rep_inv(1) [OF create(2)]) (auto simp: is_message_def)
next
  case (edit s r rep s' p)
  then show ?case
    using err_invD(4) [OF edit(4), of r] err_inv_held [OF edit(4,1)]
    by (simp only: edit(3)) (intro err_inv_put_rep [OF edit(4)], auto simp: rep_ok_def)
next
  case (release s r rep s')
  then show ?case by (metis Inr_inject release_error_report_inv)
qed (auto intro: set_errno_inv set_gai_errno_inv get_error_report_inv)

lemma err_reach_inv: "err_reach env s \<Longrightarrow> err_inv s"
  by (induction rule: err_reach.induct) (auto intro: err_inv_ini err_step_inv)

section \<open>What a message stands for\<close>

definition same_msg :: "ErrorState \<Rightarrow> ErrorState \<Rightarrow> int \<Rightarrow> bool" where
  "same_msg s s' no \<longleftrightarrow> (is_message no \<longrightarrow> msg_of s' no = msg_of s no \<and>
     (\<forall>r. em_report (msg_of s no) = Some r \<longrightarrow> es_reports s r \<noteq> None \<and> kept s s' r))"

text \<open>No message refers to another message. The messages of \<^verbatim>\<open>set_errno\<close> never do; a report
  does if its code is between 100 and 199.\<close>

definition one_hop :: "ErrorState \<Rightarrow> bool" where
  "one_hop s \<longleftrightarrow> (\<forall>m \<in> set (es_msgs s). em_source m = SRC_REPORT \<longrightarrow> \<not> is_message (em_error m))"

lemma one_hop_msg:
  assumes "err_inv s" "one_hop s" "is_message no" "em_source (msg_of s no) \<in> {SRC_REPORT, SRC_MESSAGE}"
  shows "\<not> is_message (em_error (msg_of s no))"
proof -
  have "nat (no - ERR_MESSAGE_MIN) < length (es_msgs s)"
    using assms(3) err_invD(1) [OF assms(1)] by (auto simp: is_message_def)
  then have "msg_of s no \<in> set (es_msgs s)" by (simp add: msg_of_def)
  with err_invD(5) [OF assms(1) this] assms(2,4) show ?thesis by (auto simp: one_hop_def)
qed

lemma get_error_code_plain: "\<not> is_message no \<Longrightarrow> get_error_code (Suc f) s no = Inr no"
  by simp

lemma errno_to_str_plain:
  "\<not> is_message no \<Longrightarrow> errno_to_str (Suc f) env s' no = errno_to_str (Suc g) env s no"
  by (simp split: option.splits)

lemma same_msg_rep:
  assumes "same_msg s s' no" "is_message no" "em_report (msg_of s no) = Some r"
  obtains rep rep' where "get_rep s r = Inr rep" "get_rep s' r = Inr rep'" "rb_pub rep' = rb_pub rep"
    "rb_posix_code rep' = rb_posix_code rep"
  using assms by (fastforce simp: same_msg_def kept_def get_rep_def)

lemma get_error_code_stable:
  assumes "same_msg s s' no" "err_inv s" "one_hop s"
  shows "\<exists>c. get_error_code (Suc (Suc f)) s no = Inr c \<and> get_error_code (Suc (Suc f)) s' no = Inr c"
proof (cases "is_message no \<and> em_source (msg_of s no) \<in> {SRC_REPORT, SRC_MESSAGE}")
  case False
  then show ?thesis using assms(1) by (auto simp: same_msg_def Let_def)
next
  case True
  then have nm: "\<not> is_message (em_error (msg_of s no))" using one_hop_msg [OF assms(2,3)] by blast
  have m: "msg_of s' no = msg_of s no" using True assms(1) by (simp add: same_msg_def)
  show ?thesis
  proof (cases "em_report (msg_of s no)")
    case None
    then show ?thesis using True m nm by (auto simp: Let_def)
  next
    case (Some r)
    obtain rep rep' where "get_rep s r = Inr rep" "get_rep s' r = Inr rep'"
      "rb_posix_code rep' = rb_posix_code rep"
      using same_msg_rep [OF assms(1) _ Some] True by blast
    then show ?thesis using True m nm Some by (auto simp: Let_def)
  qed
qed

lemma errno_to_str_stable:
  assumes "same_msg s s' no" "err_inv s" "one_hop s"
  shows "errno_to_str (Suc (Suc f)) env s' no = errno_to_str (Suc (Suc f)) env s no"
proof (cases "is_message no")
  case False
  then show ?thesis by (rule errno_to_str_plain)
next
  case True
  have m: "msg_of s' no = msg_of s no" using True assms(1) by (simp add: same_msg_def)
  have hop: "errno_to_str (Suc f) env s' (em_error (msg_of s no)) = errno_to_str (Suc f) env s (em_error (msg_of s no))"
    if "em_source (msg_of s no) = SRC_REPORT"
    using one_hop_msg [OF assms(2,3) True] that by (intro errno_to_str_plain) auto
  show ?thesis
  proof (cases "em_report (msg_of s no)")
    case None
    then show ?thesis using True m hop
      by (subst (1 2) errno_to_str.simps) (simp add: Let_def del: errno_to_str.simps split: option.splits msg_source.splits)
  next
    case (Some r)
    obtain rep rep' where "get_rep s r = Inr rep" "get_rep s' r = Inr rep'" "rb_pub rep' = rb_pub rep"
      using same_msg_rep [OF assms(1) _ Some] True by blast
    then show ?thesis using True m hop Some
      by (subst (1 2) errno_to_str.simps) (simp add: Let_def del: errno_to_str.simps split: option.splits msg_source.splits)
  qed
qed

lemma find_message: "is_message e \<Longrightarrow> find (\<lambda>(x, _). err_no x = e) err_table = None"
  by (auto simp: err_table_def err_no_def is_message_def)

lemma set_errno_message:
  assumes inv: "err_inv s" "one_hop s" and no: "no \<noteq> 0" "no \<noteq> ERR_MESSAGE_MIN + int (es_msgs_pos s)"
    and str: "errno_to_str (Suc (Suc f)) env s no = Inr (Some t)" and f: "chain_fuel = Suc (Suc f)"
  shows "\<exists>e s'. set_errno env s no (Some msg) = Inr (e, s') \<and> is_message e \<and>
     get_error_code chain_fuel s' e = get_error_code chain_fuel s no \<and>
     errno_to_str chain_fuel env s' e = Inr (Some (if no = err_no ERR_OTHER then msg else msg @ cstr ''. '' @ t))"
proof -
  let ?s0 = "s\<lparr>es_errno := no\<rparr>" and ?i = "es_msgs_pos s"
  let ?e = "ERR_MESSAGE_MIN + int ?i"
  let ?m0 = "\<lparr>em_source = SRC_MESSAGE, em_error = 0, em_text = None, em_report = None\<rparr>"
  have "err_inv ?s0" using inv by simp
  then obtain s1 where s1: "alloc_msg ?s0 SRC_MESSAGE = Inr (?i, s1)" "err_inv s1" "es_errno s1 = ?e"
    "es_msgs s1 = (es_msgs s)[?i := ?m0]"
    "\<And>r j. j < MESSAGE_CNT \<Longrightarrow> j \<noteq> ?i \<Longrightarrow> em_report (es_msgs s ! j) = Some r \<Longrightarrow> kept ?s0 s1 r"
    by (rule alloc_msg_inv [where src = SRC_MESSAGE]) auto
  have i: "?i < MESSAGE_CNT" "?i < length (es_msgs s)" using err_invD(1,2) [OF inv(1)] by auto
  have msg: "is_message ?e" "nat (?e - ERR_MESSAGE_MIN) = ?i" using i(1) by (auto simp: is_message_def)
  have j: "nat (no - ERR_MESSAGE_MIN) < MESSAGE_CNT \<and> nat (no - ERR_MESSAGE_MIN) \<noteq> ?i" if "is_message no"
    using that no(2) by (auto simp: is_message_def)
  have same: "same_msg s (s1\<lparr>es_msgs := (es_msgs s)[?i := m]\<rparr>) no" for m
    unfolding same_msg_def
  proof (intro impI conjI allI)
    assume m: "is_message no"
    show "msg_of (s1\<lparr>es_msgs := (es_msgs s)[?i := m]\<rparr>) no = msg_of s no"
      using j [OF m] by (simp add: msg_of_def)
    fix r
    assume r: "em_report (msg_of s no) = Some r"
    then show "es_reports s r \<noteq> None"
      using err_inv_slot [OF inv(1) _ , of "nat (no - ERR_MESSAGE_MIN)" r] j [OF m] by (auto simp: msg_of_def)
    have "kept ?s0 s1 r" using s1(5) j [OF m] r by (auto simp: msg_of_def)
    then show "kept s (s1\<lparr>es_msgs := (es_msgs s)[?i := m]\<rparr>) r" by (simp add: kept_def)
  qed
  have "s1\<lparr>es_msgs := (es_msgs s)[?i := ?m0]\<rparr> = s1" using s1(4) by simp
  with get_error_code_stable [OF same [of ?m0] inv, of f] f obtain c
    where c: "get_error_code chain_fuel s no = Inr c" "get_error_code chain_fuel s1 no = Inr c" by auto
  have nm: "\<not> is_message c" by (rule get_error_code_not_message [OF s1(2) c(2)])
  let ?s2 = "s1\<lparr>es_msgs := (es_msgs s)[?i := ?m0\<lparr>em_error := c\<rparr>]\<rparr>"
  have s2: "upd_msg s1 ?i (em_error_update (\<lambda>_. c)) = ?s2"
    using i s1(4) by (simp add: upd_msg_def)
  have t: "errno_to_str chain_fuel env ?s2 no = Inr (Some t)"
    unfolding f by (subst errno_to_str_stable [OF same inv]) (rule str)
  define tx where "tx = (if no = err_no ERR_OTHER then msg else msg @ cstr ''. '' @ t)"
  define s' where "s' = ?s2\<lparr>es_msgs := (es_msgs s)[?i := ?m0\<lparr>em_error := c, em_text := Some tx\<rparr>], es_errno := ?e\<rparr>"
  have s3: "upd_msg ?s2 ?i (em_text_update (\<lambda>_. Some x)) =
      ?s2\<lparr>es_msgs := (es_msgs s)[?i := ?m0\<lparr>em_error := c, em_text := Some x\<rparr>]\<rparr>" for x
    using i by (simp add: upd_msg_def)
  have "set_errno env s no (Some msg) = Inr (?e, s')"
    unfolding s'_def using s1(1,3) c(2) t no(1) tx_def
    by (cases "no = err_no ERR_OTHER") (simp_all add: set_errno_def Let_def s2 s3 [simplified])
  moreover have m': "msg_of s' ?e = ?m0\<lparr>em_error := c, em_text := Some tx\<rparr>"
    using i msg(2) by (simp add: msg_of_def s'_def)
  have "get_error_code chain_fuel s' ?e = Inr c"
    unfolding f using msg(1) m' nm by (simp add: Let_def)
  moreover have "errno_to_str chain_fuel env s' ?e = Inr (Some tx)"
    unfolding f using msg(1) m' find_message [OF msg(1)] by (simp add: Let_def is_message_def)
  ultimately show ?thesis using msg(1) c(1) by (auto simp: tx_def)
qed

section \<open>Properties\<close>

text \<open>C12: Reference counts are exact. In every state that clients can bring about, each live
  report is counted once for every slot of the ring that points to it and once for every client
  that holds it, no slot points to a freed report, and a report that nobody refers to is freed.\<close>

theorem error_report_counts:
  assumes "err_reach env s"
  shows "case es_reports s r of
       None \<Rightarrow> \<forall>i < MESSAGE_CNT. em_report (es_msgs s ! i) \<noteq> Some r
     | Some rep \<Rightarrow> rb_refs rep = rb_gets rep + slots (es_msgs s) r \<and> 0 < rb_refs rep"
proof -
  have inv: "err_inv s" using assms by (rule err_reach_inv)
  show ?thesis
  proof (cases "es_reports s r")
    case None
    then show ?thesis using err_inv_slot [OF inv] by (auto simp del: not_None_eq) (metis option.distinct(1))
  next
    case (Some rep)
    then show ?thesis using err_invD(4) [OF inv, of r] by (simp add: rep_ok_def)
  qed
qed

definition sample_env :: ErrorEnv where
  "sample_env = \<lparr>env_strerror = (\<lambda>_. None), env_gai_strerror = (\<lambda>_. []),
     env_number_text = (\<lambda>_ _. None), env_time = None, env_msg_max = 0\<rparr>"

lemma err_reach_create: "err_reach env (snd (create_error_report ini_errors))"
  by (metis err_reach.ini err_reach.step err_step.create prod.collapse)

theorem error_report_counts_witness:
  "case es_reports (snd (create_error_report ini_errors)) 0 of
     None \<Rightarrow> \<forall>i < MESSAGE_CNT. em_report (es_msgs (snd (create_error_report ini_errors)) ! i) \<noteq> Some 0
   | Some rep \<Rightarrow> rb_refs rep = rb_gets rep + slots (es_msgs (snd (create_error_report ini_errors))) 0 \<and>
       0 < rb_refs rep"
  by (rule error_report_counts [OF err_reach_create [of sample_env]])

text \<open>Holding a report is enough to use it: in every reachable state, a client that holds a
  report can set it as the current error, unless its code is out of range, and release it; no
  assertion on the counts fails and no freed report is touched, even when the ring wraps around
  onto a slot that points to the same report.\<close>

theorem held_report_is_usable:
  assumes "err_reach env s" "es_reports s r = Some rep" "rb_gets rep > 0"
  shows "(\<exists>s'. release_error_report s (Some r) = Inr s') \<and>
     (er_code (rb_pub rep) + STD_ERR_BASE < 2 ^ 31 \<longrightarrow>
      (\<exists>e s'. set_error_report_errno s (Some r) = Inr (e, s')))"
  using err_reach_inv [OF assms(1)] assms(2,3)
  by (metis release_error_report_inv set_error_report_errno_inv)

theorem held_report_is_usable_witness:
  "(\<exists>s'. release_error_report (snd (create_error_report ini_errors)) (Some 0) = Inr s') \<and>
     (er_code no_report + STD_ERR_BASE < 2 ^ 31 \<longrightarrow>
      (\<exists>e s'. set_error_report_errno (snd (create_error_report ini_errors)) (Some 0) = Inr (e, s')))"
  using held_report_is_usable [OF err_reach_create [of sample_env], of 0
    "\<lparr>rb_pub = no_report, rb_posix_code = 0, rb_refs = 1, rb_gets = 1\<rparr>"]
  by (simp add: create_error_report_def new_rep_def put_rep_def ini_errors_def)

text \<open>The number that \<open>set_errno\<close> returns designates both the original error and the
  message: its code is the code of the original error, and its text is the message followed by the
  text of the original error. This holds for errors that already carry a message, as long as they
  are not the oldest one of the ring, and no report has a code that is itself the number of a
  message.\<close>

theorem set_errno_designates:
  assumes "err_reach env s" "one_hop s" "no \<noteq> 0" "no \<noteq> ERR_MESSAGE_MIN + int (es_msgs_pos s)"
    and "errno_to_str chain_fuel env s no = Inr (Some t)"
  shows "\<exists>e s'. set_errno env s no (Some msg) = Inr (e, s') \<and> is_message e \<and>
     get_error_code chain_fuel s' e = get_error_code chain_fuel s no \<and>
     errno_to_str chain_fuel env s' e = Inr (Some (if no = err_no ERR_OTHER then msg else msg @ cstr ''. '' @ t))"
proof -
  have f: "chain_fuel = Suc (Suc 99)" by simp
  show ?thesis
    using assms err_reach_inv by (intro set_errno_message [where f = 99 and t = t]) (simp_all add: f [symmetric] del: f)
qed

theorem set_errno_designates_witness:
  "\<exists>e s'. set_errno sample_env ini_errors (err_no ERR_PROTOCOL) (Some [120]) = Inr (e, s') \<and> is_message e \<and>
     get_error_code chain_fuel s' e = get_error_code chain_fuel ini_errors (err_no ERR_PROTOCOL) \<and>
     errno_to_str chain_fuel sample_env s' e =
       Inr (Some (if err_no ERR_PROTOCOL = err_no ERR_OTHER then [120]
                  else [120] @ cstr ''. '' @ cstr ''Protocol format error''))"
proof -
  have f: "chain_fuel = Suc 100" by simp
  have "errno_to_str chain_fuel sample_env ini_errors (err_no ERR_PROTOCOL) =
      Inr (Some (cstr ''Protocol format error''))"
    unfolding f errno_to_str.simps by (simp add: err_table_def err_no_def)
  moreover have "one_hop ini_errors" by (simp add: one_hop_def ini_errors_def no_message_def)
  moreover have "err_no ERR_PROTOCOL \<noteq> 0" "err_no ERR_PROTOCOL \<noteq> ERR_MESSAGE_MIN + int (es_msgs_pos ini_errors)"
    by (simp_all add: err_no_def err_table_def ini_errors_def)
  ultimately show ?thesis
    using set_errno_designates [OF err_reach.ini] by blast
qed

text \<open>A report whose code is the number of its own message, which a peer can send, makes
  \<open>get_error_code\<close> follow that message to itself: the loop never ends.\<close>

theorem get_error_code_can_hang:
  "\<exists>s. err_reach env s \<and> (\<forall>fuel. get_error_code fuel s ERR_MESSAGE_MIN = Inl Out_Of_Fuel)"
proof -
  define rb where "rb = \<lparr>rb_pub = no_report\<lparr>er_code := 100\<rparr>, rb_posix_code = 0, rb_refs = 1, rb_gets = 1\<rparr>"
  define s1 where "s1 = snd (create_error_report ini_errors)"
  define s2 where "s2 = put_rep s1 0 rb"
  have "err_step env s1 s2"
    unfolding s2_def rb_def s1_def
    by (rule err_step.edit [where rep = "\<lparr>rb_pub = no_report, rb_posix_code = 0, rb_refs = 1, rb_gets = 1\<rparr>"
          and p = "no_report\<lparr>er_code := 100\<rparr>"])
      (auto simp: create_error_report_def new_rep_def put_rep_def ini_errors_def fun_eq_iff)
  with err_reach_create have r2: "err_reach env s2" unfolding s1_def by (rule err_reach.step)
  have held: "es_reports s2 0 = Some rb" "rb_gets rb > 0" by (simp_all add: s2_def put_rep_def rb_def)
  have "er_code (rb_pub rb) + STD_ERR_BASE < 2 ^ 31" by (simp add: rb_def)
  then obtain e s3 where s3: "set_error_report_errno s2 (Some 0) = Inr (e, s3)"
    using set_error_report_errno_inv [OF err_reach_inv [OF r2] held] by metis
  have r3: "err_reach env s3" by (rule err_reach.step [OF r2 err_step.set_report [OF held s3]])
  have "es_reports s3 0 = Some (rb\<lparr>rb_refs := 2\<rparr>)"
    "es_msgs s3 ! 0 = \<lparr>em_source = SRC_REPORT, em_error = ERR_MESSAGE_MIN, em_text = None, em_report = Some 0\<rparr>"
    using s3
    by (auto simp: set_error_report_errno_def s2_def s1_def create_error_report_def new_rep_def put_rep_def
        ini_errors_def alloc_msg_def release_report_def no_message_def get_rep_def upd_msg_def rb_def Let_def)
  then have "get_error_code fuel s3 ERR_MESSAGE_MIN = Inl Out_Of_Fuel" for fuel
    by (induction fuel) (simp_all add: is_message_def msg_of_def get_rep_def rb_def Let_def)
  with r3 show ?thesis by blast
qed

text \<open>\<open>compare_error_reports\<close> never sees the additional properties: the comparison starts
  both of its pointers at the properties of the first report.\<close>

lemma same_props_refl: "same_props xs xs"
  by (induction xs) auto

theorem compare_ignores_props:
  "same_report (x\<lparr>er_props := p\<rparr>) (y\<lparr>er_props := q\<rparr>) = same_report x y"
  by (simp add: same_report_def same_props_refl)

end
