(* ===== verification/JsonError.thy ===== *)
theory JsonError
  imports Errors
begin

text \<open>
  \<^verbatim>\<open>framework/json.c\<close>, third part: error reports on a channel. The loop of
  \<^verbatim>\<open>read_error_object\<close> reads members exactly as the one of \<^verbatim>\<open>json_read_struct\<close> does;
  its body is the callback \<open>read_error_member\<close>, which works on the state of the error service
  and the address of the report, if it has been created.
\<close>

section \<open>Reading\<close>

definition read_errno_param :: "ErrorReport array_callback" where
  "read_errno_param inp err =
     (let mx = (if length (er_params err) \<ge> er_param_max err then er_param_max err + 4
                else er_param_max err) in
      rbind (json_read_object inp) (\<lambda>(p, inp).
        Inr (err\<lparr>er_params := er_params err @ [p], er_param_max := mx\<rparr>, inp)))"

type_synonym err_arg = "ErrorState \<times> nat option"

definition edit_rep :: "ErrorState \<Rightarrow> nat \<Rightarrow> (ErrorReport \<Rightarrow> ErrorReport) \<Rightarrow> ErrorState outcome" where
  "edit_rep s r f = rbind (get_rep s r) (\<lambda>rep. Inr (put_rep s r (rep\<lparr>rb_pub := f (rb_pub rep)\<rparr>)))"

definition to_int :: "int \<Rightarrow> int" where
  "to_int n = sint (word_of_int n :: 32 word)"

definition read_error_field :: "istream \<Rightarrow> cstring \<Rightarrow> ErrorState \<Rightarrow> nat \<Rightarrow> (err_arg \<times> istream) outcome" where
  "read_error_field inp name s r =
     (if name = cstr ''Code'' then
        rbind (json_read_long inp) (\<lambda>(n, inp).
        rbind (edit_rep s r (er_code_update (\<lambda>_. to_int n))) (\<lambda>s. Inr ((s, Some r), inp)))
      else if name = cstr ''Time'' then
        rbind (json_read_uint64 inp) (\<lambda>(n, inp).
        rbind (edit_rep s r (er_time_stamp_update (\<lambda>_. n))) (\<lambda>s. Inr ((s, Some r), inp)))
      else if name = cstr ''Format'' then
        rbind (json_read_alloc_string inp) (\<lambda>(f, inp).
        rbind (edit_rep s r (er_format_update (\<lambda>_. f))) (\<lambda>s. Inr ((s, Some r), inp)))
      else if name = cstr ''Params'' then
        rbind (get_rep s r) (\<lambda>rep.
        rbind (json_read_array read_errno_param inp (rb_pub rep)) (\<lambda>(p, inp).
          Inr ((case p of None \<Rightarrow> s | Some p \<Rightarrow> put_rep s r (rep\<lparr>rb_pub := p\<rparr>), Some r), inp)))
      else
        rbind (json_read_object inp) (\<lambda>(v, inp).
        rbind (edit_rep s r (\<lambda>p. p\<lparr>er_props := (name, v) # er_props p\<rparr>)) (\<lambda>s. Inr ((s, Some r), inp))))"

definition read_error_member :: "err_arg struct_callback" where
  "read_error_member inp nm = (\<lambda>(s, err).
     let (r, s) = (case err of None \<Rightarrow> create_error_report s | Some r \<Rightarrow> (r, s))
     in read_error_field inp (takeWhile (\<lambda>c. c \<noteq> 0) nm) s r)"

definition read_error_object :: "ErrorState \<Rightarrow> istream \<Rightarrow> (int \<times> ErrorState \<times> istream) outcome" where
  "read_error_object s inp =
     (let (ch, inp) = read_token inp in
      if ch = chr CHR ''n'' then rbind (json_test_chars inp ''ull'') (\<lambda>inp. Inr (0, s, inp))
      else
        rbind (check_char ch (chr CHR ''{'')) (\<lambda>_.
        let (pk, inp) = json_peek inp in
        rbind (if pk = chr CHR ''}'' then Inr ((s, None), snd (read_stream inp))
               else struct_loop (length inp + 1) read_error_member inp (s, None)) (\<lambda>((s, err), inp).
        case err of
          None \<Rightarrow> Inr (0, s, inp)
        | Some r \<Rightarrow>
            rbind (get_rep s r) (\<lambda>rep.
            rbind (if er_code (rb_pub rep) \<noteq> 0 then set_error_report_errno s (Some r) else Inr (0, s))
              (\<lambda>(no, s).
            rbind (release_error_report s (Some r)) (\<lambda>s. Inr (no, s, inp)))))))"

definition read_errno :: "ErrorState \<Rightarrow> istream \<Rightarrow> (int \<times> ErrorState \<times> istream) outcome" where
  "read_errno s inp =
     (let (pk, inp) = json_peek inp in
      rbind (if pk \<noteq> MARKER_EOA then read_error_object s inp else Inr (0, s, inp)) (\<lambda>(no, s, inp).
      rbind (json_test_char inp MARKER_EOA) (\<lambda>inp. Inr (no, s, inp))))"

section \<open>Writing\<close>

definition write_name :: "OutputStream \<Rightarrow> cstring \<Rightarrow> OutputStream" where
  "write_name out nm = write_stream (json_write_string out (Some nm)) (chr CHR '':'')"

fun write_params :: "OutputStream \<Rightarrow> nat \<Rightarrow> cstring list \<Rightarrow> OutputStream" where
  "write_params out n [] = out"
| "write_params out n (p # ps) =
     (let out = (if n > 0 then write_stream out (chr CHR '','') else out)
      in write_params (write_string out p) (n + 1) ps)"

fun write_props :: "OutputStream \<Rightarrow> (cstring \<times> cstring) list \<Rightarrow> OutputStream" where
  "write_props out [] = out"
| "write_props out ((nm, v) # ps) =
     write_props (write_string (write_name (write_stream out (chr CHR '','')) nm) v) ps"

definition write_error_props :: "OutputStream \<Rightarrow> ErrorReport \<Rightarrow> OutputStream" where
  "write_error_props out rep =
     (let out = (if er_time_stamp rep \<noteq> 0
                 then json_write_uint64 (write_name (write_stream out (chr CHR '','')) (cstr ''Time''))
                        (er_time_stamp rep)
                 else out);
          out = (if er_format rep \<noteq> None
                 then json_write_string (write_name (write_stream out (chr CHR '','')) (cstr ''Format''))
                        (er_format rep)
                 else out);
          out = (if er_params rep \<noteq> []
                 then write_stream (write_params
                        (write_stream (write_name (write_stream out (chr CHR '','')) (cstr ''Params''))
                          (chr CHR ''[''))
                        0 (er_params rep)) (chr CHR '']'')
                 else out)
      in write_props out (er_props rep))"

definition write_error_object ::
    "ErrorEnv \<Rightarrow> OutputStream \<Rightarrow> ErrorState \<Rightarrow> int \<Rightarrow> (OutputStream \<times> ErrorState) outcome" where
  "write_error_object env out s err =
     rbind (get_error_report env s err) (\<lambda>(r, s).
     case r of
       None \<Rightarrow> Inr (write_string out (cstr ''null''), s)
     | Some r \<Rightarrow>
         rbind (get_rep s r) (\<lambda>rep.
         let out = json_write_long (write_name (write_stream out (chr CHR ''{'')) (cstr ''Code''))
                     (word_of_int (er_code (rb_pub rep)));
             out = write_error_props out (rb_pub rep) in
         rbind (release_error_report s (Some r)) (\<lambda>s.
           Inr (write_stream out (chr CHR ''}''), s))))"

definition write_errno ::
    "ErrorEnv \<Rightarrow> OutputStream \<Rightarrow> ErrorState \<Rightarrow> int \<Rightarrow> (OutputStream \<times> ErrorState) outcome" where
  "write_errno env out s err =
     rbind (if err \<noteq> 0 then write_error_object env out s err else Inr (out, s)) (\<lambda>(out, s).
       Inr (write_stream out 0, s))"

definition write_service_error ::
    "ErrorEnv \<Rightarrow> OutputStream \<Rightarrow> ErrorState \<Rightarrow> int \<Rightarrow> cstring \<Rightarrow> int \<Rightarrow> (OutputStream \<times> ErrorState) outcome" where
  "write_service_error env out s err service_name service_error =
     rbind (get_error_report env s err) (\<lambda>(r, s).
     rbind (case r of
              None \<Rightarrow> Inr (out, s)
            | Some r \<Rightarrow>
                rbind (get_rep s r) (\<lambda>rep.
                let out = json_write_string (write_name (write_stream out (chr CHR ''{'')) (cstr ''Service''))
                            (Some service_name);
                    out = json_write_long (write_name (write_stream out (chr CHR '','')) (cstr ''Code''))
                            (word_of_int service_error);
                    out = write_error_props out (rb_pub rep) in
                rbind (release_error_report s (Some r)) (\<lambda>s.
                  Inr (write_stream out (chr CHR ''}''), s)))) (\<lambda>(out, s).
     Inr (write_stream out 0, s)))"

section \<open>Members of an error object\<close>

lemma json_read_object_jtext:
  "\<not> number_char (peek_stream rest) \<Longrightarrow>
   json_read_object (jtext v @ rest) = Inr (map byte_of (jtext v), rest)"
  using skipsD [OF skips_jval, of v rest "skip_fuel (jtext v @ rest)" "[]"]
  by (simp add: json_read_object_def skip_fuel_def)

definition add_param :: "jval \<Rightarrow> ErrorReport \<Rightarrow> ErrorReport" where
  "add_param v err = err\<lparr>er_params := er_params err @ [map byte_of (jtext v)],
     er_param_max := (if length (er_params err) \<ge> er_param_max err then er_param_max err + 4
                      else er_param_max err)\<rparr>"

interpretation err_params: array_elements read_errno_param jtext add_param "\<lambda>_ _. True"
proof unfold_locales
  fix x arg c rest
  assume "c \<in> {44, 93 :: int}"
  then show "read_errno_param (jtext x @ c # rest) arg = Inr (add_param x arg, c # rest)"
    by (auto simp: read_errno_param_def json_read_object_jtext number_char_iff is_digit_iff add_param_def)
next
  fix x
  show "\<exists>c cs. jtext x = c # cs \<and> \<not> isspace c \<and> c \<noteq> 93"
    using jtext_head [of x] by metis
qed

datatype error_value =
    V_code int | V_time u64 | V_format cstring | V_params "jval list" | V_json jval

fun value_text :: "error_value \<Rightarrow> int list" where
  "value_text (V_code n) = text_of (\<lambda>out. json_write_long out (word_of_int n))"
| "value_text (V_time t) = text_of (\<lambda>out. json_write_uint64 out t)"
| "value_text (V_format f) = text_of (\<lambda>out. json_write_string out (Some f))"
| "value_text (V_params vs) = 91 # commas (map jtext vs) @ [93]"
| "value_text (V_json v) = jtext v"

fun apply_value :: "cstring \<times> error_value \<Rightarrow> ErrorReport \<Rightarrow> ErrorReport" where
  "apply_value (nm, V_code n) rep = rep\<lparr>er_code := n\<rparr>"
| "apply_value (nm, V_time t) rep = rep\<lparr>er_time_stamp := t\<rparr>"
| "apply_value (nm, V_format f) rep = rep\<lparr>er_format := Some f\<rparr>"
| "apply_value (nm, V_params vs) rep = fold add_param vs rep"
| "apply_value (nm, V_json v) rep = rep\<lparr>er_props := (nm, map byte_of (jtext v)) # er_props rep\<rparr>"

text \<open>The kinds of value that a name goes with, and the ranges that survive the way.\<close>

fun value_ok :: "cstring \<times> error_value \<Rightarrow> bool" where
  "value_ok (nm, V_code n) = (nm = cstr ''Code'' \<and> - (2 ^ 31) \<le> n \<and> n < 2 ^ 31)"
| "value_ok (nm, V_time t) = (nm = cstr ''Time'')"
| "value_ok (nm, V_format f) = (nm = cstr ''Format'' \<and> 0 \<notin> set f)"
| "value_ok (nm, V_params vs) = (nm = cstr ''Params'')"
| "value_ok (nm, V_json v) = (0 \<notin> set nm \<and>
     nm \<notin> {cstr ''Code'', cstr ''Time'', cstr ''Format'', cstr ''Params''})"

definition ensure_rep :: "err_arg \<Rightarrow> nat \<times> ErrorState" where
  "ensure_rep = (\<lambda>(s, err). case err of None \<Rightarrow> create_error_report s | Some r \<Rightarrow> (r, s))"

definition update_rep :: "cstring \<times> error_value \<Rightarrow> err_arg \<Rightarrow> err_arg" where
  "update_rep m arg =
     (let (r, s) = ensure_rep arg in
      case es_reports s r of
        None \<Rightarrow> arg
      | Some rep \<Rightarrow> (put_rep s r (rep\<lparr>rb_pub := apply_value m (rb_pub rep)\<rparr>), Some r))"

definition live_arg :: "err_arg \<Rightarrow> bool" where
  "live_arg = (\<lambda>(s, err). case err of None \<Rightarrow> True | Some r \<Rightarrow> es_reports s r \<noteq> None)"

lemma sint_of_int_word:
  "- (2 ^ 31) \<le> n \<Longrightarrow> n < 2 ^ 31 \<Longrightarrow> sint (word_of_int n :: u64) = n"
  "- (2 ^ 31) \<le> n \<Longrightarrow> n < 2 ^ 31 \<Longrightarrow> sint (word_of_int n :: 32 word) = n"
  by (auto simp: sint_sbintrunc' signed_take_bit_int_eq_self)

lemma read_code_text:
  assumes "- (2 ^ 31) \<le> n" "n < 2 ^ 31" "\<not> is_digit (peek_stream rest)"
  shows "json_read_long (value_text (V_code n) @ rest) = Inr (n, rest)"
proof -
  have t: "value_text (V_code n) = (if n < 0 then 45 # dec (nat (- n)) else dec (nat n))"
    using sint_of_int_word(1) [OF assms(1,2)] by (simp add: text_of_def json_write_long_dec)
  show ?thesis
  proof (cases "n < 0")
    case True
    then have "nat (- n) < 2 ^ 63" using assms(1) by simp
    from json_read_long_dec(2) [OF assms(3) this] True t show ?thesis by simp
  next
    case False
    then have "nat n < 2 ^ 63" using assms(2) by simp
    from json_read_long_dec(1) [OF assms(3) this] False t show ?thesis by simp
  qed
qed

lemma name_distinct [simp]:
  "cstr ''Time'' \<noteq> cstr ''Code''" "cstr ''Format'' \<noteq> cstr ''Code''" "cstr ''Format'' \<noteq> cstr ''Time''"
  "cstr ''Params'' \<noteq> cstr ''Code''" "cstr ''Params'' \<noteq> cstr ''Time''" "cstr ''Params'' \<noteq> cstr ''Format''"
  by (simp_all add: cstr_def)

lemma takeWhile_cstring: "0 \<notin> set nm \<Longrightarrow> takeWhile (\<lambda>c. c \<noteq> 0) nm = (nm :: cstring)"
  by (metis (mono_tags, lifting) takeWhile_eq_all_conv)

lemma value_ok_name: "value_ok (nm, x) \<Longrightarrow> 0 \<notin> set nm"
  by (cases x) (auto simp: cstr_def)

lemma ensure_rep_live:
  assumes "live_arg arg"
  obtains r s rep where "ensure_rep arg = (r, s)" "es_reports s r = Some rep"
  using assms
  by (cases arg; cases "snd arg")
    (auto simp: live_arg_def ensure_rep_def create_error_report_def new_rep_def put_rep_def)

lemma read_error_member_ok:
  assumes "value_ok (nm, x)" "live_arg arg" "c \<in> {44, 125}"
  shows "read_error_member (value_text x @ c # rest) nm arg = Inr (update_rep (nm, x) arg, c # rest)"
proof -
  obtain r s rep where r: "ensure_rep arg = (r, s)" "es_reports s r = Some rep"
    using ensure_rep_live [OF assms(2)] by blast
  have e: "edit_rep s r f = Inr (put_rep s r (rep\<lparr>rb_pub := f (rb_pub rep)\<rparr>))" for f
    using r(2) by (simp add: edit_rep_def get_rep_def)
  have g: "get_rep s r = Inr rep" using r(2) by (simp add: get_rep_def)
  obtain s0 err where arg: "arg = (s0, err)" by (cases arg)
  have en: "(case err of None \<Rightarrow> create_error_report s0 | Some r \<Rightarrow> (r, s0)) = (r, s)"
    using r(1) arg by (simp add: ensure_rep_def)
  have u: "update_rep (nm, x) arg = (put_rep s r (rep\<lparr>rb_pub := apply_value (nm, x) (rb_pub rep)\<rparr>), Some r)"
    using r by (simp add: update_rep_def)
  have nd: "\<not> is_digit (peek_stream (c # rest))" "\<not> number_char (peek_stream (c # rest))"
    using assms(3) by (auto simp: is_digit_iff number_char_iff)
  note nm = takeWhile_cstring [OF value_ok_name [OF assms(1)]]
  have b: "read_error_member inp nm arg = read_error_field inp nm s r" for inp
    unfolding read_error_member_def arg split_conv en nm by simp
  show ?thesis
  proof (cases x)
    case (V_code n)
    with assms(1) have n: "nm = cstr ''Code''" "- (2 ^ 31) \<le> n" "n < 2 ^ 31" by auto
    with V_code read_code_text [OF n(2,3) nd(1)] sint_of_int_word(2) [OF n(2,3)] e show ?thesis
      unfolding b u by (simp add: read_error_field_def to_int_def del: value_text.simps)
  next
    case (V_time t)
    have "json_read_uint64 (value_text (V_time t) @ c # rest) = Inr (t, c # rest)"
      using json_read_ulong_dec(1) [OF nd(1), of "unat t"]
      by (simp add: text_of_def json_write_uint64_eq json_read_uint64_eq json_write_ulong_dec)
    with V_time assms(1) e show ?thesis
      unfolding b u by (simp add: read_error_field_def del: value_text.simps)
  next
    case (V_format f)
    with assms(1) have "nm = cstr ''Format''" "0 \<notin> set f" by auto
    with V_format e show ?thesis
      unfolding b u by (simp add: read_error_field_def text_of_def json_write_string_syms json_read_alloc_string_str_syms)
  next
    case (V_params vs)
    have ok: "err_params.all_ok vs a" for a by (induction vs arbitrary: a) auto
    from V_params assms(1) g err_params.read_array_elems [OF ok [of "rb_pub rep"], of "c # rest"] show ?thesis
      unfolding b u by (simp add: read_error_field_def)
  next
    case (V_json v)
    with assms(1) have "nm \<notin> {cstr ''Code'', cstr ''Time'', cstr ''Format'', cstr ''Params''}" by auto
    with V_json e json_read_object_jtext [OF nd(2)] show ?thesis
      unfolding b u by (simp add: read_error_field_def)
  qed
qed

interpretation err_members: struct_members read_error_member value_text update_rep
  "\<lambda>m arg. value_ok m \<and> live_arg arg"
  by unfold_locales (auto intro!: read_error_member_ok)

lemma live_update_rep: "live_arg arg \<Longrightarrow> live_arg (update_rep m arg)"
  by (erule ensure_rep_live) (auto simp: update_rep_def live_arg_def put_rep_def)

lemma members_ok_iff:
  "live_arg arg \<Longrightarrow> err_members.members_ok ms arg \<longleftrightarrow> list_all (\<lambda>m. value_ok m \<and> length (fst m) < 256) ms"
  by (induction ms arbitrary: arg) (auto simp: live_update_rep)

text \<open>All members of an object go to one report, which the first one creates.\<close>

lemma update_reps:
  assumes "es_reports s r = Some rep"
  shows "fold update_rep ms (s, Some r) =
    (if ms = [] then s else put_rep s r (rep\<lparr>rb_pub := fold apply_value ms (rb_pub rep)\<rparr>), Some r)"
  using assms
proof (induction ms arbitrary: s rep)
  case (Cons m ms)
  let ?rep = "rep\<lparr>rb_pub := apply_value m (rb_pub rep)\<rparr>"
  have "update_rep m (s, Some r) = (put_rep s r ?rep, Some r)"
    using Cons.prems by (simp add: update_rep_def ensure_rep_def)
  with Cons.IH [of "put_rep s r ?rep" ?rep] show ?case by (simp add: put_rep_def)
qed simp

section \<open>The text of a report\<close>

lemma commas_Cons: "commas (t # ts) = t @ concat (map (\<lambda>u. 44 # u) ts)"
  by (induction ts arbitrary: t) auto

lemma str_syms_is_byte: "list_all is_byte (str_syms s)"
proof -
  have "is_byte c" if "c \<in> set (str_syms s)" for c
    using str_syms_plain_sym [OF that] by (simp add: plain_sym_def is_byte_def)
  then show ?thesis by (simp add: list_all_iff)
qed

lemma is_byte_numeral [simp]: "is_byte (numeral n) \<longleftrightarrow> (numeral n :: int) < 256"
  by (simp add: is_byte_def)

lemma jtext_is_byte: "list_all is_byte (jtext v)"
proof (induction v)
  case (JInt n)
  have d: "list_all is_byte (dec k)" for k
    using list_all_dec [of k] by (auto simp: list_all_iff is_digit_iff is_byte_def)
  then show ?case by (simp add: jtext_JInt)
next
  case (JStr s)
  from str_syms_is_byte [of s] show ?case by simp
next
  case (JArr vs)
  have "list_all is_byte (commas (map jtext vs))"
    using JArr by (cases vs) (auto simp: commas_Cons list_all_iff)
  then show ?case by simp
next
  case (JObj ms)
  note k = str_syms_is_byte
  have "list_all is_byte (jtext (JStr k) @ 58 # jtext v)" if "(k, v) \<in> set ms" for k v
    using JObj that k [of k] by fastforce
  then have "list_all is_byte (commas (map (\<lambda>(k, v). jtext (JStr k) @ 58 # jtext v) ms))"
    by (cases ms) (fastforce simp: commas_Cons list_all_iff)+
  then show ?case by simp
qed simp_all

definition jbytes :: "jval \<Rightarrow> cstring" where
  "jbytes v = map byte_of (jtext v)"

lemma syms_jbytes [simp]: "syms (jbytes v) = jtext v"
  using jtext_is_byte [of v] by (simp add: jbytes_def syms_map_byte_of list_all_iff)

lemma write_params_text:
  "written (write_params out n (map jbytes vs)) =
     written out @ (if n > 0 then concat (map (\<lambda>v. 44 # jtext v) vs) else commas (map jtext vs))"
proof (induction vs arbitrary: out n)
  case (Cons v vs)
  show ?case
    by (auto simp: Cons write_string_def commas_Cons comp_def)
qed simp

lemma write_name_text:
  "0 \<notin> set nm \<Longrightarrow> written (write_name out nm) = written out @ 34 # str_syms nm @ [34, 58]"
  by (simp add: write_name_def json_write_string_syms)

lemma write_props_text:
  "list_all (\<lambda>(nm, v). 0 \<notin> set nm) ps \<Longrightarrow>
   written (write_props out (map (\<lambda>(nm, v). (nm, jbytes v)) ps)) =
     written out @ concat (map (\<lambda>(nm, v). 44 # err_members.member (nm, V_json v)) ps)"
  by (induction ps arbitrary: out)
    (auto simp: write_string_def write_name_text err_members.member_def)

record report_data =
  rd_code :: int
  rd_time :: u64
  rd_format :: "cstring option"
  rd_params :: "jval list"
  rd_props :: "(cstring \<times> jval) list"

definition is_report :: "report_data \<Rightarrow> ErrorReport \<Rightarrow> bool" where
  "is_report d rep \<longleftrightarrow> er_code rep = rd_code d \<and> er_time_stamp rep = rd_time d \<and>
     er_format rep = rd_format d \<and> er_params rep = map jbytes (rd_params d) \<and>
     er_props rep = map (\<lambda>(nm, v). (nm, jbytes v)) (rd_props d)"

definition report_ok :: "report_data \<Rightarrow> bool" where
  "report_ok d \<longleftrightarrow> - (2 ^ 31) \<le> rd_code d \<and> rd_code d + STD_ERR_BASE < 2 ^ 31 \<and>
     (case rd_format d of None \<Rightarrow> True | Some f \<Rightarrow> 0 \<notin> set f) \<and>
     list_all (\<lambda>(nm, v). value_ok (nm, V_json v) \<and> length nm < 256) (rd_props d)"

definition report_tail :: "report_data \<Rightarrow> (cstring \<times> error_value) list" where
  "report_tail d =
     (if rd_time d \<noteq> 0 then [(cstr ''Time'', V_time (rd_time d))] else []) @
     (case rd_format d of None \<Rightarrow> [] | Some f \<Rightarrow> [(cstr ''Format'', V_format f)]) @
     (if rd_params d \<noteq> [] then [(cstr ''Params'', V_params (rd_params d))] else []) @
     map (\<lambda>(nm, v). (nm, V_json v)) (rd_props d)"

definition report_members :: "report_data \<Rightarrow> (cstring \<times> error_value) list" where
  "report_members d = (cstr ''Code'', V_code (rd_code d)) # report_tail d"

lemma cstr_no_zero [simp]:
  "0 \<notin> set (cstr ''Code'')" "0 \<notin> set (cstr ''Time'')" "0 \<notin> set (cstr ''Format'')"
  "0 \<notin> set (cstr ''Params'')"
  by (simp_all add: cstr_def)

lemma write_error_props_text:
  assumes "is_report d rep" "report_ok d"
  shows "written (write_error_props out rep) =
     written out @ concat (map (\<lambda>m. 44 # err_members.member m) (report_tail d))"
proof -
  have p: "list_all (\<lambda>(nm, v). 0 \<notin> set nm) (rd_props d)"
    using assms(2) by (auto simp: report_ok_def list_all_iff)
  have c: "(\<lambda>m. 44 # err_members.member m) \<circ> (\<lambda>(nm, v). (nm, V_json v)) =
      (\<lambda>(nm, v). 44 # err_members.member (nm, V_json v))"
    by auto
  define out1 where "out1 = (if er_time_stamp rep \<noteq> 0
                 then json_write_uint64 (write_name (write_stream out (chr CHR '','')) (cstr ''Time''))
                        (er_time_stamp rep)
                 else out)"
  define out2 where "out2 = (if er_format rep \<noteq> None
                 then json_write_string (write_name (write_stream out1 (chr CHR '','')) (cstr ''Format''))
                        (er_format rep)
                 else out1)"
  define out3 where "out3 = (if er_params rep \<noteq> []
                 then write_stream (write_params
                        (write_stream (write_name (write_stream out2 (chr CHR '','')) (cstr ''Params''))
                          (chr CHR ''[''))
                        0 (er_params rep)) (chr CHR '']'')
                 else out2)"
  have w1: "written out1 = written out @ (if rd_time d \<noteq> 0 then
      44 # err_members.member (cstr ''Time'', V_time (rd_time d)) else [])"
    using assms(1) by (simp add: out1_def is_report_def write_name_text err_members.member_def
        text_of_def json_write_uint64_eq json_write_ulong_dec)
  have w2: "written out2 = written out1 @ (case rd_format d of None \<Rightarrow> [] | Some f \<Rightarrow>
      44 # err_members.member (cstr ''Format'', V_format f))"
    using assms by (auto simp: out2_def is_report_def report_ok_def write_name_text err_members.member_def
        text_of_def json_write_string_syms split: option.splits)
  have w3: "written out3 = written out2 @ (if rd_params d \<noteq> [] then
      44 # err_members.member (cstr ''Params'', V_params (rd_params d)) else [])"
    using assms(1) by (simp add: out3_def is_report_def write_name_text err_members.member_def write_params_text)
  have "write_error_props out rep = write_props out3 (er_props rep)"
    by (simp add: write_error_props_def out1_def out2_def out3_def)
  moreover have "er_props rep = map (\<lambda>(nm, v). (nm, jbytes v)) (rd_props d)"
    using assms(1) by (simp add: is_report_def)
  ultimately show ?thesis
    using write_props_text [OF p, of out3] w1 w2 w3
    by (simp add: report_tail_def c split: option.splits)
qed

section \<open>Reading a report back\<close>

lemma fold_add_param:
  "er_params (fold add_param vs rep) = er_params rep @ map jbytes vs"
  "er_code (fold add_param vs rep) = er_code rep"
  "er_time_stamp (fold add_param vs rep) = er_time_stamp rep"
  "er_format (fold add_param vs rep) = er_format rep"
  "er_props (fold add_param vs rep) = er_props rep"
  by (induction vs arbitrary: rep) (simp_all add: add_param_def jbytes_def)

lemma fold_props:
  "fold apply_value (map (\<lambda>(nm, v). (nm, V_json v)) ps) rep =
     rep\<lparr>er_props := rev (map (\<lambda>(nm, v). (nm, jbytes v)) ps) @ er_props rep\<rparr>"
  by (induction ps arbitrary: rep) (auto simp: jbytes_def)

lemma fold_report_members:
  "is_report (d\<lparr>rd_props := rev (rd_props d)\<rparr>) (fold apply_value (report_members d) no_report)"
  by (auto simp: is_report_def report_members_def report_tail_def fold_props fold_add_param no_report_def
      rev_map split: option.splits)

lemma report_members_ok:
  "report_ok d \<Longrightarrow> list_all (\<lambda>m. value_ok m \<and> length (fst m) < 256) (report_members d)"
  by (auto simp: report_ok_def report_members_def report_tail_def cstr_def list_all_iff split: option.splits)

lemma read_report_members:
  assumes inv: "err_inv p" and ok: "report_ok d" and code: "rd_code d \<noteq> 0"
  shows "\<exists>no p' q rb. read_error_object p (123 # commas (map err_members.member (report_members d)) @ 125 # rest) =
       Inr (no, p', rest) \<and> err_inv p' \<and> is_message no \<and> em_report (msg_of p' no) = Some q \<and>
       es_reports p' q = Some rb \<and> is_report (d\<lparr>rd_props := rev (rd_props d)\<rparr>) (rb_pub rb)"
proof -
  let ?ms = "report_members d" and ?r = "es_next p"
  define rep where "rep = fold apply_value ?ms no_report"
  have rep: "is_report (d\<lparr>rd_props := rev (rd_props d)\<rparr>) rep" unfolding rep_def by (rule fold_report_members)
  obtain p1 where p1: "create_error_report p = (?r, p1)" by (simp add: create_error_report_def new_rep_def)
  define rb0 where "rb0 = \<lparr>rb_pub = no_report, rb_posix_code = 0, rb_refs = 1, rb_gets = 1\<rparr>"
  have new: "new_rep p rb0 = (?r, p1)" using p1 by (simp add: create_error_report_def rb0_def)
  have r1: "err_inv p1" "es_reports p1 ?r = Some rb0"
    using new_rep_inv [OF inv _ _ _ new] by (auto simp: rb0_def is_message_def)
  define p2 where "p2 = put_rep p1 ?r (rb0\<lparr>rb_pub := rep\<rparr>)"
  have r2: "err_inv p2" "es_reports p2 ?r = Some (rb0\<lparr>rb_pub := rep\<rparr>)"
  proof -
    have "rep_ok (slots (es_msgs p1) ?r) (Some (rb0\<lparr>rb_pub := rep\<rparr>))"
      using err_invD(4) [OF r1(1), of ?r] r1(2) by (simp add: rep_ok_def)
    then show "err_inv p2" unfolding p2_def by (rule err_inv_put_rep [OF r1(1) err_inv_held [OF r1]])
    show "es_reports p2 ?r = Some (rb0\<lparr>rb_pub := rep\<rparr>)" by (simp add: p2_def put_rep_def)
  qed
  have fold: "fold update_rep ?ms (p, None) = (p2, Some ?r)"
  proof -
    have "update_rep m (p, None) = update_rep m (p1, Some ?r)" for m
      using p1 r1(2) by (simp add: update_rep_def ensure_rep_def)
    then have "fold update_rep ?ms (p, None) = fold update_rep ?ms (p1, Some ?r)"
      by (simp add: report_members_def)
    then show ?thesis using update_reps [OF r1(2), of ?ms] by (simp add: report_members_def rep_def p2_def rb0_def)
  qed
  obtain ds where ds: "commas (map err_members.member ?ms) @ 125 # rest = 34 # ds"
    using commas_head [of "map err_members.member ?ms" "125 # rest"]
    by (auto simp: report_members_def err_members.member_def)
  have mok: "err_members.members_ok ?ms (p, None)"
    by (subst members_ok_iff) (simp add: live_arg_def, rule report_members_ok [OF ok])
  have len: "length ?ms \<le> length (34 # ds) + 1"
    using err_members.length_commas_member [of ?ms rest] unfolding ds by simp
  have loop: "struct_loop (length (34 # ds) + 1) read_error_member (34 # ds) (p, None) = Inr ((p2, Some ?r), rest)"
    using err_members.struct_loop_members [OF _ mok len, of rest] fold unfolding ds by (simp add: report_members_def)
  have c: "er_code rep = rd_code d" using rep by (simp add: is_report_def)
  have held: "rb_gets (rb0\<lparr>rb_pub := rep\<rparr>) > 0" by (simp add: rb0_def)
  have "er_code (rb_pub (rb0\<lparr>rb_pub := rep\<rparr>)) + STD_ERR_BASE < 2 ^ 31"
    using c ok by (simp add: report_ok_def)
  then obtain p3 where p3:
    "set_error_report_errno p2 (Some ?r) = Inr (ERR_MESSAGE_MIN + int (es_msgs_pos p2), p3)" "err_inv p3"
    "em_report (es_msgs p3 ! es_msgs_pos p2) = Some ?r"
    "\<exists>rep'. es_reports p3 ?r = Some rep' \<and> rb_pub rep' = rb_pub (rb0\<lparr>rb_pub := rep\<rparr>) \<and>
      rb_gets rep' = rb_gets (rb0\<lparr>rb_pub := rep\<rparr>)"
    by (rule set_error_report_errno_inv [OF r2 held])
  from p3(4) obtain rep3 where rep3: "es_reports p3 ?r = Some rep3" "rb_pub rep3 = rep" "rb_gets rep3 = 1"
    by (auto simp: rb0_def)
  from rep3(3) have "rb_gets rep3 > 0" by simp
  then obtain p4 where p4:
    "release_error_report p3 (Some ?r) = Inr p4" "err_inv p4" "es_msgs p4 = es_msgs p3"
    "\<forall>q rep'. es_reports p4 q = Some rep' \<longrightarrow> (\<exists>rep. es_reports p3 q = Some rep \<and> rb_pub rep' = rb_pub rep)"
    using release_error_report_inv [OF p3(2) rep3(1)] by metis
  let ?no = "ERR_MESSAGE_MIN + int (es_msgs_pos p2)"
  have i: "es_msgs_pos p2 < MESSAGE_CNT" by (rule err_invD(2) [OF r2(1)])
  have m: "is_message ?no" "em_report (msg_of p4 ?no) = Some ?r"
    using i p3(3) p4(3) by (auto simp: is_message_def msg_of_def)
  obtain rb where "es_reports p4 ?r = Some rb"
    using err_inv_slot [OF p4(2) i] p3(3) p4(3) by metis
  moreover from p4(4) this rep3 have "rb_pub rb = rep" by (metis option.inject)
  moreover have "read_error_object p (123 # 34 # ds) = Inr (?no, p4, rest)"
    using loop r2(2) c code p3(1) p4(1)
    by (simp add: read_error_object_def isspace_def json_peek_def get_rep_def del: struct_loop.simps)
  ultimately show ?thesis
    using p4(2) m rep ds by auto
qed

lemma write_error_object_text:
  assumes inv: "err_inv s" and get: "get_error_report env s err = Inr (Some r, s1)"
    and rep: "es_reports s1 r = Some rep" "is_report d (rb_pub rep)" and ok: "report_ok d"
  shows "\<exists>out' s'. write_error_object env out s err = Inr (out', s') \<and> err_inv s' \<and>
     written out' = written out @ 123 # commas (map err_members.member (report_members d)) @ [125]"
proof -
  have inv1: "err_inv s1" by (rule get_error_report_inv [OF inv get])
  have "rb_gets rep > 0" using get_error_report_held [OF inv get] rep(1) by auto
  then obtain s2 where s2: "release_error_report s1 (Some r) = Inr s2" "err_inv s2"
    using release_error_report_inv [OF inv1 rep(1)] by metis
  have c: "er_code (rb_pub rep) = rd_code d" using rep(2) by (simp add: is_report_def)
  let ?out1 = "json_write_long (write_name (write_stream out (chr CHR ''{'')) (cstr ''Code'')) (word_of_int (rd_code d))"
  let ?out2 = "write_stream (write_error_props ?out1 (rb_pub rep)) (chr CHR ''}'')"
  have "write_error_object env out s err = Inr (?out2, s2)"
    using get rep(1) s2(1) c by (simp add: write_error_object_def get_rep_def)
  moreover have "written ?out1 = written out @ 123 # err_members.member (cstr ''Code'', V_code (rd_code d))"
    by (simp add: err_members.member_def write_name_text text_of_def json_write_long_dec)
  then have "written ?out2 = written out @ 123 # commas (map err_members.member (report_members d)) @ [125]"
    using write_error_props_text [OF rep(2) ok, of ?out1]
    by (simp add: report_members_def commas_Cons comp_def)
  ultimately show ?thesis using s2(2) by blast
qed

section \<open>Properties\<close>

text \<open>C11: Errors cross a channel unharmed. When one agent writes an error, whatever its report
  holds, and the other one reads the text, the second one gets an error number of its own whose
  report has the same code, time, format and parameters, and the same additional properties in
  reverse order; nothing behind the object is consumed.\<close>

theorem error_object_roundtrip:
  assumes "err_reach env s" "get_error_report env s err = Inr (Some r, s1)"
    and "es_reports s1 r = Some rep" "is_report d (rb_pub rep)" "report_ok d" "rd_code d \<noteq> 0"
    and "err_reach env' p"
  shows "\<exists>out' s' txt no p' q rb. write_error_object env out s err = Inr (out', s') \<and>
     written out' = written out @ txt \<and> read_error_object p (txt @ rest) = Inr (no, p', rest) \<and>
     is_message no \<and> em_report (msg_of p' no) = Some q \<and> es_reports p' q = Some rb \<and>
     is_report (d\<lparr>rd_props := rev (rd_props d)\<rparr>) (rb_pub rb)"
proof -
  obtain out' s' where "write_error_object env out s err = Inr (out', s')"
    "written out' = written out @ 123 # commas (map err_members.member (report_members d)) @ [125]"
    using write_error_object_text [OF err_reach_inv [OF assms(1)] assms(2-5)] by blast
  with read_report_members [OF err_reach_inv [OF assms(7)] assms(5,6), of rest] show ?thesis
    by fastforce
qed

theorem error_object_roundtrip_witness:
  "\<exists>out' s' txt no p' q rb.
     write_error_object sample_env \<lparr>supports_zero_copy = False, written = []\<rparr> ini_errors (err_no ERR_PROTOCOL) =
       Inr (out', s') \<and>
     written out' = [] @ txt \<and> read_error_object ini_errors (txt @ [0]) = Inr (no, p', [0]) \<and>
     is_message no \<and> em_report (msg_of p' no) = Some q \<and> es_reports p' q = Some rb \<and>
     is_report (\<lparr>rd_code = 3, rd_time = 0, rd_format = Some (cstr ''Protocol format error''),
       rd_params = [], rd_props = []\<rparr>\<lparr>rd_props := rev []\<rparr>) (rb_pub rb)"
proof -
  let ?d = "\<lparr>rd_code = 3, rd_time = 0, rd_format = Some (cstr ''Protocol format error''),
    rd_params = [], rd_props = []\<rparr>"
  let ?rep = "\<lparr>rb_pub = no_report\<lparr>er_format := Some (cstr ''Protocol format error''), er_code := 3\<rparr>,
    rb_posix_code = 0, rb_refs = 1, rb_gets = 1\<rparr>"
  have f: "chain_fuel = Suc 100" by simp
  have "errno_to_str chain_fuel sample_env ini_errors (err_no ERR_PROTOCOL) =
      Inr (Some (cstr ''Protocol format error''))"
    unfolding f errno_to_str.simps by (simp add: err_table_def err_no_def)
  then have g: "get_error_report sample_env ini_errors (err_no ERR_PROTOCOL) =
      Inr (Some 0, (put_rep ini_errors 0 ?rep)\<lparr>es_next := 1\<rparr>)"
    by (simp add: get_error_report_def make_report_def sample_env_def is_message_def err_no_def err_table_def
        new_rep_def ini_errors_def no_report_def)
  have "is_report ?d (rb_pub ?rep)" by (simp add: is_report_def no_report_def)
  moreover have "report_ok ?d" by (simp add: report_ok_def cstr_def)
  ultimately show ?thesis
    using error_object_roundtrip [OF err_reach.ini g, of ?rep ?d sample_env ini_errors
        "\<lparr>supports_zero_copy = False, written = []\<rparr>" "[0]"] err_reach.ini
    by (simp add: put_rep_def)
qed

end
