(* ===== verification/Protocol.thy ===== *)
theory Protocol
  imports Actions JsonError
begin

text \<open>
  \<^verbatim>\<open>framework/protocol.c\<close>: dispatching of the messages of a channel. Commands go to the
  handlers registered for a protocol, events to the handlers registered for a channel, replies to
  the handler of the command that they answer; a channel is opened by an exchange of Hello
  messages.

  \<^item> A pointer to a protocol or to a channel is its address, since the hash functions use it. The
    protocols and channels that exist are maps from addresses; the use of an address that is not in
    the map is undefined, as is in C any use of a pointer to an object that has been freed. \<^verbatim>\<open>malloc\<close> chooses the address of a new object: it is an argument.

  \<^item> A bucket of a hash table is a list, a table a function of the bucket's number. A pointer to a
    \<^verbatim>\<open>ServiceInfo\<close> is the pair of owner and name, of which there is at most one in the list
    \<^verbatim>\<open>services\<close>; following it when it is not in the list is undefined. Reply handlers have
    addresses (numbers that are never used again), because \<^verbatim>\<open>channel_closed\<close> holds pointers into
    their lists while it calls other code.

  \<^item> Handlers, listeners and the default handler of a protocol are code of the clients: a function
    pointer is a number, and the argument \<open>env\<close> says what the function does to the state. The
    listeners of channels (\<^verbatim>\<open>framework/channel.c\<close>) are registered at initialisation; \<open>env\<close>
    lists the ones called before and after \<^verbatim>\<open>channel_closed\<close>.

  \<^item> The input and output of a channel are the symbol streams that the channel implements. After an
    exception of a JSON reader the model leaves the input where the reader started; the transport
    discards the input of a channel after an exception.

  \<^item> The table sizes are those of \<^verbatim>\<open>MEM_USAGE_FACTOR\<close> 32, \<^verbatim>\<open>char\<close> is signed, and
    \<^verbatim>\<open>ENABLE_ZeroCopy\<close> is on, as in the Linux build. All calls are made by the event thread.
\<close>

section \<open>Data\<close>

type_synonym addr = u64

datatype ChannelState =
    ChannelStateStartWait | ChannelStateStarted | ChannelStateHelloSent
  | ChannelStateHelloReceived | ChannelStateConnected | ChannelStateRedirectSent
  | ChannelStateRedirectReceived | ChannelStateDisconnected

datatype ReplyHandlerCB = redirect_done | ReplyCB nat
datatype CommandHandlerCB = command_handler_old | CommandCB nat
datatype EventHandlerCB = event_handler_old | EventCB nat
datatype MessageHandlerCB = message_handler_old | MessageCB nat

text \<open>What a \<^verbatim>\<open>void *\<close> for a handler points to: data of the client, a function that was cast, or a
  \<^verbatim>\<open>struct sendRedirectInfo\<close>.\<close>

datatype client_data =
  NullData | Pointer nat | Function nat | sendRedirectInfo ReplyHandlerCB client_data

record ServiceInfo =
  si_owner :: addr
  si_name :: cstring

record MessageHandlerInfo =
  mh_p :: addr
  mh_service :: ServiceInfo
  mh_name :: cstring
  mh_handler :: CommandHandlerCB
  mh_client_data :: client_data

record EventHandlerInfo =
  eh_c :: addr
  eh_service :: ServiceInfo
  eh_name :: cstring
  eh_handler :: EventHandlerCB
  eh_client_data :: client_data

record ReplyHandlerInfo =
  rh_addr :: nat
  rh_tokenid :: u64
  rh_c :: addr
  rh_handler :: "ReplyHandlerCB option"
  rh_progress :: "nat option"
  rh_client_data :: client_data

record Protocol =
  pr_id :: int
  pr_lock_cnt :: int
  pr_tokenid :: u64
  pr_default_handler :: "MessageHandlerCB option"
  pr_client_data :: client_data

record Channel =
  ch_inp :: istream
  ch_out :: OutputStream
  ch_protocol :: addr
  ch_peer_service_list :: "cstring list option"
  ch_congestion_level :: int
  ch_state :: ChannelState
  ch_disable_zero_copy :: bool
  ch_connected :: "nat option"

text \<open>The static variables, the objects that exist, the posted calls of
  \<^verbatim>\<open>send_command_failed\<close>, the state of the error service, and the state of the clients.\<close>

record 'u PState =
  services :: "ServiceInfo list"
  message_handlers :: "nat \<Rightarrow> MessageHandlerInfo list"
  event_handlers :: "nat \<Rightarrow> EventHandlerInfo list"
  reply_handlers :: "nat \<Rightarrow> ReplyHandlerInfo list"
  ini_done :: bool
  proto_cnt :: int
  agent_id :: "cstring option"
  protocols :: "addr \<Rightarrow> Protocol option"
  channels :: "addr \<Rightarrow> Channel option"
  posted_failed :: "ReplyHandlerInfo list"
  next_rh :: nat
  error_state :: ErrorState
  client_state :: 'u

type_synonym ('u, 'a) pact = "('u PState, 'a) act"

record 'u ProtoEnv =
  env_command :: "nat \<Rightarrow> cstring \<Rightarrow> addr \<Rightarrow> client_data \<Rightarrow> ('u, unit) pact"
  env_command_old :: "nat \<Rightarrow> cstring \<Rightarrow> addr \<Rightarrow> ('u, unit) pact"
  env_event :: "nat \<Rightarrow> addr \<Rightarrow> client_data \<Rightarrow> ('u, unit) pact"
  env_event_old :: "nat \<Rightarrow> addr \<Rightarrow> ('u, unit) pact"
  env_message :: "nat \<Rightarrow> addr \<Rightarrow> cstring list \<Rightarrow> client_data \<Rightarrow> ('u, unit) pact"
  env_message_old :: "nat \<Rightarrow> addr \<Rightarrow> cstring list \<Rightarrow> ('u, unit) pact"
  env_reply :: "nat \<Rightarrow> addr \<Rightarrow> client_data \<Rightarrow> int \<Rightarrow> ('u, unit) pact"
  env_progress :: "nat \<Rightarrow> addr \<Rightarrow> client_data \<Rightarrow> ('u, unit) pact"
  env_connected :: "nat \<Rightarrow> addr \<Rightarrow> ('u, unit) pact"
  env_open_listeners :: "(addr \<Rightarrow> ('u, unit) pact) list"
  env_close_before :: "(addr \<Rightarrow> ('u, unit) pact) list"
  env_close_after :: "(addr \<Rightarrow> ('u, unit) pact) list"
  env_uuid :: cstring

abbreviation MESSAGE_HASH_SIZE :: u32 where "MESSAGE_HASH_SIZE \<equiv> 159"
abbreviation EVENT_HASH_SIZE :: u32 where "EVENT_HASH_SIZE \<equiv> 127"
abbreviation REPLY_HASH_SIZE :: u32 where "REPLY_HASH_SIZE \<equiv> 127"

section \<open>Access to the objects\<close>

definition get_chan :: "addr \<Rightarrow> ('u, Channel) pact" where
  "get_chan c = (\<lambda>s. case channels s c of None \<Rightarrow> (Inl Undefined_Behaviour, s) | Some ch \<Rightarrow> (Inr ch, s))"

definition upd_chan :: "addr \<Rightarrow> (Channel \<Rightarrow> Channel) \<Rightarrow> ('u, unit) pact" where
  "upd_chan c f = bnd (get_chan c) (\<lambda>ch. modify (\<lambda>s. s\<lparr>channels := (channels s)(c \<mapsto> f ch)\<rparr>))"

definition get_prot :: "addr \<Rightarrow> ('u, Protocol) pact" where
  "get_prot p = (\<lambda>s. case protocols s p of None \<Rightarrow> (Inl Undefined_Behaviour, s) | Some pr \<Rightarrow> (Inr pr, s))"

definition upd_prot :: "addr \<Rightarrow> (Protocol \<Rightarrow> Protocol) \<Rightarrow> ('u, unit) pact" where
  "upd_prot p f = bnd (get_prot p) (\<lambda>pr. modify (\<lambda>s. s\<lparr>protocols := (protocols s)(p \<mapsto> f pr)\<rparr>))"

definition set_state :: "addr \<Rightarrow> ChannelState \<Rightarrow> ('u, unit) pact" where
  "set_state c st = upd_chan c (\<lambda>ch. ch\<lparr>ch_state := st\<rparr>)"

text \<open>A function that reads from \<^verbatim>\<open>c->inp\<close>, one that writes to \<^verbatim>\<open>c->out\<close>, and a JSON reader.\<close>

definition ch_read :: "addr \<Rightarrow> (istream \<Rightarrow> 'a outcome \<times> istream) \<Rightarrow> ('u, 'a) pact" where
  "ch_read c f = bnd (get_chan c) (\<lambda>ch s.
     let (r, inp) = f (ch_inp ch) in (r, s\<lparr>channels := (channels s)(c \<mapsto> ch\<lparr>ch_inp := inp\<rparr>)\<rparr>))"

definition ch_write :: "addr \<Rightarrow> (OutputStream \<Rightarrow> OutputStream) \<Rightarrow> ('u, unit) pact" where
  "ch_write c f = upd_chan c (\<lambda>ch. ch\<lparr>ch_out := f (ch_out ch)\<rparr>)"

definition json_reader :: "(istream \<Rightarrow> ('a \<times> istream) outcome) \<Rightarrow> istream \<Rightarrow> 'a outcome \<times> istream" where
  "json_reader f inp = (case f inp of Inl e \<Rightarrow> (Inl e, inp) | Inr (x, inp) \<Rightarrow> (Inr x, inp))"

definition ch_test_char :: "addr \<Rightarrow> int \<Rightarrow> ('u, unit) pact" where
  "ch_test_char c x = ch_read c (json_reader (\<lambda>inp. rbind (json_test_char inp x) (\<lambda>inp. Inr ((), inp))))"

definition ch_read_errno :: "addr \<Rightarrow> ('u, int) pact" where
  "ch_read_errno c = bnd (get_chan c) (\<lambda>ch s.
     case read_errno (error_state s) (ch_inp ch) of
       Inl e \<Rightarrow> (Inl e, s)
     | Inr (no, es, inp) \<Rightarrow>
         (Inr no, s\<lparr>error_state := es, channels := (channels s)(c \<mapsto> ch\<lparr>ch_inp := inp\<rparr>)\<rparr>))"

section \<open>Readers\<close>

text \<open>\<^verbatim>\<open>read_stringz\<close> keeps at most \<^verbatim>\<open>size - 1\<close> bytes.\<close>

fun read_stringz_loop :: "nat \<Rightarrow> cstring \<Rightarrow> istream \<Rightarrow> cstring outcome \<times> istream" where
  "read_stringz_loop sz str [] = (exception ERR_PROTOCOL, [])"
| "read_stringz_loop sz str (ch # inp) =
     (if ch \<le> 0 then (if ch = 0 then (Inr str, inp) else (exception ERR_PROTOCOL, inp))
      else read_stringz_loop sz (if length str < sz - 1 then str @ [byte_of ch] else str) inp)"

definition read_stringz :: "nat \<Rightarrow> istream \<Rightarrow> cstring outcome \<times> istream" where
  "read_stringz sz inp = read_stringz_loop sz [] inp"

fun skip_loop :: "istream \<Rightarrow> istream" where
  "skip_loop [] = []"
| "skip_loop (ch # inp) = (if ch = MARKER_EOM then inp else if ch = MARKER_EOS then inp else skip_loop inp)"

definition skip_until_EOM :: "addr \<Rightarrow> ('u, unit) pact" where
  "skip_until_EOM c = ch_read c (\<lambda>inp. (Inr (), skip_loop inp))"

text \<open>\<^verbatim>\<open>strtoul(token, &endptr, 10)\<close> of the C library, and whether \<^verbatim>\<open>errno\<close> is still 0 and
  \<^verbatim>\<open>endptr\<close> at the end of the string. Without digits nothing is converted: the value is 0 and
  \<^verbatim>\<open>endptr\<close> the start of the string. A minus sign negates the unsigned value.\<close>

fun strtoul_digits :: "int \<Rightarrow> cstring \<Rightarrow> int \<times> cstring" where
  "strtoul_digits n [] = (n, [])"
| "strtoul_digits n (b # bs) =
     (if is_digit (uint b) then strtoul_digits (n * 10 + (uint b - 48)) bs else (n, b # bs))"

definition strtoul :: "cstring \<Rightarrow> u64 \<times> bool \<times> cstring" where
  "strtoul str =
     (let rest = dropWhile (\<lambda>b. isspace (uint b)) str;
          neg = (rest \<noteq> [] \<and> uint (hd rest) = chr CHR ''-'');
          digits = (if rest \<noteq> [] \<and> (uint (hd rest) = chr CHR ''-'' \<or> uint (hd rest) = chr CHR ''+'')
                    then tl rest else rest)
      in if digits = [] \<or> \<not> is_digit (uint (hd digits)) then (0, False, str)
         else let (n, endptr) = strtoul_digits 0 digits in
           if n \<ge> 2 ^ 64 then (- 1, True, endptr)
           else (if neg then - word_of_int n else word_of_int n, False, endptr))"

section \<open>Services\<close>

definition protocol_get_service :: "addr \<Rightarrow> cstring \<Rightarrow> ('u, ServiceInfo) pact" where
  "protocol_get_service owner name =
     (let si = \<lparr>si_owner = owner, si_name = name\<rparr> in
      bnd (look services) (\<lambda>ss.
      if si \<in> set ss then ret si
      else seq (check (\<lambda>_. name \<noteq> cstr ''ZeroCopy''))
          (seq (modify (\<lambda>s. s\<lparr>services := si # services s\<rparr>)) (ret si))))"

definition free_services :: "addr \<Rightarrow> ('u, unit) pact" where
  "free_services owner = modify (\<lambda>s. s\<lparr>services := filter (\<lambda>si. si_owner si \<noteq> owner) (services s)\<rparr>)"

definition service_name :: "ServiceInfo list \<Rightarrow> ServiceInfo \<Rightarrow> cstring outcome" where
  "service_name ss si = (if si \<in> set ss then Inr (si_name si) else Inl Undefined_Behaviour)"

section \<open>Handler tables\<close>

definition sum_chars :: "u32 \<Rightarrow> cstring \<Rightarrow> u32" where
  "sum_chars h str = foldl (\<lambda>h b. h + scast b) h str"

definition message_hash :: "addr \<Rightarrow> cstring \<Rightarrow> cstring \<Rightarrow> nat" where
  "message_hash p service name =
     (let h = sum_chars (sum_chars (drop_bit 4 (ucast p)) service) name;
          h = h + h div MESSAGE_HASH_SIZE
      in unat (h mod MESSAGE_HASH_SIZE))"

fun find_mh :: "ServiceInfo list \<Rightarrow> addr \<Rightarrow> cstring \<Rightarrow> cstring \<Rightarrow> MessageHandlerInfo list \<Rightarrow>
    MessageHandlerInfo option outcome" where
  "find_mh ss p service name [] = Inr None"
| "find_mh ss p service name (mh # rest) =
     (if mh_p mh = p then
        rbind (service_name ss (mh_service mh)) (\<lambda>sn.
          if sn = service \<and> mh_name mh = name then Inr (Some mh) else find_mh ss p service name rest)
      else find_mh ss p service name rest)"

definition find_message_handler ::
    "addr \<Rightarrow> cstring \<Rightarrow> cstring \<Rightarrow> ('u, MessageHandlerInfo option) pact" where
  "find_message_handler p service name = (\<lambda>s.
     (find_mh (services s) p service name (message_handlers s (message_hash p service name)), s))"

definition event_hash :: "addr \<Rightarrow> cstring \<Rightarrow> cstring \<Rightarrow> nat" where
  "event_hash c service name =
     (let h = sum_chars (sum_chars (drop_bit 4 (ucast c)) service) name;
          h = h + h div EVENT_HASH_SIZE
      in unat (h mod EVENT_HASH_SIZE))"

fun find_eh :: "ServiceInfo list \<Rightarrow> addr \<Rightarrow> cstring \<Rightarrow> cstring \<Rightarrow> EventHandlerInfo list \<Rightarrow>
    EventHandlerInfo option outcome" where
  "find_eh ss c service name [] = Inr None"
| "find_eh ss c service name (eh # rest) =
     (if eh_c eh = c then
        rbind (service_name ss (eh_service eh)) (\<lambda>sn.
          if sn = service \<and> eh_name eh = name then Inr (Some eh) else find_eh ss c service name rest)
      else find_eh ss c service name rest)"

definition find_event_handler ::
    "addr \<Rightarrow> cstring \<Rightarrow> cstring \<Rightarrow> ('u, EventHandlerInfo option) pact" where
  "find_event_handler c service name = (\<lambda>s.
     (find_eh (services s) c service name (event_handlers s (event_hash c service name)), s))"

definition reply_hash :: "addr \<Rightarrow> u64 \<Rightarrow> nat" where
  "reply_hash c tokenid = unat ((drop_bit 4 (ucast c) + ucast tokenid :: u32) mod REPLY_HASH_SIZE)"

definition is_reply :: "addr \<Rightarrow> u64 \<Rightarrow> ReplyHandlerInfo \<Rightarrow> bool" where
  "is_reply c tokenid rh \<longleftrightarrow> rh_c rh = c \<and> rh_tokenid rh = tokenid"

fun unlink :: "('a \<Rightarrow> bool) \<Rightarrow> 'a list \<Rightarrow> 'a list" where
  "unlink P [] = []"
| "unlink P (x # xs) = (if P x then xs else x # unlink P xs)"

definition find_reply_handler :: "addr \<Rightarrow> u64 \<Rightarrow> bool \<Rightarrow> ('u, ReplyHandlerInfo option) pact" where
  "find_reply_handler c tokenid tk = (\<lambda>s.
     let h = reply_hash c tokenid; rhs = reply_handlers s h in
     case find (is_reply c tokenid) rhs of
       None \<Rightarrow> (Inr None, s)
     | Some rh \<Rightarrow> (Inr (Some rh),
         if tk then s\<lparr>reply_handlers := (reply_handlers s)(h := unlink (is_reply c tokenid) rhs)\<rparr> else s))"

definition set_default_message_handler2 ::
    "addr \<Rightarrow> MessageHandlerCB option \<Rightarrow> client_data \<Rightarrow> ('u, unit) pact" where
  "set_default_message_handler2 p handler cdata =
     upd_prot p (\<lambda>pr. pr\<lparr>pr_default_handler := handler, pr_client_data := cdata\<rparr>)"

definition set_default_message_handler :: "addr \<Rightarrow> nat \<Rightarrow> ('u, unit) pact" where
  "set_default_message_handler p f = set_default_message_handler2 p (Some message_handler_old) (Function f)"

definition add_command_handler2 ::
    "addr \<Rightarrow> cstring \<Rightarrow> cstring \<Rightarrow> CommandHandlerCB \<Rightarrow> client_data \<Rightarrow> ('u, unit) pact" where
  "add_command_handler2 p service name handler cdata =
     (let h = message_hash p service name in
      bnd (get_prot p) (\<lambda>_.
      bnd (protocol_get_service p service) (\<lambda>si.
      let mh = \<lparr>mh_p = p, mh_service = si, mh_name = name, mh_handler = handler, mh_client_data = cdata\<rparr> in
      modify (\<lambda>s. s\<lparr>message_handlers := (message_handlers s)(h := mh # message_handlers s h)\<rparr>))))"

definition add_command_handler :: "addr \<Rightarrow> cstring \<Rightarrow> cstring \<Rightarrow> nat \<Rightarrow> ('u, unit) pact" where
  "add_command_handler p service name f =
     add_command_handler2 p service name command_handler_old (Function f)"

definition add_event_handler2 ::
    "addr \<Rightarrow> cstring \<Rightarrow> cstring \<Rightarrow> EventHandlerCB \<Rightarrow> client_data \<Rightarrow> ('u, unit) pact" where
  "add_event_handler2 c service name handler cdata =
     (let h = event_hash c service name in
      bnd (get_chan c) (\<lambda>_.
      bnd (protocol_get_service c service) (\<lambda>si.
      let eh = \<lparr>eh_c = c, eh_service = si, eh_name = name, eh_handler = handler, eh_client_data = cdata\<rparr> in
      modify (\<lambda>s. s\<lparr>event_handlers := (event_handlers s)(h := eh # event_handlers s h)\<rparr>))))"

definition add_event_handler :: "addr \<Rightarrow> cstring \<Rightarrow> cstring \<Rightarrow> nat \<Rightarrow> ('u, unit) pact" where
  "add_event_handler c service name f =
     add_event_handler2 c service name event_handler_old (Function f)"

section \<open>Sending commands\<close>

definition is_channel_closed :: "Channel \<Rightarrow> bool" where
  "is_channel_closed ch \<longleftrightarrow> ch_state ch = ChannelStateDisconnected"

text \<open>The loop that takes the next token for which no reply is pending. A round is left without a
  token only if a pending reply has that token, so that one round more than there are replies
  pending is enough.\<close>

fun new_token :: "nat \<Rightarrow> addr \<Rightarrow> addr \<Rightarrow> ('u, u64) pact" where
  "new_token 0 p c = fault Out_Of_Fuel"
| "new_token (Suc fuel) p c =
     bnd (get_prot p) (\<lambda>pr.
     seq (upd_prot p (\<lambda>pr. pr\<lparr>pr_tokenid := pr_tokenid pr + 1\<rparr>))
     (bnd (find_reply_handler c (pr_tokenid pr) False) (\<lambda>rh.
       if rh \<noteq> None then new_token fuel p c else ret (pr_tokenid pr))))"

definition pending_cnt :: "'u PState \<Rightarrow> nat" where
  "pending_cnt s = sum_list (map (\<lambda>h. length (reply_handlers s h)) [0..<unat REPLY_HASH_SIZE])"

definition alloc_rh :: "addr \<Rightarrow> ReplyHandlerCB option \<Rightarrow> nat option \<Rightarrow> client_data \<Rightarrow> ('u, ReplyHandlerInfo) pact" where
  "alloc_rh c handler progress cdata = bnd (look next_rh) (\<lambda>a.
     seq (modify (\<lambda>s. s\<lparr>next_rh := a + 1\<rparr>))
     (ret \<lparr>rh_addr = a, rh_tokenid = 0, rh_c = c, rh_handler = handler, rh_progress = progress,
           rh_client_data = cdata\<rparr>))"

definition protocol_send_command_with_progress :: "addr \<Rightarrow> cstring \<Rightarrow> cstring \<Rightarrow>
    ReplyHandlerCB option \<Rightarrow> nat option \<Rightarrow> client_data \<Rightarrow> ('u, ReplyHandlerInfo) pact" where
  "protocol_send_command_with_progress c service name handler progress cdata =
     bnd (get_chan c) (\<lambda>ch.
     bnd (alloc_rh c handler progress cdata) (\<lambda>rh.
     if is_channel_closed ch \<or> ch_peer_service_list ch = None
     then seq (modify (\<lambda>s. s\<lparr>posted_failed := posted_failed s @ [rh]\<rparr>)) (ret rh)
     else
       bnd (look pending_cnt) (\<lambda>n.
       bnd (new_token (n + 1) (ch_protocol ch) c) (\<lambda>tokenid.
       let rh = rh\<lparr>rh_tokenid := tokenid\<rparr>; h = reply_hash c tokenid in
       seq (ch_write c (\<lambda>out. write_stringz out (cstr ''C'')))
       (seq (ch_write c (\<lambda>out. json_write_ulong out tokenid))
       (seq (ch_write c (\<lambda>out. write_stream out 0))
       (seq (ch_write c (\<lambda>out. write_stringz out service))
       (seq (ch_write c (\<lambda>out. write_stringz out name))
       (seq (modify (\<lambda>s. s\<lparr>reply_handlers := (reply_handlers s)(h := rh # reply_handlers s h)\<rparr>))
       (ret rh))))))))))"

definition protocol_send_command ::
    "addr \<Rightarrow> cstring \<Rightarrow> cstring \<Rightarrow> ReplyHandlerCB option \<Rightarrow> client_data \<Rightarrow> ('u, ReplyHandlerInfo) pact" where
  "protocol_send_command c service name handler cdata =
     protocol_send_command_with_progress c service name handler None cdata"

definition begin_redirect :: "addr \<Rightarrow> ReplyHandlerCB \<Rightarrow> client_data \<Rightarrow> ('u, ReplyHandlerInfo) pact" where
  "begin_redirect c handler cdata =
     bnd (get_chan c) (\<lambda>ch.
     seq (check (\<lambda>_. ch_state ch = ChannelStateConnected))
     (seq (set_state c ChannelStateRedirectSent)
     (protocol_send_command c (cstr ''Locator'') (cstr ''redirect'') (Some redirect_done)
        (sendRedirectInfo handler cdata))))"

definition send_redirect_command_by_id ::
    "addr \<Rightarrow> cstring \<Rightarrow> ReplyHandlerCB \<Rightarrow> client_data \<Rightarrow> ('u, ReplyHandlerInfo) pact" where
  "send_redirect_command_by_id c peerId handler cdata =
     bnd (begin_redirect c handler cdata) (\<lambda>rh.
     seq (ch_write c (\<lambda>out. json_write_string out (Some peerId)))
     (seq (ch_write c (\<lambda>out. write_stream out 0))
     (seq (ch_write c (\<lambda>out. write_stream out MARKER_EOM)) (ret rh))))"

fun write_peer_props :: "nat \<Rightarrow> (cstring \<times> cstring) list \<Rightarrow> OutputStream \<Rightarrow> OutputStream" where
  "write_peer_props i [] out = out"
| "write_peer_props i ((name, val) # ps) out =
     (let out = (if i > 0 then write_stream out (chr CHR '','') else out);
          out = write_stream (json_write_string out (Some name)) (chr CHR '':'')
      in write_peer_props (i + 1) ps (json_write_string out (Some val)))"

definition send_redirect_command_by_props ::
    "addr \<Rightarrow> (cstring \<times> cstring) list \<Rightarrow> ReplyHandlerCB \<Rightarrow> client_data \<Rightarrow> ('u, ReplyHandlerInfo) pact" where
  "send_redirect_command_by_props c ps handler cdata =
     bnd (begin_redirect c handler cdata) (\<lambda>rh.
     seq (ch_write c (\<lambda>out. write_stream out (chr CHR ''{'')))
     (seq (ch_write c (write_peer_props 0 ps))
     (seq (ch_write c (\<lambda>out. write_stream out (chr CHR ''}'')))
     (seq (ch_write c (\<lambda>out. write_stream out 0))
     (seq (ch_write c (\<lambda>out. write_stream out MARKER_EOM)) (ret rh))))))"

section \<open>Replies\<close>

text \<open>\<^verbatim>\<open>redirect_done\<close> up to the call of the client's handler; the result is the error that the
  handler gets. The listeners are told when the redirection succeeded.\<close>

definition redirect_state :: "(addr \<Rightarrow> ('u, unit) pact) \<Rightarrow> addr \<Rightarrow> int \<Rightarrow> ('u, int) pact" where
  "redirect_state notify c error =
     bnd (get_chan c) (\<lambda>ch.
     if error = 0 then
       seq (check (\<lambda>_. ch_state ch = ChannelStateRedirectSent))
       (bnd (ch_read_errno c) (\<lambda>error.
       seq (ch_test_char c MARKER_EOM)
       (if error = 0 then seq (set_state c ChannelStateHelloSent) (seq (notify c) (ret 0))
        else seq (set_state c ChannelStateConnected) (ret error))))
     else if ch_state ch = ChannelStateRedirectSent then seq (set_state c ChannelStateConnected) (ret error)
     else seq (check (\<lambda>_. ch_state ch = ChannelStateDisconnected)) (ret error))"

fun call_reply_handler :: "'u ProtoEnv \<Rightarrow> (addr \<Rightarrow> ('u, unit) pact) \<Rightarrow> ReplyHandlerCB \<Rightarrow>
    client_data \<Rightarrow> addr \<Rightarrow> int \<Rightarrow> ('u, unit) pact" where
  "call_reply_handler env notify (ReplyCB f) cdata c error = env_reply env f c cdata error"
| "call_reply_handler env notify redirect_done (sendRedirectInfo h d) c error =
     bnd (redirect_state notify c error) (\<lambda>error. call_reply_handler env notify h d c error)"
| "call_reply_handler env notify redirect_done _ c error = fault Undefined_Behaviour"

section \<open>Closing a channel\<close>

text \<open>The links of a bucket: \<open>None\<close> is \<^verbatim>\<open>&reply_handlers[i]\<close>, \<open>Some a\<close> the field
  \<^verbatim>\<open>next\<close> of the node at \<open>a\<close>. A link of a node that is not in the bucket any more (it has
  been freed) must not be used.\<close>

fun after_rh :: "nat \<Rightarrow> ReplyHandlerInfo list \<Rightarrow> ReplyHandlerInfo list option" where
  "after_rh a [] = None"
| "after_rh a (rh # rhs) = (if rh_addr rh = a then Some rhs else after_rh a rhs)"

definition read_link :: "nat option \<Rightarrow> ReplyHandlerInfo list \<Rightarrow> ReplyHandlerInfo list option" where
  "read_link rhp rhs = (case rhp of None \<Rightarrow> Some rhs | Some a \<Rightarrow> after_rh a rhs)"

fun set_next :: "nat \<Rightarrow> ReplyHandlerInfo list \<Rightarrow> ReplyHandlerInfo list \<Rightarrow> ReplyHandlerInfo list option" where
  "set_next a rest [] = None"
| "set_next a rest (rh # rhs) =
     (if rh_addr rh = a then Some (rh # rest) else map_option ((#) rh) (set_next a rest rhs))"

definition write_link :: "nat option \<Rightarrow> ReplyHandlerInfo list \<Rightarrow> ReplyHandlerInfo list \<Rightarrow>
    ReplyHandlerInfo list option" where
  "write_link rhp rest rhs = (case rhp of None \<Rightarrow> Some rest | Some a \<Rightarrow> set_next a rest rhs)"

definition put_bucket :: "nat \<Rightarrow> ReplyHandlerInfo list option \<Rightarrow> ('u, unit) pact" where
  "put_bucket i rhs = (case rhs of
     None \<Rightarrow> fault Undefined_Behaviour
   | Some rhs \<Rightarrow> modify (\<lambda>s. s\<lparr>reply_handlers := (reply_handlers s)(i := rhs)\<rparr>))"

definition mute_rh :: "nat \<Rightarrow> ReplyHandlerInfo list \<Rightarrow> ReplyHandlerInfo list option" where
  "mute_rh a rhs =
     (if a \<in> rh_addr ` set rhs then
        Some (map (\<lambda>rh. if rh_addr rh = a
                        then rh\<lparr>rh_handler := None, rh_client_data := NullData, rh_progress := None\<rparr>
                        else rh) rhs)
      else None)"

text \<open>What is done for a handler \<open>rh\<close> of the closed channel; the result is the next link. The
  error is not 0, so that \<^verbatim>\<open>redirect_done\<close> does not notify the listeners from here.\<close>

definition close_reply :: "'u ProtoEnv \<Rightarrow> addr \<Rightarrow> nat \<Rightarrow> nat option \<Rightarrow> ReplyHandlerInfo \<Rightarrow> ('u, nat option) pact" where
  "close_reply env c i rhp rh =
     seq (trap (case rh_handler rh of
                  None \<Rightarrow> ret ()
                | Some h \<Rightarrow> call_reply_handler env (\<lambda>_. ret ()) h (rh_client_data rh) c (err_no ERR_CHANNEL_CLOSED))
               (\<lambda>_. ret ()))
     (bnd (get_chan c) (\<lambda>ch.
     bnd (look (\<lambda>s. reply_handlers s i)) (\<lambda>rhs.
     if ch_state ch \<noteq> ChannelStateDisconnected
     then seq (put_bucket i (mute_rh (rh_addr rh) rhs)) (ret (Some (rh_addr rh)))
     else seq (put_bucket i (Option.bind (after_rh (rh_addr rh) rhs) (\<lambda>rest. write_link rhp rest rhs)))
              (ret rhp))))"

fun close_bucket :: "nat \<Rightarrow> 'u ProtoEnv \<Rightarrow> addr \<Rightarrow> nat \<Rightarrow> nat option \<Rightarrow> ('u, unit) pact" where
  "close_bucket 0 env c i rhp = fault Out_Of_Fuel"
| "close_bucket (Suc fuel) env c i rhp =
     bnd (look (\<lambda>s. read_link rhp (reply_handlers s i))) (\<lambda>rest.
     case rest of
       None \<Rightarrow> fault Undefined_Behaviour
     | Some [] \<Rightarrow> ret ()
     | Some (rh # _) \<Rightarrow>
         if rh_c rh = c then bnd (close_reply env c i rhp rh) (close_bucket fuel env c i)
         else close_bucket fuel env c i (Some (rh_addr rh)))"

fun close_buckets :: "'u ProtoEnv \<Rightarrow> addr \<Rightarrow> nat list \<Rightarrow> ('u, unit) pact" where
  "close_buckets env c [] = ret ()"
| "close_buckets env c (i # is) =
     bnd (look (\<lambda>s. length (reply_handlers s i))) (\<lambda>n.
     seq (close_bucket (n + 1) env c i None) (close_buckets env c is))"

definition channel_closed :: "'u ProtoEnv \<Rightarrow> addr \<Rightarrow> ('u, unit) pact" where
  "channel_closed env c =
     bnd (get_chan c) (\<lambda>_.
     seq (modify (\<lambda>s. s\<lparr>event_handlers := (\<lambda>i. filter (\<lambda>eh. eh_c eh \<noteq> c) (event_handlers s i))\<rparr>))
     (seq (free_services c)
     (seq (close_buckets env c [0..<unat REPLY_HASH_SIZE])
     (upd_chan c (\<lambda>ch. ch\<lparr>ch_peer_service_list := None\<rparr>)))))"

fun notify_all :: "(addr \<Rightarrow> ('u, unit) pact) list \<Rightarrow> addr \<Rightarrow> ('u, unit) pact" where
  "notify_all [] c = ret ()"
| "notify_all (f # fs) c = seq (f c) (notify_all fs c)"

definition notify_channel_closed :: "'u ProtoEnv \<Rightarrow> addr \<Rightarrow> ('u, unit) pact" where
  "notify_channel_closed env c =
     seq (notify_all (env_close_before env) c)
     (seq (bnd (look ini_done) (\<lambda>ini. if ini then channel_closed env c else ret ()))
     (notify_all (env_close_after env) c))"

definition notify_channel_opened :: "'u ProtoEnv \<Rightarrow> addr \<Rightarrow> ('u, unit) pact" where
  "notify_channel_opened env c = notify_all (env_open_listeners env) c"

text \<open>The event that \<^verbatim>\<open>protocol_send_command\<close> posts for a closed channel.\<close>

definition send_command_failed :: "'u ProtoEnv \<Rightarrow> ReplyHandlerInfo \<Rightarrow> ('u, unit) pact" where
  "send_command_failed env rh = (case rh_handler rh of
     None \<Rightarrow> ret ()
   | Some h \<Rightarrow> call_reply_handler env (notify_channel_closed env) h (rh_client_data rh) (rh_c rh)
                 (err_no ERR_CHANNEL_CLOSED))"

section \<open>Hello\<close>

definition connect_done :: "'u ProtoEnv \<Rightarrow> addr \<Rightarrow> ('u, unit) pact" where
  "connect_done env c =
     bnd (get_chan c) (\<lambda>ch.
     seq (check (\<lambda>_. ch_state ch = ChannelStateConnected))
     (seq (notify_channel_opened env c)
     (bnd (get_chan c) (\<lambda>ch. case ch_connected ch of None \<Rightarrow> ret () | Some f \<Rightarrow> env_connected env f c))))"

fun write_services :: "addr \<Rightarrow> nat \<Rightarrow> ServiceInfo list \<Rightarrow> OutputStream \<Rightarrow> OutputStream" where
  "write_services p cnt [] out = out"
| "write_services p cnt (si # ss) out =
     (if si_owner si = p then
        let out = (if cnt \<noteq> 0 then write_stream out (chr CHR '','') else out)
        in write_services p (cnt + 1) ss (json_write_string out (Some (si_name si)))
      else write_services p cnt ss out)"

definition send_hello_message :: "'u ProtoEnv \<Rightarrow> addr \<Rightarrow> ('u, unit) pact" where
  "send_hello_message env c =
     bnd (get_chan c) (\<lambda>ch.
     bnd (look services) (\<lambda>ss.
     seq (check (\<lambda>_. ch_state ch = ChannelStateStarted \<or> ch_state ch = ChannelStateHelloReceived))
     (seq (ch_write c (\<lambda>out. write_stringz out (cstr ''E'')))
     (seq (ch_write c (\<lambda>out. write_stringz out (cstr ''Locator'')))
     (seq (ch_write c (\<lambda>out. write_stringz out (cstr ''Hello'')))
     (seq (ch_write c (\<lambda>out. write_stream out (chr CHR ''['')))
     (seq (ch_write c (\<lambda>out.
        if \<not> ch_disable_zero_copy ch
        then write_services (ch_protocol ch) 1 ss (json_write_string out (Some (cstr ''ZeroCopy'')))
        else write_services (ch_protocol ch) 0 ss out))
     (seq (ch_write c (\<lambda>out. write_stream out (chr CHR '']'')))
     (seq (ch_write c (\<lambda>out. write_stream out 0))
     (seq (ch_write c (\<lambda>out. write_stream out MARKER_EOM))
     (if ch_state ch = ChannelStateStarted then set_state c ChannelStateHelloSent
      else seq (set_state c ChannelStateConnected) (connect_done env c))))))))))))"

text \<open>The list of a Hello message. \<open>zc\<close> is \<^verbatim>\<open>c->out.supports_zero_copy\<close>, which is set while
  reading and stays set when the reader fails later. \<^verbatim>\<open>strcmp\<close> is called with what
  \<^verbatim>\<open>json_read_alloc_string\<close> returns, and a null pointer there is undefined.\<close>

fun hello_loop :: "nat \<Rightarrow> istream \<Rightarrow> cstring list \<Rightarrow> bool \<Rightarrow> (cstring list \<times> istream) outcome \<times> bool" where
  "hello_loop 0 inp ss zc = (Inl Out_Of_Fuel, zc)"
| "hello_loop (Suc fuel) inp ss zc =
     (case json_read_alloc_string inp of
        Inl e \<Rightarrow> (Inl e, zc)
      | Inr (None, inp) \<Rightarrow> (Inl Undefined_Behaviour, zc)
      | Inr (Some service, inp) \<Rightarrow>
          let service = takeWhile (\<lambda>b. b \<noteq> 0) service;
              zc = (zc \<or> service = cstr ''ZeroCopy'');
              (ch, inp) = read_token inp
          in if ch = chr CHR '','' then hello_loop fuel inp (ss @ [service]) zc
             else if ch = chr CHR '']'' then (Inr (ss @ [service], inp), zc)
             else (exception ERR_JSON_SYNTAX, zc))"

definition read_hello :: "istream \<Rightarrow> (cstring list option \<times> istream) outcome \<times> bool" where
  "read_hello inp =
     (let (ch, inp) = read_token inp in
      if ch \<noteq> chr CHR ''['' then (exception ERR_PROTOCOL, False)
      else
        let (r, zc) = (if peek_stream inp = chr CHR '']'' then (Inr (None, snd (read_stream inp)), False)
                       else map_prod (\<lambda>r. rbind r (\<lambda>(ss, inp). Inr (Some ss, inp))) id
                              (hello_loop (length inp + 1) inp [] False))
        in (rbind r (\<lambda>(ss, inp).
              let (a, inp) = read_stream inp in
              if a \<noteq> 0 then exception ERR_JSON_SYNTAX
              else let (b, inp) = read_stream inp in
                if b \<noteq> MARKER_EOM then exception ERR_JSON_SYNTAX else Inr (ss, inp)),
            zc))"

definition event_locator_hello :: "'u ProtoEnv \<Rightarrow> addr \<Rightarrow> ('u, unit) pact" where
  "event_locator_hello env c =
     bnd (get_chan c) (\<lambda>ch.
     let (r, zc) = read_hello (ch_inp ch) in
     seq (ch_write c (\<lambda>out. out\<lparr>supports_zero_copy := zc\<rparr>))
     (case r of
        Inl e \<Rightarrow> fault e
      | Inr (ss, inp) \<Rightarrow>
          seq (upd_chan c (\<lambda>ch. ch\<lparr>ch_inp := inp\<rparr>))
          (if ch_state ch \<noteq> ChannelStateStarted \<and> ch_state ch \<noteq> ChannelStateHelloSent then ret ()
           else
             seq (upd_chan c (\<lambda>ch. ch\<lparr>ch_peer_service_list := ss\<rparr>))
             (if ch_state ch = ChannelStateStarted then set_state c ChannelStateHelloReceived
              else seq (set_state c ChannelStateConnected) (connect_done env c)))))"

section \<open>Dispatching\<close>

fun call_command_handler :: "'u ProtoEnv \<Rightarrow> CommandHandlerCB \<Rightarrow> cstring \<Rightarrow> addr \<Rightarrow> client_data \<Rightarrow> ('u, unit) pact" where
  "call_command_handler env (CommandCB f) token c d = env_command env f token c d"
| "call_command_handler env command_handler_old token c (Function f) = env_command_old env f token c"
| "call_command_handler env command_handler_old token c _ = fault Undefined_Behaviour"

fun call_event_handler :: "'u ProtoEnv \<Rightarrow> EventHandlerCB \<Rightarrow> addr \<Rightarrow> client_data \<Rightarrow> ('u, unit) pact" where
  "call_event_handler env (EventCB f) c d = env_event env f c d"
| "call_event_handler env event_handler_old c (Function f) = env_event_old env f c"
| "call_event_handler env event_handler_old c _ = fault Undefined_Behaviour"

fun call_message_handler :: "'u ProtoEnv \<Rightarrow> MessageHandlerCB \<Rightarrow> addr \<Rightarrow> cstring list \<Rightarrow> client_data \<Rightarrow> ('u, unit) pact" where
  "call_message_handler env (MessageCB f) c args d = env_message env f c args d"
| "call_message_handler env message_handler_old c args (Function f) = env_message_old env f c args"
| "call_message_handler env message_handler_old c args _ = fault Undefined_Behaviour"

definition write_not_recognized :: "addr \<Rightarrow> cstring \<Rightarrow> ('u, unit) pact" where
  "write_not_recognized c token =
     seq (skip_until_EOM c)
     (seq (ch_write c (\<lambda>out. write_stringz out (cstr ''N'')))
     (seq (ch_write c (\<lambda>out. write_stringz out token))
     (ch_write c (\<lambda>out. write_stream out MARKER_EOM))))"

text \<open>Every handler is called under a trap that raises the same error again.\<close>

definition handle_command :: "'u ProtoEnv \<Rightarrow> addr \<Rightarrow> addr \<Rightarrow> ('u, unit) pact" where
  "handle_command env c p =
     bnd (ch_read c (read_stringz 256)) (\<lambda>token.
     bnd (ch_read c (read_stringz 256)) (\<lambda>service.
     bnd (ch_read c (read_stringz 256)) (\<lambda>name.
     bnd (get_chan c) (\<lambda>ch.
     if ch_state ch \<noteq> ChannelStateConnected then write_not_recognized c token
     else trap
       (bnd (find_message_handler p service name) (\<lambda>mh.
        case mh of
          Some mh \<Rightarrow> call_command_handler env (mh_handler mh) token c (mh_client_data mh)
        | None \<Rightarrow>
            bnd (get_prot p) (\<lambda>pr.
            case pr_default_handler pr of
              Some h \<Rightarrow> call_message_handler env h c [cstr ''C'', token, service, name] (pr_client_data pr)
            | None \<Rightarrow> write_not_recognized c token)))
       raise))))"

definition handle_reply :: "'u ProtoEnv \<Rightarrow> addr \<Rightarrow> addr \<Rightarrow> byte \<Rightarrow> ('u, unit) pact" where
  "handle_reply env c p type =
     bnd (ch_read c (read_stringz 256)) (\<lambda>token.
     trap
       (let (tokenid, erange, endptr) = strtoul token in
        bnd (if erange \<or> endptr \<noteq> [] then ret None
             else find_reply_handler c tokenid (type \<noteq> of_char CHR ''P'')) (\<lambda>rh.
        case rh of
          None \<Rightarrow>
            bnd (get_prot p) (\<lambda>pr.
            case pr_default_handler pr of
              Some h \<Rightarrow> call_message_handler env h c [[type], token] (pr_client_data pr)
            | None \<Rightarrow> raise ERR_PROTOCOL)
        | Some rh \<Rightarrow>
            if type = of_char CHR ''P'' then
              (case rh_progress rh of
                 Some f \<Rightarrow> env_progress env f c (rh_client_data rh)
               | None \<Rightarrow> skip_until_EOM c)
            else
              seq (if type = of_char CHR ''N'' then skip_until_EOM c else ret ())
              (let n = (if type = of_char CHR ''N'' then err_no ERR_INV_COMMAND else 0) in
               case rh_handler rh of
                 Some h \<Rightarrow> call_reply_handler env (notify_channel_closed env) h (rh_client_data rh) c n
               | None \<Rightarrow> skip_until_EOM c)))
       raise)"

definition handle_event :: "'u ProtoEnv \<Rightarrow> addr \<Rightarrow> addr \<Rightarrow> ('u, unit) pact" where
  "handle_event env c p =
     bnd (ch_read c (read_stringz 256)) (\<lambda>service.
     bnd (ch_read c (read_stringz 256)) (\<lambda>name.
     trap
       (bnd (get_chan c) (\<lambda>ch.
        if (ch_state ch = ChannelStateStarted \<or> ch_state ch = ChannelStateHelloSent) \<and>
           service = cstr ''Locator'' \<and> name = cstr ''Hello''
        then event_locator_hello env c
        else
          bnd (find_event_handler c service name) (\<lambda>eh.
          case eh of
            Some eh \<Rightarrow> call_event_handler env (eh_handler eh) c (eh_client_data eh)
          | None \<Rightarrow>
              bnd (get_prot p) (\<lambda>pr.
              case pr_default_handler pr of
                Some h \<Rightarrow> call_message_handler env h c [cstr ''E'', service, name] (pr_client_data pr)
              | None \<Rightarrow> skip_until_EOM c))))
       raise))"

text \<open>A congestion level: an optional sign and digits, which an \<^verbatim>\<open>int\<close> must hold.\<close>

fun flow_digits :: "int \<Rightarrow> int \<Rightarrow> istream \<Rightarrow> (int \<times> int) outcome \<times> istream" where
  "flow_digits n ch [] =
     (if is_digit ch
      then (if n * 10 + (ch - 48) \<ge> 2 ^ 31 then (Inl Undefined_Behaviour, [])
            else (Inr (n * 10 + (ch - 48), MARKER_EOS), []))
      else (Inr (n, ch), []))"
| "flow_digits n ch (ch' # inp) =
     (if is_digit ch
      then (if n * 10 + (ch - 48) \<ge> 2 ^ 31 then (Inl Undefined_Behaviour, ch' # inp)
            else flow_digits (n * 10 + (ch - 48)) ch' inp)
      else (Inr (n, ch), ch' # inp))"

definition read_flow :: "istream \<Rightarrow> int outcome \<times> istream" where
  "read_flow inp =
     (let (ch, inp) = read_stream inp;
          neg = (ch = chr CHR ''-'');
          (ch, inp) = (if neg then read_stream inp else (ch, inp))
      in case flow_digits 0 ch inp of
           (Inl e, inp) \<Rightarrow> (Inl e, inp)
         | (Inr (n, ch), inp) \<Rightarrow>
             let (ch, inp) = (if ch = 0 then read_stream inp else (ch, inp))
             in if ch \<noteq> MARKER_EOM then (exception ERR_PROTOCOL, inp)
                else (Inr (if neg then - n else n), inp))"

definition handle_flow :: "addr \<Rightarrow> ('u, unit) pact" where
  "handle_flow c = bnd (ch_read c read_flow) (\<lambda>n. upd_chan c (\<lambda>ch. ch\<lparr>ch_congestion_level := n\<rparr>))"

definition handle_protocol_message :: "'u ProtoEnv \<Rightarrow> addr \<Rightarrow> ('u, unit) pact" where
  "handle_protocol_message env c =
     bnd (get_chan c) (\<lambda>ch.
     let p = ch_protocol ch in
     bnd (ch_read c (read_stringz 8)) (\<lambda>type.
     if length type \<noteq> 1 then raise ERR_PROTOCOL
     else if type = cstr ''C'' then handle_command env c p
     else if type = cstr ''R'' \<or> type = cstr ''P'' \<or> type = cstr ''N'' then handle_reply env c p (hd type)
     else if type = cstr ''E'' then handle_event env c p
     else if type = cstr ''F'' then handle_flow c
     else
       bnd (get_prot p) (\<lambda>pr.
       case pr_default_handler pr of
         Some h \<Rightarrow> call_message_handler env h c [type] (pr_client_data pr)
       | None \<Rightarrow> raise ERR_PROTOCOL)))"

section \<open>Protocols\<close>

definition ini_protocol :: "'u ProtoEnv \<Rightarrow> ('u, unit) pact" where
  "ini_protocol env =
     seq (check (\<lambda>s. \<not> ini_done s))
     (modify (\<lambda>s. s\<lparr>agent_id := Some (env_uuid env), ini_done := True\<rparr>))"

text \<open>\<open>p\<close> is the address that \<^verbatim>\<open>malloc\<close> returns.\<close>

definition protocol_alloc :: "'u ProtoEnv \<Rightarrow> addr \<Rightarrow> ('u, addr) pact" where
  "protocol_alloc env p =
     bnd (look ini_done) (\<lambda>ini.
     seq (if \<not> ini then ini_protocol env else ret ())
     (bnd (look proto_cnt) (\<lambda>n.
     if n + 1 \<ge> 2 ^ 31 then fault Undefined_Behaviour
     else
       seq (modify (\<lambda>s. s\<lparr>proto_cnt := n + 1, protocols := (protocols s)(p \<mapsto>
              \<lparr>pr_id = n, pr_lock_cnt = 1, pr_tokenid = 1, pr_default_handler = None,
               pr_client_data = NullData\<rparr>)\<rparr>))
       (ret p))))"

definition protocol_reference :: "addr \<Rightarrow> ('u, unit) pact" where
  "protocol_reference p =
     bnd (get_prot p) (\<lambda>pr.
     seq (check (\<lambda>_. pr_lock_cnt pr > 0))
     (if pr_lock_cnt pr + 1 \<ge> 2 ^ 31 then fault Undefined_Behaviour
      else upd_prot p (\<lambda>pr. pr\<lparr>pr_lock_cnt := pr_lock_cnt pr + 1\<rparr>)))"

definition protocol_release :: "addr \<Rightarrow> ('u, unit) pact" where
  "protocol_release p =
     bnd (get_prot p) (\<lambda>pr.
     seq (check (\<lambda>_. pr_lock_cnt pr > 0))
     (seq (upd_prot p (\<lambda>pr. pr\<lparr>pr_lock_cnt := pr_lock_cnt pr - 1\<rparr>))
     (if pr_lock_cnt pr - 1 \<noteq> 0 then ret ()
      else
        seq (modify (\<lambda>s. s\<lparr>message_handlers := (\<lambda>i. filter (\<lambda>mh. mh_p mh \<noteq> p) (message_handlers s i))\<rparr>))
        (seq (free_services p)
        (modify (\<lambda>s. s\<lparr>protocols := (protocols s)(p := None)\<rparr>))))))"

definition get_agent_id :: "'u ProtoEnv \<Rightarrow> ('u, cstring) pact" where
  "get_agent_id env =
     bnd (look ini_done) (\<lambda>ini.
     seq (if \<not> ini then ini_protocol env else ret ())
     (bnd (look agent_id) (\<lambda>aid. case aid of None \<Rightarrow> fault Undefined_Behaviour | Some u \<Rightarrow> ret u)))"

definition get_service_manager_id :: "'u ProtoEnv \<Rightarrow> addr \<Rightarrow> ('u, cstring) pact" where
  "get_service_manager_id env p =
     bnd (get_agent_id env) (\<lambda>aid.
     bnd (get_prot p) (\<lambda>pr.
     ret (take 255 (aid @ cstr ''-'' @ map byte_of (dec (nat (pr_id pr)))))))"

end
