(* ===== verification/ProtoTables.thy ===== *)
theory ProtoTables
  imports Protocol "HOL-Library.Sublist"
begin

text \<open>
  The tables of \<^verbatim>\<open>framework/protocol.c\<close>. The invariant \<open>tables_ok\<close> says that handlers are in
  the bucket of their hash value, that the services they point to exist, that no two pending
  replies of a channel have the same token, and that the nodes of a bucket are linked in the order
  of their age, the newest first. Every operation maintains it when the functions of the clients do.

  The locale \<open>handler_table\<close> is what the dispatcher relies on: the last registration for a key
  counts. The three tables implement it.
\<close>

section \<open>The invariant\<close>

definition mh_ok :: "'u PState \<Rightarrow> bool" where
  "mh_ok s \<longleftrightarrow> (\<forall>h. \<forall>mh \<in> set (message_handlers s h).
     mh_service mh \<in> set (services s) \<and> si_owner (mh_service mh) = mh_p mh \<and>
     message_hash (mh_p mh) (si_name (mh_service mh)) (mh_name mh) = h)"

definition eh_ok :: "'u PState \<Rightarrow> bool" where
  "eh_ok s \<longleftrightarrow> (\<forall>h. \<forall>eh \<in> set (event_handlers s h).
     eh_service eh \<in> set (services s) \<and> si_owner (eh_service eh) = eh_c eh \<and>
     event_hash (eh_c eh) (si_name (eh_service eh)) (eh_name eh) = h)"

definition rh_key :: "ReplyHandlerInfo \<Rightarrow> addr \<times> u64" where
  "rh_key rh = (rh_c rh, rh_tokenid rh)"

definition bucket_ok :: "nat \<Rightarrow> nat \<Rightarrow> ReplyHandlerInfo list \<Rightarrow> bool" where
  "bucket_ok n h rhs \<longleftrightarrow> distinct (map rh_key rhs) \<and> sorted_wrt (\<lambda>x y. rh_addr y < rh_addr x) rhs \<and>
     (\<forall>rh \<in> set rhs. rh_addr rh < n \<and> reply_hash (rh_c rh) (rh_tokenid rh) = h)"

definition rh_ok :: "'u PState \<Rightarrow> bool" where
  "rh_ok s \<longleftrightarrow> (\<forall>h. bucket_ok (next_rh s) h (reply_handlers s h))"

text \<open>Message handlers belong to protocols and event handlers to channels that exist, and no address
  is that of a protocol and of a channel.\<close>

definition own_ok :: "'u PState \<Rightarrow> bool" where
  "own_ok s \<longleftrightarrow> dom (protocols s) \<inter> dom (channels s) = {} \<and>
     (\<forall>h. \<forall>mh \<in> set (message_handlers s h). mh_p mh \<in> dom (protocols s)) \<and>
     (\<forall>h. \<forall>eh \<in> set (event_handlers s h). eh_c eh \<in> dom (channels s))"

definition tables_ok :: "'u PState \<Rightarrow> bool" where
  "tables_ok s \<longleftrightarrow> distinct (services s) \<and> mh_ok s \<and> eh_ok s \<and> rh_ok s \<and> own_ok s"

lemmas tables_defs = tables_ok_def mh_ok_def eh_ok_def rh_ok_def own_ok_def

definition env_keeps :: "('u PState \<Rightarrow> bool) \<Rightarrow> 'u ProtoEnv \<Rightarrow> bool" where
  "env_keeps I env \<longleftrightarrow>
     (\<forall>f t c d. maintains I (env_command env f t c d)) \<and> (\<forall>f t c. maintains I (env_command_old env f t c)) \<and>
     (\<forall>f c d. maintains I (env_event env f c d)) \<and> (\<forall>f c. maintains I (env_event_old env f c)) \<and>
     (\<forall>f c a d. maintains I (env_message env f c a d)) \<and> (\<forall>f c a. maintains I (env_message_old env f c a)) \<and>
     (\<forall>f c d e. maintains I (env_reply env f c d e)) \<and> (\<forall>f c d. maintains I (env_progress env f c d)) \<and>
     (\<forall>f c. maintains I (env_connected env f c)) \<and>
     (\<forall>l \<in> set (env_open_listeners env). \<forall>c. maintains I (l c)) \<and>
     (\<forall>l \<in> set (env_close_before env). \<forall>c. maintains I (l c)) \<and>
     (\<forall>l \<in> set (env_close_after env). \<forall>c. maintains I (l c))"

lemma env_keepsD [maintains_intros]:
  assumes "env_keeps I env"
  shows "maintains I (env_command env f t c d)" "maintains I (env_command_old env f t c)"
    "maintains I (env_event env f c d)" "maintains I (env_event_old env f c)"
    "maintains I (env_message env f c a d)" "maintains I (env_message_old env f c a)"
    "maintains I (env_reply env f c d e)" "maintains I (env_progress env f c d)"
    "maintains I (env_connected env f c)"
  using assms by (simp_all add: env_keeps_def)

lemma tables_ok_other [simp]:
  "tables_ok (s\<lparr>posted_failed := x3\<rparr>) = tables_ok s" "tables_ok (s\<lparr>error_state := x4\<rparr>) = tables_ok s"
  "tables_ok (s\<lparr>client_state := x5\<rparr>) = tables_ok s" "tables_ok (s\<lparr>agent_id := x6\<rparr>) = tables_ok s"
  "tables_ok (s\<lparr>ini_done := x7\<rparr>) = tables_ok s" "tables_ok (s\<lparr>proto_cnt := x8\<rparr>) = tables_ok s"
  by (simp_all add: tables_defs)

lemma tables_ok_cong:
  "tables_ok s \<Longrightarrow> services s' = services s \<Longrightarrow> message_handlers s' = message_handlers s \<Longrightarrow>
   event_handlers s' = event_handlers s \<Longrightarrow> reply_handlers s' = reply_handlers s \<Longrightarrow>
   next_rh s' = next_rh s \<Longrightarrow> dom (channels s') = dom (channels s) \<Longrightarrow>
   dom (protocols s') = dom (protocols s) \<Longrightarrow> tables_ok s'"
  by (simp add: tables_defs)

lemma dom_live: "m a = Some x \<Longrightarrow> insert a (dom m) = dom m"
  by (rule insert_absorb) (rule domI)

lemma tables_ok_upd [simp]:
  "channels s c = Some ch \<Longrightarrow> tables_ok (s\<lparr>channels := (channels s)(c \<mapsto> x)\<rparr>) = tables_ok s"
  "protocols s p = Some pr \<Longrightarrow> tables_ok (s\<lparr>protocols := (protocols s)(p \<mapsto> y)\<rparr>) = tables_ok s"
  "channels s c = Some ch \<Longrightarrow>
   tables_ok (s\<lparr>error_state := e, channels := (channels s)(c \<mapsto> x)\<rparr>) = tables_ok s"
  by (simp_all add: tables_defs dom_live)

section \<open>Access\<close>

lemma get_chan_run [act_simps]:
  "channels s c = Some ch \<Longrightarrow> get_chan c s = (Inr ch, s)"
  "channels s c = None \<Longrightarrow> get_chan c s = (Inl Undefined_Behaviour, s)"
  by (simp_all add: get_chan_def)

lemma get_prot_run [act_simps]:
  "protocols s p = Some pr \<Longrightarrow> get_prot p s = (Inr pr, s)"
  "protocols s p = None \<Longrightarrow> get_prot p s = (Inl Undefined_Behaviour, s)"
  by (simp_all add: get_prot_def)

lemma upd_chan_run [act_simps]:
  "channels s c = Some ch \<Longrightarrow> upd_chan c f s = (Inr (), s\<lparr>channels := (channels s)(c \<mapsto> f ch)\<rparr>)"
  by (simp add: upd_chan_def act_simps)

lemma upd_prot_run [act_simps]:
  "protocols s p = Some pr \<Longrightarrow> upd_prot p f s = (Inr (), s\<lparr>protocols := (protocols s)(p \<mapsto> f pr)\<rparr>)"
  by (simp add: upd_prot_def act_simps)

lemma set_state_run [act_simps]:
  "channels s c = Some ch \<Longrightarrow>
   set_state c st s = (Inr (), s\<lparr>channels := (channels s)(c \<mapsto> ch\<lparr>ch_state := st\<rparr>)\<rparr>)"
  by (simp add: set_state_def act_simps)

lemma ch_write_run [act_simps]:
  "channels s c = Some ch \<Longrightarrow>
   ch_write c f s = (Inr (), s\<lparr>channels := (channels s)(c \<mapsto> ch\<lparr>ch_out := f (ch_out ch)\<rparr>)\<rparr>)"
  by (simp add: ch_write_def act_simps)

lemma ch_read_run [act_simps]:
  "channels s c = Some ch \<Longrightarrow> f (ch_inp ch) = (r, inp) \<Longrightarrow>
   ch_read c f s = (r, s\<lparr>channels := (channels s)(c \<mapsto> ch\<lparr>ch_inp := inp\<rparr>)\<rparr>)"
  by (simp add: ch_read_def act_simps)

lemma bnd_get_chan_cases:
  assumes "bnd (get_chan c) f s = (r, s')" "goes_on r"
  obtains ch where "channels s c = Some ch" "f ch s = (r, s')"
  using assms by (cases "channels s c") (auto simp: act_simps)

lemma bnd_get_prot_cases:
  assumes "bnd (get_prot p) f s = (r, s')" "goes_on r"
  obtains pr where "protocols s p = Some pr" "f pr s = (r, s')"
  using assms by (cases "protocols s p") (auto simp: act_simps)

lemma maintains_access [maintains_intros]:
  "maintains tables_ok (get_chan c)" "maintains tables_ok (get_prot p)"
  by (auto simp: maintains_def get_chan_def get_prot_def split: option.split)

lemma maintains_update [maintains_intros]:
  "maintains tables_ok (upd_chan c f)" "maintains tables_ok (upd_prot p g)"
  unfolding upd_chan_def upd_prot_def
  by (rule maintainsI, erule bnd_get_chan_cases, assumption, force simp: act_simps)
    (rule maintainsI, erule bnd_get_prot_cases, assumption, force simp: act_simps)

lemma maintains_streams [maintains_intros]:
  "maintains tables_ok (set_state c st)" "maintains tables_ok (ch_write c f)"
  unfolding set_state_def ch_write_def by (intro maintains_intros)+

lemma maintains_ch_read [maintains_intros]: "maintains tables_ok (ch_read c f)"
  unfolding ch_read_def
  by (rule maintainsI, erule bnd_get_chan_cases, assumption) (auto split: prod.splits)

lemma maintains_readers [maintains_intros]:
  "maintains tables_ok (skip_until_EOM c)" "maintains tables_ok (ch_test_char c x)"
  unfolding skip_until_EOM_def ch_test_char_def by (intro maintains_intros)+

lemma maintains_ch_read_errno [maintains_intros]: "maintains tables_ok (ch_read_errno c)"
  unfolding ch_read_errno_def
  by (rule maintainsI, erule bnd_get_chan_cases, assumption)
    (auto split: sum.splits prod.splits)

lemma maintains_finds [maintains_intros]:
  "maintains tables_ok (find_message_handler p service name)"
  "maintains tables_ok (find_event_handler c service name)"
  by (simp_all add: maintains_def find_message_handler_def find_event_handler_def)

section \<open>Services\<close>

lemma protocol_get_service_run:
  "protocol_get_service owner name s =
     (let si = \<lparr>si_owner = owner, si_name = name\<rparr> in
      if si \<in> set (services s) then (Inr si, s)
      else if name = cstr ''ZeroCopy'' then (Inl Assertion_Failed, s)
      else (Inr si, s\<lparr>services := si # services s\<rparr>))"
  by (auto simp: protocol_get_service_def Let_def act_simps)

lemma tables_ok_new_service:
  "tables_ok s \<Longrightarrow> si \<notin> set (services s) \<Longrightarrow> tables_ok (s\<lparr>services := si # services s\<rparr>)"
  by (auto simp: tables_defs)

lemma protocol_get_service_ok:
  assumes "tables_ok s" "protocol_get_service owner name s = (r, s')"
  shows "tables_ok s'" "r = Inr si \<Longrightarrow> si \<in> set (services s')"
    "r = Inr si \<Longrightarrow> si = \<lparr>si_owner = owner, si_name = name\<rparr>"
  using assms tables_ok_new_service [of s] by (auto simp: protocol_get_service_run Let_def split: if_splits)

lemma protocol_get_service_frame:
  "protocol_get_service owner name s = (r, s') \<Longrightarrow>
   protocols s' = protocols s \<and> channels s' = channels s"
  by (auto simp: protocol_get_service_run Let_def split: if_splits)

lemma maintains_get_service [maintains_intros]: "maintains tables_ok (protocol_get_service owner name)"
  by (rule maintains_always) (metis protocol_get_service_ok(1) prod.collapse)

text \<open>The services of an owner are freed after its handlers have been removed.\<close>

definition unused_owner :: "addr \<Rightarrow> 'u PState \<Rightarrow> bool" where
  "unused_owner a s \<longleftrightarrow> (\<forall>h. (\<forall>mh \<in> set (message_handlers s h). mh_p mh \<noteq> a) \<and>
     (\<forall>eh \<in> set (event_handlers s h). eh_c eh \<noteq> a))"

lemma free_services_ok: "tables_ok s \<Longrightarrow> unused_owner a s \<Longrightarrow> tables_ok (snd (free_services a s))"
  by (auto simp: free_services_def act_simps tables_defs unused_owner_def)

section \<open>Registration\<close>

lemma tables_ok_add_mh:
  "tables_ok s \<Longrightarrow> mh_p mh \<in> dom (protocols s) \<Longrightarrow> mh_service mh \<in> set (services s) \<Longrightarrow> si_owner (mh_service mh) = mh_p mh \<Longrightarrow>
   message_hash (mh_p mh) (si_name (mh_service mh)) (mh_name mh) = h \<Longrightarrow>
   tables_ok (s\<lparr>message_handlers := (message_handlers s)(h := mh # message_handlers s h)\<rparr>)"
  by (auto simp: tables_defs)

lemma tables_ok_add_eh:
  "tables_ok s \<Longrightarrow> eh_c eh \<in> dom (channels s) \<Longrightarrow> eh_service eh \<in> set (services s) \<Longrightarrow> si_owner (eh_service eh) = eh_c eh \<Longrightarrow>
   event_hash (eh_c eh) (si_name (eh_service eh)) (eh_name eh) = h \<Longrightarrow>
   tables_ok (s\<lparr>event_handlers := (event_handlers s)(h := eh # event_handlers s h)\<rparr>)"
  by (auto simp: tables_defs)

lemma maintains_add_command_handler2 [maintains_intros]:
  "maintains tables_ok (add_command_handler2 p service name handler cdata)"
proof (rule maintains_always)
  fix s :: "'u PState"
  assume ok: "tables_ok s"
  obtain r s' where g: "protocol_get_service p service s = (r, s')" by fastforce
  note got = protocol_get_service_ok [OF ok g] protocol_get_service_frame [OF g]
  note simps = add_command_handler2_def Let_def act_simps
  show "tables_ok (snd (add_command_handler2 p service name handler cdata s))"
  proof (cases "protocols s p")
    case (Some x)
    note live = this
    show ?thesis
    proof (cases r)
      case (Inr si)
      then show ?thesis using got live by (simp add: simps g tables_ok_add_mh domI)
    qed (use got g live in \<open>simp add: simps\<close>)
  qed (use ok in \<open>simp add: simps\<close>)
qed

lemma maintains_add_event_handler2 [maintains_intros]:
  "maintains tables_ok (add_event_handler2 c service name handler cdata)"
proof (rule maintains_always)
  fix s :: "'u PState"
  assume ok: "tables_ok s"
  obtain r s' where g: "protocol_get_service c service s = (r, s')" by fastforce
  note got = protocol_get_service_ok [OF ok g] protocol_get_service_frame [OF g]
  note simps = add_event_handler2_def Let_def act_simps
  show "tables_ok (snd (add_event_handler2 c service name handler cdata s))"
  proof (cases "channels s c")
    case (Some x)
    note live = this
    show ?thesis
    proof (cases r)
      case (Inr si)
      then show ?thesis using got live by (simp add: simps g tables_ok_add_eh domI)
    qed (use got g live in \<open>simp add: simps\<close>)
  qed (use ok in \<open>simp add: simps\<close>)
qed

lemma maintains_add_handlers [maintains_intros]:
  "maintains tables_ok (add_command_handler p service name f)"
  "maintains tables_ok (add_event_handler c service name f)"
  unfolding add_command_handler_def add_event_handler_def by (intro maintains_intros)+

lemma maintains_set_default [maintains_intros]:
  "maintains tables_ok (set_default_message_handler2 p h d)"
  "maintains tables_ok (set_default_message_handler p f)"
  unfolding set_default_message_handler2_def set_default_message_handler_def by (intro maintains_intros)+

section \<open>Pending replies\<close>

lemma bucket_ok_Nil [simp]: "bucket_ok n h []"
  by (simp add: bucket_ok_def)

lemma bucket_ok_Cons:
  "bucket_ok n h (x # xs) \<longleftrightarrow> bucket_ok n h xs \<and> rh_key x \<notin> rh_key ` set xs \<and>
     (\<forall>y \<in> set xs. rh_addr y < rh_addr x) \<and> rh_addr x < n \<and> reply_hash (rh_c x) (rh_tokenid x) = h"
  by (auto simp: bucket_ok_def)

lemma bucket_ok_subseq: "subseq xs ys \<Longrightarrow> bucket_ok n h ys \<Longrightarrow> bucket_ok n h xs"
proof (induction rule: list_emb.induct)
  case (list_emb_Cons2 x y xs ys)
  have "set xs \<subseteq> set ys" using list_emb_Cons2.hyps(2) by (auto elim: list_emb_set)
  then have "rh_key ` set xs \<subseteq> rh_key ` set ys" by (rule image_mono)
  with \<open>set xs \<subseteq> set ys\<close> list_emb_Cons2 show ?case unfolding bucket_ok_Cons by blast
qed (simp_all add: bucket_ok_Cons)

lemma bucket_ok_mono: "bucket_ok n h rhs \<Longrightarrow> n \<le> m \<Longrightarrow> bucket_ok m h rhs"
  by (auto simp: bucket_ok_def)

lemma tables_ok_bucket:
  "tables_ok s \<Longrightarrow> bucket_ok (next_rh s) h rhs \<Longrightarrow>
   tables_ok (s\<lparr>reply_handlers := (reply_handlers s)(h := rhs)\<rparr>)"
  by (auto simp: tables_defs)

lemma tables_ok_bucketD: "tables_ok s \<Longrightarrow> bucket_ok (next_rh s) h (reply_handlers s h)"
  by (simp add: tables_ok_def rh_ok_def)

lemma subseq_unlink: "subseq (unlink P xs) xs"
  by (induction xs) (auto intro: list_emb_Cons)

lemma find_reply_handler_run:
  "find_reply_handler c t tk s =
     (let h = reply_hash c t; rhs = reply_handlers s h in
      (Inr (find (is_reply c t) rhs),
       if tk \<and> find (is_reply c t) rhs \<noteq> None
       then s\<lparr>reply_handlers := (reply_handlers s)(h := unlink (is_reply c t) rhs)\<rparr> else s))"
  by (simp add: find_reply_handler_def Let_def split: option.split)

lemma maintains_find_reply_handler [maintains_intros]: "maintains tables_ok (find_reply_handler c t tk)"
proof (rule maintains_always)
  fix s :: "'u PState"
  assume ok: "tables_ok s"
  have "tables_ok (s\<lparr>reply_handlers := (reply_handlers s)(reply_hash c t :=
      unlink (is_reply c t) (reply_handlers s (reply_hash c t)))\<rparr>)"
    by (rule tables_ok_bucket [OF ok bucket_ok_subseq [OF subseq_unlink tables_ok_bucketD [OF ok]]])
  with ok show "tables_ok (snd (find_reply_handler c t tk s))"
    by (simp add: find_reply_handler_run Let_def)
qed

lemma maintains_new_token [maintains_intros]: "maintains tables_ok (new_token n p c)"
  by (induction n) (auto intro!: maintains_intros)

lemma alloc_rh_run:
  "alloc_rh c h pr d s =
     (Inr \<lparr>rh_addr = next_rh s, rh_tokenid = 0, rh_c = c, rh_handler = h, rh_progress = pr, rh_client_data = d\<rparr>,
      s\<lparr>next_rh := next_rh s + 1\<rparr>)"
  by (simp add: alloc_rh_def act_simps)

lemma find_reply_peek:
  "find_reply_handler c t False s = (Inr (find (is_reply c t) (reply_handlers s (reply_hash c t))), s)"
  by (simp add: find_reply_handler_def Let_def split: option.split)

lemma new_token_step:
  assumes "protocols s p = Some pr"
  shows "new_token (Suc n) p c s =
    (let s' = s\<lparr>protocols := (protocols s)(p \<mapsto> pr\<lparr>pr_tokenid := pr_tokenid pr + 1\<rparr>)\<rparr> in
     if find (is_reply c (pr_tokenid pr)) (reply_handlers s (reply_hash c (pr_tokenid pr))) \<noteq> None
     then new_token n p c s' else (Inr (pr_tokenid pr), s'))"
  using assms by (simp add: act_simps find_reply_peek Let_def)

declare new_token.simps [simp del]

lemma new_token_frame:
  "new_token n p c s = (r, s') \<Longrightarrow> \<exists>x. s' = s\<lparr>protocols := x\<rparr> \<and> dom x = dom (protocols s)"
proof (induction n arbitrary: s)
  case 0
  then show ?case by (intro exI [of _ "protocols s"]) (simp add: act_simps new_token.simps)
next
  case (Suc n)
  show ?case
  proof (cases "protocols s p")
    case None
    with Suc.prems show ?thesis by (intro exI [of _ "protocols s"]) (simp add: act_simps new_token.simps)
  next
    case (Some pr)
    note dom = dom_live [of "protocols s" p pr, OF Some]
    let ?s = "s\<lparr>protocols := (protocols s)(p \<mapsto> pr\<lparr>pr_tokenid := pr_tokenid pr + 1\<rparr>)\<rparr>"
    from Suc.prems new_token_step [of s p pr n c, OF Some]
    consider "s' = ?s" | "new_token n p c ?s = (r, s')" by (auto simp: Let_def split: if_splits)
    then show ?thesis
    proof cases
      case 1
      have "dom ((protocols s)(p \<mapsto> pr\<lparr>pr_tokenid := pr_tokenid pr + 1\<rparr>)) = dom (protocols s)"
        using dom by simp
      with 1 show ?thesis by blast
    next
      case 2
      from Suc.IH [OF 2] obtain x where x: "s' = ?s\<lparr>protocols := x\<rparr>" "dom x = dom (protocols ?s)" by blast
      have "protocols ?s = (protocols s)(p \<mapsto> pr\<lparr>pr_tokenid := pr_tokenid pr + 1\<rparr>)" by simp
      then have "dom x = dom (protocols s)" using x(2) dom by (simp only: dom_fun_upd option.distinct if_False)
      then show ?thesis using x(1) by (intro exI [of _ x] conjI) simp_all
    qed
  qed
qed

lemma new_token_free:
  "new_token n p c s = (Inr t, s') \<Longrightarrow> find (is_reply c t) (reply_handlers s (reply_hash c t)) = None"
proof (induction n arbitrary: s)
  case (Suc n)
  show ?case
  proof (cases "protocols s p")
    case (Some pr)
    let ?s = "s\<lparr>protocols := (protocols s)(p \<mapsto> pr\<lparr>pr_tokenid := pr_tokenid pr + 1\<rparr>)\<rparr>"
    from Suc.prems new_token_step [of s p pr n c, OF Some]
    consider "find (is_reply c t) (reply_handlers s (reply_hash c t)) = None" | "new_token n p c ?s = (Inr t, s')"
      by (auto simp: Let_def split: if_splits)
    then show ?thesis by cases (auto dest: Suc.IH)
  qed (use Suc.prems in \<open>simp add: act_simps new_token.simps\<close>)
qed (simp add: act_simps new_token.simps)

definition command_header :: "u64 \<Rightarrow> cstring \<Rightarrow> cstring \<Rightarrow> OutputStream \<Rightarrow> OutputStream" where
  "command_header t service name out =
     write_stringz (write_stringz (write_stream (json_write_ulong (write_stringz out (cstr ''C'')) t) 0) service) name"

definition new_rh :: "nat \<Rightarrow> u64 \<Rightarrow> addr \<Rightarrow> ReplyHandlerCB option \<Rightarrow> nat option \<Rightarrow> client_data \<Rightarrow> ReplyHandlerInfo" where
  "new_rh a t c h pr d =
     \<lparr>rh_addr = a, rh_tokenid = t, rh_c = c, rh_handler = h, rh_progress = pr, rh_client_data = d\<rparr>"

lemma new_rh_simps [simp]:
  "rh_addr (new_rh a t c h pr d) = a" "rh_tokenid (new_rh a t c h pr d) = t" "rh_c (new_rh a t c h pr d) = c"
  "rh_handler (new_rh a t c h pr d) = h" "rh_progress (new_rh a t c h pr d) = pr"
  "rh_client_data (new_rh a t c h pr d) = d"
  by (simp_all add: new_rh_def)

lemma pending_cnt_next_rh [simp]: "pending_cnt (s\<lparr>next_rh := x\<rparr>) = pending_cnt s"
  by (simp add: pending_cnt_def)

lemma send_command_closed:
  assumes "channels s c = Some ch" "is_channel_closed ch \<or> ch_peer_service_list ch = None"
  shows "protocol_send_command_with_progress c service name h pr d s =
    (Inr (new_rh (next_rh s) 0 c h pr d),
     s\<lparr>next_rh := next_rh s + 1, posted_failed := posted_failed s @ [new_rh (next_rh s) 0 c h pr d]\<rparr>)"
  using assms by (simp add: protocol_send_command_with_progress_def act_simps alloc_rh_run new_rh_def)

lemma send_command_open:
  assumes "channels s c = Some ch" "\<not> is_channel_closed ch" "ch_peer_service_list ch \<noteq> None"
    and "new_token (pending_cnt s + 1) (ch_protocol ch) c (s\<lparr>next_rh := next_rh s + 1\<rparr>) = (Inr t, s1)"
  shows "protocol_send_command_with_progress c service name h pr d s =
    (let rh = new_rh (next_rh s) t c h pr d in
     (Inr rh, s1\<lparr>channels := (channels s)(c \<mapsto> ch\<lparr>ch_out := command_header t service name (ch_out ch)\<rparr>),
        reply_handlers := (reply_handlers s)(reply_hash c t := rh # reply_handlers s (reply_hash c t))\<rparr>))"
proof -
  obtain x where s1: "s1 = s\<lparr>next_rh := next_rh s + 1, protocols := x\<rparr>"
    using new_token_frame [OF assms(4)] by auto
  obtain ps where "ch_peer_service_list ch = Some ps" using assms(3) by auto
  then show ?thesis
    using assms(1,2,4) unfolding s1
    by (simp add: protocol_send_command_with_progress_def act_simps alloc_rh_run new_rh_def Let_def
        command_header_def)
qed

lemma send_command_no_token:
  assumes "channels s c = Some ch" "\<not> is_channel_closed ch" "ch_peer_service_list ch \<noteq> None"
    and "new_token (pending_cnt s + 1) (ch_protocol ch) c (s\<lparr>next_rh := next_rh s + 1\<rparr>) = (Inl e, s1)"
  shows "protocol_send_command_with_progress c service name h pr d s = (Inl e, s1)"
  using assms by (simp add: protocol_send_command_with_progress_def act_simps alloc_rh_run)

lemma tables_ok_next_rh: "tables_ok s \<Longrightarrow> tables_ok (s\<lparr>next_rh := next_rh s + 1\<rparr>)"
  by (auto simp: tables_defs intro: bucket_ok_mono)

lemma find_None_key:
  "find (is_reply c t) rhs = None \<Longrightarrow> (c, t) \<notin> rh_key ` set rhs"
  by (auto simp: find_None_iff is_reply_def rh_key_def)

lemma tables_ok_new_reply:
  assumes "tables_ok s" "find (is_reply c t) (reply_handlers s (reply_hash c t)) = None"
  shows "tables_ok (s\<lparr>next_rh := next_rh s + 1, reply_handlers := (reply_handlers s)
    (reply_hash c t := new_rh (next_rh s) t c h pr d # reply_handlers s (reply_hash c t))\<rparr>)"
proof -
  have b: "bucket_ok (next_rh s) (reply_hash c t) (reply_handlers s (reply_hash c t))"
    by (rule tables_ok_bucketD [OF assms(1)])
  then have "\<forall>y \<in> set (reply_handlers s (reply_hash c t)). rh_addr y < next_rh s"
    by (simp add: bucket_ok_def)
  then have "bucket_ok (next_rh s + 1) (reply_hash c t)
      (new_rh (next_rh s) t c h pr d # reply_handlers s (reply_hash c t))"
    using find_None_key [OF assms(2)] bucket_ok_mono [OF b, of "next_rh s + 1"]
    by (simp add: bucket_ok_Cons rh_key_def)
  then have "tables_ok ((s\<lparr>next_rh := next_rh s + 1\<rparr>)\<lparr>reply_handlers := (reply_handlers (s\<lparr>next_rh := next_rh s + 1\<rparr>))
      (reply_hash c t := new_rh (next_rh s) t c h pr d # reply_handlers s (reply_hash c t))\<rparr>)"
    by (intro tables_ok_bucket tables_ok_next_rh assms(1)) simp
  then show ?thesis by simp
qed

lemma maintains_send_command [maintains_intros]:
  "maintains tables_ok (protocol_send_command_with_progress c service name h pr d)"
proof (rule maintains_always)
  fix s :: "'u PState"
  assume ok: "tables_ok s"
  show "tables_ok (snd (protocol_send_command_with_progress c service name h pr d s))"
  proof (cases "channels s c")
    case None
    with ok show ?thesis by (simp add: protocol_send_command_with_progress_def act_simps)
  next
    case (Some ch)
    obtain r s1 where n: "new_token (pending_cnt s + 1) (ch_protocol ch) c (s\<lparr>next_rh := next_rh s + 1\<rparr>) = (r, s1)"
      by fastforce
    obtain x where s1: "s1 = s\<lparr>next_rh := next_rh s + 1, protocols := x\<rparr>" "dom x = dom (protocols s)"
      using new_token_frame [OF n] by auto
    consider (closed) "is_channel_closed ch \<or> ch_peer_service_list ch = None"
      | (exn) e where "\<not> is_channel_closed ch" "ch_peer_service_list ch \<noteq> None" "r = Inl e"
      | (sent) t where "\<not> is_channel_closed ch" "ch_peer_service_list ch \<noteq> None" "r = Inr t"
      by (cases r) auto
    then show ?thesis
    proof cases
      case closed
      then show ?thesis using tables_ok_next_rh [OF ok] Some by (simp add: send_command_closed)
    next
      case exn
      have "tables_ok s1" by (rule tables_ok_cong [OF tables_ok_next_rh [OF ok]]) (simp_all add: s1)
      then show ?thesis using exn n Some by (simp add: send_command_no_token)
    next
      case sent
      then have "find (is_reply c t) (reply_handlers s (reply_hash c t)) = None"
        using new_token_free [OF n [unfolded sent(3)]] by simp
      from tables_ok_new_reply [OF ok this, of h pr d] show ?thesis
        unfolding send_command_open [OF Some sent(1,2) n [unfolded sent(3)], of service name h pr d] s1(1)
        by (rule tables_ok_cong) (simp_all add: Let_def s1(2) dom_live Some)
    qed
  qed
qed

lemma maintains_send_commands [maintains_intros]:
  "maintains tables_ok (protocol_send_command c service name h d)"
  "maintains tables_ok (begin_redirect c rh d)"
  "maintains tables_ok (send_redirect_command_by_id c peer rh d)"
  "maintains tables_ok (send_redirect_command_by_props c ps rh d)"
  unfolding protocol_send_command_def begin_redirect_def send_redirect_command_by_id_def
    send_redirect_command_by_props_def by (intro maintains_intros)+

section \<open>Closing\<close>

lemma after_rh_split:
  "after_rh a rhs = Some rest \<Longrightarrow> \<exists>pre x. rhs = pre @ x # rest \<and> rh_addr x = a"
  by (induction rhs) (auto split: if_splits intro: exI [of _ "[]"] exI [of _ "_ # _"])

lemma set_next_split:
  "set_next a rest rhs = Some r \<Longrightarrow> \<exists>pre x post. rhs = pre @ x # post \<and> rh_addr x = a \<and> r = pre @ x # rest"
proof (induction rhs arbitrary: r)
  case (Cons y rhs)
  show ?case
  proof (cases "rh_addr y = a")
    case True
    with Cons.prems show ?thesis by (intro exI [of _ "[]"]) auto
  next
    case False
    with Cons.prems obtain r' where "set_next a rest rhs = Some r'" "r = y # r'" by auto
    with Cons.IH obtain pre x post where "rhs = pre @ x # post" "rh_addr x = a" "r' = pre @ x # rest" by blast
    with \<open>r = y # r'\<close> show ?thesis by (intro exI [of _ "y # pre"]) auto
  qed
qed simp

lemma bucket_ok_order:
  assumes "bucket_ok n h (pre @ x # post)"
  shows "\<forall>y \<in> set pre. rh_addr x < rh_addr y" "\<forall>y \<in> set post. rh_addr y < rh_addr x"
  using assms by (auto simp: bucket_ok_def sorted_wrt_append)

lemma split_after:
  assumes "(pre @ [y]) @ rest = pre' @ post" "y \<notin> set pre'"
  shows "\<exists>us. us @ rest = post"
proof -
  from assms(1) consider us where "pre @ [y] = pre' @ us" "us @ rest = post"
    | us where "(pre @ [y]) @ us = pre'" "rest = us @ post"
    unfolding append_eq_append_conv2 by blast
  then show ?thesis
  proof cases
    case 2
    then have "y \<in> set pre'" by auto
    with assms(2) show ?thesis by simp
  qed blast
qed

lemma write_link_subseq:
  assumes ok: "bucket_ok n h rhs" and b: "after_rh b rhs = Some rest"
    and w: "write_link rhp rest rhs = Some r" and less: "\<And>a. rhp = Some a \<Longrightarrow> b < a"
  shows "subseq r rhs"
proof (cases rhp)
  case None
  with w after_rh_split [OF b] show ?thesis
    by (auto simp: write_link_def intro: list_emb_append2 list_emb_Cons)
next
  case (Some a)
  obtain pre y where y: "rhs = pre @ y # rest" "rh_addr y = b" using after_rh_split [OF b] by blast
  have "set_next a rest rhs = Some r" using w Some by (simp add: write_link_def)
  then obtain pre' x post where x: "rhs = pre' @ x # post" "rh_addr x = a" "r = pre' @ x # rest"
    using set_next_split by blast
  have "y \<notin> set (pre' @ [x])"
    using bucket_ok_order [of n h pre' x post] ok x y(2) less [OF Some] by auto
  moreover from x(1) y(1) have "(pre @ [y]) @ rest = (pre' @ [x]) @ post" by simp
  ultimately have "\<exists>us. us @ rest = post" using split_after [of pre y rest "pre' @ [x]" post] by simp
  then obtain us where "us @ rest = post" ..
  moreover have "subseq rest (us @ rest)" by (rule list_emb_append2) simp
  ultimately show ?thesis unfolding x(1,3) by (intro list_emb_append_mono) auto
qed

lemma bucket_ok_map:
  assumes "\<And>x. rh_key (f x) = rh_key x" "\<And>x. rh_addr (f x) = rh_addr x"
  shows "bucket_ok n h (map f rhs) = bucket_ok n h rhs"
proof (induction rhs)
  case (Cons x rhs)
  have "rh_c (f x) = rh_c x" "rh_tokenid (f x) = rh_tokenid x" using assms(1) [of x] by (simp_all add: rh_key_def)
  with Cons show ?case by (simp add: bucket_ok_Cons assms image_image)
qed simp

lemma bucket_ok_mute: "bucket_ok n h rhs \<Longrightarrow> mute_rh a rhs = Some r \<Longrightarrow> bucket_ok n h r"
  by (auto simp: mute_rh_def bucket_ok_map rh_key_def split: if_splits)

lemma read_link_older:
  assumes "bucket_ok n h rhs" "read_link rhp rhs = Some (rh # rest)"
  shows "rhp = Some a \<Longrightarrow> rh_addr rh < a" "rh \<in> set rhs"
proof -
  show "rh \<in> set rhs" using assms(2) after_rh_split by (fastforce simp: read_link_def split: option.splits)
  assume "rhp = Some a"
  with assms(2) obtain pre x where "rhs = pre @ x # rh # rest" "rh_addr x = a"
    using after_rh_split by (fastforce simp: read_link_def)
  with bucket_ok_order [of n h pre x "rh # rest"] assms(1) show "rh_addr rh < a" by simp
qed

lemma maintains_redirect_state [maintains_intros]:
  "maintains tables_ok (notify c) \<Longrightarrow> maintains tables_ok (redirect_state notify c e)"
  unfolding redirect_state_def by (intro maintains_intros)

lemma maintains_call_reply_handler [maintains_intros]:
  assumes "env_keeps tables_ok env" "maintains tables_ok (notify c)"
  shows "maintains tables_ok (call_reply_handler env notify h d c e)"
  using assms
  by (induction env notify h d c e rule: call_reply_handler.induct) (auto intro!: maintains_intros)

lemma maintains_put_bucket:
  "tables_ok s \<Longrightarrow> (\<And>r. rhs = Some r \<Longrightarrow> bucket_ok (next_rh s) i r) \<Longrightarrow> tables_ok (snd (put_bucket i rhs s))"
  by (cases rhs) (auto simp: put_bucket_def act_simps intro: tables_ok_bucket)

lemma unlink_at_ok:
  assumes "bucket_ok n i rhs" "\<And>a. rhp = Some a \<Longrightarrow> b < a"
    and "Option.bind (after_rh b rhs) (\<lambda>rest. write_link rhp rest rhs) = Some r"
  shows "bucket_ok n i r"
proof -
  obtain rest where "after_rh b rhs = Some rest" "write_link rhp rest rhs = Some r"
    using assms(3) by (auto simp: bind_eq_Some_conv)
  then show ?thesis using bucket_ok_subseq [OF write_link_subseq] assms(1,2) by blast
qed

definition unlink_or_mute :: "addr \<Rightarrow> nat \<Rightarrow> nat option \<Rightarrow> nat \<Rightarrow> ('u, nat option) pact" where
  "unlink_or_mute c i rhp b =
     bnd (get_chan c) (\<lambda>ch.
     bnd (look (\<lambda>s. reply_handlers s i)) (\<lambda>rhs.
     if ch_state ch \<noteq> ChannelStateDisconnected then seq (put_bucket i (mute_rh b rhs)) (ret (Some b))
     else seq (put_bucket i (Option.bind (after_rh b rhs) (\<lambda>rest. write_link rhp rest rhs))) (ret rhp)))"

lemma snd_seq_ret: "snd (seq m (ret x) s) = snd (m s)"
  by (cases "m s") (auto simp: seq_def bnd_def ret_def split: sum.split)

lemma maintains_unlink_or_mute:
  assumes "\<And>a. rhp = Some a \<Longrightarrow> b < a"
  shows "maintains tables_ok (unlink_or_mute c i rhp b)"
proof (rule maintains_always)
  fix s :: "'u PState"
  assume ok: "tables_ok s"
  note bk = tables_ok_bucketD [OF ok, of i]
  show "tables_ok (snd (unlink_or_mute c i rhp b s))"
  proof (cases "channels s c")
    case (Some ch)
    then show ?thesis
      using bucket_ok_mute [OF bk] unlink_at_ok [OF bk assms] maintains_put_bucket [OF ok]
      by (auto simp: unlink_or_mute_def act_simps snd_seq_ret)
  qed (use ok in \<open>simp add: unlink_or_mute_def act_simps\<close>)
qed

lemma close_reply_alt:
  "close_reply env c i rhp rh =
     seq (trap (case rh_handler rh of
                  None \<Rightarrow> ret ()
                | Some h \<Rightarrow> call_reply_handler env (\<lambda>_. ret ()) h (rh_client_data rh) c (err_no ERR_CHANNEL_CLOSED))
               (\<lambda>_. ret ()))
         (unlink_or_mute c i rhp (rh_addr rh))"
  by (simp only: close_reply_def unlink_or_mute_def)

lemma maintains_close_reply:
  assumes "env_keeps tables_ok env" "\<And>a. rhp = Some a \<Longrightarrow> rh_addr rh < a"
  shows "maintains tables_ok (close_reply env c i rhp rh)"
  unfolding close_reply_alt by (intro maintains_intros maintains_unlink_or_mute assms)

lemma maintains_close_bucket:
  assumes env: "env_keeps tables_ok env"
  shows "maintains tables_ok (close_bucket n env c i rhp)"
proof (induction n arbitrary: rhp)
  case (Suc n)
  show ?case
  proof (rule maintainsI)
    fix s :: "'a PState" and r s'
    assume ok: "tables_ok s" and run: "close_bucket (Suc n) env c i rhp s = (r, s')" and g: "goes_on r"
    consider "read_link rhp (reply_handlers s i) = None" | "read_link rhp (reply_handlers s i) = Some []"
      | rh rest where "read_link rhp (reply_handlers s i) = Some (rh # rest)"
      by (metis neq_Nil_conv not_None_eq)
    then show "tables_ok s'"
    proof cases
      case 3
      have "maintains tables_ok (bnd (close_reply env c i rhp rh) (close_bucket n env c i))"
        by (intro maintains_bnd maintains_close_reply Suc env)
          (rule read_link_older(1) [OF tables_ok_bucketD [OF ok] 3])
      from maintainsD [OF this ok _ g] maintainsD [OF Suc ok _ g] show ?thesis
        using 3 run by (auto simp: act_simps split: if_splits)
    qed (use ok run g in \<open>auto simp: act_simps\<close>)
  qed
qed (simp add: maintains_intros)

declare close_bucket.simps [simp del]

lemma maintains_close_buckets [maintains_intros]:
  assumes "env_keeps tables_ok env"
  shows "maintains tables_ok (close_buckets env c is)"
  by (induction "is") (auto intro!: maintains_intros maintains_close_bucket assms)

lemma maintains_free_channel:
  "tables_ok s \<Longrightarrow> c \<in> dom (channels s) \<Longrightarrow>
   tables_ok (s\<lparr>event_handlers := (\<lambda>i. filter (\<lambda>eh. eh_c eh \<noteq> c) (event_handlers s i)),
     services := filter (\<lambda>si. si_owner si \<noteq> c) (services s)\<rparr>)"
  by (fastforce simp: tables_defs)

lemma maintains_channel_closed [maintains_intros]:
  assumes env: "env_keeps tables_ok env"
  shows "maintains tables_ok (channel_closed env c)"
proof (rule maintainsI)
  fix s :: "'a PState" and r s'
  assume ok: "tables_ok s" and run: "channel_closed env c s = (r, s')" and g: "goes_on r"
  let ?s = "s\<lparr>event_handlers := (\<lambda>i. filter (\<lambda>eh. eh_c eh \<noteq> c) (event_handlers s i)),
     services := filter (\<lambda>si. si_owner si \<noteq> c) (services s)\<rparr>"
  let ?m = "seq (close_buckets env c [0..<unat REPLY_HASH_SIZE])
     (upd_chan c (\<lambda>ch. ch\<lparr>ch_peer_service_list := None\<rparr>))"
  have m: "maintains tables_ok ?m" by (intro maintains_intros env)
  obtain ch where live: "channels s c = Some ch" and r: "?m ?s = (r, s')"
    using run unfolding channel_closed_def
    by (elim bnd_get_chan_cases [OF _ g]) (simp add: free_services_def act_simps del: upt_conv_Cons)
  show "tables_ok s'"
    by (rule maintainsD [OF m maintains_free_channel [OF ok] r g]) (use live in auto)
qed

lemma maintains_notify_all [maintains_intros]:
  "(\<And>l. l \<in> set ls \<Longrightarrow> maintains I (l c)) \<Longrightarrow> maintains I (notify_all ls c)"
  by (induction ls) (auto intro!: maintains_intros)

lemma maintains_notify [maintains_intros]:
  assumes env: "env_keeps tables_ok env"
  shows "maintains tables_ok (notify_channel_closed env c)" "maintains tables_ok (notify_channel_opened env c)"
  unfolding notify_channel_closed_def notify_channel_opened_def
  by (intro maintains_intros env; use env in \<open>simp add: env_keeps_def\<close>)+

section \<open>Messages\<close>

lemma maintains_send_command_failed [maintains_intros]:
  "env_keeps tables_ok env \<Longrightarrow> maintains tables_ok (send_command_failed env rh)"
  unfolding send_command_failed_def by (intro maintains_intros)

lemma maintains_connect_done [maintains_intros]:
  "env_keeps tables_ok env \<Longrightarrow> maintains tables_ok (connect_done env c)"
  unfolding connect_done_def by (intro maintains_intros)

lemma maintains_send_hello [maintains_intros]:
  "env_keeps tables_ok env \<Longrightarrow> maintains tables_ok (send_hello_message env c)"
  unfolding send_hello_message_def by (intro maintains_intros)

lemma maintains_outcome [maintains_intros]:
  "(\<And>x. maintains I (f x)) \<Longrightarrow> maintains I (case r of Inl e \<Rightarrow> fault e | Inr x \<Rightarrow> f x)"
  by (cases r) (simp_all add: maintains_intros)

lemma maintains_prod [maintains_intros]:
  "(\<And>x y. maintains I (f x y)) \<Longrightarrow> maintains I (case z of (x, y) \<Rightarrow> f x y)"
  by (cases z) simp

lemma maintains_hello [maintains_intros]:
  "env_keeps tables_ok env \<Longrightarrow> maintains tables_ok (event_locator_hello env c)"
  unfolding event_locator_hello_def Let_def by (intro maintains_intros)

lemma maintains_calls [maintains_intros]:
  assumes "env_keeps tables_ok env"
  shows "maintains tables_ok (call_command_handler env h1 t c d)"
    "maintains tables_ok (call_event_handler env h2 c d)"
    "maintains tables_ok (call_message_handler env h3 c a d)"
proof -
  show "maintains tables_ok (call_command_handler env h1 t c d)"
    by (cases h1; cases d) (simp_all add: maintains_intros assms)
  show "maintains tables_ok (call_event_handler env h2 c d)"
    by (cases h2; cases d) (simp_all add: maintains_intros assms)
  show "maintains tables_ok (call_message_handler env h3 c a d)"
    by (cases h3; cases d) (simp_all add: maintains_intros assms)
qed

lemma maintains_handle_protocol_message [maintains_intros]:
  "env_keeps tables_ok env \<Longrightarrow> maintains tables_ok (handle_protocol_message env c)"
  unfolding handle_protocol_message_def handle_command_def handle_reply_def handle_event_def
    handle_flow_def write_not_recognized_def Let_def by (intro maintains_intros)

section \<open>Protocols\<close>

lemma maintains_ini_protocol [maintains_intros]: "maintains tables_ok (ini_protocol env)"
  unfolding ini_protocol_def
  by (intro maintains_intros) (erule tables_ok_cong; simp)

lemma protocol_alloc_ok:
  assumes "tables_ok s" "p \<notin> dom (protocols s) \<union> dom (channels s)"
    "protocol_alloc env p s = (r, s')" "goes_on r"
  shows "tables_ok s'"
proof -
  obtain a x y where s': "s' = s\<lparr>agent_id := a, ini_done := x, proto_cnt := y, protocols := (protocols s)(p \<mapsto>
      \<lparr>pr_id = proto_cnt s, pr_lock_cnt = 1, pr_tokenid = 1, pr_default_handler = None, pr_client_data = NullData\<rparr>)\<rparr>"
    using assms(3,4) by (cases s; cases "ini_done s")
      (auto simp: protocol_alloc_def ini_protocol_def act_simps split: if_splits)
  show ?thesis using assms(1,2) unfolding s' by (auto simp: tables_defs)
qed

lemma maintains_protocol_reference [maintains_intros]: "maintains tables_ok (protocol_reference p)"
  unfolding protocol_reference_def by (intro maintains_intros)

lemma tables_ok_free_protocol:
  "tables_ok s \<Longrightarrow> p \<in> dom (protocols s) \<Longrightarrow>
   tables_ok (s\<lparr>message_handlers := (\<lambda>i. filter (\<lambda>mh. mh_p mh \<noteq> p) (message_handlers s i)),
     services := filter (\<lambda>si. si_owner si \<noteq> p) (services s), protocols := (protocols s)(p := None)\<rparr>)"
  by (fastforce simp: tables_defs)

lemma protocol_release_run:
  assumes "protocols s p = Some pr" "pr_lock_cnt pr > 0"
  shows "protocol_release p s =
    (Inr (), if pr_lock_cnt pr = 1
             then s\<lparr>message_handlers := (\<lambda>i. filter (\<lambda>mh. mh_p mh \<noteq> p) (message_handlers s i)),
                    services := filter (\<lambda>si. si_owner si \<noteq> p) (services s),
                    protocols := (protocols s)(p := None)\<rparr>
             else s\<lparr>protocols := (protocols s)(p \<mapsto> pr\<lparr>pr_lock_cnt := pr_lock_cnt pr - 1\<rparr>)\<rparr>)"
  using assms by (cases s) (auto simp: protocol_release_def act_simps free_services_def)

lemma maintains_protocol_release [maintains_intros]: "maintains tables_ok (protocol_release p)"
proof (rule maintainsI)
  fix s :: "'u PState" and r s'
  assume ok: "tables_ok s" and run: "protocol_release p s = (r, s')" and g: "goes_on r"
  from run g obtain pr where pr: "protocols s p = Some pr" "pr_lock_cnt pr > 0"
    unfolding protocol_release_def
    by (elim bnd_get_prot_cases) (auto simp: seq_def bnd_def check_def split: if_splits)
  have "p \<in> dom (protocols s)" using pr(1) by auto
  from tables_ok_free_protocol [OF ok this] show "tables_ok s'"
    using run protocol_release_run [OF pr] ok pr(1) by (auto split: if_splits)
qed

lemma maintains_ids [maintains_intros]:
  "maintains tables_ok (get_agent_id env)" "maintains tables_ok (get_service_manager_id env p)"
  unfolding get_agent_id_def get_service_manager_id_def by (intro maintains_intros)+

section \<open>Runs\<close>

text \<open>A run of the dispatcher: the functions that clients call, the messages that are dispatched, the
  posted events, and the transports, which create and delete channels and change their fields (new
  input, a new state). A transport deletes a channel after its handlers have been removed.\<close>

definition no_objects :: "'u \<Rightarrow> 'u PState" where
  "no_objects u =
     \<lparr>services = [], message_handlers = (\<lambda>_. []), event_handlers = (\<lambda>_. []), reply_handlers = (\<lambda>_. []),
      ini_done = False, proto_cnt = 0, agent_id = None, protocols = Map.empty, channels = Map.empty,
      posted_failed = [], next_rh = 0, error_state = ini_errors, client_state = u\<rparr>"

inductive proto_step :: "'u ProtoEnv \<Rightarrow> 'u PState \<Rightarrow> 'u PState \<Rightarrow> bool" for env where
  message: "handle_protocol_message env c s = (r, s') \<Longrightarrow> goes_on r \<Longrightarrow> proto_step env s s'"
| hello: "send_hello_message env c s = (r, s') \<Longrightarrow> goes_on r \<Longrightarrow> proto_step env s s'"
| send_command: "protocol_send_command_with_progress c service name h pg d s = (r1, s') \<Longrightarrow> goes_on r1 \<Longrightarrow>
    proto_step env s s'"
| redirect_id: "send_redirect_command_by_id c peer rh d s = (r1, s') \<Longrightarrow> goes_on r1 \<Longrightarrow> proto_step env s s'"
| redirect_props: "send_redirect_command_by_props c ps rh d s = (r1, s') \<Longrightarrow> goes_on r1 \<Longrightarrow> proto_step env s s'"
| command_handler: "add_command_handler2 p service name ch d s = (r, s') \<Longrightarrow> goes_on r \<Longrightarrow> proto_step env s s'"
| event_handler: "add_event_handler2 c service name eh d s = (r, s') \<Longrightarrow> goes_on r \<Longrightarrow> proto_step env s s'"
| default_handler: "set_default_message_handler2 p dh d s = (r, s') \<Longrightarrow> goes_on r \<Longrightarrow> proto_step env s s'"
| closed: "notify_channel_closed env c s = (r, s') \<Longrightarrow> goes_on r \<Longrightarrow> proto_step env s s'"
| failed_event: "posted_failed s = rh1 # rhs \<Longrightarrow> send_command_failed env rh1 (s\<lparr>posted_failed := rhs\<rparr>) = (r, s') \<Longrightarrow>
    goes_on r \<Longrightarrow> proto_step env s s'"
| alloc: "p \<notin> dom (protocols s) \<union> dom (channels s) \<Longrightarrow> protocol_alloc env p s = (r2, s') \<Longrightarrow> goes_on r2 \<Longrightarrow>
    proto_step env s s'"
| reference: "protocol_reference p s = (r, s') \<Longrightarrow> goes_on r \<Longrightarrow> proto_step env s s'"
| release: "protocol_release p s = (r, s') \<Longrightarrow> goes_on r \<Longrightarrow> proto_step env s s'"
| create: "c \<notin> dom (protocols s) \<union> dom (channels s) \<Longrightarrow>
    proto_step env s (s\<lparr>channels := (channels s)(c \<mapsto> chan)\<rparr>)"
| transport: "c \<in> dom (channels s) \<Longrightarrow> proto_step env s (s\<lparr>channels := (channels s)(c \<mapsto> chan)\<rparr>)"
| delete: "(\<forall>h. \<forall>eh \<in> set (event_handlers s h). eh_c eh \<noteq> c) \<Longrightarrow>
    proto_step env s (s\<lparr>channels := (channels s)(c := None)\<rparr>)"

inductive proto_reach :: "'u ProtoEnv \<Rightarrow> 'u PState \<Rightarrow> bool" for env where
  start: "proto_reach env (no_objects u)"
| step: "proto_reach env s \<Longrightarrow> proto_step env s s' \<Longrightarrow> proto_reach env s'"

lemma tables_ok_no_objects: "tables_ok (no_objects u)"
  by (simp add: no_objects_def tables_defs)

lemma tables_ok_new_channel:
  "tables_ok s \<Longrightarrow> c \<notin> dom (protocols s) \<Longrightarrow> tables_ok (s\<lparr>channels := (channels s)(c \<mapsto> x)\<rparr>)"
  by (auto simp: tables_defs)

lemma tables_ok_delete_channel:
  "tables_ok s \<Longrightarrow> (\<forall>h. \<forall>eh \<in> set (event_handlers s h). eh_c eh \<noteq> c) \<Longrightarrow>
   tables_ok (s\<lparr>channels := (channels s)(c := None)\<rparr>)"
  by (fastforce simp: tables_defs)

lemma proto_step_tables:
  assumes step: "proto_step env s s'" and env: "env_keeps tables_ok env" and ok: "tables_ok s"
  shows "tables_ok s'"
  using step ok
proof cases
  case (failed_event rh1 rhs r)
  show ?thesis
    by (rule maintainsD [OF maintains_send_command_failed [OF env] _ failed_event(2,3)]) (simp add: ok)
next
  case (transport c chan)
  then have "c \<notin> dom (protocols s)" using ok by (auto simp: tables_ok_def own_ok_def)
  with ok transport(1) show ?thesis by (simp add: tables_ok_new_channel)
qed (auto intro: maintainsD [OF maintains_handle_protocol_message [OF env]] maintainsD [OF maintains_send_hello [OF env]]
    maintainsD [OF maintains_send_command] maintainsD [OF maintains_send_commands(3)]
    maintainsD [OF maintains_send_commands(4)] maintainsD [OF maintains_add_command_handler2]
    maintainsD [OF maintains_add_event_handler2] maintainsD [OF maintains_set_default(1)]
    maintainsD [OF maintains_notify(1) [OF env]] maintainsD [OF maintains_protocol_reference]
    maintainsD [OF maintains_protocol_release] protocol_alloc_ok tables_ok_new_channel tables_ok_delete_channel)

lemma proto_reach_tables:
  "proto_reach env s \<Longrightarrow> env_keeps tables_ok env \<Longrightarrow> tables_ok s"
  by (induction rule: proto_reach.induct) (auto intro: tables_ok_no_objects proto_step_tables)

end
