(* ===== verification/ProtoProps.thy ===== *)
theory ProtoProps
  imports ProtoTables
begin

text \<open>
  Properties of the dispatcher of \<^verbatim>\<open>framework/protocol.c\<close>: consistent tables, dispatching to the
  handler that was registered last, unique tokens, routing of replies, the exchange of Hello
  messages, and what closing a channel does.
\<close>

section \<open>Tables of handlers\<close>

text \<open>What the dispatcher relies on: the last registration for a key counts.\<close>

locale handler_table =
  fixes add :: "'k \<Rightarrow> 'v \<Rightarrow> 's \<Rightarrow> 's" and find :: "'k \<Rightarrow> 's \<Rightarrow> 'v option"
    and inv :: "'s \<Rightarrow> bool" and allowed :: "'k \<Rightarrow> 's \<Rightarrow> bool"
  assumes add_inv: "inv s \<Longrightarrow> allowed k s \<Longrightarrow> inv (add k v s)"
    and add_allowed: "inv s \<Longrightarrow> allowed k s \<Longrightarrow> allowed k' s \<Longrightarrow> allowed k' (add k v s)"
    and find_add: "inv s \<Longrightarrow> allowed k s \<Longrightarrow> find k' (add k v s) = (if k' = k then Some v else find k' s)"
begin

fun add_all :: "('k \<times> 'v) list \<Rightarrow> 's \<Rightarrow> 's" where
  "add_all [] s = s"
| "add_all ((k, v) # kvs) s = add_all kvs (add k v s)"

lemma add_all_inv: "inv s \<Longrightarrow> list_all (\<lambda>(k, v). allowed k s) kvs \<Longrightarrow> inv (add_all kvs s)"
proof (induction kvs arbitrary: s)
  case (Cons kv kvs)
  obtain k v where kv: "kv = (k, v)" by fastforce
  have "list_all (\<lambda>(k', v'). allowed k' (add k v s)) kvs"
    using Cons.prems add_allowed by (auto simp: kv list_all_iff)
  with Cons add_inv show ?case by (simp add: kv)
qed simp

lemma find_add_all:
  "inv s \<Longrightarrow> list_all (\<lambda>(k, v). allowed k s) kvs \<Longrightarrow>
   find k (add_all kvs s) = (case map_of (rev kvs) k of Some v \<Rightarrow> Some v | None \<Rightarrow> find k s)"
proof (induction kvs arbitrary: s)
  case (Cons kv kvs)
  obtain k' v where kv: "kv = (k', v)" by fastforce
  have "list_all (\<lambda>(k'', v'). allowed k'' (add k' v s)) kvs"
    using Cons.prems add_allowed by (auto simp: kv list_all_iff)
  with Cons add_inv have "find k (add_all kvs (add k' v s)) =
      (case map_of (rev kvs) k of Some v \<Rightarrow> Some v | None \<Rightarrow> find k (add k' v s))"
    by (simp add: kv)
  with Cons.prems find_add show ?case by (auto simp: kv map_add_def split: option.split)
qed simp

lemma last_registration:
  assumes "inv s" "list_all (\<lambda>(k, v). allowed k s) ((k, v) # kvs)" "k \<notin> fst ` set kvs"
  shows "find k (add_all ((k, v) # kvs) s) = Some v"
proof -
  have "map_of (rev kvs) k = None" using assms(3) by (simp add: map_of_eq_None_iff)
  with find_add_all [OF assms(1,2), of k] show ?thesis by (simp add: map_add_def)
qed

end

lemma find_mh_eq:
  assumes "\<forall>mh \<in> set mhs. mh_service mh \<in> set ss"
  shows "find_mh ss p service name mhs =
    Inr (find (\<lambda>mh. mh_p mh = p \<and> si_name (mh_service mh) = service \<and> mh_name mh = name) mhs)"
  using assms by (induction mhs) (auto simp: service_name_def)

lemma find_eh_eq:
  assumes "\<forall>eh \<in> set ehs. eh_service eh \<in> set ss"
  shows "find_eh ss c service name ehs =
    Inr (find (\<lambda>eh. eh_c eh = c \<and> si_name (eh_service eh) = service \<and> eh_name eh = name) ehs)"
  using assms by (induction ehs) (auto simp: service_name_def)

lemma find_message_handler_eq:
  "tables_ok s \<Longrightarrow> find_message_handler p service name s =
   (Inr (find (\<lambda>mh. mh_p mh = p \<and> si_name (mh_service mh) = service \<and> mh_name mh = name)
     (message_handlers s (message_hash p service name))), s)"
  unfolding find_message_handler_def by (subst find_mh_eq) (auto simp: tables_ok_def mh_ok_def)

lemma find_event_handler_eq:
  "tables_ok s \<Longrightarrow> find_event_handler c service name s =
   (Inr (find (\<lambda>eh. eh_c eh = c \<and> si_name (eh_service eh) = service \<and> eh_name eh = name)
     (event_handlers s (event_hash c service name))), s)"
  unfolding find_event_handler_def by (subst find_eh_eq) (auto simp: tables_ok_def eh_ok_def)

type_synonym handler_key = "addr \<times> cstring \<times> cstring"

definition set_command :: "handler_key \<Rightarrow> CommandHandlerCB \<times> client_data \<Rightarrow> 'u PState \<Rightarrow> 'u PState" where
  "set_command k v s = (case k of (p, service, name) \<Rightarrow> snd (add_command_handler2 p service name (fst v) (snd v) s))"

definition get_command :: "handler_key \<Rightarrow> 'u PState \<Rightarrow> (CommandHandlerCB \<times> client_data) option" where
  "get_command k s = (case k of (p, service, name) \<Rightarrow>
     case fst (find_message_handler p service name s) of
       Inl _ \<Rightarrow> None | Inr mh \<Rightarrow> map_option (\<lambda>mh. (mh_handler mh, mh_client_data mh)) mh)"

definition command_allowed :: "handler_key \<Rightarrow> 'u PState \<Rightarrow> bool" where
  "command_allowed k s \<longleftrightarrow> fst k \<in> dom (protocols s) \<and> fst (snd k) \<noteq> cstr ''ZeroCopy''"

definition set_event :: "handler_key \<Rightarrow> EventHandlerCB \<times> client_data \<Rightarrow> 'u PState \<Rightarrow> 'u PState" where
  "set_event k v s = (case k of (c, service, name) \<Rightarrow> snd (add_event_handler2 c service name (fst v) (snd v) s))"

definition get_event :: "handler_key \<Rightarrow> 'u PState \<Rightarrow> (EventHandlerCB \<times> client_data) option" where
  "get_event k s = (case k of (c, service, name) \<Rightarrow>
     case fst (find_event_handler c service name s) of
       Inl _ \<Rightarrow> None | Inr eh \<Rightarrow> map_option (\<lambda>eh. (eh_handler eh, eh_client_data eh)) eh)"

definition event_allowed :: "handler_key \<Rightarrow> 'u PState \<Rightarrow> bool" where
  "event_allowed k s \<longleftrightarrow> fst k \<in> dom (channels s) \<and> fst (snd k) \<noteq> cstr ''ZeroCopy''"

lemma set_command_run:
  assumes "protocols s p = Some pr" "service \<noteq> cstr ''ZeroCopy''"
  obtains ss where "set (services s) \<subseteq> set ss" "set_command (p, service, name) v s =
    s\<lparr>services := ss, message_handlers := (message_handlers s)(message_hash p service name :=
      \<lparr>mh_p = p, mh_service = \<lparr>si_owner = p, si_name = service\<rparr>, mh_name = name, mh_handler = fst v,
       mh_client_data = snd v\<rparr> # message_handlers s (message_hash p service name))\<rparr>"
proof (cases "\<lparr>si_owner = p, si_name = service\<rparr> \<in> set (services s)")
  case True
  then show ?thesis
    using assms by (intro that [of "services s"])
      (simp_all add: set_command_def add_command_handler2_def Let_def act_simps protocol_get_service_run)
next
  case False
  then show ?thesis
    using assms by (intro that [of "\<lparr>si_owner = p, si_name = service\<rparr> # services s"])
      (auto simp: set_command_def add_command_handler2_def Let_def act_simps protocol_get_service_run)
qed

lemma set_event_run:
  assumes "channels s c = Some ch" "service \<noteq> cstr ''ZeroCopy''"
  obtains ss where "set (services s) \<subseteq> set ss" "set_event (c, service, name) v s =
    s\<lparr>services := ss, event_handlers := (event_handlers s)(event_hash c service name :=
      \<lparr>eh_c = c, eh_service = \<lparr>si_owner = c, si_name = service\<rparr>, eh_name = name, eh_handler = fst v,
       eh_client_data = snd v\<rparr> # event_handlers s (event_hash c service name))\<rparr>"
proof (cases "\<lparr>si_owner = c, si_name = service\<rparr> \<in> set (services s)")
  case True
  then show ?thesis
    using assms by (intro that [of "services s"])
      (simp_all add: set_event_def add_event_handler2_def Let_def act_simps protocol_get_service_run)
next
  case False
  then show ?thesis
    using assms by (intro that [of "\<lparr>si_owner = c, si_name = service\<rparr> # services s"])
      (auto simp: set_event_def add_event_handler2_def Let_def act_simps protocol_get_service_run)
qed

lemma add_handlers_succeed:
  "protocols s p = Some pr \<Longrightarrow> service \<noteq> cstr ''ZeroCopy'' \<Longrightarrow>
   fst (add_command_handler2 p service name h d s) = Inr ()"
  "channels s c = Some ch \<Longrightarrow> service \<noteq> cstr ''ZeroCopy'' \<Longrightarrow>
   fst (add_event_handler2 c service name h' d s) = Inr ()"
  by (simp_all add: add_command_handler2_def add_event_handler2_def Let_def get_prot_def get_chan_def
      bnd_def modify_def protocol_get_service_run)

lemma set_command_ok:
  assumes "tables_ok s" "command_allowed k s"
  shows "tables_ok (set_command k v s)"
proof -
  obtain p service name x where k: "k = (p, service, name)" and x: "protocols s p = Some x" "service \<noteq> cstr ''ZeroCopy''"
    using assms(2) by (cases k) (auto simp: command_allowed_def)
  have "goes_on (fst (add_command_handler2 p service name (fst v) (snd v) s))"
    by (simp add: add_handlers_succeed(1) [OF x])
  with assms(1) maintains_add_command_handler2 show ?thesis
    unfolding set_command_def k maintains_def prod.case by blast
qed

lemma set_event_ok:
  assumes "tables_ok s" "event_allowed k s"
  shows "tables_ok (set_event k v s)"
proof -
  obtain c service name x where k: "k = (c, service, name)" and x: "channels s c = Some x" "service \<noteq> cstr ''ZeroCopy''"
    using assms(2) by (cases k) (auto simp: event_allowed_def)
  have "goes_on (fst (add_event_handler2 c service name (fst v) (snd v) s))"
    by (simp add: add_handlers_succeed(2) [OF x])
  with assms(1) maintains_add_event_handler2 show ?thesis
    unfolding set_event_def k maintains_def prod.case by blast
qed

lemma get_command_eq:
  "tables_ok s \<Longrightarrow> get_command (p, service, name) s = map_option (\<lambda>mh. (mh_handler mh, mh_client_data mh))
     (find (\<lambda>mh. mh_p mh = p \<and> si_name (mh_service mh) = service \<and> mh_name mh = name)
       (message_handlers s (message_hash p service name)))"
  by (simp add: get_command_def find_message_handler_eq)

lemma get_event_eq:
  "tables_ok s \<Longrightarrow> get_event (c, service, name) s = map_option (\<lambda>eh. (eh_handler eh, eh_client_data eh))
     (find (\<lambda>eh. eh_c eh = c \<and> si_name (eh_service eh) = service \<and> eh_name eh = name)
       (event_handlers s (event_hash c service name)))"
  by (simp add: get_event_def find_event_handler_eq)

lemma get_set_command:
  assumes "tables_ok s" "command_allowed k s"
  shows "get_command k' (set_command k v s) = (if k' = k then Some v else get_command k' s)"
proof -
  obtain p service name where k: "k = (p, service, name)" by (cases k)
  obtain p' service' name' where k': "k' = (p', service', name')" by (cases k')
  obtain pr where "protocols s p = Some pr" "service \<noteq> cstr ''ZeroCopy''"
    using assms(2) by (auto simp: command_allowed_def k)
  from set_command_run [OF this, of name v] obtain ss where ss: "set_command k v s =
    s\<lparr>services := ss, message_handlers := (message_handlers s)(message_hash p service name :=
      \<lparr>mh_p = p, mh_service = \<lparr>si_owner = p, si_name = service\<rparr>, mh_name = name, mh_handler = fst v,
       mh_client_data = snd v\<rparr> # message_handlers s (message_hash p service name))\<rparr>"
    unfolding k by blast
  show ?thesis
    unfolding k' get_command_eq [OF set_command_ok [OF assms]] get_command_eq [OF assms(1)]
    unfolding ss by (auto simp: k)
qed

lemma get_set_event:
  assumes "tables_ok s" "event_allowed k s"
  shows "get_event k' (set_event k v s) = (if k' = k then Some v else get_event k' s)"
proof -
  obtain c service name where k: "k = (c, service, name)" by (cases k)
  obtain c' service' name' where k': "k' = (c', service', name')" by (cases k')
  obtain ch where "channels s c = Some ch" "service \<noteq> cstr ''ZeroCopy''"
    using assms(2) by (auto simp: event_allowed_def k)
  from set_event_run [OF this, of name v] obtain ss where ss: "set_event k v s =
    s\<lparr>services := ss, event_handlers := (event_handlers s)(event_hash c service name :=
      \<lparr>eh_c = c, eh_service = \<lparr>si_owner = c, si_name = service\<rparr>, eh_name = name, eh_handler = fst v,
       eh_client_data = snd v\<rparr> # event_handlers s (event_hash c service name))\<rparr>"
    unfolding k by blast
  show ?thesis
    unfolding k' get_event_eq [OF set_event_ok [OF assms]] get_event_eq [OF assms(1)]
    unfolding ss by (auto simp: k)
qed

lemma set_handlers_keep [simp]:
  "protocols (set_command k v s) = protocols s" "channels (set_command k v s) = channels s"
  "protocols (set_event k w s) = protocols s" "channels (set_event k w s) = channels s"
  by (auto simp: set_command_def set_event_def add_command_handler2_def add_event_handler2_def Let_def
      seq_def bnd_def get_prot_def get_chan_def protocol_get_service_run modify_def
      split: prod.split option.split)

interpretation commands: handler_table set_command get_command tables_ok command_allowed
  by unfold_locales (simp_all add: set_command_ok get_set_command command_allowed_def)

interpretation events: handler_table set_event get_event tables_ok event_allowed
  by unfold_locales (simp_all add: set_event_ok get_set_event event_allowed_def)

section \<open>Messages\<close>

definition c_string :: "nat \<Rightarrow> cstring \<Rightarrow> bool" where
  "c_string n str \<longleftrightarrow> 0 \<notin> set str \<and> length str < n"

lemma read_stringz_loop_ok:
  "0 \<notin> set str \<Longrightarrow> length acc + length str < sz \<Longrightarrow>
   read_stringz_loop sz acc (syms str @ 0 # rest) = (Inr (acc @ str), rest)"
proof (induction str arbitrary: acc)
  case (Cons b str)
  from Cons.prems have "\<not> uint b \<le> 0" by (auto simp: uint_0_iff dest: order_antisym [OF _ uint_byte_bounds(1)])
  with Cons show ?case by simp
qed simp

lemma read_stringz_ok [simp]:
  "c_string sz str \<Longrightarrow> read_stringz sz (syms str @ 0 # rest) = (Inr str, rest)"
  by (simp add: read_stringz_def read_stringz_loop_ok c_string_def)

definition token_text :: "u64 \<Rightarrow> cstring" where
  "token_text t = map (\<lambda>d. of_nat (d + 48)) (dec_digits (unat t))"

lemma uint_digit: "d < 10 \<Longrightarrow> uint (of_nat (d + 48) :: byte) = int d + 48"
  by (rule list_all_upt_D [where P = "\<lambda>d. uint (of_nat (d + 48) :: byte) = int d + 48" and n = 10])
    (simp_all add: upt_rec)

lemma syms_token_text: "syms (token_text t) = dec (unat t)"
  unfolding syms_def token_text_def dec_def map_map
  by (rule map_cong [OF refl]) (simp only: o_apply uint_digit dec_digits_less)

lemma dec_digits_length: "n < 10 ^ k \<Longrightarrow> 0 < k \<Longrightarrow> length (dec_digits n) \<le> k"
proof (induction n arbitrary: k rule: dec_digits.induct)
  case (1 n)
  show ?case
  proof (cases "n \<ge> 10")
    case True
    with 1 have "k \<noteq> 1" by auto
    with 1 have k: "0 < k - 1" "k = Suc (k - 1)" by auto
    with 1 have "n < 10 * 10 ^ (k - 1)" by (metis power_Suc)
    then have "n div 10 < 10 ^ (k - 1)" by (simp add: less_mult_imp_div_less mult.commute)
    with "1.IH" [OF True this k(1)] k True show ?thesis by (subst dec_digits.simps) simp
  qed (use 1 in \<open>subst dec_digits.simps, simp\<close>)
qed

lemma token_text_c_string: "c_string 256 (token_text t)"
proof -
  have "unat t < 2 ^ LENGTH(64)" by (rule unsigned_less)
  then have "unat t < 10 ^ 20" by simp
  then have "length (dec_digits (unat t)) \<le> 20" by (rule dec_digits_length) simp
  moreover have "(of_nat (d + 48) :: byte) \<noteq> 0" if "d \<in> set (dec_digits (unat t))" for d
    using uint_digit [OF dec_digits_less [OF that]] by auto
  ultimately show ?thesis by (auto simp: c_string_def token_text_def)
qed

lemma strtoul_digits_map:
  "\<forall>d \<in> set ds. d < 10 \<Longrightarrow>
   strtoul_digits (int n) (map (\<lambda>d. of_nat (d + 48)) ds) = (int (undigits n ds), [])"
proof (induction ds arbitrary: n)
  case (Cons d ds)
  then have d: "uint (of_nat (d + 48) :: byte) = int d + 48" by (simp only: uint_digit list.set_intros)
  have "is_digit (int d + 48)" using Cons.prems by (simp add: is_digit_iff)
  with Cons.IH [of "n * 10 + d"] Cons.prems show ?case
    unfolding list.map(2) strtoul_digits.simps d by simp
qed simp

lemma strtoul_token_text: "strtoul (token_text t) = (t, False, [])"
proof -
  obtain d ds where ds: "dec_digits (unat t) = d # ds" using dec_digits_nonempty by (cases "dec_digits (unat t)") auto
  have "d < 10" using dec_digits_less [of d "unat t"] ds by simp
  then have d: "uint (of_nat (d + 48) :: byte) = int d + 48" by (rule uint_digit)
  have first: "token_text t = of_nat (d + 48) # map (\<lambda>d. of_nat (d + 48)) ds"
    unfolding token_text_def ds list.map(2) ..
  have digits: "strtoul_digits 0 (token_text t) = (int (unat t), [])"
    unfolding token_text_def using strtoul_digits_map [of "dec_digits (unat t)" 0] dec_digits_less
    by (simp add: undigits_dec_digits)
  have "\<not> isspace (int d + 48)" "is_digit (int d + 48)" "int d + 48 \<noteq> 45" "int d + 48 \<noteq> 43"
    using \<open>d < 10\<close> by (auto simp: isspace_def is_digit_iff)
  moreover have "uint t < 2 ^ LENGTH(64)" by (rule unsigned_less)
  ultimately show ?thesis
    unfolding strtoul_def first
    by (simp add: d Let_def chr_def digits [unfolded first] del: of_nat_add strtoul_digits.simps)
qed

text \<open>A field of a message: a string and its zero.\<close>

definition field :: "cstring \<Rightarrow> int list" where
  "field str = syms str @ [0]"

definition with_inp :: "'u PState \<Rightarrow> addr \<Rightarrow> istream \<Rightarrow> 'u PState" where
  "with_inp s c inp = s\<lparr>channels := (channels s)(c := map_option (\<lambda>ch. ch\<lparr>ch_inp := inp\<rparr>) (channels s c))\<rparr>"

lemma with_inp_simps [simp]:
  "channels (with_inp s c inp) c = map_option (\<lambda>ch. ch\<lparr>ch_inp := inp\<rparr>) (channels s c)"
  "services (with_inp s c inp) = services s" "message_handlers (with_inp s c inp) = message_handlers s"
  "event_handlers (with_inp s c inp) = event_handlers s" "reply_handlers (with_inp s c inp) = reply_handlers s"
  "protocols (with_inp s c inp) = protocols s" "next_rh (with_inp s c inp) = next_rh s"
  "with_inp (with_inp s c inp) c inp' = with_inp s c inp'"
  by (cases "channels s c"; simp add: with_inp_def)+

lemma with_inp_Some:
  "channels s c = Some ch \<Longrightarrow> with_inp s c inp = s\<lparr>channels := (channels s)(c \<mapsto> ch\<lparr>ch_inp := inp\<rparr>)\<rparr>"
  by (simp add: with_inp_def)

lemma tables_ok_with_inp [simp]: "tables_ok (with_inp s c inp) = tables_ok s"
  by (cases "channels s c") (simp_all add: with_inp_def fun_upd_idem)

lemma ch_read_field:
  assumes "channels s c = Some ch" "ch_inp ch = field str @ rest" "c_string n str"
  shows "ch_read c (read_stringz n) s = (Inr str, with_inp s c rest)"
  using assms by (simp add: ch_read_run field_def with_inp_Some)

lemma bnd_field:
  assumes "channels s c = Some ch" "ch_inp ch = field str @ rest" "c_string n str"
  shows "bnd (ch_read c (read_stringz n)) f s = f str (with_inp s c rest)"
  using ch_read_field [OF assms] by (simp add: act_simps)

lemma bnd_field_with [simp]:
  "channels s c = Some ch \<Longrightarrow> c_string n str \<Longrightarrow>
   bnd (ch_read c (read_stringz n)) f (with_inp s c (field str @ rest)) = f str (with_inp s c rest)"
  by (subst bnd_field [of _ c "ch\<lparr>ch_inp := field str @ rest\<rparr>"]) simp_all

lemma with_inp_same: "channels s c = Some ch \<Longrightarrow> ch_inp ch = inp \<Longrightarrow> with_inp s c inp = s"
  by (simp add: with_inp_def fun_upd_idem)

lemma message_type:
  assumes "channels s c = Some ch" "ch_inp ch = field [b] @ rest" "b \<noteq> 0"
  shows "handle_protocol_message env c s =
    (if [b] = cstr ''C'' then handle_command env c (ch_protocol ch) (with_inp s c rest)
     else if [b] = cstr ''R'' \<or> [b] = cstr ''P'' \<or> [b] = cstr ''N''
     then handle_reply env c (ch_protocol ch) b (with_inp s c rest)
     else if [b] = cstr ''E'' then handle_event env c (ch_protocol ch) (with_inp s c rest)
     else if [b] = cstr ''F'' then handle_flow c (with_inp s c rest)
     else bnd (get_prot (ch_protocol ch)) (\<lambda>pr.
       case pr_default_handler pr of
         Some h \<Rightarrow> call_message_handler env h c [[b]] (pr_client_data pr)
       | None \<Rightarrow> raise ERR_PROTOCOL) (with_inp s c rest))"
proof -
  have b: "c_string 8 [b]" using assms(3) by (simp add: c_string_def)
  show ?thesis
    using assms(1) by (simp add: handle_protocol_message_def act_simps Let_def bnd_field [OF assms(1,2) b])
qed

lemma handle_command_run:
  assumes ch: "channels s c = Some ch" "ch_inp ch = field token @ field service @ field name @ rest"
    and str: "c_string 256 token" "c_string 256 service" "c_string 256 name"
    and state: "ch_state ch = ChannelStateConnected"
  shows "handle_command env c p s = trap
       (bnd (find_message_handler p service name) (\<lambda>mh.
        case mh of
          Some mh \<Rightarrow> call_command_handler env (mh_handler mh) token c (mh_client_data mh)
        | None \<Rightarrow>
            bnd (get_prot p) (\<lambda>pr.
            case pr_default_handler pr of
              Some h \<Rightarrow> call_message_handler env h c [cstr ''C'', token, service, name] (pr_client_data pr)
            | None \<Rightarrow> write_not_recognized c token))) raise (with_inp s c rest)"
  (is "_ = ?rhs")
proof -
  have "handle_command env c p s = handle_command env c p (with_inp s c (field token @ field service @ field name @ rest))"
    by (simp only: with_inp_same [OF ch])
  also have "\<dots> = ?rhs"
    unfolding handle_command_def using ch(1) state str by (simp add: act_simps)
  finally show ?thesis .
qed

lemma write_not_recognized_run:
  assumes "channels s c = Some ch"
  shows "write_not_recognized c token s = (Inr (), s\<lparr>channels := (channels s)(c \<mapsto> ch
    \<lparr>ch_inp := skip_loop (ch_inp ch),
     ch_out := write_stream (write_stringz (write_stringz (ch_out ch) (cstr ''N'')) token) MARKER_EOM\<rparr>)\<rparr>)"
  using assms by (simp add: write_not_recognized_def skip_until_EOM_def act_simps)

lemma skip_loop_msg:
  "MARKER_EOM \<notin> set xs \<Longrightarrow> MARKER_EOS \<notin> set xs \<Longrightarrow> skip_loop (xs @ MARKER_EOM # rest) = rest"
  by (induction xs) auto

lemma handle_reply_run:
  assumes ch: "channels s c = Some ch" "ch_inp ch = field (token_text t) @ rest"
    and rh: "find (is_reply c t) (reply_handlers s (reply_hash c t)) = Some rh"
    and ty: "ty = of_char CHR ''R'' \<or> ty = of_char CHR ''N''"
  shows "handle_reply env c p ty s = trap
       (seq (if ty = of_char CHR ''N'' then skip_until_EOM c else ret ())
        (case rh_handler rh of
           Some h \<Rightarrow> call_reply_handler env (notify_channel_closed env) h (rh_client_data rh) c
             (if ty = of_char CHR ''N'' then err_no ERR_INV_COMMAND else 0)
         | None \<Rightarrow> skip_until_EOM c)) raise
       ((with_inp s c rest)\<lparr>reply_handlers := (reply_handlers s)(reply_hash c t :=
          unlink (is_reply c t) (reply_handlers s (reply_hash c t)))\<rparr>)"
proof -
  have np: "ty \<noteq> of_char CHR ''P''" using ty by auto
  show ?thesis
    unfolding handle_reply_def bnd_field [OF ch token_text_c_string] strtoul_token_text
    using rh np by (simp add: trap_def bnd_def find_reply_handler_run Let_def)
qed

section \<open>Tokens\<close>

lemma reply_hash_less: "reply_hash c t < unat REPLY_HASH_SIZE"
  unfolding reply_hash_def unat_mod by (rule mod_less_divisor) simp

definition pending_keys :: "'u PState \<Rightarrow> (addr \<times> u64) set" where
  "pending_keys s = (\<Union>h < unat REPLY_HASH_SIZE. rh_key ` set (reply_handlers s h))"

lemma finite_pending_keys: "finite (pending_keys s)"
  by (simp add: pending_keys_def)

lemma card_pending_keys: "card (pending_keys s) \<le> pending_cnt s"
proof -
  have "card (pending_keys s) \<le> (\<Sum>h < unat REPLY_HASH_SIZE. card (rh_key ` set (reply_handlers s h)))"
    unfolding pending_keys_def by (rule card_UN_le) simp
  also have "\<dots> \<le> (\<Sum>h < unat REPLY_HASH_SIZE. length (reply_handlers s h))"
    by (rule sum_mono) (rule order_trans [OF card_image_le card_length], simp)
  also have "\<dots> = pending_cnt s"
    unfolding pending_cnt_def by (simp only: interv_sum_list_conv_sum_set_nat set_upt atLeast0LessThan)
  finally show ?thesis .
qed

lemma find_Some_key:
  assumes "find (is_reply c t) (reply_handlers s (reply_hash c t)) \<noteq> None"
  shows "(c, t) \<in> pending_keys s"
proof -
  from assms obtain rh where "rh \<in> set (reply_handlers s (reply_hash c t))" "is_reply c t rh"
    by (auto simp: find_None_iff)
  then have "(c, t) \<in> rh_key ` set (reply_handlers s (reply_hash c t))"
    by (auto simp: is_reply_def rh_key_def image_iff)
  with reply_hash_less [of c t] show ?thesis unfolding pending_keys_def by blast
qed

lemma new_token_progress:
  assumes "protocols s p = Some pr" "i < n"
    "find (is_reply c (pr_tokenid pr + of_nat i)) (reply_handlers s (reply_hash c (pr_tokenid pr + of_nat i))) = None"
  shows "\<exists>t s'. new_token n p c s = (Inr t, s')"
  using assms
proof (induction n arbitrary: s pr i)
  case (Suc n)
  show ?case
  proof (cases "find (is_reply c (pr_tokenid pr)) (reply_handlers s (reply_hash c (pr_tokenid pr)))")
    case (Some rh)
    with Suc.prems obtain j where i: "i = Suc j" by (cases i) auto
    let ?s = "s\<lparr>protocols := (protocols s)(p \<mapsto> pr\<lparr>pr_tokenid := pr_tokenid pr + 1\<rparr>)\<rparr>"
    have "\<exists>t s'. new_token n p c ?s = (Inr t, s')"
      using Suc.prems by (intro Suc.IH [of ?s "pr\<lparr>pr_tokenid := pr_tokenid pr + 1\<rparr>" j]) (auto simp: i add.assoc)
    with Some show ?thesis by (simp add: new_token_step [OF Suc.prems(1)] Let_def)
  qed (simp add: new_token_step [OF Suc.prems(1)] Let_def)
qed simp

lemma inj_tokens: "n \<le> 2 ^ 64 \<Longrightarrow> inj_on (\<lambda>i. (c, (t :: u64) + of_nat i)) {..<n}"
proof (rule inj_onI)
  fix x y
  assume n: "n \<le> 2 ^ 64" and xy: "x \<in> {..<n}" "y \<in> {..<n}" "(c, t + of_nat x) = (c, t + of_nat y)"
  then have "(of_nat x :: u64) = of_nat y" by simp
  moreover have "unat (of_nat x :: u64) = x" "unat (of_nat y :: u64) = y"
    using n xy(1,2) by (simp_all add: unat_of_nat)
  ultimately show "x = y" by metis
qed

lemma new_token_terminates:
  assumes "protocols s p = Some pr" "pending_cnt s < 2 ^ 64"
  shows "\<exists>t s'. new_token (pending_cnt s + 1) p c s = (Inr t, s')"
proof (rule ccontr)
  let ?n = "pending_cnt s + 1"
  assume "\<not> ?thesis"
  then have "(c, pr_tokenid pr + of_nat i) \<in> pending_keys s" if "i < ?n" for i
    using new_token_progress [OF assms(1) that, of c] by (intro find_Some_key notI) blast
  then have "(\<lambda>i. (c, pr_tokenid pr + of_nat i)) ` {..<?n} \<subseteq> pending_keys s" by auto
  then have "card {..<?n} \<le> card (pending_keys s)"
    by (rule card_inj_on_le [OF inj_tokens _ finite_pending_keys, rotated]) (use assms(2) in simp)
  with card_pending_keys [of s] show False by simp
qed

section \<open>Hello\<close>

definition string_text :: "cstring \<Rightarrow> int list" where
  "string_text str = 34 # str_syms str @ [34]"

definition offered :: "addr \<Rightarrow> bool \<Rightarrow> ServiceInfo list \<Rightarrow> cstring list" where
  "offered p disable ss = (if disable then [] else [cstr ''ZeroCopy'']) @ map si_name (filter (\<lambda>si. si_owner si = p) ss)"

fun comma_list :: "cstring list \<Rightarrow> int list" where
  "comma_list [] = []"
| "comma_list [str] = string_text str"
| "comma_list (str # strs) = string_text str @ 44 # comma_list strs"

lemma comma_list_Cons: "strs \<noteq> [] \<Longrightarrow> comma_list (str # strs) = string_text str @ 44 # comma_list strs"
  by (cases strs) simp_all

lemma write_services_written:
  assumes "\<forall>si \<in> set ss. 0 \<notin> set (si_name si)"
  shows "write_services p cnt ss out = out\<lparr>written := written out @
    (let strs = map si_name (filter (\<lambda>si. si_owner si = p) ss) in
     if cnt = 0 \<or> strs = [] then comma_list strs else 44 # comma_list strs)\<rparr>"
  using assms
proof (induction ss arbitrary: cnt out)
  case (Cons si ss)
  then show ?case
    by (auto simp: Let_def json_write_string_syms string_text_def comma_list_Cons chr_def write_stream_def)
qed simp

lemma offered_written:
  assumes "\<forall>si \<in> set ss. 0 \<notin> set (si_name si)"
  shows "(if \<not> disable then write_services p 1 ss (json_write_string out (Some (cstr ''ZeroCopy'')))
          else write_services p 0 ss out) = out\<lparr>written := written out @ comma_list (offered p disable ss)\<rparr>"
proof -
  have "0 \<notin> set (cstr ''ZeroCopy'')" by (simp add: cstr_def)
  then show ?thesis
    using assms by (auto simp: write_services_written offered_def Let_def json_write_string_syms string_text_def
        comma_list_Cons)
qed

definition hello_text :: "cstring list \<Rightarrow> int list" where
  "hello_text strs = field (cstr ''E'') @ field (cstr ''Locator'') @ field (cstr ''Hello'') @
     [91] @ comma_list strs @ [93, 0, MARKER_EOM]"

lemma hello_loop_ok:
  assumes "strs \<noteq> []" "\<forall>str \<in> set strs. 0 \<notin> set str" "length strs < fuel"
  shows "hello_loop fuel (comma_list strs @ 93 # rest) acc zc =
    (Inr (acc @ strs, rest), zc \<or> cstr ''ZeroCopy'' \<in> set strs)"
  using assms
proof (induction strs arbitrary: fuel acc zc)
  case (Cons str strs)
  obtain f where f: "fuel = Suc f" using Cons.prems by (cases fuel) auto
  have str: "takeWhile (\<lambda>b. b \<noteq> 0) str = str" using Cons.prems by (auto simp: takeWhile_eq_all_conv)
  show ?case
  proof (cases "strs = []")
    case True
    then show ?thesis
      by (auto simp: f string_text_def json_read_alloc_string_str_syms str isspace_def chr_def Let_def)
  next
    case False
    have "hello_loop f (comma_list strs @ 93 # rest) (acc @ [str]) (zc \<or> str = cstr ''ZeroCopy'') =
        (Inr ((acc @ [str]) @ strs, rest), (zc \<or> str = cstr ''ZeroCopy'') \<or> cstr ''ZeroCopy'' \<in> set strs)"
      using Cons.prems False f by (intro Cons.IH) auto
    with False show ?thesis
      by (auto simp: f comma_list_Cons string_text_def json_read_alloc_string_str_syms str isspace_def chr_def Let_def)
  qed
qed simp

lemma comma_list_length: "length strs \<le> length (comma_list strs)"
  by (induction strs rule: comma_list.induct) (auto simp: string_text_def)

lemma comma_list_first: "strs \<noteq> [] \<Longrightarrow> peek_stream (comma_list strs @ xs) = 34"
  by (cases strs rule: comma_list.cases) (simp_all add: string_text_def)

lemma read_hello_ok:
  assumes "\<forall>str \<in> set strs. 0 \<notin> set str"
  shows "read_hello (91 # comma_list strs @ 93 # 0 # MARKER_EOM # rest) =
    (Inr (if strs = [] then None else Some strs, rest), cstr ''ZeroCopy'' \<in> set strs)"
proof (cases "strs = []")
  case True
  then show ?thesis by (simp add: read_hello_def isspace_def chr_def)
next
  case False
  have "length strs < length (comma_list strs @ 93 # 0 # MARKER_EOM # rest) + 1"
    using comma_list_length [of strs] by simp
  from hello_loop_ok [OF False assms this] False show ?thesis
    by (simp add: read_hello_def isspace_def chr_def comma_list_first)
qed

definition after_hello :: "'u ProtoEnv \<Rightarrow> addr \<Rightarrow> ChannelState \<Rightarrow> ('u, unit) pact" where
  "after_hello env c st = (if st = ChannelStateStarted then ret () else connect_done env c)"

lemma send_hello_run:
  assumes "channels s c = Some ch" "ch_state ch = ChannelStateStarted \<or> ch_state ch = ChannelStateHelloReceived"
    and "\<forall>si \<in> set (services s). 0 \<notin> set (si_name si)"
  shows "send_hello_message env c s = after_hello env c (ch_state ch)
    (s\<lparr>channels := (channels s)(c \<mapsto> ch
      \<lparr>ch_out := (ch_out ch)\<lparr>written := written (ch_out ch) @
         hello_text (offered (ch_protocol ch) (ch_disable_zero_copy ch) (services s))\<rparr>,
       ch_state := if ch_state ch = ChannelStateStarted then ChannelStateHelloSent else ChannelStateConnected\<rparr>)\<rparr>)"
proof -
  note w = offered_written [OF assms(3), of "ch_disable_zero_copy ch" "ch_protocol ch"]
  have out: "write_stream (write_stream (write_stream (if \<not> ch_disable_zero_copy ch
        then write_services (ch_protocol ch) 1 (services s) (json_write_string (write_stream (write_stringz
          (write_stringz (write_stringz (ch_out ch) (cstr ''E'')) (cstr ''Locator'')) (cstr ''Hello'')) 91)
          (Some (cstr ''ZeroCopy'')))
        else write_services (ch_protocol ch) 0 (services s) (write_stream (write_stringz
          (write_stringz (write_stringz (ch_out ch) (cstr ''E'')) (cstr ''Locator'')) (cstr ''Hello'')) 91)) 93) 0) MARKER_EOM =
      (ch_out ch)\<lparr>written := written (ch_out ch) @
         hello_text (offered (ch_protocol ch) (ch_disable_zero_copy ch) (services s))\<rparr>"
    unfolding w by (rule OutputStream_eqI) (simp_all add: hello_text_def field_def)
  show ?thesis
    using assms(1,2) out
    by (cases "ch_disable_zero_copy ch") (auto simp: send_hello_message_def act_simps chr_def after_hello_def seq_def)
qed

lemma handle_event_hello:
  assumes "channels s c = Some ch" "ch_state ch = ChannelStateStarted \<or> ch_state ch = ChannelStateHelloSent"
    and "ch_inp ch = field (cstr ''Locator'') @ field (cstr ''Hello'') @ rest"
  shows "handle_event env c p s = trap (event_locator_hello env c) raise (with_inp s c rest)"
proof -
  have str: "c_string 256 (cstr ''Locator'')" "c_string 256 (cstr ''Hello'')"
    by (simp_all add: c_string_def cstr_def)
  have "handle_event env c p s = handle_event env c p (with_inp s c (field (cstr ''Locator'') @ field (cstr ''Hello'') @ rest))"
    by (simp only: with_inp_same [OF assms(1,3)])
  also have "\<dots> = trap (event_locator_hello env c) raise (with_inp s c rest)"
    unfolding handle_event_def bnd_field_with [OF assms(1) str(1)] bnd_field_with [OF assms(1) str(2)]
    by (rule trap_cong) (use assms(1,2) in \<open>auto simp: act_simps\<close>)
  finally show ?thesis .
qed

lemma event_locator_hello_run:
  assumes "channels s c = Some ch" "ch_state ch = ChannelStateStarted \<or> ch_state ch = ChannelStateHelloSent"
    and "\<forall>str \<in> set strs. 0 \<notin> set str" "ch_inp ch = 91 # comma_list strs @ 93 # 0 # MARKER_EOM # rest"
  shows "event_locator_hello env c s = after_hello env c (ch_state ch)
    (s\<lparr>channels := (channels s)(c \<mapsto> ch
      \<lparr>ch_out := (ch_out ch)\<lparr>supports_zero_copy := cstr ''ZeroCopy'' \<in> set strs\<rparr>,
       ch_inp := rest,
       ch_peer_service_list := if strs = [] then None else Some strs,
       ch_state := if ch_state ch = ChannelStateStarted then ChannelStateHelloReceived else ChannelStateConnected\<rparr>)\<rparr>)"
proof -
  note h = read_hello_ok [OF assms(3), of rest]
  from assms(2) show ?thesis
    by (elim disjE) (simp_all add: event_locator_hello_def act_simps assms(1,4) h after_hello_def)
qed

text \<open>C4: Hello messages are understood. The message that a channel in state Started or HelloReceived
  sends lists the services of its protocol, preceded by ZeroCopy unless that is disabled. When the
  peer, in state Started or HelloSent, dispatches it, the peer's list of services is that list (a null
  pointer if it is empty), binary output is enabled if and only if ZeroCopy is in the list, and both
  sides move on to their next state, Connected for the one that has now sent and received a Hello; only
  then the listeners are told.\<close>

theorem hello_roundtrip:
  assumes "channels sA a = Some cha"
    and "ch_state cha = ChannelStateStarted \<or> ch_state cha = ChannelStateHelloReceived"
    and "\<forall>si \<in> set (services sA). 0 \<notin> set (si_name si)"
    and "channels sB b = Some chb"
    and "ch_state chb = ChannelStateStarted \<or> ch_state chb = ChannelStateHelloSent"
  shows "\<exists>msg names.
    names = (if ch_disable_zero_copy cha then [] else [cstr ''ZeroCopy'']) @
      map si_name (filter (\<lambda>si. si_owner si = ch_protocol cha) (services sA)) \<and>
    send_hello_message envA a sA =
      (if ch_state cha = ChannelStateStarted then ret () else connect_done envA a)
      (sA\<lparr>channels := (channels sA)(a \<mapsto> cha
        \<lparr>ch_out := (ch_out cha)\<lparr>written := written (ch_out cha) @ msg\<rparr>,
         ch_state := if ch_state cha = ChannelStateStarted then ChannelStateHelloSent else ChannelStateConnected\<rparr>)\<rparr>) \<and>
    (\<forall>rest. handle_protocol_message envB b (with_inp sB b (msg @ rest)) =
      trap (if ch_state chb = ChannelStateStarted then ret () else connect_done envB b) raise
      (sB\<lparr>channels := (channels sB)(b \<mapsto> chb
        \<lparr>ch_out := (ch_out chb)\<lparr>supports_zero_copy := cstr ''ZeroCopy'' \<in> set names\<rparr>,
         ch_inp := rest,
         ch_peer_service_list := if names = [] then None else Some names,
         ch_state := if ch_state chb = ChannelStateStarted then ChannelStateHelloReceived
                     else ChannelStateConnected\<rparr>)\<rparr>))"
proof -
  let ?names = "offered (ch_protocol cha) (ch_disable_zero_copy cha) (services sA)"
  have nz: "\<forall>str \<in> set ?names. 0 \<notin> set str" using assms(3) by (auto simp: offered_def cstr_def)
  have E: "cstr ''E'' = [69]" by (simp add: cstr_def)
  have recv: "handle_protocol_message envB b (with_inp sB b (hello_text ?names @ rest)) =
      trap (after_hello envB b (ch_state chb)) raise
      (sB\<lparr>channels := (channels sB)(b \<mapsto> chb
        \<lparr>ch_out := (ch_out chb)\<lparr>supports_zero_copy := cstr ''ZeroCopy'' \<in> set ?names\<rparr>,
         ch_inp := rest,
         ch_peer_service_list := if ?names = [] then None else Some ?names,
         ch_state := if ch_state chb = ChannelStateStarted then ChannelStateHelloReceived
                     else ChannelStateConnected\<rparr>)\<rparr>)" (is "_ = trap _ raise ?s'") for rest
  proof -
    let ?r1 = "field (cstr ''Locator'') @ field (cstr ''Hello'') @ 91 # comma_list ?names @ 93 # 0 # MARKER_EOM # rest"
    let ?r2 = "91 # comma_list ?names @ 93 # 0 # MARKER_EOM # rest"
    have "handle_protocol_message envB b (with_inp sB b (hello_text ?names @ rest)) =
        handle_event envB b (ch_protocol chb) (with_inp sB b ?r1)"
      using assms(4) by (subst message_type [of _ b "chb\<lparr>ch_inp := hello_text ?names @ rest\<rparr>" 69 ?r1])
        (simp_all add: hello_text_def E, simp_all add: cstr_def)
    also have "\<dots> = trap (event_locator_hello envB b) raise (with_inp sB b ?r2)"
      using assms(4,5) by (subst handle_event_hello [of _ b "chb\<lparr>ch_inp := ?r1\<rparr>" ?r2]) simp_all
    also have "event_locator_hello envB b (with_inp sB b ?r2) = after_hello envB b (ch_state chb) ?s'"
      using assms(4,5) nz
      by (subst event_locator_hello_run [of _ b "chb\<lparr>ch_inp := ?r2\<rparr>" ?names rest]) (simp_all add: with_inp_Some)
    then have "trap (event_locator_hello envB b) raise (with_inp sB b ?r2) =
        trap (after_hello envB b (ch_state chb)) raise ?s'" by (rule trap_cong)
    finally show ?thesis .
  qed
  show ?thesis
    using send_hello_run [OF assms(1-3), of envA] recv
    unfolding after_hello_def offered_def by (intro exI conjI) (rule refl, assumption, blast)
qed

section \<open>Invariant and dispatching\<close>

text \<open>C14: In every state that a run of the dispatcher reaches, whatever messages arrive, the tables
  are consistent, as long as the functions of the clients keep them so: handlers are found through their hash value,
  lookups never follow a pointer to a service that has been freed, and no two commands
  that wait for a reply on the same channel have the same token.\<close>

theorem protocol_tables_consistent:
  assumes "env_keeps tables_ok env" "proto_reach env s"
  shows "tables_ok s \<and>
    (\<forall>p service name. \<exists>mh. find_message_handler p service name s = (Inr mh, s)) \<and>
    (\<forall>c service name. \<exists>eh. find_event_handler c service name s = (Inr eh, s)) \<and>
    (\<forall>h1 h2. \<forall>rh1 \<in> set (reply_handlers s h1). \<forall>rh2 \<in> set (reply_handlers s h2).
       rh_c rh1 = rh_c rh2 \<and> rh_tokenid rh1 = rh_tokenid rh2 \<longrightarrow> rh1 = rh2)"
proof -
  have ok: "tables_ok s" by (rule proto_reach_tables [OF assms(2,1)])
  have "rh1 = rh2" if rh: "rh1 \<in> set (reply_handlers s h1)" "rh2 \<in> set (reply_handlers s h2)"
    "rh_c rh1 = rh_c rh2" "rh_tokenid rh1 = rh_tokenid rh2" for h1 h2 rh1 rh2
  proof -
    have "h1 = h2" using rh tables_ok_bucketD [OF ok, of h1] tables_ok_bucketD [OF ok, of h2]
      by (auto simp: bucket_ok_def)
    then show ?thesis
      using rh tables_ok_bucketD [OF ok, of h1] by (auto simp: bucket_ok_def distinct_map rh_key_def inj_on_def)
  qed
  then show ?thesis by (auto simp: ok find_message_handler_eq [OF ok] find_event_handler_eq [OF ok])
qed

lemma add_all_fold: "commands.add_all kvs s = fold (\<lambda>(k, v). set_command k v) kvs s"
  by (induction kvs arbitrary: s) (auto simp: commands.add_all.simps)

lemma fold_set_command_keep [simp]:
  "channels (fold (\<lambda>(k, v). set_command k v) kvs s) = channels s"
  by (induction kvs arbitrary: s) (auto split: prod.splits)

lemma dispatch_to_handler:
  assumes "tables_ok s" "channels s c = Some ch" "ch_state ch = ChannelStateConnected"
    and "ch_inp ch = field (cstr ''C'') @ field token @ field service @ field name @ rest"
    and "c_string 256 token" "c_string 256 service" "c_string 256 name"
    and "get_command (ch_protocol ch, service, name) s = Some (h, d)"
  shows "handle_protocol_message env c s = trap (call_command_handler env h token c d) raise (with_inp s c rest)"
proof -
  have C: "cstr ''C'' = [67]" by (simp add: cstr_def)
  obtain mh where mh: "find_message_handler (ch_protocol ch) service name (with_inp s c rest) = (Inr (Some mh), with_inp s c rest)"
    "mh_handler mh = h" "mh_client_data mh = d"
    using assms(8) by (auto simp: get_command_eq [OF assms(1)] find_message_handler_eq assms(1))
  let ?r = "field token @ field service @ field name @ rest"
  have "handle_protocol_message env c s = handle_command env c (ch_protocol ch) (with_inp s c ?r)"
    using message_type [OF assms(2), of 67 ?r env] assms(4) by (simp add: C)
  also have "\<dots> = trap (call_command_handler env h token c d) raise (with_inp s c rest)"
    using assms(2) by (subst handle_command_run [of _ c "ch\<lparr>ch_inp := ?r\<rparr>", OF _ _ assms(5-7)])
      (simp_all add: assms(3), intro trap_cong, simp add: act_simps mh)
  finally show ?thesis .
qed

text \<open>C18: A command is delivered to the handler that was registered last for its service and name with
  the protocol of the channel, whatever else was registered before or later; the handler gets the
  token and its client data, and finds the stream at the arguments.\<close>

theorem command_dispatched:
  assumes "tables_ok s0" "channels s0 c = Some ch" "ch_state ch = ChannelStateConnected"
    and "ch_inp ch = field (cstr ''C'') @ field token @ field service @ field name @ rest"
    and "c_string 256 token" "c_string 256 service" "c_string 256 name"
    and "s = fold (\<lambda>(k, v). set_command k v) (((ch_protocol ch, service, name), h, d) # kvs) s0"
    and "list_all (\<lambda>(k, v). command_allowed k s0) (((ch_protocol ch, service, name), h, d) # kvs)"
    and "(ch_protocol ch, service, name) \<notin> fst ` set kvs"
  shows "handle_protocol_message env c s =
    trap (call_command_handler env h token c d) raise (with_inp s c rest)"
proof (rule dispatch_to_handler [OF _ _ assms(3-7)])
  show "tables_ok s" using commands.add_all_inv [OF assms(1,9)] by (simp only: add_all_fold assms(8))
  show "channels s c = Some ch" unfolding assms(8) using assms(2) by (simp del: fold_simps)
  show "get_command (ch_protocol ch, service, name) s = Some (h, d)"
    using commands.last_registration [OF assms(1,9,10)] by (simp only: add_all_fold assms(8))
qed

section \<open>Commands and replies\<close>

lemma seq_ret [simp]: "seq (ret ()) m = m"
  by (simp add: seq_def bnd_def ret_def)

lemma find_pending:
  assumes "tables_ok s" "rh \<in> set (reply_handlers s h)" "is_reply c t rh"
  shows "find (is_reply c t) (reply_handlers s h) = Some rh"
proof -
  obtain rh' where f: "find (is_reply c t) (reply_handlers s h) = Some rh'"
    using assms(2,3) by (cases "find (is_reply c t) (reply_handlers s h)") (auto simp: find_None_iff)
  then have "rh' \<in> set (reply_handlers s h)" "is_reply c t rh'" by (auto simp: find_Some_iff)
  with assms(2,3) tables_ok_bucketD [OF assms(1), of h] have "rh' = rh"
    by (auto simp: bucket_ok_def distinct_map inj_on_def rh_key_def is_reply_def)
  with f show ?thesis by simp
qed

definition command_text :: "u64 \<Rightarrow> cstring \<Rightarrow> cstring \<Rightarrow> int list" where
  "command_text t service name = field (cstr ''C'') @ field (token_text t) @ field service @ field name"

lemma command_header_written:
  "command_header t service name out = out\<lparr>written := written out @ command_text t service name\<rparr>"
  by (rule OutputStream_eqI)
    (simp_all add: command_header_def command_text_def field_def json_write_ulong_dec syms_token_text)

definition pushed_reply :: "'u PState \<Rightarrow> ReplyHandlerInfo \<Rightarrow> nat \<Rightarrow> ReplyHandlerInfo list" where
  "pushed_reply s rh = (reply_handlers s)(reply_hash (rh_c rh) (rh_tokenid rh) :=
     rh # reply_handlers s (reply_hash (rh_c rh) (rh_tokenid rh)))"

lemma send_command_ok:
  assumes "channels s c = Some ch" "\<not> is_channel_closed ch" "ch_peer_service_list ch \<noteq> None"
    and "protocols s (ch_protocol ch) = Some pr" "pending_cnt s < 2 ^ 64"
  obtains t x where
    "find (is_reply c t) (reply_handlers s (reply_hash c t)) = None"
    "protocol_send_command_with_progress c service name h pg d s =
      (let rh = new_rh (next_rh s) t c h pg d in
       (Inr rh, s\<lparr>next_rh := next_rh s + 1, protocols := x,
          channels := (channels s)(c \<mapsto> ch\<lparr>ch_out := (ch_out ch)\<lparr>written := written (ch_out ch) @ command_text t service name\<rparr>\<rparr>),
          reply_handlers := pushed_reply s rh\<rparr>))"
    "dom x = dom (protocols s)"
proof -
  have "\<exists>t s'. new_token (pending_cnt (s\<lparr>next_rh := next_rh s + 1\<rparr>) + 1) (ch_protocol ch) c (s\<lparr>next_rh := next_rh s + 1\<rparr>) = (Inr t, s')"
    by (rule new_token_terminates) (use assms in simp_all)
  then obtain t s1 where n: "new_token (pending_cnt s + 1) (ch_protocol ch) c (s\<lparr>next_rh := next_rh s + 1\<rparr>) = (Inr t, s1)"
    by auto
  obtain x where s1: "s1 = s\<lparr>next_rh := next_rh s + 1, protocols := x\<rparr>" "dom x = dom (protocols s)"
    using new_token_frame [OF n] by auto
  show ?thesis
  proof (rule that)
    show "find (is_reply c t) (reply_handlers s (reply_hash c t)) = None" using new_token_free [OF n] by simp
    show "protocol_send_command_with_progress c service name h pg d s =
      (let rh = new_rh (next_rh s) t c h pg d in
       (Inr rh, s\<lparr>next_rh := next_rh s + 1, protocols := x,
          channels := (channels s)(c \<mapsto> ch\<lparr>ch_out := (ch_out ch)\<lparr>written := written (ch_out ch) @ command_text t service name\<rparr>\<rparr>),
          reply_handlers := pushed_reply s rh\<rparr>))"
      unfolding send_command_open [OF assms(1-3) n, of service name h pg d] s1(1) command_header_written
      by (simp add: Let_def pushed_reply_def)
  qed (rule s1(2))
qed

lemma find_pushed:
  "find (is_reply (rh_c rh) (rh_tokenid rh)) (pushed_reply s rh (reply_hash (rh_c rh) (rh_tokenid rh))) = Some rh"
  "unlink (is_reply (rh_c rh) (rh_tokenid rh)) (pushed_reply s rh (reply_hash (rh_c rh) (rh_tokenid rh))) =
     reply_handlers s (reply_hash (rh_c rh) (rh_tokenid rh))"
  by (simp_all add: pushed_reply_def is_reply_def)

lemma handle_reply_message:
  assumes "channels s c = Some ch" "ch_inp ch = field [b] @ field (token_text t) @ rest"
    and "find (is_reply c t) (reply_handlers s (reply_hash c t)) = Some rh"
    and "b = of_char CHR ''R'' \<or> b = of_char CHR ''N''"
  shows "handle_protocol_message env c s = trap
       (seq (if b = of_char CHR ''N'' then skip_until_EOM c else ret ())
        (case rh_handler rh of
           Some h \<Rightarrow> call_reply_handler env (notify_channel_closed env) h (rh_client_data rh) c
             (if b = of_char CHR ''N'' then err_no ERR_INV_COMMAND else 0)
         | None \<Rightarrow> skip_until_EOM c)) raise
       ((with_inp s c rest)\<lparr>reply_handlers := (reply_handlers s)(reply_hash c t :=
          unlink (is_reply c t) (reply_handlers s (reply_hash c t)))\<rparr>)"
proof -
  have "b \<noteq> 0" "[b] \<noteq> cstr ''C''" "[b] = cstr ''R'' \<or> [b] = cstr ''P'' \<or> [b] = cstr ''N''"
    using assms(4) by (auto simp: cstr_def)
  then have "handle_protocol_message env c s =
      handle_reply env c (ch_protocol ch) b (with_inp s c (field (token_text t) @ rest))"
    using message_type [OF assms(1,2)] by simp
  also have "\<dots> = trap
       (seq (if b = of_char CHR ''N'' then skip_until_EOM c else ret ())
        (case rh_handler rh of
           Some h \<Rightarrow> call_reply_handler env (notify_channel_closed env) h (rh_client_data rh) c
             (if b = of_char CHR ''N'' then err_no ERR_INV_COMMAND else 0)
         | None \<Rightarrow> skip_until_EOM c)) raise
       ((with_inp s c rest)\<lparr>reply_handlers := (reply_handlers s)(reply_hash c t :=
          unlink (is_reply c t) (reply_handlers s (reply_hash c t)))\<rparr>)"
    using assms(1,3,4)
    by (subst handle_reply_run [of _ c "ch\<lparr>ch_inp := field (token_text t) @ rest\<rparr>" t rest rh]) simp_all
  finally show ?thesis .
qed

text \<open>C3: Commands and replies find each other. A command sent on an open channel is given a token that no
  pending command of the channel has. The peer calls the handler that is registered for the command,
  with that token. As long as the command is pending, a reply with the token, at whatever time it
  comes, is given to the function that was passed with the command, with the client data that was passed with
  it and error 0, and the command is not pending any more.\<close>

theorem command_reply_roundtrip:
  assumes "channels sA a = Some cha" "\<not> is_channel_closed cha" "ch_peer_service_list cha \<noteq> None"
    and "protocols sA (ch_protocol cha) = Some pr" "pending_cnt sA < 2 ^ 64"
    and "c_string 256 service" "c_string 256 name"
    and "tables_ok sB" "channels sB b = Some chb" "ch_state chb = ChannelStateConnected"
    and "get_command (ch_protocol chb, service, name) sB = Some (CommandCB g, d')"
  shows "\<exists>rh sA' msg token.
    protocol_send_command a service name (Some (ReplyCB f)) d sA = (Inr rh, sA') \<and>
    channels sA' a = Some (cha\<lparr>ch_out := (ch_out cha)\<lparr>written := written (ch_out cha) @ msg\<rparr>\<rparr>) \<and>
    find (is_reply a (rh_tokenid rh)) (reply_handlers sA (reply_hash a (rh_tokenid rh))) = None \<and>
    rh \<in> set (reply_handlers sA' (reply_hash a (rh_tokenid rh))) \<and>
    (\<forall>args. handle_protocol_message envB b (with_inp sB b (msg @ args)) =
       trap (env_command envB g token b d') raise (with_inp sB b args)) \<and>
    (\<forall>s ch rest. tables_ok s \<and> channels s a = Some ch \<and> rh \<in> set (reply_handlers s (reply_hash a (rh_tokenid rh))) \<longrightarrow>
       handle_protocol_message envA a (with_inp s a (field (cstr ''R'') @ field token @ rest)) =
       trap (env_reply envA f a d 0) raise
         ((with_inp s a rest)\<lparr>reply_handlers := (reply_handlers s)(reply_hash a (rh_tokenid rh) :=
            unlink (is_reply a (rh_tokenid rh)) (reply_handlers s (reply_hash a (rh_tokenid rh))))\<rparr>))"
proof -
  obtain t x where t: "find (is_reply a t) (reply_handlers sA (reply_hash a t)) = None"
    "protocol_send_command_with_progress a service name (Some (ReplyCB f)) None d sA =
      (let rh = new_rh (next_rh sA) t a (Some (ReplyCB f)) None d in
       (Inr rh, sA\<lparr>next_rh := next_rh sA + 1, protocols := x,
          channels := (channels sA)(a \<mapsto> cha\<lparr>ch_out := (ch_out cha)\<lparr>written := written (ch_out cha) @ command_text t service name\<rparr>\<rparr>),
          reply_handlers := pushed_reply sA rh\<rparr>))"
    by (rule send_command_ok [OF assms(1-5)])
  let ?rh = "new_rh (next_rh sA) t a (Some (ReplyCB f)) None d"
  have deliver: "handle_protocol_message envB b (with_inp sB b (command_text t service name @ args)) =
      trap (env_command envB g (token_text t) b d') raise (with_inp sB b args)" for args
    using dispatch_to_handler [of "with_inp sB b (command_text t service name @ args)" b
        "chb\<lparr>ch_inp := command_text t service name @ args\<rparr>" "token_text t" service name args "CommandCB g" d' envB]
      assms(6-11) token_text_c_string [of t]
    by (simp add: command_text_def get_command_eq)
  have route: "handle_protocol_message envA a (with_inp s a (field (cstr ''R'') @ field (token_text t) @ rest)) =
      trap (env_reply envA f a d 0) raise
        ((with_inp s a rest)\<lparr>reply_handlers := (reply_handlers s)(reply_hash a t :=
           unlink (is_reply a t) (reply_handlers s (reply_hash a t)))\<rparr>)"
    if s: "tables_ok s" "channels s a = Some ch" "?rh \<in> set (reply_handlers s (reply_hash a t))" for s ch rest
  proof -
    have "find (is_reply a t) (reply_handlers s (reply_hash a t)) = Some ?rh"
      by (rule find_pending [OF s(1,3)]) (simp_all add: is_reply_def)
    with handle_reply_message [of "with_inp s a (field (cstr ''R'') @ field (token_text t) @ rest)" a
        "ch\<lparr>ch_inp := field (cstr ''R'') @ field (token_text t) @ rest\<rparr>" "of_char CHR ''R''" t rest ?rh envA] s(2)
    show ?thesis by (simp add: cstr_def seq_ret)
  qed
  show ?thesis
    using t deliver route unfolding protocol_send_command_def Let_def
    by (intro exI [of _ ?rh] exI [of _ "command_text t service name"] exI [of _ "token_text t"] exI)
      (auto simp: pushed_reply_def)
qed

lemma dispatch_unknown:
  assumes "tables_ok s" "channels s c = Some ch" "ch_state ch = ChannelStateConnected"
    and "ch_inp ch = field (cstr ''C'') @ field token @ field service @ field name @ args @ MARKER_EOM # rest"
    and "c_string 256 token" "c_string 256 service" "c_string 256 name"
    and "MARKER_EOM \<notin> set args" "MARKER_EOS \<notin> set args"
    and "get_command (ch_protocol ch, service, name) s = None"
    and "protocols s (ch_protocol ch) = Some pr" "pr_default_handler pr = None"
  shows "handle_protocol_message env c s = (Inr (), s\<lparr>channels := (channels s)(c \<mapsto> ch\<lparr>ch_inp := rest,
    ch_out := (ch_out ch)\<lparr>written := written (ch_out ch) @ field (cstr ''N'') @ field token @ [MARKER_EOM]\<rparr>\<rparr>)\<rparr>)"
proof -
  have C: "cstr ''C'' = [67]" by (simp add: cstr_def)
  let ?r = "field token @ field service @ field name @ args @ MARKER_EOM # rest"
  let ?s = "with_inp s c (args @ MARKER_EOM # rest)"
  have mh: "find_message_handler (ch_protocol ch) service name ?s = (Inr None, ?s)"
    using assms(10) by (simp add: get_command_eq [OF assms(1)] find_message_handler_eq assms(1))
  have out: "write_stream (write_stringz (write_stringz (ch_out ch) (cstr ''N'')) token) MARKER_EOM =
      (ch_out ch)\<lparr>written := written (ch_out ch) @ field (cstr ''N'') @ field token @ [MARKER_EOM]\<rparr>"
    by (rule OutputStream_eqI) (simp_all add: field_def)
  have "handle_protocol_message env c s = handle_command env c (ch_protocol ch) (with_inp s c ?r)"
    using message_type [OF assms(2), of 67 ?r env] assms(4) by (simp add: C)
  also have "\<dots> = trap (write_not_recognized c token) raise ?s"
    using assms(2) by (subst handle_command_run [of _ c "ch\<lparr>ch_inp := ?r\<rparr>", OF _ _ assms(5-7)])
      (simp_all add: assms(3), intro trap_cong, simp add: act_simps mh assms(11,12))
  also have "\<dots> = (Inr (), s\<lparr>channels := (channels s)(c \<mapsto> ch\<lparr>ch_inp := rest,
      ch_out := (ch_out ch)\<lparr>written := written (ch_out ch) @ field (cstr ''N'') @ field token @ [MARKER_EOM]\<rparr>\<rparr>)\<rparr>)"
    using assms(2) out by (simp add: with_inp_Some act_simps write_not_recognized_run skip_loop_msg [OF assms(8,9)])
  finally show ?thesis .
qed

text \<open>C20: A command that the peer does not know is reported to its sender: the peer skips the message and
  answers with the token, and when the sender dispatches that answer the function passed with the
  command is called with the error \<^verbatim>\<open>ERR_INV_COMMAND\<close>; the command is not pending any more.\<close>

theorem unknown_command_reported:
  assumes "channels sA a = Some cha" "\<not> is_channel_closed cha" "ch_peer_service_list cha \<noteq> None"
    and "protocols sA (ch_protocol cha) = Some pr" "pending_cnt sA < 2 ^ 64"
    and "c_string 256 service" "c_string 256 name"
    and "tables_ok sB" "channels sB b = Some chb" "ch_state chb = ChannelStateConnected"
    and "get_command (ch_protocol chb, service, name) sB = None"
    and "protocols sB (ch_protocol chb) = Some prB" "pr_default_handler prB = None"
    and "MARKER_EOM \<notin> set args" "MARKER_EOS \<notin> set args"
  shows "\<exists>rh sA' msg answer.
    protocol_send_command a service name (Some (ReplyCB f)) d sA = (Inr rh, sA') \<and>
    channels sA' a = Some (cha\<lparr>ch_out := (ch_out cha)\<lparr>written := written (ch_out cha) @ msg\<rparr>\<rparr>) \<and>
    handle_protocol_message envB b (with_inp sB b (msg @ args @ [MARKER_EOM])) =
      (Inr (), sB\<lparr>channels := (channels sB)(b \<mapsto> chb\<lparr>ch_inp := [],
         ch_out := (ch_out chb)\<lparr>written := written (ch_out chb) @ answer\<rparr>\<rparr>)\<rparr>) \<and>
    handle_protocol_message envA a (with_inp sA' a answer) =
      trap (env_reply envA f a d (err_no ERR_INV_COMMAND)) raise
        ((with_inp sA' a [])\<lparr>reply_handlers := reply_handlers sA\<rparr>)"
proof -
  obtain t x where t: "find (is_reply a t) (reply_handlers sA (reply_hash a t)) = None"
    "protocol_send_command_with_progress a service name (Some (ReplyCB f)) None d sA =
      (let rh = new_rh (next_rh sA) t a (Some (ReplyCB f)) None d in
       (Inr rh, sA\<lparr>next_rh := next_rh sA + 1, protocols := x,
          channels := (channels sA)(a \<mapsto> cha\<lparr>ch_out := (ch_out cha)\<lparr>written := written (ch_out cha) @ command_text t service name\<rparr>\<rparr>),
          reply_handlers := pushed_reply sA rh\<rparr>))"
    by (rule send_command_ok [OF assms(1-5)])
  let ?rh = "new_rh (next_rh sA) t a (Some (ReplyCB f)) None d"
  define sA' where "sA' = sA\<lparr>next_rh := next_rh sA + 1, protocols := x,
          channels := (channels sA)(a \<mapsto> cha\<lparr>ch_out := (ch_out cha)\<lparr>written := written (ch_out cha) @ command_text t service name\<rparr>\<rparr>),
          reply_handlers := pushed_reply sA ?rh\<rparr>"
  define answer where "answer = field (cstr ''N'') @ field (token_text t) @ [MARKER_EOM]"
  have sent: "protocol_send_command a service name (Some (ReplyCB f)) d sA = (Inr ?rh, sA')"
    unfolding protocol_send_command_def t(2) sA'_def by (simp add: Let_def)
  have cha': "channels sA' a = Some (cha\<lparr>ch_out := (ch_out cha)\<lparr>written := written (ch_out cha) @ command_text t service name\<rparr>\<rparr>)"
    by (simp add: sA'_def)
  have reject: "handle_protocol_message envB b (with_inp sB b (command_text t service name @ args @ [MARKER_EOM])) =
      (Inr (), sB\<lparr>channels := (channels sB)(b \<mapsto> chb\<lparr>ch_inp := [],
         ch_out := (ch_out chb)\<lparr>written := written (ch_out chb) @ answer\<rparr>\<rparr>)\<rparr>)"
    using dispatch_unknown [of "with_inp sB b (command_text t service name @ args @ [MARKER_EOM])" b
        "chb\<lparr>ch_inp := command_text t service name @ args @ [MARKER_EOM]\<rparr>" "token_text t" service name args "[]" prB envB]
      assms(6-15) token_text_c_string [of t]
    by (simp add: command_text_def get_command_eq answer_def with_inp_Some)
  have found: "find (is_reply a t) (reply_handlers sA' (reply_hash a t)) = Some ?rh"
    "(reply_handlers sA')(reply_hash a t := unlink (is_reply a t) (reply_handlers sA' (reply_hash a t))) = reply_handlers sA"
    by (simp_all add: sA'_def pushed_reply_def is_reply_def)
  have "handle_protocol_message envA a (with_inp sA' a answer) =
      trap (seq (skip_until_EOM a) (env_reply envA f a d (err_no ERR_INV_COMMAND))) raise
        ((with_inp sA' a [MARKER_EOM])\<lparr>reply_handlers := reply_handlers sA\<rparr>)"
    using handle_reply_message [of "with_inp sA' a answer" a "the (channels (with_inp sA' a answer) a)"
        "of_char CHR ''N''" t "[MARKER_EOM]" ?rh envA] found
    by (simp add: cha' answer_def cstr_def)
  also have "\<dots> = trap (env_reply envA f a d (err_no ERR_INV_COMMAND)) raise
      ((with_inp sA' a [])\<lparr>reply_handlers := reply_handlers sA\<rparr>)"
    by (rule trap_cong) (simp add: act_simps skip_until_EOM_def cha' with_inp_Some sA'_def)
  finally show ?thesis using sent cha' reject by blast
qed

end
