(* ===== verification/ProtoClose.thy ===== *)
theory ProtoClose
  imports ProtoProps
begin

text \<open>
  What \<^verbatim>\<open>channel_closed\<close> of \<^verbatim>\<open>framework/protocol.c\<close> does to the commands that wait for a reply,
  when the functions of the clients leave the tables alone, and what may happen when they do not; and the
  Hello message that makes the agent follow a null pointer.
\<close>

section \<open>Links\<close>

lemma after_rh_append:
  "rh_addr x \<notin> rh_addr ` set pre \<Longrightarrow> after_rh (rh_addr x) (pre @ x # rest) = Some rest"
  by (induction pre) auto

lemma set_next_append:
  "rh_addr x \<notin> rh_addr ` set pre \<Longrightarrow> set_next (rh_addr x) rest (pre @ x # post) = Some (pre @ x # rest)"
  by (induction pre) auto

definition link_to :: "ReplyHandlerInfo list \<Rightarrow> nat option" where
  "link_to pre = (if pre = [] then None else Some (rh_addr (last pre)))"

lemma link_to_simps [simp]: "link_to [] = None" "link_to (pre @ [x]) = Some (rh_addr x)"
  by (simp_all add: link_to_def)

lemma read_link_to:
  assumes "distinct (map rh_addr (pre @ rest))"
  shows "read_link (link_to pre) (pre @ rest) = Some rest"
proof (cases pre rule: rev_cases)
  case (snoc ys y)
  with assms show ?thesis using after_rh_append [of y ys rest] by (simp add: read_link_def)
qed (simp add: read_link_def)

lemma write_link_to:
  assumes "distinct (map rh_addr (pre @ post))"
  shows "write_link (link_to pre) rest (pre @ post) = Some (pre @ rest)"
proof (cases pre rule: rev_cases)
  case (snoc ys y)
  with assms show ?thesis using set_next_append [of y ys rest post] by (simp add: write_link_def)
qed (simp add: write_link_def)

section \<open>Handlers that leave the tables alone\<close>

text \<open>The calls that closing a channel owes to the clients, in order.\<close>

definition owed :: "addr \<Rightarrow> ReplyHandlerInfo list \<Rightarrow> (nat \<times> client_data) list" where
  "owed c rhs = concat (map (\<lambda>rh. case rh_handler rh of
     Some (ReplyCB f) \<Rightarrow> [(f, rh_client_data rh)] | _ \<Rightarrow> []) (filter (\<lambda>rh. rh_c rh = c) rhs))"

definition plain_rh :: "ReplyHandlerInfo \<Rightarrow> bool" where
  "plain_rh rh \<longleftrightarrow> rh_handler rh \<noteq> Some redirect_done"

definition reply_env :: "'u ProtoEnv \<Rightarrow> (nat \<Rightarrow> addr \<Rightarrow> client_data \<Rightarrow> int \<Rightarrow> 'u \<Rightarrow> 'u) \<Rightarrow> bool" where
  "reply_env env upd \<longleftrightarrow> (\<forall>f c d e. env_reply env f c d e = modify (\<lambda>s. s\<lparr>client_state := upd f c d e (client_state s)\<rparr>))"

definition pay :: "(nat \<Rightarrow> addr \<Rightarrow> client_data \<Rightarrow> int \<Rightarrow> 'u \<Rightarrow> 'u) \<Rightarrow> addr \<Rightarrow> (nat \<times> client_data) list \<Rightarrow> 'u \<Rightarrow> 'u" where
  "pay upd c calls = fold (\<lambda>(f, d). upd f c d (err_no ERR_CHANNEL_CLOSED)) calls"

definition close_one :: "(nat \<Rightarrow> addr \<Rightarrow> client_data \<Rightarrow> int \<Rightarrow> 'u \<Rightarrow> 'u) \<Rightarrow> addr \<Rightarrow> nat \<Rightarrow> ReplyHandlerInfo list \<Rightarrow>
    ReplyHandlerInfo list \<Rightarrow> 'u PState \<Rightarrow> 'u PState" where
  "close_one upd c i bucket gone s = s\<lparr>reply_handlers := (reply_handlers s)(i := bucket),
     client_state := pay upd c (owed c gone) (client_state s)\<rparr>"

lemma owed_simps:
  "owed c [] = []"
  "rh_c rh \<noteq> c \<Longrightarrow> owed c (rh # rhs) = owed c rhs"
  "rh_c rh = c \<Longrightarrow> owed c (rh # rhs) = owed c [rh] @ owed c rhs"
  by (simp_all add: owed_def)

lemma pay_append: "pay upd c (xs @ ys) u = pay upd c ys (pay upd c xs u)"
  by (simp add: pay_def)

lemma close_reply_run:
  assumes env: "reply_env env upd" and ch: "channels s c = Some ch" "ch_state ch = ChannelStateDisconnected"
    and b: "reply_handlers s i = pre @ rh # rest" "distinct (map rh_addr (pre @ rh # rest))"
    and rh: "rh_c rh = c" "plain_rh rh"
  shows "close_reply env c i (link_to pre) rh s = (Inr (link_to pre), close_one upd c i (pre @ rest) [rh] s)"
proof -
  have after: "after_rh (rh_addr rh) (pre @ rh # rest) = Some rest"
    using b(2) by (intro after_rh_append) auto
  have w: "write_link (link_to pre) rest (pre @ rh # rest) = Some (pre @ rest)"
    using b(2) by (rule write_link_to)
  consider "rh_handler rh = None" | f where "rh_handler rh = Some (ReplyCB f)"
    using rh(2) by (metis ReplyHandlerCB.exhaust not_None_eq plain_rh_def)
  then show ?thesis
  proof cases
    case 1
    then show ?thesis using ch b(1) after w rh(1)
      by (simp add: close_reply_def act_simps put_bucket_def close_one_def owed_def pay_def)
  next
    case 2
    then show ?thesis using env ch b(1) after w rh(1)
      by (simp add: close_reply_def act_simps put_bucket_def close_one_def owed_def pay_def reply_env_def)
  qed
qed

lemma close_bucket_run:
  assumes env: "reply_env env upd" and ch: "channels s c = Some ch" "ch_state ch = ChannelStateDisconnected"
    and b: "reply_handlers s i = pre @ rest" "distinct (map rh_addr (pre @ rest))"
    and "\<forall>rh \<in> set rest. plain_rh rh" "length rest < n"
  shows "close_bucket n env c i (link_to pre) s =
    (Inr (), close_one upd c i (pre @ filter (\<lambda>rh. rh_c rh \<noteq> c) rest) rest s)"
  using assms
proof (induction rest arbitrary: n s pre)
  case Nil
  then obtain m where "n = Suc m" by (cases n) auto
  then show ?case
    using Nil read_link_to [of pre "[]"] by (simp add: close_bucket.simps act_simps close_one_def owed_simps pay_def fun_upd_idem)
next
  case (Cons rh rest)
  then obtain m where n: "n = Suc m" by (cases n) auto
  have link: "read_link (link_to pre) (reply_handlers s i) = Some (rh # rest)"
    unfolding Cons.prems(4) by (rule read_link_to [OF Cons.prems(5)])
  show ?case
  proof (cases "rh_c rh = c")
    case True
    have run: "close_reply env c i (link_to pre) rh s = (Inr (link_to pre), close_one upd c i (pre @ rest) [rh] s)"
      by (rule close_reply_run [OF env Cons.prems(2,3,4,5) True]) (use Cons.prems(6) in simp)
    have "close_bucket m env c i (link_to pre) (close_one upd c i (pre @ rest) [rh] s) =
        (Inr (), close_one upd c i (pre @ filter (\<lambda>rh. rh_c rh \<noteq> c) rest) rest (close_one upd c i (pre @ rest) [rh] s))"
      using Cons.prems n by (intro Cons.IH) (auto simp: close_one_def)
    then show ?thesis
      using True link run
      by (simp add: n close_bucket.simps act_simps close_one_def owed_simps(3) [OF True, of rest] pay_append)
  next
    case False
    have "close_bucket m env c i (link_to (pre @ [rh])) s =
        (Inr (), close_one upd c i ((pre @ [rh]) @ filter (\<lambda>rh. rh_c rh \<noteq> c) rest) rest s)"
      using Cons.prems n by (intro Cons.IH) auto
    then show ?thesis
      using False link by (simp add: n close_bucket.simps act_simps close_one_def owed_simps(2))
  qed
qed

definition close_many :: "(nat \<Rightarrow> addr \<Rightarrow> client_data \<Rightarrow> int \<Rightarrow> 'u \<Rightarrow> 'u) \<Rightarrow> addr \<Rightarrow> nat list \<Rightarrow> 'u PState \<Rightarrow> 'u PState" where
  "close_many upd c is s = s\<lparr>
     reply_handlers := (\<lambda>i. if i \<in> set is then filter (\<lambda>rh. rh_c rh \<noteq> c) (reply_handlers s i) else reply_handlers s i),
     client_state := pay upd c (concat (map (\<lambda>i. owed c (reply_handlers s i)) is)) (client_state s)\<rparr>"

lemma close_many_Cons:
  assumes "i \<notin> set is"
  shows "close_many upd c is (close_one upd c i (filter (\<lambda>rh. rh_c rh \<noteq> c) (reply_handlers s i)) (reply_handlers s i) s) =
    close_many upd c (i # is) s"
proof -
  have other: "map (\<lambda>j. owed c (if j = i then b else reply_handlers s j)) is = map (\<lambda>j. owed c (reply_handlers s j)) is" for b
    using assms by (intro map_cong) auto
  show ?thesis
    using assms by (auto simp: close_many_def close_one_def pay_append fun_eq_iff other intro!: PState.fold_congs)
qed

lemma close_buckets_run:
  assumes env: "reply_env env upd" and "channels s c = Some ch" "ch_state ch = ChannelStateDisconnected"
    and "\<forall>i \<in> set is. distinct (map rh_addr (reply_handlers s i)) \<and> (\<forall>rh \<in> set (reply_handlers s i). plain_rh rh)"
    and "distinct is"
  shows "close_buckets env c is s = (Inr (), close_many upd c is s)"
  using assms(2-)
proof (induction "is" arbitrary: s)
  case Nil
  then show ?case by (simp add: act_simps close_many_def pay_def)
next
  case (Cons i "is")
  let ?s = "close_one upd c i (filter (\<lambda>rh. rh_c rh \<noteq> c) (reply_handlers s i)) (reply_handlers s i) s"
  have "close_bucket (length (reply_handlers s i) + 1) env c i (link_to []) s = (Inr (), ?s)"
    using Cons.prems by (subst close_bucket_run [OF env, where rest = "reply_handlers s i"]) auto
  moreover have "close_buckets env c is ?s = (Inr (), close_many upd c is ?s)"
    using Cons.prems by (intro Cons.IH) (auto simp: close_one_def)
  ultimately show ?case
    using close_many_Cons [of i "is" upd c s] Cons.prems by (simp add: act_simps)
qed

lemma bucket_ok_distinct: "bucket_ok n h rhs \<Longrightarrow> distinct (map rh_addr rhs)"
  by (induction rhs) (auto simp: bucket_ok_Cons)

text \<open>C19: When a disconnected channel is closed, every command that waits for a reply on it gets one
  call of its handler, with its client data and the error \<^verbatim>\<open>ERR_CHANNEL_CLOSED\<close>, and nothing else is
  called; the pending commands, the event handlers and the services of the channel are removed, and
  those of other channels stay as they are. This holds when the handlers work on the state of the clients only.\<close>

theorem channel_closed_notifies_pending:
  assumes "tables_ok s" "channels s c = Some ch" "ch_state ch = ChannelStateDisconnected"
    and "\<forall>i. \<forall>rh \<in> set (reply_handlers s i). rh_handler rh \<noteq> Some redirect_done"
    and "\<forall>f c d e. env_reply env f c d e = modify (\<lambda>s. s\<lparr>client_state := upd f c d e (client_state s)\<rparr>)"
  shows "channel_closed env c s = (Inr (), s
    \<lparr>event_handlers := (\<lambda>i. filter (\<lambda>eh. eh_c eh \<noteq> c) (event_handlers s i)),
     services := filter (\<lambda>si. si_owner si \<noteq> c) (services s),
     reply_handlers := (\<lambda>i. filter (\<lambda>rh. rh_c rh \<noteq> c) (reply_handlers s i)),
     client_state := fold (\<lambda>(f, d). upd f c d (err_no ERR_CHANNEL_CLOSED))
       (concat (map (\<lambda>i. owed c (reply_handlers s i)) [0..<127])) (client_state s),
     channels := (channels s)(c \<mapsto> ch\<lparr>ch_peer_service_list := None\<rparr>)\<rparr>)"
proof -
  let ?s = "s\<lparr>event_handlers := (\<lambda>i. filter (\<lambda>eh. eh_c eh \<noteq> c) (event_handlers s i)),
     services := filter (\<lambda>si. si_owner si \<noteq> c) (services s)\<rparr>"
  have env: "reply_env env upd" using assms(5) by (simp add: reply_env_def)
  have empty: "reply_handlers s i = []" if "i \<ge> 127" for i
  proof -
    have "\<forall>rh \<in> set (reply_handlers s i). reply_hash (rh_c rh) (rh_tokenid rh) = i"
      using tables_ok_bucketD [OF assms(1), of i] by (simp add: bucket_ok_def)
    moreover have "reply_hash a t \<noteq> i" for a t using reply_hash_less [of a t] that by simp
    ultimately show ?thesis by (cases "reply_handlers s i") auto
  qed
  have "close_buckets env c [0..<127] ?s = (Inr (), close_many upd c [0..<127] ?s)"
    by (rule close_buckets_run [OF env, where ch = ch])
      (use assms(2-4) bucket_ok_distinct [OF tables_ok_bucketD [OF assms(1)]] in \<open>auto simp: plain_rh_def\<close>)
  moreover have rest: "(\<lambda>i. if i \<in> set [0..<127] then filter (\<lambda>rh. rh_c rh \<noteq> c) (reply_handlers s i) else reply_handlers s i) =
      (\<lambda>i. filter (\<lambda>rh. rh_c rh \<noteq> c) (reply_handlers s i))"
    using empty by (auto simp: fun_eq_iff)
  have same: "reply_handlers ?s = reply_handlers s" "client_state ?s = client_state s" by simp_all
  note many = close_many_def [of upd c "[0..<127]" ?s, unfolded same rest pay_def]
  ultimately show ?thesis
    unfolding many using assms(2) by (simp add: channel_closed_def free_services_def act_simps del: upt_conv_Cons)
qed

section \<open>Handlers that send commands\<close>

lemma unexpected_reply:
  assumes "channels s c = Some ch" "protocols s (ch_protocol ch) = Some pr" "pr_default_handler pr = None"
    and "find (is_reply c t) (reply_handlers s (reply_hash c t)) = None"
  shows "handle_protocol_message env c (with_inp s c (field (cstr ''R'') @ field (token_text t) @ rest)) =
    (exception ERR_PROTOCOL, with_inp s c rest)"
proof -
  let ?r = "field (token_text t) @ rest"
  have "handle_protocol_message env c (with_inp s c (field (cstr ''R'') @ ?r)) =
      handle_reply env c (ch_protocol ch) (of_char CHR ''R'') (with_inp s c ?r)"
    using assms(1) by (subst message_type [of _ c "ch\<lparr>ch_inp := field (cstr ''R'') @ ?r\<rparr>" "of_char CHR ''R''" ?r])
      (simp_all add: cstr_def)
  also have "\<dots> = (exception ERR_PROTOCOL, with_inp s c rest)"
    unfolding handle_reply_def bnd_field_with [OF assms(1) token_text_c_string] strtoul_token_text
    using assms by (simp add: act_simps find_reply_handler_run Let_def trap_def bnd_def raise_def get_prot_def exception_def)
  finally show ?thesis .
qed

lemma close_bucket_empty: "reply_handlers s i = [] \<Longrightarrow> close_bucket (n + 1) env c i None s = (Inr (), s)"
  by (simp add: close_bucket.simps act_simps read_link_def)

lemma close_buckets_empty:
  "\<forall>i \<in> set is. reply_handlers s i = [] \<Longrightarrow> close_buckets env c (is @ js) s = close_buckets env c js s"
  by (induction "is") (simp_all add: act_simps close_bucket_empty [of s _ 0, simplified])

definition quiet_env :: "'u ProtoEnv" where
  "quiet_env = \<lparr>env_command = (\<lambda>_ _ _ _. ret ()), env_command_old = (\<lambda>_ _ _. ret ()),
     env_event = (\<lambda>_ _ _. ret ()), env_event_old = (\<lambda>_ _. ret ()),
     env_message = (\<lambda>_ _ _ _. ret ()), env_message_old = (\<lambda>_ _ _. ret ()),
     env_reply = (\<lambda>_ _ _ _. ret ()), env_progress = (\<lambda>_ _ _. ret ()), env_connected = (\<lambda>_ _. ret ()),
     env_open_listeners = [], env_close_before = [], env_close_after = [], env_uuid = []\<rparr>"

definition sample_channel :: "addr \<Rightarrow> ChannelState \<Rightarrow> Channel" where
  "sample_channel p st = \<lparr>ch_inp = [], ch_out = \<lparr>supports_zero_copy = False, written = []\<rparr>, ch_protocol = p,
     ch_peer_service_list = Some [cstr ''Locator''], ch_congestion_level = 0, ch_state = st,
     ch_disable_zero_copy = False, ch_connected = None\<rparr>"

definition sample_protocol :: "u64 \<Rightarrow> Protocol" where
  "sample_protocol t = \<lparr>pr_id = 0, pr_lock_cnt = 1, pr_tokenid = t, pr_default_handler = None, pr_client_data = NullData\<rparr>"

text \<open>A client that, told that a channel was closed, sends a command on another one.\<close>

definition sending_env :: "unit ProtoEnv" where
  "sending_env = quiet_env\<lparr>env_reply := (\<lambda>f c d e.
     if f = 0 then bnd (protocol_send_command 0x10 (cstr ''S'') (cstr ''m'') (Some (ReplyCB 1)) NullData) (\<lambda>_. ret ())
     else ret ())\<rparr>"

text \<open>
  The state in which a command that was sent on the open channel \<open>b\<close> has been unlinked again: the tables hold no pending
  command, the counter of the protocol and the output of \<open>b\<close> show that the command was sent.
\<close>

definition lost_state :: "'u PState \<Rightarrow> addr \<Rightarrow> Channel \<Rightarrow> Protocol \<Rightarrow> cstring \<Rightarrow> cstring \<Rightarrow> 'u PState" where
  "lost_state s b chb pr service name = s
     \<lparr>next_rh := next_rh s + 1,
      protocols := (protocols s)(ch_protocol chb \<mapsto> pr\<lparr>pr_tokenid := pr_tokenid pr + 1\<rparr>),
      channels := (channels s)(b \<mapsto> chb\<lparr>ch_out := command_header (pr_tokenid pr) service name (ch_out chb)\<rparr>),
      reply_handlers := (\<lambda>_. [])\<rparr>"

lemma send_beside:
  assumes b: "channels s b = Some chb" "\<not> is_channel_closed chb" "ch_peer_service_list chb \<noteq> None"
      "protocols s (ch_protocol chb) = Some pr"
    and rh: "reply_handlers s = (\<lambda>_. [])(i := [rh])" "rh_c rh \<noteq> b" "reply_hash b (pr_tokenid pr) = i"
  shows "protocol_send_command b service name h cd s =
     (Inr (new_rh (next_rh s) (pr_tokenid pr) b h None cd), (lost_state s b chb pr service name)
        \<lparr>reply_handlers := (\<lambda>_. [])(i := [new_rh (next_rh s) (pr_tokenid pr) b h None cd, rh])\<rparr>)"
proof -
  have f: "find (is_reply b (pr_tokenid pr)) (reply_handlers s (reply_hash b (pr_tokenid pr))) = None"
    using rh by (simp add: is_reply_def)
  have n: "new_token (pending_cnt s + 1) (ch_protocol chb) b (s\<lparr>next_rh := next_rh s + 1\<rparr>) =
      (Inr (pr_tokenid pr), s\<lparr>next_rh := next_rh s + 1, protocols := (protocols s)(ch_protocol chb \<mapsto> pr\<lparr>pr_tokenid := pr_tokenid pr + 1\<rparr>)\<rparr>)"
    unfolding Suc_eq_plus1 [symmetric] using b(4) f by (subst new_token_step [where pr = pr]) (simp_all add: Let_def)
  show ?thesis
    unfolding protocol_send_command_def send_command_open [OF b(1-3) n]
    using rh by (simp add: Let_def lost_state_def)
qed

lemma close_bucket_loses:
  assumes a: "channels s a = Some cha" "ch_state cha = ChannelStateDisconnected" "b \<noteq> a"
    and b: "channels s b = Some chb" "\<not> is_channel_closed chb" "ch_peer_service_list chb \<noteq> None"
      "protocols s (ch_protocol chb) = Some pr"
    and rh: "reply_handlers s = (\<lambda>_. [])(i := [rh])" "rh_c rh = a" "reply_hash b (pr_tokenid pr) = i"
      "rh_handler rh = Some (ReplyCB f)" "rh_addr rh \<noteq> next_rh s"
    and env: "\<And>d e. env_reply env f a d e = bnd (protocol_send_command b service name h cd) (\<lambda>_. ret ())"
  shows "close_bucket 2 env a i None s = (Inr (), lost_state s b chb pr service name)"
proof -
  let ?new = "new_rh (next_rh s) (pr_tokenid pr) b h None cd" and ?l = "lost_state s b chb pr service name"
  let ?s = "?l\<lparr>reply_handlers := (\<lambda>_. [])(i := [?new, rh])\<rparr>"
  have send: "protocol_send_command b service name h cd s = (Inr ?new, ?s)"
    by (rule send_beside [OF b rh(1) _ rh(3)]) (use rh(2) a(3) in simp)
  have addr: "rh_addr ?new \<noteq> rh_addr rh" using rh(5) by (simp add: new_rh_def)
  have ch: "channels ?s a = Some cha" using a by (simp add: lost_state_def)
  have unlinked: "?s\<lparr>reply_handlers := (reply_handlers ?s)(i := [])\<rparr> = ?l" by (simp add: lost_state_def fun_upd_idem)
  have "close_reply env a i None rh s = (Inr None, ?l)"
    using send rh(4) a(2) ch addr unlinked by (simp add: close_reply_def act_simps env put_bucket_def write_link_def)
  then have "bnd (close_reply env a i None rh) (close_bucket 1 env a i) s = close_bucket 1 env a i None ?l"
    by (simp add: act_simps)
  also have "\<dots> = (Inr (), ?l)"
    using close_bucket_empty [of ?l i 0 env a] by (simp add: lost_state_def)
  finally show ?thesis
    using rh(1,2) by (simp add: close_bucket.simps numeral_2_eq_2 act_simps read_link_def)
qed

text \<open>C32: A command can be lost. Let a channel be closed on which one command is pending, and let the handler of this command
  send a command on another, open channel, as a reaction to the error. If the two commands share a hash value,
  \<^verbatim>\<open>channel_closed\<close> unlinks the new command together with the old one: the list head that it writes back is from
  before the call. The new command has been written to the open channel, but it is not in the tables, so that the reply to it is a
  protocol error, which closes this channel as well.\<close>

theorem closing_loses_new_command:
  assumes a: "channels s a = Some cha" "ch_state cha = ChannelStateDisconnected" "b \<noteq> a"
    and b: "channels s b = Some chb" "\<not> is_channel_closed chb" "ch_peer_service_list chb \<noteq> None"
      "protocols s (ch_protocol chb) = Some pr" "pr_default_handler pr = None"
    and rh: "reply_handlers s = (\<lambda>_. [])(i := [rh])" "rh_c rh = a" "reply_hash b (pr_tokenid pr) = i"
      "rh_handler rh = Some (ReplyCB f)" "rh_addr rh \<noteq> next_rh s"
    and env: "\<And>d e. env_reply env f a d e = bnd (protocol_send_command b service name h cd) (\<lambda>_. ret ())"
  shows "\<exists>s' chb'. channel_closed env a s = (Inr (), s') \<and> channels s' b = Some chb' \<and> ch_state chb' = ch_state chb \<and>
     written (ch_out chb') = written (ch_out chb) @ command_text (pr_tokenid pr) service name \<and>
     (\<forall>j. reply_handlers s' j = []) \<and>
     fst (handle_protocol_message env b
       (with_inp s' b (field (cstr ''R'') @ field (token_text (pr_tokenid pr)) @ rest))) = exception ERR_PROTOCOL"
proof -
  let ?s0 = "s\<lparr>event_handlers := \<lambda>i. filter (\<lambda>eh. eh_c eh \<noteq> a) (event_handlers s i),
     services := filter (\<lambda>si. si_owner si \<noteq> a) (services s)\<rparr>"
  let ?l = "lost_state ?s0 b chb pr service name"
  let ?s' = "?l\<lparr>channels := (channels ?l)(a \<mapsto> cha\<lparr>ch_peer_service_list := None\<rparr>)\<rparr>"
  have "i < 127" using reply_hash_less [of b "pr_tokenid pr"] rh(3) by simp
  then have split: "[0..<127] = [0..<i] @ i # [Suc i..<127]"
    using upt_add_eq_append [of 0 i "127 - i"] upt_rec [of i 127] by (simp del: upt_rec_numeral)
  have before: "close_buckets env a ([0..<i] @ i # [Suc i..<127]) ?s0 = close_buckets env a (i # [Suc i..<127]) ?s0"
    by (rule close_buckets_empty) (simp add: rh(1))
  have after: "close_buckets env a [Suc i..<127] ?l = (Inr (), ?l)"
    using close_buckets_empty [of "[Suc i..<127]" ?l env a "[]"] by (simp add: lost_state_def act_simps)
  have "close_bucket 2 env a i None ?s0 = (Inr (), ?l)"
    by (rule close_bucket_loses [OF _ a(2,3) _ b(2,3) _ _ rh(2,3,4) _ env]) (use a b rh in simp_all)
  then have bucket: "close_buckets env a (i # [Suc i..<127]) ?s0 = (Inr (), ?l)"
    using after rh(1) by (simp add: act_simps numeral_2_eq_2)
  have live: "channels s a = Some cha" "channels ?l a = Some cha" using a by (simp_all add: lost_state_def)
  have "channel_closed env a s = (Inr (), ?s')"
    unfolding channel_closed_def
    by (simp add: act_simps live free_services_def split before bucket del: upt_conv_Cons upt_rec_numeral close_buckets.simps)
  moreover have "fst (handle_protocol_message env b
       (with_inp ?s' b (field (cstr ''R'') @ field (token_text (pr_tokenid pr)) @ rest))) = exception ERR_PROTOCOL"
    using a(3) b(5) by (subst unexpected_reply [where pr = "pr\<lparr>pr_tokenid := pr_tokenid pr + 1\<rparr>"
        and ch = "chb\<lparr>ch_out := command_header (pr_tokenid pr) service name (ch_out chb)\<rparr>"]) (simp_all add: lost_state_def)
  ultimately show ?thesis using a(3) by (simp add: lost_state_def command_header_written)
qed

section \<open>A run that loses a command\<close>

text \<open>
  The state of a program that has started: a protocol is allocated, two channels are opened, a command is sent on the channel
  at 0x20, and this channel is disconnected.
\<close>

definition ready_state :: "unit PState" where
  "ready_state = (no_objects ())\<lparr>agent_id := Some [], ini_done := True, proto_cnt := 1, protocols := [0x30 \<mapsto> sample_protocol 1],
     channels := [0x20 \<mapsto> sample_channel 0x30 ChannelStateConnected, 0x10 \<mapsto> sample_channel 0x30 ChannelStateConnected]\<rparr>"

definition two_channels :: "unit PState" where
  "two_channels = ready_state
     \<lparr>next_rh := 1, protocols := [0x30 \<mapsto> sample_protocol 2],
      channels := [0x20 \<mapsto> sample_channel 0x30 ChannelStateDisconnected, 0x10 \<mapsto> sample_channel 0x30 ChannelStateConnected],
      reply_handlers := (\<lambda>_. [])(3 := [new_rh 0 1 0x20 (Some (ReplyCB 0)) None NullData])\<rparr>"

lemma sample_hash: "reply_hash 0x20 1 = 3" "reply_hash 0x10 2 = 3" "reply_hash 0x20 4 = 6" "reply_hash 0x10 5 = 6"
  by (simp_all add: reply_hash_def)

lemma ready_reachable: "proto_reach sending_env ready_state"
proof -
  let ?s0 = "no_objects () :: unit PState"
  let ?s1 = "?s0\<lparr>agent_id := Some [], ini_done := True, proto_cnt := 1, protocols := [0x30 \<mapsto> sample_protocol 1]\<rparr>"
  let ?s2 = "?s1\<lparr>channels := (channels ?s1)(0x10 \<mapsto> sample_channel 0x30 ChannelStateConnected)\<rparr>"
  have 1: "protocol_alloc sending_env 0x30 ?s0 = (Inr 0x30, ?s1)"
    by (simp add: protocol_alloc_def ini_protocol_def bnd_def seq_def look_def check_def modify_def ret_def sending_env_def
      quiet_env_def sample_protocol_def no_objects_def)
  have r1: "proto_reach sending_env ?s1"
    by (rule proto_reach.step [OF proto_reach.start proto_step.alloc [OF _ 1]]) (simp_all add: no_objects_def goes_on_def)
  have r2: "proto_reach sending_env ?s2"
    by (rule proto_reach.step [OF r1 proto_step.create]) (simp add: no_objects_def)
  have "proto_reach sending_env (?s2\<lparr>channels := (channels ?s2)(0x20 \<mapsto> sample_channel 0x30 ChannelStateConnected)\<rparr>)"
    by (rule proto_reach.step [OF r2 proto_step.create]) (simp add: no_objects_def)
  moreover have "?s2\<lparr>channels := (channels ?s2)(0x20 \<mapsto> sample_channel 0x30 ChannelStateConnected)\<rparr> = ready_state"
    by (simp add: ready_state_def no_objects_def fun_upd_twist)
  ultimately show ?thesis by simp
qed

lemma two_channels_reachable: "proto_reach sending_env two_channels"
proof -
  let ?ch = "sample_channel 0x30 ChannelStateConnected"
  have n: "new_token (pending_cnt ready_state + 1) (ch_protocol ?ch) 0x20 (ready_state\<lparr>next_rh := next_rh ready_state + 1\<rparr>) =
      (Inr 1, ready_state\<lparr>next_rh := 1, protocols := [0x30 \<mapsto> sample_protocol 2]\<rparr>)"
    unfolding Suc_eq_plus1 [symmetric]
    by (subst new_token_step [where pr = "sample_protocol 1"])
      (simp_all add: ready_state_def sample_channel_def sample_protocol_def no_objects_def Let_def)
  define chan where "chan = ?ch\<lparr>ch_out := command_header 1 (cstr ''S'') (cstr ''m'') (ch_out ?ch)\<rparr>"
  have send: "protocol_send_command_with_progress 0x20 (cstr ''S'') (cstr ''m'') (Some (ReplyCB 0)) None NullData ready_state =
      (Inr (new_rh 0 1 0x20 (Some (ReplyCB 0)) None NullData),
       two_channels\<lparr>channels := (channels ready_state)(0x20 \<mapsto> chan)\<rparr>)"
    by (subst send_command_open [where ch = ?ch, OF _ _ _ n])
      (simp_all add: ready_state_def two_channels_def no_objects_def sample_hash is_channel_closed_def sample_channel_def Let_def chan_def)
  have "proto_reach sending_env (two_channels\<lparr>channels := (channels ready_state)(0x20 \<mapsto> chan)\<rparr>)"
    by (rule proto_reach.step [OF ready_reachable proto_step.send_command [OF send]]) (simp add: goes_on_def)
  from proto_reach.step [OF this proto_step.transport, of "0x20" "sample_channel 0x30 ChannelStateDisconnected"]
  show ?thesis by (simp add: two_channels_def ready_state_def no_objects_def fun_upd_twist)
qed

theorem closing_loses_new_command_witness:
  "proto_reach sending_env two_channels \<and>
   (\<exists>s' ch. channel_closed sending_env 0x20 two_channels = (Inr (), s') \<and> channels s' 0x10 = Some ch \<and>
     ch_state ch = ChannelStateConnected \<and> written (ch_out ch) = command_text 2 (cstr ''S'') (cstr ''m'') \<and>
     fst (handle_protocol_message sending_env 0x10
       (with_inp s' 0x10 (field (cstr ''R'') @ field (token_text 2) @ [0, MARKER_EOM]))) = exception ERR_PROTOCOL)"
proof -
  let ?a = "sample_channel 0x30 ChannelStateDisconnected" and ?b = "sample_channel 0x30 ChannelStateConnected"
  let ?rh = "new_rh 0 1 0x20 (Some (ReplyCB 0)) None NullData"
  have env: "env_reply sending_env 0 0x20 d e =
      bnd (protocol_send_command 0x10 (cstr ''S'') (cstr ''m'') (Some (ReplyCB 1)) NullData) (\<lambda>_. ret ())" for d e
    by (simp add: sending_env_def)
  have "\<exists>s' chb'. channel_closed sending_env 0x20 two_channels = (Inr (), s') \<and> channels s' 0x10 = Some chb' \<and> ch_state chb' = ch_state ?b \<and>
     written (ch_out chb') = written (ch_out ?b) @ command_text (pr_tokenid (sample_protocol 2)) (cstr ''S'') (cstr ''m'') \<and>
     (\<forall>j. reply_handlers s' j = []) \<and>
     fst (handle_protocol_message sending_env 0x10
       (with_inp s' 0x10 (field (cstr ''R'') @ field (token_text (pr_tokenid (sample_protocol 2))) @ [0, MARKER_EOM]))) = exception ERR_PROTOCOL"
    by (rule closing_loses_new_command [where cha = ?a and rh = ?rh and i = 3, OF _ _ _ _ _ _ _ _ _ _ _ _ _ env])
      (simp_all add: two_channels_def is_channel_closed_def sample_channel_def sample_protocol_def new_rh_def sample_hash)
  then show ?thesis using two_channels_reachable by (auto simp: sample_channel_def sample_protocol_def)
qed

section \<open>A Hello message with a null service\<close>

text \<open>C33: A peer can stop the agent with the first message that it sends: if the list of services in its
  Hello message holds \<^verbatim>\<open>null\<close>, the null pointer that \<^verbatim>\<open>json_read_alloc_string\<close> returns for it is
  passed to \<^verbatim>\<open>strcmp\<close>, which is undefined behaviour.\<close>

theorem hello_null_service:
  assumes "channels s c = Some ch" "ch_state ch = ChannelStateStarted \<or> ch_state ch = ChannelStateHelloSent"
  shows "fst (handle_protocol_message env c (with_inp s c (field (cstr ''E'') @ field (cstr ''Locator'') @
    field (cstr ''Hello'') @ syms (cstr ''[null]'') @ [0, MARKER_EOM]))) = Inl Undefined_Behaviour"
proof -
  let ?r2 = "syms (cstr ''[null]'') @ [0, MARKER_EOM]"
  let ?r1 = "field (cstr ''Locator'') @ field (cstr ''Hello'') @ ?r2"
  have read: "read_hello ?r2 = (Inl Undefined_Behaviour, False)"
    by (simp add: read_hello_def cstr_def isspace_def chr_def json_read_alloc_string_def)
  have "handle_protocol_message env c (with_inp s c (field (cstr ''E'') @ ?r1)) =
      handle_event env c (ch_protocol ch) (with_inp s c ?r1)"
    using assms(1) by (subst message_type [of _ c "ch\<lparr>ch_inp := field (cstr ''E'') @ ?r1\<rparr>" "of_char CHR ''E''" ?r1])
      (simp_all add: cstr_def)
  also have "\<dots> = trap (event_locator_hello env c) raise (with_inp s c ?r2)"
    using assms by (subst handle_event_hello [of _ c "ch\<lparr>ch_inp := ?r1\<rparr>" ?r2]) simp_all
  also have "fst \<dots> = Inl Undefined_Behaviour"
    using assms(1) read by (simp add: event_locator_hello_def act_simps trap_def)
  finally show ?thesis by simp
qed

section \<open>Witnesses\<close>

definition hello_state :: "unit PState" where
  "hello_state = (no_objects ())
     \<lparr>services := [\<lparr>si_owner = 0x30, si_name = cstr ''A''\<rparr>],
      protocols := [0x30 \<mapsto> sample_protocol 1],
      channels := [0x10 \<mapsto> sample_channel 0x30 ChannelStateStarted, 0x20 \<mapsto> sample_channel 0x30 ChannelStateHelloSent]\<rparr>"

theorem hello_null_service_witness:
  "fst (handle_protocol_message quiet_env 0x10 (with_inp hello_state 0x10 (field (cstr ''E'') @ field (cstr ''Locator'') @
    field (cstr ''Hello'') @ syms (cstr ''[null]'') @ [0, MARKER_EOM]))) = Inl Undefined_Behaviour"
  by (rule hello_null_service [where ch = "sample_channel 0x30 ChannelStateStarted"])
    (simp_all add: hello_state_def, simp_all add: sample_channel_def)

theorem hello_roundtrip_witness:
  "\<exists>msg s'. send_hello_message quiet_env 0x10 hello_state = (Inr (), hello_state\<lparr>channels := (channels hello_state)
      (0x10 \<mapsto> (sample_channel 0x30 ChannelStateHelloSent)\<lparr>ch_out := \<lparr>supports_zero_copy = False, written = msg\<rparr>\<rparr>)\<rparr>) \<and>
    handle_protocol_message quiet_env 0x20 (with_inp hello_state 0x20 msg) = (Inr (), s') \<and>
    map_option ch_peer_service_list (channels s' 0x20) = Some (Some [cstr ''ZeroCopy'', cstr ''A'']) \<and>
    map_option ch_state (channels s' 0x20) = Some ChannelStateConnected"
proof -
  let ?a = "sample_channel 0x30 ChannelStateStarted" and ?b = "sample_channel 0x30 ChannelStateHelloSent"
  have h: "channels hello_state 0x10 = Some ?a" "ch_state ?a = ChannelStateStarted \<or> ch_state ?a = ChannelStateHelloReceived"
    "\<forall>si \<in> set (services hello_state). 0 \<notin> set (si_name si)" "channels hello_state 0x20 = Some ?b"
    "ch_state ?b = ChannelStateStarted \<or> ch_state ?b = ChannelStateHelloSent"
    by (simp_all add: hello_state_def cstr_def, simp_all add: sample_channel_def)
  obtain msg where send: "send_hello_message quiet_env 0x10 hello_state = (Inr (), hello_state\<lparr>channels := (channels hello_state)
      (0x10 \<mapsto> ?b\<lparr>ch_out := \<lparr>supports_zero_copy = False, written = msg\<rparr>\<rparr>)\<rparr>)"
    and recv: "\<And>rest. handle_protocol_message quiet_env 0x20 (with_inp hello_state 0x20 (msg @ rest)) =
      trap (connect_done quiet_env 0x20) raise (hello_state\<lparr>channels := (channels hello_state)(0x20 \<mapsto> ?b
        \<lparr>ch_out := \<lparr>supports_zero_copy = True, written = []\<rparr>, ch_inp := rest,
         ch_peer_service_list := Some [cstr ''ZeroCopy'', cstr ''A''], ch_state := ChannelStateConnected\<rparr>)\<rparr>)"
    using hello_roundtrip [OF h, of quiet_env quiet_env] by (auto simp: sample_channel_def hello_state_def act_simps)
  let ?s' = "hello_state\<lparr>channels := (channels hello_state)(0x20 \<mapsto> ?b
        \<lparr>ch_out := \<lparr>supports_zero_copy = True, written = []\<rparr>, ch_inp := [],
         ch_peer_service_list := Some [cstr ''ZeroCopy'', cstr ''A''], ch_state := ChannelStateConnected\<rparr>)\<rparr>"
  have "trap (connect_done quiet_env 0x20) raise ?s' = (Inr (), ?s')"
    by (simp add: act_simps connect_done_def notify_channel_opened_def quiet_env_def sample_channel_def)
  then have "handle_protocol_message quiet_env 0x20 (with_inp hello_state 0x20 msg) = (Inr (), ?s')"
    using recv [of "[]"] by simp
  with send show ?thesis by (intro exI [of _ msg] exI [of _ ?s'] conjI) simp_all
qed

definition served_state :: "unit PState" where
  "served_state = set_command (0x30, cstr ''S'', cstr ''m'') (CommandCB 7, NullData)
     ((no_objects ())\<lparr>protocols := [0x30 \<mapsto> sample_protocol 1],
        channels := [0x20 \<mapsto> sample_channel 0x30 ChannelStateConnected]\<rparr>)"

lemma served_state_ok:
  "tables_ok served_state" "channels served_state = [0x20 \<mapsto> sample_channel 0x30 ChannelStateConnected]"
  "protocols served_state = [0x30 \<mapsto> sample_protocol 1]"
  "get_command (0x30, cstr ''S'', cstr ''m'') served_state = Some (CommandCB 7, NullData)"
  "get_command (0x30, cstr ''S'', cstr ''x'') served_state = None"
proof -
  let ?s = "(no_objects ())\<lparr>protocols := [0x30 \<mapsto> sample_protocol 1],
        channels := [0x20 \<mapsto> sample_channel 0x30 ChannelStateConnected]\<rparr>"
  have ok: "tables_ok ?s" by (auto simp: no_objects_def tables_defs)
  have al: "command_allowed (0x30, cstr ''S'', cstr ''m'') ?s" by (simp add: command_allowed_def cstr_def)
  show "tables_ok served_state" unfolding served_state_def by (rule set_command_ok [OF ok al])
  show "channels served_state = [0x20 \<mapsto> sample_channel 0x30 ChannelStateConnected]"
    "protocols served_state = [0x30 \<mapsto> sample_protocol 1]" by (simp_all add: served_state_def)
  show "get_command (0x30, cstr ''S'', cstr ''m'') served_state = Some (CommandCB 7, NullData)"
    "get_command (0x30, cstr ''S'', cstr ''x'') served_state = None"
    unfolding served_state_def get_set_command [OF ok al]
    by (simp_all add: get_command_def find_message_handler_def no_objects_def cstr_def)
qed

lemma sample_channel_simps [simp]:
  "ch_protocol (sample_channel p st) = p" "ch_state (sample_channel p st) = st"
  "ch_peer_service_list (sample_channel p st) = Some [cstr ''Locator'']"
  "pr_default_handler (sample_protocol t) = None"
  by (simp_all add: sample_channel_def sample_protocol_def)

lemma sample_strings: "cstr ''S'' \<noteq> cstr ''ZeroCopy''" "c_string 256 (cstr ''S'')" "c_string 256 (cstr ''m'')" "c_string 256 (cstr ''x'')"
  by (simp_all add: c_string_def cstr_def)

lemma pending_cnt_served: "pending_cnt served_state < 2 ^ 64"
proof -
  have "reply_handlers served_state = (\<lambda>_. [])"
    by (simp add: served_state_def set_command_def add_command_handler2_def Let_def act_simps
        protocol_get_service_run no_objects_def cstr_def)
  then show ?thesis by (simp add: pending_cnt_def)
qed

lemmas sample_facts = served_state_ok sample_strings pending_cnt_served [simplified] is_channel_closed_def

theorem command_reply_roundtrip_witness:
  "\<exists>rh sA' msg token.
    protocol_send_command 0x20 (cstr ''S'') (cstr ''m'') (Some (ReplyCB 3)) (Pointer 9) served_state = (Inr rh, sA') \<and>
    handle_protocol_message quiet_env 0x20 (with_inp served_state 0x20 (msg @ [0, MARKER_EOM])) =
      trap (env_command quiet_env 7 token 0x20 NullData) raise (with_inp served_state 0x20 [0, MARKER_EOM])"
  using command_reply_roundtrip [of served_state "0x20" "sample_channel 0x30 ChannelStateConnected" "sample_protocol 1"
      "cstr ''S''" "cstr ''m''" served_state "0x20" "sample_channel 0x30 ChannelStateConnected" 7 NullData 3 "Pointer 9"
      quiet_env quiet_env]
  by (simp add: sample_facts) blast

theorem unknown_command_reported_witness:
  "\<exists>rh sA' answer.
    protocol_send_command 0x20 (cstr ''S'') (cstr ''x'') (Some (ReplyCB 3)) (Pointer 9) served_state = (Inr rh, sA') \<and>
    handle_protocol_message quiet_env 0x20 (with_inp sA' 0x20 answer) =
      trap (env_reply quiet_env 3 0x20 (Pointer 9) (err_no ERR_INV_COMMAND)) raise
        ((with_inp sA' 0x20 [])\<lparr>reply_handlers := reply_handlers served_state\<rparr>)"
  using unknown_command_reported [of served_state "0x20" "sample_channel 0x30 ChannelStateConnected" "sample_protocol 1"
      "cstr ''S''" "cstr ''x''" served_state "0x20" "sample_channel 0x30 ChannelStateConnected" "sample_protocol 1" "[0]"
      3 "Pointer 9" quiet_env quiet_env]
  by (simp add: sample_facts) blast

theorem command_dispatched_witness:
  "\<exists>rest. handle_protocol_message quiet_env 0x20
     (set_command (0x30, cstr ''S'', cstr ''m'') (CommandCB 8, Pointer 1) (with_inp served_state 0x20
       (field (cstr ''C'') @ field (cstr ''x'') @ field (cstr ''S'') @ field (cstr ''m'') @ rest))) =
    trap (env_command quiet_env 8 (cstr ''x'') 0x20 (Pointer 1)) raise
     (with_inp (set_command (0x30, cstr ''S'', cstr ''m'') (CommandCB 8, Pointer 1) (with_inp served_state 0x20
       (field (cstr ''C'') @ field (cstr ''x'') @ field (cstr ''S'') @ field (cstr ''m'') @ rest))) 0x20 rest)"
  using command_dispatched [of "with_inp served_state 0x20
       (field (cstr ''C'') @ field (cstr ''x'') @ field (cstr ''S'') @ field (cstr ''m'') @ [])" "0x20"
      "(sample_channel 0x30 ChannelStateConnected)\<lparr>ch_inp := field (cstr ''C'') @ field (cstr ''x'') @
         field (cstr ''S'') @ field (cstr ''m'') @ []\<rparr>" "cstr ''x''" "cstr ''S''" "cstr ''m''" "[]" _ "CommandCB 8" "Pointer 1" "[]"
      quiet_env]
  by (intro exI [of _ "[]"]) (simp add: sample_facts command_allowed_def)

theorem protocol_tables_consistent_witness:
  "\<exists>s. proto_reach sending_env s \<and> channels s 0x20 \<noteq> None \<and> tables_ok s"
proof -
  have env: "env_keeps tables_ok sending_env"
    by (auto simp: env_keeps_def sending_env_def quiet_env_def intro!: maintains_intros)
  let ?s = "(no_objects ())\<lparr>channels := (channels (no_objects ()))(0x20 \<mapsto> sample_channel 0x30 ChannelStateConnected)\<rparr>"
  have "proto_reach sending_env ?s"
    by (rule proto_reach.step [OF proto_reach.start proto_step.create]) (simp add: no_objects_def)
  with protocol_tables_consistent [OF env this] show ?thesis by (intro exI [of _ ?s]) simp
qed

definition log_env :: "(nat \<times> addr \<times> client_data \<times> int) list ProtoEnv" where
  "log_env = quiet_env\<lparr>env_reply := (\<lambda>f c d e. modify (\<lambda>s. s\<lparr>client_state := client_state s @ [(f, c, d, e)]\<rparr>))\<rparr>"

definition pending_state :: "(nat \<times> addr \<times> client_data \<times> int) list PState" where
  "pending_state = (no_objects [])
     \<lparr>channels := [0x10 \<mapsto> sample_channel 0x30 ChannelStateDisconnected],
      reply_handlers := (\<lambda>_. [])(6 := [new_rh 1 4 0x20 (Some (ReplyCB 1)) None NullData,
        new_rh 0 5 0x10 (Some (ReplyCB 0)) None (Pointer 3)]),
      next_rh := 2\<rparr>"

lemma owed_pending: "concat (map (\<lambda>i. owed 0x10 (reply_handlers pending_state i)) [0..<127]) = [(0, Pointer 3)]"
proof -
  have "[0..<127] = [0..<6] @ 6 # [7..<127]"
    using upt_add_eq_append [of 0 6 121] upt_rec [of 6 127] by (simp del: upt_rec_numeral)
  moreover have "concat (map (\<lambda>i. owed 0x10 (reply_handlers pending_state i)) [0..<6]) = []"
    "concat (map (\<lambda>i. owed 0x10 (reply_handlers pending_state i)) [7..<127]) = []"
    by (simp_all add: pending_state_def owed_simps del: upt_rec_numeral)
  moreover have "owed 0x10 (reply_handlers pending_state 6) = [(0, Pointer 3)]"
    by (simp add: pending_state_def owed_def)
  ultimately show ?thesis by (simp only: map_append concat_append list.map concat.simps append.simps append_Nil2)
qed

theorem channel_closed_notifies_pending_witness:
  "\<exists>s'. channel_closed log_env 0x10 pending_state = (Inr (), s') \<and>
     client_state s' = [(0, 0x10, Pointer 3, err_no ERR_CHANNEL_CLOSED)] \<and>
     reply_handlers s' 6 = [new_rh 1 4 0x20 (Some (ReplyCB 1)) None NullData]"
proof -
  have ok: "tables_ok pending_state"
    by (auto simp: pending_state_def no_objects_def tables_defs bucket_ok_def sample_hash rh_key_def)
  have "channel_closed log_env 0x10 pending_state = (Inr (), pending_state
    \<lparr>event_handlers := (\<lambda>i. filter (\<lambda>eh. eh_c eh \<noteq> 0x10) (event_handlers pending_state i)),
     services := filter (\<lambda>si. si_owner si \<noteq> 0x10) (services pending_state),
     reply_handlers := (\<lambda>i. filter (\<lambda>rh. rh_c rh \<noteq> 0x10) (reply_handlers pending_state i)),
     client_state := fold (\<lambda>(f, d). \<lambda>u. u @ [(f, 0x10, d, err_no ERR_CHANNEL_CLOSED)])
       (concat (map (\<lambda>i. owed 0x10 (reply_handlers pending_state i)) [0..<127])) (client_state pending_state),
     channels := (channels pending_state)(0x10 \<mapsto> (sample_channel 0x30 ChannelStateDisconnected)\<lparr>ch_peer_service_list := None\<rparr>)\<rparr>)"
    by (rule channel_closed_notifies_pending [OF ok, where upd = "\<lambda>f c d e u. u @ [(f, c, d, e)]"])
      (auto simp: pending_state_def log_env_def)
  then show ?thesis
    unfolding owed_pending by (simp add: pending_state_def no_objects_def)
qed

end
