(* ===== verification/SigSets.thy ===== *)
theory SigSets
  imports Prelude
begin

text \<open>
  The signal sets of \<^verbatim>\<open>framework/sigsets.c\<close> (the unlimited variant, which is the default
  build): an ordered array \<^verbatim>\<open>buf\<close> of \<^verbatim>\<open>max\<close> allocated elements, \<^verbatim>\<open>cnt\<close> of them
  in use, searched by bisection. Signal numbers keep their width (32 bits, so that the
  \<^verbatim>\<open>*bit + 1\<close> of \<^verbatim>\<open>sigset_get_next\<close> wraps); the counters are natural numbers, since an
  array of \<open>2 ^ 31\<close> signals would be needed for \<^verbatim>\<open>l + h\<close> to wrap.

  The contract of a signal set is the locale \<open>signal_set\<close>: the operations on the array are
  operations on a finite set of numbers. The lemmas about enumerating a set with
  \<^verbatim>\<open>sigset_get_next\<close> are proved in the locale.
\<close>

section \<open>The model\<close>

record SigSet =
  ss_cnt :: nat
  ss_max :: nat
  ss_buf :: "u32 list"

function bsearch :: "u32 list \<Rightarrow> u32 \<Rightarrow> nat \<Rightarrow> nat \<Rightarrow> nat" where
  "bsearch buf b l h =
     (if l < h then
        let k = (l + h) div 2
        in if buf ! k > b then bsearch buf b l k
           else if buf ! k < b then bsearch buf b (k + 1) h
           else k
      else l)"
  by pat_completeness auto
termination
  by (relation "measure (\<lambda>(buf, b, l, h). h - l)") auto

declare bsearch.simps [simp del]

definition search :: "SigSet \<Rightarrow> u32 \<Rightarrow> nat" where
  "search ss b = bsearch (ss_buf ss) b 0 (ss_cnt ss)"

definition sigset_is_empty :: "SigSet \<Rightarrow> bool" where
  "sigset_is_empty ss \<longleftrightarrow> ss_cnt ss = 0"

definition sigset_get :: "SigSet \<Rightarrow> u32 \<Rightarrow> bool" where
  "sigset_get ss b =
     (let n = search ss b in n < ss_cnt ss \<and> ss_buf ss ! n = b)"

text \<open>The result is the new value of \<^verbatim>\<open>*bit\<close>, or \<open>None\<close> when the function returns 0.\<close>

definition sigset_get_next :: "SigSet \<Rightarrow> u32 \<Rightarrow> u32 option" where
  "sigset_get_next ss b =
     (let n = search ss (b + 1)
      in if n \<ge> ss_cnt ss then None else Some (ss_buf ss ! n))"

text \<open>\<^verbatim>\<open>memmove\<close> of \<open>n\<close> elements inside of one array.\<close>

definition move_elems :: "'a list \<Rightarrow> nat \<Rightarrow> nat \<Rightarrow> nat \<Rightarrow> 'a list" where
  "move_elems buf dst src n = take dst buf @ take n (drop src buf) @ drop (dst + n) buf"

definition sigset_set :: "SigSet \<Rightarrow> u32 \<Rightarrow> bool \<Rightarrow> SigSet outcome" where
  "sigset_set ss b value =
     (let n = search ss b in
      assert_that (b > 0 \<or> (b = 0 \<and> \<not> value)) (
      assert_that (n \<le> ss_cnt ss) (
      if value then
        if n < ss_cnt ss \<and> ss_buf ss ! n = b then Inr ss
        else
          let ss1 = (if ss_cnt ss \<ge> ss_max ss
                      then ss\<lparr>ss_max := ss_max ss + 8,
                               ss_buf := take (ss_max ss + 8) (ss_buf ss) @
                                         replicate (ss_max ss + 8 - length (ss_buf ss)) 0\<rparr>
                      else ss);
              buf2 = move_elems (ss_buf ss1) (n + 1) n (ss_cnt ss1 - n)
          in Inr (ss1\<lparr>ss_buf := buf2[n := b], ss_cnt := ss_cnt ss1 + 1\<rparr>)
      else
        if n \<ge> ss_cnt ss \<or> ss_buf ss ! n \<noteq> b then Inr ss
        else Inr (ss\<lparr>ss_buf := move_elems (ss_buf ss) n (n + 1) (ss_cnt ss - n - 1),
                      ss_cnt := ss_cnt ss - 1\<rparr>))))"

definition sigset_copy :: "SigSet \<Rightarrow> SigSet" where
  "sigset_copy src =
     \<lparr>ss_cnt = ss_cnt src, ss_max = ss_cnt src,
      ss_buf = (if ss_cnt src > 0 then take (ss_cnt src) (ss_buf src) else [])\<rparr>"

definition sigset_clear :: SigSet where
  "sigset_clear = \<lparr>ss_cnt = 0, ss_max = 0, ss_buf = []\<rparr>"

text \<open>The elements in use, and the well-formed sets: they are strictly ascending, all of them
  positive, and inside of the allocated array.\<close>

definition ss_elems :: "SigSet \<Rightarrow> u32 list" where
  "ss_elems ss = take (ss_cnt ss) (ss_buf ss)"

definition ss_inv :: "SigSet \<Rightarrow> bool" where
  "ss_inv ss \<longleftrightarrow> ss_cnt ss \<le> ss_max ss \<and> length (ss_buf ss) = ss_max ss \<and>
     sorted_wrt (<) (ss_elems ss) \<and> 0 \<notin> set (ss_elems ss)"

definition ss_view :: "SigSet \<Rightarrow> u32 set" where
  "ss_view ss = set (ss_elems ss)"

section \<open>Bisection\<close>

lemma sorted_wrt_below:
  fixes xs :: "'a::linorder list"
  assumes "sorted_wrt (<) xs" "k < length xs" "\<not> xs ! k < b"
  shows "\<forall>i. k \<le> i \<and> i < length xs \<longrightarrow> b \<le> xs ! i"
  using assms by (metis le_neq_implies_less less_le_not_le linorder_not_le order_less_le_trans
      sorted_wrt_nth_less)

text \<open>Bisection ends at the position that separates the smaller elements from the others.\<close>

definition splits_at :: "u32 list \<Rightarrow> u32 \<Rightarrow> nat \<Rightarrow> bool" where
  "splits_at xs b n \<longleftrightarrow> n \<le> length xs \<and> (\<forall>i < n. xs ! i < b) \<and>
     (\<forall>i. n \<le> i \<and> i < length xs \<longrightarrow> b \<le> xs ! i)"

lemma bsearch_splits:
  assumes "sorted_wrt (<) xs" "l \<le> h" "h \<le> length xs" "\<forall>i < l. xs ! i < b"
    "\<forall>i. h \<le> i \<and> i < length xs \<longrightarrow> b \<le> xs ! i"
  shows "splits_at xs b (bsearch xs b l h)"
  using assms
proof (induction xs b l h rule: bsearch.induct)
  case (1 xs b l h)
  note sorted = "1.prems"(1)
  show ?case
  proof (cases "l < h")
    case False
    with "1.prems" show ?thesis
      by (subst bsearch.simps) (auto simp: splits_at_def)
  next
    case True
    define k where "k = (l + h) div 2"
    have k: "l \<le> k" "k < h" "k < length xs" using True "1.prems" by (auto simp: k_def)
    consider "xs ! k > b" | "xs ! k < b" | "xs ! k = b" by force
    then show ?thesis
    proof cases
      case 1
      have "splits_at xs b (bsearch xs b l k)"
        using "1.IH"(1) [OF True k_def 1] "1.prems" k 1 sorted_wrt_below [OF sorted k(3), of b]
        by auto
      with True 1 show ?thesis by (subst bsearch.simps) (simp add: k_def Let_def)
    next
      case 2
      have "\<forall>i < k + 1. xs ! i < b"
        using 2 k sorted by (metis Suc_eq_plus1 less_Suc_eq less_trans sorted_wrt_nth_less)
      then have "splits_at xs b (bsearch xs b (k + 1) h)"
        using "1.IH"(2) [OF True k_def _ 2] "1.prems" k 2 by auto
      with True 2 show ?thesis by (subst bsearch.simps) (auto simp: k_def Let_def)
    next
      case 3
      have "splits_at xs b k"
        using 3 k sorted sorted_wrt_below [OF sorted k(3), of b]
        by (auto simp: splits_at_def intro: sorted_wrt_nth_less)
      with True 3 show ?thesis by (subst bsearch.simps) (auto simp: k_def Let_def)
    qed
  qed
qed

lemma bsearch_take:
  "h \<le> n \<Longrightarrow> bsearch (take n xs) b l h = bsearch xs b l h"
proof (induction xs b l h rule: bsearch.induct)
  case (1 xs b l h)
  show ?case
  proof (cases "l < h")
    case True
    then have "(l + h) div 2 < n" using "1.prems" by auto
    with 1 True show ?thesis
      by (subst (1 2) bsearch.simps) (simp add: Let_def)
  next
    case False
    then show ?thesis by (subst (1 2) bsearch.simps) simp
  qed
qed

lemma search_splits: "ss_inv ss \<Longrightarrow> splits_at (ss_elems ss) b (search ss b)"
  unfolding search_def ss_elems_def
  by (subst bsearch_take [of _ "ss_cnt ss", symmetric], simp)
    (auto intro!: bsearch_splits simp: ss_inv_def ss_elems_def)

lemma ss_elems_length: "ss_inv ss \<Longrightarrow> length (ss_elems ss) = ss_cnt ss"
  by (simp add: ss_inv_def ss_elems_def)

lemma ss_elems_nth: "i < ss_cnt ss \<Longrightarrow> ss_elems ss ! i = ss_buf ss ! i"
  by (simp add: ss_elems_def)

lemma splits_at_sets:
  assumes "splits_at xs b n"
  shows "set (take n xs) = {x \<in> set xs. x < b}"
    and "set (drop n xs) = {x \<in> set xs. b \<le> x}"
proof -
  from assms have t: "\<forall>x \<in> set (take n xs). x < b"
    by (auto simp: splits_at_def in_set_conv_nth)
  from assms have d: "\<forall>x \<in> set (drop n xs). b \<le> x"
    by (auto simp: splits_at_def in_set_conv_nth)
  have u: "set xs = set (take n xs) \<union> set (drop n xs)"
    by (metis append_take_drop_id set_append)
  from t d show "set (take n xs) = {x \<in> set xs. x < b}"
    unfolding u by (auto simp: not_less [symmetric])
  from t d show "set (drop n xs) = {x \<in> set xs. b \<le> x}"
    unfolding u by (auto simp: not_less [symmetric])
qed


lemma splits_at_member:
  assumes "splits_at xs b n" "sorted_wrt (<) xs"
  shows "b \<in> set xs \<longleftrightarrow> n < length xs \<and> xs ! n = b"
proof
  assume "b \<in> set xs"
  then have "b \<in> set (drop n xs)" using splits_at_sets(2) [OF assms(1)] by simp
  then obtain m where m: "n + m < length xs" "xs ! (n + m) = b"
    unfolding in_set_conv_nth by (metis length_drop less_diff_conv add.commute nth_drop
        less_or_eq_imp_le assms(1) splits_at_def)
  have "m = 0"
  proof (rule ccontr)
    assume "m \<noteq> 0"
    with m sorted_wrt_nth_less [OF assms(2), of n "n + m"] have "xs ! n < b" by auto
    with assms(1) m show False by (auto simp: splits_at_def not_less [symmetric])
  qed
  with m show "n < length xs \<and> xs ! n = b" by simp
qed auto

section \<open>The operations on the elements\<close>

lemma sigset_get_elem: "ss_inv ss \<Longrightarrow> sigset_get ss b \<longleftrightarrow> b \<in> set (ss_elems ss)"
  using search_splits [of ss b] ss_elems_length [of ss] ss_elems_nth [of _ ss]
  by (auto simp: sigset_get_def Let_def splits_at_member ss_inv_def)

lemma sorted_insert_at:
  assumes "splits_at xs b n" "sorted_wrt (<) xs" "b \<notin> set xs"
  shows "sorted_wrt (<) (take n xs @ b # drop n xs)"
proof -
  have "sorted_wrt (<) (take n xs)" "sorted_wrt (<) (drop n xs)"
    using assms(2) by (simp_all add: sorted_wrt_take sorted_wrt_drop)
  moreover have "\<forall>x \<in> set (take n xs). x < b" "\<forall>x \<in> set (drop n xs). b < x"
    using splits_at_sets [OF assms(1)] assms(3) by (auto simp: le_less)
  ultimately show ?thesis by (fastforce simp: sorted_wrt_append)
qed

lemma move_up:
  assumes "n \<le> c" "c < length buf"
  shows "take (Suc c) ((move_elems buf (n + 1) n (c - n))[n := b]) =
    take n buf @ b # drop n (take c buf)"
proof -
  have t: "take (Suc n) buf = take n buf @ [buf ! n]"
    using assms by (simp add: take_Suc_conv_app_nth)
  have "(move_elems buf (n + 1) n (c - n))[n := b] =
      (take n buf @ b # take (c - n) (drop n buf)) @ drop (Suc c) buf"
    using assms t by (simp add: move_elems_def list_update_append)
  moreover have "length (take n buf @ b # take (c - n) (drop n buf)) = Suc c"
    using assms by simp
  ultimately show ?thesis
    by (metis append_eq_conv_conj drop_take)
qed

lemma move_down:
  assumes "n < c" "c \<le> length buf"
  shows "take (c - 1) (move_elems buf n (n + 1) (c - n - 1)) = take n buf @ drop (n + 1) (take c buf)"
proof -
  have "length (take n buf @ take (c - n - 1) (drop (n + 1) buf)) = c - 1"
    using assms by simp
  moreover have "move_elems buf n (n + 1) (c - n - 1) =
      (take n buf @ take (c - n - 1) (drop (n + 1) buf)) @ drop (n + (c - n - 1)) buf"
    by (simp add: move_elems_def)
  ultimately show ?thesis
    by (metis append_eq_conv_conj diff_diff_left drop_take)
qed

lemma sigset_insert_elems:
  assumes "ss_inv ss" "b > 0" "b \<notin> set (ss_elems ss)"
  shows "\<exists>ss'. sigset_set ss b True = Inr ss' \<and> ss_cnt ss' \<le> ss_max ss' \<and>
    length (ss_buf ss') = ss_max ss' \<and>
    ss_elems ss' = take (search ss b) (ss_elems ss) @ b # drop (search ss b) (ss_elems ss)"
proof -
  let ?n = "search ss b"
  from assms(1) have sp: "splits_at (ss_elems ss) b ?n" by (rule search_splits)
  then have n: "?n \<le> ss_cnt ss" using ss_elems_length [OF assms(1)] by (simp add: splits_at_def)
  from assms sp have ne: "\<not> (?n < ss_cnt ss \<and> ss_buf ss ! ?n = b)"
    using splits_at_member [OF sp] ss_elems_length [OF assms(1)] ss_elems_nth [of ?n ss]
    by (auto simp: ss_inv_def)
  define ss1 where "ss1 = (if ss_cnt ss \<ge> ss_max ss
                      then ss\<lparr>ss_max := ss_max ss + 8,
                               ss_buf := take (ss_max ss + 8) (ss_buf ss) @
                                         replicate (ss_max ss + 8 - length (ss_buf ss)) 0\<rparr>
                      else ss)"
  have i1: "ss_cnt ss1 = ss_cnt ss" "ss_cnt ss < ss_max ss1" "length (ss_buf ss1) = ss_max ss1"
      "take (ss_cnt ss) (ss_buf ss1) = ss_elems ss"
    using assms(1) by (auto simp: ss1_def ss_inv_def ss_elems_def)
  define ss' where "ss' = ss1\<lparr>ss_buf := (move_elems (ss_buf ss1) (?n + 1) ?n (ss_cnt ss1 - ?n))
      [?n := b], ss_cnt := ss_cnt ss1 + 1\<rparr>"
  have r: "sigset_set ss b True = Inr ss'"
    unfolding sigset_set_def Let_def ss1_def [symmetric] ss'_def if_not_P [OF ne]
    using assms(2) n by simp
  have "length (ss_buf ss') = ss_max ss'" using i1 n by (simp add: ss'_def move_elems_def)
  moreover have "ss_elems ss' = take ?n (ss_elems ss) @ b # drop ?n (ss_elems ss)"
    using i1 n move_up [OF n, of "ss_buf ss1" b] take_take [of ?n "ss_cnt ss" "ss_buf ss1"]
    by (simp add: ss_elems_def ss'_def min_def)
  ultimately show ?thesis using r i1 by (auto simp: ss'_def)
qed


lemma sigset_remove_elems:
  assumes "ss_inv ss" "b \<in> set (ss_elems ss)"
  shows "\<exists>ss'. sigset_set ss b False = Inr ss' \<and> ss_cnt ss' \<le> ss_max ss' \<and>
    length (ss_buf ss') = ss_max ss' \<and>
    ss_elems ss' = take (search ss b) (ss_elems ss) @ drop (search ss b + 1) (ss_elems ss)"
proof -
  let ?n = "search ss b"
  from assms(1) have sp: "splits_at (ss_elems ss) b ?n" by (rule search_splits)
  with assms have n: "?n < ss_cnt ss" "ss_buf ss ! ?n = b"
    using splits_at_member [OF sp] ss_elems_length [OF assms(1)] ss_elems_nth [of ?n ss]
    by (auto simp: ss_inv_def)
  define ss' where "ss' = ss\<lparr>ss_buf := move_elems (ss_buf ss) ?n (?n + 1) (ss_cnt ss - ?n - 1),
                      ss_cnt := ss_cnt ss - 1\<rparr>"
  have r: "sigset_set ss b False = Inr ss'"
    using n by (auto simp: sigset_set_def Let_def ss'_def word_gt_0)
  have "length (ss_buf ss') = ss_max ss'" "ss_cnt ss' \<le> ss_max ss'"
    using n assms(1) by (auto simp: ss'_def move_elems_def ss_inv_def)
  moreover have "ss_elems ss' = take ?n (ss_elems ss) @ drop (?n + 1) (ss_elems ss)"
    using n assms(1) move_down [OF n(1), of "ss_buf ss"]
    by (simp add: ss_elems_def ss'_def ss_inv_def min_def)
  ultimately show ?thesis using r by auto
qed

lemma sigset_set_true:
  assumes "ss_inv ss" "b > 0"
  shows "\<exists>ss'. sigset_set ss b True = Inr ss' \<and> ss_inv ss' \<and> ss_view ss' = insert b (ss_view ss)"
proof (cases "b \<in> set (ss_elems ss)")
  case True
  with assms have "sigset_get ss b" by (simp add: sigset_get_elem)
  then have "sigset_set ss b True = Inr ss"
    using assms(2) by (auto simp: sigset_get_def sigset_set_def Let_def)
  with assms True show ?thesis by (auto simp: ss_view_def)
next
  case False
  let ?n = "search ss b"
  obtain ss' where s': "sigset_set ss b True = Inr ss'" "ss_cnt ss' \<le> ss_max ss'"
      "length (ss_buf ss') = ss_max ss'"
      "ss_elems ss' = take ?n (ss_elems ss) @ b # drop ?n (ss_elems ss)"
    using sigset_insert_elems [OF assms False] by auto
  have "set (ss_elems ss') = insert b (set (ss_elems ss))"
    using s'(4) set_append [of "take ?n (ss_elems ss)" "drop ?n (ss_elems ss)"] by auto
  moreover have "sorted_wrt (<) (ss_elems ss')"
    using s'(4) sorted_insert_at [OF search_splits] assms False by (auto simp: ss_inv_def)
  ultimately show ?thesis using s' assms by (auto simp: ss_inv_def ss_view_def)
qed

lemma sorted_remove_at:
  fixes xs :: "u32 list"
  assumes "sorted_wrt (<) xs" "n < length xs"
  shows "sorted_wrt (<) (take n xs @ drop (Suc n) xs)"
    and "set (take n xs @ drop (Suc n) xs) = set xs - {xs ! n}"
proof -
  have e: "xs = take n xs @ xs ! n # drop (Suc n) xs" using assms(2) by (rule id_take_nth_drop)
  have s: "sorted_wrt (<) (take n xs @ xs ! n # drop (Suc n) xs)" using assms(1) e by simp
  then show "sorted_wrt (<) (take n xs @ drop (Suc n) xs)" by (auto simp: sorted_wrt_append)
  have "set xs = set (take n xs) \<union> {xs ! n} \<union> set (drop (Suc n) xs)"
    by (subst e) (auto simp del: append_take_drop_id)
  moreover have "xs ! n \<notin> set (take n xs) \<union> set (drop (Suc n) xs)"
    using s by (auto simp: sorted_wrt_append)
  ultimately show "set (take n xs @ drop (Suc n) xs) = set xs - {xs ! n}" by auto
qed

lemma sigset_set_false:
  assumes "ss_inv ss"
  shows "\<exists>ss'. sigset_set ss b False = Inr ss' \<and> ss_inv ss' \<and> ss_view ss' = ss_view ss - {b}"
proof (cases "b \<in> set (ss_elems ss)")
  case False
  then have "\<not> sigset_get ss b" using assms by (simp add: sigset_get_elem)
  then have "sigset_set ss b False = Inr ss"
    using search_splits [OF assms, of b] ss_elems_length [OF assms]
    by (auto simp: sigset_get_def sigset_set_def Let_def splits_at_def word_gt_0)
  with assms False show ?thesis by (auto simp: ss_view_def)
next
  case True
  let ?n = "search ss b"
  obtain ss' where s': "sigset_set ss b False = Inr ss'" "ss_cnt ss' \<le> ss_max ss'"
      "length (ss_buf ss') = ss_max ss'"
      "ss_elems ss' = take ?n (ss_elems ss) @ drop (Suc ?n) (ss_elems ss)"
    using sigset_remove_elems [OF assms True] by auto
  from splits_at_member [OF search_splits [OF assms]] True assms
  have n: "?n < length (ss_elems ss)" "ss_elems ss ! ?n = b" by (auto simp: ss_inv_def)
  have "sorted_wrt (<) (ss_elems ss')" "set (ss_elems ss') = set (ss_elems ss) - {b}"
    using sorted_remove_at [of "ss_elems ss" ?n] assms n s'(4) by (auto simp: ss_inv_def)
  with s' assms show ?thesis by (auto simp: ss_inv_def ss_view_def)
qed

lemma sigset_get_next_elem:
  assumes "ss_inv ss" "b \<noteq> -1"
  shows "sigset_get_next ss b =
    (let up = {x \<in> ss_view ss. b < x} in if up = {} then None else Some (Min up))"
proof -
  let ?n = "search ss (b + 1)" and ?up = "{x \<in> ss_view ss. b < x}"
  have "1 + b \<noteq> 0" using assms(2) by (metis add.inverse_unique)
  then have lt: "b + 1 \<le> x \<longleftrightarrow> b < x" for x
    by (simp add: word_le_nat_alt word_less_nat_alt unatSuc add.commute Suc_le_eq)
  have sp: "splits_at (ss_elems ss) (b + 1) ?n" using assms(1) by (rule search_splits)
  have up: "?up = set (drop ?n (ss_elems ss))"
    using splits_at_sets(2) [OF sp] by (simp add: ss_view_def lt)
  show ?thesis
  proof (cases "?n < ss_cnt ss")
    case False
    then have "?up = {}" using up ss_elems_length [OF assms(1)] by simp
    with False show ?thesis by (simp add: sigset_get_next_def Let_def)
  next
    case True
    then have d: "drop ?n (ss_elems ss) = ss_buf ss ! ?n # drop (Suc ?n) (ss_elems ss)"
      using ss_elems_length [OF assms(1)] ss_elems_nth [OF True]
      by (metis Cons_nth_drop_Suc)
    have "sorted_wrt (<) (drop ?n (ss_elems ss))"
      using assms(1) by (simp add: ss_inv_def sorted_wrt_drop)
    then have "Min ?up = ss_buf ss ! ?n"
      unfolding up d by (intro Min_eqI) auto
    moreover have "?up \<noteq> {}" unfolding up d by simp
    ultimately show ?thesis using True by (simp add: sigset_get_next_def Let_def)
  qed
qed


section \<open>The contract of a signal set\<close>

text \<open>
  The loop \<^verbatim>\<open>while (sigset_get_next(set, &bit))\<close> that enumerates a set: the values that
  \<^verbatim>\<open>bit\<close> takes. It is given fuel, because it need not end: \<open>None\<close> is the value of a run
  that is not over after that many rounds.
\<close>

fun sig_enum :: "(u32 \<Rightarrow> u32 option) \<Rightarrow> nat \<Rightarrow> u32 \<Rightarrow> u32 list option" where
  "sig_enum nxt 0 b = None"
| "sig_enum nxt (Suc fuel) b =
     (case nxt b of
        None \<Rightarrow> Some []
      | Some b' \<Rightarrow> map_option (Cons b') (sig_enum nxt fuel b'))"

locale signal_set =
  fixes get :: "'s \<Rightarrow> u32 \<Rightarrow> bool"
    and get_next :: "'s \<Rightarrow> u32 \<Rightarrow> u32 option"
    and put :: "'s \<Rightarrow> u32 \<Rightarrow> bool \<Rightarrow> 's outcome"
    and sview :: "'s \<Rightarrow> u32 set"
    and sinv :: "'s \<Rightarrow> bool"
  assumes get_view: "sinv s \<Longrightarrow> get s b \<longleftrightarrow> b \<in> sview s"
    and get_next_view: "sinv s \<Longrightarrow> b \<noteq> -1 \<Longrightarrow> get_next s b =
      (let up = {x \<in> sview s. b < x} in if up = {} then None else Some (Min up))"
    and put_true: "sinv s \<Longrightarrow> 0 < b \<Longrightarrow>
      \<exists>s'. put s b True = Inr s' \<and> sinv s' \<and> sview s' = insert b (sview s)"
    and put_false: "sinv s \<Longrightarrow>
      \<exists>s'. put s b False = Inr s' \<and> sinv s' \<and> sview s' = sview s - {b}"
    and zero_not_in: "sinv s \<Longrightarrow> 0 \<notin> sview s"
begin

lemma put_view:
  "sinv s \<Longrightarrow> 0 < b \<or> \<not> v \<Longrightarrow> \<exists>s'. put s b v = Inr s' \<and> sinv s' \<and>
    sview s' = (if v then insert b (sview s) else sview s - {b})"
  using put_true [of s b] put_false [of s b] by (cases v) auto

lemma get_after_put:
  assumes "sinv s" "0 < b \<or> \<not> v"
  shows "\<exists>s'. put s b v = Inr s' \<and> sinv s' \<and> (\<forall>c. get s' c = (if c = b then v else get s c))"
  using put_view [OF assms] assms(1) get_view by (auto split: if_splits)

text \<open>Enumerating from \<open>b\<close> gives the larger elements in ascending order, and it ends,
  provided that the largest 32-bit number is not in the set.\<close>

lemma enum_above:
  assumes "sinv s" "-1 \<notin> sview s" "b \<noteq> -1" "card {x \<in> sview s. b < x} < fuel"
  shows "sig_enum (get_next s) fuel b = Some (sorted_list_of_set {x \<in> sview s. b < x})"
  using assms
proof (induction fuel arbitrary: b)
  case 0
  then show ?case by simp
next
  case (Suc fuel)
  let ?up = "{x \<in> sview s. b < x}"
  show ?case
  proof (cases "?up = {}")
    case True
    then have "get_next s b = None" using Suc.prems by (simp add: get_next_view Let_def)
    then show ?thesis unfolding True by simp
  next
    case False
    define m where "m = Min ?up"
    have "m \<in> ?up" unfolding m_def using False by (rule Min_in [OF finite])
    moreover have "\<forall>x \<in> ?up. m \<le> x" unfolding m_def by simp
    ultimately have m: "m \<in> ?up" "\<forall>x \<in> ?up. m \<le> x" by blast+
    have up: "?up = insert m {x \<in> sview s. m < x}" using m by auto
    have "card {x \<in> sview s. m < x} < fuel"
      using Suc.prems(4) unfolding up by (subst (asm) card_insert_disjoint) auto
    moreover have "m \<noteq> -1" using m Suc.prems(2) by auto
    ultimately have "sig_enum (get_next s) fuel m = Some (sorted_list_of_set {x \<in> sview s. m < x})"
      using Suc.IH [of m] Suc.prems by blast
    moreover have "sorted_list_of_set ?up = m # sorted_list_of_set {x \<in> sview s. m < x}"
    proof -
      have "?up - {m} = {x \<in> sview s. m < x}" using up by auto
      with sorted_list_of_set_nonempty [OF finite False] show ?thesis by (simp add: m_def)
    qed
    moreover have "get_next s b = Some m"
      using False Suc.prems by (simp add: get_next_view m_def)
    ultimately show ?thesis by simp
  qed
qed

lemma enum_all:
  assumes "sinv s" "-1 \<notin> sview s" "card (sview s) < fuel"
  shows "sig_enum (get_next s) fuel 0 = Some (sorted_list_of_set (sview s))"
proof -
  have "{x \<in> sview s. 0 < x} = sview s"
    using zero_not_in [OF assms(1)] by (auto simp: word_gt_0)
  with enum_above [OF assms(1,2), of 0 fuel] assms(3) show ?thesis by simp
qed

end

interpretation sig: signal_set sigset_get sigset_get_next sigset_set ss_view ss_inv
proof unfold_locales
  fix s b
  assume inv: "ss_inv s"
  show "sigset_get s b \<longleftrightarrow> b \<in> ss_view s"
    using inv by (simp add: sigset_get_elem ss_view_def)
  show "\<exists>s'. sigset_set s b False = Inr s' \<and> ss_inv s' \<and> ss_view s' = ss_view s - {b}"
    using inv by (rule sigset_set_false)
  show "0 \<notin> ss_view s"
    using inv by (simp add: ss_inv_def ss_view_def)
  show "0 < b \<Longrightarrow> \<exists>s'. sigset_set s b True = Inr s' \<and> ss_inv s' \<and> ss_view s' = insert b (ss_view s)"
    using inv by (rule sigset_set_true)
  show "b \<noteq> -1 \<Longrightarrow> sigset_get_next s b =
      (let up = {x \<in> ss_view s. b < x} in if up = {} then None else Some (Min up))"
    using inv by (rule sigset_get_next_elem)
qed

lemma ss_inv_clear: "ss_inv sigset_clear" "ss_view sigset_clear = {}"
  by (simp_all add: ss_inv_def sigset_clear_def ss_view_def ss_elems_def)

lemma ss_inv_copy: "ss_inv s \<Longrightarrow> ss_inv (sigset_copy s) \<and> ss_view (sigset_copy s) = ss_view s"
  by (auto simp: ss_inv_def ss_view_def ss_elems_def sigset_copy_def)

lemma sigset_is_empty_view: "ss_inv s \<Longrightarrow> sigset_is_empty s \<longleftrightarrow> ss_view s = {}"
  using ss_elems_length [of s] by (auto simp: sigset_is_empty_def ss_view_def)

section \<open>Properties\<close>

text \<open>Setting or clearing a signal in a well-formed set succeeds (signal 0 can only be
  cleared), keeps the set well-formed - strictly ascending, inside of its allocated array - and
  changes the answer of \<open>sigset_get\<close> for that signal only.\<close>

theorem sigset_set_get:
  assumes "ss_inv s" "0 < b \<or> \<not> v"
  shows "\<exists>s'. sigset_set s b v = Inr s' \<and> ss_inv s' \<and>
    (\<forall>c. sigset_get s' c = (if c = b then v else sigset_get s c))"
  using assms by (rule sig.get_after_put)

theorem sigset_set_get_witness:
  "ss_inv sigset_clear \<and> (\<exists>s'. sigset_set sigset_clear 9 True = Inr s' \<and> ss_inv s' \<and>
     sigset_get s' 9 \<and> \<not> sigset_get s' 8)"
proof -
  have "\<not> sigset_get sigset_clear 8" by (simp add: sig.get_view ss_inv_clear)
  with sigset_set_get [of sigset_clear 9 True] ss_inv_clear show ?thesis
    by (auto simp: word_gt_0)
qed

text \<open>Enumerating a well-formed set with \<open>sigset_get_next\<close>, starting at 0, ends and
  visits every signal of the set exactly once, in ascending order, unless the set holds the
  largest 32-bit number.\<close>

theorem sigset_enumeration:
  assumes "ss_inv s" "\<not> sigset_get s (-1)" "ss_cnt s < fuel"
  shows "\<exists>xs. sig_enum (sigset_get_next s) fuel 0 = Some xs \<and> sorted_wrt (<) xs \<and>
    (\<forall>b. b \<in> set xs \<longleftrightarrow> sigset_get s b)"
proof -
  have "card (ss_view s) \<le> ss_cnt s"
    using ss_elems_length [OF assms(1)] card_length [of "ss_elems s"] by (simp add: ss_view_def)
  then have "sig_enum (sigset_get_next s) fuel 0 = Some (sorted_list_of_set (ss_view s))"
    using assms by (intro sig.enum_all) (auto simp: sig.get_view)
  then show ?thesis using assms(1) by (auto simp: sig.get_view)
qed

theorem sigset_enumeration_witness:
  "\<exists>s xs. ss_inv s \<and> \<not> sigset_get s (-1) \<and> sigset_get s 9 \<and>
     sig_enum (sigset_get_next s) 10 0 = Some xs \<and> 9 \<in> set xs"
proof -
  let ?s = "\<lparr>ss_cnt = 2, ss_max = 3, ss_buf = [9, 70, 0]\<rparr>"
  have e: "ss_elems ?s = [9, 70]" by (simp add: ss_elems_def take_Cons')
  have i: "ss_inv ?s" by (simp add: ss_inv_def e)
  have g: "\<not> sigset_get ?s (-1)" "sigset_get ?s 9"
    using i by (simp_all add: sigset_get_elem e)
  from sigset_enumeration [OF i g(1), of 10] i g show ?thesis by auto
qed

text \<open>A set that holds the largest 32-bit number cannot be enumerated: after it
  \<open>sigset_get_next\<close> wraps around to 0 and starts again, so the loop never ends.\<close>

theorem sigset_enumeration_diverges:
  assumes "ss_inv s" "sigset_get s (-1)"
  shows "sig_enum (sigset_get_next s) fuel 0 = None"
proof -
  have "sigset_get_next s b \<noteq> None" for b
  proof (cases "b = -1")
    case True
    have "ss_cnt s > 0" using assms by (auto simp: sigset_get_def Let_def)
    moreover have "search s 0 = 0"
      using search_splits [OF assms(1), of 0] by (auto simp: splits_at_def intro: ccontr)
    ultimately show ?thesis using True by (simp add: sigset_get_next_def Let_def)
  next
    case False
    then have "b < -1" by (simp add: word_order.not_eq_extremum)
    then have "{x \<in> ss_view s. b < x} \<noteq> {}" using assms by (auto simp: sig.get_view)
    with False assms(1) show ?thesis by (simp add: sig.get_next_view Let_def)
  qed
  then have "sig_enum (sigset_get_next s) fuel b = None" for b
    by (induction fuel arbitrary: b) (auto split: option.splits)
  then show ?thesis by blast
qed

theorem sigset_enumeration_diverges_witness:
  "\<exists>s. ss_inv s \<and> sigset_get s (-1) \<and> sig_enum (sigset_get_next s) 1000 0 = None"
proof -
  let ?s = "\<lparr>ss_cnt = 1, ss_max = 1, ss_buf = [-1]\<rparr>"
  have i: "ss_inv ?s" "sigset_get ?s (-1)"
    by (simp_all add: ss_inv_def ss_elems_def sigset_get_elem)
  from sigset_enumeration_diverges [OF this] i show ?thesis by blast
qed

end
