(* ===== verification/SigMask.thy ===== *)
theory SigMask
  imports SigSets JsonData
begin

text \<open>
  Signal masks on a channel, \<^verbatim>\<open>services/processes.c\<close>: a set of signals below 64 is sent as
  one number whose bits are the signals, any other set as an array of signal numbers. The writer
  enumerates the set with \<^verbatim>\<open>sigset_get_next\<close>; it is given fuel for every element of the set
  and one more step.
\<close>

fun sig_bits :: "nat \<Rightarrow> SigSet \<Rightarrow> u32 \<Rightarrow> u64 \<Rightarrow> u64 option outcome" where
  "sig_bits 0 ss b bits = Inl Out_Of_Fuel"
| "sig_bits (Suc fuel) ss b bits =
     (case sigset_get_next ss b of
        None \<Rightarrow> Inr (Some bits)
      | Some b \<Rightarrow> if b \<ge> 64 then Inr None else sig_bits fuel ss b (bits OR push_bit (unat b) 1))"

fun write_sig_list :: "nat \<Rightarrow> SigSet \<Rightarrow> u32 \<Rightarrow> nat \<Rightarrow> OutputStream \<Rightarrow> OutputStream outcome" where
  "write_sig_list 0 ss b cnt out = Inl Out_Of_Fuel"
| "write_sig_list (Suc fuel) ss b cnt out =
     (case sigset_get_next ss b of
        None \<Rightarrow> Inr out
      | Some b \<Rightarrow>
          let out = (if cnt > 0 then write_stream out (chr CHR '','') else out)
          in write_sig_list fuel ss b (cnt + 1) (json_write_ulong out (ucast b)))"

definition write_sigset :: "OutputStream \<Rightarrow> SigSet \<Rightarrow> OutputStream outcome" where
  "write_sigset out ss =
     rbind (sig_bits (ss_cnt ss + 1) ss 0 0) (\<lambda>bits.
     case bits of
       Some bits \<Rightarrow> Inr (json_write_uint64 out bits)
     | None \<Rightarrow>
         rbind (write_sig_list (ss_cnt ss + 1) ss 0 0 (write_stream out (chr CHR ''[''))) (\<lambda>out.
         Inr (write_stream out (chr CHR '']''))))"

definition read_sigset_bit :: "SigSet array_callback" where
  "read_sigset_bit inp ss =
     rbind (json_read_ulong inp) (\<lambda>(n, inp).
     rbind (sigset_set ss (ucast n) True) (\<lambda>ss. Inr (ss, inp)))"

fun set_bits_from :: "nat list \<Rightarrow> u64 \<Rightarrow> SigSet \<Rightarrow> SigSet outcome" where
  "set_bits_from [] bits ss = Inr ss"
| "set_bits_from (b # bs) bits ss =
     rbind (sigset_set ss (word_of_nat b) (bits AND push_bit b 1 \<noteq> 0)) (set_bits_from bs bits)"

text \<open>The result has the set and the value of \<^verbatim>\<open>*not_null\<close>.\<close>

definition read_sigset :: "istream \<Rightarrow> (SigSet \<times> bool \<times> istream) outcome" where
  "read_sigset inp =
     (let ss = sigset_clear; (pk, inp) = json_peek inp in
      if pk = chr CHR ''n'' then
        rbind (json_test_chars (snd (read_stream inp)) ''ull'') (\<lambda>inp. Inr (ss, False, inp))
      else
        let (pk, inp) = json_peek inp in
        if pk = chr CHR ''['' then
          rbind (json_read_array read_sigset_bit inp ss) (\<lambda>(r, inp).
            Inr (case r of None \<Rightarrow> ss | Some ss \<Rightarrow> ss, True, inp))
        else
          rbind (json_read_uint64 inp) (\<lambda>(bits, inp).
          rbind (set_bits_from [0..<64] bits ss) (\<lambda>ss. Inr (ss, True, inp))))"

section \<open>The writer\<close>

lemma sig_bits_enum:
  "sig_enum (sigset_get_next ss) fuel b = Some xs \<Longrightarrow>
   sig_bits fuel ss b bits =
     Inr (if \<forall>x \<in> set xs. x < 64 then Some (foldl (\<lambda>acc x. acc OR push_bit (unat x) 1) bits xs) else None)"
proof (induction fuel arbitrary: b bits xs)
  case (Suc fuel)
  show ?case
  proof (cases "sigset_get_next ss b")
    case None
    with Suc.prems show ?thesis by simp
  next
    case (Some c)
    with Suc.prems obtain ys where ys: "sig_enum (sigset_get_next ss) fuel c = Some ys" "xs = c # ys" by auto
    with Suc.IH [OF ys(1)] Some show ?thesis by (auto simp: not_le)
  qed
qed simp

lemma unat_ucast_u64: "unat (ucast (c :: u32) :: u64) = unat c"
proof -
  have "unat c < 2 ^ 64" using unsigned_less [of c, where ?'a = nat] by simp
  from unat_u64_of_nat [OF this] show ?thesis by simp
qed

lemma write_sig_list_enum:
  "sig_enum (sigset_get_next ss) fuel b = Some xs \<Longrightarrow>
   \<exists>out'. write_sig_list fuel ss b cnt out = Inr out' \<and> written out' = written out @
     (if cnt > 0 then concat (map (\<lambda>x. 44 # dec (unat x)) xs) else commas (map (\<lambda>x. dec (unat x)) xs))"
proof (induction fuel arbitrary: b cnt out xs)
  case (Suc fuel)
  show ?case
  proof (cases "sigset_get_next ss b")
    case None
    with Suc.prems show ?thesis by simp
  next
    case (Some c)
    with Suc.prems obtain ys where ys: "sig_enum (sigset_get_next ss) fuel c = Some ys" "xs = c # ys" by auto
    let ?out = "if cnt > 0 then write_stream out (chr CHR '','') else out"
    from Suc.IH [OF ys(1), of "cnt + 1" "json_write_ulong ?out (ucast c)"] obtain out' where
      "write_sig_list fuel ss c (cnt + 1) (json_write_ulong ?out (ucast c)) = Inr out'"
      "written out' = written (json_write_ulong ?out (ucast c)) @ concat (map (\<lambda>x. 44 # dec (unat x)) ys)"
      by auto
    moreover have "commas (dec k # map (\<lambda>x. dec (unat x)) ys) = dec k @ concat (map (\<lambda>x. 44 # dec (unat x)) ys)" for k
      by (induction ys arbitrary: k) auto
    moreover have "unat (ucast c :: u64) = unat c"
      by (rule unat_ucast_u64)
    ultimately show ?thesis using Some ys
      by (auto simp: json_write_ulong_dec Let_def)
  qed
qed simp

section \<open>The reader\<close>

definition add_sig :: "u32 \<Rightarrow> SigSet \<Rightarrow> SigSet" where
  "add_sig x ss = (case sigset_set ss x True of Inr ss' \<Rightarrow> ss' | Inl _ \<Rightarrow> ss)"

lemma add_sig_view:
  assumes "ss_inv ss" "0 < x"
  shows "sigset_set ss x True = Inr (add_sig x ss)" "ss_inv (add_sig x ss)"
    "ss_view (add_sig x ss) = insert x (ss_view ss)"
proof -
  obtain ss' where "sigset_set ss x True = Inr ss'" "ss_inv ss'" "ss_view ss' = insert x (ss_view ss)"
    using sig.put_true [OF assms] by blast
  then show "sigset_set ss x True = Inr (add_sig x ss)" "ss_inv (add_sig x ss)"
    "ss_view (add_sig x ss) = insert x (ss_view ss)"
    by (simp_all add: add_sig_def)
qed

lemma ucast_ucast_u32: "ucast (ucast (x :: u32) :: u64) = x"
  by (rule bit_word_eqI) (simp add: bit_simps)

interpretation sig_list: array_elements read_sigset_bit "\<lambda>x. dec (unat (x :: u32))" add_sig
  "\<lambda>x ss. ss_inv ss \<and> 0 < x"
proof unfold_locales
  fix x arg c rest
  assume ok: "ss_inv arg \<and> 0 < (x :: u32)" and c: "c \<in> {44, 93 :: int}"
  have "json_read_ulong (dec (unat x) @ c # rest) = Inr (of_nat (unat x), c # rest)"
    using c by (intro json_read_ulong_dec) (auto simp: is_digit_iff)
  with ok add_sig_view(1) [of arg x] show "read_sigset_bit (dec (unat x) @ c # rest) arg = Inr (add_sig x arg, c # rest)"
    by (simp add: read_sigset_bit_def ucast_ucast_u32)
next
  fix x :: u32
  obtain c cs where "dec (unat x) = c # cs" "is_digit c" using dec_head [of "unat x"] by blast
  then show "\<exists>c cs. dec (unat x) = c # cs \<and> \<not> isspace c \<and> c \<noteq> 93"
    using isspace_digit by (auto simp: is_digit_iff)
qed

lemma fold_add_sig:
  "ss_inv ss \<Longrightarrow> 0 \<notin> set xs \<Longrightarrow> sig_list.all_ok xs ss \<and> ss_inv (fold add_sig xs ss) \<and>
     ss_view (fold add_sig xs ss) = set xs \<union> ss_view ss"
proof (induction xs arbitrary: ss)
  case (Cons x xs)
  then have "0 < x" by (simp add: word_gt_0)
  with Cons show ?case using add_sig_view [OF Cons.prems(1)] by auto
qed simp

lemma and_push_bit_1: "(bits :: u64) AND 2 ^ b = 0 \<longleftrightarrow> \<not> bit bits b"
  by (simp add: and_exp_eq_0_iff_not_bit)

lemma set_bits_from_view:
  "ss_inv ss \<Longrightarrow> \<forall>b \<in> set bs. b < 2 ^ 32 \<Longrightarrow> \<not> bit bits 0 \<Longrightarrow>
   \<exists>ss'. set_bits_from bs bits ss = Inr ss' \<and> ss_inv ss' \<and>
     (\<forall>x. x \<in> ss_view ss' \<longleftrightarrow> (if unat x \<in> set bs then bit bits (unat x) else x \<in> ss_view ss))"
proof (induction bs arbitrary: ss)
  case (Cons b bs)
  let ?v = "bit bits b"
  have u: "unat (word_of_nat b :: u32) = b" using Cons.prems(2) by (simp add: unat_of_nat)
  have "0 < (word_of_nat b :: u32) \<or> \<not> ?v"
    using Cons.prems(3) u by (cases "b = 0") (auto simp: word_gt_0 word_unat_eq_iff)
  from sig.put_view [OF Cons.prems(1) this] obtain ss1 where
    ss1: "sigset_set ss (word_of_nat b) ?v = Inr ss1" "ss_inv ss1"
    "ss_view ss1 = (if ?v then insert (word_of_nat b) (ss_view ss) else ss_view ss - {word_of_nat b})"
    by blast
  from Cons.IH [OF ss1(2)] Cons.prems obtain ss' where ss': "set_bits_from bs bits ss1 = Inr ss'" "ss_inv ss'"
    "\<forall>x. x \<in> ss_view ss' \<longleftrightarrow> (if unat x \<in> set bs then bit bits (unat x) else x \<in> ss_view ss1)" by auto
  have "x = word_of_nat b \<longleftrightarrow> unat x = b" for x :: u32 using u by (auto simp: word_unat_eq_iff)
  then show ?case using ss1 ss' u by (auto simp: and_push_bit_1)
qed simp

lemma bit_foldl_or:
  "n < 64 \<Longrightarrow> bit (foldl (\<lambda>acc x. acc OR push_bit (unat x) 1) (bits :: u64) xs) n \<longleftrightarrow>
     bit bits n \<or> (\<exists>x \<in> set xs. unat (x :: u32) = n)"
  by (induction xs arbitrary: bits) (auto simp: bit_simps)

section \<open>Properties\<close>

text \<open>Round trip of signal masks: a set of signals that is written to a channel, as one number
  or as an array, is read back as the same set. (The largest 32-bit number, at which the writer
  does not end, is excluded.)\<close>

theorem sigset_channel_roundtrip:
  assumes "ss_inv ss" "\<not> sigset_get ss (-1)" "\<not> is_digit (peek_stream rest)"
  shows "\<exists>out' txt ss'. write_sigset out ss = Inr out' \<and> written out' = written out @ txt \<and>
     read_sigset (txt @ rest) = Inr (ss', True, rest) \<and> ss_inv ss' \<and>
     (\<forall>b. sigset_get ss' b = sigset_get ss b)"
proof -
  define xs where "xs = sorted_list_of_set (ss_view ss)"
  have fin: "finite (ss_view ss)" by simp
  have card: "card (ss_view ss) < ss_cnt ss + 1"
    using ss_elems_length [OF assms(1)] card_length [of "ss_elems ss"] by (simp add: ss_view_def)
  have en: "sig_enum (sigset_get_next ss) (ss_cnt ss + 1) 0 = Some xs"
    unfolding xs_def using assms(1,2) card by (intro sig.enum_all) (auto simp: sig.get_view)
  have xs: "set xs = ss_view ss" "0 \<notin> set xs"
    using sig.zero_not_in [OF assms(1)] by (simp_all add: xs_def)
  show ?thesis
  proof (cases "\<forall>x \<in> set xs. x < 64")
    case True
    define bits where "bits = foldl (\<lambda>acc x. acc OR push_bit (unat x) 1) (0 :: u64) xs"
    have w: "write_sigset out ss = Inr (json_write_uint64 out bits)"
      using sig_bits_enum [OF en, of 0] True by (simp add: write_sigset_def bits_def)
    have lt: "unat x < 64" if "x \<in> set xs" for x using True that by (simp add: word_less_nat_alt)
    have b: "bit bits n \<longleftrightarrow> (\<exists>x \<in> set xs. unat x = n)" if "n < 64" for n
      using bit_foldl_or [OF that, of 0 xs] by (simp add: bits_def)
    have nz: "\<not> bit bits 0" using b [of 0] xs(2) by (auto simp: unat_eq_zero)
    obtain ss' where ss': "set_bits_from [0..<64] bits sigset_clear = Inr ss'" "ss_inv ss'"
      "\<forall>x. x \<in> ss_view ss' \<longleftrightarrow> (if unat x < 64 then bit bits (unat x) else False)"
      using set_bits_from_view [OF ss_inv_clear(1) _ nz, of "[0..<64]"] ss_inv_clear(2) by auto
    have "x \<in> ss_view ss' \<longleftrightarrow> x \<in> set xs" for x
      using ss'(3) b lt by (metis word_unat_eq_iff)
    then have v: "sigset_get ss' x = sigset_get ss x" for x
      using sig.get_view ss'(2) assms(1) xs(1) by simp
    obtain c cs where d: "dec (unat bits) = c # cs" "is_digit c" using dec_head by blast
    have "read_sigset (dec (unat bits) @ rest) = Inr (ss', True, rest)"
      using json_read_ulong_dec(1) [OF assms(3), of "unat bits"] ss'(1) d isspace_digit [OF d(2)]
      by (auto simp: read_sigset_def json_peek_def json_read_uint64_eq is_digit_iff)
    with w v ss'(2) show ?thesis
      by (auto simp: json_write_uint64_eq json_write_ulong_dec)
  next
    case False
    obtain out1 where o: "write_sig_list (ss_cnt ss + 1) ss 0 0 (write_stream out 91) = Inr out1"
      "written out1 = written out @ 91 # commas (map (\<lambda>x. dec (unat x)) xs)"
      using write_sig_list_enum [OF en, of 0 "write_stream out 91"] by auto
    have w: "write_sigset out ss = Inr (write_stream out1 93)"
      using sig_bits_enum [OF en, of 0] False o(1) by (simp add: write_sigset_def)
    let ?ss' = "fold add_sig xs sigset_clear"
    note f = fold_add_sig [OF ss_inv_clear(1) xs(2)]
    have "read_sigset (91 # commas (map (\<lambda>x. dec (unat x)) xs) @ 93 # rest) = Inr (?ss', True, rest)"
      using sig_list.read_array_elems [of xs sigset_clear rest] f
      by (simp add: read_sigset_def json_peek_def isspace_def)
    moreover have "\<forall>b. sigset_get ?ss' b = sigset_get ss b"
      using f xs(1) ss_inv_clear(2) sig.get_view assms(1) by simp
    ultimately show ?thesis using w o(2) f
      by (intro exI [of _ "write_stream out1 93"] exI [of _ "91 # commas (map (\<lambda>x. dec (unat x)) xs) @ [93]"]
          exI [of _ ?ss']) simp
  qed
qed

theorem sigset_channel_roundtrip_witness:
  "\<exists>out' txt ss'. write_sigset \<lparr>supports_zero_copy = False, written = []\<rparr>
       \<lparr>ss_cnt = 2, ss_max = 3, ss_buf = [9, 70, 0]\<rparr> = Inr out' \<and>
     written out' = [] @ txt \<and> read_sigset (txt @ [0]) = Inr (ss', True, [0]) \<and> ss_inv ss' \<and>
     (\<forall>b. sigset_get ss' b = sigset_get \<lparr>ss_cnt = 2, ss_max = 3, ss_buf = [9, 70, 0]\<rparr> b)"
proof -
  let ?s = "\<lparr>ss_cnt = 2, ss_max = 3, ss_buf = [9, 70, 0]\<rparr>"
  have e: "ss_elems ?s = [9, 70]" by (simp add: ss_elems_def take_Cons')
  have i: "ss_inv ?s" by (simp add: ss_inv_def e)
  have g: "\<not> sigset_get ?s (-1)" using i by (simp add: sigset_get_elem e)
  from sigset_channel_roundtrip [OF i g, of "[0]" "\<lparr>supports_zero_copy = False, written = []\<rparr>"] show ?thesis
    by (simp add: is_digit_iff)
qed

text \<open>Signal 0 is not filtered out on the way in: a peer that sends the mask \<^verbatim>\<open>1\<close>, or an
  array with a 0, makes the assertion of \<open>sigset_set\<close> fail.\<close>

theorem read_sigset_zero_fails:
  "read_sigset [49, 0] = Inl Assertion_Failed \<and> read_sigset [91, 48, 93, 0] = Inl Assertion_Failed"
proof -
  have s: "sigset_set sigset_clear 0 True = Inl Assertion_Failed"
    by (simp add: sigset_set_def)
  have n: "json_read_ulong [49, 0] = Inr (1, [0])" "json_read_ulong [48, 93, 0] = Inr (0, [93, 0])"
    by (simp_all add: json_read_ulong_def read_sign_digit_def isspace_def is_digit_iff
        read_digits_unsigned.simps Let_def)
  have "set_bits_from [0..<64] 1 sigset_clear = Inl Assertion_Failed"
    using s by (simp add: upt_conv_Cons and_push_bit_1)
  then show ?thesis
    using s n by (simp add: read_sigset_def json_peek_def isspace_def json_read_uint64_eq json_read_array_def
        read_sigset_bit_def)
qed

end
