(* ===== verification/Events.thy ===== *)
theory Events
  imports Prelude "HOL-Library.Multiset"
begin

text \<open>
  The event core of \<^verbatim>\<open>framework/events.c\<close>: the queue of events, the timer queue, their
  nodes, and the event loop.

  A node is its address, its run time, its handler and its argument; \<^verbatim>\<open>next\<close> pointers are
  the order of the lists. Addresses below \<^verbatim>\<open>EVENT_BUF_SIZE\<close> are the elements of
  \<^verbatim>\<open>event_buf\<close>, which circulate through the two free lists; larger ones come from the heap.
  The model keeps \<^verbatim>\<open>event_last\<close> as the code does, as an address, so that the assertions on
  it are checked. Clock values and the millisecond tick are arguments; the function that an event
  calls is a parameter of the loop, except for \<^verbatim>\<open>exit_event_handler\<close>, which is defined here.
  Each operation runs under the lock or on the event thread only, so that operations of different
  threads are interleaved as whole steps; waiting on a condition variable is a state of its own
  (\<open>In_Wait\<close> for the loop, \<open>Cancel_Waits\<close> for \<^verbatim>\<open>cancel_event\<close>).
\<close>

section \<open>The model\<close>

record timespec =
  tv_sec :: int
  tv_nsec :: int

datatype EventCallBack = exit_event_handler | handler nat

record event_node =
  ev_addr :: nat
  runtime :: timespec
  ev_handler :: EventCallBack
  ev_arg :: nat

abbreviation EVENT_BUF_SIZE :: nat where "EVENT_BUF_SIZE \<equiv> 512"

datatype loop_phase = At_Top | In_Wait | Stopped

record EventState =
  free_queue :: "nat list"
  free_bg_queue :: "nat list"
  heap_next :: nat
  event_queue :: "event_node list"
  event_last :: "nat option"
  timer_queue :: "event_node list"
  cancel_handler :: "EventCallBack option"
  cancel_arg :: nat
  process_events :: bool
  exit_event :: "nat option"
  event_cond :: bool
  event_cnt :: nat
  last_tick_count_ms :: u32
  phase :: loop_phase

definition time_cmp :: "timespec \<Rightarrow> timespec \<Rightarrow> int outcome" where
  "time_cmp tv1 tv2 =
     assert_that (tv_nsec tv1 < 1000000000) (
     assert_that (tv_nsec tv2 < 1000000000) (
     if tv_sec tv1 < tv_sec tv2 then Inr (-1)
     else if tv_sec tv1 > tv_sec tv2 then Inr 1
     else if tv_nsec tv1 < tv_nsec tv2 then Inr (-1)
     else if tv_nsec tv1 > tv_nsec tv2 then Inr 1
     else Inr 0))"

definition time_add_usec :: "timespec \<Rightarrow> u64 \<Rightarrow> timespec" where
  "time_add_usec tv usec =
     (let sec = tv_sec tv + uint usec div 1000000;
          nsec = tv_nsec tv + (uint usec mod 1000000) * 1000
      in if nsec \<ge> 1000000000 then \<lparr>tv_sec = sec + 1, tv_nsec = nsec - 1000000000\<rparr>
         else \<lparr>tv_sec = sec, tv_nsec = nsec\<rparr>)"

subsection \<open>Nodes\<close>

definition alloc_event_node :: "EventState \<Rightarrow> nat \<times> EventState" where
  "alloc_event_node s =
     (case free_queue s of
        a # rest \<Rightarrow> (a, s\<lparr>free_queue := rest\<rparr>)
      | [] \<Rightarrow> (heap_next s, s\<lparr>heap_next := heap_next s + 1\<rparr>))"

definition alloc_event_node_bg :: "EventState \<Rightarrow> nat \<times> EventState" where
  "alloc_event_node_bg s =
     (case free_bg_queue s of
        a # rest \<Rightarrow> (a, s\<lparr>free_bg_queue := rest\<rparr>)
      | [] \<Rightarrow> (heap_next s, s\<lparr>heap_next := heap_next s + 1\<rparr>))"

definition free_event_node :: "EventState \<Rightarrow> event_node \<Rightarrow> EventState" where
  "free_event_node s ev =
     (if ev_addr ev < EVENT_BUF_SIZE then s\<lparr>free_queue := ev_addr ev # free_queue s\<rparr> else s)"

subsection \<open>Posting\<close>

text \<open>The search for the position in the timer queue: behind every node that is not later.\<close>

fun timer_insert :: "event_node \<Rightarrow> event_node list \<Rightarrow> event_node list outcome" where
  "timer_insert ev [] = Inr [ev]"
| "timer_insert ev (nxt # rest) =
     rbind (time_cmp (runtime ev) (runtime nxt)) (\<lambda>c.
       if c \<ge> 0 then rbind (timer_insert ev rest) (\<lambda>q. Inr (nxt # q))
       else Inr (ev # nxt # rest))"

definition post_from_bg_thread ::
    "EventState \<Rightarrow> timespec \<Rightarrow> EventCallBack \<Rightarrow> nat \<Rightarrow> u64 \<Rightarrow> EventState outcome" where
  "post_from_bg_thread s now h arg delay =
     (let rt = time_add_usec now delay
      in if cancel_handler s = Some h \<and> cancel_arg s = arg
         then Inr (s\<lparr>cancel_handler := None\<rparr>)
         else
           let (a, s1) = alloc_event_node_bg s;
               ev = \<lparr>ev_addr = a, runtime = rt, ev_handler = h, ev_arg = arg\<rparr>
           in rbind (timer_insert ev (timer_queue s1)) (\<lambda>q.
              Inr (s1\<lparr>timer_queue := q,
                      event_cond := (event_cond s1 \<or> hd q = ev)\<rparr>)))"

definition post_event_with_delay ::
    "EventState \<Rightarrow> bool \<Rightarrow> timespec \<Rightarrow> EventCallBack \<Rightarrow> nat \<Rightarrow> u64 \<Rightarrow> EventState outcome" where
  "post_event_with_delay s is_event_thread now h arg delay =
     (if is_event_thread \<and> cancel_handler s = None then
        let rt = time_add_usec now delay;
            (a, s1) = alloc_event_node s;
            ev = \<lparr>ev_addr = a, runtime = rt, ev_handler = h, ev_arg = arg\<rparr>
        in rbind (timer_insert ev (timer_queue s1)) (\<lambda>q. Inr (s1\<lparr>timer_queue := q\<rparr>))
      else post_from_bg_thread s now h arg delay)"

abbreviation zero_time :: timespec where "zero_time \<equiv> \<lparr>tv_sec = 0, tv_nsec = 0\<rparr>"

definition post_event ::
    "EventState \<Rightarrow> bool \<Rightarrow> timespec \<Rightarrow> EventCallBack \<Rightarrow> nat \<Rightarrow> EventState outcome" where
  "post_event s is_event_thread now h arg =
     (if is_event_thread \<and> cancel_handler s = None then
        let (a, s1) = alloc_event_node s;
            ev = \<lparr>ev_addr = a, runtime = zero_time, ev_handler = h, ev_arg = arg\<rparr>
        in if event_queue s1 = [] then
             assert_that (event_last s1 = None) (
               Inr (s1\<lparr>event_queue := [ev], event_last := Some a\<rparr>))
           else Inr (s1\<lparr>event_queue := event_queue s1 @ [ev], event_last := Some a\<rparr>)
      else post_from_bg_thread s now h arg 0)"

subsection \<open>Cancelling\<close>

text \<open>A list split at its first node for a handler and argument.\<close>

fun find_event :: "EventCallBack \<Rightarrow> nat \<Rightarrow> event_node list \<Rightarrow>
    (event_node list \<times> event_node \<times> event_node list) option" where
  "find_event h arg [] = None"
| "find_event h arg (ev # rest) =
     (if ev_handler ev = h \<and> ev_arg ev = arg then Some ([], ev, rest)
      else case find_event h arg rest of
        None \<Rightarrow> None
      | Some (before, x, after) \<Rightarrow> Some (ev # before, x, after))"

datatype cancel_result = Cancel_Returns bool | Cancel_Waits

definition cancel_event :: "EventState \<Rightarrow> bool \<Rightarrow> EventCallBack option \<Rightarrow> nat \<Rightarrow> bool \<Rightarrow>
    (cancel_result \<times> EventState) outcome" where
  "cancel_event s is_event_thread ho arg wait =
     assert_that is_event_thread (
     case ho of None \<Rightarrow> Inl Assertion_Failed
     | Some h \<Rightarrow>
     assert_that (cancel_handler s = None) (
     case find_event h arg (event_queue s) of
       Some (before, ev, after) \<Rightarrow>
         rbind (if after = []
                then assert_that (event_last s = Some (ev_addr ev)) (
                  Inr (if before = [] then None else Some (ev_addr (last before))))
                else Inr (event_last s)) (\<lambda>last'.
         Inr (Cancel_Returns True,
              free_event_node (s\<lparr>event_queue := before @ after, event_last := last'\<rparr>) ev))
     | None \<Rightarrow>
         (case find_event h arg (timer_queue s) of
            Some (before, ev, after) \<Rightarrow>
              Inr (Cancel_Returns True, free_event_node (s\<lparr>timer_queue := before @ after\<rparr>) ev)
          | None \<Rightarrow>
              if \<not> wait then Inr (Cancel_Returns False, s)
              else Inr (Cancel_Waits, s\<lparr>cancel_handler := Some h, cancel_arg := arg\<rparr>))))"

subsection \<open>Initialisation and exit\<close>

definition ini_events_queue :: EventState where
  "ini_events_queue =
     \<lparr>free_queue = rev [0..<EVENT_BUF_SIZE], free_bg_queue = [], heap_next = EVENT_BUF_SIZE + 1,
      event_queue = [], event_last = None, timer_queue = [], cancel_handler = None,
      cancel_arg = 0, process_events = False, exit_event = Some EVENT_BUF_SIZE,
      event_cond = False, event_cnt = 0, last_tick_count_ms = 0, phase = Stopped\<rparr>"

definition cancel_event_loop :: "EventState \<Rightarrow> EventState" where
  "cancel_event_loop s = s\<lparr>process_events := False\<rparr>"

definition exit_event_loop :: "EventState \<Rightarrow> EventState" where
  "exit_event_loop s =
     (case exit_event s of
        None \<Rightarrow> s
      | Some a \<Rightarrow>
          s\<lparr>timer_queue := \<lparr>ev_addr = a, runtime = zero_time, ev_handler = exit_event_handler,
                           ev_arg = 0\<rparr> # timer_queue s,
            exit_event := None, event_cond := True\<rparr>)"

definition run_exit_event_handler :: "EventState \<Rightarrow> timespec \<Rightarrow> EventState outcome" where
  "run_exit_event_handler s now =
     (if event_queue s = [] then Inr (s\<lparr>process_events := False\<rparr>)
      else post_event s True now exit_event_handler 0)"

subsection \<open>The loop\<close>

definition enter_event_loop :: "EventState \<Rightarrow> u32 \<Rightarrow> EventState" where
  "enter_event_loop s ticks =
     s\<lparr>event_cnt := 0, last_tick_count_ms := ticks, process_events := True, phase := At_Top\<rparr>"

text \<open>The transfer of free nodes to the list of the background threads.\<close>

function refill_bg :: "nat list \<Rightarrow> nat list \<Rightarrow> nat list \<times> nat list" where
  "refill_bg fq bgq =
     (if fq \<noteq> [] \<and> (bgq = [] \<or> tl bgq = []) then refill_bg (tl fq) (hd fq # bgq)
      else (fq, bgq))"
  by pat_completeness auto
termination
  by (relation "measure (\<lambda>(fq, bgq). length fq)") auto

declare refill_bg.simps [simp del]

text \<open>The longest prefix of nodes whose time has come, and the rest.\<close>

fun due_events :: "timespec \<Rightarrow> event_node list \<Rightarrow> (event_node list \<times> event_node list) outcome" where
  "due_events now [] = Inr ([], [])"
| "due_events now (ev # rest) =
     rbind (time_cmp (runtime ev) now) (\<lambda>c.
       if c \<le> 0 then rbind (due_events now rest) (\<lambda>(due, later). Inr (ev # due, later))
       else Inr ([], ev # rest))"

text \<open>One round of the inner loop. The first component is \<open>True\<close> when the loop is left and
  \<open>False\<close> when the thread waits for \<^verbatim>\<open>event_cond\<close>.\<close>

definition timer_round :: "EventState \<Rightarrow> u32 \<Rightarrow> timespec \<Rightarrow> (bool \<times> EventState) outcome" where
  "timer_round s0 ticks now =
     (let s = s0\<lparr>last_tick_count_ms := ticks\<rparr>
      in if timer_queue s \<noteq> [] then
           rbind (due_events now (timer_queue s)) (\<lambda>(due, later).
             if due \<noteq> [] then
               rbind (if event_queue s = []
                      then assert_that (event_last s = None) (Inr (Some (ev_addr (last due))))
                      else Inr (event_last s)) (\<lambda>last'.
               Inr (True, s\<lparr>timer_queue := later, event_queue := due @ event_queue s,
                            event_last := last'\<rparr>))
             else Inr (event_queue s \<noteq> [], s))
         else Inr (event_queue s \<noteq> [], s))"

definition dispatch_event :: "EventState \<Rightarrow> (event_node \<times> EventState) outcome" where
  "dispatch_event s =
     (case event_queue s of
        [] \<Rightarrow> Inl Undefined_Behaviour
      | ev # rest \<Rightarrow>
          rbind (if rest = [] then assert_that (event_last s = Some (ev_addr ev)) (Inr None)
                 else Inr (event_last s)) (\<lambda>last'.
          Inr (ev, s\<lparr>event_queue := rest, event_last := last',
                     event_cnt := (if runtime ev = zero_time then event_cnt s + 1
                                   else event_cnt s)\<rparr>)))"

text \<open>The condition under which the loop looks at the timers. The tick difference is taken in 32
  bits.\<close>

definition poll_due :: "EventState \<Rightarrow> u32 \<Rightarrow> bool" where
  "poll_due s ticks \<longleftrightarrow> event_queue s = [] \<or> event_cnt s \<ge> 100 \<or>
     (event_cnt s \<ge> 1 \<and> ticks - last_tick_count_ms s \<ge> 100)"

text \<open>
  The functions that events call: \<open>run h arg now s\<close> is the state after \<^verbatim>\<open>handler(arg)\<close>.
  One step of \<^verbatim>\<open>run_event_loop\<close> goes from the top of the loop (or from the wait, once it is
  woken up) to the next visit of the top, or into the wait.
\<close>

type_synonym handlers = "nat \<Rightarrow> nat \<Rightarrow> timespec \<Rightarrow> EventState \<Rightarrow> EventState outcome"

definition call_handler :: "handlers \<Rightarrow> event_node \<Rightarrow> timespec \<Rightarrow> EventState \<Rightarrow> EventState outcome" where
  "call_handler run ev now s =
     (case ev_handler ev of
        exit_event_handler \<Rightarrow> run_exit_event_handler s now
      | handler h \<Rightarrow> run h (ev_arg ev) now s)"

definition dispatch_step :: "handlers \<Rightarrow> timespec \<Rightarrow> EventState \<Rightarrow> EventState outcome" where
  "dispatch_step run now s =
     rbind (dispatch_event s) (\<lambda>(ev, s1).
     rbind (call_handler run ev now s1) (\<lambda>s2.
     let s3 = free_event_node s2 ev
     in Inr (s3\<lparr>phase := (if process_events s3 then At_Top else Stopped)\<rparr>)))"

definition wait_round :: "handlers \<Rightarrow> u32 \<Rightarrow> timespec \<Rightarrow> EventState \<Rightarrow> EventState outcome" where
  "wait_round run ticks now s =
     rbind (timer_round s ticks now) (\<lambda>(go, s1).
       if go then dispatch_step run now s1
       else Inr (s1\<lparr>phase := In_Wait, event_cond := False\<rparr>))"

definition run_event_loop_step ::
    "handlers \<Rightarrow> u32 \<Rightarrow> timespec \<Rightarrow> EventState \<Rightarrow> EventState outcome" where
  "run_event_loop_step run ticks now s =
     (case phase s of
        Stopped \<Rightarrow> Inr s
      | In_Wait \<Rightarrow> wait_round run ticks now s
      | At_Top \<Rightarrow>
          if poll_due s ticks then
            let (fq, bgq) = refill_bg (free_queue s) (free_bg_queue s)
            in wait_round run ticks now
                 (s\<lparr>event_cnt := 0, free_queue := fq, free_bg_queue := bgq\<rparr>)
          else dispatch_step run now s)"


section \<open>Time\<close>

definition time_ok :: "timespec \<Rightarrow> bool" where
  "time_ok t \<longleftrightarrow> 0 \<le> tv_sec t \<and> 0 \<le> tv_nsec t \<and> tv_nsec t < 1000000000"

definition time_le :: "timespec \<Rightarrow> timespec \<Rightarrow> bool" where
  "time_le a b \<longleftrightarrow> tv_sec a < tv_sec b \<or> (tv_sec a = tv_sec b \<and> tv_nsec a \<le> tv_nsec b)"

definition nsecs :: "timespec \<Rightarrow> int" where
  "nsecs t = tv_sec t * 1000000000 + tv_nsec t"

lemma time_le_nsecs: "time_ok a \<Longrightarrow> time_ok b \<Longrightarrow> time_le a b \<longleftrightarrow> nsecs a \<le> nsecs b"
  unfolding time_ok_def time_le_def nsecs_def by auto

lemma time_le_trans: "time_le a b \<Longrightarrow> time_le b c \<Longrightarrow> time_le a c"
  by (auto simp: time_le_def)

lemma time_le_total: "time_le a b \<or> time_le b a"
  by (auto simp: time_le_def)

lemma time_cmp_ok:
  assumes "time_ok a" "time_ok b"
  shows "\<exists>c. time_cmp a b = Inr c \<and> (c \<ge> 0 \<longleftrightarrow> time_le b a) \<and> (c \<le> 0 \<longleftrightarrow> time_le a b)"
  using assms by (auto simp: time_cmp_def time_ok_def time_le_def)

lemma time_ok_zero [simp]: "time_ok zero_time"
  by (simp add: time_ok_def)

lemma usec_split: "(x :: int) div 1000000 * 1000000000 + x mod 1000000 * 1000 = x * 1000"
  using div_mult_mod_eq [of x 1000000] by linarith

lemma time_add_usec_ok:
  assumes "time_ok t"
  shows "time_ok (time_add_usec t d)" "nsecs (time_add_usec t d) = nsecs t + uint d * 1000"
proof -
  have "0 \<le> uint d" by simp
  then have m: "0 \<le> uint d mod 1000000" "uint d mod 1000000 < 1000000"
    "0 \<le> uint d div 1000000" by (simp_all add: pos_imp_zdiv_nonneg_iff)
  show "time_ok (time_add_usec t d)"
    using assms m by (auto simp: time_ok_def time_add_usec_def Let_def)
  show "nsecs (time_add_usec t d) = nsecs t + uint d * 1000"
    using usec_split [of "uint d"] by (auto simp: nsecs_def time_add_usec_def Let_def)
qed

section \<open>The timer queue\<close>

definition timers_ok :: "event_node list \<Rightarrow> bool" where
  "timers_ok q \<longleftrightarrow> (\<forall>ev \<in> set q. time_ok (runtime ev)) \<and>
     sorted_wrt (\<lambda>a b. time_le (runtime a) (runtime b)) q"

lemma timers_ok_Cons:
  "timers_ok (ev # q) \<longleftrightarrow> time_ok (runtime ev) \<and> timers_ok q \<and>
     (\<forall>x \<in> set q. time_le (runtime ev) (runtime x))"
  by (auto simp: timers_ok_def)

text \<open>Insertion is stable: the new node goes behind the nodes that are not later.\<close>

lemma timer_insert_spec:
  assumes "timers_ok q" "time_ok (runtime ev)"
  shows "timer_insert ev q = Inr (takeWhile (\<lambda>x. time_le (runtime x) (runtime ev)) q @
    ev # dropWhile (\<lambda>x. time_le (runtime x) (runtime ev)) q)"
  using assms(1)
proof (induction q)
  case Nil
  then show ?case by simp
next
  case (Cons x q)
  then obtain c where "time_cmp (runtime ev) (runtime x) = Inr c"
      "c \<ge> 0 \<longleftrightarrow> time_le (runtime x) (runtime ev)"
    using time_cmp_ok [OF assms(2), of "runtime x"] by (auto simp: timers_ok_Cons)
  with Cons show ?case by (auto simp: timers_ok_Cons)
qed

lemma timers_dropWhile:
  assumes "timers_ok q" "x \<in> set (dropWhile (\<lambda>x. time_le (runtime x) t) q)"
  shows "time_le t (runtime x)"
  using assms
proof (induction q)
  case (Cons y q)
  show ?case
  proof (cases "time_le (runtime y) t")
    case True
    with Cons show ?thesis by (auto simp: timers_ok_Cons)
  next
    case False
    then have "time_le t (runtime y)" using time_le_total by blast
    with Cons.prems False show ?thesis
      by (auto simp: timers_ok_Cons intro: time_le_trans)
  qed
qed simp

lemma timers_ok_insert:
  assumes "timers_ok (a @ b)" "time_ok (runtime ev)"
    "\<forall>x \<in> set a. time_le (runtime x) (runtime ev)" "\<forall>x \<in> set b. time_le (runtime ev) (runtime x)"
  shows "timers_ok (a @ ev # b)"
  using assms by (auto simp: timers_ok_def sorted_wrt_append)

lemma timer_insert_ok:
  assumes "timers_ok q" "time_ok (runtime ev)"
  shows "\<exists>q'. timer_insert ev q = Inr q' \<and> timers_ok q' \<and> (\<exists>a b. q = a @ b \<and> q' = a @ ev # b)"
proof -
  let ?p = "\<lambda>x. time_le (runtime x) (runtime ev)"
  have "\<forall>x \<in> set (dropWhile ?p q). time_le (runtime ev) (runtime x)"
    using timers_dropWhile [OF assms(1)] by blast
  moreover have "\<forall>x \<in> set (takeWhile ?p q). ?p x" by (blast dest: set_takeWhileD)
  ultimately have "timers_ok (takeWhile ?p q @ ev # dropWhile ?p q)"
    using assms by (intro timers_ok_insert) simp_all
  moreover have "q = takeWhile ?p q @ dropWhile ?p q" by simp
  ultimately show ?thesis using timer_insert_spec [OF assms] by (intro exI conjI) (assumption | rule refl)+
qed

lemma due_events_spec:
  assumes "timers_ok q" "time_ok now"
  shows "due_events now q = Inr (filter (\<lambda>x. time_le (runtime x) now) q,
    filter (\<lambda>x. \<not> time_le (runtime x) now) q)"
  using assms(1)
proof (induction q)
  case Nil
  then show ?case by simp
next
  case (Cons x q)
  then obtain c where c: "time_cmp (runtime x) now = Inr c" "c \<le> 0 \<longleftrightarrow> time_le (runtime x) now"
    using time_cmp_ok [OF _ assms(2), of "runtime x"] by (auto simp: timers_ok_Cons)
  show ?case
  proof (cases "time_le (runtime x) now")
    case True
    with c Cons show ?thesis by (auto simp: timers_ok_Cons)
  next
    case False
    have "\<forall>y \<in> set q. \<not> time_le (runtime y) now"
      using False Cons.prems by (auto simp: timers_ok_Cons intro: time_le_trans)
    then have "filter (\<lambda>x. time_le (runtime x) now) q = []"
        "filter (\<lambda>x. \<not> time_le (runtime x) now) q = q"
      by (auto simp: filter_empty_conv filter_id_conv)
    with c False show ?thesis by simp
  qed
qed

section \<open>The invariant\<close>

text \<open>
  \<open>owned held s\<close> lists every node address that is in use: the nodes that event handlers
  hold while they run (\<open>held\<close>), the free lists, the queues and the exit event. The invariant
  says that no address occurs twice, so that no node is on two lists or used after it was freed.
\<close>

definition addrs :: "event_node list \<Rightarrow> nat list" where
  "addrs q = map ev_addr q"

definition owned :: "nat list \<Rightarrow> EventState \<Rightarrow> nat list" where
  "owned held s = held @ free_queue s @ free_bg_queue s @ addrs (event_queue s) @
     addrs (timer_queue s) @ (case exit_event s of None \<Rightarrow> [] | Some a \<Rightarrow> [a])"

definition ev_inv :: "nat list \<Rightarrow> EventState \<Rightarrow> bool" where
  "ev_inv held s \<longleftrightarrow> distinct (owned held s) \<and> (\<forall>a \<in> set (owned held s). a < heap_next s) \<and>
     EVENT_BUF_SIZE \<le> heap_next s \<and> (\<forall>a \<in> set (free_queue s @ free_bg_queue s). a < EVENT_BUF_SIZE) \<and>
     event_last s = (if event_queue s = [] then None else Some (ev_addr (last (event_queue s)))) \<and>
     timers_ok (timer_queue s) \<and> event_cnt s \<le> 100"

text \<open>Moving addresses between the lists keeps the invariant.\<close>

lemma ev_inv_move:
  assumes "ev_inv held s" "mset (owned held' s') = mset (owned held s)" "heap_next s' = heap_next s"
    "\<forall>a \<in> set (free_queue s' @ free_bg_queue s'). a < EVENT_BUF_SIZE"
    "event_last s' = (if event_queue s' = [] then None else Some (ev_addr (last (event_queue s'))))"
    "timers_ok (timer_queue s')" "event_cnt s' \<le> 100"
  shows "ev_inv held' s'"
  using assms mset_eq_setD [OF assms(2)] mset_eq_imp_distinct_iff [OF assms(2)]
  unfolding ev_inv_def by simp

lemmas ev_defs = ev_inv_def owned_def addrs_def

lemma alloc_event_node_inv:
  assumes "ev_inv held s" "alloc_event_node s = (a, s1)"
  shows "ev_inv (a # held) s1" "event_queue s1 = event_queue s" "timer_queue s1 = timer_queue s"
    "cancel_handler s1 = cancel_handler s" "event_last s1 = event_last s" "phase s1 = phase s"
    "process_events s1 = process_events s"
proof -
  show "ev_inv (a # held) s1"
  proof (cases "free_queue s")
    case Nil
    have s1: "a = heap_next s" "s1 = s\<lparr>heap_next := heap_next s + 1\<rparr>"
      using Nil assms(2) by (auto simp: alloc_event_node_def)
    have o: "owned (a # held) s1 = a # owned held s" by (simp add: owned_def s1)
    have "a \<notin> set (owned held s)" using assms(1) s1 by (auto simp: ev_inv_def)
    with assms(1) show ?thesis unfolding ev_inv_def o by (auto simp: s1 less_Suc_eq)
  next
    case (Cons x xs)
    show ?thesis
      by (rule ev_inv_move [OF assms(1)])
        (use assms Cons in \<open>auto simp: alloc_event_node_def ev_defs\<close>)
  qed
qed (use assms in \<open>auto simp: alloc_event_node_def split: list.splits\<close>)

lemma alloc_event_node_bg_inv:
  assumes "ev_inv held s" "alloc_event_node_bg s = (a, s1)"
  shows "ev_inv (a # held) s1" "event_queue s1 = event_queue s" "timer_queue s1 = timer_queue s"
    "cancel_handler s1 = cancel_handler s" "event_last s1 = event_last s" "phase s1 = phase s"
    "process_events s1 = process_events s"
proof -
  show "ev_inv (a # held) s1"
  proof (cases "free_bg_queue s")
    case Nil
    have s1: "a = heap_next s" "s1 = s\<lparr>heap_next := heap_next s + 1\<rparr>"
      using Nil assms(2) by (auto simp: alloc_event_node_bg_def)
    have o: "owned (a # held) s1 = a # owned held s" by (simp add: owned_def s1)
    have "a \<notin> set (owned held s)" using assms(1) s1 by (auto simp: ev_inv_def)
    with assms(1) show ?thesis unfolding ev_inv_def o by (auto simp: s1 less_Suc_eq)
  next
    case (Cons x xs)
    show ?thesis
      by (rule ev_inv_move [OF assms(1)])
        (use assms Cons in \<open>auto simp: alloc_event_node_bg_def ev_defs\<close>)
  qed
qed (use assms in \<open>auto simp: alloc_event_node_bg_def split: list.splits\<close>)

lemma ev_inv_drop: "ev_inv (a # held) s \<Longrightarrow> ev_inv held s"
  by (simp add: ev_inv_def owned_def)

lemma free_event_node_inv:
  assumes "ev_inv (ev_addr ev # held) s"
  shows "ev_inv held (free_event_node s ev)"
proof (cases "ev_addr ev < EVENT_BUF_SIZE")
  case True
  show ?thesis
    by (rule ev_inv_move [OF assms]) (use True assms in \<open>auto simp: free_event_node_def ev_defs\<close>)
next
  case False
  with ev_inv_drop [OF assms] show ?thesis by (simp add: free_event_node_def)
qed

lemma insert_timer_inv:
  assumes "ev_inv (a # held) s" "ev_addr ev = a" "time_ok (runtime ev)"
  shows "\<exists>q. timer_insert ev (timer_queue s) = Inr q \<and> ev_inv held (s\<lparr>timer_queue := q\<rparr>)"
proof -
  obtain q x y where q: "timer_insert ev (timer_queue s) = Inr q" "timers_ok q"
      "timer_queue s = x @ y" "q = x @ ev # y"
    using timer_insert_ok [OF _ assms(3), of "timer_queue s"] assms(1) by (auto simp: ev_inv_def)
  have "ev_inv held (s\<lparr>timer_queue := q\<rparr>)"
    by (rule ev_inv_move [OF assms(1)]) (use assms(1,2) q in \<open>auto simp: ev_defs\<close>)
  with q(1) show ?thesis by blast
qed


section \<open>Every operation keeps the invariant\<close>

text \<open>Besides the invariant, no operation of the loop touches the state of a cancellation.\<close>

definition ev_ok :: "nat list \<Rightarrow> EventState \<Rightarrow> bool" where
  "ev_ok held s \<longleftrightarrow> ev_inv held s \<and> cancel_handler s = None"

lemma ev_inv_event_cond [simp]:
  "ev_inv held (s\<lparr>event_cond := b\<rparr>) = ev_inv held s"
  "ev_inv held (s\<lparr>phase := p\<rparr>) = ev_inv held s"
  "ev_inv held (s\<lparr>process_events := b\<rparr>) = ev_inv held s"
  "ev_inv held (s\<lparr>cancel_handler := c\<rparr>) = ev_inv held s"
  "ev_inv held (s\<lparr>last_tick_count_ms := t\<rparr>) = ev_inv held s"
  by (simp_all add: ev_inv_def owned_def)

lemma post_from_bg_thread_inv:
  assumes "ev_inv held s" "time_ok now"
  shows "\<exists>s'. post_from_bg_thread s now h arg delay = Inr s' \<and> ev_inv held s' \<and>
    event_queue s' = event_queue s \<and> phase s' = phase s \<and>
    (cancel_handler s = None \<longrightarrow> cancel_handler s' = None)"
proof (cases "cancel_handler s = Some h \<and> cancel_arg s = arg")
  case True
  with assms show ?thesis by (simp add: post_from_bg_thread_def)
next
  case False
  obtain a s1 where a: "alloc_event_node_bg s = (a, s1)" by (cases "alloc_event_node_bg s")
  note i = alloc_event_node_bg_inv [OF assms(1) a]
  define ev where "ev = \<lparr>ev_addr = a, runtime = time_add_usec now delay, ev_handler = h, ev_arg = arg\<rparr>"
  obtain q where q: "timer_insert ev (timer_queue s1) = Inr q" "ev_inv held (s1\<lparr>timer_queue := q\<rparr>)"
    using insert_timer_inv [OF i(1), of ev] time_add_usec_ok(1) [OF assms(2)] by (auto simp: ev_def)
  have "ev_inv held (s1\<lparr>timer_queue := q, event_cond := c\<rparr>)" for c
    using q(2) by (simp add: ev_inv_def owned_def)
  with a i q(1) show ?thesis
    unfolding post_from_bg_thread_def Let_def if_not_P [OF False]
    by (simp add: ev_def [symmetric])
qed

lemma post_event_with_delay_inv:
  assumes "ev_inv held s" "time_ok now"
  shows "\<exists>s'. post_event_with_delay s thr now h arg delay = Inr s' \<and> ev_inv held s' \<and>
    event_queue s' = event_queue s \<and> phase s' = phase s \<and>
    (cancel_handler s = None \<longrightarrow> cancel_handler s' = None)"
proof (cases "thr \<and> cancel_handler s = None")
  case False
  with post_from_bg_thread_inv [OF assms] show ?thesis
    unfolding post_event_with_delay_def if_not_P [OF False] by blast
next
  case True
  obtain a s1 where a: "alloc_event_node s = (a, s1)" by (cases "alloc_event_node s")
  note i = alloc_event_node_inv [OF assms(1) a]
  define ev where "ev = \<lparr>ev_addr = a, runtime = time_add_usec now delay, ev_handler = h, ev_arg = arg\<rparr>"
  obtain q where q: "timer_insert ev (timer_queue s1) = Inr q" "ev_inv held (s1\<lparr>timer_queue := q\<rparr>)"
    using insert_timer_inv [OF i(1), of ev] time_add_usec_ok(1) [OF assms(2)] by (auto simp: ev_def)
  with True a i show ?thesis
    by (simp add: post_event_with_delay_def ev_def [symmetric] Let_def)
qed

text \<open>Posting from the event thread appends one node with run time zero.\<close>

lemma post_event_thread:
  assumes "ev_ok held s"
  shows "\<exists>s' a. post_event s True now h arg = Inr s' \<and> ev_ok held s' \<and>
    event_queue s' = event_queue s @
      [\<lparr>ev_addr = a, runtime = zero_time, ev_handler = h, ev_arg = arg\<rparr>] \<and>
    timer_queue s' = timer_queue s \<and> phase s' = phase s"
proof -
  obtain a s1 where a: "alloc_event_node s = (a, s1)" by (cases "alloc_event_node s")
  have inv: "ev_inv held s" and ch: "cancel_handler s = None" using assms by (auto simp: ev_ok_def)
  note i = alloc_event_node_inv [OF inv a]
  define ev where "ev = \<lparr>ev_addr = a, runtime = zero_time, ev_handler = h, ev_arg = arg\<rparr>"
  let ?s = "s1\<lparr>event_queue := event_queue s1 @ [ev], event_last := Some a\<rparr>"
  have "ev_inv held ?s"
    by (rule ev_inv_move [OF i(1)]) (use i(1) in \<open>auto simp: ev_defs ev_def\<close>)
  moreover have "post_event s True now h arg = Inr ?s"
    using i ch inv by (auto simp: post_event_def a ev_def Let_def ev_inv_def)
  ultimately show ?thesis using i ch by (auto simp: ev_ok_def ev_def)
qed

lemma find_event_Some:
  "find_event h arg q = Some (x, ev, y) \<Longrightarrow>
    q = x @ ev # y \<and> ev_handler ev = h \<and> ev_arg ev = arg \<and>
    (\<forall>e \<in> set x. \<not> (ev_handler e = h \<and> ev_arg e = arg))"
  by (induction q arbitrary: x) (auto split: if_splits option.splits)

lemma find_event_None:
  "find_event h arg q = None \<longleftrightarrow> (\<forall>e \<in> set q. \<not> (ev_handler e = h \<and> ev_arg e = arg))"
  by (induction q) (auto split: if_splits option.splits)

lemma timers_ok_remove: "timers_ok (x @ ev # y) \<Longrightarrow> timers_ok (x @ y)"
  by (auto simp: timers_ok_def sorted_wrt_append)

lemma remove_event_inv:
  assumes "ev_inv held s" "event_queue s = x @ ev # y"
    "l = (if y = [] then if x = [] then None else Some (ev_addr (last x)) else event_last s)"
  shows "ev_inv held (free_event_node (s\<lparr>event_queue := x @ y, event_last := l\<rparr>) ev)"
  by (rule free_event_node_inv, rule ev_inv_move [OF assms(1)])
    (use assms in \<open>auto simp: ev_defs\<close>)

lemma remove_timer_inv:
  assumes "ev_inv held s" "timer_queue s = x @ ev # y"
  shows "ev_inv held (free_event_node (s\<lparr>timer_queue := x @ y\<rparr>) ev)"
  by (rule free_event_node_inv, rule ev_inv_move [OF assms(1)])
    (use assms timers_ok_remove in \<open>auto simp: ev_defs\<close>)

lemma free_event_node_queues [simp]:
  "event_queue (free_event_node s ev) = event_queue s"
  "timer_queue (free_event_node s ev) = timer_queue s"
  "cancel_handler (free_event_node s ev) = cancel_handler s"
  "phase (free_event_node s ev) = phase s"
  by (simp_all add: free_event_node_def)

text \<open>What \<^verbatim>\<open>cancel_event\<close> does: it removes the first matching node of the event queue, or
  else of the timer queue.\<close>

lemma cancel_event_spec:
  assumes "ev_ok held s"
  shows "\<exists>r s'. cancel_event s True (Some h) arg wait = Inr (r, s') \<and> ev_inv held s' \<and>
    phase s' = phase s \<and>
    (case find_event h arg (event_queue s) of
       Some (x, ev, y) \<Rightarrow> r = Cancel_Returns True \<and> event_queue s' = x @ y \<and>
         timer_queue s' = timer_queue s \<and> cancel_handler s' = None
     | None \<Rightarrow> event_queue s' = event_queue s \<and>
         (case find_event h arg (timer_queue s) of
            Some (x, ev, y) \<Rightarrow> r = Cancel_Returns True \<and> timer_queue s' = x @ y \<and>
              cancel_handler s' = None
          | None \<Rightarrow> timer_queue s' = timer_queue s \<and>
              (if wait then r = Cancel_Waits \<and> cancel_handler s' = Some h \<and> cancel_arg s' = arg
               else r = Cancel_Returns False \<and> s' = s)))"
proof (cases "find_event h arg (event_queue s)")
  case (Some p)
  obtain x ev y where p: "p = (x, ev, y)" by (cases p)
  from find_event_Some [of h arg "event_queue s" x ev y] Some p
  have q: "event_queue s = x @ ev # y" by simp
  have inv: "ev_inv held s" and ch: "cancel_handler s = None" using assms by (auto simp: ev_ok_def)
  have l: "y = [] \<longrightarrow> event_last s = Some (ev_addr ev)" using inv q by (auto simp: ev_inv_def)
  show ?thesis
    using remove_event_inv [OF inv q refl] Some p ch l
    by (cases "y = []") (simp_all add: cancel_event_def)
next
  case None
  have inv: "ev_inv held s" and ch: "cancel_handler s = None" using assms by (auto simp: ev_ok_def)
  show ?thesis
  proof (cases "find_event h arg (timer_queue s)")
    case (Some p)
    obtain x ev y where p: "p = (x, ev, y)" by (cases p)
    from find_event_Some [of h arg "timer_queue s" x ev y] Some p
    have q: "timer_queue s = x @ ev # y" by simp
    show ?thesis
      using remove_timer_inv [OF inv q] Some None p ch by (auto simp: cancel_event_def)
  next
    case None2: None
    have "ev_inv held (s\<lparr>cancel_handler := Some h, cancel_arg := arg\<rparr>)"
      using inv by (simp add: ev_inv_def owned_def)
    with None2 None ch inv show ?thesis by (auto simp: cancel_event_def)
  qed
qed

lemma exit_event_loop_inv:
  assumes "ev_ok held s"
  shows "ev_ok held (exit_event_loop s)"
proof (cases "exit_event s")
  case None
  with assms show ?thesis by (simp add: exit_event_loop_def)
next
  case (Some a)
  let ?ev = "\<lparr>ev_addr = a, runtime = zero_time, ev_handler = exit_event_handler, ev_arg = 0\<rparr>"
  have "timers_ok (timer_queue s)" using assms by (simp add: ev_ok_def ev_inv_def)
  then have "timers_ok (?ev # timer_queue s)"
    by (auto simp: timers_ok_Cons timers_ok_def time_ok_def time_le_def)
  moreover have inv: "ev_inv held s" using assms by (simp add: ev_ok_def)
  ultimately have "ev_inv held (s\<lparr>timer_queue := ?ev # timer_queue s, exit_event := None,
      event_cond := True\<rparr>)"
    by (intro ev_inv_move [OF inv]) (use inv Some in \<open>auto simp: ev_defs\<close>)
  with Some assms show ?thesis by (simp add: exit_event_loop_def ev_ok_def)
qed

lemma run_exit_event_handler_inv:
  assumes "ev_ok held s"
  shows "\<exists>s'. run_exit_event_handler s now = Inr s' \<and> ev_ok held s'"
  using assms post_event_thread [OF assms, of now exit_event_handler 0]
  by (auto simp: run_exit_event_handler_def ev_ok_def)

lemma refill_bg_spec:
  "refill_bg fq bgq = (fq', bgq') \<Longrightarrow> mset (fq' @ bgq') = mset (fq @ bgq)"
proof (induction fq bgq rule: refill_bg.induct)
  case (1 fq bgq)
  show ?case
  proof (cases "fq \<noteq> [] \<and> (bgq = [] \<or> tl bgq = [])")
    case True
    then have "refill_bg (tl fq) (hd fq # bgq) = (fq', bgq')"
      using "1.prems" by (subst (asm) refill_bg.simps) simp
    with "1.IH" [OF True] True show ?thesis by (cases fq) simp_all
  next
    case False
    have "refill_bg fq bgq = (fq, bgq)" by (simp only: refill_bg.simps [of fq bgq] if_not_P [OF False])
    with "1.prems" show ?thesis by simp
  qed
qed

lemma image_mset_parts:
  "image_mset f {#x \<in># M. P x#} + image_mset f {#x \<in># M. \<not> P x#} = image_mset f M"
  by (metis image_mset_union multiset_partition)

text \<open>One pass over the timers moves the due ones, in their order, to the front of the event
  queue; it leaves the loop exactly if there is an event to dispatch.\<close>

lemma timer_round_spec:
  assumes "ev_ok held s" "time_ok now"
  shows "\<exists>s'. timer_round s ticks now = Inr (event_queue s' \<noteq> [], s') \<and> ev_ok held s' \<and>
    event_queue s' = filter (\<lambda>x. time_le (runtime x) now) (timer_queue s) @ event_queue s \<and>
    timer_queue s' = filter (\<lambda>x. \<not> time_le (runtime x) now) (timer_queue s) \<and>
    process_events s' = process_events s \<and> event_cnt s' = event_cnt s \<and> phase s' = phase s"
proof -
  let ?due = "filter (\<lambda>x. time_le (runtime x) now) (timer_queue s)"
  let ?later = "filter (\<lambda>x. \<not> time_le (runtime x) now) (timer_queue s)"
  let ?s = "s\<lparr>last_tick_count_ms := ticks\<rparr>"
  have inv: "ev_inv held s" and t: "timers_ok (timer_queue s)"
    using assms by (auto simp: ev_ok_def ev_inv_def)
  note due = due_events_spec [OF t assms(2)]
  show ?thesis
  proof (cases "?due = []")
    case True
    have "filter (\<lambda>x. \<not> time_le (runtime x) now) (timer_queue s) = timer_queue s"
      using True by (auto simp: filter_empty_conv filter_id_conv)
    with True due assms(1) show ?thesis
      by (intro exI [of _ ?s]) (auto simp: timer_round_def ev_ok_def Let_def)
  next
    case False
    define l where "l = (if event_queue s = [] then Some (ev_addr (last ?due)) else event_last s)"
    let ?s' = "?s\<lparr>timer_queue := ?later, event_queue := ?due @ event_queue s, event_last := l\<rparr>"
    have "timers_ok ?later" using t by (auto simp: timers_ok_def sorted_wrt_filter)
    then have "ev_inv held ?s'"
      using inv False
      by (intro ev_inv_move [OF inv]) (auto simp: ev_defs l_def image_mset_parts)
    moreover have "timer_round s ticks now = Inr (True, ?s')"
      using False due inv by (auto simp: timer_round_def Let_def l_def ev_inv_def)
    ultimately show ?thesis using False assms(1) by (intro exI [of _ ?s']) (simp add: ev_ok_def)
  qed
qed


lemma dispatch_event_spec:
  assumes "ev_ok held s" "event_queue s = ev # rest" "event_cnt s < 100"
  shows "\<exists>s'. dispatch_event s = Inr (ev, s') \<and> ev_ok (ev_addr ev # held) s' \<and>
    event_queue s' = rest \<and> timer_queue s' = timer_queue s \<and> process_events s' = process_events s"
proof -
  define l where "l = (if rest = [] then None else event_last s)"
  define n where "n = (if runtime ev = zero_time then event_cnt s + 1 else event_cnt s)"
  let ?s = "s\<lparr>event_queue := rest, event_last := l, event_cnt := n\<rparr>"
  have inv: "ev_inv held s" using assms by (simp add: ev_ok_def)
  have "ev_inv (ev_addr ev # held) ?s"
    by (rule ev_inv_move [OF inv]) (use inv assms(2,3) in \<open>auto simp: ev_defs l_def n_def\<close>)
  moreover have "dispatch_event s = Inr (ev, ?s)"
    using inv assms(2) by (simp add: dispatch_event_def l_def n_def ev_inv_def)
  ultimately show ?thesis using assms by (auto simp: ev_ok_def)
qed

text \<open>A family of handlers is well-behaved if each of them returns and keeps the invariant,
  whatever nodes are held.\<close>

definition handlers_ok :: "handlers \<Rightarrow> bool" where
  "handlers_ok run \<longleftrightarrow> (\<forall>h arg now held s. time_ok now \<longrightarrow> ev_ok held s \<longrightarrow>
     (\<exists>s'. run h arg now s = Inr s' \<and> ev_ok held s'))"

lemma call_handler_ok:
  "handlers_ok run \<Longrightarrow> time_ok now \<Longrightarrow> ev_ok held s \<Longrightarrow>
    \<exists>s'. call_handler run ev now s = Inr s' \<and> ev_ok held s'"
  using run_exit_event_handler_inv [of held s now]
  by (cases "ev_handler ev") (auto simp: call_handler_def handlers_ok_def)

lemma ev_ok_phase [simp]: "ev_ok held (s\<lparr>phase := p\<rparr>) = ev_ok held s"
  by (simp add: ev_ok_def)

lemma dispatch_step_ok:
  assumes "handlers_ok run" "time_ok now" "ev_ok [] s" "event_queue s \<noteq> []" "event_cnt s < 100"
  shows "\<exists>s'. dispatch_step run now s = Inr s' \<and> ev_ok [] s'"
proof -
  obtain ev rest where q: "event_queue s = ev # rest" using assms(4) by (cases "event_queue s") auto
  obtain s1 where s1: "dispatch_event s = Inr (ev, s1)" "ev_ok [ev_addr ev] s1"
    using dispatch_event_spec [OF assms(3) q assms(5)] by auto
  obtain s2 where s2: "call_handler run ev now s1 = Inr s2" "ev_ok [ev_addr ev] s2"
    using call_handler_ok [OF assms(1,2) s1(2)] by blast
  have "ev_ok [] (free_event_node s2 ev)"
    using s2(2) free_event_node_inv [of ev "[]" s2] by (simp add: ev_ok_def)
  with s1 s2 show ?thesis by (simp add: dispatch_step_def Let_def)
qed

lemma wait_round_ok:
  assumes "handlers_ok run" "time_ok now" "ev_ok [] s" "event_cnt s = 0"
  shows "\<exists>s'. wait_round run ticks now s = Inr s' \<and> ev_ok [] s'"
proof -
  obtain s1 where s1: "timer_round s ticks now = Inr (event_queue s1 \<noteq> [], s1)" "ev_ok [] s1"
      "event_cnt s1 = 0"
    using timer_round_spec [OF assms(3,2), of ticks] assms(4) by auto
  show ?thesis
  proof (cases "event_queue s1 = []")
    case True
    have "ev_ok [] (s1\<lparr>phase := In_Wait, event_cond := False\<rparr>)" using s1(2) by (simp add: ev_ok_def)
    with True s1 show ?thesis by (simp add: wait_round_def)
  next
    case False
    with dispatch_step_ok [OF assms(1,2) s1(2)] s1 show ?thesis by (simp add: wait_round_def)
  qed
qed


definition loop_ok :: "EventState \<Rightarrow> bool" where
  "loop_ok s \<longleftrightarrow> ev_ok [] s \<and> (phase s = In_Wait \<longrightarrow> event_cnt s = 0)"

lemma dispatch_step_phase: "dispatch_step run now s = Inr s' \<Longrightarrow> phase s' \<noteq> In_Wait"
  by (auto simp: dispatch_step_def Let_def outcome_simps split: prod.splits if_splits)

lemma wait_round_phase:
  assumes "wait_round run ticks now s = Inr s'" "phase s' = In_Wait" "event_cnt s = 0"
  shows "event_cnt s' = 0"
  using assms dispatch_step_phase
  by (auto simp: wait_round_def timer_round_def Let_def outcome_simps
      split: prod.splits if_splits)

lemma run_event_loop_step_ok:
  assumes "handlers_ok run" "time_ok now" "loop_ok s"
  shows "\<exists>s'. run_event_loop_step run ticks now s = Inr s' \<and> loop_ok s'"
proof (cases "phase s")
  case Stopped
  with assms show ?thesis by (simp add: run_event_loop_step_def)
next
  case In_Wait
  with wait_round_ok [OF assms(1,2), of s ticks] wait_round_phase [of run ticks now s] assms(3)
  show ?thesis by (auto simp: run_event_loop_step_def loop_ok_def)
next
  case At_Top
  show ?thesis
  proof (cases "poll_due s ticks")
    case False
    with dispatch_step_ok [OF assms(1,2), of s] dispatch_step_phase [of run now s] assms(3) At_Top
    show ?thesis by (auto simp: run_event_loop_step_def loop_ok_def poll_due_def)
  next
    case True
    obtain fq bgq where r: "refill_bg (free_queue s) (free_bg_queue s) = (fq, bgq)"
      by (cases "refill_bg (free_queue s) (free_bg_queue s)")
    let ?s = "s\<lparr>event_cnt := 0, free_queue := fq, free_bg_queue := bgq\<rparr>"
    have inv: "ev_inv [] s" using assms(3) by (simp add: loop_ok_def ev_ok_def)
    have m: "mset (fq @ bgq) = mset (free_queue s @ free_bg_queue s)"
      using refill_bg_spec [OF r] .
    have m': "mset fq + mset bgq = mset (free_queue s) + mset (free_bg_queue s)"
      using m by simp
    have b: "\<forall>a \<in> set (fq @ bgq). a < EVENT_BUF_SIZE"
      unfolding mset_eq_setD [OF m] using inv by (auto simp: ev_inv_def)
    have "ev_inv [] ?s"
      by (rule ev_inv_move [OF inv])
        (use inv b m' in \<open>auto simp: ev_defs add.assoc [symmetric]\<close>)
    then have "ev_ok [] ?s" using assms(3) by (simp add: loop_ok_def ev_ok_def)
    with wait_round_ok [OF assms(1,2) this, of ticks] wait_round_phase [of run ticks now ?s]
      True At_Top r
    show ?thesis by (auto simp: run_event_loop_step_def loop_ok_def)
  qed
qed

section \<open>The event system as a whole\<close>

text \<open>
  Handlers that call the event system themselves: each handler and argument stands for a list of
  calls. The rest of the world runs the loop, posts events from background threads, and asks the
  loop to exit.
\<close>

datatype ev_op =
    Op_Post nat nat
  | Op_Delay nat nat u64
  | Op_Cancel nat nat
  | Op_Exit
  | Op_Stop

fun run_op :: "timespec \<Rightarrow> ev_op \<Rightarrow> EventState \<Rightarrow> EventState outcome" where
  "run_op now (Op_Post h arg) s = post_event s True now (handler h) arg"
| "run_op now (Op_Delay h arg d) s = post_event_with_delay s True now (handler h) arg d"
| "run_op now (Op_Cancel h arg) s =
     rbind (cancel_event s True (Some (handler h)) arg False) (\<lambda>(r, s'). Inr s')"
| "run_op now Op_Exit s = Inr (exit_event_loop s)"
| "run_op now Op_Stop s = Inr (cancel_event_loop s)"

fun run_ops :: "timespec \<Rightarrow> ev_op list \<Rightarrow> EventState \<Rightarrow> EventState outcome" where
  "run_ops now [] s = Inr s"
| "run_ops now (op # ops) s = rbind (run_op now op s) (run_ops now ops)"

definition script_handlers :: "(nat \<Rightarrow> nat \<Rightarrow> ev_op list) \<Rightarrow> handlers" where
  "script_handlers prog h arg now s = run_ops now (prog h arg) s"

datatype ev_env =
    Env_Loop u32 timespec
  | Env_Bg_Post timespec nat nat u64
  | Env_Exit

fun env_step :: "handlers \<Rightarrow> ev_env \<Rightarrow> EventState \<Rightarrow> EventState outcome" where
  "env_step run (Env_Loop ticks now) s = run_event_loop_step run ticks now s"
| "env_step run (Env_Bg_Post now h arg d) s = post_event_with_delay s False now (handler h) arg d"
| "env_step run Env_Exit s = Inr (exit_event_loop s)"

fun env_run :: "handlers \<Rightarrow> ev_env list \<Rightarrow> EventState \<Rightarrow> EventState outcome" where
  "env_run run [] s = Inr s"
| "env_run run (e # es) s = rbind (env_step run e s) (env_run run es)"

fun clock_ok :: "ev_env \<Rightarrow> bool" where
  "clock_ok (Env_Loop ticks now) = time_ok now"
| "clock_ok (Env_Bg_Post now h arg d) = time_ok now"
| "clock_ok Env_Exit = True"

lemma run_op_ok:
  assumes "ev_ok held s" "time_ok now"
  shows "\<exists>s'. run_op now op s = Inr s' \<and> ev_ok held s'"
proof (cases op)
  case (Op_Post h arg)
  with post_event_thread [OF assms(1)] show ?thesis by force
next
  case (Op_Delay h arg d)
  with post_event_with_delay_inv [of held s now True "handler h" arg d] assms show ?thesis
    by (auto simp: ev_ok_def)
next
  case (Op_Cancel h arg)
  with cancel_event_spec [OF assms(1), of "handler h" arg False] assms(1) show ?thesis
    by (auto simp: ev_ok_def split: option.splits)
next
  case Op_Exit
  with exit_event_loop_inv [OF assms(1)] show ?thesis by simp
next
  case Op_Stop
  with assms(1) show ?thesis by (simp add: cancel_event_loop_def ev_ok_def)
qed

lemma run_ops_ok:
  "ev_ok held s \<Longrightarrow> time_ok now \<Longrightarrow> \<exists>s'. run_ops now ops s = Inr s' \<and> ev_ok held s'"
proof (induction ops arbitrary: s)
  case (Cons op ops)
  obtain s1 where s1: "run_op now op s = Inr s1" "ev_ok held s1"
    using run_op_ok [OF Cons.prems] by blast
  with Cons.IH [OF s1(2) Cons.prems(2)] show ?case by simp
qed simp

lemma script_handlers_ok: "handlers_ok (script_handlers prog)"
  using run_ops_ok by (simp add: handlers_ok_def script_handlers_def)

lemma exit_event_loop_phase [simp]:
  "phase (exit_event_loop s) = phase s" "event_cnt (exit_event_loop s) = event_cnt s"
  by (simp_all add: exit_event_loop_def split: option.split)

lemma post_bg_phase:
  "post_event_with_delay s False now h arg d = Inr s' \<Longrightarrow> event_cnt s' = event_cnt s"
  by (auto simp: post_event_with_delay_def post_from_bg_thread_def Let_def alloc_event_node_bg_def
      outcome_simps split: if_splits prod.splits list.splits)

lemma env_step_ok:
  assumes "handlers_ok run" "loop_ok s" "clock_ok e"
  shows "\<exists>s'. env_step run e s = Inr s' \<and> loop_ok s'"
proof (cases e)
  case (Env_Loop ticks now)
  with run_event_loop_step_ok [OF assms(1) _ assms(2)] assms(3) show ?thesis by simp
next
  case (Env_Bg_Post now h arg d)
  then obtain s' where "post_event_with_delay s False now (handler h) arg d = Inr s'"
      "ev_inv [] s'" "phase s' = phase s" "cancel_handler s' = None"
    using post_event_with_delay_inv [of "[]" s now False "handler h" arg d] assms
    by (auto simp: loop_ok_def ev_ok_def)
  with post_bg_phase assms(2) Env_Bg_Post show ?thesis by (auto simp: loop_ok_def ev_ok_def)
next
  case Env_Exit
  with exit_event_loop_inv [of "[]" s] assms(2) show ?thesis by (auto simp: loop_ok_def)
qed

lemma env_run_ok:
  "handlers_ok run \<Longrightarrow> loop_ok s \<Longrightarrow> list_all clock_ok es \<Longrightarrow>
    \<exists>s'. env_run run es s = Inr s' \<and> loop_ok s'"
proof (induction es arbitrary: s)
  case (Cons e es)
  obtain s1 where s1: "env_step run e s = Inr s1" "loop_ok s1"
    using env_step_ok [OF Cons.prems(1,2), of e] Cons.prems(3) by auto
  with Cons.IH [OF Cons.prems(1) s1(2)] Cons.prems(3) show ?case by simp
qed simp

lemma ini_ev_inv: "ev_inv [] ini_events_queue"
proof -
  have "owned [] ini_events_queue = rev [0..<EVENT_BUF_SIZE] @ [EVENT_BUF_SIZE]"
    by (simp only: owned_def addrs_def ini_events_queue_def EventState.simps list.map append.simps
        option.simps)
  moreover have "distinct (rev [0..<EVENT_BUF_SIZE] @ [EVENT_BUF_SIZE])" by simp
  ultimately show ?thesis unfolding ev_inv_def
    by (simp add: ini_events_queue_def timers_ok_def)
qed

lemma ini_loop_ok: "loop_ok (enter_event_loop ini_events_queue ticks)"
  using ini_ev_inv
  by (simp add: loop_ok_def ev_ok_def enter_event_loop_def ev_inv_def owned_def)
    (simp add: ini_events_queue_def)


text \<open>Posting a list of events from the event thread, and dispatching a number of them.\<close>

fun post_all :: "timespec \<Rightarrow> (EventCallBack \<times> nat) list \<Rightarrow> EventState \<Rightarrow> EventState outcome" where
  "post_all now [] s = Inr s"
| "post_all now ((h, arg) # es) s = rbind (post_event s True now h arg) (post_all now es)"

fun dispatch_all :: "nat \<Rightarrow> EventState \<Rightarrow> ((EventCallBack \<times> nat) list \<times> EventState) outcome" where
  "dispatch_all 0 s = Inr ([], s)"
| "dispatch_all (Suc n) s =
     rbind (dispatch_event s) (\<lambda>(ev, s1).
     rbind (dispatch_all n (free_event_node (s1\<lparr>event_cnt := 0\<rparr>) ev)) (\<lambda>(es, s2).
     Inr ((ev_handler ev, ev_arg ev) # es, s2)))"

definition calls :: "event_node list \<Rightarrow> (EventCallBack \<times> nat) list" where
  "calls q = map (\<lambda>ev. (ev_handler ev, ev_arg ev)) q"

lemma post_all_spec:
  "ev_ok held s \<Longrightarrow> \<exists>s'. post_all now es s = Inr s' \<and> ev_ok held s' \<and>
    calls (event_queue s') = calls (event_queue s) @ es"
proof (induction es arbitrary: s)
  case (Cons e es)
  obtain h arg where e: "e = (h, arg)" by (cases e)
  obtain s1 where s1: "post_event s True now h arg = Inr s1" "ev_ok held s1"
      "calls (event_queue s1) = calls (event_queue s) @ [(h, arg)]"
    using post_event_thread [OF Cons.prems, of now h arg] by (auto simp: calls_def)
  from Cons.IH [OF s1(2)] s1 e show ?case by auto
qed simp

lemma dispatch_all_spec:
  "ev_ok [] s \<Longrightarrow> n = length (event_queue s) \<Longrightarrow> event_cnt s = 0 \<Longrightarrow>
    \<exists>s'. dispatch_all n s = Inr (calls (event_queue s), s') \<and> event_queue s' = []"
proof (induction n arbitrary: s)
  case 0
  then show ?case by (simp add: calls_def)
next
  case (Suc n)
  then obtain ev rest where q: "event_queue s = ev # rest" by (cases "event_queue s") auto
  obtain s1 where s1: "dispatch_event s = Inr (ev, s1)" "ev_ok [ev_addr ev] s1"
      "event_queue s1 = rest"
    using dispatch_event_spec [OF Suc.prems(1) q] Suc.prems(3) by auto
  let ?s = "free_event_node (s1\<lparr>event_cnt := 0\<rparr>) ev"
  have "ev_ok [ev_addr ev] (s1\<lparr>event_cnt := 0\<rparr>)"
    using s1(2) by (simp add: ev_ok_def ev_inv_def owned_def)
  then have "ev_ok [] ?s" using free_event_node_inv [of ev "[]"] by (simp add: ev_ok_def)
  moreover have "event_cnt ?s = 0" by (simp add: free_event_node_def)
  ultimately show ?case
    using Suc.IH [of ?s] s1 q Suc.prems(2) by (auto simp: calls_def)
qed

section \<open>Properties\<close>

text \<open>C10: The event system never fails: started from its initial state, with handlers that post
  events, post delayed events, cancel events and stop the loop in any way they like, and with
  background threads that post events at any moment, no assertion of the code is violated and no
  node is dereferenced that is not there. The invariant holds throughout: every node is on one
  list only, free nodes come from the static array, the timer queue is ordered, and
  \<open>event_last\<close> points to the last event.\<close>

theorem event_system_never_fails:
  assumes "list_all clock_ok es"
  shows "\<exists>s'. env_run (script_handlers prog) es (enter_event_loop ini_events_queue ticks) = Inr s' \<and>
    ev_inv [] s'"
  using env_run_ok [OF script_handlers_ok ini_loop_ok assms, of prog ticks]
  by (auto simp: loop_ok_def ev_ok_def)

theorem event_system_never_fails_witness:
  "\<exists>s'. env_run (script_handlers (\<lambda>h arg. if h = 0 then [Op_Post 1 arg, Op_Exit] else []))
      [Env_Bg_Post \<lparr>tv_sec = 5, tv_nsec = 7\<rparr> 0 4 10, Env_Loop 3 \<lparr>tv_sec = 6, tv_nsec = 0\<rparr>,
       Env_Loop 3 \<lparr>tv_sec = 6, tv_nsec = 0\<rparr>]
      (enter_event_loop ini_events_queue 0) = Inr s' \<and> ev_inv [] s'"
  by (rule event_system_never_fails) (simp add: time_ok_def)

text \<open>Events posted by the event thread are dispatched first in, first out: after any list of
  calls of \<open>post_event\<close>, the dispatcher runs the handlers that were queued before and then the
  posted ones, each with its argument, in the order of posting.\<close>

theorem post_event_fifo:
  assumes "ev_ok [] s"
  shows "\<exists>s1 s2. post_all now es s = Inr s1 \<and>
    dispatch_all (length (event_queue s) + length es) (s1\<lparr>event_cnt := 0\<rparr>) =
      Inr (calls (event_queue s) @ es, s2) \<and> event_queue s2 = []"
proof -
  obtain s1 where s1: "post_all now es s = Inr s1" "ev_ok [] s1"
      "calls (event_queue s1) = calls (event_queue s) @ es"
    using post_all_spec [OF assms] by blast
  have l: "length (event_queue s1) = length (event_queue s) + length es"
    using arg_cong [OF s1(3), of length] by (simp add: calls_def)
  have "ev_ok [] (s1\<lparr>event_cnt := 0\<rparr>)" using s1(2) by (simp add: ev_ok_def ev_inv_def owned_def)
  from dispatch_all_spec [OF this, of "length (event_queue s) + length es"] s1 l show ?thesis
    by auto
qed

theorem post_event_fifo_witness:
  "ev_ok [] ini_events_queue \<and> (\<exists>s1 s2.
     post_all zero_time [(handler 1, 10), (handler 2, 20)] ini_events_queue = Inr s1 \<and>
     dispatch_all 2 (s1\<lparr>event_cnt := 0\<rparr>) = Inr ([(handler 1, 10), (handler 2, 20)], s2))"
proof -
  have "ev_ok [] ini_events_queue" using ini_ev_inv by (simp add: ev_ok_def ini_events_queue_def)
  moreover have "event_queue ini_events_queue = []" by (simp add: ini_events_queue_def)
  ultimately show ?thesis
    using post_event_fifo [of ini_events_queue zero_time "[(handler 1, 10), (handler 2, 20)]"]
    by (auto simp: calls_def numeral_2_eq_2)
qed

text \<open>C31: A delayed event is due exactly \<open>delay\<close> microseconds after it was posted, and it is
  queued behind the events that are due at the same time or earlier and before the later ones; the
  order of the others does not change.\<close>

theorem post_event_with_delay_order:
  assumes "ev_ok held s" "time_ok now"
  shows "\<exists>s' ev. post_event_with_delay s True now h arg delay = Inr s' \<and>
    timer_queue s' = takeWhile (\<lambda>x. time_le (runtime x) (runtime ev)) (timer_queue s) @
      ev # dropWhile (\<lambda>x. time_le (runtime x) (runtime ev)) (timer_queue s) \<and>
    nsecs (runtime ev) = nsecs now + uint delay * 1000 \<and> ev_handler ev = h \<and> ev_arg ev = arg \<and>
    sorted_wrt (\<lambda>a b. nsecs (runtime a) \<le> nsecs (runtime b)) (timer_queue s') \<and>
    event_queue s' = event_queue s"
proof -
  obtain a s1 where a: "alloc_event_node s = (a, s1)" by (cases "alloc_event_node s")
  have inv: "ev_inv held s" and ch: "cancel_handler s = None" using assms by (auto simp: ev_ok_def)
  note i = alloc_event_node_inv [OF inv a]
  define ev where "ev = \<lparr>ev_addr = a, runtime = time_add_usec now delay, ev_handler = h, ev_arg = arg\<rparr>"
  have t: "timers_ok (timer_queue s)" "time_ok (runtime ev)"
    using inv time_add_usec_ok(1) [OF assms(2)] by (auto simp: ev_inv_def ev_def)
  let ?q = "takeWhile (\<lambda>x. time_le (runtime x) (runtime ev)) (timer_queue s) @
      ev # dropWhile (\<lambda>x. time_le (runtime x) (runtime ev)) (timer_queue s)"
  have q: "timer_insert ev (timer_queue s) = Inr ?q" by (rule timer_insert_spec [OF t])
  then have "timers_ok ?q" using timer_insert_ok [OF t] by auto
  then have "sorted_wrt (\<lambda>a b. nsecs (runtime a) \<le> nsecs (runtime b)) ?q"
    unfolding timers_ok_def by (metis (no_types, lifting) sorted_wrt_mono_rel time_le_nsecs)
  moreover have "post_event_with_delay s True now h arg delay = Inr (s1\<lparr>timer_queue := ?q\<rparr>)"
    using q i ch by (simp add: post_event_with_delay_def a ev_def [symmetric] Let_def)
  ultimately show ?thesis
    using time_add_usec_ok(2) [OF assms(2), of delay] i
    by (intro exI [of _ "s1\<lparr>timer_queue := ?q\<rparr>"] exI [of _ ev]) (simp add: ev_def)
qed

theorem post_event_with_delay_order_witness:
  "\<exists>s' ev. post_event_with_delay ini_events_queue True \<lparr>tv_sec = 1, tv_nsec = 999999999\<rparr>
      (handler 1) 2 1 = Inr s' \<and> timer_queue s' = [ev] \<and> nsecs (runtime ev) = 2000000999"
proof -
  have "ev_ok [] ini_events_queue" using ini_ev_inv by (simp add: ev_ok_def ini_events_queue_def)
  moreover have "timer_queue ini_events_queue = []" by (simp add: ini_events_queue_def)
  ultimately show ?thesis
    using post_event_with_delay_order [of "[]" ini_events_queue "\<lparr>tv_sec = 1, tv_nsec = 999999999\<rparr>"
        "handler 1" 2 1] by (auto simp: time_ok_def nsecs_def)
qed

text \<open>When the loop looks at the timers it moves exactly the events whose time has come, in
  the order of their times, in front of the events that were posted without delay, and it goes on
  to dispatch exactly if there is an event.\<close>

theorem timer_round_moves_due_events:
  assumes "ev_ok held s" "time_ok now"
  shows "\<exists>s'. timer_round s ticks now = Inr (event_queue s' \<noteq> [], s') \<and>
    event_queue s' = filter (\<lambda>x. nsecs (runtime x) \<le> nsecs now) (timer_queue s) @ event_queue s \<and>
    timer_queue s' = filter (\<lambda>x. nsecs now < nsecs (runtime x)) (timer_queue s)"
proof -
  have e: "\<forall>x \<in> set (timer_queue s). time_le (runtime x) now \<longleftrightarrow> nsecs (runtime x) \<le> nsecs now"
    using assms by (auto simp: ev_ok_def ev_inv_def timers_ok_def time_le_nsecs)
  have "filter (\<lambda>x. time_le (runtime x) now) (timer_queue s) =
      filter (\<lambda>x. nsecs (runtime x) \<le> nsecs now) (timer_queue s)"
    "filter (\<lambda>x. \<not> time_le (runtime x) now) (timer_queue s) =
      filter (\<lambda>x. nsecs now < nsecs (runtime x)) (timer_queue s)"
    using e by (auto intro: filter_cong)
  with timer_round_spec [OF assms, of ticks] show ?thesis by auto
qed

theorem timer_round_moves_due_events_witness:
  "\<exists>s'. timer_round ini_events_queue 0 zero_time = Inr (False, s') \<and> event_queue s' = []"
proof -
  have "ev_ok [] ini_events_queue" using ini_ev_inv by (simp add: ev_ok_def ini_events_queue_def)
  moreover have "timer_queue ini_events_queue = []" "event_queue ini_events_queue = []"
    by (simp_all add: ini_events_queue_def)
  ultimately show ?thesis
    using timer_round_moves_due_events [of "[]" ini_events_queue zero_time 0] by auto
qed

text \<open>Cancelling removes one event: the first pending one for the handler and argument, in
  the event queue if there is one there, otherwise in the timer queue; the result tells whether
  there was one, and all other events stay queued in their order.\<close>

theorem cancel_event_removes_first:
  assumes "ev_ok held s"
  shows "\<exists>r s'. cancel_event s True (Some h) arg False = Inr (Cancel_Returns r, s') \<and> ev_ok held s' \<and>
    (r \<longleftrightarrow> (h, arg) \<in> set (calls (event_queue s @ timer_queue s))) \<and>
    calls (event_queue s') @ calls (timer_queue s') =
      remove1 (h, arg) (calls (event_queue s) @ calls (timer_queue s))"
proof -
  have c: "ev_handler ev = h \<and> ev_arg ev = arg \<and> (h, arg) \<notin> set (calls x)"
    if "find_event h arg q = Some (x, ev, y)" for q x ev y
    using find_event_Some [OF that] by (auto simp: calls_def)
  have n: "(h, arg) \<notin> set (calls q)" if "find_event h arg q = None" for q
    using that by (auto simp: find_event_None calls_def)
  have a: "calls (x @ y) = calls x @ calls y" "calls (ev # y) = (ev_handler ev, ev_arg ev) # calls y"
    for x y ev by (simp_all add: calls_def)
  obtain r s' where r: "cancel_event s True (Some h) arg False = Inr (r, s')" "ev_inv held s'"
    and cs: "case find_event h arg (event_queue s) of
       Some (x, ev, y) \<Rightarrow> r = Cancel_Returns True \<and> event_queue s' = x @ y \<and>
         timer_queue s' = timer_queue s \<and> cancel_handler s' = None
     | None \<Rightarrow> event_queue s' = event_queue s \<and>
         (case find_event h arg (timer_queue s) of
            Some (x, ev, y) \<Rightarrow> r = Cancel_Returns True \<and> timer_queue s' = x @ y \<and>
              cancel_handler s' = None
          | None \<Rightarrow> timer_queue s' = timer_queue s \<and> r = Cancel_Returns False \<and> s' = s)"
    using cancel_event_spec [OF assms, of h arg False] unfolding if_False by blast
  have q: "q = x @ ev # y" if "find_event h arg q = Some (x, ev, y)" for q x ev y
    using find_event_Some [OF that] by blast
  show ?thesis
  proof (cases "find_event h arg (event_queue s)")
    case (Some p)
    obtain x ev y where p: "p = (x, ev, y)" by (cases p)
    from c [of "event_queue s" x ev y] q [of "event_queue s" x ev y] Some p cs r assms show ?thesis
      by (intro exI [of _ True] exI [of _ s']) (simp add: a remove1_append ev_ok_def)
  next
    case None
    show ?thesis
    proof (cases "find_event h arg (timer_queue s)")
      case (Some p)
      obtain x ev y where p: "p = (x, ev, y)" by (cases p)
      from c [of "timer_queue s" x ev y] q [of "timer_queue s" x ev y] n [OF None] None Some p cs r assms
      show ?thesis by (intro exI [of _ True] exI [of _ s']) (simp add: a remove1_append ev_ok_def)
    next
      case None2: None
      from n [OF None] n [OF None2] None None2 cs r assms show ?thesis
        by (intro exI [of _ False] exI [of _ s']) (simp add: a remove1_append remove1_idem ev_ok_def)
    qed
  qed
qed

theorem cancel_event_removes_first_witness:
  "\<exists>r s'. cancel_event ini_events_queue True (Some (handler 3)) 4 False =
     Inr (Cancel_Returns r, s') \<and> \<not> r"
proof -
  have "ev_ok [] ini_events_queue" using ini_ev_inv by (simp add: ev_ok_def ini_events_queue_def)
  moreover have "timer_queue ini_events_queue = []" "event_queue ini_events_queue = []"
    by (simp_all add: ini_events_queue_def)
  ultimately show ?thesis
    using cancel_event_removes_first [of "[]" ini_events_queue "handler 3" 4]
    by (auto simp: calls_def)
qed

end
