(* ===== verification/Leb128.thy ===== *)
theory Leb128
  imports Prelude
begin

text \<open>
  LEB128 numbers, which the location expression machine (\<^verbatim>\<open>services/vm.c\<close>) and the reader of
  debug information (\<^verbatim>\<open>services/dwarfio.c\<close>) have loops for: the encodings, and the contract of a loop that
  decodes them. A loop has the shift count and the bits so far; what it reads from and
  what it returns differs.
\<close>

section \<open>Encodings\<close>

fun uleb :: "nat \<Rightarrow> byte list" where
  "uleb n = (if n < 128 then [word_of_nat n]
             else word_of_nat (128 + n mod 128) # uleb (n div 128))"

declare uleb.simps [simp del]

function sleb :: "int \<Rightarrow> byte list" where
  "sleb n = (if - 64 \<le> n \<and> n < 64 then [word_of_int (n mod 128)]
             else word_of_int (128 + n mod 128) # sleb (n div 128))"
  by pat_completeness auto
termination
  by (relation "measure (\<lambda>n. nat \<bar>n\<bar>)") auto

declare sleb.simps [simp del]

lemma uleb_bytes:
  "n < 128 \<Longrightarrow> uleb n = [word_of_nat n]"
  "\<not> n < 128 \<Longrightarrow> uleb n = word_of_nat (128 + n mod 128) # uleb (n div 128)"
  by (simp_all add: uleb.simps [of n])

lemma sleb_bytes:
  "- 64 \<le> n \<Longrightarrow> n < 64 \<Longrightarrow> sleb n = [word_of_int (n mod 128)]"
  "\<not> (- 64 \<le> n \<and> n < 64) \<Longrightarrow> sleb n = word_of_int (128 + n mod 128) # sleb (n div 128)"
  by (simp_all add: sleb.simps [of n])

lemma uleb_not_Nil [simp]: "uleb n \<noteq> []"
  by (simp add: uleb.simps [of n])

lemma sleb_not_Nil [simp]: "sleb n \<noteq> []"
  by (simp add: sleb.simps [of n])

section \<open>Bits of a byte\<close>

lemma byte_and_7F: "m < 256 \<Longrightarrow> unat ((word_of_nat m :: byte) AND 0x7F) = m mod 128"
proof -
  assume "m < 256"
  then have "unat (take_bit 7 (word_of_nat m :: byte)) = m mod 128"
    by (simp add: take_bit_eq_mod unat_mod_distrib unat_of_nat)
  then show ?thesis by (simp add: take_bit_eq_mask mask_eq_exp_minus_1)
qed

lemma byte_and_80: "m < 256 \<Longrightarrow> (word_of_nat m :: byte) AND 0x80 = 0 \<longleftrightarrow> m < 128"
proof -
  assume m: "m < 256"
  have "(word_of_nat m :: byte) AND 2 ^ 7 = 0 \<longleftrightarrow> \<not> bit (word_of_nat m :: byte) 7"
    by (rule and_exp_eq_0_iff_not_bit)
  also have "bit (word_of_nat m :: byte) 7 \<longleftrightarrow> odd (m div 128)"
  proof -
    have "unat (word_of_nat m :: byte) = m" using m by (simp add: unat_of_nat)
    then have "bit (word_of_nat m :: byte) 7 = bit m 7"
      by (metis bit_unsigned_iff possible_bit_nat)
    then show ?thesis by (simp add: bit_iff_odd)
  qed
  also have "\<not> odd (m div 128) \<longleftrightarrow> m < 128"
  proof (cases "m < 128")
    case False
    then have "m div 128 = 1" using m by auto
    with False show ?thesis by simp
  qed simp
  finally show ?thesis by simp
qed

lemma leb_combine:
  fixes res :: "'a::len word"
  shows "(res OR push_bit i (word_of_nat (n mod 128))) OR push_bit (i + 7) (word_of_nat (n div 128)) =
    res OR push_bit i (word_of_nat n)"
proof (rule bit_word_eqI)
  fix k assume "k < LENGTH('a)"
  have "bit n j = (if j < 7 then bit (n mod 128) j else bit (n div 128) (j - 7))" for j
  proof -
    have "n mod 128 = take_bit 7 n" "n div 128 = drop_bit 7 n"
      by (simp_all add: take_bit_eq_mod drop_bit_eq_div)
    then show ?thesis by (auto simp: bit_take_bit_iff bit_drop_bit_eq)
  qed
  moreover have "\<not> bit (n mod 128) j" if "j \<ge> 7" for j
  proof -
    have "n mod 128 = take_bit 7 n" by (simp add: take_bit_eq_mod)
    with that show ?thesis by (simp add: bit_take_bit_iff)
  qed
  ultimately show "bit ((res OR push_bit i (word_of_nat (n mod 128))) OR
      push_bit (i + 7) (word_of_nat (n div 128))) k = bit (res OR push_bit i (word_of_nat n)) k"
    by (auto simp: bit_simps)
qed

lemma ucast_7F: "m < 256 \<Longrightarrow> (ucast ((word_of_nat m :: byte) AND 0x7F) :: 'a::len word) = word_of_nat (m mod 128)"
  by (metis byte_and_7F of_nat_unat)

lemma leb_step_fits:
  assumes "n * 2 ^ i < (2 :: nat) ^ w" "\<not> n < 128"
  shows "i + 7 < w" "(n div 128) * 2 ^ (i + 7) < 2 ^ w"
proof -
  have "(n div 128) * 128 \<le> n" by simp
  then have "(n div 128) * 2 ^ (i + 7) \<le> n * 2 ^ i"
    by (simp add: power_add mult.assoc [symmetric])
  with assms(1) show le: "(n div 128) * 2 ^ (i + 7) < 2 ^ w" by linarith
  have "1 \<le> n div 128" using assms(2) by auto
  then have "(2 :: nat) ^ (i + 7) \<le> (n div 128) * 2 ^ (i + 7)" by simp
  with le have "(2 :: nat) ^ (i + 7) < 2 ^ w" by linarith
  then show "i + 7 < w" by (rule power_less_imp_less_exp [rotated]) simp
qed


text \<open>The same for signed numbers. The last byte extends its sign.\<close>

lemma byte_and_int:
  assumes "0 \<le> m" "m < 256"
  shows "((word_of_int m :: byte) AND 0x80 = 0) = (m < 128)"
    and "(ucast ((word_of_int m :: byte) AND 0x7F) :: 'a::len word) = word_of_int (m mod 128)"
proof -
  obtain k where k: "m = int k" "k < 256" using assms by (metis nat_0_le nat_less_iff of_nat_numeral)
  have "m mod 128 = int (k mod 128)" unfolding k(1) by (simp add: zmod_int)
  with k byte_and_80 [of k] ucast_7F [of k, where 'a = 'a]
  show "((word_of_int m :: byte) AND 0x80 = 0) = (m < 128)"
    and "(ucast ((word_of_int m :: byte) AND 0x7F) :: 'a word) = word_of_int (m mod 128)"
    by (simp_all add: of_int_of_nat_eq)
qed

lemma leb_combine_int:
  fixes res :: "'a::len word" and n :: int
  shows "(res OR push_bit i (word_of_int (n mod 128))) OR push_bit (i + 7) (word_of_int (n div 128)) =
    res OR push_bit i (word_of_int n)"
proof (rule bit_word_eqI)
  fix k assume "k < LENGTH('a)"
  have m: "n mod 128 = take_bit 7 n" "n div 128 = drop_bit 7 n"
    by (simp_all add: take_bit_eq_mod drop_bit_eq_div)
  have "7 + (k - (i + 7)) = k - i" if "\<not> k - i < 7" using that by simp
  then show "bit ((res OR push_bit i (word_of_int (n mod 128))) OR
      push_bit (i + 7) (word_of_int (n div 128))) k = bit (res OR push_bit i (word_of_int n)) k"
    unfolding m by (cases "k - i < 7") (auto simp: bit_simps)
qed

lemma or_minus_64: "(x :: int) OR - 64 = x mod 64 - 64"
proof -
  have m: "(- 64 :: int) = NOT (mask 6)" "x mod 64 = take_bit 6 x"
    by (simp_all add: mask_eq_exp_minus_1 take_bit_eq_mod not_eq_complement)
  have "x OR NOT (mask 6) = take_bit 6 x OR NOT (mask 6)"
    by (rule bit_eqI) (auto simp: bit_simps)
  also have "\<dots> = take_bit 6 x + NOT (mask 6)"
    by (rule disjunctive_add_eq_or [symmetric], rule bit_eqI) (auto simp: bit_simps)
  finally show ?thesis unfolding m(1) unfolding m(2) by (simp add: mask_eq_exp_minus_1 not_eq_complement)
qed

lemma byte_and_40:
  assumes "0 \<le> m" "m < 128"
  shows "(word_of_int m :: byte) AND 0x40 = (if m < 64 then 0 else 0x40)"
proof -
  have "m AND 64 = (if m < 64 then 0 else 64)"
  proof -
    have "bit (64 :: int) n \<longleftrightarrow> n = 6" for n using bit_exp_iff [of 6 n, where 'a = int] by auto
    then have "m AND 64 = (if bit m 6 then 64 else 0)"
      by (intro bit_eqI) (auto simp: bit_and_iff)
    moreover have "bit m 6 \<longleftrightarrow> \<not> m < 64"
    proof (cases "m < 64")
      case False
      then have "m div 64 = 1" using assms by auto
      with False show ?thesis by (simp add: bit_iff_odd)
    qed (use assms in \<open>simp add: bit_iff_odd\<close>)
    ultimately show ?thesis by simp
  qed
  then have "word_of_int (m AND 64) = (if m < 64 then 0 else 0x40 :: byte)" by simp
  moreover have "word_of_int (m AND 64) = (word_of_int m :: byte) AND word_of_int 64"
    by (rule bit_word_eqI) (simp add: bit_simps)
  ultimately show ?thesis by simp
qed

lemma leb_sign:
  assumes "- 64 \<le> n" "n < 64"
  shows "push_bit i (ucast ((word_of_int (n mod 128) :: byte) AND 0x7F)) OR
      push_bit i (- ucast ((word_of_int (n mod 128) :: byte) AND 0x40)) = (push_bit i (word_of_int n) :: 'a::len word)"
proof -
  have m: "0 \<le> n mod 128" "n mod 128 < 128" by simp_all
  have a: "(ucast ((word_of_int (n mod 128) :: byte) AND 0x7F) :: 'a word) = word_of_int (n mod 128)"
    using byte_and_int(2) [of "n mod 128"] m by simp
  show ?thesis
  proof (cases "n < 0")
    case True
    then have n: "n mod 128 = n + 128" using assms by presburger
    have "(word_of_int (n mod 128) OR - 64 :: 'a word) = word_of_int ((n mod 128) OR - 64)"
    proof -
      have "word_of_int ((n mod 128) OR - 64) = (word_of_int (n mod 128) OR word_of_int (- 64) :: 'a word)"
        by (rule bit_word_eqI) (simp add: bit_simps)
      then show ?thesis by simp
    qed
    also have "(n mod 128) OR - 64 = n"
    proof -
      have "(n + 64 + 64 * 1) mod 64 = (n + 64) mod 64" by (rule mod_mult_self2)
      also have "\<dots> = n + 64" using True assms by (intro mod_pos_pos_trivial) auto
      finally show ?thesis unfolding or_minus_64 n by (simp add: add.assoc)
    qed
    finally have "(word_of_int (n mod 128) OR - 64 :: 'a word) = word_of_int n" .
    moreover have "(- ucast ((word_of_int (n mod 128) :: byte) AND 0x40) :: 'a word) = - 64"
      using byte_and_40 [OF m] n assms(1) by simp
    ultimately show ?thesis unfolding a by (simp flip: push_bit_or)
  next
    case False
    then have n: "n mod 128 = n" using assms by simp
    with byte_and_40 [OF m] assms show ?thesis unfolding a by simp
  qed
qed

lemma sleb_step_fits:
  assumes "- (2 ^ (w - 1)) \<le> n * 2 ^ i" "n * 2 ^ i < (2 :: int) ^ (w - 1)" "\<not> (- 64 \<le> n \<and> n < 64)"
  shows "i + 7 < w" "- (2 ^ (w - 1)) \<le> (n div 128) * 2 ^ (i + 7)" "(n div 128) * 2 ^ (i + 7) < 2 ^ (w - 1)"
proof -
  have "(2 :: int) ^ (i + 6) < 2 ^ (w - 1)"
  proof (cases "n \<ge> 64")
    case True
    then have "64 * 2 ^ i \<le> n * 2 ^ i" by (intro mult_right_mono) auto
    from this assms(2) have "64 * 2 ^ i < (2 :: int) ^ (w - 1)" by (rule le_less_trans)
    then show ?thesis by (simp add: power_add mult.commute)
  next
    case False
    with assms(3) have "65 * 2 ^ i \<le> (- n) * 2 ^ i" by (intro mult_right_mono) auto
    moreover have "(0 :: int) < 2 ^ i" by simp
    moreover have "(2 :: int) ^ (i + 6) = 64 * 2 ^ i" by (simp add: power_add)
    ultimately show ?thesis using assms(1) by (simp only: minus_mult_left [symmetric])
  qed
  then have "i + 6 < w - 1" by (rule power_less_imp_less_exp [rotated]) simp
  then show w: "i + 7 < w" by simp
  define k :: int where "k = 2 ^ (w - 1 - (i + 7))"
  have k: "(2 :: int) ^ (w - 1) = (k * 128) * 2 ^ i"
  proof -
    have "w - 1 = w - 1 - (i + 7) + (7 + i)" using w by simp
    then have "(2 :: int) ^ (w - 1) = 2 ^ (w - 1 - (i + 7)) * (2 ^ 7 * 2 ^ i)" by (metis power_add)
    then show ?thesis by (simp add: k_def)
  qed
  have p: "(0 :: int) < 2 ^ i" by simp
  have "(- (k * 128)) * 2 ^ i \<le> n * 2 ^ i" using assms(1) k by simp
  then have "- (k * 128) \<le> n" using p by (rule mult_right_le_imp_le)
  then have "(- k * 128) div 128 \<le> n div 128" by (intro zdiv_mono1) auto
  then have "- k \<le> n div 128" by simp
  then have "(- k) * 2 ^ (i + 7) \<le> (n div 128) * 2 ^ (i + 7)" by (intro mult_right_mono) auto
  then show "- (2 ^ (w - 1)) \<le> (n div 128) * 2 ^ (i + 7)"
    unfolding k by (simp add: power_add ac_simps)
  have "(n div 128) * 128 \<le> n" by (simp add: minus_mod_eq_div_mult [symmetric])
  then have "(n div 128) * 128 * 2 ^ i \<le> n * 2 ^ i" by (intro mult_right_mono) auto
  from this assms(2) have "(n div 128) * 128 * 2 ^ i < 2 ^ (w - 1)" by (rule le_less_trans)
  then show "(n div 128) * 2 ^ (i + 7) < 2 ^ (w - 1)" by (simp add: power_add ac_simps)
qed

section \<open>Loops\<close>

text \<open>
  \<open>has\<close> says which bytes come next, \<open>adv\<close> skips bytes, \<open>fin\<close> is what the loop does at the last
  byte and \<open>stop\<close> how it returns.
\<close>

locale leb128_loop =
  fixes loop :: "'s \<Rightarrow> nat \<Rightarrow> 'w::len word \<Rightarrow> 'r" and has :: "'s \<Rightarrow> byte list \<Rightarrow> bool"
    and adv :: "'s \<Rightarrow> nat \<Rightarrow> 's" and fin :: "byte \<Rightarrow> nat \<Rightarrow> 'w word \<Rightarrow> 'w word" and stop :: "'w word \<Rightarrow> 's \<Rightarrow> 'r"
  assumes last_byte: "has s (b # bs) \<Longrightarrow> i < LENGTH('w) \<Longrightarrow> b AND 0x80 = 0 \<Longrightarrow>
      loop s i res = stop (fin b i (res OR push_bit i (ucast (b AND 0x7F)))) (adv s 1)"
    and more_bytes: "has s (b # bs) \<Longrightarrow> i < LENGTH('w) \<Longrightarrow> b AND 0x80 \<noteq> 0 \<Longrightarrow>
      loop s i res = loop (adv s 1) (i + 7) (res OR push_bit i (ucast (b AND 0x7F)))"
    and has_tl: "has s (b # bs) \<Longrightarrow> has (adv s 1) bs"
    and adv_add: "adv (adv s m) n = adv s (m + n)"

locale uleb128_loop = leb128_loop loop has adv fin stop
  for loop :: "'s \<Rightarrow> nat \<Rightarrow> 'w::len word \<Rightarrow> 'r" and has adv fin stop +
  assumes fin_id: "fin b i res = res"
begin

lemma loop_uleb:
  assumes "has s (uleb n @ bs)" "n * 2 ^ i < 2 ^ LENGTH('w)" "i < LENGTH('w)"
  shows "loop s i res = stop (res OR push_bit i (word_of_nat n)) (adv s (length (uleb n)))"
  using assms
proof (induction n arbitrary: s i res rule: less_induct)
  case (less n)
  show ?case
  proof (cases "n < 128")
    case True
    with less.prems last_byte [of s "word_of_nat n" bs i res] fin_id show ?thesis
      by (simp add: uleb_bytes byte_and_80 ucast_7F)
  next
    case False
    let ?b = "word_of_nat (128 + n mod 128) :: byte"
    have u: "uleb n = ?b # uleb (n div 128)" using False by (rule uleb_bytes)
    have m: "128 + n mod 128 < 256" "\<not> 128 + n mod 128 < 128" "(128 + n mod 128) mod 128 = n mod 128"
      by auto
    note fits = leb_step_fits [OF less.prems(2) False]
    have "loop s i res = loop (adv s 1) (i + 7) (res OR push_bit i (word_of_nat (n mod 128)))"
      using more_bytes [of s ?b _ i res] less.prems(1,3) byte_and_80 [OF m(1)] m(2)
        ucast_7F [OF m(1), where 'a = 'w] m(3) u by simp
    also have "\<dots> = stop ((res OR push_bit i (word_of_nat (n mod 128))) OR
        push_bit (i + 7) (word_of_nat (n div 128))) (adv (adv s 1) (length (uleb (n div 128))))"
      using False has_tl [of s ?b "uleb (n div 128) @ bs"] less.prems(1) u by (intro less.IH) (use fits in auto)
    finally show ?thesis by (simp add: leb_combine u adv_add)
  qed
qed

lemma loop_word:
  assumes "has s (uleb (unat w) @ bs)"
  shows "loop s 0 0 = stop w (adv s (length (uleb (unat w))))"
  using loop_uleb [OF assms, of 0 0] unsigned_less [of w] by simp

end

locale sleb128_loop = leb128_loop loop has adv fin stop
  for loop :: "'s \<Rightarrow> nat \<Rightarrow> 'w::len word \<Rightarrow> 'r" and has adv fin stop +
  assumes fin_sign: "fin b i res = res OR push_bit i (- ucast (b AND 0x40))"
begin

lemma loop_sleb:
  assumes "has s (sleb n @ bs)" "- (2 ^ (LENGTH('w) - 1)) \<le> n * 2 ^ i" "n * 2 ^ i < 2 ^ (LENGTH('w) - 1)" "i < LENGTH('w)"
  shows "loop s i res = stop (res OR push_bit i (word_of_int n)) (adv s (length (sleb n)))"
  using assms
proof (induction n arbitrary: s i res rule: sleb.induct)
  case (1 n)
  show ?case
  proof (cases "- 64 \<le> n \<and> n < 64")
    case True
    then have u: "sleb n = [word_of_int (n mod 128)]" by (simp add: sleb_bytes)
    have "(word_of_int (n mod 128) :: byte) AND 0x80 = 0" using byte_and_int(1) [of "n mod 128"] by simp
    with "1.prems"(1,4) u last_byte [of s "word_of_int (n mod 128)" bs i res] leb_sign [of n i, where 'a = 'w] True
    show ?thesis by (simp add: fin_sign or.assoc)
  next
    case False
    let ?b = "word_of_int (128 + n mod 128) :: byte"
    have u: "sleb n = ?b # sleb (n div 128)" using False by (rule sleb_bytes)
    have m: "0 \<le> 128 + n mod 128" "128 + n mod 128 < 256" by simp_all
    note fits = sleb_step_fits [OF "1.prems"(2,3) False]
    have "loop s i res = loop (adv s 1) (i + 7) (res OR push_bit i (word_of_int (n mod 128)))"
      using more_bytes [of s ?b _ i res] "1.prems"(1,4) byte_and_int(1) [OF m] byte_and_int(2) [OF m, where 'a = 'w] u by simp
    also have "\<dots> = stop ((res OR push_bit i (word_of_int (n mod 128))) OR
        push_bit (i + 7) (word_of_int (n div 128))) (adv (adv s 1) (length (sleb (n div 128))))"
      using False has_tl [of s ?b "sleb (n div 128) @ bs"] "1.prems"(1) u by (intro "1.IH") (use fits in auto)
    finally show ?thesis by (simp add: leb_combine_int u adv_add)
  qed
qed

lemma loop_sword:
  assumes "has s (sleb (sint w) @ bs)"
  shows "loop s 0 0 = stop w (adv s (length (sleb (sint w))))"
  using loop_sleb [OF assms, of 0 0] sint_range_size [of w] by (simp add: word_size)

end

end
