(* ===== verification/VM.thy ===== *)
theory VM
  imports Leb128
begin

text \<open>
  The virtual machine for DWARF location expressions of \<^verbatim>\<open>services/vm.c\<close>, in the order of
  the source: reading the code, the pieces of a location, the operations, the evaluation loop.

  The static variables of the file and the caller's \<^verbatim>\<open>LocationExpressionState\<close> are one
  record. The evaluation stack keeps its two parallel arrays with their capacity
  \<^verbatim>\<open>stk_max\<close>; an access outside of an array is \<open>Undefined_Behaviour\<close>, as is a shift
  by the width of the operand or more. A left shift of a negative number is taken to be the
  two's complement one, as GCC defines it. The memory, the registers and the stack frames of the
  target, and the callback for client operations, are the parameters collected in \<open>vm_env\<close>.
  Jumps go backwards as well, so the evaluation loop is given fuel.
\<close>

section \<open>The model\<close>

subsection \<open>Data\<close>

record RegisterDefinition =
  reg_id :: nat
  reg_size :: nat

record LocationPiece =
  optimized_away :: bool
  piece_addr :: u64
  piece_reg :: "RegisterDefinition option"
  piece_value :: "byte list option"
  piece_size :: nat
  bit_offs :: u32
  bit_size :: u32
  piece_implicit_pointer :: u32

record StackFrame =
  frame_id :: nat
  fp :: u64

abbreviation TYPE_CLASS_CARDINAL :: byte where "TYPE_CLASS_CARDINAL \<equiv> 1"
abbreviation TYPE_CLASS_INTEGER :: byte where "TYPE_CLASS_INTEGER \<equiv> 2"

record VMState =
  stack_frame :: "StackFrame option"
  args :: "u64 list"
  code :: "byte list"
  code_pos :: nat
  code_len :: nat
  big_endian :: bool
  addr_size :: nat
  pieces :: "LocationPiece list"
  stk_pos :: nat
  stk_max :: nat
  stk :: "u64 list"
  type_stk :: "byte list"
  reg_def :: "RegisterDefinition option"
  value_addr :: "byte list option"
  value_size :: nat
  implicit_pointer :: u32

record vm_env =
  context_read_mem :: "u64 \<Rightarrow> nat \<Rightarrow> byte list outcome"
  get_reg_by_id :: "u32 \<Rightarrow> RegisterDefinition outcome"
  read_reg_value :: "StackFrame option \<Rightarrow> RegisterDefinition \<Rightarrow> u64 outcome"
  get_entry_frame :: "StackFrame option \<Rightarrow> StackFrame outcome"
  read_location_pieces :: "StackFrame \<Rightarrow> LocationPiece list \<Rightarrow> byte list outcome"
  client_op :: "(byte \<Rightarrow> VMState \<Rightarrow> VMState outcome) option"

definition inv_dwarf :: "string \<Rightarrow> 'a outcome" where
  "inv_dwarf msg = str_exception ERR_INV_DWARF msg"

definition check_e_stack :: "VMState \<Rightarrow> nat \<Rightarrow> 'a outcome \<Rightarrow> 'a outcome" where
  "check_e_stack s n k =
     (if stk_pos s < n then inv_dwarf ''Invalid location expression stack'' else k)"

subsection \<open>Reading memory and code\<close>

text \<open>The buffer of \<^verbatim>\<open>read_memory\<close> has eight bytes.\<close>

definition read_memory :: "vm_env \<Rightarrow> VMState \<Rightarrow> u64 \<Rightarrow> nat \<Rightarrow> u64 outcome" where
  "read_memory env s addr sz =
     (if sz > 8 then Inl Undefined_Behaviour
      else rbind (context_read_mem env addr sz) (\<lambda>buf.
        Inr (foldl (\<lambda>n i. push_bit 8 n OR ucast (buf ! (if big_endian s then i else sz - i - 1)))
               0 [0..<sz])))"

definition read_u1 :: "VMState \<Rightarrow> (byte \<times> VMState) outcome" where
  "read_u1 s =
     (if code_pos s \<ge> code_len s then inv_dwarf ''Invalid command''
      else if code_pos s < length (code s)
      then Inr (code s ! code_pos s, s\<lparr>code_pos := code_pos s + 1\<rparr>)
      else Inl Undefined_Behaviour)"

definition read_u2 :: "VMState \<Rightarrow> (u16 \<times> VMState) outcome" where
  "read_u2 s =
     rbind (read_u1 s) (\<lambda>(x0, s1).
     rbind (read_u1 s1) (\<lambda>(x1, s2).
     Inr (if big_endian s then push_bit 8 (ucast x0) OR ucast x1
          else ucast x0 OR push_bit 8 (ucast x1), s2)))"

definition read_u4 :: "VMState \<Rightarrow> (u32 \<times> VMState) outcome" where
  "read_u4 s =
     rbind (read_u2 s) (\<lambda>(x0, s1).
     rbind (read_u2 s1) (\<lambda>(x1, s2).
     Inr (if big_endian s then push_bit 16 (ucast x0) OR ucast x1
          else ucast x0 OR push_bit 16 (ucast x1), s2)))"

definition read_u8 :: "VMState \<Rightarrow> (u64 \<times> VMState) outcome" where
  "read_u8 s =
     rbind (read_u4 s) (\<lambda>(x0, s1).
     rbind (read_u4 s1) (\<lambda>(x1, s2).
     Inr (if big_endian s then push_bit 32 (ucast x0) OR ucast x1
          else ucast x0 OR push_bit 32 (ucast x1), s2)))"

text \<open>The LEB128 loops, with the shift count \<^verbatim>\<open>i\<close>. Each round consumes a byte of the code.\<close>

function u4leb128_loop :: "VMState \<Rightarrow> nat \<Rightarrow> u32 \<Rightarrow> (u32 \<times> VMState) outcome" where
  "u4leb128_loop s i res =
     rbind (read_u1 s) (\<lambda>(n, s1).
       if i \<ge> 32 then Inl Undefined_Behaviour
       else
         let res1 = res OR push_bit i (ucast (n AND 0x7F))
         in if n AND 0x80 = 0 then Inr (res1, s1) else u4leb128_loop s1 (i + 7) res1)"
  by pat_completeness auto
termination
  by (relation "measure (\<lambda>(s, i, res). code_len s - code_pos s)")
    (auto simp: read_u1_def inv_dwarf_def split: if_splits)

definition read_u4leb128 :: "VMState \<Rightarrow> (u32 \<times> VMState) outcome" where
  "read_u4leb128 s = u4leb128_loop s 0 0"

function u8leb128_loop :: "VMState \<Rightarrow> nat \<Rightarrow> u64 \<Rightarrow> (u64 \<times> VMState) outcome" where
  "u8leb128_loop s i res =
     rbind (read_u1 s) (\<lambda>(n, s1).
       if i \<ge> 64 then Inl Undefined_Behaviour
       else
         let res1 = res OR push_bit i (ucast (n AND 0x7F))
         in if n AND 0x80 = 0 then Inr (res1, s1) else u8leb128_loop s1 (i + 7) res1)"
  by pat_completeness auto
termination
  by (relation "measure (\<lambda>(s, i, res). code_len s - code_pos s)")
    (auto simp: read_u1_def inv_dwarf_def split: if_splits)

definition read_u8leb128 :: "VMState \<Rightarrow> (u64 \<times> VMState) outcome" where
  "read_u8leb128 s = u8leb128_loop s 0 0"

function i8leb128_loop :: "VMState \<Rightarrow> nat \<Rightarrow> u64 \<Rightarrow> (u64 \<times> VMState) outcome" where
  "i8leb128_loop s i res =
     rbind (read_u1 s) (\<lambda>(n, s1).
       if i \<ge> 64 then Inl Undefined_Behaviour
       else
         let res1 = res OR push_bit i (ucast (n AND 0x7F))
         in if n AND 0x80 = 0 then Inr (res1 OR push_bit i (- ucast (n AND 0x40)), s1)
            else i8leb128_loop s1 (i + 7) res1)"
  by pat_completeness auto
termination
  by (relation "measure (\<lambda>(s, i, res). code_len s - code_pos s)")
    (auto simp: read_u1_def inv_dwarf_def split: if_splits)

definition read_i8leb128 :: "VMState \<Rightarrow> (u64 \<times> VMState) outcome" where
  "read_i8leb128 s = i8leb128_loop s 0 0"

declare u4leb128_loop.simps [simp del] u8leb128_loop.simps [simp del] i8leb128_loop.simps [simp del]

definition ret_fst :: "('a \<Rightarrow> 'b) \<Rightarrow> ('a \<times> 's) outcome \<Rightarrow> ('b \<times> 's) outcome" where
  "ret_fst f m = rbind m (\<lambda>(x, s). Inr (f x, s))"

definition read_ia :: "VMState \<Rightarrow> (u64 \<times> VMState) outcome" where
  "read_ia s =
     (if addr_size s = 1 then ret_fst scast (read_u1 s)
      else if addr_size s = 2 then ret_fst scast (read_u2 s)
      else if addr_size s = 4 then ret_fst scast (read_u4 s)
      else if addr_size s = 8 then read_u8 s
      else inv_dwarf ''Invalid address size'')"

definition read_ua :: "VMState \<Rightarrow> (u64 \<times> VMState) outcome" where
  "read_ua s =
     (if addr_size s = 1 then ret_fst ucast (read_u1 s)
      else if addr_size s = 2 then ret_fst ucast (read_u2 s)
      else if addr_size s = 4 then ret_fst ucast (read_u4 s)
      else if addr_size s = 8 then read_u8 s
      else inv_dwarf ''Invalid address size'')"

subsection \<open>The stack arrays\<close>

definition stk_get :: "VMState \<Rightarrow> nat \<Rightarrow> u64 outcome" where
  "stk_get s i = (if i < length (stk s) then Inr (stk s ! i) else Inl Undefined_Behaviour)"

definition type_get :: "VMState \<Rightarrow> nat \<Rightarrow> byte outcome" where
  "type_get s i = (if i < length (type_stk s) then Inr (type_stk s ! i) else Inl Undefined_Behaviour)"

definition stk_put :: "nat \<Rightarrow> u64 \<Rightarrow> VMState \<Rightarrow> VMState outcome" where
  "stk_put i v s =
     (if i < length (stk s) then Inr (s\<lparr>stk := (stk s)[i := v]\<rparr>) else Inl Undefined_Behaviour)"

definition type_put :: "nat \<Rightarrow> byte \<Rightarrow> VMState \<Rightarrow> VMState outcome" where
  "type_put i t s =
     (if i < length (type_stk s) then Inr (s\<lparr>type_stk := (type_stk s)[i := t]\<rparr>)
      else Inl Undefined_Behaviour)"

definition set_top :: "u64 \<Rightarrow> byte \<Rightarrow> VMState \<Rightarrow> VMState outcome" where
  "set_top v t s = rbind (stk_put (stk_pos s - 1) v s) (type_put (stk_pos s - 1) t)"

definition push :: "u64 \<Rightarrow> byte \<Rightarrow> VMState \<Rightarrow> VMState outcome" where
  "push v t s =
     rbind (stk_put (stk_pos s) v s) (\<lambda>s1.
     rbind (type_put (stk_pos s) t s1) (\<lambda>s2.
     Inr (s2\<lparr>stk_pos := stk_pos s + 1\<rparr>)))"

text \<open>\<open>tmp_realloc\<close> of both arrays, done before every operation.\<close>

definition grow_stack :: "VMState \<Rightarrow> VMState" where
  "grow_stack s =
     (if stk_pos s + 4 > stk_max s then
        s\<lparr>stk_max := stk_max s + 8,
          stk := take (stk_max s + 8) (stk s) @ replicate (stk_max s + 8 - length (stk s)) 0,
          type_stk := take (stk_max s + 8) (type_stk s) @
                      replicate (stk_max s + 8 - length (type_stk s)) 0\<rparr>
      else s)"


subsection \<open>Operation codes\<close>

text \<open>The codes with a case of their own in \<^verbatim>\<open>evaluate_expression\<close>. \<open>OP_lit\<close>,
  \<open>OP_regn\<close> and \<open>OP_bregn\<close> are the three ranges of 32 codes, with the offset in the
  range; every other code goes to the client callback.\<close>

datatype vm_op =
    OP_reg | OP_basereg | OP_const | OP_deref2 | OP_deref | OP_add | OP_const1u | OP_const1s
  | OP_const2u | OP_const2s | OP_const4u | OP_const4s | OP_const8u | OP_const8s
  | OP_constu | OP_consts | OP_dup | OP_drop | OP_over | OP_pick | OP_swap | OP_rot
  | OP_xderef | OP_abs | OP_and | OP_div | OP_minus | OP_mod | OP_mul | OP_neg | OP_not
  | OP_or | OP_plus | OP_plus_uconst | OP_shl | OP_shr | OP_shra | OP_xor | OP_bra | OP_eq
  | OP_ge | OP_gt | OP_le | OP_lt | OP_ne | OP_skip | OP_regx | OP_bregx | OP_piece
  | OP_deref_size | OP_xderef_size | OP_nop | OP_push_object_address | OP_call_frame_cfa
  | OP_bit_piece | OP_implicit_value | OP_stack_value | OP_GNU_entry_value
  | OP_GNU_const_type | OP_GNU_regval_type | OP_GNU_deref_type | OP_GNU_convert
  | OP_TCF_switch | OP_TCF_offset | OP_lit nat | OP_regn nat | OP_bregn nat
  | OP_client byte

definition op_table :: "(byte \<times> vm_op) list" where
  "op_table = [(0x01, OP_reg), (0x02, OP_basereg), (0x04, OP_const), (0x05, OP_deref2)
     , (0x06, OP_deref), (0x07, OP_add), (0x08, OP_const1u), (0x09, OP_const1s)
     , (0x0a, OP_const2u), (0x0b, OP_const2s), (0x0c, OP_const4u), (0x0d, OP_const4s)
     , (0x0e, OP_const8u), (0x0f, OP_const8s), (0x10, OP_constu), (0x11, OP_consts)
     , (0x12, OP_dup), (0x13, OP_drop), (0x14, OP_over), (0x15, OP_pick), (0x16, OP_swap)
     , (0x17, OP_rot), (0x18, OP_xderef), (0x19, OP_abs), (0x1a, OP_and), (0x1b, OP_div)
     , (0x1c, OP_minus), (0x1d, OP_mod), (0x1e, OP_mul), (0x1f, OP_neg), (0x20, OP_not)
     , (0x21, OP_or), (0x22, OP_plus), (0x23, OP_plus_uconst), (0x24, OP_shl), (0x25, OP_shr)
     , (0x26, OP_shra), (0x27, OP_xor), (0x28, OP_bra), (0x29, OP_eq), (0x2a, OP_ge)
     , (0x2b, OP_gt), (0x2c, OP_le), (0x2d, OP_lt), (0x2e, OP_ne), (0x2f, OP_skip)
     , (0x90, OP_regx), (0x92, OP_bregx), (0x93, OP_piece), (0x94, OP_deref_size)
     , (0x95, OP_xderef_size), (0x96, OP_nop), (0x97, OP_push_object_address)
     , (0x9c, OP_call_frame_cfa), (0x9d, OP_bit_piece), (0x9e, OP_implicit_value)
     , (0x9f, OP_stack_value), (0xf3, OP_GNU_entry_value), (0xf4, OP_GNU_const_type)
     , (0xf5, OP_GNU_regval_type), (0xf6, OP_GNU_deref_type), (0xf7, OP_GNU_convert)
     , (0xfe, OP_TCF_switch), (0xff, OP_TCF_offset)]"

definition decode_op :: "byte \<Rightarrow> vm_op" where
  "decode_op op =
     (if 0x30 \<le> op \<and> op \<le> 0x4f then OP_lit (unat op - 0x30)
      else if 0x50 \<le> op \<and> op \<le> 0x6f then OP_regn (unat op - 0x50)
      else if 0x70 \<le> op \<and> op \<le> 0x8f then OP_bregn (unat op - 0x70)
      else case map_of op_table op of Some o' \<Rightarrow> o' | None \<Rightarrow> OP_client op)"

subsection \<open>Pieces\<close>

definition zero_piece :: LocationPiece where
  "zero_piece = \<lparr>optimized_away = False, piece_addr = 0, piece_reg = None, piece_value = None,
     piece_size = 0, bit_offs = 0, bit_size = 0, piece_implicit_pointer = 0\<rparr>"

text \<open>The new piece, and the state in which it has been consumed; the caller completes the piece
  and appends it with \<open>put_piece\<close>. The array \<^verbatim>\<open>pieces\<close> grows as needed.\<close>

definition add_piece :: "VMState \<Rightarrow> (LocationPiece \<times> VMState) outcome" where
  "add_piece s =
     rbind (case reg_def s of
              Some r \<Rightarrow> Inr (zero_piece\<lparr>piece_reg := Some r, piece_size := reg_size r\<rparr>, s)
            | None \<Rightarrow>
                (case value_addr s of
                   Some v \<Rightarrow> Inr (zero_piece\<lparr>piece_value := Some v, piece_size := value_size s\<rparr>, s)
                 | None \<Rightarrow>
                     if stk_pos s = 0 then Inr (zero_piece\<lparr>optimized_away := True\<rparr>, s)
                     else rbind (stk_get s (stk_pos s - 1)) (\<lambda>a.
                       Inr (zero_piece\<lparr>piece_addr := a\<rparr>, s\<lparr>stk_pos := stk_pos s - 1\<rparr>))))
       (\<lambda>(p, s1). Inr (p\<lparr>piece_implicit_pointer := implicit_pointer s1\<rparr>,
                       s1\<lparr>implicit_pointer := 0, value_addr := None, reg_def := None\<rparr>))"

definition put_piece :: "LocationPiece \<Rightarrow> VMState \<Rightarrow> VMState" where
  "put_piece p s = s\<lparr>pieces := pieces s @ [p]\<rparr>"

definition is_end_of_loc_expr :: "VMState \<Rightarrow> bool outcome" where
  "is_end_of_loc_expr s =
     (if code_pos s \<ge> code_len s then Inr True
      else if code_pos s < length (code s) then
        Inr (decode_op (code s ! code_pos s) \<in> {OP_piece, OP_bit_piece, OP_TCF_offset})
      else Inl Undefined_Behaviour)"

definition must_be_last :: "string \<Rightarrow> VMState \<Rightarrow> 'a outcome \<Rightarrow> 'a outcome" where
  "must_be_last msg s k =
     rbind (is_end_of_loc_expr s) (\<lambda>e. if \<not> e then inv_dwarf msg else k)"

subsection \<open>Operations\<close>

definition un_op :: "(u64 \<Rightarrow> u64) \<Rightarrow> VMState \<Rightarrow> VMState outcome" where
  "un_op f s = check_e_stack s 1 (
     rbind (stk_get s (stk_pos s - 1)) (\<lambda>x. stk_put (stk_pos s - 1) (f x) s))"

definition bin_op :: "(u64 \<Rightarrow> u64 \<Rightarrow> u64 outcome) \<Rightarrow> VMState \<Rightarrow> VMState outcome" where
  "bin_op f s = check_e_stack s 2 (
     let s1 = s\<lparr>stk_pos := stk_pos s - 1\<rparr> in
     rbind (stk_get s1 (stk_pos s1 - 1)) (\<lambda>x.
     rbind (stk_get s1 (stk_pos s1)) (\<lambda>y.
     rbind (f x y) (\<lambda>z. stk_put (stk_pos s1 - 1) z s1))))"

definition cmp_op :: "(u64 \<Rightarrow> u64 \<Rightarrow> bool) \<Rightarrow> VMState \<Rightarrow> VMState outcome" where
  "cmp_op f s =
     rbind (bin_op (\<lambda>x y. Inr (if f x y then 1 else 0)) s) (\<lambda>s1.
     type_put (stk_pos s1 - 1) TYPE_CLASS_CARDINAL s1)"

text \<open>The loop of the arithmetic right shift.\<close>

fun shra_loop :: "nat \<Rightarrow> u64 \<Rightarrow> u64" where
  "shra_loop 0 d = d"
| "shra_loop (Suc cnt) d =
     (let d1 = drop_bit 1 d
      in shra_loop cnt (if d AND push_bit 63 1 \<noteq> 0 then d1 OR push_bit 63 1 else d1))"

definition vm_shra :: "u64 \<Rightarrow> u64 \<Rightarrow> u64" where
  "vm_shra d cnt =
     (if cnt \<ge> 64 then if d AND push_bit 63 1 \<noteq> 0 then NOT 0 else 0
      else shra_loop (unat cnt) d)"

definition vm_abs :: "u64 \<Rightarrow> u64" where
  "vm_abs x = (if sint x < 0 then NOT x + 1 else x)"

definition vm_div :: "u64 \<Rightarrow> u64 \<Rightarrow> u64 outcome" where
  "vm_div x y = (if y = 0 then inv_dwarf ''Division by zero in location expression'' else Inr (x div y))"

definition vm_mod :: "u64 \<Rightarrow> u64 \<Rightarrow> u64 outcome" where
  "vm_mod x y = (if y = 0 then inv_dwarf ''Division by zero in location expression'' else Inr (x mod y))"

definition vm_shl :: "u64 \<Rightarrow> u64 \<Rightarrow> u64 outcome" where
  "vm_shl x y = (if y \<ge> 64 then Inl Undefined_Behaviour else Inr (push_bit (unat y) x))"

definition vm_shr :: "u64 \<Rightarrow> u64 \<Rightarrow> u64 outcome" where
  "vm_shr x y = (if y \<ge> 64 then Inl Undefined_Behaviour else Inr (drop_bit (unat y) x))"

text \<open>The relative jump: the 16 bit offset is sign extended to \<^verbatim>\<open>size_t\<close> and the sum taken
  modulo \<open>2 ^ 64\<close>.\<close>

definition jump :: "u16 \<Rightarrow> VMState \<Rightarrow> VMState outcome" where
  "jump offs s =
     (let pos = unat (word_of_nat (code_pos s) + (scast offs :: u64))
      in if pos > code_len s then inv_dwarf ''Invalid command'' else Inr (s\<lparr>code_pos := pos\<rparr>))"

definition op_rot :: "VMState \<Rightarrow> VMState outcome" where
  "op_rot s = check_e_stack s 3 (
     let p = stk_pos s in
     rbind (stk_get s (p - 1)) (\<lambda>d.
     rbind (type_get s (p - 1)) (\<lambda>t.
     rbind (stk_get s (p - 2)) (\<lambda>d2.
     rbind (stk_put (p - 1) d2 s) (\<lambda>s1.
     rbind (type_get s1 (p - 2)) (\<lambda>t2.
     rbind (type_put (p - 1) t2 s1) (\<lambda>s2.
     rbind (stk_get s2 (p - 3)) (\<lambda>d3.
     rbind (stk_put (p - 2) d3 s2) (\<lambda>s3.
     rbind (type_get s3 (p - 3)) (\<lambda>t3.
     rbind (type_put (p - 2) t3 s3) (\<lambda>s4.
     rbind (stk_put (p - 3) d s4) (\<lambda>s5.
     type_put (p - 2) t s5))))))))))))"

definition op_swap :: "VMState \<Rightarrow> VMState outcome" where
  "op_swap s = check_e_stack s 2 (
     let p = stk_pos s in
     rbind (stk_get s (p - 1)) (\<lambda>d.
     rbind (type_get s (p - 1)) (\<lambda>t.
     rbind (stk_get s (p - 2)) (\<lambda>d2.
     rbind (stk_put (p - 1) d2 s) (\<lambda>s1.
     rbind (type_get s1 (p - 2)) (\<lambda>t2.
     rbind (type_put (p - 1) t2 s1) (\<lambda>s2.
     rbind (stk_put (p - 2) d s2) (\<lambda>s3.
     type_put (p - 2) t s3))))))))"

text \<open>Copying the element that lies \<open>n\<close> below the top.\<close>

definition op_copy :: "nat \<Rightarrow> VMState \<Rightarrow> VMState outcome" where
  "op_copy n s = check_e_stack s (n + 1) (
     rbind (stk_get s (stk_pos s - n - 1)) (\<lambda>d.
     rbind (type_get s (stk_pos s - n - 1)) (\<lambda>t. push d t s)))"

definition op_deref_sized ::
    "vm_env \<Rightarrow> (u64 \<Rightarrow> u64) \<Rightarrow> nat \<Rightarrow> VMState \<Rightarrow> VMState outcome" where
  "op_deref_sized env cast sz s =
     rbind (stk_get s (stk_pos s - 1)) (\<lambda>a.
     rbind (read_memory env s a sz) (\<lambda>v. set_top (cast v) TYPE_CLASS_CARDINAL s))"

definition op_xderef_sized :: "vm_env \<Rightarrow> nat \<Rightarrow> VMState \<Rightarrow> VMState outcome" where
  "op_xderef_sized env sz s =
     rbind (stk_get s (stk_pos s - 1)) (\<lambda>a.
     rbind (read_memory env s a sz) (\<lambda>v.
     rbind (stk_put (stk_pos s - 2) v s) (\<lambda>s1.
     rbind (type_put (stk_pos s - 2) TYPE_CLASS_CARDINAL s1) (\<lambda>s2.
     Inr (s2\<lparr>stk_pos := stk_pos s - 1\<rparr>)))))"

definition push_const :: "byte \<Rightarrow> (u64 \<times> VMState) outcome \<Rightarrow> VMState outcome" where
  "push_const t m = rbind m (\<lambda>(x, s). push x t s)"

definition set_reg :: "vm_env \<Rightarrow> string \<Rightarrow> u32 \<Rightarrow> VMState \<Rightarrow> VMState outcome" where
  "set_reg env msg n s = must_be_last msg s (
     rbind (get_reg_by_id env n) (\<lambda>r. Inr (s\<lparr>reg_def := Some r\<rparr>)))"

definition push_reg :: "vm_env \<Rightarrow> u32 \<Rightarrow> bool \<Rightarrow> VMState \<Rightarrow> VMState outcome" where
  "push_reg env n with_offset s =
     rbind (get_reg_by_id env n) (\<lambda>r.
     rbind (read_reg_value env (stack_frame s) r) (\<lambda>v.
     if with_offset then rbind (read_i8leb128 s) (\<lambda>(d, s1). push (v + d) TYPE_CLASS_CARDINAL s1)
     else push v TYPE_CLASS_CARDINAL s))"

fun bytes_of :: "nat \<Rightarrow> u64 \<Rightarrow> byte list" where
  "bytes_of 0 n = []"
| "bytes_of (Suc k) n = ucast n # bytes_of k (drop_bit 8 n)"

definition op_stack_value :: "VMState \<Rightarrow> VMState outcome" where
  "op_stack_value s = check_e_stack s 1 (
     rbind (stk_get s (stk_pos s - 1)) (\<lambda>n.
     let buf = bytes_of (addr_size s) n;
         s1 = s\<lparr>value_size := addr_size s, stk_pos := stk_pos s - 1,
                value_addr := Some (if big_endian s then rev buf else buf)\<rparr>
     in must_be_last ''OP_stack_value must be last instruction'' s1 (Inr s1)))"

definition op_implicit_value :: "VMState \<Rightarrow> VMState outcome" where
  "op_implicit_value s =
     rbind (read_u4leb128 s) (\<lambda>(n, s1).
     let sz = unat n in
     if code_pos s1 + sz > code_len s1 then inv_dwarf ''Invalid command''
     else if code_pos s1 + sz > length (code s1) then Inl Undefined_Behaviour
     else
       let s2 = s1\<lparr>value_size := sz, value_addr := Some (take sz (drop (code_pos s1) (code s1))),
                   code_pos := code_pos s1 + sz\<rparr>
       in must_be_last ''OP_implicit_value must be last instruction'' s2 (Inr s2))"


subsection \<open>Offsets into pieces\<close>

definition piece_bits :: "LocationPiece \<Rightarrow> u32" where
  "piece_bits p = (if bit_size p = 0 then word_of_nat (piece_size p * 8) else bit_size p)"

definition cut_piece :: "u32 \<Rightarrow> u32 \<Rightarrow> LocationPiece \<Rightarrow> LocationPiece" where
  "cut_piece offs bo org =
     (let p = org\<lparr>bit_size := piece_bits org\<rparr>;
          p1 = (if bo < offs * 8
                then p\<lparr>bit_offs := bit_offs p + (offs * 8 - bo), bit_size := bit_size p - (offs * 8 - bo)\<rparr>
                else p);
          p2 = (if bit_offs p1 = 0 \<and> bit_size p1 mod 8 = 0
                then p1\<lparr>piece_size := unat (bit_size p1 div 8), bit_size := 0\<rparr> else p1)
      in p2\<lparr>piece_implicit_pointer := piece_implicit_pointer p2 + 1\<rparr>)"

fun offset_pieces :: "u32 \<Rightarrow> u32 \<Rightarrow> LocationPiece list \<Rightarrow> LocationPiece list" where
  "offset_pieces offs bo [] = []"
| "offset_pieces offs bo (p # ps) =
     (let rest = offset_pieces offs (bo + piece_bits p) ps
      in if bo + piece_bits p > offs * 8 then cut_piece offs bo p # rest else rest)"

definition op_tcf_offset :: "VMState \<Rightarrow> VMState outcome" where
  "op_tcf_offset s =
     rbind (if reg_def s \<noteq> None \<or> value_addr s \<noteq> None
            then rbind (add_piece s) (\<lambda>(p, s1). Inr (put_piece p s1)) else Inr s) (\<lambda>s1.
     if pieces s1 \<noteq> [] then
       rbind (read_u4leb128 s1) (\<lambda>(offs, s2).
       let ps = offset_pieces offs 0 (pieces s2)
       in if ps = [] then inv_dwarf ''Invalid size of implicit value''
          else Inr (s2\<lparr>pieces := ps\<rparr>))
     else check_e_stack s1 1 (
       rbind (read_u8leb128 s1) (\<lambda>(d, s2).
       rbind (stk_get s2 (stk_pos s2 - 1)) (\<lambda>x.
       rbind (stk_put (stk_pos s2 - 1) (x + d) s2) (\<lambda>s3.
       Inr (s3\<lparr>implicit_pointer := implicit_pointer s3 + 1\<rparr>))))))"

subsection \<open>Switch and entry values\<close>

text \<open>
  The search for the range that holds \<open>n\<close>. Every round starts at a larger position of the
  code, so that as many rounds as there are bytes are enough. \<open>sub\<close> is the evaluation of the
  code of the range that was found.
\<close>

fun switch_loop :: "(VMState \<Rightarrow> VMState outcome) \<Rightarrow> nat \<Rightarrow> u64 \<Rightarrow> nat \<Rightarrow> VMState \<Rightarrow> VMState outcome" where
  "switch_loop sub 0 n end_pos s = Inl Out_Of_Fuel"
| "switch_loop sub (Suc k) n end_pos s =
     rbind (read_u2 s) (\<lambda>(d, s1).
     let nxt_pos = unat d + code_pos s1 in
     if nxt_pos > end_pos then inv_dwarf ''Invalid command''
     else if nxt_pos = code_pos s1 then
       str_exception ERR_OTHER ''Object is not available at this location in the code''
     else
       rbind (read_u8leb128 s1) (\<lambda>(addr, s2).
       rbind (read_u8leb128 s2) (\<lambda>(sz, s3).
       if sz = 0 \<or> (n \<ge> addr \<and> n - addr < sz) then
         rbind (sub (s3\<lparr>code_len := nxt_pos\<rparr>)) (\<lambda>s4. Inr (s4\<lparr>code_len := code_len s3\<rparr>))
       else switch_loop sub k n end_pos (s3\<lparr>code_pos := nxt_pos\<rparr>))))"

definition op_tcf_switch :: "(VMState \<Rightarrow> VMState outcome) \<Rightarrow> VMState \<Rightarrow> VMState outcome" where
  "op_tcf_switch sub s = check_e_stack s 1 (
     rbind (stk_get s (stk_pos s - 1)) (\<lambda>n.
     rbind (read_u2 (s\<lparr>stk_pos := stk_pos s - 1\<rparr>)) (\<lambda>(d, s1).
     let end_pos = unat d + code_pos s1 in
     if end_pos > code_len s1 then inv_dwarf ''Invalid command''
     else rbind (switch_loop sub (code_len s1 + 1) n end_pos s1) (\<lambda>s2.
       Inr (s2\<lparr>code_pos := end_pos\<rparr>)))))"

text \<open>The bytes of an entry value are shifted as \<^verbatim>\<open>int\<close>, so that from the fifth byte on the
  shift is too wide, and the fourth one is sign extended.\<close>

fun entry_bytes :: "nat \<Rightarrow> byte list \<Rightarrow> u64 outcome" where
  "entry_bytes i [] = Inr 0"
| "entry_bytes i (b # bs) =
     (if i * 8 \<ge> 32 then Inl Undefined_Behaviour
      else rbind (entry_bytes (i + 1) bs) (\<lambda>v. Inr (scast (push_bit (i * 8) (ucast b :: u32)) OR v)))"

definition entry_value_result :: "vm_env \<Rightarrow> StackFrame \<Rightarrow> VMState \<Rightarrow> (u64 \<times> byte) outcome" where
  "entry_value_result env fr e =
     (if pieces e \<noteq> [] then
        rbind (read_location_pieces env fr (pieces e)) (\<lambda>v.
        if length v > 8 then inv_dwarf ''Invalid OP_entry_value expression''
        else rbind (entry_bytes 0 v) (\<lambda>x. Inr (x, TYPE_CLASS_CARDINAL)))
      else if stk_pos e = 1 then
        rbind (stk_get e 0) (\<lambda>x. rbind (type_get e 0) (\<lambda>t. Inr (x, t)))
      else inv_dwarf ''Invalid OP_entry_value expression'')"

definition entry_state :: "VMState \<Rightarrow> StackFrame \<Rightarrow> nat \<Rightarrow> VMState" where
  "entry_state s fr sz =
     \<lparr>stack_frame = Some fr, args = [], code = drop (code_pos s) (code s), code_pos = 0,
      code_len = sz, big_endian = big_endian s, addr_size = addr_size s, pieces = [],
      stk_pos = 0, stk_max = 0, stk = [], type_stk = [], reg_def = None, value_addr = None,
      value_size = value_size s, implicit_pointer = 0\<rparr>"

text \<open>\<open>subvm\<close> is \<^verbatim>\<open>evaluate_vm_expression\<close>. The static variables of the file are shared by
  the two evaluations.\<close>

definition op_entry_value ::
    "vm_env \<Rightarrow> (VMState \<Rightarrow> VMState outcome) \<Rightarrow> VMState \<Rightarrow> VMState outcome" where
  "op_entry_value env subvm s =
     rbind (read_u4leb128 s) (\<lambda>(n, s1).
     rbind (get_entry_frame env (stack_frame s1)) (\<lambda>fr.
     rbind (subvm (entry_state s1 fr (unat n))) (\<lambda>e.
     rbind (entry_value_result env fr e) (\<lambda>(x, t).
     rbind (push x t s1) (\<lambda>s2.
     Inr (s2\<lparr>code_pos := code_pos s1 + unat n, reg_def := reg_def e, value_addr := value_addr e,
             value_size := value_size e, implicit_pointer := implicit_pointer e\<rparr>))))))"

definition op_client :: "vm_env \<Rightarrow> byte \<Rightarrow> VMState \<Rightarrow> VMState outcome" where
  "op_client env op s =
     (case client_op env of
        Some f \<Rightarrow> f op s
      | None \<Rightarrow> str_exception ERR_UNSUPPORTED ''Unsupported location expression op'')"

subsection \<open>Evaluation\<close>

definition exec_op :: "vm_env \<Rightarrow> (VMState \<Rightarrow> VMState outcome) \<Rightarrow> (VMState \<Rightarrow> VMState outcome) \<Rightarrow>
    vm_op \<Rightarrow> VMState \<Rightarrow> VMState outcome" where
  "exec_op env sub subvm op s =
     (case op of
        OP_deref \<Rightarrow> check_e_stack s 1 (op_deref_sized env id (addr_size s) s)
      | OP_deref2 \<Rightarrow> check_e_stack s 1 (op_deref_sized env (\<lambda>v. scast (ucast v :: u16)) 2 s)
      | OP_deref_size \<Rightarrow> check_e_stack s 1 (
          rbind (read_u1 s) (\<lambda>(n, s1). op_deref_sized env id (unat n) s1))
      | OP_const \<Rightarrow> push_const TYPE_CLASS_CARDINAL (read_ia s)
      | OP_const1u \<Rightarrow> push_const TYPE_CLASS_CARDINAL (ret_fst ucast (read_u1 s))
      | OP_const1s \<Rightarrow> push_const TYPE_CLASS_INTEGER (ret_fst scast (read_u1 s))
      | OP_const2u \<Rightarrow> push_const TYPE_CLASS_CARDINAL (ret_fst ucast (read_u2 s))
      | OP_const2s \<Rightarrow> push_const TYPE_CLASS_INTEGER (ret_fst scast (read_u2 s))
      | OP_const4u \<Rightarrow> push_const TYPE_CLASS_CARDINAL (ret_fst ucast (read_u4 s))
      | OP_const4s \<Rightarrow> push_const TYPE_CLASS_INTEGER (ret_fst scast (read_u4 s))
      | OP_const8u \<Rightarrow> push_const TYPE_CLASS_CARDINAL (read_u8 s)
      | OP_const8s \<Rightarrow> push_const TYPE_CLASS_INTEGER (read_u8 s)
      | OP_constu \<Rightarrow> push_const TYPE_CLASS_CARDINAL (read_u8leb128 s)
      | OP_consts \<Rightarrow> push_const TYPE_CLASS_INTEGER (read_i8leb128 s)
      | OP_dup \<Rightarrow> op_copy 0 s
      | OP_drop \<Rightarrow> check_e_stack s 1 (Inr (s\<lparr>stk_pos := stk_pos s - 1\<rparr>))
      | OP_over \<Rightarrow> op_copy 1 s
      | OP_pick \<Rightarrow> rbind (read_u1 s) (\<lambda>(n, s1). op_copy (unat n) s1)
      | OP_swap \<Rightarrow> op_swap s
      | OP_rot \<Rightarrow> op_rot s
      | OP_xderef \<Rightarrow> check_e_stack s 2 (op_xderef_sized env (addr_size s) s)
      | OP_xderef_size \<Rightarrow> check_e_stack s 2 (
          rbind (read_u1 s) (\<lambda>(n, s1). op_xderef_sized env (unat n) s1))
      | OP_abs \<Rightarrow> un_op vm_abs s
      | OP_and \<Rightarrow> bin_op (\<lambda>x y. Inr (x AND y)) s
      | OP_div \<Rightarrow> bin_op vm_div s
      | OP_minus \<Rightarrow> bin_op (\<lambda>x y. Inr (x - y)) s
      | OP_mod \<Rightarrow> bin_op vm_mod s
      | OP_mul \<Rightarrow> bin_op (\<lambda>x y. Inr (x * y)) s
      | OP_neg \<Rightarrow> un_op (\<lambda>x. NOT x + 1) s
      | OP_not \<Rightarrow> un_op (\<lambda>x. NOT x) s
      | OP_or \<Rightarrow> bin_op (\<lambda>x y. Inr (x OR y)) s
      | OP_add \<Rightarrow> bin_op (\<lambda>x y. Inr (x + y)) s
      | OP_plus \<Rightarrow> bin_op (\<lambda>x y. Inr (x + y)) s
      | OP_plus_uconst \<Rightarrow> check_e_stack s 1 (
          rbind (read_u8leb128 s) (\<lambda>(d, s1). un_op (\<lambda>x. x + d) s1))
      | OP_shl \<Rightarrow> bin_op vm_shl s
      | OP_shr \<Rightarrow> bin_op vm_shr s
      | OP_shra \<Rightarrow> bin_op (\<lambda>x y. Inr (vm_shra x y)) s
      | OP_xor \<Rightarrow> bin_op (\<lambda>x y. Inr (x XOR y)) s
      | OP_bra \<Rightarrow> check_e_stack s 1 (
          rbind (read_u2 s) (\<lambda>(offs, s1).
          rbind (stk_get s1 (stk_pos s1 - 1)) (\<lambda>x.
          rbind (if x \<noteq> 0 then jump offs s1 else Inr s1) (\<lambda>s2.
          Inr (s2\<lparr>stk_pos := stk_pos s2 - 1\<rparr>)))))
      | OP_eq \<Rightarrow> cmp_op (=) s
      | OP_ge \<Rightarrow> cmp_op (\<lambda>x y. y \<le> x) s
      | OP_gt \<Rightarrow> cmp_op (\<lambda>x y. y < x) s
      | OP_le \<Rightarrow> cmp_op (\<le>) s
      | OP_lt \<Rightarrow> cmp_op (<) s
      | OP_ne \<Rightarrow> cmp_op (\<noteq>) s
      | OP_skip \<Rightarrow> rbind (read_u2 s) (\<lambda>(offs, s1). jump offs s1)
      | OP_lit n \<Rightarrow> push (word_of_nat n) TYPE_CLASS_CARDINAL s
      | OP_regn n \<Rightarrow> set_reg env ''OP_reg* must be last instruction'' (word_of_nat n) s
      | OP_regx \<Rightarrow> rbind (read_u4leb128 s) (\<lambda>(n, s1).
          set_reg env ''OP_regx must be last instruction'' n s1)
      | OP_reg \<Rightarrow> rbind (read_ua s) (\<lambda>(n, s1).
          set_reg env ''OP_reg must be last instruction'' (ucast n) s1)
      | OP_bregn n \<Rightarrow> push_reg env (word_of_nat n) True s
      | OP_bregx \<Rightarrow> rbind (read_u4leb128 s) (\<lambda>(n, s1). push_reg env n True s1)
      | OP_basereg \<Rightarrow> rbind (read_ua s) (\<lambda>(n, s1). push_reg env (ucast n) False s1)
      | OP_call_frame_cfa \<Rightarrow>
          (case stack_frame s of
             None \<Rightarrow> str_exception ERR_INV_ADDRESS ''Stack frame address not available''
           | Some fr \<Rightarrow> push (fp fr) TYPE_CLASS_CARDINAL s)
      | OP_nop \<Rightarrow> Inr s
      | OP_push_object_address \<Rightarrow>
          (case args s of
             [] \<Rightarrow> exception ERR_INV_CONT_OBJ
           | a # _ \<Rightarrow> push a TYPE_CLASS_CARDINAL s)
      | OP_piece \<Rightarrow> rbind (add_piece s) (\<lambda>(p, s1).
          rbind (read_u4leb128 s1) (\<lambda>(n, s2). Inr (put_piece (p\<lparr>piece_size := unat n\<rparr>) s2)))
      | OP_bit_piece \<Rightarrow> rbind (add_piece s) (\<lambda>(p, s1).
          rbind (read_u4leb128 s1) (\<lambda>(n, s2).
          rbind (read_u4leb128 s2) (\<lambda>(m, s3).
          Inr (put_piece (p\<lparr>bit_size := n, bit_offs := m\<rparr>) s3))))
      | OP_implicit_value \<Rightarrow> op_implicit_value s
      | OP_stack_value \<Rightarrow> op_stack_value s
      | OP_GNU_const_type \<Rightarrow> inv_dwarf ''Unsupported type in OP_GNU_const_type''
      | OP_GNU_regval_type \<Rightarrow> inv_dwarf ''Unsupported type in OP_GNU_regval_type''
      | OP_GNU_deref_type \<Rightarrow> inv_dwarf ''Unsupported type in OP_GNU_deref_type''
      | OP_GNU_convert \<Rightarrow> inv_dwarf ''Unsupported type in OP_GNU_convert''
      | OP_TCF_switch \<Rightarrow> op_tcf_switch sub s
      | OP_TCF_offset \<Rightarrow> op_tcf_offset s
      | OP_GNU_entry_value \<Rightarrow> op_entry_value env subvm s
      | OP_client op' \<Rightarrow> op_client env op' s)"

text \<open>The end of \<^verbatim>\<open>evaluate_vm_expression\<close>: a pending register, value or implicit pointer
  becomes a piece.\<close>

definition finish_expression :: "VMState \<Rightarrow> VMState outcome" where
  "finish_expression s =
     (if reg_def s \<noteq> None \<or> value_addr s \<noteq> None \<or> implicit_pointer s \<noteq> 0
      then rbind (add_piece s) (\<lambda>(p, s1). Inr (put_piece p s1)) else Inr s)"

definition start_expression :: "VMState \<Rightarrow> VMState" where
  "start_expression s = s\<lparr>implicit_pointer := 0, value_addr := None, reg_def := None\<rparr>"

definition not_empty :: "(VMState \<Rightarrow> VMState outcome) \<Rightarrow> VMState \<Rightarrow> VMState outcome" where
  "not_empty ev s = (if code_len s = 0 then inv_dwarf ''location expression size = 0'' else ev s)"

text \<open>The evaluation loop with fuel for the number of operations executed, nested ones included.\<close>

fun evaluate_loop :: "vm_env \<Rightarrow> nat \<Rightarrow> VMState \<Rightarrow> VMState outcome" where
  "evaluate_loop env 0 s = Inl Out_Of_Fuel"
| "evaluate_loop env (Suc fuel) s =
     (if code_pos s < code_len s then
        rbind (read_u1 s) (\<lambda>(op, s1).
        rbind (exec_op env
                 (not_empty (\<lambda>t. evaluate_loop env fuel t))
                 (\<lambda>t. rbind (not_empty (\<lambda>t'. evaluate_loop env fuel t') (start_expression t))
                        finish_expression)
                 (decode_op op) (grow_stack s1)) (\<lambda>s2.
        evaluate_loop env fuel s2))
      else Inr s)"

definition evaluate_expression :: "vm_env \<Rightarrow> nat \<Rightarrow> VMState \<Rightarrow> VMState outcome" where
  "evaluate_expression env fuel s = not_empty (evaluate_loop env fuel) s"

definition evaluate_vm_expression :: "vm_env \<Rightarrow> nat \<Rightarrow> VMState \<Rightarrow> VMState outcome" where
  "evaluate_vm_expression env fuel s =
     rbind (evaluate_expression env fuel (start_expression s)) finish_expression"


section \<open>LEB128\<close>

text \<open>The code of the state continues with the given bytes.\<close>

definition code_at :: "VMState \<Rightarrow> byte list \<Rightarrow> bool" where
  "code_at s bs \<longleftrightarrow> code_pos s + length bs \<le> code_len s \<and> code_len s \<le> length (code s) \<and>
     take (length bs) (drop (code_pos s) (code s)) = bs"

definition advance :: "VMState \<Rightarrow> nat \<Rightarrow> VMState" where
  "advance s n = s\<lparr>code_pos := code_pos s + n\<rparr>"

lemma advance_simps [simp]:
  "advance s 0 = s" "advance (advance s m) n = advance s (m + n)"
  "code_pos (advance s n) = code_pos s + n" "code_len (advance s n) = code_len s"
  "code (advance s n) = code s" "stk (advance s n) = stk s" "type_stk (advance s n) = type_stk s"
  "stk_pos (advance s n) = stk_pos s" "stk_max (advance s n) = stk_max s"
  by (simp_all add: advance_def)

lemma code_at_Cons:
  assumes "code_at s (b # bs)"
  shows "read_u1 s = Inr (b, advance s 1)" "code_at (advance s 1) bs"
proof -
  from assms have l: "code_pos s < length (code s)" "code_pos s < code_len s"
    by (auto simp: code_at_def)
  then have d: "drop (code_pos s) (code s) = code s ! code_pos s # drop (Suc (code_pos s)) (code s)"
    by (simp add: Cons_nth_drop_Suc)
  with assms have "code s ! code_pos s = b" by (simp add: code_at_def)
  with l show "read_u1 s = Inr (b, advance s 1)" by (simp add: read_u1_def advance_def)
  from assms d show "code_at (advance s 1) bs" by (simp add: code_at_def)
qed

lemma code_at_append:
  assumes "code_at s (xs @ ys)"
  shows "code_at s xs" "code_at (advance s (length xs)) ys"
proof -
  let ?d = "drop (code_pos s) (code s)"
  have t: "take (length xs + length ys) ?d = xs @ ys" and l: "code_pos s + (length xs + length ys) \<le> code_len s"
    "code_len s \<le> length (code s)"
    using assms by (auto simp: code_at_def)
  have "take (length xs) ?d = take (length xs) (take (length xs + length ys) ?d)" by simp
  then show "code_at s xs" using t l by (simp add: code_at_def)
  have "take (length ys) (drop (length xs) ?d) = drop (length xs) (take (length xs + length ys) ?d)"
    by (simp add: drop_take)
  then show "code_at (advance s (length xs)) ys" using t l by (simp add: code_at_def add.commute)
qed

interpretation vm_u4: uleb128_loop u4leb128_loop code_at advance "\<lambda>b i res. res" "\<lambda>w s. Inr (w, s)"
  by unfold_locales (auto simp: u4leb128_loop.simps code_at_Cons code_at_Cons(2) [simplified] Let_def)

interpretation vm_u8: uleb128_loop u8leb128_loop code_at advance "\<lambda>b i res. res" "\<lambda>w s. Inr (w, s)"
  by unfold_locales (auto simp: u8leb128_loop.simps code_at_Cons code_at_Cons(2) [simplified] Let_def)

interpretation vm_i8: sleb128_loop i8leb128_loop code_at advance
    "\<lambda>b i res. res OR push_bit i (- ucast (b AND 0x40))" "\<lambda>w s. Inr (w, s)"
  by unfold_locales (auto simp: i8leb128_loop.simps code_at_Cons code_at_Cons(2) [simplified] Let_def)

lemma read_u8leb128_uleb:
  assumes "code_at s (uleb (unat w))"
  shows "read_u8leb128 s = Inr (w, advance s (length (uleb (unat w))))"
  using vm_u8.loop_word [of s w "[]"] assms by (simp add: read_u8leb128_def)

section \<open>The stack\<close>

definition vm_inv :: "VMState \<Rightarrow> bool" where
  "vm_inv s \<longleftrightarrow> length (stk s) = stk_max s \<and> length (type_stk s) = stk_max s \<and>
     stk_pos s \<le> stk_max s \<and> code_len s \<le> length (code s)"

definition has_room :: "VMState \<Rightarrow> bool" where
  "has_room s \<longleftrightarrow> vm_inv s \<and> stk_pos s + 4 \<le> stk_max s"

text \<open>The elements in use, top of the stack first.\<close>

definition vstack :: "VMState \<Rightarrow> u64 list" where
  "vstack s = rev (take (stk_pos s) (stk s))"

text \<open>Two states that differ in their stacks only.\<close>

definition same_rest :: "VMState \<Rightarrow> VMState \<Rightarrow> bool" where
  "same_rest s s' \<longleftrightarrow> code s' = code s \<and> code_pos s' = code_pos s \<and> code_len s' = code_len s \<and>
     reg_def s' = reg_def s \<and> value_addr s' = value_addr s \<and> value_size s' = value_size s \<and>
     implicit_pointer s' = implicit_pointer s \<and> pieces s' = pieces s \<and> addr_size s' = addr_size s \<and>
     big_endian s' = big_endian s \<and> stack_frame s' = stack_frame s \<and> args s' = args s"

lemma same_rest_refl [simp]: "same_rest s s"
  by (simp add: same_rest_def)

lemma same_rest_trans: "same_rest s s' \<Longrightarrow> same_rest s' s'' \<Longrightarrow> same_rest s s''"
  by (simp add: same_rest_def)

lemma grow_stack_ok:
  assumes "vm_inv s"
  shows "has_room (grow_stack s)" "same_rest s (grow_stack s)" "vstack (grow_stack s) = vstack s"
    "stk_pos (grow_stack s) = stk_pos s"
  using assms by (auto simp: grow_stack_def has_room_def vm_inv_def same_rest_def vstack_def)

lemma vstack_length: "vm_inv s \<Longrightarrow> length (vstack s) = stk_pos s"
  by (simp add: vstack_def vm_inv_def)

lemma vstack_Cons:
  assumes "vm_inv s" "stk_pos s > 0"
  shows "vstack s = stk s ! (stk_pos s - 1) # rev (take (stk_pos s - 1) (stk s))"
proof -
  obtain p where p: "stk_pos s = Suc p" using assms(2) by (cases "stk_pos s") auto
  with assms(1) show ?thesis by (simp add: vstack_def vm_inv_def take_Suc_conv_app_nth)
qed

lemma push_ok:
  assumes "has_room s"
  shows "\<exists>s'. push v t s = Inr s' \<and> vm_inv s' \<and> same_rest s s' \<and> vstack s' = v # vstack s"
  using assms
  by (auto simp: push_def stk_put_def type_put_def has_room_def vm_inv_def same_rest_def vstack_def
      take_Suc_conv_app_nth)

lemma un_op_ok:
  assumes "vm_inv s" "vstack s = x # xs"
  shows "\<exists>s'. un_op f s = Inr s' \<and> vm_inv s' \<and> same_rest s s' \<and> vstack s' = f x # xs"
proof -
  have p: "stk_pos s > 0" using assms vstack_length [OF assms(1)] by auto
  have x: "stk s ! (stk_pos s - 1) = x" "rev (take (stk_pos s - 1) (stk s)) = xs"
    using vstack_Cons [OF assms(1) p] assms(2) by auto
  let ?s = "s\<lparr>stk := (stk s)[stk_pos s - 1 := f x]\<rparr>"
  have i: "vm_inv ?s" using assms(1) by (simp add: vm_inv_def)
  have "vstack ?s = f x # xs"
    using vstack_Cons [OF i] p x assms(1) by (auto simp: vm_inv_def)
  moreover have "un_op f s = Inr ?s"
    using p x assms(1) by (auto simp: un_op_def check_e_stack_def stk_get_def stk_put_def vm_inv_def)
  ultimately show ?thesis using i by (auto simp: same_rest_def)
qed

lemma bin_op_ok:
  assumes "vm_inv s" "vstack s = y # x # xs"
  shows "case f x y of
      Inl e \<Rightarrow> bin_op f s = Inl e
    | Inr z \<Rightarrow> \<exists>s'. bin_op f s = Inr s' \<and> vm_inv s' \<and> same_rest s s' \<and> vstack s' = z # xs"
proof -
  obtain p where p: "stk_pos s = Suc (Suc p)"
    using assms vstack_length [OF assms(1)] by (cases "stk_pos s"; cases "stk_pos s - 1") auto
  have l: "Suc p < length (stk s)" using p assms(1) by (simp add: vm_inv_def)
  have v: "stk s ! Suc p = y" "stk s ! p = x" "rev (take p (stk s)) = xs"
    using assms(2) l by (simp_all add: vstack_def p take_Suc_conv_app_nth)
  show ?thesis
  proof (cases "f x y")
    case (Inl e)
    with p l v show ?thesis by (simp add: bin_op_def check_e_stack_def stk_get_def Let_def)
  next
    case (Inr z)
    let ?s = "s\<lparr>stk_pos := Suc p, stk := (stk s)[p := z]\<rparr>"
    have "bin_op f s = Inr ?s"
      using Inr p l v by (simp add: bin_op_def check_e_stack_def stk_get_def stk_put_def Let_def)
    moreover have "vm_inv ?s" using assms(1) p by (simp add: vm_inv_def)
    moreover have "vstack ?s = z # xs" using l v by (simp add: vstack_def take_Suc_conv_app_nth)
    ultimately show ?thesis using Inr by (auto simp: same_rest_def)
  qed
qed

lemma type_put_ok:
  "vm_inv s \<Longrightarrow> i < stk_max s \<Longrightarrow> \<exists>s'. type_put i t s = Inr s' \<and> vm_inv s' \<and> same_rest s s' \<and>
    vstack s' = vstack s"
  by (auto simp: type_put_def vm_inv_def same_rest_def vstack_def)

lemma cmp_op_ok:
  assumes "vm_inv s" "vstack s = y # x # xs"
  shows "\<exists>s'. cmp_op f s = Inr s' \<and> vm_inv s' \<and> same_rest s s' \<and>
    vstack s' = (if f x y then 1 else 0) # xs"
proof -
  obtain s1 where s1: "bin_op (\<lambda>x y. Inr (if f x y then 1 else 0)) s = Inr s1" "vm_inv s1"
      "same_rest s s1" "vstack s1 = (if f x y then 1 else 0) # xs"
    using bin_op_ok [OF assms, of "\<lambda>x y. Inr (if f x y then 1 else 0)"] by auto
  have "stk_pos s1 - 1 < stk_max s1"
    using s1(2,4) vstack_length [OF s1(2)] by (auto simp: vm_inv_def)
  from type_put_ok [OF s1(2) this, of TYPE_CLASS_CARDINAL] s1 show ?thesis
    by (auto simp: cmp_op_def intro: same_rest_trans)
qed


section \<open>Evaluating compiled expressions\<close>

text \<open>Arithmetic expressions, their values, and their code.\<close>

datatype vunop = V_abs | V_neg | V_not
datatype vbinop =
    V_and | V_or | V_xor | V_plus | V_minus | V_mul | V_div | V_mod | V_shl | V_shr | V_shra
  | V_eq | V_ge | V_gt | V_le | V_lt | V_ne

datatype vexp = V_const u64 | V_un vunop vexp | V_bin vbinop vexp vexp

fun un_val :: "vunop \<Rightarrow> u64 \<Rightarrow> u64" where
  "un_val V_abs x = (if sint x < 0 then - x else x)"
| "un_val V_neg x = - x"
| "un_val V_not x = NOT x"

text \<open>The arithmetic right shift of a 64 bit number, read as a signed one.\<close>

definition sar :: "u64 \<Rightarrow> nat \<Rightarrow> u64" where
  "sar x n = word_of_int (drop_bit n (sint x))"

fun bin_val :: "vbinop \<Rightarrow> u64 \<Rightarrow> u64 \<Rightarrow> u64 outcome" where
  "bin_val V_and x y = Inr (x AND y)"
| "bin_val V_or x y = Inr (x OR y)"
| "bin_val V_xor x y = Inr (x XOR y)"
| "bin_val V_plus x y = Inr (x + y)"
| "bin_val V_minus x y = Inr (x - y)"
| "bin_val V_mul x y = Inr (x * y)"
| "bin_val V_div x y = (if y = 0 then str_exception ERR_INV_DWARF ''Division by zero in location expression''
                        else Inr (x div y))"
| "bin_val V_mod x y = (if y = 0 then str_exception ERR_INV_DWARF ''Division by zero in location expression''
                        else Inr (x mod y))"
| "bin_val V_shl x y = (if y < 64 then Inr (push_bit (unat y) x) else Inl Undefined_Behaviour)"
| "bin_val V_shr x y = (if y < 64 then Inr (drop_bit (unat y) x) else Inl Undefined_Behaviour)"
| "bin_val V_shra x y = Inr (sar x (unat y))"
| "bin_val V_eq x y = Inr (of_bool (x = y))"
| "bin_val V_ge x y = Inr (of_bool (x \<ge> y))"
| "bin_val V_gt x y = Inr (of_bool (x > y))"
| "bin_val V_le x y = Inr (of_bool (x \<le> y))"
| "bin_val V_lt x y = Inr (of_bool (x < y))"
| "bin_val V_ne x y = Inr (of_bool (x \<noteq> y))"

fun veval :: "vexp \<Rightarrow> u64 outcome" where
  "veval (V_const w) = Inr w"
| "veval (V_un f e) = rbind (veval e) (\<lambda>x. Inr (un_val f x))"
| "veval (V_bin f a b) = rbind (veval a) (\<lambda>x. rbind (veval b) (\<lambda>y. bin_val f x y))"

fun un_code :: "vunop \<Rightarrow> byte" where
  "un_code V_abs = 0x19" | "un_code V_neg = 0x1f" | "un_code V_not = 0x20"

fun bin_code :: "vbinop \<Rightarrow> byte" where
  "bin_code V_and = 0x1a" | "bin_code V_or = 0x21" | "bin_code V_xor = 0x27"
| "bin_code V_plus = 0x22" | "bin_code V_minus = 0x1c" | "bin_code V_mul = 0x1e"
| "bin_code V_div = 0x1b" | "bin_code V_mod = 0x1d" | "bin_code V_shl = 0x24"
| "bin_code V_shr = 0x25" | "bin_code V_shra = 0x26" | "bin_code V_eq = 0x29"
| "bin_code V_ge = 0x2a" | "bin_code V_gt = 0x2b" | "bin_code V_le = 0x2c"
| "bin_code V_lt = 0x2d" | "bin_code V_ne = 0x2e"

fun vcode :: "vexp \<Rightarrow> byte list" where
  "vcode (V_const w) = 0x10 # uleb (unat w)"
| "vcode (V_un f e) = vcode e @ [un_code f]"
| "vcode (V_bin f a b) = vcode a @ vcode b @ [bin_code f]"

fun vops :: "vexp \<Rightarrow> nat" where
  "vops (V_const w) = 1"
| "vops (V_un f e) = vops e + 1"
| "vops (V_bin f a b) = vops a + vops b + 1"

subsection \<open>The arithmetic right shift\<close>

lemma bit_sign_mask: "bit (push_bit 63 1 :: u64) k \<longleftrightarrow> k = 63"
  by (subst bit_push_bit_iff) (auto simp: bit_1_iff)

lemma sign_bit_and: "(d :: u64) AND push_bit 63 1 \<noteq> 0 \<longleftrightarrow> bit d 63"
  using and_exp_eq_0_iff_not_bit [of d 63] by (simp add: push_bit_eq_mult)

lemma bit_sar: "bit (sar x n) k \<longleftrightarrow> k < 64 \<and> bit x (min 63 (n + k))"
  by (auto simp: sar_def bit_simps bit_sint_iff min_def)

lemma shra_step:
  "(if d AND push_bit 63 1 \<noteq> 0 then drop_bit 1 d OR push_bit 63 1 else drop_bit 1 d) = sar d 1"
  unfolding sign_bit_and
proof (rule bit_word_eqI)
  fix k assume k: "k < LENGTH(64)"
  have "bit (drop_bit 1 d) k \<longleftrightarrow> bit d (Suc k)" by (simp add: bit_drop_bit_eq)
  moreover have "\<not> bit d 64" using bit_imp_le_length [of d 64] by auto
  moreover have "min 63 (1 + k) = (if k = 63 then 63 else Suc k)" using k by simp
  ultimately show "bit (if bit d 63 then drop_bit 1 d OR push_bit 63 1 else drop_bit 1 d) k = bit (sar d 1) k"
    using k unfolding bit_sar by (cases "k = 63"; cases "bit d 63")
      (simp_all only: bit_or_iff bit_sign_mask if_True if_False, simp_all)
qed

lemma sar_sar: "sar (sar x m) n = sar x (m + n)"
  by (rule bit_word_eqI) (auto simp: bit_sar min_def algebra_simps)

lemma sar_0: "sar x 0 = x"
proof (rule bit_word_eqI)
  fix k assume "k < LENGTH(64)"
  then have "min 63 (0 + k) = k" by simp
  with \<open>k < LENGTH(64)\<close> show "bit (sar x 0) k = bit x k" by (simp add: bit_sar)
qed

lemma shra_loop_sar: "shra_loop n d = sar d n"
proof (induction n arbitrary: d)
  case (Suc n)
  have "shra_loop (Suc n) d = shra_loop n (sar d 1)"
    unfolding shra_loop.simps Let_def shra_step ..
  then show ?case using Suc by (simp add: sar_sar)
qed (simp add: sar_0)

lemma vm_shra_sar: "vm_shra x y = sar x (unat y)"
proof (cases "y \<ge> 64")
  case True
  then have "64 \<le> unat y" by (simp add: word_le_nat_alt)
  then have "(if bit x 63 then NOT 0 else 0) = sar x (unat y)"
    by (intro bit_word_eqI) (auto simp: bit_sar bit_simps min_def)
  with True show ?thesis unfolding vm_shra_def sign_bit_and by simp
next
  case False
  then show ?thesis by (simp add: vm_shra_def shra_loop_sar)
qed

subsection \<open>Compiled code\<close>

lemma decode_un: "decode_op (un_code f) = (case f of V_abs \<Rightarrow> OP_abs | V_neg \<Rightarrow> OP_neg | V_not \<Rightarrow> OP_not)"
  by (cases f) (simp_all add: decode_op_def op_table_def)

lemma decode_bin: "decode_op (bin_code f) = (case f of
    V_and \<Rightarrow> OP_and | V_or \<Rightarrow> OP_or | V_xor \<Rightarrow> OP_xor | V_plus \<Rightarrow> OP_plus | V_minus \<Rightarrow> OP_minus
  | V_mul \<Rightarrow> OP_mul | V_div \<Rightarrow> OP_div | V_mod \<Rightarrow> OP_mod | V_shl \<Rightarrow> OP_shl | V_shr \<Rightarrow> OP_shr
  | V_shra \<Rightarrow> OP_shra | V_eq \<Rightarrow> OP_eq | V_ge \<Rightarrow> OP_ge | V_gt \<Rightarrow> OP_gt | V_le \<Rightarrow> OP_le
  | V_lt \<Rightarrow> OP_lt | V_ne \<Rightarrow> OP_ne)"
  by (cases f) (simp_all add: decode_op_def op_table_def)

lemma decode_constu: "decode_op 0x10 = OP_constu"
  by (simp add: decode_op_def op_table_def)

lemma op_vals:
  "vm_abs = un_val V_abs" "(\<lambda>x. NOT x + 1) = un_val V_neg" "(\<lambda>x. NOT x) = un_val V_not"
  "vm_div = bin_val V_div" "vm_mod = bin_val V_mod" "vm_shl = bin_val V_shl" "vm_shr = bin_val V_shr"
  "(\<lambda>x y. Inr (vm_shra x y)) = bin_val V_shra"
  by (intro ext, simp add: vm_abs_def vm_div_def vm_mod_def vm_shl_def vm_shr_def vm_shra_sar
      inv_dwarf_def minus_eq_not_plus_1 not_le [symmetric])+

lemma exec_un: "exec_op env sub subvm (decode_op (un_code f)) s = un_op (un_val f) s"
  unfolding decode_un exec_op_def op_vals(1,3)
  by (cases f) (simp_all add: un_op_def minus_eq_not_plus_1)

definition is_cmp :: "vbinop \<Rightarrow> bool" where
  "is_cmp f \<longleftrightarrow> f \<in> {V_eq, V_ge, V_gt, V_le, V_lt, V_ne}"

lemma exec_bin_arith:
  "\<not> is_cmp f \<Longrightarrow> exec_op env sub subvm (decode_op (bin_code f)) s = bin_op (bin_val f) s"
  unfolding decode_bin exec_op_def op_vals
  by (cases f) (simp_all add: is_cmp_def bin_op_def)

lemma exec_bin_cmp:
  "is_cmp f \<Longrightarrow> \<exists>g. (\<forall>x y. bin_val f x y = Inr (if g x y then 1 else 0)) \<and>
     exec_op env sub subvm (decode_op (bin_code f)) s = cmp_op g s"
  unfolding decode_bin exec_op_def by (cases f) (auto simp: is_cmp_def)

lemma exec_bin:
  assumes "vm_inv s" "vstack s = y # x # xs"
  shows "case bin_val f x y of
      Inl e \<Rightarrow> exec_op env sub subvm (decode_op (bin_code f)) s = Inl e
    | Inr z \<Rightarrow> \<exists>s'. exec_op env sub subvm (decode_op (bin_code f)) s = Inr s' \<and> vm_inv s' \<and>
        same_rest s s' \<and> vstack s' = z # xs"
proof (cases "is_cmp f")
  case False
  show ?thesis unfolding exec_bin_arith [OF False] by (rule bin_op_ok [OF assms])
next
  case True
  obtain g where "\<forall>x y. bin_val f x y = Inr (if g x y then 1 else 0)"
      "exec_op env sub subvm (decode_op (bin_code f)) s = cmp_op g s"
    using exec_bin_cmp [OF True] by blast
  with cmp_op_ok [OF assms, of g] show ?thesis by simp
qed


text \<open>One round of the loop on an operation whose code is known.\<close>

lemma evaluate_loop_step:
  assumes "code_at s (b # bs)"
    "\<And>sub subvm. exec_op env sub subvm (decode_op b) (grow_stack (advance s 1)) = r"
  shows "evaluate_loop env (Suc fuel) s = rbind r (evaluate_loop env fuel)"
proof -
  have "code_pos s < code_len s" using assms(1) by (simp add: code_at_def)
  with code_at_Cons(1) [OF assms(1)] assms(2) show ?thesis by simp
qed

lemma vm_inv_advance [simp]: "vm_inv (advance s n) = vm_inv s" "vstack (advance s n) = vstack s"
  by (simp_all add: vm_inv_def vstack_def)

lemma code_at_same_rest: "same_rest s s' \<Longrightarrow> code_at s' bs = code_at s bs"
  by (simp add: same_rest_def code_at_def)

lemma same_rest_advance: "same_rest s s' \<Longrightarrow> same_rest (advance s n) (advance s' n)"
  by (simp add: same_rest_def advance_def)

definition pushed :: "VMState \<Rightarrow> nat \<Rightarrow> u64 \<Rightarrow> VMState \<Rightarrow> bool" where
  "pushed s n v s' \<longleftrightarrow> vm_inv s' \<and> same_rest (advance s n) s' \<and> vstack s' = v # vstack s"

lemma run_const:
  assumes "vm_inv s" "code_at s (vcode (V_const w))"
  shows "\<exists>s'. pushed s (length (vcode (V_const w))) w s' \<and>
    evaluate_loop env (Suc fuel) s = evaluate_loop env fuel s'"
proof -
  let ?n = "length (uleb (unat w))"
  have c: "code_at s (0x10 # uleb (unat w))" using assms(2) by simp
  let ?s = "grow_stack (advance s 1)"
  have i: "vm_inv (advance s 1)" using assms(1) by simp
  note g = grow_stack_ok [OF i]
  have "code_at ?s (uleb (unat w))"
    using code_at_Cons(2) [OF c] code_at_same_rest [OF g(2)] by simp
  note rd = read_u8leb128_uleb [OF this]
  have room: "has_room (advance ?s ?n)" using g(1) by (simp add: has_room_def)
  obtain s' where s': "push w TYPE_CLASS_CARDINAL (advance ?s ?n) = Inr s'" "vm_inv s'"
      "same_rest (advance ?s ?n) s'" "vstack s' = w # vstack (advance ?s ?n)"
    using push_ok [OF room] by blast
  have "exec_op env sub subvm (decode_op 0x10) ?s = Inr s'" for sub subvm
    using rd s'(1) by (simp add: decode_constu exec_op_def push_const_def)
  from evaluate_loop_step [OF c this, of fuel]
  have "evaluate_loop env (Suc fuel) s = evaluate_loop env fuel s'" by simp
  moreover have "same_rest (advance s (1 + ?n)) s'"
    using same_rest_trans [OF same_rest_advance [OF g(2), of ?n] s'(3)] by simp
  ultimately show ?thesis using s' g by (auto simp: pushed_def)
qed

lemma run_un:
  assumes "vm_inv s" "code_at s [un_code f]" "vstack s = x # xs"
  shows "\<exists>s'. vm_inv s' \<and> same_rest (advance s 1) s' \<and> vstack s' = un_val f x # xs \<and>
    evaluate_loop env (Suc fuel) s = evaluate_loop env fuel s'"
proof -
  have i: "vm_inv (advance s 1)" using assms(1) by simp
  note g = grow_stack_ok [OF i]
  have v: "vm_inv (grow_stack (advance s 1))" "vstack (grow_stack (advance s 1)) = x # xs"
    using g assms(3) by (simp_all add: has_room_def)
  obtain s' where s': "un_op (un_val f) (grow_stack (advance s 1)) = Inr s'" "vm_inv s'"
      "same_rest (grow_stack (advance s 1)) s'" "vstack s' = un_val f x # xs"
    using un_op_ok [OF v] by blast
  from evaluate_loop_step [OF assms(2), of env "Inr s'" fuel] s'(1)
  have "evaluate_loop env (Suc fuel) s = evaluate_loop env fuel s'" by (simp add: exec_un)
  with s' same_rest_trans [OF g(2) s'(3)] show ?thesis by blast
qed

lemma run_bin:
  assumes "vm_inv s" "code_at s [bin_code f]" "vstack s = y # x # xs"
  shows "case bin_val f x y of
      Inl e \<Rightarrow> evaluate_loop env (Suc fuel) s = Inl e
    | Inr z \<Rightarrow> \<exists>s'. vm_inv s' \<and> same_rest (advance s 1) s' \<and> vstack s' = z # xs \<and>
        evaluate_loop env (Suc fuel) s = evaluate_loop env fuel s'"
proof -
  let ?s = "grow_stack (advance s 1)"
  have i: "vm_inv (advance s 1)" using assms(1) by simp
  note g = grow_stack_ok [OF i]
  have v: "vm_inv ?s" "vstack ?s = y # x # xs"
    using g assms(3) by (simp_all add: has_room_def)
  define r where "r = exec_op env (\<lambda>s. Inr s) (\<lambda>s. Inr s) (decode_op (bin_code f)) ?s"
  have r: "exec_op env sub subvm (decode_op (bin_code f)) ?s = r" for sub subvm
    unfolding r_def decode_bin exec_op_def by (cases f) simp_all
  note step = evaluate_loop_step [OF assms(2) r, of fuel]
  show ?thesis
  proof (cases "bin_val f x y")
    case (Inl e)
    with exec_bin [OF v, where f = f and env = env] r have "r = Inl e" by simp
    with Inl step show ?thesis by simp
  next
    case (Inr z)
    with exec_bin [OF v, where f = f and env = env] r obtain s' where
      "r = Inr s'" "vm_inv s'" "same_rest ?s s'" "vstack s' = z # xs" by auto
    with Inr step same_rest_trans [OF g(2)] show ?thesis by auto
  qed
qed


text \<open>Compiled code evaluates the expression: it pushes the value, or it ends with the error.\<close>

lemma run_vexp:
  assumes "vm_inv s" "code_at s (vcode e)"
  shows "case veval e of
      Inl x \<Rightarrow> evaluate_loop env (vops e + fuel) s = Inl x
    | Inr v \<Rightarrow> \<exists>s'. pushed s (length (vcode e)) v s' \<and>
        evaluate_loop env (vops e + fuel) s = evaluate_loop env fuel s'"
  using assms
proof (induction e arbitrary: s fuel)
  case (V_const w)
  then show ?case using run_const [OF V_const, of env fuel] by simp
next
  case (V_un f e)
  note c = code_at_append [of s "vcode e" "[un_code f]"]
  have c1: "code_at s (vcode e)" "code_at (advance s (length (vcode e))) [un_code f]"
    using V_un.prems(2) c by simp_all
  note IH = V_un.IH [OF V_un.prems(1) c1(1), of "Suc fuel"]
  show ?case
  proof (cases "veval e")
    case (Inl x)
    with IH show ?thesis by simp
  next
    case (Inr v)
    with IH obtain s1 where s1: "pushed s (length (vcode e)) v s1"
        "evaluate_loop env (vops e + Suc fuel) s = evaluate_loop env (Suc fuel) s1" by auto
    have "code_at s1 [un_code f]" "vm_inv s1" "vstack s1 = v # vstack s"
      using s1(1) c1(2) by (auto simp: pushed_def code_at_same_rest)
    then obtain s2 where s2: "vm_inv s2" "same_rest (advance s1 1) s2"
        "vstack s2 = un_val f v # vstack s" "evaluate_loop env (Suc fuel) s1 = evaluate_loop env fuel s2"
      using run_un by blast
    have "same_rest (advance s (length (vcode e) + 1)) s2"
      using same_rest_trans [OF same_rest_advance s2(2)] s1(1) by (fastforce simp: pushed_def)
    with s1(2) s2 Inr show ?thesis by (auto simp: pushed_def)
  qed
next
  case (V_bin f a b)
  have c1: "code_at s (vcode a)" "code_at (advance s (length (vcode a))) (vcode b @ [bin_code f])"
    using V_bin.prems(2) code_at_append [of s "vcode a" "vcode b @ [bin_code f]"] by simp_all
  have c2: "code_at (advance s (length (vcode a))) (vcode b)"
      "code_at (advance s (length (vcode a) + length (vcode b))) [bin_code f]"
    using code_at_append [OF c1(2)] by simp_all
  note IHa = V_bin.IH(1) [OF V_bin.prems(1) c1(1), of "vops b + Suc fuel"]
  show ?case
  proof (cases "veval a")
    case (Inl x)
    with IHa show ?thesis by (simp add: add.assoc)
  next
    case (Inr v)
    with IHa obtain s1 where s1: "pushed s (length (vcode a)) v s1"
        "evaluate_loop env (vops a + (vops b + Suc fuel)) s = evaluate_loop env (vops b + Suc fuel) s1"
      by auto
    have i1: "code_at s1 (vcode b)" "vm_inv s1" using s1(1) c2(1)
      by (auto simp: pushed_def code_at_same_rest)
    note IHb = V_bin.IH(2) [OF i1(2,1), of "Suc fuel"]
    show ?thesis
    proof (cases "veval b")
      case Inl2: (Inl x)
      with IHb Inr s1(2) show ?thesis by (simp add: add.assoc)
    next
      case Inr2: (Inr w)
      with IHb obtain s2 where s2: "pushed s1 (length (vcode b)) w s2"
          "evaluate_loop env (vops b + Suc fuel) s1 = evaluate_loop env (Suc fuel) s2" by auto
      have r: "same_rest (advance s (length (vcode a) + length (vcode b))) s2"
        using same_rest_trans [OF same_rest_advance, of _ s1 "length (vcode b)" s2] s1(1) s2(1)
        by (fastforce simp: pushed_def)
      have i2: "vm_inv s2" "code_at s2 [bin_code f]" "vstack s2 = w # v # vstack s"
        using s1(1) s2(1) c2(2) code_at_same_rest [OF r] by (auto simp: pushed_def)
      have "same_rest (advance s (length (vcode a) + length (vcode b) + 1)) s3"
        if "same_rest (advance s2 1) s3" for s3
        using same_rest_trans [OF same_rest_advance [OF r] that] by simp
      with run_bin [OF i2, of env fuel] s1(2) s2(2) Inr Inr2 show ?thesis
        by (cases "bin_val f v w") (fastforce simp: pushed_def add.assoc)+
    qed
  qed
qed

end
