(* ===== verification/VMProps.thy ===== *)
theory VMProps
  imports VM
begin

text \<open>
  Properties of the location expression machine: expressions compiled to its code evaluate to
  their values, LEB128 numbers are decoded, the well-formedness of the state is kept by every
  operation, offsets into pieces drop exactly the leading bits; and the inputs on which the code
  goes wrong.
\<close>

section \<open>The invariant\<close>

text \<open>\<open>keeps s m\<close>: if \<open>s\<close> is well-formed, then so is the state with which \<open>m\<close> returns,
  and it has the same code.\<close>

definition keeps :: "VMState \<Rightarrow> VMState outcome \<Rightarrow> bool" where
  "keeps s m \<longleftrightarrow> (\<forall>s'. vm_inv s \<longrightarrow> m = Inr s' \<longrightarrow> vm_inv s' \<and> code s' = code s)"

definition keeps2 :: "VMState \<Rightarrow> ('a \<times> VMState) outcome \<Rightarrow> bool" where
  "keeps2 s m \<longleftrightarrow> (\<forall>x s'. vm_inv s \<longrightarrow> m = Inr (x, s') \<longrightarrow> vm_inv s' \<and> code s' = code s)"

named_theorems keeps_intros

lemma keeps_rbind2 [keeps_intros]:
  assumes "keeps2 s m" "\<And>x s1. keeps s1 (f (x, s1))"
  shows "keeps s (rbind m f)"
proof (cases m)
  case (Inr p)
  with assms show ?thesis unfolding keeps_def keeps2_def by (cases p) (simp, metis)
qed (simp add: keeps_def)

lemma keeps2_rbind2 [keeps_intros]:
  assumes "keeps2 s m" "\<And>x s1. keeps2 s1 (f (x, s1))"
  shows "keeps2 s (rbind m f)"
proof (cases m)
  case (Inr p)
  with assms show ?thesis unfolding keeps2_def by (cases p) (simp, metis)
qed (simp add: keeps2_def)

lemma keeps_rbind_val:
  assumes "\<And>x. keeps s (f x)"
  shows "keeps s (rbind m f)"
  using assms by (cases m) (simp_all add: keeps_def)

lemma keeps_rbind:
  assumes "keeps s m" "\<And>s1. keeps s1 (f s1)"
  shows "keeps s (rbind m f)"
  using assms by (cases m) (simp add: keeps_def, simp add: keeps_def, metis)

lemma keeps_error [keeps_intros, simp]:
  "keeps s (inv_dwarf msg)" "keeps s (str_exception e msg)" "keeps s (exception e)" "keeps s (Inl x)"
  "keeps2 s (inv_dwarf msg)" "keeps2 s (Inl x)"
  by (auto simp: keeps_def keeps2_def inv_dwarf_def)

lemma keeps_check [keeps_intros]: "keeps s m \<Longrightarrow> keeps s (check_e_stack t n m)"
  by (simp add: check_e_stack_def)

lemma keeps_must_be_last [keeps_intros]: "keeps s m \<Longrightarrow> keeps s (must_be_last msg t m)"
  by (cases "is_end_of_loc_expr t") (auto simp: must_be_last_def)

lemma keeps_read_u1 [keeps_intros]: "keeps2 s (read_u1 s)"
  by (auto simp: keeps2_def read_u1_def inv_dwarf_def vm_inv_def split: if_splits)

lemma keeps2_ret [keeps_intros]: "keeps2 s (Inr (x, s))"
  by (simp add: keeps2_def)

lemma keeps2_map [keeps_intros]: "keeps2 s m \<Longrightarrow> keeps2 s (rbind m (\<lambda>(x, s1). Inr (f x, s1)))"
  by (cases m) (auto simp: keeps2_def)

lemma keeps_read_fixed [keeps_intros]:
  "keeps2 s (read_u2 s)" "keeps2 s (read_u4 s)" "keeps2 s (read_u8 s)"
proof -
  show 2: "keeps2 s (read_u2 s)" for s
    unfolding read_u2_def by (rule keeps2_rbind2) (auto intro!: keeps_intros)
  show 4: "keeps2 s (read_u4 s)" for s
    unfolding read_u4_def by (rule keeps2_rbind2 [OF 2]) (auto intro!: keeps2_map 2)
  show "keeps2 s (read_u8 s)"
    unfolding read_u8_def by (rule keeps2_rbind2 [OF 4]) (auto intro!: keeps2_map 4)
qed


lemma keeps_u4_loop: "keeps2 s (u4leb128_loop s i r)"
proof (induction s i r rule: u4leb128_loop.induct)
  case (1 s i res)
  show ?case
  proof (cases "read_u1 s")
    case (Inl e)
    then show ?thesis by (subst u4leb128_loop.simps) simp
  next
    case (Inr p)
    obtain n s1 where p: "p = (n, s1)" by (cases p)
    from keeps_read_u1 [of s] Inr p have "vm_inv s \<longrightarrow> vm_inv s1 \<and> code s1 = code s"
      by (simp add: keeps2_def)
    then have k: "keeps2 s m" if "keeps2 s1 m" for m :: "(u32 \<times> VMState) outcome"
      using that unfolding keeps2_def by metis
    show ?thesis
    proof (cases "i \<ge> 32 \<or> n AND 0x80 = 0")
      case True
      then have "keeps2 s1 (u4leb128_loop s i res)"
        using Inr p by (subst u4leb128_loop.simps) (auto simp: Let_def keeps2_def)
      then show ?thesis by (rule k)
    next
      case False
      then have "u4leb128_loop s i res = u4leb128_loop s1 (i + 7) (res OR push_bit i (ucast (n AND 0x7F)))"
        using Inr p by (subst u4leb128_loop.simps) (simp add: Let_def)
      with "1.IH" [OF Inr [unfolded p] refl _ refl] False show ?thesis by (auto intro: k)
    qed
  qed
qed

lemma keeps_u8_loop: "keeps2 s (u8leb128_loop s i r)"
proof (induction s i r rule: u8leb128_loop.induct)
  case (1 s i res)
  show ?case
  proof (cases "read_u1 s")
    case (Inl e)
    then show ?thesis by (subst u8leb128_loop.simps) simp
  next
    case (Inr p)
    obtain n s1 where p: "p = (n, s1)" by (cases p)
    from keeps_read_u1 [of s] Inr p have "vm_inv s \<longrightarrow> vm_inv s1 \<and> code s1 = code s"
      by (simp add: keeps2_def)
    then have k: "keeps2 s m" if "keeps2 s1 m" for m :: "(u64 \<times> VMState) outcome"
      using that unfolding keeps2_def by metis
    show ?thesis
    proof (cases "i \<ge> 64 \<or> n AND 0x80 = 0")
      case True
      then have "keeps2 s1 (u8leb128_loop s i res)"
        using Inr p by (subst u8leb128_loop.simps) (auto simp: Let_def keeps2_def)
      then show ?thesis by (rule k)
    next
      case False
      then have "u8leb128_loop s i res = u8leb128_loop s1 (i + 7) (res OR push_bit i (ucast (n AND 0x7F)))"
        using Inr p by (subst u8leb128_loop.simps) (simp add: Let_def)
      with "1.IH" [OF Inr [unfolded p] refl _ refl] False show ?thesis by (auto intro: k)
    qed
  qed
qed

lemma keeps_i8_loop: "keeps2 s (i8leb128_loop s i r)"
proof (induction s i r rule: i8leb128_loop.induct)
  case (1 s i res)
  show ?case
  proof (cases "read_u1 s")
    case (Inl e)
    then show ?thesis by (subst i8leb128_loop.simps) simp
  next
    case (Inr p)
    obtain n s1 where p: "p = (n, s1)" by (cases p)
    from keeps_read_u1 [of s] Inr p have "vm_inv s \<longrightarrow> vm_inv s1 \<and> code s1 = code s"
      by (simp add: keeps2_def)
    then have k: "keeps2 s m" if "keeps2 s1 m" for m :: "(u64 \<times> VMState) outcome"
      using that unfolding keeps2_def by metis
    show ?thesis
    proof (cases "i \<ge> 64 \<or> n AND 0x80 = 0")
      case True
      then have "keeps2 s1 (i8leb128_loop s i res)"
        using Inr p by (subst i8leb128_loop.simps) (auto simp: Let_def keeps2_def)
      then show ?thesis by (rule k)
    next
      case False
      then have "i8leb128_loop s i res = i8leb128_loop s1 (i + 7) (res OR push_bit i (ucast (n AND 0x7F)))"
        using Inr p by (subst i8leb128_loop.simps) (simp add: Let_def)
      with "1.IH" [OF Inr [unfolded p] refl _ refl] False show ?thesis by (auto intro: k)
    qed
  qed
qed

lemma keeps_leb [keeps_intros]:
  "keeps2 s (read_u4leb128 s)" "keeps2 s (read_u8leb128 s)" "keeps2 s (read_i8leb128 s)"
  by (simp_all add: read_u4leb128_def read_u8leb128_def read_i8leb128_def keeps_u4_loop keeps_u8_loop
      keeps_i8_loop)

lemma keeps_ret_fst [keeps_intros]: "keeps2 s m \<Longrightarrow> keeps2 s (ret_fst f m)"
  by (simp add: ret_fst_def keeps2_map)

lemma keeps_addr [keeps_intros]: "keeps2 s (read_ia s)" "keeps2 s (read_ua s)"
  by (simp_all add: read_ia_def read_ua_def keeps_intros)

text \<open>The operations on the stack arrays.\<close>

lemma keeps_put [keeps_intros]: "keeps s (stk_put i v s)" "keeps s (type_put i t s)"
  by (auto simp: keeps_def stk_put_def type_put_def vm_inv_def split: if_splits)

lemma keeps_push [keeps_intros]: "keeps s (push v t s)"
  by (auto simp: keeps_def push_def stk_put_def type_put_def vm_inv_def split: if_splits)

lemma keeps_set_top [keeps_intros]: "keeps s (set_top v t s)"
  by (auto simp: keeps_def set_top_def stk_put_def type_put_def vm_inv_def split: if_splits)

lemma keeps_pop: "keeps s (Inr (s\<lparr>stk_pos := stk_pos s - Suc 0\<rparr>))"
  by (auto simp: keeps_def vm_inv_def)

lemma keeps_Inr: "(vm_inv s \<Longrightarrow> vm_inv s' \<and> code s' = code s) \<Longrightarrow> keeps s (Inr s')"
  by (simp add: keeps_def)

lemma keeps_un [keeps_intros]: "keeps s (un_op f s)"
  unfolding un_op_def by (intro keeps_check keeps_rbind_val keeps_put)

lemma keeps_bin [keeps_intros]: "keeps s (bin_op f s)"
  by (auto simp: keeps_def bin_op_def check_e_stack_def inv_dwarf_def stk_get_def stk_put_def Let_def
      outcome_simps vm_inv_def split: if_splits)

lemma keeps_cmp [keeps_intros]: "keeps s (cmp_op f s)"
  unfolding cmp_op_def by (intro keeps_rbind keeps_bin keeps_put)

lemma keeps_copy [keeps_intros]: "keeps s (op_copy n s)"
  unfolding op_copy_def by (intro keeps_check keeps_rbind_val keeps_push)

lemma keeps_swap [keeps_intros]: "keeps s (op_swap s)"
  unfolding op_swap_def Let_def
  by (intro keeps_check keeps_rbind_val keeps_rbind keeps_put)

lemma keeps_rot [keeps_intros]: "keeps s (op_rot s)"
  unfolding op_rot_def Let_def
  by (intro keeps_check keeps_rbind_val keeps_rbind keeps_put)

lemma keeps_deref [keeps_intros]: "keeps s (op_deref_sized env f n s)"
  unfolding op_deref_sized_def by (intro keeps_rbind_val keeps_set_top)

lemma keeps_xderef [keeps_intros]: "keeps s (op_xderef_sized env n s)"
  by (auto simp: keeps_def op_xderef_sized_def stk_get_def stk_put_def type_put_def outcome_simps
      vm_inv_def split: if_splits)

lemma keeps_push_const [keeps_intros]: "keeps2 s m \<Longrightarrow> keeps s (push_const t m)"
  unfolding push_const_def by (rule keeps_rbind2) (auto intro: keeps_push)

lemma keeps_jump [keeps_intros]: "keeps s (jump offs s)"
  by (auto simp: keeps_def jump_def Let_def inv_dwarf_def vm_inv_def split: if_splits)

lemma keeps_set_reg [keeps_intros]: "keeps s (set_reg env msg n s)"
  unfolding set_reg_def
  by (intro keeps_must_be_last keeps_rbind_val keeps_Inr) (simp add: vm_inv_def)

lemma keeps_push_reg [keeps_intros]: "keeps s (push_reg env n b s)"
  unfolding push_reg_def
  by (intro keeps_rbind_val) (auto intro!: keeps_rbind2 keeps_leb keeps_push)

lemma keeps_stack_value [keeps_intros]: "keeps s (op_stack_value s)"
  unfolding op_stack_value_def Let_def
  by (intro keeps_check keeps_rbind_val keeps_must_be_last keeps_Inr) (auto simp: vm_inv_def)

lemma keeps_implicit_value [keeps_intros]: "keeps s (op_implicit_value s)"
  unfolding op_implicit_value_def Let_def
  by (rule keeps_rbind2 [OF keeps_leb(1)])
    (auto intro!: keeps_must_be_last keeps_Inr simp: vm_inv_def)

lemma keeps_add_piece [keeps_intros]: "keeps2 s (add_piece s)"
  by (auto simp: keeps2_def add_piece_def stk_get_def outcome_simps vm_inv_def
      split: option.splits if_splits)

lemma vm_inv_put_piece [simp]: "vm_inv (put_piece p s) = vm_inv s" "code (put_piece p s) = code s"
  by (simp_all add: put_piece_def vm_inv_def)

lemma keeps_finish [keeps_intros]: "keeps s (finish_expression s)"
  unfolding finish_expression_def
  by (auto intro!: keeps_rbind2 [OF keeps_add_piece] keeps_Inr)


lemma keeps_tcf_offset [keeps_intros]: "keeps s (op_tcf_offset s)"
  unfolding op_tcf_offset_def
proof (rule keeps_rbind)
  show "keeps s (if reg_def s \<noteq> None \<or> value_addr s \<noteq> None
      then rbind (add_piece s) (\<lambda>(p, s1). Inr (put_piece p s1)) else Inr s)"
    by (auto intro!: keeps_rbind2 [OF keeps_add_piece] keeps_Inr)
next
  fix s1
  have "keeps s2 (let ps = offset_pieces offs 0 (pieces s2)
       in if ps = [] then inv_dwarf m else Inr (s2\<lparr>pieces := ps\<rparr>))" for s2 offs m
    by (auto simp: Let_def vm_inv_def intro!: keeps_Inr)
  moreover have "keeps s2 (rbind (stk_get s2 i) (\<lambda>x. rbind (stk_put j (x + d) s2) (\<lambda>s3.
       Inr (s3\<lparr>implicit_pointer := implicit_pointer s3 + 1\<rparr>))))" for s2 i j d
    by (intro keeps_rbind_val keeps_rbind keeps_put keeps_Inr) (simp add: vm_inv_def)
  ultimately show "keeps s1 (if pieces s1 \<noteq> [] then
       rbind (read_u4leb128 s1) (\<lambda>(offs, s2).
       let ps = offset_pieces offs 0 (pieces s2)
       in if ps = [] then inv_dwarf ''Invalid size of implicit value''
          else Inr (s2\<lparr>pieces := ps\<rparr>))
     else check_e_stack s1 1 (
       rbind (read_u8leb128 s1) (\<lambda>(d, s2).
       rbind (stk_get s2 (stk_pos s2 - 1)) (\<lambda>x.
       rbind (stk_put (stk_pos s2 - 1) (x + d) s2) (\<lambda>s3.
       Inr (s3\<lparr>implicit_pointer := implicit_pointer s3 + 1\<rparr>))))))"
    by (auto intro!: keeps_rbind2 [OF keeps_leb(1)] keeps_check keeps_rbind2 [OF keeps_leb(2)])
qed

text \<open>The code of a range of a switch ends inside of the code of the whole switch.\<close>

lemma keeps_switch_loop:
  assumes "\<And>t. keeps t (sub t)" "vm_inv s" "end_pos \<le> length (code s)"
    "switch_loop sub k n end_pos s = Inr s'"
  shows "vm_inv s' \<and> code s' = code s"
  using assms(2-4)
proof (induction k arbitrary: s)
  case 0
  then show ?case by simp
next
  case (Suc k)
  from Suc.prems(3) obtain d s1 where r1: "read_u2 s = Inr (d, s1)"
    by (cases "read_u2 s") (auto simp: outcome_simps split: prod.splits)
  define nxt where "nxt = unat d + code_pos s1"
  from Suc.prems(3) r1 have nxt: "nxt \<le> end_pos" "nxt \<noteq> code_pos s1"
    by (auto simp: Let_def nxt_def inv_dwarf_def split: if_splits)
  with Suc.prems(3) r1 obtain addr s2 where r2: "read_u8leb128 s1 = Inr (addr, s2)"
    by (cases "read_u8leb128 s1") (auto simp: Let_def nxt_def split: if_splits)
  with Suc.prems(3) r1 nxt obtain sz s3 where r3: "read_u8leb128 s2 = Inr (sz, s3)"
    by (cases "read_u8leb128 s2") (auto simp: Let_def nxt_def split: if_splits)
  have i1: "vm_inv s1 \<and> code s1 = code s"
    using keeps_read_fixed(1) [of s] r1 Suc.prems(1) by (simp add: keeps2_def)
  have i2: "vm_inv s2 \<and> code s2 = code s"
    using keeps_leb(2) [of s1] r2 i1 by (simp add: keeps2_def)
  have i3: "vm_inv s3 \<and> code s3 = code s"
    using keeps_leb(2) [of s2] r3 i2 by (simp add: keeps2_def)
  show ?case
  proof (cases "sz = 0 \<or> (n \<ge> addr \<and> n - addr < sz)")
    case True
    let ?t = "s3\<lparr>code_len := nxt\<rparr>"
    from Suc.prems(3) r1 r2 r3 nxt True obtain s4 where
      s4: "sub ?t = Inr s4" "s' = s4\<lparr>code_len := code_len s3\<rparr>"
      by (cases "sub ?t") (auto simp: Let_def nxt_def)
    have "vm_inv ?t" using i3 nxt Suc.prems(2) by (simp add: vm_inv_def)
    with assms(1) [of ?t] s4(1) i3 have "vm_inv s4" "code s4 = code s" by (auto simp: keeps_def)
    moreover have "code_len s3 \<le> length (code s)" using i3 unfolding vm_inv_def by metis
    ultimately show ?thesis using s4(2) by (simp add: vm_inv_def)
  next
    case False
    have "switch_loop sub k n end_pos (s3\<lparr>code_pos := nxt\<rparr>) = Inr s'"
      using Suc.prems(3) r1 r2 r3 nxt unfolding switch_loop.simps
      by (simp only: rbind_Inr split_conv Let_def nxt_def [symmetric] if_not_P [OF False] not_less
          simp_thms if_False) (simp add: not_less)
    moreover have "vm_inv (s3\<lparr>code_pos := nxt\<rparr>)" using i3 by (auto simp: vm_inv_def)
    ultimately show ?thesis using Suc.IH [of "s3\<lparr>code_pos := nxt\<rparr>"] Suc.prems(2) i3 by simp
  qed
qed


lemma keeps_tcf_switch:
  assumes "\<And>t. keeps t (sub t)"
  shows "keeps s (op_tcf_switch sub s)"
  unfolding keeps_def
proof (intro allI impI)
  fix s'
  assume inv: "vm_inv s" and r: "op_tcf_switch sub s = Inr s'"
  let ?s = "s\<lparr>stk_pos := stk_pos s - 1\<rparr>"
  from r obtain n d s1 s2 where d: "read_u2 ?s = Inr (d, s1)" "\<not> unat d + code_pos s1 > code_len s1"
      "switch_loop sub (code_len s1 + 1) n (unat d + code_pos s1) s1 = Inr s2"
      "s' = s2\<lparr>code_pos := unat d + code_pos s1\<rparr>"
    by (auto simp: op_tcf_switch_def check_e_stack_def inv_dwarf_def Let_def outcome_simps
        simp del: switch_loop.simps split: if_splits prod.splits)
  have "vm_inv ?s" using inv by (auto simp: vm_inv_def)
  with keeps_read_fixed(1) [of ?s] d(1) have i: "vm_inv s1" "code s1 = code s"
    by (auto simp: keeps2_def)
  then have "unat d + code_pos s1 \<le> length (code s1)" using d(2) by (auto simp: vm_inv_def)
  from keeps_switch_loop [OF assms i(1) this d(3)] i(2) d(4) show "vm_inv s' \<and> code s' = code s"
    by (auto simp: vm_inv_def)
qed

lemma keeps_entry_value: "keeps s (op_entry_value env subvm s)"
  unfolding op_entry_value_def
proof (rule keeps_rbind2 [OF keeps_leb(1)], unfold split_conv, (rule keeps_rbind_val)+)
  fix n s1 fr e p
  have "keeps s1 (rbind (push x t s1) (\<lambda>s2.
     Inr (s2\<lparr>code_pos := q, reg_def := rd, value_addr := va, value_size := vs, implicit_pointer := ip\<rparr>)))"
    for x t q rd va vs ip
    by (intro keeps_rbind keeps_push keeps_Inr) (simp add: vm_inv_def)
  then show "keeps s1 (case p of (x, t) \<Rightarrow> rbind (push x t s1) (\<lambda>s2.
     Inr (s2\<lparr>code_pos := code_pos s1 + unat n, reg_def := reg_def e, value_addr := value_addr e,
             value_size := value_size e, implicit_pointer := implicit_pointer e\<rparr>)))"
    by (cases p) simp
qed

text \<open>The client callback keeps the state well-formed.\<close>

definition client_ok :: "vm_env \<Rightarrow> bool" where
  "client_ok env \<longleftrightarrow> (\<forall>f. client_op env = Some f \<longrightarrow> (\<forall>op s. keeps s (f op s)))"

lemma keeps_exec_op:
  assumes "client_ok env" "\<And>t. keeps t (sub t)"
  shows "keeps s (exec_op env sub subvm op s)"
proof -
  note [intro!] = keeps_intros keeps_tcf_switch [OF assms(2)] keeps_entry_value keeps_pop
  have [intro!]: "keeps s (op_client env b s)" for b
    using assms(1) by (cases "client_op env") (auto simp: op_client_def client_ok_def)
  have [intro!]: "keeps s1 (rbind (stk_get s1 (stk_pos s1 - Suc 0)) (\<lambda>x.
      rbind (if x \<noteq> 0 then jump offs s1 else Inr s1) (\<lambda>s2.
      Inr (s2\<lparr>stk_pos := stk_pos s2 - Suc 0\<rparr>))))" for offs s1
    by (rule keeps_rbind_val, rule keeps_rbind, auto intro!: keeps_jump keeps_Inr simp: vm_inv_def)
  have [intro!]: "keeps s (Inr s)" for s by (simp add: keeps_Inr)
  have [intro!]: "keeps s (Inr (put_piece p s))" for s p by (simp add: keeps_Inr)
  show ?thesis
    unfolding exec_op_def by (cases op) (auto split: option.split list.split)
qed


lemma keeps_evaluate_loop:
  "client_ok env \<Longrightarrow> keeps s (evaluate_loop env fuel s)"
proof (induction fuel arbitrary: s rule: less_induct)
  case (less fuel)
  show ?case
  proof (cases fuel)
    case 0
    then show ?thesis by simp
  next
    case (Suc f)
    have IH: "keeps t (evaluate_loop env f t)" for t using less Suc by simp
    have sub: "keeps t (not_empty (\<lambda>t. evaluate_loop env f t) t)" for t
      using IH by (simp add: not_empty_def)
    have g: "keeps s1 (exec_op env (not_empty (\<lambda>t. evaluate_loop env f t)) subvm op (grow_stack s1))"
      for s1 subvm op
    proof -
      have "vm_inv s1 \<Longrightarrow> vm_inv (grow_stack s1) \<and> code (grow_stack s1) = code s1"
        using grow_stack_ok [of s1] by (auto simp: has_room_def same_rest_def)
      with keeps_exec_op [OF less.prems sub] show ?thesis unfolding keeps_def by metis
    qed
    have "keeps s1 (rbind (exec_op env (not_empty (\<lambda>t. evaluate_loop env f t)) subvm op (grow_stack s1))
        (\<lambda>s2. evaluate_loop env f s2))" for s1 subvm op
      by (rule keeps_rbind [OF g IH])
    then show ?thesis
      unfolding Suc evaluate_loop.simps
      by (auto intro!: keeps_rbind2 [OF keeps_read_u1] keeps_Inr)
  qed
qed

section \<open>Offsets into pieces\<close>

definition bits_of :: "LocationPiece list \<Rightarrow> nat" where
  "bits_of ps = (\<Sum>p\<leftarrow>ps. unat (piece_bits p))"

lemma unat_add_small: "unat (a :: u32) + unat b < 2 ^ 32 \<Longrightarrow> unat (a + b) = unat a + unat b"
  by (simp add: unat_word_ariths)

text \<open>A piece that is cut keeps the bits behind the offset, in bits or in whole bytes.\<close>

lemma cut_piece_bits:
  assumes "unat bo + unat (piece_bits p) < 2 ^ 32" "unat (offs * 8) < unat bo + unat (piece_bits p)"
  shows "unat (piece_bits (cut_piece offs bo p)) =
    unat bo + unat (piece_bits p) - max (unat bo) (unat (offs * 8))"
proof -
  define w where "w = (if bo < offs * 8 then piece_bits p - (offs * 8 - bo) else piece_bits p)"
  have "unat w = unat bo + unat (piece_bits p) - max (unat bo) (unat (offs * 8))"
  proof (cases "bo < offs * 8")
    case True
    then have lt: "unat bo < unat (offs * 8)" by (simp add: word_less_nat_alt)
    have d: "unat (offs * 8 - bo) = unat (offs * 8) - unat bo"
      using True by (simp add: unat_sub less_imp_le)
    have "offs * 8 - bo \<le> piece_bits p" using assms(2) lt d by (simp add: word_le_nat_alt)
    then have "unat (piece_bits p - (offs * 8 - bo)) = unat (piece_bits p) - (unat (offs * 8) - unat bo)"
      using d by (simp add: unat_sub)
    with True lt show ?thesis by (simp add: w_def)
  next
    case False
    then have "unat (offs * 8) \<le> unat bo" by (simp add: word_less_nat_alt)
    with False show ?thesis by (simp add: w_def max_def)
  qed
  moreover from this have z: "w = 0 \<Longrightarrow> \<not> bo < offs * 8 \<and> piece_bits p = 0"
    using assms(2) by (auto simp: w_def word_less_nat_alt max_def split: if_splits)
  moreover have "piece_bits (cut_piece offs bo p) = w"
  proof (cases "w = 0")
    case True
    with z show ?thesis by (auto simp: cut_piece_def piece_bits_def Let_def split: if_splits)
  next
    case False
    have "word_of_nat (unat (w div 8) * 8) = w" if "w mod 8 = 0"
    proof -
      have "w div 8 * 8 = w" using that by (metis add.right_neutral div_mult_mod_eq)
      then show ?thesis by simp
    qed
    moreover define p1 where "p1 = (if bo < offs * 8
      then p\<lparr>bit_size := piece_bits p - (offs * 8 - bo), bit_offs := bit_offs p + (offs * 8 - bo)\<rparr>
      else p\<lparr>bit_size := piece_bits p\<rparr>)"
    have p1: "bit_size p1 = w" by (simp add: p1_def w_def)
    have "cut_piece offs bo p = (let p2 = (if bit_offs p1 = 0 \<and> bit_size p1 mod 8 = 0
        then p1\<lparr>piece_size := unat (bit_size p1 div 8), bit_size := 0\<rparr> else p1)
      in p2\<lparr>piece_implicit_pointer := piece_implicit_pointer p2 + 1\<rparr>)"
      unfolding cut_piece_def p1_def Let_def by simp
    ultimately show ?thesis unfolding p1 using False p1
      by (simp add: Let_def piece_bits_def)
  qed
  ultimately show ?thesis by simp
qed

lemma offset_pieces_bits:
  assumes "unat bo + bits_of ps < 2 ^ 32"
  shows "bits_of (offset_pieces offs bo ps) =
    unat bo + bits_of ps - max (unat bo) (unat (offs * 8))"
  using assms
proof (induction ps arbitrary: bo)
  case Nil
  then show ?case by (simp add: bits_of_def)
next
  case (Cons p ps)
  have s: "bits_of (p # ps) = unat (piece_bits p) + bits_of ps" for p ps by (simp add: bits_of_def)
  have b: "unat (bo + piece_bits p) = unat bo + unat (piece_bits p)"
    using Cons.prems s by (intro unat_add_small) simp
  note IH = Cons.IH [of "bo + piece_bits p", unfolded b]
  have lt: "bo + piece_bits p > offs * 8 \<longleftrightarrow> unat (offs * 8) < unat bo + unat (piece_bits p)"
    using b by (simp add: word_less_nat_alt)
  show ?case
  proof (cases "unat (offs * 8) < unat bo + unat (piece_bits p)")
    case True
    with cut_piece_bits [of bo p offs] IH Cons.prems lt show ?thesis
      by (simp add: s Let_def)
  next
    case False
    with IH Cons.prems lt show ?thesis by (simp add: s Let_def max_def)
  qed
qed


section \<open>Properties\<close>

text \<open>The state in which an evaluation of some code starts.\<close>

definition vm_start :: "byte list \<Rightarrow> nat \<Rightarrow> bool \<Rightarrow> VMState" where
  "vm_start bs asz be =
     \<lparr>stack_frame = None, args = [], code = bs, code_pos = 0, code_len = length bs,
      big_endian = be, addr_size = asz, pieces = [], stk_pos = 0, stk_max = 0, stk = [],
      type_stk = [], reg_def = None, value_addr = None, value_size = 0, implicit_pointer = 0\<rparr>"

text \<open>A target without memory, registers and frames, and no client callback.\<close>

definition no_env :: vm_env where
  "no_env = \<lparr>context_read_mem = (\<lambda>a n. exception ERR_INV_ADDRESS),
     get_reg_by_id = (\<lambda>n. exception ERR_INV_CONTEXT),
     read_reg_value = (\<lambda>f r. exception ERR_INV_CONTEXT),
     get_entry_frame = (\<lambda>f. exception ERR_INV_CONTEXT),
     read_location_pieces = (\<lambda>f ps. exception ERR_INV_CONTEXT), client_op = None\<rparr>"

lemma vm_start_ok: "vm_inv (vm_start bs asz be)" "code_at (vm_start bs asz be) bs"
  "start_expression (vm_start bs asz be) = vm_start bs asz be" "vstack (vm_start bs asz be) = []"
  by (simp_all add: vm_start_def vm_inv_def code_at_def start_expression_def vstack_def)

lemma vcode_length: "length (vcode e) > 0"
  by (induction e) auto

lemma evaluate_loop_end: "code_pos s \<ge> code_len s \<Longrightarrow> evaluate_loop env (Suc f) s = Inr s"
  by simp

text \<open>C9: Evaluating the code of an arithmetic expression (constants, absolute value, negation,
  complement, the binary arithmetic, logical, shift and comparison operators) with the location
  expression machine gives its value: with fuel for its operations the machine stops with that
  value as the only stack element and no pieces, or with the error of the expression (a division
  by zero, or a shift count to which C gives no meaning). The environment plays no role.\<close>

theorem vm_evaluates_expressions:
  "case veval e of
     Inl x \<Rightarrow> evaluate_vm_expression env (vops e + Suc fuel) (vm_start (vcode e) asz be) = Inl x
   | Inr v \<Rightarrow> \<exists>s'. evaluate_vm_expression env (vops e + Suc fuel) (vm_start (vcode e) asz be) = Inr s' \<and>
       vstack s' = [v] \<and> pieces s' = [] \<and> code_pos s' = length (vcode e)"
proof -
  let ?s = "vm_start (vcode e) asz be"
  have ne: "code_len ?s \<noteq> 0" using vcode_length [of e] by (simp add: vm_start_def)
  have ev: "evaluate_vm_expression env (vops e + Suc fuel) ?s =
      rbind (evaluate_loop env (vops e + Suc fuel) ?s) finish_expression"
    using ne by (simp add: evaluate_vm_expression_def evaluate_expression_def not_empty_def vm_start_ok)
  note run = run_vexp [OF vm_start_ok(1,2), of env e "Suc fuel" asz be]
  show ?thesis
  proof (cases "veval e")
    case (Inl x)
    with run ev show ?thesis by simp
  next
    case (Inr v)
    with run obtain s' where s': "pushed ?s (length (vcode e)) v s'"
        "evaluate_loop env (vops e + Suc fuel) ?s = evaluate_loop env (Suc fuel) s'" by auto
    have r: "code_pos s' = length (vcode e)" "code_len s' = length (vcode e)" "pieces s' = []"
        "reg_def s' = None" "value_addr s' = None" "implicit_pointer s' = 0" "vstack s' = [v]"
      using s'(1) by (auto simp: pushed_def same_rest_def vm_start_def advance_def vstack_def)
    then have "evaluate_loop env (Suc fuel) s' = Inr s'" by simp
    with s'(2) ev r Inr show ?thesis by (simp add: finish_expression_def)
  qed
qed

text \<open>An unsigned LEB128 number of 64 bits is decoded to the number that was encoded, and the
  code position is then right behind it, whatever follows.\<close>

theorem read_u8leb128_decodes:
  "read_u8leb128 (vm_start (uleb (unat w) @ rest) asz be) =
     Inr (w, (vm_start (uleb (unat w) @ rest) asz be)\<lparr>code_pos := length (uleb (unat w))\<rparr>)"
proof -
  let ?s = "vm_start (uleb (unat w) @ rest) asz be"
  have "code_at ?s (uleb (unat w))" using vm_start_ok(2) code_at_append(1) by blast
  from read_u8leb128_uleb [OF this] show ?thesis by (simp add: advance_def vm_start_def)
qed

text \<open>Evaluation keeps the machine well-formed: whatever the code, if the client callback does
  not break the state, then after any number of operations the stack pointer is inside of the two
  stack arrays, which have the same size, and the code length is inside of the code.\<close>

theorem vm_state_well_formed:
  assumes "client_ok env" "vm_inv s" "evaluate_expression env fuel s = Inr s'"
  shows "vm_inv s' \<and> code s' = code s"
  using keeps_evaluate_loop [OF assms(1), of s fuel] assms(2,3)
  by (auto simp: evaluate_expression_def not_empty_def keeps_def inv_dwarf_def split: if_splits)

theorem vm_state_well_formed_witness:
  "client_ok no_env \<and> (\<exists>s'. evaluate_expression no_env (Suc (Suc 0)) (vm_start [0x31] 8 False) = Inr s' \<and>
     vm_inv s' \<and> code s' = [0x31])"
proof -
  have d: "decode_op 0x31 = OP_lit 1" by (simp add: decode_op_def)
  have c: "client_ok no_env" by (simp add: client_ok_def no_env_def)
  obtain s' where s': "evaluate_expression no_env (Suc (Suc 0)) (vm_start [0x31] 8 False) = Inr s'"
    using d by (auto simp: evaluate_expression_def not_empty_def vm_start_def read_u1_def
        exec_op_def grow_stack_def push_def stk_put_def type_put_def)
  from vm_state_well_formed [OF c vm_start_ok(1) s'] c s' show ?thesis by (auto simp: vm_start_def)
qed

text \<open>\<open>OP_TCF_offset\<close> drops exactly the leading \<open>8 * offs\<close> bits of a location that consists
  of pieces: the remaining pieces have the other bits, and none is left if there are no others,
  provided that the location has fewer than \<open>2 ^ 32\<close> bits.\<close>

theorem tcf_offset_drops_leading_bits:
  assumes "bits_of ps < 2 ^ 32"
  shows "bits_of (offset_pieces offs 0 ps) = bits_of ps - unat (offs * 8)"
  using offset_pieces_bits [of 0 ps offs] assms by simp

theorem tcf_offset_drops_leading_bits_witness:
  "bits_of (offset_pieces 5 0 [zero_piece\<lparr>piece_size := 4\<rparr>, zero_piece\<lparr>piece_size := 4\<rparr>]) = 24"
  using tcf_offset_drops_leading_bits [of "[zero_piece\<lparr>piece_size := 4\<rparr>, zero_piece\<lparr>piece_size := 4\<rparr>]" 5]
  by (simp add: bits_of_def piece_bits_def zero_piece_def)

text \<open>After \<open>OP_rot\<close> the three values on top of the stack are rotated but their type tags are
  not: the tag of the old top ends up in the second place, over the tag that belongs there, and
  the third tag stays.\<close>

theorem op_rot_mixes_types:
  assumes "vm_inv s" "stk_pos s = Suc (Suc (Suc p))"
  shows "\<exists>s'. op_rot s = Inr s' \<and>
    stk s' ! Suc (Suc p) = stk s ! Suc p \<and> stk s' ! Suc p = stk s ! p \<and> stk s' ! p = stk s ! Suc (Suc p) \<and>
    type_stk s' ! Suc (Suc p) = type_stk s ! Suc p \<and> type_stk s' ! Suc p = type_stk s ! Suc (Suc p) \<and>
    type_stk s' ! p = type_stk s ! p"
  using assms
  by (simp add: op_rot_def check_e_stack_def stk_get_def stk_put_def type_get_def type_put_def
      vm_inv_def Let_def nth_list_update)

theorem op_rot_mixes_types_witness:
  "\<exists>s'. op_rot ((vm_start [] 8 False)\<lparr>stk_pos := 3, stk_max := 3, stk := [10, 20, 30], type_stk := [1, 2, 3]\<rparr>) =
     Inr s' \<and> stk s' ! 0 = 30 \<and> type_stk s' ! 0 = 1"
  using op_rot_mixes_types [of "(vm_start [] 8 False)\<lparr>stk_pos := 3, stk_max := 3, stk := [10, 20, 30],
      type_stk := [1, 2, 3]\<rparr>" 0]
  by (auto simp: vm_inv_def vm_start_def numeral_3_eq_3)

text \<open>\<open>OP_deref_size\<close> takes the size from the code and reads that many bytes into a buffer of
  eight: a size from 9 to 255 overruns the buffer.\<close>

theorem op_deref_size_overruns_buffer:
  assumes "vm_inv s" "stk_pos s > 0" "read_u1 s = Inr (n, s1)" "n > 8"
  shows "exec_op env sub subvm OP_deref_size s = Inl Undefined_Behaviour"
proof -
  have s1: "stk s1 = stk s" "stk_pos s1 = stk_pos s"
    using assms(3) by (auto simp: read_u1_def inv_dwarf_def split: if_splits)
  have "unat n > 8" using assms(4) by (simp add: word_less_nat_alt)
  moreover have "stk_pos s - 1 < length (stk s)" using assms(1,2) by (auto simp: vm_inv_def)
  ultimately show ?thesis
    using assms(2,3) s1
    by (simp add: exec_op_def check_e_stack_def op_deref_sized_def stk_get_def read_memory_def)
qed


theorem op_deref_size_overruns_buffer_witness:
  "exec_op no_env (\<lambda>s. Inr s) (\<lambda>s. Inr s) OP_deref_size
     ((vm_start [200] 8 False)\<lparr>stk_pos := 1, stk_max := 1, stk := [4096], type_stk := [1]\<rparr>) =
     Inl Undefined_Behaviour"
  by (rule op_deref_size_overruns_buffer [where n = 200])
    (simp_all add: vm_inv_def vm_start_def read_u1_def)

end
