(* ===== verification/VMStack.thy ===== *)
theory VMStack
  imports VMProps
begin

text \<open>
  The location expression machine as a stack machine: every sequence of stack and arithmetic operations does on the two arrays
  of the machine what it does on a list of values, and a sequence that takes more elements than there are is
  refused with an exception.
\<close>

section \<open>The stack machine\<close>

text \<open>Top of the stack first. An operation that takes more elements than there are is an error.\<close>

datatype vinstr =
    S_const u64 | S_dup | S_drop | S_over | S_pick byte | S_swap | S_rot | S_un vunop | S_bin vbinop

abbreviation stack_error :: exn where
  "stack_error \<equiv> Exception ERR_INV_DWARF ''Invalid location expression stack''"

fun instr_val :: "vinstr \<Rightarrow> u64 list \<Rightarrow> u64 list outcome" where
  "instr_val (S_const w) st = Inr (w # st)"
| "instr_val S_dup (x # st) = Inr (x # x # st)"
| "instr_val S_drop (x # st) = Inr st"
| "instr_val S_over (x # y # st) = Inr (y # x # y # st)"
| "instr_val (S_pick n) st = (if unat n < length st then Inr (st ! unat n # st) else Inl stack_error)"
| "instr_val S_swap (x # y # st) = Inr (y # x # st)"
| "instr_val S_rot (x # y # z # st) = Inr (y # z # x # st)"
| "instr_val (S_un f) (x # st) = Inr (un_val f x # st)"
| "instr_val (S_bin f) (y # x # st) = rbind (bin_val f x y) (\<lambda>z. Inr (z # st))"
| "instr_val _ _ = Inl stack_error"

fun instrs_val :: "vinstr list \<Rightarrow> u64 list \<Rightarrow> u64 list outcome" where
  "instrs_val [] st = Inr st"
| "instrs_val (i # is) st = rbind (instr_val i st) (instrs_val is)"

fun instr_code :: "vinstr \<Rightarrow> byte list" where
  "instr_code (S_const w) = 0x10 # uleb (unat w)"
| "instr_code S_dup = [0x12]"
| "instr_code S_drop = [0x13]"
| "instr_code S_over = [0x14]"
| "instr_code (S_pick n) = [0x15, n]"
| "instr_code S_swap = [0x16]"
| "instr_code S_rot = [0x17]"
| "instr_code (S_un f) = [un_code f]"
| "instr_code (S_bin f) = [bin_code f]"

definition instrs_code :: "vinstr list \<Rightarrow> byte list" where
  "instrs_code is = concat (map instr_code is)"

section \<open>Operations on the arrays\<close>

text \<open>The action \<open>m\<close> does on the arrays what \<open>f\<close> does on the list of values.\<close>

definition does :: "(VMState \<Rightarrow> VMState outcome) \<Rightarrow> (u64 list \<Rightarrow> u64 list outcome) \<Rightarrow> bool" where
  "does m f \<longleftrightarrow> (\<forall>s. has_room s \<longrightarrow> (case f (vstack s) of
       Inl e \<Rightarrow> m s = Inl e
     | Inr st \<Rightarrow> \<exists>s'. m s = Inr s' \<and> vm_inv s' \<and> same_rest s s' \<and> vstack s' = st))"

lemma underflow_check: "length (vstack s) < n \<Longrightarrow> vm_inv s \<Longrightarrow> check_e_stack s n k = Inl stack_error"
  by (simp add: check_e_stack_def vstack_length inv_dwarf_def str_exception_def)

lemma vstack_nth:
  assumes "vm_inv s" "i < stk_pos s"
  shows "vstack s ! i = stk s ! (stk_pos s - Suc i)"
  using assms by (simp add: vstack_def vm_inv_def rev_nth min_absorb2)

lemma copy_does: "does (op_copy n) (\<lambda>st. if n < length st then Inr (st ! n # st) else Inl stack_error)"
  unfolding does_def
proof (intro allI impI)
  fix s assume s: "has_room s"
  then have i: "vm_inv s" by (simp add: has_room_def)
  show "case if n < length (vstack s) then Inr (vstack s ! n # vstack s) else Inl stack_error of
      Inl e \<Rightarrow> op_copy n s = Inl e
    | Inr st \<Rightarrow> \<exists>s'. op_copy n s = Inr s' \<and> vm_inv s' \<and> same_rest s s' \<and> vstack s' = st"
  proof (cases "n < length (vstack s)")
    case True
    then have n: "n < stk_pos s" by (simp add: vstack_length [OF i])
    then have "stk_pos s - n - 1 < length (stk s)" "stk_pos s - n - 1 < length (type_stk s)" using i by (auto simp: vm_inv_def)
    then have "op_copy n s = push (vstack s ! n) (type_stk s ! (stk_pos s - n - 1)) s"
      using n by (simp add: op_copy_def check_e_stack_def stk_get_def type_get_def vstack_nth [OF i])
    then show ?thesis using True push_ok [OF s] by auto
  next
    case False
    then show ?thesis using underflow_check [of s "n + 1"] i by (simp add: op_copy_def)
  qed
qed

lemma doesI:
  assumes "\<And>s x. has_room s \<Longrightarrow> f (vstack s) = Inl x \<Longrightarrow> m s = Inl x"
    and "\<And>s st. has_room s \<Longrightarrow> f (vstack s) = Inr st \<Longrightarrow>
      \<exists>s'. m s = Inr s' \<and> vm_inv s' \<and> same_rest s s' \<and> vstack s' = st"
  shows "does m f"
  using assms by (auto simp: does_def split: sum.split)

lemma doesD:
  assumes "does m f" "has_room s"
  shows "f (vstack s) = Inl e \<Longrightarrow> m s = Inl e"
    "f (vstack s) = Inr st \<Longrightarrow> \<exists>s'. m s = Inr s' \<and> vm_inv s' \<and> same_rest s s' \<and> vstack s' = st"
  using assms unfolding does_def by (force split: sum.splits)+

text \<open>The arrays of a stack with two or three elements or more.\<close>

lemma vstack_two:
  assumes "vm_inv s" "vstack s = x # y # st"
  obtains p where "stk_pos s = Suc (Suc p)" "stk s ! Suc p = x" "stk s ! p = y" "rev (take p (stk s)) = st"
    "Suc p < length (stk s)" "Suc p < length (type_stk s)"
proof -
  obtain p where p: "stk_pos s = Suc (Suc p)"
    using assms vstack_length [OF assms(1)] by (cases "stk_pos s"; cases "stk_pos s - 1") auto
  have l: "Suc p < length (stk s)" "Suc p < length (type_stk s)" using p assms(1) by (simp_all add: vm_inv_def)
  show thesis by (rule that [OF p]) (use assms(2) l in \<open>simp_all add: vstack_def p take_Suc_conv_app_nth\<close>)
qed

lemma vstack_three:
  assumes "vm_inv s" "vstack s = x # y # z # st"
  obtains p where "stk_pos s = Suc (Suc (Suc p))" "stk s ! Suc (Suc p) = x" "stk s ! Suc p = y" "stk s ! p = z"
    "rev (take p (stk s)) = st" "Suc (Suc p) < length (stk s)" "Suc (Suc p) < length (type_stk s)"
proof -
  obtain q where q: "stk_pos s = Suc (Suc q)" "stk s ! Suc q = x" "stk s ! q = y" "rev (take q (stk s)) = z # st"
    "Suc q < length (stk s)" "Suc q < length (type_stk s)"
    using vstack_two [OF assms] by blast
  then obtain p where p: "q = Suc p" by (cases q) auto
  show thesis by (rule that [of p]) (use q p in \<open>simp_all add: take_Suc_conv_app_nth\<close>)
qed

lemma short_stack:
  "instr_val S_swap st = Inl e \<Longrightarrow> length st < 2 \<and> e = stack_error"
  "instr_val S_rot st = Inl e \<Longrightarrow> length st < 3 \<and> e = stack_error"
  "instr_val S_drop st = Inl e \<Longrightarrow> length st < 1 \<and> e = stack_error"
  "instr_val (S_un f) st = Inl e \<Longrightarrow> length st < 1 \<and> e = stack_error"
  by (auto elim!: instr_val.elims)

lemma swap_does: "does op_swap (instr_val S_swap)"
proof (rule doesI)
  fix s e assume "has_room s" "instr_val S_swap (vstack s) = Inl e"
  then show "op_swap s = Inl e"
    using short_stack(1) [of "vstack s" e] underflow_check [of s 2] by (simp add: op_swap_def has_room_def)
next
  fix s st assume s: "has_room s" "instr_val S_swap (vstack s) = Inr st"
  then obtain x y r where v: "vstack s = x # y # r" "st = y # x # r"
    by (auto elim!: instr_val.elims)
  have i: "vm_inv s" using s(1) by (simp add: has_room_def)
  obtain p where p: "stk_pos s = Suc (Suc p)" "stk s ! Suc p = x" "stk s ! p = y" "rev (take p (stk s)) = r"
    "Suc p < length (stk s)" "Suc p < length (type_stk s)" by (rule vstack_two [OF i v(1)])
  let ?s = "s\<lparr>stk := (stk s)[Suc p := y, p := x], type_stk := (type_stk s)[Suc p := type_stk s ! p, p := type_stk s ! Suc p]\<rparr>"
  have "op_swap s = Inr ?s"
    using p by (simp add: op_swap_def check_e_stack_def stk_get_def stk_put_def type_get_def type_put_def Let_def)
  moreover have "vm_inv ?s" using i by (simp add: vm_inv_def)
  moreover have "vstack ?s = st" using p v by (simp add: vstack_def take_Suc_conv_app_nth nth_list_update)
  ultimately show "\<exists>s'. op_swap s = Inr s' \<and> vm_inv s' \<and> same_rest s s' \<and> vstack s' = st" by (auto simp: same_rest_def)
qed

lemma rot_does: "does op_rot (instr_val S_rot)"
proof (rule doesI)
  fix s e assume "has_room s" "instr_val S_rot (vstack s) = Inl e"
  then show "op_rot s = Inl e"
    using short_stack(2) [of "vstack s" e] underflow_check [of s 3] by (simp add: op_rot_def has_room_def)
next
  fix s st assume s: "has_room s" "instr_val S_rot (vstack s) = Inr st"
  then obtain x y z r where v: "vstack s = x # y # z # r" "st = y # z # x # r"
    by (auto elim!: instr_val.elims)
  have i: "vm_inv s" using s(1) by (simp add: has_room_def)
  obtain p where p: "stk_pos s = Suc (Suc (Suc p))" "stk s ! Suc (Suc p) = x" "stk s ! Suc p = y" "stk s ! p = z"
    "rev (take p (stk s)) = r" "Suc (Suc p) < length (stk s)" "Suc (Suc p) < length (type_stk s)" by (rule vstack_three [OF i v(1)])
  obtain ts where ts: "op_rot s = Inr (s\<lparr>stk := (stk s)[Suc (Suc p) := y, Suc p := z, p := x], type_stk := ts\<rparr>)"
    "length ts = length (type_stk s)"
    using p by (simp add: op_rot_def check_e_stack_def stk_get_def stk_put_def type_get_def type_put_def Let_def)
  let ?s = "s\<lparr>stk := (stk s)[Suc (Suc p) := y, Suc p := z, p := x], type_stk := ts\<rparr>"
  have "vm_inv ?s" using i ts(2) by (simp add: vm_inv_def)
  moreover have "vstack ?s = st" using p v by (simp add: vstack_def take_Suc_conv_app_nth nth_list_update)
  ultimately show "\<exists>s'. op_rot s = Inr s' \<and> vm_inv s' \<and> same_rest s s' \<and> vstack s' = st" using ts(1) by (auto simp: same_rest_def)
qed

lemma un_does: "does (un_op (un_val f)) (instr_val (S_un f))"
proof (rule doesI)
  fix s e assume "has_room s" "instr_val (S_un f) (vstack s) = Inl e"
  then show "un_op (un_val f) s = Inl e"
    using short_stack(4) [of f "vstack s" e] underflow_check [of s 1] by (simp add: un_op_def has_room_def)
next
  fix s st assume "has_room s" "instr_val (S_un f) (vstack s) = Inr st"
  then show "\<exists>s'. un_op (un_val f) s = Inr s' \<and> vm_inv s' \<and> same_rest s s' \<and> vstack s' = st"
    using un_op_ok [of s _ _ "un_val f"] by (auto simp: has_room_def elim!: instr_val.elims)
qed

lemma drop_does: "does (\<lambda>s. check_e_stack s 1 (Inr (s\<lparr>stk_pos := stk_pos s - 1\<rparr>))) (instr_val S_drop)"
proof (rule doesI)
  fix s e assume "has_room s" "instr_val S_drop (vstack s) = Inl e"
  then show "check_e_stack s 1 (Inr (s\<lparr>stk_pos := stk_pos s - 1\<rparr>)) = Inl e"
    using short_stack(3) [of "vstack s" e] underflow_check [of s 1] by (simp add: has_room_def)
next
  fix s st assume s: "has_room s" "instr_val S_drop (vstack s) = Inr st"
  then obtain x where v: "vstack s = x # st" by (auto elim!: instr_val.elims)
  have i: "vm_inv s" using s(1) by (simp add: has_room_def)
  then have p: "stk_pos s > 0" using v vstack_length [OF i] by auto
  then show "\<exists>s'. check_e_stack s 1 (Inr (s\<lparr>stk_pos := stk_pos s - 1\<rparr>)) = Inr s' \<and> vm_inv s' \<and> same_rest s s' \<and> vstack s' = st"
    using i v vstack_Cons [OF i p] by (auto simp: check_e_stack_def same_rest_def vm_inv_def vstack_def)
qed

lemma bin_does:
  "\<exists>m. (\<forall>sub subvm. exec_op env sub subvm (decode_op (bin_code f)) = m) \<and> does m (instr_val (S_bin f))"
proof (intro exI conjI allI)
  let ?m = "exec_op env (\<lambda>s. Inr s) (\<lambda>s. Inr s) (decode_op (bin_code f))"
  show "exec_op env sub subvm (decode_op (bin_code f)) = ?m" for sub subvm
    unfolding decode_bin exec_op_def by (cases f) simp_all
  have short: "?m s = Inl stack_error" if "vm_inv s" "length (vstack s) < 2" for s
  proof -
    have b: "bin_op g s = Inl stack_error" for g using underflow_check [OF that(2,1)] by (simp add: bin_op_def)
    show ?thesis
    proof (cases "is_cmp f")
      case True
      then obtain g where "?m s = cmp_op g s" using exec_bin_cmp [OF True, of env "\<lambda>s. Inr s" "\<lambda>s. Inr s" s] by blast
      then show ?thesis by (simp add: cmp_op_def b)
    qed (simp add: exec_bin_arith b)
  qed
  show "does ?m (instr_val (S_bin f))"
    unfolding does_def
  proof (intro allI impI)
    fix s assume "has_room s"
    then have i: "vm_inv s" by (simp add: has_room_def)
    show "case instr_val (S_bin f) (vstack s) of Inl e \<Rightarrow> ?m s = Inl e
      | Inr st \<Rightarrow> \<exists>s'. ?m s = Inr s' \<and> vm_inv s' \<and> same_rest s s' \<and> vstack s' = st"
    proof (cases "\<exists>y x st. vstack s = y # x # st")
      case True
      then obtain y x st where v: "vstack s = y # x # st" by blast
      show ?thesis using exec_bin [OF i v, where f = f and env = env] v by (cases "bin_val f x y") simp_all
    next
      case False
      then consider "vstack s = []" | x where "vstack s = [x]" by (metis neq_Nil_conv)
      then have "instr_val (S_bin f) (vstack s) = Inl stack_error" "length (vstack s) < 2" by (cases; simp)+
      then show ?thesis using short [OF i] by simp
    qed
  qed
qed

section \<open>Programs\<close>

lemma run_does:
  assumes "does m f" "\<And>sub subvm. exec_op env sub subvm (decode_op b) = m" "vm_inv s" "code_at s [b]"
  shows "case f (vstack s) of
      Inl e \<Rightarrow> evaluate_loop env (Suc fuel) s = Inl e
    | Inr st \<Rightarrow> \<exists>s'. vm_inv s' \<and> same_rest (advance s 1) s' \<and> vstack s' = st \<and>
        evaluate_loop env (Suc fuel) s = evaluate_loop env fuel s'"
proof -
  let ?t = "grow_stack (advance s 1)"
  have i: "vm_inv (advance s 1)" using assms(3) by simp
  note g = grow_stack_ok [OF i]
  have v: "vstack ?t = vstack s" using g(3) by simp
  note step = evaluate_loop_step [OF assms(4), of env "m ?t" fuel, simplified assms(2)]
  show ?thesis
  proof (cases "f (vstack s)")
    case (Inl e)
    then have "m ?t = Inl e" using doesD(1) [OF assms(1) g(1)] v by simp
    then show ?thesis using Inl step by simp
  next
    case (Inr st)
    then obtain s' where "m ?t = Inr s'" "vm_inv s'" "same_rest ?t s'" "vstack s' = st"
      using doesD(2) [OF assms(1) g(1), of st] v by auto
    then show ?thesis using Inr step same_rest_trans [OF g(2)] by auto
  qed
qed

lemma decode_stack:
  "decode_op 0x12 = OP_dup" "decode_op 0x13 = OP_drop" "decode_op 0x14 = OP_over" "decode_op 0x15 = OP_pick"
  "decode_op 0x16 = OP_swap" "decode_op 0x17 = OP_rot"
  by (simp_all add: decode_op_def op_table_def)

lemma exec_stack:
  "exec_op env sub subvm OP_dup = op_copy 0" "exec_op env sub subvm OP_over = op_copy 1"
  "exec_op env sub subvm OP_swap = op_swap" "exec_op env sub subvm OP_rot = op_rot"
  "exec_op env sub subvm OP_drop = (\<lambda>s. check_e_stack s 1 (Inr (s\<lparr>stk_pos := stk_pos s - 1\<rparr>)))"
  by (intro ext, simp add: exec_op_def)+

lemma run_pick:
  assumes "vm_inv s" "code_at s [0x15, n]"
  shows "case instr_val (S_pick n) (vstack s) of
      Inl e \<Rightarrow> evaluate_loop env (Suc fuel) s = Inl e
    | Inr st \<Rightarrow> \<exists>s'. vm_inv s' \<and> same_rest (advance s 2) s' \<and> vstack s' = st \<and>
        evaluate_loop env (Suc fuel) s = evaluate_loop env fuel s'"
proof -
  let ?t = "grow_stack (advance s 1)"
  have i: "vm_inv (advance s 1)" using assms(1) by simp
  note g = grow_stack_ok [OF i]
  have "code_at ?t [n]" using code_at_Cons(2) [OF assms(2)] code_at_same_rest [OF g(2)] by simp
  note rd = code_at_Cons(1) [OF this]
  have room: "has_room (advance ?t 1)" and v: "vstack (advance ?t 1) = vstack s"
    using g(1,3) by (simp_all add: has_room_def)
  have "exec_op env sub subvm (decode_op 0x15) ?t = op_copy (unat n) (advance ?t 1)" for sub subvm
    using rd by (simp add: decode_stack exec_op_def)
  note step = evaluate_loop_step [OF assms(2) this, of fuel]
  have rest: "same_rest (advance s 2) s'" if "same_rest (advance ?t 1) s'" for s'
    using same_rest_trans [OF same_rest_advance [OF g(2), of 1] that] by (simp add: numeral_2_eq_2)
  show ?thesis
  proof (cases "instr_val (S_pick n) (vstack s)")
    case (Inl e)
    then show ?thesis using doesD(1) [OF copy_does room, of "unat n" e] v step by (simp split: if_splits)
  next
    case (Inr st)
    then obtain s' where "op_copy (unat n) (advance ?t 1) = Inr s'" "vm_inv s'" "same_rest (advance ?t 1) s'" "vstack s' = st"
      using doesD(2) [OF copy_does room, of "unat n" st] v by (auto split: if_splits)
    then show ?thesis using Inr step rest by auto
  qed
qed

lemma copy_vals:
  "(\<lambda>st. if 0 < length st then Inr (st ! 0 # st) else Inl stack_error) = instr_val S_dup"
  "(\<lambda>st. if 1 < length st then Inr (st ! 1 # st) else Inl stack_error) = instr_val S_over"
proof -
  show "(\<lambda>st. if 0 < length st then Inr (st ! 0 # st) else Inl stack_error) = instr_val S_dup"
    by (rule ext) (case_tac st; simp)
  show "(\<lambda>st. if 1 < length st then Inr (st ! 1 # st) else Inl stack_error) = instr_val S_over"
    by (rule ext) (case_tac "(S_over, st)" rule: instr_val.cases; simp)
qed

lemma run_instr:
  assumes "vm_inv s" "code_at s (instr_code i)"
  shows "case instr_val i (vstack s) of
      Inl e \<Rightarrow> evaluate_loop env (Suc fuel) s = Inl e
    | Inr st \<Rightarrow> \<exists>s'. vm_inv s' \<and> same_rest (advance s (length (instr_code i))) s' \<and> vstack s' = st \<and>
        evaluate_loop env (Suc fuel) s = evaluate_loop env fuel s'"
proof (cases i)
  case (S_const w)
  then show ?thesis using run_const [of s w env fuel] assms by (auto simp: pushed_def)
next
  case S_dup
  then show ?thesis using run_does [OF copy_does [of 0, unfolded copy_vals] _ assms(1), of env "0x12" fuel] assms(2)
    by (simp add: decode_stack exec_stack cong: sum.case_cong)
next
  case S_drop
  then show ?thesis using run_does [OF drop_does _ assms(1), of env "0x13" fuel] assms(2)
    by (simp add: decode_stack exec_stack cong: sum.case_cong)
next
  case S_over
  then show ?thesis using run_does [OF copy_does [of 1, unfolded copy_vals] _ assms(1), of env "0x14" fuel] assms(2)
    by (simp add: decode_stack exec_stack cong: sum.case_cong)
next
  case (S_pick n)
  then show ?thesis using run_pick [OF assms(1), of n env fuel] assms(2) by (simp add: numeral_2_eq_2 cong: sum.case_cong)
next
  case S_swap
  then show ?thesis using run_does [OF swap_does _ assms(1), of env "0x16" fuel] assms(2)
    by (simp add: decode_stack exec_stack cong: sum.case_cong)
next
  case S_rot
  then show ?thesis using run_does [OF rot_does _ assms(1), of env "0x17" fuel] assms(2)
    by (simp add: decode_stack exec_stack cong: sum.case_cong)
next
  case (S_un f)
  have "exec_op env sub subvm (decode_op (un_code f)) = un_op (un_val f)" for sub subvm by (rule ext) (rule exec_un)
  from run_does [OF un_does this assms(1), of fuel] show ?thesis using S_un assms(2) by (simp cong: sum.case_cong)
next
  case (S_bin f)
  obtain m where m: "\<And>sub subvm. exec_op env sub subvm (decode_op (bin_code f)) = m" "does m (instr_val (S_bin f))"
    using bin_does by blast
  from run_does [OF m(2,1) assms(1), of fuel] show ?thesis using S_bin assms(2) by (simp cong: sum.case_cong)
qed

lemma run_instrs:
  assumes "vm_inv s" "code_at s (instrs_code is)"
  shows "case instrs_val is (vstack s) of
      Inl e \<Rightarrow> evaluate_loop env (length is + fuel) s = Inl e
    | Inr st \<Rightarrow> \<exists>s'. vm_inv s' \<and> same_rest (advance s (length (instrs_code is))) s' \<and> vstack s' = st \<and>
        evaluate_loop env (length is + fuel) s = evaluate_loop env fuel s'"
  using assms
proof (induction "is" arbitrary: s)
  case Nil
  then show ?case by (auto simp: instrs_code_def)
next
  case (Cons i "is")
  have c: "code_at s (instr_code i)" "code_at (advance s (length (instr_code i))) (instrs_code is)"
    using code_at_append [of s "instr_code i" "instrs_code is"] Cons.prems(2) by (simp_all add: instrs_code_def)
  note one = run_instr [OF Cons.prems(1) c(1), of env "length is + fuel"]
  show ?case
  proof (cases "instr_val i (vstack s)")
    case (Inl e)
    with one show ?thesis by simp
  next
    case (Inr st)
    with one obtain s1 where s1: "vm_inv s1" "same_rest (advance s (length (instr_code i))) s1" "vstack s1 = st"
      "evaluate_loop env (Suc (length is + fuel)) s = evaluate_loop env (length is + fuel) s1" by auto
    have c1: "code_at s1 (instrs_code is)" using c(2) code_at_same_rest [OF s1(2)] by simp
    have rest: "same_rest (advance s (length (instrs_code (i # is)))) s'" if "same_rest (advance s1 (length (instrs_code is))) s'" for s'
      using same_rest_trans [OF same_rest_advance [OF s1(2)] that] by (simp add: instrs_code_def)
    show ?thesis using Cons.IH [OF s1(1) c1] Inr s1(3,4) rest by (cases "instrs_val is st") auto
  qed
qed

section \<open>Properties\<close>

text \<open>C30: The machine refines a stack machine on lists of values. For every sequence of constants, stack operations
  (dup, drop, over, pick, swap, rot) and arithmetic operations, well-formed or not, evaluation ends with exactly the
  stack that the operations give on a list, in a well-formed state at the end of the code, if there are enough elements for each operation;
  and with the exception for an invalid stack at the first operation that takes more elements than there are (or with the error of
  the arithmetic operation).
\<close>

theorem vm_refines_stack_machine:
  assumes "is \<noteq> []"
  shows "case instrs_val is [] of
      Inl e \<Rightarrow> evaluate_vm_expression env (length is + Suc fuel) (vm_start (instrs_code is) asz be) = Inl e
    | Inr st \<Rightarrow> \<exists>s'. evaluate_vm_expression env (length is + Suc fuel) (vm_start (instrs_code is) asz be) = Inr s' \<and>
        vm_inv s' \<and> vstack s' = st \<and> stk_pos s' = length st \<and> pieces s' = [] \<and> code_pos s' = length (instrs_code is)"
proof -
  let ?s = "vm_start (instrs_code is) asz be"
  have "instr_code i \<noteq> []" for i by (cases i) simp_all
  then have ne: "code_len ?s \<noteq> 0" using assms by (cases "is") (simp_all add: vm_start_def instrs_code_def)
  have ev: "evaluate_vm_expression env (length is + Suc fuel) ?s =
      rbind (evaluate_loop env (length is + Suc fuel) ?s) finish_expression"
    using ne by (simp add: evaluate_vm_expression_def evaluate_expression_def not_empty_def vm_start_ok)
  note run = run_instrs [OF vm_start_ok(1,2), of env "is" "Suc fuel" asz be, unfolded vm_start_ok(4)]
  show ?thesis
  proof (cases "instrs_val is []")
    case (Inl e)
    with run ev show ?thesis by simp
  next
    case (Inr st)
    with run obtain s' where s': "vm_inv s'" "same_rest (advance ?s (length (instrs_code is))) s'" "vstack s' = st"
      "evaluate_loop env (length is + Suc fuel) ?s = evaluate_loop env (Suc fuel) s'" by auto
    have r: "code_pos s' = length (instrs_code is)" "code_len s' = length (instrs_code is)" "pieces s' = []"
        "reg_def s' = None" "value_addr s' = None" "implicit_pointer s' = 0"
      using s'(2) by (auto simp: same_rest_def vm_start_def advance_def)
    then have "evaluate_loop env (Suc fuel) s' = Inr s'" by simp
    with s' ev r Inr vstack_length [OF s'(1)] show ?thesis by (simp add: finish_expression_def)
  qed
qed

definition sample_instrs :: "vinstr list" where
  "sample_instrs = [S_const 7, S_const 300, S_const 5, S_rot, S_pick 2, S_bin V_minus, S_swap, S_drop, S_over]"

theorem vm_refines_stack_machine_witness:
  "(\<exists>s'. evaluate_vm_expression no_env (length sample_instrs + 1) (vm_start (instrs_code sample_instrs) 8 False) = Inr s' \<and>
      vstack s' = [5, 295, 5]) \<and>
   evaluate_vm_expression no_env 4 (vm_start (instrs_code [S_const 1, S_const 2, S_rot]) 8 False) =
      Inl (Exception ERR_INV_DWARF ''Invalid location expression stack'')"
proof -
  have "instrs_val sample_instrs [] = Inr [5, 295, 5]" "instrs_val [S_const 1, S_const 2, S_rot] [] = Inl stack_error"
    by (simp_all add: sample_instrs_def)
  then show ?thesis
    using vm_refines_stack_machine [of sample_instrs no_env 0 8 False]
      vm_refines_stack_machine [of "[S_const 1, S_const 2, S_rot]" no_env 0 8 False]
    by (auto simp: sample_instrs_def eval_nat_numeral)
qed

end
