(* ===== verification/InputBuf.thy ===== *)
theory InputBuf
  imports Streams
begin

text \<open>
  \<^verbatim>\<open>framework/inputbuf.c\<close>: the ring buffer between a socket and the reader of a channel, with
  the escape sequences of the wire. Pointers into the buffer are indices; \<open>ib_cur\<close> and
  \<open>ib_end\<close> are the fields of the input stream, which the macros of \<^verbatim>\<open>streams.h\<close> read
  directly. The two callbacks of a TCP channel that the buffer uses are part of the model
  (\<^verbatim>\<open>tcp_post_read\<close> and \<^verbatim>\<open>tcp_trigger_message\<close> of \<^verbatim>\<open>channel_tcp.c\<close>): one read request
  is outstanding at a time, and an idle channel posts one event per batch of messages. Waiting for
  the socket in the middle of a message (\<^verbatim>\<open>wait_read\<close>) is an argument of the reader.

  The wire format and the properties are in the theories \<^verbatim>\<open>InputRing\<close> and \<^verbatim>\<open>InputChannel\<close>.
\<close>

section \<open>The model\<close>

datatype handling = HandleMsgIdle | HandleMsgTriggered | HandleMsgActive

record InputBuf =
  ib_buf_size :: nat
  ib_buf :: "byte list"
  ib_inp :: nat
  ib_cur :: nat
  ib_end :: nat
  ib_inp_esc :: bool
  ib_out_esc :: bool
  ib_eof :: bool
  ib_long_msg :: bool
  ib_message_count :: int
  ib_handling_msg :: handling
  ib_out_size_mode :: nat
  ib_out_data_size :: nat
  ib_inp_size_mode :: nat
  ib_inp_data_size :: nat
  ib_read_pending :: "(nat \<times> nat) option"
  ib_events :: nat

definition tcp_post_read :: "InputBuf \<Rightarrow> nat \<Rightarrow> nat \<Rightarrow> InputBuf" where
  "tcp_post_read s b sz =
     (if ib_read_pending s \<noteq> None then s else s\<lparr>ib_read_pending := Some (b, sz)\<rparr>)"

definition tcp_trigger_message :: "InputBuf \<Rightarrow> InputBuf outcome" where
  "tcp_trigger_message s =
     assert_that (ib_message_count s > 0) (
     if ib_handling_msg s = HandleMsgIdle
     then Inr (s\<lparr>ib_events := ib_events s + 1, ib_handling_msg := HandleMsgTriggered\<rparr>)
     else Inr s)"

definition ibuf_new_message :: "InputBuf \<Rightarrow> InputBuf outcome" where
  "ibuf_new_message s = tcp_trigger_message (s\<lparr>ib_message_count := ib_message_count s + 1\<rparr>)"

definition ibuf_eof :: "InputBuf \<Rightarrow> InputBuf outcome" where
  "ibuf_eof s = (if \<not> ib_eof s then ibuf_new_message (s\<lparr>ib_eof := True\<rparr>) else Inr s)"

definition ibuf_free_size :: "InputBuf \<Rightarrow> (nat \<times> InputBuf) outcome" where
  "ibuf_free_size s =
     (if ib_eof s then Inr (0, s)
      else
        rbind (if ib_cur s = ib_buf_size s
               then assert_that (ib_cur s = ib_end s) (Inr (s\<lparr>ib_cur := 0, ib_end := 0\<rparr>))
               else Inr s) (\<lambda>s.
        assert_that (ib_inp s < ib_buf_size s) (
        if ib_cur s \<le> ib_inp s then
          let sz = ib_buf_size s - ib_inp s in
          Inr (if ib_cur s = 0 then sz - 1 else sz, s)
        else Inr (ib_cur s - ib_inp s - 1, s))))"

definition ibuf_trigger_read :: "InputBuf \<Rightarrow> InputBuf outcome" where
  "ibuf_trigger_read s =
     rbind (ibuf_free_size s) (\<lambda>(sz, s).
     if sz > 0 then
       assert_that (ib_inp s + sz \<le> ib_buf_size s) (Inr (tcp_post_read s (ib_inp s) sz))
     else Inr s)"

text \<open>The accumulation of a size, seven bits per byte. The shift is one of an \<^verbatim>\<open>int\<close>.\<close>

definition add_size :: "nat \<Rightarrow> nat \<Rightarrow> byte \<Rightarrow> nat outcome" where
  "add_size mode sz ch =
     (let sh = (mode - 1) * 7; v = unat (ch AND 0x7f) * 2 ^ sh in
      if sh \<ge> 32 \<or> v \<ge> 2 ^ 31 then Inl Undefined_Behaviour else Inr (sz OR v))"

text \<open>The end of a run of plain bytes.\<close>

function plain_end :: "byte list \<Rightarrow> nat \<Rightarrow> nat \<Rightarrow> nat" where
  "plain_end buf p mx = (if p < mx \<and> buf ! p \<noteq> 3 then plain_end buf (p + 1) mx else p)"
  by pat_completeness auto
termination
  by (relation "measure (\<lambda>(buf, p, mx). mx - p)") auto

declare plain_end.simps [simp del]

definition finish_read :: "InputBuf \<Rightarrow> int \<Rightarrow> (int \<times> InputBuf) outcome" where
  "finish_read s ch = rbind (ibuf_trigger_read s) (\<lambda>s. Inr (ch, s))"

text \<open>The loop of \<^verbatim>\<open>ibuf_get_more\<close>; \<open>p\<close> is its pointer \<^verbatim>\<open>out\<close>.\<close>

fun get_more_loop :: "nat \<Rightarrow> (InputBuf \<Rightarrow> InputBuf outcome) \<Rightarrow> bool \<Rightarrow> nat \<Rightarrow> InputBuf \<Rightarrow>
    (int \<times> InputBuf) outcome" where
  "get_more_loop 0 wait peeking p s = Inl Out_Of_Fuel"
| "get_more_loop (Suc fuel) wait peeking p s =
     (let p = (if p = ib_buf_size s then 0 else p) in
      if p = ib_inp s then
        assert_that (ib_long_msg s \<or> ib_eof s) (
        let s = s\<lparr>ib_cur := p\<rparr> in
        if ib_eof s then Inr (MARKER_EOS, s)
        else
          assert_that (ib_message_count s = 1) (
          rbind (ibuf_trigger_read s) (\<lambda>s.
          rbind (wait s) (\<lambda>s. get_more_loop fuel wait peeking (ib_cur s) s))))
      else if p \<ge> length (ib_buf s) then Inl Undefined_Behaviour
      else
        let b = ib_buf s ! p in
        if ib_out_size_mode s \<noteq> 0 then
          assert_that (\<not> ib_out_esc s) (
          rbind (add_size (ib_out_size_mode s) (ib_out_data_size s) b) (\<lambda>sz.
          get_more_loop fuel wait peeking (p + 1)
            (s\<lparr>ib_out_data_size := sz,
               ib_out_size_mode := (if b AND 0x80 = 0 then 0 else ib_out_size_mode s + 1)\<rparr>)))
        else if ib_out_data_size s > 0 then
          assert_that (\<not> ib_out_esc s) (
          let mx = (if p + 1 \<le> ib_inp s then ib_inp s else ib_buf_size s);
              n = (if mx - p < ib_out_data_size s then mx - p else ib_out_data_size s)
          in finish_read (s\<lparr>ib_cur := (if peeking then p else p + 1), ib_end := p + n,
               ib_out_data_size := ib_out_data_size s - n\<rparr>) (uint b))
        else if ib_out_esc s then
          (if b = 3 then
             get_more_loop fuel wait peeking (p + 1)
               (s\<lparr>ib_out_size_mode := 1, ib_out_data_size := 0, ib_out_esc := False\<rparr>)
           else
             rbind (if b = 0 then Inr (ESC, s)
                    else if b = 1 then
                      (if peeking then Inr (MARKER_EOM, s)
                       else
                         let s = s\<lparr>ib_message_count := ib_message_count s - 1,
                                   ib_handling_msg := HandleMsgIdle\<rparr> in
                         rbind (if ib_message_count s \<noteq> 0 then tcp_trigger_message s else Inr s) (\<lambda>s.
                           Inr (MARKER_EOM, s)))
                    else if b = 2 then Inr (MARKER_EOS, s)
                    else Inl Assertion_Failed) (\<lambda>(ch, s).
             let (p, s) = (if peeking then (p, s) else (p + 1, s\<lparr>ib_out_esc := False\<rparr>))
             in finish_read (s\<lparr>ib_cur := p, ib_end := p\<rparr>) ch))
        else if b \<noteq> 3 then
          let mx = (if p + 1 \<le> ib_inp s then ib_inp s else ib_buf_size s)
          in finish_read (s\<lparr>ib_cur := (if peeking then p else p + 1),
               ib_end := plain_end (ib_buf s) (p + 1) mx\<rparr>) (uint b)
        else get_more_loop fuel wait peeking (p + 1) (s\<lparr>ib_out_esc := True\<rparr>))"

declare get_more_loop.simps(2) [simp del]

text \<open>The fuel bounds the rounds of the loop: one for every byte of the buffer that is skipped, and
  one for every wait.\<close>

definition ibuf_get_more :: "nat \<Rightarrow> (InputBuf \<Rightarrow> InputBuf outcome) \<Rightarrow> bool \<Rightarrow> InputBuf \<Rightarrow> (int \<times> InputBuf) outcome" where
  "ibuf_get_more fuel wait peeking s =
     assert_that (ib_message_count s > 0) (
     assert_that (ib_handling_msg s = HandleMsgActive) (
     assert_that (ib_cur s \<le> ib_buf_size s) (
     assert_that (ib_cur s = ib_end s) (
     get_more_loop fuel wait peeking (ib_cur s) s))))"

definition tcp_read_stream :: "nat \<Rightarrow> (InputBuf \<Rightarrow> InputBuf outcome) \<Rightarrow> InputBuf \<Rightarrow> (int \<times> InputBuf) outcome" where
  "tcp_read_stream fuel wait s =
     (if ib_cur s < ib_end s then Inr (uint (ib_buf s ! ib_cur s), s\<lparr>ib_cur := ib_cur s + 1\<rparr>)
      else ibuf_get_more fuel wait False s)"

definition tcp_peek_stream :: "nat \<Rightarrow> (InputBuf \<Rightarrow> InputBuf outcome) \<Rightarrow> InputBuf \<Rightarrow> (int \<times> InputBuf) outcome" where
  "tcp_peek_stream fuel wait s =
     (if ib_cur s < ib_end s then Inr (uint (ib_buf s ! ib_cur s), s)
      else ibuf_get_more fuel wait True s)"

definition ibuf_init :: InputBuf where
  "ibuf_init = \<lparr>ib_buf_size = 4096, ib_buf = replicate 4096 0, ib_inp = 0, ib_cur = 0, ib_end = 0,
     ib_inp_esc = False, ib_out_esc = False, ib_eof = False, ib_long_msg = False,
     ib_message_count = 0, ib_handling_msg = HandleMsgIdle, ib_out_size_mode = 0,
     ib_out_data_size = 0, ib_inp_size_mode = 0, ib_inp_data_size = 0, ib_read_pending = None,
     ib_events = 0\<rparr>"

definition ibuf_flush :: "InputBuf \<Rightarrow> InputBuf" where
  "ibuf_flush s = s\<lparr>ib_cur := ib_inp s, ib_end := ib_inp s, ib_message_count := 0,
     ib_out_data_size := 0, ib_out_size_mode := 0, ib_inp_data_size := 0, ib_inp_size_mode := 0\<rparr>"

text \<open>One escape sequence, as the preprocessing of received bytes sees it.\<close>

definition inp_escape :: "InputBuf \<Rightarrow> byte \<Rightarrow> InputBuf outcome" where
  "inp_escape s b =
     (let s = s\<lparr>ib_inp_esc := False\<rparr> in
      if b = 0 then Inr s
      else if b = 1 then
        (if ib_long_msg s then
           let s = s\<lparr>ib_long_msg := False\<rparr> in assert_that (ib_message_count s = 1) (Inr s)
         else ibuf_new_message s)
      else if b = 2 then ibuf_eof s
      else if b = 3 then Inr (s\<lparr>ib_inp_size_mode := 1, ib_inp_data_size := 0\<rparr>)
      else ibuf_eof s)"

function read_done_loop :: "nat \<Rightarrow> nat \<Rightarrow> InputBuf \<Rightarrow> (nat \<times> InputBuf) outcome" where
  "read_done_loop len p s =
     (if len = 0 then Inr (p, s)
      else if p \<ge> length (ib_buf s) then Inl Undefined_Behaviour
      else
        let b = ib_buf s ! p; next_p = (if p + 1 = ib_buf_size s then 0 else p + 1) in
        if ib_inp_size_mode s \<noteq> 0 then
          assert_that (\<not> ib_inp_esc s) (
          rbind (add_size (ib_inp_size_mode s) (ib_inp_data_size s) b) (\<lambda>sz.
          read_done_loop (len - 1) next_p
            (s\<lparr>ib_inp_data_size := sz,
               ib_inp_size_mode := (if b AND 0x80 = 0 then 0 else ib_inp_size_mode s + 1)\<rparr>)))
        else if ib_inp_data_size s > 0 then
          assert_that (\<not> ib_inp_esc s) (
          let n = (if ib_inp_data_size s < len then ib_inp_data_size s else len);
              q = p + n
          in read_done_loop (len - n) (if q \<ge> ib_buf_size s then q - ib_buf_size s else q)
               (s\<lparr>ib_inp_data_size := ib_inp_data_size s - n\<rparr>))
        else
          rbind (if ib_inp_esc s then inp_escape s b
                 else if b = 3 then Inr (s\<lparr>ib_inp_esc := True\<rparr>)
                 else Inr s) (\<lambda>s.
          read_done_loop (len - 1) next_p s))"
  by pat_completeness auto
termination
  by (relation "measure (\<lambda>(len, p, s). len)") (auto split: if_splits)

declare read_done_loop.simps [simp del]

text \<open>A buffer that is full of an incomplete message is doubled, up to 16 MB.\<close>

definition grow_buf :: "InputBuf \<Rightarrow> InputBuf outcome" where
  "grow_buf s =
     (if ib_eof s then Inr s
      else
        rbind (ibuf_free_size s) (\<lambda>(sz, s).
        if sz = 0 \<and> ib_buf_size s < 0x1000000 then
          if ib_end s < ib_cur s then Inl Undefined_Behaviour
          else Inr (s\<lparr>ib_buf := drop (ib_cur s) (ib_buf s) @ take (ib_cur s) (ib_buf s) @
                             replicate (ib_buf_size s) 0,
                 ib_inp := ib_buf_size s - 1, ib_buf_size := ib_buf_size s * 2,
                 ib_cur := 0, ib_end := ib_end s - ib_cur s\<rparr>)
        else Inr s))"

definition read_more :: "InputBuf \<Rightarrow> InputBuf outcome" where
  "read_more s =
     rbind (ibuf_free_size s) (\<lambda>(sz, s).
     if sz > 0 then ibuf_trigger_read s
     else if ib_message_count s = 0 then ibuf_new_message (s\<lparr>ib_long_msg := True\<rparr>)
     else Inr s)"

definition ibuf_read_done :: "InputBuf \<Rightarrow> nat \<Rightarrow> InputBuf outcome" where
  "ibuf_read_done s len =
     (if len = 0 then ibuf_eof s
      else
        assert_that (\<not> ib_eof s) (
        rbind (read_done_loop len (ib_inp s) s) (\<lambda>(p, s).
        rbind (grow_buf (s\<lparr>ib_inp := p\<rparr>)) read_more)))"

definition ibuf_start_message :: "InputBuf \<Rightarrow> (int \<times> InputBuf) outcome" where
  "ibuf_start_message s =
     assert_that (ib_handling_msg s = HandleMsgTriggered) (
     if ib_message_count s = 0 then Inr (0, s\<lparr>ib_handling_msg := HandleMsgIdle\<rparr>)
     else if ib_eof s then Inr (-1, s\<lparr>ib_handling_msg := HandleMsgIdle\<rparr>)
     else Inr (1, s\<lparr>ib_handling_msg := HandleMsgActive\<rparr>))"

text \<open>The socket stores received bytes where the outstanding request says, and reports their
  number (\<^verbatim>\<open>tcp_channel_read_done\<close> of a connected channel without SSL).\<close>

definition tcp_channel_read_done :: "InputBuf \<Rightarrow> byte list \<Rightarrow> InputBuf outcome" where
  "tcp_channel_read_done s bytes =
     (case ib_read_pending s of
        None \<Rightarrow> Inl Assertion_Failed
      | Some (b, sz) \<Rightarrow>
          let s = s\<lparr>ib_read_pending := None,
                    ib_buf := take b (ib_buf s) @ bytes @ drop (b + length bytes) (ib_buf s)\<rparr>
          in ibuf_read_done s (length bytes))"

text \<open>The dispatch of a posted event, up to the call of the message handler. A new channel posts its
  first read request (\<^verbatim>\<open>start_channel\<close>).\<close>

definition handle_channel_msg :: "InputBuf \<Rightarrow> (int \<times> InputBuf) outcome" where
  "handle_channel_msg s =
     (let s = s\<lparr>ib_events := ib_events s - 1\<rparr> in
      assert_that (ib_handling_msg s = HandleMsgTriggered) (
      assert_that (ib_message_count s \<noteq> 0) (
      ibuf_start_message s)))"

definition channel_check_pending :: "InputBuf \<Rightarrow> InputBuf" where
  "channel_check_pending s =
     (if ib_handling_msg s = HandleMsgIdle \<and> ib_message_count s \<noteq> 0
      then s\<lparr>ib_events := ib_events s + 1, ib_handling_msg := HandleMsgTriggered\<rparr> else s)"

definition channel_get_message_count :: "InputBuf \<Rightarrow> int" where
  "channel_get_message_count s = (if ib_handling_msg s \<noteq> HandleMsgTriggered then 0 else ib_message_count s)"

definition start_channel :: "InputBuf outcome" where
  "start_channel = ibuf_trigger_read ibuf_init"

end
