(* ===== verification/InputRing.thy ===== *)
theory InputRing
  imports InputBuf
begin

text \<open>
  The proofs about \<^verbatim>\<open>framework/inputbuf.c\<close>: the wire format as an automaton (\<open>dstep\<close>,
  \<open>decode\<close>), the ring of received bytes and its invariant \<open>buf_ok\<close>, the symbols that it
  holds (\<open>content\<close>), and how reading, receiving and growing the buffer act on them. The
  operations of a channel are summed up in \<open>ib_read_ok\<close> and \<open>receive_ok\<close>.
\<close>

section \<open>The wire format\<close>

text \<open>The state of the automaton: after \<^verbatim>\<open>ESC\<close>, in the size of a block, and the bytes of a
  block still to come. A step yields a symbol or none; \<open>None\<close> is an invalid sequence.\<close>

type_synonym dmode = "bool \<times> nat \<times> nat"

definition dstep :: "dmode \<Rightarrow> byte \<Rightarrow> (int option \<times> dmode) option" where
  "dstep = (\<lambda>(esc, sm, sz) b.
     if sm \<noteq> 0 then
       (if esc then None
        else case add_size sm sz b of
          Inl _ \<Rightarrow> None
        | Inr sz \<Rightarrow> Some (None, False, if b AND 0x80 = 0 then 0 else sm + 1, sz))
     else if sz > 0 then (if esc then None else Some (Some (uint b), False, 0, sz - 1))
     else if esc then
       (if b = 0 then Some (Some ESC, False, 0, 0)
        else if b = 1 then Some (Some MARKER_EOM, False, 0, 0)
        else if b = 2 then Some (Some MARKER_EOS, False, 0, 0)
        else if b = 3 then Some (None, False, 1, 0)
        else None)
     else if b = 3 then Some (None, True, 0, 0)
     else Some (Some (uint b), False, 0, 0))"

fun emit :: "int option \<Rightarrow> int list \<times> dmode \<Rightarrow> int list \<times> dmode" where
  "emit None r = r"
| "emit (Some c) (cs, m) = (c # cs, m)"

fun decode :: "dmode \<Rightarrow> byte list \<Rightarrow> (int list \<times> dmode) option" where
  "decode m [] = Some ([], m)"
| "decode m (b # bs) =
     (case dstep m b of None \<Rightarrow> None | Some (out, m') \<Rightarrow> map_option (emit out) (decode m' bs))"

abbreviation start_mode :: dmode where "start_mode \<equiv> (False, 0, 0)"

lemma decode_append:
  "decode m xs = Some (cs, m') \<Longrightarrow>
   decode m (xs @ ys) = map_option (\<lambda>(ds, m''). (cs @ ds, m'')) (decode m' ys)"
proof (induction xs arbitrary: m cs)
  case Nil
  then show ?case by (cases "decode m' ys") auto
next
  case (Cons b xs)
  then obtain out m1 where d: "dstep m b = Some (out, m1)" by (auto split: option.splits)
  with Cons.prems obtain cs1 where e: "decode m1 xs = Some (cs1, m')" "(cs, m') = emit out (cs1, m')"
    by (cases out) auto
  show ?case
  proof (cases "decode m' ys")
    case None
    with d Cons.IH [OF e(1)] show ?thesis by simp
  next
    case (Some p)
    with d Cons.IH [OF e(1)] e(2) show ?thesis by (cases p; cases out) auto
  qed
qed

lemma decode_splitD:
  assumes "decode m (xs @ ys) = Some (cs, m2)"
  obtains as m1 bs where "decode m xs = Some (as, m1)" "decode m1 ys = Some (bs, m2)" "cs = as @ bs"
proof (cases "decode m xs")
  case None
  have "decode m (xs @ ys) = None" if "decode m xs = None" for m using that
    by (induction xs arbitrary: m) (auto split: option.splits)
  with None assms show thesis by simp
next
  case (Some p)
  then obtain as m1 where 1: "decode m xs = Some (as, m1)" by (cases p) simp
  from decode_append [OF 1, of ys] assms obtain bs where "decode m1 ys = Some (bs, m2)" "cs = as @ bs"
    by (cases "decode m1 ys") (auto split: prod.splits)
  with 1 that show thesis by blast
qed

lemma decode_plain:
  "list_all (\<lambda>b. b \<noteq> 3) bs \<Longrightarrow> decode (False, 0, 0) bs = Some (syms bs, False, 0, 0)"
  by (induction bs) (auto simp: dstep_def)

lemma decode_block:
  "length bs \<le> sz \<Longrightarrow> decode (False, 0, sz) bs = Some (syms bs, False, 0, sz - length bs)"
  by (induction bs arbitrary: sz) (auto simp: dstep_def)

section \<open>The ring\<close>

definition circ :: "byte list \<Rightarrow> nat \<Rightarrow> nat \<Rightarrow> byte list" where
  "circ b i j = (if i \<le> j then take (j - i) (drop i b) else drop i b @ take j b)"

definition wrap :: "nat \<Rightarrow> nat \<Rightarrow> nat" where
  "wrap n p = (if p = n then 0 else p)"

lemma circ_Nil [simp]: "circ b i i = []"
  by (simp add: circ_def)

lemma circ_Cons:
  assumes "i < length b" "j < length b" "i \<noteq> j"
  shows "circ b i j = b ! i # circ b (wrap (length b) (i + 1)) j"
proof (cases "i < j")
  case True
  have "take (j - i) (drop i b) = b ! i # take (j - Suc i) (drop (Suc i) b)"
    using assms True by (metis Cons_nth_drop_Suc Suc_diff_Suc take_Suc_Cons)
  with True assms show ?thesis by (simp add: circ_def wrap_def)
next
  case False
  have "drop i b = b ! i # drop (Suc i) b" using assms(1) by (rule Cons_nth_drop_Suc [symmetric])
  with False assms show ?thesis by (auto simp: circ_def wrap_def)
qed

lemma circ_run:
  assumes "i < length b" "j < length b" "i \<noteq> j" "i + k \<le> (if i < j then j else length b)"
  shows "circ b i j = take k (drop i b) @ circ b (wrap (length b) (i + k)) j"
proof (cases "i < j")
  case True
  have "take (j - i) (drop i b) = take (k + (j - i - k)) (drop i b)" using assms True by simp
  also have "\<dots> = take k (drop i b) @ take (j - i - k) (drop (i + k) b)"
    by (simp only: take_add drop_drop add.commute)
  finally show ?thesis using True assms by (auto simp: circ_def wrap_def)
next
  case False
  have "drop i b = take k (drop i b) @ drop (i + k) b"
    by (metis append_take_drop_id drop_drop add.commute)
  with False assms show ?thesis by (auto simp: circ_def wrap_def)
qed

lemma length_circ: "i < length b \<Longrightarrow> j < length b \<Longrightarrow> length (circ b i j) < length b"
  by (auto simp: circ_def)

abbreviation omode :: "InputBuf \<Rightarrow> dmode" where
  "omode s \<equiv> (ib_out_esc s, ib_out_size_mode s, ib_out_data_size s)"

abbreviation imode :: "InputBuf \<Rightarrow> dmode" where
  "imode s \<equiv> (ib_inp_esc s, ib_inp_size_mode s, ib_inp_data_size s)"

text \<open>The bytes behind the run that the stream is reading, and that run.\<close>

definition ib_rest :: "InputBuf \<Rightarrow> byte list" where
  "ib_rest s = circ (ib_buf s) (wrap (ib_buf_size s) (ib_end s)) (ib_inp s)"

definition ib_run :: "InputBuf \<Rightarrow> byte list" where
  "ib_run s = take (ib_end s - ib_cur s) (drop (ib_cur s) (ib_buf s))"

text \<open>A read request covers free bytes at \<open>ib_inp\<close>, and never all of them.\<close>

definition free_ok :: "InputBuf \<Rightarrow> nat \<Rightarrow> nat \<Rightarrow> bool" where
  "free_ok s b sz \<longleftrightarrow> b = ib_inp s \<and> 0 < sz \<and> b + sz \<le> ib_buf_size s \<and>
     (let c = wrap (ib_buf_size s) (ib_cur s) in
      if c \<le> ib_inp s then c = 0 \<longrightarrow> b + sz < ib_buf_size s else b + sz < c)"

definition buf_ok :: "InputBuf \<Rightarrow> bool" where
  "buf_ok s \<longleftrightarrow> length (ib_buf s) = ib_buf_size s \<and> 1 < ib_buf_size s \<and> ib_inp s < ib_buf_size s \<and>
     ib_cur s \<le> ib_end s \<and> ib_end s \<le> ib_buf_size s \<and>
     (ib_cur s \<le> ib_inp s \<longrightarrow> ib_end s \<le> ib_inp s) \<and> \<not> ib_eof s \<and>
     (case ib_read_pending s of None \<Rightarrow> True | Some (b, sz) \<Rightarrow> free_ok s b sz)"

definition content :: "InputBuf \<Rightarrow> int list \<Rightarrow> bool" where
  "content s xs \<longleftrightarrow> (\<exists>ys. decode (omode s) (ib_rest s) = Some (ys, imode s) \<and> xs = syms (ib_run s) @ ys)"

lemma buf_okD:
  assumes "buf_ok s"
  shows "length (ib_buf s) = ib_buf_size s" "1 < ib_buf_size s" "ib_inp s < ib_buf_size s"
    "ib_cur s \<le> ib_end s" "ib_end s \<le> ib_buf_size s" "ib_cur s \<le> ib_inp s \<Longrightarrow> ib_end s \<le> ib_inp s"
    "\<not> ib_eof s" "ib_read_pending s = Some (b, sz) \<Longrightarrow> free_ok s b sz"
  using assms by (auto simp: buf_ok_def)

text \<open>The normalisation that \<open>ibuf_free_size\<close> does.\<close>

definition norm :: "InputBuf \<Rightarrow> InputBuf" where
  "norm s = (if ib_cur s = ib_buf_size s then s\<lparr>ib_cur := 0, ib_end := 0\<rparr> else s)"

lemma norm_ok:
  assumes "buf_ok s"
  shows "buf_ok (norm s)" "content (norm s) xs = content s xs" "ib_cur (norm s) < ib_buf_size s"
    "wrap (ib_buf_size s) (ib_cur (norm s)) = wrap (ib_buf_size s) (ib_cur s)"
  using buf_okD [OF assms]
  by (auto simp: norm_def buf_ok_def content_def ib_rest_def ib_run_def wrap_def free_ok_def Let_def split: option.splits)

definition free_size :: "InputBuf \<Rightarrow> nat" where
  "free_size s = (if ib_cur s \<le> ib_inp s then ib_buf_size s - ib_inp s - (if ib_cur s = 0 then 1 else 0)
     else ib_cur s - ib_inp s - 1)"

lemma ibuf_free_size_ok: "buf_ok s \<Longrightarrow> ibuf_free_size s = Inr (free_size (norm s), norm s)"
  using buf_okD [of s] by (auto simp: ibuf_free_size_def norm_def free_size_def Let_def)

lemma free_size_ok:
  "buf_ok s \<Longrightarrow> ib_cur s < ib_buf_size s \<Longrightarrow> 0 < free_size s \<Longrightarrow> free_ok s (ib_inp s) (free_size s)"
  using buf_okD [of s] by (auto simp: free_size_def free_ok_def wrap_def Let_def)

lemma ibuf_trigger_read_ok:
  assumes "buf_ok s"
  shows "\<exists>r. ibuf_trigger_read s = Inr ((norm s)\<lparr>ib_read_pending := r\<rparr>) \<and>
    buf_ok ((norm s)\<lparr>ib_read_pending := r\<rparr>) \<and>
    (r = None \<longrightarrow> ib_read_pending s = None \<and> free_size (norm s) = 0)"
proof -
  let ?s = "norm s"
  have ok: "buf_ok ?s" and c: "ib_cur ?s < ib_buf_size ?s"
    using norm_ok [OF assms] by (auto simp: norm_def)
  have p: "ib_read_pending ?s = ib_read_pending s" by (simp add: norm_def)
  have same: "?s\<lparr>ib_read_pending := ib_read_pending ?s\<rparr> = ?s" by simp
  show ?thesis
  proof (cases "free_size ?s > 0 \<and> ib_read_pending ?s = None")
    case True
    let ?r = "Some (ib_inp ?s, free_size ?s)"
    have f: "free_ok ?s (ib_inp ?s) (free_size ?s)" using free_size_ok [OF ok c] True by simp
    then have "buf_ok (?s\<lparr>ib_read_pending := ?r\<rparr>)"
      using ok by (simp add: buf_ok_def free_ok_def Let_def)
    moreover have "ibuf_trigger_read s = Inr (?s\<lparr>ib_read_pending := ?r\<rparr>)"
      using True f ibuf_free_size_ok [OF assms]
      by (simp add: ibuf_trigger_read_def tcp_post_read_def free_ok_def)
    ultimately show ?thesis by blast
  next
    case False
    have t: "ibuf_trigger_read s = Inr ?s"
    proof (cases "free_size ?s > 0")
      case True
      with free_size_ok [OF ok c] have "free_ok ?s (ib_inp ?s) (free_size ?s)" by blast
      with True False ibuf_free_size_ok [OF assms] show ?thesis
        by (simp add: ibuf_trigger_read_def tcp_post_read_def free_ok_def)
    next
      case z: False
      with ibuf_free_size_ok [OF assms] show ?thesis by (simp add: ibuf_trigger_read_def)
    qed
    show ?thesis
      by (rule exI [of _ "ib_read_pending ?s"], unfold same, intro conjI t ok) (use False p in auto)
  qed
qed

lemma content_pending [simp]: "content (s\<lparr>ib_read_pending := r\<rparr>) xs = content s xs"
  by (simp add: content_def ib_rest_def ib_run_def)

section \<open>Reading\<close>

text \<open>\<open>fwd s c d\<close>: the reader may move from \<open>c\<close> to \<open>d\<close>.\<close>

definition fwd :: "InputBuf \<Rightarrow> nat \<Rightarrow> nat \<Rightarrow> bool" where
  "fwd s c d \<longleftrightarrow> d < ib_buf_size s \<and> (if c \<le> ib_inp s then c \<le> d \<and> d \<le> ib_inp s else c \<le> d \<or> d \<le> ib_inp s)"

lemma fwd_step:
  assumes "fwd s c d" "d \<noteq> ib_inp s" "ib_inp s < ib_buf_size s"
    and "d + k \<le> (if d < ib_inp s then ib_inp s else ib_buf_size s)"
  shows "fwd s c (wrap (ib_buf_size s) (d + k))"
  using assms by (auto simp: fwd_def wrap_def split: if_splits)

lemma fwd_free:
  assumes "free_ok s b sz" "fwd s (wrap (ib_buf_size s) (ib_cur s)) (wrap (ib_buf_size s) c)"
    "ib_cur s \<le> ib_buf_size s"
    and "s' = s\<lparr>ib_cur := c, ib_end := e, ib_out_esc := x, ib_out_size_mode := y, ib_out_data_size := z\<rparr>"
  shows "free_ok s' b sz"
proof -
  have "wrap (ib_buf_size s) (ib_cur s) \<le> ib_buf_size s" using assms(3) by (simp add: wrap_def)
  with assms(1,2,4) show ?thesis by (auto simp: free_ok_def fwd_def Let_def split: if_splits)
qed

lemma plain_end_ok:
  "p \<le> mx \<Longrightarrow> p \<le> plain_end buf p mx \<and> plain_end buf p mx \<le> mx \<and>
     (\<forall>i. p \<le> i \<longrightarrow> i < plain_end buf p mx \<longrightarrow> buf ! i \<noteq> 3)"
proof (induction buf p mx rule: plain_end.induct)
  case (1 buf p mx)
  show ?case
  proof (cases "p < mx \<and> buf ! p \<noteq> 3")
    case True
    then have "plain_end buf p mx = plain_end buf (p + 1) mx" by (subst plain_end.simps) simp
    with 1 True show ?thesis
      by simp (metis Suc_leD Suc_leI le_neq_implies_less)
  next
    case False
    then have "plain_end buf p mx = p" by (subst plain_end.simps) auto
    with 1 show ?thesis by simp
  qed
qed

text \<open>The state that a call of \<open>ibuf_get_more\<close> ends with: the reader stands at \<open>c\<close>, and the
  bytes up to \<open>e\<close> can be read without another call.\<close>

definition at_pos :: "InputBuf \<Rightarrow> nat \<Rightarrow> nat \<Rightarrow> dmode \<Rightarrow> InputBuf" where
  "at_pos s c e m = s\<lparr>ib_cur := c, ib_end := e, ib_out_esc := fst m, ib_out_size_mode := fst (snd m),
     ib_out_data_size := snd (snd m)\<rparr>"

lemma at_pos_ok:
  assumes ok: "buf_ok s" and p: "fwd s (wrap (ib_buf_size s) (ib_cur s)) p" "p \<noteq> ib_inp s"
    and e: "e \<le> (if p < ib_inp s then ib_inp s else ib_buf_size s)" "p \<le> c" "c \<le> e"
  shows "buf_ok (at_pos s c e m)"
proof -
  note d = buf_okD [OF ok]
  have "fwd s (wrap (ib_buf_size s) (ib_cur s)) (wrap (ib_buf_size s) c)"
    using fwd_step [OF p d(3), of "c - p"] e by (auto split: if_splits)
  from fwd_free [OF _ this] d(4,5,8) have "free_ok (at_pos s c e m) b sz" if "ib_read_pending s = Some (b, sz)" for b sz
    using that by (simp add: at_pos_def)
  moreover have "c \<le> ib_inp s \<longrightarrow> e \<le> ib_inp s"
    using e p d by (auto split: if_splits)
  ultimately show ?thesis
    using d e p by (auto simp: buf_ok_def at_pos_def split: option.splits if_splits)
qed

lemma at_pos_content:
  assumes ok: "buf_ok s" and p: "p < ib_buf_size s" "p \<noteq> ib_inp s"
    and e: "e \<le> (if p < ib_inp s then ib_inp s else ib_buf_size s)" "p \<le> c" "c \<le> e"
    and dec: "decode m (circ (ib_buf s) p (ib_inp s)) = Some (xs, imode s)"
    and run: "decode m (take (e - p) (drop p (ib_buf s))) = Some (ys, m')"
      "ys = syms (take (e - p) (drop p (ib_buf s)))"
  shows "content (at_pos s c e m') (drop (c - p) xs)"
proof -
  note d = buf_okD [OF ok]
  let ?r = "take (e - p) (drop p (ib_buf s))" and ?t = "circ (ib_buf s) (wrap (ib_buf_size s) e) (ib_inp s)"
  have "circ (ib_buf s) p (ib_inp s) = ?r @ ?t"
  proof -
    have "p + (e - p) \<le> (if p < ib_inp s then ib_inp s else length (ib_buf s))" using e d(1) by auto
    from circ_run [OF _ _ p(2) this] p(1) d(1,3) e show ?thesis by simp
  qed
  with dec decode_append [OF run(1), of ?t] obtain zs where zs: "decode m' ?t = Some (zs, imode s)" "xs = ys @ zs"
    by auto
  have "e \<le> length (ib_buf s)" using e(1) d by (auto split: if_splits)
  then have r: "drop (c - p) ?r = take (e - c) (drop c (ib_buf s))" "c - p \<le> length (syms ?r)"
    using e by (auto simp: drop_take)
  have "drop (c - p) xs = drop (c - p) (syms ?r) @ zs"
    unfolding zs(2) run(2) using r(2) by (simp only: drop_append diff_is_0_eq' drop_0)
  also have "drop (c - p) (syms ?r) = syms (take (e - c) (drop c (ib_buf s)))"
    unfolding r(1) [symmetric] by (simp add: syms_def drop_map)
  finally have "drop (c - p) xs = syms (take (e - c) (drop c (ib_buf s))) @ zs" .
  with zs(1) show ?thesis
    by (auto simp: content_def at_pos_def ib_rest_def ib_run_def)
qed

lemma field_simps [simp]:
  "buf_ok (s\<lparr>ib_message_count := n\<rparr>) = buf_ok s" "content (s\<lparr>ib_message_count := n\<rparr>) xs = content s xs"
  "buf_ok (s\<lparr>ib_handling_msg := h\<rparr>) = buf_ok s" "content (s\<lparr>ib_handling_msg := h\<rparr>) xs = content s xs"
  "buf_ok (s\<lparr>ib_events := k\<rparr>) = buf_ok s" "content (s\<lparr>ib_events := k\<rparr>) xs = content s xs"
  "buf_ok (s\<lparr>ib_long_msg := l\<rparr>) = buf_ok s" "content (s\<lparr>ib_long_msg := l\<rparr>) xs = content s xs"
  "buf_ok (s\<lparr>ib_out_esc := e\<rparr>) = buf_ok s" "buf_ok (s\<lparr>ib_out_size_mode := k\<rparr>) = buf_ok s"
  "buf_ok (s\<lparr>ib_out_data_size := k\<rparr>) = buf_ok s"
  by (simp_all add: buf_ok_def content_def ib_rest_def ib_run_def free_ok_def Let_def cong: option.case_cong)

definition ctrl :: "InputBuf \<Rightarrow> dmode \<times> bool \<times> int \<times> handling \<times> nat" where
  "ctrl s = (imode s, ib_long_msg s, ib_message_count s, ib_handling_msg s, ib_events s)"

lemma finish_read_ok:
  assumes "buf_ok s" "content s xs"
  shows "\<exists>s'. finish_read s ch = Inr (ch, s') \<and> buf_ok s' \<and> content s' xs \<and> ctrl s' = ctrl s \<and>
    (ib_read_pending s' = None \<longrightarrow> free_size (norm s) = 0)"
proof -
  obtain r where "ibuf_trigger_read s = Inr ((norm s)\<lparr>ib_read_pending := r\<rparr>)"
    "buf_ok ((norm s)\<lparr>ib_read_pending := r\<rparr>)" "r = None \<longrightarrow> free_size (norm s) = 0"
    using ibuf_trigger_read_ok [OF assms(1)] by blast
  moreover have "content ((norm s)\<lparr>ib_read_pending := r\<rparr>) xs"
    using norm_ok(2) [OF assms(1)] assms(2) by simp
  ultimately show ?thesis by (auto simp: finish_read_def norm_def ctrl_def)
qed

text \<open>What one call that yields \<open>c\<close> does to the counter and the state of the channel.\<close>

definition after_read :: "bool \<Rightarrow> InputBuf \<Rightarrow> int \<Rightarrow> InputBuf \<Rightarrow> bool" where
  "after_read peeking s c s' \<longleftrightarrow>
     (if \<not> peeking \<and> c = MARKER_EOM
      then let n = ib_message_count s - 1 in
        ctrl s' = (imode s, ib_long_msg s, n, if n = 0 then HandleMsgIdle else HandleMsgTriggered,
          if n = 0 then ib_events s else ib_events s + 1) \<and> ib_read_pending s' \<noteq> None
      else ctrl s' = ctrl s)"

lemma at_pos_eqs:
  "s\<lparr>ib_cur := c, ib_end := e, ib_out_data_size := z\<rparr> = at_pos s c e (ib_out_esc s, ib_out_size_mode s, z)"
  "s\<lparr>ib_cur := c, ib_end := e\<rparr> = at_pos s c e (omode s)"
  "s\<lparr>ib_out_esc := x, ib_cur := c, ib_end := e\<rparr> = at_pos s c e (x, ib_out_size_mode s, ib_out_data_size s)"
  by (cases s; simp add: at_pos_def)+

lemma get_more_run:
  assumes ok: "buf_ok s" and q: "fwd s (wrap (ib_buf_size s) (ib_cur s)) q" "q \<noteq> ib_inp s"
    and e: "e \<le> (if q < ib_inp s then ib_inp s else ib_buf_size s)" "q + 1 \<le> e"
    and dec: "decode (omode s) (circ (ib_buf s) q (ib_inp s)) = Some (c # cs, imode s)"
    and run: "decode (omode s) (take (e - q) (drop q (ib_buf s))) =
      Some (syms (take (e - q) (drop q (ib_buf s))), m')" and c: "c = uint (ib_buf s ! q)"
  shows "\<exists>s'. finish_read (at_pos s (if peeking then q else q + 1) e m') (uint (ib_buf s ! q)) = Inr (c, s') \<and>
    buf_ok s' \<and> content s' (if peeking then c # cs else cs) \<and> after_read peeking s c s'"
proof -
  let ?p = "if peeking then q else q + 1"
  have qn: "q < ib_buf_size s" using q(1) by (simp add: fwd_def)
  have "buf_ok (at_pos s ?p e m')" by (rule at_pos_ok [OF ok q e(1)]) (use e(2) in auto)
  moreover have "content (at_pos s ?p e m') (drop (?p - q) (c # cs))"
    by (rule at_pos_content [OF ok qn q(2) e(1) _ _ dec run refl]) (use e(2) in auto)
  then have "content (at_pos s ?p e m') (if peeking then c # cs else cs)" by (cases peeking) auto
  moreover have "c \<noteq> MARKER_EOM" using c uint_byte_bounds(1) [of "ib_buf s ! q"] by linarith
  ultimately show ?thesis
    using finish_read_ok [of "at_pos s ?p e m'" _ "uint (ib_buf s ! q)"] c
    by (fastforce simp: after_read_def at_pos_def ctrl_def)
qed

lemma decode_ConsD:
  assumes "decode m (b # bs) = Some (xs, m2)"
  obtains out m1 ys where "dstep m b = Some (out, m1)" "decode m1 bs = Some (ys, m2)"
    "xs = (case out of None \<Rightarrow> ys | Some c \<Rightarrow> c # ys)"
proof -
  from assms obtain out m1 where d: "dstep m b = Some (out, m1)" by (auto split: option.splits)
  with assms obtain ys where "decode m1 bs = Some (ys, m2)" "emit out (ys, m2) = (xs, m2)"
    by (cases out) auto
  with that [OF d] show thesis by (cases out) auto
qed

lemma run_mode:
  assumes "length run \<le> k" "length (ib_buf s) = ib_buf_size s" "e \<le> ib_buf_size s" "q < e"
    "run = take (e - q) (drop q (ib_buf s))"
  shows "run = ib_buf s ! q # take (e - (q + 1)) (drop (q + 1) (ib_buf s))"
proof -
  have "drop q (ib_buf s) = ib_buf s ! q # drop (Suc q) (ib_buf s)"
    using assms by (intro Cons_nth_drop_Suc [symmetric]) simp
  moreover have "e - q = Suc (e - (q + 1))" using assms(4) by simp
  ultimately show ?thesis using assms(5) by simp
qed

lemma mode_simps [simp]:
  "fwd (s\<lparr>ib_out_esc := x\<rparr>) c d = fwd s c d" "fwd (s\<lparr>ib_out_size_mode := k\<rparr>) c d = fwd s c d"
  "fwd (s\<lparr>ib_out_data_size := k\<rparr>) c d = fwd s c d"
  "after_read pk (s\<lparr>ib_out_esc := x\<rparr>) ch s' = after_read pk s ch s'"
  "after_read pk (s\<lparr>ib_out_size_mode := k\<rparr>) ch s' = after_read pk s ch s'"
  "after_read pk (s\<lparr>ib_out_data_size := k\<rparr>) ch s' = after_read pk s ch s'"
  by (simp_all add: fwd_def after_read_def ctrl_def)

lemma count_simps [simp]:
  "fwd (s\<lparr>ib_message_count := n\<rparr>) c d = fwd s c d" "fwd (s\<lparr>ib_handling_msg := h\<rparr>) c d = fwd s c d"
  "fwd (s\<lparr>ib_events := k\<rparr>) c d = fwd s c d"
  by (simp_all add: fwd_def)

lemma at_pos_here:
  assumes ok: "buf_ok s" and q: "fwd s (wrap (ib_buf_size s) (ib_cur s)) q" "q \<noteq> ib_inp s"
    and p: "p = q \<or> p = q + 1" and dec: "decode m (circ (ib_buf s) (wrap (ib_buf_size s) p) (ib_inp s)) = Some (xs, imode s)"
  shows "\<exists>s'. finish_read (at_pos s p p m) ch = Inr (ch, s') \<and> buf_ok s' \<and> content s' xs \<and>
    ctrl s' = ctrl s \<and> (p = q + 1 \<longrightarrow> ib_read_pending s' \<noteq> None)"
proof -
  have "buf_ok (at_pos s p p m)"
    by (rule at_pos_ok [OF ok q]) (use p q buf_okD(3) [OF ok] in \<open>auto simp: fwd_def\<close>)
  moreover have "content (at_pos s p p m) xs"
    using dec by (simp add: content_def at_pos_def ib_rest_def ib_run_def syms_def)
  moreover have "free_size (norm (at_pos s p p m)) > 0" if "p = q + 1"
    using that q buf_okD(2,3) [OF ok] by (auto simp: free_size_def norm_def at_pos_def fwd_def)
  ultimately show ?thesis
    using finish_read_ok [of "at_pos s p p m" xs ch] by (fastforce simp: at_pos_def ctrl_def)
qed

text \<open>The end of a message that has been read.\<close>

lemma end_of_message:
  assumes "ib_message_count s > 0"
  shows "rbind (if ib_message_count s - 1 \<noteq> 0
      then tcp_trigger_message (s\<lparr>ib_message_count := ib_message_count s - 1, ib_handling_msg := HandleMsgIdle\<rparr>)
      else Inr (s\<lparr>ib_message_count := ib_message_count s - 1, ib_handling_msg := HandleMsgIdle\<rparr>))
      (\<lambda>s. Inr (MARKER_EOM, s)) = Inr (MARKER_EOM, s\<lparr>ib_message_count := ib_message_count s - 1,
        ib_handling_msg := (if ib_message_count s - 1 = 0 then HandleMsgIdle else HandleMsgTriggered),
        ib_events := (if ib_message_count s - 1 = 0 then ib_events s else ib_events s + 1)\<rparr>)"
  using assms by (simp add: tcp_trigger_message_def)

text \<open>The reader stands at the byte \<open>q\<close>, and the next symbol is \<open>c\<close>.\<close>

definition at_byte :: "InputBuf \<Rightarrow> nat \<Rightarrow> int \<Rightarrow> int list \<Rightarrow> bool" where
  "at_byte s q c cs \<longleftrightarrow> buf_ok s \<and> fwd s (wrap (ib_buf_size s) (ib_cur s)) q \<and> q \<noteq> ib_inp s \<and>
     decode (omode s) (circ (ib_buf s) q (ib_inp s)) = Some (c # cs, imode s) \<and> c \<noteq> MARKER_EOS \<and>
     ib_message_count s > 0"

definition result_ok :: "bool \<Rightarrow> InputBuf \<Rightarrow> int \<Rightarrow> int list \<Rightarrow> (int \<times> InputBuf) outcome \<Rightarrow> bool" where
  "result_ok peeking s c cs r \<longleftrightarrow> (\<exists>s'. r = Inr (c, s') \<and> buf_ok s' \<and>
     content s' (if peeking then c # cs else cs) \<and> after_read peeking s c s')"

definition with_mode :: "InputBuf \<Rightarrow> dmode \<Rightarrow> InputBuf" where
  "with_mode s m = s\<lparr>ib_out_esc := fst m, ib_out_size_mode := fst (snd m), ib_out_data_size := snd (snd m)\<rparr>"

abbreviation run_end :: "InputBuf \<Rightarrow> nat \<Rightarrow> nat" where
  "run_end s q \<equiv> (if q + 1 \<le> ib_inp s then ib_inp s else ib_buf_size s)"

lemma at_byteD:
  assumes "at_byte s q c cs"
  shows "buf_ok s" "fwd s (wrap (ib_buf_size s) (ib_cur s)) q" "q \<noteq> ib_inp s" "q < ib_buf_size s"
    "\<not> q \<ge> length (ib_buf s)" "q \<noteq> ib_buf_size s" "length (ib_buf s) = ib_buf_size s"
    "decode (omode s) (circ (ib_buf s) q (ib_inp s)) = Some (c # cs, imode s)" "c \<noteq> MARKER_EOS" "ib_message_count s > 0"
  using assms by (auto simp: at_byte_def fwd_def buf_ok_def)

lemma run_end_ok:
  assumes "at_byte s q c cs"
  shows "run_end s q = (if q < ib_inp s then ib_inp s else ib_buf_size s)" "q < run_end s q" "run_end s q \<le> ib_buf_size s"
  using at_byteD [OF assms] by (auto simp: buf_ok_def)

text \<open>One step of the automaton at the byte.\<close>

lemma at_byte_step:
  assumes "at_byte s q c cs"
  obtains out m1 ys where "dstep (omode s) (ib_buf s ! q) = Some (out, m1)"
    "decode m1 (circ (ib_buf s) (wrap (ib_buf_size s) (q + 1)) (ib_inp s)) = Some (ys, imode s)"
    "c # cs = (case out of None \<Rightarrow> ys | Some c \<Rightarrow> c # ys)"
    "circ (ib_buf s) q (ib_inp s) = ib_buf s ! q # circ (ib_buf s) (wrap (ib_buf_size s) (q + 1)) (ib_inp s)"
proof -
  note d = at_byteD [OF assms]
  have 1: "circ (ib_buf s) q (ib_inp s) = ib_buf s ! q # circ (ib_buf s) (wrap (ib_buf_size s) (q + 1)) (ib_inp s)"
    using circ_Cons [of q "ib_buf s" "ib_inp s"] d buf_okD(3) [OF d(1)] by simp
  show thesis by (rule decode_ConsD [OF d(8) [unfolded 1]]) (rule that [OF _ _ _ 1])
qed

lemma loop_unfold:
  assumes "at_byte s q c cs"
  shows "get_more_loop (Suc fuel) wait peeking q s =
    (let b = ib_buf s ! q in
     if ib_out_size_mode s \<noteq> 0 then
       assert_that (\<not> ib_out_esc s) (
       rbind (add_size (ib_out_size_mode s) (ib_out_data_size s) b) (\<lambda>sz.
       get_more_loop fuel wait peeking (q + 1)
         (s\<lparr>ib_out_data_size := sz, ib_out_size_mode := (if b AND 0x80 = 0 then 0 else ib_out_size_mode s + 1)\<rparr>)))
     else if ib_out_data_size s > 0 then
       assert_that (\<not> ib_out_esc s) (
       let n = (if run_end s q - q < ib_out_data_size s then run_end s q - q else ib_out_data_size s)
       in finish_read (s\<lparr>ib_cur := (if peeking then q else q + 1), ib_end := q + n,
            ib_out_data_size := ib_out_data_size s - n\<rparr>) (uint b))
     else if ib_out_esc s then
       (if b = 3 then
          get_more_loop fuel wait peeking (q + 1)
            (s\<lparr>ib_out_size_mode := 1, ib_out_data_size := 0, ib_out_esc := False\<rparr>)
        else
          rbind (if b = 0 then Inr (ESC, s)
                 else if b = 1 then
                   (if peeking then Inr (MARKER_EOM, s)
                    else
                      rbind (if ib_message_count s - 1 \<noteq> 0
                          then tcp_trigger_message (s\<lparr>ib_message_count := ib_message_count s - 1, ib_handling_msg := HandleMsgIdle\<rparr>)
                          else Inr (s\<lparr>ib_message_count := ib_message_count s - 1, ib_handling_msg := HandleMsgIdle\<rparr>)) (\<lambda>s.
                        Inr (MARKER_EOM, s)))
                 else if b = 2 then Inr (MARKER_EOS, s)
                 else Inl Assertion_Failed) (\<lambda>(ch, s).
          let (p, s) = (if peeking then (q, s) else (q + 1, s\<lparr>ib_out_esc := False\<rparr>))
          in finish_read (s\<lparr>ib_cur := p, ib_end := p\<rparr>) ch))
     else if b \<noteq> 3 then
       finish_read (s\<lparr>ib_cur := (if peeking then q else q + 1), ib_end := plain_end (ib_buf s) (q + 1) (run_end s q)\<rparr>) (uint b)
     else get_more_loop fuel wait peeking (q + 1) (s\<lparr>ib_out_esc := True\<rparr>))"
proof -
  note d = at_byteD(3,5,6) [OF assms]
  show ?thesis
    unfolding get_more_loop.simps(2) Let_def if_not_P [OF d(3)] if_not_P [OF d(1)] if_not_P [OF d(2)] by simp
qed

lemma round_skip:
  assumes a: "at_byte s q c cs" and st: "dstep (omode s) (ib_buf s ! q) = Some (None, m1)"
  shows "get_more_loop (Suc fuel) wait peeking q s = get_more_loop fuel wait peeking (q + 1) (with_mode s m1)"
proof -
  let ?b = "ib_buf s ! q"
  note unf = loop_unfold [OF a, unfolded Let_def]
  consider (size) sz where "ib_out_size_mode s \<noteq> 0" "\<not> ib_out_esc s"
      "add_size (ib_out_size_mode s) (ib_out_data_size s) ?b = Inr sz"
      "m1 = (False, if ?b AND 0x80 = 0 then 0 else ib_out_size_mode s + 1, sz)"
    | (start) "omode s = (True, 0, 0)" "?b = 3" "m1 = (False, 1, 0)"
    | (esc) "omode s = (False, 0, 0)" "?b = 3" "m1 = (True, 0, 0)"
    using st by (auto simp: dstep_def split: if_splits sum.splits)
  then show ?thesis
  proof cases
    case size
    then have "s\<lparr>ib_out_data_size := sz, ib_out_size_mode := (if ?b AND 0x80 = 0 then 0 else ib_out_size_mode s + 1)\<rparr> =
        with_mode s m1"
      by (cases s) (simp add: with_mode_def)
    with size show ?thesis unfolding unf by (simp only: if_True rbind_Inr assert_that_simps simp_thms)
  next
    case start
    then have "s\<lparr>ib_out_size_mode := 1, ib_out_data_size := 0, ib_out_esc := False\<rparr> = with_mode s m1"
      by (cases s) (simp add: with_mode_def)
    with start show ?thesis unfolding unf by simp
  next
    case esc
    then have "s\<lparr>ib_out_esc := True\<rparr> = with_mode s m1" by (cases s) (simp add: with_mode_def)
    with esc show ?thesis unfolding unf by simp
  qed
qed

lemma round_block:
  assumes a: "at_byte s q c cs" and m: "\<not> ib_out_esc s" "ib_out_size_mode s = 0" "ib_out_data_size s > 0"
  shows "result_ok peeking s c cs (get_more_loop (Suc fuel) wait peeking q s)"
proof -
  note d = at_byteD [OF a] and mx = run_end_ok [OF a]
  let ?b = "ib_buf s ! q"
  obtain out m1 ys where st: "dstep (omode s) ?b = Some (out, m1)" "c # cs = (case out of None \<Rightarrow> ys | Some c \<Rightarrow> c # ys)"
    using at_byte_step [OF a] by metis
  with m have c: "c = uint ?b" by (auto simp: dstep_def)
  define n where "n = (if run_end s q - q < ib_out_data_size s then run_end s q - q else ib_out_data_size s)"
  let ?run = "take (q + n - q) (drop q (ib_buf s))"
  have n: "0 < n" "n \<le> run_end s q - q" "n \<le> ib_out_data_size s" using m(3) mx(2) by (auto simp: n_def)
  have nq: "q + n \<le> run_end s q" using n(2) mx(2) by linarith
  then have e: "q + n \<le> (if q < ib_inp s then ib_inp s else ib_buf_size s)" "q + 1 \<le> q + n"
    using n(1) unfolding mx(1) by simp_all
  have len: "length ?run = n" using nq mx(3) d(7) by simp
  have run: "decode (omode s) ?run = Some (syms ?run, False, 0, ib_out_data_size s - n)"
    using decode_block [of ?run "ib_out_data_size s"] n(3) m unfolding len by simp
  have "get_more_loop (Suc fuel) wait peeking q s =
      finish_read (at_pos s (if peeking then q else q + 1) (q + n) (False, 0, ib_out_data_size s - n)) (uint ?b)"
    unfolding loop_unfold [OF a] Let_def at_pos_eqs(1) n_def [symmetric] using m by simp
  with get_more_run [OF d(1-3) e d(8) run c, of peeking] show ?thesis by (simp add: result_ok_def)
qed

lemma round_plain:
  assumes a: "at_byte s q c cs" and m: "omode s = (False, 0, 0)" and b: "ib_buf s ! q \<noteq> 3"
  shows "result_ok peeking s c cs (get_more_loop (Suc fuel) wait peeking q s)"
proof -
  note d = at_byteD [OF a] and mx = run_end_ok [OF a]
  let ?b = "ib_buf s ! q"
  obtain out m1 ys where st: "dstep (omode s) ?b = Some (out, m1)" "c # cs = (case out of None \<Rightarrow> ys | Some c \<Rightarrow> c # ys)"
    using at_byte_step [OF a] by metis
  with m b have c: "c = uint ?b" by (auto simp: dstep_def)
  define e where "e = plain_end (ib_buf s) (q + 1) (run_end s q)"
  let ?run = "take (e - q) (drop q (ib_buf s))"
  have pe: "q + 1 \<le> e" "e \<le> run_end s q" "\<And>i. q + 1 \<le> i \<Longrightarrow> i < e \<Longrightarrow> ib_buf s ! i \<noteq> 3"
    using plain_end_ok [of "q + 1" "run_end s q" "ib_buf s"] mx(2) unfolding e_def by simp_all
  have e: "e \<le> (if q < ib_inp s then ib_inp s else ib_buf_size s)" using pe(2) unfolding mx(1) .
  have "ib_buf s ! i \<noteq> 3" if "q \<le> i" "i < e" for i using that pe(3) b by (cases "i = q") auto
  then have "list_all (\<lambda>b. b \<noteq> 3) ?run" by (auto simp: list_all_length)
  from decode_plain [OF this] have run: "decode (omode s) ?run = Some (syms ?run, False, 0, 0)" using m by simp
  have "get_more_loop (Suc fuel) wait peeking q s =
      finish_read (at_pos s (if peeking then q else q + 1) e (False, 0, 0)) (uint ?b)"
    unfolding loop_unfold [OF a] Let_def at_pos_eqs(2) e_def [symmetric] using m b by simp
  with get_more_run [OF d(1-3) e pe(1) d(8) run c, of peeking] show ?thesis by (simp add: result_ok_def)
qed

lemma round_escape:
  assumes a: "at_byte s q c cs" and m: "omode s = (True, 0, 0)" and b: "ib_buf s ! q \<noteq> 3"
  shows "result_ok peeking s c cs (get_more_loop (Suc fuel) wait peeking q s)"
proof -
  note d = at_byteD [OF a]
  let ?b = "ib_buf s ! q" and ?p = "if peeking then q else q + 1" and ?m = "if peeking then omode s else (False, 0, 0)"
  define ch where "ch = (if ?b = 0 then ESC else if ?b = 1 then MARKER_EOM else MARKER_EOS)"
  obtain out m1 ys where st: "dstep (omode s) ?b = Some (out, m1)"
    "decode m1 (circ (ib_buf s) (wrap (ib_buf_size s) (q + 1)) (ib_inp s)) = Some (ys, imode s)"
    "c # cs = (case out of None \<Rightarrow> ys | Some c \<Rightarrow> c # ys)"
    by (rule at_byte_step [OF a])
  have o: "m1 = (False, 0, 0)" "?b \<in> {0, 1}" "c = ch" "ys = cs"
    using st(1,3) m b d(9) by (auto simp: dstep_def ch_def split: if_splits)
  have after: "\<exists>s'. finish_read (at_pos s2 ?p ?p ?m) ch = Inr (ch, s') \<and> buf_ok s' \<and>
      content s' (if peeking then c # cs else cs) \<and> ctrl s' = (imode s, ib_long_msg s, n, h, k) \<and>
      (\<not> peeking \<longrightarrow> ib_read_pending s' \<noteq> None)"
    if "s2 = s\<lparr>ib_message_count := n, ib_handling_msg := h, ib_events := k\<rparr>" for s2 n h k
    using at_pos_here [of s2 q ?p ?m "if peeking then c # cs else cs" ch] d st(2) o(1,4) that
    by (cases peeking) (simp_all add: wrap_def ctrl_def)
  have fin: "(let (p, s) = if peeking then (q, s2) else (q + 1, s2\<lparr>ib_out_esc := False\<rparr>)
      in finish_read (s\<lparr>ib_cur := p, ib_end := p\<rparr>) ch) = finish_read (at_pos s2 ?p ?p ?m) ch"
    if "omode s2 = omode s" for s2
    using that m by (cases peeking; cases s2) (simp_all add: at_pos_def)
  show ?thesis
  proof (cases "ch = MARKER_EOM \<and> \<not> peeking")
    case True
    then have b1: "?b = 1" by (auto simp: ch_def split: if_splits)
    let ?n = "ib_message_count s - 1"
    let ?k = "if ?n = 0 then ib_events s else ib_events s + 1"
    let ?h = "if ?n = 0 then HandleMsgIdle else HandleMsgTriggered"
    have "get_more_loop (Suc fuel) wait peeking q s = finish_read (at_pos
        (s\<lparr>ib_message_count := ?n, ib_handling_msg := ?h, ib_events := ?k\<rparr>) ?p ?p ?m) ch"
      unfolding loop_unfold [OF a] Let_def using m b1 end_of_message [OF d(10)] True fin by simp
    with after [OF refl, of ?k ?h ?n] True o(3) show ?thesis
      unfolding result_ok_def after_read_def Let_def by (elim exE) auto
  next
    case False
    have "get_more_loop (Suc fuel) wait peeking q s = finish_read (at_pos s ?p ?p ?m) ch"
      unfolding loop_unfold [OF a] using m b o(2) False fin [of s] by (auto simp: ch_def split: if_splits)
    moreover have "ctrl s = (imode s, ib_long_msg s, ib_message_count s, ib_handling_msg s, ib_events s)"
      by (simp add: ctrl_def)
    moreover have "s = s\<lparr>ib_message_count := ib_message_count s, ib_handling_msg := ib_handling_msg s, ib_events := ib_events s\<rparr>"
      by simp
    note after [OF this]
    ultimately show ?thesis using False o(3) unfolding result_ok_def after_read_def by (elim exE) auto
  qed
qed

lemma with_mode_simps [simp]:
  "buf_ok (with_mode s m) = buf_ok s" "fwd (with_mode s m) = fwd s" "after_read pk (with_mode s m) = after_read pk s"
  "ib_buf (with_mode s m) = ib_buf s" "ib_buf_size (with_mode s m) = ib_buf_size s" "ib_inp (with_mode s m) = ib_inp s"
  "ib_cur (with_mode s m) = ib_cur s" "ib_message_count (with_mode s m) = ib_message_count s"
  "omode (with_mode s m) = m" "imode (with_mode s m) = imode s"
  by (simp_all add: with_mode_def fun_eq_iff)

lemma get_more_loop_ok:
  "buf_ok s \<Longrightarrow> fwd s (wrap (ib_buf_size s) (ib_cur s)) (wrap (ib_buf_size s) p) \<Longrightarrow>
   decode (omode s) (circ (ib_buf s) (wrap (ib_buf_size s) p) (ib_inp s)) = Some (c # cs, imode s) \<Longrightarrow>
   c \<noteq> MARKER_EOS \<Longrightarrow> ib_message_count s > 0 \<Longrightarrow>
   length (circ (ib_buf s) (wrap (ib_buf_size s) p) (ib_inp s)) < fuel \<Longrightarrow>
   result_ok peeking s c cs (get_more_loop fuel wait peeking p s)"
proof (induction fuel arbitrary: p s)
  case (Suc fuel)
  define q where "q = wrap (ib_buf_size s) p"
  have "q \<noteq> ib_inp s" using Suc.prems(3) by (auto simp: q_def)
  with Suc.prems have a: "at_byte s q c cs" by (simp add: at_byte_def q_def)
  note d = at_byteD [OF a]
  have loop: "get_more_loop (Suc fuel) wait peeking p s = get_more_loop (Suc fuel) wait peeking q s"
    by (simp add: get_more_loop.simps(2) q_def wrap_def)
  obtain out m1 ys where st: "dstep (omode s) (ib_buf s ! q) = Some (out, m1)"
    "decode m1 (circ (ib_buf s) (wrap (ib_buf_size s) (q + 1)) (ib_inp s)) = Some (ys, imode s)"
    "c # cs = (case out of None \<Rightarrow> ys | Some c \<Rightarrow> c # ys)"
    "circ (ib_buf s) q (ib_inp s) = ib_buf s ! q # circ (ib_buf s) (wrap (ib_buf_size s) (q + 1)) (ib_inp s)"
    by (rule at_byte_step [OF a])
  show ?case
  proof (cases out)
    case None
    have "fwd s (wrap (ib_buf_size s) (ib_cur s)) (wrap (ib_buf_size s) (q + 1))"
      using fwd_step [OF d(2,3) buf_okD(3) [OF d(1)], of 1] d(3,4) by auto
    moreover have "length (circ (ib_buf s) (wrap (ib_buf_size s) (q + 1)) (ib_inp s)) < fuel"
      using Suc.prems(6) unfolding q_def [symmetric] st(4) by simp
    ultimately have "result_ok peeking (with_mode s m1) c cs (get_more_loop fuel wait peeking (q + 1) (with_mode s m1))"
      using Suc.IH [of "with_mode s m1" "q + 1"] d st(2,3) None by simp
    then show ?thesis using round_skip [OF a] st(1) None loop by (simp add: result_ok_def)
  next
    case (Some x)
    with st(1) consider "\<not> ib_out_esc s" "ib_out_size_mode s = 0" "ib_out_data_size s > 0"
      | "omode s = (False, 0, 0)" "ib_buf s ! q \<noteq> 3" | "omode s = (True, 0, 0)" "ib_buf s ! q \<noteq> 3"
      by (auto simp: dstep_def split: if_splits sum.splits)
    then show ?thesis unfolding loop using round_block [OF a] round_plain [OF a] round_escape [OF a] by cases blast+
  qed
qed simp

lemma get_more_ok:
  assumes "buf_ok s" "content s (c # cs)" "ib_cur s = ib_end s" "c \<noteq> MARKER_EOS" "ib_message_count s > 0"
    "ib_handling_msg s = HandleMsgActive" "fuel \<ge> ib_buf_size s"
  shows "\<exists>s'. ibuf_get_more fuel wait peeking s = Inr (c, s') \<and> buf_ok s' \<and>
    content s' (if peeking then c # cs else cs) \<and> after_read peeking s c s'"
proof -
  note d = buf_okD [OF assms(1)]
  let ?bs = "circ (ib_buf s) (wrap (ib_buf_size s) (ib_cur s)) (ib_inp s)"
  have w: "wrap (ib_buf_size s) (ib_cur s) < ib_buf_size s" using d(2,5) assms(3) by (auto simp: wrap_def)
  have dec: "decode (omode s) ?bs = Some (c # cs, imode s)"
    using assms(2,3) by (auto simp: content_def ib_rest_def ib_run_def syms_def)
  have len: "length ?bs < fuel" using length_circ [OF _ _, of _ "ib_buf s"] w d(1,3) assms(7)
    by (metis order_less_le_trans)
  have "fwd s (wrap (ib_buf_size s) (ib_cur s)) (wrap (ib_buf_size s) (ib_cur s))"
    using w by (simp add: fwd_def)
  from get_more_loop_ok [OF assms(1) this dec assms(4,5) len, of peeking wait] d assms show ?thesis
    by (simp add: ibuf_get_more_def result_ok_def)
qed

lemma fast_read:
  assumes ok: "buf_ok s" and xs: "content s (c # cs)" and lt: "ib_cur s < ib_end s"
  shows "c = uint (ib_buf s ! ib_cur s)" "buf_ok (s\<lparr>ib_cur := ib_cur s + 1\<rparr>)"
    "content (s\<lparr>ib_cur := ib_cur s + 1\<rparr>) cs"
proof -
  note d = buf_okD [OF ok]
  have run: "ib_run s = ib_buf s ! ib_cur s # ib_run (s\<lparr>ib_cur := ib_cur s + 1\<rparr>)"
    using run_mode [of "ib_run s" "length (ib_run s)" s "ib_end s" "ib_cur s"] d lt by (simp add: ib_run_def)
  show "c = uint (ib_buf s ! ib_cur s)" "content (s\<lparr>ib_cur := ib_cur s + 1\<rparr>) cs"
    using xs run by (auto simp: content_def ib_rest_def syms_def)
  have i: "ib_cur s \<noteq> ib_inp s" "ib_cur s < ib_inp s \<longrightarrow> ib_end s \<le> ib_inp s" using d lt by auto
  have "s\<lparr>ib_cur := ib_cur s + 1\<rparr> = at_pos s (ib_cur s + 1) (ib_end s) (omode s)"
    by (cases s) (simp add: at_pos_def)
  moreover have "buf_ok (at_pos s (ib_cur s + 1) (ib_end s) (omode s))"
    by (rule at_pos_ok [OF ok _ i(1)]) (use d lt i in \<open>auto simp: fwd_def wrap_def\<close>)
  ultimately show "buf_ok (s\<lparr>ib_cur := ib_cur s + 1\<rparr>)" by simp
qed

lemma read_stream_ok:
  assumes "buf_ok s" "content s (c # cs)" "c \<noteq> MARKER_EOS" "ib_message_count s > 0"
    "ib_handling_msg s = HandleMsgActive" "fuel \<ge> ib_buf_size s"
  shows "\<exists>s'. tcp_read_stream fuel wait s = Inr (c, s') \<and> buf_ok s' \<and> content s' cs \<and> after_read False s c s'"
proof (cases "ib_cur s < ib_end s")
  case True
  note f = fast_read [OF assms(1,2) True]
  have "c \<noteq> MARKER_EOM" using f(1) uint_byte_bounds(1) [of "ib_buf s ! ib_cur s"] by linarith
  with True f show ?thesis by (simp add: tcp_read_stream_def after_read_def ctrl_def)
next
  case False
  with buf_okD(4) [OF assms(1)] have "ib_cur s = ib_end s" by simp
  from get_more_ok [OF assms(1,2) this assms(3-6), of wait False] False show ?thesis
    by (simp add: tcp_read_stream_def)
qed

lemma peek_stream_ok:
  assumes "buf_ok s" "content s (c # cs)" "c \<noteq> MARKER_EOS" "ib_message_count s > 0"
    "ib_handling_msg s = HandleMsgActive" "fuel \<ge> ib_buf_size s"
  shows "\<exists>s'. tcp_peek_stream fuel wait s = Inr (c, s') \<and> buf_ok s' \<and> content s' (c # cs) \<and> ctrl s' = ctrl s"
proof (cases "ib_cur s < ib_end s")
  case True
  with fast_read(1) [OF assms(1,2) True] assms show ?thesis by (simp add: tcp_peek_stream_def)
next
  case False
  with buf_okD(4) [OF assms(1)] have "ib_cur s = ib_end s" by simp
  from get_more_ok [OF assms(1,2) this assms(3-6), of wait True] False show ?thesis
    by (simp add: tcp_peek_stream_def after_read_def)
qed

section \<open>Receiving\<close>

definition eoms :: "int list \<Rightarrow> int" where
  "eoms xs = int (count_list xs MARKER_EOM)"

lemma eoms_simps [simp]:
  "eoms [] = 0" "eoms (x # xs) = (if x = MARKER_EOM then 1 else 0) + eoms xs" "eoms (xs @ ys) = eoms xs + eoms ys"
  "0 \<le> eoms xs"
  by (auto simp: eoms_def)

text \<open>The states of the channel between two operations.\<close>

definition ctrl_ok :: "InputBuf \<Rightarrow> int \<Rightarrow> bool" where
  "ctrl_ok s n \<longleftrightarrow> ib_message_count s = n + of_bool (ib_long_msg s) \<and> 0 \<le> n \<and> (ib_long_msg s \<longrightarrow> n = 0) \<and>
     (ib_handling_msg s = HandleMsgIdle \<longleftrightarrow> ib_message_count s = 0) \<and>
     ib_events s = of_bool (ib_handling_msg s = HandleMsgTriggered)"

text \<open>What the preprocessing of received bytes may change.\<close>

definition only_ctrl :: "InputBuf \<Rightarrow> InputBuf \<Rightarrow> bool" where
  "only_ctrl s s' \<longleftrightarrow> (\<exists>e m z n l h k. s' = s\<lparr>ib_inp_esc := e, ib_inp_size_mode := m, ib_inp_data_size := z,
     ib_message_count := n, ib_long_msg := l, ib_handling_msg := h, ib_events := k\<rparr>)"

lemma only_ctrl_trans: "only_ctrl s s1 \<Longrightarrow> only_ctrl s1 s2 \<Longrightarrow> only_ctrl s s2"
  by (cases s) (auto simp: only_ctrl_def)

lemma only_ctrlI:
  "only_ctrl s (s\<lparr>ib_inp_esc := e\<rparr>)" "only_ctrl s (s\<lparr>ib_inp_data_size := z\<rparr>)"
  "only_ctrl s (s\<lparr>ib_inp_data_size := z, ib_inp_size_mode := m\<rparr>)" "only_ctrl s s"
  by (cases s; simp add: only_ctrl_def; metis)+

lemma only_ctrlD:
  assumes "only_ctrl s s'"
  shows "ib_buf s' = ib_buf s" "ib_buf_size s' = ib_buf_size s" "ib_inp s' = ib_inp s" "ib_cur s' = ib_cur s"
    "ib_end s' = ib_end s" "ib_eof s' = ib_eof s" "ib_read_pending s' = ib_read_pending s" "omode s' = omode s"
  using assms by (auto simp: only_ctrl_def)

lemma new_message_ok:
  assumes "ib_message_count s = n + of_bool False" "0 \<le> n" "\<not> ib_long_msg s" "ctrl_ok s n"
  shows "\<exists>s'. ibuf_new_message (s\<lparr>ib_long_msg := l\<rparr>) = Inr s' \<and> only_ctrl s s' \<and> imode s' = imode s \<and>
    (l \<longrightarrow> n = 0 \<longrightarrow> ctrl_ok s' 0) \<and> (\<not> l \<longrightarrow> ctrl_ok s' (n + 1)) \<and> ib_message_count s' > 0"
  using assms
  by (cases s; cases "ib_handling_msg s")
    (auto simp: ibuf_new_message_def tcp_trigger_message_def ctrl_ok_def only_ctrl_def)

lemma inp_escape_ok:
  assumes "ctrl_ok s n" "imode s = (True, 0, 0)" "dstep (imode s) b = Some (out, m)" "out \<noteq> Some MARKER_EOS"
  shows "\<exists>s'. inp_escape s b = Inr s' \<and> only_ctrl s s' \<and> imode s' = m \<and>
    ctrl_ok s' (n + (if out = Some MARKER_EOM then 1 else 0))"
proof -
  let ?s = "s\<lparr>ib_inp_esc := False\<rparr>"
  have c: "ctrl_ok ?s n" "imode ?s = (False, 0, 0)" "only_ctrl s ?s"
    using assms(1,2) only_ctrlI(1) [of s False] by (auto simp: ctrl_ok_def)
  consider "b = 0" | "b = 1" "ib_long_msg s" | "b = 1" "\<not> ib_long_msg s" | "b = 3"
    using assms(2-4) by (auto simp: dstep_def split: if_splits)
  then show ?thesis
  proof cases
    case 3
    have "ib_message_count ?s = n + of_bool False" "0 \<le> n" using 3 c(1) by (auto simp: ctrl_ok_def)
    from new_message_ok [OF this _ c(1), of False] 3 obtain s' where
      "ibuf_new_message (?s\<lparr>ib_long_msg := False\<rparr>) = Inr s'" "only_ctrl ?s s'" "imode s' = imode ?s" "ctrl_ok s' (n + 1)"
      by auto
    moreover have "?s\<lparr>ib_long_msg := False\<rparr> = ?s" using 3 by (cases s) simp
    ultimately show ?thesis
      using 3 assms(2,3) c only_ctrl_trans [OF c(3)] by (auto simp: inp_escape_def dstep_def)
  qed (use assms c in \<open>cases s; auto simp: inp_escape_def dstep_def ctrl_ok_def only_ctrl_def\<close>)+
qed

lemma take_split:
  "k \<le> len \<Longrightarrow> take len (drop p b) = take k (drop p b) @ take (len - k) (drop (p + k) b)"
  by (metis add.commute drop_drop le_add_diff_inverse take_add)

lemma eoms_syms [simp]: "eoms (syms bs) = 0"
  by (induction bs) (auto simp: syms_def, metis uint_byte_bounds(1) neg_equal_0_iff_equal not_one_le_zero neg_0_le_iff_le)

lemma EOS_syms: "MARKER_EOS \<notin> set (syms bs)"
  by (auto simp: syms_def) (metis uint_byte_bounds(1) neg_0_le_iff_le not_numeral_le_zero)

text \<open>One round of the preprocessing: it consumes \<open>k\<close> bytes, as the automaton does.\<close>

definition round_ok :: "nat \<Rightarrow> nat \<Rightarrow> InputBuf \<Rightarrow> int \<Rightarrow> nat \<Rightarrow> InputBuf \<Rightarrow> int list \<Rightarrow> bool" where
  "round_ok len p s n k s1 zs \<longleftrightarrow> 0 < k \<and> k \<le> len \<and>
     read_done_loop len p s = read_done_loop (len - k) (wrap (ib_buf_size s) (p + k)) s1 \<and> only_ctrl s s1 \<and>
     decode (imode s) (take k (drop p (ib_buf s))) = Some (zs, imode s1) \<and> ctrl_ok s1 (n + eoms zs)"

lemma read_done_unfold:
  assumes "0 < len" "p < length (ib_buf s)"
  shows "read_done_loop len p s = (let b = ib_buf s ! p in
    if ib_inp_size_mode s \<noteq> 0 then
      assert_that (\<not> ib_inp_esc s) (
      rbind (add_size (ib_inp_size_mode s) (ib_inp_data_size s) b) (\<lambda>sz.
      read_done_loop (len - 1) (wrap (ib_buf_size s) (p + 1))
        (s\<lparr>ib_inp_data_size := sz, ib_inp_size_mode := (if b AND 0x80 = 0 then 0 else ib_inp_size_mode s + 1)\<rparr>)))
    else if ib_inp_data_size s > 0 then
      assert_that (\<not> ib_inp_esc s) (
      let n = (if ib_inp_data_size s < len then ib_inp_data_size s else len); q = p + n
      in read_done_loop (len - n) (if q \<ge> ib_buf_size s then q - ib_buf_size s else q)
           (s\<lparr>ib_inp_data_size := ib_inp_data_size s - n\<rparr>))
    else
      rbind (if ib_inp_esc s then inp_escape s b
             else if b = 3 then Inr (s\<lparr>ib_inp_esc := True\<rparr>) else Inr s) (\<lambda>s1.
      read_done_loop (len - 1) (wrap (ib_buf_size s) (p + 1)) s1))"
  using assms by (subst read_done_loop.simps) (simp add: Let_def wrap_def)

lemma block_round:
  assumes "0 < len" "p + len \<le> ib_buf_size s" "length (ib_buf s) = ib_buf_size s" "ctrl_ok s n"
    and m: "\<not> ib_inp_esc s" "ib_inp_size_mode s = 0" "ib_inp_data_size s > 0"
  shows "\<exists>k s1 zs. round_ok len p s n k s1 zs"
proof -
  define k where "k = (if ib_inp_data_size s < len then ib_inp_data_size s else len)"
  let ?run = "take k (drop p (ib_buf s))" and ?s = "s\<lparr>ib_inp_data_size := ib_inp_data_size s - k\<rparr>"
  have k: "0 < k" "k \<le> len" "k \<le> ib_inp_data_size s" using assms by (auto simp: k_def)
  have len: "length ?run = k" using k(2) assms by simp
  have p: "p < length (ib_buf s)" using assms by simp
  have "read_done_loop len p s = read_done_loop (len - k) (wrap (ib_buf_size s) (p + k)) ?s"
    unfolding read_done_unfold [OF assms(1) p] Let_def k_def [symmetric] using m k assms(2) by (auto simp: wrap_def)
  moreover have "decode (imode s) ?run = Some (syms ?run, imode ?s)"
    using decode_block [of ?run "ib_inp_data_size s"] k(3) m unfolding len by simp
  moreover have "ctrl_ok ?s (n + eoms (syms ?run))" using assms(4) by (simp add: ctrl_ok_def)
  ultimately show ?thesis using k only_ctrlI(2) [of s] unfolding round_ok_def by blast
qed

lemma byte_round:
  assumes len: "0 < len" and p: "p < length (ib_buf s)" and c: "ctrl_ok s n"
    and m: "\<not> (ib_inp_size_mode s = 0 \<and> ib_inp_data_size s > 0)"
    and st: "dstep (imode s) (ib_buf s ! p) = Some (out, m1)" "out \<noteq> Some MARKER_EOS"
  shows "\<exists>s1. round_ok len p s n 1 s1 (case out of None \<Rightarrow> [] | Some c \<Rightarrow> [c])"
proof -
  let ?b = "ib_buf s ! p" and ?zs = "case out of None \<Rightarrow> [] | Some c \<Rightarrow> [c]"
  note unf = read_done_unfold [OF len p, unfolded Let_def]
  have one: "take 1 (drop p (ib_buf s)) = [?b]" using p by (simp add: take_Suc_conv_app_nth)
  have dec: "decode (imode s) (take 1 (drop p (ib_buf s))) = Some (?zs, m1)"
    using st(1) unfolding one by (cases out) simp_all
  have eo: "eoms ?zs = (if out = Some MARKER_EOM then 1 else 0)" by (cases out) auto
  have fin: "\<exists>s1. round_ok len p s n 1 s1 ?zs"
    if "read_done_loop len p s = read_done_loop (len - 1) (wrap (ib_buf_size s) (p + 1)) s1"
      "only_ctrl s s1" "imode s1 = m1" "ctrl_ok s1 (n + eoms ?zs)" for s1
    using that dec len unfolding round_ok_def by auto
  show ?thesis
  proof (cases "ib_inp_size_mode s = 0")
    case False
    with st(1) obtain sz where sz: "\<not> ib_inp_esc s" "add_size (ib_inp_size_mode s) (ib_inp_data_size s) ?b = Inr sz"
      "out = None" "m1 = (False, if ?b AND 0x80 = 0 then 0 else ib_inp_size_mode s + 1, sz)"
      by (auto simp: dstep_def split: if_splits sum.splits)
    show ?thesis
    proof (rule fin)
      show "read_done_loop len p s = read_done_loop (len - 1) (wrap (ib_buf_size s) (p + 1))
          (s\<lparr>ib_inp_data_size := sz, ib_inp_size_mode := (if ?b AND 0x80 = 0 then 0 else ib_inp_size_mode s + 1)\<rparr>)"
        unfolding unf using False sz(1,2) by simp
    qed (use sz c in \<open>auto simp: ctrl_ok_def intro!: only_ctrlI\<close>)
  next
    case sm: True
    with m have zero: "ib_inp_size_mode s = 0" "ib_inp_data_size s = 0" by auto
    show ?thesis
    proof (cases "ib_inp_esc s")
      case True
      with inp_escape_ok [OF c _ st] zero obtain s1 where s1: "inp_escape s ?b = Inr s1" "only_ctrl s s1"
        "imode s1 = m1" "ctrl_ok s1 (n + (if out = Some MARKER_EOM then 1 else 0))" by auto
      show ?thesis by (rule fin [OF _ s1(2,3)]) (use zero True s1(1,4) eo in \<open>simp_all add: unf\<close>)
    next
      case False
      define s1 where "s1 = (if ?b = 3 then s\<lparr>ib_inp_esc := True\<rparr> else s)"
      have m1: "imode s1 = m1" "out = (if ?b = 3 then None else Some (uint ?b))"
        using st(1) zero False by (auto simp: dstep_def s1_def split: if_splits)
      have "uint ?b \<noteq> MARKER_EOM" using uint_byte_bounds(1) [of ?b] by linarith
      then have "out \<noteq> Some MARKER_EOM" using m1(2) by simp
      then have "ctrl_ok s1 (n + eoms ?zs)" using c eo by (simp add: s1_def ctrl_ok_def)
      moreover have "only_ctrl s s1" unfolding s1_def using only_ctrlI(1,4) [of s] by simp
      moreover have "read_done_loop len p s = read_done_loop (len - 1) (wrap (ib_buf_size s) (p + 1)) s1"
        unfolding unf using zero False by (simp add: s1_def)
      ultimately show ?thesis using fin m1(1) by blast
    qed
  qed
qed

lemma read_done_loop_ok:
  "length (ib_buf s) = ib_buf_size s \<Longrightarrow> p < ib_buf_size s \<Longrightarrow> p + len \<le> ib_buf_size s \<Longrightarrow>
   decode (imode s) (take len (drop p (ib_buf s))) = Some (ys, m) \<Longrightarrow> MARKER_EOS \<notin> set ys \<Longrightarrow>
   ctrl_ok s n \<Longrightarrow>
   \<exists>s'. read_done_loop len p s = Inr (wrap (ib_buf_size s) (p + len), s') \<and> only_ctrl s s' \<and>
     imode s' = m \<and> ctrl_ok s' (n + eoms ys)"
proof (induction len arbitrary: p s ys n rule: less_induct)
  case (less len)
  let ?N = "ib_buf_size s" and ?b = "ib_buf s ! p"
  show ?case
  proof (cases "len = 0")
    case True
    with less.prems only_ctrlI(4) [of s] show ?thesis by (auto simp: read_done_loop.simps [of 0] wrap_def)
  next
    case False
    then have len: "0 < len" and pb: "p < length (ib_buf s)" using less.prems by auto
    have "take len (drop p (ib_buf s)) = ?b # take (len - 1) (drop (p + 1) (ib_buf s))"
      using take_split [of 1 len p "ib_buf s"] False pb by (simp add: take_Suc_conv_app_nth)
    from less.prems(4) [unfolded this] obtain out m1 us where
      st: "dstep (imode s) ?b = Some (out, m1)" "ys = (case out of None \<Rightarrow> us | Some c \<Rightarrow> c # us)"
      by (rule decode_ConsD)
    have "\<exists>k s1 zs. round_ok len p s n k s1 zs"
    proof (cases "ib_inp_size_mode s = 0 \<and> ib_inp_data_size s > 0")
      case True
      moreover from this st(1) have "\<not> ib_inp_esc s" by (auto simp: dstep_def split: if_splits)
      ultimately show ?thesis using block_round [OF len less.prems(3,1,6)] by blast
    next
      case False
      moreover have "out \<noteq> Some MARKER_EOS" using st(2) less.prems(5) by auto
      ultimately show ?thesis using byte_round [OF len pb less.prems(6) _ st(1)] by blast
    qed
    then obtain k s1 zs where k: "0 < k" "k \<le> len" "only_ctrl s s1" "ctrl_ok s1 (n + eoms zs)"
      "read_done_loop len p s = read_done_loop (len - k) (wrap ?N (p + k)) s1"
      and zs: "decode (imode s) (take k (drop p (ib_buf s))) = Some (zs, imode s1)"
      unfolding round_ok_def by blast
    note eq = only_ctrlD [OF k(3)]
    let ?p = "wrap ?N (p + k)"
    have p: "?p < ?N" "?p + (len - k) \<le> ?N" "wrap ?N (?p + (len - k)) = wrap ?N (p + len)"
      using less.prems(2,3) k(1,2) by (auto simp: wrap_def)
    have "take (len - k) (drop (p + k) (ib_buf s)) = take (len - k) (drop ?p (ib_buf s))"
      using less.prems(3) k(2) by (auto simp: wrap_def)
    with decode_append [OF zs] less.prems(4) take_split [OF k(2), of p "ib_buf s"] obtain ws where
      ws: "decode (imode s1) (take (len - k) (drop ?p (ib_buf s1))) = Some (ws, m)" "ys = zs @ ws"
      using eq(1) by auto
    have l: "len - k < len" "length (ib_buf s1) = ib_buf_size s1" using k(1,2) less.prems(1) eq by auto
    have "MARKER_EOS \<notin> set ws" using ws(2) less.prems(5) by auto
    from less.IH [OF l _ _ ws(1) this k(4)] p eq(2) ws(2) k(5) only_ctrl_trans [OF k(3)]
    show ?thesis by (auto simp: add.assoc)
  qed
qed

subsection \<open>Storing bytes in the ring\<close>

definition store :: "byte list \<Rightarrow> nat \<Rightarrow> byte list \<Rightarrow> byte list" where
  "store b j bytes = take j b @ bytes @ drop (j + length bytes) b"

lemma length_store: "j + length bytes \<le> length b \<Longrightarrow> length (store b j bytes) = length b"
  by (simp add: store_def)

lemma drop_store: "k \<le> j \<Longrightarrow> j \<le> length b \<Longrightarrow> drop k (store b j bytes) = take (j - k) (drop k b) @ bytes @ drop (j + length bytes) b"
  by (simp add: store_def drop_take)

lemma store_chunk: "j \<le> length b \<Longrightarrow> take (length bytes) (drop j (store b j bytes)) = bytes"
  by (simp add: drop_store)

lemma drop_store_behind: "j + length bytes \<le> k \<Longrightarrow> j \<le> length b \<Longrightarrow> drop k (store b j bytes) = drop k b"
  by (simp add: store_def)

lemma circ_store:
  assumes "i < length b" "j < length b" "j + length bytes \<le> length b"
    "if i \<le> j then i = 0 \<longrightarrow> j + length bytes < length b else j + length bytes < i"
  shows "circ (store b j bytes) i (wrap (length b) (j + length bytes)) = circ b i j @ bytes"
proof (cases "i \<le> j")
  case True
  have d: "drop i (store b j bytes) = take (j - i) (drop i b) @ bytes @ drop (j + length bytes) b"
    using drop_store [OF True] assms(2) by simp
  have l: "length (take (j - i) (drop i b)) = j - i" using assms(2) by simp
  show ?thesis
  proof (cases "j + length bytes = length b")
    case w: True
    with True assms(4) have "i > 0" by simp
    with w True show ?thesis unfolding circ_def wrap_def d by simp
  next
    case w: False
    have "take (j + length bytes - i) (take (j - i) (drop i b) @ bytes @ drop (j + length bytes) b) =
        take (j - i) (drop i b) @ bytes"
    proof -
      have "take (length (xs :: byte list)) (xs @ zs) = xs" for xs zs by simp
      moreover have "j + length bytes - i = length (take (j - i) (drop i b) @ bytes)" using l True by simp
      ultimately show ?thesis by (metis append_assoc)
    qed
    with w True show ?thesis unfolding circ_def wrap_def d by simp
  qed
next
  case False
  then have lt: "j + length bytes < i" using assms(4) by simp
  have "drop i (store b j bytes) = drop i b" using lt assms(2) by (simp add: drop_store_behind)
  moreover have "take (j + length bytes) (store b j bytes) = take j b @ bytes"
    using assms(2) by (simp add: store_def)
  ultimately show ?thesis using False lt assms(1) by (simp add: circ_def wrap_def)
qed

lemma store_ok:
  assumes ok: "buf_ok s" and xs: "content s xs" and pend: "ib_read_pending s = Some (b, sz)"
    and len: "length bytes \<le> sz" and bytes: "decode (imode s) bytes = Some (ys, m)"
    and s1: "s1 = s\<lparr>ib_read_pending := None, ib_buf := store (ib_buf s) b bytes\<rparr>"
    and s2: "only_ctrl s1 s2" "imode s2 = m"
    and s3: "s3 = s2\<lparr>ib_inp := wrap (ib_buf_size s) (ib_inp s + length bytes)\<rparr>"
  shows "buf_ok s3" "content s3 (xs @ ys)"
proof -
  note d = buf_okD(1-7) [OF ok] and e = only_ctrlD [OF s2(1)]
  let ?n = "length bytes" and ?N = "ib_buf_size s" and ?c = "wrap (ib_buf_size s) (ib_cur s)"
  have b: "b = ib_inp s" "ib_inp s + ?n \<le> ?N"
    and f: "if ?c \<le> ib_inp s then ?c = 0 \<longrightarrow> ib_inp s + ?n < ?N else ib_inp s + ?n < ?c"
    using buf_okD(8) [OF ok pend] len by (auto simp: free_ok_def Let_def split: if_splits)
  have eqs: "ib_buf s3 = store (ib_buf s) (ib_inp s) bytes" "ib_buf_size s3 = ?N" "ib_cur s3 = ib_cur s"
    "ib_end s3 = ib_end s" "ib_inp s3 = wrap ?N (ib_inp s + ?n)" "ib_eof s3 = ib_eof s"
    "ib_read_pending s3 = None" "omode s3 = omode s" "imode s3 = m"
    using e s1 s2(2) s3 b(1) by auto
  have l: "length (store (ib_buf s) (ib_inp s) bytes) = ?N" using length_store b d(1) by simp
  show "buf_ok s3"
    unfolding buf_ok_def eqs l using d f b(2) by (auto simp: wrap_def split: if_splits)
  have rest: "ib_rest s3 = ib_rest s @ bytes"
    unfolding ib_rest_def eqs using circ_store [of "wrap ?N (ib_end s)" "ib_buf s" "ib_inp s" bytes] b d f
    by (auto simp: wrap_def split: if_splits)
  have run: "ib_run s3 = ib_run s"
  proof (cases "ib_cur s \<le> ib_inp s")
    case True
    with d show ?thesis unfolding ib_run_def eqs by (simp add: drop_store)
  next
    case False
    show ?thesis
    proof (cases "ib_cur s = ?N")
      case True
      with d show ?thesis unfolding ib_run_def eqs by simp
    next
      case N: False
      with False f have "ib_inp s + ?n < ib_cur s" by (auto simp: wrap_def)
      with d show ?thesis unfolding ib_run_def eqs by (simp add: drop_store_behind)
    qed
  qed
  from xs obtain zs where zs: "decode (omode s) (ib_rest s) = Some (zs, imode s)" "xs = syms (ib_run s) @ zs"
    by (auto simp: content_def)
  from decode_append [OF zs(1), of bytes] bytes zs(2) show "content s3 (xs @ ys)"
    unfolding content_def rest run eqs by simp
qed

subsection \<open>Growing the buffer\<close>

lemma grow_ring:
  assumes "c < length b" "c \<le> e" "e \<le> length b" "j < length b" "c \<le> j \<longrightarrow> e \<le> j"
    "if c \<le> j then c = 0 \<and> j = length b - 1 else c = j + 1"
  shows "take (e - c) (drop c b @ take c b @ z) = take (e - c) (drop c b)"
    "circ (drop c b @ take c b @ z) (e - c) (length b - 1) = circ b (wrap (length b) e) j"
proof -
  show "take (e - c) (drop c b @ take c b @ z) = take (e - c) (drop c b)" using assms by simp
  show "circ (drop c b @ take c b @ z) (e - c) (length b - 1) = circ b (wrap (length b) e) j"
  proof (cases "c \<le> j")
    case True
    then have "c = 0" "j = length b - 1" "e \<le> j" using assms by auto
    with assms show ?thesis by (simp add: circ_def wrap_def)
  next
    case False
    then have c: "c = j + 1" using assms by simp
    have 1: "drop (e - c) (drop c b @ take c b @ z) = drop e b @ take c b @ z" using assms by simp
    have "length b - 1 - (e - c) = length b - e + j" using assms(2,3) c by simp
    then have "take (length b - 1 - (e - c)) (drop e b @ take c b @ z) = drop e b @ take j b"
      using assms(1,3) c by (simp add: min_def)
    moreover have "e - c \<le> length b - 1" using assms(3) c by simp
    moreover have "\<not> e \<le> j" using False assms(2) by simp
    ultimately show ?thesis using 1 assms(3,4) False by (auto simp: circ_def wrap_def)
  qed
qed

lemma grow_buf_ok:
  assumes ok: "buf_ok s" and pend: "ib_read_pending s = None"
  shows "\<exists>s'. grow_buf s = Inr s' \<and> buf_ok s' \<and> (\<forall>xs. content s xs \<longrightarrow> content s' xs) \<and> ctrl s' = ctrl s \<and>
    ib_read_pending s' = None"
proof -
  let ?t = "norm s" and ?N = "ib_buf_size s"
  have t: "buf_ok ?t" "\<And>xs. content ?t xs = content s xs" "ib_cur ?t < ?N" "ctrl ?t = ctrl s"
    "ib_read_pending ?t = None" "ib_buf_size ?t = ?N" "ib_buf ?t = ib_buf s"
    using norm_ok [OF ok] pend by (auto simp: norm_def ctrl_def)
  note d = buf_okD(1-7) [OF t(1)]
  show ?thesis
  proof (cases "free_size ?t = 0 \<and> ?N < 0x1000000")
    case True
    let ?b = "drop (ib_cur ?t) (ib_buf ?t) @ take (ib_cur ?t) (ib_buf ?t) @ replicate ?N 0"
    let ?u = "?t\<lparr>ib_buf := ?b, ib_inp := ?N - 1, ib_buf_size := ?N * 2, ib_cur := 0, ib_end := ib_end ?t - ib_cur ?t\<rparr>"
    have full: "if ib_cur ?t \<le> ib_inp ?t then ib_cur ?t = 0 \<and> ib_inp ?t = ?N - 1 else ib_cur ?t = ib_inp ?t + 1"
      using True d t(6) by (auto simp: free_size_def split: if_splits)
    have g: "grow_buf s = Inr ?u"
      using True ibuf_free_size_ok [OF ok] d buf_okD(7) [OF ok] t(6) by (simp add: grow_buf_def)
    have e: "ib_end ?t - ib_cur ?t \<le> ?N - 1" using d full t(6) by (auto split: if_splits)
    have "?N - 1 < ?N * 2" "ib_end ?t - ib_cur ?t \<le> ?N * 2" "1 < ?N * 2" using d(2) t(6) e by auto
    then have u: "buf_ok ?u" using d t(5,6) e by (simp add: buf_ok_def)
    have ring: "take (ib_end ?t - ib_cur ?t) ?b = take (ib_end ?t - ib_cur ?t) (drop (ib_cur ?t) (ib_buf ?t))"
      "circ ?b (ib_end ?t - ib_cur ?t) (?N - 1) = circ (ib_buf ?t) (wrap ?N (ib_end ?t)) (ib_inp ?t)"
      using grow_ring [of "ib_cur ?t" "ib_buf ?t" "ib_end ?t" "ib_inp ?t" "replicate ?N 0",
          unfolded d(1) t(6), OF t(3) d(4) _ _ _ full] d t(6) by simp_all
    have "wrap (?N * 2) (ib_end ?t - ib_cur ?t) = ib_end ?t - ib_cur ?t"
      using e d(2) t(6) by (simp add: wrap_def)
    then have "ib_rest ?u = ib_rest ?t" using ring(2) t(6) by (simp add: ib_rest_def)
    moreover have "ib_run ?u = ib_run ?t" using ring(1) by (simp add: ib_run_def del: take_append)
    ultimately have "content ?u xs = content ?t xs" for xs by (simp add: content_def)
    then have "content ?u xs = content s xs" for xs using t(2) by blast
    with g u t(4,5) show ?thesis by (auto simp: ctrl_def)
  next
    case False
    have "grow_buf s = Inr ?t"
      using False ibuf_free_size_ok [OF ok] buf_okD(7) [OF ok] t(6) by (auto simp: grow_buf_def)
    with t show ?thesis by simp
  qed
qed

definition ib_ok :: "InputBuf \<Rightarrow> int list \<Rightarrow> bool" where
  "ib_ok s xs \<longleftrightarrow> buf_ok s \<and> content s xs \<and> MARKER_EOS \<notin> set xs \<and> ctrl_ok s (eoms xs) \<and>
     (ib_read_pending s = None \<longrightarrow> ib_message_count s > 0)"

lemma ctrl_ok_cong: "ctrl s' = ctrl s \<Longrightarrow> ctrl_ok s' n = ctrl_ok s n"
  by (simp add: ctrl_ok_def ctrl_def)

lemma finish_receive:
  assumes ok: "buf_ok s" and xs: "content s xs" and c: "ctrl_ok s (eoms xs)" and pend: "ib_read_pending s = None"
  shows "\<exists>s'. read_more s = Inr s' \<and>
    buf_ok s' \<and> content s' xs \<and> ctrl_ok s' (eoms xs) \<and> imode s' = imode s \<and>
    (ib_read_pending s' = None \<longrightarrow> ib_message_count s' > 0)"
proof -
  let ?t = "norm s"
  have t: "buf_ok ?t" "content ?t xs" "ctrl ?t = ctrl s" "ib_read_pending ?t = None" "norm ?t = ?t"
    using norm_ok [OF ok] xs pend by (auto simp: norm_def ctrl_def)
  have ct: "ctrl_ok ?t (eoms xs)" "imode ?t = imode s" using c t(3) ctrl_ok_cong [OF t(3)] by (auto simp: ctrl_def)
  note fs = read_more_def [of s, unfolded ibuf_free_size_ok [OF ok]]
  show ?thesis
  proof (cases "free_size ?t > 0")
    case True
    obtain r where r: "ibuf_trigger_read ?t = Inr (?t\<lparr>ib_read_pending := r\<rparr>)" "buf_ok (?t\<lparr>ib_read_pending := r\<rparr>)" "r \<noteq> None"
      using ibuf_trigger_read_ok [OF t(1)] True t(5) by auto
    moreover have "ctrl_ok (?t\<lparr>ib_read_pending := r\<rparr>) (eoms xs)" using ct by (simp add: ctrl_ok_def)
    ultimately show ?thesis using fs True t ct by auto
  next
    case z: False
    show ?thesis
    proof (cases "ib_message_count ?t = 0")
      case True
      have n: "ib_message_count ?t = eoms xs + of_bool False" "\<not> ib_long_msg ?t" "eoms xs = 0"
        using True ct(1) by (auto simp: ctrl_ok_def split: if_splits)
      obtain s' where s': "ibuf_new_message (?t\<lparr>ib_long_msg := True\<rparr>) = Inr s'" "only_ctrl ?t s'" "imode s' = imode ?t"
        "ctrl_ok s' 0" "ib_message_count s' > 0"
        using new_message_ok [OF n(1) _ n(2) ct(1), of True] n(3) by auto
      have "buf_ok s'" "content s' xs"
        using t(1,2,4) only_ctrlD [OF s'(2)] s'(3) by (simp_all add: buf_ok_def content_def ib_rest_def ib_run_def)
      with s' z True fs n(3) ct(2) show ?thesis by simp
    next
      case False
      moreover have "eoms xs = 0 \<or> eoms xs > 0" using eoms_simps(4) [of xs] by linarith
      ultimately have "ib_message_count ?t > 0" using ct(1) by (auto simp: ctrl_ok_def)
      with False z fs t ct show ?thesis by simp
    qed
  qed
qed

lemma receive_ok:
  assumes s: "ib_ok s xs" and pend: "ib_read_pending s = Some (b, sz)"
    and len: "bytes \<noteq> []" "length bytes \<le> sz" and bytes: "decode (imode s) bytes = Some (ys, m)" "MARKER_EOS \<notin> set ys"
  shows "\<exists>s'. tcp_channel_read_done s bytes = Inr s' \<and> ib_ok s' (xs @ ys) \<and> imode s' = m"
proof -
  have ok: "buf_ok s" "content s xs" "ctrl_ok s (eoms xs)" "MARKER_EOS \<notin> set xs" using s by (auto simp: ib_ok_def)
  note d = buf_okD(1-7) [OF ok(1)]
  define s1 where "s1 = s\<lparr>ib_read_pending := None, ib_buf := store (ib_buf s) b bytes\<rparr>"
  have b: "b = ib_inp s" "ib_inp s + length bytes \<le> ib_buf_size s"
    using buf_okD(8) [OF ok(1) pend] len(2) by (auto simp: free_ok_def Let_def)
  have s1: "length (ib_buf s1) = ib_buf_size s1" "ib_inp s1 < ib_buf_size s1" "ib_inp s1 + length bytes \<le> ib_buf_size s1"
    "take (length bytes) (drop (ib_inp s1) (ib_buf s1)) = bytes" "imode s1 = imode s" "ctrl_ok s1 (eoms xs)"
    using b d ok(3) by (auto simp: s1_def length_store store_chunk ctrl_ok_def)
  obtain s2 where s2: "read_done_loop (length bytes) (ib_inp s1) s1 =
      Inr (wrap (ib_buf_size s1) (ib_inp s1 + length bytes), s2)" "only_ctrl s1 s2" "imode s2 = m"
      "ctrl_ok s2 (eoms xs + eoms ys)"
    using read_done_loop_ok [OF s1(1-3) _ bytes(2) s1(6)] bytes(1) s1(4,5) by fastforce
  define s3 where "s3 = s2\<lparr>ib_inp := wrap (ib_buf_size s) (ib_inp s + length bytes)\<rparr>"
  have s3: "buf_ok s3" "content s3 (xs @ ys)"
    using store_ok [OF ok(1,2) pend len(2) bytes(1) s1_def s2(2,3) s3_def] by auto
  have p3: "ib_read_pending s3 = None" "ctrl_ok s3 (eoms (xs @ ys))" "imode s3 = m"
    using only_ctrlD(7) [OF s2(2)] s2(3,4) by (auto simp: s3_def s1_def ctrl_ok_def)
  obtain s4 where s4: "grow_buf s3 = Inr s4" "buf_ok s4" "content s4 (xs @ ys)" "ctrl s4 = ctrl s3" "ib_read_pending s4 = None"
    using grow_buf_ok [OF s3(1) p3(1)] s3(2) by blast
  have c4: "ctrl_ok s4 (eoms (xs @ ys))" "imode s4 = m" using ctrl_ok_cong [OF s4(4)] p3 s4(4) by (auto simp: ctrl_def)
  obtain s5 where s5: "read_more s4 = Inr s5"
      "buf_ok s5" "content s5 (xs @ ys)" "ctrl_ok s5 (eoms (xs @ ys))" "imode s5 = imode s4"
      "ib_read_pending s5 = None \<longrightarrow> ib_message_count s5 > 0"
    using finish_receive [OF s4(2,3) c4(1) s4(5)] by (elim exE conjE) (rule that; assumption)
  have eqs: "ib_buf_size s1 = ib_buf_size s" "ib_inp s1 = ib_inp s" "\<not> ib_eof s1" "length bytes \<noteq> 0"
    using d(7) len(1) by (auto simp: s1_def)
  have "tcp_channel_read_done s bytes = ibuf_read_done s1 (length bytes)"
    using pend by (simp add: tcp_channel_read_done_def s1_def store_def)
  also have "\<dots> = rbind (grow_buf s3) read_more"
    unfolding ibuf_read_done_def if_not_P [OF eqs(4)] s2(1) [unfolded eqs(1,2)] s3_def eqs(2) using eqs(3)
    by (simp only: rbind_Inr assert_that_simps prod.case simp_thms)
  finally have "tcp_channel_read_done s bytes = Inr s5" using s4(1) s5(1) by simp
  with s5 c4(2) ok(4) bytes(2) show ?thesis by (auto simp: ib_ok_def)
qed

lemma eoms_pos [simp]: "1 + eoms xs \<noteq> 0"
  using eoms_simps(4) [of xs] by linarith

lemma ib_read_ok:
  assumes s: "ib_ok s (c # cs)" and a: "ib_handling_msg s = HandleMsgActive" and fuel: "fuel \<ge> ib_buf_size s"
  shows "\<exists>s'. tcp_read_stream fuel wait s = Inr (c, s') \<and> ib_ok s' cs \<and> imode s' = imode s"
proof -
  have o: "buf_ok s" "content s (c # cs)" "c \<noteq> MARKER_EOS" "ctrl_ok s (eoms (c # cs))" "MARKER_EOS \<notin> set cs"
    using s by (auto simp: ib_ok_def)
  have n: "ib_message_count s > 0" "ib_events s = 0"
    using o(4) a eoms_simps(4) [of "c # cs"] by (auto simp: ctrl_ok_def simp del: eoms_simps)
  obtain s' where s': "tcp_read_stream fuel wait s = Inr (c, s')" "buf_ok s'" "content s' cs" "after_read False s c s'"
    using read_stream_ok [OF o(1-3) n(1) a fuel] by blast
  have i: "imode s' = imode s" using s'(4) by (auto simp: after_read_def Let_def ctrl_def split: if_splits)
  have "ctrl_ok s' (eoms cs) \<and> (ib_read_pending s' = None \<longrightarrow> ib_message_count s' > 0)"
    using s'(4) o(4) a n
    by (auto simp: after_read_def Let_def ctrl_def ctrl_ok_def split: if_splits)
  with s' o(5) i show ?thesis by (auto simp: ib_ok_def)
qed

lemma ib_peek_ok:
  assumes s: "ib_ok s (c # cs)" and a: "ib_handling_msg s = HandleMsgActive" and fuel: "fuel \<ge> ib_buf_size s"
  shows "\<exists>s'. tcp_peek_stream fuel wait s = Inr (c, s') \<and> ib_ok s' (c # cs) \<and> ctrl s' = ctrl s"
proof -
  have o: "buf_ok s" "content s (c # cs)" "c \<noteq> MARKER_EOS" "ctrl_ok s (eoms (c # cs))" "MARKER_EOS \<notin> set cs"
    using s by (auto simp: ib_ok_def)
  have n: "ib_message_count s > 0"
    using o(4) a eoms_simps(4) [of "c # cs"] by (auto simp: ctrl_ok_def simp del: eoms_simps)
  obtain s' where s': "tcp_peek_stream fuel wait s = Inr (c, s')" "buf_ok s'" "content s' (c # cs)" "ctrl s' = ctrl s"
    using peek_stream_ok [OF o(1-3) n a fuel] by blast
  have "ctrl_ok s' (eoms (c # cs))" "ib_message_count s' > 0"
    using ctrl_ok_cong [OF s'(4)] o(4) s'(4) n by (auto simp: ctrl_def)
  with s' o(3,5) show ?thesis by (auto simp: ib_ok_def)
qed

lemma ib_dispatch_ok:
  assumes "ib_ok s xs" "ib_events s > 0"
  shows "\<exists>s'. handle_channel_msg s = Inr (1, s') \<and> ib_ok s' xs \<and> imode s' = imode s \<and>
    ib_handling_msg s' = HandleMsgActive"
proof -
  let ?s = "s\<lparr>ib_events := ib_events s - 1, ib_handling_msg := HandleMsgActive\<rparr>"
  have "ib_handling_msg s = HandleMsgTriggered" "ib_message_count s \<noteq> 0" "\<not> ib_eof s"
    using assms buf_okD(7) [of s] by (auto simp: ib_ok_def ctrl_ok_def split: if_splits)
  with assms have "handle_channel_msg s = Inr (1, ?s)" "ib_ok ?s xs"
    by (auto simp: handle_channel_msg_def ibuf_start_message_def ib_ok_def ctrl_ok_def)
  then show ?thesis by simp
qed

lemma active_has_symbol:
  assumes "ib_ok s xs" "ib_handling_msg s = HandleMsgActive" "\<not> ib_long_msg s"
  obtains c cs where "xs = c # cs"
  using assms by (cases xs) (auto simp: ib_ok_def ctrl_ok_def)

end
