(* ===== verification/InputChannel.thy ===== *)
theory InputChannel
  imports InputRing
begin

text \<open>
  A connected channel as its user sees it: the socket, the event queue and the handler of a message
  act on the input buffer in any order. The interface \<open>symbol_channel\<close> is what the user relies on,
  and the channel implements it.
\<close>

lemma no_ins: "concat (map (\<lambda>_. []) ops) = []"
  by simp

section \<open>A channel of symbols\<close>

text \<open>What the users of a channel rely on: it is a queue. Every operation, in any order, may add
  symbols at the end and yields symbols from the front, and an operation that has something to do
  makes progress.\<close>

locale symbol_channel =
  fixes exec :: "'op \<Rightarrow> 's \<Rightarrow> (int list \<times> 's) outcome" and view :: "'s \<Rightarrow> int list \<Rightarrow> bool"
    and ins :: "'op \<Rightarrow> int list" and enabled :: "'op \<Rightarrow> 's \<Rightarrow> bool" and weight :: "'s \<Rightarrow> nat"
  assumes exec_ok: "view s xs \<Longrightarrow> \<exists>outs s' ys. exec op s = Inr (outs, s') \<and> xs @ ins op = outs @ ys \<and> view s' ys"
    and exec_progress: "view s xs \<Longrightarrow> enabled op s \<Longrightarrow> exec op s = Inr (outs, s') \<Longrightarrow>
      weight s' < weight s + 2 * length outs"
    and enabled_ins: "enabled op s \<Longrightarrow> ins op = []"
begin

fun exec_all :: "'op list \<Rightarrow> 's \<Rightarrow> (int list \<times> 's) outcome" where
  "exec_all [] s = Inr ([], s)"
| "exec_all (op # ops) s =
     rbind (exec op s) (\<lambda>(outs, s). rbind (exec_all ops s) (\<lambda>(rest, s). Inr (outs @ rest, s)))"

lemma exec_all_ok:
  "view s xs \<Longrightarrow> \<exists>outs s' ys. exec_all ops s = Inr (outs, s') \<and> xs @ concat (map ins ops) = outs @ ys \<and> view s' ys"
proof (induction ops arbitrary: s xs)
  case (Cons op ops)
  then obtain outs s1 ys where 1: "exec op s = Inr (outs, s1)" "xs @ ins op = outs @ ys" "view s1 ys" using exec_ok by blast
  from Cons.IH [OF 1(3)] obtain outs' s2 zs where
    2: "exec_all ops s1 = Inr (outs', s2)" "ys @ concat (map ins ops) = outs' @ zs" "view s2 zs" by blast
  have "xs @ concat (map ins (op # ops)) = (outs @ ys) @ concat (map ins ops)" by (simp flip: 1(2))
  also have "\<dots> = (outs @ outs') @ zs" by (simp add: 2(2))
  finally show ?case using 1(1) 2(1,3) by auto
qed simp

lemma exec_all_append:
  "exec_all (ops @ ops') s = rbind (exec_all ops s) (\<lambda>(outs, s). rbind (exec_all ops' s) (\<lambda>(rest, s). Inr (outs @ rest, s)))"
  by (induction ops arbitrary: s) (auto simp: rbind_def split: sum.splits)

lemma exec_until_stuck:
  "view s xs \<Longrightarrow> \<exists>ops outs s' ys. exec_all ops s = Inr (outs, s') \<and> concat (map ins ops) = [] \<and> xs = outs @ ys \<and>
     view s' ys \<and> (\<forall>op. \<not> enabled op s')"
proof (induction "2 * length xs + weight s" arbitrary: s xs rule: less_induct)
  case less
  show ?case
  proof (cases "\<exists>op. enabled op s")
    case True
    then obtain op where op: "enabled op s" ..
    obtain outs s1 ys where 1: "exec op s = Inr (outs, s1)" "xs = outs @ ys" "view s1 ys"
      using exec_ok [OF less.prems, of op] enabled_ins [OF op] by auto
    have "2 * length ys + weight s1 < 2 * length xs + weight s"
      using exec_progress [OF less.prems op 1(1)] 1(2) by simp
    from less.hyps [OF this 1(3)] obtain ops outs' s' zs where 2: "exec_all ops s1 = Inr (outs', s')"
      "concat (map ins ops) = []" "ys = outs' @ zs" "view s' zs" "\<forall>op. \<not> enabled op s'" by blast
    with 1 enabled_ins [OF op] have "exec_all (op # ops) s = Inr (outs @ outs', s')" "xs = (outs @ outs') @ zs"
      "concat (map ins (op # ops)) = []" by simp_all
    with 2 show ?thesis by blast
  next
    case False
    have "exec_all [] s = Inr ([], s)" "xs = [] @ xs" "concat (map ins []) = []" by simp_all
    with less.prems False show ?thesis by blast
  qed
qed

end

section \<open>The channel as a receiver\<close>

text \<open>The bytes still on their way and the buffer. The socket delivers any number of bytes that the
  outstanding request has room for; the event queue dispatches a posted event; the handler of the
  message reads or peeks. A handler of a message that does not fit into the largest buffer would have
  to wait for the socket, so that it is not covered (\<open>ib_long_msg\<close>); in all other cases
  waiting is not needed, and the model of the reader fails if it waits.\<close>

datatype ib_op = Recv nat | Dispatch | Read | Peek

type_synonym channel_in = "byte list \<times> InputBuf"

definition no_wait :: "InputBuf \<Rightarrow> InputBuf outcome" where
  "no_wait s = Inl Assertion_Failed"

fun ib_enabled :: "ib_op \<Rightarrow> channel_in \<Rightarrow> bool" where
  "ib_enabled (Recv n) (wire, s) = (n > 0 \<and> wire \<noteq> [] \<and> ib_read_pending s \<noteq> None)"
| "ib_enabled Dispatch (wire, s) = (ib_events s > 0)"
| "ib_enabled Read (wire, s) = (ib_handling_msg s = HandleMsgActive \<and> \<not> ib_long_msg s)"
| "ib_enabled Peek (wire, s) = False"

fun ib_exec :: "ib_op \<Rightarrow> channel_in \<Rightarrow> (int list \<times> channel_in) outcome" where
  "ib_exec (Recv n) (wire, s) =
     (case ib_read_pending s of
        None \<Rightarrow> Inr ([], wire, s)
      | Some (b, sz) \<Rightarrow>
          let bytes = take (min n sz) wire in
          if bytes = [] then Inr ([], wire, s)
          else rbind (tcp_channel_read_done s bytes) (\<lambda>s. Inr ([], drop (min n sz) wire, s)))"
| "ib_exec Dispatch (wire, s) =
     (if ib_events s > 0 then rbind (handle_channel_msg s) (\<lambda>(_, s). Inr ([], wire, s)) else Inr ([], wire, s))"
| "ib_exec Read (wire, s) =
     (if ib_handling_msg s = HandleMsgActive \<and> \<not> ib_long_msg s
      then rbind (tcp_read_stream (ib_buf_size s) no_wait s) (\<lambda>(c, s). Inr ([c], wire, s))
      else Inr ([], wire, s))"
| "ib_exec Peek (wire, s) =
     (if ib_handling_msg s = HandleMsgActive \<and> \<not> ib_long_msg s
      then rbind (tcp_peek_stream (ib_buf_size s) no_wait s) (\<lambda>(c, s). Inr ([], wire, s))
      else Inr ([], wire, s))"

definition ib_view_to :: "dmode \<Rightarrow> channel_in \<Rightarrow> int list \<Rightarrow> bool" where
  "ib_view_to m = (\<lambda>(wire, s) zs. \<exists>xs ys. ib_ok s xs \<and> decode (imode s) wire = Some (ys, m) \<and> MARKER_EOS \<notin> set ys \<and>
     zs = xs @ ys)"

definition ib_view :: "channel_in \<Rightarrow> int list \<Rightarrow> bool" where
  "ib_view s zs \<longleftrightarrow> (\<exists>m. ib_view_to m s zs)"

definition ib_weight :: "channel_in \<Rightarrow> nat" where
  "ib_weight = (\<lambda>(wire, s). 2 * length wire + of_bool (ib_handling_msg s = HandleMsgTriggered))"

lemma ib_exec_ok:
  assumes v: "ib_view_to m s xs"
  shows "\<exists>outs s' ys. ib_exec op s = Inr (outs, s') \<and> xs = outs @ ys \<and> ib_view_to m s' ys \<and>
    (ib_enabled op s \<longrightarrow> ib_weight s' < ib_weight s + 2 * length outs)"
proof -
  obtain wire t where s: "s = (wire, t)" by (cases s)
  from v obtain us ys where u: "ib_ok t us" "decode (imode t) wire = Some (ys, m)" "MARKER_EOS \<notin> set ys" "xs = us @ ys"
    by (auto simp: s ib_view_to_def)
  show ?thesis
  proof (cases op)
    case (Recv n)
    show ?thesis
    proof (cases "\<exists>b sz. ib_read_pending t = Some (b, sz) \<and> take (min n sz) wire \<noteq> []")
      case True
      then obtain b sz where p: "ib_read_pending t = Some (b, sz)" "take (min n sz) wire \<noteq> []" by blast
      let ?b = "take (min n sz) wire" and ?w = "drop (min n sz) wire"
      have "decode (imode t) (?b @ ?w) = Some (ys, m)" using u(2) by (simp only: append_take_drop_id)
      then obtain as m1 bs where d: "decode (imode t) ?b = Some (as, m1)" "decode m1 ?w = Some (bs, m)" "ys = as @ bs"
        by (rule decode_splitD)
      have "length ?b \<le> sz" "MARKER_EOS \<notin> set as" using u(3) d(3) by (auto simp: min_def)
      with receive_ok [OF u(1) p _ d(1)] obtain t' where
        t': "tcp_channel_read_done t ?b = Inr t'" "ib_ok t' (us @ as)" "imode t' = m1"
        by blast
      have "length ?w < length wire" using p(2) by (auto simp: min_def split: if_splits)
      then have "2 * length ?w + of_bool (ib_handling_msg t' = HandleMsgTriggered) < 2 * length wire" by (simp add: of_bool_def)
      then have "ib_weight (?w, t') < ib_weight s" unfolding s ib_weight_def prod.case by linarith
      moreover have "ib_view_to m (?w, t') xs" using t' d u(3,4) by (auto simp: ib_view_to_def)
      ultimately show ?thesis using p t'(1) Recv by (auto simp: s Let_def)
    next
      case False
      then have "ib_exec op s = Inr ([], s)" "\<not> ib_enabled op s"
        using Recv buf_okD(8) [of t] u(1)
        by (auto simp: s ib_ok_def free_ok_def split: option.splits)
      with v show ?thesis by simp
    qed
  next
    case Dispatch
    show ?thesis
    proof (cases "ib_events t > 0")
      case True
      from ib_dispatch_ok [OF u(1) True] obtain t' where t': "handle_channel_msg t = Inr (1, t')" "ib_ok t' us"
        "imode t' = imode t" "ib_handling_msg t' = HandleMsgActive" by auto
      moreover have "ib_handling_msg t = HandleMsgTriggered"
        using u(1) True by (auto simp: ib_ok_def ctrl_ok_def split: if_splits)
      moreover have "ib_view_to m (wire, t') xs" using t' u by (auto simp: ib_view_to_def)
      ultimately show ?thesis using True Dispatch by (simp add: s ib_weight_def)
    qed (use v Dispatch in \<open>simp add: s\<close>)
  next
    case Read
    show ?thesis
    proof (cases "ib_handling_msg t = HandleMsgActive \<and> \<not> ib_long_msg t")
      case True
      then obtain c cs where us: "us = c # cs" using active_has_symbol [OF u(1)] by blast
      from ib_read_ok [OF u(1) [unfolded us], of "ib_buf_size t" no_wait] True obtain t' where
        t': "tcp_read_stream (ib_buf_size t) no_wait t = Inr (c, t')" "ib_ok t' cs" "imode t' = imode t" by auto
      moreover have "ib_view_to m (wire, t') (cs @ ys)" using t' u by (auto simp: ib_view_to_def)
      ultimately show ?thesis using True Read u(4) us by (simp add: s ib_weight_def)
    qed (use v Read in \<open>auto simp: s\<close>)
  next
    case Peek
    show ?thesis
    proof (cases "ib_handling_msg t = HandleMsgActive \<and> \<not> ib_long_msg t")
      case True
      then obtain c cs where us: "us = c # cs" using active_has_symbol [OF u(1)] by blast
      from ib_peek_ok [OF u(1) [unfolded us], of "ib_buf_size t" no_wait] True obtain t' where
        t': "tcp_peek_stream (ib_buf_size t) no_wait t = Inr (c, t')" "ib_ok t' us" "ctrl t' = ctrl t" using us by auto
      moreover have "ib_view_to m (wire, t') xs" using t' u by (auto simp: ib_view_to_def ctrl_def)
      ultimately show ?thesis using True Peek by (simp add: s)
    qed (use v Peek in \<open>auto simp: s\<close>)
  qed
qed

interpretation chan_in: symbol_channel ib_exec ib_view "\<lambda>_. []" ib_enabled ib_weight
proof
  fix s xs op
  assume "ib_view s xs"
  then obtain m where "ib_view_to m s xs" by (auto simp: ib_view_def)
  from ib_exec_ok [OF this, of op] obtain outs s' ys where
    "ib_exec op s = Inr (outs, s')" "xs = outs @ ys" "ib_view_to m s' ys" by blast
  then show "\<exists>outs s' ys. ib_exec op s = Inr (outs, s') \<and> xs @ [] = outs @ ys \<and> ib_view s' ys"
    unfolding ib_view_def append_Nil2 by blast
next
  fix s xs op outs s'
  assume "ib_view s xs" "ib_enabled op s" "ib_exec op s = Inr (outs, s')"
  moreover from this obtain m where "ib_view_to m s xs" by (auto simp: ib_view_def)
  ultimately show "ib_weight s' < ib_weight s + 2 * length outs" using ib_exec_ok [of m s xs op] by auto
qed simp

lemma start_channel_ok: "\<exists>s. start_channel = Inr s \<and> ib_ok s [] \<and> imode s = start_mode"
proof -
  have "buf_ok ibuf_init" "content ibuf_init []" "norm ibuf_init = ibuf_init" "free_size ibuf_init > 0"
    by (simp_all add: ibuf_init_def buf_ok_def content_def ib_rest_def ib_run_def wrap_def syms_def norm_def free_size_def)
  moreover from calculation obtain r where "ibuf_trigger_read ibuf_init = Inr (ibuf_init\<lparr>ib_read_pending := r\<rparr>)"
    "buf_ok (ibuf_init\<lparr>ib_read_pending := r\<rparr>)" "r \<noteq> None"
    using ibuf_trigger_read_ok [of ibuf_init] by auto
  moreover have "ctrl_ok (ibuf_init\<lparr>ib_read_pending := r\<rparr>) 0" "imode ibuf_init = start_mode"
    by (simp_all add: ctrl_ok_def ibuf_init_def)
  ultimately show ?thesis by (auto simp: start_channel_def ib_ok_def)
qed

text \<open>A channel on which nothing can be done has handed out all that was sent, unless an oversized
  message is being read.\<close>

lemma stuck_all_delivered:
  assumes v: "ib_view s xs" and stuck: "\<forall>op. \<not> ib_enabled op s" and l: "\<not> ib_long_msg (snd s)"
    and whole: "xs = [] \<or> last xs = MARKER_EOM"
  shows "xs = []"
proof -
  obtain wire t where s: "s = (wire, t)" by (cases s)
  from v obtain us ys m where u: "ib_ok t us" "decode (imode t) wire = Some (ys, m)" "xs = us @ ys"
    by (auto simp: s ib_view_def ib_view_to_def)
  have "ib_events t = 0" "ib_handling_msg t \<noteq> HandleMsgActive" "wire = [] \<or> ib_read_pending t = None"
    using stuck [rule_format, of Dispatch] stuck [rule_format, of Read] stuck [rule_format, of "Recv 1"] l
    by (auto simp: s)
  moreover from this u(1) have "ib_handling_msg t = HandleMsgIdle"
    by (cases "ib_handling_msg t") (auto simp: ib_ok_def ctrl_ok_def)
  ultimately have "eoms us = 0" "wire = []" using u(1) l by (auto simp: s ib_ok_def ctrl_ok_def)
  with u(2,3) have "xs = us" "MARKER_EOM \<notin> set us"
    by (auto simp: eoms_def count_list_0_iff)
  with whole show ?thesis by (metis last_in_set)
qed

section \<open>Properties\<close>

abbreviation run_channel_in :: "ib_op list \<Rightarrow> channel_in \<Rightarrow> (int list \<times> channel_in) outcome" where
  "run_channel_in \<equiv> chan_in.exec_all"

text \<open>C24: for every sequence of received chunks, dispatched events, reads and peeks on a new channel, no
  assertion fails and the reader never has to wait: the symbols read are a prefix of those that the
  bytes sent stand for, and when nothing more can be done and every message sent is complete, they are
  all of them (unless a message does not fit into the largest buffer).\<close>

theorem channel_input_in_order:
  assumes "decode start_mode wire = Some (xs, m)" "MARKER_EOS \<notin> set xs"
  shows "\<exists>s0 outs wire' s' rest. start_channel = Inr s0 \<and>
    run_channel_in ops (wire, s0) = Inr (outs, wire', s') \<and> xs = outs @ rest \<and>
    ((\<forall>op. \<not> ib_enabled op (wire', s')) \<and> \<not> ib_long_msg s' \<and> (xs = [] \<or> last xs = MARKER_EOM) \<longrightarrow> outs = xs)"
proof -
  obtain s0 where s0: "start_channel = Inr s0" "ib_ok s0 []" "imode s0 = start_mode" using start_channel_ok by blast
  with assms have "ib_view (wire, s0) xs" by (cases m) (auto simp: ib_view_def ib_view_to_def)
  from chan_in.exec_all_ok [OF this, of ops] obtain outs s' rest where
    r: "run_channel_in ops (wire, s0) = Inr (outs, s')" "xs = outs @ rest" "ib_view s' rest" unfolding no_ins append_Nil2 by blast
  moreover have "rest = []" if "\<forall>op. \<not> ib_enabled op s'" "\<not> ib_long_msg (snd s')" "xs = [] \<or> last xs = MARKER_EOM"
    using stuck_all_delivered [OF r(3) that(1,2)] that(3) r(2) by (cases "rest = []") auto
  ultimately show ?thesis using s0(1) by (cases s') fastforce
qed

lemma decode_sample: "decode start_mode [65, 3, 0, 3, 3, 130, 0, 3, 66, 3, 1] = Some ([65, 3, 3, 66, MARKER_EOM], start_mode)"
  by (simp add: dstep_def add_size_def)

theorem channel_input_in_order_witness:
  "\<exists>s0 outs wire' s' rest. start_channel = Inr s0 \<and>
    run_channel_in [Recv 7, Dispatch, Recv 9, Peek, Dispatch, Read, Read, Peek, Read] ([65, 3, 0, 3, 3, 130, 0, 3, 66, 3, 1], s0) =
      Inr (outs, wire', s') \<and> [65, 3, 3, 66, MARKER_EOM] = outs @ rest \<and>
    ((\<forall>op. \<not> ib_enabled op (wire', s')) \<and> \<not> ib_long_msg s' \<and> True \<longrightarrow> outs = [65, 3, 3, 66, MARKER_EOM])"
  using channel_input_in_order [OF decode_sample, of "[Recv 7, Dispatch, Recv 9, Peek, Dispatch, Read, Read, Peek, Read]"]
  by (simp del: chan_in.exec_all.simps)

text \<open>a channel does not stall: operations that have something to do can be found until all of the
  complete messages that were sent have been read, or one of them does not fit into the largest
  buffer.\<close>

theorem channel_input_completes:
  assumes "decode start_mode wire = Some (xs, m)" "MARKER_EOS \<notin> set xs" "xs = [] \<or> last xs = MARKER_EOM"
  shows "\<exists>s0 ops outs wire' s'. start_channel = Inr s0 \<and> run_channel_in ops (wire, s0) = Inr (outs, wire', s') \<and>
    (outs = xs \<or> ib_long_msg s')"
proof -
  obtain s0 where s0: "start_channel = Inr s0" "ib_ok s0 []" "imode s0 = start_mode" using start_channel_ok by blast
  with assms have "ib_view (wire, s0) xs" by (cases m) (auto simp: ib_view_def ib_view_to_def)
  from chan_in.exec_until_stuck [OF this] obtain ops outs s' rest where
    r: "run_channel_in ops (wire, s0) = Inr (outs, s')" "xs = outs @ rest" "ib_view s' rest" "\<forall>op. \<not> ib_enabled op s'"
    by blast
  have "rest = []" if "\<not> ib_long_msg (snd s')"
    using stuck_all_delivered [OF r(3,4) that] assms(3) r(2) by (cases "rest = []") auto
  with r(1,2) s0(1) show ?thesis by (cases s') fastforce
qed

theorem channel_input_completes_witness:
  "\<exists>s0 ops outs wire' s'. start_channel = Inr s0 \<and>
    run_channel_in ops ([65, 3, 0, 3, 3, 130, 0, 3, 66, 3, 1], s0) = Inr (outs, wire', s') \<and>
    (outs = [65, 3, 3, 66, MARKER_EOM] \<or> ib_long_msg s')"
  using channel_input_completes [OF decode_sample] by simp

text \<open>when the connection is closed while complete messages wait to be dispatched, the next dispatch
  reports the end of the stream: the messages are never handed to the reader.\<close>

theorem channel_eof_discards:
  assumes "ib_ok s xs" "ib_events s > 0" "ib_read_pending s \<noteq> None"
  shows "\<exists>s' s''. tcp_channel_read_done s [] = Inr s' \<and> handle_channel_msg s' = Inr (-1, s'') \<and>
    eoms xs + of_bool (ib_long_msg s) > 0 \<and> ib_message_count s' = eoms xs + of_bool (ib_long_msg s) + 1"
proof -
  have s: "ib_handling_msg s = HandleMsgTriggered" "ib_message_count s > 0" "\<not> ib_eof s"
    "ib_message_count s = eoms xs + of_bool (ib_long_msg s)"
    using assms(1,2) buf_okD(7) [of s] eoms_simps(4) [of xs]
    by (auto simp: ib_ok_def ctrl_ok_def simp del: eoms_simps split: if_splits)
  let ?s = "s\<lparr>ib_read_pending := None, ib_eof := True, ib_message_count := ib_message_count s + 1\<rparr>"
  have "tcp_channel_read_done s [] = Inr ?s"
    using s(1-3) assms(3)
    by (auto simp: tcp_channel_read_done_def ibuf_read_done_def ibuf_eof_def ibuf_new_message_def tcp_trigger_message_def)
  moreover have "\<exists>s''. handle_channel_msg ?s = Inr (-1, s'')"
    using s(1,2) by (simp add: handle_channel_msg_def ibuf_start_message_def)
  ultimately show ?thesis using s(2,4) by auto
qed

definition sample_ibuf :: InputBuf where
  "sample_ibuf = \<lparr>ib_buf_size = 8, ib_buf = [65, 3, 1, 0, 0, 0, 0, 0], ib_inp = 3, ib_cur = 0, ib_end = 0,
     ib_inp_esc = False, ib_out_esc = False, ib_eof = False, ib_long_msg = False,
     ib_message_count = 1, ib_handling_msg = HandleMsgTriggered, ib_out_size_mode = 0,
     ib_out_data_size = 0, ib_inp_size_mode = 0, ib_inp_data_size = 0, ib_read_pending = Some (3, 4),
     ib_events = 1\<rparr>"

lemma sample_ibuf_ok: "ib_ok sample_ibuf [65, MARKER_EOM]"
  by (simp add: sample_ibuf_def ib_ok_def buf_ok_def free_ok_def content_def ctrl_ok_def ib_rest_def ib_run_def
      wrap_def circ_def dstep_def syms_def)

theorem channel_eof_discards_witness:
  "\<exists>s' s''. tcp_channel_read_done sample_ibuf [] = Inr s' \<and> handle_channel_msg s' = Inr (-1, s'') \<and>
    ib_message_count s' = 2"
  using channel_eof_discards [OF sample_ibuf_ok] by (auto simp: sample_ibuf_def)

end
