(* ===== verification/OutputQueue.thy ===== *)
theory OutputQueue
  imports Prelude
begin

text \<open>
  The output queue of \<^verbatim>\<open>framework/outputbuf.c\<close>: a list of fixed size buffers that an
  asynchronous writer drains from its front. At most one write request is outstanding, for the
  first buffer; new data is copied to the end of the last buffer when that is not the first one,
  and to new buffers otherwise. Released buffers go to a pool of at most 32.

  The doubly linked lists of \<^verbatim>\<open>link.h\<close> are lists here; \<^verbatim>\<open>queue.next != queue.prev\<close> says
  that the list has two elements or more. The callback \<^verbatim>\<open>post_io_request\<close> is a parameter of
  the queue in the code; the model records the calls: the bytes between \<^verbatim>\<open>buf_pos\<close> and
  \<^verbatim>\<open>buf_len\<close> that each request covers.

  The locale \<open>send_queue\<close> is the contract of the queue with a transport: a byte FIFO. The
  properties say that the bytes handed to the transport are the bytes that were added, in order.
\<close>

section \<open>The model\<close>

abbreviation OUTPUT_QUEUE_BUF_SIZE :: nat where "OUTPUT_QUEUE_BUF_SIZE \<equiv> 4096"
abbreviation MAX_POOL_SIZE :: nat where "MAX_POOL_SIZE \<equiv> 32"

record OutputBuffer =
  bf_queue :: bool
  bf_buf :: "byte list"
  buf_len :: nat
  buf_pos :: nat

record OutputQueue =
  q_error :: int
  q_queue :: "OutputBuffer list"
  io_requests :: "byte list list"
  pool :: "OutputBuffer list"
  pool_size :: nat

definition bf_data :: "OutputBuffer \<Rightarrow> byte list" where
  "bf_data bf = drop (buf_pos bf) (take (buf_len bf) (bf_buf bf))"

definition post_io_request :: "OutputQueue \<Rightarrow> OutputBuffer \<Rightarrow> OutputQueue" where
  "post_io_request q bf = q\<lparr>io_requests := io_requests q @ [bf_data bf]\<rparr>"

definition output_queue_ini :: "OutputQueue \<Rightarrow> OutputQueue" where
  "output_queue_ini q = q\<lparr>q_queue := []\<rparr>"

definition output_queue_alloc_obuf :: "OutputQueue \<Rightarrow> OutputBuffer \<times> OutputQueue" where
  "output_queue_alloc_obuf q =
     (case pool q of
        [] \<Rightarrow> (\<lparr>bf_queue = False, bf_buf = replicate OUTPUT_QUEUE_BUF_SIZE 0, buf_len = 0,
                buf_pos = 0\<rparr>, q)
      | bf # rest \<Rightarrow> (bf\<lparr>bf_queue := False, buf_pos := 0, buf_len := 0\<rparr>,
                     q\<lparr>pool := rest, pool_size := pool_size q - 1\<rparr>))"

definition output_queue_free_obuf :: "OutputQueue \<Rightarrow> OutputBuffer \<Rightarrow> OutputQueue" where
  "output_queue_free_obuf q bf =
     (if pool_size q < MAX_POOL_SIZE
      then q\<lparr>pool := pool q @ [bf\<lparr>bf_queue := False\<rparr>], pool_size := pool_size q + 1\<rparr>
      else q)"

text \<open>\<^verbatim>\<open>memcpy(bf->buf + pos, data, len)\<close>\<close>

definition buf_copy :: "OutputBuffer \<Rightarrow> nat \<Rightarrow> byte list \<Rightarrow> OutputBuffer" where
  "buf_copy bf p bytes =
     bf\<lparr>bf_buf := take p (bf_buf bf) @ bytes @ drop (p + length bytes) (bf_buf bf)\<rparr>"

definition more_than_one :: "OutputQueue \<Rightarrow> bool" where
  "more_than_one q \<longleftrightarrow> length (q_queue q) > 1"

definition add_last_buf :: "OutputQueue \<Rightarrow> OutputBuffer \<Rightarrow> OutputQueue" where
  "add_last_buf q bf =
     (let q1 = q\<lparr>q_queue := q_queue q @ [bf]\<rparr>
      in if q_queue q = [] then post_io_request q1 bf else q1)"

definition output_queue_add_obuf :: "OutputQueue \<Rightarrow> OutputBuffer \<Rightarrow> OutputQueue outcome" where
  "output_queue_add_obuf q bf =
     (let add = Inr (add_last_buf q (bf\<lparr>bf_queue := True, buf_pos := 0\<rparr>))
      in if more_than_one q then
           let bp = last (q_queue q);
               gap = OUTPUT_QUEUE_BUF_SIZE - buf_len bp
           in assert_that (buf_pos bp = 0) (
              if gap \<ge> buf_len bf then
                let bp1 = (buf_copy bp (buf_len bp) (take (buf_len bf) (bf_buf bf)))
                            \<lparr>buf_len := buf_len bp + buf_len bf\<rparr>
                in Inr (output_queue_free_obuf (q\<lparr>q_queue := butlast (q_queue q) @ [bp1]\<rparr>) bf)
              else add)
         else add)"

function add_new_bufs :: "OutputQueue \<Rightarrow> byte list \<Rightarrow> OutputQueue" where
  "add_new_bufs q buf =
     (if buf = [] then q
      else
        let len = min (length buf) OUTPUT_QUEUE_BUF_SIZE;
            (bf, q1) = output_queue_alloc_obuf q;
            bf1 = buf_copy (bf\<lparr>bf_queue := True, buf_pos := 0, buf_len := len\<rparr>) 0 (take len buf)
        in add_new_bufs (add_last_buf q1 bf1) (drop len buf))"
  by pat_completeness auto
termination
  by (relation "measure (\<lambda>(q, buf). length buf)") auto

declare add_new_bufs.simps [simp del]

definition output_queue_add :: "OutputQueue \<Rightarrow> byte list \<Rightarrow> OutputQueue outcome" where
  "output_queue_add q buf =
     (if q_error q \<noteq> 0 then Inr q
      else if more_than_one q then
        let bf = last (q_queue q);
            gap = OUTPUT_QUEUE_BUF_SIZE - buf_len bf
        in assert_that (buf_pos bf = 0) (
           if gap > 0 then
             let len = min (length buf) gap;
                 bf1 = (buf_copy bf (buf_len bf) (take len buf))\<lparr>buf_len := buf_len bf + len\<rparr>
             in Inr (add_new_bufs (q\<lparr>q_queue := butlast (q_queue q) @ [bf1]\<rparr>) (drop len buf))
           else Inr (add_new_bufs q buf))
      else Inr (add_new_bufs q buf))"

function output_queue_clear :: "OutputQueue \<Rightarrow> OutputQueue" where
  "output_queue_clear q =
     (case q_queue q of
        [] \<Rightarrow> q
      | bf # rest \<Rightarrow> output_queue_clear (output_queue_free_obuf (q\<lparr>q_queue := rest\<rparr>) bf))"
  by pat_completeness auto
termination
  by (relation "measure (\<lambda>q. length (q_queue q))") (auto simp: output_queue_free_obuf_def)

declare output_queue_clear.simps [simp del]

text \<open>The completion of the outstanding request: \<open>size\<close> bytes were written. The first link of
  an empty queue is the queue itself, so that there is no buffer to update.\<close>

definition output_queue_done :: "OutputQueue \<Rightarrow> int \<Rightarrow> nat \<Rightarrow> OutputQueue outcome" where
  "output_queue_done q error sz =
     assert_that (q_error q = 0) (
     rbind (if error \<noteq> 0 then Inr (output_queue_clear (q\<lparr>q_error := error\<rparr>))
            else case q_queue q of
              [] \<Rightarrow> Inl Undefined_Behaviour
            | bf # rest \<Rightarrow>
                let bf1 = bf\<lparr>buf_pos := buf_pos bf + sz\<rparr>
                in if buf_pos bf1 < buf_len bf1 then Inr (q\<lparr>q_queue := bf1 # rest\<rparr>)
                   else Inr (output_queue_free_obuf (q\<lparr>q_queue := rest\<rparr>) bf1))
       (\<lambda>q1. Inr (case q_queue q1 of [] \<Rightarrow> q1 | bf # _ \<Rightarrow> post_io_request q1 bf)))"

definition output_queue_is_empty :: "OutputQueue \<Rightarrow> bool" where
  "output_queue_is_empty q \<longleftrightarrow> q_queue q = []"

section \<open>Invariant and abstract value\<close>

definition bf_inv :: "OutputBuffer \<Rightarrow> bool" where
  "bf_inv bf \<longleftrightarrow> length (bf_buf bf) = OUTPUT_QUEUE_BUF_SIZE \<and> buf_len bf \<le> OUTPUT_QUEUE_BUF_SIZE"

text \<open>In an idle queue there is nothing; otherwise the last request posted covers what the first
  buffer still holds, and the buffers behind it have not been started.\<close>

definition oq_inv :: "OutputQueue \<Rightarrow> bool" where
  "oq_inv q \<longleftrightarrow> list_all bf_inv (q_queue q) \<and> list_all bf_inv (pool q) \<and>
     list_all (\<lambda>bf. buf_pos bf = 0) (tl (q_queue q)) \<and>
     pool_size q = length (pool q) \<and> pool_size q \<le> MAX_POOL_SIZE \<and>
     (q_queue q \<noteq> [] \<longrightarrow> io_requests q \<noteq> [] \<and> last (io_requests q) = bf_data (hd (q_queue q)))"

definition oq_pending :: "OutputQueue \<Rightarrow> byte list" where
  "oq_pending q = concat (map bf_data (q_queue q))"


section \<open>The contract of a send queue\<close>

text \<open>
  What the queue and its environment do: a client adds bytes; the transport completes a part of
  the outstanding request, if there is one. \<open>q_run\<close> runs a sequence of such events and
  collects the bytes that the transport took.
\<close>

datatype q_event = Q_Add "byte list" | Q_Done nat

fun q_run :: "('q \<Rightarrow> byte list \<Rightarrow> 'q outcome) \<Rightarrow> ('q \<Rightarrow> nat \<Rightarrow> 'q outcome) \<Rightarrow> ('q \<Rightarrow> bool) \<Rightarrow>
    ('q \<Rightarrow> byte list) \<Rightarrow> q_event list \<Rightarrow> 'q \<Rightarrow> byte list \<Rightarrow> ('q \<times> byte list) outcome" where
  "q_run add fin busy req [] q sent = Inr (q, sent)"
| "q_run add fin busy req (Q_Add bs # es) q sent =
     rbind (add q bs) (\<lambda>q'. q_run add fin busy req es q' sent)"
| "q_run add fin busy req (Q_Done n # es) q sent =
     (if busy q then
        let k = min n (length (req q))
        in rbind (fin q k) (\<lambda>q'. q_run add fin busy req es q' (sent @ take k (req q)))
      else q_run add fin busy req es q sent)"

fun q_added :: "q_event list \<Rightarrow> byte list" where
  "q_added [] = []"
| "q_added (Q_Add bs # es) = bs @ q_added es"
| "q_added (Q_Done n # es) = q_added es"

fun q_accepted :: "(byte list \<Rightarrow> bool) \<Rightarrow> q_event list \<Rightarrow> bool" where
  "q_accepted acc [] = True"
| "q_accepted acc (Q_Add bs # es) \<longleftrightarrow> acc bs \<and> q_accepted acc es"
| "q_accepted acc (Q_Done n # es) = q_accepted acc es"

lemma q_accepted_all: "q_accepted (\<lambda>bs. True) es"
  by (induction es rule: q_added.induct) simp_all

locale send_queue =
  fixes add :: "'q \<Rightarrow> byte list \<Rightarrow> 'q outcome"
    and fin :: "'q \<Rightarrow> nat \<Rightarrow> 'q outcome"
    and busy :: "'q \<Rightarrow> bool"
    and req :: "'q \<Rightarrow> byte list"
    and pending :: "'q \<Rightarrow> byte list"
    and qinv :: "'q \<Rightarrow> bool"
    and acc :: "byte list \<Rightarrow> bool"
  assumes add_ok: "qinv q \<Longrightarrow> acc bs \<Longrightarrow>
      \<exists>q'. add q bs = Inr q' \<and> qinv q' \<and> pending q' = pending q @ bs"
    and fin_ok: "qinv q \<Longrightarrow> busy q \<Longrightarrow> n \<le> length (req q) \<Longrightarrow>
      \<exists>q'. fin q n = Inr q' \<and> qinv q' \<and> pending q' = drop n (pending q)"
    and req_prefix: "qinv q \<Longrightarrow> busy q \<Longrightarrow> \<exists>rest. pending q = req q @ rest"
begin

lemma run_in_order:
  assumes "qinv q" "q_accepted acc es"
  shows "\<exists>q' sent'. q_run add fin busy req es q sent = Inr (q', sent') \<and> qinv q' \<and>
    sent' @ pending q' = sent @ pending q @ q_added es"
  using assms
proof (induction es arbitrary: q sent)
  case Nil
  then show ?case by simp
next
  case (Cons e es)
  show ?case
  proof (cases e)
    case (Q_Add bs)
    with add_ok [of q bs] Cons.prems obtain q1 where
      q1: "add q bs = Inr q1" "qinv q1" "pending q1 = pending q @ bs" by auto
    from Cons.IH [OF q1(2), of sent] Cons.prems Q_Add q1 show ?thesis by auto
  next
    case (Q_Done n)
    show ?thesis
    proof (cases "busy q")
      case False
      with Cons Q_Done show ?thesis by auto
    next
      case True
      define k where "k = min n (length (req q))"
      obtain rest where rest: "pending q = req q @ rest" using req_prefix Cons.prems True by blast
      obtain q1 where q1: "fin q k = Inr q1" "qinv q1" "pending q1 = drop k (pending q)"
        using fin_ok [of q k] Cons.prems True by (auto simp: k_def)
      have "(sent @ take k (req q)) @ pending q1 @ x = sent @ pending q @ x" for x
        using q1(3) rest by (simp add: k_def)
      with Cons.IH [OF q1(2), of "sent @ take k (req q)"] Cons.prems True Q_Done q1 show ?thesis
        by (auto simp: k_def [symmetric] Let_def simp del: append_assoc)
    qed
  qed
qed

end

section \<open>The queue is a send queue\<close>

definition oq_ok :: "OutputQueue \<Rightarrow> bool" where
  "oq_ok q \<longleftrightarrow> oq_inv q \<and> q_error q = 0"

definition oq_busy :: "OutputQueue \<Rightarrow> bool" where
  "oq_busy q \<longleftrightarrow> q_queue q \<noteq> []"

definition oq_request :: "OutputQueue \<Rightarrow> byte list" where
  "oq_request q = last (io_requests q)"

text \<open>The way in which a channel hands over a buffer that it filled.\<close>

definition send_obuf :: "OutputQueue \<Rightarrow> byte list \<Rightarrow> OutputQueue outcome" where
  "send_obuf q bytes =
     (let (bf, q1) = output_queue_alloc_obuf q
      in output_queue_add_obuf q1 ((buf_copy bf 0 bytes)\<lparr>buf_len := length bytes\<rparr>))"

lemma bf_data_copy:
  "bf_inv bf \<Longrightarrow> length bs \<le> OUTPUT_QUEUE_BUF_SIZE \<Longrightarrow>
    bf_data ((buf_copy bf 0 bs)\<lparr>buf_len := length bs, buf_pos := 0\<rparr>) = bs"
  by (simp add: bf_data_def buf_copy_def)

lemma bf_inv_copy:
  "bf_inv bf \<Longrightarrow> p + length bs \<le> OUTPUT_QUEUE_BUF_SIZE \<Longrightarrow>
    length (bf_buf (buf_copy bf p bs)) = OUTPUT_QUEUE_BUF_SIZE"
  by (simp add: bf_inv_def buf_copy_def)

lemma bf_data_append:
  assumes "bf_inv bf" "buf_pos bf = 0" "buf_len bf + length bs \<le> OUTPUT_QUEUE_BUF_SIZE"
  shows "bf_data ((buf_copy bf (buf_len bf) bs)\<lparr>buf_len := buf_len bf + length bs\<rparr>) =
    bf_data bf @ bs"
  using assms by (simp add: bf_data_def buf_copy_def bf_inv_def)

lemma alloc_obuf_ok:
  assumes "oq_inv q" "output_queue_alloc_obuf q = (bf, q1)"
  shows "bf_inv bf" "oq_inv q1" "q_queue q1 = q_queue q" "q_error q1 = q_error q"
    "buf_pos bf = 0"
  using assms by (auto simp: output_queue_alloc_obuf_def oq_inv_def bf_inv_def split: list.splits)

lemma free_obuf_ok:
  assumes "oq_inv q" "bf_inv bf"
  shows "oq_inv (output_queue_free_obuf q bf)"
    "q_queue (output_queue_free_obuf q bf) = q_queue q"
    "q_error (output_queue_free_obuf q bf) = q_error q"
  using assms by (auto simp: output_queue_free_obuf_def oq_inv_def bf_inv_def)

lemma add_last_buf_ok:
  assumes "oq_inv q" "bf_inv bf" "buf_pos bf = 0"
  shows "oq_inv (add_last_buf q bf)" "oq_pending (add_last_buf q bf) = oq_pending q @ bf_data bf"
    "q_error (add_last_buf q bf) = q_error q"
  using assms
  by (auto simp: add_last_buf_def oq_inv_def oq_pending_def post_io_request_def Let_def
      split: list.splits)

lemma add_new_bufs_ok:
  "oq_inv q \<Longrightarrow> oq_inv (add_new_bufs q buf) \<and> oq_pending (add_new_bufs q buf) = oq_pending q @ buf \<and>
    q_error (add_new_bufs q buf) = q_error q"
proof (induction q buf rule: add_new_bufs.induct)
  case (1 q buf)
  show ?case
  proof (cases "buf = []")
    case True
    then show ?thesis using "1.prems" by (subst (1 2 3) add_new_bufs.simps) simp
  next
    case False
    define len where "len = min (length buf) OUTPUT_QUEUE_BUF_SIZE"
    obtain bf q1 where a: "output_queue_alloc_obuf q = (bf, q1)"
      by (cases "output_queue_alloc_obuf q")
    define bf1 where "bf1 = buf_copy (bf\<lparr>bf_queue := True, buf_pos := 0, buf_len := len\<rparr>) 0 (take len buf)"
    note ok = alloc_obuf_ok [OF "1.prems" a]
    have b: "bf_inv bf1" "buf_pos bf1 = 0" "bf_data bf1 = take len buf"
      using ok(1) by (auto simp: bf1_def bf_inv_def buf_copy_def len_def bf_data_def)
    have p: "oq_pending q1 = oq_pending q" using ok(3) by (simp add: oq_pending_def)
    note IH = "1.IH" [OF False len_def a [symmetric] refl bf1_def add_last_buf_ok(1) [OF ok(2) b(1,2)]]
    have e: "add_new_bufs q buf = add_new_bufs (add_last_buf q1 bf1) (drop len buf)"
      using False a by (subst add_new_bufs.simps) (simp add: Let_def len_def bf1_def)
    show ?thesis
      unfolding e using IH add_last_buf_ok [OF ok(2) b(1,2)] b(3) p ok(4) by simp
  qed
qed

text \<open>Replacing the last buffer of a queue that has more than one leaves the first one, and with
  it the outstanding request, alone.\<close>

lemma replace_last_ok:
  assumes "oq_inv q" "more_than_one q" "bf_inv bf" "buf_pos bf = 0"
    "bf_data bf = bf_data (last (q_queue q)) @ bs"
  shows "oq_inv (q\<lparr>q_queue := butlast (q_queue q) @ [bf]\<rparr>)"
    "oq_pending (q\<lparr>q_queue := butlast (q_queue q) @ [bf]\<rparr>) = oq_pending q @ bs"
proof -
  from assms(2) obtain b0 mid bl where q: "q_queue q = b0 # mid @ [bl]"
    by (cases "q_queue q"; cases "tl (q_queue q)" rule: rev_cases) (auto simp: more_than_one_def)
  show "oq_inv (q\<lparr>q_queue := butlast (q_queue q) @ [bf]\<rparr>)"
    "oq_pending (q\<lparr>q_queue := butlast (q_queue q) @ [bf]\<rparr>) = oq_pending q @ bs"
    using assms by (auto simp: oq_inv_def oq_pending_def q)
qed

lemma last_buf_fresh:
  assumes "oq_inv q" "more_than_one q"
  shows "bf_inv (last (q_queue q))" "buf_pos (last (q_queue q)) = 0"
proof -
  from assms(2) obtain b0 mid bl where q: "q_queue q = b0 # mid @ [bl]"
    by (cases "q_queue q"; cases "tl (q_queue q)" rule: rev_cases) (auto simp: more_than_one_def)
  show "bf_inv (last (q_queue q))" "buf_pos (last (q_queue q)) = 0"
    using assms(1) by (auto simp: oq_inv_def q)
qed

lemma output_queue_add_ok:
  assumes "oq_ok q"
  shows "\<exists>q'. output_queue_add q bs = Inr q' \<and> oq_ok q' \<and> oq_pending q' = oq_pending q @ bs"
proof (cases "more_than_one q \<and> buf_len (last (q_queue q)) < OUTPUT_QUEUE_BUF_SIZE")
  case True
  let ?bf = "last (q_queue q)"
  define len where "len = min (length bs) (OUTPUT_QUEUE_BUF_SIZE - buf_len ?bf)"
  define bf1 where "bf1 = (buf_copy ?bf (buf_len ?bf) (take len bs))\<lparr>buf_len := buf_len ?bf + len\<rparr>"
  have inv: "oq_inv q" using assms by (simp add: oq_ok_def)
  note last = last_buf_fresh [OF inv]
  have lt: "length (take len bs) = len" by (simp add: len_def)
  have b: "bf_inv bf1" "buf_pos bf1 = 0" "bf_data bf1 = bf_data ?bf @ take len bs"
    using True last bf_data_append [of ?bf "take len bs"] lt
    by (auto simp: bf1_def bf_inv_def buf_copy_def len_def)
  note r = replace_last_ok [OF inv _ b]
  show ?thesis
    using True assms last add_new_bufs_ok [OF r(1), of "drop len bs"] r(2)
    by (auto simp: output_queue_add_def oq_ok_def Let_def len_def [symmetric] bf1_def [symmetric])
next
  case False
  with assms last_buf_fresh [of q] add_new_bufs_ok [of q bs] show ?thesis
    by (auto simp: output_queue_add_def oq_ok_def Let_def)
qed

lemma output_queue_add_obuf_ok:
  assumes "oq_ok q" "bf_inv bf"
  shows "\<exists>q'. output_queue_add_obuf q bf = Inr q' \<and> oq_ok q' \<and>
    oq_pending q' = oq_pending q @ take (buf_len bf) (bf_buf bf)"
proof (cases "more_than_one q \<and> buf_len (last (q_queue q)) + buf_len bf \<le> OUTPUT_QUEUE_BUF_SIZE")
  case True
  let ?bp = "last (q_queue q)" and ?bs = "take (buf_len bf) (bf_buf bf)"
  define bp1 where "bp1 = (buf_copy ?bp (buf_len ?bp) ?bs)\<lparr>buf_len := buf_len ?bp + buf_len bf\<rparr>"
  have inv: "oq_inv q" using assms by (simp add: oq_ok_def)
  have len: "length ?bs = buf_len bf" using assms(2) by (simp add: bf_inv_def)
  note last = last_buf_fresh [OF inv]
  have b: "bf_inv bp1" "buf_pos bp1 = 0" "bf_data bp1 = bf_data ?bp @ ?bs"
    using True last bf_data_append [of ?bp ?bs] len bf_inv_copy [of ?bp "buf_len ?bp" ?bs]
    by (auto simp: bp1_def bf_inv_def) (simp_all add: buf_copy_def)
  note r = replace_last_ok [OF inv _ b]
  show ?thesis
    using True assms last free_obuf_ok [OF r(1) assms(2)] r(2)
    by (auto simp: output_queue_add_obuf_def oq_ok_def Let_def bp1_def [symmetric]
        output_queue_free_obuf_def oq_pending_def)
next
  case False
  let ?bf = "bf\<lparr>bf_queue := True, buf_pos := 0\<rparr>"
  have b: "bf_inv ?bf" "buf_pos ?bf = 0" "bf_data ?bf = take (buf_len bf) (bf_buf bf)"
    using assms(2) by (simp_all add: bf_inv_def bf_data_def)
  have inv: "oq_inv q" using assms by (simp add: oq_ok_def)
  show ?thesis
    using False assms add_last_buf_ok [OF inv b(1,2)] b(3) last_buf_fresh [OF inv]
    by (auto simp: output_queue_add_obuf_def oq_ok_def Let_def bf_inv_def)
qed

lemma send_obuf_ok:
  assumes "oq_ok q" "length bs \<le> OUTPUT_QUEUE_BUF_SIZE"
  shows "\<exists>q'. send_obuf q bs = Inr q' \<and> oq_ok q' \<and> oq_pending q' = oq_pending q @ bs"
proof -
  obtain bf q1 where a: "output_queue_alloc_obuf q = (bf, q1)"
    by (cases "output_queue_alloc_obuf q")
  have inv: "oq_inv q" using assms by (simp add: oq_ok_def)
  note ok = alloc_obuf_ok [OF inv a]
  let ?bf = "(buf_copy bf 0 bs)\<lparr>buf_len := length bs\<rparr>"
  have "bf_inv ?bf" "take (buf_len ?bf) (bf_buf ?bf) = bs"
    using ok(1) assms(2) by (auto simp: bf_inv_def buf_copy_def)
  with output_queue_add_obuf_ok [of q1 ?bf] ok assms(1) show ?thesis
    by (auto simp: send_obuf_def a oq_ok_def oq_pending_def)
qed

lemma output_queue_done_ok:
  assumes "oq_ok q" "oq_busy q" "n \<le> length (oq_request q)"
  shows "\<exists>q'. output_queue_done q 0 n = Inr q' \<and> oq_ok q' \<and> oq_pending q' = drop n (oq_pending q)"
proof -
  obtain bf rest where q: "q_queue q = bf # rest"
    using assms(2) by (cases "q_queue q") (auto simp: oq_busy_def)
  have i: "bf_inv bf" "list_all bf_inv rest" "list_all (\<lambda>bf. buf_pos bf = 0) rest"
    "oq_request q = bf_data bf"
    using assms(1) by (auto simp: oq_ok_def oq_inv_def q oq_request_def)
  have n: "n \<le> buf_len bf - buf_pos bf"
    using assms(3) i(1,4) by (simp add: bf_data_def bf_inv_def)
  show ?thesis
  proof (cases "buf_pos bf + n < buf_len bf")
    case True
    let ?bf = "bf\<lparr>buf_pos := buf_pos bf + n\<rparr>"
    have d: "bf_data ?bf = drop n (bf_data bf)" by (simp add: bf_data_def add.commute)
    have "length (bf_data bf) \<ge> n" using assms(3) i(4) by simp
    with True assms(1) i d show ?thesis
      by (auto simp: output_queue_done_def q oq_ok_def oq_inv_def post_io_request_def oq_pending_def
          bf_inv_def)
  next
    case False
    have l: "length (bf_data bf) = n"
      using False n i(1,4) assms(3) by (auto simp: bf_data_def bf_inv_def)
    then have d: "drop n (oq_pending q) = concat (map bf_data rest)"
      by (simp add: oq_pending_def q)
    show ?thesis
      using False assms(1) i q l
      by (cases rest) (auto simp: d output_queue_done_def oq_ok_def oq_inv_def post_io_request_def
          output_queue_free_obuf_def bf_inv_def oq_pending_def)
  qed
qed

lemma oq_request_prefix:
  "oq_ok q \<Longrightarrow> oq_busy q \<Longrightarrow> \<exists>rest. oq_pending q = oq_request q @ rest"
  by (cases "q_queue q") (auto simp: oq_ok_def oq_inv_def oq_busy_def oq_request_def oq_pending_def)

interpretation oq: send_queue output_queue_add "\<lambda>q. output_queue_done q 0" oq_busy oq_request
    oq_pending oq_ok "\<lambda>bs. True"
  by unfold_locales (blast intro: output_queue_add_ok output_queue_done_ok oq_request_prefix)+

interpretation oqb: send_queue send_obuf "\<lambda>q. output_queue_done q 0" oq_busy oq_request
    oq_pending oq_ok "\<lambda>bs. length bs \<le> OUTPUT_QUEUE_BUF_SIZE"
  by unfold_locales (blast intro: send_obuf_ok output_queue_done_ok oq_request_prefix)+


text \<open>A full completion removes the first buffer.\<close>

lemma output_queue_done_full:
  assumes "oq_ok q" "oq_busy q"
  shows "\<exists>q'. output_queue_done q 0 (length (oq_request q)) = Inr q' \<and> oq_ok q' \<and>
    oq_pending q = oq_request q @ oq_pending q' \<and> length (q_queue q') = length (q_queue q) - 1"
proof -
  obtain bf rest where q: "q_queue q = bf # rest"
    using assms(2) by (cases "q_queue q") (auto simp: oq_busy_def)
  have i: "bf_inv bf" "oq_request q = bf_data bf"
    using assms(1) by (auto simp: oq_ok_def oq_inv_def q oq_request_def)
  obtain q' where q': "output_queue_done q 0 (length (oq_request q)) = Inr q'" "oq_ok q'"
      "oq_pending q' = drop (length (oq_request q)) (oq_pending q)"
    using output_queue_done_ok [OF assms order_refl] by auto
  have "\<not> buf_pos bf + length (bf_data bf) < buf_len bf"
    using i(1) by (auto simp: bf_data_def bf_inv_def)
  then have "q_queue q' = rest"
    using q'(1) assms(1) q i(2)
    by (cases rest) (auto simp: output_queue_done_def oq_ok_def post_io_request_def
        output_queue_free_obuf_def)
  with q' oq_request_prefix [OF assms] q show ?thesis by auto
qed

lemma oq_request_le: "oq_ok q \<Longrightarrow> oq_busy q \<Longrightarrow> length (oq_request q) \<le> OUTPUT_QUEUE_BUF_SIZE"
  by (cases "q_queue q")
    (auto simp: oq_ok_def oq_inv_def oq_busy_def oq_request_def bf_data_def bf_inv_def)

lemma oq_drain:
  assumes "oq_ok q"
  shows "\<exists>q'. q_run output_queue_add (\<lambda>q. output_queue_done q 0) oq_busy oq_request
      (replicate (length (q_queue q)) (Q_Done OUTPUT_QUEUE_BUF_SIZE)) q sent =
      Inr (q', sent @ oq_pending q) \<and> q_queue q' = []"
  using assms
proof (induction "length (q_queue q)" arbitrary: q sent)
  case 0
  then show ?case by (simp add: oq_pending_def)
next
  case (Suc n)
  then have busy: "oq_busy q" by (auto simp: oq_busy_def)
  obtain q1 where q1: "output_queue_done q 0 (length (oq_request q)) = Inr q1" "oq_ok q1"
      "oq_pending q = oq_request q @ oq_pending q1" "length (q_queue q1) = n"
    using output_queue_done_full [OF Suc.prems busy] Suc.hyps(2) by auto
  have l: "min OUTPUT_QUEUE_BUF_SIZE (length (oq_request q)) = length (oq_request q)"
    using oq_request_le [OF Suc.prems busy] by simp
  show ?case
    using Suc.hyps(1) [OF q1(4) [symmetric] q1(2), of "sent @ oq_request q"] q1 busy
    by (simp add: Suc.hyps(2) [symmetric] l Let_def)
qed

lemma clear_empties: "q_queue (output_queue_clear q) = [] \<and> q_error (output_queue_clear q) = q_error q"
proof (induction q rule: output_queue_clear.induct)
  case (1 q)
  then show ?case
    by (subst (1 2) output_queue_clear.simps) (auto simp: output_queue_free_obuf_def split: list.split)
qed


section \<open>Properties\<close>

definition oq_empty :: OutputQueue where
  "oq_empty = \<lparr>q_error = 0, q_queue = [], io_requests = [], pool = [], pool_size = 0\<rparr>"

lemma oq_empty_ok: "oq_ok oq_empty" "oq_pending oq_empty = []"
  by (simp_all add: oq_ok_def oq_inv_def oq_empty_def oq_pending_def)

text \<open>C13: Whatever the order of additions and completions, and however the transport splits its
  writes, the output queue neither fails nor reorders, loses or repeats a byte: what the
  transport took, followed by what is still queued, is what was added. The queue stays
  well-formed: one request is outstanding exactly while there is data, it covers the first buffer,
  and no buffer is overrun.\<close>

theorem output_queue_in_order:
  "\<exists>q' sent. q_run output_queue_add (\<lambda>q. output_queue_done q 0) oq_busy oq_request es oq_empty [] =
      Inr (q', sent) \<and> oq_inv q' \<and> sent @ oq_pending q' = q_added es"
  using oq.run_in_order [OF oq_empty_ok(1) q_accepted_all, of es "[]"] oq_empty_ok(2)
  by (auto simp: oq_ok_def)

text \<open>The same holds when whole buffers are handed over with \<open>output_queue_add_obuf\<close>, as the
  TCP channel does: each flushed block of at most one buffer is sent in order.\<close>

theorem output_queue_obuf_in_order:
  assumes "q_accepted (\<lambda>bs. length bs \<le> OUTPUT_QUEUE_BUF_SIZE) es"
  shows "\<exists>q' sent. q_run send_obuf (\<lambda>q. output_queue_done q 0) oq_busy oq_request es oq_empty [] =
      Inr (q', sent) \<and> oq_inv q' \<and> sent @ oq_pending q' = q_added es"
  using oqb.run_in_order [OF oq_empty_ok(1) assms, of "[]"] oq_empty_ok(2)
  by (auto simp: oq_ok_def)

theorem output_queue_obuf_in_order_witness:
  "\<exists>q' sent. q_run send_obuf (\<lambda>q. output_queue_done q 0) oq_busy oq_request
      [Q_Add [1, 2], Q_Done 1, Q_Add [3]] oq_empty [] = Inr (q', sent) \<and>
      sent @ oq_pending q' = [1, 2, 3]"
  using output_queue_obuf_in_order [of "[Q_Add [1, 2], Q_Done 1, Q_Add [3]]"] by auto

text \<open>The queue drains: after as many complete writes as there are buffers it is empty and
  everything that was pending has been sent.\<close>

theorem output_queue_drains:
  assumes "oq_ok q"
  shows "\<exists>q'. q_run output_queue_add (\<lambda>q. output_queue_done q 0) oq_busy oq_request
      (replicate (length (q_queue q)) (Q_Done OUTPUT_QUEUE_BUF_SIZE)) q [] =
      Inr (q', oq_pending q) \<and> output_queue_is_empty q'"
  using oq_drain [OF assms, of "[]"] by (simp add: output_queue_is_empty_def)

theorem output_queue_drains_witness:
  "\<exists>q q'. oq_ok q \<and> oq_pending q = [1, 2] \<and>
     q_run output_queue_add (\<lambda>q. output_queue_done q 0) oq_busy oq_request
       (replicate (length (q_queue q)) (Q_Done OUTPUT_QUEUE_BUF_SIZE)) q [] = Inr (q', [1, 2])"
proof -
  obtain q where q: "oq_ok q" "oq_pending q = [1, 2]"
    using output_queue_add_ok [OF oq_empty_ok(1), of "[1, 2]"] oq_empty_ok(2) by auto
  from output_queue_drains [OF q(1)] q show ?thesis by auto
qed

text \<open>A write error discards what is queued, and from then on \<open>output_queue_add\<close> drops
  new data without touching the queue.\<close>

theorem output_queue_write_error:
  assumes "q_error q = 0" "e \<noteq> 0"
  shows "\<exists>q'. output_queue_done q e n = Inr q' \<and> output_queue_is_empty q' \<and>
    io_requests q' = io_requests q \<and> (\<forall>bs. output_queue_add q' bs = Inr q')"
proof -
  have "io_requests (output_queue_clear q) = io_requests q" for q
  proof (induction q rule: output_queue_clear.induct)
    case (1 q)
    then show ?case
      by (subst output_queue_clear.simps) (auto simp: output_queue_free_obuf_def split: list.split)
  qed
  then show ?thesis
    using assms clear_empties [of "q\<lparr>q_error := e\<rparr>"]
    by (simp add: output_queue_done_def output_queue_is_empty_def output_queue_add_def)
qed

theorem output_queue_write_error_witness:
  "\<exists>q'. output_queue_done oq_empty 32 0 = Inr q' \<and> output_queue_is_empty q' \<and>
     output_queue_add q' [1, 2, 3] = Inr q'"
  using output_queue_write_error [of oq_empty 32 0] by (auto simp: oq_empty_def)

end
