(* ===== verification/ChannelOut.thy ===== *)
theory ChannelOut
  imports InputRing OutputQueue
begin

text \<open>
  The output half of a TCP channel (\<^verbatim>\<open>framework/channel_tcp.c\<close>): symbols are written to a buffer
  with the escape sequences of the wire, or into a binary block when the peer accepts them; a full
  buffer and a posted flush event hand the buffer to the output queue. The buffer is the list of
  the bytes between \<^verbatim>\<open>obuf->buf\<close> and \<^verbatim>\<open>out.cur\<close>, so that \<^verbatim>\<open>out.end\<close> is reached at
  \<^verbatim>\<open>BUF_SIZE\<close> bytes; a store behind that is undefined behaviour. \<^verbatim>\<open>out_bin_block\<close> is an index
  into the buffer. The number of flush events posted and not yet run is \<^verbatim>\<open>out_flush_cnt\<close>.
  The deletion of a channel whose lock count reaches 0 is not part of the model: the creator of the
  channel holds a lock.

  The bytes produced decode to the symbols written, for every mix of single symbols and blocks,
  with and without binary blocks.
\<close>

section \<open>The model\<close>

abbreviation BUF_SIZE :: nat where "BUF_SIZE \<equiv> OUTPUT_QUEUE_BUF_SIZE"

record ChannelOut =
  co_buf :: "byte list"
  co_bin_block :: "nat option"
  co_zero_copy :: bool
  co_connected :: bool
  co_errno :: int
  co_flush_cnt :: nat
  co_eom_cnt :: nat
  co_lock_cnt :: nat
  co_queue :: OutputQueue

definition tcp_lock :: "ChannelOut \<Rightarrow> ChannelOut" where
  "tcp_lock c = c\<lparr>co_lock_cnt := co_lock_cnt c + 1\<rparr>"

definition tcp_unlock :: "ChannelOut \<Rightarrow> ChannelOut outcome" where
  "tcp_unlock c = assert_that (co_lock_cnt c > 0) (Inr (c\<lparr>co_lock_cnt := co_lock_cnt c - 1\<rparr>))"

text \<open>The queue reports a write request through \<^verbatim>\<open>post_write_request\<close>, which locks the channel.\<close>

definition post_write_request :: "ChannelOut \<Rightarrow> OutputQueue \<Rightarrow> ChannelOut" where
  "post_write_request c q =
     (if length (io_requests q) > length (io_requests (co_queue c))
      then tcp_lock (c\<lparr>co_queue := q\<rparr>) else c\<lparr>co_queue := q\<rparr>)"

definition done_write_request :: "ChannelOut \<Rightarrow> int \<Rightarrow> nat \<Rightarrow> ChannelOut outcome" where
  "done_write_request c error sz =
     rbind (output_queue_done (co_queue c) error sz) (\<lambda>q.
     let c = post_write_request c q
     in tcp_unlock (if error \<noteq> 0 then c\<lparr>co_errno := error\<rparr> else c))"

definition tcp_flush_with_flags :: "ChannelOut \<Rightarrow> ChannelOut outcome" where
  "tcp_flush_with_flags c =
     assert_that (co_bin_block c = None) (
     assert_that (length (co_buf c) \<le> BUF_SIZE) (
     if co_buf c = [] then Inr c
     else
       rbind (if co_connected c \<and> co_errno c = 0
              then rbind (send_obuf (co_queue c) (co_buf c)) (\<lambda>q. Inr (post_write_request c q))
              else Inr c) (\<lambda>c.
       Inr (c\<lparr>co_buf := [], co_eom_cnt := 0\<rparr>))))"

definition tcp_flush_event :: "ChannelOut \<Rightarrow> ChannelOut outcome" where
  "tcp_flush_event c =
     (let c = c\<lparr>co_flush_cnt := co_flush_cnt c - 1\<rparr> in
      if co_flush_cnt c = 0 then rbind (tcp_flush_with_flags c) tcp_unlock
      else if co_eom_cnt c > 3 then tcp_flush_with_flags c
      else Inr c)"

definition put_byte :: "byte \<Rightarrow> ChannelOut \<Rightarrow> ChannelOut outcome" where
  "put_byte b c =
     (if length (co_buf c) < BUF_SIZE then Inr (c\<lparr>co_buf := co_buf c @ [b]\<rparr>) else Inl Undefined_Behaviour)"

definition tcp_bin_block_start :: "ChannelOut \<Rightarrow> ChannelOut outcome" where
  "tcp_bin_block_start c =
     rbind (put_byte 3 c) (\<lambda>c.
     rbind (put_byte 3 c) (\<lambda>c.
     rbind (put_byte 0 c) (\<lambda>c.
     rbind (put_byte 0 c) (\<lambda>c.
     Inr (c\<lparr>co_bin_block := Some (length (co_buf c))\<rparr>)))))"

definition tcp_bin_block_end :: "nat \<Rightarrow> ChannelOut \<Rightarrow> ChannelOut" where
  "tcp_bin_block_end p c =
     (let len = length (co_buf c) - p in
      if len = 0 then c\<lparr>co_buf := take (length (co_buf c) - 4) (co_buf c), co_bin_block := None\<rparr>
      else c\<lparr>co_buf := (co_buf c)[p - 2 := word_of_nat (len AND 0x7f OR 0x80), p - 1 := word_of_nat (drop_bit 7 len)],
             co_bin_block := None\<rparr>)"

definition flush_if_full :: "ChannelOut \<Rightarrow> ChannelOut outcome" where
  "flush_if_full c = (if length (co_buf c) = BUF_SIZE then tcp_flush_with_flags c else Inr c)"

definition post_flush :: "ChannelOut \<Rightarrow> ChannelOut" where
  "post_flush c =
     (let c = c\<lparr>co_eom_cnt := co_eom_cnt c + 1\<rparr> in
      if co_flush_cnt c < 2 then
        let c' = c\<lparr>co_flush_cnt := co_flush_cnt c + 1\<rparr>
        in if co_flush_cnt c = 0 then tcp_lock c' else c'
      else c)"

definition escape_code :: "int \<Rightarrow> byte outcome" where
  "escape_code x =
     (if x = ESC then Inr 0 else if x = MARKER_EOM then Inr 1 else if x = MARKER_EOS then Inr 2
      else Inl Assertion_Failed)"

definition tcp_write_stream :: "ChannelOut \<Rightarrow> int \<Rightarrow> ChannelOut outcome" where
  "tcp_write_stream c x =
     (if \<not> co_zero_copy c \<or> length (co_buf c) \<ge> BUF_SIZE - 32 \<or> x < 0 then
        let c = (case co_bin_block c of Some p \<Rightarrow> tcp_bin_block_end p c | None \<Rightarrow> c) in
        rbind (flush_if_full c) (\<lambda>c.
        if x < 0 \<or> x = ESC then
          rbind (put_byte 3 c) (\<lambda>c.
          rbind (escape_code x) (\<lambda>esc.
          rbind (flush_if_full c) (\<lambda>c.
          rbind (put_byte esc c) (\<lambda>c.
          Inr (if x = MARKER_EOM then post_flush c else c)))))
        else put_byte (byte_of x) c)
      else
        rbind (if co_bin_block c = None then tcp_bin_block_start c else Inr c) (\<lambda>c.
        put_byte (byte_of x) c))"

text \<open>The macro \<^verbatim>\<open>write_stream\<close> of \<^verbatim>\<open>streams.h\<close> stores most symbols without a call.\<close>

definition chan_write_stream :: "ChannelOut \<Rightarrow> int \<Rightarrow> ChannelOut outcome" where
  "chan_write_stream c x =
     (if x > ESC \<and> length (co_buf c) < BUF_SIZE then put_byte (byte_of x) c else tcp_write_stream c x)"

definition plain_run :: "nat \<Rightarrow> byte list \<Rightarrow> nat" where
  "plain_run n src = length (takeWhile (\<lambda>b. b \<noteq> 3) (take n src))"

lemma plain_run_pos: "src \<noteq> [] \<Longrightarrow> n > 0 \<Longrightarrow> hd src \<noteq> 3 \<Longrightarrow> plain_run n src > 0"
  by (cases src; cases n) (auto simp: plain_run_def)

function tcp_write_block_stream :: "ChannelOut \<Rightarrow> byte list \<Rightarrow> ChannelOut outcome" where
  "tcp_write_block_stream c src =
     (if src = [] then Inr c
      else
        let n = min (BUF_SIZE - length (co_buf c)) (length src) in
        if n = 0 then rbind (tcp_write_stream c (uint (hd src))) (\<lambda>c. tcp_write_block_stream c (tl src))
        else if co_bin_block c \<noteq> None then
          tcp_write_block_stream (c\<lparr>co_buf := co_buf c @ take n src\<rparr>) (drop n src)
        else if hd src \<noteq> 3 then
          let k = plain_run n src
          in tcp_write_block_stream (c\<lparr>co_buf := co_buf c @ take k src\<rparr>) (drop k src)
        else rbind (tcp_write_stream c (uint (hd src))) (\<lambda>c. tcp_write_block_stream c (tl src)))"
  by pat_completeness auto
termination
proof (relation "measure (\<lambda>(c, src). length src)", goal_cases)
  case (4 c src n)
  then show ?case using plain_run_pos [of src n] by auto
qed auto

declare tcp_write_block_stream.simps [simp del]

definition new_channel_out :: ChannelOut where
  "new_channel_out = \<lparr>co_buf = [], co_bin_block = None, co_zero_copy = False, co_connected = True, co_errno = 0,
     co_flush_cnt = 0, co_eom_cnt = 0, co_lock_cnt = 1, co_queue = oq_empty\<rparr>"

section \<open>Binary blocks on the wire\<close>

lemma seven_bits: "take_bit 7 len OR (len div 128 * 128) = (len :: nat)"
proof -
  have "len div 128 * 128 = push_bit 7 (drop_bit 7 len)" by (simp add: push_bit_eq_mult drop_bit_eq_div)
  moreover have "take_bit 7 len OR push_bit 7 (drop_bit 7 len) = len"
  proof (rule bit_eqI)
    show "bit (take_bit 7 len OR push_bit 7 (drop_bit 7 len)) n = bit len n" for n
      by (cases "n < 7") (auto simp: bit_simps)
  qed
  ultimately show ?thesis by simp
qed

lemma and_7f: "len AND 0x7f = take_bit 7 (len :: nat)" "b AND 0x7f = take_bit 7 (b :: byte)"
  by (simp_all add: take_bit_eq_mask mask_eq_exp_minus_1)

lemma low_byte:
  "take_bit 7 (word_of_nat (take_bit 7 len OR 0x80) :: byte) = word_of_nat (take_bit 7 len)"
  "(word_of_nat (take_bit 7 len OR 0x80) :: byte) AND 0x80 \<noteq> 0"
proof -
  have b: "bit (0x80 :: nat) n \<longleftrightarrow> n = 7" "bit (0x80 :: byte) n \<longleftrightarrow> n = 7" for n
    using bit_exp_iff [where ?'a = nat, of 7 n] bit_exp_iff [where ?'a = byte, of 7 n] by auto
  show "take_bit 7 (word_of_nat (take_bit 7 len OR 0x80) :: byte) = word_of_nat (take_bit 7 len)"
    by (rule bit_word_eqI) (auto simp: bit_simps b)
  have "bit ((word_of_nat (take_bit 7 len OR 0x80) :: byte) AND 0x80) 7"
    by (simp add: bit_simps b)
  then show "(word_of_nat (take_bit 7 len OR 0x80) :: byte) AND 0x80 \<noteq> 0" by auto
qed

lemma high_byte:
  assumes "x < 128"
  shows "unat (word_of_nat x :: byte) = x" "take_bit 7 (word_of_nat x :: byte) = word_of_nat x"
    "(word_of_nat x :: byte) AND 0x80 = 0"
proof -
  have "take_bit 7 x = x" using assms by (simp add: take_bit_nat_eq_self)
  then have b: "bit x n \<Longrightarrow> n < 7" for n by (metis bit_take_bit_iff)
  show "unat (word_of_nat x :: byte) = x" using assms by (simp add: unat_of_nat)
  show "take_bit 7 (word_of_nat x :: byte) = word_of_nat x"
    by (rule bit_word_eqI) (use b in \<open>auto simp: bit_simps\<close>)
  have 128: "bit (0x80 :: byte) n \<longleftrightarrow> n = 7" for n using bit_exp_iff [where ?'a = byte, of 7 n] by auto
  show "(word_of_nat x :: byte) AND 0x80 = 0"
  proof (rule bit_word_eqI)
    show "bit ((word_of_nat x :: byte) AND 0x80) n = bit (0 :: byte) n" for n
      using b [of n] 128 [of n] by (auto simp: bit_simps)
  qed
qed

lemma decode_header:
  assumes "0 < len" "len < 4096"
  shows "decode start_mode [3, 3, word_of_nat (len AND 0x7f OR 0x80), word_of_nat (drop_bit 7 len)] =
    Some ([], False, 0, len)"
proof -
  let ?lo = "word_of_nat (take_bit 7 len OR 0x80) :: byte" and ?hi = "word_of_nat (drop_bit 7 len) :: byte"
  have h: "drop_bit 7 len < 128" using assms(2) by (simp add: drop_bit_eq_div)
  have hi: "unat ?hi = len div 128" "take_bit 7 ?hi = ?hi" "?hi AND 0x80 = 0"
    using high_byte [OF h] by (simp_all add: drop_bit_eq_div)
  have lo: "unat (take_bit 7 ?lo) = take_bit 7 len" unfolding low_byte
    by (simp add: take_bit_eq_mod unat_of_nat)
  have s1: "add_size 1 0 ?lo = Inr (take_bit 7 len)"
    using lo [unfolded take_bit_eq_mod] by (simp add: add_size_def and_7f lo Let_def) (simp add: take_bit_eq_mod)
  have s2: "add_size 2 (take_bit 7 len) ?hi = Inr len"
    using hi(1,2) h seven_bits [of len] by (simp add: add_size_def and_7f drop_bit_eq_div)
  show ?thesis
    using s1 s2 [unfolded numeral_2_eq_2] low_byte(2) [of len] hi(3) unfolding and_7f by (simp add: dstep_def)
qed

section \<open>Invariant and the symbols written\<close>

definition co_inv :: "ChannelOut \<Rightarrow> bool" where
  "co_inv c \<longleftrightarrow> length (co_buf c) \<le> BUF_SIZE \<and> oq_ok (co_queue c) \<and> co_connected c \<and> co_errno c = 0 \<and>
     co_lock_cnt c \<ge> 1 + of_bool (oq_busy (co_queue c)) + of_bool (co_flush_cnt c > 0)"

text \<open>Bytes \<open>w\<close> that the queue has passed on, the bytes of the queue and those of the buffer decode
  to \<open>zs\<close>, from the mode \<open>m\<close> to the mode \<open>e\<close>. The header of an open block is not yet filled in.\<close>

definition co_view :: "dmode \<Rightarrow> byte list \<Rightarrow> ChannelOut \<Rightarrow> int list \<Rightarrow> dmode \<Rightarrow> bool" where
  "co_view m w c zs e \<longleftrightarrow> (\<exists>pre us. decode m (w @ oq_pending (co_queue c) @ pre) = Some (us, e) \<and>
     (case co_bin_block c of
        None \<Rightarrow> co_buf c = pre \<and> zs = us
      | Some p \<Rightarrow> e = start_mode \<and>
          (\<exists>data. co_buf c = pre @ [3, 3, 0, 0] @ data \<and> p = length pre + 4 \<and> zs = us @ syms data)))"

lemma co_viewI:
  "co_bin_block c = None \<Longrightarrow> decode m (w @ oq_pending (co_queue c) @ co_buf c) = Some (zs, e) \<Longrightarrow> co_view m w c zs e"
  by (simp add: co_view_def)

lemma co_view_blockI:
  "co_bin_block c = Some (length pre + 4) \<Longrightarrow> decode m (w @ oq_pending (co_queue c) @ pre) = Some (us, start_mode) \<Longrightarrow>
   co_buf c = pre @ [3, 3, 0, 0] @ data \<Longrightarrow> zs = us @ syms data \<Longrightarrow> co_view m w c zs start_mode"
  unfolding co_view_def by fastforce

lemma co_view_cong:
  "co_buf c' = co_buf c \<Longrightarrow> co_bin_block c' = co_bin_block c \<Longrightarrow> co_queue c' = co_queue c \<Longrightarrow>
   co_view m w c' zs e = co_view m w c zs e"
  by (simp add: co_view_def cong: option.case_cong)

lemma co_viewD:
  "co_view m w c zs e \<Longrightarrow> co_bin_block c = None \<Longrightarrow> decode m (w @ oq_pending (co_queue c) @ co_buf c) = Some (zs, e)"
  by (auto simp: co_view_def)

lemma send_obuf_requests:
  assumes "send_obuf q bs = Inr q'"
  shows "q_queue q' \<noteq> [] \<and> length (io_requests q') = length (io_requests q) + of_bool (q_queue q = []) \<and>
    length (q_queue q') \<le> length (q_queue q) + 1"
  using assms
  by (auto simp: send_obuf_def output_queue_alloc_obuf_def output_queue_add_obuf_def add_last_buf_def more_than_one_def
      post_io_request_def output_queue_free_obuf_def Let_def assert_that_eq_Inr_iff split: list.splits if_splits)

lemma done_requests:
  assumes "output_queue_done q 0 n = Inr q'"
  shows "length (io_requests q') = length (io_requests q) + of_bool (q_queue q' \<noteq> [])"
  using assms
  by (auto simp: output_queue_done_def assert_that_eq_Inr_iff post_io_request_def output_queue_free_obuf_def Let_def
      split: list.splits if_splits)

text \<open>What is still to be done by the output half.\<close>

definition co_weight :: "ChannelOut \<Rightarrow> nat" where
  "co_weight c = 3 * length (oq_pending (co_queue c)) + length (q_queue (co_queue c)) + 4 * length (co_buf c)"

lemma flush_ok:
  assumes inv: "co_inv c" and v: "co_view m w c zs e" and b: "co_bin_block c = None"
  shows "\<exists>c'. tcp_flush_with_flags c = Inr c' \<and> co_inv c' \<and> co_view m w c' zs e \<and> co_bin_block c' = None \<and>
    co_buf c' = [] \<and> co_flush_cnt c' = co_flush_cnt c \<and> co_zero_copy c' = co_zero_copy c \<and>
    co_lock_cnt c' + of_bool (oq_busy (co_queue c)) = co_lock_cnt c + of_bool (oq_busy (co_queue c')) \<and>
    co_weight c' \<le> co_weight c"
proof (cases "co_buf c = []")
  case True
  with assms show ?thesis by (simp add: tcp_flush_with_flags_def)
next
  case False
  have i: "oq_ok (co_queue c)" "length (co_buf c) \<le> BUF_SIZE" "co_connected c" "co_errno c = 0"
    "co_lock_cnt c \<ge> 1 + of_bool (oq_busy (co_queue c)) + of_bool (co_flush_cnt c > 0)"
    using inv by (auto simp: co_inv_def)
  obtain q where q: "send_obuf (co_queue c) (co_buf c) = Inr q" "oq_ok q" "oq_pending q = oq_pending (co_queue c) @ co_buf c"
    using send_obuf_ok [OF i(1,2)] by blast
  let ?c = "(post_write_request c q)\<lparr>co_buf := [], co_eom_cnt := 0\<rparr>"
  have f: "tcp_flush_with_flags c = Inr ?c" using False b i q by (simp add: tcp_flush_with_flags_def)
  have "co_inv ?c"
    using i q send_obuf_requests [OF q(1)] by (auto simp: co_inv_def post_write_request_def tcp_lock_def oq_busy_def)
  moreover have "co_view m w ?c zs e"
    using co_viewD [OF v b] b q(3) by (intro co_viewI) (auto simp: post_write_request_def tcp_lock_def)
  moreover have "co_weight ?c \<le> co_weight c"
    using q(3) send_obuf_requests [OF q(1)] False
    by (cases "co_buf c") (auto simp: co_weight_def post_write_request_def tcp_lock_def)
  ultimately show ?thesis
    using f b send_obuf_requests [OF q(1)] by (auto simp: post_write_request_def tcp_lock_def oq_busy_def)
qed

lemma flush_if_full_ok:
  assumes "co_inv c" "co_view m w c zs e" "co_bin_block c = None"
  shows "\<exists>c'. flush_if_full c = Inr c' \<and> co_inv c' \<and> co_view m w c' zs e \<and> co_bin_block c' = None \<and>
    length (co_buf c') < BUF_SIZE \<and> co_flush_cnt c' = co_flush_cnt c \<and> co_zero_copy c' = co_zero_copy c"
  using flush_ok [OF assms] assms by (fastforce simp: flush_if_full_def co_inv_def)

lemma put_byte_ok:
  assumes "co_inv c" "co_view m w c zs e" "co_bin_block c = None" "length (co_buf c) < BUF_SIZE"
    "dstep e b = Some (out, e')"
  shows "put_byte b c = Inr (c\<lparr>co_buf := co_buf c @ [b]\<rparr>) \<and> co_inv (c\<lparr>co_buf := co_buf c @ [b]\<rparr>) \<and>
    co_view m w (c\<lparr>co_buf := co_buf c @ [b]\<rparr>) (zs @ (case out of None \<Rightarrow> [] | Some x \<Rightarrow> [x])) e'"
proof -
  have "decode e [b] = Some (case out of None \<Rightarrow> [] | Some x \<Rightarrow> [x], e')" using assms(5) by (cases out) simp_all
  with decode_append [OF co_viewD [OF assms(2,3)], of "[b]"] have
    "co_view m w (c\<lparr>co_buf := co_buf c @ [b]\<rparr>) (zs @ (case out of None \<Rightarrow> [] | Some x \<Rightarrow> [x])) e'"
    using assms(3) by (intro co_viewI) simp_all
  with assms(1,4) show ?thesis by (simp add: put_byte_def co_inv_def)
qed

lemma bin_block_end_ok:
  assumes inv: "co_inv c" and v: "co_view m w c zs e" and b: "co_bin_block c = Some p"
  shows "co_inv (tcp_bin_block_end p c)" "co_view m w (tcp_bin_block_end p c) zs start_mode"
    "co_bin_block (tcp_bin_block_end p c) = None" "co_flush_cnt (tcp_bin_block_end p c) = co_flush_cnt c"
    "co_zero_copy (tcp_bin_block_end p c) = co_zero_copy c"
proof -
  from v b obtain pre us data where p: "decode m (w @ oq_pending (co_queue c) @ pre) = Some (us, start_mode)"
    "co_buf c = pre @ [3, 3, 0, 0] @ data" "p = length pre + 4" "zs = us @ syms data"
    by (auto simp: co_view_def)
  let ?c = "tcp_bin_block_end p c"
  show "co_bin_block ?c = None" "co_flush_cnt ?c = co_flush_cnt c" "co_zero_copy ?c = co_zero_copy c" "co_inv ?c"
    using inv by (auto simp: tcp_bin_block_end_def Let_def co_inv_def)
  have len: "length data < 4096" using inv p(2) by (simp add: co_inv_def)
  show "co_view m w ?c zs start_mode"
  proof (cases "data = []")
    case True
    then have "co_buf ?c = pre" "co_queue ?c = co_queue c" "co_bin_block ?c = None"
      using p(2,3) by (auto simp: tcp_bin_block_end_def)
    with p True show ?thesis by (intro co_viewI) auto
  next
    case False
    let ?h = "[3, 3, word_of_nat (length data AND 0x7f OR 0x80), word_of_nat (drop_bit 7 (length data))] :: byte list"
    have buf: "co_buf ?c = pre @ ?h @ data" "co_queue ?c = co_queue c" "co_bin_block ?c = None"
      using p(2,3) False by (auto simp: tcp_bin_block_end_def Let_def list_update_append)
    have "decode start_mode (?h @ data) = Some (syms data, start_mode)"
      using decode_append [OF decode_header [OF _ len], of data] decode_block [of data "length data"] False by simp
    with decode_append [OF p(1), of "?h @ data"] p(4) buf show ?thesis by (intro co_viewI) simp_all
  qed
qed

text \<open>A block that is open, and a byte stored into it.\<close>

lemma put_data_ok:
  assumes "co_inv c" "co_view m w c zs e" "co_bin_block c = Some p" "length (co_buf c) + length bs \<le> BUF_SIZE"
  shows "co_inv (c\<lparr>co_buf := co_buf c @ bs\<rparr>)" "co_view m w (c\<lparr>co_buf := co_buf c @ bs\<rparr>) (zs @ syms bs) start_mode"
proof -
  show "co_inv (c\<lparr>co_buf := co_buf c @ bs\<rparr>)" using assms by (simp add: co_inv_def)
  from assms(2,3) obtain pre us data where "decode m (w @ oq_pending (co_queue c) @ pre) = Some (us, start_mode)"
    "co_buf c = pre @ [3, 3, 0, 0] @ data" "p = length pre + 4" "zs = us @ syms data"
    by (auto simp: co_view_def)
  then show "co_view m w (c\<lparr>co_buf := co_buf c @ bs\<rparr>) (zs @ syms bs) start_mode"
    using assms(3) by (intro co_view_blockI [where pre = pre and data = "data @ bs" and us = us]) (auto simp: syms_def)
qed

lemma bin_block_start_ok:
  assumes "co_inv c" "co_view m w c zs start_mode" "co_bin_block c = None" "length (co_buf c) + 4 < BUF_SIZE"
  shows "\<exists>c' p. tcp_bin_block_start c = Inr c' \<and> co_inv c' \<and> co_view m w c' zs start_mode \<and> co_bin_block c' = Some p \<and>
    length (co_buf c') < BUF_SIZE \<and> co_flush_cnt c' = co_flush_cnt c \<and> co_zero_copy c' = co_zero_copy c"
proof -
  let ?c = "c\<lparr>co_buf := co_buf c @ [3, 3, 0, 0], co_bin_block := Some (length (co_buf c) + 4)\<rparr>"
  have "co_view m w ?c zs start_mode"
    using co_viewD [OF assms(2,3)] by (intro co_view_blockI [where pre = "co_buf c" and data = "[]"]) auto
  moreover have "tcp_bin_block_start c = Inr ?c" using assms(4) by (simp add: tcp_bin_block_start_def put_byte_def)
  ultimately show ?thesis using assms(1,4) by (auto simp: co_inv_def)
qed

section \<open>Writing symbols\<close>

text \<open>What a write that succeeds leaves behind: the symbols \<open>xs\<close> behind those written before, and a
  flush event when the last of them ends a message.\<close>

definition wrote :: "dmode \<Rightarrow> byte list \<Rightarrow> ChannelOut \<Rightarrow> int list \<Rightarrow> ChannelOut \<Rightarrow> bool" where
  "wrote m w c zs c' \<longleftrightarrow> co_inv c' \<and> co_view m w c' zs start_mode \<and> co_flush_cnt c' \<ge> co_flush_cnt c \<and>
     co_zero_copy c' = co_zero_copy c"

lemma post_flush_ok:
  fixes c :: ChannelOut
  shows "co_inv c \<Longrightarrow> co_inv (post_flush c)" "co_view m w (post_flush c) zs e = co_view m w c zs e"
    "co_flush_cnt (post_flush c) > 0" "co_flush_cnt (post_flush c) \<ge> co_flush_cnt c" "co_zero_copy (post_flush c) = co_zero_copy c"
    "co_bin_block (post_flush c) = co_bin_block c"
proof -
  show "co_view m w (post_flush c) zs e = co_view m w c zs e"
    by (rule co_view_cong) (simp_all add: post_flush_def tcp_lock_def Let_def)
qed (auto simp: post_flush_def tcp_lock_def co_inv_def Let_def)

lemma write_marker_ok:
  assumes c: "co_inv c" "co_view m w c zs start_mode" "co_bin_block c = None" "length (co_buf c) < BUF_SIZE"
    and x: "escape_code x = Inr esc"
  shows "\<exists>c'. rbind (put_byte 3 c) (\<lambda>c. rbind (escape_code x) (\<lambda>esc. rbind (flush_if_full c) (\<lambda>c.
      rbind (put_byte esc c) (\<lambda>c. Inr (if x = MARKER_EOM then post_flush c else c))))) = Inr c' \<and>
    wrote m w c (zs @ [x]) c' \<and> (x = MARKER_EOM \<longrightarrow> co_flush_cnt c' > 0 \<and> co_bin_block c' = None)"
proof -
  let ?c1 = "c\<lparr>co_buf := co_buf c @ [3]\<rparr>"
  have 1: "put_byte 3 c = Inr ?c1" "co_inv ?c1" "co_view m w ?c1 zs (True, 0, 0)"
    using put_byte_ok [OF c, of 3 None "(True, 0, 0)"] by (auto simp: dstep_def)
  obtain c2 where 2: "flush_if_full ?c1 = Inr c2" "co_inv c2" "co_view m w c2 zs (True, 0, 0)" "co_bin_block c2 = None"
    "length (co_buf c2) < BUF_SIZE" "co_flush_cnt c2 = co_flush_cnt c" "co_zero_copy c2 = co_zero_copy c"
    using flush_if_full_ok [OF 1(2,3)] c(3) by auto
  let ?c3 = "c2\<lparr>co_buf := co_buf c2 @ [esc]\<rparr>"
  have "dstep (True, 0, 0) esc = Some (Some x, start_mode)"
    using x by (auto simp: escape_code_def dstep_def split: if_splits)
  from put_byte_ok [OF 2(2-5) this] have 3: "put_byte esc c2 = Inr ?c3" "co_inv ?c3" "co_view m w ?c3 (zs @ [x]) start_mode"
    by auto
  have 4: "wrote m w c (zs @ [x]) ?c3" using 3 2(6,7) by (simp add: wrote_def)
  have "wrote m w c (zs @ [x]) (post_flush ?c3) \<and> co_flush_cnt (post_flush ?c3) > 0 \<and> co_bin_block (post_flush ?c3) = None"
    using 4 2(4) post_flush_ok [where c = ?c3] by (auto simp: wrote_def intro: order_trans)
  with 1(1) x 2(1) 3(1) 4 show ?thesis by auto
qed

definition chan_sym :: "int \<Rightarrow> bool" where
  "chan_sym x \<longleftrightarrow> is_byte x \<or> x = MARKER_EOM \<or> x = MARKER_EOS"

lemma write_plain_ok:
  assumes c: "co_inv c" "co_view m w c zs start_mode" "co_bin_block c = None" "length (co_buf c) < BUF_SIZE"
    and x: "is_byte x" "x \<noteq> ESC"
  shows "\<exists>c'. put_byte (byte_of x) c = Inr c' \<and> wrote m w c (zs @ [x]) c'"
proof -
  have "uint (3 :: byte) = ESC" by simp
  with x have "byte_of x \<noteq> 3" by (metis uint_byte_of)
  then have "dstep start_mode (byte_of x) = Some (Some x, start_mode)" using x by (simp add: dstep_def)
  from put_byte_ok [OF c this] show ?thesis by (auto simp: wrote_def)
qed

text \<open>The state with the open block ended.\<close>

lemma end_block_ok:
  assumes "co_inv c" "co_view m w c zs start_mode"
  obtains c1 where "(case co_bin_block c of Some p \<Rightarrow> tcp_bin_block_end p c | None \<Rightarrow> c) = c1" "co_inv c1"
    "co_view m w c1 zs start_mode" "co_bin_block c1 = None" "co_flush_cnt c1 = co_flush_cnt c" "co_zero_copy c1 = co_zero_copy c"
proof (cases "co_bin_block c")
  case None
  with assms that show thesis by simp
next
  case (Some p)
  with bin_block_end_ok [OF assms Some] that [of "tcp_bin_block_end p c"] show thesis by simp
qed

lemma tcp_write_stream_ok:
  assumes c: "co_inv c" "co_view m w c zs start_mode" and x: "chan_sym x"
  shows "\<exists>c'. tcp_write_stream c x = Inr c' \<and> wrote m w c (zs @ [x]) c' \<and> (x = MARKER_EOM \<longrightarrow> co_flush_cnt c' > 0 \<and> co_bin_block c' = None)"
proof (cases "\<not> co_zero_copy c \<or> length (co_buf c) \<ge> BUF_SIZE - 32 \<or> x < 0")
  case True
  obtain c1 where 1: "(case co_bin_block c of Some p \<Rightarrow> tcp_bin_block_end p c | None \<Rightarrow> c) = c1" "co_inv c1"
    "co_view m w c1 zs start_mode" "co_bin_block c1 = None" "co_flush_cnt c1 = co_flush_cnt c" "co_zero_copy c1 = co_zero_copy c"
    by (rule end_block_ok [OF c])
  obtain c2 where 2: "flush_if_full c1 = Inr c2" "co_inv c2" "co_view m w c2 zs start_mode" "co_bin_block c2 = None"
    "length (co_buf c2) < BUF_SIZE" "co_flush_cnt c2 = co_flush_cnt c" "co_zero_copy c2 = co_zero_copy c"
    using flush_if_full_ok [OF 1(2-4)] 1(5,6) by auto
  have w: "wrote m w c2 (zs @ [x]) c' \<Longrightarrow> wrote m w c (zs @ [x]) c'" for c' using 2(6,7) by (simp add: wrote_def)
  note unf = tcp_write_stream_def if_P [OF True] 1(1) Let_def 2(1) rbind_Inr
  show ?thesis
  proof (cases "x < 0 \<or> x = ESC")
    case True
    then obtain esc where "escape_code x = Inr esc"
      using x by (auto simp: chan_sym_def is_byte_def escape_code_def)
    from write_marker_ok [OF 2(2-5) this] w show ?thesis unfolding unf if_P [OF True] by blast
  next
    case False
    then have "is_byte x" "x \<noteq> ESC" "x \<noteq> MARKER_EOM" using x by (auto simp: chan_sym_def)
    with write_plain_ok [OF 2(2-5)] w show ?thesis unfolding unf if_not_P [OF False] by blast
  qed
next
  case False
  then have x': "is_byte x" "x \<noteq> MARKER_EOM" "length (co_buf c) + 4 < BUF_SIZE" using x by (auto simp: chan_sym_def)
  obtain c1 p where 1: "(if co_bin_block c = None then tcp_bin_block_start c else Inr c) = Inr c1" "co_inv c1"
    "co_view m w c1 zs start_mode" "co_bin_block c1 = Some p" "length (co_buf c1) < BUF_SIZE"
    "co_flush_cnt c1 = co_flush_cnt c" "co_zero_copy c1 = co_zero_copy c"
  proof (cases "co_bin_block c")
    case None
    with bin_block_start_ok [OF c None x'(3)] that show thesis by auto
  next
    case (Some p)
    with c x'(3) that [of c p] show thesis by simp
  qed
  let ?c = "c1\<lparr>co_buf := co_buf c1 @ [byte_of x]\<rparr>"
  have "syms [byte_of x] = [x]" using x'(1) by (simp add: syms_def)
  then have "wrote m w c (zs @ [x]) ?c"
    using put_data_ok [OF 1(2-4), of "[byte_of x]"] 1(5-7) by (simp add: wrote_def)
  moreover have "tcp_write_stream c x = Inr ?c"
    unfolding tcp_write_stream_def if_not_P [OF False] 1(1) rbind_Inr using 1(5) by (simp add: put_byte_def)
  ultimately show ?thesis using x'(2) by simp
qed

text \<open>A run of bytes without \<^verbatim>\<open>ESC\<close>, outside of a block or inside of one.\<close>

lemma put_run_ok:
  assumes c: "co_inv c" "co_view m w c zs start_mode" and len: "length (co_buf c) + length bs \<le> BUF_SIZE"
    and bs: "co_bin_block c \<noteq> None \<or> list_all (\<lambda>b. b \<noteq> 3) bs"
  shows "wrote m w c (zs @ syms bs) (c\<lparr>co_buf := co_buf c @ bs\<rparr>)"
proof (cases "co_bin_block c")
  case None
  with bs have "decode start_mode bs = Some (syms bs, start_mode)" using decode_plain by blast
  with decode_append [OF co_viewD [OF c(2) None], of bs] None have
    "co_view m w (c\<lparr>co_buf := co_buf c @ bs\<rparr>) (zs @ syms bs) start_mode" by (intro co_viewI) simp_all
  with c(1) len show ?thesis by (simp add: wrote_def co_inv_def)
next
  case (Some p)
  with put_data_ok [OF c Some len] show ?thesis by (simp add: wrote_def)
qed

lemma chan_write_stream_ok:
  assumes c: "co_inv c" "co_view m w c zs start_mode" and x: "chan_sym x"
  shows "\<exists>c'. chan_write_stream c x = Inr c' \<and> wrote m w c (zs @ [x]) c' \<and> (x = MARKER_EOM \<longrightarrow> co_flush_cnt c' > 0 \<and> co_bin_block c' = None)"
proof (cases "x > ESC \<and> length (co_buf c) < BUF_SIZE")
  case True
  then have x': "is_byte x" "x \<noteq> ESC" using x by (auto simp: chan_sym_def)
  have "uint (3 :: byte) = ESC" by simp
  with x' have "byte_of x \<noteq> 3" by (metis uint_byte_of)
  with put_run_ok [OF c, of "[byte_of x]"] True x' show ?thesis
    by (auto simp: chan_write_stream_def put_byte_def syms_def)
next
  case False
  with tcp_write_stream_ok [OF c x] show ?thesis unfolding chan_write_stream_def if_not_P [OF False] by blast
qed

lemma take_plain_run: "take (plain_run n src) src = takeWhile (\<lambda>b. b \<noteq> 3) (take n src)"
  unfolding plain_run_def by (induction src arbitrary: n) (auto simp: take_Cons split: nat.splits)

lemma wrote_trans: "wrote m w c zs c1 \<Longrightarrow> wrote m w c1 zs' c2 \<Longrightarrow> wrote m w c zs' c2"
  by (auto simp: wrote_def)

lemma tcp_write_block_stream_ok:
  "co_inv c \<Longrightarrow> co_view m w c zs start_mode \<Longrightarrow>
   \<exists>c'. tcp_write_block_stream c src = Inr c' \<and> wrote m w c (zs @ syms src) c'"
proof (induction "length src" arbitrary: c zs src rule: less_induct)
  case less
  note c = less.prems
  \<comment> \<open>the first \<open>k\<close> bytes are written, and the loop goes on\<close>
  have round: ?case if "0 < k" "src \<noteq> []" "wrote m w c (zs @ syms (take k src)) c1"
      "tcp_write_block_stream c src = tcp_write_block_stream c1 (drop k src)" for k c1
  proof -
    have l: "length (drop k src) < length src" using that(1,2) by simp
    have "co_inv c1" "co_view m w c1 (zs @ syms (take k src)) start_mode" using that(3) by (auto simp: wrote_def)
    from less.hyps [OF l this] obtain c2 where "tcp_write_block_stream c1 (drop k src) = Inr c2"
      "wrote m w c1 ((zs @ syms (take k src)) @ syms (drop k src)) c2" by blast
    moreover have "(zs @ syms (take k src)) @ syms (drop k src) = zs @ syms src"
      by (metis append.assoc append_take_drop_id map_append syms_def)
    ultimately show ?thesis using wrote_trans [OF that(3)] that(4) by metis
  qed
  show ?case
  proof (cases "src = []")
    case True
    with c show ?thesis by (simp add: tcp_write_block_stream.simps [of c "[]"] wrote_def)
  next
    case False
    define n where "n = min (BUF_SIZE - length (co_buf c)) (length src)"
    have nn: "n \<le> BUF_SIZE - length (co_buf c)" "n \<le> length src" by (auto simp: n_def)
    note unf = tcp_write_block_stream.simps [of c src] if_not_P [OF False] Let_def n_def [symmetric]
    have hd: "syms (take 1 src) = [uint (hd src)]" using False by (cases src) (auto simp: syms_def)
    have sym: "chan_sym (uint (hd src))" by (simp add: chan_sym_def)
    obtain c1 where 1: "tcp_write_stream c (uint (hd src)) = Inr c1" "wrote m w c (zs @ syms (take 1 src)) c1"
      unfolding hd using tcp_write_stream_ok [OF c sym] by blast
    have tl: "drop 1 src = tl src" by (simp add: drop_Suc)
    consider (call) "n = 0 \<or> co_bin_block c = None \<and> hd src = 3" | (block) "n > 0" "co_bin_block c \<noteq> None"
      | (run) "n > 0" "co_bin_block c = None" "hd src \<noteq> 3" by blast
    then show ?thesis
    proof cases
      case call
      then have "tcp_write_block_stream c src = tcp_write_block_stream c1 (drop 1 src)"
        unfolding unf tl using 1(1) by auto
      from round [OF _ False 1(2) this] show ?thesis by simp
    next
      case block
      have "wrote m w c (zs @ syms (take n src)) (c\<lparr>co_buf := co_buf c @ take n src\<rparr>)"
        by (rule put_run_ok [OF c]) (use block nn c(1) in \<open>auto simp: co_inv_def\<close>)
      moreover have "tcp_write_block_stream c src =
          tcp_write_block_stream (c\<lparr>co_buf := co_buf c @ take n src\<rparr>) (drop n src)"
        unfolding unf using block by simp
      ultimately show ?thesis using round [OF block(1) False] by blast
    next
      case run
      let ?k = "plain_run n src"
      have t: "take ?k src = takeWhile (\<lambda>b. b \<noteq> 3) (take n src)"
        by (rule take_plain_run)
      have k: "?k \<le> n" unfolding plain_run_def using length_takeWhile_le [of _ "take n src"] by (simp add: le_trans)
      have "wrote m w c (zs @ syms (take ?k src)) (c\<lparr>co_buf := co_buf c @ take ?k src\<rparr>)"
        by (rule put_run_ok [OF c]) (use k [unfolded plain_run_def] nn c(1) in \<open>auto simp: co_inv_def t list_all_iff dest: set_takeWhileD\<close>)
      moreover have "tcp_write_block_stream c src =
          tcp_write_block_stream (c\<lparr>co_buf := co_buf c @ take ?k src\<rparr>) (drop ?k src)"
        unfolding unf using run by simp
      ultimately show ?thesis using round [OF plain_run_pos [OF False run(1,3)] False] by blast
    qed
  qed
qed

section \<open>Events\<close>

lemma flush_event_ok:
  assumes inv: "co_inv c" and v: "co_view m w c zs start_mode" and b: "co_bin_block c = None" and f: "co_flush_cnt c > 0"
  shows "\<exists>c'. tcp_flush_event c = Inr c' \<and> co_inv c' \<and> co_view m w c' zs start_mode \<and>
    co_flush_cnt c' = co_flush_cnt c - 1 \<and> (co_flush_cnt c' = 0 \<longrightarrow> co_buf c' = []) \<and> co_bin_block c' = None \<and>
    co_weight c' \<le> co_weight c"
proof -
  let ?c = "c\<lparr>co_flush_cnt := co_flush_cnt c - 1\<rparr>"
  have v': "co_view m w ?c zs start_mode" using v co_view_cong [of ?c c m w zs start_mode] by simp
  have i: "co_inv ?c" using inv f by (auto simp: co_inv_def)
  obtain c1 where c1: "tcp_flush_with_flags ?c = Inr c1" "co_inv c1" "co_view m w c1 zs start_mode" "co_buf c1 = []"
    "co_flush_cnt c1 = co_flush_cnt c - 1"
    "co_lock_cnt c1 + of_bool (oq_busy (co_queue c)) = co_lock_cnt c + of_bool (oq_busy (co_queue c1))"
    "co_bin_block c1 = None" "co_weight c1 \<le> co_weight c"
    using flush_ok [OF i v'] b by (auto simp: co_weight_def)
  have l: "co_lock_cnt c1 \<ge> 2 + of_bool (oq_busy (co_queue c1))"
    using c1(6) inv f unfolding co_inv_def by (simp del: of_bool_eq_iff)
  show ?thesis
  proof (cases "co_flush_cnt ?c = 0")
    case True
    let ?c2 = "c1\<lparr>co_lock_cnt := co_lock_cnt c1 - 1\<rparr>"
    have "co_inv ?c2" using c1(2,5) l True by (auto simp: co_inv_def)
    moreover have "co_view m w ?c2 zs start_mode" using c1(3) co_view_cong [of ?c2 c1 m w zs start_mode] by simp
    moreover have "tcp_flush_event c = Inr ?c2"
      using True c1(1,5) l by (simp add: tcp_flush_event_def tcp_unlock_def)
    ultimately show ?thesis using c1(4,5,7,8) by (simp add: co_weight_def)
  next
    case False
    then show ?thesis using c1 i v' b by (auto simp: tcp_flush_event_def Let_def co_weight_def)
  qed
qed

text \<open>The transport completes \<open>n\<close> bytes of the outstanding request.\<close>

lemma done_write_request_ok:
  assumes inv: "co_inv c" and v: "co_view m w c zs e" and b: "oq_busy (co_queue c)" and n: "n \<le> length (oq_request (co_queue c))"
  shows "\<exists>c'. done_write_request c 0 n = Inr c' \<and> co_inv c' \<and> co_view m (w @ take n (oq_request (co_queue c))) c' zs e \<and>
    co_flush_cnt c' = co_flush_cnt c \<and> co_buf c' = co_buf c \<and> co_bin_block c' = co_bin_block c \<and>
    output_queue_done (co_queue c) 0 n = Inr (co_queue c')"
proof -
  let ?r = "oq_request (co_queue c)"
  have ok: "oq_ok (co_queue c)" using inv by (simp add: co_inv_def)
  obtain q where q: "output_queue_done (co_queue c) 0 n = Inr q" "oq_ok q" "oq_pending q = drop n (oq_pending (co_queue c))"
    using output_queue_done_ok [OF ok b n] by blast
  obtain rest where rest: "oq_pending (co_queue c) = ?r @ rest" using oq_request_prefix [OF ok b] by blast
  have p: "(w @ take n ?r) @ oq_pending q @ x = w @ oq_pending (co_queue c) @ x" for x using q(3) rest n by simp
  let ?c = "post_write_request c q"
  let ?d = "?c\<lparr>co_lock_cnt := co_lock_cnt ?c - 1\<rparr>"
  note r = done_requests [OF q(1)]
  have d: "done_write_request c 0 n = Inr ?d"
    using q(1) inv by (auto simp: done_write_request_def tcp_unlock_def post_write_request_def tcp_lock_def co_inv_def)
  have "co_inv ?d"
    using inv b r q(2) by (auto simp: co_inv_def post_write_request_def tcp_lock_def oq_busy_def)
  moreover have f: "co_buf ?d = co_buf c" "co_bin_block ?d = co_bin_block c" "co_queue ?d = q" "co_flush_cnt ?d = co_flush_cnt c"
    by (simp_all add: post_write_request_def tcp_lock_def)
  moreover have "co_view m (w @ take n ?r) ?d zs e"
    using v unfolding co_view_def f p by simp
  ultimately show ?thesis using d q(1) by simp
qed

section \<open>Property\<close>

text \<open>The operations of a client of the output stream.\<close>

datatype write_op = W_Sym int | W_Block "byte list"

fun do_write :: "write_op \<Rightarrow> ChannelOut \<Rightarrow> ChannelOut outcome" where
  "do_write (W_Sym x) c = chan_write_stream c x"
| "do_write (W_Block bs) c = tcp_write_block_stream c bs"

fun do_writes :: "write_op list \<Rightarrow> ChannelOut \<Rightarrow> ChannelOut outcome" where
  "do_writes [] c = Inr c"
| "do_writes (op # ops) c = rbind (do_write op c) (do_writes ops)"

fun op_syms :: "write_op \<Rightarrow> int list" where
  "op_syms (W_Sym x) = [x]"
| "op_syms (W_Block bs) = syms bs"

lemma do_write_ok:
  assumes "co_inv c" "co_view m w c zs start_mode" "list_all chan_sym (op_syms op)"
  shows "\<exists>c'. do_write op c = Inr c' \<and> wrote m w c (zs @ op_syms op) c' \<and> (op = W_Sym MARKER_EOM \<longrightarrow> co_flush_cnt c' > 0 \<and> co_bin_block c' = None)"
  using chan_write_stream_ok [OF assms(1,2)] tcp_write_block_stream_ok [OF assms(1,2)] assms(3)
  by (cases op) auto

lemma do_writes_ok:
  assumes "co_inv c" "co_view m w c zs start_mode" "list_all chan_sym (concat (map op_syms ops))"
  shows "\<exists>c'. do_writes ops c = Inr c' \<and> wrote m w c (zs @ concat (map op_syms ops)) c'"
  using assms
proof (induction ops arbitrary: c zs)
  case Nil
  then show ?case by (simp add: wrote_def)
next
  case (Cons op ops)
  obtain c1 where 1: "do_write op c = Inr c1" "wrote m w c (zs @ op_syms op) c1"
    using do_write_ok [OF Cons.prems(1,2), of op] Cons.prems(3) by auto
  then have "co_inv c1" "co_view m w c1 (zs @ op_syms op) start_mode" by (auto simp: wrote_def)
  from Cons.IH [OF this] Cons.prems(3) 1 wrote_trans [OF 1(2)] show ?case by auto
qed

text \<open>Bytes that have been decoded are no longer needed.\<close>

lemma co_view_split:
  assumes "co_view m (a @ b) c zs e"
  obtains as m1 bs where "decode m a = Some (as, m1)" "co_view m1 b c bs e" "zs = as @ bs"
proof -
  from assms obtain pre us where d: "decode m (a @ b @ oq_pending (co_queue c) @ pre) = Some (us, e)"
    and r: "case co_bin_block c of None \<Rightarrow> co_buf c = pre \<and> zs = us | Some p \<Rightarrow> e = start_mode \<and>
      (\<exists>data. co_buf c = pre @ [3, 3, 0, 0] @ data \<and> p = length pre + 4 \<and> zs = us @ syms data)"
    by (auto simp: co_view_def)
  from d obtain as m1 bs where 1: "decode m a = Some (as, m1)"
    "decode m1 (b @ oq_pending (co_queue c) @ pre) = Some (bs, e)" "us = as @ bs"
    by (rule decode_splitD)
  show thesis
  proof (cases "co_bin_block c")
    case None
    with r 1 that [of as m1 bs] show thesis by (auto simp: co_view_def)
  next
    case (Some p)
    with r obtain data where "e = start_mode" "co_buf c = pre @ [3, 3, 0, 0] @ data" "p = length pre + 4" "zs = us @ syms data"
      by auto
    with Some 1 that [of as m1 "bs @ syms data"] co_view_blockI [of c pre m1 b bs data] show thesis by simp
  qed
qed

lemma co_view_join:
  assumes "decode m a = Some (as, m1)" "co_view m1 b c bs e"
  shows "co_view m (a @ b) c (as @ bs) e"
proof -
  have "decode m (a @ b @ oq_pending (co_queue c) @ pre) = Some (as @ us, e')"
    if "decode m1 (b @ oq_pending (co_queue c) @ pre) = Some (us, e')" for pre us e'
    using decode_append [OF assms(1), of "b @ oq_pending (co_queue c) @ pre"] that by simp
  with assms(2) show ?thesis unfolding co_view_def by (fastforce split: option.splits)
qed

lemma new_channel_out_ok: "co_inv (new_channel_out\<lparr>co_zero_copy := zc\<rparr>)"
    "co_view start_mode [] (new_channel_out\<lparr>co_zero_copy := zc\<rparr>) [] start_mode"
  using oq_empty_ok by (auto simp: new_channel_out_def co_inv_def co_view_def oq_busy_def oq_empty_def)

text \<open>C25: the bytes that a channel sends for any sequence of single symbols and blocks, with or without
  binary blocks, decode to exactly these symbols: after the block in progress is ended and the buffer
  flushed, the output queue holds an encoding of what was written. No store leaves the buffer.\<close>

theorem channel_output_encodes:
  assumes "list_all chan_sym (concat (map op_syms ops))"
  shows "\<exists>c c'. do_writes ops (new_channel_out\<lparr>co_zero_copy := zc\<rparr>) = Inr c \<and>
    tcp_flush_with_flags (case co_bin_block c of Some p \<Rightarrow> tcp_bin_block_end p c | None \<Rightarrow> c) = Inr c' \<and>
    decode start_mode (oq_pending (co_queue c')) = Some (concat (map op_syms ops), start_mode)"
proof -
  obtain c where c: "do_writes ops (new_channel_out\<lparr>co_zero_copy := zc\<rparr>) = Inr c" "co_inv c"
    "co_view start_mode [] c (concat (map op_syms ops)) start_mode"
    using do_writes_ok [OF new_channel_out_ok assms, of zc] by (auto simp: wrote_def)
  obtain c1 where 1: "(case co_bin_block c of Some p \<Rightarrow> tcp_bin_block_end p c | None \<Rightarrow> c) = c1" "co_inv c1"
    "co_view start_mode [] c1 (concat (map op_syms ops)) start_mode" "co_bin_block c1 = None"
    using end_block_ok [OF c(2,3)] by blast
  obtain c' where c': "tcp_flush_with_flags c1 = Inr c'" "co_view start_mode [] c' (concat (map op_syms ops)) start_mode"
    "co_bin_block c' = None" "co_buf c' = []"
    using flush_ok [OF 1(2-4)] by blast
  with c(1) 1(1) co_viewD [OF c'(2,3)] show ?thesis by auto
qed

theorem channel_output_encodes_witness:
  "\<exists>c c'. do_writes [W_Sym 69, W_Block [3, 1, 2], W_Sym 3, W_Sym MARKER_EOM] (new_channel_out\<lparr>co_zero_copy := True\<rparr>) = Inr c \<and>
    tcp_flush_with_flags (case co_bin_block c of Some p \<Rightarrow> tcp_bin_block_end p c | None \<Rightarrow> c) = Inr c' \<and>
    decode start_mode (oq_pending (co_queue c')) = Some ([69, 3, 1, 2, 3, MARKER_EOM], start_mode)"
  using channel_output_encodes [of "[W_Sym 69, W_Block [3, 1, 2], W_Sym 3, W_Sym MARKER_EOM]" True]
  by (simp add: chan_sym_def is_byte_def syms_def del: do_writes.simps)

end
