(* ===== verification/Channel.thy ===== *)
theory Channel
  imports InputChannel ChannelOut
begin

text \<open>
  Two agents connected by a TCP channel: the output half of one (\<^verbatim>\<open>ChannelOut\<close>), the bytes in
  transit, and the input half of the other (\<^verbatim>\<open>InputChannel\<close>). The writer writes symbols and
  blocks, its event queue runs the posted flush events (between messages, when no binary block is
  open), the transport completes write requests in pieces, and the reader's side does what it does.
  Together they are one more \<open>symbol_channel\<close>: what is written is read, in order.
\<close>

section \<open>The system\<close>

datatype link_op = L_Write write_op | L_Flush | L_Transmit nat | L_In ib_op

type_synonym link = "ChannelOut \<times> channel_in"

definition msg_sym :: "int \<Rightarrow> bool" where
  "msg_sym x \<longleftrightarrow> is_byte x \<or> x = MARKER_EOM"

definition write_ok :: "write_op \<Rightarrow> bool" where
  "write_ok op \<longleftrightarrow> list_all msg_sym (op_syms op)"

fun link_exec :: "link_op \<Rightarrow> link \<Rightarrow> (int list \<times> link) outcome" where
  "link_exec (L_Write op) (c, i) =
     (if write_ok op then rbind (do_write op c) (\<lambda>c. Inr ([], c, i)) else Inr ([], c, i))"
| "link_exec L_Flush (c, i) =
     (if co_flush_cnt c > 0 \<and> co_bin_block c = None then rbind (tcp_flush_event c) (\<lambda>c. Inr ([], c, i))
      else Inr ([], c, i))"
| "link_exec (L_Transmit n) (c, w, s) =
     (if oq_busy (co_queue c) then
        let bytes = take n (oq_request (co_queue c))
        in rbind (done_write_request c 0 (length bytes)) (\<lambda>c. Inr ([], c, w @ bytes, s))
      else Inr ([], c, w, s))"
| "link_exec (L_In op) (c, i) = rbind (ib_exec op i) (\<lambda>(outs, i). Inr (outs, c, i))"

fun link_ins :: "link_op \<Rightarrow> int list" where
  "link_ins (L_Write op) = (if write_ok op then op_syms op else [])"
| "link_ins _ = []"

fun link_enabled :: "link_op \<Rightarrow> link \<Rightarrow> bool" where
  "link_enabled (L_Write op) (c, i) = False"
| "link_enabled L_Flush (c, i) = (co_flush_cnt c > 0 \<and> co_bin_block c = None)"
| "link_enabled (L_Transmit n) (c, i) = (oq_busy (co_queue c) \<and> n \<ge> BUF_SIZE)"
| "link_enabled (L_In op) (c, i) = ib_enabled op i"

text \<open>A message that has been written completely is in the queue, or a flush event is posted.\<close>

definition flush_posted :: "ChannelOut \<Rightarrow> int list \<Rightarrow> bool" where
  "flush_posted c ys \<longleftrightarrow> (ys \<noteq> [] \<and> last ys = MARKER_EOM \<longrightarrow>
     co_bin_block c = None \<and> (co_buf c = [] \<or> co_flush_cnt c > 0))"

definition link_view :: "link \<Rightarrow> int list \<Rightarrow> bool" where
  "link_view = (\<lambda>(c, w, s) zs. \<exists>xs ys. ib_ok s xs \<and> co_inv c \<and> co_view (imode s) w c ys start_mode \<and>
     MARKER_EOS \<notin> set ys \<and> flush_posted c zs \<and> zs = xs @ ys)"

definition link_weight :: "link \<Rightarrow> nat" where
  "link_weight = (\<lambda>(c, i). ib_weight i + co_weight c + co_flush_cnt c)"

lemma link_viewI:
  "ib_ok s xs \<Longrightarrow> co_inv c \<Longrightarrow> co_view (imode s) w c ys start_mode \<Longrightarrow> MARKER_EOS \<notin> set ys \<Longrightarrow>
   flush_posted c zs \<Longrightarrow> zs = xs @ ys \<Longrightarrow> link_view (c, w, s) zs"
  unfolding link_view_def by blast

text \<open>One operation keeps the queue and makes progress when it has something to do.\<close>

abbreviation link_step_ok :: "link_op \<Rightarrow> link \<Rightarrow> int list \<Rightarrow> bool" where
  "link_step_ok op s zs \<equiv> (\<exists>outs s' ys. link_exec op s = Inr (outs, s') \<and> zs @ link_ins op = outs @ ys \<and> link_view s' ys \<and>
     (link_enabled op s \<longrightarrow> link_weight s' < link_weight s + 2 * length outs))"

lemma write_step:
  assumes v: "link_view (c, w, s) zs"
  shows "link_step_ok (L_Write op) (c, w, s) zs"
proof (cases "write_ok op")
  case True
  from v obtain xs ys where u: "ib_ok s xs" "co_inv c" "co_view (imode s) w c ys start_mode" "MARKER_EOS \<notin> set ys"
    "flush_posted c zs" "zs = xs @ ys" by (auto simp: link_view_def)
  have sy: "list_all chan_sym (op_syms op)" "MARKER_EOS \<notin> set (op_syms op)"
    using True by (auto simp: write_ok_def msg_sym_def chan_sym_def is_byte_def list_all_iff)
  from do_write_ok [OF u(2,3) sy(1)] obtain c' where c': "do_write op c = Inr c'"
    "wrote (imode s) w c (ys @ op_syms op) c'" "op = W_Sym MARKER_EOM \<longrightarrow> co_flush_cnt c' > 0 \<and> co_bin_block c' = None"
    by blast
  have "flush_posted c' (zs @ op_syms op)"
  proof (cases op)
    case (W_Sym x)
    with c'(3) show ?thesis by (auto simp: flush_posted_def)
  next
    case (W_Block bs)
    show ?thesis
    proof (cases "bs = []")
      case True
      with c'(1) W_Block u(5) show ?thesis by (simp add: tcp_write_block_stream.simps [of c "[]"])
    next
      case False
      then have "last (syms bs) \<ge> 0" by (simp add: syms_def last_map)
      with False W_Block show ?thesis by (auto simp: flush_posted_def syms_def)
    qed
  qed
  with u(1,4,6) sy(2) c'(2) have "link_view (c', w, s) (zs @ op_syms op)"
    by (intro link_viewI) (auto simp: wrote_def)
  with True c'(1) show ?thesis by simp
qed (use v in simp)

lemma flush_step:
  assumes v: "link_view (c, w, s) zs"
  shows "link_step_ok L_Flush (c, w, s) zs"
proof (cases "co_flush_cnt c > 0 \<and> co_bin_block c = None")
  case True
  from v obtain xs ys where u: "ib_ok s xs" "co_inv c" "co_view (imode s) w c ys start_mode" "MARKER_EOS \<notin> set ys"
    "zs = xs @ ys" by (auto simp: link_view_def)
  from True have "co_bin_block c = None" "co_flush_cnt c > 0" by simp_all
  from flush_event_ok [OF u(2,3) this] obtain c' where c': "tcp_flush_event c = Inr c'" "co_inv c'"
    "co_view (imode s) w c' ys start_mode" "co_flush_cnt c' = co_flush_cnt c - 1" "co_flush_cnt c' = 0 \<longrightarrow> co_buf c' = []"
    "co_bin_block c' = None" "co_weight c' \<le> co_weight c"
    by (elim exE conjE) (rule that; assumption)
  have "flush_posted c' zs" using c'(5,6) by (auto simp: flush_posted_def)
  with u c' have "link_view (c', w, s) zs" by (intro link_viewI)
  with True c' show ?thesis by (auto simp: link_weight_def)
qed (use v in auto)

lemma transmit_step:
  assumes v: "link_view (c, w, s) zs"
  shows "link_step_ok (L_Transmit n) (c, w, s) zs"
proof (cases "oq_busy (co_queue c)")
  case True
  from v obtain xs ys where u: "ib_ok s xs" "co_inv c" "co_view (imode s) w c ys start_mode" "MARKER_EOS \<notin> set ys"
    "flush_posted c zs" "zs = xs @ ys" by (auto simp: link_view_def)
  let ?r = "oq_request (co_queue c)"
  let ?b = "take n ?r"
  have ok: "oq_ok (co_queue c)" using u(2) by (simp add: co_inv_def)
  have t: "take (length ?b) ?r = ?b" by (simp add: min_def)
  from done_write_request_ok [OF u(2,3) True, of "length ?b"] obtain c' where
    c': "done_write_request c 0 (length ?b) = Inr c'" "co_inv c'" "co_view (imode s) (w @ ?b) c' ys start_mode"
    "co_flush_cnt c' = co_flush_cnt c" "co_buf c' = co_buf c" "co_bin_block c' = co_bin_block c"
    "output_queue_done (co_queue c) 0 (length ?b) = Inr (co_queue c')" unfolding t by auto
  have "flush_posted c' zs" using u(5) c'(4-6) by (simp add: flush_posted_def)
  with u c' have l: "link_view (c', w @ ?b, s) zs" by (intro link_viewI)
  have "link_weight (c', w @ ?b, s) < link_weight (c, w, s)" if "n \<ge> BUF_SIZE"
  proof -
    have b: "?b = ?r" using that oq_request_le [OF ok True] by simp
    from output_queue_done_full [OF ok True] c'(7) have
      "oq_pending (co_queue c) = ?r @ oq_pending (co_queue c')" "length (q_queue (co_queue c')) = length (q_queue (co_queue c)) - 1"
      unfolding b by auto
    moreover have "length (q_queue (co_queue c)) - 1 < length (q_queue (co_queue c))" using True by (simp add: oq_busy_def)
    ultimately show ?thesis unfolding b using c'(4,5) by (simp add: link_weight_def ib_weight_def co_weight_def del: length_greater_0_conv)
  qed
  with True l c'(1) show ?thesis by (auto simp: Let_def)
qed (use v in auto)

lemma in_step:
  assumes v: "link_view (c, w, s) zs"
  shows "link_step_ok (L_In op) (c, w, s) zs"
proof -
  from v obtain xs ys where u: "ib_ok s xs" "co_inv c" "co_view (imode s) w c ys start_mode" "MARKER_EOS \<notin> set ys"
    "flush_posted c zs" "zs = xs @ ys" by (auto simp: link_view_def)
  from u(3) have "co_view (imode s) (w @ []) c ys start_mode" by simp
  then obtain as m1 bs where d: "decode (imode s) w = Some (as, m1)" "co_view m1 [] c bs start_mode" "ys = as @ bs"
    by (rule co_view_split)
  have "ib_view_to m1 (w, s) (xs @ as)" using u(1,4) d by (auto simp: ib_view_to_def)
  from ib_exec_ok [OF this, of op] obtain outs w' s' zs' where
    e: "ib_exec op (w, s) = Inr (outs, w', s')" "xs @ as = outs @ zs'" "ib_view_to m1 (w', s') zs'"
      "ib_enabled op (w, s) \<longrightarrow> ib_weight (w', s') < ib_weight (w, s) + 2 * length outs"
    by (metis surj_pair)
  from e(3) obtain xs' as' where 1: "ib_ok s' xs'" "decode (imode s') w' = Some (as', m1)" "MARKER_EOS \<notin> set as'" "zs' = xs' @ as'"
    by (auto simp: ib_view_to_def)
  have 2: "co_view (imode s') w' c (as' @ bs) start_mode" using co_view_join [OF 1(2) d(2)] by simp
  have z: "zs = outs @ xs' @ as' @ bs" using u(6) d(3) e(2) 1(4) by (metis append.assoc)
  then have "flush_posted c (xs' @ as' @ bs)" using u(5) by (auto simp: flush_posted_def)
  with 1 2 u(2,4) d(3) have "link_view (c, w', s') (xs' @ as' @ bs)" by (intro link_viewI) auto
  with z e(1,4) show ?thesis by (auto simp: link_weight_def)
qed

lemma link_exec_ok:
  assumes v: "link_view s zs"
  shows "link_step_ok op s zs"
proof -
  obtain c w t where s: "s = (c, w, t)" by (cases s)
  note steps = write_step flush_step transmit_step in_step
  show ?thesis unfolding s by (cases op) (simp only:, rule steps [OF v [unfolded s]])+
qed

interpretation link: symbol_channel link_exec link_view link_ins link_enabled link_weight
proof
  show "\<exists>outs s' ys. link_exec op s = Inr (outs, s') \<and> xs @ link_ins op = outs @ ys \<and> link_view s' ys"
    if "link_view s xs" for s xs op using link_exec_ok [OF that, of op] by blast
  show "link_weight s' < link_weight s + 2 * length outs"
    if "link_view s xs" "link_enabled op s" "link_exec op s = Inr (outs, s')" for s xs op outs s'
    using link_exec_ok [OF that(1), of op] that(2,3) by auto
  show "link_ins op = []" if "link_enabled op s" for op s
    using that by (cases s; cases op) auto
qed

lemma new_link_ok:
  assumes "start_channel = Inr s0"
  shows "link_view (new_channel_out\<lparr>co_zero_copy := zc\<rparr>, [], s0) []"
proof -
  from start_channel_ok obtain s where s: "start_channel = Inr s" "ib_ok s []" "imode s = start_mode" by blast
  have "s = s0" using s(1) [unfolded assms] by simp
  with s have "ib_ok s0 []" "imode s0 = start_mode" by simp_all
  with new_channel_out_ok [of zc] show ?thesis by (auto simp: link_view_def flush_posted_def)
qed

lemma link_stuck_delivered:
  assumes v: "link_view s zs" and stuck: "\<forall>op. \<not> link_enabled op s" and l: "\<not> ib_long_msg (snd (snd s))"
    and whole: "zs = [] \<or> last zs = MARKER_EOM"
  shows "zs = []"
proof (rule ccontr)
  assume ne: "zs \<noteq> []"
  obtain c w t where s: "s = (c, w, t)" by (cases s)
  from v obtain xs ys where u: "ib_ok t xs" "co_inv c" "co_view (imode t) w c ys start_mode" "MARKER_EOS \<notin> set ys"
    "flush_posted c zs" "zs = xs @ ys" by (auto simp: s link_view_def)
  have nf: "\<not> (co_flush_cnt c > 0 \<and> co_bin_block c = None)" "\<not> oq_busy (co_queue c)" "\<forall>op. \<not> ib_enabled op (w, t)"
    using stuck [rule_format, of L_Flush] stuck [rule_format, of "L_Transmit BUF_SIZE"] stuck [rule_format, of "L_In op" for op]
    by (auto simp: s)
  with u(5) ne whole have b: "co_bin_block c = None" "co_buf c = []" by (auto simp: flush_posted_def)
  have "oq_pending (co_queue c) = []" using nf(2) by (simp add: oq_busy_def oq_pending_def)
  with co_viewD [OF u(3) b(1)] b(2) have "decode (imode t) w = Some (ys, start_mode)" by simp
  with u have "ib_view (w, t) zs" by (auto simp: ib_view_def ib_view_to_def)
  from stuck_all_delivered [OF this nf(3)] l whole ne show False by (simp add: s)
qed

section \<open>Properties\<close>

abbreviation run_link :: "link_op list \<Rightarrow> link \<Rightarrow> (int list \<times> link) outcome" where
  "run_link \<equiv> link.exec_all"

abbreviation link_written :: "link_op list \<Rightarrow> int list" where
  "link_written ops \<equiv> concat (map link_ins ops)"

text \<open>C1: two agents on a new connection: for every interleaving of writes, flush events, partial
  transmissions, partial receptions, dispatched messages, reads and peeks no assertion fails, no
  store leaves a buffer, and the symbols read are a prefix of the symbols written. When nothing more
  can be done and the last message is complete, they are all of them (unless a message exceeds the
  largest input buffer).\<close>

theorem channel_end_to_end:
  "\<exists>s0 outs c w s rest. start_channel = Inr s0 \<and>
    run_link ops (new_channel_out\<lparr>co_zero_copy := zc\<rparr>, [], s0) = Inr (outs, c, w, s) \<and>
    link_written ops = outs @ rest \<and>
    ((\<exists>op. link_enabled op (c, w, s)) \<or> ib_long_msg s \<or> link_written ops \<noteq> [] \<and> last (link_written ops) \<noteq> MARKER_EOM \<or>
     outs = link_written ops)"
proof -
  obtain s0 where s0: "start_channel = Inr s0" using start_channel_ok by blast
  from link.exec_all_ok [OF new_link_ok [OF s0], of ops zc] obtain outs s rest where
    r: "run_link ops (new_channel_out\<lparr>co_zero_copy := zc\<rparr>, [], s0) = Inr (outs, s)" "link_written ops = outs @ rest"
      "link_view s rest" by auto
  have "rest = []" if "\<forall>op. \<not> link_enabled op s" "\<not> ib_long_msg (snd (snd s))"
      "link_written ops = [] \<or> last (link_written ops) = MARKER_EOM"
    using link_stuck_delivered [OF r(3) that(1,2)] that(3) r(2) by (cases "rest = []") auto
  with s0 r(1,2) show ?thesis by (cases s) fastforce
qed

text \<open>C2: the connection does not stall: after any run in which the last message is complete, the two
  agents can go on, without another write, until the reader has got everything that was written, or
  a message exceeds the largest input buffer.\<close>

theorem channel_end_to_end_completes:
  assumes "link_written ops = [] \<or> last (link_written ops) = MARKER_EOM"
  shows "\<exists>s0 ops' outs c w s. start_channel = Inr s0 \<and> link_written ops' = [] \<and>
    run_link (ops @ ops') (new_channel_out\<lparr>co_zero_copy := zc\<rparr>, [], s0) = Inr (outs, c, w, s) \<and>
    (outs = link_written ops \<or> ib_long_msg s)"
proof -
  obtain s0 where s0: "start_channel = Inr s0" using start_channel_ok by blast
  from link.exec_all_ok [OF new_link_ok [OF s0], of ops zc] obtain outs s rest where
    r: "run_link ops (new_channel_out\<lparr>co_zero_copy := zc\<rparr>, [], s0) = Inr (outs, s)" "link_written ops = outs @ rest"
      "link_view s rest" by auto
  from link.exec_until_stuck [OF r(3)] obtain ops' outs' s' rest' where
    q: "run_link ops' s = Inr (outs', s')" "link_written ops' = []" "rest = outs' @ rest'" "link_view s' rest'"
      "\<forall>op. \<not> link_enabled op s'" by blast
  have "rest' = []" if "\<not> ib_long_msg (snd (snd s'))"
    using link_stuck_delivered [OF q(4,5) that] assms r(2) q(3) by (cases "rest' = []") auto
  moreover have "run_link (ops @ ops') (new_channel_out\<lparr>co_zero_copy := zc\<rparr>, [], s0) = Inr (outs @ outs', s')"
    using r(1) q(1) by (simp add: link.exec_all_append)
  ultimately show ?thesis using s0 r(2) q(2,3) by (cases s') fastforce
qed

theorem channel_end_to_end_completes_witness:
  "\<exists>s0 ops' outs c w s. start_channel = Inr s0 \<and> link_written ops' = [] \<and>
    run_link ([L_Write (W_Sym 69), L_Write (W_Block [3, 65, 0]), L_Write (W_Sym MARKER_EOM)] @ ops')
      (new_channel_out\<lparr>co_zero_copy := True\<rparr>, [], s0) = Inr (outs, c, w, s) \<and>
    (outs = [69, 3, 65, 0, MARKER_EOM] \<or> ib_long_msg s)"
proof -
  let ?ops = "[L_Write (W_Sym 69), L_Write (W_Block [3, 65, 0]), L_Write (W_Sym MARKER_EOM)]"
  have w: "link_written ?ops = [69, 3, 65, 0, MARKER_EOM]" by (simp add: write_ok_def msg_sym_def is_byte_def syms_def)
  show ?thesis using channel_end_to_end_completes [of ?ops True] unfolding w
    by (simp del: link.exec_all.simps append_Cons concat_eq_Nil_conv)
qed

end
