(* ===== verification/ContextQuery.thy ===== *)
theory ContextQuery
  imports JsonError
begin

text \<open>
  \<^verbatim>\<open>services/contextquery.c\<close>: queries that select contexts (processes, threads) by their properties and
  by their place in the tree of contexts.

  The parser reads a C string, the list of the bytes that are left; at its end \<^verbatim>\<open>*c\<close> is 0. Its buffer
  \<^verbatim>\<open>str_buf\<close> is the list of the bytes added to it. The linked \<^verbatim>\<open>Attribute\<close>s of a part of a query are a list, and a
  query is the list of its parts, the last part of the text first, as the \<^verbatim>\<open>parent\<close> links have it. A function that fails sets
  \<^verbatim>\<open>errno\<close> to a message and returns -1: the message is an \<open>Inl\<close>.

  A context comes with its ancestors, as \<^verbatim>\<open>get_parent\<close> gives them, from its parent to the top. The
  comparators that other services register are an argument; the name of the attribute, which they may
  ask for, is passed to them.

  The grammar and the meaning of queries are documented in \<^verbatim>\<open>contextquery.h\<close>. Theory \<^verbatim>\<open>QueryProps\<close> states that
  meaning (\<open>doc_query\<close>) and how far the code agrees with it.
\<close>

section \<open>Parser\<close>

type_synonym attr = "cstring option \<times> cstring"
type_synonym part = "attr list"

record QueryState =
  attrs :: "part list"
  abs_path :: bool

definition cur :: "cstring \<Rightarrow> byte" where
  "cur c = (case c of [] \<Rightarrow> 0 | b # _ \<Rightarrow> b)"

definition query_digit :: "byte \<Rightarrow> bool" where
  "query_digit b \<longleftrightarrow> 48 \<le> b \<and> b \<le> 57"

definition symbol_char :: "byte \<Rightarrow> bool" where
  "symbol_char b \<longleftrightarrow> b = 95 \<or> query_digit b \<or> (97 \<le> b \<and> b \<le> 122) \<or> (65 \<le> b \<and> b \<le> 90)"

definition parse_wildcard :: "cstring \<Rightarrow> string + cstring \<times> cstring" where
  "parse_wildcard q =
     (let buf = [cur q]; c = tl q;
          (buf, c) = (if is_ch CHR ''*'' (cur c) then (buf @ [cur c], tl c) else (buf, c))
      in if c \<noteq> [] \<and> \<not> is_ch CHR ''/'' (cur c)
         then Inl ''Invalid context query syntax: * and ** are the only valid wildcards''
         else Inr (buf, c))"

definition parse_number :: "cstring \<Rightarrow> string + cstring \<times> cstring" where
  "parse_number q =
     (let buf = takeWhile query_digit q; c = dropWhile query_digit q
      in if c \<noteq> [] \<and> \<not> is_ch CHR '','' (cur c) \<and> \<not> is_ch CHR ''/'' (cur c)
         then Inl ''Invalid context query syntax: expecting [0-9] or ',' or '/' after number''
         else Inr (buf, c))"

definition parse_symbol :: "cstring \<Rightarrow> string + cstring \<times> cstring" where
  "parse_symbol q =
     (let buf = takeWhile symbol_char q; c = dropWhile symbol_char q
      in if c \<noteq> [] \<and> \<not> is_ch CHR ''/'' (cur c) \<and> \<not> is_ch CHR ''='' (cur c) \<and> \<not> is_ch CHR '','' (cur c)
         then Inl (''Invalid context query syntax: unquoted strings must only contain alphanumerical characters or '_'' @ [CHR 0x27])
         else Inr (buf, c))"

definition bad_escape :: string where
  "bad_escape = ''Invalid context query syntax: '' @ [CHR 0x22] @ '' and '' @ [CHR 0x5C] @
     '' are the only characters that can be escaped''"

fun quoted_loop :: "cstring \<Rightarrow> cstring \<Rightarrow> string + cstring \<times> cstring" where
  "quoted_loop buf [] = Inl ''Invalid context query syntax: missing closing quote character''"
| "quoted_loop buf (b # c) =
     (if is_ch CHR 0x22 b then Inr (buf, c)
      else if is_ch CHR 0x5C b then
        (case c of
           [] \<Rightarrow> Inl bad_escape
         | e # c \<Rightarrow>
             if is_ch CHR 0x5C e \<or> is_ch CHR 0x22 e then quoted_loop (buf @ [e]) c
             else Inl bad_escape)
      else quoted_loop (buf @ [b]) c)"

definition parse_quoted_string :: "cstring \<Rightarrow> string + cstring \<times> cstring" where
  "parse_quoted_string q = quoted_loop [] (tl q)"

definition parse_string :: "cstring \<Rightarrow> string + cstring \<times> cstring" where
  "parse_string q = (if is_ch CHR 0x22 (cur q) then parse_quoted_string q else parse_symbol q)"

definition parse_value :: "cstring \<Rightarrow> string + cstring \<times> cstring" where
  "parse_value q =
     (if query_digit (cur q) then parse_number q
      else if is_ch CHR 0x22 (cur q) then parse_quoted_string q
      else parse_symbol q)"

definition no_start :: "cstring \<Rightarrow> bool" where
  "no_start c \<longleftrightarrow> is_ch CHR ''/'' (cur c) \<or> is_ch CHR ''='' (cur c) \<or> is_ch CHR '','' (cur c) \<or> c = []"

definition parse_property :: "cstring \<Rightarrow> string + attr \<times> cstring" where
  "parse_property q =
     (case parse_string q of
        Inl e \<Rightarrow> Inl e
      | Inr (name, c) \<Rightarrow>
          if is_ch CHR ''='' (cur c) then
            (let c = tl c in
             if no_start c then Inl ''Invalid context query syntax: missing value''
             else case parse_value c of
                Inl e \<Rightarrow> Inl e
              | Inr (val, c) \<Rightarrow>
                  if is_ch CHR ''='' (cur c)
                  then Inl ''Invalid context query syntax: can't assign several values to a property at the same time''
                  else Inr ((Some name, val), c))
          else Inr ((None, name), c))"

definition parse_attr :: "cstring \<Rightarrow> string + attr \<times> cstring" where
  "parse_attr q =
     (if is_ch CHR ''*'' (cur q) then map_sum id (\<lambda>(buf, c). ((None, buf), c)) (parse_wildcard q)
      else parse_property q)"


text \<open>
  The loop of \<^verbatim>\<open>parse_context_query\<close>: \<open>attr\<close> holds the properties of the part that is
  being read, and \<open>parts\<close> the parts before it. The result is the message of the error, if there is one,
  and the value of the variable \<^verbatim>\<open>attrs\<close>, which keeps the parts that were complete when the error was found.
\<close>

definition missing_name :: string where
  "missing_name = ''Invalid context query syntax: missing context name, property or wildcard''"

definition missing_property :: string where
  "missing_property = ''Invalid context query syntax: missing property''"

text \<open>Every round of the loop consumes a byte.\<close>

lemma cur_Cons [simp]: "cur (b # c) = b"
  by (simp add: cur_def)

lemma cur_Nil [simp]: "cur [] = 0"
  by (simp add: cur_def)

lemma cur_is_ch:
  "is_ch CHR ''/'' (cur c) \<Longrightarrow> c \<noteq> []" "is_ch CHR ''='' (cur c) \<Longrightarrow> c \<noteq> []"
  "is_ch CHR '','' (cur c) \<Longrightarrow> c \<noteq> []" "is_ch CHR ''*'' (cur c) \<Longrightarrow> c \<noteq> []"
  "is_ch CHR 0x22 (cur c) \<Longrightarrow> c \<noteq> []"
  by (cases c; simp add: is_ch_def)+

lemma quoted_loop_length: "quoted_loop buf c = Inr (str, c') \<Longrightarrow> length c' < length c"
proof (induction buf c rule: quoted_loop.induct)
  case (2 buf b c)
  then show ?case by (auto split: if_splits list.splits)
qed simp

lemma parse_quoted_string_length: "parse_quoted_string q = Inr (str, c) \<Longrightarrow> length c < length q"
  unfolding parse_quoted_string_def by (cases q) (auto dest: quoted_loop_length)

lemma parse_number_length: "parse_number q = Inr (str, c) \<Longrightarrow> length c \<le> length q"
  by (auto simp: parse_number_def Let_def length_dropWhile_le split: if_splits)

lemma parse_symbol_length: "parse_symbol q = Inr (str, c) \<Longrightarrow> length c \<le> length q"
  by (auto simp: parse_symbol_def Let_def length_dropWhile_le split: if_splits)

lemma parse_symbol_stops:
  "parse_symbol q = Inr (str, c) \<Longrightarrow> length c < length q \<or> c = q \<and> no_start q"
  by (cases q) (auto simp: parse_symbol_def Let_def no_start_def split: if_splits
      intro: le_less_trans [OF length_dropWhile_le])

lemmas parse_lengths = parse_quoted_string_length parse_number_length parse_symbol_length

lemma parse_string_length: "parse_string q = Inr (str, c) \<Longrightarrow> length c \<le> length q"
  by (auto simp: parse_string_def dest: parse_lengths split: if_splits)

lemma parse_string_stops:
  "parse_string q = Inr (str, c) \<Longrightarrow> length c < length q \<or> c = q \<and> no_start q"
  by (auto simp: parse_string_def dest: parse_lengths parse_symbol_stops split: if_splits)

lemma parse_value_length: "parse_value q = Inr (str, c) \<Longrightarrow> length c \<le> length q"
  by (auto simp: parse_value_def dest: parse_lengths split: if_splits)

lemma parse_property_stops:
  assumes "parse_property q = Inr (a, c)"
  shows "length c < length q \<or> c = q \<and> (is_ch CHR ''/'' (cur q) \<or> is_ch CHR '','' (cur q) \<or> q = [])"
proof -
  obtain name c1 where 1: "parse_string q = Inr (name, c1)"
    using assms by (auto simp: parse_property_def split: sum.splits)
  show ?thesis
  proof (cases "is_ch CHR ''='' (cur c1)")
    case True
    then have "length (tl c1) < length c1" by (cases c1) (auto simp: is_ch_def)
    moreover obtain val where "parse_value (tl c1) = Inr (val, c)"
      using assms 1 True by (auto simp: parse_property_def Let_def split: if_splits sum.splits)
    ultimately show ?thesis using parse_value_length parse_string_length [OF 1] by fastforce
  next
    case False
    then have "c = c1" using assms 1 by (simp add: parse_property_def)
    with False show ?thesis using parse_string_stops [OF 1] by (auto simp: no_start_def)
  qed
qed

lemma parse_wildcard_length: "is_ch CHR ''*'' (cur q) \<Longrightarrow> parse_wildcard q = Inr (buf, c) \<Longrightarrow> length c < length q"
  by (cases q) (auto simp: parse_wildcard_def is_ch_def Let_def split: if_splits)

lemma parse_attr_stops:
  "parse_attr q = Inr (a, c) \<Longrightarrow>
   length c < length q \<or> c = q \<and> (is_ch CHR ''/'' (cur q) \<or> is_ch CHR '','' (cur q) \<or> q = [])"
  by (auto simp: parse_attr_def map_sum_def dest: parse_wildcard_length parse_property_stops
      split: if_splits sum.splits prod.splits)

function parse_parts :: "cstring \<Rightarrow> part \<Rightarrow> part list \<Rightarrow> (string option \<times> part list) outcome" where
  "parse_parts q attr parts =
     (if q = [] then (if attr = [] then Inl Undefined_Behaviour else Inr (None, attr # parts))
      else case parse_attr q of
        Inl e \<Rightarrow> Inr (Some e, parts)
      | Inr (a, q') \<Rightarrow>
          if is_ch CHR ''/'' (cur q') then
            (if no_start (tl q') then Inr (Some missing_name, (a # attr) # parts)
             else parse_parts (tl q') [] ((a # attr) # parts))
          else if is_ch CHR '','' (cur q') then
            (if no_start (tl q') then Inr (Some missing_property, parts)
             else parse_parts (tl q') (a # attr) parts)
          else parse_parts q' (a # attr) parts)"
  by pat_completeness auto

termination
proof (relation "measure (\<lambda>(q, attr, parts). length q)", goal_cases)
  case (2 q attr parts x a q')
  from parse_attr_stops [of q a q'] cur_is_ch(1) [of q'] 2 show ?case
    by (cases q') (auto simp: no_start_def)
next
  case (3 q attr parts x a q')
  from parse_attr_stops [of q a q'] cur_is_ch(3) [of q'] 3 show ?case
    by (cases q') (auto simp: no_start_def)
next
  case (4 q attr parts x a q')
  from parse_attr_stops [of q a q'] 4 show ?case by auto
qed simp

declare parse_parts.simps [simp del]

definition parse_context_query :: "cstring option \<Rightarrow> (string option \<times> QueryState) outcome" where
  "parse_context_query q =
     (case q of
        None \<Rightarrow> Inr (None, \<lparr>attrs = [], abs_path = False\<rparr>)
      | Some q \<Rightarrow>
          if q = [] then Inr (None, \<lparr>attrs = [], abs_path = False\<rparr>)
          else
            let ap = is_ch CHR ''/'' (cur q); q = (if ap then tl q else q) in
            if no_start q then Inr (Some missing_name, \<lparr>attrs = [], abs_path = ap\<rparr>)
            else rbind (parse_parts q [] []) (\<lambda>(err, parts). Inr (err, \<lparr>attrs = parts, abs_path = ap\<rparr>)))"

section \<open>Matching\<close>

text \<open>
  A context. Its \<^verbatim>\<open>parent\<close> pointers lead to a context without a parent; \<open>lineage\<close> is the chain of
  the contexts from this one to the top, the way \<^verbatim>\<open>get_context_parent\<close> gives it.
\<close>

datatype Context =
  Context (ctx_id: cstring) (ctx_name: "cstring option") (ctx_exited: bool) (ctx_parent: "Context option")

fun lineage :: "Context \<Rightarrow> Context list" where
  "lineage (Context i n e None) = [Context i n e None]"
| "lineage (Context i n e (Some p)) = Context i n e (Some p) # lineage p"

text \<open>
  A comparator is given the name of the attribute (\<^verbatim>\<open>get_context_query_attr_name\<close>), the
  context and the value to compare with.
\<close>

type_synonym comparator = "cstring \<Rightarrow> Context \<Rightarrow> cstring \<Rightarrow> bool"
type_synonym comparators = "(cstring \<times> comparator) list"

definition add_context_query_comparator :: "cstring \<Rightarrow> comparator \<Rightarrow> comparators \<Rightarrow> comparators" where
  "add_context_query_comparator attr_name callback cs = (attr_name, callback) # cs"

definition lower :: "byte \<Rightarrow> byte" where
  "lower b = (if 65 \<le> b \<and> b \<le> 90 then b + 32 else b)"

definition same_nocase :: "cstring \<Rightarrow> cstring \<Rightarrow> bool" where
  "same_nocase x y \<longleftrightarrow> map lower x = map lower y"

definition DEFAULT_CONTEXT_QUERY_COMPARATOR :: cstring where
  "DEFAULT_CONTEXT_QUERY_COMPARATOR = cstr ''*''"

fun find_comparator :: "cstring \<Rightarrow> comparators \<Rightarrow> comparator option" where
  "find_comparator key [] = None"
| "find_comparator key ((nm, f) # cs) = (if same_nocase nm key then Some f else find_comparator key cs)"

fun default_comparators :: "cstring \<Rightarrow> Context \<Rightarrow> cstring \<Rightarrow> comparators \<Rightarrow> bool" where
  "default_comparators key ctx val [] = False"
| "default_comparators key ctx val ((nm, f) # cs) =
     (if nm = DEFAULT_CONTEXT_QUERY_COMPARATOR \<and> f key ctx val then True
      else default_comparators key ctx val cs)"

definition match_attribute :: "comparators \<Rightarrow> Context \<Rightarrow> cstring \<Rightarrow> cstring \<Rightarrow> bool" where
  "match_attribute cs ctx key val =
     (case find_comparator key cs of
        Some f \<Rightarrow> f key ctx val
      | None \<Rightarrow> default_comparators key ctx val cs)"

definition any_seq :: "part \<Rightarrow> bool" where
  "any_seq p \<longleftrightarrow> hd p = (None, cstr ''**'')"

fun match_props :: "comparators \<Rightarrow> Context \<Rightarrow> part \<Rightarrow> bool" where
  "match_props cs ctx [] = True"
| "match_props cs ctx ((Some name, val) # as) =
     (if \<not> match_attribute cs ctx name val then False else match_props cs ctx as)"
| "match_props cs ctx ((None, val) # as) =
     (if val \<noteq> cstr ''*'' \<and> \<not> match_attribute cs ctx (cstr ''Name'') val then False
      else match_props cs ctx as)"

text \<open>
  \<open>match\<close>, on the context and its ancestors, and on the parts of the query (\<^verbatim>\<open>attr\<close> and its
  \<^verbatim>\<open>parent\<close> links). \<open>climb\<close> is the loop over the ancestors for \<^verbatim>\<open>**\<close>.
\<close>

fun climb :: "(Context list \<Rightarrow> bool) \<Rightarrow> Context list \<Rightarrow> bool" where
  "climb f [] = False"
| "climb f (ctx # up) = (if f (ctx # up) then True else climb f up)"

fun match :: "comparators \<Rightarrow> bool \<Rightarrow> part list \<Rightarrow> Context list \<Rightarrow> bool" where
  "match cs ap [] path = False"
| "match cs ap (p # parent) [] = False"
| "match cs ap (p # parent) (ctx # up) =
     (if any_seq p then
        (if parent = [] then True else climb (match cs ap parent) (ctx # up))
      else if parent \<noteq> [] \<and> (up = [] \<or> \<not> match cs ap parent up) then False
      else if parent = [] \<and> ap \<and> up \<noteq> [] then False
      else match_props cs ctx p)"

definition run_context_query_ext :: "comparators \<Rightarrow> QueryState \<Rightarrow> Context list \<Rightarrow> bool" where
  "run_context_query_ext cs qs path =
     (if attrs qs = [] then \<not> abs_path qs else match cs (abs_path qs) (attrs qs) path)"

definition run_context_query :: "comparators \<Rightarrow> QueryState \<Rightarrow> Context \<Rightarrow> bool" where
  "run_context_query cs qs ctx = run_context_query_ext cs qs (lineage ctx)"

definition context_query :: "comparators \<Rightarrow> Context \<Rightarrow> cstring option \<Rightarrow> bool outcome" where
  "context_query cs ctx query =
     rbind (parse_context_query query) (\<lambda>(_, qs). Inr (run_context_query cs qs ctx))"

definition cmp_id :: comparator where
  "cmp_id key ctx v \<longleftrightarrow> ctx_id ctx = v"

definition cmp_name :: comparator where
  "cmp_name key ctx v \<longleftrightarrow> (case ctx_name ctx of Some n \<Rightarrow> n = v | None \<Rightarrow> ctx_id ctx = v)"

definition ini_context_query_service :: "comparators \<Rightarrow> comparators" where
  "ini_context_query_service cs =
     add_context_query_comparator (cstr ''Name'') cmp_name
       (add_context_query_comparator (cstr ''ID'') cmp_id cs)"

section \<open>Commands\<close>

text \<open>
  The loop of \<^verbatim>\<open>command_query\<close> over the list of contexts, and the commands. They take the
  input behind the token, and give the output, the state of the error numbers and the rest of the input.
\<close>

fun write_ids :: "comparators \<Rightarrow> QueryState \<Rightarrow> nat \<Rightarrow> Context list \<Rightarrow> OutputStream \<Rightarrow> OutputStream" where
  "write_ids cs qs cnt [] out = out"
| "write_ids cs qs cnt (ctx # l) out =
     (if ctx_exited ctx then write_ids cs qs cnt l out
      else if run_context_query cs qs ctx then
        (let out = (if cnt > 0 then write_stream out (chr CHR '','') else out)
         in write_ids cs qs (cnt + 1) l (json_write_string out (Some (ctx_id ctx))))
      else write_ids cs qs cnt l out)"

definition command_query ::
    "ErrorEnv \<Rightarrow> comparators \<Rightarrow> Context list \<Rightarrow> cstring \<Rightarrow> OutputStream \<Rightarrow> ErrorState \<Rightarrow> istream \<Rightarrow>
     (OutputStream \<times> ErrorState \<times> istream) outcome" where
  "command_query env cs context_root token out s inp =
     rbind (json_read_alloc_string inp) (\<lambda>(query, inp).
     rbind (json_test_char inp MARKER_EOA) (\<lambda>inp.
     rbind (json_test_char inp MARKER_EOM) (\<lambda>inp.
     rbind (parse_context_query (map_option (takeWhile (\<lambda>b. b \<noteq> 0)) query)) (\<lambda>(e, qs).
     rbind (case e of
              None \<Rightarrow> Inr (0, s)
            | Some e \<Rightarrow> rbind (set_errno env s (err_no ERR_OTHER) (Some (cstr e))) (\<lambda>(_, s). Inr (es_errno s, s)))
       (\<lambda>(err, s).
     let out = write_stringz (write_stringz out (cstr ''R'')) token in
     rbind (write_errno env out s err) (\<lambda>(out, s).
     let out = write_stream out (chr CHR ''['');
         out = (if err = 0 then write_ids cs qs 0 context_root out else out);
         out = write_stream (write_stream (write_stream out (chr CHR '']'')) 0) MARKER_EOM
     in Inr (out, s, inp)))))))"

fun write_attr_names :: "nat \<Rightarrow> comparators \<Rightarrow> OutputStream \<Rightarrow> OutputStream" where
  "write_attr_names cnt [] out = out"
| "write_attr_names cnt ((nm, f) # l) out =
     (let out = (if cnt > 0 then write_stream out (chr CHR '','') else out)
      in write_attr_names (cnt + 1) l (json_write_string out (Some nm)))"

definition command_get_attr_names ::
    "ErrorEnv \<Rightarrow> comparators \<Rightarrow> cstring \<Rightarrow> OutputStream \<Rightarrow> ErrorState \<Rightarrow> istream \<Rightarrow>
     (OutputStream \<times> ErrorState \<times> istream) outcome" where
  "command_get_attr_names env cs token out s inp =
     rbind (json_test_char inp MARKER_EOM) (\<lambda>inp.
     let out = write_stringz (write_stringz out (cstr ''R'')) token in
     rbind (write_errno env out s 0) (\<lambda>(out, s).
     let out = write_stream out (chr CHR ''['');
         out = write_attr_names 0 cs out;
         out = write_stream (write_stream (write_stream out (chr CHR '']'')) 0) MARKER_EOM
     in Inr (out, s, inp)))"

end
