(* ===== verification/QueryProps.thy ===== *)
theory QueryProps
  imports ContextQuery
begin

text \<open>
  Properties of context queries: what the path of a context has to look like to match a query, the parser on the text of every query,
  and the replies to the commands of the service.
\<close>

section \<open>Paths that match a query\<close>

text \<open>
  A part of a query stands for a segment of the path from a context to the top: \<^verbatim>\<open>**\<close>
  for any segment, another part for one context with the right properties.
\<close>

definition seg_ok :: "comparators \<Rightarrow> part \<Rightarrow> Context list \<Rightarrow> bool" where
  "seg_ok cs p seg \<longleftrightarrow> any_seq p \<or> (\<exists>ctx. seg = [ctx] \<and> match_props cs ctx p)"

definition path_ok :: "comparators \<Rightarrow> bool \<Rightarrow> part list \<Rightarrow> Context list \<Rightarrow> bool" where
  "path_ok cs ap parts path \<longleftrightarrow>
     (\<exists>segs rest. path = concat segs @ rest \<and> list_all2 (seg_ok cs) parts segs \<and>
        (any_seq (last parts) \<longrightarrow> last segs \<noteq> []) \<and> (ap \<longrightarrow> rest = []))"

lemma match_Nil [simp]: "\<not> match cs ap parts []"
  by (cases parts) auto

lemma climb_iff: "\<not> f [] \<Longrightarrow> climb f path \<longleftrightarrow> (\<exists>pre suf. path = pre @ suf \<and> f suf)"
proof (induction path)
  case (Cons ctx up)
  then show ?case by (auto simp: Cons_eq_append_conv)
qed simp

lemma path_ok_single:
  "path_ok cs ap [p] path \<longleftrightarrow>
     (if any_seq p then path \<noteq> []
      else \<exists>ctx up. path = ctx # up \<and> match_props cs ctx p \<and> (ap \<longrightarrow> up = []))"
proof (cases "any_seq p")
  case True
  then show ?thesis
    by (auto simp: path_ok_def list_all2_Cons1 seg_ok_def intro: exI [of _ "[path]"])
next
  case False
  then show ?thesis
    by (auto simp: path_ok_def list_all2_Cons1 seg_ok_def) (rule exI [of _ "[[ctx]]" for ctx], auto)+
qed

lemma path_ok_Cons:
  assumes "parts \<noteq> []"
  shows "path_ok cs ap (p # parts) path \<longleftrightarrow> (\<exists>seg path'. path = seg @ path' \<and> seg_ok cs p seg \<and> path_ok cs ap parts path')"
    (is "?L \<longleftrightarrow> ?R")
proof
  assume ?L
  then obtain ss rest where "path = concat ss @ rest" "list_all2 (seg_ok cs) (p # parts) ss"
    "any_seq (last parts) \<longrightarrow> last ss \<noteq> []" "ap \<longrightarrow> rest = []"
    using assms by (auto simp: path_ok_def)
  then obtain seg segs where *: "path = seg @ concat segs @ rest" "seg_ok cs p seg" "list_all2 (seg_ok cs) parts segs"
    "any_seq (last parts) \<longrightarrow> last (seg # segs) \<noteq> []" "ap \<longrightarrow> rest = []"
    by (cases ss) auto
  moreover from *(3) assms have "segs \<noteq> []" by auto
  ultimately have "path_ok cs ap parts (concat segs @ rest)" unfolding path_ok_def by auto
  with * show ?R by blast
next
  assume ?R
  then obtain seg segs rest where *: "path = seg @ concat segs @ rest" "seg_ok cs p seg" "list_all2 (seg_ok cs) parts segs"
    "any_seq (last parts) \<longrightarrow> last segs \<noteq> []" "ap \<longrightarrow> rest = []"
    by (auto simp: path_ok_def)
  moreover from *(3) assms have "segs \<noteq> []" by auto
  ultimately show ?L using assms
    by (auto simp: path_ok_def intro!: exI [of _ "seg # segs"] exI [of _ rest])
qed

lemma path_ok_Cons_part:
  "parts \<noteq> [] \<Longrightarrow> \<not> any_seq p \<Longrightarrow>
   path_ok cs ap (p # parts) path \<longleftrightarrow>
     (\<exists>ctx up. path = ctx # up \<and> match_props cs ctx p \<and> path_ok cs ap parts up)"
  by (simp add: path_ok_Cons seg_ok_def) (metis append_Cons append_Nil)

lemma match_path_ok: "parts \<noteq> [] \<Longrightarrow> match cs ap parts path \<longleftrightarrow> path_ok cs ap parts path"
proof (induction parts arbitrary: path)
  case (Cons p parent)
  show ?case
  proof (cases "parent = []")
    case True
    then show ?thesis by (cases path) (auto simp: path_ok_single)
  next
    case False
    then have IH: "match cs ap parent path' \<longleftrightarrow> path_ok cs ap parent path'" for path'
      by (rule Cons.IH)
    have none: "\<not> path_ok cs ap parent []" using IH [of "[]"] by simp
    show ?thesis
    proof (cases "any_seq p")
      case True
      with False none show ?thesis
        by (cases path) (simp_all add: path_ok_Cons IH seg_ok_def climb_iff del: climb.simps(2))
    next
      case part: False
      with False none show ?thesis by (cases path) (auto simp: path_ok_Cons_part IH)
    qed
  qed
qed simp

section \<open>The documented meaning\<close>

text \<open>
  What \<^verbatim>\<open>contextquery.h\<close> says of a query, read from its last part: the last part matches the properties of the
  context, and the parent of the context matches the query without the last part; the part \<^verbatim>\<open>*\<close>
  matches any context, the part \<^verbatim>\<open>**\<close> any sequence of contexts, also the empty one; with a leading
  slash the first part has to match a context without a parent.
\<close>

abbreviation double_star :: part where
  "double_star \<equiv> [(None, cstr ''**'')]"

abbreviation single_star :: part where
  "single_star \<equiv> [(None, cstr ''*'')]"

definition doc_part :: "comparators \<Rightarrow> Context \<Rightarrow> part \<Rightarrow> bool" where
  "doc_part cs ctx p \<longleftrightarrow> list_all (\<lambda>(name, val). case name of
       Some n \<Rightarrow> match_attribute cs ctx n val
     | None \<Rightarrow> val = cstr ''*'' \<or> match_attribute cs ctx (cstr ''Name'') val) p"

fun doc_query :: "comparators \<Rightarrow> bool \<Rightarrow> part list \<Rightarrow> Context list \<Rightarrow> bool" where
  "doc_query cs ap [] path \<longleftrightarrow> (ap \<longrightarrow> path = [])"
| "doc_query cs ap (p # parts) path \<longleftrightarrow>
     (if p = double_star then \<exists>n \<in> {..length path}. doc_query cs ap parts (drop n path)
      else case path of [] \<Rightarrow> False | ctx # up \<Rightarrow> doc_part cs ctx p \<and> doc_query cs ap parts up)"

text \<open>The parts that the grammar allows: the wildcard \<^verbatim>\<open>**\<close> stands alone in its part.\<close>

definition star_alone :: "part \<Rightarrow> bool" where
  "star_alone p \<longleftrightarrow> p \<noteq> [] \<and> ((None, cstr ''**'') \<in> set p \<longrightarrow> p = double_star)"

lemma doc_part_props: "match_props cs ctx p \<longleftrightarrow> doc_part cs ctx p"
  by (induction cs ctx p rule: match_props.induct) (auto simp: doc_part_def)

lemma star_alone_any: "star_alone p \<Longrightarrow> any_seq p \<longleftrightarrow> p = double_star"
  by (cases p) (auto simp: star_alone_def any_seq_def)

lemma segments_Cons:
  "(\<exists>segs rest. path = concat segs @ rest \<and> list_all2 R (p # ps) segs \<and> C rest) \<longleftrightarrow>
   (\<exists>seg path'. path = seg @ path' \<and> R p seg \<and> (\<exists>segs rest. path' = concat segs @ rest \<and> list_all2 R ps segs \<and> C rest))"
  (is "?L \<longleftrightarrow> ?R")
proof
  assume ?L
  then obtain seg segs rest where "path = seg @ concat segs @ rest" "R p seg" "list_all2 R ps segs" "C rest"
    by (auto simp: list_all2_Cons1)
  then show ?R by blast
next
  assume ?R
  then obtain seg segs rest where "path = concat (seg # segs) @ rest" "list_all2 R (p # ps) (seg # segs)" "C rest" by auto
  then show ?L by blast
qed

lemma doc_query_segments:
  "list_all star_alone parts \<Longrightarrow>
   doc_query cs ap parts path \<longleftrightarrow>
     (\<exists>segs rest. path = concat segs @ rest \<and> list_all2 (seg_ok cs) parts segs \<and> (ap \<longrightarrow> rest = []))"
proof (induction parts arbitrary: path)
  case (Cons p parts)
  have any: "any_seq p \<longleftrightarrow> p = double_star" using Cons.prems star_alone_any by simp
  have IH: "doc_query cs ap parts path' \<longleftrightarrow>
      (\<exists>segs rest. path' = concat segs @ rest \<and> list_all2 (seg_ok cs) parts segs \<and> (ap \<longrightarrow> rest = []))" for path'
    using Cons by simp
  have split: "(\<exists>segs rest. path = concat segs @ rest \<and> list_all2 (seg_ok cs) (p # parts) segs \<and> (ap \<longrightarrow> rest = [])) \<longleftrightarrow>
      (\<exists>seg path'. path = seg @ path' \<and> seg_ok cs p seg \<and> doc_query cs ap parts path')"
    unfolding IH by (rule segments_Cons)
  show ?case
  proof (cases "p = double_star")
    case True
    have "(\<exists>n \<in> {..length path}. doc_query cs ap parts (drop n path)) \<longleftrightarrow> (\<exists>seg path'. path = seg @ path' \<and> doc_query cs ap parts path')"
      by (metis append_eq_conv_conj append_take_drop_id atMost_iff length_append le_add1 nat_le_linear drop_all order_refl)
    with True any show ?thesis unfolding split by (simp add: seg_ok_def)
  next
    case False
    then show ?thesis unfolding split using any
      by (cases path) (auto simp: seg_ok_def doc_part_props intro: exI [of _ "[_]"])
  qed
qed simp

lemma path_ok_documented:
  assumes "list_all star_alone parts" "parts \<noteq> []"
  shows "last parts \<noteq> double_star \<Longrightarrow> path_ok cs ap parts path \<longleftrightarrow> doc_query cs ap parts path"
    and "last parts = double_star \<Longrightarrow>
      path_ok cs ap parts path \<longleftrightarrow> doc_query cs ap (butlast parts @ [single_star, double_star]) path"
proof -
  have "star_alone (last parts)" using assms by (simp add: list_all_iff)
  then have any: "any_seq (last parts) \<longleftrightarrow> last parts = double_star" by (rule star_alone_any)
  show "path_ok cs ap parts path \<longleftrightarrow> doc_query cs ap parts path" if "last parts \<noteq> double_star"
    using that any unfolding doc_query_segments [OF assms(1)] path_ok_def by simp
  show "path_ok cs ap parts path \<longleftrightarrow> doc_query cs ap (butlast parts @ [single_star, double_star]) path"
    if d: "last parts = double_star"
  proof -
    let ?b = "butlast parts"
    have p: "parts = ?b @ [double_star]" using assms(2) d by (metis append_butlast_last_id)
    have ok: "list_all star_alone (?b @ [single_star, double_star])"
      using assms(1) by (subst (asm) p) (simp add: star_alone_def cstr_def)
    have seg: "seg_ok cs double_star seg" "seg_ok cs single_star seg \<longleftrightarrow> (\<exists>x. seg = [x])" for seg
      by (auto simp: seg_ok_def any_seq_def cstr_def)
    have "path_ok cs ap parts path \<longleftrightarrow> (\<exists>us y ys rest. path = concat us @ y # ys @ rest \<and> list_all2 (seg_ok cs) ?b us \<and> (ap \<longrightarrow> rest = []))"
      (is "?L \<longleftrightarrow> ?M")
    proof
      assume ?L
      then obtain segs rest where s: "path = concat segs @ rest" "list_all2 (seg_ok cs) (?b @ [double_star]) segs" "last segs \<noteq> []"
        "ap \<longrightarrow> rest = []"
        unfolding path_ok_def any using d p by auto
      then obtain us z where z: "segs = us @ [z]" "list_all2 (seg_ok cs) ?b us"
        by (auto simp: list_all2_append1 list_all2_Cons1)
      with s(3) obtain y ys where "z = y # ys" by (cases z) auto
      with s z show ?M by (intro exI [of _ us] exI [of _ y] exI [of _ ys] exI [of _ rest]) simp
    next
      assume ?M
      then obtain us y ys rest where m: "path = concat us @ y # ys @ rest" "list_all2 (seg_ok cs) ?b us" "ap \<longrightarrow> rest = []" by blast
      have "list_all2 (seg_ok cs) (?b @ [double_star]) (us @ [y # ys])" using m(2) seg(1) by (auto intro: list_all2_appendI)
      then show ?L unfolding path_ok_def any using m p
        by (intro exI [of _ "us @ [y # ys]"] exI [of _ rest]) auto
    qed
    also have "?M \<longleftrightarrow> doc_query cs ap (?b @ [single_star, double_star]) path"
    proof
      assume ?M
      then obtain us y ys rest where m: "path = concat (us @ [[y], ys]) @ rest" "list_all2 (seg_ok cs) ?b us" "ap \<longrightarrow> rest = []" by auto
      have "list_all2 (seg_ok cs) (?b @ [single_star, double_star]) (us @ [[y], ys])"
        using m(2) seg by (intro list_all2_appendI) auto
      then show "doc_query cs ap (?b @ [single_star, double_star]) path" using m unfolding doc_query_segments [OF ok] by blast
    next
      assume "doc_query cs ap (?b @ [single_star, double_star]) path"
      then obtain segs rest where m: "path = concat segs @ rest" "list_all2 (seg_ok cs) (?b @ [single_star, double_star]) segs"
        "ap \<longrightarrow> rest = []" unfolding doc_query_segments [OF ok] by blast
      then obtain us y ys where "segs = us @ [[y], ys]" "list_all2 (seg_ok cs) ?b us"
        by (auto simp: list_all2_append1 list_all2_Cons1 seg)
      then show ?M using m by (intro exI [of _ us] exI [of _ y] exI [of _ ys] exI [of _ rest]) simp
    qed
    finally show ?thesis .
  qed
qed

section \<open>The text of a query\<close>

text \<open>
  Every query has a text: a string is quoted unless it is a symbol (or a number, as a value), and the
  parts \<^verbatim>\<open>*\<close> and \<^verbatim>\<open>**\<close> are written as they are.
\<close>

definition escape :: "byte \<Rightarrow> cstring" where
  "escape b = (if b = 34 \<or> b = 92 then [92, b] else [b])"

definition quoted :: "cstring \<Rightarrow> cstring" where
  "quoted str = 34 # concat (map escape str) @ [34]"

definition print_string :: "cstring \<Rightarrow> cstring" where
  "print_string str = (if str \<noteq> [] \<and> list_all symbol_char str then str else quoted str)"

definition print_value :: "cstring \<Rightarrow> cstring" where
  "print_value str =
     (if str \<noteq> [] \<and> list_all symbol_char str \<and> (query_digit (hd str) \<longrightarrow> list_all query_digit str)
      then str else quoted str)"

fun print_attr :: "attr \<Rightarrow> cstring" where
  "print_attr (None, val) = print_string val"
| "print_attr (Some name, val) = print_string name @ 61 # print_value val"

fun print_props :: "attr list \<Rightarrow> cstring" where
  "print_props [] = []"
| "print_props [a] = print_attr a"
| "print_props (a # as) = print_attr a @ 44 # print_props as"

definition print_part :: "attr list \<Rightarrow> cstring" where
  "print_part p =
     (if p = [(None, cstr ''*'')] \<or> p = [(None, cstr ''**'')] then snd (hd p) else print_props p)"

fun print_parts :: "attr list list \<Rightarrow> cstring" where
  "print_parts [] = []"
| "print_parts [p] = print_part p"
| "print_parts (p # ps) = print_part p @ 47 # print_parts ps"

definition print_query :: "bool \<Rightarrow> attr list list \<Rightarrow> cstring" where
  "print_query ap ps = (if ap then 47 # print_parts ps else print_parts ps)"

definition ends_attr :: "cstring \<Rightarrow> bool" where
  "ends_attr c \<longleftrightarrow> c = [] \<or> cur c = 44 \<or> cur c = 47"

lemma is_ch_query [simp]:
  "is_ch CHR ''/'' b \<longleftrightarrow> b = 47" "is_ch CHR ''='' b \<longleftrightarrow> b = 61" "is_ch CHR '','' b \<longleftrightarrow> b = 44"
  "is_ch CHR ''*'' b \<longleftrightarrow> b = 42" "is_ch CHR 0x22 b \<longleftrightarrow> b = 34" "is_ch CHR 0x5C b \<longleftrightarrow> b = 92"
  by (simp_all add: is_ch_def)

lemma no_start_iff: "no_start c \<longleftrightarrow> ends_attr c \<or> cur c = 61"
  by (auto simp: no_start_def ends_attr_def)

lemma symbol_char_simps [simp]:
  "\<not> symbol_char 34" "\<not> symbol_char 42" "\<not> symbol_char 44" "\<not> symbol_char 47" "\<not> symbol_char 61"
  "\<not> query_digit 34" "\<not> query_digit 44" "\<not> query_digit 47" "\<not> query_digit 0" "\<not> query_digit 61" "\<not> symbol_char 0"
  by (simp_all add: symbol_char_def query_digit_def)

lemma quoted_loop_escape: "quoted_loop buf (concat (map escape str) @ 34 # c) = Inr (buf @ str, c)"
  by (induction str arbitrary: buf) (simp_all add: escape_def)

lemma parse_quoted: "parse_quoted_string (quoted str @ c) = Inr (str, c)"
  by (simp add: parse_quoted_string_def quoted_def quoted_loop_escape)

lemma cur_quoted [simp]: "cur (quoted str @ c) = 34"
  by (simp add: quoted_def)

lemma no_start_chars: "no_start c \<Longrightarrow> c = [] \<or> \<not> symbol_char (hd c) \<and> \<not> query_digit (hd c)"
  by (cases c) (auto simp: no_start_iff ends_attr_def)

lemma scan_symbols:
  "list_all P str \<Longrightarrow> c = [] \<or> \<not> P (hd c) \<Longrightarrow> takeWhile P (str @ c) = str \<and> dropWhile P (str @ c) = c"
  by (cases c) (auto simp: list_all_iff takeWhile_tail dropWhile_append3)

lemma cur_append [simp]: "str \<noteq> [] \<Longrightarrow> cur (str @ c) = hd str"
  by (cases str) auto

lemma symbol_hd: "str \<noteq> [] \<Longrightarrow> list_all symbol_char str \<Longrightarrow> symbol_char (hd str)"
  by (cases str) auto

lemma parse_symbol_print:
  "list_all symbol_char str \<Longrightarrow> no_start c \<Longrightarrow> parse_symbol (str @ c) = Inr (str, c)"
  using scan_symbols [of symbol_char str c] no_start_chars [of c]
  by (auto simp: parse_symbol_def no_start_iff ends_attr_def)

lemma parse_number_print:
  "list_all query_digit str \<Longrightarrow> ends_attr c \<Longrightarrow> parse_number (str @ c) = Inr (str, c)"
  using scan_symbols [of query_digit str c] no_start_chars [of c]
  by (auto simp: parse_number_def no_start_iff ends_attr_def)

lemma parse_string_print: "no_start c \<Longrightarrow> parse_string (print_string str @ c) = Inr (str, c)"
  using symbol_hd [of str] by (auto simp: parse_string_def print_string_def parse_quoted parse_symbol_print)

lemma parse_value_print: "ends_attr c \<Longrightarrow> parse_value (print_value str @ c) = Inr (str, c)"
  using symbol_hd [of str]
  by (auto simp: parse_value_def print_value_def parse_quoted parse_symbol_print parse_number_print no_start_iff)

lemma symbol_starts: "symbol_char b \<or> b = 34 \<Longrightarrow> \<not> no_start (b # c) \<and> b \<noteq> 42"
  by (auto simp: no_start_iff ends_attr_def)

lemma print_string_starts: "\<not> no_start (print_string str @ c) \<and> cur (print_string str @ c) \<noteq> 42"
  using symbol_starts [of "cur (print_string str @ c)" "tl (print_string str @ c)"] symbol_hd [of str]
  by (cases str) (auto simp: print_string_def quoted_def)

lemma print_value_starts: "\<not> no_start (print_value str @ c)"
  using symbol_starts [of "cur (print_value str @ c)" "tl (print_value str @ c)"] symbol_hd [of str]
  by (cases str) (auto simp: print_value_def quoted_def)

lemma print_attr_starts: "\<not> no_start (print_attr a @ c) \<and> cur (print_attr a @ c) \<noteq> 42"
  by (cases a rule: print_attr.cases) (simp_all add: print_string_starts)

lemma parse_attr_print: "ends_attr c \<Longrightarrow> parse_attr (print_attr a @ c) = Inr (a, c)"
proof (cases a rule: print_attr.cases)
  case (1 val)
  assume "ends_attr c"
  moreover from this have "no_start c" "cur c \<noteq> 61" by (auto simp: no_start_iff ends_attr_def)
  ultimately show ?thesis using 1 print_string_starts [of val c]
    by (simp add: parse_attr_def parse_property_def parse_string_print)
next
  case (2 name val)
  assume *: "ends_attr c"
  then have "cur c \<noteq> 61" by (auto simp: ends_attr_def)
  moreover have "no_start (61 # print_value val @ c)" by (simp add: no_start_iff)
  ultimately show ?thesis using 2 * print_string_starts [of name "61 # print_value val @ c"] print_value_starts [of val c]
    by (simp add: parse_attr_def parse_property_def parse_string_print parse_value_print)
qed

lemma parse_wildcard_print:
  "val = cstr ''*'' \<or> val = cstr ''**'' \<Longrightarrow> c = [] \<or> cur c = 47 \<Longrightarrow> parse_attr (val @ c) = Inr ((None, val), c)"
  by (auto simp: parse_attr_def parse_wildcard_def cstr_def)

lemma wildcard_starts: "val = cstr ''*'' \<or> val = cstr ''**'' \<Longrightarrow> \<not> no_start (val @ c)"
  by (auto simp: no_start_iff ends_attr_def cstr_def)

lemma print_props_starts: "p \<noteq> [] \<Longrightarrow> \<not> no_start (print_props p @ c)"
  by (cases p rule: print_props.cases) (simp_all add: print_attr_starts)

lemma print_part_starts: "p \<noteq> [] \<Longrightarrow> \<not> no_start (print_part p @ c)"
  by (auto simp: print_part_def print_props_starts wildcard_starts)

lemma print_parts_starts: "ps \<noteq> [] \<Longrightarrow> list_all (\<lambda>p. p \<noteq> []) ps \<Longrightarrow> \<not> no_start (print_parts ps @ c)"
  by (cases ps rule: print_parts.cases) (simp_all add: print_part_starts)

lemma started: "\<not> no_start q \<Longrightarrow> q \<noteq> []"
  by (auto simp: no_start_def)

lemma parse_parts_step:
  assumes "\<not> no_start q" "parse_attr q = Inr (a, c)"
  shows "c = [] \<Longrightarrow> parse_parts q attr parts = Inr (None, (a # attr) # parts)"
    and "c = 47 # c' \<Longrightarrow> \<not> no_start c' \<Longrightarrow> parse_parts q attr parts = parse_parts c' [] ((a # attr) # parts)"
    and "c = 44 # c' \<Longrightarrow> \<not> no_start c' \<Longrightarrow> parse_parts q attr parts = parse_parts c' (a # attr) parts"
  using assms started [OF assms(1)]
  by (simp_all add: parse_parts.simps [of q] parse_parts.simps [of "[]"])

lemma parse_props_print:
  assumes "p \<noteq> []"
  shows "parse_parts (print_props p) attr parts = Inr (None, (rev p @ attr) # parts)"
    and "\<not> no_start c \<Longrightarrow>
      parse_parts (print_props p @ 47 # c) attr parts = parse_parts c [] ((rev p @ attr) # parts)"
  using assms
proof (induction p arbitrary: attr rule: print_props.induct)
  case (2 a)
  { case 1 show ?case
      using parse_parts_step(1) [OF conjunct1 [OF print_attr_starts] parse_attr_print, of "[]"] by (simp add: ends_attr_def)
  next
    case 2 then show ?case
      using parse_parts_step(2) [OF conjunct1 [OF print_attr_starts] parse_attr_print, of "47 # c"] by (simp add: ends_attr_def) }
next
  case (3 a b as)
  { case 1 show ?case
      using parse_parts_step(3) [OF conjunct1 [OF print_attr_starts] parse_attr_print, of "44 # print_props (b # as)"]
        print_props_starts [of "b # as" "[]"] 3(1) by (simp add: ends_attr_def)
  next
    case 2 then show ?case
      using parse_parts_step(3) [OF conjunct1 [OF print_attr_starts] parse_attr_print, of "44 # print_props (b # as) @ 47 # c"]
        print_props_starts [of "b # as" "47 # c"] 3(2) by (simp add: ends_attr_def) }
qed simp_all

lemma parse_part_print:
  assumes "p \<noteq> []"
  shows "parse_parts (print_part p) [] parts = Inr (None, rev p # parts)"
    and "\<not> no_start c \<Longrightarrow> parse_parts (print_part p @ 47 # c) [] parts = parse_parts c [] (rev p # parts)"
proof -
  consider val where "p = [(None, val)]" "val = cstr ''*'' \<or> val = cstr ''**''" "print_part p = val"
    | "print_part p = print_props p"
    by (cases "p = [(None, cstr ''*'')] \<or> p = [(None, cstr ''**'')]") (auto simp: print_part_def)
  then have "parse_parts (print_part p) [] parts = Inr (None, rev p # parts) \<and>
     (\<not> no_start c \<longrightarrow> parse_parts (print_part p @ 47 # c) [] parts = parse_parts c [] (rev p # parts))"
  proof cases
    case 1
    then show ?thesis
      using parse_parts_step(1) [OF wildcard_starts [of val "[]"] parse_wildcard_print [of val "[]"]]
        parse_parts_step(2) [OF wildcard_starts [of val "47 # c"] parse_wildcard_print [of val "47 # c"]]
      by simp
  next
    case 2
    with parse_props_print(1) [OF assms] parse_props_print(2) [OF assms, of c] show ?thesis by simp
  qed
  then show "parse_parts (print_part p) [] parts = Inr (None, rev p # parts)"
    and "\<not> no_start c \<Longrightarrow> parse_parts (print_part p @ 47 # c) [] parts = parse_parts c [] (rev p # parts)"
    by simp_all
qed

lemma parse_parts_print:
  "ps \<noteq> [] \<Longrightarrow> list_all (\<lambda>p. p \<noteq> []) ps \<Longrightarrow>
   parse_parts (print_parts ps) [] parts = Inr (None, rev (map rev ps) @ parts)"
proof (induction ps arbitrary: parts rule: print_parts.induct)
  case (3 p p' ps)
  then show ?case
    using parse_part_print(2) [of p "print_parts (p' # ps)"] print_parts_starts [of "p' # ps" "[]"] by simp
qed (simp_all add: parse_part_print)

lemma parse_print_query:
  assumes "ps \<noteq> []" "list_all (\<lambda>p. p \<noteq> []) ps"
  shows "parse_context_query (Some (print_query ap ps)) = Inr (None, \<lparr>attrs = rev (map rev ps), abs_path = ap\<rparr>)"
proof -
  have ns: "\<not> no_start (print_parts ps)" using print_parts_starts [OF assms, of "[]"] by simp
  then have "print_parts ps \<noteq> []" "cur (print_parts ps) \<noteq> 47"
    by (auto simp: no_start_iff ends_attr_def)
  with ns show ?thesis
    by (simp add: parse_context_query_def print_query_def parse_parts_print [OF assms])
qed

section \<open>The parser always gives a result\<close>

lemma parse_parts_total:
  "q \<noteq> [] \<or> attr \<noteq> [] \<Longrightarrow> list_all (\<lambda>p. p \<noteq> []) parts \<Longrightarrow>
   \<exists>e ps. parse_parts q attr parts = Inr (e, ps) \<and> list_all (\<lambda>p. p \<noteq> []) ps \<and> (e = None \<longrightarrow> ps \<noteq> [])"
proof (induction q attr parts rule: parse_parts.induct)
  case (1 q attr parts)
  show ?case
  proof (cases "q = []")
    case True
    with 1 show ?thesis by (simp add: parse_parts.simps [of "[]"])
  next
    case False
    show ?thesis
    proof (cases "parse_attr q")
      case (Inl e)
      with False 1 show ?thesis by (simp add: parse_parts.simps [of q])
    next
      case (Inr r)
      obtain a q' where r: "r = (a, q')" by fastforce
      show ?thesis
        using False Inr r started [of "tl q'"] 1
        by (subst parse_parts.simps) (auto simp del: is_ch_query)
    qed
  qed
qed

section \<open>Replies\<close>

abbreviation id_text :: "Context \<Rightarrow> int list" where
  "id_text ctx \<equiv> 34 # str_syms (ctx_id ctx) @ [34]"

definition selected :: "comparators \<Rightarrow> QueryState \<Rightarrow> Context list \<Rightarrow> Context list" where
  "selected cs qs l = filter (\<lambda>ctx. \<not> ctx_exited ctx \<and> run_context_query cs qs ctx) l"

lemma write_ids_more:
  "list_all (\<lambda>ctx. 0 \<notin> set (ctx_id ctx)) l \<Longrightarrow> cnt > 0 \<Longrightarrow>
   write_ids cs qs cnt l out =
     out\<lparr>written := written out @ concat (map (\<lambda>ctx. 44 # id_text ctx) (selected cs qs l))\<rparr>"
proof (induction l arbitrary: cnt out)
  case (Cons ctx l)
  then show ?case
    by (simp add: selected_def json_write_string_syms write_stream_def chr_def)
qed (simp add: selected_def)

lemma write_ids_text:
  "list_all (\<lambda>ctx. 0 \<notin> set (ctx_id ctx)) l \<Longrightarrow>
   write_ids cs qs 0 l out = out\<lparr>written := written out @ commas (map id_text (selected cs qs l))\<rparr>"
proof (induction l arbitrary: out)
  case (Cons ctx l)
  have sel: "selected cs qs (ctx # l) =
      (if \<not> ctx_exited ctx \<and> run_context_query cs qs ctx then ctx # selected cs qs l else selected cs qs l)"
    by (simp add: selected_def)
  show ?case
  proof (cases "\<not> ctx_exited ctx \<and> run_context_query cs qs ctx")
    case True
    with Cons.prems show ?thesis
      by (simp add: sel write_ids_more json_write_string_syms commas_Cons comp_def)
  next
    case False
    with Cons.prems Cons.IH show ?thesis by (auto simp: sel)
  qed
qed (simp add: selected_def)

definition reply :: "cstring \<Rightarrow> int list \<Rightarrow> int list" where
  "reply token body = syms (cstr ''R'') @ 0 # syms token @ 0 # 0 # 91 # body @ [93, 0, MARKER_EOM]"

lemma takeWhile_query: "0 \<notin> set q \<Longrightarrow> takeWhile (\<lambda>b. b \<noteq> 0) q = (q :: cstring)"
  by (auto intro: takeWhile_eq_all_conv [THEN iffD2])

lemma command_query_ok:
  assumes "parse_context_query (Some q) = Inr (None, qs)" "0 \<notin> set q"
    and "list_all (\<lambda>ctx. 0 \<notin> set (ctx_id ctx)) context_root"
  shows "command_query env cs context_root token out s (34 # str_syms q @ 34 # 0 # MARKER_EOM # rest) =
     Inr (out\<lparr>written := written out @ reply token (commas (map id_text (selected cs qs context_root)))\<rparr>, s, rest)"
proof -
  have "json_read_alloc_string (34 # str_syms q @ 34 # 0 # MARKER_EOM # rest) = Inr (Some q, 0 # MARKER_EOM # rest)"
    by (rule json_read_alloc_string_str_syms)
  then show ?thesis
    by (simp add: command_query_def takeWhile_query [OF assms(2)] assms(1) isspace_def write_block_stream_def syms_def write_errno_def write_stringz_def write_string_def
        write_stream_def write_ids_text [OF assms(3)] reply_def chr_def)
qed

lemma run_context_query_path:
  "attrs qs \<noteq> [] \<Longrightarrow> run_context_query cs qs ctx \<longleftrightarrow> path_ok cs (abs_path qs) (attrs qs) (lineage ctx)"
  by (simp add: run_context_query_def run_context_query_ext_def match_path_ok)

lemma star_alone_rev [simp]: "star_alone (rev p) \<longleftrightarrow> star_alone p"
  by (simp add: star_alone_def rev_swap)

lemma doc_query_map_rev: "doc_query cs ap (map rev ps) path \<longleftrightarrow> doc_query cs ap ps path"
proof (induction ps arbitrary: path)
  case (Cons p ps)
  have "rev p = double_star \<longleftrightarrow> p = double_star" by (simp add: rev_swap)
  moreover have "doc_part cs ctx (rev p) = doc_part cs ctx p" for ctx by (simp add: doc_part_def)
  ultimately show ?case using Cons by (simp split: list.split)
qed simp

lemma run_printed:
  assumes "ps \<noteq> []" "list_all star_alone ps" "hd ps \<noteq> double_star"
  shows "run_context_query cs \<lparr>attrs = rev (map rev ps), abs_path = ap\<rparr> ctx \<longleftrightarrow> doc_query cs ap (rev ps) (lineage ctx)"
proof -
  have l: "last (rev (map rev ps)) = rev (hd ps)" using assms(1) by (simp add: last_rev hd_map)
  have "path_ok cs ap (rev (map rev ps)) (lineage ctx) \<longleftrightarrow> doc_query cs ap (rev (map rev ps)) (lineage ctx)"
    by (rule path_ok_documented(1)) (use assms in \<open>auto simp: l rev_swap list_all_iff simp del: last_rev\<close>)
  then show ?thesis using assms(1) doc_query_map_rev [of cs ap "rev ps"] by (simp add: run_context_query_path rev_map)
qed

lemma print_nonempty: "list_all star_alone ps \<Longrightarrow> list_all (\<lambda>p. p \<noteq> []) ps"
  by (auto simp: list_all_iff star_alone_def)

section \<open>Properties\<close>

text \<open>C34: The parser ends on every query and never follows the null pointer it has at a
  part without properties. It gives either an error message or a query in which no part is
  empty, and which has no part only when the query is missing or empty.\<close>

theorem parse_context_query_total:
  "\<exists>e qs. parse_context_query q = Inr (e, qs) \<and> list_all (\<lambda>p. p \<noteq> []) (attrs qs) \<and>
     (e = None \<and> attrs qs = [] \<longleftrightarrow> q = None \<or> q = Some [])"
proof (cases "q = None \<or> q = Some []")
  case True
  then show ?thesis by (auto simp: parse_context_query_def)
next
  case False
  then obtain c where c: "q = Some c" "c \<noteq> []" by (cases q) auto
  define c' where "c' = (if is_ch CHR ''/'' (cur c) then tl c else c)"
  obtain e ps where "no_start c' \<or> parse_parts c' [] [] = Inr (e, ps) \<and> list_all (\<lambda>p. p \<noteq> []) ps \<and>
      (e = None \<longrightarrow> ps \<noteq> [])"
    using parse_parts_total [of c' "[]" "[]"] started [of c'] by fastforce
  then show ?thesis
    using c by (auto simp: parse_context_query_def Let_def c'_def simp del: is_ch_query)
qed

text \<open>C22: Every query can be written down, and the parser reads the text as that query: for
  any parts, each with any properties, names and values (with quotes and backslashes in them, with a
  number as the value, or only a wildcard), the parser gives the parts and the properties, last first.\<close>

theorem context_query_roundtrip:
  assumes "ps \<noteq> []" "list_all (\<lambda>p. p \<noteq> []) ps"
  shows "parse_context_query (Some (print_query ap ps)) =
     Inr (None, \<lparr>attrs = rev (map rev ps), abs_path = ap\<rparr>)"
  by (rule parse_print_query [OF assms])

definition sample_query :: "attr list list" where
  "sample_query = [[(None, cstr ''server'')], [(None, cstr ''**'')], [(Some (cstr ''pid''), cstr ''17''), (None, [34, 92])]]"

theorem context_query_roundtrip_witness:
  "parse_context_query (Some (print_query True sample_query)) =
     Inr (None, \<lparr>attrs = rev (map rev sample_query), abs_path = True\<rparr>)"
  by (rule context_query_roundtrip) (simp_all add: sample_query_def)

text \<open>C21: Matching does what \<^verbatim>\<open>contextquery.h\<close> says, except for a \<^verbatim>\<open>**\<close> that is the first part of the query: a context
  matches a parsed query exactly when the last part describes the context and its parent matches the rest of the
  query, where \<^verbatim>\<open>*\<close> stands for any context, \<^verbatim>\<open>**\<close> for any sequence of contexts, the empty one included, and the first part
  of an absolute query for a context without a parent. A leading \<^verbatim>\<open>**\<close>, which should stand for any sequence too, is
  matched as if it were \<^verbatim>\<open>**/*\<close>, a sequence of at least one context.\<close>

theorem match_as_documented:
  assumes "attrs qs \<noteq> []" "list_all star_alone (attrs qs)"
  shows "run_context_query cs qs ctx \<longleftrightarrow> doc_query cs (abs_path qs)
     (if last (attrs qs) = double_star then butlast (attrs qs) @ [single_star, double_star] else attrs qs) (lineage ctx)"
proof (cases "last (attrs qs) = double_star")
  case True
  then have qs: "attrs qs = butlast (attrs qs) @ [double_star]" using append_butlast_last_id [OF assms(1)] by simp
  have "list_all star_alone (butlast (attrs qs) @ [double_star])" using assms(2) qs by simp
  from path_ok_documented(2) [OF this, folded qs, of cs "abs_path qs" "lineage ctx"] True
  show ?thesis using assms(1) by (simp add: run_context_query_path)
next
  case False
  then show ?thesis using run_context_query_path [OF assms(1)] path_ok_documented(1) [OF assms(2,1)] by simp
qed

definition sample_tree :: "Context list" where
  "sample_tree =
     (let server = Context (cstr ''P1'') (Some (cstr ''server'')) False None;
          worker = Context (cstr ''P2'') None False (Some server)
      in [server, worker, Context (cstr ''P3'') (Some (cstr ''worker'')) False (Some worker),
          Context (cstr ''P4'') (Some (cstr ''worker'')) True (Some server)])"

theorem match_as_documented_witness:
  "let qs = \<lparr>attrs = [[(None, cstr ''worker'')], [(None, cstr ''**'')], [(None, cstr ''server'')]], abs_path = True\<rparr>;
       cs = ini_context_query_service []; ctx = sample_tree ! 2
   in run_context_query cs qs ctx \<and> doc_query cs True (attrs qs) (lineage ctx)"
proof -
  let ?qs = "\<lparr>attrs = [[(None, cstr ''worker'')], [(None, cstr ''**'')], [(None, cstr ''server'')]], abs_path = True\<rparr>"
  let ?cs = "ini_context_query_service []" and ?ctx = "sample_tree ! 2"
  have "run_context_query ?cs ?qs ?ctx" by code_simp
  moreover have "list_all star_alone (attrs ?qs)" by code_simp
  moreover have "last (attrs ?qs) \<noteq> double_star" by code_simp
  ultimately show ?thesis using match_as_documented [of ?qs ?cs ?ctx] unfolding Let_def by (simp del: doc_query.simps)
qed

text \<open>A query that starts with \<^verbatim>\<open>**\<close> is not matched as documented: the code treats the leading \<^verbatim>\<open>**\<close> like
  \<^verbatim>\<open>**/*\<close>, a sequence of at least one context. So a context without a parent that the query \<^verbatim>\<open>**/p\<close> describes
  according to the documentation is not found by it.\<close>

theorem leading_double_star:
  assumes "list_all star_alone parts"
  shows "(run_context_query cs \<lparr>attrs = parts @ [double_star], abs_path = ap\<rparr> ctx \<longleftrightarrow>
       doc_query cs ap (parts @ [single_star, double_star]) (lineage ctx)) \<and>
     (\<forall>p. parts = [p] \<and> p \<noteq> double_star \<and> ctx_parent ctx = None \<and> doc_part cs ctx p \<longrightarrow>
       doc_query cs ap (parts @ [double_star]) (lineage ctx) \<and>
       \<not> run_context_query cs \<lparr>attrs = parts @ [double_star], abs_path = ap\<rparr> ctx)"
proof -
  have ok: "list_all star_alone (parts @ [double_star])" using assms by (simp add: star_alone_def)
  have run: "run_context_query cs \<lparr>attrs = parts @ [double_star], abs_path = ap\<rparr> ctx \<longleftrightarrow>
       doc_query cs ap (parts @ [single_star, double_star]) (lineage ctx)"
    using path_ok_documented(2) [OF ok, of cs ap "lineage ctx"] by (simp add: run_context_query_path)
  have top: "lineage ctx = [ctx]" if "ctx_parent ctx = None" using that by (cases ctx rule: lineage.cases) auto
  have "single_star \<noteq> double_star" by (simp add: cstr_def)
  then have "doc_query cs ap (parts @ [double_star]) (lineage ctx) \<and>
       \<not> doc_query cs ap (parts @ [single_star, double_star]) (lineage ctx)"
    if "parts = [p]" "p \<noteq> double_star" "ctx_parent ctx = None" "doc_part cs ctx p" for p
    using that top by simp
  then show ?thesis unfolding run by blast
qed

theorem leading_double_star_witness:
  "let cs = ini_context_query_service []; parts = [[(None, cstr ''server'')]]; ctx = hd sample_tree in
   doc_query cs False (parts @ [double_star]) (lineage ctx) \<and>
   \<not> run_context_query cs \<lparr>attrs = parts @ [double_star], abs_path = False\<rparr> ctx"
proof -
  let ?cs = "ini_context_query_service []" and ?p = "[(None, cstr ''server'')]" and ?ctx = "hd sample_tree"
  have "list_all star_alone [?p]" by code_simp
  moreover have "?p \<noteq> double_star" "ctx_parent ?ctx = None" "doc_part ?cs ?ctx ?p" by code_simp+
  ultimately show ?thesis using leading_double_star [of "[?p]" ?cs False ?ctx] unfolding Let_def by blast
qed

text \<open>C5: The command \<^verbatim>\<open>query\<close> of a client, with the text of any query whose first part is not \<^verbatim>\<open>**\<close>, is answered without
  an error and with a list that has exactly the contexts that have not exited and that match the query in the sense of
  \<^verbatim>\<open>contextquery.h\<close>, in the order of the list of contexts; the whole message is read and nothing behind it.\<close>

theorem query_reply_lists_matching_contexts:
  assumes "ps \<noteq> []" "list_all star_alone ps" "hd ps \<noteq> double_star" "0 \<notin> set (print_query ap ps)"
    and "list_all (\<lambda>ctx. 0 \<notin> set (ctx_id ctx)) context_root"
  shows "command_query env cs context_root token out s
       (34 # str_syms (print_query ap ps) @ 34 # 0 # MARKER_EOM # rest) =
     Inr (out\<lparr>written := written out @ reply token (commas (map id_text
       (filter (\<lambda>ctx. \<not> ctx_exited ctx \<and> doc_query cs ap (rev ps) (lineage ctx)) context_root)))\<rparr>, s, rest)"
  using command_query_ok [OF parse_print_query [OF assms(1) print_nonempty [OF assms(2)]] assms(4,5)] assms(1-3)
  by (simp add: selected_def run_printed)

theorem query_reply_lists_matching_contexts_witness:
  "let ps = [[(None, cstr ''server'')], [(None, cstr ''**'')], [(None, cstr ''worker'')]]; cs = ini_context_query_service [] in
   command_query sample_env cs sample_tree (cstr ''1'') \<lparr>supports_zero_copy = False, written = []\<rparr> ini_errors
       (34 # str_syms (print_query True ps) @ 34 # 0 # MARKER_EOM # []) =
     Inr (\<lparr>supports_zero_copy = False, written = []\<rparr>\<lparr>written :=
       written \<lparr>supports_zero_copy = False, written = []\<rparr> @ reply (cstr ''1'') (commas (map id_text
       (filter (\<lambda>ctx. \<not> ctx_exited ctx \<and> doc_query cs True (rev ps) (lineage ctx)) sample_tree)))\<rparr>,
       ini_errors, []) \<and>
   map ctx_id (filter (\<lambda>ctx. \<not> ctx_exited ctx \<and> doc_query cs True (rev ps) (lineage ctx)) sample_tree) = [cstr ''P3'']"
  unfolding Let_def
proof (rule conjI, rule query_reply_lists_matching_contexts)
  show "list_all star_alone [[(None, cstr ''server'')], [(None, cstr ''**'')], [(None, cstr ''worker'')]]" by code_simp
  show "hd [[(None, cstr ''server'')], [(None, cstr ''**'')], [(None, cstr ''worker'')]] \<noteq> double_star" by code_simp
  show "0 \<notin> set (print_query True [[(None, cstr ''server'')], [(None, cstr ''**'')], [(None, cstr ''worker'')]])" by code_simp
  show "list_all (\<lambda>ctx. 0 \<notin> set (ctx_id ctx)) sample_tree" by code_simp
  show "map ctx_id (filter (\<lambda>ctx. \<not> ctx_exited ctx \<and> doc_query (ini_context_query_service []) True
      (rev [[(None, cstr ''server'')], [(None, cstr ''**'')], [(None, cstr ''worker'')]]) (lineage ctx)) sample_tree) = [cstr ''P3'']"
    by code_simp
qed simp_all

text \<open>C35: \<^verbatim>\<open>context_query\<close> does not look at the result of the parser: a query with a syntax error is cut off at the
  part that has the error. Take any parts \<open>ps\<close>, and behind them a part that is an unquoted name followed by a
  character that cannot stand there, such as a blank. The result is that of the query \<open>ps\<close> alone; if there is no part before the
  error, then a relative query matches every context and an absolute one none.\<close>

theorem context_query_ignores_syntax_error:
  assumes "list_all (\<lambda>p. p \<noteq> []) ps" "nm \<noteq> []" "list_all symbol_char nm" "\<not> symbol_char b" "b \<notin> {44, 47, 61}"
  shows "context_query cs ctx (Some ((if ap then [47] else []) @ concat (map (\<lambda>p. print_part p @ [47]) ps) @ nm @ b # rest)) =
     Inr (if ps = [] then \<not> ap else run_context_query cs \<lparr>attrs = rev (map rev ps), abs_path = ap\<rparr> ctx)"
proof -
  let ?bad = "nm @ b # rest" and ?pre = "\<lambda>ps. concat (map (\<lambda>p. print_part p @ [47]) ps)"
  have hd: "symbol_char (hd nm)" by (rule symbol_hd [OF assms(2,3)])
  then have h: "hd nm \<noteq> 34" "hd nm \<noteq> 42" "hd nm \<noteq> 47" "\<not> no_start ?bad"
    using assms(2) by (auto simp: no_start_iff ends_attr_def)
  have start: "\<not> no_start (?pre ps @ ?bad)" if "list_all (\<lambda>p. p \<noteq> []) ps" for ps
    using that h(4) by (cases ps) (simp_all add: print_part_starts)
  have "dropWhile symbol_char ?bad = b # rest"
    using scan_symbols [OF assms(3), of "b # rest"] assms(4) by simp
  then obtain e where "parse_symbol ?bad = Inl e"
    using assms(5) by (simp add: parse_symbol_def)
  then have bad: "parse_parts ?bad [] parts = Inr (Some e, parts)" for parts
    using h assms(2) by (simp add: parse_parts.simps [of ?bad] parse_attr_def parse_property_def parse_string_def)
  have "parse_parts (?pre ps @ ?bad) [] parts = Inr (Some e, rev (map rev ps) @ parts)" for parts
    using assms(1)
  proof (induction ps arbitrary: parts)
    case (Cons p ps)
    then show ?case using parse_part_print(2) [of p "?pre ps @ ?bad"] start [of ps] by simp
  qed (simp add: bad)
  moreover have "cur (?pre ps @ ?bad) \<noteq> 47" "?pre ps @ ?bad \<noteq> []"
    using start [OF assms(1)] by (auto simp: no_start_iff ends_attr_def)
  ultimately have "parse_context_query (Some ((if ap then [47] else []) @ ?pre ps @ ?bad)) =
      Inr (Some e, \<lparr>attrs = rev (map rev ps), abs_path = ap\<rparr>)"
    using start [OF assms(1)] by (simp add: parse_context_query_def)
  then show ?thesis
    by (simp add: context_query_def run_context_query_def run_context_query_ext_def)
qed

theorem context_query_ignores_syntax_error_witness:
  "context_query (ini_context_query_service []) (hd sample_tree) (Some (cstr ''Name = worker'')) = Inr True \<and>
   context_query (ini_context_query_service []) (hd sample_tree) (Some (cstr ''/na me'')) = Inr False"
  using context_query_ignores_syntax_error [of "[]" "cstr ''Name''" 32 "ini_context_query_service []" "hd sample_tree" False "cstr ''= worker''"]
    context_query_ignores_syntax_error [of "[]" "cstr ''na''" 32 "ini_context_query_service []" "hd sample_tree" True "cstr ''me''"]
  by (simp add: cstr_def symbol_char_def query_digit_def)

end
