(* ===== verification/DwarfIO.thy ===== *)
theory DwarfIO
  imports Actions Leb128
begin

text \<open>
  \<^verbatim>\<open>services/dwarfio.c\<close>: the low-level reader of DWARF debug information, in the order of the
  source: positions and numbers in a section, attributes in their forms, entries, units, and the tables of
  abbreviations.

  The static variables of the file are one record. A position is a natural number; where the code adds to a position in
  64 bits the model reduces modulo \<open>2 ^ 64\<close>. Pointers into the data of a section are a section and an offset. Reading
  outside of a section or through a null pointer is \<open>Undefined_Behaviour\<close>, and so is a shift by the width
  of the operand or more; a left shift of a negative number is the two's complement one. Unit
  descriptors, which belong to the callers, are in a store \<open>d_units\<close>.

  ELF files are an argument (\<open>DioEnv\<close>): their sections with name, address and contents. Reading the
  contents (\<^verbatim>\<open>elf_load\<close>) can fail. So are the relocations (\<^verbatim>\<open>drl_relocate\<close> of
  \<^verbatim>\<open>dwarfreloc.c\<close>), the value of \<^verbatim>\<open>errno\<close>, and the callback that gets the attributes; the state has a field
  for what the callback does. Integers are those of a 64-bit little-endian host.
\<close>

section \<open>Data\<close>

type_synonym sec_ref = "nat \<times> nat"

record ELF_Section =
  sec_name :: string
  sec_addr :: u64
  sec_data :: "byte list"
  sec_relocate :: bool

record ELF_File =
  big_endian :: bool
  elf64 :: bool
  sections :: "ELF_Section list"
  dwz_file :: "nat option"

record DioEnv =
  elf_file :: "nat \<Rightarrow> ELF_File"
  elf_load :: "sec_ref \<Rightarrow> err option"
  drl_relocate :: "sec_ref \<Rightarrow> nat \<Rightarrow> nat \<Rightarrow> u64 \<Rightarrow> (u64 \<times> sec_ref option) outcome"
  errno :: err

datatype data_ptr = Null | Data sec_ref int

record DIO_Abbreviation =
  mTag :: u16
  mChildren :: bool
  mAttrs :: "u16 list"

record DIO_AbbrevSet =
  mOffset :: nat
  mTable :: "DIO_Abbreviation option list"

record DIO_Cache =
  mStringTable :: "sec_ref option"
  mStringTableSize :: nat
  mAbbrevTable :: "DIO_AbbrevSet list list option"

record DIO_UnitDescriptor =
  mSection :: "sec_ref option"
  mVersion :: u16
  m64bit :: bool
  mAddressSize :: byte
  mUnitOffs :: nat
  mUnitSize :: nat
  mAbbrevTableOffs :: nat
  mTypeSignature :: u64
  mTypeOffset :: u64
  mUnitAbbrevs :: "DIO_Abbreviation option list"

text \<open>The static variables. \<open>d_data\<close> is what \<^verbatim>\<open>sData\<close> points to.\<close>

record 'c DIO =
  dio_gEntryPos :: nat
  dio_gFormData :: u64
  dio_gFormDataSize :: nat
  dio_gFormDataAddr :: data_ptr
  dio_gFormSection :: "sec_ref option"
  sSection :: "sec_ref option"
  sBigEndian :: bool
  sAddressSize :: nat
  sRefAddressSize :: nat
  sData :: "byte list option"
  sDataPos :: nat
  sDataLen :: nat
  sUnit :: "nat option"
  d_units :: "nat \<rightharpoonup> DIO_UnitDescriptor"
  d_caches :: "nat \<rightharpoonup> DIO_Cache"
  AbbrevBuf :: "DIO_Abbreviation option list"
  d_client :: 'c

type_synonym ('c, 'a) dio = "('c DIO, 'a) act"

text \<open>A callback is given the tag, the attribute and the form. \<^verbatim>\<open>NULL\<close> is \<open>None\<close>.\<close>

type_synonym 'c DIO_EntryCallBack = "(u16 \<Rightarrow> u16 \<Rightarrow> u16 \<Rightarrow> ('c, unit) dio) option"

definition str_raise :: "err \<Rightarrow> string \<Rightarrow> ('s, 'a) act" where
  "str_raise e msg = fault (Exception e msg)"

definition lift_outcome :: "'a outcome \<Rightarrow> ('s, 'a) act" where
  "lift_outcome r = (\<lambda>s. (r, s))"

definition U8_MAX1 :: nat where
  "U8_MAX1 = 2 ^ 64"

definition the_section :: "DioEnv \<Rightarrow> sec_ref \<Rightarrow> ELF_Section" where
  "the_section env r = sections (elf_file env (fst r)) ! snd r"

definition cur_section :: "('c, sec_ref) dio" where
  "cur_section = (\<lambda>s. (case sSection s of None \<Rightarrow> Inl Undefined_Behaviour | Some r \<Rightarrow> Inr r, s))"

definition cur_unit :: "('c, DIO_UnitDescriptor) dio" where
  "cur_unit = (\<lambda>s. (case sUnit s of
       None \<Rightarrow> Inl Undefined_Behaviour
     | Some u \<Rightarrow> (case d_units s u of None \<Rightarrow> Inl Undefined_Behaviour | Some d \<Rightarrow> Inr d), s))"

definition upd_unit :: "(DIO_UnitDescriptor \<Rightarrow> DIO_UnitDescriptor) \<Rightarrow> ('c, unit) dio" where
  "upd_unit f = bnd cur_unit (\<lambda>d. modify (\<lambda>s. s\<lparr>d_units := (d_units s)(the (sUnit s) \<mapsto> f d)\<rparr>))"

section \<open>Caches\<close>

definition ABBREV_TABLE_SIZE :: nat where
  "ABBREV_TABLE_SIZE = 4 * 32 - 1"

definition dio_CloseELF :: "nat \<Rightarrow> ('c, unit) dio" where
  "dio_CloseELF f = modify (\<lambda>s. s\<lparr>d_caches := (d_caches s)(f := None)\<rparr>)"

definition dio_GetCache :: "nat \<Rightarrow> ('c, DIO_Cache) dio" where
  "dio_GetCache f =
     bnd (look d_caches) (\<lambda>cs.
     case cs f of
       Some c \<Rightarrow> ret c
     | None \<Rightarrow>
         let c = \<lparr>mStringTable = None, mStringTableSize = 0, mAbbrevTable = None\<rparr>
         in seq (modify (\<lambda>s. s\<lparr>d_caches := (d_caches s)(f \<mapsto> c)\<rparr>)) (ret c))"

definition put_cache :: "nat \<Rightarrow> DIO_Cache \<Rightarrow> ('c, unit) dio" where
  "put_cache f c = modify (\<lambda>s. s\<lparr>d_caches := (d_caches s)(f \<mapsto> c)\<rparr>)"

section \<open>Positions\<close>

definition loaded :: "DioEnv \<Rightarrow> sec_ref \<Rightarrow> byte list option" where
  "loaded env r = (let d = sec_data (the_section env r) in if d = [] then None else Some d)"

definition ref_size :: "DIO_UnitDescriptor \<Rightarrow> nat" where
  "ref_size u = (if mVersion u < 3 then unat (mAddressSize u) else if m64bit u then 8 else 4)"

definition dio_EnterSection :: "DioEnv \<Rightarrow> nat option \<Rightarrow> sec_ref \<Rightarrow> nat \<Rightarrow> ('c, unit) dio" where
  "dio_EnterSection env Unit Section Offset =
     (case elf_load env Section of
        Some e \<Rightarrow> raise e
      | None \<Rightarrow>
          seq (modify (\<lambda>s. s\<lparr>sSection := Some Section, sData := loaded env Section, sDataPos := Offset,
            sDataLen := length (sec_data (the_section env Section)),
            sBigEndian := big_endian (elf_file env (fst Section))\<rparr>))
          (seq (case Unit of
             Some u \<Rightarrow>
               bnd (look d_units) (\<lambda>us.
               case us u of
                 None \<Rightarrow> fault Undefined_Behaviour
               | Some d \<Rightarrow> modify (\<lambda>s. s\<lparr>sAddressSize := unat (mAddressSize d), sRefAddressSize := ref_size d\<rparr>))
           | None \<Rightarrow>
               (let n = (if elf64 (elf_file env (fst Section)) then 8 else 4)
                in modify (\<lambda>s. s\<lparr>sAddressSize := n, sRefAddressSize := n\<rparr>)))
          (seq (modify (\<lambda>s. s\<lparr>sUnit := Unit, dio_gEntryPos := 0\<rparr>))
          (seq (check (\<lambda>s. sData s \<noteq> None)) (check (\<lambda>s. sDataPos s < sDataLen s))))))"

definition dio_ExitSection :: "('c, unit) dio" where
  "dio_ExitSection =
     modify (\<lambda>s. s\<lparr>sSection := None, sDataPos := 0, sDataLen := 0, sData := None, sUnit := None\<rparr>)"

definition dio_GetPos :: "('c, nat) dio" where
  "dio_GetPos = look sDataPos"

definition data_at :: "int \<Rightarrow> ('c, data_ptr) dio" where
  "data_at d = look (\<lambda>s. case sSection s of None \<Rightarrow> Null | Some r \<Rightarrow> Data r (int (sDataPos s) + d))"

definition dio_GetDataPtr :: "('c, data_ptr) dio" where
  "dio_GetDataPtr = data_at 0"

text \<open>\<^verbatim>\<open>if (sDataPos + n > sDataLen) exception(ERR_EOF)\<close> and \<^verbatim>\<open>sDataPos += n\<close>\<close>

definition need :: "nat \<Rightarrow> ('c, unit) dio" where
  "need n = bnd (look (\<lambda>s. (sDataPos s + n) mod U8_MAX1 > sDataLen s)) (\<lambda>eof.
     if eof then raise ERR_EOF else ret ())"

definition move :: "nat \<Rightarrow> ('c, unit) dio" where
  "move n = modify (\<lambda>s. s\<lparr>sDataPos := (sDataPos s + n) mod U8_MAX1\<rparr>)"

definition dio_Skip :: "u64 \<Rightarrow> ('c, unit) dio" where
  "dio_Skip Bytes = seq (need (unat Bytes)) (move (unat Bytes))"

definition dio_SetPos :: "nat \<Rightarrow> ('c, unit) dio" where
  "dio_SetPos Pos = bnd (look (\<lambda>s. Pos > sDataLen s)) (\<lambda>eof.
     if eof then raise ERR_EOF else modify (\<lambda>s. s\<lparr>sDataPos := Pos\<rparr>))"

text \<open>The bytes at \<^verbatim>\<open>sData + sDataPos\<close>, and \<^verbatim>\<open>sData[sDataPos++]\<close>.\<close>

definition bytes_here :: "nat \<Rightarrow> ('c, byte list) dio" where
  "bytes_here n = (\<lambda>s. (case sData s of
       None \<Rightarrow> Inl Undefined_Behaviour
     | Some d \<Rightarrow> if sDataPos s + n \<le> length d then Inr (take n (drop (sDataPos s) d)) else Inl Undefined_Behaviour, s))"

definition next_byte :: "('c, byte) dio" where
  "next_byte = bnd (bytes_here 1) (\<lambda>bs. seq (move 1) (ret (hd bs)))"

definition dio_Read :: "nat \<Rightarrow> ('c, byte list) dio" where
  "dio_Read Size = seq (need Size) (bnd (bytes_here Size) (\<lambda>bs. seq (move Size) (ret bs)))"

section \<open>Numbers\<close>

definition dio_ReadU1F :: "('c, byte) dio" where
  "dio_ReadU1F = bnd (look (\<lambda>s. sDataPos s \<ge> sDataLen s)) (\<lambda>eof. if eof then raise ERR_EOF else next_byte)"

definition dio_ReadU1 :: "('c, byte) dio" where
  "dio_ReadU1 = bnd (look (\<lambda>s. sDataPos s < sDataLen s)) (\<lambda>more. if more then next_byte else dio_ReadU1F)"

definition dio_ReadU2 :: "('c, u16) dio" where
  "dio_ReadU2 =
     seq (need 2)
     (bnd next_byte (\<lambda>x0.
     bnd next_byte (\<lambda>x1.
     look (\<lambda>s. if sBigEndian s then push_bit 8 (ucast x0) OR ucast x1 else ucast x0 OR push_bit 8 (ucast x1)))))"

text \<open>The number whose bytes are given, lowest first. \<^verbatim>\<open>SWAP\<close> reverses the bytes.\<close>

fun le_word :: "byte list \<Rightarrow> 'w::len word" where
  "le_word [] = 0"
| "le_word (b # bs) = ucast b OR push_bit 8 (le_word bs)"

definition read_word :: "nat \<Rightarrow> ('c, 'w::len word) dio" where
  "read_word n =
     seq (need n)
     (bnd (bytes_here n) (\<lambda>bs.
     bnd (look sBigEndian) (\<lambda>swap.
     seq (move n) (ret (le_word (if swap then rev bs else bs))))))"

definition dio_ReadU4 :: "('c, u32) dio" where
  "dio_ReadU4 = read_word 4"

definition dio_ReadU8 :: "('c, u64) dio" where
  "dio_ReadU8 = read_word 8"

text \<open>The loops of the four readers of LEB128 numbers, with the shift count \<^verbatim>\<open>i\<close>.\<close>

lemma bnd_cong [fundef_cong]: "m = m' \<Longrightarrow> (\<And>x. f x = g x) \<Longrightarrow> bnd m f = bnd m' g"
  by presburger

function dio_uleb_loop :: "nat \<Rightarrow> 'w::len word \<Rightarrow> ('c, 'w word) dio" where
  "dio_uleb_loop i Res =
     bnd dio_ReadU1 (\<lambda>n.
     if i \<ge> LENGTH('w) then fault Undefined_Behaviour
     else
       let Res = Res OR push_bit i (ucast (n AND 0x7F))
       in if n AND 0x80 = 0 then ret Res else dio_uleb_loop (i + 7) Res)"
  by pat_completeness auto
termination
  by (relation "measure (\<lambda>(i, r :: 'w::len word). LENGTH('w::len) - i)") auto

function dio_sleb_loop :: "nat \<Rightarrow> 'w::len word \<Rightarrow> ('c, 'w word) dio" where
  "dio_sleb_loop i Res =
     bnd dio_ReadU1 (\<lambda>n.
     if i \<ge> LENGTH('w) then fault Undefined_Behaviour
     else
       let Res = Res OR push_bit i (ucast (n AND 0x7F))
       in if n AND 0x80 = 0 then ret (Res OR push_bit i (- ucast (n AND 0x40)))
          else dio_sleb_loop (i + 7) Res)"
  by pat_completeness auto
termination
  by (relation "measure (\<lambda>(i, r :: 'w::len word). LENGTH('w::len) - i)") auto

declare dio_uleb_loop.simps [simp del] dio_sleb_loop.simps [simp del]

definition dio_ReadULEB128 :: "('c, u32) dio" where
  "dio_ReadULEB128 = dio_uleb_loop 0 0"

definition dio_ReadSLEB128 :: "('c, u32) dio" where
  "dio_ReadSLEB128 = dio_sleb_loop 0 0"

definition dio_ReadU8LEB128 :: "('c, u64) dio" where
  "dio_ReadU8LEB128 = dio_uleb_loop 0 0"

definition dio_ReadS8LEB128 :: "('c, u64) dio" where
  "dio_ReadS8LEB128 = dio_sleb_loop 0 0"

text \<open>An address, and the section that \<^verbatim>\<open>drl_relocate\<close> stores through its last argument.\<close>

definition dio_ReadAddressX :: "DioEnv \<Rightarrow> nat \<Rightarrow> ('c, u64 \<times> sec_ref option) dio" where
  "dio_ReadAddressX env Size =
     bnd dio_GetPos (\<lambda>pos.
     let relocate = (\<lambda>x. bnd cur_section (\<lambda>sec.
           bnd (lift_outcome (drl_relocate env sec pos Size x)) (\<lambda>(x, dst). ret (take_bit (8 * Size) x, dst))))
     in if Size = 2 then bnd dio_ReadU2 (\<lambda>x. relocate (ucast x))
        else if Size = 4 then bnd dio_ReadU4 (\<lambda>x. relocate (ucast x))
        else if Size = 8 then bnd dio_ReadU8 relocate
        else str_raise ERR_INV_DWARF ''Invalid data size'')"

definition dio_ReadAddress :: "DioEnv \<Rightarrow> ('c, u64 \<times> sec_ref option) dio" where
  "dio_ReadAddress env = bnd (look sAddressSize) (dio_ReadAddressX env)"

text \<open>
  Loops that read a string up to its 0 byte. Every round reads a byte of the section, so one more round than the section has
  bytes is enough.
\<close>

definition data_fuel :: "'c DIO \<Rightarrow> nat" where
  "data_fuel s = Suc (sDataLen s)"

fun string_loop :: "nat \<Rightarrow> nat \<Rightarrow> ('c, nat) dio" where
  "string_loop 0 Length = fault Out_Of_Fuel"
| "string_loop (Suc fuel) Length =
     bnd dio_ReadU1 (\<lambda>n. if n \<noteq> 0 then string_loop fuel ((Length + 1) mod 2 ^ 32) else ret Length)"

definition dio_ReadString :: "('c, data_ptr) dio" where
  "dio_ReadString =
     bnd dio_GetDataPtr (\<lambda>Res.
     bnd (look data_fuel) (\<lambda>fuel.
     bnd (string_loop fuel 0) (\<lambda>Length. ret (if Length = 0 then Null else Res))))"

section \<open>String tables\<close>

fun find_section :: "string \<Rightarrow> nat \<Rightarrow> ELF_Section list \<Rightarrow> nat option \<Rightarrow> ('c, nat option) dio" where
  "find_section nm ID [] Section = ret Section"
| "find_section nm ID (sec # secs) Section =
     (if ID \<ge> 1 \<and> sec_name sec = nm then
        (if Section \<noteq> None then str_raise ERR_INV_DWARF (''More then one '' @ nm @ '' section in a file'')
         else find_section nm (ID + 1) secs (Some ID))
      else find_section nm (ID + 1) secs Section)"

definition dio_LoadStringTable :: "DioEnv \<Rightarrow> nat \<Rightarrow> ('c, sec_ref option \<times> nat) dio" where
  "dio_LoadStringTable env f =
     bnd (dio_GetCache f) (\<lambda>Cache.
     if mStringTable Cache \<noteq> None then ret (mStringTable Cache, mStringTableSize Cache)
     else
       bnd (find_section ''.debug_str'' 0 (sections (elf_file env f)) None) (\<lambda>Section.
       case Section of
         None \<Rightarrow> str_raise ERR_INV_DWARF ''Section .debug_str not found''
       | Some ID \<Rightarrow>
           let r = (f, ID);
               Cache = Cache\<lparr>mStringTableSize := length (sec_data (the_section env r)) mod 2 ^ 32\<rparr>
           in seq (put_cache f Cache)
              (case elf_load env r of
                 Some e \<Rightarrow> str_raise e ''Cannot read .debug_str section''
               | None \<Rightarrow>
                   let Cache = Cache\<lparr>mStringTable := (if loaded env r = None then None else Some r)\<rparr>
                   in seq (put_cache f Cache) (ret (mStringTable Cache, mStringTableSize Cache)))))"

definition dio_LoadAltStringTable :: "DioEnv \<Rightarrow> nat \<Rightarrow> ('c, sec_ref option \<times> nat) dio" where
  "dio_LoadAltStringTable env f =
     (case dwz_file (elf_file env f) of
        None \<Rightarrow> str_raise (errno env) ''Cannot open DWZ file''
      | Some g \<Rightarrow> dio_LoadStringTable env g)"

section \<open>Attributes\<close>

definition form_set :: "u64 \<Rightarrow> nat \<Rightarrow> ('c, unit) dio" where
  "form_set d n = modify (\<lambda>s. s\<lparr>dio_gFormData := d, dio_gFormDataSize := n\<rparr>)"

definition form_address :: "DioEnv \<Rightarrow> nat \<Rightarrow> ('c, u64) dio" where
  "form_address env n =
     bnd (dio_ReadAddressX env n) (\<lambda>(x, dst). seq (modify (\<lambda>s. s\<lparr>dio_gFormSection := dst\<rparr>)) (ret x))"

definition form_addr :: "data_ptr \<Rightarrow> ('c, unit) dio" where
  "form_addr p = modify (\<lambda>s. s\<lparr>dio_gFormDataAddr := p\<rparr>)"

definition dio_ReadFormAddr :: "DioEnv \<Rightarrow> ('c, unit) dio" where
  "dio_ReadFormAddr env =
     bnd (look sAddressSize) (\<lambda>n. bnd (form_address env n) (\<lambda>x. form_set x n))"

definition dio_ReadFormBlock :: "nat \<Rightarrow> ('c, unit) dio" where
  "dio_ReadFormBlock Size =
     seq (bnd (data_at 0) form_addr)
     (seq (modify (\<lambda>s. s\<lparr>dio_gFormDataSize := Size\<rparr>))
     (seq (need Size) (move Size)))"

definition dio_ReadFormData :: "nat \<Rightarrow> u64 \<Rightarrow> ('c, unit) dio" where
  "dio_ReadFormData Size Dt = seq (bnd (data_at (- int Size)) form_addr) (form_set Dt Size)"

definition dio_ReadFormRef :: "('c, unit) dio" where
  "dio_ReadFormRef = bnd dio_ReadU4 (\<lambda>x. form_set (ucast x) 4)"

definition unit_offset_size :: "('c, nat) dio" where
  "unit_offset_size = bnd cur_unit (\<lambda>u. ret (if m64bit u then 8 else 4))"

definition add_section_addr :: "DioEnv \<Rightarrow> u64 \<Rightarrow> ('c, u64) dio" where
  "add_section_addr env x = bnd cur_section (\<lambda>r. ret (x + sec_addr (the_section env r)))"

definition dio_ReadFormAltRef :: "DioEnv \<Rightarrow> ('c, unit) dio" where
  "dio_ReadFormAltRef env =
     bnd unit_offset_size (\<lambda>n. bnd (form_address env n) (\<lambda>x. bnd (add_section_addr env x) (\<lambda>x. form_set x n)))"

definition AT_sibling :: u16 where "AT_sibling = 0x0001"
definition AT_stmt_list :: u16 where "AT_stmt_list = 0x0010"
definition AT_ranges :: u16 where "AT_ranges = 0x0055"

definition dio_ReadFormRelRef :: "DioEnv \<Rightarrow> u16 \<Rightarrow> u64 \<Rightarrow> ('c, unit) dio" where
  "dio_ReadFormRelRef env Attr Offset =
     bnd cur_unit (\<lambda>u.
     seq (if mUnitSize u = 0 then ret ()
          else if Attr = AT_sibling \<and> unat Offset = mUnitSize u then ret ()
          else if unat Offset \<ge> mUnitSize u then str_raise ERR_INV_DWARF ''Invalid REF attribute value''
          else ret ())
     (bnd (add_section_addr env (word_of_nat (mUnitOffs u) + Offset)) (\<lambda>x.
     bnd (look sAddressSize) (\<lambda>n. form_set x n))))"

definition dio_ReadFormRefAddr :: "DioEnv \<Rightarrow> ('c, unit) dio" where
  "dio_ReadFormRefAddr env =
     bnd (look sRefAddressSize) (\<lambda>n.
       bnd (form_address env n) (\<lambda>x. bnd (add_section_addr env x) (\<lambda>x. form_set x n)))"

fun form_string_loop :: "nat \<Rightarrow> ('c, unit) dio" where
  "form_string_loop 0 = fault Out_Of_Fuel"
| "form_string_loop (Suc fuel) =
     bnd dio_ReadU1 (\<lambda>n.
     if n \<noteq> 0 then seq (modify (\<lambda>s. s\<lparr>dio_gFormDataSize := dio_gFormDataSize s + 1\<rparr>)) (form_string_loop fuel)
     else ret ())"

definition dio_ReadFormString :: "('c, unit) dio" where
  "dio_ReadFormString =
     seq (bnd (data_at 0) form_addr)
     (seq (modify (\<lambda>s. s\<lparr>dio_gFormDataSize := 1\<rparr>))
     (bnd (look data_fuel) form_string_loop))"

text \<open>The loop over a string of a string table, given the table, its size and the offset.\<close>

function strp_loop :: "byte list \<Rightarrow> nat \<Rightarrow> string \<Rightarrow> nat \<Rightarrow> ('c, unit) dio" where
  "strp_loop StringTable StringTableSize msg Offset =
     (if Offset \<ge> StringTableSize then str_raise ERR_INV_DWARF msg
      else if Offset \<ge> length StringTable then fault Undefined_Behaviour
      else if StringTable ! Offset = 0 then ret ()
      else seq (modify (\<lambda>s. s\<lparr>dio_gFormDataSize := dio_gFormDataSize s + 1\<rparr>))
             (strp_loop StringTable StringTableSize msg (Offset + 1)))"
  by pat_completeness auto
termination
  by (relation "measure (\<lambda>(d, n, msg, offs). n - offs)") auto

declare strp_loop.simps [simp del]

definition form_string_ref ::
    "DioEnv \<Rightarrow> (nat \<Rightarrow> ('c, sec_ref option \<times> nat) dio) \<Rightarrow> string \<Rightarrow> ('c, unit) dio" where
  "form_string_ref env load_table msg =
     bnd unit_offset_size (\<lambda>n.
     bnd (form_address env n) (\<lambda>Offset.
     bnd cur_section (\<lambda>sec.
     bnd (load_table (fst sec)) (\<lambda>(StringTable, StringTableSize).
     seq (form_addr (case StringTable of None \<Rightarrow> Null | Some r \<Rightarrow> Data r (uint Offset)))
     (seq (modify (\<lambda>s. s\<lparr>dio_gFormDataSize := 1\<rparr>))
     (strp_loop (case StringTable of None \<Rightarrow> [] | Some r \<Rightarrow> sec_data (the_section env r)) StringTableSize msg
       (unat Offset)))))))"

definition dio_ReadFormStringRef :: "DioEnv \<Rightarrow> ('c, unit) dio" where
  "dio_ReadFormStringRef env = form_string_ref env (dio_LoadStringTable env) ''Invalid FORM_STRP attribute''"

definition dio_ReadFormAltStringRef :: "DioEnv \<Rightarrow> ('c, unit) dio" where
  "dio_ReadFormAltStringRef env =
     form_string_ref env (dio_LoadAltStringTable env) ''Invalid FORM_STRP_ALT attribute''"

abbreviation FORM_ADDR :: u16 where "FORM_ADDR \<equiv> 0x1"
abbreviation FORM_REF :: u16 where "FORM_REF \<equiv> 0x2"
abbreviation FORM_BLOCK2 :: u16 where "FORM_BLOCK2 \<equiv> 0x3"
abbreviation FORM_BLOCK4 :: u16 where "FORM_BLOCK4 \<equiv> 0x4"
abbreviation FORM_DATA2 :: u16 where "FORM_DATA2 \<equiv> 0x5"
abbreviation FORM_DATA4 :: u16 where "FORM_DATA4 \<equiv> 0x6"
abbreviation FORM_DATA8 :: u16 where "FORM_DATA8 \<equiv> 0x7"
abbreviation FORM_STRING :: u16 where "FORM_STRING \<equiv> 0x8"
abbreviation FORM_BLOCK :: u16 where "FORM_BLOCK \<equiv> 0x9"
abbreviation FORM_BLOCK1 :: u16 where "FORM_BLOCK1 \<equiv> 0xa"
abbreviation FORM_DATA1 :: u16 where "FORM_DATA1 \<equiv> 0xb"
abbreviation FORM_FLAG :: u16 where "FORM_FLAG \<equiv> 0xc"
abbreviation FORM_SDATA :: u16 where "FORM_SDATA \<equiv> 0xd"
abbreviation FORM_STRP :: u16 where "FORM_STRP \<equiv> 0xe"
abbreviation FORM_UDATA :: u16 where "FORM_UDATA \<equiv> 0xf"
abbreviation FORM_REF_ADDR :: u16 where "FORM_REF_ADDR \<equiv> 0x10"
abbreviation FORM_REF1 :: u16 where "FORM_REF1 \<equiv> 0x11"
abbreviation FORM_REF2 :: u16 where "FORM_REF2 \<equiv> 0x12"
abbreviation FORM_REF4 :: u16 where "FORM_REF4 \<equiv> 0x13"
abbreviation FORM_REF8 :: u16 where "FORM_REF8 \<equiv> 0x14"
abbreviation FORM_REF_UDATA :: u16 where "FORM_REF_UDATA \<equiv> 0x15"
abbreviation FORM_INDIRECT :: u16 where "FORM_INDIRECT \<equiv> 0x16"
abbreviation FORM_SEC_OFFSET :: u16 where "FORM_SEC_OFFSET \<equiv> 0x17"
abbreviation FORM_EXPRLOC :: u16 where "FORM_EXPRLOC \<equiv> 0x18"
abbreviation FORM_FLAG_PRESENT :: u16 where "FORM_FLAG_PRESENT \<equiv> 0x19"
abbreviation FORM_REF_SIG8 :: u16 where "FORM_REF_SIG8 \<equiv> 0x20"
abbreviation FORM_GNU_REF_ALT :: u16 where "FORM_GNU_REF_ALT \<equiv> 0x1f20"
abbreviation FORM_GNU_STRP_ALT :: u16 where "FORM_GNU_STRP_ALT \<equiv> 0x1f21"

definition FORM_codes :: "u16 list" where
  "FORM_codes = [FORM_ADDR, FORM_REF, FORM_BLOCK2, FORM_BLOCK4, FORM_DATA2, FORM_DATA4, FORM_DATA8, FORM_STRING, FORM_BLOCK, FORM_BLOCK1, FORM_DATA1, FORM_FLAG, FORM_SDATA, FORM_STRP, FORM_UDATA, FORM_REF_ADDR, FORM_REF1, FORM_REF2, FORM_REF4, FORM_REF8, FORM_REF_UDATA, FORM_INDIRECT, FORM_SEC_OFFSET, FORM_EXPRLOC, FORM_FLAG_PRESENT, FORM_REF_SIG8, FORM_GNU_REF_ALT, FORM_GNU_STRP_ALT]"

definition dio_ReadAttribute :: "DioEnv \<Rightarrow> u16 \<Rightarrow> u16 \<Rightarrow> ('c, unit) dio" where
  "dio_ReadAttribute env Attr Form =
     seq (modify (\<lambda>s. s\<lparr>dio_gFormSection := None, dio_gFormDataAddr := Null, dio_gFormDataSize := 0, dio_gFormData := 0\<rparr>))
     (bnd (if Attr = AT_stmt_list \<or> Attr = AT_ranges
           then bnd cur_section (\<lambda>r. ret (sec_relocate (the_section env r))) else ret False) (\<lambda>reloc.
     if reloc then
       bnd (if Form = FORM_DATA2 then ret 2
            else if Form = FORM_DATA4 then ret 4
            else if Form = FORM_DATA8 then ret 8
            else if Form = FORM_SEC_OFFSET then unit_offset_size
            else str_raise ERR_INV_DWARF ''FORM_DATA or FORM_SEC_OFFSET was expected'') (\<lambda>Size.
       bnd (form_address env Size) (\<lambda>x. form_set x Size))
     else if Form = FORM_ADDR then dio_ReadFormAddr env
     else if Form = FORM_REF then dio_ReadFormRef
     else if Form = FORM_GNU_REF_ALT then dio_ReadFormAltRef env
     else if Form = FORM_BLOCK1 then bnd dio_ReadU1 (\<lambda>n. dio_ReadFormBlock (unat n))
     else if Form = FORM_BLOCK2 then bnd dio_ReadU2 (\<lambda>n. dio_ReadFormBlock (unat n))
     else if Form = FORM_BLOCK4 then bnd dio_ReadU4 (\<lambda>n. dio_ReadFormBlock (unat n))
     else if Form = FORM_BLOCK then bnd dio_ReadULEB128 (\<lambda>n. dio_ReadFormBlock (unat n))
     else if Form = FORM_DATA1 then bnd dio_ReadU1 (\<lambda>x. dio_ReadFormData 1 (ucast x))
     else if Form = FORM_DATA2 then bnd dio_ReadU2 (\<lambda>x. dio_ReadFormData 2 (ucast x))
     else if Form = FORM_DATA4 then bnd dio_ReadU4 (\<lambda>x. dio_ReadFormData 4 (ucast x))
     else if Form = FORM_DATA8 then bnd dio_ReadU8 (\<lambda>x. dio_ReadFormData 8 x)
     else if Form = FORM_SDATA then bnd dio_ReadS8LEB128 (\<lambda>x. seq (dio_ReadFormData 8 x) (form_addr Null))
     else if Form = FORM_UDATA then bnd dio_ReadU8LEB128 (\<lambda>x. seq (dio_ReadFormData 8 x) (form_addr Null))
     else if Form = FORM_FLAG then bnd dio_ReadU1 (\<lambda>x. dio_ReadFormData 1 (ucast x))
     else if Form = FORM_FLAG_PRESENT then dio_ReadFormData 0 1
     else if Form = FORM_STRING then dio_ReadFormString
     else if Form = FORM_STRP then dio_ReadFormStringRef env
     else if Form = FORM_GNU_STRP_ALT then dio_ReadFormAltStringRef env
     else if Form = FORM_REF_ADDR then dio_ReadFormRefAddr env
     else if Form = FORM_REF1 then bnd dio_ReadU1 (\<lambda>x. dio_ReadFormRelRef env Attr (ucast x))
     else if Form = FORM_REF2 then bnd dio_ReadU2 (\<lambda>x. dio_ReadFormRelRef env Attr (ucast x))
     else if Form = FORM_REF4 then bnd dio_ReadU4 (\<lambda>x. dio_ReadFormRelRef env Attr (ucast x))
     else if Form = FORM_REF8 then bnd dio_ReadU8 (\<lambda>x. dio_ReadFormRelRef env Attr x)
     else if Form = FORM_REF_UDATA then bnd dio_ReadULEB128 (\<lambda>x. dio_ReadFormRelRef env Attr (ucast x))
     else if Form = FORM_SEC_OFFSET then
       bnd unit_offset_size (\<lambda>n. bnd (form_address env n) (\<lambda>x. dio_ReadFormData n x))
     else if Form = FORM_EXPRLOC then bnd dio_ReadULEB128 (\<lambda>n. dio_ReadFormBlock (unat n))
     else if Form = FORM_REF_SIG8 then bnd dio_ReadU8 (\<lambda>x. dio_ReadFormData 8 x)
     else str_raise ERR_INV_DWARF ''Invalid FORM code''))"

section \<open>Checks\<close>

definition dio_ChkFlag :: "u16 \<Rightarrow> ('c, unit) dio" where
  "dio_ChkFlag Form =
     (if Form \<in> {FORM_DATA1, FORM_FLAG, FORM_FLAG_PRESENT} then ret ()
      else str_raise ERR_INV_DWARF ''FORM_FLAG expected'')"

definition dio_ChkRef :: "u16 \<Rightarrow> ('c, unit) dio" where
  "dio_ChkRef Form =
     (if Form \<in> {FORM_REF, FORM_REF_ADDR, FORM_REF1, FORM_REF2, FORM_REF4, FORM_REF8, FORM_REF_UDATA} then ret ()
      else str_raise ERR_INV_DWARF ''FORM_REF expected'')"

definition dio_ChkAddr :: "u16 \<Rightarrow> ('c, unit) dio" where
  "dio_ChkAddr Form = (if Form = FORM_ADDR then ret () else str_raise ERR_INV_DWARF ''FORM_ADDR expected'')"

definition dio_ChkData :: "u16 \<Rightarrow> ('c, unit) dio" where
  "dio_ChkData Form =
     (if Form \<in> {FORM_DATA1, FORM_DATA2, FORM_DATA4, FORM_DATA8, FORM_SDATA, FORM_UDATA, FORM_SEC_OFFSET} then ret ()
      else str_raise ERR_INV_DWARF ''FORM_DATA expected'')"

definition dio_ChkBlock :: "DioEnv \<Rightarrow> u16 \<Rightarrow> ('c, data_ptr \<times> nat) dio" where
  "dio_ChkBlock env Form =
     (if Form \<in> {FORM_BLOCK1, FORM_BLOCK2, FORM_BLOCK4, FORM_BLOCK, FORM_DATA1, FORM_DATA2, FORM_DATA4, FORM_DATA8,
          FORM_EXPRLOC, FORM_SEC_OFFSET} then
        bnd cur_section (\<lambda>r.
        seq (check (\<lambda>s. case dio_gFormDataAddr s of Null \<Rightarrow> False | Data r' offs \<Rightarrow>
          r' = r \<and> 0 \<le> offs \<and> offs < int (length (sec_data (the_section env r)))))
        (look (\<lambda>s. (dio_gFormDataAddr s, dio_gFormDataSize s))))
      else str_raise ERR_INV_DWARF ''FORM_BLOCK expected'')"

definition dio_ChkString :: "u16 \<Rightarrow> ('c, unit) dio" where
  "dio_ChkString Form =
     (if Form \<in> {FORM_STRING, FORM_STRP, FORM_GNU_STRP_ALT} then ret ()
      else str_raise ERR_INV_DWARF ''FORM_STRING expected'')"

section \<open>Entries\<close>

definition DWARF_ENTRY_NO_CHILDREN :: u16 where "DWARF_ENTRY_NO_CHILDREN = 2"
definition DWARF_ENTRY_HAS_CHILDREN :: u16 where "DWARF_ENTRY_HAS_CHILDREN = 3"

definition unit_tags :: "u16 list" where
  "unit_tags = [0x0011, 0x003c, 0x0041]"

text \<open>
  \<^verbatim>\<open>AT_specification_v1\<close>, \<^verbatim>\<open>AT_specification_v2\<close>, \<^verbatim>\<open>AT_abstract_origin\<close> and
  \<^verbatim>\<open>AT_extension\<close>, which are read even if the caller asks for another attribute.
\<close>

definition link_attrs :: "u16 list" where
  "link_attrs = [0x002b, 0x0047, 0x0031, 0x0054]"

text \<open>
  The start of a round: the attribute, its form, and the position in the abbreviation behind it. The entries of DWARF 1
  have their attributes inline.
\<close>

definition next_attr ::
    "DIO_Abbreviation option \<Rightarrow> nat \<Rightarrow> bool \<Rightarrow> nat \<Rightarrow> ('c, u16 \<times> u16 \<times> nat) dio" where
  "next_attr Abbr EntrySize Init AttrPos =
     (if Init then
        ret (0, case Abbr of
            None \<Rightarrow> DWARF_ENTRY_NO_CHILDREN
          | Some a \<Rightarrow> if mChildren a then DWARF_ENTRY_HAS_CHILDREN else DWARF_ENTRY_NO_CHILDREN, AttrPos)
      else case Abbr of
        Some a \<Rightarrow>
          if AttrPos < length (mAttrs a) then
            if AttrPos + 1 \<ge> length (mAttrs a) then fault Undefined_Behaviour
            else let Attr = mAttrs a ! AttrPos; Form = mAttrs a ! (AttrPos + 1)
            in bnd (if Form = FORM_INDIRECT then bnd dio_ReadULEB128 (\<lambda>x. ret (ucast x)) else ret Form) (\<lambda>Form.
               ret (Attr, Form, AttrPos + 2))
          else ret (0, 0, AttrPos)
      | None \<Rightarrow>
          bnd (look (\<lambda>s. int (sDataPos s) \<le> int (dio_gEntryPos s) + int EntrySize - 2)) (\<lambda>more.
          if more then
            bnd next_byte (\<lambda>x0.
            bnd next_byte (\<lambda>x1.
            bnd (look sBigEndian) (\<lambda>big.
            let x = (if big then push_bit 8 (ucast x0) OR ucast x1 else ucast x0 OR push_bit 8 (ucast x1))
            in ret (drop_bit 4 (x AND 0xfff0), x AND 0xF, AttrPos))))
          else ret (0, 0, AttrPos)))"

text \<open>
  The inner \<^verbatim>\<open>switch\<close> of the shortcut: skips the attribute, or returns \<open>False\<close> if the form is not
  listed. In \<^verbatim>\<open>sDataPos += dio_ReadU2()\<close> the position that the call leaves is the one that is added to.
\<close>

definition skip_form :: "u16 \<Rightarrow> ('c, bool) dio" where
  "skip_form Form =
     (let skip = (\<lambda>n. seq (move n) (ret True)); offs = bnd unit_offset_size skip in
      if Form = FORM_ADDR then bnd (look sAddressSize) skip
      else if Form = FORM_REF then skip 4
      else if Form = FORM_GNU_REF_ALT then offs
      else if Form = FORM_BLOCK1 then bnd dio_ReadU1F (\<lambda>n. skip (unat n))
      else if Form = FORM_BLOCK2 then bnd dio_ReadU2 (\<lambda>n. skip (unat n))
      else if Form = FORM_BLOCK4 then bnd dio_ReadU4 (\<lambda>n. skip (unat n))
      else if Form = FORM_BLOCK then bnd dio_ReadULEB128 (\<lambda>n. skip (unat n))
      else if Form = FORM_DATA1 then skip 1
      else if Form = FORM_DATA2 then skip 2
      else if Form = FORM_DATA4 then skip 4
      else if Form = FORM_DATA8 then skip 8
      else if Form = FORM_SDATA then bnd dio_ReadS8LEB128 (\<lambda>_. ret True)
      else if Form = FORM_UDATA then bnd dio_ReadU8LEB128 (\<lambda>_. ret True)
      else if Form = FORM_FLAG then skip 1
      else if Form = FORM_FLAG_PRESENT then ret True
      else if Form = FORM_STRING then seq dio_ReadFormString (ret True)
      else if Form = FORM_STRP then offs
      else if Form = FORM_GNU_STRP_ALT then offs
      else if Form = FORM_REF_ADDR then bnd (look sRefAddressSize) skip
      else if Form = FORM_REF1 then skip 1
      else if Form = FORM_REF2 then skip 2
      else if Form = FORM_REF4 then skip 4
      else if Form = FORM_REF8 then skip 8
      else if Form = FORM_REF_UDATA then bnd dio_ReadULEB128 (\<lambda>_. ret True)
      else if Form = FORM_SEC_OFFSET then offs
      else if Form = FORM_EXPRLOC then bnd dio_ReadULEB128 (\<lambda>n. skip (unat n))
      else if Form = FORM_REF_SIG8 then skip 8
      else ret False)"

text \<open>What follows the attribute of an entry that describes a unit.\<close>

definition unit_entry :: "DioEnv \<Rightarrow> u16 \<Rightarrow> u16 \<Rightarrow> u16 \<Rightarrow> ('c, unit) dio" where
  "unit_entry env Tag Attr Form =
     (if Tag \<in> set unit_tags then
        bnd cur_unit (\<lambda>u.
        if Attr = AT_sibling \<and> mUnitSize u = 0 then
          seq (dio_ChkRef Form)
          (seq (check (\<lambda>_. mVersion u = 1))
          (bnd cur_section (\<lambda>r.
          bnd (look dio_gFormData) (\<lambda>x.
          let n = unat (ucast (x - sec_addr (the_section env r) - word_of_nat (mUnitOffs u)) :: u32)
          in seq (upd_unit (\<lambda>u. u\<lparr>mUnitSize := n\<rparr>))
             (seq (check (\<lambda>s. mUnitOffs u < sDataPos s)) (check (\<lambda>s. mUnitOffs u + n \<ge> sDataPos s)))))))
        else if Attr = 0 \<and> Form = 0 \<and> mUnitSize u = 0
        then str_raise ERR_INV_DWARF ''Missing compilation unit sibling attribute''
        else ret ())
      else ret ())"

definition callback :: "'c DIO_EntryCallBack \<Rightarrow> u16 \<Rightarrow> u16 \<Rightarrow> u16 \<Rightarrow> ('c, unit) dio" where
  "callback CallBack Tag Attr Form = (case CallBack of None \<Rightarrow> ret () | Some f \<Rightarrow> f Tag Attr Form)"

text \<open>
  The loop over the attributes of an entry. With an abbreviation it makes one round for each attribute, one before and one
  behind them; the entries of DWARF 1 take two bytes for each attribute.
\<close>

fun entry_loop ::
    "DioEnv \<Rightarrow> 'c DIO_EntryCallBack \<Rightarrow> u16 \<Rightarrow> DIO_Abbreviation option \<Rightarrow> u16 \<Rightarrow> nat \<Rightarrow> nat \<Rightarrow> bool \<Rightarrow> nat \<Rightarrow> ('c, bool) dio" where
  "entry_loop env cb TargetAttr Abbr Tag EntrySize 0 Init AttrPos = fault Out_Of_Fuel"
| "entry_loop env cb TargetAttr Abbr Tag EntrySize (Suc fuel) Init AttrPos =
     bnd (next_attr Abbr EntrySize Init AttrPos) (\<lambda>(Attr, Form, AttrPos).
     if TargetAttr \<noteq> 0 \<and> Attr \<noteq> TargetAttr \<and> Attr = 0 then
       (if Form \<noteq> 0 then entry_loop env cb TargetAttr Abbr Tag EntrySize fuel False AttrPos else ret True)
     else
       bnd (if TargetAttr \<noteq> 0 \<and> Attr \<noteq> TargetAttr \<and> Attr \<notin> set link_attrs then skip_form Form else ret False) (\<lambda>skipped.
       if skipped then entry_loop env cb TargetAttr Abbr Tag EntrySize fuel False AttrPos
       else
         seq (if Attr \<noteq> 0 \<and> Form \<noteq> 0 then dio_ReadAttribute env Attr Form else ret ())
         (seq (unit_entry env Tag Attr Form)
         (seq (callback cb Tag Attr Form)
         (if Attr = 0 \<and> Form = 0 then ret True
          else entry_loop env cb TargetAttr Abbr Tag EntrySize fuel False AttrPos)))))"

fun skip_bytes :: "nat \<Rightarrow> ('c, unit) dio" where
  "skip_bytes 0 = ret ()"
| "skip_bytes (Suc n) = bnd dio_ReadU1 (\<lambda>_. skip_bytes n)"

definition dio_ReadEntry :: "DioEnv \<Rightarrow> 'c DIO_EntryCallBack \<Rightarrow> u16 \<Rightarrow> ('c, bool) dio" where
  "dio_ReadEntry env cb TargetAttr =
     seq (modify (\<lambda>s. s\<lparr>dio_gEntryPos := sDataPos s\<rparr>))
     (bnd cur_unit (\<lambda>u.
     if mVersion u \<ge> 2 then
       bnd dio_ReadULEB128 (\<lambda>AbbrCode.
       if AbbrCode = 0 then ret False
       else if unat AbbrCode \<ge> length (mUnitAbbrevs u) then str_raise ERR_INV_DWARF ''Invalid abbreviation code''
       else case mUnitAbbrevs u ! unat AbbrCode of
         None \<Rightarrow> str_raise ERR_INV_DWARF ''Invalid abbreviation code''
       | Some a \<Rightarrow> entry_loop env cb TargetAttr (Some a) (mTag a) 0 (length (mAttrs a) + 2) True 0)
     else
       bnd dio_ReadU4 (\<lambda>EntrySize.
       if EntrySize < 8 then seq (skip_bytes (unat EntrySize - 4)) (ret False)
       else
         bnd dio_ReadU2 (\<lambda>Tag.
         entry_loop env cb TargetAttr None Tag (unat EntrySize) (unat EntrySize + 2) True 0))))"

section \<open>Abbreviations\<close>

definition dio_AbbrevTableHash :: "nat \<Rightarrow> nat" where
  "dio_AbbrevTableHash Offset = (Offset mod 2 ^ 32) div 16 mod ABBREV_TABLE_SIZE"

definition dio_FindAbbrevTable :: "('c, unit) dio" where
  "dio_FindAbbrevTable =
     bnd cur_section (\<lambda>r.
     bnd (dio_GetCache (fst r)) (\<lambda>Cache.
     bnd cur_unit (\<lambda>u.
     let found = (case mAbbrevTable Cache of
           None \<Rightarrow> None
         | Some t \<Rightarrow> find (\<lambda>a. mOffset a = mAbbrevTableOffs u) (t ! dio_AbbrevTableHash (mAbbrevTableOffs u)))
     in case found of
          Some a \<Rightarrow> upd_unit (\<lambda>u. u\<lparr>mUnitAbbrevs := mTable a\<rparr>)
        | None \<Rightarrow> seq (upd_unit (\<lambda>u. u\<lparr>mUnitAbbrevs := []\<rparr>))
                    (str_raise ERR_INV_DWARF ''Invalid abbreviation table offset''))))"

text \<open>The attributes of an abbreviation; \<open>attrs\<close> is the used part of \<^verbatim>\<open>AttrBuf\<close>.\<close>

fun attrs_loop :: "nat \<Rightarrow> u16 list \<Rightarrow> ('c, u16 list) dio" where
  "attrs_loop 0 attrs = fault Out_Of_Fuel"
| "attrs_loop (Suc fuel) attrs =
     bnd dio_ReadULEB128 (\<lambda>Attr.
     bnd dio_ReadULEB128 (\<lambda>Form.
     if Attr \<ge> 0x10000 \<or> Form \<ge> 0x10000 then str_raise ERR_INV_DWARF ''Invalid abbreviation table''
     else if Attr = 0 \<and> Form = 0 then ret attrs
     else attrs_loop fuel (attrs @ [ucast Attr, ucast Form])))"

text \<open>The buffer of abbreviations, made long enough for \<open>n\<close> of them and cleared from \<open>pos\<close> on.\<close>

definition grow_buf :: "nat \<Rightarrow> nat \<Rightarrow> DIO_Abbreviation option list \<Rightarrow> DIO_Abbreviation option list" where
  "grow_buf pos n buf =
     (let buf = (if n > length buf then buf @ replicate (n + 128 - length buf) None else buf)
      in take pos buf @ replicate (n - pos) None @ drop n buf)"

definition add_set :: "nat \<Rightarrow> nat \<Rightarrow> nat \<Rightarrow> ('c, unit) dio" where
  "add_set f TableOffset AbbrevBufPos =
     bnd (look AbbrevBuf) (\<lambda>buf.
     bnd (look d_caches) (\<lambda>cs.
     case cs f of
       None \<Rightarrow> fault Undefined_Behaviour
     | Some Cache \<Rightarrow>
         (case mAbbrevTable Cache of
            None \<Rightarrow> fault Undefined_Behaviour
          | Some t \<Rightarrow>
              let Hash = dio_AbbrevTableHash TableOffset;
                  set1 = \<lparr>mOffset = TableOffset, mTable = take AbbrevBufPos buf\<rparr>
              in seq (put_cache f (Cache\<lparr>mAbbrevTable := Some (t[Hash := set1 # t ! Hash])\<rparr>))
                 (modify (\<lambda>s. s\<lparr>AbbrevBuf := replicate AbbrevBufPos None @ drop AbbrevBufPos buf\<rparr>)))))"

fun abbrev_loop :: "nat \<Rightarrow> nat \<Rightarrow> nat \<Rightarrow> nat \<Rightarrow> ('c, unit) dio" where
  "abbrev_loop f 0 TableOffset AbbrevBufPos = fault Out_Of_Fuel"
| "abbrev_loop f (Suc fuel) TableOffset AbbrevBufPos =
     bnd dio_ReadULEB128 (\<lambda>ID.
     if ID = 0 then
       seq (add_set f TableOffset AbbrevBufPos)
       (bnd (look (\<lambda>s. (sDataPos s, sDataPos s \<ge> sDataLen s))) (\<lambda>(pos, over).
       if over then ret () else abbrev_loop f fuel pos 0))
     else if ID \<ge> 0x1000000 then str_raise ERR_INV_DWARF ''Invalid abbreviation table''
     else
       let n = (if unat ID \<ge> AbbrevBufPos then unat ID + 1 else AbbrevBufPos)
       in seq (if unat ID \<ge> AbbrevBufPos
               then modify (\<lambda>s. s\<lparr>AbbrevBuf := grow_buf AbbrevBufPos n (AbbrevBuf s)\<rparr>) else ret ())
          (bnd dio_ReadULEB128 (\<lambda>Tag.
          bnd dio_ReadU1 (\<lambda>Children.
          bnd (look data_fuel) (\<lambda>fuel1.
          bnd (attrs_loop fuel1 []) (\<lambda>attrs.
          bnd (look (\<lambda>s. AbbrevBuf s ! unat ID)) (\<lambda>old.
          if old \<noteq> None then str_raise ERR_INV_DWARF ''Invalid abbreviation table''
          else
            let a = \<lparr>mTag = ucast Tag, mChildren = (Children \<noteq> 0), mAttrs = attrs\<rparr>
            in seq (modify (\<lambda>s. s\<lparr>AbbrevBuf := (AbbrevBuf s)[unat ID := Some a]\<rparr>))
               (abbrev_loop f fuel TableOffset n))))))))"

definition dio_LoadAbbrevTable :: "DioEnv \<Rightarrow> nat \<Rightarrow> ('c, unit) dio" where
  "dio_LoadAbbrevTable env f =
     bnd (dio_GetCache f) (\<lambda>Cache.
     if mAbbrevTable Cache \<noteq> None then ret ()
     else
       seq (put_cache f (Cache\<lparr>mAbbrevTable := Some (replicate ABBREV_TABLE_SIZE [])\<rparr>))
       (bnd (find_section ''.debug_abbrev'' 0 (sections (elf_file env f)) None) (\<lambda>Section.
       case Section of
         None \<Rightarrow> ret ()
       | Some ID \<Rightarrow>
           seq (dio_EnterSection env None (f, ID) 0)
           (seq (bnd (look data_fuel) (\<lambda>fuel. abbrev_loop f fuel 0 0))
           dio_ExitSection))))"

section \<open>Units\<close>

definition unit_header :: "DioEnv \<Rightarrow> string \<Rightarrow> ('c, unit) dio" where
  "unit_header env name =
     bnd dio_ReadU4 (\<lambda>n.
     seq (if n = 0xffffffff
          then seq (upd_unit (\<lambda>u. u\<lparr>m64bit := True\<rparr>))
                 (bnd dio_ReadU8 (\<lambda>n. upd_unit (\<lambda>u. u\<lparr>mUnitSize := unat (n + 12)\<rparr>)))
          else upd_unit (\<lambda>u. u\<lparr>mUnitSize := unat n + 4\<rparr>))
     (bnd dio_ReadU2 (\<lambda>v.
     seq (upd_unit (\<lambda>u. u\<lparr>mVersion := v\<rparr>))
     (bnd unit_offset_size (\<lambda>n.
     bnd (dio_ReadAddressX env n) (\<lambda>(offs, Sect).
     seq (upd_unit (\<lambda>u. u\<lparr>mAbbrevTableOffs := unat offs\<rparr>))
     (bnd dio_ReadU1 (\<lambda>a.
     seq (upd_unit (\<lambda>u. u\<lparr>mAddressSize := a\<rparr>))
     (seq (if name = ''.debug_types'' then
             bnd dio_ReadU8 (\<lambda>sig.
             seq (upd_unit (\<lambda>u. u\<lparr>mTypeSignature := sig\<rparr>))
             (bnd unit_offset_size (\<lambda>n.
             bnd (if n = 8 then dio_ReadU8 else bnd dio_ReadU4 (\<lambda>x. ret (ucast x))) (\<lambda>offs.
             upd_unit (\<lambda>u. u\<lparr>mTypeOffset := offs\<rparr>)))))
           else ret ())
     dio_FindAbbrevTable)))))))))"

text \<open>
  The loop over the entries of a unit. Every entry takes at least one byte of the section.
\<close>

fun entries_loop :: "DioEnv \<Rightarrow> 'c DIO_EntryCallBack \<Rightarrow> nat \<Rightarrow> ('c, unit) dio" where
  "entries_loop env cb 0 = fault Out_Of_Fuel"
| "entries_loop env cb (Suc fuel) =
     bnd cur_unit (\<lambda>u.
     bnd dio_GetPos (\<lambda>pos.
     if mUnitSize u = 0 \<or> pos < (mUnitOffs u + mUnitSize u) mod U8_MAX1
     then bnd (dio_ReadEntry env cb 0) (\<lambda>_. entries_loop env cb fuel)
     else ret ()))"

definition zero_unit :: DIO_UnitDescriptor where
  "zero_unit = \<lparr>mSection = None, mVersion = 0, m64bit = False, mAddressSize = 0, mUnitOffs = 0, mUnitSize = 0,
     mAbbrevTableOffs = 0, mTypeSignature = 0, mTypeOffset = 0, mUnitAbbrevs = []\<rparr>"

definition dio_ReadUnit :: "DioEnv \<Rightarrow> nat \<Rightarrow> 'c DIO_EntryCallBack \<Rightarrow> ('c, unit) dio" where
  "dio_ReadUnit env Unit cb =
     seq (modify (\<lambda>s. s\<lparr>d_units := (d_units s)(Unit \<mapsto> zero_unit\<lparr>mSection := sSection s, mUnitOffs := sDataPos s\<rparr>),
       sUnit := Some Unit\<rparr>))
     (bnd cur_section (\<lambda>r.
     seq (if sec_name (the_section env r) \<noteq> ''.debug'' then unit_header env (sec_name (the_section env r))
          else upd_unit (\<lambda>u. u\<lparr>mVersion := 1, mAddressSize := 4\<rparr>))
     (bnd cur_unit (\<lambda>u.
     seq (modify (\<lambda>s. s\<lparr>sAddressSize := unat (mAddressSize u), sRefAddressSize := ref_size u\<rparr>))
     (seq (bnd (look data_fuel) (entries_loop env cb))
     (modify (\<lambda>s. s\<lparr>sUnit := None\<rparr>)))))))"

end
