(* ===== verification/DwarfAttr.thy ===== *)
theory DwarfAttr
  imports DwarfIO
begin

text \<open>
  Attributes of debug information: what the readers of \<open>DwarfIO\<close> make of the encodings that the DWARF standard has for
  numbers and attribute values.
\<close>

lemma run_bnd_look [act_simps]: "bnd (look f) g s = g (f s) s"
  by (simp add: bnd_def look_def)

section \<open>Bytes ahead\<close>

definition dio_at :: "'c DIO \<Rightarrow> byte list \<Rightarrow> bool" where
  "dio_at s bs \<longleftrightarrow> (\<exists>d. sData s = Some d \<and> sDataLen s = length d \<and> length d < U8_MAX1 \<and>
     sDataPos s + length bs \<le> length d \<and> take (length bs) (drop (sDataPos s) d) = bs)"

definition adv :: "'c DIO \<Rightarrow> nat \<Rightarrow> 'c DIO" where
  "adv s n = s\<lparr>sDataPos := sDataPos s + n\<rparr>"

lemma adv_simps [simp]:
  "adv s 0 = s" "adv (adv s m) n = adv s (m + n)" "sDataPos (adv s n) = sDataPos s + n"
  "sDataLen (adv s n) = sDataLen s" "sData (adv s n) = sData s" "sBigEndian (adv s n) = sBigEndian s"
  "sSection (adv s n) = sSection s" "sUnit (adv s n) = sUnit s" "d_units (adv s n) = d_units s"
  "d_caches (adv s n) = d_caches s" "sAddressSize (adv s n) = sAddressSize s"
  "sRefAddressSize (adv s n) = sRefAddressSize s" "dio_gEntryPos (adv s n) = dio_gEntryPos s"
  "d_client (adv s n) = d_client s" "AbbrevBuf (adv s n) = AbbrevBuf s" "data_fuel (adv s n) = data_fuel s"
  by (simp_all add: adv_def data_fuel_def)

lemma dio_at_append:
  assumes "dio_at s (xs @ ys)"
  shows "dio_at s xs" "dio_at (adv s (length xs)) ys"
proof -
  from assms obtain d where d: "sData s = Some d" "sDataLen s = length d" "length d < U8_MAX1"
    "sDataPos s + (length xs + length ys) \<le> length d"
    "take (length xs + length ys) (drop (sDataPos s) d) = xs @ ys"
    by (auto simp: dio_at_def)
  have "take (length xs) (drop (sDataPos s) d) = take (length xs) (take (length xs + length ys) (drop (sDataPos s) d))"
    by simp
  with d(5) have "take (length xs) (drop (sDataPos s) d) = xs" by simp
  with d show "dio_at s xs" by (simp add: dio_at_def)
  have "take (length ys) (drop (length xs) (drop (sDataPos s) d)) =
      drop (length xs) (take (length xs + length ys) (drop (sDataPos s) d))"
    by (simp add: drop_take)
  with d show "dio_at (adv s (length xs)) ys" by (simp add: dio_at_def add.commute)
qed

lemma dio_at_Cons: "dio_at s (b # bs) \<Longrightarrow> dio_at (adv s 1) bs"
  using dio_at_append(2) [of s "[b]" bs] by simp

lemma dio_at_moved: "dio_at s (xs @ ys) \<Longrightarrow> length xs = n \<Longrightarrow> dio_at (adv s n) ys"
  using dio_at_append(2) by blast

lemma dio_at_room: "dio_at s bs \<Longrightarrow> sDataPos s + length bs \<le> sDataLen s \<and> sDataLen s < U8_MAX1"
  by (auto simp: dio_at_def)

text \<open>Fields that the position in the section does not depend on may change.\<close>

lemma dio_at_cong:
  "sData s' = sData s \<Longrightarrow> sDataLen s' = sDataLen s \<Longrightarrow> sDataPos s' = sDataPos s \<Longrightarrow> dio_at s' bs = dio_at s bs"
  by (simp add: dio_at_def)

section \<open>Numbers\<close>

lemma run_need: "dio_at s (xs @ ys) \<Longrightarrow> length xs = n \<Longrightarrow> need n s = (Inr (), s)"
  using dio_at_room [of s "xs @ ys"] by (auto simp: need_def act_simps)

lemma run_move: "dio_at s (xs @ ys) \<Longrightarrow> length xs = n \<Longrightarrow> move n s = (Inr (), adv s n)"
  using dio_at_room [of s "xs @ ys"] by (auto simp: move_def act_simps adv_def)

lemma run_bytes_here: "dio_at s (xs @ ys) \<Longrightarrow> length xs = n \<Longrightarrow> bytes_here n s = (Inr xs, s)"
  using dio_at_append(1) [of s xs ys] by (auto simp: bytes_here_def dio_at_def)

lemma run_next_byte: "dio_at s (b # bs) \<Longrightarrow> next_byte s = (Inr b, adv s 1)"
  using run_bytes_here [of s "[b]" bs 1] run_move [of s "[b]" bs 1] by (simp add: next_byte_def act_simps)

lemma run_ReadU1F: "dio_at s (b # bs) \<Longrightarrow> dio_ReadU1F s = (Inr b, adv s 1)"
  using dio_at_room [of s "b # bs"] by (simp add: dio_ReadU1F_def act_simps run_next_byte)

lemma run_ReadU1: "dio_at s (b # bs) \<Longrightarrow> dio_ReadU1 s = (Inr b, adv s 1)"
  using dio_at_room [of s "b # bs"] by (simp add: dio_ReadU1_def act_simps run_next_byte)

lemma run_Read: "dio_at s (xs @ ys) \<Longrightarrow> length xs = n \<Longrightarrow> dio_Read n s = (Inr xs, adv s n)"
  by (simp add: dio_Read_def act_simps run_need run_bytes_here run_move)

fun enc_le :: "nat \<Rightarrow> 'w::len word \<Rightarrow> byte list" where
  "enc_le 0 w = []"
| "enc_le (Suc n) w = ucast w # enc_le n (drop_bit 8 w)"

definition enc :: "bool \<Rightarrow> nat \<Rightarrow> 'w::len word \<Rightarrow> byte list" where
  "enc big n w = (if big then rev (enc_le n w) else enc_le n w)"

lemma length_enc_le [simp]: "length (enc_le n w) = n"
  by (induction n w rule: enc_le.induct) auto

lemma length_enc [simp]: "length (enc big n w) = n"
  by (simp add: enc_def)

lemma le_word_enc_le: "(le_word (enc_le n w) :: 'w::len word) = take_bit (8 * n) (w :: 'w word)"
proof (induction n w rule: enc_le.induct)
  case (2 n w)
  show ?case
  proof (rule bit_word_eqI)
    fix k assume "k < LENGTH('w)"
    then show "bit (le_word (enc_le (Suc n) w) :: 'w word) k = bit (take_bit (8 * Suc n) w) k"
      by (cases "k < 8") (auto simp: 2 bit_simps)
  qed
qed simp

lemma le_word_enc: "le_word (if big then rev (enc big n w) else enc big n w) = take_bit (8 * n) w"
  by (simp add: enc_def le_word_enc_le)

lemma run_read_word:
  "dio_at s (enc (sBigEndian s) n (w :: 'w::len word) @ bs) \<Longrightarrow> LENGTH('w) \<le> 8 * n \<Longrightarrow>
   read_word n s = (Inr w, adv s n)"
  using run_need [of s "enc (sBigEndian s) n w" bs n] run_bytes_here [of s "enc (sBigEndian s) n w" bs n]
    run_move [of s "enc (sBigEndian s) n w" bs n] le_word_enc [of "sBigEndian s" n w]
  by (simp add: read_word_def act_simps take_bit_word_eq_self)

lemma run_ReadU4: "dio_at s (enc (sBigEndian s) 4 x @ bs) \<Longrightarrow> dio_ReadU4 s = (Inr x, adv s 4)"
  by (simp add: dio_ReadU4_def run_read_word)

lemma run_ReadU8: "dio_at s (enc (sBigEndian s) 8 x @ bs) \<Longrightarrow> dio_ReadU8 s = (Inr x, adv s 8)"
  by (simp add: dio_ReadU8_def run_read_word)

lemma enc_2: "enc big 2 (w :: u16) = (if big then [ucast (drop_bit 8 w), ucast w] else [ucast w, ucast (drop_bit 8 w)])"
  by (simp add: enc_def numeral_2_eq_2)

lemma word_of_halves: "(ucast (ucast w :: byte) :: u16) OR push_bit 8 (ucast (ucast (drop_bit 8 w) :: byte)) = w"
  by (rule bit_word_eqI) (auto simp: bit_simps)

lemma run_ReadU2:
  assumes "dio_at s (enc (sBigEndian s) 2 x @ bs)"
  shows "dio_ReadU2 s = (Inr x, adv s 2)"
proof -
  obtain b0 b1 where b: "enc (sBigEndian s) 2 x = [b0, b1]" by (cases "sBigEndian s") (auto simp: enc_2)
  have 0: "dio_at s (b0 # b1 # bs)" using assms b by simp
  then have "next_byte s = (Inr b0, adv s 1)" "next_byte (adv s 1) = (Inr b1, adv s 2)"
    using run_next_byte dio_at_Cons by (force simp: numeral_2_eq_2)+
  moreover have "need 2 s = (Inr (), s)" using run_need [of s "[b0, b1]" bs 2] 0 by simp
  moreover have "(if sBigEndian s then push_bit 8 (ucast b0) OR ucast b1 else ucast b0 OR push_bit 8 (ucast b1)) = x"
    using b word_of_halves [of x] by (auto simp: enc_2 or.commute split: if_splits)
  ultimately show ?thesis by (simp add: dio_ReadU2_def act_simps)
qed

interpretation dio_uleb: uleb128_loop "\<lambda>s i res. dio_uleb_loop i res s" dio_at adv "\<lambda>b i res. res" "\<lambda>w s. (Inr w, s)"
  by unfold_locales (auto simp: dio_uleb_loop.simps run_ReadU1 act_simps Let_def dio_at_Cons [simplified])

interpretation dio_sleb: sleb128_loop "\<lambda>s i res. dio_sleb_loop i res s" dio_at adv
    "\<lambda>b i res. res OR push_bit i (- ucast (b AND 0x40))" "\<lambda>w s. (Inr w, s)"
  by unfold_locales (auto simp: dio_sleb_loop.simps run_ReadU1 act_simps Let_def dio_at_Cons [simplified])

lemma run_ReadULEB128: "dio_at s (uleb (unat x) @ bs) \<Longrightarrow> dio_ReadULEB128 s = (Inr x, adv s (length (uleb (unat x))))"
  unfolding dio_ReadULEB128_def by (rule dio_uleb.loop_word)

lemma run_ReadU8LEB128: "dio_at s (uleb (unat x) @ bs) \<Longrightarrow> dio_ReadU8LEB128 s = (Inr x, adv s (length (uleb (unat x))))"
  unfolding dio_ReadU8LEB128_def by (rule dio_uleb.loop_word)

lemma run_ReadS8LEB128: "dio_at s (sleb (sint x) @ bs) \<Longrightarrow> dio_ReadS8LEB128 s = (Inr x, adv s (length (sleb (sint x))))"
  unfolding dio_ReadS8LEB128_def by (rule dio_sleb.loop_sword)

lemma run_ReadSLEB128: "dio_at s (sleb (sint x) @ bs) \<Longrightarrow> dio_ReadSLEB128 s = (Inr x, adv s (length (sleb (sint x))))"
  unfolding dio_ReadSLEB128_def by (rule dio_sleb.loop_sword)

lemma enc_le_map: "enc_le n w = map (\<lambda>i. ucast (drop_bit (8 * i) w)) [0..<n]"
proof (induction n arbitrary: w)
  case (Suc n)
  have "map (\<lambda>i. (ucast (drop_bit (8 * i) w) :: byte)) [Suc 0..<Suc n] =
      map (\<lambda>i. ucast (drop_bit (8 * i) (drop_bit 8 w))) [0..<n]"
    by (simp add: map_Suc_upt [symmetric] comp_def add.commute del: upt_Suc map_Suc_upt)
  with Suc show ?case by (simp add: upt_conv_Cons del: upt_Suc)
qed simp

lemma enc_le_ucast:
  assumes "8 * n \<le> LENGTH('v)" "8 * n \<le> LENGTH('w)"
  shows "enc_le n (ucast (w :: 'w::len word) :: 'v::len word) = enc_le n w"
proof -
  have "(ucast (drop_bit (8 * i) (ucast w :: 'v word)) :: byte) = ucast (drop_bit (8 * i) w)" if "i < n" for i
  proof (rule bit_word_eqI)
    fix k assume "k < LENGTH(8)"
    with that assms have "8 * i + k < LENGTH('v)" "8 * i + k < LENGTH('w)" by auto
    then show "bit (ucast (drop_bit (8 * i) (ucast w :: 'v word)) :: byte) k = bit (ucast (drop_bit (8 * i) w) :: byte) k"
      by (simp add: bit_simps)
  qed
  then show ?thesis by (simp add: enc_le_map)
qed

lemma enc_ucast:
  "8 * n \<le> LENGTH('v) \<Longrightarrow> 8 * n \<le> LENGTH('w) \<Longrightarrow> enc big n (ucast (w :: 'w::len word) :: 'v::len word) = enc big n w"
  by (simp add: enc_def enc_le_ucast)

lemma ucast_ucast_u64:
  fixes x :: u64
  shows "ucast (ucast x :: u16) = take_bit 16 x" "ucast (ucast x :: u32) = take_bit 32 x"
  by (rule bit_word_eqI, auto simp: bit_simps)+

section \<open>Variables of the last attribute\<close>

definition with_form :: "'c DIO \<Rightarrow> u64 \<Rightarrow> nat \<Rightarrow> data_ptr \<Rightarrow> 'c DIO" where
  "with_form s d n a =
     s\<lparr>dio_gFormSection := None, dio_gFormDataAddr := a, dio_gFormDataSize := n, dio_gFormData := d\<rparr>"

lemma with_form_simps [simp]:
  "sDataPos (with_form s d n a) = sDataPos s" "sDataLen (with_form s d n a) = sDataLen s"
  "sData (with_form s d n a) = sData s" "sBigEndian (with_form s d n a) = sBigEndian s"
  "sSection (with_form s d n a) = sSection s" "sUnit (with_form s d n a) = sUnit s"
  "d_units (with_form s d n a) = d_units s" "d_caches (with_form s d n a) = d_caches s"
  "sAddressSize (with_form s d n a) = sAddressSize s" "sRefAddressSize (with_form s d n a) = sRefAddressSize s"
  "dio_gEntryPos (with_form s d n a) = dio_gEntryPos s" "d_client (with_form s d n a) = d_client s"
  "AbbrevBuf (with_form s d n a) = AbbrevBuf s"
  "data_fuel (with_form s d n a) = data_fuel s" "dio_at (with_form s d n a) bs = dio_at s bs"
  "adv (with_form s d n a) k = with_form (adv s k) d n a"
  "with_form (with_form s d n a) d' n' a' = with_form s d' n' a'"
  "dio_gFormData (with_form s d n a) = d" "dio_gFormDataSize (with_form s d n a) = n"
  "dio_gFormDataAddr (with_form s d n a) = a" "dio_gFormSection (with_form s d n a) = None"
  "(with_form s d n a)\<lparr>dio_gFormDataSize := m\<rparr> = with_form s d m a"
  "(with_form s d n a)\<lparr>dio_gFormSection := None\<rparr> = with_form s d n a"
  by (simp_all add: with_form_def data_fuel_def adv_def dio_at_def)

lemma run_form [act_simps]:
  "form_set x m (with_form s d n a) = (Inr (), with_form s x m a)"
  "form_addr p (with_form s d n a) = (Inr (), with_form s d n p)"
  by (simp_all add: form_set_def form_addr_def act_simps with_form_def)

text \<open>
  A unit is being read from a section without relocations.
\<close>

definition reading :: "DioEnv \<Rightarrow> sec_ref \<Rightarrow> DIO_UnitDescriptor \<Rightarrow> 'c DIO \<Rightarrow> bool" where
  "reading env r u s \<longleftrightarrow> sSection s = Some r \<and> (\<exists>k. sUnit s = Some k \<and> d_units s k = Some u) \<and>
     \<not> sec_relocate (the_section env r) \<and> (\<forall>pos n x. drl_relocate env r pos n x = Inr (x, None))"

lemma reading_simps [simp]:
  "reading env r u (adv s n) = reading env r u s"
  "reading env r u (with_form s d m a) = reading env r u s"
  by (simp_all add: reading_def)

lemma run_cur_unit: "reading env r u s \<Longrightarrow> cur_unit s = (Inr u, s)"
  by (auto simp: reading_def cur_unit_def)

lemma run_cur_section: "sSection s = Some r \<Longrightarrow> cur_section s = (Inr r, s)"
  by (simp add: cur_section_def)

lemma reading_section: "reading env r u s \<Longrightarrow> sSection s = Some r"
  by (simp add: reading_def)

lemma run_data_at [act_simps]:
  "sSection s = Some r \<Longrightarrow> data_at k s = (Inr (Data r (int (sDataPos s) + k)), s)"
  by (simp add: data_at_def act_simps)

lemma run_offset_size: "reading env r u s \<Longrightarrow> unit_offset_size s = (Inr (if m64bit u then 8 else 4), s)"
  by (simp add: unit_offset_size_def act_simps run_cur_unit)

lemma run_ReadAddressX:
  assumes "dio_at s (enc (sBigEndian s) n x @ bs)" "n = 2 \<or> n = 4 \<or> n = 8" "take_bit (8 * n) x = x"
    and r: "sSection s = Some r" "\<And>pos n x. drl_relocate env r pos n x = Inr (x, None)"
  shows "dio_ReadAddressX env n s = (Inr (x, None), adv s n)"
proof -
  consider "n = 2" | "n = 4" | "n = 8" using assms(2) by blast
  then show ?thesis
  proof cases
    case 1
    have "dio_ReadU2 s = (Inr (ucast x), adv s 2)"
      using assms(1) 1 by (intro run_ReadU2 [of s _ bs]) (simp add: enc_ucast)
    then show ?thesis
      using 1 assms(3) r by (simp add: dio_ReadAddressX_def dio_GetPos_def lift_outcome_def act_simps run_cur_section ucast_ucast_u64)
  next
    case 2
    have "dio_ReadU4 s = (Inr (ucast x), adv s 4)"
      using assms(1) 2 by (intro run_ReadU4 [of s _ bs]) (simp add: enc_ucast)
    then show ?thesis
      using 2 assms(3) r by (simp add: dio_ReadAddressX_def dio_GetPos_def lift_outcome_def act_simps run_cur_section ucast_ucast_u64)
  next
    case 3
    then have "dio_ReadU8 s = (Inr x, adv s 8)" using assms(1) run_ReadU8 by blast
    then show ?thesis
      using 3 assms(3) r by (simp add: dio_ReadAddressX_def dio_GetPos_def lift_outcome_def act_simps run_cur_section)
  qed
qed

lemma run_form_address:
  assumes "dio_at s (enc (sBigEndian s) n x @ bs)" "n = 2 \<or> n = 4 \<or> n = 8" "take_bit (8 * n) x = x" "reading env r u s"
  shows "form_address env n (with_form s d m a) = (Inr x, with_form (adv s n) d m a)"
proof -
  have "dio_ReadAddressX env n (with_form s d m a) = (Inr (x, None), adv (with_form s d m a) n)"
    using assms by (intro run_ReadAddressX [where r = r]) (auto simp: reading_def)
  then show ?thesis by (simp add: form_address_def act_simps)
qed

section \<open>Strings\<close>

lemma run_form_string_loop:
  "dio_at s (str @ 0 # bs) \<Longrightarrow> 0 \<notin> set str \<Longrightarrow> length str < fuel \<Longrightarrow>
   form_string_loop fuel (with_form s d n a) = (Inr (), with_form (adv s (length str + 1)) d (n + length str) a)"
proof (induction str arbitrary: s n fuel)
  case Nil
  then obtain k where "fuel = Suc k" by (cases fuel) auto
  with Nil show ?case
    using run_ReadU1 [of "with_form s d n a" 0 bs] by (simp add: act_simps)
next
  case (Cons c str)
  then obtain k where k: "fuel = Suc k" by (cases fuel) auto
  have "dio_ReadU1 (with_form s d n a) = (Inr c, with_form (adv s 1) d n a)"
    using run_ReadU1 [of "with_form s d n a" c "str @ 0 # bs"] Cons.prems(1) by simp
  moreover have "form_string_loop k (with_form (adv s 1) d (n + 1) a) =
      (Inr (), with_form (adv (adv s 1) (length str + 1)) d (n + 1 + length str) a)"
    using Cons.prems k dio_at_Cons [of s c "str @ 0 # bs"] by (intro Cons.IH) auto
  ultimately show ?case using Cons.prems(2) k by (simp add: act_simps)
qed

lemma run_ReadFormString:
  assumes "dio_at s (str @ 0 # bs)" "0 \<notin> set str" "sSection s = Some r"
  shows "dio_ReadFormString (with_form s d n a) =
     (Inr (), with_form (adv s (length str + 1)) d (length str + 1) (Data r (int (sDataPos s))))"
  using run_form_string_loop [OF assms(1,2), of "data_fuel s"] dio_at_room [OF assms(1)] assms(3)
  by (simp add: dio_ReadFormString_def act_simps data_fuel_def)

text \<open>A string of a table that is loaded already.\<close>

definition string_table :: "DioEnv \<Rightarrow> 'c DIO \<Rightarrow> nat \<Rightarrow> sec_ref \<Rightarrow> bool" where
  "string_table env s f t \<longleftrightarrow> (\<exists>c. d_caches s f = Some c \<and> mStringTable c = Some t \<and>
     mStringTableSize c = length (sec_data (the_section env t)))"

definition string_at :: "byte list \<Rightarrow> nat \<Rightarrow> cstring \<Rightarrow> bool" where
  "string_at tab offs str \<longleftrightarrow> 0 \<notin> set str \<and> offs + length str < length tab \<and>
     take (length str + 1) (drop offs tab) = str @ [0]"

lemma string_table_simps [simp]:
  "string_table env (adv s k) f t = string_table env s f t"
  "string_table env (with_form s d n a) f t = string_table env s f t"
  by (simp_all add: string_table_def)

lemma run_LoadStringTable:
  "string_table env s f t \<Longrightarrow> dio_LoadStringTable env f s = (Inr (Some t, length (sec_data (the_section env t))), s)"
  by (auto simp: string_table_def dio_LoadStringTable_def dio_GetCache_def act_simps)

lemma run_LoadAltStringTable:
  "dwz_file (elf_file env f) = Some g \<Longrightarrow> string_table env s g t \<Longrightarrow>
   dio_LoadAltStringTable env f s = (Inr (Some t, length (sec_data (the_section env t))), s)"
  by (simp add: dio_LoadAltStringTable_def run_LoadStringTable)

lemma string_at_hd:
  assumes "string_at tab offs str"
  shows "offs < length tab" "tab ! offs = (if str = [] then 0 else hd str)"
    "str = c # cs \<Longrightarrow> string_at tab (offs + 1) cs"
proof -
  show l: "offs < length tab" using assms by (simp add: string_at_def)
  then have d: "drop offs tab = tab ! offs # drop (Suc offs) tab" by (simp add: Cons_nth_drop_Suc)
  with assms show "tab ! offs = (if str = [] then 0 else hd str)" by (cases str) (auto simp: string_at_def)
  assume "str = c # cs"
  with assms d show "string_at tab (offs + 1) cs" by (auto simp: string_at_def)
qed

lemma run_strp_loop:
  "string_at tab offs str \<Longrightarrow>
   strp_loop tab (length tab) msg offs (with_form s d n a) = (Inr (), with_form s d (n + length str) a)"
proof (induction str arbitrary: offs n)
  case Nil
  from string_at_hd(1,2) [OF Nil] show ?case by (simp add: strp_loop.simps act_simps)
next
  case (Cons c str)
  have "c \<noteq> 0" using Cons.prems by (auto simp: string_at_def)
  then show ?case
    using string_at_hd(1,2) [OF Cons.prems] Cons.IH [OF string_at_hd(3) [OF Cons.prems refl], of "n + 1"]
    by (subst strp_loop.simps) (simp add: act_simps)
qed

lemma run_form_string_ref:
  fixes x :: u64
  assumes "dio_at s (enc (sBigEndian s) n x @ bs)" "n = (if m64bit u then 8 else 4)" "take_bit (8 * n) x = x"
    and rd: "reading env r u s"
    and load_table: "\<And>s'. string_table env s' g t \<Longrightarrow> load_table (fst r) s' = (Inr (Some t, length (sec_data (the_section env t))), s')"
    and tab: "string_table env s g t" "string_at (sec_data (the_section env t)) (unat x) str"
  shows "form_string_ref env load_table msg (with_form s d m a) =
     (Inr (), with_form (adv s n) d (length str + 1) (Data t (uint x)))"
proof -
  have n: "n = 2 \<or> n = 4 \<or> n = 8" using assms(2) by auto
  note f = run_form_address [OF assms(1) n assms(3) rd, of d m a]
  have u: "unit_offset_size (with_form s d m a) = (Inr n, with_form s d m a)"
    using run_offset_size [of env r u "with_form s d m a"] rd assms(2) by simp
  have sec: "cur_section (with_form (adv s n) d m a) = (Inr r, with_form (adv s n) d m a)"
    using rd by (intro run_cur_section) (simp add: reading_def)
  have l: "load_table (fst r) (with_form (adv s n) d m a) =
      (Inr (Some t, length (sec_data (the_section env t))), with_form (adv s n) d m a)"
    using load_table tab(1) by simp
  show ?thesis
    by (simp add: form_string_ref_def act_simps u f sec l run_strp_loop [OF tab(2)])
qed

section \<open>Attribute values\<close>

text \<open>The values of the standard, one constructor for each form.\<close>

datatype attr_val =
    A_addr u64 | A_ref u32 | A_ref_alt u64
  | A_block1 "byte list" | A_block2 "byte list" | A_block4 "byte list" | A_block "byte list" | A_exprloc "byte list"
  | A_data1 byte | A_data2 u16 | A_data4 u32 | A_data8 u64 | A_sdata u64 | A_udata u64
  | A_flag byte | A_flag_present | A_string cstring | A_strp u64 cstring | A_strp_alt u64 cstring
  | A_ref_addr u64 | A_ref1 byte | A_ref2 u16 | A_ref4 u32 | A_ref8 u64 | A_ref_udata u32
  | A_sec_offset u64 | A_ref_sig8 u64

fun form_of :: "attr_val \<Rightarrow> u16" where
  "form_of (A_addr x) = FORM_ADDR"
| "form_of (A_ref x) = FORM_REF"
| "form_of (A_ref_alt x) = FORM_GNU_REF_ALT"
| "form_of (A_block1 b) = FORM_BLOCK1"
| "form_of (A_block2 b) = FORM_BLOCK2"
| "form_of (A_block4 b) = FORM_BLOCK4"
| "form_of (A_block b) = FORM_BLOCK"
| "form_of (A_exprloc b) = FORM_EXPRLOC"
| "form_of (A_data1 x) = FORM_DATA1"
| "form_of (A_data2 x) = FORM_DATA2"
| "form_of (A_data4 x) = FORM_DATA4"
| "form_of (A_data8 x) = FORM_DATA8"
| "form_of (A_sdata x) = FORM_SDATA"
| "form_of (A_udata x) = FORM_UDATA"
| "form_of (A_flag x) = FORM_FLAG"
| "form_of A_flag_present = FORM_FLAG_PRESENT"
| "form_of (A_string str) = FORM_STRING"
| "form_of (A_strp x str) = FORM_STRP"
| "form_of (A_strp_alt x str) = FORM_GNU_STRP_ALT"
| "form_of (A_ref_addr x) = FORM_REF_ADDR"
| "form_of (A_ref1 x) = FORM_REF1"
| "form_of (A_ref2 x) = FORM_REF2"
| "form_of (A_ref4 x) = FORM_REF4"
| "form_of (A_ref8 x) = FORM_REF8"
| "form_of (A_ref_udata x) = FORM_REF_UDATA"
| "form_of (A_sec_offset x) = FORM_SEC_OFFSET"
| "form_of (A_ref_sig8 x) = FORM_REF_SIG8"

text \<open>What the encoding of a value and its meaning depend on.\<close>

record val_ctx =
  vc_big :: bool
  vc_asz :: nat
  vc_rsz :: nat
  vc_osz :: nat
  vc_sec :: sec_ref
  vc_addr :: u64
  vc_offs :: nat
  vc_size :: nat
  vc_strings :: "(sec_ref \<times> byte list) option"
  vc_alt_strings :: "(sec_ref \<times> byte list) option"

fun val_bytes :: "val_ctx \<Rightarrow> attr_val \<Rightarrow> byte list" where
  "val_bytes c (A_addr x) = enc (vc_big c) (vc_asz c) x"
| "val_bytes c (A_ref x) = enc (vc_big c) 4 x"
| "val_bytes c (A_ref_alt x) = enc (vc_big c) (vc_osz c) x"
| "val_bytes c (A_block1 b) = (word_of_nat (length b) :: byte) # b"
| "val_bytes c (A_block2 b) = enc (vc_big c) 2 (word_of_nat (length b) :: u16) @ b"
| "val_bytes c (A_block4 b) = enc (vc_big c) 4 (word_of_nat (length b) :: u32) @ b"
| "val_bytes c (A_block b) = uleb (length b) @ b"
| "val_bytes c (A_exprloc b) = uleb (length b) @ b"
| "val_bytes c (A_data1 x) = [x]"
| "val_bytes c (A_data2 x) = enc (vc_big c) 2 x"
| "val_bytes c (A_data4 x) = enc (vc_big c) 4 x"
| "val_bytes c (A_data8 x) = enc (vc_big c) 8 x"
| "val_bytes c (A_sdata x) = sleb (sint x)"
| "val_bytes c (A_udata x) = uleb (unat x)"
| "val_bytes c (A_flag x) = [x]"
| "val_bytes c A_flag_present = []"
| "val_bytes c (A_string str) = str @ [0]"
| "val_bytes c (A_strp x str) = enc (vc_big c) (vc_osz c) x"
| "val_bytes c (A_strp_alt x str) = enc (vc_big c) (vc_osz c) x"
| "val_bytes c (A_ref_addr x) = enc (vc_big c) (vc_rsz c) x"
| "val_bytes c (A_ref1 x) = [x]"
| "val_bytes c (A_ref2 x) = enc (vc_big c) 2 x"
| "val_bytes c (A_ref4 x) = enc (vc_big c) 4 x"
| "val_bytes c (A_ref8 x) = enc (vc_big c) 8 x"
| "val_bytes c (A_ref_udata x) = uleb (unat x)"
| "val_bytes c (A_sec_offset x) = enc (vc_big c) (vc_osz c) x"
| "val_bytes c (A_ref_sig8 x) = enc (vc_big c) 8 x"

definition fits :: "nat \<Rightarrow> u64 \<Rightarrow> bool" where
  "fits n x \<longleftrightarrow> (n = 2 \<or> n = 4 \<or> n = 8) \<and> take_bit (8 * n) x = x"

definition ref_ok :: "val_ctx \<Rightarrow> u16 \<Rightarrow> nat \<Rightarrow> bool" where
  "ref_ok c Attr offs \<longleftrightarrow> vc_size c = 0 \<or> offs < vc_size c \<or> Attr = AT_sibling \<and> offs = vc_size c"

definition in_table :: "(sec_ref \<times> byte list) option \<Rightarrow> nat \<Rightarrow> cstring \<Rightarrow> bool" where
  "in_table tab offs str \<longleftrightarrow> (case tab of None \<Rightarrow> False | Some (t, d) \<Rightarrow> string_at d offs str)"

fun val_ok :: "val_ctx \<Rightarrow> u16 \<Rightarrow> attr_val \<Rightarrow> bool" where
  "val_ok c Attr (A_addr x) = fits (vc_asz c) x"
| "val_ok c Attr (A_ref_alt x) = fits (vc_osz c) x"
| "val_ok c Attr (A_block1 b) = (length b < 2 ^ 8)"
| "val_ok c Attr (A_block2 b) = (length b < 2 ^ 16)"
| "val_ok c Attr (A_block4 b) = (length b < 2 ^ 32)"
| "val_ok c Attr (A_block b) = (length b < 2 ^ 32)"
| "val_ok c Attr (A_exprloc b) = (length b < 2 ^ 32)"
| "val_ok c Attr (A_string str) = (0 \<notin> set str)"
| "val_ok c Attr (A_strp x str) = (fits (vc_osz c) x \<and> in_table (vc_strings c) (unat x) str)"
| "val_ok c Attr (A_strp_alt x str) = (fits (vc_osz c) x \<and> in_table (vc_alt_strings c) (unat x) str)"
| "val_ok c Attr (A_ref_addr x) = fits (vc_rsz c) x"
| "val_ok c Attr (A_ref1 x) = ref_ok c Attr (unat x)"
| "val_ok c Attr (A_ref2 x) = ref_ok c Attr (unat x)"
| "val_ok c Attr (A_ref4 x) = ref_ok c Attr (unat x)"
| "val_ok c Attr (A_ref8 x) = ref_ok c Attr (unat x)"
| "val_ok c Attr (A_ref_udata x) = ref_ok c Attr (unat x)"
| "val_ok c Attr (A_sec_offset x) = fits (vc_osz c) x"
| "val_ok c Attr v = True"

text \<open>
  The number, the size and the place of the data that a client sees. \<open>pos\<close> is where the value starts.
\<close>

definition here :: "val_ctx \<Rightarrow> nat \<Rightarrow> data_ptr" where
  "here c pos = Data (vc_sec c) (int pos)"

definition rel_ref :: "val_ctx \<Rightarrow> u64 \<Rightarrow> u64 \<times> nat \<times> data_ptr" where
  "rel_ref c x = (word_of_nat (vc_offs c) + x + vc_addr c, vc_asz c, Null)"

fun val_view :: "val_ctx \<Rightarrow> nat \<Rightarrow> attr_val \<Rightarrow> u64 \<times> nat \<times> data_ptr" where
  "val_view c pos (A_addr x) = (x, vc_asz c, Null)"
| "val_view c pos (A_ref x) = (ucast x, 4, Null)"
| "val_view c pos (A_ref_alt x) = (x + vc_addr c, vc_osz c, Null)"
| "val_view c pos (A_block1 b) = (0, length b, here c (pos + 1))"
| "val_view c pos (A_block2 b) = (0, length b, here c (pos + 2))"
| "val_view c pos (A_block4 b) = (0, length b, here c (pos + 4))"
| "val_view c pos (A_block b) = (0, length b, here c (pos + length (uleb (length b))))"
| "val_view c pos (A_exprloc b) = (0, length b, here c (pos + length (uleb (length b))))"
| "val_view c pos (A_data1 x) = (ucast x, 1, here c pos)"
| "val_view c pos (A_data2 x) = (ucast x, 2, here c pos)"
| "val_view c pos (A_data4 x) = (ucast x, 4, here c pos)"
| "val_view c pos (A_data8 x) = (x, 8, here c pos)"
| "val_view c pos (A_sdata x) = (x, 8, Null)"
| "val_view c pos (A_udata x) = (x, 8, Null)"
| "val_view c pos (A_flag x) = (ucast x, 1, here c pos)"
| "val_view c pos A_flag_present = (1, 0, here c pos)"
| "val_view c pos (A_string str) = (0, length str + 1, here c pos)"
| "val_view c pos (A_strp x str) = (0, length str + 1, Data (fst (the (vc_strings c))) (uint x))"
| "val_view c pos (A_strp_alt x str) = (0, length str + 1, Data (fst (the (vc_alt_strings c))) (uint x))"
| "val_view c pos (A_ref_addr x) = (x + vc_addr c, vc_rsz c, Null)"
| "val_view c pos (A_ref1 x) = rel_ref c (ucast x)"
| "val_view c pos (A_ref2 x) = rel_ref c (ucast x)"
| "val_view c pos (A_ref4 x) = rel_ref c (ucast x)"
| "val_view c pos (A_ref8 x) = rel_ref c x"
| "val_view c pos (A_ref_udata x) = rel_ref c (ucast x)"
| "val_view c pos (A_sec_offset x) = (x, vc_osz c, here c pos)"
| "val_view c pos (A_ref_sig8 x) = (x, 8, here c pos)"

text \<open>The context is that of the state.\<close>

definition table_ok :: "DioEnv \<Rightarrow> 'c DIO \<Rightarrow> nat option \<Rightarrow> (sec_ref \<times> byte list) option \<Rightarrow> bool" where
  "table_ok env s f tab \<longleftrightarrow> (case tab of None \<Rightarrow> True | Some (t, d) \<Rightarrow>
     (case f of None \<Rightarrow> False | Some f \<Rightarrow> string_table env s f t \<and> d = sec_data (the_section env t)))"

definition ctx_ok :: "DioEnv \<Rightarrow> DIO_UnitDescriptor \<Rightarrow> val_ctx \<Rightarrow> 'c DIO \<Rightarrow> bool" where
  "ctx_ok env u c s \<longleftrightarrow> reading env (vc_sec c) u s \<and> vc_big c = sBigEndian s \<and> vc_asz c = sAddressSize s \<and>
     vc_rsz c = sRefAddressSize s \<and> vc_osz c = (if m64bit u then 8 else 4) \<and>
     vc_addr c = sec_addr (the_section env (vc_sec c)) \<and> vc_offs c = mUnitOffs u \<and> vc_size c = mUnitSize u \<and>
     table_ok env s (Some (fst (vc_sec c))) (vc_strings c) \<and>
     table_ok env s (dwz_file (elf_file env (fst (vc_sec c)))) (vc_alt_strings c)"

lemma table_ok_cong: "d_caches s' = d_caches s \<Longrightarrow> table_ok env s' f tab = table_ok env s f tab"
  by (auto simp: table_ok_def string_table_def split: option.split)

lemma ctx_ok_simps [simp]:
  "ctx_ok env u c (adv s n) = ctx_ok env u c s"
  "ctx_ok env u c (with_form s d m a) = ctx_ok env u c s"
  using table_ok_cong [of "adv s n" s env] table_ok_cong [of "with_form s d m a" s env]
  by (simp_all add: ctx_ok_def)

lemma ctx_okD:
  assumes "ctx_ok env u c s"
  shows "reading env (vc_sec c) u s" "sBigEndian s = vc_big c" "sAddressSize s = vc_asz c" "sRefAddressSize s = vc_rsz c"
    "(if m64bit u then 8 else 4) = vc_osz c" "sec_addr (the_section env (vc_sec c)) = vc_addr c" "mUnitOffs u = vc_offs c"
    "mUnitSize u = vc_size c" "sSection s = Some (vc_sec c)"
  using assms by (simp_all add: ctx_ok_def reading_def)

section \<open>Reading a value\<close>

lemma run_ReadFormBlock:
  assumes "dio_at s (b @ bs)" "sSection s = Some r"
  shows "dio_ReadFormBlock (length b) (with_form s d n a) =
     (Inr (), with_form (adv s (length b)) d (length b) (Data r (int (sDataPos s))))"
  using run_need [of "with_form s d (length b) (Data r (int (sDataPos s)))" b bs "length b"]
    run_move [of "with_form s d (length b) (Data r (int (sDataPos s)))" b bs "length b"] assms
  by (simp add: dio_ReadFormBlock_def act_simps)

lemma run_ReadFormData:
  "sSection s = Some r \<Longrightarrow>
   dio_ReadFormData n x (with_form s d m a) = (Inr (), with_form s x n (Data r (int (sDataPos s) - int n)))"
  by (simp add: dio_ReadFormData_def act_simps)

lemma run_add_section_addr:
  "ctx_ok env u c s \<Longrightarrow> add_section_addr env x (with_form s d n a) = (Inr (x + vc_addr c), with_form s d n a)"
  using run_cur_section [of "with_form s d n a"] by (simp add: add_section_addr_def act_simps ctx_okD)

lemma run_ReadFormRelRef:
  assumes "ctx_ok env u c s" "ref_ok c Attr (unat x)"
  shows "dio_ReadFormRelRef env Attr x (with_form s d n a) =
     (Inr (), with_form s (word_of_nat (vc_offs c) + x + vc_addr c) (vc_asz c) a)"
proof -
  have "cur_unit (with_form s d n a) = (Inr u, with_form s d n a)"
    using ctx_okD(1) [OF assms(1)] by (intro run_cur_unit [of env "vc_sec c"]) simp
  with assms(2) show ?thesis
    by (auto simp: dio_ReadFormRelRef_def act_simps ref_ok_def run_add_section_addr [OF assms(1)] ctx_okD [OF assms(1)])
qed

text \<open>Without relocations \<open>dio_ReadAttribute\<close> is the choice of a reader by the form.\<close>

definition attr_reader :: "DioEnv \<Rightarrow> u16 \<Rightarrow> attr_val \<Rightarrow> ('c, unit) dio" where
  "attr_reader env Attr v =
     (case v of
        A_addr x \<Rightarrow> dio_ReadFormAddr env
      | A_ref x \<Rightarrow> dio_ReadFormRef
      | A_ref_alt x \<Rightarrow> dio_ReadFormAltRef env
      | A_block1 b \<Rightarrow> bnd dio_ReadU1 (\<lambda>n. dio_ReadFormBlock (unat n))
      | A_block2 b \<Rightarrow> bnd dio_ReadU2 (\<lambda>n. dio_ReadFormBlock (unat n))
      | A_block4 b \<Rightarrow> bnd dio_ReadU4 (\<lambda>n. dio_ReadFormBlock (unat n))
      | A_block b \<Rightarrow> bnd dio_ReadULEB128 (\<lambda>n. dio_ReadFormBlock (unat n))
      | A_exprloc b \<Rightarrow> bnd dio_ReadULEB128 (\<lambda>n. dio_ReadFormBlock (unat n))
      | A_data1 x \<Rightarrow> bnd dio_ReadU1 (\<lambda>x. dio_ReadFormData 1 (ucast x))
      | A_data2 x \<Rightarrow> bnd dio_ReadU2 (\<lambda>x. dio_ReadFormData 2 (ucast x))
      | A_data4 x \<Rightarrow> bnd dio_ReadU4 (\<lambda>x. dio_ReadFormData 4 (ucast x))
      | A_data8 x \<Rightarrow> bnd dio_ReadU8 (\<lambda>x. dio_ReadFormData 8 x)
      | A_sdata x \<Rightarrow> bnd dio_ReadS8LEB128 (\<lambda>x. seq (dio_ReadFormData 8 x) (form_addr Null))
      | A_udata x \<Rightarrow> bnd dio_ReadU8LEB128 (\<lambda>x. seq (dio_ReadFormData 8 x) (form_addr Null))
      | A_flag x \<Rightarrow> bnd dio_ReadU1 (\<lambda>x. dio_ReadFormData 1 (ucast x))
      | A_flag_present \<Rightarrow> dio_ReadFormData 0 1
      | A_string str \<Rightarrow> dio_ReadFormString
      | A_strp x str \<Rightarrow> dio_ReadFormStringRef env
      | A_strp_alt x str \<Rightarrow> dio_ReadFormAltStringRef env
      | A_ref_addr x \<Rightarrow> dio_ReadFormRefAddr env
      | A_ref1 x \<Rightarrow> bnd dio_ReadU1 (\<lambda>x. dio_ReadFormRelRef env Attr (ucast x))
      | A_ref2 x \<Rightarrow> bnd dio_ReadU2 (\<lambda>x. dio_ReadFormRelRef env Attr (ucast x))
      | A_ref4 x \<Rightarrow> bnd dio_ReadU4 (\<lambda>x. dio_ReadFormRelRef env Attr (ucast x))
      | A_ref8 x \<Rightarrow> bnd dio_ReadU8 (\<lambda>x. dio_ReadFormRelRef env Attr x)
      | A_ref_udata x \<Rightarrow> bnd dio_ReadULEB128 (\<lambda>x. dio_ReadFormRelRef env Attr (ucast x))
      | A_sec_offset x \<Rightarrow> bnd unit_offset_size (\<lambda>n. bnd (form_address env n) (\<lambda>x. dio_ReadFormData n x))
      | A_ref_sig8 x \<Rightarrow> bnd dio_ReadU8 (\<lambda>x. dio_ReadFormData 8 x))"

lemma ReadAttribute_eq:
  assumes "ctx_ok env u c s"
  shows "dio_ReadAttribute env Attr (form_of v) s = attr_reader env Attr v (with_form s 0 0 Null)"
proof -
  let ?s0 = "with_form s 0 0 Null"
  let ?p = "if Attr = AT_stmt_list \<or> Attr = AT_ranges
    then bnd cur_section (\<lambda>r. ret (sec_relocate (the_section env r))) else ret False :: ('a, bool) dio"
  have "cur_section ?s0 = (Inr (vc_sec c), ?s0)" using ctx_okD(9) [OF assms] by (simp add: run_cur_section)
  moreover have "\<not> sec_relocate (the_section env (vc_sec c))" using ctx_okD(1) [OF assms] by (simp add: reading_def)
  ultimately have p: "?p ?s0 = (Inr False, ?s0)" by (simp add: act_simps)
  have choose: "bnd ?p (\<lambda>reloc. if reloc then m else n) ?s0 = n ?s0" for m n :: "('a, unit) dio"
    using p by (simp add: bnd_def)
  have reset: "bnd (modify (\<lambda>s. s\<lparr>dio_gFormSection := None, dio_gFormDataAddr := Null, dio_gFormDataSize := 0,
      dio_gFormData := 0\<rparr>)) f s = f () ?s0" for f :: "unit \<Rightarrow> ('a, unit) dio"
    by (simp add: bnd_def modify_def with_form_def)
  show ?thesis unfolding dio_ReadAttribute_def seq_def reset choose
    by (cases v; simp add: attr_reader_def seq_def)
qed

lemma block_length:
  "length b < 2 ^ 8 \<Longrightarrow> unat (word_of_nat (length b) :: byte) = length b"
  "length b < 2 ^ 16 \<Longrightarrow> unat (word_of_nat (length b) :: u16) = length b"
  "length b < 2 ^ 32 \<Longrightarrow> unat (word_of_nat (length b) :: u32) = length b"
  by (simp_all add: unat_of_nat)

text \<open>A size is read, then the block.\<close>

lemma run_block:
  assumes rd: "\<And>s'. dio_at s' (hdr @ b @ bs) \<Longrightarrow> sBigEndian s' = vc_big c \<Longrightarrow> m s' = (Inr w, adv s' (length hdr))"
    and w: "unat w = length b" and at: "dio_at s (hdr @ b @ bs)" and c: "ctx_ok env u c s"
  shows "bnd m (\<lambda>n. dio_ReadFormBlock (unat n)) (with_form s 0 0 Null) =
     (Inr (), with_form (adv s (length hdr + length b)) 0 (length b) (here c (sDataPos s + length hdr)))"
proof -
  have "m (with_form s 0 0 Null) = (Inr w, with_form (adv s (length hdr)) 0 0 Null)"
    using rd [of "with_form s 0 0 Null"] at ctx_okD(2) [OF c] by simp
  moreover have "dio_ReadFormBlock (length b) (with_form (adv s (length hdr)) 0 0 Null) =
      (Inr (), with_form (adv (adv s (length hdr)) (length b)) 0 (length b) (Data (vc_sec c) (int (sDataPos s + length hdr))))"
    using run_ReadFormBlock [OF dio_at_append(2) [OF at], of "vc_sec c" 0 0 Null] ctx_okD(9) [OF c] by simp
  ultimately show ?thesis by (simp add: act_simps w here_def)
qed

text \<open>A number is read and stored.\<close>

lemma run_number:
  assumes rd: "\<And>s'. dio_at s' (txt @ bs) \<Longrightarrow> sBigEndian s' = vc_big c \<Longrightarrow> m s' = (Inr w, adv s' (length txt))"
    and at: "dio_at s (txt @ bs)" and c: "ctx_ok env u c s"
  shows "m (with_form s 0 0 Null) = (Inr w, with_form (adv s (length txt)) 0 0 Null)"
  using rd [of "with_form s 0 0 Null"] at ctx_okD(2) [OF c] by simp

definition val_state :: "val_ctx \<Rightarrow> attr_val \<Rightarrow> 'c DIO \<Rightarrow> 'c DIO" where
  "val_state c v s = (case val_view c (sDataPos s) v of (d, n, a) \<Rightarrow> with_form (adv s (length (val_bytes c v))) d n a)"

lemma run_attr_block:
  assumes c: "ctx_ok env u c s" and ok: "val_ok c Attr v" and at: "dio_at s (val_bytes c v @ bs)"
    and v: "v = A_block1 b \<or> v = A_block2 b \<or> v = A_block4 b \<or> v = A_block b \<or> v = A_exprloc b"
  shows "attr_reader env Attr v (with_form s 0 0 Null) = (Inr (), val_state c v s)"
  using v
proof (elim disjE)
  assume v: "v = A_block1 b"
  have len: "unat (word_of_nat (length b) :: byte) = length b" using ok v by (simp add: block_length)
  have "bnd dio_ReadU1 (\<lambda>n. dio_ReadFormBlock (unat n)) (with_form s 0 0 Null) =
      (Inr (), with_form (adv s (length ([word_of_nat (length b) :: byte]) + length b)) 0 (length b) (here c (sDataPos s + length ([word_of_nat (length b) :: byte]))))"
    by (rule run_block [OF _ len _ c, where bs = bs]) (use at v run_ReadU1 in \<open>force+\<close>)
  then show ?thesis by (simp add: v attr_reader_def val_state_def)
next
  assume v: "v = A_block2 b"
  have len: "unat (word_of_nat (length b) :: u16) = length b" using ok v by (simp add: block_length)
  have "bnd dio_ReadU2 (\<lambda>n. dio_ReadFormBlock (unat n)) (with_form s 0 0 Null) =
      (Inr (), with_form (adv s (length (enc (vc_big c) 2 (word_of_nat (length b) :: u16)) + length b)) 0 (length b) (here c (sDataPos s + length (enc (vc_big c) 2 (word_of_nat (length b) :: u16)))))"
    by (rule run_block [OF _ len _ c, where bs = bs]) (use at v run_ReadU2 in \<open>force+\<close>)
  then show ?thesis by (simp add: v attr_reader_def val_state_def)
next
  assume v: "v = A_block4 b"
  have len: "unat (word_of_nat (length b) :: u32) = length b" using ok v by (simp add: block_length)
  have "bnd dio_ReadU4 (\<lambda>n. dio_ReadFormBlock (unat n)) (with_form s 0 0 Null) =
      (Inr (), with_form (adv s (length (enc (vc_big c) 4 (word_of_nat (length b) :: u32)) + length b)) 0 (length b) (here c (sDataPos s + length (enc (vc_big c) 4 (word_of_nat (length b) :: u32)))))"
    by (rule run_block [OF _ len _ c, where bs = bs]) (use at v run_ReadU4 in \<open>force+\<close>)
  then show ?thesis by (simp add: v attr_reader_def val_state_def)
next
  assume v: "v = A_block b"
  have len: "unat (word_of_nat (length b) :: u32) = length b" using ok v by (simp add: block_length)
  have "bnd dio_ReadULEB128 (\<lambda>n. dio_ReadFormBlock (unat n)) (with_form s 0 0 Null) =
      (Inr (), with_form (adv s (length (uleb (length b)) + length b)) 0 (length b) (here c (sDataPos s + length (uleb (length b)))))"
    by (rule run_block [OF _ len _ c, where bs = bs]) (use at v run_ReadULEB128 [of _ "word_of_nat (length b)"] len in \<open>force+\<close>)
  then show ?thesis by (simp add: v attr_reader_def val_state_def)
next
  assume v: "v = A_exprloc b"
  have len: "unat (word_of_nat (length b) :: u32) = length b" using ok v by (simp add: block_length)
  have "bnd dio_ReadULEB128 (\<lambda>n. dio_ReadFormBlock (unat n)) (with_form s 0 0 Null) =
      (Inr (), with_form (adv s (length (uleb (length b)) + length b)) 0 (length b) (here c (sDataPos s + length (uleb (length b)))))"
    by (rule run_block [OF _ len _ c, where bs = bs]) (use at v run_ReadULEB128 [of _ "word_of_nat (length b)"] len in \<open>force+\<close>)
  then show ?thesis by (simp add: v attr_reader_def val_state_def)
qed

lemma run_number_at:
  assumes c: "ctx_ok env u c s"
  shows "dio_at s (x1 # bs) \<Longrightarrow> dio_ReadU1 (with_form s 0 0 Null) = (Inr x1, with_form (adv s 1) 0 0 Null)"
    and "dio_at s (enc (vc_big c) 2 x2 @ bs) \<Longrightarrow> dio_ReadU2 (with_form s 0 0 Null) = (Inr x2, with_form (adv s 2) 0 0 Null)"
    and "dio_at s (enc (vc_big c) 4 x4 @ bs) \<Longrightarrow> dio_ReadU4 (with_form s 0 0 Null) = (Inr x4, with_form (adv s 4) 0 0 Null)"
    and "dio_at s (enc (vc_big c) 8 x8 @ bs) \<Longrightarrow> dio_ReadU8 (with_form s 0 0 Null) = (Inr x8, with_form (adv s 8) 0 0 Null)"
    and "dio_at s (uleb (unat x4) @ bs) \<Longrightarrow>
      dio_ReadULEB128 (with_form s 0 0 Null) = (Inr x4, with_form (adv s (length (uleb (unat x4)))) 0 0 Null)"
    and "dio_at s (uleb (unat x8) @ bs) \<Longrightarrow>
      dio_ReadU8LEB128 (with_form s 0 0 Null) = (Inr x8, with_form (adv s (length (uleb (unat x8)))) 0 0 Null)"
    and "dio_at s (sleb (sint x8) @ bs) \<Longrightarrow>
      dio_ReadS8LEB128 (with_form s 0 0 Null) = (Inr x8, with_form (adv s (length (sleb (sint x8)))) 0 0 Null)"
  using run_ReadU1 [of "with_form s 0 0 Null"] run_ReadU2 [of "with_form s 0 0 Null"] run_ReadU4 [of "with_form s 0 0 Null"]
    run_ReadU8 [of "with_form s 0 0 Null"] run_ReadULEB128 [of "with_form s 0 0 Null"]
    run_ReadU8LEB128 [of "with_form s 0 0 Null"] run_ReadS8LEB128 [of "with_form s 0 0 Null"] ctx_okD(2) [OF c]
  by simp_all

lemma run_offset_with: "ctx_ok env u c s \<Longrightarrow> unit_offset_size (with_form s d n a) = (Inr (vc_osz c), with_form s d n a)"
  using run_offset_size [of env "vc_sec c" u "with_form s d n a"] ctx_okD(1,5) [of env u c s] by simp

lemma run_address_at:
  assumes c: "ctx_ok env u c s" and "fits n x" "dio_at s (enc (vc_big c) n x @ bs)"
  shows "form_address env n (with_form s d m a) = (Inr x, with_form (adv s n) d m a)"
  using assms(2,3) ctx_okD(2) [OF c] by (intro run_form_address [OF _ _ _ ctx_okD(1) [OF c]]) (auto simp: fits_def)

lemma unat_up [simp]: "unat (ucast (x :: byte) :: u64) = unat x" "unat (ucast (y :: u16) :: u64) = unat y" "unat (ucast (z :: u32) :: u64) = unat z"
  using unsigned_less [of x, where 'a = nat] unsigned_less [of y, where 'a = nat] unsigned_less [of z, where 'a = nat]
  by (simp_all add: unsigned_ucast_eq take_bit_nat_eq_self_iff)

lemma run_strp:
  assumes c: "ctx_ok env u c s" and "fits (vc_osz c) x" "in_table (vc_strings c) (unat x) str"
    and at: "dio_at s (enc (vc_big c) (vc_osz c) x @ bs)"
  shows "dio_ReadFormStringRef env (with_form s 0 0 Null) =
     (Inr (), with_form (adv s (vc_osz c)) 0 (length str + 1) (Data (fst (the (vc_strings c))) (uint x)))"
proof -
  obtain t where t: "vc_strings c = Some (t, sec_data (the_section env t))" "string_table env s (fst (vc_sec c)) t"
    "string_at (sec_data (the_section env t)) (unat x) str"
    using assms by (auto simp: in_table_def ctx_ok_def table_ok_def split: option.splits)
  have "dio_at s (enc (sBigEndian s) (vc_osz c) x @ bs)" "vc_osz c = (if m64bit u then 8 else 4)" "take_bit (8 * vc_osz c) x = x"
    using at ctx_okD(2,5) [OF c] assms(2) by (simp_all add: fits_def)
  from run_form_string_ref [OF this ctx_okD(1) [OF c] run_LoadStringTable t(2,3)] t(1) show ?thesis
    by (simp add: dio_ReadFormStringRef_def)
qed

lemma run_strp_alt:
  assumes c: "ctx_ok env u c s" and "fits (vc_osz c) x" "in_table (vc_alt_strings c) (unat x) str"
    and at: "dio_at s (enc (vc_big c) (vc_osz c) x @ bs)"
  shows "dio_ReadFormAltStringRef env (with_form s 0 0 Null) =
     (Inr (), with_form (adv s (vc_osz c)) 0 (length str + 1) (Data (fst (the (vc_alt_strings c))) (uint x)))"
proof -
  obtain t g where t: "vc_alt_strings c = Some (t, sec_data (the_section env t))" "string_table env s g t"
    "string_at (sec_data (the_section env t)) (unat x) str" "dwz_file (elf_file env (fst (vc_sec c))) = Some g"
    using assms by (auto simp: in_table_def ctx_ok_def table_ok_def split: option.splits)
  have "dio_at s (enc (sBigEndian s) (vc_osz c) x @ bs)" "vc_osz c = (if m64bit u then 8 else 4)" "take_bit (8 * vc_osz c) x = x"
    using at ctx_okD(2,5) [OF c] assms(2) by (simp_all add: fits_def)
  from run_form_string_ref [where load_table = "dio_LoadAltStringTable env", OF this ctx_okD(1) [OF c] run_LoadAltStringTable [OF t(4)] t(2,3)] t(1) show ?thesis
    by (simp add: dio_ReadFormAltStringRef_def)
qed

lemma run_ReadAttribute:
  assumes c: "ctx_ok env u c s" and ok: "val_ok c Attr v" and at: "dio_at s (val_bytes c v @ bs)"
  shows "dio_ReadAttribute env Attr (form_of v) s = (Inr (), val_state c v s)"
proof -
  note num = run_number_at [OF c, where bs = bs]
  have adv: "ctx_ok env u c (adv s n)" for n using c by simp
  note data = run_ReadFormData [OF ctx_okD(9) [OF adv]]
  note rel = run_ReadFormRelRef [OF adv, where Attr = Attr]
  note [simp] = act_simps val_state_def attr_reader_def here_def
  have "attr_reader env Attr v (with_form s 0 0 Null) = (Inr (), val_state c v s)"
  proof (cases v)
    case (A_addr x)
    then show ?thesis using at ok run_address_at [OF c, of "vc_asz c" x bs]
      by (simp add: dio_ReadFormAddr_def ctx_okD [OF c])
  next
    case (A_ref x) then show ?thesis using at num(3) [of x] by (simp add: dio_ReadFormRef_def)
  next
    case (A_ref_alt x)
    then show ?thesis using at ok run_address_at [OF c, of "vc_osz c" x bs]
      by (simp add: dio_ReadFormAltRef_def run_offset_with [OF c] run_add_section_addr [OF adv])
  next
    case (A_data1 x) then show ?thesis using at num(1) [of x] by (simp add: data)
  next
    case (A_data2 x) then show ?thesis using at num(2) [of x] by (simp add: data)
  next
    case (A_data4 x) then show ?thesis using at num(3) [of x] by (simp add: data)
  next
    case (A_data8 x) then show ?thesis using at num(4) [of x] by (simp add: data)
  next
    case (A_sdata x) then show ?thesis using at num(7) [of x] by (simp add: data)
  next
    case (A_udata x) then show ?thesis using at num(6) [of x] by (simp add: data)
  next
    case (A_flag x) then show ?thesis using at num(1) [of x] by (simp add: data)
  next
    case A_flag_present then show ?thesis using run_ReadFormData [OF ctx_okD(9) [OF c], of 0] by simp
  next
    case (A_string str) then show ?thesis using at ok run_ReadFormString [of s str bs "vc_sec c"] ctx_okD(9) [OF c] by simp
  next
    case (A_ref_addr x)
    then show ?thesis using at ok run_address_at [OF c, of "vc_rsz c" x bs]
      by (simp add: dio_ReadFormRefAddr_def ctx_okD [OF c] run_add_section_addr [OF adv])
  next
    case (A_ref1 x) then show ?thesis using at ok num(1) [of x] rel [where x = "ucast x"] by (simp add: rel_ref_def)
  next
    case (A_ref2 x) then show ?thesis using at ok num(2) [of x] rel [where x = "ucast x"] by (simp add: rel_ref_def)
  next
    case (A_ref4 x) then show ?thesis using at ok num(3) [of x] rel [where x = "ucast x"] by (simp add: rel_ref_def)
  next
    case (A_ref8 x) then show ?thesis using at ok num(4) [of x] rel [where x = x] by (simp add: rel_ref_def)
  next
    case (A_ref_udata x) then show ?thesis using at ok num(5) [of x] rel [where x = "ucast x"] by (simp add: rel_ref_def)
  next
    case (A_sec_offset x)
    then show ?thesis using at ok run_address_at [OF c, of "vc_osz c" x bs] by (simp add: run_offset_with [OF c] data)
  next
    case (A_ref_sig8 x) then show ?thesis using at num(4) [of x] by (simp add: data)
  next
    case (A_strp x str)
    then show ?thesis using run_strp [OF c] at ok by simp
  next
    case (A_strp_alt x str)
    then show ?thesis using run_strp_alt [OF c] at ok by simp
  qed (use run_attr_block [OF assms] in simp_all)
  then show ?thesis using ReadAttribute_eq [OF c] by simp
qed

end
