(* ===== verification/DwarfEntry.thy ===== *)
theory DwarfEntry
  imports DwarfAttr
begin

text \<open>
  Entries of debug information: what a callback gets to see of an entry, and that looking for one attribute sees
  the same as reading all of them.
\<close>

lemma run_bnd_ret [act_simps]: "bnd (ret x) f s = f x s"
  by (simp add: bnd_def ret_def)

section \<open>Runs of the reader\<close>

text \<open>The callback of this theory writes down its arguments and the value of the attribute.\<close>

type_synonym view = "u64 \<times> nat \<times> data_ptr"
type_synonym call = "u16 \<times> u16 \<times> u16 \<times> view"

definition log_cb :: "u16 \<Rightarrow> u16 \<Rightarrow> u16 \<Rightarrow> (call list, unit) dio" where
  "log_cb Tag Attr Form = modify (\<lambda>s. s\<lparr>d_client := d_client s @
     [(Tag, Attr, Form, if Attr = 0 then (0, 0, Null) else (dio_gFormData s, dio_gFormDataSize s, dio_gFormDataAddr s))]\<rparr>)"

text \<open>
  From \<open>s\<close> to \<open>s'\<close> the reader moves by \<open>n\<close> bytes and makes the calls \<open>l\<close>; only the variables of
  the last attribute and of the last entry change besides.
\<close>

definition moved :: "call list DIO \<Rightarrow> nat \<Rightarrow> call list \<Rightarrow> call list DIO \<Rightarrow> bool" where
  "moved s n l s' \<longleftrightarrow> sDataPos s' = sDataPos s + n \<and> d_client s' = d_client s @ l \<and> sSection s' = sSection s \<and>
     sBigEndian s' = sBigEndian s \<and> sAddressSize s' = sAddressSize s \<and> sRefAddressSize s' = sRefAddressSize s \<and>
     sData s' = sData s \<and> sDataLen s' = sDataLen s \<and> sUnit s' = sUnit s \<and> d_units s' = d_units s \<and>
     d_caches s' = d_caches s \<and> AbbrevBuf s' = AbbrevBuf s"

lemma moved_refl [simp]: "moved s 0 [] s"
  by (simp add: moved_def)

lemma moved_trans: "moved s n l s' \<Longrightarrow> moved s' n' l' s'' \<Longrightarrow> moved s (n + n') (l @ l') s''"
  by (simp add: moved_def)

lemma moved_adv [simp]: "moved s n [] (adv s n)" "moved s n [] (with_form (adv s n) d m a)"
  by (simp_all add: moved_def)

lemma moved_ctx_ok: "moved s n l s' \<Longrightarrow> ctx_ok env u c s' = ctx_ok env u c s"
  using table_ok_cong [of s' s env] by (simp add: ctx_ok_def reading_def moved_def)

lemma moved_dio_at: "moved s n l s' \<Longrightarrow> dio_at s (xs @ ys) \<Longrightarrow> length xs = n \<Longrightarrow> dio_at s' ys"
  using dio_at_append(2) [of s xs ys] dio_at_cong [of s' "adv s (length xs)" ys] by (simp add: moved_def)

definition view :: "'c DIO \<Rightarrow> view" where
  "view s = (dio_gFormData s, dio_gFormDataSize s, dio_gFormDataAddr s)"

lemma run_log_cb:
  "\<exists>s'. log_cb Tag Attr Form s = (Inr (), s') \<and>
     moved s 0 [(Tag, Attr, Form, if Attr = 0 then (0, 0, Null) else view s)] s'"
  by (simp add: log_cb_def act_simps moved_def view_def)

section \<open>Attributes of an entry\<close>

text \<open>
  An attribute of an entry: its number, whether the form is written in the entry (\<^verbatim>\<open>FORM_INDIRECT\<close>), and the value.
\<close>

type_synonym attr = "u16 \<times> bool \<times> attr_val"

fun attr_spec :: "attr \<Rightarrow> u16 list" where
  "attr_spec (a, indirect, v) = [a, if indirect then FORM_INDIRECT else form_of v]"

definition attr_specs :: "attr list \<Rightarrow> u16 list" where
  "attr_specs as = concat (map attr_spec as)"

fun form_bytes :: "attr \<Rightarrow> byte list" where
  "form_bytes (a, indirect, v) = (if indirect then uleb (unat (form_of v)) else [])"

fun attr_bytes :: "val_ctx \<Rightarrow> attr \<Rightarrow> byte list" where
  "attr_bytes c (a, indirect, v) = form_bytes (a, indirect, v) @ val_bytes c v"

definition attrs_bytes :: "val_ctx \<Rightarrow> attr list \<Rightarrow> byte list" where
  "attrs_bytes c as = concat (map (attr_bytes c) as)"

fun attr_ok :: "val_ctx \<Rightarrow> attr \<Rightarrow> bool" where
  "attr_ok c (a, indirect, v) \<longleftrightarrow> a \<noteq> 0 \<and> val_ok c a v"

fun attr_calls :: "val_ctx \<Rightarrow> u16 \<Rightarrow> nat \<Rightarrow> attr list \<Rightarrow> call list" where
  "attr_calls c Tag pos [] = []"
| "attr_calls c Tag pos ((a, indirect, v) # as) =
     (Tag, a, form_of v, val_view c (pos + length (form_bytes (a, indirect, v))) v) #
     attr_calls c Tag (pos + length (attr_bytes c (a, indirect, v))) as"

lemma attr_specs_simps [simp]:
  "attr_specs [] = []" "attr_specs (a # as) = attr_spec a @ attr_specs as"
  "attr_specs (as @ bs) = attr_specs as @ attr_specs bs"
  "attrs_bytes c [] = []" "attrs_bytes c (a # as) = attr_bytes c a @ attrs_bytes c as"
  by (simp_all add: attr_specs_def attrs_bytes_def)

lemma form_of_not_special [simp]: "form_of v \<noteq> 0" "form_of v \<noteq> FORM_INDIRECT"
  by (cases v; simp)+

text \<open>A round of the loop: the attribute and its form.\<close>

lemma run_next_attr:
  assumes at: "dio_at s (attr_bytes c (a, indirect, v) @ bs)" and m: "mAttrs ab = attr_specs done @ attr_specs ((a, indirect, v) # as)"
  shows "next_attr (Some ab) 0 False (length (attr_specs done)) s =
     (Inr (a, form_of v, length (attr_specs (done @ [(a, indirect, v)]))), adv s (length (form_bytes (a, indirect, v))))"
proof -
  have n: "mAttrs ab ! length (attr_specs done) = a"
    "mAttrs ab ! Suc (length (attr_specs done)) = (if indirect then FORM_INDIRECT else form_of v)"
    by (simp_all add: m nth_append)
  show ?thesis
  proof (cases indirect)
    case True
    have u: "unat (ucast (form_of v) :: u32) = unat (form_of v)"
      using unsigned_less [of "form_of v", where 'a = nat] by (simp add: unsigned_ucast_eq take_bit_nat_eq_self_iff)
    have "dio_ReadULEB128 s = (Inr (ucast (form_of v)), adv s (length (uleb (unat (form_of v)))))"
      using run_ReadULEB128 [of s "ucast (form_of v)" "val_bytes c v @ bs"] at True u by simp
    moreover have "(ucast (ucast (form_of v) :: u32) :: u16) = form_of v"
      by (rule bit_word_eqI) (simp add: bit_simps)
    ultimately show ?thesis using True n by (simp add: next_attr_def m act_simps)
  next
    case False
    with n show ?thesis by (simp add: next_attr_def m act_simps)
  qed
qed

lemma run_last_attr:
  "next_attr (Some ab) 0 False (length (mAttrs ab)) s = (Inr (0, 0, length (mAttrs ab)), s)"
  by (simp add: next_attr_def act_simps)

lemma run_first_attr:
  "next_attr (Some ab) 0 True 0 s =
     (Inr (0, if mChildren ab then DWARF_ENTRY_HAS_CHILDREN else DWARF_ENTRY_NO_CHILDREN, 0), s)"
  by (simp add: next_attr_def act_simps)

lemma run_unit_entry:
  assumes "ctx_ok env u c s" "vc_size c \<noteq> 0"
  shows "unit_entry env Tag Attr Form s = (Inr (), s)"
proof -
  have "cur_unit s = (Inr u, s)" by (rule run_cur_unit [OF ctx_okD(1) [OF assms(1)]])
  with assms show ?thesis by (simp add: unit_entry_def act_simps ctx_okD)
qed

lemma val_state_view: "moved s (length (val_bytes c v)) [] (val_state c v s)" "view (val_state c v s) = val_view c (sDataPos s) v"
  by (cases "val_view c (sDataPos s) v", simp add: val_state_def view_def)+

section \<open>Reading all attributes\<close>

definition entry_calls :: "val_ctx \<Rightarrow> u16 \<Rightarrow> bool \<Rightarrow> nat \<Rightarrow> attr list \<Rightarrow> call list" where
  "entry_calls c Tag children pos as =
     (Tag, 0, if children then DWARF_ENTRY_HAS_CHILDREN else DWARF_ENTRY_NO_CHILDREN, 0, 0, Null) #
     attr_calls c Tag pos as @ [(Tag, 0, 0, 0, 0, Null)]"

lemma entry_loop_attr:
  assumes c: "ctx_ok env u c s" "vc_size c \<noteq> 0" and at: "dio_at s (attr_bytes c (a, indirect, v) @ bs)"
    and m: "mAttrs ab = attr_specs done @ attr_specs ((a, indirect, v) # as)" and ok: "attr_ok c (a, indirect, v)"
  shows "\<exists>s'. entry_loop env (Some log_cb) 0 (Some ab) Tag 0 (Suc fuel) False (length (attr_specs done)) s =
       entry_loop env (Some log_cb) 0 (Some ab) Tag 0 fuel False (length (attr_specs (done @ [(a, indirect, v)]))) s' \<and>
     moved s (length (attr_bytes c (a, indirect, v))) (attr_calls c Tag (sDataPos s) [(a, indirect, v)]) s'"
proof -
  let ?s1 = "adv s (length (form_bytes (a, indirect, v)))"
  let ?s2 = "val_state c v ?s1"
  have m1: "moved s (length (form_bytes (a, indirect, v))) [] ?s1" by simp
  have "dio_at ?s1 (val_bytes c v @ bs)" using moved_dio_at [OF m1] at by simp
  then have rd: "dio_ReadAttribute env a (form_of v) ?s1 = (Inr (), ?s2)"
    using run_ReadAttribute [of env u c ?s1 a v bs] c ok by simp
  note m2 = moved_trans [OF m1 val_state_view(1) [of ?s1 c v]]
  have "unit_entry env Tag a (form_of v) ?s2 = (Inr (), ?s2)"
    using run_unit_entry [of env u c ?s2 Tag a] moved_ctx_ok [OF m2] c by simp
  moreover obtain s3 where s3: "log_cb Tag a (form_of v) ?s2 = (Inr (), s3)"
    "moved ?s2 0 [(Tag, a, form_of v, if a = 0 then (0, 0, Null) else view ?s2)] s3"
    using run_log_cb by blast
  ultimately have "entry_loop env (Some log_cb) 0 (Some ab) Tag 0 (Suc fuel) False (length (attr_specs done)) s =
      entry_loop env (Some log_cb) 0 (Some ab) Tag 0 fuel False (length (attr_specs (done @ [(a, indirect, v)]))) s3"
    using run_next_attr [OF at m] rd ok by (simp add: act_simps callback_def del: attr_spec.simps form_bytes.simps)
  moreover have "moved s (length (attr_bytes c (a, indirect, v))) (attr_calls c Tag (sDataPos s) [(a, indirect, v)]) s3"
    using moved_trans [OF m2 s3(2)] ok val_state_view(2) [of c v ?s1] by (simp del: form_bytes.simps)
  ultimately show ?thesis by blast
qed

lemma attr_calls_Cons:
  "attr_calls c Tag pos (x # as) = attr_calls c Tag pos [x] @ attr_calls c Tag (pos + length (attr_bytes c x)) as"
  by (cases x) simp

lemma entry_loop_end:
  assumes "ctx_ok env u c s" "vc_size c \<noteq> 0"
  shows "\<exists>s'. entry_loop env (Some log_cb) 0 (Some ab) Tag 0 (Suc fuel) False (length (mAttrs ab)) s = (Inr True, s') \<and>
     moved s 0 [(Tag, 0, 0, 0, 0, Null)] s'"
proof -
  obtain s' where "log_cb Tag 0 0 s = (Inr (), s')" "moved s 0 [(Tag, 0, 0, 0, 0, Null)] s'"
    using run_log_cb [of Tag 0 0 s] by auto
  moreover have "unit_entry env Tag 0 0 s = (Inr (), s)" by (rule run_unit_entry [OF assms])
  ultimately show ?thesis by (simp add: run_last_attr act_simps callback_def)
qed

lemma entry_loop_attrs:
  assumes "ctx_ok env u c s" "vc_size c \<noteq> 0" "dio_at s (attrs_bytes c as @ bs)"
    and "mAttrs ab = attr_specs done @ attr_specs as" "list_all (attr_ok c) as" "length as < fuel"
  shows "\<exists>s'. entry_loop env (Some log_cb) 0 (Some ab) Tag 0 fuel False (length (attr_specs done)) s = (Inr True, s') \<and>
     moved s (length (attrs_bytes c as)) (attr_calls c Tag (sDataPos s) as @ [(Tag, 0, 0, 0, 0, Null)]) s'"
  using assms
proof (induction as arbitrary: s "done" fuel)
  case Nil
  then obtain k where "fuel = Suc k" by (cases fuel) auto
  with Nil entry_loop_end [OF Nil.prems(1,2), of ab Tag k] show ?case by simp
next
  case (Cons x as)
  obtain a ind v where x: "x = (a, ind, v)" by (cases x)
  obtain k where k: "fuel = Suc k" "length as < k" using Cons.prems(6) by (cases fuel) auto
  have at: "dio_at s (attr_bytes c x @ attrs_bytes c as @ bs)" using Cons.prems(3) by simp
  obtain s1 where s1: "entry_loop env (Some log_cb) 0 (Some ab) Tag 0 fuel False (length (attr_specs done)) s =
      entry_loop env (Some log_cb) 0 (Some ab) Tag 0 k False (length (attr_specs (done @ [x]))) s1"
    "moved s (length (attr_bytes c x)) (attr_calls c Tag (sDataPos s) [x]) s1"
    using entry_loop_attr [OF Cons.prems(1,2), of a ind v "attrs_bytes c as @ bs" ab "done" as Tag k] at Cons.prems(4,5) x k(1)
    by (auto simp del: attr_calls.simps attr_bytes.simps attr_spec.simps entry_loop.simps)
  have "\<exists>s'. entry_loop env (Some log_cb) 0 (Some ab) Tag 0 k False (length (attr_specs (done @ [x]))) s1 = (Inr True, s') \<and>
     moved s1 (length (attrs_bytes c as)) (attr_calls c Tag (sDataPos s1) as @ [(Tag, 0, 0, 0, 0, Null)]) s'"
    using Cons.prems k moved_ctx_ok [OF s1(2)] moved_dio_at [OF s1(2) at]
    by (intro Cons.IH) (auto simp del: attr_spec.simps)
  then obtain s' where s': "entry_loop env (Some log_cb) 0 (Some ab) Tag 0 k False (length (attr_specs (done @ [x]))) s1 = (Inr True, s')"
    "moved s1 (length (attrs_bytes c as)) (attr_calls c Tag (sDataPos s1) as @ [(Tag, 0, 0, 0, 0, Null)]) s'"
    by blast
  have "sDataPos s1 = sDataPos s + length (attr_bytes c x)" using s1(2) by (simp add: moved_def)
  with moved_trans [OF s1(2) s'(2)] s1(1) s'(1) show ?case
    unfolding attr_calls_Cons [of c Tag _ x as] by simp
qed

lemma run_entry_loop:
  assumes c: "ctx_ok env u c s" "vc_size c \<noteq> 0" and at: "dio_at s (attrs_bytes c as @ bs)"
    and m: "mAttrs ab = attr_specs as" "list_all (attr_ok c) as" and f: "length as + 1 < fuel"
  shows "\<exists>s'. entry_loop env (Some log_cb) 0 (Some ab) Tag 0 fuel True 0 s = (Inr True, s') \<and>
     moved s (length (attrs_bytes c as)) (entry_calls c Tag (mChildren ab) (sDataPos s) as) s'"
proof -
  let ?F = "if mChildren ab then DWARF_ENTRY_HAS_CHILDREN else DWARF_ENTRY_NO_CHILDREN"
  obtain k where k: "fuel = Suc k" "length as < k" using f by (cases fuel) auto
  have F: "?F \<noteq> 0" by (simp add: DWARF_ENTRY_HAS_CHILDREN_def DWARF_ENTRY_NO_CHILDREN_def)
  obtain s1 where s1: "log_cb Tag 0 ?F s = (Inr (), s1)" "moved s 0 [(Tag, 0, ?F, 0, 0, Null)] s1"
    using run_log_cb [of Tag 0 ?F s] by auto
  have e: "entry_loop env (Some log_cb) 0 (Some ab) Tag 0 fuel True 0 s =
      entry_loop env (Some log_cb) 0 (Some ab) Tag 0 k False 0 s1"
    using run_unit_entry [OF c, of Tag 0 ?F] s1(1) F k(1) by (simp add: run_first_attr act_simps callback_def)
  obtain s' where s': "entry_loop env (Some log_cb) 0 (Some ab) Tag 0 k False (length (attr_specs [])) s1 = (Inr True, s')"
    "moved s1 (length (attrs_bytes c as)) (attr_calls c Tag (sDataPos s1) as @ [(Tag, 0, 0, 0, 0, Null)]) s'"
    using entry_loop_attrs [of env u c s1 as bs ab "[]" k Tag] c moved_ctx_ok [OF s1(2)] moved_dio_at [OF s1(2), of "[]"]
      at m k by auto
  have "sDataPos s1 = sDataPos s" using s1(2) by (simp add: moved_def)
  with moved_trans [OF s1(2) s'(2)] e s'(1) show ?thesis by (auto simp: entry_calls_def)
qed

lemma length_attr_specs [simp]: "length (attr_specs as) = 2 * length as"
  by (induction as) auto

text \<open>An entry: the code of its abbreviation and its attributes.\<close>

definition entry_ok :: "DIO_UnitDescriptor \<Rightarrow> val_ctx \<Rightarrow> u32 \<Rightarrow> DIO_Abbreviation \<Rightarrow> attr list \<Rightarrow> bool" where
  "entry_ok u c code ab as \<longleftrightarrow> code \<noteq> 0 \<and> unat code < length (mUnitAbbrevs u) \<and> mUnitAbbrevs u ! unat code = Some ab \<and>
     mAttrs ab = attr_specs as \<and> list_all (attr_ok c) as"

lemma run_entry_start:
  assumes c: "ctx_ok env u c s" and v: "mVersion u \<ge> 2" and e: "entry_ok u c code ab as"
    and at: "dio_at s (uleb (unat code) @ bs)"
  shows "\<exists>s1. dio_ReadEntry env cb T s = entry_loop env cb T (Some ab) (mTag ab) 0 (length (mAttrs ab) + 2) True 0 s1 \<and>
     moved s (length (uleb (unat code))) [] s1"
proof -
  let ?s0 = "s\<lparr>dio_gEntryPos := sDataPos s\<rparr>"
  have m: "moved s 0 [] ?s0" by (simp add: moved_def)
  have "cur_unit ?s0 = (Inr u, ?s0)" using moved_ctx_ok [OF m] c by (intro run_cur_unit [OF ctx_okD(1)]) simp
  moreover have "dio_ReadULEB128 ?s0 = (Inr code, adv ?s0 (length (uleb (unat code))))"
    using moved_dio_at [OF m, of "[]"] at by (intro run_ReadULEB128) simp
  ultimately have "dio_ReadEntry env cb T s =
      entry_loop env cb T (Some ab) (mTag ab) 0 (length (mAttrs ab) + 2) True 0 (adv ?s0 (length (uleb (unat code))))"
    using v e by (simp add: dio_ReadEntry_def act_simps entry_ok_def)
  moreover have "moved s (length (uleb (unat code))) [] (adv ?s0 (length (uleb (unat code))))"
    using moved_trans [OF m moved_adv(1)] by simp
  ultimately show ?thesis by blast
qed

lemma run_ReadEntry:
  assumes c: "ctx_ok env u c s" "vc_size c \<noteq> 0" and v: "mVersion u \<ge> 2" and e: "entry_ok u c code ab as"
    and at: "dio_at s (uleb (unat code) @ attrs_bytes c as @ bs)"
  shows "\<exists>s'. dio_ReadEntry env (Some log_cb) 0 s = (Inr True, s') \<and>
     moved s (length (uleb (unat code)) + length (attrs_bytes c as))
       (entry_calls c (mTag ab) (mChildren ab) (sDataPos s + length (uleb (unat code))) as) s'"
proof -
  obtain s1 where s1: "dio_ReadEntry env (Some log_cb) 0 s =
      entry_loop env (Some log_cb) 0 (Some ab) (mTag ab) 0 (length (mAttrs ab) + 2) True 0 s1"
    "moved s (length (uleb (unat code))) [] s1"
    using run_entry_start [OF c(1) v e at] by blast
  have p: "sDataPos s1 = sDataPos s + length (uleb (unat code))" using s1(2) by (simp add: moved_def)
  have "\<exists>s'. entry_loop env (Some log_cb) 0 (Some ab) (mTag ab) 0 (length (mAttrs ab) + 2) True 0 s1 = (Inr True, s') \<and>
     moved s1 (length (attrs_bytes c as)) (entry_calls c (mTag ab) (mChildren ab) (sDataPos s1) as) s'"
    using moved_ctx_ok [OF s1(2)] c moved_dio_at [OF s1(2) at] e
    by (intro run_entry_loop) (auto simp: entry_ok_def)
  with s1 p moved_trans [OF s1(2)] show ?thesis by fastforce
qed

lemma run_ReadEntry_null:
  assumes c: "ctx_ok env u c s" and v: "mVersion u \<ge> 2" and at: "dio_at s (0 # bs)"
  shows "\<exists>s'. dio_ReadEntry env cb T s = (Inr False, s') \<and> moved s 1 [] s'"
proof -
  let ?s0 = "s\<lparr>dio_gEntryPos := sDataPos s\<rparr>"
  have m: "moved s 0 [] ?s0" by (simp add: moved_def)
  have "cur_unit ?s0 = (Inr u, ?s0)" using moved_ctx_ok [OF m] c by (intro run_cur_unit [OF ctx_okD(1)]) simp
  moreover have "dio_ReadULEB128 ?s0 = (Inr 0, adv ?s0 1)"
    using moved_dio_at [OF m, of "[]"] at run_ReadULEB128 [of ?s0 0 bs] by (simp add: uleb_bytes)
  ultimately show ?thesis
    using v moved_trans [OF m moved_adv(1) [of ?s0 1]] by (simp add: dio_ReadEntry_def act_simps)
qed

section \<open>Looking for one attribute\<close>

lemma run_skip: "dio_at s (xs @ ys) \<Longrightarrow> length xs = n \<Longrightarrow> seq (move n) (ret True) s = (Inr True, adv s n)"
  by (simp add: act_simps run_move)

lemma form_string_loop_moved:
  "dio_at s (str @ 0 # bs) \<Longrightarrow> 0 \<notin> set str \<Longrightarrow> length str < fuel \<Longrightarrow>
   \<exists>s'. form_string_loop fuel s = (Inr (), s') \<and> moved s (length str + 1) [] s'"
proof (induction str arbitrary: s fuel)
  case Nil
  then obtain k where "fuel = Suc k" by (cases fuel) auto
  with Nil run_ReadU1 [of s 0 bs] show ?case by (simp add: act_simps)
next
  case (Cons b str)
  then obtain k where k: "fuel = Suc k" by (cases fuel) auto
  have r: "dio_ReadU1 s = (Inr b, adv s 1)" using run_ReadU1 [of s b "str @ 0 # bs"] Cons.prems(1) by simp
  let ?s1 = "(adv s 1)\<lparr>dio_gFormDataSize := dio_gFormDataSize (adv s 1) + 1\<rparr>"
  have m: "moved s 1 [] ?s1" by (simp add: moved_def)
  obtain s' where "form_string_loop k ?s1 = (Inr (), s')" "moved ?s1 (length str + 1) [] s'"
    using Cons.IH [of ?s1 k] moved_dio_at [OF m, of "[b]" "str @ 0 # bs"] Cons.prems k by auto
  with r k Cons.prems(2) moved_trans [OF m, of "length str + 1" "[]" s'] show ?case by (simp add: act_simps)
qed

lemma run_skip_string:
  assumes "dio_at s (str @ 0 # bs)" "0 \<notin> set str" "sSection s = Some r"
  shows "\<exists>s'. dio_ReadFormString s = (Inr (), s') \<and> moved s (length str + 1) [] s'"
proof -
  let ?s1 = "s\<lparr>dio_gFormDataAddr := Data r (int (sDataPos s))\<rparr>\<lparr>dio_gFormDataSize := 1\<rparr>"
  have m: "moved s 0 [] ?s1" by (simp add: moved_def)
  have "\<exists>s'. form_string_loop (data_fuel ?s1) ?s1 = (Inr (), s') \<and> moved ?s1 (length str + 1) [] s'"
    using moved_dio_at [OF m, of "[]"] assms(1,2) dio_at_room [OF assms(1)]
    by (intro form_string_loop_moved) (auto simp: data_fuel_def)
  with assms(3) moved_trans [OF m] show ?thesis
    by (auto simp: dio_ReadFormString_def act_simps form_addr_def)
qed

lemma run_skip_block:
  assumes "m s = (Inr w, adv s k)" "unat w = length b" "dio_at s (hdr @ b @ bs)" "length hdr = k"
  shows "bnd m (\<lambda>n. seq (move (unat n)) (ret True)) s = (Inr True, adv s (k + length b))"
  using assms(1,2,4) run_skip [OF dio_at_append(2) [OF assms(3)] refl] by (simp add: act_simps)

lemma skip_form_exact:
  assumes c: "ctx_ok env u c s" and ok: "val_ok c Attr v" and at: "dio_at s (val_bytes c v @ bs)"
    and v: "\<And>str. v \<noteq> A_string str"
  shows "skip_form (form_of v) s = (Inr True, adv s (length (val_bytes c v)))"
proof -
  have off: "unit_offset_size s = (Inr (vc_osz c), s)"
    using run_offset_size [OF ctx_okD(1) [OF c]] ctx_okD(5) [OF c] by simp
  note e = ctx_okD(2,3,4) [OF c]
  have skip: "seq (move (length (val_bytes c v))) (ret True) s = (Inr True, adv s (length (val_bytes c v)))"
    using run_skip [OF at] by blast
  note [simp] = skip_form_def off e run_bnd_look run_bnd_ret run_bnd
  show ?thesis
  proof (cases v)
    case (A_block1 b)
    have len: "unat (word_of_nat (length b) :: byte) = length b" using ok A_block1 by (simp add: block_length)
    have "bnd dio_ReadU1F (\<lambda>n. seq (move (unat n)) (ret True)) s = (Inr True, adv s (1 + length b))"
      by (rule run_skip_block [where w = "word_of_nat (length b) :: byte" and hdr = "[word_of_nat (length b)]" and bs = bs])
        (use at A_block1 run_ReadU1F [of s "word_of_nat (length b)" "b @ bs"] len e in simp_all)
    with A_block1 show ?thesis by simp
  next
    case (A_block2 b)
    have len: "unat (word_of_nat (length b) :: u16) = length b" using ok A_block2 by (simp add: block_length)
    have "bnd dio_ReadU2 (\<lambda>n. seq (move (unat n)) (ret True)) s = (Inr True, adv s (2 + length b))"
      by (rule run_skip_block [where w = "word_of_nat (length b) :: u16" and hdr = "enc (vc_big c) 2 (word_of_nat (length b) :: u16)" and bs = bs])
        (use at A_block2 run_ReadU2 [of s "word_of_nat (length b)" "b @ bs"] len e in simp_all)
    with A_block2 show ?thesis by simp
  next
    case (A_block4 b)
    have len: "unat (word_of_nat (length b) :: u32) = length b" using ok A_block4 by (simp add: block_length)
    have "bnd dio_ReadU4 (\<lambda>n. seq (move (unat n)) (ret True)) s = (Inr True, adv s (4 + length b))"
      by (rule run_skip_block [where w = "word_of_nat (length b) :: u32" and hdr = "enc (vc_big c) 4 (word_of_nat (length b) :: u32)" and bs = bs])
        (use at A_block4 run_ReadU4 [of s "word_of_nat (length b)" "b @ bs"] len e in simp_all)
    with A_block4 show ?thesis by simp
  next
    case (A_block b)
    have len: "unat (word_of_nat (length b) :: u32) = length b" using ok A_block by (simp add: block_length)
    have "bnd dio_ReadULEB128 (\<lambda>n. seq (move (unat n)) (ret True)) s = (Inr True, adv s ((length (uleb (length b))) + length b))"
      by (rule run_skip_block [where w = "word_of_nat (length b) :: u32" and hdr = "uleb (length b)" and bs = bs])
        (use at A_block run_ReadULEB128 [of s "word_of_nat (length b)" "b @ bs"] len e in simp_all)
    with A_block show ?thesis by simp
  next
    case (A_exprloc b)
    have len: "unat (word_of_nat (length b) :: u32) = length b" using ok A_exprloc by (simp add: block_length)
    have "bnd dio_ReadULEB128 (\<lambda>n. seq (move (unat n)) (ret True)) s = (Inr True, adv s ((length (uleb (length b))) + length b))"
      by (rule run_skip_block [where w = "word_of_nat (length b) :: u32" and hdr = "uleb (length b)" and bs = bs])
        (use at A_exprloc run_ReadULEB128 [of s "word_of_nat (length b)" "b @ bs"] len e in simp_all)
    with A_exprloc show ?thesis by simp
  next
    case (A_sdata x) then show ?thesis using at run_ReadS8LEB128 [of s x bs] by (simp add: run_ret)
  next
    case (A_udata x) then show ?thesis using at run_ReadU8LEB128 [of s x bs] by (simp add: run_ret)
  next
    case (A_ref_udata x) then show ?thesis using at run_ReadULEB128 [of s x bs] by (simp add: run_ret)
  qed (use skip v in \<open>simp_all add: run_ret\<close>)
qed

lemma run_skip_form:
  assumes c: "ctx_ok env u c s" and ok: "val_ok c Attr v" and at: "dio_at s (val_bytes c v @ bs)"
  shows "\<exists>s'. skip_form (form_of v) s = (Inr True, s') \<and> moved s (length (val_bytes c v)) [] s'"
proof (cases "\<exists>str. v = A_string str")
  case True
  then obtain str where v: "v = A_string str" by blast
  obtain s' where "dio_ReadFormString s = (Inr (), s')" "moved s (length str + 1) [] s'"
    using run_skip_string [of s str bs] at ok v ctx_okD(9) [OF c] by auto
  then show ?thesis by (simp add: v skip_form_def act_simps)
next
  case False
  then show ?thesis using skip_form_exact [OF c ok at] moved_adv(1) by blast
qed

text \<open>The calls that a client which looks for one attribute is interested in.\<close>

definition wanted :: "u16 \<Rightarrow> call \<Rightarrow> bool" where
  "wanted T e \<longleftrightarrow> fst (snd e) = T \<or> fst (snd e) \<in> set link_attrs"

lemma target_loop_attr:
  assumes T: "T \<noteq> 0" and c: "ctx_ok env u c s" "vc_size c \<noteq> 0" and at: "dio_at s (attr_bytes c (a, indirect, v) @ bs)"
    and m: "mAttrs ab = attr_specs done @ attr_specs ((a, indirect, v) # as)" and ok: "attr_ok c (a, indirect, v)"
  shows "\<exists>s'. entry_loop env (Some log_cb) T (Some ab) Tag 0 (Suc fuel) False (length (attr_specs done)) s =
       entry_loop env (Some log_cb) T (Some ab) Tag 0 fuel False (length (attr_specs (done @ [(a, indirect, v)]))) s' \<and>
     moved s (length (attr_bytes c (a, indirect, v))) (filter (wanted T) (attr_calls c Tag (sDataPos s) [(a, indirect, v)])) s'"
proof -
  let ?s1 = "adv s (length (form_bytes (a, indirect, v)))"
  have m1: "moved s (length (form_bytes (a, indirect, v))) [] ?s1" by simp
  have at1: "dio_at ?s1 (val_bytes c v @ bs)" using moved_dio_at [OF m1] at by simp
  have c1: "ctx_ok env u c ?s1" using c by simp
  note next1 = run_next_attr [OF at m]
  show ?thesis
  proof (cases "a = T \<or> a \<in> set link_attrs")
    case True
    then have nw: "(T \<noteq> 0 \<and> a \<noteq> T \<and> a \<notin> set link_attrs) = False" by blast
    let ?s2 = "val_state c v ?s1"
    have rd: "dio_ReadAttribute env a (form_of v) ?s1 = (Inr (), ?s2)"
      using run_ReadAttribute [OF c1 _ at1] ok by simp
    note m2 = moved_trans [OF m1 val_state_view(1) [of ?s1 c v]]
    have "unit_entry env Tag a (form_of v) ?s2 = (Inr (), ?s2)"
      using run_unit_entry [of env u c ?s2 Tag a] moved_ctx_ok [OF m2] c by simp
    moreover obtain s3 where s3: "log_cb Tag a (form_of v) ?s2 = (Inr (), s3)"
      "moved ?s2 0 [(Tag, a, form_of v, if a = 0 then (0, 0, Null) else view ?s2)] s3"
      using run_log_cb by blast
    ultimately have "entry_loop env (Some log_cb) T (Some ab) Tag 0 (Suc fuel) False (length (attr_specs done)) s =
        entry_loop env (Some log_cb) T (Some ab) Tag 0 fuel False (length (attr_specs (done @ [(a, indirect, v)]))) s3"
      using next1 rd ok nw by (simp add: act_simps callback_def del: attr_spec.simps form_bytes.simps) blast
    moreover have "moved s (length (attr_bytes c (a, indirect, v)))
        (filter (wanted T) (attr_calls c Tag (sDataPos s) [(a, indirect, v)])) s3"
      using moved_trans [OF m2 s3(2)] ok True val_state_view(2) [of c v ?s1] by (simp add: wanted_def del: form_bytes.simps)
    ultimately show ?thesis by blast
  next
    case False
    obtain s2 where s2: "skip_form (form_of v) ?s1 = (Inr True, s2)" "moved ?s1 (length (val_bytes c v)) [] s2"
      using run_skip_form [OF c1 _ at1] ok by auto
    have skip: "bnd (skip_form (form_of v)) f ?s1 = f True s2" for f :: "bool \<Rightarrow> (call list, bool) dio"
      using s2(1) by (simp add: bnd_def)
    have "entry_loop env (Some log_cb) T (Some ab) Tag 0 (Suc fuel) False (length (attr_specs done)) s =
        entry_loop env (Some log_cb) T (Some ab) Tag 0 fuel False (length (attr_specs (done @ [(a, indirect, v)]))) s2"
      using next1 ok False T skip by (simp add: run_bnd(1) del: attr_spec.simps form_bytes.simps)
    with moved_trans [OF m1 s2(2)] False show ?thesis by (auto simp add: wanted_def)
  qed
qed

lemma target_loop_attrs:
  assumes "T \<noteq> 0" "ctx_ok env u c s" "vc_size c \<noteq> 0" "dio_at s (attrs_bytes c as @ bs)"
    and "mAttrs ab = attr_specs done @ attr_specs as" "list_all (attr_ok c) as" "length as < fuel"
  shows "\<exists>s'. entry_loop env (Some log_cb) T (Some ab) Tag 0 fuel False (length (attr_specs done)) s = (Inr True, s') \<and>
     moved s (length (attrs_bytes c as)) (filter (wanted T) (attr_calls c Tag (sDataPos s) as)) s'"
  using assms
proof (induction as arbitrary: s "done" fuel)
  case Nil
  then obtain k where "fuel = Suc k" by (cases fuel) auto
  with Nil run_last_attr [of ab s] show ?case by (simp add: run_bnd(1) run_ret)
next
  case (Cons x as)
  obtain a ind v where x: "x = (a, ind, v)" by (cases x)
  obtain k where k: "fuel = Suc k" "length as < k" using Cons.prems(7) by (cases fuel) auto
  have at: "dio_at s (attr_bytes c x @ attrs_bytes c as @ bs)" using Cons.prems(4) by simp
  obtain s1 where s1: "entry_loop env (Some log_cb) T (Some ab) Tag 0 fuel False (length (attr_specs done)) s =
      entry_loop env (Some log_cb) T (Some ab) Tag 0 k False (length (attr_specs (done @ [x]))) s1"
    "moved s (length (attr_bytes c x)) (filter (wanted T) (attr_calls c Tag (sDataPos s) [x])) s1"
    using target_loop_attr [OF Cons.prems(1,2,3), of a ind v "attrs_bytes c as @ bs" ab "done" as Tag k] at Cons.prems(5,6) x k(1)
    by (auto simp del: attr_calls.simps attr_bytes.simps attr_spec.simps entry_loop.simps)
  have "\<exists>s'. entry_loop env (Some log_cb) T (Some ab) Tag 0 k False (length (attr_specs (done @ [x]))) s1 = (Inr True, s') \<and>
     moved s1 (length (attrs_bytes c as)) (filter (wanted T) (attr_calls c Tag (sDataPos s1) as)) s'"
    using Cons.prems k moved_ctx_ok [OF s1(2)] moved_dio_at [OF s1(2) at]
    by (intro Cons.IH) (auto simp del: attr_spec.simps)
  then obtain s' where s': "entry_loop env (Some log_cb) T (Some ab) Tag 0 k False (length (attr_specs (done @ [x]))) s1 = (Inr True, s')"
    "moved s1 (length (attrs_bytes c as)) (filter (wanted T) (attr_calls c Tag (sDataPos s1) as)) s'"
    by blast
  have "sDataPos s1 = sDataPos s + length (attr_bytes c x)" using s1(2) by (simp add: moved_def)
  with moved_trans [OF s1(2) s'(2)] s1(1) s'(1) show ?case
    unfolding attr_calls_Cons [of c Tag _ x as] by simp
qed

lemma run_ReadEntry_target:
  assumes T: "T \<noteq> 0" and c: "ctx_ok env u c s" "vc_size c \<noteq> 0" and v: "mVersion u \<ge> 2" and e: "entry_ok u c code ab as"
    and at: "dio_at s (uleb (unat code) @ attrs_bytes c as @ bs)"
  shows "\<exists>s'. dio_ReadEntry env (Some log_cb) T s = (Inr True, s') \<and>
     moved s (length (uleb (unat code)) + length (attrs_bytes c as))
       (filter (wanted T) (attr_calls c (mTag ab) (sDataPos s + length (uleb (unat code))) as)) s'"
proof -
  let ?F = "if mChildren ab then DWARF_ENTRY_HAS_CHILDREN else DWARF_ENTRY_NO_CHILDREN"
  have F: "?F \<noteq> 0" by (simp add: DWARF_ENTRY_HAS_CHILDREN_def DWARF_ENTRY_NO_CHILDREN_def)
  let ?fuel = "length (mAttrs ab) + 1"
  obtain s1 where s1: "dio_ReadEntry env (Some log_cb) T s =
      entry_loop env (Some log_cb) T (Some ab) (mTag ab) 0 (length (mAttrs ab) + 2) True 0 s1"
    "moved s (length (uleb (unat code))) [] s1"
    using run_entry_start [OF c(1) v e at] by blast
  have p: "sDataPos s1 = sDataPos s + length (uleb (unat code))" using s1(2) by (simp add: moved_def)
  have "entry_loop env (Some log_cb) T (Some ab) (mTag ab) 0 (Suc ?fuel) True 0 s1 =
      entry_loop env (Some log_cb) T (Some ab) (mTag ab) 0 ?fuel False 0 s1"
    using T F run_first_attr [of ab s1] by (simp add: run_bnd(1))
  moreover have "\<exists>s'. entry_loop env (Some log_cb) T (Some ab) (mTag ab) 0 ?fuel False (length (attr_specs [])) s1 = (Inr True, s') \<and>
     moved s1 (length (attrs_bytes c as)) (filter (wanted T) (attr_calls c (mTag ab) (sDataPos s1) as)) s'"
    using moved_ctx_ok [OF s1(2)] c moved_dio_at [OF s1(2) at] e T
    by (intro target_loop_attrs) (auto simp: entry_ok_def)
  ultimately obtain s' where "entry_loop env (Some log_cb) T (Some ab) (mTag ab) 0 (length (mAttrs ab) + 2) True 0 s1 = (Inr True, s')"
     "moved s1 (length (attrs_bytes c as)) (filter (wanted T) (attr_calls c (mTag ab) (sDataPos s1) as)) s'"
    by (auto simp del: entry_loop.simps)
  with s1 p moved_trans [OF s1(2)] show ?thesis by fastforce
qed

end
