(* ===== verification/DwarfAbbrev.thy ===== *)
theory DwarfAbbrev
  imports DwarfEntry
begin

text \<open>
  Tables of abbreviations: what \<open>dio_LoadAbbrevTable\<close> makes of a section that has the encoding of the standard, and
  that \<open>dio_FindAbbrevTable\<close> finds each table by its offset.
\<close>

section \<open>Encoding\<close>

type_synonym abbrev = "u32 \<times> DIO_Abbreviation"

fun pairs_bytes :: "u16 list \<Rightarrow> byte list" where
  "pairs_bytes (a # f # fs) = uleb (unat a) @ uleb (unat f) @ pairs_bytes fs"
| "pairs_bytes _ = []"

fun pairs_ok :: "u16 list \<Rightarrow> bool" where
  "pairs_ok (a # f # fs) \<longleftrightarrow> (a, f) \<noteq> (0, 0) \<and> pairs_ok fs"
| "pairs_ok [] \<longleftrightarrow> True"
| "pairs_ok [a] \<longleftrightarrow> False"

fun abbrev_bytes :: "abbrev \<Rightarrow> byte list" where
  "abbrev_bytes (code, ab) =
     uleb (unat code) @ uleb (unat (mTag ab)) @ (if mChildren ab then 1 else 0) # pairs_bytes (mAttrs ab) @ [0, 0]"

definition set_bytes :: "abbrev list \<Rightarrow> byte list" where
  "set_bytes as = concat (map abbrev_bytes as) @ [0]"

fun abbrev_ok :: "abbrev \<Rightarrow> bool" where
  "abbrev_ok (code, ab) \<longleftrightarrow> 0 < code \<and> code < 0x1000000 \<and> pairs_ok (mAttrs ab)"

definition set_ok :: "abbrev list \<Rightarrow> bool" where
  "set_ok as \<longleftrightarrow> distinct (map fst as) \<and> list_all abbrev_ok as"

text \<open>The table that is made of a set: its length, and the abbreviations at their codes.\<close>

fun bound :: "nat \<Rightarrow> abbrev list \<Rightarrow> nat" where
  "bound n [] = n"
| "bound n ((code, ab) # as) = bound (max n (unat code + 1)) as"

definition code_table :: "abbrev list \<Rightarrow> nat \<Rightarrow> DIO_Abbreviation option list" where
  "code_table as n = map (\<lambda>i. map_of as (word_of_nat i)) [0..<n]"

definition set_table :: "abbrev list \<Rightarrow> DIO_Abbreviation option list" where
  "set_table as = code_table as (bound 0 as)"

text \<open>The tables of a section with their offsets.\<close>

fun set_offsets :: "nat \<Rightarrow> abbrev list list \<Rightarrow> (nat \<times> DIO_Abbreviation option list) list" where
  "set_offsets offs [] = []"
| "set_offsets offs (as # sets) = (offs, set_table as) # set_offsets (offs + length (set_bytes as)) sets"

section \<open>Reading one abbreviation\<close>

definition abst :: "'c DIO \<Rightarrow> DIO_Abbreviation option list \<Rightarrow> (nat \<rightharpoonup> DIO_Cache) \<Rightarrow> nat \<Rightarrow> 'c DIO" where
  "abst s b cs k = s\<lparr>sDataPos := sDataPos s + k, d_caches := cs, AbbrevBuf := b\<rparr>"

lemma abst_simps [simp]:
  "sDataPos (abst s b cs k) = sDataPos s + k" "sDataLen (abst s b cs k) = sDataLen s"
  "sData (abst s b cs k) = sData s" "sSection (abst s b cs k) = sSection s"
  "d_caches (abst s b cs k) = cs" "AbbrevBuf (abst s b cs k) = b" "data_fuel (abst s b cs k) = data_fuel s"
  "adv (abst s b cs k) n = abst s b cs (k + n)"
  "(abst s b cs k)\<lparr>AbbrevBuf := b'\<rparr> = abst s b' cs k" "(abst s b cs k)\<lparr>d_caches := cs'\<rparr> = abst s b cs' k"
  by (simp_all add: abst_def adv_def data_fuel_def add.assoc)

lemma dio_at_abst: "dio_at (abst s b cs k) bs = dio_at (adv s k) bs"
  by (simp add: dio_at_def)

lemma unat_u16_u32: "unat (ucast (x :: u16) :: u32) = unat x"
  using unsigned_less [of x, where 'a = nat] by (simp add: unsigned_ucast_eq take_bit_nat_eq_self_iff)

lemma ucast_u16_u32: "(ucast (ucast (x :: u16) :: u32) :: u16) = x"
  by (rule bit_word_eqI) (simp add: bit_simps)

lemma run_uleb_u16: "dio_at s (uleb (unat (x :: u16)) @ bs) \<Longrightarrow> dio_ReadULEB128 s = (Inr (ucast x), adv s (length (uleb (unat x))))"
  using run_ReadULEB128 [of s "ucast x" bs] by (simp add: unat_u16_u32)

lemma u16_small: "\<not> 0x10000 \<le> (ucast (x :: u16) :: u32)"
  using unsigned_less [of x, where 'a = nat] by (simp add: word_le_nat_alt unat_u16_u32)

lemma u16_zero: "(ucast (x :: u16) :: u32) = 0 \<longleftrightarrow> x = 0"
  by (metis unat_u16_u32 unsigned_eq_0_iff)

lemma run_attrs_loop:
  "dio_at s (pairs_bytes fs @ 0 # 0 # bs) \<Longrightarrow> pairs_ok fs \<Longrightarrow> length fs < fuel \<Longrightarrow>
   attrs_loop fuel acc s = (Inr (acc @ fs), adv s (length (pairs_bytes fs) + 2))"
proof (induction fs arbitrary: s acc fuel rule: pairs_bytes.induct)
  case (1 a f fs)
  obtain k where k: "fuel = Suc k" "length fs < k" using "1.prems"(3) by (cases fuel) auto
  let ?s1 = "adv s (length (uleb (unat a)))"
  let ?s2 = "adv ?s1 (length (uleb (unat f)))"
  have at: "dio_at s (uleb (unat a) @ uleb (unat f) @ pairs_bytes fs @ 0 # 0 # bs)" using "1.prems"(1) by simp
  have at1: "dio_at ?s1 (uleb (unat f) @ pairs_bytes fs @ 0 # 0 # bs)" by (rule dio_at_append(2) [OF at])
  have "attrs_loop k (acc @ [a, f]) ?s2 = (Inr ((acc @ [a, f]) @ fs), adv ?s2 (length (pairs_bytes fs) + 2))"
    using "1.prems"(2) k dio_at_append(2) [OF at1] by (intro "1.IH") auto
  moreover have "dio_ReadULEB128 s = (Inr (ucast a), ?s1)" "dio_ReadULEB128 ?s1 = (Inr (ucast f), ?s2)"
    using run_uleb_u16 [OF at] run_uleb_u16 [OF at1] by simp_all
  ultimately show ?case
    using k(1) "1.prems"(2) by (simp add: act_simps u16_small u16_zero ucast_u16_u32 add.assoc)
next
  case "2_1"
  obtain k where k: "fuel = Suc k" using "2_1.prems"(3) by (cases fuel) auto
  have "dio_ReadULEB128 s = (Inr 0, adv s 1)" "dio_ReadULEB128 (adv s 1) = (Inr 0, adv s 2)"
    using run_ReadULEB128 [of s 0 "0 # bs"] run_ReadULEB128 [of "adv s 1" 0 bs] dio_at_Cons [of s 0 "0 # bs"] "2_1.prems"(1)
    by (simp_all add: uleb_bytes numeral_2_eq_2)
  then show ?case unfolding k by (simp add: act_simps) (simp add: numeral_2_eq_2)
qed simp

lemma pairs_length: "pairs_ok fs \<Longrightarrow> length fs \<le> length (pairs_bytes fs)"
proof (induction fs rule: pairs_ok.induct)
  case (1 a f fs)
  have "length (uleb (unat a)) \<ge> 1" "length (uleb (unat f)) \<ge> 1" by (simp_all add: Suc_le_eq)
  with 1 show ?case by simp
qed simp_all

text \<open>The buffer holds the table of the abbreviations read so far, last one first.\<close>

definition buf_ok :: "abbrev list \<Rightarrow> nat \<Rightarrow> DIO_Abbreviation option list \<Rightarrow> bool" where
  "buf_ok as n b \<longleftrightarrow> n \<le> length b \<and> n \<le> 0x1000000 \<and> take n b = code_table as n \<and> (\<forall>x \<in> set as. unat (fst x) < n)"

lemma unat_code: "i < 0x1000000 \<Longrightarrow> unat (word_of_nat i :: u32) = i"
  by (simp add: unat_of_nat)

lemma code_table_nth: "i < n \<Longrightarrow> code_table as n ! i = map_of as (word_of_nat i)"
  by (simp add: code_table_def)

lemma length_code_table [simp]: "length (code_table as n) = n"
  by (simp add: code_table_def)

lemma unused_code:
  fixes as :: "abbrev list"
  assumes "\<forall>x \<in> set as. unat (fst x) < n" "n \<le> i" "i < 0x1000000"
  shows "map_of as (word_of_nat i) = None"
proof -
  have "unat (word_of_nat i :: u32) = i" using assms(3) by (rule unat_code)
  then have "(word_of_nat i :: u32) \<notin> fst ` set as" using assms(1,2) by (auto simp: not_less [symmetric])
  then show ?thesis by (simp add: map_of_eq_None_iff)
qed

lemma buf_ok_grow:
  assumes "buf_ok as n b" "n \<le> k" "k < 0x1000000"
  shows "buf_ok as (k + 1) (grow_buf n (k + 1) b)"
proof -
  let ?b = "grow_buf n (k + 1) b"
  have l: "k + 1 \<le> length ?b" and t: "take (k + 1) ?b = take n b @ replicate (k + 1 - n) None"
    using assms by (auto simp: grow_buf_def Let_def buf_ok_def min_def)
  have "take (k + 1) ?b = code_table as (k + 1)"
  proof (rule nth_equalityI)
    fix i assume "i < length (take (k + 1) ?b)"
    then have i: "i < k + 1" by simp
    show "take (k + 1) ?b ! i = code_table as (k + 1) ! i"
    proof (cases "i < n")
      case True
      then have "take n b ! i = map_of as (word_of_nat i)" using assms(1) by (simp add: buf_ok_def code_table_nth)
      with True i assms(1) show ?thesis unfolding t by (simp add: nth_append buf_ok_def code_table_nth)
    next
      case False
      have "map_of as (word_of_nat i) = None"
        using assms False i by (intro unused_code [of as n]) (auto simp: buf_ok_def)
      with False i assms(1,2) show ?thesis unfolding t by (simp add: nth_append buf_ok_def code_table_nth)
    qed
  qed (use l in simp)
  with l assms show ?thesis by (fastforce simp: buf_ok_def)
qed

lemma buf_ok_put:
  assumes "buf_ok as n b" "unat code < n" "code \<notin> fst ` set as"
  shows "b ! unat code = None" "buf_ok ((code, ab) # as) n (b[unat code := Some ab])"
proof -
  have nth: "i < n \<Longrightarrow> b ! i = map_of as (word_of_nat i)" for i
    using assms(1) by (metis buf_ok_def code_table_nth nth_take)
  have code: "map_of as code = None" using assms(3) by (simp add: map_of_eq_None_iff)
  then show "b ! unat code = None" using nth [OF assms(2)] by simp
  have "take n (b[unat code := Some ab]) = code_table ((code, ab) # as) n"
  proof (rule nth_equalityI)
    fix i assume "i < length (take n (b[unat code := Some ab]))"
    then have i: "i < n" by simp
    have "(word_of_nat i = code) = (i = unat code)"
      using unat_code [of i] i assms(1) by (auto simp: buf_ok_def)
    with i nth [OF i] assms(1) show "take n (b[unat code := Some ab]) ! i = code_table ((code, ab) # as) n ! i"
      by (auto simp: code_table_nth buf_ok_def nth_list_update)
  qed (use assms in \<open>simp add: buf_ok_def\<close>)
  with assms show "buf_ok ((code, ab) # as) n (b[unat code := Some ab])" by (auto simp: buf_ok_def)
qed

lemma abbrev_eta:
  "mChildren ab \<Longrightarrow> \<lparr>mTag = mTag ab, mChildren = True, mAttrs = mAttrs ab\<rparr> = ab"
  "\<not> mChildren ab \<Longrightarrow> \<lparr>mTag = mTag ab, mChildren = False, mAttrs = mAttrs ab\<rparr> = ab"
  by (cases ab, simp)+

lemma abbrev_loop_step:
  assumes at: "dio_at (adv s k) (abbrev_bytes (code, ab) @ bs)" and ok: "abbrev_ok (code, ab)"
    and b: "buf_ok as n b" and new: "code \<notin> fst ` set as"
  shows "\<exists>b'. abbrev_loop f (Suc fuel) offs n (abst s b cs k) =
       abbrev_loop f fuel offs (max n (unat code + 1)) (abst s b' cs (k + length (abbrev_bytes (code, ab)))) \<and>
     buf_ok ((code, ab) # as) (max n (unat code + 1)) b'"
proof -
  let ?n = "max n (unat code + 1)"
  let ?b1 = "if unat code \<ge> n then grow_buf n (unat code + 1) b else b"
  let ?u = "length (uleb (unat code))" and ?t = "length (uleb (unat (mTag ab)))"
  have c: "code \<noteq> 0" "\<not> 0x1000000 \<le> code" "unat code < 0x1000000"
    using ok by (auto simp: word_less_nat_alt word_le_nat_alt)
  have b1: "buf_ok as ?n ?b1"
  proof (cases "n \<le> unat code")
    case True
    with buf_ok_grow [OF b True c(3)] show ?thesis by (simp add: max_def)
  next
    case False
    then have "max n (unat code + 1) = n" by simp
    with b False show ?thesis by simp
  qed
  have n: "unat code < ?n" by simp
  let ?rest = "(if mChildren ab then 1 else 0) # pairs_bytes (mAttrs ab) @ [0, 0] @ bs"
  have at1: "dio_at (adv s k) (uleb (unat code) @ uleb (unat (mTag ab)) @ ?rest)" using at by simp
  have at2: "dio_at (adv s (k + ?u)) (uleb (unat (mTag ab)) @ ?rest)" using dio_at_append(2) [OF at1] by simp
  have at3: "dio_at (adv s (k + ?u + ?t)) ?rest" using dio_at_append(2) [OF at2] by simp
  have at4: "dio_at (adv s (k + ?u + ?t + 1)) (pairs_bytes (mAttrs ab) @ 0 # 0 # bs)" using dio_at_Cons [OF at3] by simp
  have "dio_ReadULEB128 (abst s b cs k) = (Inr code, abst s b cs (k + ?u))"
    using run_ReadULEB128 [of "abst s b cs k" code] at1 by (simp add: dio_at_abst)
  moreover have "dio_ReadULEB128 (abst s ?b1 cs (k + ?u)) = (Inr (ucast (mTag ab)), abst s ?b1 cs (k + ?u + ?t))"
    using run_uleb_u16 [of "abst s ?b1 cs (k + ?u)" "mTag ab"] at2 by (simp add: dio_at_abst)
  moreover have "dio_ReadU1 (abst s ?b1 cs (k + ?u + ?t)) = (Inr (if mChildren ab then 1 else 0), abst s ?b1 cs (k + ?u + ?t + 1))"
    using run_ReadU1 [of "abst s ?b1 cs (k + ?u + ?t)"] at3 by (simp add: dio_at_abst)
  moreover have "attrs_loop (data_fuel s) [] (abst s ?b1 cs (k + ?u + ?t + 1)) =
      (Inr (mAttrs ab), abst s ?b1 cs (k + ?u + ?t + 1 + (length (pairs_bytes (mAttrs ab)) + 2)))"
    using run_attrs_loop [of "abst s ?b1 cs (k + ?u + ?t + 1)" "mAttrs ab" bs "data_fuel s" "[]"] at4 ok
      pairs_length [of "mAttrs ab"] dio_at_room [OF at4] by (simp add: dio_at_abst data_fuel_def)
  ultimately have "abbrev_loop f (Suc fuel) offs n (abst s b cs k) =
      abbrev_loop f fuel offs ?n (abst s (?b1[unat code := Some ab]) cs (k + length (abbrev_bytes (code, ab))))"
    using c buf_ok_put(1) [OF b1 n new]
    by (cases "unat code \<ge> n") (simp_all add: act_simps max_absorb1 max_absorb2 ucast_u16_u32 add.assoc abbrev_eta)
  with buf_ok_put(2) [OF b1 n new] show ?thesis by blast
qed

section \<open>Reading the tables\<close>

lemma abbrev_loop_set:
  assumes "dio_at (adv s k) (concat (map abbrev_bytes as) @ bs)" "list_all abbrev_ok as" "distinct (map fst as)"
    and "fst ` set as \<inter> fst ` set done = {}" "buf_ok done n b"
  shows "\<exists>b'. abbrev_loop f (length as + fuel) offs n (abst s b cs k) =
       abbrev_loop f fuel offs (bound n as) (abst s b' cs (k + length (concat (map abbrev_bytes as)))) \<and>
     buf_ok (rev as @ done) (bound n as) b'"
  using assms
proof (induction as arbitrary: k n b "done")
  case Nil
  then show ?case by auto
next
  case (Cons x as)
  obtain code ab where x: "x = (code, ab)" by (cases x)
  have at: "dio_at (adv s k) (abbrev_bytes (code, ab) @ concat (map abbrev_bytes as) @ bs)" using Cons.prems(1) x by simp
  obtain b1 where b1: "abbrev_loop f (Suc (length as + fuel)) offs n (abst s b cs k) =
      abbrev_loop f (length as + fuel) offs (max n (unat code + 1)) (abst s b1 cs (k + length (abbrev_bytes (code, ab))))"
    "buf_ok ((code, ab) # done) (max n (unat code + 1)) b1"
    using abbrev_loop_step [OF at _ Cons.prems(5), of f "length as + fuel" offs cs] Cons.prems(2,4) x
    by (auto simp del: abbrev_loop.simps abbrev_bytes.simps)
  have "\<exists>b'. abbrev_loop f (length as + fuel) offs (max n (unat code + 1)) (abst s b1 cs (k + length (abbrev_bytes (code, ab)))) =
      abbrev_loop f fuel offs (bound (max n (unat code + 1)) as)
        (abst s b' cs (k + length (abbrev_bytes (code, ab)) + length (concat (map abbrev_bytes as)))) \<and>
      buf_ok (rev as @ (code, ab) # done) (bound (max n (unat code + 1)) as) b'"
    using Cons.prems x b1(2) dio_at_append(2) [OF at] by (intro Cons.IH) (auto simp del: abbrev_bytes.simps)
  with b1(1) show ?case by (simp add: x add.assoc del: abbrev_loop.simps abbrev_bytes.simps)
qed

definition lookup :: "DIO_AbbrevSet list list \<Rightarrow> nat \<Rightarrow> DIO_AbbrevSet option" where
  "lookup t offs = find (\<lambda>a. mOffset a = offs) (t ! dio_AbbrevTableHash offs)"

lemma hash_less: "dio_AbbrevTableHash offs < ABBREV_TABLE_SIZE"
  by (simp add: dio_AbbrevTableHash_def ABBREV_TABLE_SIZE_def)

definition put_set :: "DIO_AbbrevSet list list \<Rightarrow> DIO_AbbrevSet \<Rightarrow> DIO_AbbrevSet list list" where
  "put_set t x = (let h = dio_AbbrevTableHash (mOffset x) in t[h := x # t ! h])"

lemma lookup_put: "length t = ABBREV_TABLE_SIZE \<Longrightarrow> lookup (put_set t x) o' = (if o' = mOffset x then Some x else lookup t o')"
  using hash_less [of o']
  by (cases "dio_AbbrevTableHash o' = dio_AbbrevTableHash (mOffset x)") (auto simp: lookup_def put_set_def Let_def)

lemma length_put_set [simp]: "length (put_set t x) = length t"
  by (simp add: put_set_def Let_def)

lemma abbrev_loop_end:
  assumes "dio_at (adv s k) (0 # bs)" "cs f = Some c" "mAbbrevTable c = Some t"
  shows "abbrev_loop f (Suc fuel) offs n (abst s b cs k) =
     (let s' = abst s (replicate n None @ drop n b)
           (cs(f \<mapsto> c\<lparr>mAbbrevTable := Some (put_set t \<lparr>mOffset = offs, mTable = take n b\<rparr>)\<rparr>)) (k + 1)
      in if sDataPos s' \<ge> sDataLen s' then (Inr (), s') else abbrev_loop f fuel (sDataPos s') 0 s')"
proof -
  have "dio_ReadULEB128 (abst s b cs k) = (Inr 0, abst s b cs (k + 1))"
    using run_ReadULEB128 [of "abst s b cs k" 0 bs] assms(1) by (simp add: dio_at_abst uleb_bytes)
  with assms(2,3) show ?thesis
    by (simp add: act_simps add_set_def put_cache_def put_set_def Let_def)
qed

lemma map_of_rev_distinct: "distinct (map fst as) \<Longrightarrow> map_of (rev as) = map_of as"
  by (rule map_of_inject_set [THEN iffD2]) (simp_all add: rev_map [symmetric])

lemma abbrev_loop_one:
  assumes at: "dio_at (adv s k) (set_bytes as @ bs)" and ok: "set_ok as" and c: "cs f = Some c" "mAbbrevTable c = Some t"
  shows "\<exists>b'. abbrev_loop f (length as + Suc fuel) offs 0 (abst s b cs k) =
     (let s' = abst s b' (cs(f \<mapsto> c\<lparr>mAbbrevTable := Some (put_set t \<lparr>mOffset = offs, mTable = set_table as\<rparr>)\<rparr>))
           (k + length (set_bytes as))
      in if sDataPos s' \<ge> sDataLen s' then (Inr (), s') else abbrev_loop f fuel (sDataPos s') 0 s')"
proof -
  have at1: "dio_at (adv s k) (concat (map abbrev_bytes as) @ 0 # bs)" using at by (simp add: set_bytes_def)
  obtain b1 where b1: "abbrev_loop f (length as + Suc fuel) offs 0 (abst s b cs k) =
      abbrev_loop f (Suc fuel) offs (bound 0 as) (abst s b1 cs (k + length (concat (map abbrev_bytes as))))"
    "buf_ok (rev as @ []) (bound 0 as) b1"
    using abbrev_loop_set [OF at1, of "[]" 0 b f "Suc fuel" offs cs] ok
    by (auto simp: set_ok_def buf_ok_def code_table_def simp del: abbrev_loop.simps)
  have "take (bound 0 as) b1 = set_table as"
    using b1(2) ok by (simp add: buf_ok_def set_table_def code_table_def set_ok_def map_of_rev_distinct)
  with b1(1) abbrev_loop_end [of s "k + length (concat (map abbrev_bytes as))" bs cs f c t fuel offs "bound 0 as" b1]
    dio_at_append(2) [OF at1] c show ?thesis
    by (auto simp: set_bytes_def add.assoc simp del: abbrev_loop.simps)
qed

lemma set_offsets_ge: "x \<in> set (set_offsets offs sets) \<Longrightarrow> offs \<le> fst x"
  by (induction offs sets rule: set_offsets.induct) force+

fun rounds :: "abbrev list list \<Rightarrow> nat" where
  "rounds [] = 0"
| "rounds (as # sets) = length as + 1 + rounds sets"

lemma abbrev_loop_sets:
  assumes "sets \<noteq> []" "list_all set_ok sets" "dio_at (adv s k) (concat (map set_bytes sets))"
    and "sDataPos s + k + length (concat (map set_bytes sets)) = sDataLen s"
    and "cs f = Some c" "mAbbrevTable c = Some t" "length t = ABBREV_TABLE_SIZE" "rounds sets \<le> fuel"
  shows "\<exists>b' t'. abbrev_loop f fuel (sDataPos s + k) 0 (abst s b cs k) =
       (Inr (), abst s b' (cs(f \<mapsto> c\<lparr>mAbbrevTable := Some t'\<rparr>)) (k + length (concat (map set_bytes sets)))) \<and>
     length t' = ABBREV_TABLE_SIZE \<and>
     (\<forall>offs. lookup t' offs = (case map_of (set_offsets (sDataPos s + k) sets) offs of
        Some tab \<Rightarrow> Some \<lparr>mOffset = offs, mTable = tab\<rparr> | None \<Rightarrow> lookup t offs))"
  using assms
proof (induction sets arbitrary: k b cs c t fuel)
  case (Cons as sets)
  define m where "m = fuel - (length as + 1)"
  have m: "fuel = length as + Suc m" "rounds sets \<le> m" using Cons.prems(8) by (simp_all add: m_def)
  let ?t1 = "put_set t \<lparr>mOffset = sDataPos s + k, mTable = set_table as\<rparr>"
  let ?c1 = "c\<lparr>mAbbrevTable := Some ?t1\<rparr>"
  let ?k1 = "k + length (set_bytes as)"
  have at: "dio_at (adv s k) (set_bytes as @ concat (map set_bytes sets))" using Cons.prems(3) by simp
  obtain b1 where b1: "abbrev_loop f fuel (sDataPos s + k) 0 (abst s b cs k) =
     (let s' = abst s b1 (cs(f \<mapsto> ?c1)) ?k1
      in if sDataPos s' \<ge> sDataLen s' then (Inr (), s') else abbrev_loop f m (sDataPos s') 0 s')"
    using abbrev_loop_one [of s k as "concat (map set_bytes sets)" cs f c t m "sDataPos s + k" b] at Cons.prems(2,5,6)
    unfolding m(1) by (auto simp del: abbrev_loop.simps)
  have pos: "0 < length (set_bytes as)" for as by (simp add: set_bytes_def)
  have off: "map_of (set_offsets (sDataPos s + ?k1) sets) (sDataPos s + k) = None"
    using set_offsets_ge [of _ "sDataPos s + ?k1" sets] pos [of as] by (force simp: map_of_eq_None_iff)
  show ?case
  proof (cases "sets = []")
    case True
    with b1 Cons.prems(4) have "abbrev_loop f fuel (sDataPos s + k) 0 (abst s b cs k) = (Inr (), abst s b1 (cs(f \<mapsto> ?c1)) ?k1)"
      by (simp add: Let_def add.assoc del: abbrev_loop.simps)
    with True Cons.prems(7) show ?thesis
      by (intro exI [of _ b1] exI [of _ ?t1]) (simp add: lookup_put fun_upd_def)
  next
    case False
    then obtain as' sets' where "sets = as' # sets'" by (cases sets) auto
    then have "sDataPos s + ?k1 < sDataLen s" using Cons.prems(4) pos [of as'] by (simp del: length_greater_0_conv)
    with b1 have e: "abbrev_loop f fuel (sDataPos s + k) 0 (abst s b cs k) =
        abbrev_loop f m (sDataPos s + ?k1) 0 (abst s b1 (cs(f \<mapsto> ?c1)) ?k1)"
      by (simp add: Let_def add.assoc del: abbrev_loop.simps)
    have "\<exists>b' t'. abbrev_loop f m (sDataPos s + ?k1) 0 (abst s b1 (cs(f \<mapsto> ?c1)) ?k1) =
       (Inr (), abst s b' ((cs(f \<mapsto> ?c1))(f \<mapsto> ?c1\<lparr>mAbbrevTable := Some t'\<rparr>)) (?k1 + length (concat (map set_bytes sets)))) \<and>
     length t' = ABBREV_TABLE_SIZE \<and>
     (\<forall>offs. lookup t' offs = (case map_of (set_offsets (sDataPos s + ?k1) sets) offs of
        Some tab \<Rightarrow> Some \<lparr>mOffset = offs, mTable = tab\<rparr> | None \<Rightarrow> lookup ?t1 offs))"
      using Cons.prems False m dio_at_append(2) [OF at]
      by (intro Cons.IH) (auto simp: add.assoc)
    then obtain b' t' where r: "abbrev_loop f m (sDataPos s + ?k1) 0 (abst s b1 (cs(f \<mapsto> ?c1)) ?k1) =
       (Inr (), abst s b' ((cs(f \<mapsto> ?c1))(f \<mapsto> ?c1\<lparr>mAbbrevTable := Some t'\<rparr>)) (?k1 + length (concat (map set_bytes sets))))"
      "length t' = ABBREV_TABLE_SIZE"
      "\<And>offs. lookup t' offs = (case map_of (set_offsets (sDataPos s + ?k1) sets) offs of
        Some tab \<Rightarrow> Some \<lparr>mOffset = offs, mTable = tab\<rparr> | None \<Rightarrow> lookup ?t1 offs)"
      by blast
    have "\<forall>offs. lookup t' offs = (case map_of (set_offsets (sDataPos s + k) (as # sets)) offs of
        Some tab \<Rightarrow> Some \<lparr>mOffset = offs, mTable = tab\<rparr> | None \<Rightarrow> lookup t offs)"
      using off r(3) Cons.prems(7) by (auto simp: lookup_put add.assoc split: option.split)
    moreover have "abbrev_loop f fuel (sDataPos s + k) 0 (abst s b cs k) =
        (Inr (), abst s b' (cs(f \<mapsto> c\<lparr>mAbbrevTable := Some t'\<rparr>)) (k + length (concat (map set_bytes (as # sets)))))"
      using e r(1) by (simp add: add.assoc)
    ultimately show ?thesis using r(2) by blast
  qed
qed simp

end
