(* ===== verification/DwarfUnit.thy ===== *)
theory DwarfUnit
  imports DwarfAbbrev
begin

text \<open>
  Units of debug information, and the whole way from the sections of a file to the calls of the client's function.
\<close>

section \<open>Loading the abbreviations of a file\<close>

definition only_section :: "DioEnv \<Rightarrow> nat \<Rightarrow> string \<Rightarrow> nat \<Rightarrow> bool" where
  "only_section env f nm ID \<longleftrightarrow> (let secs = sections (elf_file env f) in
     1 \<le> ID \<and> ID < length secs \<and> (\<forall>j. 1 \<le> j \<and> j < length secs \<longrightarrow> (sec_name (secs ! j) = nm \<longleftrightarrow> j = ID)))"

lemma find_section_none:
  "\<forall>j < length secs. 1 \<le> i + j \<longrightarrow> sec_name (secs ! j) \<noteq> nm \<Longrightarrow> find_section nm i secs acc s = (Inr acc, s)"
proof (induction secs arbitrary: i)
  case (Cons sec secs)
  have "\<not> (i \<ge> 1 \<and> sec_name sec = nm)" using Cons.prems by (metis add_0_right length_greater_0_conv list.distinct(1) nth_Cons_0)
  moreover have "\<forall>j < length secs. 1 \<le> Suc i + j \<longrightarrow> sec_name (secs ! j) \<noteq> nm" using Cons.prems by fastforce
  ultimately show ?case using Cons.IH [of "Suc i"] by auto
qed (simp add: act_simps)

lemma find_section_only:
  "ID < i + length secs \<Longrightarrow> i \<le> ID \<Longrightarrow> 1 \<le> ID \<Longrightarrow>
   \<forall>j < length secs. 1 \<le> i + j \<longrightarrow> (sec_name (secs ! j) = nm \<longleftrightarrow> i + j = ID) \<Longrightarrow>
   find_section nm i secs None s = (Inr (Some ID), s)"
proof (induction secs arbitrary: i)
  case (Cons sec secs)
  have tl: "\<forall>j < length secs. 1 \<le> Suc i + j \<longrightarrow> (sec_name (secs ! j) = nm \<longleftrightarrow> Suc i + j = ID)"
    using Cons.prems(4) by fastforce
  show ?case
  proof (cases "i = ID")
    case True
    have "sec_name sec = nm" using Cons.prems(3,4) True by fastforce
    moreover have "find_section nm (Suc i) secs (Some ID) s = (Inr (Some ID), s)"
      using tl True by (intro find_section_none) auto
    ultimately show ?thesis using True Cons.prems(3) by simp
  next
    case False
    have "\<not> (i \<ge> 1 \<and> sec_name sec = nm)" using Cons.prems(4) False by fastforce
    moreover have "find_section nm (Suc i) secs None s = (Inr (Some ID), s)"
      using Cons.prems False tl by (intro Cons.IH) auto
    ultimately show ?thesis by auto
  qed
qed simp

lemma run_find_section:
  "only_section env f nm ID \<Longrightarrow> find_section nm 0 (sections (elf_file env f)) None s = (Inr (Some ID), s)"
  by (rule find_section_only) (auto simp: only_section_def Let_def)

lemma rounds_bytes: "rounds sets \<le> length (concat (map set_bytes sets))"
proof (induction sets)
  case (Cons as sets)
  have "length as \<le> length (concat (map abbrev_bytes as))"
  proof (induction as)
    case (Cons x as)
    then show ?case by (cases x) (simp add: le_SucI)
  qed simp
  with Cons show ?case by (simp add: set_bytes_def)
qed simp

definition no_abbrevs :: "DIO_Cache option \<Rightarrow> bool" where
  "no_abbrevs c \<longleftrightarrow> (case c of None \<Rightarrow> True | Some c \<Rightarrow> mAbbrevTable c = None)"

definition cache_of :: "DIO_Cache option \<Rightarrow> DIO_Cache" where
  "cache_of c = (case c of None \<Rightarrow> \<lparr>mStringTable = None, mStringTableSize = 0, mAbbrevTable = None\<rparr> | Some c \<Rightarrow> c)"

lemma run_GetCache: "dio_GetCache f s = (Inr (cache_of (d_caches s f)), s\<lparr>d_caches := (d_caches s)(f \<mapsto> cache_of (d_caches s f))\<rparr>)"
  by (cases "d_caches s f") (simp_all add: dio_GetCache_def act_simps cache_of_def Let_def fun_upd_idem)

definition tables_loaded :: "DIO_Cache \<Rightarrow> abbrev list list \<Rightarrow> bool" where
  "tables_loaded c sets \<longleftrightarrow> (\<exists>t. mAbbrevTable c = Some t \<and>
     (\<forall>offs. lookup t offs = map_option (\<lambda>tab. \<lparr>mOffset = offs, mTable = tab\<rparr>) (map_of (set_offsets 0 sets) offs)))"

lemma run_LoadAbbrevTable:
  assumes sec: "only_section env f ''.debug_abbrev'' ID" "elf_load env (f, ID) = None"
    and d: "sec_data (the_section env (f, ID)) = concat (map set_bytes sets)" "length (concat (map set_bytes sets)) < U8_MAX1"
    and sets: "sets \<noteq> []" "list_all set_ok sets" and c: "no_abbrevs (d_caches s f)"
  shows "\<exists>s' c. dio_LoadAbbrevTable env f s = (Inr (), s') \<and> tables_loaded c sets \<and>
     d_caches s' = (d_caches s)(f \<mapsto> c) \<and> mStringTable c = mStringTable (cache_of (d_caches s f)) \<and>
     mStringTableSize c = mStringTableSize (cache_of (d_caches s f)) \<and> d_client s' = d_client s \<and> d_units s' = d_units s"
proof -
  let ?c0 = "cache_of (d_caches s f)"
  let ?t0 = "replicate ABBREV_TABLE_SIZE [] :: DIO_AbbrevSet list list"
  let ?c1 = "?c0\<lparr>mAbbrevTable := Some ?t0\<rparr>"
  let ?bs = "concat (map set_bytes sets)"
  let ?cs = "(d_caches s)(f \<mapsto> ?c1)"
  have ne: "?bs \<noteq> []" using sets(1) by (cases sets) (simp_all add: set_bytes_def)
  let ?n = "if elf64 (elf_file env f) then 8 else 4 :: nat"
  define s1 where "s1 = s\<lparr>d_caches := ?cs, sSection := Some (f, ID), sData := Some ?bs, sDataPos := 0, sDataLen := length ?bs,
    sBigEndian := big_endian (elf_file env f), sAddressSize := ?n, sRefAddressSize := ?n, sUnit := None, dio_gEntryPos := 0\<rparr>"
  have c0: "mAbbrevTable ?c0 = None" using c by (auto simp: no_abbrevs_def cache_of_def split: option.splits)
  have at: "dio_at (adv s1 0) ?bs" using d(2) by (simp add: dio_at_def s1_def)
  have enter: "dio_EnterSection env None (f, ID) 0 (s\<lparr>d_caches := ?cs\<rparr>) = (Inr (), s1)"
    using ne sec(2) d(1) by (simp add: dio_EnterSection_def act_simps loaded_def Let_def s1_def)
  have "\<exists>b' t'. abbrev_loop f (data_fuel s1) (sDataPos s1 + 0) 0 (abst s1 (AbbrevBuf s1) ?cs 0) =
       (Inr (), abst s1 b' (?cs(f \<mapsto> ?c1\<lparr>mAbbrevTable := Some t'\<rparr>)) (0 + length ?bs)) \<and> length t' = ABBREV_TABLE_SIZE \<and>
     (\<forall>offs. lookup t' offs = (case map_of (set_offsets (sDataPos s1 + 0) sets) offs of
        Some tab \<Rightarrow> Some \<lparr>mOffset = offs, mTable = tab\<rparr> | None \<Rightarrow> lookup ?t0 offs))"
    using at rounds_bytes [of sets] by (intro abbrev_loop_sets [OF sets]) (auto simp: data_fuel_def s1_def)
  then obtain b' t' where l: "abbrev_loop f (data_fuel s1) 0 0 (abst s1 (AbbrevBuf s1) ?cs 0) =
       (Inr (), abst s1 b' (?cs(f \<mapsto> ?c1\<lparr>mAbbrevTable := Some t'\<rparr>)) (length ?bs))"
     "\<And>offs. lookup t' offs = (case map_of (set_offsets 0 sets) offs of
        Some tab \<Rightarrow> Some \<lparr>mOffset = offs, mTable = tab\<rparr> | None \<Rightarrow> lookup ?t0 offs)"
    by (auto simp: s1_def)
  have s1: "abst s1 (AbbrevBuf s1) ?cs 0 = s1" by (simp add: abst_def s1_def)
  have fin: "d_client s1 = d_client s" "d_units s1 = d_units s" by (simp_all add: s1_def)
  have "lookup ?t0 offs = None" for offs using hash_less [of offs] by (simp add: lookup_def)
  then have "tables_loaded (?c1\<lparr>mAbbrevTable := Some t'\<rparr>) sets"
    using l(2) by (auto simp: tables_loaded_def split: option.split)
  moreover have "\<exists>s'. dio_LoadAbbrevTable env f s = (Inr (), s') \<and> d_caches s' = (d_caches s)(f \<mapsto> ?c1\<lparr>mAbbrevTable := Some t'\<rparr>) \<and>
      d_client s' = d_client s \<and> d_units s' = d_units s"
    using c0 enter l(1) fin unfolding s1
    by (simp add: dio_LoadAbbrevTable_def run_GetCache run_find_section [OF sec(1)] act_simps put_cache_def
        dio_ExitSection_def abst_def)
  ultimately show ?thesis by fastforce
qed

section \<open>The header of a unit\<close>

definition ust :: "'c DIO \<Rightarrow> nat \<Rightarrow> DIO_UnitDescriptor \<Rightarrow> nat \<Rightarrow> 'c DIO" where
  "ust s k u n = s\<lparr>sDataPos := sDataPos s + n, d_units := (d_units s)(k \<mapsto> u)\<rparr>"

lemma ust_simps [simp]:
  "sDataPos (ust s k u n) = sDataPos s + n" "sDataLen (ust s k u n) = sDataLen s" "sData (ust s k u n) = sData s"
  "sSection (ust s k u n) = sSection s" "sUnit (ust s k u n) = sUnit s" "sBigEndian (ust s k u n) = sBigEndian s"
  "d_caches (ust s k u n) = d_caches s" "d_client (ust s k u n) = d_client s" "d_units (ust s k u n) = (d_units s)(k \<mapsto> u)"
  "adv (ust s k u n) m = ust s k u (n + m)"
  by (simp_all add: ust_def adv_def add.assoc)

lemma dio_at_ust: "dio_at (ust s k u n) bs = dio_at (adv s n) bs"
  by (simp add: dio_at_def)

lemma run_unit_ust [act_simps]:
  assumes "sUnit s = Some k"
  shows "cur_unit (ust s k u n) = (Inr u, ust s k u n)" "upd_unit f (ust s k u n) = (Inr (), ust s k (f u) n)"
    "unit_offset_size (ust s k u n) = (Inr (if m64bit u then 8 else 4), ust s k u n)"
proof -
  show c: "cur_unit (ust s k u n) = (Inr u, ust s k u n)" using assms by (simp add: cur_unit_def)
  with assms show "upd_unit f (ust s k u n) = (Inr (), ust s k (f u) n)"
    by (simp add: upd_unit_def act_simps) (simp add: ust_def)
  from c show "unit_offset_size (ust s k u n) = (Inr (if m64bit u then 8 else 4), ust s k u n)"
    by (simp add: unit_offset_size_def act_simps)
qed

text \<open>A header: 64-bit format or not, version, offset of the abbreviations, size of an address; \<open>n\<close> is the number of bytes that follow.\<close>

record unit_spec =
  us_64 :: bool
  us_version :: u16
  us_offs :: u64
  us_asz :: byte

definition us_osz :: "unit_spec \<Rightarrow> nat" where
  "us_osz h = (if us_64 h then 8 else 4)"

definition us_len :: "unit_spec \<Rightarrow> nat \<Rightarrow> nat" where
  "us_len h n = 2 + us_osz h + 1 + n"

definition us_size :: "unit_spec \<Rightarrow> nat \<Rightarrow> nat" where
  "us_size h n = us_len h n + (if us_64 h then 12 else 4)"

definition length_bytes :: "bool \<Rightarrow> unit_spec \<Rightarrow> nat \<Rightarrow> byte list" where
  "length_bytes big h n =
     (if us_64 h then enc big 4 (0xffffffff :: u32) @ enc big 8 (word_of_nat (us_len h n) :: u64)
      else enc big 4 (word_of_nat (us_len h n) :: u32))"

definition header_bytes :: "bool \<Rightarrow> unit_spec \<Rightarrow> nat \<Rightarrow> byte list" where
  "header_bytes big h n =
     length_bytes big h n @ enc big 2 (us_version h) @ enc big (us_osz h) (us_offs h) @ [us_asz h]"

definition spec_ok :: "unit_spec \<Rightarrow> nat \<Rightarrow> bool" where
  "spec_ok h n \<longleftrightarrow> 2 \<le> us_version h \<and> take_bit (8 * us_osz h) (us_offs h) = us_offs h \<and>
     (if us_64 h then us_len h n + 12 < U8_MAX1 else us_len h n < 0xffffffff)"

definition unit_of :: "unit_spec \<Rightarrow> sec_ref \<Rightarrow> nat \<Rightarrow> nat \<Rightarrow> DIO_Abbreviation option list \<Rightarrow> DIO_UnitDescriptor" where
  "unit_of h r pos n tab = \<lparr>mSection = Some r, mVersion = us_version h, m64bit = us_64 h, mAddressSize = us_asz h,
     mUnitOffs = pos, mUnitSize = us_size h n, mAbbrevTableOffs = unat (us_offs h), mTypeSignature = 0, mTypeOffset = 0,
     mUnitAbbrevs = tab\<rparr>"

lemma length_header: "length (header_bytes big h n) + n = us_size h n"
  by (simp add: header_bytes_def length_bytes_def us_size_def us_len_def us_osz_def)

lemma run_FindAbbrevTable:
  assumes "sUnit s = Some k" "sSection s = Some r" "d_caches s (fst r) = Some c" "tables_loaded c sets"
    and "map_of (set_offsets 0 sets) (mAbbrevTableOffs u) = Some tab"
  shows "dio_FindAbbrevTable (ust s k u n) = (Inr (), ust s k (u\<lparr>mUnitAbbrevs := tab\<rparr>) n)"
proof -
  obtain t where t: "mAbbrevTable c = Some t" "lookup t (mAbbrevTableOffs u) = Some \<lparr>mOffset = mAbbrevTableOffs u, mTable = tab\<rparr>"
    using assms(4,5) by (auto simp: tables_loaded_def)
  have "(ust s k u n)\<lparr>d_caches := (d_caches s)(fst r \<mapsto> c)\<rparr> = ust s k u n"
    using assms(3) by (simp add: ust_def fun_upd_idem)
  then have "dio_GetCache (fst r) (ust s k u n) = (Inr c, ust s k u n)"
    using assms(3) by (simp add: run_GetCache cache_of_def)
  with assms(1,2) t show ?thesis
    by (simp add: dio_FindAbbrevTable_def act_simps run_cur_section lookup_def)
qed

text \<open>The length field sets the format and the size of the unit.\<close>

lemma run_unit_length:
  assumes u: "sUnit s = Some k" and at: "dio_at (adv s m) (length_bytes (sBigEndian s) h n @ bs)" and ok: "spec_ok h n"
    and d: "\<not> m64bit d"
  shows "bnd dio_ReadU4 (\<lambda>x. seq (if x = 0xffffffff
          then seq (upd_unit (\<lambda>u. u\<lparr>m64bit := True\<rparr>))
                 (bnd dio_ReadU8 (\<lambda>x. upd_unit (\<lambda>u. u\<lparr>mUnitSize := unat (x + 12)\<rparr>)))
          else upd_unit (\<lambda>u. u\<lparr>mUnitSize := unat x + 4\<rparr>)) rest) (ust s k d m) =
     rest (ust s k (d\<lparr>m64bit := us_64 h, mUnitSize := us_size h n\<rparr>) (m + length (length_bytes (sBigEndian s) h n)))"
proof (cases "us_64 h")
  case True
  let ?x = "word_of_nat (us_len h n) :: u64"
  have at1: "dio_at (adv s m) (enc (sBigEndian s) 4 (0xffffffff :: u32) @ enc (sBigEndian s) 8 ?x @ bs)"
    using at True by (simp add: length_bytes_def)
  have "dio_ReadU4 (ust s k d m) = (Inr 0xffffffff, ust s k d (m + 4))"
    using run_ReadU4 [of "ust s k d m" "0xffffffff"] at1 by (simp add: dio_at_ust)
  moreover have "dio_ReadU8 (ust s k (d\<lparr>m64bit := True\<rparr>) (m + 4)) = (Inr ?x, ust s k (d\<lparr>m64bit := True\<rparr>) (m + 4 + 8))"
    using run_ReadU8 [of "ust s k (d\<lparr>m64bit := True\<rparr>) (m + 4)" ?x bs] dio_at_append(2) [OF at1] by (simp add: dio_at_ust)
  moreover have "unat (?x + 12) = us_len h n + 12"
  proof -
    have x: "unat (word_of_nat (us_len h n + 12) :: u64) = us_len h n + 12"
      using ok True by (simp add: spec_ok_def U8_MAX1_def unat_of_nat del: of_nat_add)
    have y: "?x + 12 = word_of_nat (us_len h n + 12)" by simp
    show ?thesis unfolding y by (rule x)
  qed
  ultimately show ?thesis using True u by (simp add: act_simps us_size_def length_bytes_def add.commute [of m])
next
  case False
  let ?x = "word_of_nat (us_len h n) :: u32"
  have x: "unat ?x = us_len h n" using ok False by (simp add: spec_ok_def unat_of_nat)
  then have nx: "?x \<noteq> 0xffffffff" using ok False by (auto simp: spec_ok_def)
  have at1: "dio_at (adv s m) (enc (sBigEndian s) 4 ?x @ bs)" using at False by (simp add: length_bytes_def)
  have "dio_ReadU4 (ust s k d m) = (Inr ?x, ust s k d (m + 4))"
    using run_ReadU4 [of "ust s k d m" ?x bs] at1 by (simp add: dio_at_ust)
  moreover have "d\<lparr>mUnitSize := us_len h n + 4\<rparr> = d\<lparr>m64bit := False, mUnitSize := us_len h n + 4\<rparr>"
    using d by (cases d) simp
  ultimately show ?thesis using False u nx x by (simp add: act_simps us_size_def length_bytes_def)
qed

lemma run_unit_header:
  assumes u: "sUnit s = Some k" "sSection s = Some r" and c: "d_caches s (fst r) = Some c" "tables_loaded c sets"
    and tab: "map_of (set_offsets 0 sets) (unat (us_offs h)) = Some tab"
    and rel: "\<And>pos n x. drl_relocate env r pos n x = Inr (x, None)"
    and at: "dio_at s (header_bytes (sBigEndian s) h n @ bs)" and ok: "spec_ok h n" and nm: "name \<noteq> ''.debug_types''"
  shows "unit_header env name (ust s k (zero_unit\<lparr>mSection := Some r, mUnitOffs := pos\<rparr>) 0) =
     (Inr (), ust s k (unit_of h r pos n tab) (length (header_bytes (sBigEndian s) h n)))"
proof -
  let ?u0 = "zero_unit\<lparr>mSection := Some r, mUnitOffs := pos\<rparr>"
  let ?u1 = "?u0\<lparr>m64bit := us_64 h, mUnitSize := us_size h n\<rparr>"
  let ?u2 = "?u1\<lparr>mVersion := us_version h\<rparr>"
  let ?u3 = "?u2\<lparr>mAbbrevTableOffs := unat (us_offs h)\<rparr>"
  let ?u4 = "?u3\<lparr>mAddressSize := us_asz h\<rparr>"
  let ?big = "sBigEndian s" and ?n1 = "length (length_bytes (sBigEndian s) h n)" and ?o = "us_osz h"
  have at0: "dio_at (adv s 0) (length_bytes ?big h n @ enc ?big 2 (us_version h) @ enc ?big ?o (us_offs h) @ us_asz h # bs)"
    using at by (simp add: header_bytes_def)
  have at1: "dio_at (adv s ?n1) (enc ?big 2 (us_version h) @ enc ?big ?o (us_offs h) @ us_asz h # bs)"
    using dio_at_append(2) [OF at0] by simp
  have at2: "dio_at (adv s (?n1 + 2)) (enc ?big ?o (us_offs h) @ us_asz h # bs)"
    using dio_at_append(2) [OF at1] by simp
  have at3: "dio_at (adv s (?n1 + 2 + ?o)) (us_asz h # bs)" using dio_at_append(2) [OF at2] by simp
  have r1: "dio_ReadU2 (ust s k ?u1 ?n1) = (Inr (us_version h), ust s k ?u1 (?n1 + 2))"
    using run_ReadU2 [of "ust s k ?u1 ?n1" "us_version h"] at1 by (simp add: dio_at_ust)
  have o: "(if us_64 h then 8 else 4) = ?o" by (simp add: us_osz_def)
  have r2: "dio_ReadAddressX env ?o (ust s k ?u2 (?n1 + 2)) = (Inr (us_offs h, None), ust s k ?u2 (?n1 + 2 + ?o))"
    using run_ReadAddressX [of "ust s k ?u2 (?n1 + 2)" ?o "us_offs h" "us_asz h # bs" r env] at2 ok u(2) rel
    by (simp add: dio_at_ust spec_ok_def us_osz_def)
  have r3: "dio_ReadU1 (ust s k ?u3 (?n1 + 2 + ?o)) = (Inr (us_asz h), ust s k ?u3 (?n1 + 2 + ?o + 1))"
    using run_ReadU1 [of "ust s k ?u3 (?n1 + 2 + ?o)" "us_asz h" bs] at3 by (simp add: dio_at_ust)
  have r4: "dio_FindAbbrevTable (ust s k ?u4 (?n1 + 2 + ?o + 1)) =
      (Inr (), ust s k (?u4\<lparr>mUnitAbbrevs := tab\<rparr>) (?n1 + 2 + ?o + 1))"
    using tab by (intro run_FindAbbrevTable [OF u c]) simp
  have len: "length (header_bytes ?big h n) = ?n1 + 2 + ?o + 1" by (simp add: header_bytes_def)
  have fin: "?u4\<lparr>mUnitAbbrevs := tab\<rparr> = unit_of h r pos n tab" by (simp add: unit_of_def zero_unit_def)
  have "unit_header env name (ust s k ?u0 0) =
     (bnd dio_ReadU2 (\<lambda>v.
     seq (upd_unit (\<lambda>u. u\<lparr>mVersion := v\<rparr>))
     (bnd unit_offset_size (\<lambda>n.
     bnd (dio_ReadAddressX env n) (\<lambda>(offs, Sect).
     seq (upd_unit (\<lambda>u. u\<lparr>mAbbrevTableOffs := unat offs\<rparr>))
     (bnd dio_ReadU1 (\<lambda>a.
     seq (upd_unit (\<lambda>u. u\<lparr>mAddressSize := a\<rparr>)) (seq (ret ()) dio_FindAbbrevTable)))))))) (ust s k ?u1 ?n1)"
    unfolding unit_header_def using run_unit_length [OF u(1) at0 ok, of ?u0] nm by (simp add: zero_unit_def)
  also have "\<dots> = (Inr (), ust s k (unit_of h r pos n tab) (length (header_bytes ?big h n)))"
    unfolding len fin [symmetric] using r1 r2 r3 r4 by (simp add: act_simps run_unit_ust [OF u(1)] o)
  finally show ?thesis .
qed

section \<open>The entries of a unit\<close>

text \<open>A null entry, or a code with its abbreviation and the attributes.\<close>

type_synonym entry = "(u32 \<times> DIO_Abbreviation \<times> attr list) option"

fun entry_bytes :: "val_ctx \<Rightarrow> entry \<Rightarrow> byte list" where
  "entry_bytes c None = [0]"
| "entry_bytes c (Some (code, ab, as)) = uleb (unat code) @ attrs_bytes c as"

definition entries_bytes :: "val_ctx \<Rightarrow> entry list \<Rightarrow> byte list" where
  "entries_bytes c es = concat (map (entry_bytes c) es)"

fun entries_ok :: "DIO_UnitDescriptor \<Rightarrow> val_ctx \<Rightarrow> entry list \<Rightarrow> bool" where
  "entries_ok u c [] \<longleftrightarrow> True"
| "entries_ok u c (None # es) \<longleftrightarrow> entries_ok u c es"
| "entries_ok u c (Some (code, ab, as) # es) \<longleftrightarrow> entry_ok u c code ab as \<and> entries_ok u c es"

fun entries_calls :: "val_ctx \<Rightarrow> nat \<Rightarrow> entry list \<Rightarrow> call list" where
  "entries_calls c pos [] = []"
| "entries_calls c pos (None # es) = entries_calls c (pos + 1) es"
| "entries_calls c pos (Some (code, ab, as) # es) =
     entry_calls c (mTag ab) (mChildren ab) (pos + length (uleb (unat code))) as @
     entries_calls c (pos + length (uleb (unat code)) + length (attrs_bytes c as)) es"

lemma entry_bytes_pos: "0 < length (entry_bytes c e)"
  by (cases "(c, e)" rule: entry_bytes.cases) auto

lemma run_entry:
  assumes c: "ctx_ok env u c s" "vc_size c \<noteq> 0" and v: "mVersion u \<ge> 2" and ok: "entries_ok u c (e # es)"
    and at: "dio_at s (entry_bytes c e @ bs)"
  shows "\<exists>x s1 l. dio_ReadEntry env (Some log_cb) 0 s = (Inr x, s1) \<and> moved s (length (entry_bytes c e)) l s1 \<and>
     entries_calls c (sDataPos s) (e # es) = l @ entries_calls c (sDataPos s1) es \<and> entries_ok u c es"
proof (cases e)
  case None
  then show ?thesis
    using run_ReadEntry_null [OF c(1) v, of bs "Some log_cb" 0] at ok by (auto simp: moved_def)
next
  case (Some x)
  obtain code ab as where x: "x = (code, ab, as)" by (cases x)
  then have e: "entry_ok u c code ab as" "entries_ok u c es" using ok Some by auto
  show ?thesis
    using run_ReadEntry [OF c v e(1), of bs] at Some x e(2) by (fastforce simp: moved_def add.assoc)
qed

lemma run_entries_loop:
  assumes "ctx_ok env u c s" "vc_size c \<noteq> 0" "mVersion u \<ge> 2" "entries_ok u c es" "dio_at s (entries_bytes c es @ bs)"
    and "sDataPos s + length (entries_bytes c es) = vc_offs c + vc_size c" "length es < fuel"
  shows "\<exists>s'. entries_loop env (Some log_cb) fuel s = (Inr (), s') \<and>
     moved s (length (entries_bytes c es)) (entries_calls c (sDataPos s) es) s'"
  using assms
proof (induction es arbitrary: s fuel)
  case Nil
  then obtain k where k: "fuel = Suc k" by (cases fuel) auto
  have "sDataPos s < U8_MAX1" using dio_at_room [OF Nil.prems(5)] by simp
  moreover have "cur_unit s = (Inr u, s)" by (rule run_cur_unit [OF ctx_okD(1) [OF Nil.prems(1)]])
  ultimately show ?case
    using k Nil.prems(2,6) ctx_okD(7,8) [OF Nil.prems(1)]
    by (simp add: act_simps dio_GetPos_def entries_bytes_def)
next
  case (Cons e es)
  obtain k where k: "fuel = Suc k" "length es < k" using Cons.prems(7) by (cases fuel) auto
  have at: "dio_at s (entry_bytes c e @ entries_bytes c es @ bs)" using Cons.prems(5) by (simp add: entries_bytes_def)
  obtain x s1 l where s1: "dio_ReadEntry env (Some log_cb) 0 s = (Inr x, s1)" "moved s (length (entry_bytes c e)) l s1"
    "entries_calls c (sDataPos s) (e # es) = l @ entries_calls c (sDataPos s1) es" "entries_ok u c es"
    using run_entry [OF Cons.prems(1-4) at] by blast
  have len: "length (entries_bytes c (e # es)) = length (entry_bytes c e) + length (entries_bytes c es)"
    by (simp add: entries_bytes_def)
  have p1: "sDataPos s1 = sDataPos s + length (entry_bytes c e)" using s1(2) by (simp add: moved_def)
  have "\<exists>s'. entries_loop env (Some log_cb) k s1 = (Inr (), s') \<and>
     moved s1 (length (entries_bytes c es)) (entries_calls c (sDataPos s1) es) s'"
    using Cons.prems k s1(4) moved_ctx_ok [OF s1(2)] moved_dio_at [OF s1(2) at] p1 len
    by (intro Cons.IH) auto
  then obtain s' where s': "entries_loop env (Some log_cb) k s1 = (Inr (), s')"
    "moved s1 (length (entries_bytes c es)) (entries_calls c (sDataPos s1) es) s'"
    by blast
  have "cur_unit s = (Inr u, s)" by (rule run_cur_unit [OF ctx_okD(1) [OF Cons.prems(1)]])
  moreover have "sDataPos s < (vc_offs c + vc_size c) mod U8_MAX1"
    using dio_at_room [OF Cons.prems(5)] Cons.prems(6) len entry_bytes_pos [of c e] by (simp del: length_greater_0_conv)
  ultimately have "entries_loop env (Some log_cb) fuel s = (Inr (), s')"
    using k(1) s1(1) s'(1) ctx_okD(7,8) [OF Cons.prems(1)] by (simp add: act_simps dio_GetPos_def)
  with moved_trans [OF s1(2) s'(2)] s1(3) len show ?case by auto
qed

section \<open>A unit\<close>

text \<open>What the values of a unit depend on, for the unit with header \<open>h\<close> at \<open>pos\<close> and \<open>n\<close> bytes of entries.\<close>

definition unit_ctx :: "DioEnv \<Rightarrow> unit_spec \<Rightarrow> sec_ref \<Rightarrow> nat \<Rightarrow> nat \<Rightarrow> (sec_ref \<times> byte list) option \<Rightarrow>
    (sec_ref \<times> byte list) option \<Rightarrow> val_ctx" where
  "unit_ctx env h r pos n str alt = \<lparr>vc_big = big_endian (elf_file env (fst r)), vc_asz = unat (us_asz h),
     vc_rsz = (if us_version h < 3 then unat (us_asz h) else us_osz h), vc_osz = us_osz h, vc_sec = r,
     vc_addr = sec_addr (the_section env r), vc_offs = pos, vc_size = us_size h n, vc_strings = str, vc_alt_strings = alt\<rparr>"

text \<open>The section is not relocated and holds units of DWARF 2 or later.\<close>

definition info_section :: "DioEnv \<Rightarrow> sec_ref \<Rightarrow> bool" where
  "info_section env r \<longleftrightarrow> sec_name (the_section env r) \<noteq> ''.debug'' \<and> sec_name (the_section env r) \<noteq> ''.debug_types'' \<and>
     \<not> sec_relocate (the_section env r) \<and> (\<forall>pos n x. drl_relocate env r pos n x = Inr (x, None))"

text \<open>A reader in the section \<open>r\<close> of a file whose abbreviations and strings are loaded.\<close>

definition unit_ready :: "DioEnv \<Rightarrow> sec_ref \<Rightarrow> abbrev list list \<Rightarrow> (sec_ref \<times> byte list) option \<Rightarrow>
    (sec_ref \<times> byte list) option \<Rightarrow> 'c DIO \<Rightarrow> bool" where
  "unit_ready env r sets str alt s \<longleftrightarrow> sSection s = Some r \<and> sBigEndian s = big_endian (elf_file env (fst r)) \<and>
     (\<exists>cc. d_caches s (fst r) = Some cc \<and> tables_loaded cc sets) \<and>
     table_ok env s (Some (fst r)) str \<and> table_ok env s (dwz_file (elf_file env (fst r))) alt"

definition unit_ok :: "DioEnv \<Rightarrow> sec_ref \<Rightarrow> abbrev list list \<Rightarrow> val_ctx \<Rightarrow> unit_spec \<Rightarrow> entry list \<Rightarrow> bool" where
  "unit_ok env r sets c h es \<longleftrightarrow> (let n = length (entries_bytes c es) in
     spec_ok h n \<and> (case map_of (set_offsets 0 sets) (unat (us_offs h)) of None \<Rightarrow> False
       | Some tab \<Rightarrow> entries_ok (unit_of h r (vc_offs c) n tab) c es))"

lemma length_entries: "length es \<le> length (entries_bytes c es)"
proof (induction es)
  case (Cons e es)
  then show ?case using entry_bytes_pos [of c e] by (simp add: entries_bytes_def del: length_greater_0_conv)
qed simp

lemma us_size_pos: "0 < us_size h n"
  by (simp add: us_size_def us_len_def)

lemma run_ReadUnit:
  fixes s :: "call list DIO" and es :: "entry list" and n :: nat
  assumes c: "c = unit_ctx env h r (sDataPos s) n str alt"
    and sec: "info_section env r" and rdy: "unit_ready env r sets str alt s"
    and ok: "unit_ok env r sets c h es" and n: "length (entries_bytes c es) = n"
    and at: "dio_at s (header_bytes (vc_big c) h n @ entries_bytes c es @ bs)"
  shows "\<exists>s'. dio_ReadUnit env k (Some log_cb) s = (Inr (), s') \<and> unit_ready env r sets str alt s' \<and>
     d_client s' = d_client s @ entries_calls c (sDataPos s + length (header_bytes (vc_big c) h n)) es \<and>
     sDataPos s' = sDataPos s + us_size h n \<and> sData s' = sData s \<and> sDataLen s' = sDataLen s \<and> sUnit s' = None"
proof -
  obtain tab where tab: "map_of (set_offsets 0 sets) (unat (us_offs h)) = Some tab" and sp: "spec_ok h n"
    and es: "entries_ok (unit_of h r (sDataPos s) n tab) c es"
    using ok n by (auto simp: unit_ok_def Let_def c unit_ctx_def split: option.splits)
  obtain cc where cc: "d_caches s (fst r) = Some cc" "tables_loaded cc sets" using rdy by (auto simp: unit_ready_def)
  let ?u = "unit_of h r (sDataPos s) n tab" and ?m = "length (header_bytes (vc_big c) h n)"
  define s0 where "s0 = s\<lparr>sUnit := Some k\<rparr>"
  define s2 where "s2 = (ust s0 k ?u ?m)\<lparr>sAddressSize := unat (mAddressSize ?u), sRefAddressSize := ref_size ?u\<rparr>"
  have big: "sBigEndian s0 = vc_big c" using rdy by (simp add: s0_def c unit_ctx_def unit_ready_def)
  have at0: "dio_at s0 (header_bytes (vc_big c) h n @ entries_bytes c es @ bs)" using at by (simp add: s0_def dio_at_def)
  have hd: "unit_header env (sec_name (the_section env r)) (ust s0 k (zero_unit\<lparr>mSection := Some r, mUnitOffs := sDataPos s\<rparr>) 0) =
     (Inr (), ust s0 k ?u ?m)"
    using run_unit_header [of s0 k r cc sets h tab env n "entries_bytes c es @ bs" "sec_name (the_section env r)" "sDataPos s"]
      rdy cc tab sec sp at0 unfolding big by (simp add: unit_ready_def info_section_def s0_def)
  have "dio_at (adv s0 ?m) (entries_bytes c es @ bs)" using dio_at_append(2) [OF at0] .
  then have at2: "dio_at s2 (entries_bytes c es @ bs)" by (simp add: s2_def dio_at_def)
  have ctx: "ctx_ok env ?u c s2"
    using sec rdy table_ok_cong [of s2 s env]
    by (auto simp: ctx_ok_def reading_def s2_def s0_def c unit_ctx_def unit_of_def ref_size_def us_osz_def
        info_section_def unit_ready_def)
  have v: "mVersion ?u \<ge> 2" using sp by (simp add: unit_of_def spec_ok_def)
  have p: "sDataPos s2 = sDataPos s + ?m" by (simp add: s2_def s0_def)
  have sz: "vc_size c = us_size h n" "vc_offs c = sDataPos s" by (simp_all add: c unit_ctx_def)
  have "length (entries_bytes c es) \<le> sDataLen s2" using at2 by (auto simp: dio_at_def)
  then have fuel: "length es < data_fuel s2" using length_entries [of es c] by (simp add: data_fuel_def)
  obtain s3 where s3: "entries_loop env (Some log_cb) (data_fuel s2) s2 = (Inr (), s3)"
    "moved s2 (length (entries_bytes c es)) (entries_calls c (sDataPos s2) es) s3"
    using run_entries_loop [OF ctx _ v es at2 _ fuel] us_size_pos [of h n] length_header [of "vc_big c" h n] n p sz by auto
  have sr: "sSection s = Some r" "sUnit s0 = Some k" "sSection s0 = Some r" using rdy by (simp_all add: unit_ready_def s0_def)
  have st: "s\<lparr>d_units := (d_units s)(k \<mapsto> d), sUnit := Some k\<rparr> = ust s0 k d 0" for d
    by (simp add: ust_def s0_def)
  have "dio_ReadUnit env k (Some log_cb) s = (Inr (), s3\<lparr>sUnit := None\<rparr>)"
    using sec hd s3(1) sr run_unit_ust(1) [of s0 k ?u ?m]
    by (simp add: dio_ReadUnit_def act_simps run_cur_section info_section_def st s2_def)
  moreover have "unit_ready env r sets str alt (s3\<lparr>sUnit := None\<rparr>)"
    using rdy s3(2) table_ok_cong [of "s3\<lparr>sUnit := None\<rparr>" s env] by (auto simp: unit_ready_def moved_def s2_def s0_def)
  ultimately show ?thesis using s3(2) p length_header [of "vc_big c" h n] n by (auto simp: moved_def s2_def s0_def)
qed

end
