(* ===== verification/DwarfSafe.thy ===== *)
theory DwarfSafe
  imports DwarfEntry
begin

text \<open>
  Reading arbitrary bytes: inside a unit of DWARF 2 or later an entry is read to its end or refused with an exception,
  whatever the section holds, provided that no LEB128 number is longer than five bytes.
\<close>

section \<open>Actions that end in a value or an exception\<close>

named_theorems safe_intros

definition safe :: "('s \<Rightarrow> bool) \<Rightarrow> ('s, 'a) act \<Rightarrow> bool" where
  "safe I m \<longleftrightarrow> (\<forall>s. I s \<longrightarrow> goes_on (fst (m s)) \<and> I (snd (m s)))"

lemma safeI: "(\<And>s. I s \<Longrightarrow> goes_on (fst (m s)) \<and> I (snd (m s))) \<Longrightarrow> safe I m"
  by (simp add: safe_def)

lemma safeD: "safe I m \<Longrightarrow> I s \<Longrightarrow> m s = (r, s') \<Longrightarrow> goes_on r \<and> I s'"
  unfolding safe_def by (metis fst_conv snd_conv)

lemma safe_basic [safe_intros]:
  "safe I (ret x)" "safe I (raise e)" "safe I (look f)" "safe I (str_raise e msg)"
  by (simp_all add: safe_def ret_def raise_def look_def str_raise_def fault_def)

lemma safe_modify [safe_intros]: "(\<And>s. I s \<Longrightarrow> I (f s)) \<Longrightarrow> safe I (modify f)"
  by (simp add: safe_def modify_def)

lemma safe_bnd [safe_intros]:
  assumes "safe I m" "\<And>x. safe I (f x)"
  shows "safe I (bnd m f)"
proof (rule safeI)
  fix s assume i: "I s"
  obtain r s1 where m: "m s = (r, s1)" by fastforce
  then show "goes_on (fst (bnd m f s)) \<and> I (snd (bnd m f s))"
    using safeD [OF assms(1) i m] assms(2) by (cases r) (auto simp: bnd_def safe_def goes_on_Inl)
qed

lemma safe_seq [safe_intros]: "safe I m \<Longrightarrow> safe I n \<Longrightarrow> safe I (seq m n)"
  unfolding seq_def by (intro safe_intros)

lemma safe_if [safe_intros]: "(P \<Longrightarrow> safe I m) \<Longrightarrow> (\<not> P \<Longrightarrow> safe I n) \<Longrightarrow> safe I (if P then m else n)"
  by simp

lemma safe_option [safe_intros]:
  "(x = None \<Longrightarrow> safe I m) \<Longrightarrow> (\<And>y. x = Some y \<Longrightarrow> safe I (f y)) \<Longrightarrow> safe I (case x of None \<Rightarrow> m | Some y \<Rightarrow> f y)"
  by (cases x) auto

lemma safe_prod [safe_intros]: "(\<And>a b. x = (a, b) \<Longrightarrow> safe I (f a b)) \<Longrightarrow> safe I (case x of (a, b) \<Rightarrow> f a b)"
  by (cases x) auto

text \<open>A step whose value is known from the state.\<close>

lemma safe_known: "(\<And>s. I s \<Longrightarrow> m s = (Inr (g s), s)) \<Longrightarrow> (\<And>x. (\<exists>s. I s \<and> x = g s) \<Longrightarrow> safe I (f x)) \<Longrightarrow> safe I (bnd m f)"
  unfolding safe_def bnd_def by (metis (mono_tags, lifting) case_prod_conv sum.case(2))

section \<open>The invariant of the reader\<close>

definition no_long :: "byte list \<Rightarrow> bool" where
  "no_long d \<longleftrightarrow> (\<forall>i. i + 5 \<le> length d \<longrightarrow> (\<exists>j < 5. d ! (i + j) AND 0x80 = 0))"

definition tables_fit :: "DioEnv \<Rightarrow> 'c DIO \<Rightarrow> bool" where
  "tables_fit env s \<longleftrightarrow> (\<forall>f c. d_caches s f = Some c \<longrightarrow> (case mStringTable c of None \<Rightarrow> True
     | Some t \<Rightarrow> mStringTableSize c \<le> length (sec_data (the_section env t))))"

definition inside :: "DioEnv \<Rightarrow> sec_ref \<Rightarrow> byte list \<Rightarrow> nat \<Rightarrow> DIO_UnitDescriptor \<Rightarrow> 'c DIO \<Rightarrow> bool" where
  "inside env r d k u s \<longleftrightarrow> sData s = Some d \<and> sDataLen s = length d \<and> sDataPos s \<le> length d \<and> length d < 2 ^ 63 \<and>
     no_long d \<and> sSection s = Some r \<and> sUnit s = Some k \<and> d_units s k = Some u \<and> tables_fit env s"

lemma inside_upd [simp]:
  "inside env r d k u (s\<lparr>dio_gFormData := x\<rparr>) = inside env r d k u s"
  "inside env r d k u (s\<lparr>dio_gFormDataSize := n\<rparr>) = inside env r d k u s"
  "inside env r d k u (s\<lparr>dio_gFormDataAddr := a\<rparr>) = inside env r d k u s"
  "inside env r d k u (s\<lparr>dio_gFormSection := t\<rparr>) = inside env r d k u s"
  "inside env r d k u (s\<lparr>dio_gEntryPos := n\<rparr>) = inside env r d k u s"
  by (simp_all add: inside_def tables_fit_def)

lemma inside_known:
  "inside env r d k u s \<Longrightarrow> cur_section s = (Inr r, s)" "inside env r d k u s \<Longrightarrow> cur_unit s = (Inr u, s)"
  by (simp_all add: inside_def cur_section_def cur_unit_def)

lemma safe_known_inside:
  "safe (inside env r d k u) (f r) \<Longrightarrow> safe (inside env r d k u) (bnd cur_section f)"
  "safe (inside env r d k u) (g u) \<Longrightarrow> safe (inside env r d k u) (bnd cur_unit g)"
  by (rule safe_known [OF inside_known(1)], auto) (rule safe_known [OF inside_known(2)], auto)

lemma safe_current [safe_intros]: "safe (inside env r d k u) cur_section" "safe (inside env r d k u) cur_unit"
  by (auto simp: safe_def inside_known)

text \<open>A test of the position followed by a move over as many bytes.\<close>

lemma need_move:
  assumes "inside env r d k u s" "n < 2 ^ 63"
  shows "need n s = (if sDataPos s + n \<le> length d then Inr () else exception ERR_EOF, s)"
    "sDataPos s + n \<le> length d \<Longrightarrow> move n s = (Inr (), s\<lparr>sDataPos := sDataPos s + n\<rparr>)"
    "sDataPos s + n \<le> length d \<Longrightarrow> bytes_here n s = (Inr (take n (drop (sDataPos s) d)), s)"
    "sDataPos s + n \<le> length d \<Longrightarrow> inside env r d k u (s\<lparr>sDataPos := sDataPos s + n\<rparr>)"
proof -
  have "(sDataPos s + n) mod U8_MAX1 = sDataPos s + n" using assms by (simp add: inside_def U8_MAX1_def)
  then show "need n s = (if sDataPos s + n \<le> length d then Inr () else exception ERR_EOF, s)"
    "move n s = (Inr (), s\<lparr>sDataPos := sDataPos s + n\<rparr>)"
    using assms by (simp_all add: need_def move_def act_simps inside_def)
  show "sDataPos s + n \<le> length d \<Longrightarrow> bytes_here n s = (Inr (take n (drop (sDataPos s) d)), s)"
    "sDataPos s + n \<le> length d \<Longrightarrow> inside env r d k u (s\<lparr>sDataPos := sDataPos s + n\<rparr>)"
    using assms by (simp_all add: bytes_here_def inside_def tables_fit_def)
qed

lemma safe_skip [safe_intros]:
  assumes "n < 2 ^ 63"
  shows "safe (inside env r d k u) (seq (need n) (move n))"
proof (rule safeI)
  fix s assume i: "inside env r d k u s"
  show "goes_on (fst (seq (need n) (move n) s)) \<and> inside env r d k u (snd (seq (need n) (move n) s))"
    using need_move [OF i assms] i by (auto simp: seq_def bnd_def exception_def)
qed

lemma next_byte_inside:
  assumes "inside env r d k u s"
  shows "sDataPos s < length d \<Longrightarrow> next_byte s = (Inr (d ! sDataPos s), s\<lparr>sDataPos := sDataPos s + 1\<rparr>)"
  using need_move [OF assms, of 1] by (simp add: next_byte_def act_simps take_Suc_conv_app_nth hd_drop_conv_nth)

lemma ReadU1_inside:
  assumes "inside env r d k u s"
  shows "dio_ReadU1 s = (if sDataPos s < length d then (Inr (d ! sDataPos s), s\<lparr>sDataPos := sDataPos s + 1\<rparr>) else (exception ERR_EOF, s))"
  using next_byte_inside [OF assms] assms
  by (auto simp: dio_ReadU1_def dio_ReadU1F_def act_simps run_bnd_look inside_def)

lemma inside_step: "inside env r d k u s \<Longrightarrow> sDataPos s < length d \<Longrightarrow> inside env r d k u (s\<lparr>sDataPos := Suc (sDataPos s)\<rparr>)"
  by (simp add: inside_def tables_fit_def)

lemma safe_ReadU1 [safe_intros]: "safe (inside env r d k u) dio_ReadU1"
  by (rule safeI) (simp add: ReadU1_inside inside_step exception_def)

lemma safe_read_word [safe_intros]: "n < 2 ^ 63 \<Longrightarrow> safe (inside env r d k u) (read_word n)"
proof (rule safeI)
  fix s assume n: "n < 2 ^ 63" and i: "inside env r d k u s"
  show "goes_on (fst (read_word n s)) \<and> inside env r d k u (snd (read_word n s))"
    using need_move [OF i n] i by (auto simp: read_word_def act_simps seq_def bnd_def exception_def)
qed

lemma safe_ReadU4 [safe_intros]: "safe (inside env r d k u) dio_ReadU4"
  unfolding dio_ReadU4_def by (intro safe_intros) simp

lemma safe_ReadU8 [safe_intros]: "safe (inside env r d k u) dio_ReadU8"
  unfolding dio_ReadU8_def by (intro safe_intros) simp

lemma safe_ReadU2 [safe_intros]: "safe (inside env r d k u) dio_ReadU2"
proof (rule safeI)
  fix s assume i: "inside env r d k u s"
  show "goes_on (fst (dio_ReadU2 s)) \<and> inside env r d k u (snd (dio_ReadU2 s))"
  proof (cases "sDataPos s + 2 \<le> length d")
    case True
    let ?s1 = "s\<lparr>sDataPos := sDataPos s + 1\<rparr>"
    have i1: "inside env r d k u ?s1" using inside_step [OF i] True by simp
    then show ?thesis using need_move(1) [OF i, of 2] next_byte_inside [OF i] next_byte_inside [OF i1] inside_step [OF i1] True
      by (simp add: dio_ReadU2_def act_simps)
  next
    case False
    then show ?thesis using need_move(1) [OF i, of 2] i by (simp add: dio_ReadU2_def act_simps exception_def)
  qed
qed

section \<open>LEB128 numbers\<close>

text \<open>The \<open>m\<close> bytes before the position have their top bit set.\<close>

definition run_of :: "byte list \<Rightarrow> nat \<Rightarrow> nat \<Rightarrow> bool" where
  "run_of d pos m \<longleftrightarrow> m \<le> pos \<and> pos \<le> length d \<and> (\<forall>j < m. d ! (pos - m + j) AND 0x80 \<noteq> 0)"

lemma run_of_Suc: "run_of d pos m \<Longrightarrow> pos < length d \<Longrightarrow> d ! pos AND 0x80 \<noteq> 0 \<Longrightarrow> run_of d (pos + 1) (m + 1)"
  by (auto simp: run_of_def less_Suc_eq)

lemma run_of_short:
  assumes "no_long d" "run_of d pos m"
  shows "m < 5"
proof (rule ccontr)
  assume m: "\<not> m < 5"
  then have "pos - 5 + 5 \<le> length d" using assms(2) by (simp add: run_of_def)
  then obtain j where j: "j < 5" "d ! (pos - 5 + j) AND 0x80 = 0" using assms(1) unfolding no_long_def by blast
  have "pos - 5 + j = pos - m + (m - 5 + j)" using m assms(2) by (simp add: run_of_def)
  moreover have "m - 5 + j < m" using m j(1) by simp
  ultimately show False using assms(2) j(2) unfolding run_of_def by metis
qed

lemma leb_loop_inside:
  fixes L :: "nat \<Rightarrow> 'w::len word \<Rightarrow> ('c, 'w word) dio"
  assumes L: "\<And>i x. L i x = bnd dio_ReadU1 (\<lambda>n. if i \<ge> LENGTH('w) then fault Undefined_Behaviour
      else if n AND 0x80 = 0 then ret (fin n i x) else L (i + 7) (nxt n i x))"
    and w: "32 \<le> LENGTH('w)" and "inside env r d k u s" "run_of d (sDataPos s) m"
  shows "goes_on (fst (L (7 * m) x s)) \<and> inside env r d k u (snd (L (7 * m) x s))"
  using assms(3,4)
proof (induction "5 - m" arbitrary: m s x rule: less_induct)
  case less
  have m: "m < 5" using run_of_short less.prems(1,2) by (auto simp: inside_def)
  note rd = ReadU1_inside [OF less.prems(1)]
  let ?s1 = "s\<lparr>sDataPos := Suc (sDataPos s)\<rparr>"
  show ?case
  proof (cases "sDataPos s < length d")
    case True
    have i1: "inside env r d k u ?s1" by (rule inside_step [OF less.prems(1) True])
    have IH: "goes_on (fst (L (7 * m + 7) x ?s1)) \<and> inside env r d k u (snd (L (7 * m + 7) x ?s1))"
      if "d ! sDataPos s AND 0x80 \<noteq> 0" for x
      using less.hyps [of "m + 1" ?s1 x] run_of_Suc [OF less.prems(2) True that] i1 m by (simp add: algebra_simps)
    show ?thesis using True rd m w i1 IH by (subst (1 2) L) (auto simp: act_simps)
  next
    case False
    then show ?thesis using rd less.prems(1) by (subst (1 2) L) (simp add: act_simps exception_def)
  qed
qed

lemma run_of_0: "inside env r d k u s \<Longrightarrow> run_of d (sDataPos s) 0"
  by (simp add: run_of_def inside_def)

lemma safe_uleb_loop: "32 \<le> LENGTH('w::len) \<Longrightarrow> safe (inside env r d k u) (dio_uleb_loop 0 (x :: 'w word))"
proof (rule safeI)
  fix s :: "'c DIO"
  assume w: "32 \<le> LENGTH('w)" and i: "inside env r d k u s"
  show "goes_on (fst (dio_uleb_loop 0 x s)) \<and> inside env r d k u (snd (dio_uleb_loop 0 x s))"
    using leb_loop_inside [where L = dio_uleb_loop and m = 0, OF dio_uleb_loop.simps [unfolded Let_def] w i run_of_0 [OF i]]
    by simp
qed

lemma safe_sleb_loop: "32 \<le> LENGTH('w::len) \<Longrightarrow> safe (inside env r d k u) (dio_sleb_loop 0 (x :: 'w word))"
proof (rule safeI)
  fix s :: "'c DIO"
  assume w: "32 \<le> LENGTH('w)" and i: "inside env r d k u s"
  show "goes_on (fst (dio_sleb_loop 0 x s)) \<and> inside env r d k u (snd (dio_sleb_loop 0 x s))"
    using leb_loop_inside [where L = dio_sleb_loop and m = 0, OF dio_sleb_loop.simps [unfolded Let_def] w i run_of_0 [OF i]]
    by simp
qed

lemma safe_leb [safe_intros]:
  "safe (inside env r d k u) dio_ReadULEB128" "safe (inside env r d k u) dio_ReadU8LEB128"
  "safe (inside env r d k u) dio_ReadS8LEB128"
  unfolding dio_ReadULEB128_def dio_ReadU8LEB128_def dio_ReadS8LEB128_def
  by (rule safe_uleb_loop, simp)+ (rule safe_sleb_loop, simp)

section \<open>Values\<close>

definition reloc_ok :: "DioEnv \<Rightarrow> bool" where
  "reloc_ok env \<longleftrightarrow> (\<forall>r pos n x. goes_on (drl_relocate env r pos n x))"

lemma safe_lift [safe_intros]: "goes_on x \<Longrightarrow> safe I (lift_outcome x)"
  by (simp add: safe_def lift_outcome_def)

lemma safe_ReadAddressX [safe_intros]: "reloc_ok env \<Longrightarrow> safe (inside env r d k u) (dio_ReadAddressX env n)"
  unfolding dio_ReadAddressX_def dio_GetPos_def Let_def by (intro safe_intros) (auto simp: reloc_ok_def)

lemma safe_form [safe_intros]:
  "safe (inside env r d k u) (form_set x n)" "safe (inside env r d k u) (form_addr p)" "safe (inside env r d k u) (data_at i)"
  "reloc_ok env \<Longrightarrow> safe (inside env r d k u) (form_address env n)"
  "safe (inside env r d k u) (dio_ReadFormData n x)" "safe (inside env r d k u) unit_offset_size"
  "safe (inside env r d k u) (add_section_addr env x)"
  unfolding form_set_def form_addr_def data_at_def form_address_def dio_ReadFormData_def unit_offset_size_def add_section_addr_def
  by (intro safe_intros; simp)+

lemma safe_refs [safe_intros]:
  "reloc_ok env \<Longrightarrow> safe (inside env r d k u) (dio_ReadFormAddr env)" "safe (inside env r d k u) dio_ReadFormRef"
  "reloc_ok env \<Longrightarrow> safe (inside env r d k u) (dio_ReadFormAltRef env)"
  "safe (inside env r d k u) (dio_ReadFormRelRef env a x)"
  "reloc_ok env \<Longrightarrow> safe (inside env r d k u) (dio_ReadFormRefAddr env)"
  unfolding dio_ReadFormAddr_def dio_ReadFormRef_def dio_ReadFormAltRef_def dio_ReadFormRelRef_def dio_ReadFormRefAddr_def
  by (intro safe_intros; simp)+

lemma safe_block [safe_intros]: "n < 2 ^ 63 \<Longrightarrow> safe (inside env r d k u) (dio_ReadFormBlock n)"
  unfolding dio_ReadFormBlock_def by (intro safe_intros) simp_all

lemma string_loop_inside:
  "inside env r d k u s \<Longrightarrow> length d - sDataPos s < fuel \<Longrightarrow>
   goes_on (fst (form_string_loop fuel s)) \<and> inside env r d k u (snd (form_string_loop fuel s))"
proof (induction fuel arbitrary: s)
  case (Suc fuel)
  note rd = ReadU1_inside [OF Suc.prems(1)]
  let ?s1 = "s\<lparr>sDataPos := Suc (sDataPos s)\<rparr>"
  show ?case
  proof (cases "sDataPos s < length d")
    case True
    have i1: "inside env r d k u ?s1" by (rule inside_step [OF Suc.prems(1) True])
    have "goes_on (fst (form_string_loop fuel (?s1\<lparr>dio_gFormDataSize := n\<rparr>))) \<and>
        inside env r d k u (snd (form_string_loop fuel (?s1\<lparr>dio_gFormDataSize := n\<rparr>)))" for n
      using i1 Suc.prems(2) True by (intro Suc.IH) auto
    then show ?thesis using rd True i1 by (auto simp: act_simps)
  qed (use rd Suc.prems(1) in \<open>simp add: act_simps exception_def\<close>)
qed simp

lemma safe_string [safe_intros]: "safe (inside env r d k u) dio_ReadFormString"
proof -
  have l: "safe (inside env r d k u) (bnd (look data_fuel) form_string_loop)"
  proof (rule safeI)
    fix s :: "'c DIO" assume i: "inside env r d k u s"
    then have "length d - sDataPos s < data_fuel s" by (simp add: data_fuel_def inside_def less_Suc_eq_le)
    then show "goes_on (fst (bnd (look data_fuel) form_string_loop s)) \<and> inside env r d k u (snd (bnd (look data_fuel) form_string_loop s))"
      unfolding run_bnd_look by (rule string_loop_inside [OF i])
  qed
  show ?thesis unfolding dio_ReadFormString_def by (rule safe_seq [OF _ safe_seq [OF _ l]]; intro safe_intros) simp
qed

section \<open>String tables\<close>

lemma find_section_same: "goes_on (fst (find_section nm i secs acc s)) \<and> snd (find_section nm i secs acc s) = s"
  by (induction nm i secs acc rule: find_section.induct) (simp_all add: act_simps str_raise_def)

lemma safe_find_section [safe_intros]: "safe I (find_section nm i secs acc)"
  by (rule safeI) (simp add: find_section_same)

lemma strp_loop_safe: "n \<le> length tab \<Longrightarrow> safe (inside env r d k u) (strp_loop tab n msg offs)"
proof (induction tab n msg offs rule: strp_loop.induct)
  case (1 tab n msg offs)
  then show ?case by (subst strp_loop.simps) (intro safe_intros; simp)
qed

definition table_bytes :: "DioEnv \<Rightarrow> sec_ref option \<Rightarrow> byte list" where
  "table_bytes env t = (case t of None \<Rightarrow> [] | Some r \<Rightarrow> sec_data (the_section env r))"

definition table_result :: "DioEnv \<Rightarrow> ('c DIO \<Rightarrow> bool) \<Rightarrow> ('c, sec_ref option \<times> nat) dio \<Rightarrow> bool" where
  "table_result env I m \<longleftrightarrow> (\<forall>s. I s \<longrightarrow> (case m s of (Inl e, s') \<Rightarrow> is_exception e \<and> I s'
     | (Inr (t, n), s') \<Rightarrow> n \<le> length (table_bytes env t) \<and> I s'))"

lemma safe_table:
  assumes m: "table_result env I m" and f: "\<And>t n. n \<le> length (table_bytes env t) \<Longrightarrow> safe I (f (t, n))"
  shows "safe I (bnd m f)"
proof (rule safeI)
  fix s assume i: "I s"
  obtain x s1 where x: "m s = (x, s1)" by fastforce
  with m i have "case x of Inl e \<Rightarrow> is_exception e \<and> I s1 | Inr (t, n) \<Rightarrow> n \<le> length (table_bytes env t) \<and> I s1"
    unfolding table_result_def by (fastforce split: sum.splits)
  with x f show "goes_on (fst (bnd m f s)) \<and> I (snd (bnd m f s))"
    by (auto simp: bnd_def safe_def goes_on_Inl split: sum.splits prod.splits)
qed

lemma inside_put: "inside env r d k u s \<Longrightarrow> (\<And>t. mStringTable c = Some t \<Longrightarrow>
     mStringTableSize c \<le> length (sec_data (the_section env t))) \<Longrightarrow> inside env r d k u (s\<lparr>d_caches := (d_caches s)(f \<mapsto> c)\<rparr>)"
  by (auto simp: inside_def tables_fit_def split: option.split)

text \<open>The part of \<open>dio_LoadStringTable\<close> behind the search for the section.\<close>

definition load_strings :: "DioEnv \<Rightarrow> nat \<Rightarrow> nat \<Rightarrow> DIO_Cache \<Rightarrow> ('c, sec_ref option \<times> nat) dio" where
  "load_strings env f ID c =
     seq (put_cache f (c\<lparr>mStringTableSize := length (sec_data (the_section env (f, ID))) mod 2 ^ 32\<rparr>))
     (case elf_load env (f, ID) of
        Some e \<Rightarrow> str_raise e ''Cannot read .debug_str section''
      | None \<Rightarrow>
          let c = c\<lparr>mStringTableSize := length (sec_data (the_section env (f, ID))) mod 2 ^ 32,
                mStringTable := (if loaded env (f, ID) = None then None else Some (f, ID))\<rparr>
          in seq (put_cache f c) (ret (mStringTable c, mStringTableSize c)))"

lemma load_strings_result:
  assumes i: "inside env r d k u s" and c: "mStringTable c = None"
  shows "case load_strings env f ID c s of (Inl e, s') \<Rightarrow> is_exception e \<and> inside env r d k u s'
     | (Inr (t, n), s') \<Rightarrow> n \<le> length (table_bytes env t) \<and> inside env r d k u s'"
proof -
  let ?n = "length (sec_data (the_section env (f, ID))) mod 2 ^ 32"
  let ?c1 = "c\<lparr>mStringTableSize := ?n\<rparr>"
  let ?c2 = "?c1\<lparr>mStringTable := (if loaded env (f, ID) = None then None else Some (f, ID))\<rparr>"
  let ?s1 = "s\<lparr>d_caches := (d_caches s)(f \<mapsto> ?c1)\<rparr>"
  have i1: "inside env r d k u ?s1" using c by (intro inside_put [OF i]) simp
  have n: "?n \<le> length (table_bytes env (mStringTable ?c2))"
    by (simp add: loaded_def table_bytes_def Let_def)
  have i2: "inside env r d k u (?s1\<lparr>d_caches := (d_caches ?s1)(f \<mapsto> ?c2)\<rparr>)"
    using n by (intro inside_put [OF i1]) (auto simp: table_bytes_def split: if_splits)
  show ?thesis
  proof (cases "elf_load env (f, ID)")
    case (Some e)
    then show ?thesis using i1 by (simp add: load_strings_def put_cache_def act_simps str_raise_def is_exception_def)
  next
    case None
    then show ?thesis using i2 n by (simp add: load_strings_def put_cache_def act_simps Let_def)
  qed
qed

lemma LoadStringTable_result: "table_result env (inside env r d k u) (dio_LoadStringTable env f)"
  unfolding table_result_def
proof (intro allI impI)
  fix s :: "'c DIO" assume i: "inside env r d k u s"
  obtain c s1 where c: "dio_GetCache f s = (Inr c, s1)" "inside env r d k u s1" "d_caches s1 f = Some c"
    using i by (cases "d_caches s f") (auto simp: dio_GetCache_def act_simps Let_def inside_put)
  obtain q where q: "find_section ''.debug_str'' 0 (sections (elf_file env f)) None s1 = (q, s1)" "goes_on q"
    using find_section_same [of "''.debug_str''" 0 "sections (elf_file env f)" None s1] by (metis prod.collapse)
  have fit: "mStringTable c = Some t \<Longrightarrow> mStringTableSize c \<le> length (sec_data (the_section env t))" for t
    using c(2,3) by (force simp: inside_def tables_fit_def)
  show "case dio_LoadStringTable env f s of (Inl e, s') \<Rightarrow> is_exception e \<and> inside env r d k u s'
     | (Inr (t, n), s') \<Rightarrow> n \<le> length (table_bytes env t) \<and> inside env r d k u s'"
  proof (cases "mStringTable c")
    case (Some t)
    then show ?thesis using c fit by (simp add: dio_LoadStringTable_def act_simps table_bytes_def)
  next
    case None
    show ?thesis
    proof (cases q)
      case (Inl e)
      then show ?thesis using None c q by (simp add: dio_LoadStringTable_def act_simps goes_on_Inl)
    next
      case (Inr ID)
      show ?thesis
      proof (cases ID)
        case None
        with Inr \<open>mStringTable c = None\<close> c q show ?thesis
          by (simp add: dio_LoadStringTable_def act_simps str_raise_def is_exception_def)
      next
        case (Some n)
        have l: "dio_LoadStringTable env f s = load_strings env f n c s1"
          using \<open>mStringTable c = None\<close> c(1) q(1) Inr Some
          unfolding dio_LoadStringTable_def load_strings_def Let_def by (simp add: act_simps)
        show ?thesis unfolding l by (rule load_strings_result [OF c(2)]) fact
      qed
    qed
  qed
qed

lemma LoadAltStringTable_result: "table_result env (inside env r d k u) (dio_LoadAltStringTable env f)"
proof (cases "dwz_file (elf_file env f)")
  case None
  then show ?thesis by (simp add: dio_LoadAltStringTable_def table_result_def str_raise_def act_simps is_exception_def)
next
  case (Some g)
  then show ?thesis using LoadStringTable_result by (simp add: dio_LoadAltStringTable_def)
qed

lemma safe_string_ref:
  assumes "reloc_ok env" "\<And>f. table_result env (inside env r d k u) (load f)"
  shows "safe (inside env r d k u) (form_string_ref env load msg)"
  unfolding form_string_ref_def
  by (rule safe_bnd safe_form assms(1) safe_current safe_table [OF assms(2)])+
     (auto simp: table_bytes_def intro!: safe_intros strp_loop_safe split: option.splits)

lemma safe_string_refs [safe_intros]:
  "reloc_ok env \<Longrightarrow> safe (inside env r d k u) (dio_ReadFormStringRef env)"
  "reloc_ok env \<Longrightarrow> safe (inside env r d k u) (dio_ReadFormAltStringRef env)"
  unfolding dio_ReadFormStringRef_def dio_ReadFormAltStringRef_def
  by (simp_all add: safe_string_ref LoadStringTable_result LoadAltStringTable_result)

section \<open>Attributes and entries\<close>

lemma block_sizes: "unat (a :: byte) < 2 ^ 63" "unat (b :: u16) < 2 ^ 63" "unat (c :: u32) < 2 ^ 63"
  using unsigned_less [of a, where 'a = nat] unsigned_less [of b, where 'a = nat] unsigned_less [of c, where 'a = nat] by simp_all

lemma safe_ReadAttribute [safe_intros]:
  assumes "reloc_ok env"
  shows "safe (inside env r d k u) (dio_ReadAttribute env Attr Form)"
  unfolding dio_ReadAttribute_def by (intro safe_intros block_sizes assms) simp

lemma next_attr_inside:
  assumes i: "inside env r d k u s" and n: "next_attr (Some a) n Init p s = (x, s')" and p: "even (length (mAttrs a))" "even p"
  shows "goes_on x \<and> inside env r d k u s' \<and> (\<forall>Attr Form q. x = Inr (Attr, Form, q) \<longrightarrow>
     (if Init then q = p else if p < length (mAttrs a) then q = p + 2 else Attr = 0 \<and> Form = 0))"
proof (cases "\<not> Init \<and> p + 1 < length (mAttrs a) \<and> mAttrs a ! (p + 1) = FORM_INDIRECT")
  case True
  obtain y s1 where y: "dio_ReadULEB128 s = (y, s1)" by fastforce
  then show ?thesis using safeD [OF safe_leb(1) i y] n True
    by (cases y) (auto simp: next_attr_def Let_def act_simps goes_on_Inl)
next
  case False
  have "\<not> (p < length (mAttrs a) \<and> p + 1 \<ge> length (mAttrs a))" using p by presburger
  with False show ?thesis using i n by (auto simp: next_attr_def Let_def act_simps run_bnd_ret split: if_splits)
qed

lemma safe_unit_entry [safe_intros]: "mUnitSize u \<noteq> 0 \<Longrightarrow> safe (inside env r d k u) (unit_entry env Tag Attr Form)"
  unfolding unit_entry_def by (intro safe_if safe_known_inside(2)) (auto intro: safe_intros)

definition safe_callback :: "('c DIO \<Rightarrow> bool) \<Rightarrow> 'c DIO_EntryCallBack \<Rightarrow> bool" where
  "safe_callback I cb \<longleftrightarrow> (\<forall>f. cb = Some f \<longrightarrow> (\<forall>Tag Attr Form. safe I (f Tag Attr Form)))"

lemma safe_call [safe_intros]: "safe_callback I cb \<Longrightarrow> safe I (callback cb Tag Attr Form)"
  unfolding callback_def safe_callback_def by (intro safe_intros) auto

lemma entry_loop_inside:
  assumes env: "reloc_ok env" "mUnitSize u \<noteq> 0" "safe_callback (inside env r d k u) cb" "even (length (mAttrs a))"
  shows "inside env r d k u s \<Longrightarrow> even p \<Longrightarrow> length (mAttrs a) - p + (if Init then 2 else 1) \<le> fuel \<Longrightarrow>
     goes_on (fst (entry_loop env cb 0 (Some a) Tag n fuel Init p s)) \<and>
     inside env r d k u (snd (entry_loop env cb 0 (Some a) Tag n fuel Init p s))"
proof (induction fuel arbitrary: Init p s)
  case (Suc fuel)
  let ?I = "inside env r d k u"
  obtain x s1 where x: "next_attr (Some a) n Init p s = (x, s1)" by fastforce
  note nx = next_attr_inside [OF Suc.prems(1) x env(4) Suc.prems(2)]
  show ?case
  proof (cases x)
    case (Inl e)
    then show ?thesis using x nx by (simp add: act_simps goes_on_Inl)
  next
    case (Inr y)
    obtain Attr Form q where y: "y = (Attr, Form, q)" by (cases y)
    let ?rest = "seq (unit_entry env Tag Attr Form) (callback cb Tag Attr Form)"
    let ?body = "seq (if Attr \<noteq> 0 \<and> Form \<noteq> 0 then dio_ReadAttribute env Attr Form else ret ()) ?rest"
    have "safe ?I ?body" using env(1-3) by (intro safe_intros)
    moreover obtain z s2 where z: "?body s1 = (z, s2)" by fastforce
    ultimately have z2: "goes_on z" "?I s2" using safeD [of ?I ?body s1] nx by auto
    have e: "entry_loop env cb 0 (Some a) Tag n (Suc fuel) Init p s =
        seq ?body (if Attr = 0 \<and> Form = 0 then ret True else entry_loop env cb 0 (Some a) Tag n fuel False q) s1"
      unfolding entry_loop.simps run_bnd(1) [of "next_attr (Some a) n Init p" s, OF x [unfolded Inr y]] prod.case seq_assoc
      by (simp add: run_bnd_ret)
    have q: "if Init then q = p else if p < length (mAttrs a) then q = p + 2 else Attr = 0 \<and> Form = 0" using nx Inr y by blast
    have "length (mAttrs a) - q + 1 \<le> fuel" if "\<not> (Attr = 0 \<and> Form = 0)"
      using q that Suc.prems(3) by (cases Init; cases "p < length (mAttrs a)") simp_all
    moreover have "even q \<or> Attr = 0 \<and> Form = 0"
      using q Suc.prems(2) by (cases Init; cases "p < length (mAttrs a)") simp_all
    ultimately show ?thesis unfolding e using z z2 Suc.IH [OF z2(2), of q False] by (cases z) (auto simp: act_simps goes_on_Inl)
  qed
qed (simp split: if_splits)

text \<open>C17: Whatever bytes a section holds, as long as no five consecutive bytes have their top bit set (so that no LEB128
  number is longer than five bytes), and whatever abbreviations the unit has (each with pairs of attribute and form): inside a unit of DWARF 2 or later with a
  non-zero size, dio_ReadEntry, reading a whole entry (with no target attribute), never reads outside the section or outside a string table, never fails an assertion and
  always returns or raises an exception; in both cases the reader still stands inside the section, with the same unit,
  provided that the relocation routine and the client's function return or raise an exception and keep the reader there.
\<close>

theorem dio_ReadEntry_safe:
  fixes s :: "'c DIO"
  assumes "reloc_ok env" "safe_callback (inside env r d k u) cb" "mVersion u \<ge> 2" "mUnitSize u \<noteq> 0"
    and "\<forall>a. Some a \<in> set (mUnitAbbrevs u) \<longrightarrow> even (length (mAttrs a))" "inside env r d k u s"
  shows "goes_on (fst (dio_ReadEntry env cb 0 s)) \<and> inside env r d k u (snd (dio_ReadEntry env cb 0 s))"
proof -
  let ?I = "inside env r d k u"
  have l: "safe ?I (entry_loop env cb 0 (Some a) (mTag a) 0 (length (mAttrs a) + 2) True 0)" if "Some a \<in> set (mUnitAbbrevs u)" for a
  proof (rule safeI)
    fix s :: "'c DIO" assume "?I s"
    from entry_loop_inside [OF assms(1,4,2) _ this, of a 0 True "length (mAttrs a) + 2" "mTag a" 0] assms(5) that
    show "goes_on (fst (entry_loop env cb 0 (Some a) (mTag a) 0 (length (mAttrs a) + 2) True 0 s)) \<and>
        ?I (snd (entry_loop env cb 0 (Some a) (mTag a) 0 (length (mAttrs a) + 2) True 0 s))" by auto
  qed
  have "safe ?I (bnd dio_ReadULEB128 (\<lambda>AbbrCode.
       if AbbrCode = 0 then ret False
       else if unat AbbrCode \<ge> length (mUnitAbbrevs u) then str_raise ERR_INV_DWARF ''Invalid abbreviation code''
       else case mUnitAbbrevs u ! unat AbbrCode of
         None \<Rightarrow> str_raise ERR_INV_DWARF ''Invalid abbreviation code''
       | Some a \<Rightarrow> entry_loop env cb 0 (Some a) (mTag a) 0 (length (mAttrs a) + 2) True 0))"
    by (intro safe_intros l) (metis not_less nth_mem)
  with assms(3) have "safe ?I (dio_ReadEntry env cb 0)"
    unfolding dio_ReadEntry_def by (intro safe_seq safe_modify safe_known_inside(2)) simp_all
  then show ?thesis using assms(6) by (simp add: safe_def)
qed

definition cut_env :: DioEnv where
  "cut_env = \<lparr>elf_file = (\<lambda>_. \<lparr>big_endian = True, elf64 = True, sections = [], dwz_file = None\<rparr>),
     elf_load = (\<lambda>_. None), drl_relocate = (\<lambda>_ _ _ x. Inr (x, None)), errno = ERR_INV_DWARF\<rparr>"

text \<open>An entry that is cut off inside its second attribute.\<close>

definition cut_unit :: DIO_UnitDescriptor where
  "cut_unit = zero_unit\<lparr>mVersion := 4, mUnitSize := 100, mUnitAbbrevs := [None, Some \<lparr>mTag = 0x24, mChildren = False,
     mAttrs = [0x0b, FORM_UDATA, 0x03, FORM_STRING]\<rparr>]\<rparr>"

definition cut_state :: "unit DIO" where
  "cut_state = \<lparr>dio_gEntryPos = 0, dio_gFormData = 0, dio_gFormDataSize = 0, dio_gFormDataAddr = Null, dio_gFormSection = None,
     sSection = Some (0, 0), sBigEndian = True, sAddressSize = 8, sRefAddressSize = 8, sData = Some [1, 0x93, 2, 0x61], sDataPos = 0,
     sDataLen = 4, sUnit = Some 0, d_units = [0 \<mapsto> cut_unit], d_caches = Map.empty, AbbrevBuf = [], d_client = ()\<rparr>"

lemma cut_inside: "inside cut_env (0, 0) [1, 0x93, 2, 0x61] 0 cut_unit cut_state"
  by (simp add: inside_def cut_state_def no_long_def tables_fit_def)

theorem dio_ReadEntry_safe_witness:
  "goes_on (fst (dio_ReadEntry cut_env None 0 cut_state)) \<and> sDataPos (snd (dio_ReadEntry cut_env None 0 cut_state)) \<le> 4"
proof -
  have "reloc_ok cut_env" by (simp add: reloc_ok_def cut_env_def)
  moreover have "safe_callback (inside cut_env (0, 0) [1, 0x93, 2, 0x61] 0 cut_unit) None" by (simp add: safe_callback_def)
  moreover have "mVersion cut_unit \<ge> 2" "mUnitSize cut_unit \<noteq> 0"
    "\<forall>a. Some a \<in> set (mUnitAbbrevs cut_unit) \<longrightarrow> even (length (mAttrs a))"
    by (auto simp: cut_unit_def)
  ultimately have "goes_on (fst (dio_ReadEntry cut_env None 0 cut_state)) \<and>
      inside cut_env (0, 0) [1, 0x93, 2, 0x61] 0 cut_unit (snd (dio_ReadEntry cut_env None 0 cut_state))"
    by (rule dio_ReadEntry_safe) (rule cut_inside)
  then show ?thesis by (simp add: inside_def)
qed

section \<open>What the reader does not check\<close>

text \<open>C37: The 32-bit reader of unsigned LEB128 numbers has no limit on the number of bytes: on every input whose first five
  bytes have the continuation bit set and are followed by another byte, it shifts a 32-bit number by 35 bits, which the
  language does not define.
\<close>

theorem dio_ReadULEB128_overlong:
  assumes "dio_at s (b0 # b1 # b2 # b3 # b4 # b5 # bs)"
    and "\<forall>b \<in> {b0, b1, b2, b3, b4}. b AND 0x80 \<noteq> 0"
  shows "fst (dio_ReadULEB128 s) = Inl Undefined_Behaviour"
proof -
  let ?l = "b0 # b1 # b2 # b3 # b4 # b5 # bs"
  have at: "dio_at (adv s n) (?l ! n # drop (Suc n) ?l)" if "n \<le> 5" for n
    using dio_at_append(2) [of s "take n ?l" "drop n ?l"] assms(1) that Cons_nth_drop_Suc [of n ?l] by (simp add: min_def)
  have "\<exists>x. dio_ReadULEB128 s = dio_uleb_loop (7 * n) (x :: u32) (adv s n)" if "n \<le> 5" for n
    using that
  proof (induction n)
    case (Suc n)
    then obtain x where x: "dio_ReadULEB128 s = dio_uleb_loop (7 * n) (x :: u32) (adv s n)" by auto
    have "n = 0 \<or> n = 1 \<or> n = 2 \<or> n = 3 \<or> n = 4" using Suc.prems by linarith
    then have b: "?l ! n AND 0x80 \<noteq> 0" using assms(2) by auto
    have "dio_uleb_loop (7 * n) x (adv s n) =
        dio_uleb_loop (7 * Suc n) (x OR push_bit (7 * n) (ucast (?l ! n AND 0x7F))) (adv s (Suc n))"
      using run_ReadU1 [OF at [of n]] Suc.prems b
      by (subst dio_uleb_loop.simps) (simp add: act_simps add.commute [of 7] del: nth_Cons)
    then show ?case unfolding x by blast
  qed (simp add: dio_ReadULEB128_def exI [of _ 0])
  from this [of 5] show ?thesis using run_ReadU1 [OF at [of 5]] by (auto simp: dio_uleb_loop.simps [of 35] act_simps)
qed

definition padded_state :: "unit DIO" where
  "padded_state = cut_state\<lparr>sData := Some [0x80, 0x80, 0x80, 0x80, 0x80, 0], sDataLen := 6\<rparr>"

theorem dio_ReadULEB128_overlong_witness: "fst (dio_ReadULEB128 padded_state) = Inl Undefined_Behaviour"
proof -
  have "dio_at padded_state [0x80, 0x80, 0x80, 0x80, 0x80, 0]"
    by (simp add: dio_at_def padded_state_def cut_state_def U8_MAX1_def)
  then show ?thesis by (rule dio_ReadULEB128_overlong) simp
qed

text \<open>C38: The attributes of a DWARF 1 entry are fetched without a test against the end of the section. If the last six
  bytes of a section are the size and the tag of an entry, and the size says eight or more, dio_ReadEntry goes on to read
  the two bytes behind the section.
\<close>

theorem dio_ReadEntry_v1_overread:
  assumes u: "sUnit s = Some k" "d_units s k = Some u" "mVersion u < 2"
    and at: "dio_at s (enc (sBigEndian s) 4 (n :: u32) @ enc (sBigEndian s) 2 (Tag :: u16))"
    and e: "sDataPos s + 6 = sDataLen s" and n: "8 \<le> n"
  shows "fst (dio_ReadEntry env None 0 s) = Inl Undefined_Behaviour"
proof -
  let ?s0 = "s\<lparr>dio_gEntryPos := sDataPos s\<rparr>"
  have at0: "dio_at ?s0 (enc (sBigEndian s) 4 n @ enc (sBigEndian s) 2 Tag)" using at by (simp add: dio_at_def)
  have at1: "dio_at (adv ?s0 4) (enc (sBigEndian s) 2 Tag)" using dio_at_append(2) [OF at0] by simp
  have r: "dio_ReadU4 ?s0 = (Inr n, adv ?s0 4)" "dio_ReadU2 (adv ?s0 4) = (Inr Tag, adv (adv ?s0 4) 2)"
    using run_ReadU4 [of ?s0 n "enc (sBigEndian s) 2 Tag"] run_ReadU2 [of "adv ?s0 4" Tag "[]"] at0 at1 by simp_all
  let ?s1 = "adv ?s0 6"
  have cu: "cur_unit ?s0 = (Inr u, ?s0)" "cur_unit ?s1 = (Inr u, ?s1)" using u by (simp_all add: cur_unit_def)
  have n8: "\<not> n < 8" "8 \<le> unat n" "\<not> 2 \<le> mVersion u"
    using n u(3) by (simp_all add: not_less not_le) (simp_all add: word_le_nat_alt)
  have u8: "8 \<le> uint n" using n by (simp add: word_le_def)
  have ue: "unit_entry env Tag 0 DWARF_ENTRY_NO_CHILDREN ?s1 = (Inr (), ?s1)"
    using cu(2) by (simp add: unit_entry_def act_simps AT_sibling_def DWARF_ENTRY_NO_CHILDREN_def)
  have nb: "next_byte ?s1 = (Inl Undefined_Behaviour, ?s1)"
    using at e by (auto simp: next_byte_def bytes_here_def act_simps dio_at_def)
  have na: "next_attr None m True p ?s1 = (Inr (0, DWARF_ENTRY_NO_CHILDREN, p), ?s1)"
    "next_attr None (unat n) False p ?s1 = (Inl Undefined_Behaviour, ?s1)" for m p
    using nb u8 by (simp_all add: next_attr_def act_simps)
  have "entry_loop env None 0 None Tag (unat n) (Suc (Suc (unat n))) True 0 ?s1 =
      entry_loop env None 0 None Tag (unat n) (Suc (unat n)) False 0 ?s1"
    using na(1) ue by (simp only: entry_loop.simps(2) [of _ _ _ _ _ _ "Suc (unat n)"])
      (simp add: act_simps run_bnd_ret callback_def DWARF_ENTRY_NO_CHILDREN_def)
  also have "\<dots> = (Inl Undefined_Behaviour, ?s1)" using na(2) by (simp add: act_simps)
  finally show ?thesis using r cu(1) n8 by (simp add: dio_ReadEntry_def act_simps)
qed

definition v1_state :: "unit DIO" where
  "v1_state = cut_state\<lparr>sData := Some [0, 0, 0, 8, 0, 0x24], sDataLen := 6, d_units := [0 \<mapsto> zero_unit\<lparr>mVersion := 1\<rparr>]\<rparr>"

theorem dio_ReadEntry_v1_overread_witness: "fst (dio_ReadEntry cut_env None 0 v1_state) = Inl Undefined_Behaviour"
proof -
  have "enc True 4 (8 :: u32) @ enc True 2 (0x24 :: u16) = [0, 0, 0, 8, 0, 0x24]" by code_simp
  then have "dio_at v1_state (enc (sBigEndian v1_state) 4 (8 :: u32) @ enc (sBigEndian v1_state) 2 (0x24 :: u16))"
    by (simp add: dio_at_def v1_state_def cut_state_def U8_MAX1_def)
  then show ?thesis
    by (rule dio_ReadEntry_v1_overread [where k = 0 and u = "zero_unit\<lparr>mVersion := 1\<rparr>", rotated 3])
       (simp_all add: v1_state_def cut_state_def)
qed

end
