(* ===== verification/DwarfProps.thy ===== *)
theory DwarfProps
  imports DwarfUnit DwarfSafe
begin

text \<open>
  The reader of DWARF sections as a whole: a unit with its abbreviations, and the search for one attribute.
\<close>

section \<open>A unit, from the sections to the calls\<close>

definition read_unit_at :: "DioEnv \<Rightarrow> nat \<Rightarrow> sec_ref \<Rightarrow> nat \<Rightarrow> (call list, unit) dio" where
  "read_unit_at env k r pos =
     seq (dio_LoadAbbrevTable env (fst r)) (seq (dio_EnterSection env None r pos) (dio_ReadUnit env k (Some log_cb)))"

lemma table_ok_upd:
  assumes "table_ok env s g t" "d_caches s' = (d_caches s)(f \<mapsto> c)" "mStringTable c = mStringTable (cache_of (d_caches s f))"
    "mStringTableSize c = mStringTableSize (cache_of (d_caches s f))"
  shows "table_ok env s' g t"
  using assms by (auto simp: table_ok_def string_table_def cache_of_def split: option.splits)

lemma run_EnterSection:
  assumes "elf_load env r = None" "sec_data (the_section env r) = d" "pos < length d"
  shows "\<exists>s'. dio_EnterSection env None r pos s = (Inr (), s') \<and> sSection s' = Some r \<and> sData s' = Some d \<and>
     sDataLen s' = length d \<and> sDataPos s' = pos \<and> sBigEndian s' = big_endian (elf_file env (fst r)) \<and> sUnit s' = None \<and>
     d_caches s' = d_caches s \<and> d_client s' = d_client s \<and> d_units s' = d_units s"
  using assms by (auto simp: dio_EnterSection_def act_simps loaded_def Let_def)

text \<open>C6: For every file whose abbreviation section is the encoding of a list of tables of abbreviations, and for every
  unit (32-bit or 64-bit format, either byte order, any address size that the entries fit) whose header names one of
  these tables and whose entries are written with it: after the three calls dio_LoadAbbrevTable, dio_EnterSection and
  dio_ReadUnit, the client's function has been called exactly once for the start of each entry, once for each
  attribute, in order, with the tag, attribute, form and the value, size and address that were encoded, and once for
  the end of each entry; null entries make no call; the reader stands at the end of the unit.
\<close>

theorem dio_ReadUnit_calls:
  fixes s :: "call list DIO" and es :: "entry list"
  assumes "only_section env f ''.debug_abbrev'' ID" "elf_load env (f, ID) = None" "elf_load env (f, ID') = None"
    and "sec_data (the_section env (f, ID)) = concat (map set_bytes sets)" "length (concat (map set_bytes sets)) < U8_MAX1"
    and "sets \<noteq> []" "list_all set_ok sets" and "no_abbrevs (d_caches s f)"
    and "info_section env (f, ID')" "table_ok env s (Some f) str" "table_ok env s (dwz_file (elf_file env f)) alt"
    and c: "c = unit_ctx env h (f, ID') (length pre) n str alt" and "n = length (entries_bytes c es)"
    and "unit_ok env (f, ID') sets c h es"
    and d: "sec_data (the_section env (f, ID')) = pre @ header_bytes (vc_big c) h n @ entries_bytes c es @ post"
      "length (sec_data (the_section env (f, ID'))) < U8_MAX1"
  shows "\<exists>s'. read_unit_at env k (f, ID') (length pre) s = (Inr (), s') \<and>
     d_client s' = d_client s @ entries_calls c (length pre + length (header_bytes (vc_big c) h n)) es \<and>
     sDataPos s' = length pre + us_size h n"
proof -
  let ?r = "(f, ID')" and ?d = "pre @ header_bytes (vc_big c) h n @ entries_bytes c es @ post"
  obtain s1 cc where s1: "dio_LoadAbbrevTable env f s = (Inr (), s1)" "tables_loaded cc sets"
    "d_caches s1 = (d_caches s)(f \<mapsto> cc)" "mStringTable cc = mStringTable (cache_of (d_caches s f))"
    "mStringTableSize cc = mStringTableSize (cache_of (d_caches s f))" "d_client s1 = d_client s"
    using run_LoadAbbrevTable [OF assms(1,2,4-8)] by blast
  have "length pre < length ?d" using length_header [of "vc_big c" h n] us_size_pos [of h n] assms(13) by auto
  then obtain s2 where s2: "dio_EnterSection env None ?r (length pre) s1 = (Inr (), s2)" "sSection s2 = Some ?r" "sData s2 = Some ?d"
    "sDataLen s2 = length ?d" "sDataPos s2 = length pre" "sBigEndian s2 = big_endian (elf_file env f)"
    "d_caches s2 = d_caches s1" "d_client s2 = d_client s1"
    using run_EnterSection [OF assms(3) d(1), of "length pre" s1] by auto
  have tk: "table_ok env s1 g t" if "table_ok env s g t" for g t using table_ok_upd [OF that s1(3-5)] .
  have "unit_ready env ?r sets str alt s2"
    using s1(2,3) s2(2,6,7) tk [OF assms(10)] tk [OF assms(11)] table_ok_cong [OF s2(7), of env]
    by (simp add: unit_ready_def)
  moreover have "dio_at s2 (header_bytes (vc_big c) h n @ entries_bytes c es @ post)"
    using s2(3-5) d by (simp add: dio_at_def)
  moreover have "c = unit_ctx env h ?r (sDataPos s2) n str alt" using c s2(5) by simp
  ultimately obtain s' where s': "dio_ReadUnit env k (Some log_cb) s2 = (Inr (), s')"
    "d_client s' = d_client s2 @ entries_calls c (sDataPos s2 + length (header_bytes (vc_big c) h n)) es"
    "sDataPos s' = sDataPos s2 + us_size h n"
    using run_ReadUnit [of c env h ?r s2 n str alt sets es post k] assms(9,14) assms(13) [symmetric] by blast
  then show ?thesis using s1(1,6) s2(1,5,8) by (simp add: read_unit_at_def act_simps)
qed

text \<open>A small file: one table with one abbreviation, and a unit of version 2 with one entry and a null entry.\<close>

definition ex_abbrev :: DIO_Abbreviation where
  "ex_abbrev = \<lparr>mTag = 0x11, mChildren = True, mAttrs = [0x13, 0x05, 0x03, 0x08]\<rparr>"

definition ex_set :: "abbrev list" where
  "ex_set = [(1, ex_abbrev)]"

definition ex_spec :: unit_spec where
  "ex_spec = \<lparr>us_64 = False, us_version = 2, us_offs = 0, us_asz = 4\<rparr>"

definition ex_entries :: "entry list" where
  "ex_entries = [Some (1, ex_abbrev, [(0x13, False, A_data2 0x0c), (0x03, False, A_string [0x61])]), None]"

definition ex_info :: "byte list" where
  "ex_info = [0, 0, 0, 13, 0, 2, 0, 0, 0, 0, 4, 1, 0, 0x0c, 0x61, 0, 0]"

definition ex_env :: DioEnv where
  "ex_env = \<lparr>elf_file = (\<lambda>_. \<lparr>big_endian = True, elf64 = False, sections = [
       \<lparr>sec_name = [], sec_addr = 0, sec_data = [], sec_relocate = False\<rparr>,
       \<lparr>sec_name = ''.debug_abbrev'', sec_addr = 0, sec_data = [1, 0x11, 1, 0x13, 5, 3, 8, 0, 0, 0], sec_relocate = False\<rparr>,
       \<lparr>sec_name = ''.debug_info'', sec_addr = 0, sec_data = ex_info, sec_relocate = False\<rparr>], dwz_file = None\<rparr>),
     elf_load = (\<lambda>_. None), drl_relocate = (\<lambda>_ _ _ x. Inr (x, None)), errno = ERR_INV_DWARF\<rparr>"

definition ex_ctx :: val_ctx where
  "ex_ctx = unit_ctx ex_env ex_spec (0, 2) 0 6 None None"

definition ex_state :: "call list DIO" where
  "ex_state = \<lparr>dio_gEntryPos = 0, dio_gFormData = 0, dio_gFormDataSize = 0, dio_gFormDataAddr = Null, dio_gFormSection = None,
     sSection = None, sBigEndian = False, sAddressSize = 0, sRefAddressSize = 0, sData = None, sDataPos = 0, sDataLen = 0,
     sUnit = None, d_units = Map.empty, d_caches = Map.empty, AbbrevBuf = [], d_client = []\<rparr>"

lemma ex_section: "only_section ex_env 0 ''.debug_abbrev'' 1"
proof -
  have "j = 1 \<or> j = 2" if "1 \<le> j" "j < length (sections (elf_file ex_env 0))" for j
    using that by (auto simp: ex_env_def)
  moreover have "sec_name (sections (elf_file ex_env 0) ! 1) = ''.debug_abbrev''"
    "sec_name (sections (elf_file ex_env 0) ! 2) \<noteq> ''.debug_abbrev''" "length (sections (elf_file ex_env 0)) = 3"
    by (simp_all add: ex_env_def)
  ultimately show ?thesis unfolding only_section_def Let_def by fastforce
qed

lemma ex_sections:
  "info_section ex_env (0, 2)" "sec_data (the_section ex_env (0, 2)) = ex_info"
  "sec_data (the_section ex_env (0, 1)) = concat (map set_bytes [ex_set])"
  by (simp_all add: info_section_def the_section_def ex_env_def ex_set_def ex_abbrev_def set_bytes_def uleb.simps)

lemma ex_bytes:
  "ex_info = header_bytes (vc_big ex_ctx) ex_spec 6 @ entries_bytes ex_ctx ex_entries" "length (entries_bytes ex_ctx ex_entries) = 6"
  by code_simp+

lemma ex_calls:
  "entries_calls ex_ctx (length (header_bytes (vc_big ex_ctx) ex_spec 6)) ex_entries =
     [(0x11, 0, DWARF_ENTRY_HAS_CHILDREN, 0, 0, Null), (0x11, 0x13, FORM_DATA2, 12, 2, Data (0, 2) 12),
      (0x11, 0x03, FORM_STRING, 0, 2, Data (0, 2) 14), (0x11, 0, 0, 0, 0, Null)]"
  by code_simp

lemma ex_ok: "set_ok ex_set" "unit_ok ex_env (0, 2) [ex_set] ex_ctx ex_spec ex_entries"
proof -
  show "set_ok ex_set" by code_simp
  have "spec_ok ex_spec 6" by (simp add: spec_ok_def ex_spec_def us_osz_def us_len_def)
  moreover have "map_of (set_offsets 0 [ex_set]) (unat (us_offs ex_spec)) = Some [None, Some ex_abbrev]" by code_simp
  moreover have "entries_ok (unit_of ex_spec (0, 2) 0 6 [None, Some ex_abbrev]) ex_ctx ex_entries" by code_simp
  moreover have "vc_offs ex_ctx = 0" by (simp add: ex_ctx_def unit_ctx_def)
  ultimately show "unit_ok ex_env (0, 2) [ex_set] ex_ctx ex_spec ex_entries"
    by (simp add: unit_ok_def Let_def ex_bytes(2))
qed

theorem dio_ReadUnit_calls_witness:
  "\<exists>s'. read_unit_at ex_env 7 (0, 2) 0 ex_state = (Inr (), s') \<and>
     d_client s' = [(0x11, 0, DWARF_ENTRY_HAS_CHILDREN, 0, 0, Null), (0x11, 0x13, FORM_DATA2, 12, 2, Data (0, 2) 12),
      (0x11, 0x03, FORM_STRING, 0, 2, Data (0, 2) 14), (0x11, 0, 0, 0, 0, Null)] \<and> sDataPos s' = 17"
proof -
  have len: "length (concat (map set_bytes [ex_set])) < U8_MAX1" "length (sec_data (the_section ex_env (0, 2))) < U8_MAX1"
    by (simp_all only: ex_sections(2,3) [symmetric] U8_MAX1_def) (simp_all add: the_section_def ex_env_def ex_info_def)
  have pre: "elf_load ex_env r = None" "no_abbrevs (d_caches ex_state 0)" "table_ok ex_env ex_state g None" for r g
    by (simp_all add: ex_env_def no_abbrevs_def ex_state_def table_ok_def)
  have c: "ex_ctx = unit_ctx ex_env ex_spec (0, 2) (length ([] :: byte list)) 6 None None" by (simp add: ex_ctx_def)
  have d: "sec_data (the_section ex_env (0, 2)) =
      [] @ header_bytes (vc_big ex_ctx) ex_spec 6 @ entries_bytes ex_ctx ex_entries @ []"
    unfolding ex_sections(2) using ex_bytes(1) by simp
  have sets: "[ex_set] \<noteq> []" "list_all set_ok [ex_set]" using ex_ok(1) by simp_all
  have sz: "us_size ex_spec 6 = 17" "d_client ex_state = []" by (simp_all add: us_size_def us_len_def us_osz_def ex_spec_def ex_state_def)
  show ?thesis
    using dio_ReadUnit_calls [OF ex_section pre(1) pre(1) ex_sections(3) len(1) sets pre(2) ex_sections(1) pre(3) pre(3)
        c ex_bytes(2) [symmetric] ex_ok(2) d len(2), of 7]
    by (simp add: ex_calls sz)
qed

section \<open>The search for one attribute\<close>

text \<open>C36: Asking dio_ReadEntry for one attribute only is equivalent to reading the whole entry and dropping the calls for
  all other attributes: for every entry and every attribute number T that is not 0, both ways return 1 and leave the
  reader behind the entry, and the calls of the short way are those calls of the long way whose attribute is T or one of
  the four that refer to another entry, in the same order and with the same values.
\<close>

theorem dio_ReadEntry_search:
  assumes "T \<noteq> 0" "ctx_ok env u c s" "vc_size c \<noteq> 0" "mVersion u \<ge> 2" "entry_ok u c code ab as"
    and "dio_at s (uleb (unat code) @ attrs_bytes c as @ bs)"
  shows "\<exists>s1 s2 calls. dio_ReadEntry env (Some log_cb) 0 s = (Inr True, s1) \<and> d_client s1 = d_client s @ calls \<and>
     dio_ReadEntry env (Some log_cb) T s = (Inr True, s2) \<and>
     d_client s2 = d_client s @ filter (\<lambda>(Tag, Attr, Form, x). Attr = T \<or> Attr \<in> set link_attrs) calls \<and>
     sDataPos s1 = sDataPos s + length (uleb (unat code)) + length (attrs_bytes c as) \<and> sDataPos s2 = sDataPos s1 \<and>
     calls = entry_calls c (mTag ab) (mChildren ab) (sDataPos s + length (uleb (unat code))) as"
proof -
  let ?pos = "sDataPos s + length (uleb (unat code))"
  obtain s1 where s1: "dio_ReadEntry env (Some log_cb) 0 s = (Inr True, s1)"
    "moved s (length (uleb (unat code)) + length (attrs_bytes c as)) (entry_calls c (mTag ab) (mChildren ab) ?pos as) s1"
    using run_ReadEntry [OF assms(2-6)] by blast
  obtain s2 where s2: "dio_ReadEntry env (Some log_cb) T s = (Inr True, s2)"
    "moved s (length (uleb (unat code)) + length (attrs_bytes c as)) (filter (wanted T) (attr_calls c (mTag ab) ?pos as)) s2"
    using run_ReadEntry_target [OF assms] by blast
  have "wanted T = (\<lambda>(Tag, Attr, Form, x). Attr = T \<or> Attr \<in> set link_attrs)"
    by (auto simp: wanted_def fun_eq_iff)
  moreover have "\<not> wanted T (Tag, 0, Form, x)" for Tag Form x using assms(1) by (simp add: wanted_def link_attrs_def)
  ultimately show ?thesis using s1 s2 by (auto simp: moved_def entry_calls_def)
qed

text \<open>The entry of the small file, and its attribute \<^verbatim>\<open>AT_name\<close>.\<close>

definition ex_unit :: DIO_UnitDescriptor where
  "ex_unit = unit_of ex_spec (0, 2) 0 6 [None, Some ex_abbrev]"

definition ex_reader :: "call list DIO" where
  "ex_reader = ex_state\<lparr>sSection := Some (0, 2), sBigEndian := True, sAddressSize := 4, sRefAddressSize := 4, sData := Some ex_info,
     sDataPos := 11, sDataLen := 17, sUnit := Some 7, d_units := [7 \<mapsto> ex_unit]\<rparr>"

lemma ex_reader_ok: "ctx_ok ex_env ex_unit ex_ctx ex_reader"
  by (simp add: ctx_ok_def reading_def ex_reader_def ex_ctx_def unit_ctx_def ex_spec_def us_osz_def ex_unit_def unit_of_def
      ex_env_def the_section_def table_ok_def ex_state_def)

theorem dio_ReadEntry_search_witness:
  "\<exists>s2. dio_ReadEntry ex_env (Some log_cb) 0x03 ex_reader = (Inr True, s2) \<and>
     d_client s2 = [(0x11, 0x03, FORM_STRING, 0, 2, Data (0, 2) 14)] \<and> sDataPos s2 = 16"
proof -
  let ?as = "[(0x13, False, A_data2 0x0c), (0x03, False, A_string [0x61])] :: attr list"
  have b: "uleb (unat (1 :: u32)) @ attrs_bytes ex_ctx ?as @ [0] = [1, 0, 0x0c, 0x61, 0, 0]"
    "length (uleb (unat (1 :: u32))) + length (attrs_bytes ex_ctx ?as) = 5" by code_simp+
  have at: "dio_at ex_reader (uleb (unat (1 :: u32)) @ attrs_bytes ex_ctx ?as @ [0])"
    unfolding b by (simp add: dio_at_def ex_reader_def ex_info_def U8_MAX1_def ex_state_def)
  have e: "entry_ok ex_unit ex_ctx 1 ex_abbrev ?as" "vc_size ex_ctx \<noteq> 0" "mVersion ex_unit \<ge> 2" by code_simp+
  have c: "filter (\<lambda>(Tag, Attr, Form, x). Attr = 0x03 \<or> Attr \<in> set link_attrs)
      (entry_calls ex_ctx (mTag ex_abbrev) (mChildren ex_abbrev) (11 + length (uleb (unat (1 :: u32)))) ?as) =
      [(0x11, 0x03, FORM_STRING, 0, 2, Data (0, 2) 14)]" by code_simp
  have p: "sDataPos ex_reader = 11" "d_client ex_reader = []" by (simp_all add: ex_reader_def ex_state_def)
  obtain s2 where "dio_ReadEntry ex_env (Some log_cb) 0x03 ex_reader = (Inr True, s2)"
    "d_client s2 = filter (\<lambda>(Tag, Attr, Form, x). Attr = 0x03 \<or> Attr \<in> set link_attrs)
      (entry_calls ex_ctx (mTag ex_abbrev) (mChildren ex_abbrev) (11 + length (uleb (unat (1 :: u32)))) ?as)"
    "sDataPos s2 = 11 + length (uleb (unat (1 :: u32))) + length (attrs_bytes ex_ctx ?as)"
    using dio_ReadEntry_search [of "0x03", OF _ ex_reader_ok e(2,3,1) at] unfolding p by auto
  then show ?thesis using c b(2) by auto
qed

end
