(* ===== verification/LineNumbers.thy ===== *)
theory LineNumbers
  imports DwarfUnit "HOL-Library.Multiset"
begin

text \<open>
  Line number tables (\<^verbatim>\<open>services/dwarfcache.c\<close>): the loader of line number programs of DWARF 1 to 4 and the index that is
  made of the table. The loader runs on the section reader of \<^verbatim>\<open>DwarfIO\<close>; the unit and the cache it works on are
  the client's part of the reader's state. Pointers to rows of a table are indices, counters and capacities of arrays are the lengths of lists.
\<close>

section \<open>Data\<close>

record FileInfo =
  fi_mName :: data_ptr
  fi_mDir :: data_ptr
  fi_mModTime :: u32
  fi_mSize :: u32
  fi_mNameHash :: u32
  fi_mAreaCnt :: nat

record LineNumbersState =
  ls_mAddress :: u64
  ls_mSection :: u32
  ls_mStatesIndexPos :: nat
  ls_mFile :: u32
  ls_mLine :: u32
  ls_mColumn :: u16
  ls_mFlags :: byte
  ls_mISA :: byte
  ls_mOpIndex :: byte
  ls_mDiscriminator :: byte

abbreviation LINE_IsStmt :: byte where "LINE_IsStmt \<equiv> 0x01"
abbreviation LINE_BasicBlock :: byte where "LINE_BasicBlock \<equiv> 0x02"
abbreviation LINE_PrologueEnd :: byte where "LINE_PrologueEnd \<equiv> 0x04"
abbreviation LINE_EpilogueBegin :: byte where "LINE_EpilogueBegin \<equiv> 0x08"
abbreviation LINE_EndSequence :: byte where "LINE_EndSequence \<equiv> 0x10"

text \<open>
  The parts of a unit that concern line numbers. \<open>cu_desc\<close> is the key of the descriptor \<^verbatim>\<open>mDesc\<close> and of the unit itself,
  \<open>cu_name\<close> is \<^verbatim>\<open>mObject->mName\<close>.
\<close>

record CompUnit =
  cu_desc :: nat
  cu_name :: data_ptr
  cu_mDir :: data_ptr
  cu_mLineInfoOffs :: nat
  cu_mFiles :: "FileInfo list"
  cu_mDirs :: "data_ptr list"
  cu_mStates :: "LineNumbersState list"
  cu_mStatesIndex :: "nat list"
  cu_mLineInfoLoaded :: bool

text \<open>The unit that is loaded, and the cache of its file; \<^verbatim>\<open>mFileInfoHash\<close> holds files as unit and index.\<close>

record LineClient =
  lc_unit :: CompUnit
  lc_mDebugLineV1 :: "sec_ref option"
  lc_mDebugLineV2 :: "sec_ref option"
  lc_mFileInfoHash :: "(nat \<times> nat) list list option"

type_synonym 'a line = "(LineClient, 'a) dio"

text \<open>The library's \<^verbatim>\<open>qsort\<close> for the two arrays that are sorted.\<close>

record SortEnv =
  qsort_states :: "LineNumbersState list \<Rightarrow> LineNumbersState list"
  qsort_index :: "LineNumbersState list \<Rightarrow> nat list \<Rightarrow> nat list"

definition upd_cu :: "(CompUnit \<Rightarrow> CompUnit) \<Rightarrow> unit line" where
  "upd_cu f = modify (\<lambda>s. s\<lparr>d_client := (d_client s)\<lparr>lc_unit := f (lc_unit (d_client s))\<rparr>\<rparr>)"

definition the_unit :: "CompUnit line" where
  "the_unit = look (\<lambda>s. lc_unit (d_client s))"

section \<open>Names\<close>

definition cstring_of :: "DioEnv \<Rightarrow> data_ptr \<Rightarrow> cstring option" where
  "cstring_of env p = (case p of Null \<Rightarrow> None
     | Data r i \<Rightarrow> Some (takeWhile (\<lambda>b. b \<noteq> 0) (drop (nat i) (sec_data (the_section env r)))))"

text \<open>The loop runs from the end of the name.\<close>

fun hash_loop :: "byte list \<Rightarrow> u32 \<Rightarrow> u32" where
  "hash_loop [] h = h"
| "hash_loop (ch # rest) h =
     (if ch = 0x2f then h
      else if ch = 0x5c then h
      else
        let h = push_bit 4 h + ucast ch;
            g = h AND 0xf0000000
        in hash_loop rest (if g \<noteq> 0 then (h XOR drop_bit 24 g) AND NOT g else h))"

definition calc_file_name_hash :: "cstring option \<Rightarrow> u32" where
  "calc_file_name_hash s = (case s of None \<Rightarrow> 0 | Some s \<Rightarrow> hash_loop (rev s) 0)"

section \<open>Adding to a unit\<close>

definition add_dir :: "data_ptr \<Rightarrow> unit line" where
  "add_dir Name = upd_cu (\<lambda>u. u\<lparr>cu_mDirs := cu_mDirs u @ [Name]\<rparr>)"

definition add_file :: "DioEnv \<Rightarrow> FileInfo \<Rightarrow> unit line" where
  "add_file env file =
     upd_cu (\<lambda>u.
       let file = file\<lparr>fi_mNameHash := calc_file_name_hash (cstring_of env (fi_mName file))\<rparr>;
           file = (if fi_mDir file = Null then file\<lparr>fi_mDir := cu_mDir u\<rparr> else file)
       in u\<lparr>cu_mFiles := cu_mFiles u @ [file]\<rparr>)"

definition zero_state :: LineNumbersState where
  "zero_state = \<lparr>ls_mAddress = 0, ls_mSection = 0, ls_mStatesIndexPos = 0, ls_mFile = 0, ls_mLine = 0, ls_mColumn = 0, ls_mFlags = 0,
     ls_mISA = 0, ls_mOpIndex = 0, ls_mDiscriminator = 0\<rparr>"

definition zero_file :: FileInfo where
  "zero_file = \<lparr>fi_mName = Null, fi_mDir = Null, fi_mModTime = 0, fi_mSize = 0, fi_mNameHash = 0, fi_mAreaCnt = 0\<rparr>"

text \<open>
  \<^verbatim>\<open>add_state\<close> calls itself for the artificial row; the counter of the file is then not 0, so that the call only appends the row.
\<close>

definition add_state_cu :: "LineNumbersState \<Rightarrow> CompUnit \<Rightarrow> CompUnit" where
  "add_state_cu state u =
     (let i = unat (ls_mFile state) in
      if i \<ge> length (cu_mFiles u) then u
      else
        let file = cu_mFiles u ! i;
            u' = u\<lparr>cu_mFiles := (cu_mFiles u)[i := file\<lparr>fi_mAreaCnt := fi_mAreaCnt file + 1\<rparr>]\<rparr>;
            first = zero_state\<lparr>ls_mLine := 1, ls_mFile := ls_mFile state, ls_mSection := ls_mSection state, ls_mAddress := ls_mAddress state\<rparr>;
            u' = (if fi_mAreaCnt file = 0
                  then u'\<lparr>cu_mFiles := (cu_mFiles u')[i := (cu_mFiles u' ! i)\<lparr>fi_mAreaCnt := fi_mAreaCnt (cu_mFiles u' ! i) + 1\<rparr>],
                          cu_mStates := cu_mStates u' @ [first]\<rparr>
                  else u')
        in u'\<lparr>cu_mStates := cu_mStates u' @ [state]\<rparr>)"

definition add_state :: "LineNumbersState \<Rightarrow> unit line" where
  "add_state state = upd_cu (add_state_cu state)"

section \<open>The index\<close>

definition cmp :: "'a::linorder \<Rightarrow> 'a \<Rightarrow> int \<Rightarrow> int" where
  "cmp a b k = (if a < b then -1 else if a > b then 1 else k)"

definition state_address_comparator :: "LineNumbersState \<Rightarrow> LineNumbersState \<Rightarrow> int" where
  "state_address_comparator s1 s2 =
     cmp (ls_mSection s1) (ls_mSection s2)
     (cmp (ls_mAddress s1) (ls_mAddress s2)
     (if (ls_mFlags s1 XOR ls_mFlags s2) AND LINE_EndSequence \<noteq> 0
      then (if ls_mFlags s1 AND LINE_EndSequence \<noteq> 0 then -1 else 1)
      else
        cmp (ls_mFile s1) (ls_mFile s2)
        (cmp (ls_mLine s1) (ls_mLine s2)
        (cmp (ls_mColumn s1) (ls_mColumn s2) 0))))"

definition state_text_pos_comparator :: "LineNumbersState \<Rightarrow> LineNumbersState \<Rightarrow> int" where
  "state_text_pos_comparator s1 s2 =
     cmp (ls_mFile s1) (ls_mFile s2)
     (cmp (ls_mLine s1) (ls_mLine s2)
     (cmp (ls_mColumn s1) (ls_mColumn s2)
     (cmp (ls_mSection s1) (ls_mSection s2)
     (cmp (ls_mAddress s1) (ls_mAddress s2) 0))))"

text \<open>The inner loop: rows that only differ from the row before in their address or section are removed.\<close>

definition same_row :: "LineNumbersState \<Rightarrow> LineNumbersState \<Rightarrow> bool" where
  "same_row s1 s2 \<longleftrightarrow> ls_mFile s1 = ls_mFile s2 \<and> ls_mLine s1 = ls_mLine s2 \<and> ls_mColumn s1 = ls_mColumn s2 \<and>
     ls_mFlags s1 = ls_mFlags s2 \<and> ls_mISA s1 = ls_mISA s2 \<and> ls_mOpIndex s1 = ls_mOpIndex s2 \<and>
     ls_mDiscriminator s1 = ls_mDiscriminator s2"

fun merge_rows :: "LineNumbersState list \<Rightarrow> LineNumbersState list" where
  "merge_rows (s1 # s2 # rest) = (if same_row s1 s2 then merge_rows (s1 # rest) else s1 # merge_rows (s2 # rest))"
| "merge_rows ss = ss"

fun set_positions :: "nat \<Rightarrow> nat list \<Rightarrow> LineNumbersState list \<Rightarrow> LineNumbersState list" where
  "set_positions i [] ss = ss"
| "set_positions i (k # ks) ss = set_positions (i + 1) ks (ss[k := (ss ! k)\<lparr>ls_mStatesIndexPos := i\<rparr>])"

definition FILE_HASH_SIZE :: nat where
  "FILE_HASH_SIZE = 251"

fun hash_files :: "nat \<Rightarrow> nat \<Rightarrow> FileInfo list \<Rightarrow> (nat \<times> nat) list list \<Rightarrow> (nat \<times> nat) list list" where
  "hash_files unit i [] H = H"
| "hash_files unit i (f # fs) H =
     (let h = unat (fi_mNameHash f) mod FILE_HASH_SIZE
      in hash_files unit (i + 1) fs (H[h := (unit, i) # H ! h]))"

definition compute_reverse_lookup_indices :: "SortEnv \<Rightarrow> unit line" where
  "compute_reverse_lookup_indices senv =
     modify (\<lambda>s.
       let c = d_client s; u = lc_unit c;
           states = merge_rows (qsort_states senv (cu_mStates u));
           index = qsort_index senv states [0..<length states];
           H = (case lc_mFileInfoHash c of None \<Rightarrow> replicate FILE_HASH_SIZE [] | Some H \<Rightarrow> H)
       in s\<lparr>d_client := c\<lparr>lc_unit := u\<lparr>cu_mStates := set_positions 0 index states, cu_mStatesIndex := index\<rparr>,
            lc_mFileInfoHash := Some (hash_files (cu_desc u) 0 (cu_mFiles u) H)\<rparr>\<rparr>)"

section \<open>DWARF 1\<close>

fun v1_loop :: "nat \<Rightarrow> nat \<Rightarrow> u64 \<Rightarrow> LineNumbersState \<Rightarrow> u32 \<Rightarrow> unit line" where
  "v1_loop 0 end addr state line = fault Out_Of_Fuel"
| "v1_loop (Suc fuel) end addr state line =
     bnd dio_GetPos (\<lambda>pos.
     if pos < end then
       bnd dio_ReadU4 (\<lambda>l.
       bnd dio_ReadU2 (\<lambda>col.
       let col = (if col = 0xffff then 0 else col) in
       bnd dio_ReadU4 (\<lambda>a.
       let state = state\<lparr>ls_mLine := (if l = 0 then line + 1 else l), ls_mColumn := (if l = 0 then 0 else col),
             ls_mAddress := addr + ucast a\<rparr>
       in seq (add_state state) (v1_loop fuel end addr state (ls_mLine state)))))
     else ret ())"

definition load_line_numbers_v1 :: "DioEnv \<Rightarrow> u32 \<Rightarrow> unit line" where
  "load_line_numbers_v1 env unit_size =
     bnd (dio_ReadAddress env) (\<lambda>(addr, sec).
     bnd the_unit (\<lambda>u.
     bnd (look data_fuel) (\<lambda>fuel.
     v1_loop fuel ((cu_mLineInfoOffs u + unat unit_size) mod U8_MAX1) addr
       (zero_state\<lparr>ls_mSection := (case sec of None \<Rightarrow> 0 | Some r \<Rightarrow> word_of_nat (snd r))\<rparr>) 0)))"

section \<open>DWARF 2 to 4: the header\<close>

record LineHeader =
  lh_min_instruction_length :: byte
  lh_max_ops_per_instruction :: byte
  lh_is_stmt_default :: bool
  lh_line_base :: byte
  lh_line_range :: byte
  lh_opcode_base :: byte
  lh_opcode_size :: "byte list"

fun dirs_loop :: "nat \<Rightarrow> unit line" where
  "dirs_loop 0 = fault Out_Of_Fuel"
| "dirs_loop (Suc fuel) =
     bnd dio_ReadString (\<lambda>Name. if Name = Null then ret () else seq (add_dir Name) (dirs_loop fuel))"

text \<open>The numbers behind the name of a file.\<close>

definition read_file :: "DioEnv \<Rightarrow> data_ptr \<Rightarrow> unit line" where
  "read_file env Name =
     bnd dio_ReadULEB128 (\<lambda>dir.
     bnd the_unit (\<lambda>u.
     bnd dio_ReadULEB128 (\<lambda>ModTime.
     bnd dio_ReadULEB128 (\<lambda>Size.
     add_file env (zero_file\<lparr>fi_mName := Name, fi_mModTime := ModTime, fi_mSize := Size,
       fi_mDir := (if 0 < dir \<and> unat dir \<le> length (cu_mDirs u) then cu_mDirs u ! (unat dir - 1) else Null)\<rparr>)))))"

fun files_loop :: "DioEnv \<Rightarrow> nat \<Rightarrow> unit line" where
  "files_loop env 0 = fault Out_Of_Fuel"
| "files_loop env (Suc fuel) =
     bnd dio_ReadString (\<lambda>Name. if Name = Null then ret () else seq (read_file env Name) (files_loop env fuel))"

definition read_line_header :: "DioEnv \<Rightarrow> bool \<Rightarrow> LineHeader line" where
  "read_line_header env dwarf64 =
     bnd dio_ReadU2 (\<lambda>version.
     if version < 2 \<or> version > 4 then str_raise ERR_INV_DWARF ''Invalid line number info version''
     else
       bnd (if dwarf64 then dio_ReadU8 else bnd dio_ReadU4 (\<lambda>x. ret (ucast x))) (\<lambda>header_size.
       bnd dio_GetPos (\<lambda>header_pos.
       bnd dio_ReadU1 (\<lambda>min_instruction_length.
       bnd (if version \<ge> 4 then dio_ReadU1 else ret 1) (\<lambda>max_ops_per_instruction.
       bnd dio_ReadU1 (\<lambda>is_stmt_default.
       bnd dio_ReadU1 (\<lambda>line_base.
       bnd dio_ReadU1 (\<lambda>line_range.
       bnd dio_ReadU1 (\<lambda>opcode_base.
       bnd (dio_Read (unat (ucast opcode_base - 1 :: u32))) (\<lambda>sizes.
       if length sizes > 255 then fault Undefined_Behaviour else
       bnd (look data_fuel) (\<lambda>fuel.
       seq (dirs_loop fuel)
       (seq (files_loop env fuel)
       (bnd dio_GetPos (\<lambda>pos.
       let header_end = (header_pos + unat header_size) mod U8_MAX1 in
       if header_end \<noteq> pos \<and> \<not> (dwarf64 \<and> header_end = (pos + 12) mod U8_MAX1)
       then str_raise ERR_INV_DWARF ''Invalid line info header''
       else ret \<lparr>lh_min_instruction_length = min_instruction_length, lh_max_ops_per_instruction = max_ops_per_instruction,
         lh_is_stmt_default = (is_stmt_default \<noteq> 0), lh_line_base = line_base, lh_line_range = line_range,
         lh_opcode_base = opcode_base, lh_opcode_size = 0 # sizes @ replicate (255 - length sizes) 0\<rparr>))))))))))))))"

section \<open>DWARF 2 to 4: the program\<close>

abbreviation DW_LNS_copy :: byte where "DW_LNS_copy \<equiv> 1"
abbreviation DW_LNS_advance_pc :: byte where "DW_LNS_advance_pc \<equiv> 2"
abbreviation DW_LNS_advance_line :: byte where "DW_LNS_advance_line \<equiv> 3"
abbreviation DW_LNS_set_file :: byte where "DW_LNS_set_file \<equiv> 4"
abbreviation DW_LNS_set_column :: byte where "DW_LNS_set_column \<equiv> 5"
abbreviation DW_LNS_negate_stmt :: byte where "DW_LNS_negate_stmt \<equiv> 6"
abbreviation DW_LNS_set_basic_block :: byte where "DW_LNS_set_basic_block \<equiv> 7"
abbreviation DW_LNS_const_add_pc :: byte where "DW_LNS_const_add_pc \<equiv> 8"
abbreviation DW_LNS_fixed_advance_pc :: byte where "DW_LNS_fixed_advance_pc \<equiv> 9"
abbreviation DW_LNS_set_prologue_end :: byte where "DW_LNS_set_prologue_end \<equiv> 0xa"
abbreviation DW_LNS_set_epilogue_begin :: byte where "DW_LNS_set_epilogue_begin \<equiv> 0xb"
abbreviation DW_LNS_set_isa :: byte where "DW_LNS_set_isa \<equiv> 0xc"
abbreviation DW_LNE_end_sequence :: byte where "DW_LNE_end_sequence \<equiv> 1"
abbreviation DW_LNE_set_address :: byte where "DW_LNE_set_address \<equiv> 2"
abbreviation DW_LNE_define_file :: byte where "DW_LNE_define_file \<equiv> 3"
abbreviation DW_LNE_set_discriminator :: byte where "DW_LNE_set_discriminator \<equiv> 4"

definition line_start :: "LineHeader \<Rightarrow> LineNumbersState" where
  "line_start h = zero_state\<lparr>ls_mFile := 1, ls_mLine := 1, ls_mFlags := (if lh_is_stmt_default h then LINE_IsStmt else 0)\<rparr>"

definition clear_flags :: "LineNumbersState \<Rightarrow> LineNumbersState" where
  "clear_flags st = st\<lparr>ls_mFlags := ls_mFlags st AND NOT (LINE_BasicBlock OR LINE_PrologueEnd OR LINE_EpilogueBegin)\<rparr>"

text \<open>Divisions are by unsigned numbers that the header gives; a division by 0 is not defined.\<close>

definition special_opcode :: "LineHeader \<Rightarrow> byte \<Rightarrow> LineNumbersState \<Rightarrow> LineNumbersState line" where
  "special_opcode h opcode state =
     (let adj = unat opcode - unat (lh_opcode_base h); range = unat (lh_line_range h); ops = unat (lh_max_ops_per_instruction h)
      in if range = 0 \<or> ops = 0 then fault Undefined_Behaviour
         else
           let op_advance = adj div range;
               k = unat (ls_mOpIndex state) + op_advance;
               state = state\<lparr>ls_mLine := ls_mLine state + word_of_int (int (adj mod range) + sint (lh_line_base h)),
                 ls_mAddress := ls_mAddress state + word_of_nat (k div ops * unat (lh_min_instruction_length h)),
                 ls_mOpIndex := word_of_nat (k mod ops)\<rparr>
           in seq (add_state state) (ret ((clear_flags state)\<lparr>ls_mDiscriminator := 0\<rparr>)))"

text \<open>The \<^verbatim>\<open>switch\<close> over the extended opcodes, and what is around it.\<close>

definition extended_body :: "DioEnv \<Rightarrow> LineHeader \<Rightarrow> u32 \<Rightarrow> byte \<Rightarrow> LineNumbersState \<Rightarrow> LineNumbersState line" where
  "extended_body env h op_size op state =
     (if op = DW_LNE_define_file then bnd dio_ReadString (\<lambda>Name. seq (read_file env Name) (ret state))
      else if op = DW_LNE_end_sequence then
        seq (add_state (state\<lparr>ls_mFlags := ls_mFlags state OR LINE_EndSequence\<rparr>)) (ret (line_start h))
      else if op = DW_LNE_set_address then
        bnd (dio_ReadAddress env) (\<lambda>(addr, sec).
        ret (state\<lparr>ls_mAddress := addr, ls_mSection := (case sec of None \<Rightarrow> 0 | Some r \<Rightarrow> word_of_nat (snd r))\<rparr>))
      else if op = DW_LNE_set_discriminator then
        bnd dio_ReadULEB128 (\<lambda>x. ret (state\<lparr>ls_mDiscriminator := ucast x\<rparr>))
      else seq (dio_Skip (ucast (op_size - 1))) (ret state))"

definition extended_opcode :: "DioEnv \<Rightarrow> LineHeader \<Rightarrow> LineNumbersState \<Rightarrow> LineNumbersState line" where
  "extended_opcode env h state =
     bnd dio_ReadULEB128 (\<lambda>op_size.
     bnd dio_GetPos (\<lambda>op_pos.
     bnd dio_ReadU1 (\<lambda>op.
     bnd (extended_body env h op_size op state) (\<lambda>state.
     bnd dio_GetPos (\<lambda>pos.
     if pos \<noteq> (op_pos + unat op_size) mod U8_MAX1 then str_raise ERR_INV_DWARF ''Invalid line info op size'' else ret state)))))"

definition standard_opcode :: "LineHeader \<Rightarrow> byte \<Rightarrow> LineNumbersState \<Rightarrow> LineNumbersState line" where
  "standard_opcode h opcode state =
     (let min = lh_min_instruction_length h in
      if opcode = DW_LNS_copy then seq (add_state state) (ret (clear_flags state))
      else if opcode = DW_LNS_advance_pc then
        bnd dio_ReadU8LEB128 (\<lambda>x. ret (state\<lparr>ls_mAddress := ls_mAddress state + x * ucast min\<rparr>))
      else if opcode = DW_LNS_advance_line then
        bnd dio_ReadSLEB128 (\<lambda>x. ret (state\<lparr>ls_mLine := ls_mLine state + x\<rparr>))
      else if opcode = DW_LNS_set_file then bnd dio_ReadULEB128 (\<lambda>x. ret (state\<lparr>ls_mFile := x\<rparr>))
      else if opcode = DW_LNS_set_column then bnd dio_ReadULEB128 (\<lambda>x. ret (state\<lparr>ls_mColumn := ucast x\<rparr>))
      else if opcode = DW_LNS_negate_stmt then ret (state\<lparr>ls_mFlags := ls_mFlags state XOR LINE_IsStmt\<rparr>)
      else if opcode = DW_LNS_set_basic_block then ret (state\<lparr>ls_mFlags := ls_mFlags state OR LINE_BasicBlock\<rparr>)
      else if opcode = DW_LNS_const_add_pc then
        (if lh_line_range h = 0 then fault Undefined_Behaviour
         else ret (state\<lparr>ls_mAddress := ls_mAddress state +
           word_of_nat ((255 - unat (lh_opcode_base h)) div unat (lh_line_range h) * unat min)\<rparr>))
      else if opcode = DW_LNS_fixed_advance_pc then
        bnd dio_ReadU2 (\<lambda>x. ret (state\<lparr>ls_mAddress := ls_mAddress state + ucast x\<rparr>))
      else if opcode = DW_LNS_set_prologue_end then ret (state\<lparr>ls_mFlags := ls_mFlags state OR LINE_PrologueEnd\<rparr>)
      else if opcode = DW_LNS_set_epilogue_begin then ret (state\<lparr>ls_mFlags := ls_mFlags state OR LINE_EpilogueBegin\<rparr>)
      else if opcode = DW_LNS_set_isa then bnd dio_ReadULEB128 (\<lambda>x. ret (state\<lparr>ls_mISA := ucast x\<rparr>))
      else str_raise ERR_INV_DWARF ''Invalid line info op code'')"

definition run_opcode :: "DioEnv \<Rightarrow> LineHeader \<Rightarrow> LineNumbersState \<Rightarrow> LineNumbersState line" where
  "run_opcode env h state =
     bnd dio_ReadU1 (\<lambda>opcode.
     if opcode \<ge> lh_opcode_base h then special_opcode h opcode state
     else if opcode = 0 then extended_opcode env h state
     else standard_opcode h opcode state)"

fun program_loop :: "DioEnv \<Rightarrow> LineHeader \<Rightarrow> nat \<Rightarrow> nat \<Rightarrow> LineNumbersState \<Rightarrow> unit line" where
  "program_loop env h end 0 state = fault Out_Of_Fuel"
| "program_loop env h end (Suc fuel) state =
     bnd dio_GetPos (\<lambda>pos.
     if pos < end then bnd (run_opcode env h state) (program_loop env h end fuel)
     else ret ())"

definition load_line_numbers_v2 :: "DioEnv \<Rightarrow> u64 \<Rightarrow> bool \<Rightarrow> unit line" where
  "load_line_numbers_v2 env unit_size dwarf64 =
     bnd (read_line_header env dwarf64) (\<lambda>h.
     bnd the_unit (\<lambda>u.
     bnd (look data_fuel) (\<lambda>fuel.
     program_loop env h ((cu_mLineInfoOffs u + unat unit_size) mod U8_MAX1) fuel (line_start h))))"

section \<open>Loading a unit\<close>

definition free_unit_cache :: "unit line" where
  "free_unit_cache = upd_cu (\<lambda>u. u\<lparr>cu_mFiles := [], cu_mDirs := [], cu_mStates := [], cu_mStatesIndex := []\<rparr>)"

text \<open>The body of the trap, up to \<^verbatim>\<open>clear_trap\<close>.\<close>

definition load_lines_body :: "DioEnv \<Rightarrow> SortEnv \<Rightarrow> DIO_UnitDescriptor \<Rightarrow> unit line" where
  "load_lines_body env senv desc =
     bnd the_unit (\<lambda>u.
     seq (add_file env (zero_file\<lparr>fi_mDir := cu_mDir u, fi_mName := cu_name u\<rparr>))
     (bnd dio_ReadU4 (\<lambda>x.
     seq (if mVersion desc \<le> 1 then load_line_numbers_v1 env x
          else if x = 0xffffffff then bnd dio_ReadU8 (\<lambda>n. load_line_numbers_v2 env (n + 12) True)
          else load_line_numbers_v2 env (ucast x + 4) False)
     (seq dio_ExitSection
     (seq (compute_reverse_lookup_indices senv)
     (upd_cu (\<lambda>u. u\<lparr>cu_mLineInfoLoaded := True\<rparr>)))))))"

definition load_line_numbers :: "DioEnv \<Rightarrow> SortEnv \<Rightarrow> unit line" where
  "load_line_numbers env senv =
     bnd (look d_client) (\<lambda>c.
     bnd (look d_units) (\<lambda>us.
     case us (cu_desc (lc_unit c)) of
       None \<Rightarrow> fault Undefined_Behaviour
     | Some desc \<Rightarrow>
         (case (if mVersion desc \<le> 1 then lc_mDebugLineV1 c else lc_mDebugLineV2 c) of
            None \<Rightarrow> ret ()
          | Some sec \<Rightarrow>
              if cu_mLineInfoLoaded (lc_unit c) then ret ()
              else case elf_load env sec of
                Some e \<Rightarrow> raise e
              | None \<Rightarrow>
                  seq (dio_EnterSection env (Some (cu_desc (lc_unit c))) sec (cu_mLineInfoOffs (lc_unit c)))
                  (trap (load_lines_body env senv desc)
                     (\<lambda>e. seq dio_ExitSection (seq free_unit_cache (raise e)))))))"

end
