(* ===== verification/LineProgram.thy ===== *)
theory LineProgram
  imports LineNumbers
begin

text \<open>
  Line number programs: an encoding of the instructions, a reference semantics of them, and that the loader computes it.
\<close>

section \<open>States\<close>

definition set_cu :: "LineClient DIO \<Rightarrow> CompUnit \<Rightarrow> LineClient DIO" where
  "set_cu s u = s\<lparr>d_client := (d_client s)\<lparr>lc_unit := u\<rparr>\<rparr>"

lemma set_cu_simps [simp]:
  "sDataPos (set_cu s u) = sDataPos s" "sDataLen (set_cu s u) = sDataLen s" "sData (set_cu s u) = sData s"
  "sBigEndian (set_cu s u) = sBigEndian s" "sSection (set_cu s u) = sSection s" "sAddressSize (set_cu s u) = sAddressSize s"
  "sUnit (set_cu s u) = sUnit s" "d_units (set_cu s u) = d_units s" "d_caches (set_cu s u) = d_caches s"
  "adv (set_cu s u) n = set_cu (adv s n) u" "lc_unit (d_client (set_cu s u)) = u" "set_cu (set_cu s u) v = set_cu s v"
  "data_fuel (set_cu s u) = data_fuel s"
  by (simp_all add: set_cu_def adv_def data_fuel_def)

lemma dio_at_set_cu [simp]: "dio_at (set_cu s u) bs = dio_at s bs"
  by (simp add: dio_at_def)

lemma set_cu_self: "set_cu s (lc_unit (d_client s)) = s"
  by (simp add: set_cu_def)

lemma run_cu [act_simps]:
  "upd_cu f (set_cu s u) = (Inr (), set_cu s (f u))" "the_unit (set_cu s u) = (Inr u, set_cu s u)"
  by (simp_all add: upd_cu_def the_unit_def act_simps set_cu_def)

text \<open>The readers on such states.\<close>

lemma cu_ReadU1: "dio_at s (b # bs) \<Longrightarrow> dio_ReadU1 (set_cu s u) = (Inr b, set_cu (adv s 1) u)"
  using run_ReadU1 [of "set_cu s u" b bs] by simp

lemma cu_ReadU2: "dio_at s (enc (sBigEndian s) 2 x @ bs) \<Longrightarrow> dio_ReadU2 (set_cu s u) = (Inr x, set_cu (adv s 2) u)"
  using run_ReadU2 [of "set_cu s u" x bs] by simp

lemma cu_ReadU4: "dio_at s (enc (sBigEndian s) 4 x @ bs) \<Longrightarrow> dio_ReadU4 (set_cu s u) = (Inr x, set_cu (adv s 4) u)"
  using run_ReadU4 [of "set_cu s u" x bs] by simp

lemma cu_ReadU8: "dio_at s (enc (sBigEndian s) 8 x @ bs) \<Longrightarrow> dio_ReadU8 (set_cu s u) = (Inr x, set_cu (adv s 8) u)"
  using run_ReadU8 [of "set_cu s u" x bs] by simp

lemma cu_ReadULEB128:
  "dio_at s (uleb (unat x) @ bs) \<Longrightarrow> dio_ReadULEB128 (set_cu s u) = (Inr x, set_cu (adv s (length (uleb (unat x)))) u)"
  using run_ReadULEB128 [of "set_cu s u" x bs] by simp

lemma cu_ReadU8LEB128:
  "dio_at s (uleb (unat x) @ bs) \<Longrightarrow> dio_ReadU8LEB128 (set_cu s u) = (Inr x, set_cu (adv s (length (uleb (unat x)))) u)"
  using run_ReadU8LEB128 [of "set_cu s u" x bs] by simp

lemma cu_ReadSLEB128:
  "dio_at s (sleb (sint x) @ bs) \<Longrightarrow> dio_ReadSLEB128 (set_cu s u) = (Inr x, set_cu (adv s (length (sleb (sint x)))) u)"
  using run_ReadSLEB128 [of "set_cu s u" x bs] by simp

lemma cu_GetPos: "dio_GetPos (set_cu s u) = (Inr (sDataPos s), set_cu s u)"
  by (simp add: dio_GetPos_def act_simps)

lemma string_loop_run:
  "dio_at s (str @ 0 # bs) \<Longrightarrow> 0 \<notin> set str \<Longrightarrow> length str < fuel \<Longrightarrow> n + length str < 2 ^ 32 \<Longrightarrow>
   string_loop fuel n s = (Inr (n + length str), adv s (length str + 1))"
proof (induction str arbitrary: s n fuel)
  case Nil
  then show ?case using run_ReadU1 [of s 0 bs] by (cases fuel) (simp_all add: act_simps)
next
  case (Cons b str)
  then obtain k where k: "fuel = Suc k" by (cases fuel) auto
  have "string_loop k (n + 1) (adv s 1) = (Inr (n + 1 + length str), adv (adv s 1) (length str + 1))"
    using Cons.prems k dio_at_Cons [of s b "str @ 0 # bs"] by (intro Cons.IH) auto
  then show ?case using Cons.prems run_ReadU1 [of s b "str @ 0 # bs"] k by (auto simp: act_simps)
qed

lemma cu_ReadString:
  assumes at: "dio_at s (str @ 0 # bs)" and str: "0 \<notin> set str" "length str < 2 ^ 32" and r: "sSection s = Some r"
  shows "dio_ReadString (set_cu s u) =
     (Inr (if str = [] then Null else Data r (int (sDataPos s))), set_cu (adv s (length str + 1)) u)"
proof -
  have "length str < data_fuel s" using dio_at_room [OF at] by (simp add: data_fuel_def)
  then have "string_loop (data_fuel s) 0 (set_cu s u) = (Inr (length str), set_cu (adv s (length str + 1)) u)"
    using string_loop_run [of "set_cu s u" str bs "data_fuel s" 0] at str by simp
  then show ?thesis using r by (simp add: dio_ReadString_def dio_GetDataPtr_def act_simps)
qed

section \<open>Instructions and their encoding\<close>

text \<open>A file in a program or a header: name, directory, time and size.\<close>

type_synonym file_spec = "cstring \<times> u32 \<times> u32 \<times> u32"

datatype line_op =
    L_special byte | L_copy | L_advance_pc u64 | L_advance_line u32 | L_set_file u32 | L_set_column u32 | L_negate_stmt
  | L_set_basic_block | L_const_add_pc | L_fixed_advance_pc u16 | L_set_prologue_end | L_set_epilogue_begin | L_set_isa u32
  | L_end_sequence | L_set_address u64 | L_define_file file_spec | L_set_discriminator u32 | L_unknown byte "byte list"

fun file_bytes :: "file_spec \<Rightarrow> byte list" where
  "file_bytes (nm, dir, time, sz) = nm @ 0 # uleb (unat dir) @ uleb (unat time) @ uleb (unat sz)"

definition extended :: "byte list \<Rightarrow> byte list" where
  "extended body = 0 # uleb (length body) @ body"

fun op_bytes :: "bool \<Rightarrow> nat \<Rightarrow> line_op \<Rightarrow> byte list" where
  "op_bytes big asz (L_special oc) = [oc]"
| "op_bytes big asz L_copy = [DW_LNS_copy]"
| "op_bytes big asz (L_advance_pc x) = DW_LNS_advance_pc # uleb (unat x)"
| "op_bytes big asz (L_advance_line x) = DW_LNS_advance_line # sleb (sint x)"
| "op_bytes big asz (L_set_file x) = DW_LNS_set_file # uleb (unat x)"
| "op_bytes big asz (L_set_column x) = DW_LNS_set_column # uleb (unat x)"
| "op_bytes big asz L_negate_stmt = [DW_LNS_negate_stmt]"
| "op_bytes big asz L_set_basic_block = [DW_LNS_set_basic_block]"
| "op_bytes big asz L_const_add_pc = [DW_LNS_const_add_pc]"
| "op_bytes big asz (L_fixed_advance_pc x) = DW_LNS_fixed_advance_pc # enc big 2 x"
| "op_bytes big asz L_set_prologue_end = [DW_LNS_set_prologue_end]"
| "op_bytes big asz L_set_epilogue_begin = [DW_LNS_set_epilogue_begin]"
| "op_bytes big asz (L_set_isa x) = DW_LNS_set_isa # uleb (unat x)"
| "op_bytes big asz L_end_sequence = extended [DW_LNE_end_sequence]"
| "op_bytes big asz (L_set_address x) = extended (DW_LNE_set_address # enc big asz x)"
| "op_bytes big asz (L_define_file f) = extended (DW_LNE_define_file # file_bytes f)"
| "op_bytes big asz (L_set_discriminator x) = extended (DW_LNE_set_discriminator # uleb (unat x))"
| "op_bytes big asz (L_unknown code bs) = extended (code # bs)"

section \<open>Reference semantics\<close>

text \<open>The row that an instruction adds to the table, before the registers change again.\<close>

fun op_row :: "LineHeader \<Rightarrow> line_op \<Rightarrow> LineNumbersState \<Rightarrow> LineNumbersState option" where
  "op_row h (L_special oc) st =
     (let adj = unat oc - unat (lh_opcode_base h);
          k = unat (ls_mOpIndex st) + adj div unat (lh_line_range h)
      in Some (st\<lparr>ls_mLine := ls_mLine st + word_of_int (int (adj mod unat (lh_line_range h)) + sint (lh_line_base h)),
           ls_mAddress := ls_mAddress st + word_of_nat (k div unat (lh_max_ops_per_instruction h) * unat (lh_min_instruction_length h)),
           ls_mOpIndex := word_of_nat (k mod unat (lh_max_ops_per_instruction h))\<rparr>))"
| "op_row h L_copy st = Some st"
| "op_row h L_end_sequence st = Some (st\<lparr>ls_mFlags := ls_mFlags st OR LINE_EndSequence\<rparr>)"
| "op_row h _ st = None"

fun op_next :: "LineHeader \<Rightarrow> line_op \<Rightarrow> LineNumbersState \<Rightarrow> LineNumbersState" where
  "op_next h (L_special oc) st = (clear_flags (the (op_row h (L_special oc) st)))\<lparr>ls_mDiscriminator := 0\<rparr>"
| "op_next h L_copy st = clear_flags st"
| "op_next h (L_advance_pc x) st = st\<lparr>ls_mAddress := ls_mAddress st + x * ucast (lh_min_instruction_length h)\<rparr>"
| "op_next h (L_advance_line x) st = st\<lparr>ls_mLine := ls_mLine st + x\<rparr>"
| "op_next h (L_set_file x) st = st\<lparr>ls_mFile := x\<rparr>"
| "op_next h (L_set_column x) st = st\<lparr>ls_mColumn := ucast x\<rparr>"
| "op_next h L_negate_stmt st = st\<lparr>ls_mFlags := ls_mFlags st XOR LINE_IsStmt\<rparr>"
| "op_next h L_set_basic_block st = st\<lparr>ls_mFlags := ls_mFlags st OR LINE_BasicBlock\<rparr>"
| "op_next h L_const_add_pc st = st\<lparr>ls_mAddress := ls_mAddress st +
     word_of_nat ((255 - unat (lh_opcode_base h)) div unat (lh_line_range h) * unat (lh_min_instruction_length h))\<rparr>"
| "op_next h (L_fixed_advance_pc x) st = st\<lparr>ls_mAddress := ls_mAddress st + ucast x\<rparr>"
| "op_next h L_set_prologue_end st = st\<lparr>ls_mFlags := ls_mFlags st OR LINE_PrologueEnd\<rparr>"
| "op_next h L_set_epilogue_begin st = st\<lparr>ls_mFlags := ls_mFlags st OR LINE_EpilogueBegin\<rparr>"
| "op_next h (L_set_isa x) st = st\<lparr>ls_mISA := ucast x\<rparr>"
| "op_next h L_end_sequence st = line_start h"
| "op_next h (L_set_address x) st = st\<lparr>ls_mAddress := x, ls_mSection := 0\<rparr>"
| "op_next h (L_set_discriminator x) st = st\<lparr>ls_mDiscriminator := ucast x\<rparr>"
| "op_next h (L_define_file f) st = st"
| "op_next h (L_unknown code bs) st = st"

definition add_file_cu :: "DioEnv \<Rightarrow> FileInfo \<Rightarrow> CompUnit \<Rightarrow> CompUnit" where
  "add_file_cu env file u =
     (let file = file\<lparr>fi_mNameHash := calc_file_name_hash (cstring_of env (fi_mName file))\<rparr>;
          file = (if fi_mDir file = Null then file\<lparr>fi_mDir := cu_mDir u\<rparr> else file)
      in u\<lparr>cu_mFiles := cu_mFiles u @ [file]\<rparr>)"

text \<open>The file with the given numbers whose name is at \<open>p\<close>.\<close>

fun file_of :: "data_ptr \<Rightarrow> file_spec \<Rightarrow> CompUnit \<Rightarrow> FileInfo" where
  "file_of p (nm, dir, time, sz) u = zero_file\<lparr>fi_mName := p, fi_mModTime := time, fi_mSize := sz,
     fi_mDir := (if 0 < dir \<and> unat dir \<le> length (cu_mDirs u) then cu_mDirs u ! (unat dir - 1) else Null)\<rparr>"

text \<open>The unit behind an instruction at \<open>pos\<close> of section \<open>r\<close>.\<close>

definition op_unit :: "DioEnv \<Rightarrow> LineHeader \<Rightarrow> sec_ref \<Rightarrow> nat \<Rightarrow> line_op \<Rightarrow> LineNumbersState \<Rightarrow> CompUnit \<Rightarrow> CompUnit" where
  "op_unit env h r pos op st u =
     (case op of L_define_file f \<Rightarrow>
        add_file_cu env (file_of (Data r (int (pos + length (uleb (length (file_bytes f) + 1)) + 2))) f u) u
      | _ \<Rightarrow> (case op_row h op st of Some row \<Rightarrow> add_state_cu row u | None \<Rightarrow> u))"

fun file_ok :: "file_spec \<Rightarrow> bool" where
  "file_ok (nm, dir, time, sz) \<longleftrightarrow> nm \<noteq> [] \<and> 0 \<notin> set nm \<and> length nm < 2 ^ 31"

fun op_ok :: "LineHeader \<Rightarrow> nat \<Rightarrow> line_op \<Rightarrow> bool" where
  "op_ok h asz (L_special oc) \<longleftrightarrow> lh_opcode_base h \<le> oc \<and> lh_line_range h \<noteq> 0 \<and> lh_max_ops_per_instruction h \<noteq> 0"
| "op_ok h asz (L_define_file f) \<longleftrightarrow> 0 < lh_opcode_base h \<and> file_ok f"
| "op_ok h asz (L_set_address x) \<longleftrightarrow> 0 < lh_opcode_base h \<and> fits asz x"
| "op_ok h asz (L_unknown code bs) \<longleftrightarrow> 0 < lh_opcode_base h \<and> code \<notin> {1, 2, 3, 4} \<and> length bs < 2 ^ 31"
| "op_ok h asz L_const_add_pc \<longleftrightarrow> DW_LNS_const_add_pc < lh_opcode_base h \<and> lh_line_range h \<noteq> 0"
| "op_ok h asz op \<longleftrightarrow> hd (op_bytes True asz op) < lh_opcode_base h"

section \<open>One instruction\<close>

text \<open>The reader stands in a section that is not relocated.\<close>

definition line_ok :: "DioEnv \<Rightarrow> sec_ref \<Rightarrow> nat \<Rightarrow> bool \<Rightarrow> LineClient DIO \<Rightarrow> bool" where
  "line_ok env r asz big s \<longleftrightarrow> sSection s = Some r \<and> sAddressSize s = asz \<and> sBigEndian s = big \<and>
     (\<forall>pos n x. drl_relocate env r pos n x = Inr (x, None))"

lemma line_ok_simps [simp]:
  "line_ok env r asz big (adv s n) = line_ok env r asz big s" "line_ok env r asz big (set_cu s u) = line_ok env r asz big s"
  by (simp_all add: line_ok_def)

lemma run_read_file:
  assumes "file_ok (nm, dir, time, sz)" "dio_at s (uleb (unat dir) @ uleb (unat time) @ uleb (unat sz) @ bs)"
  shows "read_file env p (set_cu s u) = (Inr (), set_cu (adv s (length (uleb (unat dir)) + length (uleb (unat time)) + length (uleb (unat sz))))
     (add_file_cu env (file_of p (nm, dir, time, sz) u) u))"
proof -
  let ?s1 = "adv s (length (uleb (unat dir)))" and ?s2 = "adv s (length (uleb (unat dir)) + length (uleb (unat time)))"
  have at1: "dio_at ?s1 (uleb (unat time) @ uleb (unat sz) @ bs)" using dio_at_append(2) [OF assms(2)] .
  have at2: "dio_at ?s2 (uleb (unat sz) @ bs)" using dio_at_append(2) [OF at1] by simp
  show ?thesis
    using cu_ReadULEB128 [OF assms(2), of u] cu_ReadULEB128 [OF at1, of u] cu_ReadULEB128 [OF at2, of u]
    by (simp add: read_file_def act_simps add_file_def add_file_cu_def Let_def)
qed

lemma unat_u32: "n < 2 ^ 32 \<Longrightarrow> unat (word_of_nat n :: u32) = n"
  by (simp add: unat_of_nat)

lemma ucast_u32_u64: "n < 2 ^ 32 \<Longrightarrow> (ucast (word_of_nat n :: u32) :: u64) = word_of_nat n"
  by (simp add: word_unat_eq_iff unsigned_ucast_eq unat_of_nat take_bit_nat_eq_self)

lemma run_extended:
  fixes u u' :: CompUnit
  assumes at: "dio_at s (uleb (length (code # p)) @ code # p @ bs)" and len: "length p < 2 ^ 32 - 1"
    and body: "extended_body env h (word_of_nat (length (code # p))) code st (set_cu (adv s (length (uleb (length (code # p))) + 1)) u) =
      (Inr st', set_cu (adv s (length (uleb (length (code # p))) + 1 + length p)) u')"
  shows "extended_opcode env h st (set_cu s u) = (Inr st', set_cu (adv s (length (uleb (length (code # p))) + 1 + length p)) u')"
proof -
  let ?n = "length (code # p)"
  let ?x = "word_of_nat ?n :: u32" and ?s1 = "adv s (length (uleb ?n))"
  have x: "unat ?x = ?n" using len by (intro unat_u32) simp
  have r1: "dio_ReadULEB128 (set_cu s u) = (Inr ?x, set_cu ?s1 u)" using cu_ReadULEB128 [of s ?x] at x by simp
  have at1: "dio_at ?s1 (code # p @ bs)" using dio_at_append(2) [OF at] .
  have r2: "dio_ReadU1 (set_cu ?s1 u) = (Inr code, set_cu (adv s (length (uleb ?n) + 1)) u)" using cu_ReadU1 [OF at1] by simp
  have "sDataPos s + length (uleb ?n) + ?n < U8_MAX1" using dio_at_room [OF at] by simp
  then show ?thesis using r1 r2 body x by (simp add: extended_opcode_def act_simps cu_GetPos)
qed

lemma run_special:
  assumes "op_ok h asz (L_special oc)" "dio_at s (oc # bs)"
  shows "run_opcode env h st (set_cu s u) =
     (Inr (op_next h (L_special oc) st), set_cu (adv s 1) (op_unit env h r pos (L_special oc) st u))"
proof -
  have "unat (lh_line_range h) \<noteq> 0" "unat (lh_max_ops_per_instruction h) \<noteq> 0" using assms(1) by (simp_all add: unat_eq_zero)
  with assms(1) cu_ReadU1 [OF assms(2), of u] show ?thesis
    by (simp add: run_opcode_def act_simps special_opcode_def add_state_def op_unit_def Let_def)
qed

definition standard_op :: "line_op \<Rightarrow> bool" where
  "standard_op op \<longleftrightarrow> (case op of L_special _ \<Rightarrow> False | L_end_sequence \<Rightarrow> False | L_set_address _ \<Rightarrow> False | L_define_file _ \<Rightarrow> False
     | L_set_discriminator _ \<Rightarrow> False | L_unknown _ _ \<Rightarrow> False | _ \<Rightarrow> True)"

lemma run_standard:
  assumes op: "standard_op op" and ok: "op_ok h asz op" and at: "dio_at s (op_bytes (sBigEndian s) asz op @ bs)"
  shows "run_opcode env h st (set_cu s u) =
     (Inr (op_next h op st), set_cu (adv s (length (op_bytes (sBigEndian s) asz op))) (op_unit env h r pos op st u))"
proof -
  obtain oc ps where b: "op_bytes (sBigEndian s) asz op = oc # ps" "oc < lh_opcode_base h" "oc \<noteq> 0"
    using op ok by (cases op) (auto simp: standard_op_def)
  have at0: "dio_at s (oc # ps @ bs)" and at1: "dio_at (adv s 1) (ps @ bs)"
    using at dio_at_Cons [of s oc "ps @ bs"] b(1) by simp_all
  have rd: "run_opcode env h st (set_cu s u) = standard_opcode h oc st (set_cu (adv s 1) u)"
    using cu_ReadU1 [OF at0, of u] b(2,3) by (auto simp: run_opcode_def act_simps)
  show ?thesis
  proof (cases op)
    case (L_advance_pc x)
    with b(1) at1 have "dio_ReadU8LEB128 (set_cu (adv s 1) u) = (Inr x, set_cu (adv (adv s 1) (length (uleb (unat x)))) u)"
      by (intro cu_ReadU8LEB128) auto
    with L_advance_pc b(1) show ?thesis unfolding rd by (auto simp: standard_opcode_def act_simps op_unit_def Let_def)
  next
    case (L_advance_line x)
    with b(1) at1 have "dio_ReadSLEB128 (set_cu (adv s 1) u) = (Inr x, set_cu (adv (adv s 1) (length (sleb (sint x)))) u)"
      by (intro cu_ReadSLEB128) auto
    with L_advance_line b(1) show ?thesis unfolding rd by (auto simp: standard_opcode_def act_simps op_unit_def Let_def)
  next
    case (L_fixed_advance_pc x)
    with b(1) at1 have "dio_ReadU2 (set_cu (adv s 1) u) = (Inr x, set_cu (adv (adv s 1) 2) u)"
      by (intro cu_ReadU2) auto
    with L_fixed_advance_pc b(1) show ?thesis unfolding rd by (auto simp: standard_opcode_def act_simps op_unit_def Let_def numeral_3_eq_3)
  next
    case (L_set_file x)
    with b(1) at1 have "dio_ReadULEB128 (set_cu (adv s 1) u) = (Inr x, set_cu (adv (adv s 1) (length (uleb (unat x)))) u)"
      by (intro cu_ReadULEB128) auto
    with L_set_file b(1) show ?thesis unfolding rd by (auto simp: standard_opcode_def act_simps op_unit_def Let_def)
  next
    case (L_set_column x)
    with b(1) at1 have "dio_ReadULEB128 (set_cu (adv s 1) u) = (Inr x, set_cu (adv (adv s 1) (length (uleb (unat x)))) u)"
      by (intro cu_ReadULEB128) auto
    with L_set_column b(1) show ?thesis unfolding rd by (auto simp: standard_opcode_def act_simps op_unit_def Let_def)
  next
    case (L_set_isa x)
    with b(1) at1 have "dio_ReadULEB128 (set_cu (adv s 1) u) = (Inr x, set_cu (adv (adv s 1) (length (uleb (unat x)))) u)"
      by (intro cu_ReadULEB128) auto
    with L_set_isa b(1) show ?thesis unfolding rd by (auto simp: standard_opcode_def act_simps op_unit_def Let_def)
  qed (use op ok b(1) in \<open>auto simp: rd standard_op_def standard_opcode_def act_simps op_unit_def Let_def add_state_def\<close>)
qed

lemma fst_dispatch:
  assumes "0 < lh_opcode_base h" "dio_at s (extended body @ bs)"
  shows "run_opcode env h st (set_cu s u) = extended_opcode env h st (set_cu (adv s 1) u)"
    "dio_at (adv s 1) (uleb (length body) @ body @ bs)"
proof -
  have at: "dio_at s (0 # uleb (length body) @ body @ bs)" using assms(2) by (simp add: extended_def)
  show "dio_at (adv s 1) (uleb (length body) @ body @ bs)" using dio_at_Cons [OF at] .
  show "run_opcode env h st (set_cu s u) = extended_opcode env h st (set_cu (adv s 1) u)"
    using cu_ReadU1 [OF at, of u] assms(1) by (auto simp: run_opcode_def act_simps)
qed

lemma run_ext:
  fixes u u' :: CompUnit
  assumes at: "dio_at s (extended (code # p) @ bs)" and base: "0 < lh_opcode_base h" and len: "length p < 2 ^ 32 - 1"
    and body: "\<And>s2. sDataPos s2 = sDataPos s + length (uleb (length (code # p))) + 2 \<Longrightarrow> dio_at s2 (p @ bs) \<Longrightarrow>
      line_ok env r asz big s2 \<Longrightarrow>
      extended_body env h (word_of_nat (length (code # p))) code st (set_cu s2 u) = (Inr st', set_cu (adv s2 (length p)) u')"
    and l: "line_ok env r asz big s"
  shows "run_opcode env h st (set_cu s u) = (Inr st', set_cu (adv s (length (extended (code # p)))) u')"
proof -
  note d = fst_dispatch [OF base at]
  let ?s2 = "adv (adv s 1) (length (uleb (length (code # p))) + 1)"
  have at1: "dio_at (adv s 1) (uleb (length (code # p)) @ code # p @ bs)" using d(2) by simp
  have "dio_at ?s2 (p @ bs)" using dio_at_Cons [OF dio_at_append(2) [OF at1]] by simp
  then have "extended_body env h (word_of_nat (length (code # p))) code st (set_cu ?s2 u) = (Inr st', set_cu (adv ?s2 (length p)) u')"
    using l by (intro body) simp_all
  then have "extended_opcode env h st (set_cu (adv s 1) u) = (Inr st', set_cu (adv (adv s 1) (length (uleb (length (code # p))) + 1 + length p)) u')"
    by (intro run_extended [OF at1 len]) simp
  then show ?thesis unfolding d(1) [of env st u] by (simp add: extended_def add.commute)
qed

lemma run_end_sequence:
  assumes "line_ok env r asz big s" "0 < lh_opcode_base h" "dio_at s (op_bytes big asz L_end_sequence @ bs)"
  shows "run_opcode env h st (set_cu s u) = (Inr (op_next h L_end_sequence st),
     set_cu (adv s (length (op_bytes big asz L_end_sequence))) (op_unit env h r pos L_end_sequence st u))"
  using assms run_ext [of s DW_LNE_end_sequence "[]" bs h env r asz big st u "line_start h"]
  by (simp add: extended_body_def act_simps add_state_def op_unit_def)

lemma run_set_address:
  assumes "line_ok env r asz big s" "op_ok h asz (L_set_address x)" "dio_at s (op_bytes big asz (L_set_address x) @ bs)"
  shows "run_opcode env h st (set_cu s u) = (Inr (op_next h (L_set_address x) st),
     set_cu (adv s (length (op_bytes big asz (L_set_address x)))) (op_unit env h r pos (L_set_address x) st u))"
proof -
  have "dio_ReadAddress env (set_cu s2 u) = (Inr (x, None), set_cu (adv s2 asz) u)"
    if "dio_at s2 (enc big asz x @ bs)" "line_ok env r asz big s2" for s2
    using run_ReadAddressX [of "set_cu s2 u" asz x bs r env] that assms(2)
    by (simp add: dio_ReadAddress_def act_simps line_ok_def fits_def)
  moreover have "asz < 9" using assms(2) by (auto simp: fits_def)
  ultimately show ?thesis
    using assms run_ext [of s DW_LNE_set_address "enc big asz x" bs h env r asz big st u "op_next h (L_set_address x) st" u]
    by (simp add: extended_body_def act_simps op_unit_def)
qed

lemma run_set_discriminator:
  assumes "line_ok env r asz big s" "0 < lh_opcode_base h" "dio_at s (op_bytes big asz (L_set_discriminator x) @ bs)"
    and "length (uleb (unat x)) < 2 ^ 32 - 1"
  shows "run_opcode env h st (set_cu s u) = (Inr (op_next h (L_set_discriminator x) st),
     set_cu (adv s (length (op_bytes big asz (L_set_discriminator x)))) (op_unit env h r pos (L_set_discriminator x) st u))"
  using assms run_ext [of s DW_LNE_set_discriminator "uleb (unat x)" bs h env r asz big st u "op_next h (L_set_discriminator x) st" u]
  by (simp add: extended_body_def act_simps op_unit_def cu_ReadULEB128)

lemma run_unknown:
  assumes "line_ok env r asz big s" "op_ok h asz (L_unknown code p)" "dio_at s (op_bytes big asz (L_unknown code p) @ bs)"
  shows "run_opcode env h st (set_cu s u) = (Inr (op_next h (L_unknown code p) st),
     set_cu (adv s (length (op_bytes big asz (L_unknown code p)))) (op_unit env h r pos (L_unknown code p) st u))"
proof -
  have x: "(word_of_nat (Suc (length p)) :: u32) - 1 = word_of_nat (length p)" by simp
  have n: "unat (ucast (word_of_nat (length p) :: u32) :: u64) = length p"
    using assms(2) unat_u32 [of "length p"] by (simp add: unsigned_ucast_eq take_bit_word_eq_self)
  have "dio_Skip (ucast ((word_of_nat (Suc (length p)) :: u32) - 1)) (set_cu s2 u) = (Inr (), set_cu (adv s2 (length p)) u)"
    if "dio_at s2 (p @ bs)" for s2
    unfolding x using run_need [of "set_cu s2 u" p bs] run_move [of "set_cu s2 u" p bs] that n
    by (simp add: dio_Skip_def act_simps)
  then show ?thesis
    using assms run_ext [of s code p bs h env r asz big st u st u]
    by (simp add: extended_body_def act_simps op_unit_def)
qed

lemma length_uleb: "n < 128 ^ Suc k \<Longrightarrow> length (uleb n) \<le> Suc k"
proof (induction k arbitrary: n)
  case (Suc k)
  show ?case
  proof (cases "n < 128")
    case False
    have "n div 128 < 128 ^ Suc k" using Suc.prems by (simp add: div_less_iff_less_mult)
    from Suc.IH [OF this] False show ?thesis by (simp add: uleb_bytes)
  qed (simp add: uleb_bytes)
qed (simp add: uleb_bytes)

lemma length_uleb_u32: "length (uleb (unat (x :: u32))) \<le> 5"
  using length_uleb [of "unat x" 4] unsigned_less [of x, where 'a = nat] by simp

lemma run_define_file:
  assumes l: "line_ok env r asz big s" and ok: "op_ok h asz (L_define_file f)"
    and at: "dio_at s (op_bytes big asz (L_define_file f) @ bs)"
  shows "run_opcode env h st (set_cu s u) = (Inr st,
     set_cu (adv s (length (op_bytes big asz (L_define_file f)))) (op_unit env h r (sDataPos s) (L_define_file f) st u))"
proof -
  obtain nm dir tm sz where f: "f = (nm, dir, tm, sz)" by (cases f)
  let ?u' = "op_unit env h r (sDataPos s) (L_define_file f) st u"
  have len: "length (file_bytes f) < 2 ^ 32 - 1"
    using ok f length_uleb_u32 [of dir] length_uleb_u32 [of tm] length_uleb_u32 [of sz] by simp
  have "extended_body env h (word_of_nat (length (DW_LNE_define_file # file_bytes f))) DW_LNE_define_file st (set_cu s2 u) =
      (Inr st, set_cu (adv s2 (length (file_bytes f))) ?u')"
    if p: "sDataPos s2 = sDataPos s + length (uleb (length (DW_LNE_define_file # file_bytes f))) + 2"
      and at2: "dio_at s2 (file_bytes f @ bs)" and l2: "line_ok env r asz big s2" for s2
  proof -
    have at3: "dio_at s2 (nm @ 0 # uleb (unat dir) @ uleb (unat tm) @ uleb (unat sz) @ bs)" using at2 f by simp
    let ?s3 = "adv s2 (length nm + 1)" and ?p = "Data r (int (sDataPos s2))"
    have "dio_at ?s3 (uleb (unat dir) @ uleb (unat tm) @ uleb (unat sz) @ bs)"
      using dio_at_Cons [OF dio_at_append(2) [OF at3]] by simp
    then have "read_file env ?p (set_cu ?s3 u) = (Inr (), set_cu (adv ?s3 (length (uleb (unat dir)) + length (uleb (unat tm)) +
        length (uleb (unat sz)))) (add_file_cu env (file_of ?p f u) u))"
      using run_read_file [of nm dir tm sz ?s3 bs env ?p u] ok f by simp
    moreover have "dio_ReadString (set_cu s2 u) = (Inr ?p, set_cu ?s3 u)"
      using cu_ReadString [OF at3, of r u] ok f l2 by (simp add: line_ok_def)
    ultimately show ?thesis
      using f p by (simp add: extended_body_def act_simps op_unit_def add.assoc add.commute add.left_commute)
  qed
  from run_ext [OF at [simplified] _ len this l] ok show ?thesis by simp
qed

lemma run_op:
  assumes l: "line_ok env r asz big s" and ok: "op_ok h asz op" and at: "dio_at s (op_bytes big asz op @ bs)"
  shows "run_opcode env h st (set_cu s u) =
     (Inr (op_next h op st), set_cu (adv s (length (op_bytes big asz op))) (op_unit env h r (sDataPos s) op st u))"
proof -
  have big: "sBigEndian s = big" using l by (simp add: line_ok_def)
  show ?thesis
  proof (cases "standard_op op")
    case True
    then show ?thesis using run_standard [OF True ok, of s bs env st u r "sDataPos s"] at big by simp
  next
    case False
    then consider (sp) oc where "op = L_special oc" | (es) "op = L_end_sequence" | (sa) x where "op = L_set_address x"
      | (df) f where "op = L_define_file f" | (sd) x where "op = L_set_discriminator x" | (un) c p where "op = L_unknown c p"
      by (cases op) (auto simp: standard_op_def)
    then show ?thesis
    proof cases
      case sp
      then show ?thesis using run_special [of h asz oc s bs env st u r "sDataPos s"] ok at by simp
    next
      case es
      then show ?thesis using run_end_sequence [OF l, of h bs st u "sDataPos s"] ok at by (simp add: extended_def)
    next
      case sa
      then show ?thesis using run_set_address [OF l, of h x bs st u "sDataPos s"] ok at by simp
    next
      case df
      then show ?thesis using run_define_file [OF l, of h f bs st u] ok at by simp
    next
      case sd
      then show ?thesis
        using run_set_discriminator [OF l, of h x bs st u "sDataPos s"] ok at length_uleb_u32 [of x] by (simp add: extended_def)
    next
      case un
      then show ?thesis using run_unknown [OF l, of h c p bs st u "sDataPos s"] ok at by simp
    qed
  qed
qed

section \<open>Programs\<close>

definition ops_bytes :: "bool \<Rightarrow> nat \<Rightarrow> line_op list \<Rightarrow> byte list" where
  "ops_bytes big asz ops = concat (map (op_bytes big asz) ops)"

fun ops_unit :: "DioEnv \<Rightarrow> LineHeader \<Rightarrow> sec_ref \<Rightarrow> bool \<Rightarrow> nat \<Rightarrow> nat \<Rightarrow> line_op list \<Rightarrow> LineNumbersState \<Rightarrow> CompUnit \<Rightarrow> CompUnit" where
  "ops_unit env h r big asz pos [] st u = u"
| "ops_unit env h r big asz pos (op # ops) st u =
     ops_unit env h r big asz (pos + length (op_bytes big asz op)) ops (op_next h op st) (op_unit env h r pos op st u)"

lemma op_bytes_pos: "0 < length (op_bytes big asz op)"
  by (cases op) (auto simp: extended_def)

lemma run_program:
  assumes "line_ok env r asz big s" "list_all (op_ok h asz) ops" "dio_at s (ops_bytes big asz ops @ bs)"
    and "sDataPos s + length (ops_bytes big asz ops) = end" "length ops < fuel"
  shows "program_loop env h end fuel st (set_cu s u) =
     (Inr (), set_cu (adv s (length (ops_bytes big asz ops))) (ops_unit env h r big asz (sDataPos s) ops st u))"
  using assms
proof (induction ops arbitrary: s st u fuel)
  case Nil
  then obtain k where "fuel = Suc k" by (cases fuel) auto
  with Nil show ?case by (simp add: ops_bytes_def act_simps cu_GetPos)
next
  case (Cons op ops)
  then obtain k where k: "fuel = Suc k" by (cases fuel) auto
  have at: "dio_at s (op_bytes big asz op @ ops_bytes big asz ops @ bs)" using Cons.prems(3) by (simp add: ops_bytes_def)
  let ?n = "length (op_bytes big asz op)" and ?u = "op_unit env h r (sDataPos s) op st u"
  have "program_loop env h end k (op_next h op st) (set_cu (adv s ?n) ?u) = (Inr (), set_cu (adv (adv s ?n) (length (ops_bytes big asz ops)))
      (ops_unit env h r big asz (sDataPos (adv s ?n)) ops (op_next h op st) ?u))"
    using Cons.prems k dio_at_append(2) [OF at] by (intro Cons.IH) (auto simp: ops_bytes_def)
  moreover have "run_opcode env h st (set_cu s u) = (Inr (op_next h op st), set_cu (adv s ?n) ?u)"
    using run_op [OF Cons.prems(1) _ at] Cons.prems(2) by simp
  moreover have "sDataPos s < end" using Cons.prems(4) op_bytes_pos [of big asz op] by (simp add: ops_bytes_def del: length_greater_0_conv)
  ultimately show ?case using k by (simp add: act_simps cu_GetPos ops_bytes_def)
qed

section \<open>The table of a program\<close>

text \<open>
  The rows that a program gives for a unit with \<open>n\<close> files, of which those in \<open>seen\<close> have rows already: rows of files that do not
  exist are left out, and before the first row of a file stands one for its line 1.
\<close>

definition first_row :: "LineNumbersState \<Rightarrow> LineNumbersState" where
  "first_row row = zero_state\<lparr>ls_mLine := 1, ls_mFile := ls_mFile row, ls_mSection := ls_mSection row, ls_mAddress := ls_mAddress row\<rparr>"

fun table_rows :: "LineHeader \<Rightarrow> nat \<Rightarrow> nat list \<Rightarrow> line_op list \<Rightarrow> LineNumbersState \<Rightarrow> LineNumbersState list" where
  "table_rows h n seen [] st = []"
| "table_rows h n seen (L_define_file f # ops) st = table_rows h (n + 1) seen ops st"
| "table_rows h n seen (op # ops) st =
     (case op_row h op st of
        None \<Rightarrow> table_rows h n seen ops (op_next h op st)
      | Some row \<Rightarrow>
          let i = unat (ls_mFile row) in
          if i \<ge> n then table_rows h n seen ops (op_next h op st)
          else (if i \<in> set seen then [row] else [first_row row, row]) @ table_rows h n (i # seen) ops (op_next h op st))"

definition files_seen :: "CompUnit \<Rightarrow> nat \<Rightarrow> nat list \<Rightarrow> bool" where
  "files_seen u n seen \<longleftrightarrow> length (cu_mFiles u) = n \<and> (\<forall>i < n. fi_mAreaCnt (cu_mFiles u ! i) = 0 \<longleftrightarrow> i \<notin> set seen) \<and> (\<forall>i \<in> set seen. i < n)"

lemma add_file_seen:
  assumes "files_seen u n seen" "fi_mAreaCnt f = 0"
  shows "files_seen (add_file_cu env f u) (n + 1) seen" "cu_mStates (add_file_cu env f u) = cu_mStates u"
    "cu_mDirs (add_file_cu env f u) = cu_mDirs u"
  using assms by (auto simp: files_seen_def add_file_cu_def Let_def nth_append less_Suc_eq)

lemma add_state_seen:
  assumes "files_seen u n seen"
  shows "unat (ls_mFile row) \<ge> n \<Longrightarrow> add_state_cu row u = u"
    "unat (ls_mFile row) < n \<Longrightarrow> files_seen (add_state_cu row u) n (unat (ls_mFile row) # seen)"
    "unat (ls_mFile row) < n \<Longrightarrow> cu_mStates (add_state_cu row u) =
       cu_mStates u @ (if unat (ls_mFile row) \<in> set seen then [row] else [first_row row, row])"
  using assms by (auto simp: files_seen_def add_state_cu_def Let_def nth_list_update first_row_def)

lemma fi_file_of [simp]: "fi_mAreaCnt (file_of p f u) = 0"
  by (cases f) (simp add: zero_file_def)

lemma ops_unit_states:
  "files_seen u n seen \<Longrightarrow> cu_mStates (ops_unit env h r big asz pos ops st u) = cu_mStates u @ table_rows h n seen ops st"
proof (induction ops arbitrary: u n seen pos st)
  case (Cons op ops)
  show ?case
  proof (cases "\<exists>f. op = L_define_file f")
    case True
    then obtain f where f: "op = L_define_file f" by blast
    let ?f = "file_of (Data r (int (pos + length (uleb (length (file_bytes f) + 1)) + 2))) f u"
    have "op_unit env h r pos op st u = add_file_cu env ?f u" by (simp add: op_unit_def f)
    then show ?thesis using add_file_seen [OF Cons.prems, of ?f env] Cons.IH [of _ "n + 1" seen] f by simp
  next
    case False
    then have o: "op_unit env h r pos op st u = (case op_row h op st of Some row \<Rightarrow> add_state_cu row u | None \<Rightarrow> u)"
      by (cases op) (auto simp: op_unit_def)
    have t: "table_rows h n seen (op # ops) st = (case op_row h op st of
        None \<Rightarrow> table_rows h n seen ops (op_next h op st)
      | Some row \<Rightarrow>
          let i = unat (ls_mFile row) in
          if i \<ge> n then table_rows h n seen ops (op_next h op st)
          else (if i \<in> set seen then [row] else [first_row row, row]) @ table_rows h n (i # seen) ops (op_next h op st))"
      by (cases op) (use False in \<open>auto simp only: table_rows.simps\<close>)
    show ?thesis
    proof (cases "op_row h op st")
      case None
      then show ?thesis using Cons.IH [OF Cons.prems] o t by simp
    next
      case (Some row)
      show ?thesis
      proof (cases "unat (ls_mFile row) \<ge> n")
        case True
        then show ?thesis using Some o t add_state_seen(1) [OF Cons.prems True] Cons.IH [OF Cons.prems] by simp
      next
        case False
        then show ?thesis
          using Some o t Cons.IH [OF add_state_seen(2) [OF Cons.prems]] add_state_seen(3) [OF Cons.prems]
          by (simp add: Let_def)
      qed
    qed
  qed
qed simp

section \<open>Headers\<close>

record line_spec =
  lp_64 :: bool
  lp_version :: u16
  lp_min :: byte
  lp_max_ops :: byte
  lp_is_stmt :: byte
  lp_line_base :: byte
  lp_line_range :: byte
  lp_sizes :: "byte list"
  lp_dirs :: "cstring list"
  lp_files :: "file_spec list"

definition header_of :: "line_spec \<Rightarrow> LineHeader" where
  "header_of p = \<lparr>lh_min_instruction_length = lp_min p, lh_max_ops_per_instruction = (if lp_version p \<ge> 4 then lp_max_ops p else 1),
     lh_is_stmt_default = (lp_is_stmt p \<noteq> 0), lh_line_base = lp_line_base p, lh_line_range = lp_line_range p,
     lh_opcode_base = word_of_nat (length (lp_sizes p) + 1), lh_opcode_size = 0 # lp_sizes p @ replicate (255 - length (lp_sizes p)) 0\<rparr>"

definition dirs_bytes :: "cstring list \<Rightarrow> byte list" where
  "dirs_bytes ds = concat (map (\<lambda>d. d @ [0]) ds) @ [0]"

definition files_bytes :: "file_spec list \<Rightarrow> byte list" where
  "files_bytes fs = concat (map file_bytes fs) @ [0]"

definition tail_bytes :: "line_spec \<Rightarrow> byte list" where
  "tail_bytes p = lp_min p # (if lp_version p \<ge> 4 then [lp_max_ops p] else []) @
     [lp_is_stmt p, lp_line_base p, lp_line_range p, word_of_nat (length (lp_sizes p) + 1)] @
     lp_sizes p @ dirs_bytes (lp_dirs p) @ files_bytes (lp_files p)"

definition line_header_bytes :: "bool \<Rightarrow> line_spec \<Rightarrow> byte list" where
  "line_header_bytes big p = enc big 2 (lp_version p) @
     (if lp_64 p then enc big 8 (word_of_nat (length (tail_bytes p)) :: u64) else enc big 4 (word_of_nat (length (tail_bytes p)) :: u32)) @
     tail_bytes p"

definition line_spec_ok :: "line_spec \<Rightarrow> bool" where
  "line_spec_ok p \<longleftrightarrow> 2 \<le> lp_version p \<and> lp_version p \<le> 4 \<and> length (lp_sizes p) \<le> 254 \<and> length (tail_bytes p) < 2 ^ 32 \<and>
     list_all (\<lambda>d. d \<noteq> [] \<and> 0 \<notin> set d \<and> length d < 2 ^ 32) (lp_dirs p) \<and> list_all file_ok (lp_files p)"

fun dirs_unit :: "sec_ref \<Rightarrow> nat \<Rightarrow> cstring list \<Rightarrow> CompUnit \<Rightarrow> CompUnit" where
  "dirs_unit r pos [] u = u"
| "dirs_unit r pos (d # ds) u = dirs_unit r (pos + length d + 1) ds (u\<lparr>cu_mDirs := cu_mDirs u @ [Data r (int pos)]\<rparr>)"

fun files_unit :: "DioEnv \<Rightarrow> sec_ref \<Rightarrow> nat \<Rightarrow> file_spec list \<Rightarrow> CompUnit \<Rightarrow> CompUnit" where
  "files_unit env r pos [] u = u"
| "files_unit env r pos (f # fs) u =
     files_unit env r (pos + length (file_bytes f)) fs (add_file_cu env (file_of (Data r (int pos)) f u) u)"

lemma run_dirs:
  assumes "line_ok env r asz big s" "list_all (\<lambda>d. d \<noteq> [] \<and> 0 \<notin> set d \<and> length d < 2 ^ 32) ds" "dio_at s (dirs_bytes ds @ bs)"
    and "length ds < fuel"
  shows "dirs_loop fuel (set_cu s u) = (Inr (), set_cu (adv s (length (dirs_bytes ds))) (dirs_unit r (sDataPos s) ds u))"
  using assms
proof (induction ds arbitrary: s u fuel)
  case Nil
  then obtain k where "fuel = Suc k" by (cases fuel) auto
  with Nil cu_ReadString [of s "[]" bs r u] show ?case by (simp add: dirs_bytes_def act_simps line_ok_def)
next
  case (Cons d ds)
  then obtain k where k: "fuel = Suc k" by (cases fuel) auto
  have at: "dio_at s (d @ 0 # dirs_bytes ds @ bs)" using Cons.prems(3) by (simp add: dirs_bytes_def)
  let ?u = "u\<lparr>cu_mDirs := cu_mDirs u @ [Data r (int (sDataPos s))]\<rparr>" and ?s1 = "adv s (length d + 1)"
  have "dio_at ?s1 (dirs_bytes ds @ bs)" using dio_at_Cons [OF dio_at_append(2) [OF at]] by simp
  then have "dirs_loop k (set_cu ?s1 ?u) = (Inr (), set_cu (adv ?s1 (length (dirs_bytes ds))) (dirs_unit r (sDataPos ?s1) ds ?u))"
    using Cons.prems k by (intro Cons.IH) auto
  then show ?case using cu_ReadString [OF at, of r u] Cons.prems k
    by (simp add: act_simps line_ok_def add_dir_def dirs_bytes_def add.assoc)
qed

lemma run_files:
  assumes "line_ok env r asz big s" "list_all file_ok fs" "dio_at s (files_bytes fs @ bs)" "length fs < fuel"
  shows "files_loop env fuel (set_cu s u) = (Inr (), set_cu (adv s (length (files_bytes fs))) (files_unit env r (sDataPos s) fs u))"
  using assms
proof (induction fs arbitrary: s u fuel)
  case Nil
  then obtain k where "fuel = Suc k" by (cases fuel) auto
  with Nil cu_ReadString [of s "[]" bs r u] show ?case by (simp add: files_bytes_def act_simps line_ok_def)
next
  case (Cons f fs)
  then obtain k where k: "fuel = Suc k" by (cases fuel) auto
  obtain nm dir tm sz where f: "f = (nm, dir, tm, sz)" by (cases f)
  have at: "dio_at s (nm @ 0 # uleb (unat dir) @ uleb (unat tm) @ uleb (unat sz) @ files_bytes fs @ bs)"
    using Cons.prems(3) f by (simp add: files_bytes_def)
  let ?p = "Data r (int (sDataPos s))" and ?s1 = "adv s (length nm + 1)" and ?s2 = "adv s (length (file_bytes f))"
  let ?u = "add_file_cu env (file_of ?p f u) u"
  have at1: "dio_at ?s1 (uleb (unat dir) @ uleb (unat tm) @ uleb (unat sz) @ files_bytes fs @ bs)"
    using dio_at_Cons [OF dio_at_append(2) [OF at]] by simp
  have rf: "read_file env ?p (set_cu ?s1 u) = (Inr (), set_cu ?s2 ?u)"
    using run_read_file [OF _ at1, of nm env ?p u] Cons.prems(2) f by (simp add: add.assoc)
  have "dio_at ?s2 (files_bytes fs @ bs)"
    using dio_at_append(2) [of s "file_bytes f" "files_bytes fs @ bs"] Cons.prems(3) by (simp add: files_bytes_def)
  then have "files_loop env k (set_cu ?s2 ?u) = (Inr (), set_cu (adv ?s2 (length (files_bytes fs))) (files_unit env r (sDataPos ?s2) fs ?u))"
    using Cons.prems k by (intro Cons.IH) auto
  then show ?case using cu_ReadString [OF at, of r u] Cons.prems k rf f
    by (simp add: act_simps line_ok_def files_bytes_def add.assoc)
qed

definition fixed_length :: "line_spec \<Rightarrow> nat" where
  "fixed_length p = (if lp_version p \<ge> 4 then 6 else 5)"

definition names_pos :: "line_spec \<Rightarrow> nat \<Rightarrow> nat" where
  "names_pos p pos = pos + 2 + (if lp_64 p then 8 else 4) + fixed_length p + length (lp_sizes p)"

definition header_unit :: "DioEnv \<Rightarrow> sec_ref \<Rightarrow> nat \<Rightarrow> line_spec \<Rightarrow> CompUnit \<Rightarrow> CompUnit" where
  "header_unit env r pos p u = files_unit env r (names_pos p pos + length (dirs_bytes (lp_dirs p))) (lp_files p)
     (dirs_unit r (names_pos p pos) (lp_dirs p) u)"

lemma length_tail: "length (tail_bytes p) =
    fixed_length p + length (lp_sizes p) + length (dirs_bytes (lp_dirs p)) + length (files_bytes (lp_files p))"
  by (simp add: tail_bytes_def fixed_length_def)

lemma length_line_header: "length (line_header_bytes big p) = 2 + (if lp_64 p then 8 else 4) + length (tail_bytes p)"
  by (simp add: line_header_bytes_def)

lemma length_names: "length ds \<le> length (dirs_bytes ds)" "length fs \<le> length (files_bytes fs)"
proof -
  show "length ds \<le> length (dirs_bytes ds)" by (induction ds) (auto simp: dirs_bytes_def)
  show "length fs \<le> length (files_bytes fs)" by (induction fs) (auto simp: files_bytes_def)
qed

lemma run_header_size:
  assumes "dio_at s ((if b then enc big 8 (word_of_nat n :: u64) else enc big 4 (word_of_nat n :: u32)) @ bs)" "n < 2 ^ 32"
    and "sBigEndian s = big"
  shows "\<exists>x. unat x = n \<and> (if b then dio_ReadU8 else bnd dio_ReadU4 (\<lambda>x. ret (ucast x))) (set_cu s u) =
     (Inr (x :: u64), set_cu (adv s (if b then 8 else 4)) u)"
proof (cases b)
  case True
  then show ?thesis using assms cu_ReadU8 [of s "word_of_nat n" bs u] by (auto simp: unat_of_nat intro!: exI [of _ "word_of_nat n"])
next
  case False
  have "unat (ucast (word_of_nat n :: u32) :: u64) = n"
    using assms(2) unat_u32 [of n] by (simp add: unsigned_ucast_eq take_bit_word_eq_self)
  with False show ?thesis using assms(1,3) cu_ReadU4 [of s "word_of_nat n" bs u]
    by (auto simp: act_simps intro!: exI [of _ "ucast (word_of_nat n :: u32)"])
qed

text \<open>The bytes of the header with fixed places.\<close>

lemma run_fixed:
  assumes at: "dio_at s ((lp_min p # (if lp_version p \<ge> 4 then [lp_max_ops p] else []) @
     [lp_is_stmt p, lp_line_base p, lp_line_range p, ob]) @ bs)"
  shows "bnd dio_ReadU1 (\<lambda>m. bnd (if lp_version p \<ge> 4 then dio_ReadU1 else ret 1) (\<lambda>mo. bnd dio_ReadU1 (\<lambda>st.
       bnd dio_ReadU1 (\<lambda>lb. bnd dio_ReadU1 (\<lambda>lr. bnd dio_ReadU1 (\<lambda>ob. f m mo st lb lr ob)))))) (set_cu s u) =
     f (lp_min p) (if lp_version p \<ge> 4 then lp_max_ops p else 1) (lp_is_stmt p) (lp_line_base p) (lp_line_range p) ob
       (set_cu (adv s (fixed_length p)) u)"
proof -
  have step: "bnd dio_ReadU1 g (set_cu s u) = g b (set_cu (adv s 1) u)" if "dio_at s (b # cs)" for g b cs s
    using cu_ReadU1 [OF that, of u] by (simp add: act_simps)
  show ?thesis
  proof (cases "lp_version p \<ge> 4")
    case True
    have at: "dio_at s (lp_min p # lp_max_ops p # lp_is_stmt p # lp_line_base p # lp_line_range p # ob # bs)" using at True by simp
    note a = dio_at_Cons
    show ?thesis using True
      by (simp add: fixed_length_def eval_nat_numeral step [OF at, simplified] step [OF a [OF at], simplified] step [OF a [OF a [OF at]], simplified]
          step [OF a [OF a [OF a [OF at]]], simplified] step [OF a [OF a [OF a [OF a [OF at]]]], simplified]
          step [OF a [OF a [OF a [OF a [OF a [OF at]]]]], simplified])
  next
    case False
    have at: "dio_at s (lp_min p # lp_is_stmt p # lp_line_base p # lp_line_range p # ob # bs)" using at False by simp
    note a = dio_at_Cons
    have r: "bnd (ret x) g s = g x s" for x g and s :: "LineClient DIO" by (simp add: act_simps)
    show ?thesis using False
      by (simp add: fixed_length_def eval_nat_numeral r step [OF at, simplified] step [OF a [OF at], simplified] step [OF a [OF a [OF at]], simplified]
          step [OF a [OF a [OF a [OF at]]], simplified] step [OF a [OF a [OF a [OF a [OF at]]]], simplified])
  qed
qed

lemma unat_opcode_base:
  assumes "n \<le> 254"
  shows "unat (ucast (word_of_nat (n + 1) :: byte) - 1 :: u32) = n"
proof -
  have "ucast (word_of_nat k :: byte) = (word_of_nat k :: u32)" if "k \<le> 255" for k
    using that by (simp add: word_unat_eq_iff unsigned_ucast_eq unat_of_nat take_bit_nat_eq_self)
  from this [of "n + 1"] show ?thesis using assms by (simp add: unat_of_nat)
qed

lemma run_line_header:
  assumes l: "line_ok env r asz big s" and ok: "line_spec_ok p" and at: "dio_at s (line_header_bytes big p @ bs)"
  shows "read_line_header env (lp_64 p) (set_cu s u) =
     (Inr (header_of p), set_cu (adv s (length (line_header_bytes big p))) (header_unit env r (sDataPos s) p u))"
proof -
  let ?n = "if lp_64 p then 8 else 4 :: nat" and ?t = "tail_bytes p" and ?f = "fixed_length p" and ?z = "length (lp_sizes p)"
  let ?ob = "word_of_nat (?z + 1) :: byte" and ?ds = "dirs_bytes (lp_dirs p)" and ?fs = "files_bytes (lp_files p)"
  let ?fixed = "lp_min p # (if lp_version p \<ge> 4 then [lp_max_ops p] else []) @ [lp_is_stmt p, lp_line_base p, lp_line_range p, ?ob]"
  let ?s2 = "adv s (2 + ?n)" and ?s3 = "adv s (2 + ?n + ?f)" and ?s4 = "adv s (2 + ?n + ?f + ?z)"
  let ?s5 = "adv s (2 + ?n + ?f + ?z + length ?ds)"
  have big: "sBigEndian s = big" using l by (simp add: line_ok_def)
  have at1: "dio_at (adv s 2) ((if lp_64 p then enc big 8 (word_of_nat (length ?t) :: u64) else enc big 4 (word_of_nat (length ?t) :: u32)) @ ?t @ bs)"
    using dio_at_append(2) [of s "enc big 2 (lp_version p)"] at by (simp add: line_header_bytes_def)
  have at2: "dio_at ?s2 (?fixed @ lp_sizes p @ ?ds @ ?fs @ bs)"
    using dio_at_append(2) [OF at1] by (simp add: tail_bytes_def split: if_splits)
  have at3: "dio_at ?s3 (lp_sizes p @ ?ds @ ?fs @ bs)" using dio_at_append(2) [OF at2] by (simp add: fixed_length_def split: if_splits)
  have at4: "dio_at ?s4 (?ds @ ?fs @ bs)" using dio_at_append(2) [OF at3] by simp
  have at5: "dio_at ?s5 (?fs @ bs)" using dio_at_append(2) [OF at4] by simp
  have r1: "dio_ReadU2 (set_cu s u) = (Inr (lp_version p), set_cu (adv s 2) u)"
    using cu_ReadU2 [of s "lp_version p"] at big by (simp add: line_header_bytes_def)
  obtain x where x: "unat x = length ?t" "(if lp_64 p then dio_ReadU8 else bnd dio_ReadU4 (\<lambda>x. ret (ucast x))) (set_cu (adv s 2) u) =
      (Inr (x :: u64), set_cu ?s2 u)"
    using run_header_size [OF at1, of u] big ok by (auto simp: line_spec_ok_def)
  have rd: "dio_Read (unat (ucast ?ob - 1 :: u32)) (set_cu ?s3 u) = (Inr (lp_sizes p), set_cu ?s4 u)"
    using run_Read [of "set_cu ?s3 u" "lp_sizes p" "?ds @ ?fs @ bs" ?z] at3 ok unat_opcode_base [of ?z] by (simp add: line_spec_ok_def)
  have fuel: "length (lp_dirs p) < data_fuel s" "length (lp_files p) < data_fuel s"
    using dio_at_room [OF at4] dio_at_room [OF at5] length_names(1) [of "lp_dirs p"] length_names(2) [of "lp_files p"] by (auto simp: data_fuel_def)
  have rdirs: "dirs_loop (data_fuel s) (set_cu ?s4 u) = (Inr (), set_cu ?s5 (dirs_unit r (names_pos p (sDataPos s)) (lp_dirs p) u))"
    using run_dirs [of env r asz big ?s4 "lp_dirs p" "?fs @ bs" "data_fuel s" u] l ok at4 fuel
    by (simp add: line_spec_ok_def names_pos_def add.assoc)
  have rfiles: "files_loop env (data_fuel s) (set_cu ?s5 (dirs_unit r (names_pos p (sDataPos s)) (lp_dirs p) u)) =
      (Inr (), set_cu (adv s (length (line_header_bytes big p))) (header_unit env r (sDataPos s) p u))"
    using run_files [of env r asz big ?s5 "lp_files p" bs "data_fuel s" "dirs_unit r (names_pos p (sDataPos s)) (lp_dirs p) u"] l ok at5 fuel
    by (simp add: line_spec_ok_def names_pos_def header_unit_def length_line_header length_tail add.assoc)
  have pos: "sDataPos s + (2 + ?n + length ?t) < U8_MAX1" using dio_at_room [OF at] by (simp add: length_line_header)
  have v: "\<not> (lp_version p < 2 \<or> lp_version p > 4)" using ok by (auto simp: line_spec_ok_def not_less)
  have df: "data_fuel (adv s k) = data_fuel s" for k by (simp add: data_fuel_def)
  have sz: "\<not> 255 < ?z" "header_of p = \<lparr>lh_min_instruction_length = lp_min p, lh_max_ops_per_instruction = (if lp_version p \<ge> 4 then lp_max_ops p else 1),
      lh_is_stmt_default = (lp_is_stmt p \<noteq> 0), lh_line_base = lp_line_base p, lh_line_range = lp_line_range p,
      lh_opcode_base = ?ob, lh_opcode_size = 0 # lp_sizes p @ replicate (255 - ?z) 0\<rparr>"
    using ok by (simp_all add: line_spec_ok_def header_of_def)
  have hd: "(sDataPos s + (2 + ?n) + unat x) mod U8_MAX1 = sDataPos s + (2 + ?n + length ?t)"
    using x(1) pos by (simp add: add.assoc)
  have "read_line_header env (lp_64 p) (set_cu s u) = bnd (dio_Read (unat (ucast ?ob - 1 :: u32))) (\<lambda>sizes.
       if length sizes > 255 then fault Undefined_Behaviour else
       bnd (look data_fuel) (\<lambda>fuel.
       seq (dirs_loop fuel)
       (seq (files_loop env fuel)
       (bnd dio_GetPos (\<lambda>pos.
       let header_end = (sDataPos s + (2 + ?n) + unat x) mod U8_MAX1 in
       if header_end \<noteq> pos \<and> \<not> (lp_64 p \<and> header_end = (pos + 12) mod U8_MAX1)
       then str_raise ERR_INV_DWARF ''Invalid line info header''
       else ret \<lparr>lh_min_instruction_length = lp_min p, lh_max_ops_per_instruction = (if lp_version p \<ge> 4 then lp_max_ops p else 1),
         lh_is_stmt_default = (lp_is_stmt p \<noteq> 0), lh_line_base = lp_line_base p, lh_line_range = lp_line_range p,
         lh_opcode_base = ?ob, lh_opcode_size = 0 # sizes @ replicate (255 - length sizes) 0\<rparr>))))) (set_cu ?s3 u)"
    unfolding read_line_header_def run_bnd(1) [of dio_ReadU2 "set_cu s u", OF r1] if_not_P [OF v]
      run_bnd(1) [of "if lp_64 p then dio_ReadU8 else bnd dio_ReadU4 (\<lambda>x. ret (ucast x))" "set_cu (adv s 2) u", OF x(2)]
      run_bnd(1) [of dio_GetPos "set_cu ?s2 u", OF cu_GetPos]
    by (subst run_fixed [OF at2]) (simp only: adv_simps)
  also have "\<dots> = (Inr (header_of p), set_cu (adv s (length (line_header_bytes big p))) (header_unit env r (sDataPos s) p u))"
    unfolding hd sz(2)
    using rd rdirs rfiles sz(1) by (simp add: act_simps cu_GetPos df length_line_header)
  finally show ?thesis .
qed

section \<open>Units\<close>

lemma dirs_unit_keeps:
  "cu_mFiles (dirs_unit r pos ds u) = cu_mFiles u" "cu_mStates (dirs_unit r pos ds u) = cu_mStates u"
  "cu_mLineInfoOffs (dirs_unit r pos ds u) = cu_mLineInfoOffs u"
  by (induction r pos ds u rule: dirs_unit.induct) simp_all

lemma add_file_keeps: "cu_mLineInfoOffs (add_file_cu env f u) = cu_mLineInfoOffs u"
  by (simp add: add_file_cu_def Let_def)

lemma files_unit_keeps:
  "files_seen u n seen \<Longrightarrow> files_seen (files_unit env r pos fs u) (n + length fs) seen \<and> cu_mStates (files_unit env r pos fs u) = cu_mStates u \<and>
   cu_mLineInfoOffs (files_unit env r pos fs u) = cu_mLineInfoOffs u"
proof (induction fs arbitrary: pos u n)
  case (Cons f fs)
  have "files_seen (add_file_cu env (file_of (Data r (int pos)) f u) u) (n + 1) seen"
    by (rule add_file_seen [OF Cons.prems]) simp
  from Cons.IH [OF this] add_file_seen(2) [OF Cons.prems, of "file_of (Data r (int pos)) f u" env] show ?case
    by (simp add: add_file_keeps)
qed simp

lemma header_unit_keeps:
  assumes "files_seen u n seen"
  shows "files_seen (header_unit env r pos p u) (n + length (lp_files p)) seen" "cu_mStates (header_unit env r pos p u) = cu_mStates u"
    "cu_mLineInfoOffs (header_unit env r pos p u) = cu_mLineInfoOffs u"
proof -
  let ?u = "dirs_unit r (names_pos p pos) (lp_dirs p) u"
  have "files_seen ?u n seen" using assms by (simp add: files_seen_def dirs_unit_keeps)
  from files_unit_keeps [OF this, of env r "names_pos p pos + length (dirs_bytes (lp_dirs p))" "lp_files p"]
  show "files_seen (header_unit env r pos p u) (n + length (lp_files p)) seen" "cu_mStates (header_unit env r pos p u) = cu_mStates u"
    "cu_mLineInfoOffs (header_unit env r pos p u) = cu_mLineInfoOffs u"
    by (simp_all add: header_unit_def dirs_unit_keeps)
qed

lemma length_ops: "length ops \<le> length (ops_bytes big asz ops)"
proof (induction ops)
  case (Cons op ops)
  then show ?case using op_bytes_pos [of big asz op] by (simp add: ops_bytes_def del: length_greater_0_conv)
qed simp

lemma run_load_v2:
  assumes l: "line_ok env r asz big s" and ok: "line_spec_ok p" "list_all (op_ok (header_of p) asz) ops"
    and at: "dio_at s (line_header_bytes big p @ ops_bytes big asz ops @ bs)"
    and sz: "cu_mLineInfoOffs u + unat n = sDataPos s + length (line_header_bytes big p) + length (ops_bytes big asz ops)"
    and u: "files_seen u k []"
  shows "\<exists>u'. load_line_numbers_v2 env n (lp_64 p) (set_cu s u) =
       (Inr (), set_cu (adv s (length (line_header_bytes big p) + length (ops_bytes big asz ops))) u') \<and>
     cu_mStates u' = cu_mStates u @ table_rows (header_of p) (k + length (lp_files p)) [] ops (line_start (header_of p))"
proof -
  let ?m = "length (line_header_bytes big p)" and ?h = "header_of p" and ?u1 = "header_unit env r (sDataPos s) p u"
  let ?e = "sDataPos s + ?m + length (ops_bytes big asz ops)"
  have at1: "dio_at (adv s ?m) (ops_bytes big asz ops @ bs)" by (rule dio_at_append(2) [OF at])
  have e: "(cu_mLineInfoOffs u + unat n) mod U8_MAX1 = ?e" using dio_at_room [OF at] sz by simp
  have fuel: "length ops < data_fuel s" using dio_at_room [OF at1] length_ops [of ops big asz] by (simp add: data_fuel_def)
  let ?u2 = "ops_unit env ?h r big asz (sDataPos s + ?m) ops (line_start ?h) ?u1"
  have "program_loop env ?h ?e (data_fuel s) (line_start ?h) (set_cu (adv s ?m) ?u1) =
      (Inr (), set_cu (adv s (?m + length (ops_bytes big asz ops))) ?u2)"
    using run_program [of env r asz big "adv s ?m" ?h ops bs ?e "data_fuel s" "line_start ?h" ?u1] l ok(2) at1 fuel by simp
  moreover have "data_fuel (adv s ?m) = data_fuel s" by (simp add: data_fuel_def)
  ultimately have "load_line_numbers_v2 env n (lp_64 p) (set_cu s u) = (Inr (), set_cu (adv s (?m + length (ops_bytes big asz ops))) ?u2)"
    using run_line_header [OF l ok(1) at, of u] e header_unit_keeps(3) [OF u] by (simp add: load_line_numbers_v2_def act_simps)
  moreover have "cu_mStates ?u2 = cu_mStates u @ table_rows ?h (k + length (lp_files p)) [] ops (line_start ?h)"
    by (simp add: ops_unit_states [OF header_unit_keeps(1) [OF u]] header_unit_keeps(2) [OF u])
  ultimately show ?thesis by blast
qed

definition line_unit_bytes :: "bool \<Rightarrow> nat \<Rightarrow> line_spec \<Rightarrow> line_op list \<Rightarrow> byte list" where
  "line_unit_bytes big asz p ops =
     (let n = length (line_header_bytes big p) + length (ops_bytes big asz ops)
      in (if lp_64 p then enc big 4 (0xffffffff :: u32) @ enc big 8 (word_of_nat n :: u64) else enc big 4 (word_of_nat n :: u32)) @
         line_header_bytes big p @ ops_bytes big asz ops)"

definition line_unit_ok :: "nat \<Rightarrow> line_spec \<Rightarrow> line_op list \<Rightarrow> bool" where
  "line_unit_ok asz p ops \<longleftrightarrow> line_spec_ok p \<and> list_all (op_ok (header_of p) asz) ops \<and>
     length (line_header_bytes True p) + length (ops_bytes True asz ops) < (if lp_64 p then 2 ^ 63 else 2 ^ 32 - 1)"

lemma length_op_bytes: "length (op_bytes big asz op) = length (op_bytes True asz op)"
  by (cases op) (simp_all add: extended_def)

lemma length_ops_bytes: "length (ops_bytes big asz ops) = length (ops_bytes True asz ops)"
  by (induction ops) (simp_all add: ops_bytes_def length_op_bytes [of big])

lemma length_line_header_big: "length (line_header_bytes big p) = length (line_header_bytes True p)"
  by (simp add: length_line_header)

text \<open>The part of the loader that chooses the format, on a unit whose length field starts at \<^verbatim>\<open>mLineInfoOffs\<close>.\<close>

lemma run_load_unit:
  assumes l: "line_ok env r asz big s" and ok: "line_unit_ok asz p ops"
    and at: "dio_at s (line_unit_bytes big asz p ops @ bs)" and pos: "cu_mLineInfoOffs u = sDataPos s" and u: "files_seen u k []"
  shows "\<exists>u'. bnd dio_ReadU4 (\<lambda>x. if x = 0xffffffff then bnd dio_ReadU8 (\<lambda>n. load_line_numbers_v2 env (n + 12) True)
          else load_line_numbers_v2 env (ucast x + 4) False) (set_cu s u) =
       (Inr (), set_cu (adv s (length (line_unit_bytes big asz p ops))) u') \<and>
     cu_mStates u' = cu_mStates u @ table_rows (header_of p) (k + length (lp_files p)) [] ops (line_start (header_of p))"
proof -
  let ?n = "length (line_header_bytes big p) + length (ops_bytes big asz ops)"
  have n: "?n < (if lp_64 p then 2 ^ 63 else 2 ^ 32 - 1)" and sp: "line_spec_ok p" "list_all (op_ok (header_of p) asz) ops"
    using ok by (simp_all only: line_unit_ok_def length_ops_bytes [of big] length_line_header_big [of big])
  have big: "sBigEndian s = big" using l by (simp add: line_ok_def)
  show ?thesis
  proof (cases "lp_64 p")
    case True
    let ?x = "word_of_nat ?n :: u64" and ?s1 = "adv s 4" and ?s2 = "adv s 12"
    have at0: "dio_at s (enc big 4 (0xffffffff :: u32) @ enc big 8 ?x @ line_header_bytes big p @ ops_bytes big asz ops @ bs)"
      using at True by (simp add: line_unit_bytes_def Let_def)
    have at1: "dio_at ?s1 (enc big 8 ?x @ line_header_bytes big p @ ops_bytes big asz ops @ bs)" using dio_at_append(2) [OF at0] by simp
    have at2: "dio_at ?s2 (line_header_bytes big p @ ops_bytes big asz ops @ bs)" using dio_at_append(2) [OF at1] by simp
    have y: "?x + 12 = word_of_nat (?n + 12)" by simp
    have "unat (word_of_nat m :: u64) = m" if "m < 2 ^ 64" for m using that by (simp add: unat_of_nat)
    from this [of "?n + 12"] have x: "unat (?x + 12) = ?n + 12" unfolding y using n True by simp
    show ?thesis
      using run_load_v2 [of env r asz big ?s2 p ops bs u "?x + 12" k] l sp at2 x pos u True
        cu_ReadU4 [of s "0xffffffff" _ u] cu_ReadU8 [of ?s1 ?x _ u] at0 at1 big
      by (simp add: act_simps line_unit_bytes_def Let_def add.assoc)
  next
    case False
    let ?x = "word_of_nat ?n :: u32" and ?s1 = "adv s 4"
    have at0: "dio_at s (enc big 4 ?x @ line_header_bytes big p @ ops_bytes big asz ops @ bs)"
      using at False by (simp add: line_unit_bytes_def Let_def)
    have at1: "dio_at ?s1 (line_header_bytes big p @ ops_bytes big asz ops @ bs)" using dio_at_append(2) [OF at0] by simp
    have y: "ucast ?x + 4 = (word_of_nat (?n + 4) :: u64)"
      using ucast_u32_u64 [of ?n] n False by simp
    have "unat (word_of_nat m :: u64) = m" if "m < 2 ^ 64" for m using that by (simp add: unat_of_nat)
    from this [of "?n + 4"] have x: "unat (ucast ?x + 4 :: u64) = ?n + 4" unfolding y using n False by simp
    have "unat ?x = ?n" using n False by (intro unat_u32) simp
    then have nx: "?x \<noteq> 0xffffffff" using n False by auto
    show ?thesis
      using run_load_v2 [of env r asz big ?s1 p ops bs u "ucast ?x + 4" k] l sp at1 x pos u False nx
        cu_ReadU4 [of s ?x _ u] at0 big
      by (simp add: act_simps line_unit_bytes_def Let_def add.assoc)
  qed
qed

end
