(* ===== verification/LineProps.thy ===== *)
theory LineProps
  imports LineProgram "HOL-Library.Product_Lexorder"
begin

text \<open>
  The loader of line number tables as a whole: from the section to the indexed table, what the index promises, and
  headers that the loader does not check.
\<close>

section \<open>Sorting\<close>

text \<open>What the code relies on from \<^verbatim>\<open>qsort\<close>: a permutation that is sorted by the comparator.\<close>

definition sorts :: "('a \<Rightarrow> 'a \<Rightarrow> int) \<Rightarrow> ('a list \<Rightarrow> 'a list) \<Rightarrow> bool" where
  "sorts c f \<longleftrightarrow> (\<forall>xs. mset (f xs) = mset xs \<and> sorted_wrt (\<lambda>x y. c x y \<le> 0) (f xs))"

definition sort_ok :: "SortEnv \<Rightarrow> bool" where
  "sort_ok senv \<longleftrightarrow> sorts state_address_comparator (qsort_states senv) \<and>
     (\<forall>ss. sorts (\<lambda>i j. state_text_pos_comparator (ss ! i) (ss ! j)) (qsort_index senv ss))"

text \<open>The table and the index that are made of the rows of a program.\<close>

definition indexed :: "SortEnv \<Rightarrow> LineNumbersState list \<Rightarrow> LineNumbersState list \<times> nat list" where
  "indexed senv rows =
     (let states = merge_rows (qsort_states senv rows); index = qsort_index senv states [0..<length states]
      in (set_positions 0 index states, index))"

section \<open>Loading\<close>

lemma run_load_body:
  assumes l: "line_ok env r asz big s" and ok: "line_unit_ok asz p ops"
    and at: "dio_at s (line_unit_bytes big asz p ops @ bs)" and u: "cu_mLineInfoOffs u = sDataPos s" "cu_mFiles u = []" "cu_mStates u = []"
    and v: "\<not> mVersion desc \<le> 1"
  shows "\<exists>s' u'. load_lines_body env senv desc (set_cu s u) = (Inr (), s') \<and> u' = lc_unit (d_client s') \<and> cu_mLineInfoLoaded u' \<and>
     (cu_mStates u', cu_mStatesIndex u') = indexed senv (table_rows (header_of p) (1 + length (lp_files p)) [] ops (line_start (header_of p))) \<and>
     sSection s' = None"
proof -
  let ?f = "zero_file\<lparr>fi_mDir := cu_mDir u, fi_mName := cu_name u\<rparr>"
  let ?u1 = "add_file_cu env ?f u" and ?rows = "table_rows (header_of p) (1 + length (lp_files p)) [] ops (line_start (header_of p))"
  let ?go = "bnd dio_ReadU4 (\<lambda>x. if x = 0xffffffff then bnd dio_ReadU8 (\<lambda>n. load_line_numbers_v2 env (n + 12) True)
          else load_line_numbers_v2 env (ucast x + 4) False)"
  have seen: "files_seen u 0 []" using u(2) by (simp add: files_seen_def)
  have f1: "files_seen ?u1 1 []" "cu_mStates ?u1 = []" "cu_mLineInfoOffs ?u1 = sDataPos s"
    using add_file_seen [OF seen, of ?f env] u by (simp_all add: zero_file_def add_file_keeps)
  obtain u2 where u2: "?go (set_cu s ?u1) = (Inr (), set_cu (adv s (length (line_unit_bytes big asz p ops))) u2)" "cu_mStates u2 = ?rows"
    using run_load_unit [OF l ok at f1(3,1)] f1(2) by auto
  have a: "add_file env ?f (set_cu s u) = (Inr (), set_cu s ?u1)"
    by (simp add: add_file_def add_file_cu_def act_simps)
  have b: "load_lines_body env senv desc = bnd the_unit (\<lambda>u. seq (add_file env (zero_file\<lparr>fi_mDir := cu_mDir u, fi_mName := cu_name u\<rparr>))
      (seq ?go (seq dio_ExitSection (seq (compute_reverse_lookup_indices senv) (upd_cu (\<lambda>u. u\<lparr>cu_mLineInfoLoaded := True\<rparr>))))))"
    unfolding load_lines_body_def seq_bnd using v by simp
  let ?s2 = "set_cu (adv s (length (line_unit_bytes big asz p ops))) u2"
  have "load_lines_body env senv desc (set_cu s u) =
      seq dio_ExitSection (seq (compute_reverse_lookup_indices senv) (upd_cu (\<lambda>u. u\<lparr>cu_mLineInfoLoaded := True\<rparr>))) ?s2"
    unfolding b using a u2(1) by (simp add: act_simps)
  moreover have "lc_unit (d_client ?s2) = u2" by simp
  ultimately show ?thesis using u2(2)
    by (simp add: act_simps dio_ExitSection_def compute_reverse_lookup_indices_def upd_cu_def indexed_def Let_def del: set_cu_simps)
qed

text \<open>C7: For every line number program of DWARF 2 to 4 (32-bit or 64-bit format, either byte order), with any header, any list
  of directories and files, and any sequence of the standard, special and extended instructions with their operands: the
  loader, started on the section that holds its encoding, ends without an error, marks the unit as loaded, and stores the
  table that the reference semantics gives for the program, sorted and merged as the index requires.
\<close>

theorem load_line_numbers_correct:
  assumes "d_client s = c" "lc_unit c = u" "d_units s (cu_desc u) = Some desc" "2 \<le> mVersion desc" "lc_mDebugLineV2 c = Some r"
    and "elf_load env r = None" "\<forall>pos n x. drl_relocate env r pos n x = Inr (x, None)"
    and "\<not> cu_mLineInfoLoaded u" "cu_mFiles u = []" "cu_mStates u = []"
    and "line_unit_ok (unat (mAddressSize desc)) p ops" and "cu_mLineInfoOffs u = length pre"
    and d: "sec_data (the_section env r) =
      pre @ line_unit_bytes (big_endian (elf_file env (fst r))) (unat (mAddressSize desc)) p ops @ post"
      "length (sec_data (the_section env r)) < U8_MAX1"
  shows "\<exists>s' u'. load_line_numbers env senv s = (Inr (), s') \<and> u' = lc_unit (d_client s') \<and> cu_mLineInfoLoaded u' \<and>
     (cu_mStates u', cu_mStatesIndex u') = indexed senv (table_rows (header_of p) (1 + length (lp_files p)) [] ops (line_start (header_of p)))"
proof -
  let ?big = "big_endian (elf_file env (fst r))" and ?asz = "unat (mAddressSize desc)"
  let ?b = "line_unit_bytes ?big ?asz p ops" and ?k = "cu_desc u"
  define s1 where "s1 = s\<lparr>sSection := Some r, sData := Some (pre @ ?b @ post), sDataPos := length pre, sDataLen := length (pre @ ?b @ post),
    sBigEndian := ?big, sAddressSize := ?asz, sRefAddressSize := ref_size desc, sUnit := Some ?k, dio_gEntryPos := 0\<rparr>"
  have b: "?b \<noteq> []" by (auto simp: line_unit_bytes_def Let_def line_header_bytes_def tail_bytes_def)
  have en: "dio_EnterSection env (Some ?k) r (length pre) s = (Inr (), s1)"
    using assms(3,6) d(1) b by (simp add: dio_EnterSection_def act_simps loaded_def Let_def s1_def)
  have s1: "set_cu s1 u = s1" using assms(1,2) by (simp add: set_cu_def s1_def)
  have l: "line_ok env r ?asz ?big s1" using assms(7) by (simp add: line_ok_def s1_def)
  have at: "dio_at s1 (?b @ post)" using d by (simp add: dio_at_def s1_def)
  have "(1 :: u16) < 2" by simp
  then have v: "\<not> mVersion desc \<le> 1" using assms(4) by (simp only: not_le order_less_le_trans)
  have pos: "cu_mLineInfoOffs u = sDataPos s1" using assms(12) by (simp add: s1_def)
  obtain s' u' where s': "load_lines_body env senv desc s1 = (Inr (), s')" "u' = lc_unit (d_client s')" "cu_mLineInfoLoaded u'"
    "(cu_mStates u', cu_mStatesIndex u') = indexed senv (table_rows (header_of p) (1 + length (lp_files p)) [] ops (line_start (header_of p)))"
    using run_load_body [OF l assms(11) at pos assms(9,10) v, of senv] unfolding s1 by blast
  have "load_line_numbers env senv s = (Inr (), s')"
    using assms v en s'(1) by (simp add: load_line_numbers_def act_simps)
  with s' show ?thesis by blast
qed

section \<open>The index\<close>

definition core :: "LineNumbersState \<Rightarrow> LineNumbersState" where
  "core t = t\<lparr>ls_mStatesIndexPos := 0\<rparr>"

lemma core_same:
  assumes "core a = core a'" "core b = core b'"
  shows "state_address_comparator a b = state_address_comparator a' b'"
    "state_text_pos_comparator a b = state_text_pos_comparator a' b'" "same_row a b = same_row a' b'"
  using assms by (cases a; cases b; cases a'; cases b';
    simp add: core_def state_address_comparator_def state_text_pos_comparator_def same_row_def)+

lemma merge_rows_set: "set (merge_rows ss) \<subseteq> set ss"
  by (induction ss rule: merge_rows.induct) (auto split: if_splits)

lemma merge_rows_sorted: "sorted_wrt P ss \<Longrightarrow> sorted_wrt P (merge_rows ss)"
proof (induction ss rule: merge_rows.induct)
  case (1 s1 s2 rest)
  then show ?case using merge_rows_set [of "s2 # rest"] by (cases "same_row s1 s2") auto
qed simp_all

lemma merge_rows_hd: "ss \<noteq> [] \<Longrightarrow> merge_rows ss \<noteq> [] \<and> hd (merge_rows ss) = hd ss"
  by (induction ss rule: merge_rows.induct) auto

lemma merge_rows_adjacent: "successively (\<lambda>a b. \<not> same_row a b) (merge_rows ss)"
proof (induction ss rule: merge_rows.induct)
  case (1 s1 s2 rest)
  then show ?case using merge_rows_hd [of "s2 # rest"] by (auto simp: successively_Cons)
qed simp_all

lemma same_row_trans: "same_row a b \<Longrightarrow> same_row b c \<Longrightarrow> same_row a c"
  by (simp add: same_row_def)

lemma merge_rows_cover:
  "sorted_wrt P ss \<Longrightarrow> (\<And>x. P x x) \<Longrightarrow> r \<in> set ss \<Longrightarrow> \<exists>t \<in> set (merge_rows ss). same_row t r \<and> P t r"
proof (induction ss rule: merge_rows.induct)
  case (1 s1 s2 rest)
  show ?case
  proof (cases "same_row s1 s2")
    case True
    show ?thesis
    proof (cases "r = s2")
      case True
      have "merge_rows (s1 # rest) \<noteq> []" "hd (merge_rows (s1 # rest)) = s1" using merge_rows_hd [of "s1 # rest"] by auto
      then have "s1 \<in> set (merge_rows (s1 # rest))" by (metis hd_in_set)
      then show ?thesis using True \<open>same_row s1 s2\<close> 1(3) by auto
    next
      case False
      then show ?thesis using 1 True by auto
    qed
  next
    case False
    then show ?thesis using 1 by (auto simp: same_row_def)
  qed
qed (auto simp: same_row_def)

lemma update_core: "k < length ss \<Longrightarrow> core (ss[j := (ss ! j)\<lparr>ls_mStatesIndexPos := i\<rparr>] ! k) = core (ss ! k)"
  by (cases "j = k") (simp_all add: core_def)

lemma set_positions_simps:
  "length (set_positions i ks ss) = length ss" "k < length ss \<Longrightarrow> core (set_positions i ks ss ! k) = core (ss ! k)"
  "k \<notin> set ks \<Longrightarrow> set_positions i ks ss ! k = ss ! k"
  by (induction i ks ss rule: set_positions.induct) (auto simp: update_core)

lemma set_positions_nth:
  "distinct ks \<Longrightarrow> \<forall>k \<in> set ks. k < length ss \<Longrightarrow> j < length ks \<Longrightarrow> ls_mStatesIndexPos (set_positions i ks ss ! (ks ! j)) = i + j"
proof (induction i ks ss arbitrary: j rule: set_positions.induct)
  case (2 i k ks ss)
  then show ?case by (cases j) (auto simp: set_positions_simps)
qed simp

lemma comparator_refl: "state_address_comparator a a = 0"
  by (simp add: state_address_comparator_def cmp_def)

lemma indexed_core:
  assumes "indexed senv rows = (states, index)"
  shows "length states = length (merge_rows (qsort_states senv rows))"
    "k < length states \<Longrightarrow> core (states ! k) = core (merge_rows (qsort_states senv rows) ! k)"
  using assms by (auto simp: indexed_def Let_def set_positions_simps)

lemma indexed_sorted:
  assumes "sort_ok senv" "indexed senv rows = (states, index)"
  shows "sorted_wrt (\<lambda>a b. state_address_comparator a b \<le> 0) states" "successively (\<lambda>a b. \<not> same_row a b) states"
proof -
  note c = indexed_core [OF assms(2)]
  have q: "sorted_wrt (\<lambda>a b. state_address_comparator a b \<le> 0) (qsort_states senv rows)"
    using assms(1) by (simp add: sort_ok_def sorts_def)
  show "sorted_wrt (\<lambda>a b. state_address_comparator a b \<le> 0) states"
    using merge_rows_sorted [OF q] core_same(1) [OF c(2) c(2)] c(1) by (simp add: sorted_wrt_iff_nth_less)
  show "successively (\<lambda>a b. \<not> same_row a b) states"
    using merge_rows_adjacent [of "qsort_states senv rows"] core_same(3) [OF c(2) c(2)] c(1) by (simp add: successively_conv_nth)
qed

text \<open>C16: With any sorting function that returns a sorted permutation, the index that is built from any list of rows is correct: the
  table is sorted by section and address, consists of rows of the program, and has no two adjacent rows that say the same;
  for each row of the program there is one in the table that says the same and does not come behind it; the text index is a
  permutation of the table sorted by file, line and column; and each row of the table knows its place in the text index.
\<close>

theorem line_index_correct:
  assumes "sort_ok senv" "indexed senv rows = (states, index)"
  shows "sorted_wrt (\<lambda>a b. state_address_comparator a b \<le> 0) states \<and> core ` set states \<subseteq> core ` set rows \<and>
     successively (\<lambda>a b. \<not> same_row a b) states \<and>
     (\<forall>row \<in> set rows. \<exists>t \<in> set states. same_row t row \<and> state_address_comparator t row \<le> 0) \<and>
     mset index = mset [0..<length states] \<and>
     sorted_wrt (\<lambda>i j. state_text_pos_comparator (states ! i) (states ! j) \<le> 0) index \<and>
     (\<forall>i < length index. ls_mStatesIndexPos (states ! (index ! i)) = i)"
proof -
  let ?q = "qsort_states senv rows"
  let ?m = "merge_rows ?q"
  have st: "states = set_positions 0 index ?m" and ix: "index = qsort_index senv ?m [0..<length ?m]"
    using assms(2) by (auto simp: indexed_def Let_def)
  have q: "mset ?q = mset rows" "sorted_wrt (\<lambda>a b. state_address_comparator a b \<le> 0) ?q"
    using assms(1) by (auto simp: sort_ok_def sorts_def)
  have perm: "mset index = mset [0..<length ?m]"
    and so: "sorted_wrt (\<lambda>i j. state_text_pos_comparator (?m ! i) (?m ! j) \<le> 0) index"
    using assms(1) unfolding ix by (auto simp: sort_ok_def sorts_def)
  have dist: "distinct index" "set index = {0..<length ?m}"
    using perm by (metis distinct_upt mset_eq_imp_distinct_iff) (metis perm atLeastLessThan_upt mset_eq_setD)
  have len: "length states = length ?m" and c: "k < length ?m \<Longrightarrow> core (states ! k) = core (?m ! k)" for k
    using indexed_core [OF assms(2)] by simp_all
  have "core ` set states \<subseteq> core ` set rows"
  proof -
    have "core ` set states = core ` set ?m" using c len by (auto simp: set_conv_nth image_def)
    also have "\<dots> \<subseteq> core ` set rows" using merge_rows_set [of ?q] mset_eq_setD [OF q(1)] by blast
    finally show ?thesis .
  qed
  moreover have "\<exists>t \<in> set states. same_row t row \<and> state_address_comparator t row \<le> 0" if "row \<in> set rows" for row
  proof -
    have "row \<in> set ?q" using that mset_eq_setD [OF q(1)] by simp
    then obtain t where t: "t \<in> set ?m" "same_row t row" "state_address_comparator t row \<le> 0"
      using merge_rows_cover [OF q(2), of row] comparator_refl by auto
    then obtain k where k: "k < length ?m" "same_row (?m ! k) row" "state_address_comparator (?m ! k) row \<le> 0"
      unfolding in_set_conv_nth by blast
    have "states ! k \<in> set states" using k(1) len by simp
    then show ?thesis using core_same(1,3) [OF c [OF k(1)], of row row] k(2,3) by auto
  qed
  moreover have "sorted_wrt (\<lambda>i j. state_text_pos_comparator (states ! i) (states ! j) \<le> 0) index"
    using so by (rule sorted_wrt_mono_rel [rotated]) (simp add: core_same(2) [OF c c] dist(2))
  moreover have "\<forall>i < length index. ls_mStatesIndexPos (states ! (index ! i)) = i"
    using set_positions_nth [OF dist(1), of ?m _ 0] dist(2) st by simp
  ultimately show ?thesis using perm len indexed_sorted [OF assms] by simp
qed

text \<open>The comparators are those of lexicographic orders, so that sorting by the keys is such a function.\<close>

definition address_key :: "LineNumbersState \<Rightarrow> u32 \<times> u64 \<times> nat \<times> u32 \<times> u32 \<times> u16" where
  "address_key t = (ls_mSection t, ls_mAddress t, if bit (ls_mFlags t) 4 then 0 else 1, ls_mFile t, ls_mLine t, ls_mColumn t)"

definition text_key :: "LineNumbersState \<Rightarrow> u32 \<times> u32 \<times> u16 \<times> u32 \<times> u64" where
  "text_key t = (ls_mFile t, ls_mLine t, ls_mColumn t, ls_mSection t, ls_mAddress t)"

lemma end_flag: "w AND LINE_EndSequence = 0 \<longleftrightarrow> \<not> bit w 4"
  using and_exp_eq_0_iff_not_bit [of w 4] by simp

lemma cmp_le: "cmp a b k \<le> 0 \<longleftrightarrow> a < b \<or> a = b \<and> k \<le> 0"
  by (auto simp: cmp_def)

lemma address_comparator_key: "state_address_comparator a b \<le> 0 \<longleftrightarrow> address_key a \<le> address_key b"
  by (auto simp: state_address_comparator_def address_key_def cmp_le end_flag bit_xor_iff)

lemma text_comparator_key: "state_text_pos_comparator a b \<le> 0 \<longleftrightarrow> text_key a \<le> text_key b"
  by (auto simp: state_text_pos_comparator_def text_key_def cmp_le)

definition key_sort :: SortEnv where
  "key_sort = \<lparr>qsort_states = sort_key address_key, qsort_index = (\<lambda>ss. sort_key (\<lambda>i. text_key (ss ! i)))\<rparr>"

lemma sort_key_sorts: "(\<And>a b. c a b \<le> 0 \<longleftrightarrow> f a \<le> f b) \<Longrightarrow> sorts c (sort_key f)"
  using sorted_sort_key [of f] by (simp add: sorts_def sorted_wrt_map sorted_map)

lemma key_sort_ok: "sort_ok key_sort"
  by (simp add: sort_ok_def key_sort_def sort_key_sorts address_comparator_key text_comparator_key)

section \<open>An example\<close>

definition ln_spec :: line_spec where
  "ln_spec = \<lparr>lp_64 = False, lp_version = 2, lp_min = 1, lp_max_ops = 1, lp_is_stmt = 1, lp_line_base = 0xfb, lp_line_range = 14,
     lp_sizes = [0, 1, 1, 1, 1, 0, 0, 0, 1], lp_dirs = [], lp_files = [([0x61], 0, 0, 0)]\<rparr>"

definition ln_ops :: "line_op list" where
  "ln_ops = [L_set_address 0x1000, L_advance_line 9, L_copy, L_special 0x20, L_special 0x20, L_end_sequence]"

definition ln_bytes :: "byte list" where
  "ln_bytes = line_unit_bytes False 4 ln_spec ln_ops"

definition ln_rows :: "LineNumbersState list" where
  "ln_rows = table_rows (header_of ln_spec) 2 [] ln_ops (line_start (header_of ln_spec))"

definition ln_env :: DioEnv where
  "ln_env = \<lparr>elf_file = (\<lambda>_. \<lparr>big_endian = False, elf64 = False, sections = [
       \<lparr>sec_name = [], sec_addr = 0, sec_data = [], sec_relocate = False\<rparr>,
       \<lparr>sec_name = ''.debug_line'', sec_addr = 0, sec_data = ln_bytes, sec_relocate = False\<rparr>], dwz_file = None\<rparr>),
     elf_load = (\<lambda>_. None), drl_relocate = (\<lambda>_ _ _ x. Inr (x, None)), errno = ERR_INV_DWARF\<rparr>"

definition ln_desc :: DIO_UnitDescriptor where
  "ln_desc = zero_unit\<lparr>mVersion := 2, mAddressSize := 4\<rparr>"

definition ln_unit :: CompUnit where
  "ln_unit = \<lparr>cu_desc = 0, cu_name = Null, cu_mDir = Null, cu_mLineInfoOffs = 0, cu_mFiles = [], cu_mDirs = [], cu_mStates = [],
     cu_mStatesIndex = [], cu_mLineInfoLoaded = False\<rparr>"

definition ln_client :: LineClient where
  "ln_client = \<lparr>lc_unit = ln_unit, lc_mDebugLineV1 = None, lc_mDebugLineV2 = Some (0, 1), lc_mFileInfoHash = None\<rparr>"

definition ln_state :: "LineClient DIO" where
  "ln_state = \<lparr>dio_gEntryPos = 0, dio_gFormData = 0, dio_gFormDataSize = 0, dio_gFormDataAddr = Null, dio_gFormSection = None,
     sSection = None, sBigEndian = False, sAddressSize = 0, sRefAddressSize = 0, sData = None, sDataPos = 0, sDataLen = 0,
     sUnit = None, d_units = [0 \<mapsto> ln_desc], d_caches = Map.empty, AbbrevBuf = [], d_client = ln_client\<rparr>"

lemma ln_indexed:
  "map (\<lambda>t. (ls_mAddress t, ls_mLine t)) (fst (indexed key_sort ln_rows)) = [(0x1000, 1), (0x1000, 10), (0x1001, 13), (0x1002, 16), (0x1002, 16)]"
  "snd (indexed key_sort ln_rows) = [0, 1, 2, 3, 4]"
  by code_simp+

lemma ln_ok: "line_unit_ok 4 ln_spec ln_ops"
proof -
  have len: "length (tail_bytes ln_spec) = 21" "length (line_header_bytes True ln_spec) = 27" "length (ops_bytes True 4 ln_ops) = 15" by code_simp+
  have "list_all (op_ok (header_of ln_spec) 4) ln_ops" by code_simp
  moreover have "line_spec_ok ln_spec" using len(1) by (simp add: line_spec_ok_def) (simp add: ln_spec_def)
  ultimately show ?thesis using len(2,3) by (simp add: line_unit_ok_def ln_spec_def)
qed

theorem load_line_numbers_correct_witness:
  "\<exists>s'. load_line_numbers ln_env key_sort ln_state = (Inr (), s') \<and>
     map (\<lambda>t. (ls_mAddress t, ls_mLine t)) (cu_mStates (lc_unit (d_client s'))) = [(0x1000, 1), (0x1000, 10), (0x1001, 13), (0x1002, 16), (0x1002, 16)] \<and>
     cu_mStatesIndex (lc_unit (d_client s')) = [0, 1, 2, 3, 4]"
proof -
  have len: "length ln_bytes = 46" by code_simp
  have d: "sec_data (the_section ln_env (0, 1)) = [] @ line_unit_bytes (big_endian (elf_file ln_env (fst (0 :: nat, 1 :: nat))))
      (unat (mAddressSize ln_desc)) ln_spec ln_ops @ []"
    by (simp add: the_section_def ln_env_def ln_bytes_def ln_desc_def)
  have "length (sec_data (the_section ln_env (0, 1))) < U8_MAX1"
    using len by (simp add: the_section_def ln_env_def U8_MAX1_def)
  moreover have "line_unit_ok (unat (mAddressSize ln_desc)) ln_spec ln_ops" using ln_ok by (simp add: ln_desc_def)
  moreover have "lc_unit ln_client = ln_unit" "d_client ln_state = ln_client" "d_units ln_state (cu_desc ln_unit) = Some ln_desc"
    "2 \<le> mVersion ln_desc" "lc_mDebugLineV2 ln_client = Some (0, 1)" "elf_load ln_env (0, 1) = None"
    "\<forall>pos n x. drl_relocate ln_env (0, 1) pos n x = Inr (x, None)" "\<not> cu_mLineInfoLoaded ln_unit" "cu_mFiles ln_unit = []"
    "cu_mStates ln_unit = []" "cu_mLineInfoOffs ln_unit = length ([] :: byte list)"
    by (simp_all add: ln_client_def ln_state_def ln_unit_def ln_desc_def ln_env_def)
  ultimately obtain s' u' where s': "load_line_numbers ln_env key_sort ln_state = (Inr (), s')" "u' = lc_unit (d_client s')"
    "(cu_mStates u', cu_mStatesIndex u') =
       indexed key_sort (table_rows (header_of ln_spec) (1 + length (lp_files ln_spec)) [] ln_ops (line_start (header_of ln_spec)))"
    using load_line_numbers_correct [OF _ _ _ _ _ _ _ _ _ _ _ _ d] by blast
  have "1 + length (lp_files ln_spec) = 2" by (simp add: ln_spec_def)
  then have "cu_mStates u' = fst (indexed key_sort ln_rows)" "cu_mStatesIndex u' = snd (indexed key_sort ln_rows)"
    using s'(3) by (simp_all add: ln_rows_def prod_eq_iff numeral_2_eq_2)
  then show ?thesis using s'(1,2) ln_indexed by auto
qed

theorem line_index_correct_witness:
  "sorted_wrt (\<lambda>a b. state_address_comparator a b \<le> 0) (fst (indexed key_sort ln_rows)) \<and>
   length (fst (indexed key_sort ln_rows)) = 5"
proof -
  have "indexed key_sort ln_rows = (fst (indexed key_sort ln_rows), snd (indexed key_sort ln_rows))" by simp
  from line_index_correct [OF key_sort_ok this] have "sorted_wrt (\<lambda>a b. state_address_comparator a b \<le> 0) (fst (indexed key_sort ln_rows))"
    by blast
  moreover have "length (fst (indexed key_sort ln_rows)) = 5" by code_simp
  ultimately show ?thesis by blast
qed

section \<open>Headers that are not checked\<close>

text \<open>C39: The loader divides by the line range of the header without a test. If the header says 0, then every program that starts
  with a special instruction makes it divide by zero, whatever follows.
\<close>

theorem line_range_zero:
  assumes l: "line_ok env r asz big s" and ok: "line_spec_ok p" "lp_line_range p = 0" and oc: "word_of_nat (length (lp_sizes p) + 1) \<le> oc"
    and at: "dio_at s (line_header_bytes big p @ oc # bs)"
    and n: "sDataPos s + length (line_header_bytes big p) < cu_mLineInfoOffs u + unat n" "cu_mLineInfoOffs u + unat n < U8_MAX1"
  shows "fst (load_line_numbers_v2 env n (lp_64 p) (set_cu s u)) = Inl Undefined_Behaviour"
proof -
  let ?m = "length (line_header_bytes big p)" and ?h = "header_of p" and ?u1 = "header_unit env r (sDataPos s) p u"
  have at1: "dio_at (adv s ?m) (oc # bs)" by (rule dio_at_append(2) [OF at])
  have "cu_mLineInfoOffs ?u1 = cu_mLineInfoOffs u"
  proof -
    have "cu_mLineInfoOffs (files_unit env r pos fs v) = cu_mLineInfoOffs v" for pos fs v
      by (induction env r pos fs v rule: files_unit.induct) (simp_all add: add_file_keeps)
    then show ?thesis by (simp add: header_unit_def dirs_unit_keeps)
  qed
  moreover have "run_opcode env ?h (line_start ?h) (set_cu (adv s ?m) ?u1) = (Inl Undefined_Behaviour, set_cu (adv s (?m + 1)) ?u1)"
    using cu_ReadU1 [OF at1, of ?u1] ok(2) oc by (simp add: run_opcode_def act_simps special_opcode_def Let_def header_of_def)
  moreover have "data_fuel (adv s ?m) = Suc (sDataLen s)" by (simp add: data_fuel_def)
  ultimately show ?thesis
    using run_line_header [OF l ok(1) at, of u] n by (simp add: load_line_numbers_v2_def act_simps cu_GetPos)
qed

definition zero_spec :: line_spec where
  "zero_spec = ln_spec\<lparr>lp_line_range := 0\<rparr>"

definition zero_line :: "LineClient DIO" where
  "zero_line = ln_state\<lparr>sSection := Some (0, 1), sAddressSize := 4, sData := Some (line_header_bytes False zero_spec @ [0x20]), sDataLen := 28\<rparr>"

theorem line_range_zero_witness:
  "fst (load_line_numbers_v2 ln_env 28 False (set_cu zero_line ln_unit)) = Inl Undefined_Behaviour"
proof -
  have len: "length (tail_bytes zero_spec) = 21" "length (line_header_bytes False zero_spec) = 27" by code_simp+
  have "line_ok ln_env (0, 1) 4 False zero_line" by (simp add: line_ok_def zero_line_def ln_state_def ln_env_def)
  moreover have "line_spec_ok zero_spec" using len(1) by (simp add: line_spec_ok_def) (simp add: zero_spec_def ln_spec_def)
  moreover have "lp_line_range zero_spec = 0" "word_of_nat (length (lp_sizes zero_spec) + 1) \<le> (0x20 :: byte)" by code_simp+
  moreover have "dio_at zero_line (line_header_bytes False zero_spec @ 0x20 # [])"
    using len(2) by (simp add: dio_at_def zero_line_def ln_state_def U8_MAX1_def)
  ultimately have "fst (load_line_numbers_v2 ln_env 28 (lp_64 zero_spec) (set_cu zero_line ln_unit)) = Inl Undefined_Behaviour"
    by (rule line_range_zero) (simp_all add: len(2) zero_line_def ln_state_def ln_unit_def U8_MAX1_def)
  then show ?thesis by (simp add: zero_spec_def ln_spec_def)
qed

text \<open>A unit whose line number offset lies outside the section stops the loader with a failed assertion.\<close>

lemma load_line_numbers_bad_offset:
  assumes "d_units s (cu_desc (lc_unit (d_client s))) = Some desc" "\<not> mVersion desc \<le> 1" "lc_mDebugLineV2 (d_client s) = Some r"
    and "\<not> cu_mLineInfoLoaded (lc_unit (d_client s))" "elf_load env r = None"
    and "length (sec_data (the_section env r)) \<le> cu_mLineInfoOffs (lc_unit (d_client s))"
  shows "fst (load_line_numbers env senv s) = Inl Assertion_Failed"
  using assms by (cases "sec_data (the_section env r) = []")
    (simp_all add: load_line_numbers_def act_simps dio_EnterSection_def loaded_def Let_def check_def seq_def bnd_def)

end
