(* ===== verification/LineLookup.thy ===== *)
theory LineLookup
  imports LineProps
begin

text \<open>
  Lookups in a loaded line number table (\<^verbatim>\<open>services/linenumbers_elf.c\<close>): from an address to source lines and from a
  source line to addresses, for one unit. The calls of the client's function are the result. Pointers to rows are indices. What the services for
  memory maps and path names answer is a parameter.
\<close>

section \<open>Data\<close>

text \<open>The name of a file is given as it is, or is put together from a directory and a name.\<close>

datatype AreaFile = Name data_ptr | Joined data_ptr data_ptr

record CodeArea =
  ca_start_line :: int
  ca_start_column :: int
  ca_end_line :: int
  ca_end_column :: int
  ca_directory :: data_ptr
  ca_file :: AreaFile
  ca_file_mtime :: u32
  ca_file_size :: u32
  ca_start_address :: u64
  ca_end_address :: u64
  ca_next_address :: u64
  ca_isa :: int
  ca_is_statement :: bool
  ca_basic_block :: bool
  ca_prologue_end :: bool
  ca_epilogue_begin :: bool
  ca_op_index :: int
  ca_discriminator :: int

record LookupEnv =
  is_absolute_path :: "data_ptr \<Rightarrow> bool"
  elf_map_to_run_time_address :: "u32 \<Rightarrow> u64 \<Rightarrow> u64"
  elf_run_time_address_in_region :: "u32 \<Rightarrow> u64 \<Rightarrow> u64 option"

record UnitAddressRange =
  ra_mSection :: u32
  ra_mAddr :: u64
  ra_mSize :: u64

abbreviation row :: "CompUnit \<Rightarrow> nat \<Rightarrow> LineNumbersState" where
  "row u k \<equiv> cu_mStates u ! k"

abbreviation rows_cnt :: "CompUnit \<Rightarrow> nat" where
  "rows_cnt u \<equiv> length (cu_mStates u)"

section \<open>Neighbours\<close>

fun text_scan :: "CompUnit \<Rightarrow> LineNumbersState \<Rightarrow> nat list \<Rightarrow> nat option" where
  "text_scan u state [] = None"
| "text_scan u state (next # index) =
     (if ls_mLine (row u next) = ls_mLine state \<and> ls_mColumn (row u next) = ls_mColumn state then text_scan u state index
      else if ls_mFile state \<noteq> ls_mFile (row u next) then None
      else Some next)"

definition get_next_in_text :: "CompUnit \<Rightarrow> nat \<Rightarrow> nat option" where
  "get_next_in_text u k = text_scan u (row u k) (drop (ls_mStatesIndexPos (row u k) + 1) (cu_mStatesIndex u))"

function code_scan :: "CompUnit \<Rightarrow> LineNumbersState \<Rightarrow> nat \<Rightarrow> nat option" where
  "code_scan u state next =
     (if ls_mFile (row u next) \<noteq> ls_mFile state then Some next
      else if ls_mLine (row u next) \<noteq> ls_mLine state then Some next
      else if ls_mColumn (row u next) \<noteq> ls_mColumn state then Some next
      else if ls_mSection (row u next) \<noteq> ls_mSection state then None
      else if ls_mFlags (row u next) \<noteq> ls_mFlags state then Some next
      else if ls_mISA (row u next) \<noteq> ls_mISA state then Some next
      else if ls_mOpIndex (row u next) \<noteq> ls_mOpIndex state then Some next
      else if ls_mDiscriminator (row u next) \<noteq> ls_mDiscriminator state then Some next
      else if next + 1 \<ge> rows_cnt u then Some next
      else code_scan u state (next + 1))"
  by pat_completeness auto
termination
  by (relation "measure (\<lambda>(u, state, next). rows_cnt u - next)") auto

declare code_scan.simps [simp del]

definition get_next_in_code :: "CompUnit \<Rightarrow> nat \<Rightarrow> nat option" where
  "get_next_in_code u k =
     (if ls_mFlags (row u k) AND LINE_EndSequence \<noteq> 0 then None
      else if k + 1 \<ge> rows_cnt u then None
      else code_scan u (row u k) (k + 1))"

section \<open>The calls of the client\<close>

text \<open>
  The area of row \<open>k\<close>; \<open>None\<close> if there is no call. The name that is put together is kept in the row for the next call, which gives the
  same name again.
\<close>

definition call_client :: "LookupEnv \<Rightarrow> CompUnit \<Rightarrow> nat \<Rightarrow> nat option \<Rightarrow> nat option \<Rightarrow> u64 \<Rightarrow> CodeArea option outcome" where
  "call_client env u k code_next text_next state_addr =
     (case code_next of
        None \<Rightarrow> Inr None
      | Some c \<Rightarrow>
          let state = row u k; file_info = cu_mFiles u ! unat (ls_mFile state) in
          if ls_mSection state \<noteq> ls_mSection (row u c) then Inl Assertion_Failed
          else if unat (ls_mFile state) \<ge> length (cu_mFiles u) then Inl Undefined_Behaviour
          else
            let joined = \<not> is_absolute_path env (fi_mName file_info) \<and> fi_mDir file_info \<noteq> Null;
                absdir = joined \<and> is_absolute_path env (fi_mDir file_info)
            in Inr (Some \<lparr>ca_start_line = sint (ls_mLine state), ca_start_column = uint (ls_mColumn state),
              ca_end_line = (case text_next of Some t \<Rightarrow> sint (ls_mLine (row u t)) | None \<Rightarrow> sint (ls_mLine state + 1)),
              ca_end_column = (case text_next of Some t \<Rightarrow> uint (ls_mColumn (row u t)) | None \<Rightarrow> 0),
              ca_directory = (if absdir then fi_mDir file_info else cu_mDir u),
              ca_file = (if joined \<and> \<not> absdir then Joined (fi_mDir file_info) (fi_mName file_info) else Name (fi_mName file_info)),
              ca_file_mtime = fi_mModTime file_info, ca_file_size = fi_mSize file_info, ca_start_address = state_addr,
              ca_end_address = ls_mAddress (row u c) - ls_mAddress state + state_addr,
              ca_next_address = (case text_next of None \<Rightarrow> 0 | Some t \<Rightarrow>
                if ls_mSection (row u t) = ls_mSection state then ls_mAddress (row u t) - ls_mAddress state + state_addr
                else elf_map_to_run_time_address env (ls_mSection (row u t)) (ls_mAddress (row u t))),
              ca_isa = uint (ls_mISA state), ca_is_statement = (ls_mFlags state AND LINE_IsStmt \<noteq> 0),
              ca_basic_block = (ls_mFlags state AND LINE_BasicBlock \<noteq> 0), ca_prologue_end = (ls_mFlags state AND LINE_PrologueEnd \<noteq> 0),
              ca_epilogue_begin = (ls_mFlags state AND LINE_EpilogueBegin \<noteq> 0), ca_op_index = uint (ls_mOpIndex state),
              ca_discriminator = uint (ls_mDiscriminator state)\<rparr>))"

definition emit :: "CodeArea option outcome \<Rightarrow> CodeArea list outcome \<Rightarrow> CodeArea list outcome" where
  "emit r rest = (case r of Inl e \<Rightarrow> Inl e | Inr a \<Rightarrow> (case rest of Inl e \<Rightarrow> Inl e
     | Inr as \<Rightarrow> Inr ((case a of None \<Rightarrow> [] | Some a \<Rightarrow> [a]) @ as)))"

section \<open>From addresses to lines\<close>

fun addr_back :: "CompUnit \<Rightarrow> u64 \<Rightarrow> u64 \<Rightarrow> nat \<Rightarrow> nat" where
  "addr_back u addr_min addr_max 0 = 0"
| "addr_back u addr_min addr_max (Suc k) =
     (if ls_mAddress (row u (Suc k)) \<le> addr_min then Suc k
      else if ls_mAddress (row u k) \<ge> addr_max then Suc k
      else addr_back u addr_min addr_max k)"

lemma code_scan_greater: "code_scan u state n = Some c \<Longrightarrow> n \<le> c"
proof (induction u state n rule: code_scan.induct)
  case (1 u state n)
  then show ?case by (subst (asm) (2) code_scan.simps) (fastforce split: if_splits)
qed

lemma get_next_in_code_greater: "get_next_in_code u k = Some c \<Longrightarrow> k < c"
  using code_scan_greater [of u "row u k" "k + 1" c] by (auto simp: get_next_in_code_def split: if_splits)

function addr_forward :: "LookupEnv \<Rightarrow> CompUnit \<Rightarrow> UnitAddressRange \<Rightarrow> u64 \<Rightarrow> u64 \<Rightarrow> nat \<Rightarrow> CodeArea list outcome" where
  "addr_forward env u rng rt addr_max k =
     (let state = row u k;
          code_next = get_next_in_code u k;
          k' = (case code_next of Some c \<Rightarrow> c | None \<Rightarrow> k + 1);
          call = (case code_next of None \<Rightarrow> Inr None | Some c \<Rightarrow>
            if ls_mAddress state < ls_mAddress (row u c)
            then call_client env u k code_next (get_next_in_text u k) (ls_mAddress state - ra_mAddr rng + rt)
            else Inr None)
      in emit call
           (if k' \<ge> rows_cnt u then Inr []
            else if ls_mAddress (row u k') \<ge> addr_max then Inr []
            else addr_forward env u rng rt addr_max k'))"
  by pat_completeness auto
termination
  by (relation "measure (\<lambda>(env, u, range, rt, addr_max, k). rows_cnt u - k)")
    (auto split: option.splits dest: get_next_in_code_greater)

declare addr_forward.simps [simp del]

function addr_search ::
    "LookupEnv \<Rightarrow> CompUnit \<Rightarrow> UnitAddressRange \<Rightarrow> u64 \<Rightarrow> u64 \<Rightarrow> u64 \<Rightarrow> nat \<Rightarrow> nat \<Rightarrow> CodeArea list outcome" where
  "addr_search env u rng rt addr_min addr_max l h =
     (if l < h then
        let k = (h + l) div 2; state = row u k in
        if ls_mSection state > ra_mSection rng then addr_search env u rng rt addr_min addr_max l k
        else if ls_mSection state < ra_mSection rng then addr_search env u rng rt addr_min addr_max (k + 1) h
        else if ls_mAddress state \<ge> addr_max then addr_search env u rng rt addr_min addr_max l k
        else
          (case get_next_in_code u k of
             None \<Rightarrow> addr_search env u rng rt addr_min addr_max (k + 1) h
           | Some next \<Rightarrow>
               if ls_mAddress (row u next) \<le> addr_min then addr_search env u rng rt addr_min addr_max (k + 1) h
               else addr_forward env u rng rt addr_max (addr_back u addr_min addr_max k))
      else Inr [])"
  by pat_completeness auto
termination
  by (relation "measure (\<lambda>(env, u, range, rt, addr_min, addr_max, l, h). h - l)") auto

declare addr_search.simps [simp del]

text \<open>
  The part of \<^verbatim>\<open>address_to_line\<close> that deals with one range of a unit whose table is loaded: \<open>rt\<close> is the run-time address of the
  range, \<open>addr0\<close> and \<open>addr1\<close> are the run-time addresses that are asked for.
\<close>

definition unit_address_to_line :: "LookupEnv \<Rightarrow> CompUnit \<Rightarrow> UnitAddressRange \<Rightarrow> u64 \<Rightarrow> u64 \<Rightarrow> u64 \<Rightarrow> CodeArea list outcome" where
  "unit_address_to_line env u rng rt addr0 addr1 =
     (if rows_cnt u \<ge> 2 then
        let addr_min = addr0 - rt + ra_mAddr rng;
            addr_max = addr1 - rt + ra_mAddr rng;
            addr_min = (if addr_min < ra_mAddr rng then ra_mAddr rng else addr_min);
            addr_max = (if addr_max > ra_mAddr rng + ra_mSize rng then ra_mAddr rng + ra_mSize rng else addr_max)
        in addr_search env u rng rt addr_min addr_max 0 (rows_cnt u)
      else Inr [])"

section \<open>From lines to addresses\<close>

text \<open>The line and column where the text of a row ends.\<close>

definition text_end :: "CompUnit \<Rightarrow> nat \<Rightarrow> u32 \<times> u32" where
  "text_end u k = (case get_next_in_text u k of
       Some t \<Rightarrow> (ls_mLine (row u t), ucast (ls_mColumn (row u t))) | None \<Rightarrow> (ls_mLine (row u k) + 1, 0))"

fun line_back :: "CompUnit \<Rightarrow> nat \<Rightarrow> nat" where
  "line_back u 0 = 0"
| "line_back u (Suc i) =
     (let state = row u (cu_mStatesIndex u ! Suc i); prev = row u (cu_mStatesIndex u ! i)
      in if ls_mFile prev \<noteq> ls_mFile state then Suc i
         else if ls_mLine prev \<noteq> ls_mLine state then Suc i
         else if ls_mColumn prev \<noteq> ls_mColumn state then Suc i
         else line_back u i)"

function line_forward :: "LookupEnv \<Rightarrow> CompUnit \<Rightarrow> u32 \<Rightarrow> u32 \<Rightarrow> u32 \<Rightarrow> nat \<Rightarrow> CodeArea list outcome" where
  "line_forward env u file line column i =
     (let k = cu_mStatesIndex u ! i; state = row u k;
          call = (case elf_run_time_address_in_region env (ls_mSection state) (ls_mAddress state) of
            None \<Rightarrow> Inr None
          | Some addr \<Rightarrow>
              (case get_next_in_code u k of
                 None \<Rightarrow> Inr None
               | Some c \<Rightarrow>
                   let (next_line, next_column) = text_end u k in
                   if next_line > line \<or> next_line = line \<and> next_column > column then
                     if \<not> ls_mLine state \<le> line \<or> \<not> (ls_mLine state < line \<or> ucast (ls_mColumn state) \<le> column) then Inl Assertion_Failed
                     else call_client env u k (Some c) (get_next_in_text u k) addr
                   else Inr None))
      in emit call
           (if i + 1 \<ge> rows_cnt u then Inr []
            else
              let state = row u (cu_mStatesIndex u ! (i + 1)) in
              if ls_mFile state > file then Inr []
              else if ls_mLine state > line then Inr []
              else if ucast (ls_mColumn state) > column then Inr []
              else line_forward env u file line column (i + 1)))"
  by pat_completeness auto
termination
  by (relation "measure (\<lambda>(env, u, file, line, column, i). rows_cnt u - i)") auto

declare line_forward.simps [simp del]

function line_search :: "LookupEnv \<Rightarrow> CompUnit \<Rightarrow> u32 \<Rightarrow> u32 \<Rightarrow> u32 \<Rightarrow> nat \<Rightarrow> nat \<Rightarrow> CodeArea list outcome" where
  "line_search env u file line column l h =
     (if l < h then
        let i = (h + l) div 2; k = cu_mStatesIndex u ! i; state = row u k in
        if ls_mFile state < file then line_search env u file line column (i + 1) h
        else if ls_mFile state > file \<or> ls_mLine state > line \<or> ls_mLine state = line \<and> ucast (ls_mColumn state) > column
        then line_search env u file line column l i
        else
          let (next_line, next_column) = text_end u k in
          if next_line < line \<or> next_line = line \<and> next_column \<le> column then line_search env u file line column (i + 1) h
          else if ls_mFile state \<noteq> file then Inl Assertion_Failed
          else line_forward env u file line column (line_back u i)
      else Inr [])"
  by pat_completeness auto
termination
  by (relation "measure (\<lambda>(env, u, file, line, column, l, h). h - l)") auto

declare line_search.simps [simp del]

definition unit_line_to_address :: "LookupEnv \<Rightarrow> CompUnit \<Rightarrow> u32 \<Rightarrow> u32 \<Rightarrow> u32 \<Rightarrow> CodeArea list outcome" where
  "unit_line_to_address env u file line column =
     (if rows_cnt u \<ge> 2 then line_search env u file line column 0 (rows_cnt u) else Inr [])"

end
