(* ===== verification/LookupProps.thy ===== *)
theory LookupProps
  imports LineLookup
begin

text \<open>
  Lookups in line number tables: a single address is found in every table that is sorted and ends its sequences, and a range of
  addresses may be missed.
\<close>

section \<open>Tables\<close>

definition table_wf :: "CompUnit \<Rightarrow> bool" where
  "table_wf u \<longleftrightarrow> sorted_wrt (\<lambda>a b. state_address_comparator a b \<le> 0) (cu_mStates u) \<and>
     successively (\<lambda>a b. \<not> same_row a b) (cu_mStates u) \<and>
     (\<forall>k < rows_cnt u. k + 1 = rows_cnt u \<or> ls_mSection (row u k) \<noteq> ls_mSection (row u (k + 1)) \<longrightarrow>
        ls_mFlags (row u k) AND LINE_EndSequence \<noteq> 0) \<and>
     (\<forall>k < rows_cnt u. unat (ls_mFile (row u k)) < length (cu_mFiles u))"

text \<open>Row \<open>k\<close> describes the instruction at \<open>a\<close>.\<close>

definition covers :: "CompUnit \<Rightarrow> u32 \<Rightarrow> u64 \<Rightarrow> nat \<Rightarrow> bool" where
  "covers u sec a k \<longleftrightarrow> k + 1 < rows_cnt u \<and> ls_mSection (row u k) = sec \<and> ls_mFlags (row u k) AND LINE_EndSequence = 0 \<and>
     ls_mAddress (row u k) \<le> a \<and> a < ls_mAddress (row u (k + 1))"

lemma table_sorted:
  assumes "table_wf u" "i \<le> j" "j < rows_cnt u"
  shows "ls_mSection (row u i) \<le> ls_mSection (row u j)"
    "ls_mSection (row u i) = ls_mSection (row u j) \<Longrightarrow> ls_mAddress (row u i) \<le> ls_mAddress (row u j)"
proof -
  have "address_key (row u i) \<le> address_key (row u j)"
  proof (cases "i = j")
    case False
    then have "i < j" using assms(2) by simp
    then show ?thesis using assms by (simp add: table_wf_def sorted_wrt_iff_nth_less address_comparator_key)
  qed simp
  then show "ls_mSection (row u i) \<le> ls_mSection (row u j)"
    "ls_mSection (row u i) = ls_mSection (row u j) \<Longrightarrow> ls_mAddress (row u i) \<le> ls_mAddress (row u j)"
    by (auto simp: address_key_def)
qed

lemma table_next:
  assumes u: "table_wf u" and k: "k < rows_cnt u" "ls_mFlags (row u k) AND LINE_EndSequence = 0"
  shows "k + 1 < rows_cnt u" "ls_mSection (row u (k + 1)) = ls_mSection (row u k)" "get_next_in_code u k = Some (k + 1)"
proof -
  have e: "\<not> (k + 1 = rows_cnt u \<or> ls_mSection (row u k) \<noteq> ls_mSection (row u (k + 1)))"
    using u k unfolding table_wf_def by blast
  then show n: "k + 1 < rows_cnt u" and s: "ls_mSection (row u (k + 1)) = ls_mSection (row u k)" using k(1) by auto
  have "\<not> same_row (row u k) (row u (k + 1))" using u n by (auto simp: table_wf_def successively_conv_nth)
  then have "code_scan u (row u k) (k + 1) = Some (k + 1)"
    using s by (subst code_scan.simps) (auto simp: same_row_def)
  then show "get_next_in_code u k = Some (k + 1)" using k(2) n by (simp add: get_next_in_code_def)
qed

lemma end_no_next: "ls_mFlags (row u k) AND LINE_EndSequence \<noteq> 0 \<Longrightarrow> get_next_in_code u k = None"
  by (simp add: get_next_in_code_def)

lemma covers_section: "table_wf u \<Longrightarrow> covers u sec a k \<Longrightarrow> ls_mSection (row u (k + 1)) = sec"
  using table_next(2) [of u k] by (auto simp: covers_def)

lemma covers_bounds:
  assumes u: "table_wf u" and c: "covers u sec a k" and j: "j < rows_cnt u" "ls_mSection (row u j) = sec"
  shows "ls_mAddress (row u j) \<le> a \<Longrightarrow> j \<le> k" "a < ls_mAddress (row u j) \<Longrightarrow> k < j"
proof -
  have s: "ls_mSection (row u (k + 1)) = sec" by (rule covers_section [OF u c])
  show "j \<le> k" if "ls_mAddress (row u j) \<le> a"
  proof (rule ccontr)
    assume "\<not> j \<le> k"
    then have "ls_mAddress (row u (k + 1)) \<le> ls_mAddress (row u j)" using table_sorted(2) [OF u, of "k + 1" j] s j by simp
    with that c show False by (auto simp: covers_def)
  qed
  show "k < j" if "a < ls_mAddress (row u j)"
  proof (rule ccontr)
    assume "\<not> k < j"
    then have "ls_mAddress (row u j) \<le> ls_mAddress (row u k)" using table_sorted(2) [OF u, of j k] c j by (simp add: covers_def)
    with that c show False by (auto simp: covers_def)
  qed
qed

lemma covers_unique: "table_wf u \<Longrightarrow> covers u sec a k \<Longrightarrow> covers u sec a k' \<Longrightarrow> k = k'"
  using covers_bounds(1) [of u sec a k k'] covers_bounds(1) [of u sec a k' k] by (auto simp: covers_def)

lemma covers_sections:
  assumes u: "table_wf u" and c: "covers u sec a k" and j: "j < rows_cnt u"
  shows "sec < ls_mSection (row u j) \<Longrightarrow> k < j" "ls_mSection (row u j) < sec \<Longrightarrow> j < k"
  using table_sorted(1) [OF u, of j k] table_sorted(1) [OF u, of k j] c j by (force simp: covers_def not_less)+

section \<open>One address\<close>

definition area_call :: "LookupEnv \<Rightarrow> CompUnit \<Rightarrow> UnitAddressRange \<Rightarrow> u64 \<Rightarrow> nat \<Rightarrow> CodeArea option outcome" where
  "area_call env u rng rt k =
     call_client env u k (Some (k + 1)) (get_next_in_text u k) (ls_mAddress (row u k) - ra_mAddr rng + rt)"

lemma run_area_call:
  assumes "table_wf u" "covers u sec a k"
  shows "\<exists>area. area_call env u rng rt k = Inr (Some area) \<and> ca_start_line area = sint (ls_mLine (row u k)) \<and>
     ca_start_column area = uint (ls_mColumn (row u k)) \<and> ca_start_address area = ls_mAddress (row u k) - ra_mAddr rng + rt \<and>
     ca_end_address area = ls_mAddress (row u (k + 1)) - ra_mAddr rng + rt"
proof -
  have "k < rows_cnt u" "ls_mSection (row u k) = ls_mSection (row u (k + 1))"
    using assms(2) covers_section [OF assms] by (auto simp: covers_def)
  then have "unat (ls_mFile (row u k)) < length (cu_mFiles u)" using assms(1) unfolding table_wf_def by blast
  then show ?thesis using \<open>ls_mSection (row u k) = _\<close> by (simp add: area_call_def call_client_def Let_def not_le)
qed

lemma forward_one:
  assumes u: "table_wf u" and c: "covers u sec a k" "area_call env u rng rt k = Inr (Some area)"
  shows "addr_forward env u rng rt (a + 1) (addr_back u a (a + 1) k) = Inr [area]"
proof -
  have b: "addr_back u a (a + 1) k = k" using c by (cases k) (simp_all add: covers_def)
  have n: "get_next_in_code u k = Some (k + 1)" "k + 1 < rows_cnt u" using table_next [OF u, of k] c by (auto simp: covers_def)
  have "a < ls_mAddress (row u (k + 1))" "ls_mAddress (row u k) < ls_mAddress (row u (k + 1))" using c(1) by (auto simp: covers_def)
  moreover from this(1) have "a + 1 \<le> ls_mAddress (row u (k + 1))" by (metis inc_le)
  ultimately show ?thesis
    unfolding b using n c(2) by (subst addr_forward.simps) (simp add: area_call_def emit_def Let_def)
qed

lemma mid_next:
  assumes u: "table_wf u" and k: "k < rows_cnt u"
  shows "get_next_in_code u k = (if ls_mFlags (row u k) AND LINE_EndSequence = 0 then Some (k + 1) else None)"
  using table_next(3) [OF u k] end_no_next [of u k] by simp

lemma less_inc:
  fixes a c :: u64
  assumes "a < c"
  shows "a < a + 1"
proof -
  have "unat a < unat c" "unat c < 2 ^ 64" using assms unsigned_less [of c] by (simp_all add: word_less_nat_alt)
  then have "unat (a + 1) = unat a + 1" by (simp add: unat_word_ariths)
  then show ?thesis by (simp add: word_less_nat_alt)
qed

lemma inc_le_iff: "a < a + 1 \<Longrightarrow> a + 1 \<le> x \<longleftrightarrow> a < x" for a x :: u64
  using inc_le [of a x] by (meson less_le_trans)

lemma search_hit:
  assumes u: "table_wf u" and a: "a < a + 1"
    and c: "covers u (ra_mSection rng) a k" "area_call env u rng rt k = Inr (Some area)"
  shows "l \<le> k \<Longrightarrow> k < h \<Longrightarrow> h \<le> rows_cnt u \<Longrightarrow> addr_search env u rng rt a (a + 1) l h = Inr [area]"
proof (induction "h - l" arbitrary: l h rule: less_induct)
  case less
  define m where "m = (h + l) div 2"
  have m: "l \<le> m" "m < h" "m < rows_cnt u" using less.prems by (auto simp: m_def)
  note step = addr_search.simps [of env u rng rt a "a + 1" l h]
  consider "m = k" | "k < m" | "m < k" by linarith
  then show ?case
  proof cases
    case 1
    then show ?thesis using c(1) less.prems forward_one [OF u c] m mid_next [OF u m(3)]
      by (auto simp: step covers_def m_def [symmetric] inc_le_iff [OF a] Let_def)
  next
    case 2
    then have "addr_search env u rng rt a (a + 1) l m = Inr [area]" using less.hyps [of m l] less.prems m by simp
    moreover have "ls_mSection (row u m) > ra_mSection rng \<or> ls_mSection (row u m) = ra_mSection rng \<and> \<not> ls_mAddress (row u m) \<le> a"
      using 2 covers_sections(2) [OF u c(1) m(3)] covers_bounds(1) [OF u c(1) m(3)] by (metis leD less_imp_le linorder_neqE)
    ultimately show ?thesis using less.prems by (auto simp: step m_def [symmetric] inc_le_iff [OF a] Let_def)
  next
    case 3
    then have "addr_search env u rng rt a (a + 1) (m + 1) h = Inr [area]" using less.hyps [of h "m + 1"] less.prems m by simp
    moreover have "\<not> ls_mSection (row u m) > ra_mSection rng"
      "ls_mSection (row u m) = ra_mSection rng \<Longrightarrow> \<not> a < ls_mAddress (row u m)"
      using 3 covers_sections(1) [OF u c(1) m(3)] covers_bounds(2) [OF u c(1) m(3)] by auto
    moreover have "ls_mAddress (row u (m + 1)) \<le> a"
      if "ls_mSection (row u m) = ra_mSection rng" "ls_mFlags (row u m) AND LINE_EndSequence = 0"
    proof -
      have "ls_mSection (row u (m + 1)) = ra_mSection rng" "m + 1 < rows_cnt u" using table_next [OF u m(3) that(2)] that(1) by auto
      then have "\<not> a < ls_mAddress (row u (m + 1))" using 3 covers_bounds(2) [OF u c(1), of "m + 1"] by auto
      then show ?thesis by simp
    qed
    ultimately show ?thesis using less.prems
      by (simp add: step m_def [symmetric] mid_next [OF u m(3)] inc_le_iff [OF a] Let_def)
  qed
qed

lemma search_miss:
  assumes u: "table_wf u" and a: "a < a + 1" and c: "\<And>k. \<not> covers u (ra_mSection rng) a k"
  shows "h \<le> rows_cnt u \<Longrightarrow> addr_search env u rng rt a (a + 1) l h = Inr []"
proof (induction "h - l" arbitrary: l h rule: less_induct)
  case less
  show ?case
  proof (cases "l < h")
    case True
    define m where "m = (h + l) div 2"
    have m: "l \<le> m" "m < h" "m < rows_cnt u" using less.prems True by (auto simp: m_def)
    have "addr_search env u rng rt a (a + 1) l m = Inr []" "addr_search env u rng rt a (a + 1) (m + 1) h = Inr []"
      using less.hyps [of m l] less.hyps [of h "m + 1"] less.prems m True by auto
    moreover have "ls_mAddress (row u (m + 1)) \<le> a"
      if "ls_mSection (row u m) = ra_mSection rng" "ls_mAddress (row u m) \<le> a" "ls_mFlags (row u m) AND LINE_EndSequence = 0"
      using c [of m] table_next(1) [OF u m(3) that(3)] that by (simp add: covers_def not_less)
    ultimately show ?thesis using True
      by (simp add: addr_search.simps [of env u rng rt a "a + 1" l h] mid_next [OF u m(3)] inc_le_iff [OF a]
          m_def [symmetric] Let_def)
  qed (simp add: addr_search.simps)
qed

text \<open>Every sequence of rows ends with an end mark, and the rows name files of the unit.\<close>

definition sequences_end :: "CompUnit \<Rightarrow> bool" where
  "sequences_end u \<longleftrightarrow>
     (\<forall>k < rows_cnt u. k + 1 = rows_cnt u \<or> ls_mSection (row u k) \<noteq> ls_mSection (row u (k + 1)) \<longrightarrow>
        ls_mFlags (row u k) AND LINE_EndSequence \<noteq> 0) \<and>
     (\<forall>k < rows_cnt u. unat (ls_mFile (row u k)) < length (cu_mFiles u))"

lemma loaded_wf:
  "sort_ok senv \<Longrightarrow> indexed senv rows = (cu_mStates u, cu_mStatesIndex u) \<Longrightarrow> sequences_end u \<Longrightarrow> table_wf u"
  using indexed_sorted by (simp add: table_wf_def sequences_end_def)

lemma query_one_address:
  assumes "2 \<le> rows_cnt u" "a = addr0 - rt + ra_mAddr rng" "ra_mAddr rng \<le> a" "a < ra_mAddr rng + ra_mSize rng"
  shows "unit_address_to_line env u rng rt addr0 (addr0 + 1) = addr_search env u rng rt a (a + 1) 0 (rows_cnt u)" "a < a + 1"
proof -
  show "a < a + 1" by (rule less_inc [OF assms(4)])
  have "a + 1 \<le> ra_mAddr rng + ra_mSize rng" by (rule inc_le [OF assms(4)])
  moreover have max: "addr0 + 1 - rt + ra_mAddr rng = a + 1" using assms(2) by simp
  ultimately show "unit_address_to_line env u rng rt addr0 (addr0 + 1) = addr_search env u rng rt a (a + 1) 0 (rows_cnt u)"
    using assms(1,3) unfolding unit_address_to_line_def max assms(2) [symmetric] by (simp add: Let_def leD)
qed

lemma query_hit:
  assumes u: "table_wf u" and a: "2 \<le> rows_cnt u" "a = addr0 - rt + ra_mAddr rng" "ra_mAddr rng \<le> a" "a < ra_mAddr rng + ra_mSize rng"
    and c: "covers u (ra_mSection rng) a k"
  shows "\<exists>area. unit_address_to_line env u rng rt addr0 (addr0 + 1) = Inr [area] \<and>
          ca_start_line area = sint (ls_mLine (row u k)) \<and> ca_start_column area = uint (ls_mColumn (row u k)) \<and>
          ca_start_address area = ls_mAddress (row u k) - ra_mAddr rng + rt \<and>
          ca_end_address area = ls_mAddress (row u (k + 1)) - ra_mAddr rng + rt"
proof -
  obtain area where "area_call env u rng rt k = Inr (Some area)" and f: "ca_start_line area = sint (ls_mLine (row u k))"
    "ca_start_column area = uint (ls_mColumn (row u k))" "ca_start_address area = ls_mAddress (row u k) - ra_mAddr rng + rt"
    "ca_end_address area = ls_mAddress (row u (k + 1)) - ra_mAddr rng + rt"
    using run_area_call [OF u c, of env rng rt] by blast
  then show ?thesis
    using search_hit [OF u query_one_address(2) [OF a] c, of env rt area 0 "rows_cnt u"] c query_one_address(1) [OF a]
    by (auto simp: covers_def)
qed

text \<open>C15: In a table that the loader has sorted and indexed, and whose sequences are closed, a query for one address of the unit's
  range finds exactly the row that describes this address: the client is called once, with the line and column of the row and
  the run-time addresses where the row starts and ends. If no row describes the address, the client is not called.
\<close>

theorem address_to_line_one:
  assumes tab: "sort_ok senv" "indexed senv rows = (cu_mStates u, cu_mStatesIndex u)" "sequences_end u" "2 \<le> rows_cnt u"
    and a: "a = addr0 - rt + ra_mAddr rng" "ra_mAddr rng \<le> a" "a < ra_mAddr rng + ra_mSize rng"
  shows "(\<forall>k. covers u (ra_mSection rng) a k \<longrightarrow>
       (\<exists>area. unit_address_to_line env u rng rt addr0 (addr0 + 1) = Inr [area] \<and>
          ca_start_line area = sint (ls_mLine (row u k)) \<and> ca_start_column area = uint (ls_mColumn (row u k)) \<and>
          ca_start_address area = ls_mAddress (row u k) - ra_mAddr rng + rt \<and>
          ca_end_address area = ls_mAddress (row u (k + 1)) - ra_mAddr rng + rt)) \<and>
     ((\<forall>k. \<not> covers u (ra_mSection rng) a k) \<longrightarrow> unit_address_to_line env u rng rt addr0 (addr0 + 1) = Inr [])"
proof -
  have u: "table_wf u" by (rule loaded_wf [OF tab(1,2,3)])
  show ?thesis
    using query_hit [OF u tab(4) a] search_miss [OF u query_one_address(2) [OF tab(4) a]] query_one_address(1) [OF tab(4) a]
    by auto
qed

section \<open>An example\<close>

definition lk_row :: "u64 \<Rightarrow> u32 \<Rightarrow> byte \<Rightarrow> LineNumbersState" where
  "lk_row addr line flags = zero_state\<lparr>ls_mAddress := addr, ls_mLine := line, ls_mFlags := flags\<rparr>"

definition lk_rows :: "LineNumbersState list" where
  "lk_rows = [lk_row 0x1000 10 1, lk_row 0x1010 11 (LINE_EndSequence OR 1), lk_row 0x1014 20 1, lk_row 0x1020 21 (LINE_EndSequence OR 1)]"

definition lk_unit :: CompUnit where
  "lk_unit = ln_unit\<lparr>cu_mFiles := [zero_file], cu_mStates := fst (indexed key_sort lk_rows),
     cu_mStatesIndex := snd (indexed key_sort lk_rows)\<rparr>"

definition lk_env :: LookupEnv where
  "lk_env = \<lparr>is_absolute_path = (\<lambda>_. True), elf_map_to_run_time_address = (\<lambda>_ a. a), elf_run_time_address_in_region = (\<lambda>_ a. Some a)\<rparr>"

definition lk_range :: UnitAddressRange where
  "lk_range = \<lparr>ra_mSection = 0, ra_mAddr = 0x1000, ra_mSize = 0x20\<rparr>"

lemma lk_table: "map (\<lambda>t. (ls_mSection t, ls_mAddress t, ls_mLine t, ls_mFlags t, ls_mFile t)) (cu_mStates lk_unit) =
    [(0, 0x1000, 10, 1, 0), (0, 0x1010, 11, 17, 0), (0, 0x1014, 20, 1, 0), (0, 0x1020, 21, 17, 0)]"
  "length (cu_mStates lk_unit) = 4" "length (cu_mFiles lk_unit) = 1"
  by code_simp+

lemma lk_nth:
  "ls_mSection (row lk_unit 0) = 0" "ls_mAddress (row lk_unit 0) = 0x1000" "ls_mLine (row lk_unit 0) = 10"
  "ls_mFlags (row lk_unit 0) = 1" "ls_mColumn (row lk_unit 0) = 0" "ls_mAddress (row lk_unit 1) = 0x1010"
  by code_simp+

lemma lk_closed: "sequences_end lk_unit"
proof -
  have "list_all (\<lambda>k. (k + 1 = 4 \<or> ls_mSection (row lk_unit k) \<noteq> ls_mSection (row lk_unit (k + 1)) \<longrightarrow>
      ls_mFlags (row lk_unit k) AND LINE_EndSequence \<noteq> 0) \<and> unat (ls_mFile (row lk_unit k)) < 1) [0..<4]"
    by code_simp
  then show ?thesis by (simp add: sequences_end_def lk_table list_all_iff del: upt_Suc)
qed

theorem address_to_line_one_witness:
  "\<exists>area. unit_address_to_line lk_env lk_unit lk_range 0x5000 0x5008 0x5009 = Inr [area] \<and> ca_start_line area = 10 \<and>
     ca_start_address area = 0x5000 \<and> ca_end_address area = 0x5010"
proof -
  have "covers lk_unit (ra_mSection lk_range) 0x1008 0" by (simp add: covers_def lk_nth lk_table lk_range_def lk_nth [unfolded One_nat_def])
  moreover have "indexed key_sort lk_rows = (cu_mStates lk_unit, cu_mStatesIndex lk_unit)" by (simp add: lk_unit_def)
  ultimately have "\<exists>area. unit_address_to_line lk_env lk_unit lk_range 0x5000 0x5008 (0x5008 + 1) = Inr [area] \<and>
      ca_start_line area = sint (ls_mLine (row lk_unit 0)) \<and> ca_start_column area = uint (ls_mColumn (row lk_unit 0)) \<and>
      ca_start_address area = ls_mAddress (row lk_unit 0) - ra_mAddr lk_range + 0x5000 \<and>
      ca_end_address area = ls_mAddress (row lk_unit (0 + 1)) - ra_mAddr lk_range + 0x5000"
    using address_to_line_one [OF key_sort_ok _ lk_closed, of lk_rows "0x1008" "0x5008" "0x5000" lk_range lk_env]
    by (simp add: lk_table lk_range_def)
  then show ?thesis by (simp add: lk_nth lk_nth [unfolded One_nat_def] lk_range_def) blast
qed

section \<open>A range of addresses\<close>

text \<open>C40: A query for a range of addresses can miss rows that a query for a single address finds. Take any table that the
  loader has sorted and indexed and whose rows are two closed sequences of one row each, in one section: every query that
  starts inside the first sequence and ends behind its end mark, but not behind the start of the second sequence,
  calls the client not at all, while the query for its first address alone calls the client with the first row. The search goes
  to the right of every end mark, whether or not its address lies beyond the start of the query.
\<close>

theorem address_range_missed:
  assumes tab: "sort_ok senv" "indexed senv rows = (cu_mStates u, cu_mStatesIndex u)" "sequences_end u" "rows_cnt u = 4"
    and sec: "\<forall>k < 4. ls_mSection (row u k) = ra_mSection rng" "ls_mFlags (row u 1) AND LINE_EndSequence \<noteq> 0"
    and a: "a = addr0 - rt + ra_mAddr rng" "ra_mAddr rng \<le> a" "a < ra_mAddr rng + ra_mSize rng" "covers u (ra_mSection rng) a 0"
    and m: "m = addr1 - rt + ra_mAddr rng" "m \<le> ra_mAddr rng + ra_mSize rng"
      "ls_mAddress (row u 1) < m" "m \<le> ls_mAddress (row u 2)"
  shows "unit_address_to_line env u rng rt addr0 addr1 = Inr [] \<and>
     (\<exists>area. unit_address_to_line env u rng rt addr0 (addr0 + 1) = Inr [area] \<and> ca_start_line area = sint (ls_mLine (row u 0)))"
proof -
  have "unit_address_to_line env u rng rt addr0 addr1 = addr_search env u rng rt a m 0 4"
    using tab(4) a(2) m(2) unfolding unit_address_to_line_def a(1) [symmetric] m(1) [symmetric] by (simp add: Let_def leD)
  also have "\<dots> = addr_search env u rng rt a m 0 2"
    using sec(1) m(4) by (subst addr_search.simps) (simp add: Let_def)
  also have "\<dots> = addr_search env u rng rt a m 2 2"
    using sec m(3) [folded not_le] end_no_next [of u 1] by (subst addr_search.simps) (simp add: Let_def numeral_2_eq_2)
  also have "\<dots> = Inr []" by (subst addr_search.simps) simp
  finally show ?thesis
    using query_hit [OF loaded_wf [OF tab(1,2,3)] _ a] tab(4) by auto
qed

theorem address_range_missed_witness:
  "unit_address_to_line lk_env lk_unit lk_range 0x5000 0x5008 0x5012 = Inr [] \<and>
   (\<exists>area. unit_address_to_line lk_env lk_unit lk_range 0x5000 0x5008 0x5009 = Inr [area] \<and> ca_start_line area = 10)"
proof -
  have "list_all (\<lambda>k. ls_mSection (row lk_unit k) = 0) [0..<4]" by code_simp
  then have sec: "\<forall>k < 4. ls_mSection (row lk_unit k) = ra_mSection lk_range" by (simp add: list_all_iff lk_range_def del: upt_Suc)
  have "covers lk_unit (ra_mSection lk_range) 0x1008 0" "ls_mFlags (row lk_unit 1) AND LINE_EndSequence \<noteq> 0"
    "ls_mAddress (row lk_unit 1) < 0x1012" "0x1012 \<le> ls_mAddress (row lk_unit 2)" by code_simp+
  moreover have "indexed key_sort lk_rows = (cu_mStates lk_unit, cu_mStatesIndex lk_unit)" by (simp add: lk_unit_def)
  ultimately show ?thesis
    using address_range_missed [OF key_sort_ok _ lk_closed lk_table(2) sec, of lk_rows "0x1008" "0x5008" "0x5000" "0x1012" "0x5012" lk_env]
    by (simp add: lk_range_def lk_nth)
qed

end
