(* ===== verification/Spec2Isabelle.thy ===== *)
theory Spec2Isabelle
  imports ProtoClose SigMask Events VMStack Channel QueryProps DwarfProps LookupProps
begin

text \<open>
  A verification library for the TCF agent (\<^verbatim>\<open>src/agent\<close>), the program that gives remote
  debuggers access to a target. A peer connects through a channel; messages on the channel are
  sequences of symbols (bytes and the markers of end of message and end of stream), mostly in
  JSON; services handle the messages and run debugger code on behalf of the peer. The agent is
  driven by one event thread. The library covers the framework below the services, from the
  bytes on the wire to the values that a service reads, the event loop that everything runs on,
  queries for contexts, the evaluator of location expressions of the symbols service, and the readers of DWARF
  sections and line number tables.

  \<^bold>\<open>Conventions.\<close> The model is that of the 64-bit Linux build. Functions of the program are HOL
  functions with the name that they have in C. State is passed explicitly, as records with the
  fields of the C structures. A function that may leave through \<^verbatim>\<open>exception()\<close> returns an
  \<^verbatim>\<open>outcome\<close> (theory \<^verbatim>\<open>Prelude\<close>): \<open>Inl\<close> an exception with the error number, a failed
  \<^verbatim>\<open>assert\<close>, undefined behaviour of C, or \<open>Out_Of_Fuel\<close>. Sized integers are words, and a
  C \<^verbatim>\<open>int\<close> is an \<open>int\<close> whose overflow is undefined behaviour. Linked lists are lists, unless
  the identity of a node matters, in which case nodes have addresses.

  \<^bold>\<open>The theories.\<close>

  \<^item> \<^verbatim>\<open>Prelude\<close>: machine types, error numbers (\<^verbatim>\<open>errors.h\<close>), outcomes
    (\<^verbatim>\<open>exceptions.c\<close>), shared lemmas.

  \<^item> \<^verbatim>\<open>Streams\<close> (\<^verbatim>\<open>framework/streams.c\<close>, \<^verbatim>\<open>streams.h\<close>): the contracts
    \<open>input_stream\<close> and \<open>output_stream\<close>, the byte array and forwarding streams, which implement
    them. What is written to a growing byte array is what it returns.

  \<^item> \<^verbatim>\<open>Base64\<close> (\<^verbatim>\<open>framework/base64.c\<close>): the encoder equals a reference encoding, decoding
    inverts it, and neither leaves its buffer.

  \<^item> \<^verbatim>\<open>Json\<close>, \<^verbatim>\<open>JsonData\<close>, \<^verbatim>\<open>JsonError\<close> (\<^verbatim>\<open>framework/json.c\<close>): writers and readers of
    numbers, strings, structures, arrays, binary data, and error reports. Round trips for each of
    them; the copying reader returns the text of any value without fractions and binary data, and ends on every input.

  \<^item> \<^verbatim>\<open>Errors\<close> (\<^verbatim>\<open>framework/errors.c\<close>): the ring of error messages and the reference counted
    error reports. The counts are exact in every reachable state; the number that
    \<^verbatim>\<open>set_errno\<close> returns stands for its error; the lookup of a malicious report does not end.

  \<^item> \<^verbatim>\<open>SigSets\<close>, \<^verbatim>\<open>SigMask\<close> (\<^verbatim>\<open>framework/sigsets.c\<close> and the signal masks of
    \<^verbatim>\<open>services/processes.c\<close>): sorted arrays refine sets; masks survive a channel.

  \<^item> \<^verbatim>\<open>OutputQueue\<close> (\<^verbatim>\<open>framework/outputbuf.c\<close>): the queue between a channel and its transport
    is a FIFO of bytes (the contract \<open>send_queue\<close>), drains, and gives up on an error.

  \<^item> \<^verbatim>\<open>InputBuf\<close> (the model), \<^verbatim>\<open>InputRing\<close>, \<^verbatim>\<open>InputChannel\<close> (the proofs) of
    \<^verbatim>\<open>framework/inputbuf.c\<close> and the receiving half of \<^verbatim>\<open>framework/channel_tcp.c\<close>: the ring
    buffer, message counting and dispatching. The wire format is the automaton \<open>dstep\<close>. For
    every division of the received bytes into reads, the reader gets the symbols that the bytes
    encode (the contract \<open>symbol_channel\<close>).

  \<^item> \<^verbatim>\<open>ChannelOut\<close> (the sending half of \<^verbatim>\<open>framework/channel_tcp.c\<close>): escape sequences, binary
    blocks, flushing. What is sent decodes to what was written.

  \<^item> \<^verbatim>\<open>Channel\<close>: both halves and the bytes in transit. In every interleaving of writer,
    transport and reader the symbols read are the symbols written, and a message that is complete
    arrives.

  \<^item> \<^verbatim>\<open>Events\<close> (\<^verbatim>\<open>framework/events.c\<close>): event queue, timers, the free lists of nodes, posting
    from other threads, cancelling, the loop. No reachable state fails an assertion or uses a node
    twice; events run in the order in which they were posted, timers in the order of their times.

  \<^item> \<^verbatim>\<open>VM\<close> (the model), \<^verbatim>\<open>VMProps\<close>, \<^verbatim>\<open>VMStack\<close> (the proofs) of \<^verbatim>\<open>services/vm.c\<close>: the evaluator
    of DWARF location expressions, every operation of it. It computes the value of every compiled arithmetic expression and
    keeps its stack well formed; on every sequence of stack and arithmetic operations it does what a stack
    machine on lists does, and refuses operations that take more elements than there are; three operations that go wrong are shown as such.

  \<^item> \<^verbatim>\<open>Actions\<close>: code that works on shared state and may raise exceptions, with traps
    (\<^verbatim>\<open>set_trap\<close> of \<^verbatim>\<open>exceptions.c\<close>), and the rules by which invariants of it are proved.

  \<^item> \<^verbatim>\<open>Protocol\<close> (the model), \<^verbatim>\<open>ProtoTables\<close>, \<^verbatim>\<open>ProtoProps\<close>, \<^verbatim>\<open>ProtoClose\<close> (the proofs) of
    \<^verbatim>\<open>framework/protocol.c\<close>: registration of handlers, dispatching, commands and replies, the
    exchange of Hello messages, redirection, closing. The tables stay consistent in every run and
    satisfy the contract \<open>handler_table\<close>; commands reach the handler registered last, replies the
    function passed with the command; a Hello message is understood by the peer; closing a channel
    calls every pending handler once. Two defects are shown: a Hello message that makes the agent follow a null pointer,
    and a command that is lost when it is sent while a channel is being closed.

  \<^item> \<^verbatim>\<open>ContextQuery\<close> (the model), \<^verbatim>\<open>QueryProps\<close> (the proofs) of
    \<^verbatim>\<open>services/contextquery.c\<close>: parser and matcher of queries for contexts, and the commands of the
    service. The parser ends on every input and reads the text of every query; a context matches a query exactly
    as \<^verbatim>\<open>contextquery.h\<close> documents (\<open>doc_query\<close>), except for a \<^verbatim>\<open>**\<close> at the start of a query, which has to match at least
    one context, and the reply to a client lists exactly the contexts that match. \<^verbatim>\<open>context_query\<close> cuts a query with a
    syntax error off at the part that has the error; if this is the first part, a relative query matches every context and an
    absolute one none.

  \<^item> \<^verbatim>\<open>Leb128\<close>: the variable-length numbers of DWARF and their loops, as the contracts
    \<open>leb128_loop\<close>, \<open>uleb128_loop\<close> and \<open>sleb128_loop\<close>, which the readers of \<^verbatim>\<open>VM\<close> and
    \<^verbatim>\<open>DwarfAttr\<close> implement.

  \<^item> \<^verbatim>\<open>DwarfIO\<close> (the model of \<^verbatim>\<open>services/dwarfio.c\<close>), \<^verbatim>\<open>DwarfAttr\<close>,
    \<^verbatim>\<open>DwarfEntry\<close>, \<^verbatim>\<open>DwarfAbbrev\<close>, \<^verbatim>\<open>DwarfUnit\<close>, \<^verbatim>\<open>DwarfSafe\<close>, \<^verbatim>\<open>DwarfProps\<close>
    (the proofs): the reader of DWARF sections. Numbers and values of every form, the tables of abbreviations, entries and
    units are given an encoding (\<open>val_bytes\<close>, \<open>set_bytes\<close>, \<open>entries_bytes\<close>, \<open>header_bytes\<close>), and the
    reader of an encoded unit makes exactly the calls that report it. The search for one attribute is the full reading
    with other calls dropped. In units of DWARF 2 and later, an entry of arbitrary bytes without long LEB128 numbers is read or
    refused with an exception (\<open>safe\<close>, \<open>inside\<close>); long LEB128 numbers and blocks of DWARF 1 are shown to be
    read without a check.

  \<^item> \<^verbatim>\<open>LineNumbers\<close> (the model), \<^verbatim>\<open>LineProgram\<close>, \<^verbatim>\<open>LineProps\<close> (the proofs) of the
    line number tables of \<^verbatim>\<open>services/dwarfcache.c\<close>: the loader of line number programs and the index. The
    loader, run on the encoding (\<open>line_unit_bytes\<close>) of any program, stores the rows that the reference semantics
    (\<open>table_rows\<close>) gives, sorted and indexed; the index is a sorted permutation of the table. A header with line
    range 0 makes the loader divide by zero.

  \<^item> \<^verbatim>\<open>LineLookup\<close> (the model), \<^verbatim>\<open>LookupProps\<close> (the proofs) of the lookups of
    \<^verbatim>\<open>services/linenumbers_elf.c\<close> in the table of a unit, from addresses to lines and back. A query for one
    address finds exactly the row that describes it; a query for a range can miss rows before a gap.

  \<^bold>\<open>Bounds and fuel.\<close> Loops over the input get fuel for every symbol of the input and one more
  round, since each round consumes a symbol (theorems on termination say that this suffices); the
  loops of \<^verbatim>\<open>Errors\<close> that follow messages get one more round than there are messages; the
  enumeration of a signal set gets one more round than there are elements. The location expression
  machine reads at least one byte per step. The loops of the DWARF section reader get one more round than
  the section has bytes, the loop over the attributes of an entry two more rounds than its abbreviation has
  numbers, the loops of the line number loader one more round than the section has bytes,
  and \<open>dio_ReadEntry_safe\<close>, \<open>load_line_numbers_correct\<close> and \<open>dio_ReadUnit_calls\<close> show that this is enough. The search for a free token gets one more round than there are
  commands pending, and closing a bucket one more than the bucket has nodes.

  \<^bold>\<open>Parameters.\<close> Code that is not part of the program is an argument: \<^verbatim>\<open>strerror\<close> and
  \<^verbatim>\<open>gai_strerror\<close>, clocks, the socket (the division of bytes into reads and writes), memory and
  registers of the debugged program as the location expression machine sees them, and the functions
  that an event calls, \<^verbatim>\<open>qsort\<close> (any function that returns a sorted permutation), and the mapping of
  link-time addresses to the debugged program. The handlers and listeners of the dispatcher's clients are
  functions on the state of the dispatcher; a theorem that needs them to keep an invariant says so.

  \<^bold>\<open>Not modelled.\<close> Floating-point JSON numbers and \<^verbatim>\<open>json_splice_binary\<close>, which passes a
  file descriptor to the system; set-up and tear-down of sockets; UDP discovery; everything that
  drives an operating system's debug interface (\<^verbatim>\<open>agent/system\<close>, the run control, memory,
  register, process and terminal services); the ELF reader, which maps files through system calls, the
  caches of debugging information entries and the symbols and expression services on top of them; the loops over memory
  regions and units around the lookups of lines, and the comparison of path names in them; disassemblers and stack crawlers; the command
  line, Lua and GDB front ends; the value-add server. The manifest lists them.
\<close>

end
